(* ===== verification/Prelude.thy ===== *)
theory Prelude
  imports Main "HOL-Library.Word"
begin

text \<open>
  Shared ground of the development: the machine types of the sources (\<open>uint8_t\<close> up to
  \<open>uint64_t\<close> and \<open>size_t\<close> as words, so that wrap-around is the code's), the outcome of a C
  routine that returns \<open>bool\<close> and may touch memory it does not own, and the facts about words,
  lists and byte slices that several components use.
\<close>

unbundle bit_operations_syntax

type_synonym u8 = "8 word"
type_synonym u16 = "16 word"
type_synonym u32 = "32 word"
type_synonym u64 = "64 word"
type_synonym i64 = "64 word"
type_synonym size_t = "64 word"
type_synonym bytes = "u8 list"

text \<open>
  \<open>SIZE_MAX\<close> of a 64-bit target.
\<close>

definition SIZE_MAX :: size_t where
  "SIZE_MAX = 18446744073709551615"

definition INT64_MAX :: i64 where
  "INT64_MAX = 0x7FFFFFFFFFFFFFFF"

text \<open>
  What a C routine of type \<open>bool f(..., T* out)\<close> does: it returns true having stored a value,
  it returns false, or it reads or writes outside the memory it was given (undefined behaviour).
\<close>

datatype 'a rr = Got 'a | Rej | UB

text \<open>Collections: \<open>rr_simps\<close> holds rewrite rules for outcomes and the models' accessors.\<close>

named_theorems word_nat "word (in)equalities moved to the naturals"
named_theorems ctx_simps "projections and updates of the contexts"

section \<open>Words\<close>

lemma unat_SIZE_MAX [simp]: "unat SIZE_MAX = 2 ^ 64 - 1"
  by (simp add: SIZE_MAX_def)

lemma SIZE_MAX_minus_1: "SIZE_MAX = - 1"
  by (simp add: SIZE_MAX_def)

lemma le_SIZE_MAX [simp]: "(n :: size_t) \<le> SIZE_MAX"
  by (simp add: SIZE_MAX_minus_1)

lemma unat_lt64: "unat (n :: size_t) < 2 ^ 64"
  using unsigned_less [of n] by simp

lemma unat_add_no_wrap:
  "unat (a :: size_t) + unat b < 2 ^ 64 \<Longrightarrow> unat (a + b) = unat a + unat b"
  by (simp add: unat_word_ariths)

lemma unat_sub_le: "(b :: size_t) \<le> a \<Longrightarrow> unat (a - b) = unat a - unat b"
  by (simp add: unat_sub word_le_nat_alt)

lemma unat_mult_no_wrap:
  "unat (a :: size_t) * unat b < 2 ^ 64 \<Longrightarrow> unat (a * b) = unat a * unat b"
  by (simp add: unat_word_ariths)

lemma unat_of_nat_64: "n < 2 ^ 64 \<Longrightarrow> unat (word_of_nat n :: size_t) = n"
  by (simp add: unat_of_nat take_bit_nat_eq_self_iff)

lemma word_le_unat: "((a :: size_t) \<le> b) = (unat a \<le> unat b)"
  by (simp add: word_le_nat_alt)

lemma word_less_unat: "((a :: size_t) < b) = (unat a < unat b)"
  by (simp add: word_less_nat_alt)

lemma int_le_uint: "nat l \<le> unat (w :: 'a::len word) \<Longrightarrow> l \<le> uint w"
  using nat_le_iff [of l "unat w"] by simp

lemma unat_less_of_uint: "uint (w :: 'a::len word) < int n \<Longrightarrow> unat w < n"
  using of_nat_less_iff [of "unat w" n, where ?'a = int] by simp

lemma uint_pos: "0 < unat (w :: 'a::len word) \<Longrightarrow> 0 < uint w"
  by (metis nat_0_iff not_le unat_eq_nat_uint less_irrefl)

declare word_le_unat [word_nat] word_less_unat [word_nat]

section \<open>Lists and slices\<close>

definition slice :: "nat \<Rightarrow> nat \<Rightarrow> 'a list \<Rightarrow> 'a list" where
  "slice i n xs = take n (drop i xs)"

text \<open>\<open>memcpy(dst + i, src, length src)\<close>.\<close>

definition blit :: "nat \<Rightarrow> 'a list \<Rightarrow> 'a list \<Rightarrow> 'a list" where
  "blit i src dst = take i dst @ src @ drop (i + length src) dst"

lemma length_slice [simp]: "length (slice i n xs) = min n (length xs - i)"
  by (simp add: slice_def)

lemma length_blit [simp]:
  "i + length src \<le> length dst \<Longrightarrow> length (blit i src dst) = length dst"
  by (simp add: blit_def)

lemma slice_blit_same:
  "i + length src \<le> length dst \<Longrightarrow> slice i (length src) (blit i src dst) = src"
  by (simp add: slice_def blit_def)

lemma take_blit: "j \<le> i \<Longrightarrow> i + length src \<le> length dst \<Longrightarrow> take j (blit i src dst) = take j dst"
  by (simp add: blit_def)

lemma drop_blit:
  "i + length src \<le> j \<Longrightarrow> i + length src \<le> length dst \<Longrightarrow> drop j (blit i src dst) = drop j dst"
  by (simp add: blit_def)

lemma take_blit_end:
  "i + length src \<le> length dst \<Longrightarrow> take (i + length src) (blit i src dst) = take i dst @ src"
  by (simp add: blit_def)

lemma nth_blit_out:
  "j < i \<or> i + length src \<le> j \<Longrightarrow> j < length dst \<Longrightarrow> i + length src \<le> length dst \<Longrightarrow>
   blit i src dst ! j = dst ! j"
  by (auto simp: blit_def nth_append min_def)

lemma slice_append1: "i + n \<le> length xs \<Longrightarrow> slice i n (xs @ ys) = slice i n xs"
  by (simp add: slice_def)

lemma slice_split: "slice i (m + n) xs = slice i m xs @ slice (i + m) n xs"
  by (simp add: slice_def take_add add.commute)

lemma slice_take: "i + n \<le> m \<Longrightarrow> slice i n (take m xs) = slice i n xs"
  by (simp add: slice_def drop_take min_def)

lemma nth_slice: "k < n \<Longrightarrow> i + k < length xs \<Longrightarrow> slice i n xs ! k = xs ! (i + k)"
  by (simp add: slice_def)

section \<open>Blocks of memory\<close>

text \<open>A block of \<open>n\<close> cells after a \<open>realloc\<close>: what fits is kept, a cell never written is \<open>None\<close>.\<close>

definition recell :: "nat \<Rightarrow> 'a option list \<Rightarrow> 'a option list" where
  "recell n xs = take n xs @ replicate (n - length xs) None"

text \<open>A \<open>memset\<close> or \<open>memcpy\<close> into a block; \<open>None\<close> is a store outside it.\<close>

definition put_cells :: "nat \<Rightarrow> u8 list \<Rightarrow> u8 option list \<Rightarrow> u8 option list option" where
  "put_cells i bs xs = (if i + length bs \<le> length xs then Some (blit i (map Some bs) xs) else None)"

lemma length_recell [simp]: "length (recell n xs) = n"
  by (simp add: recell_def)

lemma take_recell: "i \<le> n \<Longrightarrow> i \<le> length xs \<Longrightarrow> take i (recell n xs) = take i xs"
  by (simp add: recell_def)

section \<open>Folding a step that may stop\<close>

fun run_ops :: "('o \<Rightarrow> 's \<Rightarrow> 's) \<Rightarrow> 'o list \<Rightarrow> 's \<Rightarrow> 's" where
  "run_ops f [] s = s"
| "run_ops f (x # xs) s = run_ops f xs (f x s)"

lemma run_ops_append: "run_ops f (xs @ ys) s = run_ops f ys (run_ops f xs s)"
  by (induction xs arbitrary: s) auto

lemma run_ops_invariant:
  "(\<And>x s. I s \<Longrightarrow> I (f x s)) \<Longrightarrow> I s \<Longrightarrow> I (run_ops f xs s)"
  by (induction xs arbitrary: s) auto

text \<open>Folding a step that may go outside its memory (\<open>None\<close>).\<close>

fun fold_opt :: "('a \<Rightarrow> 's \<Rightarrow> 's option) \<Rightarrow> 'a list \<Rightarrow> 's \<Rightarrow> 's option" where
  "fold_opt f [] s = Some s"
| "fold_opt f (x # xs) s = (case f x s of None \<Rightarrow> None | Some s' \<Rightarrow> fold_opt f xs s')"

text \<open>
  The poison contract of a growable container: an append never leaves its memory; it either takes
  or leaves the items alone and the container marked; once marked it stays marked. The client's
  fact is that a run of appends leaves a prefix, and the whole list exactly when not marked.
\<close>

locale push_seq =
  fixes push :: "'a \<Rightarrow> 's \<Rightarrow> 's option"
    and items :: "'s \<Rightarrow> 'a list"
    and bad :: "'s \<Rightarrow> bool"
    and inv :: "'s \<Rightarrow> bool"
  assumes push_step: "inv s \<Longrightarrow> \<exists>s'. push x s = Some s' \<and> inv s' \<and> (bad s \<longrightarrow> bad s') \<and>
      items s' = (if bad s' then items s else items s @ [x])"
begin

lemma push_run:
  "inv s \<Longrightarrow> \<exists>s' k. fold_opt push xs s = Some s' \<and> inv s' \<and> k \<le> length xs \<and>
     items s' = items s @ take k xs \<and> (bad s \<longrightarrow> bad s' \<and> k = 0) \<and> (\<not> bad s' \<longrightarrow> k = length xs)"
proof (induction xs arbitrary: s)
  case Nil
  then show ?case by auto
next
  case (Cons x xs)
  obtain s1 where s1: "push x s = Some s1" "inv s1" "bad s \<longrightarrow> bad s1"
    "items s1 = (if bad s1 then items s else items s @ [x])"
    using push_step [OF Cons.prems, of x] by blast
  obtain s2 k where s2: "fold_opt push xs s1 = Some s2" "inv s2" "k \<le> length xs"
    "items s2 = items s1 @ take k xs" "bad s1 \<longrightarrow> bad s2 \<and> k = 0" "\<not> bad s2 \<longrightarrow> k = length xs"
    using Cons.IH [OF s1(2)] by blast
  show ?case
  proof (cases "bad s1")
    case True
    with s1 s2 show ?thesis by (intro exI [of _ s2] exI [of _ 0]) auto
  next
    case False
    with s1 s2 show ?thesis by (intro exI [of _ s2] exI [of _ "Suc k"]) auto
  qed
qed

end

section \<open>Doubling a capacity\<close>

text \<open>The loop of the growable buffers: double until the want is covered, or take the want when doubling
  would wrap. \<open>None\<close> is a loop that does not end, as from a capacity of \<open>0\<close>.\<close>

partial_function (option) double_to :: "size_t \<Rightarrow> size_t \<Rightarrow> size_t option" where
  "double_to newcap want =
     (if newcap < want
      then double_to (if SIZE_MAX div 2 < newcap then want else newcap * 2) want
      else Some newcap)"

declare double_to.simps [code]

lemma double_to_terminates:
  "newcap \<noteq> 0 \<Longrightarrow> \<exists>r. double_to newcap want = Some r \<and> want \<le> r \<and> newcap \<le> r"
proof (induction "unat want - unat newcap" arbitrary: newcap rule: less_induct)
  case less
  show ?case
  proof (cases "newcap < want")
    case False
    then show ?thesis by (subst double_to.simps) simp
  next
    case True
    show ?thesis
    proof (cases "SIZE_MAX div 2 < newcap")
      case big: True
      have "double_to want want = Some want" by (subst double_to.simps) simp
      then show ?thesis using True big by (subst double_to.simps) auto
    next
      case False
      have "unat newcap \<le> (2 ^ 64 - 1) div 2" using False by (simp add: not_less word_le_nat_alt unat_div)
      then have d: "unat (newcap * 2) = unat newcap * 2" by (subst unat_mult_no_wrap) simp_all
      have p: "0 < unat newcap" using less.prems by (simp add: unat_gt_0)
      have "unat want - unat (newcap * 2) < unat want - unat newcap"
        using True d p by (simp add: word_less_nat_alt)
      moreover have nz: "newcap * 2 \<noteq> 0" using d p by (metis mult_is_0 neq0_conv unat_0 zero_neq_numeral)
      ultimately obtain r where r: "double_to (newcap * 2) want = Some r" "want \<le> r" "newcap * 2 \<le> r"
        using less.hyps [of "newcap * 2"] by blast
      have "newcap \<le> r" using r(3) d by (simp add: word_le_nat_alt)
      moreover have "double_to newcap want = Some r"
        using True False r(1) by (subst double_to.simps) simp
      ultimately show ?thesis using r(2) by blast
    qed
  qed
qed

end
