(* ===== verification/Ast.thy ===== *)
theory Ast
  imports Prelude
begin

text \<open>
  The abstract syntax of a grammar (\<open>frontend/BBQ_AST.h\<close>). A node class is a constructor with the members
  of the class in their order, an abstract class the datatype of its subclasses, a pointer to a node the
  node, and an \<open>std::optional\<close> or a pointer that the code tests for null an \<open>option\<close>. What the parser
  alone fills in and the passes over the tree only copy into messages, the source location of a node, is
  left out, and so are the verbatim code blocks. The members that hold types take the type of type
  expressions as a parameter, so that the type expressions are one datatype nested through them.
\<close>

section \<open>Enumerations\<close>

datatype width = W8 | W16 | W32 | W64
datatype signedness = Unsigned | Signed
datatype endianness = Little | Big | Default
datatype encoding = Fixed | Uleb | Sleb

datatype ast_binop = Add | Sub | Mul | Div | Mod | BitAnd | BitOr | BitXor | Shl | Shr
  | And | Or | Eq | Ne | Lt | Le | Gt | Ge

datatype ast_unop = Neg | BitNot | Not | Abs

section \<open>Expressions\<close>

text \<open>A name the resolution of cross-rule references has found elsewhere carries the path, the rule and the
  depth of it.\<close>

datatype expr =
    BinOp expr ast_binop expr
  | UnaryOp ast_unop expr
  | Ternary expr expr expr
  | IntLit i64
  | FloatLit u32
  | StrLit string
  | BoolLit bool
  | Ref ref_path
  | Call string "expr list"
  | EndianLit endianness
  | EOI
  | Builtin string
and ref_path =
    Simple string "string option" "string option" i64
  | FieldAcc ref_path string
  | IndexAcc ref_path expr

datatype interval = StartEnd expr expr | Length expr

datatype primitive_kind =
    IntegerKind width signedness endianness encoding
  | FloatKind width endianness
  | BytesKind
  | StringKind
  | BoolKind

section \<open>Parts of a type\<close>

datatype bitfield_entry =
  BitfieldEntry (e_name: string) (e_sign: signedness) (e_width: i64) (e_constraint: "expr option")

datatype 't field =
  Field (f_name: string) (f_body: 't) (f_constraint: "expr option") (f_interval: "interval option")
    (f_scopes_rest: bool)

datatype 't variant =
  Variant (v_name: string) (v_body: 't) (v_constraint: "expr option") (v_interval: "interval option")

datatype 't separator = TypeSep 't | NoneSep

datatype 't terminator = EofTerm | CountTerm expr | UntilTerm expr | TypeTerm 't

datatype 't array_spec = FixedCount expr | SepTerm "'t separator" "'t terminator"

datatype case_value = IntValue i64 | RangeValue i64 i64 | StrValue string | IdentValue string
  | RefValue "string list"

datatype 't arm = SwitchCase (c_value: case_value) (c_target: 't) (c_interval: "interval option")

datatype 't switch_default =
  SwitchDefault (sd_target: "'t option") (sd_interval: "interval option") (sd_is_reject: bool)

section \<open>Types\<close>

datatype type_expr =
    Alternatives "type_expr list"
  | Struct "type_expr field list" "expr option"
  | Union "type_expr variant list"
  | Array type_expr "type_expr array_spec" "expr option" "interval option" "interval option" bool
  | Optional type_expr "expr option" "interval option"
  | Switch expr "type_expr arm list" "type_expr switch_default option"
  | Compute expr "primitive_kind option"
  | Primitive primitive_kind "expr option" "interval option"
  | RuleRef string "expr option" "interval option"
  | Extern string string string "expr option" "interval option"
  | Bitfield primitive_kind "bitfield_entry list"
  | EndianSwitch expr

type_synonym type_field = "type_expr field"

record rule =
  r_name :: string
  r_body :: type_expr

record grammar =
  g_directives :: "endianness list"
  g_rules :: "rule list"

section \<open>Recursion over the tree\<close>

lemma size_members [termination_simp]:
  fixes f :: "type_expr field" and v :: "type_expr variant" and c :: "type_expr arm"
  shows "size (f_body f) < size_field size f" "size (v_body v) < size_variant size v" "size (c_target c) < size_arm size c"
  by (cases f, simp) (cases v, simp, cases c, simp)

lemma size_lists [termination_simp]:
  "f \<in> set fs \<Longrightarrow> size (f_body f) < Suc (size_list (size_field size) fs)"
  "v \<in> set vs \<Longrightarrow> size (v_body v) < Suc (size_list (size_variant size) vs)"
  "c \<in> set cs \<Longrightarrow> size (c_target c) < Suc (size_list (size_arm size) cs)"
  for fs :: "type_expr field list" and vs :: "type_expr variant list" and cs :: "type_expr arm list"
  using size_members by (meson less_Suc_eq_le less_imp_le_nat order.strict_trans2 size_list_estimation')+

end
