(* ===== verification/Sema.thy ===== *)
theory Sema
  imports Ast "HOL-Library.Char_ord"
begin

text \<open>
  The semantic checks of a grammar, phases 1 to 3 and 6 (\<open>frontend/Sema.cpp\<close>, \<open>Sema.h\<close>): the rules and
  the names they bind, the references of types and expressions and the dependencies between rules they
  give, the nesting limit, arrays that have to make progress, bit fields and switches.

  The analysis is a state, \<open>Sema\<close>'s members, that every check passes on. A checker that does no more than
  report gives the list of its reports. A message is a constructor with the arguments it prints; what a
  message says besides, and where, is not modelled. An unordered set or map of the code is a list in the
  order of insertion: the code's own order is not specified, and only the order of messages and the choice
  among equally close suggestions depend on it.
\<close>

section \<open>Messages (Errors.h)\<close>

datatype diag =
    DuplicateRule string
  | NestsTooDeep string
  | NeedNotProgress
  | ResyncUntil
  | ElementIntervalUncounted
  | ElementIntervalConstant
  | UndefinedRule string "string option"
  | RunNeedsLength
  | ExternNoName
  | ExternBadName string
  | ExternNoType
  | ContainerNotInteger
  | EntryWidth string
  | DuplicateEntry string
  | EntrySum int int
  | PeekArguments
  | UnknownBuiltin string
  | UnknownReference string string "string option"
  | Circular string
  | ForwardReference string string
  | IndexOutsideArray string
  | DuplicateIntCase i64 string
  | DuplicateStrCase string string
  | MixedCases string
  | NoDefaultCase string
  | NotNumeric
  | NotInteger
  | NotBoolean
  | CommonToArms string
  | BoundByArms string nat nat
  | BoundByNoArm string
  | NoField string "string option"
  | IndexNotInteger
  | IntervalNotInteger
  | IntervalNegative
  | IntervalInverted
  | ConstraintNotBoolean
  | TwoConstraints string
  | ComparesToItself string bool
  | ComputeNoType
  | ComputeIncompatible
  | CountNotInteger
  | UntilNotBoolean
  | EndianNotEndian

datatype report = Error diag | Warning diag

fun is_error :: "report \<Rightarrow> bool" where
  "is_error (Error _) = True"
| "is_error (Warning _) = False"

definition has_errors :: "report list \<Rightarrow> bool" where
  "has_errors rs = list_ex is_error rs"

lemma has_errors_simps [simp]:
  "has_errors [] = False"
  "has_errors (Error d # rs) = True"
  "has_errors (Warning d # rs) = has_errors rs"
  "has_errors (rs @ rs') = (has_errors rs \<or> has_errors rs')"
  by (simp_all add: has_errors_def)

lemma has_errors_concat [simp]: "has_errors (concat rss) = list_ex has_errors rss"
  by (induction rss) simp_all

section \<open>The state (Sema.h)\<close>

type_synonym rules = "(string \<times> type_expr) list"

record sema =
  se_rules :: rules
  se_deps :: "(string \<times> string list) list"
  se_bound :: "string list"
  se_reports :: "report list"
  se_nested :: bool
  se_sorted :: "string list"
  se_endian :: endianness

definition new_sema :: sema where
  "new_sema = \<lparr>se_rules = [], se_deps = [], se_bound = [], se_reports = [], se_nested = False, se_sorted = [],
     se_endian = Little\<rparr>"

definition lookup_rule :: "rules \<Rightarrow> string \<Rightarrow> type_expr option" where
  "lookup_rule rs name = map_of rs name"

definition say :: "report list \<Rightarrow> sema \<Rightarrow> sema" where
  "say rs s = s\<lparr>se_reports := se_reports s @ rs\<rparr>"

definition sema_failed :: "sema \<Rightarrow> bool" where
  "sema_failed s = has_errors (se_reports s)"

text \<open>\<open>insert\<close> into an unordered set.\<close>

definition set_insert :: "'a \<Rightarrow> 'a list \<Rightarrow> 'a list" where
  "set_insert x xs = (if x \<in> set xs then xs else xs @ [x])"

lemma set_set_insert [simp]: "set (set_insert x xs) = insert x (set xs)"
  by (auto simp: set_insert_def)

lemma distinct_set_insert [simp]: "distinct (set_insert x xs) = distinct xs"
  by (auto simp: set_insert_def)

text \<open>\<open>deps_[ctx].insert(name)\<close>.\<close>

definition add_dep :: "string \<Rightarrow> string \<Rightarrow> (string \<times> string list) list \<Rightarrow> (string \<times> string list) list" where
  "add_dep ctx name ds = (if ctx \<in> fst ` set ds
     then map (\<lambda>(r, ns). (r, if r = ctx then set_insert name ns else ns)) ds
     else ds @ [(ctx, [name])])"

section \<open>Suggestions\<close>

text \<open>A row of the table of \<open>edit_distance\<close> from the one above it: \<open>left\<close> is the entry just computed, the
  first of \<open>prev\<close> the one diagonally above the entry to compute.\<close>

fun dp_entries :: "char \<Rightarrow> string \<Rightarrow> nat list \<Rightarrow> nat \<Rightarrow> nat list" where
  "dp_entries a (b # bs) (diag # up # prev) left =
     (let e = min (up + 1) (min (left + 1) (diag + (if a = b then 0 else 1)))
      in e # dp_entries a bs (up # prev) e)"
| "dp_entries a bs prev left = []"

definition dp_row :: "string \<Rightarrow> nat \<Rightarrow> char \<Rightarrow> nat list \<Rightarrow> nat list" where
  "dp_row bs i a prev = i # dp_entries a bs prev i"

fun dp_rows :: "string \<Rightarrow> nat \<Rightarrow> string \<Rightarrow> nat list \<Rightarrow> nat list" where
  "dp_rows bs i [] prev = prev"
| "dp_rows bs i (a # as) prev = dp_rows bs (Suc i) as (dp_row bs i a prev)"

definition edit_distance :: "string \<Rightarrow> string \<Rightarrow> nat" where
  "edit_distance a b = last (dp_rows b 1 a [0..<Suc (length b)])"

text \<open>The first name whose distance is below the best so far.\<close>

definition closest :: "nat \<Rightarrow> string \<Rightarrow> string list \<Rightarrow> string option" where
  "closest limit name names = fst (fold (\<lambda>n (best, d).
     if edit_distance name n < d then (Some n, edit_distance name n) else (best, d)) names (None, limit))"

definition find_closest_rule :: "rules \<Rightarrow> string \<Rightarrow> string option" where
  "find_closest_rule rs name = closest 4 name (map fst rs)"

definition find_closest_field :: "string \<Rightarrow> type_expr field list \<Rightarrow> string option" where
  "find_closest_field name fs = closest 4 name (map f_name fs)"

section \<open>Identifiers\<close>

definition is_alpha :: "char \<Rightarrow> bool" where
  "is_alpha c = ((CHR ''a'' \<le> c \<and> c \<le> CHR ''z'') \<or> (CHR ''A'' \<le> c \<and> c \<le> CHR ''Z''))"

definition is_alnum :: "char \<Rightarrow> bool" where
  "is_alnum c = (is_alpha c \<or> (CHR ''0'' \<le> c \<and> c \<le> CHR ''9''))"

fun ident_rest :: "string \<Rightarrow> bool" where
  "ident_rest [] = True"
| "ident_rest (c # cs) = (if is_alnum c \<or> c = CHR ''_'' then ident_rest cs
     else (case cs of d # ds \<Rightarrow> c = CHR '':'' \<and> d = CHR '':'' \<and> ident_rest ds | [] \<Rightarrow> False))"

definition is_valid_cpp_ident :: "string \<Rightarrow> bool" where
  "is_valid_cpp_ident s = (case s of [] \<Rightarrow> False
     | c # cs \<Rightarrow> (is_alpha c \<or> c = CHR ''_'') \<and> ident_rest cs)"

section \<open>Phase 1: rules and bound names\<close>

fun collect_bound_names :: "type_expr \<Rightarrow> string list" where
  "collect_bound_names (Struct fs _) = concat (map (\<lambda>f. f_name f # collect_bound_names (f_body f)) fs)"
| "collect_bound_names (Union vs) = concat (map (\<lambda>v. v_name v # collect_bound_names (v_body v)) vs)"
| "collect_bound_names (Alternatives alts) = concat (map collect_bound_names alts)"
| "collect_bound_names (Array element spec _ _ _ _) = collect_bound_names element @
     (case spec of
        SepTerm sep trm \<Rightarrow> (case sep of TypeSep t \<Rightarrow> collect_bound_names t | NoneSep \<Rightarrow> []) @
          (case trm of TypeTerm t \<Rightarrow> collect_bound_names t | _ \<Rightarrow> [])
      | FixedCount _ \<Rightarrow> [])"
| "collect_bound_names (Optional element _ _) = collect_bound_names element"
| "collect_bound_names (Switch _ cs dflt) = concat (map (\<lambda>c. collect_bound_names (c_target c)) cs) @
     (case dflt of Some (SwitchDefault (Some t) _ _) \<Rightarrow> collect_bound_names t | _ \<Rightarrow> [])"
| "collect_bound_names (Bitfield _ es) = map e_name es"
| "collect_bound_names (Compute _ _) = []"
| "collect_bound_names (Primitive _ _ _) = []"
| "collect_bound_names (RuleRef _ _ _) = []"
| "collect_bound_names (Extern _ _ _ _ _) = []"
| "collect_bound_names (EndianSwitch _) = []"

text \<open>\<open>emplace\<close> keeps the first of two rules of one name.\<close>

definition collect_rule :: "rule \<Rightarrow> sema \<Rightarrow> sema" where
  "collect_rule r s =
     (let fresh = lookup_rule (se_rules s) (r_name r) = None;
          s1 = (if fresh then s\<lparr>se_rules := se_rules s @ [(r_name r, r_body r)]\<rparr>
                else say [Error (DuplicateRule (r_name r))] s);
          s2 = (if r_name r \<in> fst ` set (se_deps s1) then s1 else s1\<lparr>se_deps := se_deps s1 @ [(r_name r, [])]\<rparr>)
      in s2\<lparr>se_bound := fold set_insert (r_name r # collect_bound_names (r_body r)) (se_bound s2)\<rparr>)"

definition collect_rules :: "grammar \<Rightarrow> sema \<Rightarrow> sema" where
  "collect_rules g s = fold collect_rule (g_rules g) (s\<lparr>se_bound := set_insert ''_'' (se_bound s)\<rparr>)"

section \<open>Phase 2: endianness\<close>

definition resolve_endian :: "grammar \<Rightarrow> sema \<Rightarrow> sema" where
  "resolve_endian g s = fold (\<lambda>e s. s\<lparr>se_endian := e\<rparr>) (g_directives g) s"

section \<open>Phase 3: references of expressions\<close>

definition known_builtins :: "string list" where
  "known_builtins = [''pos'', ''start'', ''end'', ''index'', ''buffer'', ''remaining'']"

fun validate_expr :: "string list \<Rightarrow> string \<Rightarrow> expr \<Rightarrow> report list"
and validate_ref_path :: "string list \<Rightarrow> string \<Rightarrow> ref_path \<Rightarrow> report list" where
  "validate_expr bound ctx (BinOp l _ r) = validate_expr bound ctx l @ validate_expr bound ctx r"
| "validate_expr bound ctx (UnaryOp _ e) = validate_expr bound ctx e"
| "validate_expr bound ctx (Ternary c t e) =
     validate_expr bound ctx c @ validate_expr bound ctx t @ validate_expr bound ctx e"
| "validate_expr bound ctx (Ref p) = validate_ref_path bound ctx p"
| "validate_expr bound ctx (Call func args) =
     (if func = ''peek'' \<and> args \<noteq> [] then [Error PeekArguments] else []) @ concat (map (validate_expr bound ctx) args)"
| "validate_expr bound ctx (Builtin name) =
     (if name \<in> set known_builtins then [] else [Error (UnknownBuiltin name)])"
| "validate_expr bound ctx (IntLit _) = []"
| "validate_expr bound ctx (FloatLit _) = []"
| "validate_expr bound ctx (StrLit _) = []"
| "validate_expr bound ctx (BoolLit _) = []"
| "validate_expr bound ctx (EndianLit _) = []"
| "validate_expr bound ctx EOI = []"
| "validate_ref_path bound ctx (FieldAcc base _) = validate_ref_path bound ctx base"
| "validate_ref_path bound ctx (IndexAcc base index) = validate_ref_path bound ctx base @ validate_expr bound ctx index"
| "validate_ref_path bound ctx (Simple name _ _ _) =
     (if name \<in> set bound then []
      else [Error (UnknownReference name ctx (closest (length name div 2 + 1) name bound))])"

fun validate_interval :: "string list \<Rightarrow> string \<Rightarrow> interval \<Rightarrow> report list" where
  "validate_interval bound ctx (StartEnd a b) = validate_expr bound ctx a @ validate_expr bound ctx b"
| "validate_interval bound ctx (Length n) = validate_expr bound ctx n"

text \<open>The optional members of a type.\<close>

definition opt_expr :: "string list \<Rightarrow> string \<Rightarrow> expr option \<Rightarrow> report list" where
  "opt_expr bound ctx e = (case e of Some x \<Rightarrow> validate_expr bound ctx x | None \<Rightarrow> [])"

definition opt_interval :: "string list \<Rightarrow> string \<Rightarrow> interval option \<Rightarrow> report list" where
  "opt_interval bound ctx iv = (case iv of Some x \<Rightarrow> validate_interval bound ctx x | None \<Rightarrow> [])"

text \<open>A reference is looked into for \<open>@index\<close> only where its last step is a subscript.\<close>

fun contains_loop_var :: "expr \<Rightarrow> bool" where
  "contains_loop_var (Builtin name) = (name = ''index'')"
| "contains_loop_var (Ref (IndexAcc base index)) = contains_loop_var index"
| "contains_loop_var (Ref (Simple _ _ _ _)) = False"
| "contains_loop_var (Ref (FieldAcc _ _)) = False"
| "contains_loop_var (BinOp l _ r) = (contains_loop_var l \<or> contains_loop_var r)"
| "contains_loop_var (UnaryOp _ e) = contains_loop_var e"
| "contains_loop_var (Ternary c t e) = (contains_loop_var c \<or> contains_loop_var t \<or> contains_loop_var e)"
| "contains_loop_var (Call _ args) = list_ex contains_loop_var args"
| "contains_loop_var (IntLit _) = False"
| "contains_loop_var (FloatLit _) = False"
| "contains_loop_var (StrLit _) = False"
| "contains_loop_var (BoolLit _) = False"
| "contains_loop_var (EndianLit _) = False"
| "contains_loop_var EOI = False"

section \<open>Phase 3: arrays that make progress\<close>

definition is_run :: "primitive_kind \<Rightarrow> bool" where
  "is_run k = (k = BytesKind \<or> k = StringKind)"

text \<open>\<open>may_read_nothing\<close>; \<open>visiting\<close> holds the rules being looked into, a rule found there again
  establishes nothing.\<close>

function may_read_nothing :: "rules \<Rightarrow> string list \<Rightarrow> type_expr \<Rightarrow> bool" where
  "may_read_nothing rs visiting (Struct fs _) = list_all (\<lambda>f. may_read_nothing rs visiting (f_body f)) fs"
| "may_read_nothing rs visiting (Union vs) = list_ex (\<lambda>v. may_read_nothing rs visiting (v_body v)) vs"
| "may_read_nothing rs visiting (Alternatives alts) = list_ex (may_read_nothing rs visiting) alts"
| "may_read_nothing rs visiting (Switch _ cs dflt) = (list_ex (\<lambda>c. may_read_nothing rs visiting (c_target c)) cs \<or>
     (case dflt of Some (SwitchDefault (Some t) _ _) \<Rightarrow> may_read_nothing rs visiting t | _ \<Rightarrow> False))"
| "may_read_nothing rs visiting (Array element spec _ _ _ _) = (case spec of
     FixedCount (IntLit n) \<Rightarrow> if sint n \<le> 0 then True else may_read_nothing rs visiting element
   | _ \<Rightarrow> True)"
| "may_read_nothing rs visiting (RuleRef name _ _) = (case lookup_rule rs name of
     None \<Rightarrow> True
   | Some body \<Rightarrow> if name \<in> set visiting then True else may_read_nothing rs (name # visiting) body)"
| "may_read_nothing rs visiting (Primitive kind _ iv) =
     (if \<not> is_run kind then False
      else case iv of Some (Length (IntLit n)) \<Rightarrow> sint n \<le> 0 | _ \<Rightarrow> True)"
| "may_read_nothing rs visiting (Bitfield _ _) = False"
| "may_read_nothing rs visiting (Optional _ _ _) = True"
| "may_read_nothing rs visiting (Compute _ _) = True"
| "may_read_nothing rs visiting (Extern _ _ _ _ _) = True"
| "may_read_nothing rs visiting (EndianSwitch _) = True"
  by pat_completeness auto
termination
proof (relation "measures [\<lambda>(rs, visiting, t). card (fst ` set rs - set visiting), \<lambda>(rs, visiting, t). size t]",
    goal_cases)
  case (8 rs visiting name c iv body)
  then have "name \<in> fst ` set rs" by (auto simp: lookup_rule_def dest!: map_of_SomeD) force
  moreover from this have "fst ` set rs - set (name # visiting) \<subset> fst ` set rs - set visiting"
    using 8(2) by auto
  then have "card (fst ` set rs - set (name # visiting)) < card (fst ` set rs - set visiting)"
    by (intro psubset_card_mono) simp_all
  ultimately show ?case by simp
qed (auto simp: termination_simp)

section \<open>Phase 6: switches\<close>

text \<open>The values a discriminator can take, where they are tracked: literals, \<open>peek()\<close>, right shifts by
  a literal, and bitwise and.\<close>

fun compute_value_range :: "expr \<Rightarrow> (int \<times> int) option" where
  "compute_value_range (IntLit v) = Some (sint v, sint v)"
| "compute_value_range (Call func args) = (if func = ''peek'' \<and> args = [] then Some (0, 255) else None)"
| "compute_value_range (BinOp l op r) = (case (compute_value_range l, compute_value_range r) of
      (Some (l0, l1), Some (r0, r1)) \<Rightarrow>
        (if op = Shr then
           (if r0 \<noteq> r1 then None else if r0 < 0 \<or> 63 \<le> r0 then None
            else Some (l0 div 2 ^ nat r0, l1 div 2 ^ nat r0))
         else if op = BitAnd then (if min l1 r1 < 0 then None else Some (0, min l1 r1))
         else None)
    | _ \<Rightarrow> None)"
| "compute_value_range e = None"

text \<open>The integer values seen are kept as \<open>int\<close>, 32 bits of the case's 64.\<close>

type_synonym seen_values = "(32 word list \<times> string list) \<times> bool \<times> bool"

fun check_case :: "string \<Rightarrow> type_expr arm \<Rightarrow> report list \<times> seen_values \<Rightarrow> report list \<times> seen_values" where
  "check_case ctx c (reps, (ints, strs), has_str, has_int) = (case c_value c of
      IntValue v \<Rightarrow> (if (ucast v :: 32 word) \<in> set ints
        then (reps @ [Error (DuplicateIntCase v ctx)], (ints, strs), has_str, True)
        else (reps, (ucast v # ints, strs), has_str, True))
    | StrValue v \<Rightarrow> (if v \<in> set strs
        then (reps @ [Error (DuplicateStrCase v ctx)], (ints, strs), True, has_int)
        else (reps, (ints, v # strs), True, has_int))
    | _ \<Rightarrow> (reps, (ints, strs), has_str, True))"

definition case_ints :: "type_expr arm list \<Rightarrow> int list" where
  "case_ints cs = concat (map (\<lambda>c. case c_value c of IntValue v \<Rightarrow> [sint v] | _ \<Rightarrow> []) cs)"

definition covers_range :: "expr \<Rightarrow> type_expr arm list \<Rightarrow> bool" where
  "covers_range disc cs = (case compute_value_range disc of
      None \<Rightarrow> False
    | Some (lo, hi) \<Rightarrow> hi - lo \<le> 256 \<and> list_all (\<lambda>v. v \<in> set (case_ints cs)) [lo..hi])"

definition validate_switch ::
    "string \<Rightarrow> expr \<Rightarrow> type_expr arm list \<Rightarrow> type_expr switch_default option \<Rightarrow> report list" where
  "validate_switch ctx disc cs dflt =
     (case fold (check_case ctx) cs ([], ([], []), False, False) of
        (reps, _, has_str, has_int) \<Rightarrow>
          reps @ (if has_str \<and> has_int then [Error (MixedCases ctx)] else []) @
          (if dflt = None \<and> \<not> covers_range disc cs then [Warning (NoDefaultCase ctx)] else []))"

section \<open>Phase 3: types\<close>

definition kMaxNesting :: nat where
  "kMaxNesting = 256"

definition too_deep :: "string \<Rightarrow> sema \<Rightarrow> sema" where
  "too_deep ctx s = (if se_nested s then s else say [Error (NestsTooDeep ctx)] (s\<lparr>se_nested := True\<rparr>))"

fun width_bits :: "width \<Rightarrow> int" where
  "width_bits W8 = 8" | "width_bits W16 = 16" | "width_bits W32 = 32" | "width_bits W64 = 64"

text \<open>The sum of the widths is an \<open>int\<close>.\<close>

fun check_entries :: "bitfield_entry list \<Rightarrow> string list \<Rightarrow> 32 word \<Rightarrow> report list \<times> 32 word" where
  "check_entries [] names acc = ([], acc)"
| "check_entries (e # es) names acc =
     (case check_entries es (set_insert (e_name e) names) (acc + ucast (e_width e)) of
        (rs, bits) \<Rightarrow> ((if sint (e_width e) \<le> 0 then [Error (EntryWidth (e_name e))] else []) @
          (if e_name e \<in> set names then [Error (DuplicateEntry (e_name e))] else []) @ rs, bits))"

definition validate_bitfield :: "primitive_kind \<Rightarrow> bitfield_entry list \<Rightarrow> report list" where
  "validate_bitfield container es = (case container of
      IntegerKind w _ _ _ \<Rightarrow> (case check_entries es [] 0 of
        (rs, bits) \<Rightarrow> rs @ (if sint bits \<noteq> width_bits w then [Error (EntrySum (sint bits) (width_bits w))] else []))
    | _ \<Rightarrow> [Error ContainerNotInteger])"

definition validate_extern :: "string \<Rightarrow> string \<Rightarrow> report list" where
  "validate_extern func cpp_type =
     (if func = [] then [Error ExternNoName]
      else if \<not> is_valid_cpp_ident func then [Error (ExternBadName func)] else []) @
     (if cpp_type = [] then [Error ExternNoType] else [])"

text \<open>An array that only the input ends, and the separator that may make it advance.\<close>

definition may_stand_still :: "rules \<Rightarrow> type_expr \<Rightarrow> type_expr array_spec \<Rightarrow> bool" where
  "may_stand_still rs element spec = (case spec of
      SepTerm sep trm \<Rightarrow>
        (case trm of EofTerm \<Rightarrow> True | UntilTerm _ \<Rightarrow> True | _ \<Rightarrow> False) \<and>
        \<not> (case sep of TypeSep t \<Rightarrow> \<not> may_read_nothing rs [] t | NoneSep \<Rightarrow> False) \<and>
        may_read_nothing rs [] element
    | FixedCount _ \<Rightarrow> False)"

definition element_interval_reports :: "string list \<Rightarrow> string \<Rightarrow> type_expr array_spec \<Rightarrow> interval option \<Rightarrow> report list" where
  "element_interval_reports bound ctx spec iv = (case iv of
      None \<Rightarrow> []
    | Some eiv \<Rightarrow> validate_interval bound ctx eiv @
        (if (case spec of FixedCount _ \<Rightarrow> True | SepTerm _ (CountTerm _) \<Rightarrow> True | _ \<Rightarrow> False) then []
         else [Error ElementIntervalUncounted]) @
        (if (case eiv of StartEnd a b \<Rightarrow> contains_loop_var a \<or> contains_loop_var b | Length _ \<Rightarrow> False) then []
         else [Warning ElementIntervalConstant]))"

definition reference :: "string \<Rightarrow> bool \<Rightarrow> string \<Rightarrow> sema \<Rightarrow> sema" where
  "reference ctx guarded name s =
     (if lookup_rule (se_rules s) name = None
      then say [Error (UndefinedRule name (find_closest_rule (se_rules s) name))] s
      else if \<not> guarded then s\<lparr>se_deps := add_dep ctx name (se_deps s)\<rparr> else s)"

text \<open>The terminator of an array, after its separator.\<close>

definition terminator_reports :: "string list \<Rightarrow> string \<Rightarrow> type_expr array_spec \<Rightarrow> bool \<Rightarrow> report list" where
  "terminator_reports bound ctx spec resync = (case spec of
      SepTerm _ (CountTerm e) \<Rightarrow> validate_expr bound ctx e
    | SepTerm _ (UntilTerm e) \<Rightarrow> validate_expr bound ctx e @ (if resync then [Error ResyncUntil] else [])
    | FixedCount e \<Rightarrow> validate_expr bound ctx e
    | _ \<Rightarrow> [])"

fun validate_type :: "type_expr \<Rightarrow> string \<Rightarrow> bool \<Rightarrow> nat \<Rightarrow> sema \<Rightarrow> sema" where
  "validate_type (Struct fs constraint) ctx guarded depth s =
     (if kMaxNesting < depth then too_deep ctx s
      else let s1 = fold (\<lambda>f s. let s2 = validate_type (f_body f) ctx guarded (Suc depth) s
             in say (opt_expr (se_bound s2) ctx (f_constraint f) @ opt_interval (se_bound s2) ctx (f_interval f)) s2) fs s
           in say (opt_expr (se_bound s1) ctx constraint) s1)"
| "validate_type (Union vs) ctx guarded depth s =
     (if kMaxNesting < depth then too_deep ctx s
      else fold (\<lambda>v s. let s2 = validate_type (v_body v) ctx guarded (Suc depth) s
             in say (opt_expr (se_bound s2) ctx (v_constraint v)) s2) vs s)"
| "validate_type (Array element spec constraint iv eiv resync) ctx guarded depth s =
     (if kMaxNesting < depth then too_deep ctx s
      else let s1 = validate_type element ctx True (Suc depth) s;
               s2 = (case spec of SepTerm (TypeSep t) _ \<Rightarrow> validate_type t ctx guarded (Suc depth) s1 | _ \<Rightarrow> s1);
               s3 = say ((if may_stand_still (se_rules s2) element spec then [Error NeedNotProgress] else []) @
                 terminator_reports (se_bound s2) ctx spec resync) s2;
               s4 = (case spec of SepTerm _ (TypeTerm t) \<Rightarrow> validate_type t ctx guarded (Suc depth) s3 | _ \<Rightarrow> s3)
           in say (opt_expr (se_bound s4) ctx constraint @ opt_interval (se_bound s4) ctx iv @
             element_interval_reports (se_bound s4) ctx spec eiv) s4)"
| "validate_type (Optional element constraint iv) ctx guarded depth s =
     (if kMaxNesting < depth then too_deep ctx s
      else let s1 = validate_type element ctx False (Suc depth) s in say (opt_expr (se_bound s1) ctx constraint) s1)"
| "validate_type (Switch disc cs dflt) ctx guarded depth s =
     (if kMaxNesting < depth then too_deep ctx s
      else let s1 = say (validate_expr (se_bound s) ctx disc) s;
               s2 = fold (\<lambda>c. validate_type (c_target c) ctx guarded (Suc depth)) cs s1;
               s3 = (case dflt of Some (SwitchDefault (Some t) _ _) \<Rightarrow> validate_type t ctx guarded (Suc depth) s2 | _ \<Rightarrow> s2)
           in say (validate_switch ctx disc cs dflt) s3)"
| "validate_type (Compute e _) ctx guarded depth s =
     (if kMaxNesting < depth then too_deep ctx s else say (validate_expr (se_bound s) ctx e) s)"
| "validate_type (RuleRef name constraint iv) ctx guarded depth s =
     (if kMaxNesting < depth then too_deep ctx s
      else let s1 = reference ctx guarded name s
           in say (opt_expr (se_bound s1) ctx constraint @ opt_interval (se_bound s1) ctx iv) s1)"
| "validate_type (Alternatives alts) ctx guarded depth s =
     (if kMaxNesting < depth then too_deep ctx s
      else fold (\<lambda>a. validate_type a ctx guarded (Suc depth)) alts s)"
| "validate_type (Primitive kind constraint iv) ctx guarded depth s =
     (if kMaxNesting < depth then too_deep ctx s
      else say (opt_expr (se_bound s) ctx constraint @
        (if is_run kind \<and> iv = None then [Error RunNeedsLength] else []) @ opt_interval (se_bound s) ctx iv) s)"
| "validate_type (Extern func write_func cpp_type constraint iv) ctx guarded depth s =
     (if kMaxNesting < depth then too_deep ctx s
      else say (validate_extern func cpp_type @ opt_expr (se_bound s) ctx constraint @
        opt_interval (se_bound s) ctx iv) s)"
| "validate_type (EndianSwitch e) ctx guarded depth s =
     (if kMaxNesting < depth then too_deep ctx s else say (validate_expr (se_bound s) ctx e) s)"
| "validate_type (Bitfield container es) ctx guarded depth s =
     (if kMaxNesting < depth then too_deep ctx s else say (validate_bitfield container es) s)"

definition validate_rule :: "rule \<Rightarrow> sema \<Rightarrow> sema" where
  "validate_rule r s = validate_type (r_body r) (r_name r) False 0 s"

end
