(* ===== verification/SemaSort.thy ===== *)
theory SemaSort
  imports Sema "HOL-Library.Sublist"
begin

text \<open>
  Phase 4 of the semantic checks (\<open>topological_sort\<close> in \<open>frontend/Sema.cpp\<close>): the order in which the rules
  can be laid out, each after the rules it depends on, or the rules that stand on a cycle or above one.
  The order in which the code's unordered maps are traversed is an argument (\<open>order\<close>, for the in-degrees)
  or the order of the list of dependencies: the property holds for every order.
\<close>

type_synonym rule_deps = "(string \<times> string list) list"
type_synonym degrees = "string \<rightharpoonup> int"

definition degree :: "degrees \<Rightarrow> string \<Rightarrow> int" where
  "degree deg n = (case deg n of Some d \<Rightarrow> d | None \<Rightarrow> 0)"

definition set_degree :: "string \<Rightarrow> nat \<Rightarrow> degrees \<Rightarrow> degrees" where
  "set_degree n d deg = deg(n \<mapsto> int d)"

definition init_degrees :: "rules \<Rightarrow> rule_deps \<Rightarrow> degrees" where
  "init_degrees rs ds = fold (\<lambda>e. set_degree (fst e) (length (snd e))) ds
     (fold (\<lambda>r. set_degree (fst r) 0) rs Map.empty)"

text \<open>One rule leaves the queue: the rules that depend on it have one dependency less.\<close>

fun relax :: "string \<Rightarrow> string \<times> string list \<Rightarrow> string list \<times> degrees \<Rightarrow> string list \<times> degrees" where
  "relax n (other, ns) (q, deg) =
     (if n \<in> set ns
      then (if degree deg other - 1 = 0 then q @ [other] else q, deg(other \<mapsto> degree deg other - 1))
      else (q, deg))"

definition waiting :: "rule_deps \<Rightarrow> degrees \<Rightarrow> string set" where
  "waiting ds deg = {n \<in> fst ` set ds. 0 < degree deg n}"

lemma finite_waiting [simp]: "finite (waiting ds deg)"
  by (simp add: waiting_def)

lemma degree_upd [simp]: "degree (deg(k \<mapsto> d)) n = (if n = k then d else degree deg n)"
  by (simp add: degree_def)

lemma degree_set [simp]: "degree (set_degree k d deg) n = (if n = k then int d else degree deg n)"
  by (simp add: set_degree_def)

lemma relax_measure:
  assumes "set es \<subseteq> set ds"
  shows "(case fold (relax n) es (q, deg) of (q1, deg1) \<Rightarrow> length q1 + card (waiting ds deg1))
     \<le> length q + card (waiting ds deg)"
  using assms
proof (induction es arbitrary: q deg)
  case (Cons e es)
  obtain other ns where e: "e = (other, ns)" by fastforce
  have k: "other \<in> fst ` set ds" using Cons.prems e by force
  have sub: "set es \<subseteq> set ds" using Cons.prems by simp
  define d where "d = degree deg other - 1"
  define deg1 where "deg1 = deg(other \<mapsto> d)"
  have w: "waiting ds deg1 \<subseteq> waiting ds deg" by (auto simp: waiting_def deg1_def d_def)
  have le: "card (waiting ds deg1) \<le> card (waiting ds deg)" by (rule card_mono [OF finite_waiting w])
  have less: "card (waiting ds deg1) < card (waiting ds deg)" if "d = 0"
  proof -
    have "other \<in> waiting ds deg" "other \<notin> waiting ds deg1" using that k by (simp_all add: waiting_def deg1_def d_def)
    then show ?thesis using w by (intro psubset_card_mono) auto
  qed
  show ?case
  proof (cases "n \<in> set ns")
    case True
    have "fold (relax n) (e # es) (q, deg) = fold (relax n) es (if d = 0 then q @ [other] else q, deg1)"
      using True by (simp add: e d_def deg1_def)
    then show ?thesis using Cons.IH [OF sub, of "if d = 0 then q @ [other] else q" deg1] le less
      by (auto split: prod.splits if_splits)
  next
    case False
    then show ?thesis using Cons.IH [OF sub, of q deg] by (simp add: e)
  qed
qed simp

function kahn :: "rule_deps \<Rightarrow> string list \<Rightarrow> degrees \<Rightarrow> string list \<Rightarrow> string list \<times> degrees" where
  "kahn ds [] deg out = (out, deg)"
| "kahn ds (n # q) deg out =
     (case fold (relax n) ds (q, deg) of (q1, deg1) \<Rightarrow> kahn ds q1 deg1 (out @ [n]))"
  by pat_completeness auto
termination
proof (relation "measure (\<lambda>(ds, q, deg, out). length q + card (waiting ds deg))", goal_cases)
  case (2 ds n q deg out q1 deg1)
  show ?case using relax_measure [of ds ds n q deg] by (simp add: 2 [symmetric])
qed simp

definition topological_sort :: "string list \<Rightarrow> sema \<Rightarrow> sema \<times> bool" where
  "topological_sort order s =
     (let ds = se_deps s;
          deg0 = init_degrees (se_rules s) ds
      in case kahn ds (filter (\<lambda>n. degree deg0 n = 0) order) deg0 [] of
           (out, deg) \<Rightarrow>
             if length out \<noteq> length (se_rules s)
             then (say (map (\<lambda>n. Error (Circular n)) (filter (\<lambda>n. 0 < degree deg n) order)) (s\<lparr>se_sorted := out\<rparr>), False)
             else (s\<lparr>se_sorted := out\<rparr>, True))"

section \<open>What the loop keeps\<close>

definition deps_of_rule :: "rule_deps \<Rightarrow> string \<Rightarrow> string set" where
  "deps_of_rule ds n = (case map_of ds n of Some ns \<Rightarrow> set ns | None \<Rightarrow> {})"

text \<open>The dependencies as they are collected: a rule has one entry, and the entry names rules, each once.\<close>

definition deps_wf :: "rule_deps \<Rightarrow> bool" where
  "deps_wf ds = (distinct (map fst ds) \<and> (\<forall>(n, ns) \<in> set ds. distinct ns \<and> set ns \<subseteq> fst ` set ds))"

lemma deps_of_entry:
  assumes "deps_wf ds" and "(n, ns) \<in> set ds"
  shows "deps_of_rule ds n = set ns" "distinct ns" "set ns \<subseteq> fst ` set ds"
  using assms by (auto simp: deps_wf_def deps_of_rule_def)

lemma deps_of_finite [simp]: "finite (deps_of_rule ds n)"
  by (simp add: deps_of_rule_def split: option.splits)

lemma deps_of_subset: "deps_wf ds \<Longrightarrow> deps_of_rule ds n \<subseteq> fst ` set ds"
  by (auto simp: deps_wf_def deps_of_rule_def split: option.splits dest!: map_of_SomeD)

text \<open>Each rule comes after what it depends on.\<close>

definition after_deps :: "(string \<Rightarrow> string set) \<Rightarrow> string list \<Rightarrow> bool" where
  "after_deps D out = (\<forall>i < length out. D (out ! i) \<subseteq> set (take i out))"

lemma after_deps_Nil [simp]: "after_deps D []"
  by (simp add: after_deps_def)

lemma after_deps_snoc [simp]: "after_deps D (out @ [n]) = (after_deps D out \<and> D n \<subseteq> set out)"
  by (auto simp: after_deps_def nth_append less_Suc_eq)

text \<open>Rules on the queue have all their dependencies out, and the degree of a rule is the number of its
  dependencies that are not. While a rule's edges are being removed it counts as out for the entries done.\<close>

definition queue_ok :: "rule_deps \<Rightarrow> string list \<Rightarrow> degrees \<Rightarrow> string list \<Rightarrow> bool" where
  "queue_ok ds q deg out = (distinct (out @ q) \<and> set (out @ q) \<subseteq> fst ` set ds \<and> after_deps (deps_of_rule ds) out \<and>
     (\<forall>k \<in> fst ` set ds. degree deg k = int (card (deps_of_rule ds k - set out))) \<and>
     (\<forall>k \<in> fst ` set ds. k \<in> set (out @ q) \<longleftrightarrow> deps_of_rule ds k \<subseteq> set out))"

lemma queue_okD:
  assumes "queue_ok ds q deg out"
  shows "distinct (out @ q)" "set (out @ q) \<subseteq> fst ` set ds" "after_deps (deps_of_rule ds) out"
    "k \<in> fst ` set ds \<Longrightarrow> degree deg k = int (card (deps_of_rule ds k - set out))"
    "k \<in> fst ` set ds \<Longrightarrow> k \<in> set (out @ q) \<longleftrightarrow> deps_of_rule ds k \<subseteq> set out"
  using assms unfolding queue_ok_def by blast+

lemma queue_okI:
  assumes "distinct (out @ q)" "set (out @ q) \<subseteq> fst ` set ds" "after_deps (deps_of_rule ds) out"
    "\<And>k. k \<in> fst ` set ds \<Longrightarrow> degree deg k = int (card (deps_of_rule ds k - set out))"
    "\<And>k. k \<in> fst ` set ds \<Longrightarrow> k \<in> set (out @ q) \<longleftrightarrow> deps_of_rule ds k \<subseteq> set out"
  shows "queue_ok ds q deg out"
  using assms unfolding queue_ok_def by blast

lemma fold_relax_degree:
  assumes "distinct (map fst es)"
  shows "degree (snd (fold (relax n) es (q, deg))) k =
     degree deg k - (case map_of es k of Some ns \<Rightarrow> if n \<in> set ns then 1 else 0 | None \<Rightarrow> 0)"
  using assms
proof (induction es arbitrary: q deg)
  case (Cons e es)
  obtain other ns where e: "e = (other, ns)" by fastforce
  have "other \<notin> fst ` set es" using Cons.prems e by simp
  then have no: "map_of es other = None" by (simp add: map_of_eq_None_iff)
  show ?case
  proof (cases "n \<in> set ns")
    case True
    have "fold (relax n) (e # es) (q, deg) =
        fold (relax n) es (if degree deg other - 1 = 0 then q @ [other] else q, deg(other \<mapsto> degree deg other - 1))"
      using True by (simp add: e)
    then show ?thesis using Cons no e True by simp
  next
    case False
    then show ?thesis using Cons no e by simp
  qed
qed simp

lemma fold_relax_queue:
  assumes "distinct (map fst es)"
  shows "fst (fold (relax n) es (q, deg)) =
     q @ map fst (filter (\<lambda>(k, ns). n \<in> set ns \<and> degree deg k = 1) es)"
  using assms
proof (induction es arbitrary: q deg)
  case (Cons e es)
  obtain other ns where e: "e = (other, ns)" by fastforce
  have fresh: "other \<notin> fst ` set es" using Cons.prems e by simp
  show ?case
  proof (cases "n \<in> set ns")
    case True
    let ?deg = "deg(other \<mapsto> degree deg other - 1)"
    have same: "filter (\<lambda>(k, ns). n \<in> set ns \<and> degree ?deg k = 1) es = filter (\<lambda>(k, ns). n \<in> set ns \<and> degree deg k = 1) es"
      using fresh by (intro filter_cong) force+
    have "fold (relax n) (e # es) (q, deg) =
        fold (relax n) es (if degree deg other - 1 = 0 then q @ [other] else q, ?deg)"
      using True by (simp add: e)
    then show ?thesis using Cons True same by (simp add: e)
  next
    case False
    then show ?thesis using Cons by (simp add: e)
  qed
qed simp

lemma int_card_remove:
  assumes "finite A"
  shows "int (card (A - {n})) = int (card A) - (if n \<in> A then 1 else 0)"
proof (cases "n \<in> A")
  case True
  then have "0 < card A" using assms by (auto simp: card_gt_0_iff)
  then show ?thesis using True by (simp add: of_nat_diff)
qed simp

lemma in_map_fst_filter:
  "k \<in> set (map fst (filter (\<lambda>(k, ns). P k ns) ds)) \<longleftrightarrow> (\<exists>ns. (k, ns) \<in> set ds \<and> P k ns)"
  by (induction ds) auto

lemma queue_ok_step:
  assumes wf: "deps_wf ds" and ok: "queue_ok ds (n # q) deg out"
    and step: "fold (relax n) ds (q, deg) = (q1, deg1)"
  shows "queue_ok ds q1 deg1 (out @ [n])"
proof -
  let ?K = "fst ` set ds" and ?D = "deps_of_rule ds"
  have dis: "distinct (map fst ds)" using wf by (simp add: deps_wf_def)
  have n: "n \<in> ?K" "n \<notin> set out" "n \<notin> set q"
    using queue_okD(1,2) [OF ok] by auto
  have nD: "?D n \<subseteq> set out" using queue_okD(5) [OF ok n(1)] by simp
  note deg = queue_okD(4) [OF ok]
  have mem: "k \<in> set out \<or> k = n \<or> k \<in> set q \<longleftrightarrow> ?D k \<subseteq> set out" if "k \<in> ?K" for k
    using queue_okD(5) [OF ok that] by (simp add: disj_left_commute)
  have q1: "q1 = q @ map fst (filter (\<lambda>(k, ns). n \<in> set ns \<and> degree deg k = 1) ds)"
    using fold_relax_queue [OF dis, of n q deg] step by simp
  have added: "k \<in> set (map fst (filter (\<lambda>(k, ns). n \<in> set ns \<and> degree deg k = 1) ds)) \<longleftrightarrow>
      k \<in> ?K \<and> n \<in> ?D k \<and> degree deg k = 1" for k
  proof -
    have "k \<in> set (map fst (filter (\<lambda>(k, ns). n \<in> set ns \<and> degree deg k = 1) ds)) \<longleftrightarrow>
        (\<exists>ns. (k, ns) \<in> set ds \<and> n \<in> set ns \<and> degree deg k = 1)" by (rule in_map_fst_filter)
    moreover have "k \<in> ?K \<Longrightarrow> \<exists>ns. (k, ns) \<in> set ds" by force
    moreover have "(k, ns) \<in> set ds \<Longrightarrow> k \<in> ?K \<and> ?D k = set ns" for ns
      using deps_of_entry(1) [OF wf] by (simp add: rev_image_eqI)
    ultimately show ?thesis by blast
  qed
  have new: "k \<in> set q1 \<longleftrightarrow> k \<in> set q \<or> (k \<in> ?K \<and> n \<in> ?D k \<and> degree deg k = 1)" for k
    using added [of k] unfolding q1 set_append Un_iff by blast
  have deg1: "degree deg1 k = int (card (?D k - set (out @ [n])))" if k: "k \<in> ?K" for k
  proof -
    obtain ns where ns: "(k, ns) \<in> set ds" using k by force
    then have "map_of ds k = Some ns" "?D k = set ns" using dis deps_of_entry(1) [OF wf ns] by simp_all
    then have "degree deg1 k = degree deg k - (if n \<in> ?D k then 1 else 0)"
      using fold_relax_degree [OF dis, of n q deg k] step by simp
    moreover have "int (card (?D k - set (out @ [n]))) = int (card (?D k - set out)) - (if n \<in> ?D k then 1 else 0)"
    proof -
      have e: "?D k - set (out @ [n]) = (?D k - set out) - {n}" by auto
      have "finite (?D k - set out)" by simp
      then show ?thesis unfolding e using n(2) int_card_remove [of "?D k - set out" n] by (simp del: card_Diff_singleton card_Diff_insert)
    qed
    ultimately show ?thesis using deg [OF k] by simp
  qed
  have one: "n \<in> ?D k \<and> degree deg k = 1 \<longleftrightarrow> ?D k - set out = {n}" if "k \<in> ?K" for k
  proof -
    have "degree deg k = 1 \<longleftrightarrow> (\<exists>x. ?D k - set out = {x})" using deg [OF that] by (simp add: card_1_singleton_iff)
    moreover have "n \<in> ?D k \<longleftrightarrow> n \<in> ?D k - set out" using n(2) by simp
    ultimately show ?thesis by (metis insert_iff singletonD)
  qed
  have "k \<in> set (out @ [n] @ q1) \<longleftrightarrow> ?D k \<subseteq> set (out @ [n])" if "k \<in> ?K" for k
  proof -
    have "k \<in> set q1 \<longleftrightarrow> k \<in> set q \<or> ?D k - set out = {n}" unfolding new one [OF that] using that by (simp only: simp_thms)
    moreover have "?D k \<subseteq> set (out @ [n]) \<longleftrightarrow> ?D k \<subseteq> set out \<or> ?D k - set out = {n}"
      using n(2) unfolding set_append list.set by blast
    ultimately show ?thesis using mem [OF that] unfolding set_append list.set by blast
  qed
  moreover have "distinct (out @ [n] @ q1)"
  proof -
    have "distinct (map fst (filter (\<lambda>(k, ns). n \<in> set ns \<and> degree deg k = 1) ds))"
      using dis by (simp add: distinct_map_filter)
    moreover have "k \<notin> set out \<and> k \<noteq> n \<and> k \<notin> set q" if "k \<in> ?K" "n \<in> ?D k" for k
      using mem [OF that(1)] that n(2) by blast
    then have "k \<notin> set out \<and> k \<noteq> n \<and> k \<notin> set q"
      if "k \<in> set (map fst (filter (\<lambda>(k, ns). n \<in> set ns \<and> degree deg k = 1) ds))" for k
      using that added by blast
    ultimately show ?thesis unfolding q1 using queue_okD(1) [OF ok] by auto
  qed
  moreover have "set (out @ [n] @ q1) \<subseteq> ?K"
    using queue_okD(2) [OF ok] new by auto
  moreover have "after_deps ?D (out @ [n])" using queue_okD(3) [OF ok] nD by simp
  ultimately show ?thesis using deg1 by (intro queue_okI) auto
qed

lemma kahn_ok:
  assumes "deps_wf ds" and "queue_ok ds q deg out" and "kahn ds q deg out = (res, deg1)"
  shows "queue_ok ds [] deg1 res"
  using assms
proof (induction ds q deg out rule: kahn.induct)
  case (2 ds n q deg out)
  obtain q1 deg2 where st: "fold (relax n) ds (q, deg) = (q1, deg2)" by fastforce
  show ?case using "2.IH" [OF st [symmetric]] "2.prems" queue_ok_step [OF "2.prems"(1,2) st] st by simp
qed simp

section \<open>Cycles\<close>

lemma sorted_no_cycle:
  assumes "after_deps D out" and "n \<in> set out" and "(n, m) \<in> {(a, b). b \<in> D a}\<^sup>*"
  shows "(m, m) \<notin> {(a, b). b \<in> D a}\<^sup>+"
  using assms
proof (induction out arbitrary: n m rule: rev_induct)
  case (snoc x out)
  let ?R = "{(a, b). b \<in> D a}"
  have D: "D x \<subseteq> set out" and out: "after_deps D out" using snoc.prems(1) by simp_all
  have below: "(m, m) \<notin> ?R\<^sup>+" if "y \<in> D x" "(y, m) \<in> ?R\<^sup>*" for y m
    using snoc.IH [OF out] that D by blast
  show ?case
  proof (cases "n \<in> set out")
    case True
    then show ?thesis using snoc.IH [OF out True snoc.prems(3)] by blast
  next
    case False
    then have n: "n = x" using snoc.prems(2) by simp
    show ?thesis
    proof (cases "m = x")
      case True
      show ?thesis
      proof
        assume "(m, m) \<in> ?R\<^sup>+"
        then obtain y where y: "(x, y) \<in> ?R" "(y, x) \<in> ?R\<^sup>*" using True by (meson tranclD)
        then show False using below [of y x] \<open>(m, m) \<in> ?R\<^sup>+\<close> True by blast
      qed
    next
      case False
      then obtain y where "(x, y) \<in> ?R" "(y, m) \<in> ?R\<^sup>*"
        using snoc.prems(3) n by (metis converse_rtranclE)
      then show ?thesis using below [of y m] by blast
    qed
  qed
qed simp

lemma finite_successors_cycle:
  assumes "finite U" and "\<And>u. u \<in> U \<Longrightarrow> \<exists>v \<in> U. (u, v) \<in> R" and "u \<in> U"
  shows "\<exists>m. (u, m) \<in> R\<^sup>* \<and> (m, m) \<in> R\<^sup>+"
proof (rule ccontr)
  assume no: "\<nexists>m. (u, m) \<in> R\<^sup>* \<and> (m, m) \<in> R\<^sup>+"
  define V where "V = {v \<in> U. (u, v) \<in> R\<^sup>*}"
  define Q where "Q = R \<inter> V \<times> V"
  have "finite Q" using assms(1) unfolding Q_def V_def by (intro finite_Int disjI2) simp
  moreover have "acyclic Q"
  proof (rule acyclicI, rule allI, rule notI)
    fix x assume x: "(x, x) \<in> Q\<^sup>+"
    then obtain y where "(x, y) \<in> Q" using tranclD [OF x] by blast
    then have "x \<in> V" by (simp add: Q_def)
    moreover have "(x, x) \<in> R\<^sup>+" using x trancl_mono [of "(x, x)" Q R] by (simp add: Q_def)
    ultimately show False using no by (auto simp: V_def)
  qed
  ultimately have "wf (Q\<inverse>)" by (rule finite_acyclic_wf_converse)
  moreover have "u \<in> V" using assms(3) by (simp add: V_def)
  ultimately obtain z where z: "z \<in> V" "\<And>y. (y, z) \<in> Q\<inverse> \<Longrightarrow> y \<notin> V" by (rule wfE_min [where Q = V]) blast
  then have "z \<in> U" "(u, z) \<in> R\<^sup>*" by (simp_all add: V_def)
  then obtain v where v: "v \<in> U" "(z, v) \<in> R" using assms(2) by blast
  then have "v \<in> V" using rtrancl_into_rtrancl [OF \<open>(u, z) \<in> R\<^sup>*\<close> v(2)] by (simp add: V_def)
  moreover have "(v, z) \<in> Q\<inverse>" using v(2) z(1) \<open>v \<in> V\<close> by (simp add: Q_def)
  ultimately show False using z(2) by blast
qed

section \<open>The start of the loop\<close>

text \<open>What phases 1 to 3 leave behind: an entry of dependencies for every rule, over rules.\<close>

definition sema_wf :: "sema \<Rightarrow> bool" where
  "sema_wf s = (distinct (map fst (se_rules s)) \<and> fst ` set (se_deps s) = fst ` set (se_rules s) \<and> deps_wf (se_deps s))"

lemma degree_fold:
  assumes "distinct (map fst ds)"
  shows "degree (fold (\<lambda>e. set_degree (fst e) (length (snd e))) ds deg) k =
     (case map_of ds k of Some ns \<Rightarrow> int (length ns) | None \<Rightarrow> degree deg k)"
  using assms
proof (induction ds arbitrary: deg)
  case (Cons e ds)
  obtain n ns where e: "e = (n, ns)" by fastforce
  then have "map_of ds n = None" using Cons.prems by (simp add: map_of_eq_None_iff)
  then show ?case using Cons e by (cases "k = n") (simp_all split: option.split)
qed simp

lemma sort_start_ok:
  assumes wf: "deps_wf ds" and order: "distinct order" "set order = fst ` set ds"
    and deg: "deg = init_degrees rs ds"
  shows "queue_ok ds (filter (\<lambda>n. degree deg n = 0) order) deg []"
proof (rule queue_okI)
  have dis: "distinct (map fst ds)" using wf by (simp add: deps_wf_def)
  have d: "degree deg k = int (card (deps_of_rule ds k))" if k: "k \<in> fst ` set ds" for k
  proof -
    obtain ns where ns: "(k, ns) \<in> set ds" using k by force
    have "map_of ds k = Some ns" using ns dis by simp
    then have "degree deg k = int (length ns)" unfolding deg init_degrees_def by (simp add: degree_fold [OF dis])
    then show ?thesis using deps_of_entry [OF wf ns] by (simp add: distinct_card)
  qed
  then show "degree deg k = int (card (deps_of_rule ds k - set []))" if "k \<in> fst ` set ds" for k using that by simp
  show "k \<in> set ([] @ filter (\<lambda>n. degree deg n = 0) order) \<longleftrightarrow> deps_of_rule ds k \<subseteq> set []" if "k \<in> fst ` set ds" for k
    using d [OF that] that order(2) by simp
qed (use order in auto)

section \<open>The order, or the rules above a cycle\<close>

definition depends_on :: "sema \<Rightarrow> (string \<times> string) set" where
  "depends_on s = {(a, b). b \<in> deps_of_rule (se_deps s) a}"

lemma topological_sort_spec:
  assumes wf: "sema_wf s" and order: "distinct order" "set order = fst ` set (se_rules s)"
    and run: "topological_sort order s = (s1, ok)"
  shows "after_deps (deps_of_rule (se_deps s)) (se_sorted s1)" "distinct (se_sorted s1)"
    "set (se_sorted s1) = {n \<in> fst ` set (se_rules s). \<nexists>m. (n, m) \<in> (depends_on s)\<^sup>* \<and> (m, m) \<in> (depends_on s)\<^sup>+}"
    "ok \<longleftrightarrow> acyclic (depends_on s)"
    "se_reports s1 = se_reports s @ map (\<lambda>n. Error (Circular n)) (filter (\<lambda>n. n \<notin> set (se_sorted s1)) order)"
proof -
  let ?ds = "se_deps s" and ?N = "fst ` set (se_rules s)" and ?R = "depends_on s"
  have dw: "deps_wf ?ds" and keys: "fst ` set ?ds = ?N" and dr: "distinct (map fst (se_rules s))"
    using wf by (simp_all add: sema_wf_def)
  define deg0 where "deg0 = init_degrees (se_rules s) ?ds"
  obtain out deg where k: "kahn ?ds (filter (\<lambda>n. degree deg0 n = 0) order) deg0 [] = (out, deg)" by fastforce
  have ok': "queue_ok ?ds [] deg out"
    using kahn_ok [OF dw sort_start_ok [OF dw order(1) _ deg0_def] k] order(2) keys by simp
  have after: "after_deps (deps_of_rule ?ds) out" and dist: "distinct out" and sub: "set out \<subseteq> ?N"
    using queue_okD(1-3) [OF ok'] keys by simp_all
  have mem: "n \<in> set out \<longleftrightarrow> deps_of_rule ?ds n \<subseteq> set out" if "n \<in> ?N" for n
    using queue_okD(5) [OF ok'] that keys by simp
  have wait: "0 < degree deg n \<longleftrightarrow> n \<notin> set out" if "n \<in> ?N" for n
    using queue_okD(4) [OF ok'] mem that keys by (simp add: card_gt_0_iff)
  have srt: "se_sorted s1 = out" using run k by (auto simp: topological_sort_def deg0_def Let_def say_def split: if_splits)
  have full: "length out = length (se_rules s) \<longleftrightarrow> set out = ?N"
    using dist dr sub by (metis card_subset_eq distinct_card finite_imageI finite_set length_map set_map)
  have okeq: "ok = (set out = ?N)" using run k full by (auto simp: topological_sort_def deg0_def Let_def split: if_splits)
  show "after_deps (deps_of_rule ?ds) (se_sorted s1)" "distinct (se_sorted s1)" using after dist srt by simp_all
  have stuck: "\<exists>m. (n, m) \<in> ?R\<^sup>* \<and> (m, m) \<in> ?R\<^sup>+" if n: "n \<in> ?N - set out" for n
  proof (rule finite_successors_cycle [OF _ _ n])
    fix u assume u: "u \<in> ?N - set out"
    then obtain v where "v \<in> deps_of_rule ?ds u" "v \<notin> set out" using mem by blast
    moreover from this have "v \<in> ?N" using deps_of_subset [OF dw] keys by blast
    ultimately show "\<exists>v \<in> ?N - set out. (u, v) \<in> ?R" by (auto simp: depends_on_def)
  qed simp
  have free: "\<nexists>m. (n, m) \<in> ?R\<^sup>* \<and> (m, m) \<in> ?R\<^sup>+" if "n \<in> set out" for n
    using sorted_no_cycle [OF after that] by (auto simp: depends_on_def)
  show set_out: "set (se_sorted s1) = {n \<in> ?N. \<nexists>m. (n, m) \<in> ?R\<^sup>* \<and> (m, m) \<in> ?R\<^sup>+}"
    unfolding srt using stuck free sub by blast
  have dom: "n \<in> ?N" if "(n, m) \<in> ?R\<^sup>+" for n m
  proof -
    obtain y where "(n, y) \<in> ?R" using \<open>(n, m) \<in> ?R\<^sup>+\<close> by (meson tranclD)
    then show ?thesis unfolding keys [symmetric]
      by (auto simp: depends_on_def deps_of_rule_def split: option.splits dest!: map_of_SomeD) force
  qed
  show "ok \<longleftrightarrow> acyclic ?R"
  proof
    assume "ok"
    then show "acyclic ?R" using free dom okeq unfolding acyclic_def by blast
  next
    assume "acyclic ?R"
    then show ok using stuck sub okeq unfolding acyclic_def by blast
  qed
  have "filter (\<lambda>n. 0 < degree deg n) order = filter (\<lambda>n. n \<notin> set out) order"
    using wait order(2) by (intro filter_cong) auto
  moreover have "filter (\<lambda>n. n \<notin> set out) order = []" if "length out = length (se_rules s)"
    using that full order(2) by (simp add: filter_empty_conv)
  ultimately show "se_reports s1 = se_reports s @ map (\<lambda>n. Error (Circular n)) (filter (\<lambda>n. n \<notin> set (se_sorted s1)) order)"
    using run k unfolding srt by (auto simp: topological_sort_def deg0_def [symmetric] Let_def say_def split: if_splits)
qed

section \<open>The earlier phases prepare the sort\<close>

text \<open>A check leaves the rules and the bound names, adds reports and keeps the dependencies in shape. That a
  type nests too deep is reported once, and has been reported when the flag is up.\<close>

definition nested_told :: "sema \<Rightarrow> bool" where
  "nested_told s = (se_nested s \<longrightarrow> sema_failed s)"

definition extends :: "sema \<Rightarrow> sema \<Rightarrow> bool" where
  "extends s s1 = (se_rules s1 = se_rules s \<and> se_bound s1 = se_bound s \<and> prefix (se_reports s) (se_reports s1) \<and>
     (sema_wf s \<longrightarrow> sema_wf s1) \<and> (nested_told s \<longrightarrow> nested_told s1))"

lemma extends_refl [simp]: "extends s s"
  by (simp add: extends_def)

lemma extends_trans [trans]: "extends s t \<Longrightarrow> extends t u \<Longrightarrow> extends s u"
  unfolding extends_def by (auto intro: prefix_order.trans)

lemma extendsD:
  "extends s s1 \<Longrightarrow> se_rules s1 = se_rules s"
  "extends s s1 \<Longrightarrow> se_bound s1 = se_bound s"
  "extends s s1 \<Longrightarrow> \<not> sema_failed s1 \<Longrightarrow> \<not> sema_failed s"
  "extends s s1 \<Longrightarrow> sema_wf s \<Longrightarrow> sema_wf s1"
  "extends s s1 \<Longrightarrow> nested_told s \<Longrightarrow> nested_told s1"
  by (auto simp: extends_def sema_failed_def prefix_def)

lemma say_simps [simp]:
  "se_rules (say rs s) = se_rules s" "se_bound (say rs s) = se_bound s" "se_deps (say rs s) = se_deps s"
  "se_reports (say rs s) = se_reports s @ rs" "se_nested (say rs s) = se_nested s"
  "sema_failed (say rs s) = (sema_failed s \<or> has_errors rs)"
  by (simp_all add: say_def sema_failed_def)

lemma extends_say [simp]: "extends s (say rs s)"
  by (simp add: extends_def sema_wf_def nested_told_def)

lemma extends_say_after: "extends s s1 \<Longrightarrow> extends s (say rs s1)"
  using extends_trans extends_say by blast

lemma extends_nested [simp]: "extends s (too_deep ctx s)"
  by (simp add: too_deep_def extends_def sema_wf_def nested_told_def sema_failed_def say_def)

lemma fold_extends:
  assumes "\<And>x t. x \<in> set xs \<Longrightarrow> se_rules t = se_rules s \<Longrightarrow> extends t (f x t)"
  shows "extends s (fold f xs s)"
  using assms
proof (induction xs arbitrary: s)
  case (Cons x xs)
  have a: "extends s (f x s)" using Cons.prems by simp
  have "extends (f x s) (fold f xs (f x s))"
    using Cons.prems extendsD(1) [OF a] by (intro Cons.IH) simp
  then show ?case using extends_trans [OF a] by simp
qed simp

lemma add_dep_keys: "ctx \<in> fst ` set ds \<Longrightarrow> map fst (add_dep ctx n ds) = map fst ds"
  by (auto simp: add_dep_def)

lemma add_dep_wf:
  assumes "deps_wf ds" and "ctx \<in> fst ` set ds" and "n \<in> fst ` set ds"
  shows "deps_wf (add_dep ctx n ds)"
proof -
  have k: "map fst (add_dep ctx n ds) = map fst ds" using assms(2) by (rule add_dep_keys)
  have "distinct ms \<and> set ms \<subseteq> fst ` set ds" if "(r, ms) \<in> set (add_dep ctx n ds)" for r ms
  proof -
    obtain ns where ns: "(r, ns) \<in> set ds" "ms = (if r = ctx then set_insert n ns else ns)"
      using \<open>(r, ms) \<in> set (add_dep ctx n ds)\<close> assms(2) by (auto simp: add_dep_def)
    then show ?thesis using deps_of_entry(2,3) [OF assms(1) ns(1)] assms(3) by auto
  qed
  moreover have "fst ` set (add_dep ctx n ds) = fst ` set ds" using k by (metis set_map)
  ultimately show ?thesis using assms(1) k by (auto simp: deps_wf_def)
qed

lemma reference_extends:
  assumes "ctx \<in> fst ` set (se_rules s)"
  shows "extends s (reference ctx guarded name s)"
proof (cases "lookup_rule (se_rules s) name = None \<or> guarded")
  case True
  then show ?thesis by (auto simp: reference_def)
next
  case False
  then have n: "name \<in> fst ` set (se_rules s)" by (simp add: lookup_rule_def map_of_eq_None_iff)
  have "sema_wf s \<Longrightarrow> sema_wf (s\<lparr>se_deps := add_dep ctx name (se_deps s)\<rparr>)"
    using add_dep_wf [of "se_deps s" ctx name] add_dep_keys [of ctx "se_deps s" name] n assms
    by (simp add: sema_wf_def) (metis set_map)
  then show ?thesis using False by (auto simp: reference_def extends_def nested_told_def sema_failed_def)
qed

lemma validate_type_extends:
  "ctx \<in> fst ` set (se_rules s) \<Longrightarrow> extends s (validate_type t ctx guarded depth s)"
proof (induction t ctx guarded depth s rule: validate_type.induct)
  case (1 fs constraint ctx guarded depth s)
  show ?case by (auto simp: Let_def intro!: extends_say_after fold_extends 1)
next
  case (2 vs ctx guarded depth s)
  show ?case by (auto simp: Let_def intro!: extends_say_after fold_extends 2)
next
  case (3 element spec constraint iv eiv resync ctx guarded depth s)
  show ?case
  proof (cases "kMaxNesting < depth")
    case False
    define s1 where "s1 = validate_type element ctx True (Suc depth) s"
    define s2 where "s2 = (case spec of SepTerm (TypeSep t) _ \<Rightarrow> validate_type t ctx guarded (Suc depth) s1 | _ \<Rightarrow> s1)"
    define s3 where "s3 = say ((if may_stand_still (se_rules s2) element spec then [Error NeedNotProgress] else []) @
      terminator_reports (se_bound s2) ctx spec resync) s2"
    define s4 where "s4 = (case spec of SepTerm _ (TypeTerm t) \<Rightarrow> validate_type t ctx guarded (Suc depth) s3 | _ \<Rightarrow> s3)"
    note IH = "3.IH" [OF False]
    have e1: "extends s s1" unfolding s1_def using IH(1) "3.prems" by simp
    have e2: "extends s1 s2" unfolding s2_def
      using IH(2) [OF s1_def] "3.prems" extendsD(1) [OF e1] by (auto split: array_spec.splits separator.splits)
    have e3: "extends s s3" unfolding s3_def using extends_trans [OF e1 e2] by (rule extends_say_after)
    have e4: "extends s3 s4" unfolding s4_def
      using IH(3) [OF s1_def s2_def s3_def] "3.prems" extendsD(1) [OF e3] by (auto split: array_spec.splits terminator.splits)
    have "validate_type (Array element spec constraint iv eiv resync) ctx guarded depth s =
        say (opt_expr (se_bound s4) ctx constraint @ opt_interval (se_bound s4) ctx iv @
          element_interval_reports (se_bound s4) ctx spec eiv) s4"
      unfolding s4_def s3_def s2_def s1_def using False by (simp only: validate_type.simps Let_def if_False)
    moreover have "extends s s4" using e3 e4 by (rule extends_trans)
    ultimately show ?thesis by (simp only: extends_say_after)
  qed simp
next
  case (4 element constraint iv ctx guarded depth s)
  show ?case by (auto simp: Let_def intro!: extends_say_after 4)
next
  case (5 disc cs dflt ctx guarded depth s)
  show ?case
  proof (cases "kMaxNesting < depth")
    case False
    define s1 where "s1 = say (validate_expr (se_bound s) ctx disc) s"
    define s2 where "s2 = fold (\<lambda>c. validate_type (c_target c) ctx guarded (Suc depth)) cs s1"
    note IH = "5.IH" [OF False]
    have e2: "extends s s2" unfolding s2_def
      using IH(1) [OF s1_def] "5.prems" by (intro extends_trans [OF _ fold_extends]) (auto simp: s1_def)
    define s3 where
      "s3 = (case dflt of Some (SwitchDefault (Some t) _ _) \<Rightarrow> validate_type t ctx guarded (Suc depth) s2 | _ \<Rightarrow> s2)"
    have "extends s s3" unfolding s3_def
      using e2 extends_trans [OF e2 IH(2) [OF s1_def s2_def]] "5.prems" extendsD(1) [OF e2]
      by (auto split: option.splits switch_default.splits)
    moreover have "validate_type (Switch disc cs dflt) ctx guarded depth s = say (validate_switch ctx disc cs dflt) s3"
      unfolding s3_def s2_def s1_def using False by (simp only: validate_type.simps Let_def if_False)
    ultimately show ?thesis by (simp only: extends_say_after)
  qed simp
next
  case (7 name constraint iv ctx guarded depth s)
  then show ?case using reference_extends [OF 7] by (simp add: Let_def extends_say_after)
next
  case (8 alts ctx guarded depth s)
  show ?case by (auto intro!: fold_extends 8)
qed simp_all

text \<open>Phases 1 to 3.\<close>

definition validated :: "grammar \<Rightarrow> sema" where
  "validated g = fold validate_rule (g_rules g) (resolve_endian g (collect_rules g new_sema))"

lemma collect_rule_wf:
  assumes "sema_wf s"
  shows "sema_wf (collect_rule r s)" "fst ` set (se_rules (collect_rule r s)) = insert (r_name r) (fst ` set (se_rules s))"
proof -
  have "sema_wf (collect_rule r s) \<and>
      fst ` set (se_rules (collect_rule r s)) = insert (r_name r) (fst ` set (se_rules s))"
  proof (cases "r_name r \<in> fst ` set (se_rules s)")
    case True
    then have "lookup_rule (se_rules s) (r_name r) \<noteq> None" by (simp add: lookup_rule_def map_of_eq_None_iff)
    then show ?thesis using assms True by (auto simp: collect_rule_def Let_def sema_wf_def insert_absorb)
  next
    case False
    then have n: "lookup_rule (se_rules s) (r_name r) = None" by (simp add: lookup_rule_def map_of_eq_None_iff)
    have "r_name r \<notin> fst ` set (se_deps s)" using assms False by (simp add: sema_wf_def)
    then show ?thesis using assms n False by (auto simp: collect_rule_def Let_def sema_wf_def deps_wf_def) fastforce
  qed
  then show "sema_wf (collect_rule r s)" "fst ` set (se_rules (collect_rule r s)) = insert (r_name r) (fst ` set (se_rules s))"
    by simp_all
qed

lemma collect_rules_wf:
  assumes "sema_wf s"
  shows "sema_wf (fold collect_rule rs s) \<and>
    fst ` set (se_rules (fold collect_rule rs s)) = r_name ` set rs \<union> fst ` set (se_rules s)"
  using assms
proof (induction rs arbitrary: s)
  case (Cons r rs)
  show ?case using Cons.IH [OF collect_rule_wf(1) [OF Cons.prems], of r] collect_rule_wf(2) [OF Cons.prems, of r] by simp
qed simp

lemma resolve_endian_simps [simp]:
  "se_rules (resolve_endian g s) = se_rules s" "se_bound (resolve_endian g s) = se_bound s"
  "se_deps (resolve_endian g s) = se_deps s" "se_reports (resolve_endian g s) = se_reports s"
proof -
  have "se_rules (fold (\<lambda>e s. s\<lparr>se_endian := e\<rparr>) es s) = se_rules s \<and>
      se_bound (fold (\<lambda>e s. s\<lparr>se_endian := e\<rparr>) es s) = se_bound s \<and>
      se_deps (fold (\<lambda>e s. s\<lparr>se_endian := e\<rparr>) es s) = se_deps s \<and>
      se_reports (fold (\<lambda>e s. s\<lparr>se_endian := e\<rparr>) es s) = se_reports s" for es
    by (induction es arbitrary: s) simp_all
  then show "se_rules (resolve_endian g s) = se_rules s" "se_bound (resolve_endian g s) = se_bound s"
    "se_deps (resolve_endian g s) = se_deps s" "se_reports (resolve_endian g s) = se_reports s"
    by (simp_all add: resolve_endian_def)
qed

lemma validated_extends: "extends (resolve_endian g (collect_rules g new_sema)) (validated g)"
proof -
  let ?s = "resolve_endian g (collect_rules g new_sema)"
  have "sema_wf (new_sema\<lparr>se_bound := set_insert ''_'' (se_bound new_sema)\<rparr>)"
    by (simp add: new_sema_def sema_wf_def deps_wf_def)
  then have "fst ` set (se_rules ?s) = r_name ` set (g_rules g)"
    using collect_rules_wf [of _ "g_rules g"] by (simp add: collect_rules_def new_sema_def)
  then show ?thesis unfolding validated_def validate_rule_def
    by (intro fold_extends validate_type_extends) simp
qed

lemma validated_wf: "sema_wf (validated g)" "fst ` set (se_rules (validated g)) = r_name ` set (g_rules g)"
proof -
  let ?s = "resolve_endian g (collect_rules g new_sema)"
  have "sema_wf (new_sema\<lparr>se_bound := set_insert ''_'' (se_bound new_sema)\<rparr>)"
    by (simp add: new_sema_def sema_wf_def deps_wf_def)
  then have w: "sema_wf (collect_rules g new_sema) \<and> fst ` set (se_rules ?s) = r_name ` set (g_rules g)"
    using collect_rules_wf [of _ "g_rules g"] by (simp add: collect_rules_def new_sema_def)
  then have "sema_wf ?s" by (simp add: sema_wf_def)
  then show "sema_wf (validated g)" using extendsD(4) [OF validated_extends] by blast
  show "fst ` set (se_rules (validated g)) = r_name ` set (g_rules g)"
    using extendsD(1) [OF validated_extends, of g] w by simp
qed

section \<open>The property\<close>

text \<open>C38: the layout order of the rules. Whatever order the unordered containers are traversed in, the
  sort of a grammar that has been through the earlier phases lists, each once and after everything it
  depends on, exactly the rules from which no cycle of dependencies can be reached; it succeeds exactly
  when the dependencies are acyclic, and otherwise reports the rules it could not list and no others.\<close>

theorem rules_sorted:
  assumes "distinct order" and "set order = r_name ` set (g_rules g)"
    and "topological_sort order (validated g) = (s, ok)"
  shows "after_deps (deps_of_rule (se_deps (validated g))) (se_sorted s) \<and> distinct (se_sorted s) \<and>
    set (se_sorted s) = {n \<in> r_name ` set (g_rules g).
      \<nexists>m. (n, m) \<in> (depends_on (validated g))\<^sup>* \<and> (m, m) \<in> (depends_on (validated g))\<^sup>+} \<and>
    ok = acyclic (depends_on (validated g)) \<and>
    se_reports s = se_reports (validated g) @ map (\<lambda>n. Error (Circular n)) (filter (\<lambda>n. n \<notin> set (se_sorted s)) order)"
  using topological_sort_spec [OF validated_wf(1) assms(1) _ assms(3)] assms(2) unfolding validated_wf(2) by simp

text \<open>\<open>A\<close> is made of \<open>B\<close>s, which are \<open>C\<close>s; \<open>D\<close> and \<open>E\<close> contain each other and \<open>F\<close> contains \<open>D\<close>.\<close>

definition cyclic_grammar :: grammar where
  "cyclic_grammar = \<lparr>g_directives = [], g_rules =
     [\<lparr>r_name = ''A'', r_body = Struct [Field ''b'' (RuleRef ''B'' None None) None None False] None\<rparr>,
      \<lparr>r_name = ''B'', r_body = RuleRef ''C'' None None\<rparr>,
      \<lparr>r_name = ''C'', r_body = Primitive (IntegerKind W8 Unsigned Default Fixed) None None\<rparr>,
      \<lparr>r_name = ''D'', r_body = Optional (RuleRef ''E'' None None) None None\<rparr>,
      \<lparr>r_name = ''E'', r_body = Alternatives [RuleRef ''C'' None None, RuleRef ''D'' None None]\<rparr>,
      \<lparr>r_name = ''F'', r_body = RuleRef ''D'' None None\<rparr>]\<rparr>"

theorem rules_sorted_witness:
  "\<exists>s. topological_sort [''F'', ''E'', ''D'', ''C'', ''B'', ''A''] (validated cyclic_grammar) = (s, False) \<and>
     se_sorted s = [''C'', ''B'', ''A''] \<and> se_reports s = map (\<lambda>n. Error (Circular n)) [''F'', ''E'', ''D''] \<and>
     \<not> acyclic (depends_on (validated cyclic_grammar))"
proof -
  let ?order = "[''F'', ''E'', ''D'', ''C'', ''B'', ''A'']"
  let ?r = "topological_sort ?order (validated cyclic_grammar)"
  have run: "snd ?r = False" "se_sorted (fst ?r) = [''C'', ''B'', ''A'']"
    "se_reports (fst ?r) = map (\<lambda>n. Error (Circular n)) [''F'', ''E'', ''D'']" by code_simp+
  then have r: "?r = (fst ?r, False)" by (metis prod.collapse)
  have "set ?order = r_name ` set (g_rules cyclic_grammar)" by (simp add: cyclic_grammar_def) blast
  then show ?thesis using rules_sorted [OF _ _ r] run r by auto
qed

end
