(* ===== verification/SemaTypes.thy ===== *)
theory SemaTypes
  imports SemaSort
begin

text \<open>
  Phase 7 of the semantic checks (\<open>frontend/Sema.cpp\<close>): the types of expressions, \<open>check_types\<close> and what it
  uses. \<open>Unknown\<close> is the permissive type of everything the checker can not see. Following a reference to
  another rule has no guard in the code: it ends because the phase runs only on rules that could be
  sorted. The functions that follow references take a bound on the references still to follow, which the
  checks set to the number of rules.
\<close>

section \<open>Types\<close>

datatype ExprType = TInteger | TFloat | TNumeric | TBool | TString | TBytes | TEndian | Unknown

record scope =
  sc_types :: "(string \<times> ExprType) list"
  sc_bodies :: "(string \<times> type_expr) list"

definition empty_scope :: scope where
  "empty_scope = \<lparr>sc_types = [], sc_bodies = []\<rparr>"

definition join :: "ExprType \<Rightarrow> ExprType \<Rightarrow> ExprType" where
  "join a b = (if a = Unknown \<or> b = Unknown then Unknown
     else if a = b then a
     else if a \<in> {TInteger, TFloat, TNumeric} \<and> b \<in> {TInteger, TFloat, TNumeric} then TNumeric
     else Unknown)"

definition is_numeric :: "ExprType \<Rightarrow> bool" where
  "is_numeric t = (t = TInteger \<or> t = TFloat \<or> t = TNumeric \<or> t = Unknown)"

definition is_integer :: "ExprType \<Rightarrow> bool" where
  "is_integer t = (t = TInteger \<or> t = Unknown)"

definition is_boolean_compatible :: "ExprType \<Rightarrow> bool" where
  "is_boolean_compatible t = (t = TBool \<or> t = TInteger \<or> t = Unknown)"

definition types_compatible :: "ExprType \<Rightarrow> ExprType \<Rightarrow> bool" where
  "types_compatible e d = (if e = Unknown \<or> d = Unknown then True else if e = d then True
     else if is_numeric e \<and> is_numeric d then True else False)"

fun type_of_primitive_kind :: "primitive_kind \<Rightarrow> ExprType" where
  "type_of_primitive_kind (IntegerKind _ _ _ _) = TInteger"
| "type_of_primitive_kind (FloatKind _ _) = TFloat"
| "type_of_primitive_kind BoolKind = TBool"
| "type_of_primitive_kind StringKind = TString"
| "type_of_primitive_kind BytesKind = TBytes"

section \<open>Following references to rules\<close>

text \<open>The body a chain of rule references ends in; \<open>None\<close> for a name that is no rule, and when the bound is
  spent.\<close>

fun follow :: "rules \<Rightarrow> nat \<Rightarrow> type_expr \<Rightarrow> type_expr option" where
  "follow rs n (RuleRef name c iv) = (case n of 0 \<Rightarrow> None
     | Suc k \<Rightarrow> (case lookup_rule rs name of Some body \<Rightarrow> follow rs k body | None \<Rightarrow> None))"
| "follow rs n t = Some t"

definition type_of_type_expr :: "rules \<Rightarrow> type_expr \<Rightarrow> ExprType" where
  "type_of_type_expr rs t = (case follow rs (length rs) t of
      Some (Primitive kind _ _) \<Rightarrow> type_of_primitive_kind kind
    | Some (Compute _ (Some kind)) \<Rightarrow> type_of_primitive_kind kind
    | _ \<Rightarrow> Unknown)"

definition resolve_to_struct :: "rules \<Rightarrow> type_expr \<Rightarrow> type_expr field list option" where
  "resolve_to_struct rs t = (case follow rs (length rs) t of Some (Struct fs _) \<Rightarrow> Some fs | _ \<Rightarrow> None)"

definition resolve_to_array_element :: "rules \<Rightarrow> type_expr \<Rightarrow> type_expr option" where
  "resolve_to_array_element rs t = (case follow rs (length rs) t of Some (Array element _ _ _ _ _) \<Rightarrow> Some element | _ \<Rightarrow> None)"

definition choice_arms :: "rules \<Rightarrow> type_expr \<Rightarrow> type_expr field list option list" where
  "choice_arms rs t = (case follow rs (length rs) t of
      Some (Alternatives alts) \<Rightarrow> map (resolve_to_struct rs) alts | _ \<Rightarrow> [])"

definition arms_binding :: "type_expr field list option list \<Rightarrow> string \<Rightarrow> nat" where
  "arms_binding arms name = length (filter (\<lambda>arm. case arm of
      Some fs \<Rightarrow> list_ex (\<lambda>f. f_name f = name) fs | None \<Rightarrow> False) arms)"

definition field_in_every_arm :: "type_expr field list option list \<Rightarrow> string \<Rightarrow> bool" where
  "field_in_every_arm arms name = (arms_binding arms name = length arms)"

fun resolve_path_body :: "rules \<Rightarrow> scope \<Rightarrow> ref_path \<Rightarrow> type_expr option" where
  "resolve_path_body rs sc (Simple name _ _ _) = map_of (sc_bodies sc) name"
| "resolve_path_body rs sc (FieldAcc base field) = (case resolve_path_body rs sc base of
      None \<Rightarrow> None
    | Some t \<Rightarrow> (case resolve_to_struct rs t of
          None \<Rightarrow> None
        | Some fs \<Rightarrow> map_option f_body (find (\<lambda>f. f_name f = field) fs)))"
| "resolve_path_body rs sc (IndexAcc base index) = (case resolve_path_body rs sc base of
      None \<Rightarrow> None | Some t \<Rightarrow> resolve_to_array_element rs t)"

section \<open>Expressions\<close>

definition arithmetic :: "ast_binop \<Rightarrow> bool" where
  "arithmetic op = (op \<in> {Add, Sub, Mul, Div, Mod})"

definition bitwise :: "ast_binop \<Rightarrow> bool" where
  "bitwise op = (op \<in> {BitAnd, BitOr, BitXor, Shl, Shr})"

definition comparison :: "ast_binop \<Rightarrow> bool" where
  "comparison op = (op \<in> {Eq, Ne, Lt, Le, Gt, Ge})"

definition require :: "bool \<Rightarrow> diag \<Rightarrow> report list" where
  "require ok d = (if ok then [] else [Error d])"

fun binop_type :: "ast_binop \<Rightarrow> ExprType \<Rightarrow> ExprType \<Rightarrow> ExprType \<times> report list" where
  "binop_type op lt rt =
     (if arithmetic op then (join lt rt, require (is_numeric lt) NotNumeric @ require (is_numeric rt) NotNumeric)
      else if bitwise op then (TInteger, require (is_integer lt) NotInteger @ require (is_integer rt) NotInteger)
      else if comparison op then (TBool, [])
      else (TBool, require (is_boolean_compatible lt) NotBoolean @ require (is_boolean_compatible rt) NotBoolean))"

fun unop_type :: "ast_unop \<Rightarrow> ExprType \<Rightarrow> ExprType \<times> report list" where
  "unop_type BitNot t = (TInteger, require (is_integer t) NotInteger)"
| "unop_type Not t = (TBool, require (is_boolean_compatible t) NotBoolean)"
| "unop_type _ t = (t, require (is_numeric t) NotNumeric)"

text \<open>A step into a field of what the base names.\<close>

definition field_type :: "rules \<Rightarrow> type_expr option \<Rightarrow> string \<Rightarrow> ExprType \<times> report list" where
  "field_type rs body field = (case body of
      None \<Rightarrow> (Unknown, [])
    | Some t \<Rightarrow>
        (let arms = choice_arms rs t in
         if arms \<noteq> [] then
           (Unknown, if field_in_every_arm arms field then [Error (CommonToArms field)]
              else if 0 < arms_binding arms field then [Error (BoundByArms field (arms_binding arms field) (length arms))]
              else [Error (BoundByNoArm field)])
         else (case resolve_to_struct rs t of
             None \<Rightarrow> (Unknown, [])
           | Some fs \<Rightarrow> (case find (\<lambda>f. f_name f = field) fs of
                 Some f \<Rightarrow> (type_of_type_expr rs (f_body f), [])
               | None \<Rightarrow> (Unknown, [Error (NoField field (find_closest_field field fs))])))))"

text \<open>\<open>type_of_expr\<close> and \<open>type_of_ref_path\<close> with the errors they report. Only a subscript of a simple name is
  typed.\<close>

fun type_of_expr :: "rules \<Rightarrow> scope \<Rightarrow> expr \<Rightarrow> ExprType \<times> report list"
and type_of_ref_path :: "rules \<Rightarrow> scope \<Rightarrow> ref_path \<Rightarrow> ExprType \<times> report list" where
  "type_of_expr rs sc (IntLit _) = (TInteger, [])"
| "type_of_expr rs sc (FloatLit _) = (TFloat, [])"
| "type_of_expr rs sc (StrLit _) = (TString, [])"
| "type_of_expr rs sc (BoolLit _) = (TBool, [])"
| "type_of_expr rs sc (EndianLit _) = (TEndian, [])"
| "type_of_expr rs sc EOI = (TInteger, [])"
| "type_of_expr rs sc (Builtin name) = (if name = ''buffer'' then TBytes else TInteger, [])"
| "type_of_expr rs sc (Ref p) = type_of_ref_path rs sc p"
| "type_of_expr rs sc (BinOp l op r) =
     (case (type_of_expr rs sc l, type_of_expr rs sc r) of
        ((lt, le), (rt, re)) \<Rightarrow> (case binop_type op lt rt of (t, e) \<Rightarrow> (t, le @ re @ e)))"
| "type_of_expr rs sc (UnaryOp op x) =
     (case type_of_expr rs sc x of (xt, xe) \<Rightarrow> (case unop_type op xt of (t, e) \<Rightarrow> (t, xe @ e)))"
| "type_of_expr rs sc (Ternary c t e) =
     (case (type_of_expr rs sc c, type_of_expr rs sc t, type_of_expr rs sc e) of
        ((ct, ce), (tt, te), (et, ee)) \<Rightarrow> (join tt et, ce @ require (is_boolean_compatible ct) NotBoolean @ te @ ee))"
| "type_of_expr rs sc (Call func args) =
     (if func = ''crc32'' \<or> func = ''checksum_xor'' \<or> func = ''peek'' then TInteger else Unknown,
      concat (map (\<lambda>a. snd (type_of_expr rs sc a)) args))"
| "type_of_ref_path rs sc (Simple name _ _ _) =
     (case map_of (sc_types sc) name of Some t \<Rightarrow> t | None \<Rightarrow> Unknown, [])"
| "type_of_ref_path rs sc (FieldAcc base field) =
     (case field_type rs (resolve_path_body rs sc base) field of
        (t, e) \<Rightarrow> (t, snd (type_of_ref_path rs sc base) @ e))"
| "type_of_ref_path rs sc (IndexAcc base index) =
     (case type_of_expr rs sc index of
        (it, ie) \<Rightarrow>
          (case base of
             Simple name _ _ _ \<Rightarrow> (case Option.bind (map_of (sc_bodies sc) name) (resolve_to_array_element rs) of
                 Some elem \<Rightarrow> type_of_type_expr rs elem | None \<Rightarrow> Unknown)
           | _ \<Rightarrow> Unknown,
           ie @ require (is_integer it) IndexNotInteger))"

section \<open>Intervals\<close>

text \<open>A literal, or its negation; the negation of the smallest integer, which the parser does not produce, is
  undefined in the code.\<close>

fun static_int :: "expr \<Rightarrow> int option" where
  "static_int (IntLit v) = Some (sint v)"
| "static_int (UnaryOp Neg (IntLit v)) = Some (- sint v)"
| "static_int e = None"

definition negative :: "int option \<Rightarrow> report list" where
  "negative v = (case v of Some n \<Rightarrow> require (0 \<le> n) IntervalNegative | None \<Rightarrow> [])"

fun check_interval_types :: "rules \<Rightarrow> scope \<Rightarrow> interval \<Rightarrow> report list" where
  "check_interval_types rs sc (StartEnd a b) =
     (case (type_of_expr rs sc a, type_of_expr rs sc b) of
        ((at, ae), (bt, be)) \<Rightarrow>
          ae @ be @ require (is_integer at) IntervalNotInteger @ require (is_integer bt) IntervalNotInteger @
          negative (static_int a) @ negative (static_int b) @
          (case (static_int a, static_int b) of (Some x, Some y) \<Rightarrow> require (x \<le> y) IntervalInverted | _ \<Rightarrow> []))"
| "check_interval_types rs sc (Length n) =
     (case type_of_expr rs sc n of
        (t, e) \<Rightarrow> e @ require (is_integer t) IntervalNotInteger @ negative (static_int n))"

definition opt_interval_types :: "rules \<Rightarrow> scope \<Rightarrow> interval option \<Rightarrow> report list" where
  "opt_interval_types rs sc iv = (case iv of Some x \<Rightarrow> check_interval_types rs sc x | None \<Rightarrow> [])"

section \<open>Fields\<close>

definition check_boolean :: "rules \<Rightarrow> scope \<Rightarrow> diag \<Rightarrow> expr \<Rightarrow> report list" where
  "check_boolean rs sc d e = (case type_of_expr rs sc e of (t, es) \<Rightarrow> es @ require (is_boolean_compatible t) d)"

definition check_integer :: "rules \<Rightarrow> scope \<Rightarrow> diag \<Rightarrow> expr \<Rightarrow> report list" where
  "check_integer rs sc d e = (case type_of_expr rs sc e of (t, es) \<Rightarrow> es @ require (is_integer t) d)"

definition opt_boolean :: "rules \<Rightarrow> scope \<Rightarrow> diag \<Rightarrow> expr option \<Rightarrow> report list" where
  "opt_boolean rs sc d e = (case e of Some x \<Rightarrow> check_boolean rs sc d x | None \<Rightarrow> [])"

fun body_constraint :: "type_expr \<Rightarrow> expr option" where
  "body_constraint (Primitive _ c _) = c"
| "body_constraint (RuleRef _ c _) = c"
| "body_constraint (Extern _ _ _ c _) = c"
| "body_constraint _ = None"

fun body_interval :: "type_expr \<Rightarrow> interval option" where
  "body_interval (Primitive _ _ iv) = iv"
| "body_interval (RuleRef _ _ iv) = iv"
| "body_interval (Extern _ _ _ _ iv) = iv"
| "body_interval _ = None"

definition body_has_constraint :: "type_expr \<Rightarrow> bool" where
  "body_has_constraint t = (body_constraint t \<noteq> None)"

text \<open>A field compared with itself.\<close>

fun check_tautology :: "expr \<Rightarrow> report list" where
  "check_tautology (BinOp (Ref (Simple l _ _ _)) op (Ref (Simple r _ _ _))) =
     (if (op = Eq \<or> op = Ne) \<and> l = r then [Warning (ComparesToItself l (op = Eq))] else [])"
| "check_tautology e = []"

definition opt_tautology :: "expr option \<Rightarrow> report list" where
  "opt_tautology e = (case e of Some x \<Rightarrow> check_tautology x | None \<Rightarrow> [])"

text \<open>Count, condition, constraint and intervals of an array.\<close>

fun check_array_types :: "rules \<Rightarrow> scope \<Rightarrow> type_expr \<Rightarrow> report list" where
  "check_array_types rs sc (Array element spec constraint iv eiv resync) =
     (case spec of
        FixedCount e \<Rightarrow> check_integer rs sc CountNotInteger e
      | SepTerm _ (CountTerm e) \<Rightarrow> check_integer rs sc CountNotInteger e
      | SepTerm _ (UntilTerm e) \<Rightarrow> check_boolean rs sc UntilNotBoolean e
      | _ \<Rightarrow> []) @
     opt_boolean rs sc ConstraintNotBoolean constraint @ opt_interval_types rs sc iv @ opt_interval_types rs sc eiv"
| "check_array_types rs sc t = []"

fun check_compute :: "rules \<Rightarrow> scope \<Rightarrow> type_expr \<Rightarrow> report list" where
  "check_compute rs sc (Compute e None) = [Error ComputeNoType]"
| "check_compute rs sc (Compute e (Some kind)) = (case type_of_expr rs sc e of
     (t, es) \<Rightarrow> es @ require (types_compatible t (type_of_primitive_kind kind)) ComputeIncompatible)"
| "check_compute rs sc t = []"

definition check_field_types :: "rules \<Rightarrow> scope \<Rightarrow> type_field \<Rightarrow> report list" where
  "check_field_types rs sc f =
     opt_boolean rs sc ConstraintNotBoolean (f_constraint f) @
     opt_boolean rs sc ConstraintNotBoolean (body_constraint (f_body f)) @
     (if f_constraint f \<noteq> None \<and> body_has_constraint (f_body f) then [Warning (TwoConstraints (f_name f))] else []) @
     opt_tautology (f_constraint f) @ opt_tautology (body_constraint (f_body f)) @
     check_compute rs sc (f_body f) @ opt_interval_types rs sc (f_interval f) @
     opt_interval_types rs sc (body_interval (f_body f)) @ check_array_types rs sc (f_body f) @
     (case f_body f of Switch disc _ _ \<Rightarrow> snd (type_of_expr rs sc disc) | _ \<Rightarrow> [])"

section \<open>Structs and rules\<close>

definition enter_field :: "rules \<Rightarrow> type_field \<Rightarrow> scope \<Rightarrow> scope" where
  "enter_field rs f sc = \<lparr>sc_types = (f_name f, type_of_type_expr rs (f_body f)) # sc_types sc,
     sc_bodies = (f_name f, f_body f) # sc_bodies sc\<rparr>"

fun endian_switch :: "type_expr \<Rightarrow> expr option" where
  "endian_switch (EndianSwitch e) = Some e"
| "endian_switch _ = None"

text \<open>\<open>check_types_struct\<close>; \<open>field_types_\<close>, the types it leaves for the emitters, is the second component.\<close>

fun check_types_struct :: "rules \<Rightarrow> type_expr \<Rightarrow> scope \<Rightarrow> report list \<times> (type_field \<times> ExprType) list" where
  "check_types_struct rs (Struct fs constraint) inherited =
     (case fold (\<lambda>f ((reps, types), sc).
         (case endian_switch (f_body f) of
            Some e \<Rightarrow> (case type_of_expr rs sc e of
              (t, es) \<Rightarrow> ((reps @ es @ require (t = TEndian \<or> t = Unknown) EndianNotEndian, types), sc))
          | None \<Rightarrow>
              let sc1 = enter_field rs f sc;
                  inner = check_types_struct rs (f_body f) sc1
              in ((reps @ check_field_types rs sc1 f @ fst inner,
                   types @ (f, type_of_type_expr rs (f_body f)) # snd inner), sc1)))
        fs (([], []), inherited) of (out, sc) \<Rightarrow> out)"
| "check_types_struct rs t inherited = ([], [])"

definition check_types :: "rules \<Rightarrow> type_expr \<Rightarrow> report list \<times> (type_field \<times> ExprType) list" where
  "check_types rs body = (case body of
      Struct fs constraint \<Rightarrow> check_types_struct rs body empty_scope
    | Switch disc _ _ \<Rightarrow> (snd (type_of_expr rs empty_scope disc), [])
    | Array _ _ _ _ _ _ \<Rightarrow> (check_array_types rs empty_scope body, [])
    | _ \<Rightarrow> ([], []))"

end
