(* ===== verification/Alloc.thy ===== *)
theory Alloc
  imports Prelude
begin

text \<open>
  \<open>crt/bbq_alloc.h\<close> and \<open>crt/bbq_alloc.c\<close>: the allocator every container of the C runtime goes
  through, the budget that puts a ceiling on it, the fault injector, and the hash seed.

  A \<open>bbq_alloc*\<close> is either NULL (libc) or the handle of a budget or of a fault injector, each of
  which names the allocator underneath it; that is the datatype \<open>allocator\<close>. libc itself is a
  schedule of answers (does the \<open>i\<close>-th request succeed?) together with the number of bytes it has
  out. An entry point returns whether it handed out a block, and the allocator's new state. The
  address of a block plays no part in the code's decisions; only whether a pointer is NULL does,
  so the pointer argument of a resize or a release is the Boolean \<open>had\<close>.
\<close>

datatype allocator =
    Libc (answers: "nat \<Rightarrow> bool") (asked: nat) (live: nat)
  | Budget (b_limit: size_t) (b_used: size_t) (b_peak: size_t) (b_denials: size_t)
      (b_under: allocator)
  | Faulty (f_fail_at: size_t) (f_served: size_t) (f_once: bool) (f_under: allocator)

section \<open>libc\<close>

definition libc_malloc :: "size_t \<Rightarrow> (nat \<Rightarrow> bool) \<Rightarrow> nat \<Rightarrow> nat \<Rightarrow> bool \<times> allocator" where
  "libc_malloc n ans k l =
     (if ans k then (True, Libc ans (Suc k) (l + unat n)) else (False, Libc ans (Suc k) l))"

definition libc_realloc ::
  "bool \<Rightarrow> size_t \<Rightarrow> size_t \<Rightarrow> (nat \<Rightarrow> bool) \<Rightarrow> nat \<Rightarrow> nat \<Rightarrow> bool \<times> allocator" where
  "libc_realloc had old_n new_n ans k l =
     (if ans k then (True, Libc ans (Suc k) ((if had then l - unat old_n else l) + unat new_n))
      else (False, Libc ans (Suc k) l))"

definition libc_free :: "size_t \<Rightarrow> (nat \<Rightarrow> bool) \<Rightarrow> nat \<Rightarrow> nat \<Rightarrow> allocator" where
  "libc_free n ans k l = Libc ans k (l - unat n)"

section \<open>Fault injection: the bite\<close>

definition faulty_bites :: "size_t \<Rightarrow> size_t \<Rightarrow> bool \<Rightarrow> bool" where
  "faulty_bites fail_at served once =
     (if fail_at = 0 then False
      else let n = served + 1 in if once then n = fail_at else fail_at \<le> n)"

section \<open>The entry points\<close>

text \<open>
  \<open>bbq_mem_alloc\<close> and \<open>bbq_mem_release\<close>, with the virtual functions of the two wrappers
  (\<open>budget_alloc\<close>, \<open>faulty_alloc\<close>, \<open>budget_release\<close>, \<open>faulty_release\<close>).
\<close>

fun mem_alloc :: "size_t \<Rightarrow> allocator \<Rightarrow> bool \<times> allocator"
and budget_alloc ::
  "size_t \<Rightarrow> size_t \<Rightarrow> size_t \<Rightarrow> size_t \<Rightarrow> size_t \<Rightarrow> allocator \<Rightarrow> bool \<times> allocator"
and faulty_alloc :: "size_t \<Rightarrow> size_t \<Rightarrow> size_t \<Rightarrow> bool \<Rightarrow> allocator \<Rightarrow> bool \<times> allocator"
where
  "mem_alloc n (Libc ans k l) =
     (if n = 0 then (False, Libc ans k l) else libc_malloc n ans k l)"
| "mem_alloc n (Budget lim used peak den un) =
     (if n = 0 then (False, Budget lim used peak den un)
      else budget_alloc n lim used peak den un)"
| "mem_alloc n (Faulty fa sv onc un) =
     (if n = 0 then (False, Faulty fa sv onc un) else faulty_alloc n fa sv onc un)"
| "budget_alloc n lim used peak den un =
     (if lim - used < n \<or> lim < used then (False, Budget lim used peak (den + 1) un)
      else case mem_alloc n un of
          (False, un') \<Rightarrow> (False, Budget lim used peak (den + 1) un')
        | (True, un') \<Rightarrow> (True, Budget lim (used + n) (max peak (used + n)) den un'))"
| "faulty_alloc n fa sv onc un =
     (if faulty_bites fa sv onc then (False, Faulty fa (sv + 1) onc un)
      else case mem_alloc n un of
          (ok, un') \<Rightarrow> (ok, Faulty fa (if ok then sv + 1 else sv) onc un'))"

fun mem_release :: "bool \<Rightarrow> size_t \<Rightarrow> allocator \<Rightarrow> allocator" where
  "mem_release had n (Libc ans k l) = (if \<not> had then Libc ans k l else libc_free n ans k l)"
| "mem_release had n (Budget lim used peak den un) =
     (if \<not> had then Budget lim used peak den un
      else Budget lim (if used < n then 0 else used - n) peak den (mem_release had n un))"
| "mem_release had n (Faulty fa sv onc un) =
     (if \<not> had then Faulty fa sv onc un else Faulty fa sv onc (mem_release had n un))"

text \<open>\<open>bbq_mem_zalloc\<close>: \<open>calloc\<close> or the allocator followed by \<open>memset\<close>; the zeroing is the
  caller's view of the block.\<close>

definition mem_zalloc :: "size_t \<Rightarrow> allocator \<Rightarrow> bool \<times> allocator" where
  "mem_zalloc n a = (if n = 0 then (False, a) else mem_alloc n a)"

fun mem_resize :: "bool \<Rightarrow> size_t \<Rightarrow> size_t \<Rightarrow> allocator \<Rightarrow> bool \<times> allocator" where
  "mem_resize had old_n new_n (Libc ans k l) =
     (if new_n = 0 then (False, mem_release had old_n (Libc ans k l))
      else libc_realloc had old_n new_n ans k l)"
| "mem_resize had old_n new_n (Budget lim used peak den un) =
     (if new_n = 0 then (False, mem_release had old_n (Budget lim used peak den un))
      else if \<not> had then budget_alloc new_n lim used peak den un
      else if old_n < new_n \<and> (lim - used < new_n - old_n \<or> lim < used)
      then (False, Budget lim used peak (den + 1) un)
      else case mem_resize True old_n new_n un of
          (False, un') \<Rightarrow> (False, Budget lim used peak (den + 1) un')
        | (True, un') \<Rightarrow>
            let u = used - old_n + new_n in (True, Budget lim u (max peak u) den un'))"
| "mem_resize had old_n new_n (Faulty fa sv onc un) =
     (if new_n = 0 then (False, mem_release had old_n (Faulty fa sv onc un))
      else if \<not> had then faulty_alloc new_n fa sv onc un
      else if faulty_bites fa sv onc then (False, Faulty fa (sv + 1) onc un)
      else case mem_resize True old_n new_n un of
          (ok, un') \<Rightarrow> (ok, Faulty fa (if ok then sv + 1 else sv) onc un'))"

definition mem_array_bytes :: "size_t \<Rightarrow> size_t \<Rightarrow> size_t" where
  "mem_array_bytes n sz =
     (if n = 0 \<or> sz = 0 then 0 else if SIZE_MAX div sz < n then 0 else n * sz)"

definition budget_init :: "size_t \<Rightarrow> allocator \<Rightarrow> allocator" where
  "budget_init limit un = Budget limit 0 0 0 un"

definition faulty_init :: "size_t \<Rightarrow> bool \<Rightarrow> allocator \<Rightarrow> allocator" where
  "faulty_init fail_at once un = Faulty fail_at 0 once un"

text \<open>
  \<open>bbq_hash_seed\<close> on Linux: \<open>got\<close> says whether \<open>getrandom\<close> filled the eight bytes \<open>s\<close>;
  the address of the local, the clock and the time are what the platform answers.
\<close>

definition hash_seed :: "bool \<Rightarrow> u64 \<Rightarrow> u64 \<Rightarrow> u64 \<Rightarrow> u64 \<Rightarrow> u64" where
  "hash_seed got s addr clk tm =
     (if got \<and> s \<noteq> 0 then s
      else let r = ((addr * 0x9E3779B97F4A7C15) XOR (clk * 0xBF58476D1CE4E5B9)) XOR tm
           in if r \<noteq> 0 then r else 0x9E3779B97F4A7C15)"

section \<open>The books\<close>

text \<open>
  \<open>accounts a s\<close>: every layer of \<open>a\<close> agrees that \<open>s\<close> bytes are out, and no budget is over its
  limit or has ever been.
\<close>

fun accounts :: "allocator \<Rightarrow> nat \<Rightarrow> bool" where
  "accounts (Libc ans k l) s = (l = s)"
| "accounts (Budget lim used peak den un) s =
     (unat used = s \<and> used \<le> lim \<and> used \<le> peak \<and> peak \<le> lim \<and> accounts un s)"
| "accounts (Faulty fa sv onc un) s = accounts un s"

lemma budget_grow_ok:
  fixes used lim n :: size_t
  assumes "\<not> (lim - used < n \<or> lim < used)"
  shows "unat (used + n) = unat used + unat n" and "used + n \<le> lim" and "used \<le> used + n"
proof -
  have le: "used \<le> lim" and n: "n \<le> lim - used" using assms by auto
  have sub: "unat (lim - used) = unat lim - unat used" using le by (rule unat_sub_le)
  have s: "unat used + unat n \<le> unat lim"
    using n le sub by (simp add: word_le_nat_alt)
  then have "unat used + unat n < 2 ^ 64" using unat_lt64 [of lim] by linarith
  then show add: "unat (used + n) = unat used + unat n" by (rule unat_add_no_wrap)
  show "used + n \<le> lim" using s add by (simp add: word_le_nat_alt)
  show "used \<le> used + n" using add by (simp add: word_le_nat_alt)
qed

lemma mem_alloc_accounts:
  "mem_alloc n a = (ok, a') \<Longrightarrow> accounts a s \<Longrightarrow>
   (n = 0 \<longrightarrow> \<not> ok) \<and> accounts a' (if ok then s + unat n else s)"
proof (induction a arbitrary: ok a')
  case (Libc ans k l)
  then show ?case by (auto simp: libc_malloc_def split: if_splits)
next
  case (Budget lim used peak den un)
  show ?case
  proof (cases "n = 0 \<or> lim - used < n \<or> lim < used")
    case True
    with Budget.prems show ?thesis by (auto split: if_splits)
  next
    case False
    obtain ok1 un' where r: "mem_alloc n un = (ok1, un')" by fastforce
    have un: "accounts un' (if ok1 then s + unat n else s)"
      using Budget.IH [OF r] Budget.prems(2) by simp
    have g: "\<not> (lim - used < n \<or> lim < used)" using False by simp
    show ?thesis
      using Budget.prems False r un budget_grow_ok [OF g]
      by (cases ok1) (auto simp: max_def split: if_splits)
  qed
next
  case (Faulty fa sv onc un)
  obtain ok1 un' where r: "mem_alloc n un = (ok1, un')" by fastforce
  from Faulty.IH [OF r] Faulty.prems r show ?case
    by (auto split: if_splits)
qed

lemma mem_release_accounts:
  "accounts a s \<Longrightarrow> unat n \<le> s \<Longrightarrow> accounts (mem_release had n a) (if had then s - unat n else s)"
proof (induction a)
  case (Libc ans k l)
  then show ?case by (simp add: libc_free_def)
next
  case (Budget lim used peak den un)
  show ?case
  proof (cases had)
    case True
    have u: "n \<le> used" using Budget.prems by (simp add: word_le_nat_alt)
    then have m: "unat (used - n) = unat used - unat n" by (rule unat_sub_le)
    then have "used - n \<le> used" by (simp add: word_le_nat_alt)
    then show ?thesis
      using Budget u m True by (auto simp: not_less)
  next
    case False
    then show ?thesis using Budget by simp
  qed
next
  case (Faulty fa sv onc un)
  then show ?case by (cases had) auto
qed

lemma budget_resize_ok:
  fixes used lim old_n new_n :: size_t
  assumes "\<not> (old_n < new_n \<and> (lim - used < new_n - old_n \<or> lim < used))"
    and "old_n \<le> used" and "used \<le> lim"
  shows "unat (used - old_n + new_n) = unat used - unat old_n + unat new_n"
    and "used - old_n + new_n \<le> lim"
proof -
  have sub: "unat (used - old_n) = unat used - unat old_n" using assms(2) by (rule unat_sub_le)
  have lims: "unat (lim - used) = unat lim - unat used" using assms(3) by (rule unat_sub_le)
  have s: "unat used - unat old_n + unat new_n \<le> unat lim"
  proof (cases "old_n < new_n")
    case True
    then have "unat (new_n - old_n) = unat new_n - unat old_n"
      by (intro unat_sub_le) simp
    with True assms lims show ?thesis
      by (auto simp: word_le_nat_alt word_less_nat_alt)
  next
    case False
    then show ?thesis using assms(2,3) by (auto simp: word_le_nat_alt word_less_nat_alt)
  qed
  then have "unat (used - old_n) + unat new_n < 2 ^ 64" using unat_lt64 [of lim] sub by linarith
  then have add: "unat (used - old_n + new_n) = unat (used - old_n) + unat new_n"
    by (rule unat_add_no_wrap)
  then show "unat (used - old_n + new_n) = unat used - unat old_n + unat new_n" using sub by simp
  then show "used - old_n + new_n \<le> lim" using s by (simp add: word_le_nat_alt)
qed

lemma mem_resize_accounts:
  "mem_resize True old_n new_n a = (ok, a') \<Longrightarrow> accounts a s \<Longrightarrow> unat old_n \<le> s \<Longrightarrow>
   (new_n = 0 \<longrightarrow> \<not> ok) \<and>
   accounts a' (if ok then s - unat old_n + unat new_n else if new_n = 0 then s - unat old_n else s)"
proof (induction a arbitrary: ok a')
  case (Libc ans k l)
  then show ?case by (auto simp: libc_realloc_def libc_free_def split: if_splits)
next
  case (Budget lim used peak den un)
  show ?case
  proof (cases "new_n = 0 \<or> (old_n < new_n \<and> (lim - used < new_n - old_n \<or> lim < used))")
    case True
    with Budget.prems mem_release_accounts [of "Budget lim used peak den un" s old_n True]
    show ?thesis by (auto split: if_splits)
  next
    case False
    obtain ok1 un' where r: "mem_resize True old_n new_n un = (ok1, un')" by fastforce
    have un: "accounts un' (if ok1 then s - unat old_n + unat new_n
        else if new_n = 0 then s - unat old_n else s)"
      using Budget.IH [OF r] Budget.prems by simp
    have o: "old_n \<le> used" using Budget.prems by (simp add: word_le_nat_alt)
    have g: "\<not> (old_n < new_n \<and> (lim - used < new_n - old_n \<or> lim < used))"
      and l: "used \<le> lim" using False Budget.prems by auto
    show ?thesis
      using Budget.prems False r un budget_resize_ok [OF g o l]
      by (cases ok1) (auto simp: Let_def max_def split: if_splits)
  qed
next
  case (Faulty fa sv onc un)
  obtain ok1 un' where r: "mem_resize True old_n new_n un = (ok1, un')" by fastforce
  from Faulty.IH [OF r] Faulty.prems r mem_release_accounts [of un s old_n True] show ?case
    by (auto split: if_splits)
qed

lemma mem_resize_null: "new_n \<noteq> 0 \<Longrightarrow> mem_resize False old_n new_n a = mem_alloc new_n a"
  by (cases a) (auto simp: libc_realloc_def libc_malloc_def)

lemma mem_release_null [simp]: "mem_release False n a = a"
  by (cases a) auto

section \<open>The interface\<close>

text \<open>The bytes an answer \<open>had\<close> stands for: \<open>n\<close> when a block was handed out, none otherwise.\<close>

definition paid :: "bool \<Rightarrow> size_t \<Rightarrow> nat" where
  "paid had n = (if had then unat n else 0)"

lemma paid_simps [simp]: "paid True n = unat n" "paid False n = 0"
  by (simp_all add: paid_def)

text \<open>
  What a container relies on: an allocator keeps books (\<open>acct\<close>), a served request adds exactly
  its bytes, a refused one adds nothing, and a release takes exactly its bytes back.
\<close>

locale accounting =
  fixes al :: "size_t \<Rightarrow> 'a \<Rightarrow> bool \<times> 'a"
    and rel :: "bool \<Rightarrow> size_t \<Rightarrow> 'a \<Rightarrow> 'a"
    and rsz :: "bool \<Rightarrow> size_t \<Rightarrow> size_t \<Rightarrow> 'a \<Rightarrow> bool \<times> 'a"
    and acct :: "'a \<Rightarrow> nat \<Rightarrow> bool"
  assumes al_acct: "al n a = (ok, a') \<Longrightarrow> acct a s \<Longrightarrow> acct a' (s + paid ok n)"
    and al_zero: "al n a = (ok, a') \<Longrightarrow> n = 0 \<Longrightarrow> \<not> ok"
    and rel_acct: "acct a s \<Longrightarrow> paid had n \<le> s \<Longrightarrow> acct (rel had n a) (s - paid had n)"
    and rsz_acct: "rsz True old new a = (ok, a') \<Longrightarrow> acct a s \<Longrightarrow> unat old \<le> s \<Longrightarrow>
      (new = 0 \<longrightarrow> \<not> ok) \<and>
      acct a' (if ok then s - unat old + unat new else if new = 0 then s - unat old else s)"
    and rsz_null: "new \<noteq> 0 \<Longrightarrow> rsz False old new a = al new a"
begin

lemma rel_add: "acct a (s + paid had n) \<Longrightarrow> acct (rel had n a) s"
  using rel_acct [of a "s + paid had n" had n] by simp

lemma rel_add2: "acct a (s + paid had n + t) \<Longrightarrow> acct (rel had n a) (s + t)"
  using rel_add [of a "s + t" had n] by (simp add: algebra_simps)

lemma al_rel_restores: "al n a = (ok, a') \<Longrightarrow> acct a s \<Longrightarrow> acct (rel ok n a') s"
  by (rule rel_add) (rule al_acct)

lemma three_acct:
  assumes "al n1 a = (k1, a1)" and "al n2 a1 = (k2, a2)" and "al n3 a2 = (k3, a3)"
    and "acct a s"
  shows "acct a3 (s + paid k1 n1 + paid k2 n2 + paid k3 n3)"
  using assms by (blast intro: al_acct)

lemma three_restore:
  assumes "al n1 a = (k1, a1)" and "al n2 a1 = (k2, a2)" and "al n3 a2 = (k3, a3)"
    and "acct a s"
  shows "acct (rel k3 n3 (rel k2 n2 (rel k1 n1 a3))) s"
  using three_acct [OF assms] by (metis rel_add rel_add2 add.assoc)

text \<open>Growing a block, or taking a first one: the shape of every growable container.\<close>

lemma rsz_any:
  assumes "rsz had old new a = (ok, a')" and "acct a (s + paid had old)" and "new \<noteq> 0"
  shows "acct a' (if ok then s + unat new else s + paid had old)"
proof (cases had)
  case True
  then show ?thesis using rsz_acct [of old new a ok a' "s + unat old"] assms by auto
next
  case False
  then have "al new a = (ok, a')" using assms(1,3) by (simp add: rsz_null)
  from al_acct [OF this assms(2)] False show ?thesis by (cases ok) auto
qed

end

interpretation mem: accounting mem_alloc mem_release mem_resize accounts
proof (unfold_locales, goal_cases)
  case (1 n a ok a' s)
  from mem_alloc_accounts [OF this] show ?case by (cases ok) auto
next
  case (2 n a ok a')
  then show ?case by (cases a) (auto simp: libc_malloc_def)
next
  case (3 a s had n)
  then show ?case by (cases had) (auto dest: mem_release_accounts [of _ _ _ True])
next
  case (4 old new a ok a' s)
  then show ?case by (rule mem_resize_accounts)
next
  case (5 new old a)
  then show ?case by (rule mem_resize_null)
qed

section \<open>The table of allocators\<close>

text \<open>
  A container keeps the \<open>bbq_alloc*\<close> it was given; the pointer is an index into a table of
  allocators, 0 being NULL, that is libc.
\<close>

type_synonym heap = "nat \<Rightarrow> allocator"

definition h_alloc :: "nat \<Rightarrow> size_t \<Rightarrow> heap \<Rightarrow> bool \<times> heap" where
  "h_alloc a n h = (case mem_alloc n (h a) of (ok, s) \<Rightarrow> (ok, h(a := s)))"

definition h_release :: "nat \<Rightarrow> bool \<Rightarrow> size_t \<Rightarrow> heap \<Rightarrow> heap" where
  "h_release a had n h = h(a := mem_release had n (h a))"

definition h_resize :: "nat \<Rightarrow> bool \<Rightarrow> size_t \<Rightarrow> size_t \<Rightarrow> heap \<Rightarrow> bool \<times> heap" where
  "h_resize a had old_n new_n h = (case mem_resize had old_n new_n (h a) of (ok, s) \<Rightarrow> (ok, h(a := s)))"

definition h_zalloc :: "nat \<Rightarrow> size_t \<Rightarrow> heap \<Rightarrow> bool \<times> heap" where
  "h_zalloc a n h = (case mem_zalloc n (h a) of (ok, s) \<Rightarrow> (ok, h(a := s)))"

lemma h_zalloc_alloc: "h_zalloc a n h = h_alloc a n h"
proof (cases "n = 0")
  case True
  then show ?thesis by (cases "h a") (auto simp: h_zalloc_def h_alloc_def mem_zalloc_def fun_upd_triv)
qed (simp add: h_zalloc_def h_alloc_def mem_zalloc_def)

lemma h_alloc_other: "h_alloc a n h = (ok, h') \<Longrightarrow> b \<noteq> a \<Longrightarrow> h' b = h b"
  by (auto simp: h_alloc_def split: prod.splits)

lemma h_release_other: "b \<noteq> a \<Longrightarrow> h_release a had n h b = h b"
  by (simp add: h_release_def)

lemma h_resize_other: "h_resize a had old_n new_n h = (ok, h') \<Longrightarrow> b \<noteq> a \<Longrightarrow> h' b = h b"
  by (auto simp: h_resize_def split: prod.splits)

interpretation heap: accounting "h_alloc a" "h_release a" "h_resize a" "\<lambda>h. accounts (h a)" for a
proof (unfold_locales, goal_cases)
  case (1 n h ok h' s)
  then show ?case by (auto simp: h_alloc_def split: prod.splits dest: mem.al_acct)
next
  case (2 n h ok h')
  then show ?case by (auto simp: h_alloc_def split: prod.splits dest: mem.al_zero)
next
  case (3 h s had n)
  then show ?case by (simp add: h_release_def mem.rel_acct)
next
  case (4 old new h ok h' s)
  then show ?case
    by (auto simp: h_resize_def split: prod.splits dest: mem.rsz_acct)
next
  case (5 new old h)
  then show ?case by (simp add: h_resize_def h_alloc_def mem.rsz_null)
qed

section \<open>A client's trace\<close>

text \<open>
  A client that follows the interface: it allocates, resizes a block it holds (passing its true
  size) and releases a block it holds. The state is the allocator and the sizes of the blocks
  held.
\<close>

datatype mem_op = OAlloc size_t | OResize nat size_t | ORelease nat

definition remove_nth :: "nat \<Rightarrow> 'a list \<Rightarrow> 'a list" where
  "remove_nth i xs = take i xs @ drop (Suc i) xs"

fun mem_step :: "mem_op \<Rightarrow> allocator \<times> size_t list \<Rightarrow> allocator \<times> size_t list" where
  "mem_step (OAlloc n) (a, bs) =
     (case mem_alloc n a of (ok, a') \<Rightarrow> (a', if ok then bs @ [n] else bs))"
| "mem_step (OResize i n) (a, bs) =
     (if i < length bs
      then case mem_resize True (bs ! i) n a of
          (ok, a') \<Rightarrow> (a', if ok then bs[i := n] else if n = 0 then remove_nth i bs else bs)
      else (a, bs))"
| "mem_step (ORelease i) (a, bs) =
     (if i < length bs then (mem_release True (bs ! i) a, remove_nth i bs) else (a, bs))"

definition held :: "size_t list \<Rightarrow> nat" where
  "held bs = sum_list (map unat bs)"

lemma held_simps [simp]: "held [] = 0" "held (b # bs) = unat b + held bs"
  "held (bs @ cs) = held bs + held cs"
  by (simp_all add: held_def)

lemma held_split: "i < length bs \<Longrightarrow> held bs = held (take i bs) + unat (bs ! i) + held (drop (Suc i) bs)"
  by (metis held_simps(2,3) id_take_nth_drop add.assoc)

lemma held_remove_nth: "i < length bs \<Longrightarrow> held (remove_nth i bs) = held bs - unat (bs ! i)"
  using held_split [of i bs] by (simp add: remove_nth_def)

lemma held_update: "i < length bs \<Longrightarrow> held (bs[i := n]) = held bs - unat (bs ! i) + unat n"
  using held_split [of i bs] by (simp add: upd_conv_take_nth_drop)

lemma held_nth_le: "i < length bs \<Longrightarrow> unat (bs ! i) \<le> held bs"
  using held_split [of i bs] by simp

lemma mem_step_accounts:
  assumes "accounts a (held bs)" and "mem_step x (a, bs) = (a', bs')"
  shows "accounts a' (held bs')"
proof (cases x)
  case (OAlloc n)
  with assms show ?thesis
    by (auto split: prod.splits if_splits dest!: mem.al_acct [OF _ assms(1)])
next
  case (OResize i n)
  show ?thesis
  proof (cases "i < length bs")
    case True
    obtain ok a1 where r: "mem_resize True (bs ! i) n a = (ok, a1)" by fastforce
    from mem.rsz_acct [OF r assms(1) held_nth_le [OF True]] OResize True r assms(2)
    show ?thesis by (auto simp: held_update held_remove_nth split: if_splits)
  qed (use OResize assms in auto)
next
  case (ORelease i)
  with assms mem.rel_acct [of a "held bs" True "bs ! i"] show ?thesis
    by (auto simp: held_remove_nth held_nth_le split: if_splits)
qed

lemma run_accounts:
  "accounts a (held bs) \<Longrightarrow> run_ops mem_step ops (a, bs) = (a', bs') \<Longrightarrow> accounts a' (held bs')"
proof (induction ops arbitrary: a bs)
  case (Cons x ops)
  obtain a1 bs1 where "mem_step x (a, bs) = (a1, bs1)" by fastforce
  with Cons mem_step_accounts [OF Cons.prems(1) this] show ?case by simp
qed simp

text \<open>An operation never turns a budget into something else, nor moves its limit.\<close>

definition is_budget :: "size_t \<Rightarrow> allocator \<Rightarrow> bool" where
  "is_budget lim a = (case a of Budget l _ _ _ _ \<Rightarrow> l = lim | _ \<Rightarrow> False)"

lemma mem_alloc_is_budget: "is_budget lim a \<Longrightarrow> is_budget lim (snd (mem_alloc n a))"
  by (cases a) (auto simp: is_budget_def split: prod.splits bool.splits)

lemma mem_release_is_budget: "is_budget lim a \<Longrightarrow> is_budget lim (mem_release had n a)"
  by (cases a) (auto simp: is_budget_def)

lemma mem_resize_is_budget: "is_budget lim a \<Longrightarrow> is_budget lim (snd (mem_resize had o_n n a))"
  by (cases a) (auto simp: is_budget_def Let_def split: prod.splits bool.splits)

lemma mem_step_is_budget: "is_budget lim (fst s) \<Longrightarrow> is_budget lim (fst (mem_step x s))"
proof (cases x; cases s)
  fix a bs n
  assume "is_budget lim (fst s)" "s = (a, bs)" "x = OAlloc n"
  then show ?thesis using mem_alloc_is_budget [of lim a n] by (auto split: prod.splits)
next
  fix a bs i n
  assume "is_budget lim (fst s)" "s = (a, bs)" "x = OResize i n"
  then show ?thesis
    using mem_resize_is_budget [of lim a True "bs ! i" n] by (auto split: prod.splits)
next
  fix a bs i
  assume "is_budget lim (fst s)" "s = (a, bs)" "x = ORelease i"
  then show ?thesis using mem_release_is_budget [of lim a True "bs ! i"] by auto
qed

lemma run_is_budget: "is_budget lim (fst s) \<Longrightarrow> is_budget lim (fst (run_ops mem_step ops s))"
  by (rule run_ops_invariant [where I = "\<lambda>s. is_budget lim (fst s)"]) (rule mem_step_is_budget)

section \<open>Properties\<close>

text \<open>C34: the ceiling. Whatever a client does through a budget, and whatever the allocator underneath
  refuses, the budget's \<open>used\<close> is exactly the bytes the client holds, its peak never passes the
  limit, and the allocator underneath has exactly the same bytes out (no leak, no double charge).\<close>

theorem budget_exact:
  assumes "accounts un 0" and "run_ops mem_step ops (budget_init lim un, []) = (a, bs)"
  shows "\<exists>used peak den un'. a = Budget lim used peak den un' \<and> unat used = held bs \<and>
    used \<le> peak \<and> peak \<le> lim \<and> accounts un' (held bs)"
proof -
  have "accounts a (held bs)"
    using run_accounts [OF _ assms(2)] assms(1) by (simp add: budget_init_def)
  moreover have "is_budget lim a"
    using run_is_budget [of lim "(budget_init lim un, [])" ops] assms(2)
    by (simp add: is_budget_def budget_init_def)
  ultimately show ?thesis by (cases a) (auto simp: is_budget_def)
qed

theorem budget_exact_witness:
  "\<exists>used peak den un'. fst (run_ops mem_step [OAlloc 40, OAlloc 100, OResize 0 60, ORelease 0, OAlloc 0]
      (budget_init 100 (Libc (\<lambda>i. i \<noteq> 1) 0 0), [])) = Budget 100 used peak den un' \<and>
    unat used = held [] \<and> used \<le> peak \<and> peak \<le> 100 \<and> accounts un' (held [])"
proof -
  have r: "run_ops mem_step [OAlloc 40, OAlloc 100, OResize 0 60, ORelease 0, OAlloc 0]
      (budget_init 100 (Libc (\<lambda>i. i \<noteq> 1) 0 0), []) =
    (fst (run_ops mem_step [OAlloc 40, OAlloc 100, OResize 0 60, ORelease 0, OAlloc 0]
      (budget_init 100 (Libc (\<lambda>i. i \<noteq> 1) 0 0), [])), [])"
    by (simp add: budget_init_def libc_malloc_def libc_realloc_def libc_free_def remove_nth_def)
  show ?thesis by (rule budget_exact [OF _ r]) simp
qed

text \<open>The ceiling bites exactly when it must. Over an allocator that never refuses, a request of
  \<open>n > 0\<close> bytes is refused iff it would take the total past the limit, and a refusal changes
  nothing but the count of denials.\<close>

lemma budget_decides:
  "mem_alloc n (Budget lim used peak den (Libc (\<lambda>_. True) k l)) =
     (if n = 0 then (False, Budget lim used peak den (Libc (\<lambda>_. True) k l))
      else if unat used + unat n \<le> unat lim
      then (True, Budget lim (used + n) (max peak (used + n)) den (Libc (\<lambda>_. True) (Suc k) (l + unat n)))
      else (False, Budget lim used peak (den + 1) (Libc (\<lambda>_. True) k l)))"
proof -
  have "(lim - used < n \<or> lim < used) = (\<not> unat used + unat n \<le> unat lim)"
  proof (cases "used \<le> lim")
    case True
    then have "unat (lim - used) = unat lim - unat used" by (rule unat_sub_le)
    with True show ?thesis by (auto simp: word_le_nat_alt word_less_nat_alt)
  next
    case False
    then show ?thesis by (auto simp: word_le_nat_alt word_less_nat_alt)
  qed
  then show ?thesis by (auto simp: libc_malloc_def)
qed

fun fault_answers :: "nat \<Rightarrow> size_t \<Rightarrow> allocator \<Rightarrow> bool list \<times> allocator" where
  "fault_answers 0 n a = ([], a)"
| "fault_answers (Suc m) n a =
     (case mem_alloc n a of (ok, a') \<Rightarrow>
        case fault_answers m n a' of (oks, a'') \<Rightarrow> (ok # oks, a''))"

lemma fault_answers_from:
  "n \<noteq> 0 \<Longrightarrow> unat sv + m < 2 ^ 64 \<Longrightarrow>
   fault_answers m n (Faulty fa sv onc (Libc (\<lambda>_. True) k l)) = (oks, a') \<Longrightarrow>
   oks = map (\<lambda>i. fa = 0 \<or> (if onc then i \<noteq> unat fa else i < unat fa)) [Suc (unat sv)..<Suc (unat sv + m)] \<and>
   (\<exists>k' l'. a' = Faulty fa (sv + word_of_nat m) onc (Libc (\<lambda>_. True) k' l'))"
proof (induction m arbitrary: sv k l oks a')
  case 0
  then show ?case by auto
next
  case (Suc m)
  have u: "unat (sv + 1) = Suc (unat sv)"
    using Suc.prems(2) unat_add_no_wrap [of sv 1] by simp
  have upt: "[Suc (unat sv)..<Suc (unat sv + Suc m)] =
      Suc (unat sv) # [Suc (unat (sv + 1))..<Suc (unat (sv + 1) + m)]"
    by (simp add: u upt_conv_Cons del: upt_Suc)
  have bite: "faulty_bites fa sv onc = (\<not> (fa = 0 \<or> (if onc then Suc (unat sv) \<noteq> unat fa else Suc (unat sv) < unat fa)))"
    using u by (auto simp: faulty_bites_def Let_def word_le_nat_alt word_unat_eq_iff)
  obtain k1 l1 where step: "mem_alloc n (Faulty fa sv onc (Libc (\<lambda>_. True) k l)) =
      (fa = 0 \<or> (if onc then Suc (unat sv) \<noteq> unat fa else Suc (unat sv) < unat fa),
       Faulty fa (sv + 1) onc (Libc (\<lambda>_. True) k1 l1))"
    using Suc.prems(1) by (cases "faulty_bites fa sv onc") (auto simp: bite libc_malloc_def)
  obtain oks1 a1 where rest:
    "fault_answers m n (Faulty fa (sv + 1) onc (Libc (\<lambda>_. True) k1 l1)) = (oks1, a1)" by fastforce
  have "unat (sv + 1) + m < 2 ^ 64" using Suc.prems(2) u by simp
  from Suc.IH [OF Suc.prems(1) this rest] Suc.prems(3) step rest show ?case
    unfolding upt by (auto simp: algebra_simps simp del: upt_Suc)
qed

text \<open>C35: fault injection follows its schedule. Over a libc that never refuses, \<open>m\<close> requests are
  answered exactly by the schedule: all served when \<open>fail_at\<close> is 0, all but the \<open>fail_at\<close>-th when
  \<open>once\<close> is set, and only those before the \<open>fail_at\<close>-th otherwise. The counter \<open>served\<close> ends at
  \<open>m\<close>: it counts the injected refusals too.\<close>

theorem faulty_schedule:
  assumes "n \<noteq> 0" and "m < 2 ^ 64"
    and "fault_answers m n (faulty_init fa onc (Libc (\<lambda>_. True) 0 0)) = (oks, a')"
  shows "oks = map (\<lambda>i. fa = 0 \<or> (if onc then i \<noteq> unat fa else i < unat fa)) [1..<Suc m] \<and>
    f_served a' = word_of_nat m"
  using fault_answers_from [of n 0 m fa onc "0" "0" oks a'] assms
  by (auto simp: faulty_init_def)

theorem faulty_schedule_witness:
  "fst (fault_answers 3 8 (faulty_init 2 False (Libc (\<lambda>_. True) 0 0))) = [True, False, False] \<and>
   f_served (snd (fault_answers 3 8 (faulty_init 2 False (Libc (\<lambda>_. True) 0 0)))) = 3"
proof -
  obtain oks a' where r:
    "fault_answers 3 8 (faulty_init 2 False (Libc (\<lambda>_. True) 0 0)) = (oks, a')" by fastforce
  from faulty_schedule [OF _ _ r] r show ?thesis by (simp add: upt_rec)
qed

lemma mem_array_bytes_val:
  "unat (mem_array_bytes n sz) = (if unat n * unat sz < 2 ^ 64 then unat n * unat sz else 0)"
proof (cases "n = 0 \<or> sz = 0")
  case True
  then show ?thesis by (auto simp: mem_array_bytes_def)
next
  case False
  then have pos: "0 < unat sz" by (simp add: unat_gt_0)
  have d: "unat (SIZE_MAX div sz) = (2 ^ 64 - 1) div unat sz"
    by (simp add: unat_div del: SIZE_MAX_minus_1)
  have "(SIZE_MAX div sz < n) = (\<not> unat n \<le> (2 ^ 64 - 1) div unat sz)"
    by (simp only: word_less_nat_alt d not_le)
  also have "\<dots> = (\<not> unat n * unat sz \<le> 2 ^ 64 - 1)"
    using pos by (simp only: less_eq_div_iff_mult_less_eq)
  also have "\<dots> = (\<not> unat n * unat sz < 2 ^ 64)"
    using less_Suc_eq_le [of "unat n * unat sz" "2 ^ 64 - 1"] by simp
  finally have "(SIZE_MAX div sz < n) = (\<not> unat n * unat sz < 2 ^ 64)" .
  with False show ?thesis by (auto simp: mem_array_bytes_def unat_mult_no_wrap)
qed

text \<open>The array size. \<open>bbq_mem_array_bytes\<close> returns the exact product when it fits in
  \<open>size_t\<close> and 0 otherwise: it never wraps.\<close>

lemma mem_array_bytes_exact:
  "unat (mem_array_bytes n sz) = (if unat n * unat sz < 2 ^ 64 then unat n * unat sz else 0)"
  by (rule mem_array_bytes_val)

lemma mem_array_bytes_eq:
  "unat n * unat sz < 2 ^ 64 \<Longrightarrow> unat (mem_array_bytes n sz) = unat n * unat sz"
  using mem_array_bytes_val [of n sz] by simp

lemma hash_seed_nonzero: "hash_seed got s addr clk tm \<noteq> 0"
  by (auto simp: hash_seed_def Let_def)

end
