(* ===== verification/Vec.thy ===== *)
theory Vec
  imports Alloc
begin

text \<open>
  \<open>crt/bbq_vec.h\<close> and \<open>crt/bbq_vec.c\<close>: the growable array with a hidden header and its poison
  contract. A vector is the NULL pointer (\<open>VNull\<close>), the shared read-only poison sentinel
  (\<open>VPoison\<close>), or a block with a header \<open>len\<close>, \<open>cap\<close> (negative once poisoned, the real
  capacity then being \<open>-1 - cap\<close>), the allocator captured at birth, and the element slots. A slot
  that was never written is \<open>None\<close>. \<open>esz\<close> is \<open>sizeof\<close> of an element.
\<close>

datatype 'a vec = VNull | VPoison | VBlock (v_len: int) (v_cap: int) (v_a: nat) (v_slots: "'a option list")

definition VEC_MAX_CAP :: int where
  "VEC_MAX_CAP = 0x3FFFFFFF"

definition VEC_HDR :: size_t where
  "VEC_HDR = 16"

definition real_cap :: "int \<Rightarrow> int" where
  "real_cap c = (if 0 \<le> c then c else - 1 - c)"

fun vec_len :: "'a vec \<Rightarrow> int" where
  "vec_len (VBlock l c a xs) = l"
| "vec_len _ = 0"

fun vec_cap :: "'a vec \<Rightarrow> int" where
  "vec_cap (VBlock l c a xs) = (if 0 < c then c else 0)"
| "vec_cap _ = 0"

fun vec_oom :: "'a vec \<Rightarrow> bool" where
  "vec_oom (VBlock l c a xs) = (c < 0)"
| "vec_oom VPoison = True"
| "vec_oom VNull = False"

fun poison :: "'a vec \<Rightarrow> 'a vec" where
  "poison VNull = VPoison"
| "poison VPoison = VPoison"
| "poison (VBlock l c a xs) = (if 0 \<le> c then VBlock l (- 1 - c) a xs else VBlock l c a xs)"

definition block_bytes :: "size_t \<Rightarrow> size_t \<Rightarrow> size_t" where
  "block_bytes n esz =
     (let body = mem_array_bytes n esz
      in if body = 0 then 0 else if SIZE_MAX - VEC_HDR < body then 0 else VEC_HDR + body)"

definition cap_word :: "int \<Rightarrow> size_t" where
  "cap_word c = word_of_int (real_cap c)"

text \<open>\<open>bbq__vec_resize\<close>. The elements of a moved block are kept; the new slots are unwritten.\<close>

definition vec_resize :: "'a vec \<Rightarrow> size_t \<Rightarrow> size_t \<Rightarrow> nat \<Rightarrow> heap \<Rightarrow> 'a vec \<times> heap" where
  "vec_resize v want esz born h =
     (case v of
        VPoison \<Rightarrow> (v, h)
      | VNull \<Rightarrow>
          if word_of_int VEC_MAX_CAP < want then (poison v, h)
          else let bytes = block_bytes want esz
            in if bytes = 0 then (poison v, h)
               else (case h_resize born False 0 bytes h of
                   (False, h') \<Rightarrow> (poison v, h')
                 | (True, h') \<Rightarrow> (VBlock 0 (uint want) born (replicate (unat want) None), h'))
      | VBlock l c a xs \<Rightarrow>
          if c < 0 then (v, h)
          else if want \<le> cap_word c then (v, h)
          else if word_of_int VEC_MAX_CAP < want then (poison v, h)
          else let bytes = block_bytes want esz
            in if bytes = 0 then (poison v, h)
               else (case h_resize a True (block_bytes (cap_word c) esz) bytes h of
                   (False, h') \<Rightarrow> (poison v, h')
                 | (True, h') \<Rightarrow>
                     (VBlock l (uint want) a (xs @ replicate (unat want - length xs) None), h')))"

definition vec_grow :: "'a vec \<Rightarrow> size_t \<Rightarrow> nat \<Rightarrow> heap \<Rightarrow> 'a vec \<times> heap" where
  "vec_grow v esz born h =
     (if vec_oom v then (v, h)
      else let oldcap = (case v of VBlock l c a xs \<Rightarrow> cap_word c | _ \<Rightarrow> 0);
               want0 = (if oldcap \<noteq> 0 then oldcap * 2 else 8);
               want = (if word_of_int VEC_MAX_CAP < want0 then word_of_int VEC_MAX_CAP else want0)
           in if want \<le> oldcap then (poison v, h) else vec_resize v want esz born h)"

fun vec_release :: "'a vec \<Rightarrow> size_t \<Rightarrow> heap \<Rightarrow> heap" where
  "vec_release (VBlock l c a xs) esz h = h_release a True (block_bytes (cap_word c) esz) h"
| "vec_release _ esz h = h"

text \<open>\<open>bbq_vec_free\<close>: release, then the pointer is NULL.\<close>

definition vec_free :: "'a vec \<Rightarrow> size_t \<Rightarrow> heap \<Rightarrow> 'a vec \<times> heap" where
  "vec_free v esz h = (VNull, vec_release v esz h)"

fun vec_setlen :: "'a vec \<Rightarrow> int \<Rightarrow> 'a vec" where
  "vec_setlen (VBlock l c a xs) n =
     (let m = (if n < 0 then 0 else n)
      in VBlock (if m < real_cap c then m else real_cap c) c a xs)"
| "vec_setlen v n = v"

fun vec_truncate :: "'a vec \<Rightarrow> int \<Rightarrow> 'a vec" where
  "vec_truncate (VBlock l c a xs) n =
     (let m = (if n < 0 then 0 else n) in if m < l then VBlock m c a xs else VBlock l c a xs)"
| "vec_truncate v n = v"

fun vec_popi :: "'a vec \<Rightarrow> int \<times> 'a vec" where
  "vec_popi (VBlock l c a xs) = (if l \<le> 0 then (0, VBlock l c a xs) else (l - 1, VBlock (l - 1) c a xs))"
| "vec_popi v = (0, v)"

fun vec_topi :: "'a vec \<Rightarrow> int" where
  "vec_topi (VBlock l c a xs) = (if 0 < l then l - 1 else 0)"
| "vec_topi v = 0"

text \<open>Reading \<open>v[i]\<close>: outside the block, or an unwritten slot, is not a value.\<close>

fun vec_get :: "'a vec \<Rightarrow> int \<Rightarrow> 'a rr" where
  "vec_get (VBlock l c a xs) i =
     (if 0 \<le> i \<and> nat i < length xs
      then (case xs ! nat i of None \<Rightarrow> UB | Some x \<Rightarrow> Got x) else UB)"
| "vec_get v i = UB"

text \<open>Writing \<open>v[i] = x\<close>; \<open>None\<close> is a write outside the block.\<close>

fun vec_put :: "'a vec \<Rightarrow> int \<Rightarrow> 'a \<Rightarrow> 'a vec option" where
  "vec_put (VBlock l c a xs) i x =
     (if 0 \<le> i \<and> nat i < length xs then Some (VBlock l c a (xs[nat i := Some x])) else None)"
| "vec_put v i x = None"

text \<open>The macro \<open>bbq_vec_push_a\<close>; \<open>None\<close> is a store outside the block.\<close>

definition vec_push :: "'a \<Rightarrow> 'a vec \<Rightarrow> size_t \<Rightarrow> nat \<Rightarrow> heap \<Rightarrow> ('a vec \<times> heap) option" where
  "vec_push x v esz born h =
     (let (v1, h1) = (if vec_cap v \<le> vec_len v then vec_grow v esz born h else (v, h))
      in if vec_oom v1 then Some (v1, h1)
         else case vec_put v1 (vec_len v1) x of
             None \<Rightarrow> None
           | Some (VBlock l c a xs) \<Rightarrow> Some (VBlock (l + 1) c a xs, h1)
           | Some v2 \<Rightarrow> Some (v2, h1))"

definition vec_try_push ::
  "'a \<Rightarrow> 'a vec \<Rightarrow> size_t \<Rightarrow> nat \<Rightarrow> heap \<Rightarrow> (bool \<times> 'a vec \<times> heap) option" where
  "vec_try_push x v esz born h =
     (case vec_push x v esz born h of
        None \<Rightarrow> None | Some (v', h') \<Rightarrow> Some (\<not> vec_oom v', v', h'))"

definition vec_reserve :: "'a vec \<Rightarrow> int \<Rightarrow> size_t \<Rightarrow> nat \<Rightarrow> heap \<Rightarrow> 'a vec \<times> heap" where
  "vec_reserve v n esz born h =
     (if vec_cap v < n then vec_resize v (word_of_int n) esz born h else (v, h))"

definition vec_try_reserve :: "'a vec \<Rightarrow> int \<Rightarrow> size_t \<Rightarrow> nat \<Rightarrow> heap \<Rightarrow> bool \<times> 'a vec \<times> heap" where
  "vec_try_reserve v n esz born h =
     (case vec_reserve v n esz born h of (v', h') \<Rightarrow> (n \<le> vec_cap v', v', h'))"

text \<open>The loop of \<open>bbq_vec_fill_a\<close>: slots \<open>i, i+1, ...\<close> below \<open>n\<close>.\<close>

function fill_slots :: "int \<Rightarrow> int \<Rightarrow> 'a \<Rightarrow> 'a vec \<Rightarrow> 'a vec option" where
  "fill_slots i n x v =
     (if i < n then (case vec_put v i x of None \<Rightarrow> None | Some v' \<Rightarrow> fill_slots (i + 1) n x v')
      else Some v)"
  by pat_completeness auto
termination
  by (relation "measure (\<lambda>(i, n, x, v). nat (n - i))") auto

declare fill_slots.simps [simp del]

definition vec_fill ::
  "'a vec \<Rightarrow> int \<Rightarrow> 'a \<Rightarrow> size_t \<Rightarrow> nat \<Rightarrow> heap \<Rightarrow> (bool \<times> 'a vec \<times> heap) option" where
  "vec_fill v n x esz born h =
     (case vec_try_reserve v n esz born h of
        (False, v', h') \<Rightarrow> Some (False, v', h')
      | (True, v', h') \<Rightarrow>
          (case fill_slots (vec_len v') n x v' of
             None \<Rightarrow> None
           | Some v'' \<Rightarrow> Some (True, if vec_len v'' < n then vec_setlen v'' n else v'', h')))"

definition vec_pop :: "'a vec \<Rightarrow> 'a rr \<times> 'a vec" where
  "vec_pop v = (case vec_popi v of (i, v') \<Rightarrow> (vec_get v' i, v'))"

definition vec_last :: "'a vec \<Rightarrow> 'a rr" where
  "vec_last v = vec_get v (vec_topi v)"

text \<open>\<open>bbq_vec_reverse\<close>: swap slots \<open>i\<close> and \<open>j\<close> while \<open>i < j\<close>.\<close>

function rev_slots :: "nat \<Rightarrow> nat \<Rightarrow> 'b list \<Rightarrow> 'b list" where
  "rev_slots i j xs =
     (if i < j then rev_slots (Suc i) (j - 1) (xs[i := xs ! j, j := xs ! i]) else xs)"
  by pat_completeness auto
termination
  by (relation "measure (\<lambda>(i, j, xs). j - i)") auto

declare rev_slots.simps [simp del]

fun vec_reverse :: "'a vec \<Rightarrow> 'a vec" where
  "vec_reverse (VBlock l c a xs) =
     (if 1 < l then VBlock l c a (rev_slots 0 (nat l - 1) xs) else VBlock l c a xs)"
| "vec_reverse v = v"

section \<open>Well-formedness, contents and footprint\<close>

fun vec_wf :: "size_t \<Rightarrow> 'a vec \<Rightarrow> bool" where
  "vec_wf esz (VBlock l c a xs) =
     (0 \<le> l \<and> l \<le> real_cap c \<and> 0 < real_cap c \<and> real_cap c \<le> VEC_MAX_CAP \<and>
      length xs = nat (real_cap c) \<and> block_bytes (cap_word c) esz \<noteq> 0)"
| "vec_wf esz v = True"

text \<open>The slots below \<open>len\<close> were all written.\<close>

fun vec_init :: "'a vec \<Rightarrow> bool" where
  "vec_init (VBlock l c a xs) = (\<forall>i < nat l. xs ! i \<noteq> None)"
| "vec_init v = True"

fun contents :: "'a vec \<Rightarrow> 'a list" where
  "contents (VBlock l c a xs) = map the (take (nat l) xs)"
| "contents v = []"

fun vec_owner :: "nat \<Rightarrow> 'a vec \<Rightarrow> nat" where
  "vec_owner born (VBlock l c a xs) = a"
| "vec_owner born v = born"

fun footprint :: "size_t \<Rightarrow> 'a vec \<Rightarrow> nat" where
  "footprint esz (VBlock l c a xs) = unat (block_bytes (cap_word c) esz)"
| "footprint esz v = 0"

lemma real_cap_poison [simp]: "0 \<le> c \<Longrightarrow> real_cap (- 1 - c) = c" "0 \<le> c \<Longrightarrow> real_cap c = c"
  by (auto simp: real_cap_def)

lemma cap_word_poison [simp]: "0 \<le> c \<Longrightarrow> cap_word (- 1 - c) = cap_word c"
  by (simp add: cap_word_def)

lemma poison_facts [simp]:
  "vec_oom (poison v)" "contents (poison v) = contents v" "footprint esz (poison v) = footprint esz v"
  "vec_owner b (poison v) = vec_owner b v" "vec_len (poison v) = vec_len v"
  "vec_init (poison v) = vec_init v"
  by (cases v; simp)+

lemma poison_wf [simp]: "vec_wf esz v \<Longrightarrow> vec_wf esz (poison v)"
  by (cases v) (auto simp: real_cap_def)

lemma unat_cap_word: "real_cap c \<le> VEC_MAX_CAP \<Longrightarrow> 0 \<le> real_cap c \<Longrightarrow> unat (cap_word c) = nat (real_cap c)"
  by (simp add: cap_word_def VEC_MAX_CAP_def unat_eq_nat_uint uint_word_of_int_eq take_bit_int_eq_self)

lemma MAX_CAP_word [simp]: "word_of_int VEC_MAX_CAP = (0x3FFFFFFF :: size_t)"
  by (simp add: VEC_MAX_CAP_def)

lemma want_le_MAX:
  "\<not> (0x3FFFFFFF :: size_t) < want \<Longrightarrow> uint want \<le> VEC_MAX_CAP \<and> nat (uint want) = unat want"
  by (simp add: VEC_MAX_CAP_def word_less_def not_less)

lemma cap_word_uint [simp]: "cap_word (uint w) = (w :: size_t)"
  by (simp add: cap_word_def)

lemma block_bytes_pos: "block_bytes n esz \<noteq> 0 \<Longrightarrow> 0 < unat n \<and> 0 < uint n"
  using uint_pos [of n]
  by (auto simp: block_bytes_def mem_array_bytes_def Let_def unat_gt_0 split: if_splits)

lemma block_bytes_exact:
  "block_bytes n esz \<noteq> 0 \<Longrightarrow> unat (block_bytes n esz) = 16 + unat n * unat esz"
proof -
  assume nz: "block_bytes n esz \<noteq> 0"
  then have body: "mem_array_bytes n esz \<noteq> 0" and
    fit: "\<not> SIZE_MAX - VEC_HDR < mem_array_bytes n esz" and
    eq: "block_bytes n esz = VEC_HDR + mem_array_bytes n esz"
    by (auto simp: block_bytes_def Let_def split: if_splits)
  have b: "unat (mem_array_bytes n esz) = unat n * unat esz"
    using mem_array_bytes_val [of n esz] body by (auto simp: unat_eq_0 split: if_splits)
  have "unat (SIZE_MAX - VEC_HDR) = 2 ^ 64 - 17"
    by (simp add: VEC_HDR_def SIZE_MAX_def)
  with fit have "unat (mem_array_bytes n esz) \<le> 2 ^ 64 - 17"
    by (simp add: word_less_nat_alt)
  then have "unat (VEC_HDR + mem_array_bytes n esz) = 16 + unat (mem_array_bytes n esz)"
    by (subst unat_add_no_wrap) (simp_all add: VEC_HDR_def)
  then show ?thesis using b eq by simp
qed

text \<open>Everything growth promises, in one place.\<close>

lemma vec_resize_spec:
  assumes "vec_wf esz v" and "vec_resize v want esz born h = (v', h')"
  shows "vec_wf esz v'" and "contents v' = contents v" and "vec_len v' = vec_len v"
    and "vec_init v \<Longrightarrow> vec_init v'" and "vec_owner born v' = vec_owner born v"
    and "\<not> vec_oom v' \<Longrightarrow> uint want \<le> vec_cap v'" and "vec_cap v' < uint want \<Longrightarrow> vec_oom v'"
    and "accounts (h (vec_owner born v)) (s + footprint esz v) \<Longrightarrow>
         accounts (h' (vec_owner born v)) (s + footprint esz v')"
    and "b \<noteq> vec_owner born v \<Longrightarrow> h' b = h b"
proof -
  have *: "vec_wf esz v' \<and> contents v' = contents v \<and> vec_len v' = vec_len v \<and>
    (vec_init v \<longrightarrow> vec_init v') \<and> vec_owner born v' = vec_owner born v \<and>
    (\<not> vec_oom v' \<longrightarrow> uint want \<le> vec_cap v') \<and>
    (accounts (h (vec_owner born v)) (s + footprint esz v) \<longrightarrow>
      accounts (h' (vec_owner born v)) (s + footprint esz v')) \<and>
    (b \<noteq> vec_owner born v \<longrightarrow> h' b = h b)"
  proof (cases v)
    case VPoison
    with assms show ?thesis by (simp add: vec_resize_def)
  next
    case VNull
    show ?thesis
    proof (cases "(0x3FFFFFFF :: size_t) < want \<or> block_bytes want esz = 0")
      case True
      with VNull assms(2) show ?thesis by (auto simp: vec_resize_def Let_def split: if_splits)
    next
      case False
      obtain ok h1 where r: "h_resize born False 0 (block_bytes want esz) h = (ok, h1)" by fastforce
      have acc: "accounts (h born) (s + 0) \<Longrightarrow>
          accounts (h1 born) (if ok then s + unat (block_bytes want esz) else s)"
        using heap.rsz_any [OF r, of s] False by (cases ok) auto
      have oth: "b \<noteq> born \<Longrightarrow> h1 b = h b" by (rule h_resize_other [OF r])
      show ?thesis
        using VNull assms(2) False r want_le_MAX [of want] acc oth block_bytes_pos [of want esz]
        by (cases ok) (auto simp: vec_resize_def Let_def)
    qed
  next
    case (VBlock l c a xs)
    note wf = assms(1) [unfolded VBlock, simplified]
    show ?thesis
    proof (cases "c < 0 \<or> want \<le> cap_word c")
      case True
      then show ?thesis
      proof
        assume "c < 0" with VBlock assms show ?thesis by (auto simp: vec_resize_def)
      next
        assume le: "want \<le> cap_word c"
        then have "uint want \<le> real_cap c"
          using unat_cap_word [of c] wf
          by (simp add: word_le_def cap_word_def uint_word_of_int_eq take_bit_int_eq_self VEC_MAX_CAP_def)
        with le VBlock assms show ?thesis
          by (auto simp: vec_resize_def real_cap_def split: if_splits)
      qed
    next
      case False
      show ?thesis
      proof (cases "(0x3FFFFFFF :: size_t) < want \<or> block_bytes want esz = 0")
        case True
        with VBlock assms False show ?thesis
          by (auto simp: vec_resize_def Let_def real_cap_def split: if_splits)
      next
        case F2: False
        let ?old = "block_bytes (cap_word c) esz"
        obtain ok h1 where r: "h_resize a True ?old (block_bytes want esz) h = (ok, h1)" by fastforce
        have acc: "accounts (h a) (s + unat ?old) \<Longrightarrow>
            accounts (h1 a) (if ok then s + unat (block_bytes want esz) else s + unat ?old)"
          using heap.rsz_any [OF r, of s] F2 by (cases ok) auto
        have oth: "b \<noteq> a \<Longrightarrow> h1 b = h b" by (rule h_resize_other [OF r])
        have c0: "0 \<le> c" using False by simp
        then have rc: "real_cap c = c" by (simp add: real_cap_def)
        have gt: "length xs < unat want"
          using False wf unat_cap_word [of c] by (simp add: word_le_nat_alt)
        have nl: "nat l \<le> length xs" using wf rc by (simp add: nat_mono)
        have lw: "l \<le> uint want" using gt nl by (intro int_le_uint) simp
        have tk: "take (nat l) (xs @ replicate (unat want - length xs) None) = take (nat l) xs"
          using nl by simp
        have pre: "i < nat l \<Longrightarrow> (xs @ replicate (unat want - length xs) None) ! i = xs ! i" for i
          using nl by (simp add: nth_append)
        show ?thesis
        proof (cases ok)
          case True
          then have v': "v' = VBlock l (uint want) a (xs @ replicate (unat want - length xs) None)"
            and h': "h' = h1"
            using VBlock assms(2) False F2 r by (auto simp: vec_resize_def Let_def)
          have "vec_wf esz v'"
            unfolding v' vec_wf.simps real_cap_poison(2) [OF uint_ge_0] cap_word_uint
          proof (intro conjI)
            show "0 \<le> l" using wf by simp
            show "l \<le> uint want" by (rule lw)
            show "0 < uint want" using F2 block_bytes_pos [of want esz] by blast
            show "uint want \<le> VEC_MAX_CAP" using F2 want_le_MAX [of want] by blast
            show "length (xs @ replicate (unat want - length xs) None) = nat (uint want)"
              using gt by simp
            show "block_bytes want esz \<noteq> 0" using F2 by blast
          qed
          moreover have "contents v' = contents v" using tk by (simp add: v' VBlock)
          moreover have "vec_init v \<longrightarrow> vec_init v'" using pre by (simp add: v' VBlock)
          moreover have "accounts (h a) (s + footprint esz v) \<longrightarrow> accounts (h1 a) (s + footprint esz v')"
            using acc True by (simp add: v' VBlock)
          moreover have "uint want \<le> vec_cap v'"
            using F2 block_bytes_pos [of want esz] unfolding v' vec_cap.simps by presburger
          ultimately show ?thesis using oth by (simp add: v' h' VBlock)
        next
          case nok: False
          then have v': "v' = poison v" and h': "h' = h1"
            using VBlock assms(2) False F2 r by (auto simp: vec_resize_def Let_def)
          have "vec_wf esz v'" using assms(1) v' by simp
          moreover have "accounts (h a) (s + footprint esz v) \<Longrightarrow> accounts (h1 a) (s + footprint esz v')"
            using acc nok VBlock v' by (simp del: poison.simps)
          ultimately show ?thesis
            using oth VBlock v' h' by (simp del: poison.simps)
        qed
      qed
    qed
  qed
  from * show "vec_wf esz v'" "contents v' = contents v" "vec_len v' = vec_len v"
    "vec_init v \<Longrightarrow> vec_init v'" "vec_owner born v' = vec_owner born v"
    "\<not> vec_oom v' \<Longrightarrow> uint want \<le> vec_cap v'" "vec_cap v' < uint want \<Longrightarrow> vec_oom v'"
    "accounts (h (vec_owner born v)) (s + footprint esz v) \<Longrightarrow>
       accounts (h' (vec_owner born v)) (s + footprint esz v')"
    "b \<noteq> vec_owner born v \<Longrightarrow> h' b = h b"
    by auto
qed

lemma vec_resize_sticky: "vec_oom v \<Longrightarrow> vec_resize v want esz born h = (v, h)"
  by (cases v) (auto simp: vec_resize_def)

lemma vec_grow_spec:
  assumes "vec_wf esz v" and "vec_grow v esz born h = (v', h')"
  shows "vec_wf esz v'" and "contents v' = contents v" and "vec_len v' = vec_len v"
    and "vec_init v \<Longrightarrow> vec_init v'" and "vec_owner born v' = vec_owner born v"
    and "\<not> vec_oom v' \<Longrightarrow> vec_cap v < vec_cap v'"
    and "accounts (h (vec_owner born v)) (s + footprint esz v) \<Longrightarrow>
         accounts (h' (vec_owner born v)) (s + footprint esz v')"
    and "b \<noteq> vec_owner born v \<Longrightarrow> h' b = h b"
proof -
  let ?old = "case v of VBlock l c a xs \<Rightarrow> cap_word c | _ \<Rightarrow> 0"
  let ?w0 = "if ?old \<noteq> 0 then ?old * 2 else 8"
  let ?w = "if (0x3FFFFFFF :: size_t) < ?w0 then 0x3FFFFFFF else ?w0"
  have cases: "vec_oom v \<and> v' = v \<and> h' = h \<or> \<not> vec_oom v \<and> v' = poison v \<and> h' = h \<or>
      \<not> vec_oom v \<and> ?old < ?w \<and> vec_resize v ?w esz born h = (v', h')"
    using assms(2) by (auto simp: vec_grow_def Let_def not_le split: if_splits)
  have cap: "\<not> vec_oom v \<Longrightarrow> vec_cap v = uint ?old"
    using assms(1) by (cases v) (auto simp: cap_word_def real_cap_def VEC_MAX_CAP_def
        uint_word_of_int_eq take_bit_int_eq_self)
  have lt: "?old < ?w \<Longrightarrow> uint ?old < uint ?w" by (simp add: word_less_def)
  from cases show "vec_wf esz v'" using assms(1) vec_resize_spec(1) [OF assms(1)] by auto
  from cases show "contents v' = contents v" using vec_resize_spec(2) [OF assms(1)] by auto
  from cases show "vec_len v' = vec_len v" using vec_resize_spec(3) [OF assms(1)] by auto
  from cases show "vec_init v \<Longrightarrow> vec_init v'" using vec_resize_spec(4) [OF assms(1)] by auto
  from cases show "vec_owner born v' = vec_owner born v"
    using vec_resize_spec(5) [OF assms(1)] by auto
  show "\<not> vec_oom v' \<Longrightarrow> vec_cap v < vec_cap v'"
  proof -
    assume n: "\<not> vec_oom v'"
    from cases n have "\<not> vec_oom v" "?old < ?w" "vec_resize v ?w esz born h = (v', h')" by auto
    then show ?thesis
      using vec_resize_spec(6) [OF assms(1) _ n] cap lt by fastforce
  qed
  from cases show "accounts (h (vec_owner born v)) (s + footprint esz v) \<Longrightarrow>
      accounts (h' (vec_owner born v)) (s + footprint esz v')"
    using vec_resize_spec(8) [OF assms(1)] by auto
  from cases show "b \<noteq> vec_owner born v \<Longrightarrow> h' b = h b"
    using vec_resize_spec(9) [OF assms(1)] by auto
qed

lemma vec_put_block:
  "0 \<le> i \<Longrightarrow> nat i < length xs \<Longrightarrow> vec_put (VBlock l c a xs) i x = Some (VBlock l c a (xs[nat i := Some x]))"
  by simp

text \<open>A push never stores outside the block, and does one of two things.\<close>

lemma vec_push_spec:
  assumes wf: "vec_wf esz v" and init: "vec_init v"
  obtains v' h' where "vec_push x v esz born h = Some (v', h')" and "vec_wf esz v'" and "vec_init v'"
    and "contents v' = (if vec_oom v' then contents v else contents v @ [x])"
    and "vec_owner born v' = vec_owner born v"
    and "\<And>s. accounts (h (vec_owner born v)) (s + footprint esz v) \<Longrightarrow>
         accounts (h' (vec_owner born v)) (s + footprint esz v')"
    and "\<And>b. b \<noteq> vec_owner born v \<Longrightarrow> h' b = h b"
    and "vec_oom v \<Longrightarrow> v' = v \<and> h' = h"
proof -
  define g where "g = (if vec_cap v \<le> vec_len v then vec_grow v esz born h else (v, h))"
  obtain v1 h1 where g1: "g = (v1, h1)" by fastforce
  have *: "vec_wf esz v1 \<and> contents v1 = contents v \<and> vec_len v1 = vec_len v \<and> vec_init v1 \<and>
      vec_owner born v1 = vec_owner born v \<and> (\<not> vec_oom v1 \<longrightarrow> vec_len v < vec_cap v1) \<and>
      (b \<noteq> vec_owner born v \<longrightarrow> h1 b = h b) \<and>
      (accounts (h (vec_owner born v)) (s + footprint esz v) \<longrightarrow>
        accounts (h1 (vec_owner born v)) (s + footprint esz v1))" for b s
  proof (cases "vec_cap v \<le> vec_len v")
    case True
    then have gr: "vec_grow v esz born h = (v1, h1)" using g1 g_def by simp
    have "vec_len v \<le> vec_cap v \<or> vec_oom v"
      using wf by (cases v) (auto simp: real_cap_def split: if_splits)
    moreover have "vec_oom v \<Longrightarrow> vec_oom v1" using gr by (auto simp: vec_grow_def)
    ultimately have "\<not> vec_oom v1 \<Longrightarrow> vec_len v < vec_cap v1"
      using vec_grow_spec(6) [OF wf gr] by fastforce
    then show ?thesis using vec_grow_spec(1-5,7,8) [OF wf gr] init by auto
  next
    case False
    then show ?thesis using g1 g_def wf init by simp
  qed
  then have wf1: "vec_wf esz v1" and c1: "contents v1 = contents v" and l1: "vec_len v1 = vec_len v"
    and i1: "vec_init v1" and o1: "vec_owner born v1 = vec_owner born v"
    and lt1: "\<not> vec_oom v1 \<Longrightarrow> vec_len v < vec_cap v1"
    and b1: "\<And>b. b \<noteq> vec_owner born v \<Longrightarrow> h1 b = h b"
    and a1: "\<And>s. accounts (h (vec_owner born v)) (s + footprint esz v) \<Longrightarrow>
      accounts (h1 (vec_owner born v)) (s + footprint esz v1)"
    by blast+
  have st: "vec_oom v \<Longrightarrow> v1 = v \<and> h1 = h"
    using g1 unfolding g_def by (auto simp: vec_grow_def split: if_splits)
  show ?thesis
  proof (cases "vec_oom v1")
    case True
    then have "vec_push x v esz born h = Some (v1, h1)"
      using g1 unfolding g_def vec_push_def by simp
    from that [OF this wf1 i1] True c1 o1 a1 b1 st show ?thesis by simp
  next
    case False
    then have lc1: "vec_len v1 < vec_cap v1" using lt1 l1 by simp
    with False obtain l c a xs where B: "v1 = VBlock l c a xs" and c: "0 \<le> c"
      by (cases v1) auto
    have lc: "l < c" "0 \<le> l" "length xs = nat c"
      using lc1 B wf1 c by (auto simp: real_cap_def split: if_splits)
    let ?xs = "xs[nat l := Some x]"
    have p: "vec_push x v esz born h = Some (VBlock (l + 1) c a ?xs, h1)"
      using g1 False B lc unfolding g_def vec_push_def by (simp add: Let_def)
    have n1: "nat (l + 1) = Suc (nat l)" using lc by simp
    have tk: "take (Suc (nat l)) ?xs = take (nat l) xs @ [Some x]"
      using lc by (simp add: take_Suc_conv_app_nth)
    show ?thesis
    proof (rule that [OF p])
      show "vec_wf esz (VBlock (l + 1) c a ?xs)" using wf1 B lc c by simp
      show "vec_init (VBlock (l + 1) c a ?xs)"
        using i1 B lc n1 by (auto simp: nth_list_update less_Suc_eq)
      show "contents (VBlock (l + 1) c a ?xs) =
          (if vec_oom (VBlock (l + 1) c a ?xs) then contents v else contents v @ [x])"
        using c1 B n1 tk c by simp
      show "vec_owner born (VBlock (l + 1) c a ?xs) = vec_owner born v" using o1 B by simp
      show "accounts (h (vec_owner born v)) (s + footprint esz v) \<Longrightarrow>
          accounts (h1 (vec_owner born v)) (s + footprint esz (VBlock (l + 1) c a ?xs))" for s
        using a1 [of s] B by simp
      show "b \<noteq> vec_owner born v \<Longrightarrow> h1 b = h b" for b by (rule b1)
      show "vec_oom v \<Longrightarrow> VBlock (l + 1) c a ?xs = v \<and> h1 = h" using st False by auto
    qed
  qed
qed

interpretation vec: push_seq
  "\<lambda>x (v, h). vec_push x v esz born h" "\<lambda>(v, h). contents v" "\<lambda>(v, h). vec_oom v"
  "\<lambda>(v, h). vec_wf esz v \<and> vec_init v \<and>
     accounts (h (vec_owner born v)) (s + footprint esz v) \<and> vec_owner born v = born"
  for esz born s
proof (unfold_locales, goal_cases)
  case (1 st x)
  obtain v h where st: "st = (v, h)" by fastforce
  from 1 have wf: "vec_wf esz v" and i: "vec_init v" and o: "vec_owner born v = born"
    and acc: "accounts (h (vec_owner born v)) (s + footprint esz v)" unfolding st by blast+
  have "\<exists>v' h'. vec_push x v esz born h = Some (v', h') \<and> vec_wf esz v' \<and> vec_init v' \<and>
    contents v' = (if vec_oom v' then contents v else contents v @ [x]) \<and>
    vec_owner born v' = vec_owner born v \<and>
    accounts (h' (vec_owner born v)) (s + footprint esz v') \<and> (vec_oom v \<longrightarrow> vec_oom v')"
    by (rule vec_push_spec [OF wf i, of x born h]) (use acc in blast)
  then obtain v' h' where "vec_push x v esz born h = Some (v', h')" "vec_wf esz v'" "vec_init v'"
    "contents v' = (if vec_oom v' then contents v else contents v @ [x])"
    "vec_owner born v' = vec_owner born v"
    "accounts (h' (vec_owner born v)) (s + footprint esz v')" "vec_oom v \<longrightarrow> vec_oom v'"
    by blast
  with o acc st show ?case by (intro exI [of _ "(v', h')"]) auto
qed

section \<open>When memory is there\<close>

definition generous :: "allocator \<Rightarrow> bool" where
  "generous a = (case a of Libc ans k l \<Rightarrow> ans = (\<lambda>_. True) | _ \<Rightarrow> False)"

lemma generous_resize:
  "generous (h a) \<Longrightarrow> n \<noteq> 0 \<Longrightarrow> h_resize a had o_n n h = (ok, h') \<Longrightarrow> ok \<and> generous (h' a)"
  by (auto simp: generous_def h_resize_def libc_realloc_def split: allocator.splits prod.splits)

lemma block_bytes_small:
  "0 < unat n \<Longrightarrow> unat n < 2 ^ 30 \<Longrightarrow> 0 < unat esz \<Longrightarrow> unat esz \<le> 2 ^ 32 \<Longrightarrow> block_bytes n esz \<noteq> 0"
proof -
  assume n: "0 < unat n" "unat n < 2 ^ 30" and e: "0 < unat esz" "unat esz \<le> 2 ^ 32"
  have "unat n * unat esz \<le> 2 ^ 30 * 2 ^ 32" using n e by (intro mult_le_mono) auto
  then have m: "unat (mem_array_bytes n esz) = unat n * unat esz" and
    le: "unat n * unat esz \<le> 2 ^ 62"
    by (simp_all add: mem_array_bytes_val)
  have "unat (SIZE_MAX - VEC_HDR) = 2 ^ 64 - 17" by (simp add: VEC_HDR_def SIZE_MAX_def)
  then have f: "\<not> SIZE_MAX - VEC_HDR < mem_array_bytes n esz"
    using m le by (simp add: word_less_nat_alt)
  have "unat (VEC_HDR + mem_array_bytes n esz) = 16 + unat n * unat esz"
    using m le by (subst unat_add_no_wrap) (simp_all add: VEC_HDR_def)
  moreover have "mem_array_bytes n esz \<noteq> 0" using m n e by (metis mult_is_0 unat_0 less_irrefl)
  ultimately show ?thesis using f by (auto simp: block_bytes_def Let_def)
qed

lemma vec_resize_granted:
  assumes "vec_wf esz v" and "\<not> vec_oom v" and "generous (h (vec_owner born v))"
    and "0 < unat want" and "unat want < 2 ^ 30" and "0 < unat esz" and "unat esz \<le> 2 ^ 32"
    and "vec_resize v want esz born h = (v', h')"
  shows "\<not> vec_oom v' \<and> generous (h' (vec_owner born v))"
proof -
  have b: "block_bytes want esz \<noteq> 0" using assms by (intro block_bytes_small) auto
  have m: "\<not> (0x3FFFFFFF :: size_t) < want"
    using assms(5) by (simp add: word_less_nat_alt)
  show ?thesis
  proof (cases v)
    case VNull
    obtain ok h1 where r: "h_resize born False 0 (block_bytes want esz) h = (ok, h1)" by fastforce
    have "ok \<and> generous (h1 born)" using generous_resize [OF _ b r] assms(3) VNull by simp
    with VNull assms(8) b m r show ?thesis by (auto simp: vec_resize_def Let_def)
  next
    case VPoison
    with assms(2) show ?thesis by simp
  next
    case (VBlock l c a xs)
    obtain ok h1 where r:
      "h_resize a True (block_bytes (cap_word c) esz) (block_bytes want esz) h = (ok, h1)" by fastforce
    have "ok \<and> generous (h1 a)" using generous_resize [OF _ b r] assms(3) VBlock by simp
    moreover have "c \<ge> 0" using VBlock assms(2) by simp
    ultimately show ?thesis
      using VBlock assms(2,3,8) b m r
      by (cases "want \<le> cap_word c") (auto simp: vec_resize_def Let_def)
  qed
qed

lemma vec_push_granted:
  assumes wf: "vec_wf esz v" and init: "vec_init v" and nb: "\<not> vec_oom v"
    and g: "generous (h (vec_owner born v))" and len: "vec_len v < VEC_MAX_CAP"
    and e: "0 < unat esz" "unat esz \<le> 2 ^ 32"
    and p: "vec_push x v esz born h = Some (v', h')"
  shows "\<not> vec_oom v' \<and> generous (h' (vec_owner born v))"
proof (cases "vec_cap v \<le> vec_len v")
  case False
  with p nb g show ?thesis
    by (cases v) (auto simp: vec_push_def Let_def split: if_splits option.splits vec.splits)
next
  case True
  obtain v1 h1 where gr: "vec_grow v esz born h = (v1, h1)" by fastforce
  define old where "old = (case v of VBlock l c a xs \<Rightarrow> cap_word c | _ \<Rightarrow> 0)"
  define w0 where "w0 = (if old \<noteq> 0 then old * 2 else (8 :: size_t))"
  define w where "w = (if (0x3FFFFFFF :: size_t) < w0 then 0x3FFFFFFF else w0)"
  have cap: "vec_cap v = uint old"
    using wf nb by (cases v) (auto simp: old_def cap_word_def real_cap_def VEC_MAX_CAP_def
        uint_word_of_int_eq take_bit_int_eq_self)
  have small: "unat old < 2 ^ 30 - 1"
    using cap True len by (intro unat_less_of_uint) (simp add: VEC_MAX_CAP_def)
  have dbl: "unat (old * 2) = unat old * 2"
    using small by (subst unat_mult_no_wrap) simp_all
  have w0: "unat old < unat w0"
    using dbl unat_gt_0 [of old] by (auto simp: w0_def)
  have uw: "unat w = (if 2 ^ 30 - 1 < unat w0 then 2 ^ 30 - 1 else unat w0)"
    by (simp add: w_def word_less_nat_alt)
  have lt: "old < w" using w0 uw small by (simp add: word_less_nat_alt)
  have ws: "unat w < 2 ^ 30" "0 < unat w" using uw w0 small by auto
  have "vec_grow v esz born h = vec_resize v w esz born h"
    using nb lt unfolding vec_grow_def Let_def old_def [symmetric] w0_def [symmetric]
      MAX_CAP_word w_def [symmetric] by (auto dest: leD)
  with gr have "\<not> vec_oom v1 \<and> generous (h1 (vec_owner born v))"
    using vec_resize_granted [where v = v and h = h and born = born and want = w and esz = esz
        and v' = v1 and h' = h1] wf nb g ws e by simp
  with p gr True show ?thesis
    by (cases v1) (auto simp: vec_push_def Let_def split: if_splits)
qed

section \<open>Filling and reversing\<close>

lemma fill_slots_block:
  "0 \<le> i \<Longrightarrow> n \<le> int (length xs) \<Longrightarrow>
   fill_slots i n x (VBlock l c a xs) =
     Some (VBlock l c a (if i < n then take (nat i) xs @ replicate (nat (n - i)) (Some x) @ drop (nat n) xs else xs))"
proof (induction "nat (n - i)" arbitrary: i xs)
  case 0
  then show ?case by (simp add: fill_slots.simps)
next
  case (Suc m)
  then have lt: "i < n" by simp
  let ?xs = "xs[nat i := Some x]"
  have len: "nat i < length xs" using lt Suc.prems by linarith
  have IH: "fill_slots (i + 1) n x (VBlock l c a ?xs) = Some (VBlock l c a
      (if i + 1 < n then take (nat (i + 1)) ?xs @ replicate (nat (n - (i + 1))) (Some x) @ drop (nat n) ?xs else ?xs))"
    using Suc.hyps(1) [of "i + 1" ?xs] Suc.hyps(2) Suc.prems by simp
  have n1: "nat (i + 1) = Suc (nat i)" using Suc.prems by simp
  have tk: "take (Suc (nat i)) ?xs = take (nat i) xs @ [Some x]"
    using len by (simp add: take_Suc_conv_app_nth)
  have dr: "drop (nat n) ?xs = drop (nat n) xs"
    using lt Suc.prems by (intro drop_update_cancel) simp
  have rep: "nat (n - i) = Suc (nat (n - (i + 1)))" using lt by simp
  have whole: "i + 1 = n \<Longrightarrow> ?xs = take (nat i) xs @ [Some x] @ drop (nat n) xs"
    using len n1 by (auto simp: upd_conv_take_nth_drop)
  show ?case
    using lt len Suc.prems IH tk dr rep n1 whole
    by (subst fill_slots.simps) (auto simp: not_less le_less)
qed

lemma vec_fill_spec:
  assumes wf: "vec_wf esz v" and init: "vec_init v" and n: "n < 2 ^ 31"
  shows "\<exists>ok v' h'. vec_fill v n x esz born h = Some (ok, v', h') \<and> vec_wf esz v' \<and> vec_init v' \<and>
    contents v' = (if ok then contents v @ replicate (nat n - length (contents v)) x else contents v) \<and>
    (ok \<longrightarrow> n \<le> vec_cap v')"
proof -
  obtain v1 h1 where r: "vec_reserve v n esz born h = (v1, h1)" by fastforce
  have v1: "vec_wf esz v1" "contents v1 = contents v" "vec_init v1"
    using r wf init vec_resize_spec(1,2,4) [OF wf, of "word_of_int n" born h v1 h1]
    by (auto simp: vec_reserve_def split: if_splits)
  show ?thesis
  proof (cases "n \<le> vec_cap v1")
    case False
    then show ?thesis using r v1 by (auto simp: vec_fill_def vec_try_reserve_def)
  next
    case True
    show ?thesis
    proof (cases v1)
      case (VBlock l c a xs)
      note wf1 = v1(1) [unfolded VBlock vec_wf.simps]
      have len: "length (contents v1) = nat l"
        using wf1 VBlock nat_mono [of l "real_cap c"] by simp
      show ?thesis
      proof (cases "l < n")
        case False
        then have "fill_slots l n x v1 = Some v1"
          by (subst fill_slots.simps) simp
        moreover have "length (contents v) = nat l" "nat n \<le> nat l" using False len v1(2) by auto
        ultimately show ?thesis
          using True r v1 VBlock False by (auto simp: vec_fill_def vec_try_reserve_def intro: exI [of _ True])
      next
        case lt: True
        have c: "0 < c" "real_cap c = c" using True lt wf1 VBlock by (auto simp: real_cap_def split: if_splits)
        have nl: "n \<le> int (length xs)" using True wf1 VBlock c by simp
        define ys where "ys = take (nat l) xs @ replicate (nat (n - l)) (Some x) @ drop (nat n) xs"
        have f: "fill_slots l n x v1 = Some (VBlock l c a ys)"
          using fill_slots_block [where i = l and n = n and xs = xs and l = l and c = c and a = a and x = x] wf1 nl lt VBlock by (simp add: ys_def)
        have lx: "nat l \<le> length xs" using nl lt wf1 by linarith
        have nn: "nat n = nat l + nat (n - l)" using lt wf1 by linarith
        have lys: "length ys = length xs" using lx nl nn lt by (simp add: ys_def)
        have tk: "take (nat n) ys = take (nat l) xs @ replicate (nat (n - l)) (Some x)"
          using lx nn by (simp add: ys_def)
        have i: "\<forall>i < nat n. ys ! i \<noteq> None"
        proof (intro allI impI)
          fix i assume "i < nat n"
          then have "ys ! i = (take (nat l) xs @ replicate (nat (n - l)) (Some x)) ! i"
            using tk by (metis nth_take)
          then show "ys ! i \<noteq> None"
            using \<open>i < nat n\<close> nn lx v1(3) VBlock by (cases "i < nat l") (auto simp: nth_append)
        qed
        have nc: "n \<le> c" using True VBlock c by simp
        have sl: "vec_setlen (VBlock l c a ys) n = VBlock n c a ys"
          using lt wf1 c nc by (auto simp: Let_def)
        have "vec_fill v n x esz born h = Some (True, VBlock n c a ys, h1)"
          using True r f lt sl VBlock by (simp add: vec_fill_def vec_try_reserve_def)
        moreover have "vec_wf esz (VBlock n c a ys)" using wf1 lys nc lt c by simp
        moreover have "vec_init (VBlock n c a ys)" using i by simp
        moreover have "contents (VBlock n c a ys) = contents v @ replicate (nat n - length (contents v)) x"
          using tk v1(2) VBlock len nn by auto
        ultimately show ?thesis using nc c by (metis vec_cap.simps(1))
      qed
    qed (use True r v1 in \<open>auto simp: vec_fill_def vec_try_reserve_def fill_slots.simps\<close>)
  qed
qed

lemma length_rev_slots [simp]: "length (rev_slots i j xs) = length xs"
  by (induction i j xs rule: rev_slots.induct) (subst rev_slots.simps, simp)

lemma nth_rev_slots:
  "j < length xs \<Longrightarrow> k < length xs \<Longrightarrow>
   rev_slots i j xs ! k = (if i \<le> k \<and> k \<le> j then xs ! (i + j - k) else xs ! k)"
proof (induction i j xs rule: rev_slots.induct)
  case (1 i j xs)
  show ?case
  proof (cases "i < j")
    case False
    then have "i \<le> k \<and> k \<le> j \<Longrightarrow> i + j - k = k" by auto
    then show ?thesis using False by (subst rev_slots.simps) simp
  next
    case True
    let ?ys = "xs[i := xs ! j, j := xs ! i]"
    have "rev_slots (Suc i) (j - 1) ?ys ! k =
        (if Suc i \<le> k \<and> k \<le> j - 1 then ?ys ! (Suc i + (j - 1) - k) else ?ys ! k)"
      using 1 True by simp
    also have "\<dots> = (if i \<le> k \<and> k \<le> j then xs ! (i + j - k) else xs ! k)"
      using True 1(2,3) by (auto simp: nth_list_update)
    finally show ?thesis using True by (subst rev_slots.simps) simp
  qed
qed

lemma contents_reverse:
  assumes "vec_wf esz v" shows "contents (vec_reverse v) = rev (contents v)"
proof (cases v)
  case (VBlock l c a xs)
  have l: "nat l \<le> length xs" using assms VBlock by (simp add: nat_mono)
  show ?thesis
  proof (cases "1 < l")
    case True
    have "take (nat l) (rev_slots 0 (nat l - 1) xs) = rev (take (nat l) xs)"
      using l True by (intro nth_equalityI) (auto simp: nth_rev_slots rev_nth)
    then show ?thesis using VBlock True by (simp add: rev_map)
  next
    case False
    then have "nat l = 0 \<or> nat l = 1" by auto
    then have "length (contents v) \<le> 1" using VBlock l by auto
    then have "rev (contents v) = contents v"
      by (cases "contents v") auto
    then show ?thesis using VBlock False by simp
  qed
qed auto

section \<open>Properties\<close>

definition vec_push_all :: "'a list \<Rightarrow> 'a vec \<Rightarrow> size_t \<Rightarrow> nat \<Rightarrow> heap \<Rightarrow> ('a vec \<times> heap) option" where
  "vec_push_all xs v esz born h = fold_opt (\<lambda>x (v, h). vec_push x v esz born h) xs (v, h)"

text \<open>A vector that a run of pushes has poisoned is short of an element.\<close>

lemma vec_push_short:
  "vec_wf esz v \<Longrightarrow> vec_init v \<Longrightarrow> vec_push_all xs v esz born h = Some (v', h') \<Longrightarrow>
   length (contents v') \<le> length (contents v) + length xs \<and>
   (vec_oom v' \<longrightarrow> \<not> vec_oom v \<longrightarrow> length (contents v') < length (contents v) + length xs)"
proof (induction xs arbitrary: v h)
  case (Cons x xs)
  obtain v1 h1 where p: "vec_push x v esz born h = Some (v1, h1)" "vec_wf esz v1" "vec_init v1"
    "contents v1 = (if vec_oom v1 then contents v else contents v @ [x])"
    by (rule vec_push_spec [OF Cons.prems(1,2), of x born h]) blast
  have "vec_push_all xs v1 esz born h1 = Some (v', h')" using Cons.prems(3) p(1) by (simp add: vec_push_all_def)
  from Cons.IH [OF p(2,3) this] show ?case using p(4) by (auto split: if_splits)
qed (simp add: vec_push_all_def)

text \<open>C31: the failure contract of the vector. Whatever the allocator refuses, pushing \<open>xs\<close> onto an
  empty vector never stores outside a block; the elements are a prefix of \<open>xs\<close>, all of \<open>xs\<close>
  exactly when the vector is not poisoned; and the bytes charged to the allocator the vector was
  born with are exactly the block it holds, so that freeing it gives every byte back.\<close>

theorem vec_push_contract:
  assumes "accounts (h born) s"
  shows "\<exists>v' h' k. vec_push_all xs VNull esz born h = Some (v', h') \<and> k \<le> length xs \<and>
    contents v' = take k xs \<and> vec_oom v' = (k < length xs) \<and>
    accounts (h' born) (s + footprint esz v') \<and>
    accounts (snd (vec_free v' esz h') born) s"
proof -
  obtain st k where st: "fold_opt (\<lambda>x (v, h). vec_push x v esz born h) xs (VNull, h) = Some st"
    "case st of (v, h) \<Rightarrow> vec_wf esz v \<and> vec_init v \<and>
       accounts (h (vec_owner born v)) (s + footprint esz v) \<and> vec_owner born v = born"
    "k \<le> length xs" "(case st of (v, h) \<Rightarrow> contents v) = take k xs"
    "\<not> (case st of (v, h) \<Rightarrow> vec_oom v) \<longrightarrow> k = length xs"
    using vec.push_run [of esz born s "(VNull, h)" xs] assms by auto
  obtain v' h' where [simp]: "st = (v', h')" by fastforce
  have r: "vec_push_all xs VNull esz born h = Some (v', h')" "vec_wf esz v'"
    "accounts (h' (vec_owner born v')) (s + footprint esz v')" "vec_owner born v' = born"
    "k \<le> length xs" "contents v' = take k xs" "\<not> vec_oom v' \<longrightarrow> k = length xs"
    using st by (auto simp: vec_push_all_def)
  have "accounts (snd (vec_free v' esz h') born) s"
    using r(3,4) by (cases v') (auto simp: vec_free_def intro: heap.rel_add)
  moreover have "vec_oom v' \<longrightarrow> k < length xs" using vec_push_short [OF _ _ r(1)] r(5,6) by (simp add: min_absorb2)
  ultimately show ?thesis using r by auto
qed

theorem vec_push_contract_witness:
  "\<exists>v' h' k. vec_push_all [1, 2, 3 :: nat] VNull 8 0 (\<lambda>_. Libc (\<lambda>i. False) 0 0) = Some (v', h') \<and>
    k \<le> length [1, 2, 3 :: nat] \<and> contents v' = take k [1, 2, 3] \<and>
    vec_oom v' = (k < length [1, 2, 3 :: nat]) \<and>
    accounts (h' 0) (0 + footprint 8 v') \<and> accounts (snd (vec_free v' 8 h') 0) 0"
  by (rule vec_push_contract [of "\<lambda>_. Libc (\<lambda>i. False) 0 0" 0 0 "[1, 2, 3]" 8]) simp

lemma vec_push_all_granted:
  assumes e: "0 < unat esz" "unat esz \<le> 2 ^ 32"
  shows "vec_wf esz v \<Longrightarrow> vec_init v \<Longrightarrow> \<not> vec_oom v \<Longrightarrow> generous (h (vec_owner born v)) \<Longrightarrow>
    length (contents v) + length xs \<le> nat VEC_MAX_CAP \<Longrightarrow>
    \<exists>v' h'. vec_push_all xs v esz born h = Some (v', h') \<and> \<not> vec_oom v' \<and> contents v' = contents v @ xs"
proof (induction xs arbitrary: v h)
  case Nil
  then show ?case by (simp add: vec_push_all_def)
next
  case (Cons x xs)
  have len: "vec_len v = int (length (contents v))"
    using Cons.prems(1) nat_mono by (cases v) (auto simp: min_def)
  then have lt: "vec_len v < VEC_MAX_CAP" using Cons.prems(5) by (simp add: VEC_MAX_CAP_def)
  obtain v1 h1 where p: "vec_push x v esz born h = Some (v1, h1)" "vec_wf esz v1" "vec_init v1"
    "contents v1 = (if vec_oom v1 then contents v else contents v @ [x])"
    "vec_owner born v1 = vec_owner born v"
    by (rule vec_push_spec [OF Cons.prems(1,2), of x born h]) blast
  have g: "\<not> vec_oom v1" "generous (h1 (vec_owner born v))"
    using vec_push_granted [where v = v and h = h and born = born and esz = esz and x = x]
      Cons.prems lt e p(1) by simp_all
  have "\<exists>v' h'. vec_push_all xs v1 esz born h1 = Some (v', h') \<and> \<not> vec_oom v' \<and>
      contents v' = contents v1 @ xs"
    using Cons.IH [OF p(2,3)] g p(4,5) Cons.prems(5) by simp
  then show ?case using p(1,4) g by (auto simp: vec_push_all_def)
qed

text \<open>C32: nothing is refused without cause. While libc grants memory, every list of at most
  \<open>BBQ_VEC_MAX_CAP\<close> elements (of at most 4 GiB each) can be pushed whole.\<close>

theorem vec_push_complete:
  assumes "generous (h born)" and "length xs \<le> nat VEC_MAX_CAP" and "0 < unat esz" and "unat esz \<le> 2 ^ 32"
  shows "\<exists>v' h'. vec_push_all xs VNull esz born h = Some (v', h') \<and> \<not> vec_oom v' \<and> contents v' = xs"
  using vec_push_all_granted [of esz VNull h born xs] assms by simp

theorem vec_push_complete_witness:
  "\<exists>v' h'. vec_push_all ''abc'' VNull 1 0 (\<lambda>_. Libc (\<lambda>_. True) 0 0) = Some (v', h') \<and>
     \<not> vec_oom v' \<and> contents v' = ''abc''"
  by (rule vec_push_complete) (simp_all add: generous_def VEC_MAX_CAP_def)

text \<open>C33: \<open>bbq_vec_fill\<close> returns (where the push loop it replaces would spin on a poisoned vector),
  stays inside its block, and is all or nothing: either the vector is extended with copies of the
  value up to \<open>n\<close>, or its elements are untouched.\<close>

theorem vec_fill_all_or_nothing:
  assumes "vec_wf esz v" and "vec_init v" and "n < 2 ^ 31"
  shows "\<exists>ok v' h'. vec_fill v n x esz born h = Some (ok, v', h') \<and>
    contents v' = (if ok then contents v @ replicate (nat n - length (contents v)) x else contents v)"
  using vec_fill_spec [OF assms, of x born h] by blast

theorem vec_fill_all_or_nothing_witness:
  "\<exists>ok v' h'. vec_fill (VBlock 1 4 0 [Some 7, None, None, None]) 3 (9 :: nat) 8 0
      (\<lambda>_. Libc (\<lambda>_. True) 0 0) = Some (ok, v', h') \<and>
    contents v' = (if ok then contents (VBlock 1 4 0 [Some 7, None, None, None]) @
        replicate (nat 3 - length (contents (VBlock 1 4 0 [Some (7 :: nat), None, None, None]))) 9
      else contents (VBlock 1 4 0 [Some 7, None, None, None]))"
proof (rule vec_fill_all_or_nothing)
  have "block_bytes 4 8 \<noteq> 0" by (rule block_bytes_small) simp_all
  then show "vec_wf 8 (VBlock 1 4 0 [Some (7 :: nat), None, None, None])"
    by (simp add: VEC_MAX_CAP_def cap_word_def)
qed simp_all

end
