(* ===== verification/Stack.thy ===== *)
theory Stack
  imports Vec
begin

text \<open>
  The stacks of the read and write contexts (\<open>backends/c/runtime/bbq_read.h\<close>): a vector whose own
  length is unused, and a depth counter kept beside it. \<open>stack_ensure\<close> is the macro
  \<open>BBQ__STACK_ENSURE\<close>; a push stores at \<open>v[depth]\<close> and then counts, a pop only counts. The
  locale \<open>lifo\<close> is what the callers of such a stack rely on, and its lemmas about nests of calls
  are proved once for every stack of both contexts.
\<close>

fun slots :: "'a vec \<Rightarrow> 'a option list" where
  "slots (VBlock l c a xs) = xs"
| "slots v = []"

text \<open>The live part of a stack of depth \<open>d\<close>, and what makes it one.\<close>

definition stk :: "'a vec \<Rightarrow> int \<Rightarrow> 'a list" where
  "stk v d = map the (take (nat d) (slots v))"

definition stk_ok :: "size_t \<Rightarrow> 'a vec \<Rightarrow> int \<Rightarrow> bool" where
  "stk_ok esz v d = (vec_wf esz v \<and> 0 \<le> d \<and> nat d \<le> length (slots v) \<and>
     (\<forall>i < nat d. slots v ! i \<noteq> None))"

text \<open>\<open>BBQ__STACK_ENSURE(ctx, v, depth)\<close>: true iff slot \<open>depth\<close> is there.\<close>

definition stack_ensure :: "'a vec \<Rightarrow> int \<Rightarrow> size_t \<Rightarrow> nat \<Rightarrow> heap \<Rightarrow> bool \<times> 'a vec \<times> heap" where
  "stack_ensure v d esz born h =
     (if d < vec_cap v then (True, v, h)
      else let sw = (if vec_cap v \<noteq> 0 then vec_cap v * 2 else 8)
        in case vec_reserve v sw esz born h of (v', h') \<Rightarrow> (sw \<le> vec_cap v', v', h'))"

section \<open>What growth keeps\<close>

lemma slots_poison [simp]: "slots (poison v) = slots v"
  by (cases v) auto

lemma vec_cap_slots: "vec_wf esz v \<Longrightarrow> nat (vec_cap v) \<le> length (slots v)"
  by (cases v) (auto simp: real_cap_def)

lemma vec_resize_slots:
  "vec_resize v want esz born h = (v', h') \<Longrightarrow> \<exists>k. slots v' = slots v @ replicate k None"
  by (cases v) (auto simp: vec_resize_def Let_def simp del: poison.simps split: if_splits prod.splits bool.splits)

lemma stack_ensure_spec:
  assumes "stk_ok esz v d" and "stack_ensure v d esz born h = (ok, v', h')"
  shows "stk_ok esz v' d" and "stk v' d = stk v d" and "ok \<Longrightarrow> nat d < length (slots v')"
    and "ok \<Longrightarrow> nat d < length (slots v') \<and> stk_ok esz v' d \<and> stk v' d = stk v d"
proof -
  have wf: "vec_wf esz v" and d: "0 \<le> d" "nat d \<le> length (slots v)" "\<forall>i < nat d. slots v ! i \<noteq> None"
    using assms(1) by (auto simp: stk_ok_def)
  have *: "vec_wf esz v' \<and> (\<exists>k. slots v' = slots v @ replicate k None) \<and> (ok \<longrightarrow> d < vec_cap v')"
  proof (cases "d < vec_cap v")
    case True
    then have "v' = v" "ok" using assms(2) by (auto simp: stack_ensure_def)
    then show ?thesis using True wf by (auto intro: exI [of _ 0])
  next
    case False
    define sw where "sw = (if vec_cap v \<noteq> 0 then vec_cap v * 2 else 8)"
    have r: "vec_reserve v sw esz born h = (v', h')" and ok: "ok = (sw \<le> vec_cap v')"
      using False assms(2) by (auto simp: stack_ensure_def Let_def sw_def split: prod.splits)
    have "0 \<le> vec_cap v" by (cases v) auto
    then have lt: "vec_cap v < sw" by (simp add: sw_def)
    then have rs: "vec_resize v (word_of_int sw) esz born h = (v', h')"
      using r by (simp add: vec_reserve_def)
    have wf': "vec_wf esz v'" using vec_resize_spec(1) [OF wf rs] .
    obtain k where k: "slots v' = slots v @ replicate k None" using vec_resize_slots [OF rs] by blast
    have "ok \<Longrightarrow> d < vec_cap v'"
    proof -
      assume "ok"
      then have le: "sw \<le> vec_cap v'" using ok by simp
      have "d = vec_cap v \<or> vec_cap v < d" using False by auto
      moreover have "\<not> vec_cap v < d"
      proof
        assume g: "vec_cap v < d"
        then have "vec_oom v"
          using d(2) wf by (cases v) (auto simp: real_cap_def split: if_splits)
        then have "v' = v" using vec_resize_sticky [of v "word_of_int sw" esz born h] rs by simp
        then show False using le lt by simp
      qed
      ultimately show "d < vec_cap v'" using le lt by linarith
    qed
    then show ?thesis using wf' k by blast
  qed
  then obtain k where k: "slots v' = slots v @ replicate k None" by blast
  have tk: "take (nat d) (slots v') = take (nat d) (slots v)" using k d(2) by simp
  show ok': "stk_ok esz v' d"
    using * k d by (auto simp: stk_ok_def nth_append)
  show st: "stk v' d = stk v d" using tk by (simp add: stk_def)
  show lt: "ok \<Longrightarrow> nat d < length (slots v')"
    using * vec_cap_slots [of esz v'] d(1) by linarith
  show "ok \<Longrightarrow> nat d < length (slots v') \<and> stk_ok esz v' d \<and> stk v' d = stk v d"
    using ok' st lt by blast
qed

section \<open>Storing, reading and dropping\<close>

lemma stk_length: "stk_ok esz v d \<Longrightarrow> length (stk v d) = nat d"
  by (simp add: stk_def stk_ok_def)

lemma stk_put_push:
  assumes "stk_ok esz v d" and "nat d < length (slots v)"
  shows "\<exists>v'. vec_put v d x = Some v' \<and> stk_ok esz v' (d + 1) \<and> stk v' (d + 1) = stk v d @ [x]"
proof -
  obtain l c a xs where v: "v = VBlock l c a xs" using assms(2) by (cases v) auto
  have d: "0 \<le> d" "nat d < length xs" "\<forall>i < nat d. xs ! i \<noteq> None" "vec_wf esz v"
    using assms v by (auto simp: stk_ok_def)
  have n: "nat (d + 1) = Suc (nat d)" using d by simp
  have "take (Suc (nat d)) (xs[nat d := Some x]) = take (nat d) xs @ [Some x]"
    using d by (simp add: take_Suc_conv_app_nth)
  then have "stk (VBlock l c a (xs[nat d := Some x])) (d + 1) = stk v d @ [x]"
    using v n by (simp add: stk_def)
  moreover have "stk_ok esz (VBlock l c a (xs[nat d := Some x])) (d + 1)"
    using d v n by (auto simp: stk_ok_def nth_list_update less_Suc_eq)
  ultimately show ?thesis using v d by simp
qed

lemma stk_put_upd:
  assumes "stk_ok esz v d" and "0 \<le> i" and "i < d"
  shows "\<exists>v'. vec_put v i x = Some v' \<and> stk_ok esz v' d \<and> stk v' d = (stk v d)[nat i := x]"
proof -
  have ni: "nat i < nat d" using assms by simp
  then obtain l c a xs where v: "v = VBlock l c a xs" using assms(1) by (cases v) (auto simp: stk_ok_def)
  have d: "nat d \<le> length xs" "\<forall>i < nat d. xs ! i \<noteq> None" "vec_wf esz v" "0 \<le> d"
    using assms v by (auto simp: stk_ok_def)
  have "stk (VBlock l c a (xs[nat i := Some x])) d = (stk v d)[nat i := x]"
    using v by (simp add: stk_def take_update_swap map_update)
  moreover have "stk_ok esz (VBlock l c a (xs[nat i := Some x])) d"
    using d v ni by (auto simp: stk_ok_def nth_list_update)
  ultimately show ?thesis using v d ni assms(2) by auto
qed

lemma stk_get: "stk_ok esz v d \<Longrightarrow> 0 \<le> i \<Longrightarrow> i < d \<Longrightarrow> vec_get v i = Got (stk v d ! nat i)"
proof -
  assume a: "stk_ok esz v d" "0 \<le> i" "i < d"
  then have ni: "nat i < nat d" by simp
  then obtain l c b xs where v: "v = VBlock l c b xs" using a(1) by (cases v) (auto simp: stk_ok_def)
  have "xs ! nat i \<noteq> None" "nat i < length xs" using a ni v by (auto simp: stk_ok_def)
  then show ?thesis using a ni v by (auto simp: stk_def)
qed

lemma stk_shrink:
  "stk_ok esz v d \<Longrightarrow> 0 \<le> d' \<Longrightarrow> d' \<le> d \<Longrightarrow> stk_ok esz v d' \<and> stk v d' = take (nat d') (stk v d)"
  by (auto simp: stk_ok_def stk_def take_map min_def)

lemma stk_pop:
  "stk_ok esz v d \<Longrightarrow> 0 < d \<Longrightarrow> stk_ok esz v (d - 1) \<and> stk v (d - 1) = butlast (stk v d)"
  using stk_shrink [of esz v d "d - 1"] stk_length [of esz v d]
  by (simp add: butlast_conv_take nat_diff_distrib)

lemma stk_last: "stk_ok esz v d \<Longrightarrow> 0 < d \<Longrightarrow> vec_get v (d - 1) = Got (last (stk v d))"
proof -
  assume a: "stk_ok esz v d" "0 < d"
  then have "stk v d \<noteq> []" using stk_length [of esz v d] by auto
  then show ?thesis
    using stk_get [of esz v d "d - 1"] a stk_length [of esz v d] by (simp add: last_conv_nth nat_diff_distrib)
qed

lemma stk_ok_init [simp]: "stk_ok esz VNull 0" "stk VNull 0 = []"
  by (simp_all add: stk_ok_def stk_def)

lemma stk_empty_iff: "stk_ok esz v d \<Longrightarrow> (stk v d = []) = (d = 0)"
  by (auto simp: stk_ok_def stk_def)

section \<open>The contract of a stack\<close>

text \<open>
  \<open>nest\<close> is the shape of the calls the generated code makes: push, run the body's own pushes and
  pops, pop. \<open>run_nest\<close> stops at the first refused push, as the callers do; \<open>false\<close> is a refusal.
\<close>

datatype 'x nest = Nest 'x "'x nest list"

fun run_nest :: "('x \<Rightarrow> 's \<Rightarrow> unit rr \<times> 's) \<Rightarrow> ('s \<Rightarrow> 's) \<Rightarrow> 'x nest \<Rightarrow> 's \<Rightarrow> unit rr \<times> 's"
and run_nests :: "('x \<Rightarrow> 's \<Rightarrow> unit rr \<times> 's) \<Rightarrow> ('s \<Rightarrow> 's) \<Rightarrow> 'x nest list \<Rightarrow> 's \<Rightarrow> unit rr \<times> 's" where
  "run_nest push pop (Nest x ns) s =
     (case push x s of
        (Got _, s1) \<Rightarrow> (case run_nests push pop ns s1 of
            (Got _, s2) \<Rightarrow> (Got (), pop s2) | r \<Rightarrow> r)
      | r \<Rightarrow> r)"
| "run_nests push pop [] s = (Got (), s)"
| "run_nests push pop (n # ns) s =
     (case run_nest push pop n s of (Got _, s1) \<Rightarrow> run_nests push pop ns s1 | r \<Rightarrow> r)"

locale lifo =
  fixes push :: "'x \<Rightarrow> 's \<Rightarrow> unit rr \<times> 's"
    and pop :: "'s \<Rightarrow> 's"
    and items :: "'s \<Rightarrow> 'x list"
    and inv :: "'s \<Rightarrow> bool"
  assumes push_law: "inv s \<Longrightarrow> push x s = (r, s') \<Longrightarrow>
      inv s' \<and> (r = Got () \<and> items s' = items s @ [x] \<or> r = Rej \<and> items s' = items s)"
    and pop_law: "inv s \<Longrightarrow> inv (pop s) \<and> items (pop s) = butlast (items s)"
begin

definition tidy :: "'s \<Rightarrow> unit rr \<times> 's \<Rightarrow> bool" where
  "tidy s out = (case out of (r, s') \<Rightarrow> inv s' \<and> r \<noteq> UB \<and> (r = Got () \<longrightarrow> items s' = items s) \<and>
     (\<exists>xs. items s' = items s @ xs))"

lemma nests_tidy:
  assumes "\<And>n s. n \<in> set ns \<Longrightarrow> inv s \<Longrightarrow> tidy s (run_nest push pop n s)" and "inv s"
  shows "tidy s (run_nests push pop ns s)"
  using assms
proof (induction ns arbitrary: s)
  case Nil
  then show ?case by (simp add: tidy_def)
next
  case (Cons n ns)
  obtain r s1 where n: "run_nest push pop n s = (r, s1)" by fastforce
  have t: "tidy s (r, s1)" using Cons.prems n by (metis list.set_intros(1))
  show ?case
  proof (cases r)
    case (Got u)
    then have "inv s1" "items s1 = items s" using t by (auto simp: tidy_def)
    moreover have "tidy s1 (run_nests push pop ns s1)"
      using Cons.IH Cons.prems(1) \<open>inv s1\<close> by simp
    ultimately show ?thesis using n Got by (simp add: tidy_def)
  qed (use t n in \<open>auto simp: tidy_def\<close>)
qed

lemma nest_tidy: "inv s \<Longrightarrow> tidy s (run_nest push pop n s)"
proof (induction n arbitrary: s)
  case (Nest x ns)
  obtain r s1 where p: "push x s = (r, s1)" by fastforce
  note law = push_law [OF Nest.prems p]
  show ?case
  proof (cases r)
    case (Got u)
    then have s1: "inv s1" "items s1 = items s @ [x]" using law by auto
    obtain r2 s2 where n: "run_nests push pop ns s1 = (r2, s2)" by fastforce
    have t: "tidy s1 (r2, s2)" using nests_tidy [of ns s1] Nest.IH s1(1) n by auto
    show ?thesis
    proof (cases r2)
      case (Got u2)
      then have "inv s2" "items s2 = items s @ [x]" using t s1 by (auto simp: tidy_def)
      then show ?thesis
        using pop_law [of s2] p n \<open>r = Got u\<close> Got by (simp add: tidy_def)
    qed (use t p n \<open>r = Got u\<close> s1 in \<open>auto simp: tidy_def\<close>)
  qed (use p law in \<open>auto simp: tidy_def\<close>)
qed

text \<open>A nest of calls that was not refused leaves the stack as it found it; a refused one leaves
  what was below it.\<close>

lemma nest_run:
  assumes "inv s" and "run_nest push pop n s = (r, s')"
  shows "inv s'" and "r \<noteq> UB" and "r = Got () \<Longrightarrow> items s' = items s" and "\<exists>xs. items s' = items s @ xs"
  using nest_tidy [OF assms(1), of n] assms(2) by (auto simp: tidy_def)

end

end
