(* ===== verification/ReadCtx.thy ===== *)
theory ReadCtx
  imports Stack
begin

text \<open>
  The input cursor of \<open>backends/c/runtime/bbq_read.h\<close>: \<open>bbq_ctx_t\<close> with its position, interval
  window, loop, scope and loop-base stacks, endian register and checkpoint. The record has the
  fields of the struct; \<open>has_error\<close> and the text are one field (\<open>Some\<close> of the offset and the
  message). Three fields are not in the struct: \<open>r_alloc\<close> is the index of the allocator that
  \<open>BBQ__CTX_ALLOC(ctx)\<close> names, \<open>r_heap\<close> the state of the allocators, and \<open>r_host_le\<close> what
  \<open>bbq_host_is_little_endian()\<close> answers on the machine that runs the code. A pointer on the scope
  stack is a number, 0 for NULL.
\<close>

record rctx =
  r_data :: bytes
  r_len :: size_t
  r_pos :: size_t
  r_le :: bool
  r_alloc :: nat
  r_store_oom :: bool
  r_error :: "(size_t \<times> string) option"
  r_scopes :: "nat vec"
  r_scope_depth :: int
  r_lidx :: "i64 vec"
  r_llim :: "i64 vec"
  r_lcap :: "size_t vec"
  r_loop_depth :: int
  r_bases :: "int vec"
  r_base_depth :: int
  r_starts :: "size_t vec"
  r_ends :: "size_t vec"
  r_idepth :: int
  r_endian_seeded :: bool
  r_heap :: heap
  r_host_le :: bool

type_synonym 'a rd = "rctx \<Rightarrow> 'a rr \<times> rctx"

text \<open>\<open>bbq_ctx_init_a\<close>; \<open>bbq_ctx_init\<close> is this with the default allocator.\<close>

definition ctx_init_a :: "bytes \<Rightarrow> size_t \<Rightarrow> nat \<Rightarrow> heap \<Rightarrow> bool \<Rightarrow> rctx" where
  "ctx_init_a data len a h host_le =
     \<lparr>r_data = data, r_len = len, r_pos = 0, r_le = False, r_alloc = a, r_store_oom = False,
      r_error = None, r_scopes = VNull, r_scope_depth = 0, r_lidx = VNull, r_llim = VNull,
      r_lcap = VNull, r_loop_depth = 0, r_bases = VNull, r_base_depth = 0, r_starts = VNull,
      r_ends = VNull, r_idepth = 0, r_endian_seeded = False, r_heap = h, r_host_le = host_le\<rparr>"

definition ctx_free :: "rctx \<Rightarrow> rctx" where
  "ctx_free c =
     (let h1 = vec_release (r_scopes c) 8 (r_heap c);
          h2 = vec_release (r_lidx c) 8 h1;
          h3 = vec_release (r_llim c) 8 h2;
          h4 = vec_release (r_lcap c) 8 h3;
          h5 = vec_release (r_bases c) 4 h4;
          h6 = vec_release (r_starts c) 8 h5;
          h7 = vec_release (r_ends c) 8 h6
      in c\<lparr>r_scopes := VNull, r_lidx := VNull, r_llim := VNull, r_lcap := VNull, r_bases := VNull,
           r_starts := VNull, r_ends := VNull, r_heap := h7\<rparr>)"

definition ctx_oom :: "rctx \<Rightarrow> bool" where
  "ctx_oom c = (r_store_oom c \<or> vec_oom (r_scopes c) \<or> vec_oom (r_lidx c) \<or> vec_oom (r_llim c) \<or>
     vec_oom (r_lcap c) \<or> vec_oom (r_bases c) \<or> vec_oom (r_starts c) \<or> vec_oom (r_ends c))"

section \<open>Cursor and window\<close>

text \<open>\<open>bbq_seek\<close> looks at nothing: where it leads is its caller's business.\<close>

definition seek :: "size_t \<Rightarrow> rctx \<Rightarrow> rctx" where
  "seek p c = c\<lparr>r_pos := p\<rparr>"

definition at_end :: "rctx \<Rightarrow> bool" where
  "at_end c = (r_len c \<le> r_pos c)"

definition effective_end :: "rctx \<Rightarrow> size_t rr" where
  "effective_end c = (if 0 < r_idepth c then vec_get (r_ends c) (r_idepth c - 1) else Got (r_len c))"

definition effective_start :: "rctx \<Rightarrow> size_t rr" where
  "effective_start c = (if 0 < r_idepth c then vec_get (r_starts c) (r_idepth c - 1) else Got 0)"

definition remaining :: "rctx \<Rightarrow> size_t rr" where
  "remaining c = (case effective_end c of
      Got e \<Rightarrow> Got (if r_pos c < e then e - r_pos c else 0) | Rej \<Rightarrow> Rej | UB \<Rightarrow> UB)"

text \<open>\<open>bbq_fail\<close>: the first failure is the one reported.\<close>

definition note_fail :: "string \<Rightarrow> rctx \<Rightarrow> rctx" where
  "note_fail msg c = (if r_error c = None then c\<lparr>r_error := Some (r_pos c, msg)\<rparr> else c)"

definition fail :: "string \<Rightarrow> 'a rd" where
  "fail msg c = (Rej, note_fail msg c)"

definition seek_checked :: "size_t \<Rightarrow> unit rd" where
  "seek_checked p c = (if r_len c < p then fail ''seek out of range'' c else (Got (), c\<lparr>r_pos := p\<rparr>))"

definition advance :: "size_t \<Rightarrow> unit rd" where
  "advance n c = (case effective_end c of
      Got e \<Rightarrow> if e < r_pos c + n then fail ''unexpected end of input'' c
               else (Got (), c\<lparr>r_pos := r_pos c + n\<rparr>)
    | _ \<Rightarrow> (UB, c))"

section \<open>Checkpoints\<close>

record checkpoint =
  cp_pos :: size_t
  cp_idepth :: int
  cp_le :: bool
  cp_scope_depth :: int
  cp_loop_depth :: int
  cp_base_depth :: int

definition save :: "rctx \<Rightarrow> checkpoint" where
  "save c = \<lparr>cp_pos = r_pos c, cp_idepth = r_idepth c, cp_le = r_le c,
     cp_scope_depth = r_scope_depth c, cp_loop_depth = r_loop_depth c, cp_base_depth = r_base_depth c\<rparr>"

definition restore :: "checkpoint \<Rightarrow> rctx \<Rightarrow> rctx" where
  "restore cp c = c\<lparr>r_pos := cp_pos cp, r_idepth := cp_idepth cp, r_le := cp_le cp,
     r_scope_depth := cp_scope_depth cp, r_loop_depth := cp_loop_depth cp,
     r_base_depth := cp_base_depth cp, r_error := None\<rparr>"

section \<open>Scopes\<close>

definition push_scope :: "nat \<Rightarrow> unit rd" where
  "push_scope p c =
     (case stack_ensure (r_scopes c) (r_scope_depth c) 8 (r_alloc c) (r_heap c) of (ok, v, h) \<Rightarrow>
        let c1 = c\<lparr>r_scopes := v, r_heap := h\<rparr>
        in if \<not> ok then fail ''out of memory: scope stack'' c1
           else (case vec_put v (r_scope_depth c) p of
               None \<Rightarrow> (UB, c1)
             | Some v' \<Rightarrow> (Got (), c1\<lparr>r_scopes := v', r_scope_depth := r_scope_depth c + 1\<rparr>)))"

definition pop_scope :: "rctx \<Rightarrow> rctx" where
  "pop_scope c = (if 0 < r_scope_depth c then c\<lparr>r_scope_depth := r_scope_depth c - 1\<rparr> else c)"

definition scope_ptr :: "int \<Rightarrow> rctx \<Rightarrow> nat rr" where
  "scope_ptr levels_up c =
     (let idx = r_scope_depth c - 1 - levels_up
      in if 0 \<le> idx then vec_get (r_scopes c) idx else Got 0)"

section \<open>Loops\<close>

text \<open>\<open>bbq__loop_ensure\<close>: the three parallel arrays, in the order of the \<open>&&\<close>.\<close>

definition loop_ensure :: "rctx \<Rightarrow> bool \<times> rctx" where
  "loop_ensure c =
     (case stack_ensure (r_lidx c) (r_loop_depth c) 8 (r_alloc c) (r_heap c) of (ok1, v1, h1) \<Rightarrow>
        let c1 = c\<lparr>r_lidx := v1, r_heap := h1\<rparr> in
        if \<not> ok1 then (False, c1)
        else case stack_ensure (r_llim c1) (r_loop_depth c) 8 (r_alloc c) h1 of (ok2, v2, h2) \<Rightarrow>
          let c2 = c1\<lparr>r_llim := v2, r_heap := h2\<rparr> in
          if \<not> ok2 then (False, c2)
          else case stack_ensure (r_lcap c2) (r_loop_depth c) 8 (r_alloc c) h2 of (ok3, v3, h3) \<Rightarrow>
            (ok3, c2\<lparr>r_lcap := v3, r_heap := h3\<rparr>))"

text \<open>\<open>bbq_push_loop_n\<close>; \<open>bbq_push_loop\<close> and \<open>bbq_push_loop_unbounded\<close> are the same body with
  the limits 0 and -1.\<close>

definition push_loop_n :: "i64 \<Rightarrow> unit rd" where
  "push_loop_n limit c =
     (case loop_ensure c of (ok, c1) \<Rightarrow>
        if \<not> ok then fail ''out of memory: loop stack'' c1
        else (case (vec_put (r_lidx c1) (r_loop_depth c1) 0, vec_put (r_llim c1) (r_loop_depth c1) limit,
                    vec_put (r_lcap c1) (r_loop_depth c1) 0) of
            (Some i, Some l, Some k) \<Rightarrow>
              (Got (), c1\<lparr>r_lidx := i, r_llim := l, r_lcap := k, r_loop_depth := r_loop_depth c1 + 1\<rparr>)
          | _ \<Rightarrow> (UB, c1)))"

definition push_loop :: "unit rd" where
  "push_loop = push_loop_n 0"

definition push_loop_unbounded :: "unit rd" where
  "push_loop_unbounded = push_loop_n (- 1)"

definition pop_loop :: "rctx \<Rightarrow> rctx" where
  "pop_loop c = (if 0 < r_loop_depth c then c\<lparr>r_loop_depth := r_loop_depth c - 1\<rparr> else c)"

text \<open>Storing in the innermost frame's counter; the three callers below.\<close>

definition put_index :: "i64 \<Rightarrow> unit rd" where
  "put_index i c = (case vec_put (r_lidx c) (r_loop_depth c - 1) i of
      None \<Rightarrow> (UB, c) | Some v \<Rightarrow> (Got (), c\<lparr>r_lidx := v\<rparr>))"

text \<open>The counter is an \<open>int64_t\<close>: counting past \<open>INT64_MAX\<close> is a signed overflow.\<close>

definition loop_advance :: "unit rd" where
  "loop_advance c =
     (if 0 < r_loop_depth c
      then (case vec_get (r_lidx c) (r_loop_depth c - 1) of
          Got i \<Rightarrow> if i = INT64_MAX then (UB, c) else put_index (i + 1) c
        | _ \<Rightarrow> (UB, c))
      else (Got (), c))"

definition loop_limit :: "rctx \<Rightarrow> i64 rr" where
  "loop_limit c = (if 0 < r_loop_depth c then vec_get (r_llim c) (r_loop_depth c - 1) else Got 0)"

definition loop_next :: "bool rd" where
  "loop_next c =
     (if r_loop_depth c \<le> 0 then (Got False, c)
      else case vec_get (r_lidx c) (r_loop_depth c - 1) of
          Got i \<Rightarrow> if i = INT64_MAX then (UB, c)
            else (case put_index (i + 1) c of
              (Got _, c') \<Rightarrow> (case vec_get (r_llim c') (r_loop_depth c' - 1) of
                  Got l \<Rightarrow> (Got (i + 1 <s l), c') | _ \<Rightarrow> (UB, c'))
            | (_, c') \<Rightarrow> (UB, c'))
        | _ \<Rightarrow> (UB, c))"

definition set_loop_index :: "i64 \<Rightarrow> unit rd" where
  "set_loop_index i c = (if 0 < r_loop_depth c then put_index i c else (Got (), c))"

definition loop_index :: "rctx \<Rightarrow> i64 rr" where
  "loop_index c = (if 0 < r_loop_depth c then vec_get (r_lidx c) (r_loop_depth c - 1) else Got 0)"

definition loop_index_at :: "int \<Rightarrow> rctx \<Rightarrow> i64 rr" where
  "loop_index_at d c = (if 0 \<le> d \<and> d < r_loop_depth c then vec_get (r_lidx c) d else Got 0)"

definition push_loop_base :: "int \<Rightarrow> unit rd" where
  "push_loop_base b c =
     (case stack_ensure (r_bases c) (r_base_depth c) 4 (r_alloc c) (r_heap c) of (ok, v, h) \<Rightarrow>
        let c1 = c\<lparr>r_bases := v, r_heap := h\<rparr>
        in if \<not> ok then fail ''out of memory: loop-base stack'' c1
           else (case vec_put v (r_base_depth c) b of
               None \<Rightarrow> (UB, c1)
             | Some v' \<Rightarrow> (Got (), c1\<lparr>r_bases := v', r_base_depth := r_base_depth c + 1\<rparr>)))"

definition pop_loop_base :: "rctx \<Rightarrow> rctx" where
  "pop_loop_base c = (if 0 < r_base_depth c then c\<lparr>r_base_depth := r_base_depth c - 1\<rparr> else c)"

definition cur_loop_base :: "rctx \<Rightarrow> int rr" where
  "cur_loop_base c = (if 0 < r_base_depth c then vec_get (r_bases c) (r_base_depth c - 1) else Got 0)"

section \<open>Intervals\<close>

definition pop_interval :: "rctx \<Rightarrow> rctx" where
  "pop_interval c = (if 0 < r_idepth c then c\<lparr>r_idepth := r_idepth c - 1\<rparr> else c)"

definition interval_ensure :: "rctx \<Rightarrow> bool \<times> rctx" where
  "interval_ensure c =
     (case stack_ensure (r_starts c) (r_idepth c) 8 (r_alloc c) (r_heap c) of (ok1, v1, h1) \<Rightarrow>
        let c1 = c\<lparr>r_starts := v1, r_heap := h1\<rparr> in
        if \<not> ok1 then (False, c1)
        else case stack_ensure (r_ends c1) (r_idepth c) 8 (r_alloc c) h1 of (ok2, v2, h2) \<Rightarrow>
          (ok2, c1\<lparr>r_ends := v2, r_heap := h2\<rparr>))"

definition push_interval_checked :: "size_t \<Rightarrow> unit rd" where
  "push_interval_checked e c =
     (case (effective_start c, effective_end c) of
        (Got es, Got ee) \<Rightarrow>
          if e < r_pos c \<or> r_pos c < es \<or> ee < e then fail ''interval out of range'' c
          else (case interval_ensure c of (ok, c1) \<Rightarrow>
            if \<not> ok then fail ''out of memory: interval stack'' c1
            else (case (vec_put (r_starts c1) (r_idepth c1) (r_pos c1), vec_put (r_ends c1) (r_idepth c1) e) of
                (Some s', Some e') \<Rightarrow>
                  (Got (), c1\<lparr>r_starts := s', r_ends := e', r_idepth := r_idepth c1 + 1\<rparr>)
              | _ \<Rightarrow> (UB, c1)))
      | _ \<Rightarrow> (UB, c))"

definition pop_interval_checked :: "unit rd" where
  "pop_interval_checked c =
     (if r_idepth c \<le> 0 then fail ''interval: unbalanced pop'' c
      else case vec_get (r_ends c) (r_idepth c - 1) of
          Got e \<Rightarrow> (let c1 = c\<lparr>r_idepth := r_idepth c - 1\<rparr>
                    in if r_pos c1 \<noteq> e then fail ''interval: size mismatch'' c1 else (Got (), c1))
        | _ \<Rightarrow> (UB, c))"

definition set_endian :: "bool \<Rightarrow> rctx \<Rightarrow> rctx" where
  "set_endian b c = c\<lparr>r_le := b\<rparr>"

definition peek :: "rctx \<Rightarrow> u8 rr" where
  "peek c = (case effective_end c of
      Got e \<Rightarrow> if e \<le> r_pos c then Rej
               else if unat (r_pos c) < length (r_data c) then Got (r_data c ! unat (r_pos c)) else UB
    | _ \<Rightarrow> UB)"

text \<open>\<open>bbq_abs\<close>: negating the least \<open>int64_t\<close> overflows, which C leaves undefined.\<close>

definition bbq_abs :: "i64 \<Rightarrow> i64 rr" where
  "bbq_abs v = (if v <s 0 then if v = 0x8000000000000000 then UB else Got (- v) else Got v)"

section \<open>The abstract cursor\<close>

text \<open>
  What the context stands for: a position, the endian register, and four stacks as lists with the
  innermost entry last. \<open>nested\<close> is the confinement of interval windows.
\<close>

record cursor =
  a_pos :: size_t
  a_le :: bool
  a_scopes :: "nat list"
  a_idx :: "i64 list"
  a_lim :: "i64 list"
  a_cap :: "size_t list"
  a_bases :: "int list"
  a_wins :: "(size_t \<times> size_t) list"

definition cursor_of :: "rctx \<Rightarrow> cursor" where
  "cursor_of c = \<lparr>a_pos = r_pos c, a_le = r_le c, a_scopes = stk (r_scopes c) (r_scope_depth c),
     a_idx = stk (r_lidx c) (r_loop_depth c), a_lim = stk (r_llim c) (r_loop_depth c),
     a_cap = stk (r_lcap c) (r_loop_depth c), a_bases = stk (r_bases c) (r_base_depth c),
     a_wins = zip (stk (r_starts c) (r_idepth c)) (stk (r_ends c) (r_idepth c))\<rparr>"

fun nested :: "size_t \<Rightarrow> size_t \<Rightarrow> (size_t \<times> size_t) list \<Rightarrow> bool" where
  "nested lo hi [] = True"
| "nested lo hi ((s, e) # ws) = (lo \<le> s \<and> s \<le> e \<and> e \<le> hi \<and> nested s e ws)"

definition window :: "size_t \<Rightarrow> cursor \<Rightarrow> size_t \<times> size_t" where
  "window len a = last ((0, len) # a_wins a)"

text \<open>The invariant. The last bound is the largest object C can have (\<open>PTRDIFF_MAX\<close> bytes).\<close>

definition stacks_ok :: "rctx \<Rightarrow> bool" where
  "stacks_ok c = (stk_ok 8 (r_scopes c) (r_scope_depth c) \<and> stk_ok 8 (r_lidx c) (r_loop_depth c) \<and>
     stk_ok 8 (r_llim c) (r_loop_depth c) \<and> stk_ok 8 (r_lcap c) (r_loop_depth c) \<and>
     stk_ok 4 (r_bases c) (r_base_depth c) \<and> stk_ok 8 (r_starts c) (r_idepth c) \<and>
     stk_ok 8 (r_ends c) (r_idepth c))"

definition rctx_ok :: "rctx \<Rightarrow> bool" where
  "rctx_ok c = (unat (r_len c) = length (r_data c) \<and> unat (r_len c) < 2 ^ 63 \<and> r_pos c \<le> r_len c \<and>
     stacks_ok c \<and> nested 0 (r_len c) (a_wins (cursor_of c)))"

section \<open>Windows\<close>

lemma nested_snoc:
  "nested lo hi (ws @ [(s, e)]) = (nested lo hi ws \<and>
     (case last ((lo, hi) # ws) of (s0, e0) \<Rightarrow> s0 \<le> s \<and> s \<le> e \<and> e \<le> e0))"
  by (induction lo hi ws rule: nested.induct) auto

lemma nested_last:
  "nested lo hi ws \<Longrightarrow> lo \<le> hi \<Longrightarrow> last ((lo, hi) # ws) = (s, e) \<Longrightarrow> lo \<le> s \<and> s \<le> e \<and> e \<le> hi"
  by (induction lo hi ws rule: nested.induct) (auto split: if_splits)

lemma nested_take: "nested lo hi ws \<Longrightarrow> nested lo hi (take k ws)"
proof (induction lo hi ws arbitrary: k rule: nested.induct)
  case (2 lo hi s e ws)
  then show ?case by (cases k) auto
qed simp

lemma nested_butlast: "nested lo hi ws \<Longrightarrow> nested lo hi (butlast ws)"
  by (simp add: butlast_conv_take nested_take)

lemma zip_snoc: "length xs = length ys \<Longrightarrow> zip (xs @ [x]) (ys @ [y]) = zip xs ys @ [(x, y)]"
  by simp

lemma last_zip: "length xs = length ys \<Longrightarrow> xs \<noteq> [] \<Longrightarrow> last (zip xs ys) = (last xs, last ys)"
  by (cases ys rule: rev_cases; cases xs rule: rev_cases) auto

lemma butlast_zip: "length xs = length ys \<Longrightarrow> butlast (zip xs ys) = zip (butlast xs) (butlast ys)"
  by (cases ys rule: rev_cases; cases xs rule: rev_cases) auto

lemma effective_end_ok:
  "stacks_ok c \<Longrightarrow> effective_end c = Got (snd (window (r_len c) (cursor_of c)))"
proof -
  assume ok: "stacks_ok c"
  then have e: "stk_ok 8 (r_ends c) (r_idepth c)" "stk_ok 8 (r_starts c) (r_idepth c)"
    by (auto simp: stacks_ok_def)
  then have l: "length (stk (r_starts c) (r_idepth c)) = length (stk (r_ends c) (r_idepth c))"
    by (simp add: stk_length)
  show ?thesis
  proof (cases "0 < r_idepth c")
    case True
    then have ne: "stk (r_starts c) (r_idepth c) \<noteq> []" "stk (r_ends c) (r_idepth c) \<noteq> []"
      using e stk_empty_iff by force+
    then show ?thesis
      using True e l stk_last [OF e(1)] by (simp add: effective_end_def window_def cursor_of_def last_zip)
  next
    case False
    then have "r_idepth c = 0" using e by (simp add: stk_ok_def)
    then show ?thesis by (simp add: effective_end_def window_def cursor_of_def stk_def)
  qed
qed

lemma effective_start_ok:
  "stacks_ok c \<Longrightarrow> effective_start c = Got (fst (window (r_len c) (cursor_of c)))"
proof -
  assume ok: "stacks_ok c"
  then have e: "stk_ok 8 (r_ends c) (r_idepth c)" "stk_ok 8 (r_starts c) (r_idepth c)"
    by (auto simp: stacks_ok_def)
  then have l: "length (stk (r_starts c) (r_idepth c)) = length (stk (r_ends c) (r_idepth c))"
    by (simp add: stk_length)
  show ?thesis
  proof (cases "0 < r_idepth c")
    case True
    then have ne: "stk (r_starts c) (r_idepth c) \<noteq> []" "stk (r_ends c) (r_idepth c) \<noteq> []"
      using e stk_empty_iff by force+
    then show ?thesis
      using True e l stk_last [OF e(2)] by (simp add: effective_start_def window_def cursor_of_def last_zip)
  next
    case False
    then have "r_idepth c = 0" using e by (simp add: stk_ok_def)
    then show ?thesis by (simp add: effective_start_def window_def cursor_of_def stk_def)
  qed
qed

lemma window_bounds:
  "rctx_ok c \<Longrightarrow> window (r_len c) (cursor_of c) = (s, e) \<Longrightarrow> s \<le> e \<and> e \<le> r_len c"
  using nested_last [of 0 "r_len c" "a_wins (cursor_of c)" s e] by (simp add: rctx_ok_def window_def)

end
