(* ===== verification/Cursor.thy ===== *)
theory Cursor
  imports ReadCtx
begin

text \<open>
  Every stack operation of the read context implements its list operation on the abstract cursor,
  or refuses for memory and changes nothing; no operation leaves its memory. Then: nests of
  pushes and pops restore the stacks, and a checkpoint restores the parse state.
\<close>

definition same_input :: "rctx \<Rightarrow> rctx \<Rightarrow> bool" where
  "same_input c c' = (r_data c' = r_data c \<and> r_len c' = r_len c \<and> r_alloc c' = r_alloc c \<and>
     r_host_le c' = r_host_le c)"

lemma same_input_refl [simp]: "same_input c c"
  by (simp add: same_input_def)

lemma same_input_trans: "same_input a b \<Longrightarrow> same_input b c \<Longrightarrow> same_input a c"
  by (simp add: same_input_def)

lemma cursor_of_simps [simp]:
  "a_pos (cursor_of c) = r_pos c" "a_le (cursor_of c) = r_le c"
  "a_scopes (cursor_of c) = stk (r_scopes c) (r_scope_depth c)"
  "a_idx (cursor_of c) = stk (r_lidx c) (r_loop_depth c)"
  "a_lim (cursor_of c) = stk (r_llim c) (r_loop_depth c)"
  "a_cap (cursor_of c) = stk (r_lcap c) (r_loop_depth c)"
  "a_bases (cursor_of c) = stk (r_bases c) (r_base_depth c)"
  "a_wins (cursor_of c) = zip (stk (r_starts c) (r_idepth c)) (stk (r_ends c) (r_idepth c))"
  by (simp_all add: cursor_of_def)

text \<open>The outcome of an operation that changes the cursor by \<open>f\<close> or is refused.\<close>

definition does :: "(cursor \<Rightarrow> cursor) \<Rightarrow> rctx \<Rightarrow> unit rr \<times> rctx \<Rightarrow> bool" where
  "does f c out = (case out of (r, c') \<Rightarrow> rctx_ok c' \<and> same_input c c' \<and>
     (r = Got () \<and> cursor_of c' = f (cursor_of c) \<or>
      r = Rej \<and> cursor_of c' = cursor_of c \<and> r_error c' \<noteq> None \<and> ctx_oom c'))"

lemma note_fail_simps [simp]:
  "r_data (note_fail m c) = r_data c" "r_len (note_fail m c) = r_len c" "r_pos (note_fail m c) = r_pos c"
  "r_alloc (note_fail m c) = r_alloc c" "r_host_le (note_fail m c) = r_host_le c"
  "r_error (note_fail m c) \<noteq> None" "cursor_of (note_fail m c) = cursor_of c"
  "stacks_ok (note_fail m c) = stacks_ok c" "rctx_ok (note_fail m c) = rctx_ok c"
  "ctx_oom (note_fail m c) = ctx_oom c" "r_le (note_fail m c) = r_le c"
  by (simp_all add: note_fail_def cursor_of_def stacks_ok_def rctx_ok_def ctx_oom_def)

lemma note_fail_error [simp]: "\<exists>p m. r_error (note_fail msg c) = Some (p, m)"
  by (cases "r_error c") (auto simp: note_fail_def)

lemma fail_simps [simp]: "fst (fail m c) = Rej" "snd (fail m c) = note_fail m c"
  by (simp_all add: fail_def)

lemma does_refused:
  "rctx_ok c1 \<Longrightarrow> same_input c c1 \<Longrightarrow> cursor_of c1 = cursor_of c \<Longrightarrow> ctx_oom c1 \<Longrightarrow> does f c (fail m c1)"
  by (simp add: does_def fail_def same_input_def)

lemma stack_ensure_refused:
  assumes "vec_wf esz v" and "stack_ensure v d esz b h = (False, v', h')"
  shows "vec_oom v'"
proof -
  define sw where "sw = (if vec_cap v \<noteq> 0 then vec_cap v * 2 else 8)"
  have r: "vec_reserve v sw esz b h = (v', h')" and lt: "vec_cap v' < sw"
    using assms(2) by (auto simp: stack_ensure_def Let_def sw_def split: prod.splits if_splits)
  have c: "0 \<le> vec_cap v" "vec_cap v \<le> VEC_MAX_CAP"
    using assms(1) by (cases v; auto simp: real_cap_def VEC_MAX_CAP_def split: if_splits)+
  then have "vec_cap v < sw" by (simp add: sw_def)
  then have rs: "vec_resize v (word_of_int sw) esz b h = (v', h')"
    using r by (simp add: vec_reserve_def)
  have "uint (word_of_int sw :: size_t) = sw"
    using c by (simp add: sw_def VEC_MAX_CAP_def uint_word_of_int_eq take_bit_int_eq_self)
  then show ?thesis using vec_resize_spec(7) [OF assms(1) rs] lt by simp
qed

lemma ctx_oom_intros:
  "vec_oom (r_scopes c) \<Longrightarrow> ctx_oom c" "vec_oom (r_lidx c) \<Longrightarrow> ctx_oom c"
  "vec_oom (r_llim c) \<Longrightarrow> ctx_oom c" "vec_oom (r_lcap c) \<Longrightarrow> ctx_oom c"
  "vec_oom (r_bases c) \<Longrightarrow> ctx_oom c" "vec_oom (r_starts c) \<Longrightarrow> ctx_oom c"
  "vec_oom (r_ends c) \<Longrightarrow> ctx_oom c"
  by (simp_all add: ctx_oom_def)

lemma stk_ok_wf: "stk_ok esz v d \<Longrightarrow> vec_wf esz v"
  by (simp add: stk_ok_def)

text \<open>One ensure, with everything its caller needs.\<close>

lemma ensure_cases:
  assumes "stk_ok esz v d"
  obtains (there) v' h' where "stack_ensure v d esz b h = (True, v', h')" "stk_ok esz v' d"
      "stk v' d = stk v d" "nat d < length (slots v')"
  | (refused) v' h' where "stack_ensure v d esz b h = (False, v', h')" "stk_ok esz v' d"
      "stk v' d = stk v d" "vec_oom v'"
proof -
  obtain ok v' h' where e: "stack_ensure v d esz b h = (ok, v', h')" by (metis prod_cases3)
  note sp = stack_ensure_spec [OF assms e]
  show thesis
  proof (cases ok)
    case True
    then show ?thesis using there [of v' h'] e sp by simp
  next
    case False
    then show ?thesis
      using refused [of v' h'] e sp stack_ensure_refused [OF stk_ok_wf [OF assms]] by simp
  qed
qed

lemma push_scope_does:
  assumes "rctx_ok c"
  shows "does (\<lambda>a. a\<lparr>a_scopes := a_scopes a @ [p]\<rparr>) c (push_scope p c)"
proof -
  have s: "stk_ok 8 (r_scopes c) (r_scope_depth c)" using assms by (simp add: rctx_ok_def stacks_ok_def)
  show ?thesis
  proof (cases rule: ensure_cases [OF s, of "r_alloc c" "r_heap c", case_names there refused])
    case (there v' h')
    obtain v'' where "vec_put v' (r_scope_depth c) p = Some v''" "stk_ok 8 v'' (r_scope_depth c + 1)"
      "stk v'' (r_scope_depth c + 1) = stk v' (r_scope_depth c) @ [p]"
      using stk_put_push [OF there(2,4), of p] by blast
    then show ?thesis
      using there assms by (simp add: push_scope_def does_def rctx_ok_def stacks_ok_def same_input_def cursor_of_def)
  next
    case (refused v' h')
    let ?c1 = "c\<lparr>r_scopes := v', r_heap := h'\<rparr>"
    have "push_scope p c = fail ''out of memory: scope stack'' ?c1" using refused by (simp add: push_scope_def)
    moreover have "rctx_ok ?c1" "same_input c ?c1" "cursor_of ?c1 = cursor_of c" "ctx_oom ?c1"
      using refused assms
      by (auto simp: rctx_ok_def stacks_ok_def same_input_def ctx_oom_intros cursor_of_def)
    ultimately show ?thesis by (simp add: does_refused)
  qed
qed

lemma push_loop_base_does:
  assumes "rctx_ok c"
  shows "does (\<lambda>a. a\<lparr>a_bases := a_bases a @ [p]\<rparr>) c (push_loop_base p c)"
proof -
  have s: "stk_ok 4 (r_bases c) (r_base_depth c)" using assms by (simp add: rctx_ok_def stacks_ok_def)
  show ?thesis
  proof (cases rule: ensure_cases [OF s, of "r_alloc c" "r_heap c", case_names there refused])
    case (there v' h')
    obtain v'' where "vec_put v' (r_base_depth c) p = Some v''" "stk_ok 4 v'' (r_base_depth c + 1)"
      "stk v'' (r_base_depth c + 1) = stk v' (r_base_depth c) @ [p]"
      using stk_put_push [OF there(2,4), of p] by blast
    then show ?thesis
      using there assms by (simp add: push_loop_base_def does_def rctx_ok_def stacks_ok_def same_input_def cursor_of_def)
  next
    case (refused v' h')
    let ?c1 = "c\<lparr>r_bases := v', r_heap := h'\<rparr>"
    have "push_loop_base p c = fail ''out of memory: loop-base stack'' ?c1" using refused by (simp add: push_loop_base_def)
    moreover have "rctx_ok ?c1" "same_input c ?c1" "cursor_of ?c1 = cursor_of c" "ctx_oom ?c1"
      using refused assms
      by (auto simp: rctx_ok_def stacks_ok_def same_input_def ctx_oom_intros cursor_of_def)
    ultimately show ?thesis by (simp add: does_refused)
  qed
qed

lemma loop_ensure_cases:
  assumes "rctx_ok c"
  obtains (there) c1 where "loop_ensure c = (True, c1)" "rctx_ok c1" "same_input c c1"
      "cursor_of c1 = cursor_of c" "r_loop_depth c1 = r_loop_depth c"
      "nat (r_loop_depth c) < length (slots (r_lidx c1))" "nat (r_loop_depth c) < length (slots (r_llim c1))"
      "nat (r_loop_depth c) < length (slots (r_lcap c1))"
  | (refused) c1 where "loop_ensure c = (False, c1)" "rctx_ok c1" "same_input c c1"
      "cursor_of c1 = cursor_of c" "ctx_oom c1"
proof -
  have s: "stk_ok 8 (r_lidx c) (r_loop_depth c)" "stk_ok 8 (r_llim c) (r_loop_depth c)"
    "stk_ok 8 (r_lcap c) (r_loop_depth c)" using assms by (simp_all add: rctx_ok_def stacks_ok_def)
  show thesis
  proof (cases rule: ensure_cases [OF s(1), of "r_alloc c" "r_heap c", case_names there refused])
    case (refused v1 h1)
    then show ?thesis using assms
      by (intro that(2) [of "c\<lparr>r_lidx := v1, r_heap := h1\<rparr>"])
        (auto simp: loop_ensure_def Let_def rctx_ok_def stacks_ok_def same_input_def cursor_of_def ctx_oom_intros)
  next
    case t1: (there v1 h1)
    show ?thesis
    proof (cases rule: ensure_cases [OF s(2), of "r_alloc c" h1, case_names there refused])
      case (refused v2 h2)
      then show ?thesis using assms t1
        by (intro that(2) [of "c\<lparr>r_lidx := v1, r_llim := v2, r_heap := h2\<rparr>"])
          (auto simp: loop_ensure_def Let_def rctx_ok_def stacks_ok_def same_input_def cursor_of_def ctx_oom_intros)
    next
      case t2: (there v2 h2)
      show ?thesis
      proof (cases rule: ensure_cases [OF s(3), of "r_alloc c" h2, case_names there refused])
        case (refused v3 h3)
        then show ?thesis using assms t1 t2
          by (intro that(2) [of "c\<lparr>r_lidx := v1, r_llim := v2, r_lcap := v3, r_heap := h3\<rparr>"])
            (auto simp: loop_ensure_def Let_def rctx_ok_def stacks_ok_def same_input_def cursor_of_def ctx_oom_intros)
      next
        case (there v3 h3)
        then show ?thesis using assms t1 t2
          by (intro that(1) [of "c\<lparr>r_lidx := v1, r_llim := v2, r_lcap := v3, r_heap := h3\<rparr>"])
            (auto simp: loop_ensure_def Let_def rctx_ok_def stacks_ok_def same_input_def cursor_of_def)
      qed
    qed
  qed
qed

lemma push_loop_n_does:
  assumes "rctx_ok c"
  shows "does (\<lambda>a. a\<lparr>a_idx := a_idx a @ [0], a_lim := a_lim a @ [l], a_cap := a_cap a @ [0]\<rparr>) c (push_loop_n l c)"
proof (cases rule: loop_ensure_cases [OF assms, case_names there refused])
  case (refused c1)
  then show ?thesis by (simp add: push_loop_n_def does_refused)
next
  case (there c1)
  let ?d = "r_loop_depth c1"
  have s: "stk_ok 8 (r_lidx c1) ?d" "stk_ok 8 (r_llim c1) ?d" "stk_ok 8 (r_lcap c1) ?d"
    using there(2) by (simp_all add: rctx_ok_def stacks_ok_def)
  obtain vi where vi: "vec_put (r_lidx c1) ?d 0 = Some vi" "stk_ok 8 vi (?d + 1)"
    "stk vi (?d + 1) = stk (r_lidx c1) ?d @ [0]" using stk_put_push [OF s(1)] there(5,6) by metis
  obtain vl where vl: "vec_put (r_llim c1) ?d l = Some vl" "stk_ok 8 vl (?d + 1)"
    "stk vl (?d + 1) = stk (r_llim c1) ?d @ [l]" using stk_put_push [OF s(2)] there(5,7) by metis
  obtain vk where vk: "vec_put (r_lcap c1) ?d 0 = Some vk" "stk_ok 8 vk (?d + 1)"
    "stk vk (?d + 1) = stk (r_lcap c1) ?d @ [0]" using stk_put_push [OF s(3)] there(5,8) by metis
  have "push_loop_n l c = (Got (), c1\<lparr>r_lidx := vi, r_llim := vl, r_lcap := vk, r_loop_depth := ?d + 1\<rparr>)"
    using there(1) vi(1) vl(1) vk(1) by (simp add: push_loop_n_def)
  then show ?thesis
    using there(2,3,4) vi vl vk
    by (simp add: does_def rctx_ok_def stacks_ok_def same_input_def cursor_of_def)
qed

lemma interval_ensure_cases:
  assumes "rctx_ok c"
  obtains (there) c1 where "interval_ensure c = (True, c1)" "rctx_ok c1" "same_input c c1"
      "cursor_of c1 = cursor_of c" "r_idepth c1 = r_idepth c"
      "nat (r_idepth c) < length (slots (r_starts c1))" "nat (r_idepth c) < length (slots (r_ends c1))"
  | (refused) c1 where "interval_ensure c = (False, c1)" "rctx_ok c1" "same_input c c1"
      "cursor_of c1 = cursor_of c" "ctx_oom c1"
proof -
  have s: "stk_ok 8 (r_starts c) (r_idepth c)" "stk_ok 8 (r_ends c) (r_idepth c)"
    using assms by (simp_all add: rctx_ok_def stacks_ok_def)
  show thesis
  proof (cases rule: ensure_cases [OF s(1), of "r_alloc c" "r_heap c", case_names there refused])
    case (refused v1 h1)
    then show ?thesis using assms
      by (intro that(2) [of "c\<lparr>r_starts := v1, r_heap := h1\<rparr>"])
        (auto simp: interval_ensure_def Let_def rctx_ok_def stacks_ok_def same_input_def cursor_of_def ctx_oom_intros)
  next
    case t1: (there v1 h1)
    show ?thesis
    proof (cases rule: ensure_cases [OF s(2), of "r_alloc c" h1, case_names there refused])
      case (refused v2 h2)
      then show ?thesis using assms t1
        by (intro that(2) [of "c\<lparr>r_starts := v1, r_ends := v2, r_heap := h2\<rparr>"])
          (auto simp: interval_ensure_def Let_def rctx_ok_def stacks_ok_def same_input_def cursor_of_def ctx_oom_intros)
    next
      case (there v2 h2)
      then show ?thesis using assms t1
        by (intro that(1) [of "c\<lparr>r_starts := v1, r_ends := v2, r_heap := h2\<rparr>"])
          (auto simp: interval_ensure_def Let_def rctx_ok_def stacks_ok_def same_input_def cursor_of_def)
    qed
  qed
qed

text \<open>The window test of \<open>bbq_push_interval_checked\<close>.\<close>

definition fits_window :: "size_t \<Rightarrow> size_t \<Rightarrow> cursor \<Rightarrow> bool" where
  "fits_window len e a = (a_pos a \<le> e \<and> fst (window len a) \<le> a_pos a \<and> e \<le> snd (window len a))"

lemma push_interval_rejects:
  "rctx_ok c \<Longrightarrow> \<not> fits_window (r_len c) e (cursor_of c) \<Longrightarrow>
     push_interval_checked e c = fail ''interval out of range'' c"
  by (auto simp: push_interval_checked_def effective_start_ok effective_end_ok rctx_ok_def
      fits_window_def not_le)

lemma push_interval_does:
  assumes "rctx_ok c" and fit: "fits_window (r_len c) e (cursor_of c)"
  shows "does (\<lambda>a. a\<lparr>a_wins := a_wins a @ [(a_pos a, e)]\<rparr>) c (push_interval_checked e c)"
proof -
  have st: "stacks_ok c" using assms(1) by (simp add: rctx_ok_def)
  have go: "push_interval_checked e c = (case interval_ensure c of (ok, c1) \<Rightarrow>
      if \<not> ok then fail ''out of memory: interval stack'' c1
      else (case (vec_put (r_starts c1) (r_idepth c1) (r_pos c1), vec_put (r_ends c1) (r_idepth c1) e) of
          (Some s', Some e') \<Rightarrow> (Got (), c1\<lparr>r_starts := s', r_ends := e', r_idepth := r_idepth c1 + 1\<rparr>)
        | _ \<Rightarrow> (UB, c1)))"
    using fit st by (simp add: push_interval_checked_def effective_start_ok effective_end_ok
        fits_window_def not_less [symmetric])
  show ?thesis
  proof (cases rule: interval_ensure_cases [OF assms(1), case_names there refused])
    case (refused c1)
    then show ?thesis by (simp add: go does_refused)
  next
    case (there c1)
    let ?d = "r_idepth c1"
    have s: "stk_ok 8 (r_starts c1) ?d" "stk_ok 8 (r_ends c1) ?d"
      using there(2) by (simp_all add: rctx_ok_def stacks_ok_def)
    obtain vs where vs: "vec_put (r_starts c1) ?d (r_pos c1) = Some vs" "stk_ok 8 vs (?d + 1)"
      "stk vs (?d + 1) = stk (r_starts c1) ?d @ [r_pos c1]" using stk_put_push [OF s(1)] there(5,6) by metis
    obtain ve where ve: "vec_put (r_ends c1) ?d e = Some ve" "stk_ok 8 ve (?d + 1)"
      "stk ve (?d + 1) = stk (r_ends c1) ?d @ [e]" using stk_put_push [OF s(2)] there(5,7) by metis
    let ?c2 = "c1\<lparr>r_starts := vs, r_ends := ve, r_idepth := ?d + 1\<rparr>"
    have out: "push_interval_checked e c = (Got (), ?c2)"
      using there(1) vs(1) ve(1) by (simp add: go)
    have l: "length (stk (r_starts c1) ?d) = length (stk (r_ends c1) ?d)"
      using s by (simp add: stk_length)
    have p: "r_pos c1 = r_pos c" "r_len c1 = r_len c"
      using there(3,4) cursor_of_simps(1) [of c1] cursor_of_simps(1) [of c] by (simp_all add: same_input_def)
    have "a_wins (cursor_of ?c2) = a_wins (cursor_of c1) @ [(r_pos c1, e)]"
      using vs(3) ve(3) l by simp
    then have cur: "cursor_of ?c2 = (cursor_of c1)\<lparr>a_wins := a_wins (cursor_of c1) @ [(r_pos c1, e)]\<rparr>"
      by (simp add: cursor_of_def)
    have "nested 0 (r_len c) (a_wins (cursor_of c1) @ [(r_pos c1, e)])"
      using there(2,4) fit p
      unfolding nested_snoc by (auto simp: rctx_ok_def fits_window_def window_def split: prod.splits)
    then have "rctx_ok ?c2"
      using there(2) vs ve cur p by (simp add: rctx_ok_def stacks_ok_def)
    then show ?thesis
      using out there(3,4) cur p by (simp add: does_def same_input_def)
  qed
qed

section \<open>Pops, counters and the endian register\<close>

lemma pop_scope_does:
  assumes "rctx_ok c"
  shows "rctx_ok (pop_scope c) \<and> same_input c (pop_scope c) \<and>
    cursor_of (pop_scope c) = (cursor_of c)\<lparr>a_scopes := butlast (a_scopes (cursor_of c))\<rparr>"
proof (cases "0 < r_scope_depth c")
  case True
  then show ?thesis using assms stk_pop [of 8 "r_scopes c" "r_scope_depth c"]
    by (simp add: pop_scope_def rctx_ok_def stacks_ok_def same_input_def cursor_of_def)
next
  case False
  then have "r_scope_depth c = 0" using assms by (simp add: rctx_ok_def stacks_ok_def stk_ok_def)
  then show ?thesis using assms by (simp add: pop_scope_def cursor_of_def stk_def)
qed

lemma pop_loop_base_does:
  assumes "rctx_ok c"
  shows "rctx_ok (pop_loop_base c) \<and> same_input c (pop_loop_base c) \<and>
    cursor_of (pop_loop_base c) = (cursor_of c)\<lparr>a_bases := butlast (a_bases (cursor_of c))\<rparr>"
proof (cases "0 < r_base_depth c")
  case True
  then show ?thesis using assms stk_pop [of 4 "r_bases c" "r_base_depth c"]
    by (simp add: pop_loop_base_def rctx_ok_def stacks_ok_def same_input_def cursor_of_def)
next
  case False
  then have "r_base_depth c = 0" using assms by (simp add: rctx_ok_def stacks_ok_def stk_ok_def)
  then show ?thesis using assms by (simp add: pop_loop_base_def cursor_of_def stk_def)
qed

lemma pop_loop_does:
  assumes "rctx_ok c"
  shows "rctx_ok (pop_loop c) \<and> same_input c (pop_loop c) \<and>
    cursor_of (pop_loop c) = (cursor_of c)\<lparr>a_idx := butlast (a_idx (cursor_of c)),
      a_lim := butlast (a_lim (cursor_of c)), a_cap := butlast (a_cap (cursor_of c))\<rparr>"
proof (cases "0 < r_loop_depth c")
  case True
  then show ?thesis
    using assms stk_pop [of 8 "r_lidx c" "r_loop_depth c"] stk_pop [of 8 "r_llim c" "r_loop_depth c"]
      stk_pop [of 8 "r_lcap c" "r_loop_depth c"]
    by (simp add: pop_loop_def rctx_ok_def stacks_ok_def same_input_def cursor_of_def)
next
  case False
  then have "r_loop_depth c = 0" using assms by (simp add: rctx_ok_def stacks_ok_def stk_ok_def)
  then show ?thesis using assms by (simp add: pop_loop_def cursor_of_def stk_def)
qed

lemma pop_interval_does:
  assumes "rctx_ok c"
  shows "rctx_ok (pop_interval c) \<and> same_input c (pop_interval c) \<and>
    cursor_of (pop_interval c) = (cursor_of c)\<lparr>a_wins := butlast (a_wins (cursor_of c))\<rparr>"
proof (cases "0 < r_idepth c")
  case True
  have s: "stk_ok 8 (r_starts c) (r_idepth c)" "stk_ok 8 (r_ends c) (r_idepth c)"
    using assms by (simp_all add: rctx_ok_def stacks_ok_def)
  have "zip (butlast (stk (r_starts c) (r_idepth c))) (butlast (stk (r_ends c) (r_idepth c))) =
      butlast (zip (stk (r_starts c) (r_idepth c)) (stk (r_ends c) (r_idepth c)))"
    using s by (simp add: butlast_zip stk_length)
  then show ?thesis
    using True assms stk_pop [OF s(1) True] stk_pop [OF s(2) True]
    by (simp add: pop_interval_def rctx_ok_def stacks_ok_def same_input_def cursor_of_def nested_butlast)
next
  case False
  then have "r_idepth c = 0" using assms by (simp add: rctx_ok_def stacks_ok_def stk_ok_def)
  then show ?thesis using assms by (simp add: pop_interval_def cursor_of_def stk_def)
qed

lemma wins_empty: "stacks_ok c \<Longrightarrow> (a_wins (cursor_of c) = []) = (r_idepth c \<le> 0)"
  using stk_empty_iff [of 8 "r_starts c" "r_idepth c"] stk_length [of 8 "r_starts c" "r_idepth c"]
    stk_length [of 8 "r_ends c" "r_idepth c"]
  by (auto simp: stacks_ok_def zip_eq_Nil_iff stk_ok_def)

lemma pop_interval_checked_out:
  assumes "rctx_ok c"
  shows "pop_interval_checked c =
    (if a_wins (cursor_of c) = [] then fail ''interval: unbalanced pop'' c
     else if r_pos c \<noteq> snd (last (a_wins (cursor_of c)))
       then fail ''interval: size mismatch'' (pop_interval c) else (Got (), pop_interval c))"
proof (cases "r_idepth c \<le> 0")
  case True
  then show ?thesis using assms wins_empty [of c] by (simp add: pop_interval_checked_def rctx_ok_def)
next
  case False
  then have "effective_end c = vec_get (r_ends c) (r_idepth c - 1)" by (simp add: effective_end_def)
  moreover have "window (r_len c) (cursor_of c) = last (a_wins (cursor_of c))"
    using False assms wins_empty [of c] by (simp add: window_def rctx_ok_def)
  ultimately have "vec_get (r_ends c) (r_idepth c - 1) = Got (snd (last (a_wins (cursor_of c))))"
    using effective_end_ok [of c] assms by (simp add: rctx_ok_def)
  then show ?thesis
    using False assms wins_empty [of c] by (simp add: pop_interval_checked_def pop_interval_def rctx_ok_def Let_def)
qed

lemma put_index_does:
  assumes "rctx_ok c" and "0 < r_loop_depth c"
  shows "\<exists>c'. put_index i c = (Got (), c') \<and> rctx_ok c' \<and> same_input c c' \<and> r_loop_depth c' = r_loop_depth c \<and>
    cursor_of c' = (cursor_of c)\<lparr>a_idx := (a_idx (cursor_of c))[length (a_idx (cursor_of c)) - 1 := i]\<rparr>"
proof -
  have s: "stk_ok 8 (r_lidx c) (r_loop_depth c)" using assms by (simp add: rctx_ok_def stacks_ok_def)
  obtain v where "vec_put (r_lidx c) (r_loop_depth c - 1) i = Some v" "stk_ok 8 v (r_loop_depth c)"
    "stk v (r_loop_depth c) = (stk (r_lidx c) (r_loop_depth c))[nat (r_loop_depth c - 1) := i]"
    using stk_put_upd [OF s, of "r_loop_depth c - 1" i] assms(2) by auto
  then show ?thesis
    using assms stk_length [OF s]
    by (simp add: put_index_def rctx_ok_def stacks_ok_def same_input_def cursor_of_def nat_diff_distrib)
qed

lemma loops_empty: "stacks_ok c \<Longrightarrow> (a_idx (cursor_of c) = []) = (r_loop_depth c \<le> 0) \<and>
    (a_lim (cursor_of c) = []) = (r_loop_depth c \<le> 0)"
  using stk_empty_iff [of 8 "r_lidx c" "r_loop_depth c"] stk_empty_iff [of 8 "r_llim c" "r_loop_depth c"]
  by (auto simp: stacks_ok_def stk_ok_def)

lemma loop_next_out:
  assumes "rctx_ok c" and full: "a_idx (cursor_of c) \<noteq> [] \<Longrightarrow> last (a_idx (cursor_of c)) \<noteq> INT64_MAX"
  shows "\<exists>c'. loop_next c = (Got (a_idx (cursor_of c) \<noteq> [] \<and>
       last (a_idx (cursor_of c)) + 1 <s last (a_lim (cursor_of c))), c') \<and> rctx_ok c' \<and> same_input c c' \<and>
     cursor_of c' = (cursor_of c)\<lparr>a_idx := (let is = a_idx (cursor_of c) in
        if is = [] then [] else is[length is - 1 := last is + 1])\<rparr>"
proof (cases "r_loop_depth c \<le> 0")
  case True
  then have "a_idx (cursor_of c) = []" using assms(1) loops_empty [of c] by (simp add: rctx_ok_def)
  then show ?thesis using True assms(1) by (simp add: loop_next_def cursor_of_def)
next
  case False
  then have d: "0 < r_loop_depth c" by simp
  have s: "stk_ok 8 (r_lidx c) (r_loop_depth c)" "stk_ok 8 (r_llim c) (r_loop_depth c)"
    using assms(1) by (simp_all add: rctx_ok_def stacks_ok_def)
  have ne: "a_idx (cursor_of c) \<noteq> []" using False assms(1) loops_empty [of c] by (simp add: rctx_ok_def)
  obtain c' where c': "put_index (last (a_idx (cursor_of c)) + 1) c = (Got (), c')" "rctx_ok c'" "same_input c c'"
    "r_loop_depth c' = r_loop_depth c"
    "cursor_of c' = (cursor_of c)\<lparr>a_idx := (a_idx (cursor_of c))[length (a_idx (cursor_of c)) - 1 := last (a_idx (cursor_of c)) + 1]\<rparr>"
    using put_index_does [OF assms(1) d] by blast
  have "vec_get (r_llim c') (r_loop_depth c' - 1) = Got (last (a_lim (cursor_of c')))"
    using stk_last [of 8 "r_llim c'" "r_loop_depth c'"] c'(2,4) d by (simp add: rctx_ok_def stacks_ok_def)
  then have lim: "vec_get (r_llim c') (r_loop_depth c' - 1) = Got (last (a_lim (cursor_of c)))"
    using c'(5) by simp
  have "vec_get (r_lidx c) (r_loop_depth c - 1) = Got (last (a_idx (cursor_of c)))"
    using stk_last [OF s(1) d] by simp
  then have "loop_next c = (Got (last (a_idx (cursor_of c)) + 1 <s last (a_lim (cursor_of c))), c')"
    using d c'(1) lim full [OF ne] by (simp add: loop_next_def)
  then show ?thesis using c'(2,3,5) ne by (simp add: Let_def)
qed

lemma set_endian_does:
  "rctx_ok c \<Longrightarrow> rctx_ok (set_endian b c) \<and> same_input c (set_endian b c) \<and>
     cursor_of (set_endian b c) = (cursor_of c)\<lparr>a_le := b\<rparr>"
  by (simp add: set_endian_def rctx_ok_def stacks_ok_def same_input_def cursor_of_def)

end
