(* ===== verification/Decode.thy ===== *)
theory Decode
  imports Cursor
begin

text \<open>
  The decoders of \<open>backends/c/runtime/bbq_read.h\<close>: fixed-width integers in either byte order and in
  the order of the endian register, LEB128, floats (as their bit patterns) and \<open>bool\<close>. A signed
  integer is the word of its bits, as the C cast leaves it.
\<close>

section \<open>Bytes and words\<close>

text \<open>\<open>memcpy\<close> of bytes into an integer on a little-endian machine; \<open>load_int\<close> on either.\<close>

fun from_le :: "bytes \<Rightarrow> 'a::len word" where
  "from_le [] = 0"
| "from_le (b # bs) = (ucast b OR push_bit 8 (from_le bs))"

definition load_int :: "bool \<Rightarrow> bytes \<Rightarrow> 'a::len word" where
  "load_int host_le bs = from_le (if host_le then bs else rev bs)"

definition bswap16 :: "u16 \<Rightarrow> u16" where
  "bswap16 v = (drop_bit 8 v OR push_bit 8 v)"

definition bswap32 :: "u32 \<Rightarrow> u32" where
  "bswap32 v = ((drop_bit 24 v AND 0xFF) OR (drop_bit 8 v AND 0xFF00) OR
     (push_bit 8 v AND 0xFF0000) OR (push_bit 24 v AND 0xFF000000))"

definition bswap64 :: "u64 \<Rightarrow> u64" where
  "bswap64 v = (drop_bit 56 v OR (drop_bit 40 v AND 0xFF00) OR
     (drop_bit 24 v AND 0xFF0000) OR (drop_bit 8 v AND 0xFF000000) OR
     (push_bit 8 v AND 0xFF00000000) OR (push_bit 24 v AND 0xFF0000000000) OR
     (push_bit 40 v AND 0xFF000000000000) OR push_bit 56 v)"

section \<open>Fixed width\<close>

definition map_rd :: "('a \<Rightarrow> 'b) \<Rightarrow> 'a rd \<Rightarrow> 'b rd" where
  "map_rd f m c = (case m c of (Got x, c') \<Rightarrow> (Got (f x), c') | (Rej, c') \<Rightarrow> (Rej, c') | (UB, c') \<Rightarrow> (UB, c'))"

definition read_u8 :: "u8 rd" where
  "read_u8 c = (case effective_end c of
      Got e \<Rightarrow> if e < r_pos c + 1 then fail ''u8: overrun'' c
        else if unat (r_pos c) < length (r_data c)
          then (Got (r_data c ! unat (r_pos c)), c\<lparr>r_pos := r_pos c + 1\<rparr>) else (UB, c)
    | _ \<Rightarrow> (UB, c))"

definition read_i8 :: "u8 rd" where
  "read_i8 = map_rd scast read_u8"

text \<open>The bounds check and the \<open>memcpy\<close> the wider readers share.\<close>

definition take_bytes :: "nat \<Rightarrow> string \<Rightarrow> bytes rd" where
  "take_bytes n msg c = (case effective_end c of
      Got e \<Rightarrow> if e < r_pos c + word_of_nat n then fail msg c
        else if unat (r_pos c) + n \<le> length (r_data c)
          then (Got (slice (unat (r_pos c)) n (r_data c)), c\<lparr>r_pos := r_pos c + word_of_nat n\<rparr>) else (UB, c)
    | _ \<Rightarrow> (UB, c))"

definition read_u16be :: "u16 rd" where
  "read_u16be c = map_rd (\<lambda>bs. let v = load_int (r_host_le c) bs in if r_host_le c then bswap16 v else v)
     (take_bytes 2 ''u16be: overrun'') c"

definition read_i16be :: "u16 rd" where
  "read_i16be = map_rd scast read_u16be"

definition read_u16le :: "u16 rd" where
  "read_u16le c = map_rd (\<lambda>bs. let v = load_int (r_host_le c) bs in if r_host_le c then v else bswap16 v)
     (take_bytes 2 ''u16le: overrun'') c"

definition read_i16le :: "u16 rd" where
  "read_i16le = map_rd scast read_u16le"

definition read_u32be :: "u32 rd" where
  "read_u32be c = map_rd (\<lambda>bs. let v = load_int (r_host_le c) bs in if r_host_le c then bswap32 v else v)
     (take_bytes 4 ''u32be: overrun'') c"

definition read_i32be :: "u32 rd" where
  "read_i32be = map_rd scast read_u32be"

definition read_u32le :: "u32 rd" where
  "read_u32le c = map_rd (\<lambda>bs. let v = load_int (r_host_le c) bs in if r_host_le c then v else bswap32 v)
     (take_bytes 4 ''u32le: overrun'') c"

definition read_i32le :: "u32 rd" where
  "read_i32le = map_rd scast read_u32le"

definition read_u64be :: "u64 rd" where
  "read_u64be c = map_rd (\<lambda>bs. let v = load_int (r_host_le c) bs in if r_host_le c then bswap64 v else v)
     (take_bytes 8 ''u64be: overrun'') c"

definition read_i64be :: "u64 rd" where
  "read_i64be = map_rd scast read_u64be"

definition read_u64le :: "u64 rd" where
  "read_u64le c = map_rd (\<lambda>bs. let v = load_int (r_host_le c) bs in if r_host_le c then v else bswap64 v)
     (take_bytes 8 ''u64le: overrun'') c"

definition read_i64le :: "u64 rd" where
  "read_i64le = map_rd scast read_u64le"

text \<open>The unsuffixed types follow the live endian register.\<close>

definition read_u16 :: "u16 rd" where
  "read_u16 c = (if r_le c then read_u16le c else read_u16be c)"

definition read_i16 :: "u16 rd" where
  "read_i16 c = (if r_le c then read_i16le c else read_i16be c)"

definition read_u32 :: "u32 rd" where
  "read_u32 c = (if r_le c then read_u32le c else read_u32be c)"

definition read_i32 :: "u32 rd" where
  "read_i32 c = (if r_le c then read_i32le c else read_i32be c)"

definition read_u64 :: "u64 rd" where
  "read_u64 c = (if r_le c then read_u64le c else read_u64be c)"

definition read_i64 :: "u64 rd" where
  "read_i64 c = (if r_le c then read_i64le c else read_i64be c)"

definition read_f32be :: "u32 rd" where
  "read_f32be = map_rd (\<lambda>v. v) read_u32be"

definition read_f32le :: "u32 rd" where
  "read_f32le = map_rd (\<lambda>v. v) read_u32le"

definition read_f64be :: "u64 rd" where
  "read_f64be = map_rd (\<lambda>v. v) read_u64be"

definition read_f64le :: "u64 rd" where
  "read_f64le = map_rd (\<lambda>v. v) read_u64le"

definition read_f32 :: "u32 rd" where
  "read_f32 c = (if r_le c then read_f32le c else read_f32be c)"

definition read_f64 :: "u64 rd" where
  "read_f64 c = (if r_le c then read_f64le c else read_f64be c)"

definition read_bool :: "bool rd" where
  "read_bool = map_rd (\<lambda>v. v \<noteq> 0) read_u8"

section \<open>LEB128\<close>

text \<open>\<open>bbq_read_uleb128\<close> and \<open>bbq_read_sleb128\<close>: the body of the loop at byte \<open>i\<close>.\<close>

function uleb_loop :: "nat \<Rightarrow> nat \<Rightarrow> nat \<Rightarrow> u64 \<Rightarrow> u64 rd" where
  "uleb_loop bits i shift result c =
     (if i < (bits + 6) div 7 then
        (case read_u8 c of
           (Got byte, c1) \<Rightarrow>
             if i = (bits + 6) div 7 - 1 \<and> byte AND 0x80 \<noteq> 0 then fail ''uleb128: too long'' c1
             else if i = (bits + 6) div 7 - 1 \<and> bits - shift < 7 \<and> drop_bit (bits - shift) byte \<noteq> 0
               then fail ''uleb128: value too large'' c1
             else let result1 = result OR push_bit shift (ucast (byte AND 0x7f))
               in if byte AND 0x80 = 0 then (Got result1, c1)
                  else uleb_loop bits (Suc i) (shift + 7) result1 c1
         | (Rej, c1) \<Rightarrow> (Rej, c1)
         | (UB, c1) \<Rightarrow> (UB, c1))
      else fail ''uleb128: unterminated'' c)"
  by pat_completeness auto
termination
  by (relation "measure (\<lambda>(bits, i, shift, result, c). (bits + 6) div 7 - i)") auto

declare uleb_loop.simps [simp del]

definition read_uleb128 :: "nat \<Rightarrow> u64 rd" where
  "read_uleb128 bits = uleb_loop bits 0 0 0"

function sleb_loop :: "nat \<Rightarrow> nat \<Rightarrow> nat \<Rightarrow> u64 \<Rightarrow> u64 rd" where
  "sleb_loop bits i shift result c =
     (if i < (bits + 6) div 7 then
        (case read_u8 c of
           (Got byte, c1) \<Rightarrow>
             let avail = bits - shift;
                 low_mask = (drop_bit (7 - avail) 0x7f :: u8);
                 hi = (byte AND 0x7f) AND NOT low_mask;
                 expect = (if byte AND push_bit (avail - 1) 1 \<noteq> 0 then 0x7f AND NOT low_mask else 0)
             in if i = (bits + 6) div 7 - 1 \<and> byte AND 0x80 \<noteq> 0 then fail ''sleb128: too long'' c1
             else if i = (bits + 6) div 7 - 1 \<and> hi \<noteq> expect then fail ''sleb128: value out of range'' c1
             else let result1 = result OR push_bit shift (ucast (byte AND 0x7f)); shift1 = shift + 7
               in if byte AND 0x80 = 0
                  then (Got (if shift1 < 64 \<and> byte AND 0x40 \<noteq> 0 then result1 OR push_bit shift1 (NOT 0) else result1), c1)
                  else sleb_loop bits (Suc i) shift1 result1 c1
         | (Rej, c1) \<Rightarrow> (Rej, c1)
         | (UB, c1) \<Rightarrow> (UB, c1))
      else fail ''sleb128: unterminated'' c)"
  by pat_completeness auto
termination
  by (relation "measure (\<lambda>(bits, i, shift, result, c). (bits + 6) div 7 - i)") auto

declare sleb_loop.simps [simp del]

definition read_sleb128 :: "nat \<Rightarrow> u64 rd" where
  "read_sleb128 bits = sleb_loop bits 0 0 0"

definition read_uleb128_u32 :: "u32 rd" where
  "read_uleb128_u32 = map_rd ucast (read_uleb128 32)"

definition read_uleb128_u64 :: "u64 rd" where
  "read_uleb128_u64 = read_uleb128 64"

definition read_sleb128_i32 :: "u32 rd" where
  "read_sleb128_i32 = map_rd ucast (read_sleb128 32)"

definition read_sleb128_i64 :: "u64 rd" where
  "read_sleb128_i64 = read_sleb128 64"

definition read_sleb128_s33 :: "u32 rd" where
  "read_sleb128_s33 = map_rd ucast (read_sleb128 33)"

section \<open>Byte order\<close>

lemma bit_from_le:
  "bit (from_le bs :: 'a::len word) k \<longleftrightarrow>
     k < LENGTH('a) \<and> k div 8 < length bs \<and> bit (bs ! (k div 8)) (k mod 8)"
proof (induction bs arbitrary: k)
  case Nil
  then show ?case by simp
next
  case (Cons b bs)
  show ?case
  proof (cases "k < 8")
    case True
    then show ?thesis by (auto simp: bit_simps)
  next
    case False
    then have "k div 8 = Suc ((k - 8) div 8)" "k mod 8 = (k - 8) mod 8"
      by (simp_all add: le_div_geq le_mod_geq)
    then show ?thesis
      using False Cons.IH [of "k - 8"] bit_imp_le_length [of b k] by (auto simp: bit_simps)
  qed
qed

lemma bit_beyond: "LENGTH('a) \<le> n \<Longrightarrow> bit (w :: 'a::len word) n = False"
  using bit_imp_le_length by (metis not_le)

text \<open>The masks of the formulas, as eight ones from bit \<open>m\<close> up.\<close>

definition byte_mask :: "nat \<Rightarrow> 'a::len word" where
  "byte_mask m = push_bit m (mask 8)"

lemma bit_byte_mask: "bit (byte_mask m :: 'a::len word) k = (m \<le> k \<and> k < LENGTH('a) \<and> k < m + 8)"
  by (auto simp: byte_mask_def bit_push_bit_iff bit_mask_iff)

lemma byte_masks: "(0xFF :: 'a::len word) = byte_mask 0" "(0xFF00 :: 'a word) = byte_mask 8"
  "(0xFF0000 :: 'a word) = byte_mask 16" "(0xFF000000 :: 'a word) = byte_mask 24"
  "(0xFF00000000 :: 'a word) = byte_mask 32" "(0xFF0000000000 :: 'a word) = byte_mask 40"
  "(0xFF000000000000 :: 'a word) = byte_mask 48"
  by (simp_all add: byte_mask_def push_bit_eq_mult mask_eq_exp_minus_1)

lemmas bswap32_masks = bswap32_def [unfolded byte_masks]
lemmas bswap64_masks = bswap64_def [unfolded byte_masks]

lemmas byte_bits = bit_or_iff bit_and_iff bit_drop_bit_eq comp_def bit_push_bit_iff possible_bit_word bit_byte_mask

lemma bit_bswap16: "k < 16 \<Longrightarrow> bit (bswap16 v) k = bit v (8 * (1 - k div 8) + k mod 8)"
proof -
  assume k: "k < 16"
  define q r where "q = k div 8" and "r = k mod 8"
  have kk: "k = 8 * q + r" and r: "r < 8" and q: "q < 2" using k by (auto simp: q_def r_def)
  have beyond: "\<And>j. 16 \<le> j \<Longrightarrow> \<not> bit v j" by (simp add: bit_beyond)
  have e: "bit (bswap16 v) (8 * q + r) = bit v (8 * (1 - q) + r)"
  proof -
    from q consider "q = 0" | "q = 1" by linarith
    then show ?thesis
      unfolding bswap16_def byte_bits by cases (use r beyond in simp_all)
  qed
  then show ?thesis unfolding kk [symmetric] unfolding q_def r_def .
qed

lemma bit_bswap32: "k < 32 \<Longrightarrow> bit (bswap32 v) k = bit v (8 * (3 - k div 8) + k mod 8)"
proof -
  assume k: "k < 32"
  define q r where "q = k div 8" and "r = k mod 8"
  have kk: "k = 8 * q + r" and r: "r < 8" and q: "q < 4" using k by (auto simp: q_def r_def)
  have beyond: "\<And>j. 32 \<le> j \<Longrightarrow> \<not> bit v j" by (simp add: bit_beyond)
  have e: "bit (bswap32 v) (8 * q + r) = bit v (8 * (3 - q) + r)"
  proof -
    from q consider "q = 0" | "q = 1" | "q = 2" | "q = 3" by linarith
    then show ?thesis
      unfolding bswap32_masks byte_bits by cases (use r beyond in simp_all)
  qed
  then show ?thesis unfolding kk [symmetric] unfolding q_def r_def .
qed

lemma bit_bswap64: "k < 64 \<Longrightarrow> bit (bswap64 v) k = bit v (8 * (7 - k div 8) + k mod 8)"
proof -
  assume k: "k < 64"
  define q r where "q = k div 8" and "r = k mod 8"
  have kk: "k = 8 * q + r" and r: "r < 8" and q: "q < 8" using k by (auto simp: q_def r_def)
  have beyond: "\<And>j. 64 \<le> j \<Longrightarrow> \<not> bit v j" by (simp add: bit_beyond)
  have e: "bit (bswap64 v) (8 * q + r) = bit v (8 * (7 - q) + r)"
  proof -
    from q consider "q = 0" | "q = 1" | "q = 2" | "q = 3" | "q = 4" | "q = 5" | "q = 6" | "q = 7" by linarith
    then show ?thesis
      unfolding bswap64_masks byte_bits by cases (use r beyond in simp_all)
  qed
  then show ?thesis unfolding kk [symmetric] unfolding q_def r_def .
qed

lemma bit_from_le_rev:
  "k < 8 * length bs \<Longrightarrow> bit (from_le (rev bs) :: 'a::len word) k \<longleftrightarrow>
     k < LENGTH('a) \<and> bit (bs ! (length bs - 1 - k div 8)) (k mod 8)"
proof -
  assume k: "k < 8 * length bs"
  then have "k div 8 < length bs" by (simp add: less_mult_imp_div_less mult.commute)
  then show ?thesis by (simp add: bit_from_le rev_nth Suc_diff_Suc)
qed

lemma swap_index:
  fixes k m :: nat assumes "k < 8 * m"
  shows "(8 * (m - 1 - k div 8) + k mod 8) div 8 = m - 1 - k div 8"
    and "(8 * (m - 1 - k div 8) + k mod 8) mod 8 = k mod 8"
    and "8 * (m - 1 - k div 8) + k mod 8 < 8 * m"
proof -
  have "k div 8 < m" using assms by (simp add: less_mult_imp_div_less mult.commute)
  then show "8 * (m - 1 - k div 8) + k mod 8 < 8 * m"
    using mod_less_divisor [of 8 k] by linarith
qed simp_all

lemma swap_word:
  fixes f :: "'a::len word \<Rightarrow> 'a word"
  assumes L: "LENGTH('a) = 8 * m" and f: "\<And>k v. k < 8 * m \<Longrightarrow> bit (f v) k = bit v (8 * (m - 1 - k div 8) + k mod 8)"
    and len: "length bs = m"
  shows "f (from_le bs) = from_le (rev bs)"
proof (rule bit_word_eqI)
  fix k assume "k < LENGTH('a)"
  then have k: "k < 8 * m" using L by simp
  have "m - 1 - k div 8 < m" "k div 8 < m" using k by (auto simp: less_mult_imp_div_less mult.commute)
  then show "bit (f (from_le bs)) k = bit (from_le (rev bs) :: 'a word) k"
    using k len L swap_index [OF k] by (simp add: f bit_from_le rev_nth)
qed

lemma bswap_from_le:
  "length bs = 2 \<Longrightarrow> bswap16 (from_le bs) = from_le (rev bs)"
  "length bs = 4 \<Longrightarrow> bswap32 (from_le bs) = from_le (rev bs)"
  "length bs = 8 \<Longrightarrow> bswap64 (from_le bs) = from_le (rev bs)"
  by (rule swap_word; simp add: bit_bswap16 bit_bswap32 bit_bswap64)+

text \<open>Whatever the machine, the value is the bytes read in the declared order.\<close>

definition of_bytes :: "bool \<Rightarrow> bytes \<Rightarrow> 'a::len word" where
  "of_bytes little bs = from_le (if little then bs else rev bs)"

lemma load_swap:
  "length bs = 2 \<Longrightarrow> (if h then bswap16 (load_int h bs) else load_int h bs) = of_bytes False bs"
  "length bs = 2 \<Longrightarrow> (if h then load_int h bs else bswap16 (load_int h bs)) = of_bytes True bs"
  "length bs = 4 \<Longrightarrow> (if h then bswap32 (load_int h bs) else load_int h bs) = of_bytes False bs"
  "length bs = 4 \<Longrightarrow> (if h then load_int h bs else bswap32 (load_int h bs)) = of_bytes True bs"
  "length bs = 8 \<Longrightarrow> (if h then bswap64 (load_int h bs) else load_int h bs) = of_bytes False bs"
  "length bs = 8 \<Longrightarrow> (if h then load_int h bs else bswap64 (load_int h bs)) = of_bytes True bs"
  by (auto simp: load_int_def of_bytes_def bswap_from_le)

end
