(* ===== verification/Doc.thy ===== *)
theory Doc
  imports Decode
begin

text \<open>
  The parsed document as a parser builds it (\<open>backends/cpp/runtime/Capture.h\<close>, \<open>CaptureDecode.h\<close> and
  the node and builder of \<open>CaptureCow.h\<close>): what kind a node is, the span it was parsed from, the
  value it carries when that value is computed, and the builder with its open scopes, its marks and
  the decisions it is armed with. A pointer to a node is the node with its address \<open>nd_id\<close>: a node
  that is no longer an open scope is not written again, so the copy and the original agree. The open
  scopes are kept innermost first. A \<open>double\<close> is its bit pattern.
\<close>

type_synonym f64 = u64

section \<open>Kinds of values (Capture.h)\<close>

datatype ctype = UInt8 | UInt16LE | UInt16BE | UInt32LE | UInt32BE | UInt64LE | UInt64BE
  | Int8 | Int16LE | Int16BE | Int32LE | Int32BE | Int64LE | Int64BE
  | Float32LE | Float32BE | Float64LE | Float64BE
  | CBool | CBytes | CString | CStruct | CArray | CComputed | CExternal

datatype computed = CvInt i64 | CvFloat f64 | CvBool bool | CvString string

section \<open>Atoms (CaptureDecode.h)\<close>

text \<open>The bytes \<open>b[o], ..., b[o + n - 1]\<close>; \<open>None\<close> is a read outside the buffer.\<close>

definition span_at :: "nat \<Rightarrow> bytes \<Rightarrow> size_t \<Rightarrow> bytes option" where
  "span_at n b p = (if unat p + n \<le> length b then Some (slice (unat p) n b) else None)"

definition rd_u8 :: "bytes \<Rightarrow> size_t \<Rightarrow> u8 option" where
  "rd_u8 b p = map_option hd (span_at 1 b p)"

definition rd_u16le :: "bytes \<Rightarrow> size_t \<Rightarrow> u16 option" where
  "rd_u16le b p = map_option from_le (span_at 2 b p)"

definition rd_u16be :: "bytes \<Rightarrow> size_t \<Rightarrow> u16 option" where
  "rd_u16be b p = map_option (\<lambda>bs. from_le (rev bs)) (span_at 2 b p)"

definition rd_u32le :: "bytes \<Rightarrow> size_t \<Rightarrow> u32 option" where
  "rd_u32le b p = map_option from_le (span_at 4 b p)"

definition rd_u32be :: "bytes \<Rightarrow> size_t \<Rightarrow> u32 option" where
  "rd_u32be b p = map_option (\<lambda>bs. from_le (rev bs)) (span_at 4 b p)"

definition rd_u64le :: "bytes \<Rightarrow> size_t \<Rightarrow> u64 option" where
  "rd_u64le b p = map_option from_le (span_at 8 b p)"

definition rd_u64be :: "bytes \<Rightarrow> size_t \<Rightarrow> u64 option" where
  "rd_u64be b p = map_option (\<lambda>bs. from_le (rev bs)) (span_at 8 b p)"

definition is_float_type :: "ctype \<Rightarrow> bool" where
  "is_float_type t = (t = Float32LE \<or> t = Float32BE \<or> t = Float64LE \<or> t = Float64BE)"

definition is_container_type :: "ctype \<Rightarrow> bool" where
  "is_container_type t = (t = CStruct \<or> t = CArray)"

fun leaf_width :: "ctype \<Rightarrow> nat" where
  "leaf_width t =
     (if t \<in> {UInt8, Int8, CBool} then 1
      else if t \<in> {UInt16LE, UInt16BE, Int16LE, Int16BE} then 2
      else if t \<in> {UInt32LE, UInt32BE, Int32LE, Int32BE, Float32LE, Float32BE} then 4
      else if t \<in> {UInt64LE, UInt64BE, Int64LE, Int64BE, Float64LE, Float64BE} then 8
      else 0)"

definition is_signed_int_type :: "ctype \<Rightarrow> bool" where
  "is_signed_int_type t = (t \<in> {Int8, Int16LE, Int16BE, Int32LE, Int32BE, Int64LE, Int64BE})"

text \<open>The outcome of an optional read: the buffer may be left.\<close>

definition got :: "('a \<Rightarrow> 'b) \<Rightarrow> 'a option \<Rightarrow> 'b rr" where
  "got f r = (case r of Some v \<Rightarrow> Got (f v) | None \<Rightarrow> UB)"

text \<open>\<open>decode_int_at\<close>: the value as an \<open>int64_t\<close> and whether the type is signed.\<close>

fun decode_int_at :: "bytes \<Rightarrow> size_t \<Rightarrow> ctype \<Rightarrow> (i64 \<times> bool) rr" where
  "decode_int_at b p UInt8 = got (\<lambda>v. (ucast v, False)) (rd_u8 b p)"
| "decode_int_at b p CBool = got (\<lambda>v. (if v \<noteq> 0 then 1 else 0, False)) (rd_u8 b p)"
| "decode_int_at b p UInt16LE = got (\<lambda>v. (ucast v, False)) (rd_u16le b p)"
| "decode_int_at b p UInt16BE = got (\<lambda>v. (ucast v, False)) (rd_u16be b p)"
| "decode_int_at b p UInt32LE = got (\<lambda>v. (ucast v, False)) (rd_u32le b p)"
| "decode_int_at b p UInt32BE = got (\<lambda>v. (ucast v, False)) (rd_u32be b p)"
| "decode_int_at b p UInt64LE = got (\<lambda>v. (v, False)) (rd_u64le b p)"
| "decode_int_at b p UInt64BE = got (\<lambda>v. (v, False)) (rd_u64be b p)"
| "decode_int_at b p Int8 = got (\<lambda>v. (scast v, True)) (rd_u8 b p)"
| "decode_int_at b p Int16LE = got (\<lambda>v. (scast v, True)) (rd_u16le b p)"
| "decode_int_at b p Int16BE = got (\<lambda>v. (scast v, True)) (rd_u16be b p)"
| "decode_int_at b p Int32LE = got (\<lambda>v. (scast v, True)) (rd_u32le b p)"
| "decode_int_at b p Int32BE = got (\<lambda>v. (scast v, True)) (rd_u32be b p)"
| "decode_int_at b p Int64LE = got (\<lambda>v. (v, True)) (rd_u64le b p)"
| "decode_int_at b p Int64BE = got (\<lambda>v. (v, True)) (rd_u64be b p)"
| "decode_int_at b p t = Rej"

text \<open>\<open>decode_float_at\<close>; \<open>widen\<close> is the conversion of a \<open>float\<close> to a \<open>double\<close>.\<close>

fun decode_float_at :: "(u32 \<Rightarrow> f64) \<Rightarrow> bytes \<Rightarrow> size_t \<Rightarrow> ctype \<Rightarrow> f64 rr" where
  "decode_float_at widen b p Float32LE = got widen (rd_u32le b p)"
| "decode_float_at widen b p Float32BE = got widen (rd_u32be b p)"
| "decode_float_at widen b p Float64LE = got (\<lambda>v. v) (rd_u64le b p)"
| "decode_float_at widen b p Float64BE = got (\<lambda>v. v) (rd_u64be b p)"
| "decode_float_at widen b p t = Rej"

section \<open>Nodes (CaptureCow.h)\<close>

datatype enc = EFixed | EUleb | ESleb

datatype derives = DNothing | DHasCount | DHasRestSize

record bits_at =
  bt_start :: u8
  bt_end :: u8
  bt_signed :: bool
  bt_entry :: bool

record attrs =
  nd_id :: nat
  nd_name :: "string option"
  nd_type :: ctype
  nd_variant_tag :: int
  nd_start :: size_t
  nd_end :: size_t
  nd_parsed :: bool
  nd_enc :: enc
  nd_ival :: i64
  nd_fval :: f64
  nd_bval :: bytes
  nd_computed :: "computed option"
  nd_derives :: derives
  nd_determines :: "string option"
  nd_resized :: bool
  nd_bits_container :: bool
  nd_msb_first :: bool
  nd_bits :: bits_at
  nd_owner :: u64

datatype node = Node (attr: attrs) (kids: "node list")

definition no_bits :: bits_at where
  "no_bits = \<lparr>bt_start = 0, bt_end = 0, bt_signed = False, bt_entry = False\<rparr>"

text \<open>A node as its default member initializers leave it, at address \<open>i\<close>.\<close>

definition new_attrs :: "nat \<Rightarrow> attrs" where
  "new_attrs i = \<lparr>nd_id = i, nd_name = None, nd_type = UInt8, nd_variant_tag = - 1, nd_start = 0, nd_end = 0,
     nd_parsed = True, nd_enc = EFixed, nd_ival = 0, nd_fval = 0, nd_bval = [], nd_computed = None,
     nd_derives = DNothing, nd_determines = None, nd_resized = False, nd_bits_container = False,
     nd_msb_first = False, nd_bits = no_bits, nd_owner = 0\<rparr>"

definition on_attr :: "(attrs \<Rightarrow> attrs) \<Rightarrow> node \<Rightarrow> node" where
  "on_attr f n = Node (f (attr n)) (kids n)"

section \<open>The builder (CaptureCow.h)\<close>

record builder =
  b_stack :: "node list"
  b_roots :: "node list"
  b_next :: nat
  b_pending_tag :: int
  b_pending_count :: "string option"
  b_root_derives :: derives
  b_root_determines :: "string option"
  b_root_bits :: bool
  b_root_msb :: bool

text \<open>\<open>Mark\<close>: the number of open scopes, and how many fields the innermost has.\<close>

record bmark =
  mk_depth :: nat
  mk_kids :: nat

definition current :: "builder \<Rightarrow> node list" where
  "current b = (case b_stack b of [] \<Rightarrow> b_roots b | n # _ \<Rightarrow> kids n)"

definition on_current :: "(node list \<Rightarrow> node list) \<Rightarrow> builder \<Rightarrow> builder" where
  "on_current f b = (case b_stack b of
      [] \<Rightarrow> b\<lparr>b_roots := f (b_roots b)\<rparr>
    | n # ns \<Rightarrow> b\<lparr>b_stack := Node (attr n) (f (kids n)) # ns\<rparr>)"

definition b_mark :: "builder \<Rightarrow> bmark" where
  "b_mark b = \<lparr>mk_depth = length (b_stack b), mk_kids = length (current b)\<rparr>"

definition b_restore :: "bmark \<Rightarrow> builder \<Rightarrow> builder" where
  "b_restore m b =
     (let b1 = (if mk_depth m < length (b_stack b)
                then b\<lparr>b_stack := drop (length (b_stack b) - mk_depth m) (b_stack b)\<rparr> else b)
      in if mk_kids m < length (current b1) then on_current (take (mk_kids m)) b1 else b1)"

definition current_scope_start :: "builder \<Rightarrow> size_t" where
  "current_scope_start b = (case b_stack b of [] \<Rightarrow> 0 | n # _ \<Rightarrow> nd_start (attr n))"

definition attach :: "node \<Rightarrow> builder \<Rightarrow> builder" where
  "attach n = on_current (\<lambda>ns. ns @ [n])"

definition open_node :: "string option \<Rightarrow> ctype \<Rightarrow> size_t \<Rightarrow> int \<Rightarrow> builder \<Rightarrow> builder" where
  "open_node name t p tag b =
     b\<lparr>b_stack := Node ((new_attrs (b_next b))\<lparr>nd_name := name, nd_type := t, nd_start := p, nd_end := p,
         nd_variant_tag := tag\<rparr>) [] # b_stack b, b_next := b_next b + 1\<rparr>"

definition close_node :: "size_t \<Rightarrow> builder \<Rightarrow> builder" where
  "close_node p b = (case b_stack b of
      [] \<Rightarrow> b
    | n # ns \<Rightarrow> attach (on_attr (\<lambda>a. a\<lparr>nd_end := p\<rparr>) n) (b\<lparr>b_stack := ns\<rparr>))"

definition take_pending_tag :: "builder \<Rightarrow> int \<times> builder" where
  "take_pending_tag b = (b_pending_tag b, b\<lparr>b_pending_tag := - 1\<rparr>)"

definition begin_struct :: "string option \<Rightarrow> size_t \<Rightarrow> builder \<Rightarrow> builder" where
  "begin_struct name p b = (case take_pending_tag b of (tag, b1) \<Rightarrow> open_node name CStruct p tag b1)"

text \<open>A write to the innermost open scope, when there is one.\<close>

definition on_open_scope :: "(attrs \<Rightarrow> attrs) \<Rightarrow> builder \<Rightarrow> builder" where
  "on_open_scope f b = (case b_stack b of [] \<Rightarrow> b | n # ns \<Rightarrow> b\<lparr>b_stack := on_attr f n # ns\<rparr>)"

definition begin_array :: "string option \<Rightarrow> size_t \<Rightarrow> builder \<Rightarrow> builder" where
  "begin_array name p b =
     (case take_pending_tag b of (tag, b1) \<Rightarrow>
        let b2 = open_node name CArray p tag b1
        in case b_pending_count b2 of
             None \<Rightarrow> b2
           | Some cf \<Rightarrow> (on_open_scope (\<lambda>a. a\<lparr>nd_derives := DHasCount, nd_determines := Some cf\<rparr>) b2)
               \<lparr>b_pending_count := None\<rparr>)"

definition set_pending_count_field :: "string \<Rightarrow> builder \<Rightarrow> builder" where
  "set_pending_count_field path b = b\<lparr>b_pending_count := Some path\<rparr>"

definition begin_variant :: "string option \<Rightarrow> size_t \<Rightarrow> int \<Rightarrow> builder \<Rightarrow> builder" where
  "begin_variant name p tag b = open_node name CStruct p tag b"

definition end_struct :: "size_t \<Rightarrow> builder \<Rightarrow> builder" where
  "end_struct p b = close_node p b"

definition end_array :: "size_t \<Rightarrow> builder \<Rightarrow> builder" where
  "end_array p b = close_node p b"

definition root_determines :: "derives \<Rightarrow> string \<Rightarrow> builder \<Rightarrow> builder" where
  "root_determines d name b = b\<lparr>b_root_derives := d, b_root_determines := Some name\<rparr>"

definition scope_is_bits_run :: "bool \<Rightarrow> builder \<Rightarrow> builder" where
  "scope_is_bits_run msb b =
     (if b_stack b \<noteq> [] then on_open_scope (\<lambda>a. a\<lparr>nd_bits_container := True, nd_msb_first := msb\<rparr>) b
      else b\<lparr>b_root_bits := True, b_root_msb := msb\<rparr>)"

definition scope_determines_rest :: "string \<Rightarrow> builder \<Rightarrow> builder" where
  "scope_determines_rest size_field b =
     (if b_stack b \<noteq> []
      then on_open_scope (\<lambda>a. a\<lparr>nd_derives := DHasRestSize, nd_determines := Some size_field\<rparr>) b
      else root_determines DHasRestSize size_field b)"

definition set_pending_variant_tag :: "int \<Rightarrow> builder \<Rightarrow> builder" where
  "set_pending_variant_tag tag b = b\<lparr>b_pending_tag := tag\<rparr>"

definition add_field :: "string option \<Rightarrow> size_t \<Rightarrow> size_t \<Rightarrow> ctype \<Rightarrow> computed option \<Rightarrow> builder \<Rightarrow> builder" where
  "add_field name s e t v b =
     (case take_pending_tag b of (tag, b1) \<Rightarrow>
        attach (Node ((new_attrs (b_next b1))\<lparr>nd_name := name, nd_type := t, nd_start := s, nd_end := e,
            nd_computed := v, nd_variant_tag := tag\<rparr>) []) (b1\<lparr>b_next := b_next b1 + 1\<rparr>))"

text \<open>A write through the pointer \<open>add_field\<close> returned: the last field of the current scope.\<close>

definition on_last :: "(attrs \<Rightarrow> attrs) \<Rightarrow> builder \<Rightarrow> builder" where
  "on_last f = on_current (\<lambda>ns. if ns = [] then [] else butlast ns @ [on_attr f (last ns)])"

definition make_free :: "builder \<Rightarrow> node \<times> builder" where
  "make_free b = (Node (new_attrs (b_next b)) [], b\<lparr>b_next := b_next b + 1\<rparr>)"

text \<open>Names are interned, so comparing pointers is comparing strings; a null name matches nothing.\<close>

definition same_name :: "string option \<Rightarrow> string \<Rightarrow> bool" where
  "same_name a name = (a = Some name)"

text \<open>\<open>lookup\<close>: the open scopes outward, each scanned backward, then the top level.\<close>

definition last_named :: "string \<Rightarrow> node list \<Rightarrow> node option" where
  "last_named name ns = find (\<lambda>n. same_name (nd_name (attr n)) name) (rev ns)"

fun lookup_scopes :: "string \<Rightarrow> node list \<Rightarrow> node list \<Rightarrow> node option" where
  "lookup_scopes name [] roots = last_named name roots"
| "lookup_scopes name (s # ss) roots =
     (case last_named name (kids s) of Some n \<Rightarrow> Some n | None \<Rightarrow> lookup_scopes name ss roots)"

definition find_field :: "string \<Rightarrow> builder \<Rightarrow> node option" where
  "find_field name b = lookup_scopes name (b_stack b) (b_roots b)"

definition find_child :: "node \<Rightarrow> string \<Rightarrow> node option" where
  "find_child parent name = find (\<lambda>n. same_name (nd_name (attr n)) name) (kids parent)"

definition find_child_at :: "node \<Rightarrow> int \<Rightarrow> node option" where
  "find_child_at parent i =
     (if i < 0 \<or> length (kids parent) \<le> nat i then None else Some (kids parent ! nat i))"

text \<open>What a parse produced.\<close>

record parse_result =
  pr_root :: "node option"
  pr_success :: bool
  pr_consumed :: size_t
  pr_message :: "string option"
  pr_error_offset :: size_t

definition b_finish :: "bool \<Rightarrow> size_t \<Rightarrow> string option \<Rightarrow> size_t \<Rightarrow> builder \<Rightarrow> parse_result" where
  "b_finish ok consumed msg eoff b =
     \<lparr>pr_root = (if \<not> ok \<or> b_roots b = [] then None
        else Some (Node ((new_attrs (b_next b))\<lparr>nd_type := CStruct, nd_start := 0, nd_end := consumed,
          nd_derives := b_root_derives b, nd_determines := b_root_determines b,
          nd_bits_container := b_root_bits b, nd_msb_first := b_root_msb b\<rparr>) (b_roots b))),
      pr_success = ok, pr_consumed = consumed, pr_message = msg, pr_error_offset = eoff\<rparr>"

definition b_clear :: "builder \<Rightarrow> builder" where
  "b_clear b = \<lparr>b_stack = [], b_roots = [], b_next = b_next b, b_pending_tag = - 1, b_pending_count = None,
     b_root_derives = DNothing, b_root_determines = None, b_root_bits = False, b_root_msb = False\<rparr>"

end
