(* ===== verification/CekTypes.thy ===== *)
theory CekTypes
  imports Doc
begin

text \<open>
  The data of the CEK machine (\<open>backends/cek/KontNode.h\<close>, \<open>Environment.h\<close>, \<open>Frame.h\<close>, \<open>Machine.h\<close>).
  A grammar is compiled to a graph of static konts; an edge of the graph is a number \<open>kid\<close> and the
  graph is the function \<open>d_prog\<close>. Konts made while parsing are values on the kont stack, except that
  the two of them that share a slot (an apply and the kont that evaluates its left operand) name it
  by its address in \<open>m_slots\<close>, the machine's arena of value pointers. The konts of one macro
  (\<open>DEFINE_BINOP_KONT\<close> and its kind) are one constructor with the operator as an argument, and fields no
  \<open>invoke\<close> reads (a rule's name, a reference's resolved parent) are left out. A float literal is a
  32-bit \<open>float\<close>, as \<open>FloatLitKont\<close> declares it.
\<close>

section \<open>Primitives and values (KontNode.h)\<close>

datatype prim_width = W8 | W16 | W32 | W64
datatype prim_endian = PLittle | PBig | PNative
datatype prim_kind = KInteger | KFloat | KBool
datatype prim_encoding = Fixed | Uleb | Sleb

record prim_info =
  p_kind :: prim_kind
  p_width :: prim_width
  p_signed :: bool
  p_endian :: prim_endian
  p_encoding :: prim_encoding

definition byte_count :: "prim_info \<Rightarrow> nat" where
  "byte_count p = (case p_kind p of
      KBool \<Rightarrow> 1
    | KFloat \<Rightarrow> (if p_width p = W64 then 8 else 4)
    | KInteger \<Rightarrow> (case p_width p of W8 \<Rightarrow> 1 | W16 \<Rightarrow> 2 | W32 \<Rightarrow> 4 | W64 \<Rightarrow> 8))"

datatype val = IntV i64 | FloatV f64 | StringV string | BoolV bool | CaptureV node

fun val_tag :: "val \<Rightarrow> nat" where
  "val_tag (IntV _) = 0"
| "val_tag (FloatV _) = 1"
| "val_tag (StringV _) = 2"
| "val_tag (BoolV _) = 3"
| "val_tag (CaptureV _) = 4"

section \<open>Static konts (KontNode.h)\<close>

type_synonym kid = nat

datatype array_mode = FixedCount | EofMode | CountMode | UntilMode

datatype binop = Add | Sub | Mul | Div | Mod | BitAnd | BitOr | BitXor | Shl | Shr
  | Eq | Ne | Lt | Le | Gt | Ge

datatype unop = Neg | BitNot | Not

record switch_case =
  sc_match :: "val option"
  sc_target :: kid
  sc_ordinal :: int

text \<open>Expressions.\<close>

datatype ekont = IntLit i64 | BoolLit bool | FloatLit u32 | StrLit string
  | Ref string "string option" | PosK | RemainingK | EOIK | LoopVarK | BufferK | StartK | EndK
  | UnK unop kid | BinK binop kid kid | LAndK kid kid | LOrK kid kid | TernaryK kid kid kid
  | CallK string "kid list" | PathStart string | FieldAccess kid string | IndexAccess kid kid
  | CaptureValue kid

text \<open>The spine.\<close>

datatype skont =
    MatchPrimitive prim_info kid
  | Capture "string option" kid
  | StoreEnv string kid
  | BeginStruct "string option" kid
  | BeginVariant "string option" int kid
  | EndStruct kid
  | SeekK kid kid
  | PushInterval kid bool kid
  | PopInterval bool kid
  | EvalConstraint kid "kid option" kid
  | BindCompute kid kid
  | InvokeRule kid "kid option" kid
  | ReturnRule kid
  | OnFail "kid option" "kid option" bool
  | AbortRule
  | BeginChoice "kid option" kid
  | CommitChoice kid
  | BeginOptional "kid option" kid kid
  | EndOptional kid
  | BeginArray "string option" array_mode kid kid kid "kid option" kid
  | ArrayNext array_mode kid kid kid kid bool
  | EndArray bool kid
  | Resync kid kid
  | SwitchDispatch kid "switch_case list" "kid option" bool
  | ExtractBits prim_info int int bool kid
  | AdvancePos int kid
  | SetEndian kid kid
  | ExternalCall string kid
  | MatchBytes kid bool kid
  | Halt

datatype kont = E ekont | S skont

section \<open>Dynamic konts (KontNode.h)\<close>

datatype dkont =
    ApplyBin binop nat
  | ApplyUn unop
  | EvalLeft nat kid
  | AndCheck kid
  | OrCheck kid
  | Normalize
  | TernaryDispatch kid kid
  | ArgStore nat nat
  | CallApply string nat nat
  | FieldAccessApply string
  | IndexAccessApply nat
  | CaptureValueApply
  | ConstraintCheck "kid option" kid
  | SwitchSelect "switch_case list" "kid option" bool
  | BindStore kid
  | BeginArrayWithLimit "string option" kid "kid option" kid
  | ArrayCountCheck kid kid
  | ArrayUntilCheck kid kid
  | MatchBytesApply bool kid
  | SetEndianApply kid
  | SeekApply kid
  | PushIntervalApply bool kid

datatype kitem = Static kid | Dyn dkont

section \<open>Environment and frames (Environment.h, Frame.h)\<close>

record binding =
  bd_name :: string
  bd_value :: "val option"
  bd_start :: size_t
  bd_end :: size_t
  bd_type :: ctype

type_synonym env = "binding list"

definition env_lookup :: "env \<Rightarrow> string \<Rightarrow> binding option" where
  "env_lookup en name = find (\<lambda>b. bd_name b = name) en"

record return_frame =
  rf_return_to :: kid
  rf_env :: env
  rf_start :: size_t
  rf_mark :: bmark
  rf_fail_target :: "kid option"

record savepoint =
  sp_env :: env
  sp_pos :: size_t
  sp_le :: bool
  sp_ksize :: nat
  sp_idepth :: nat
  sp_mark :: bmark
  sp_on_fail :: "kid option"

record loop_frame =
  lf_counter :: i64
  lf_limit :: i64
  lf_end :: kid
  lf_outer_env :: env
  lf_outer_le :: bool
  lf_env :: env
  lf_pos :: size_t
  lf_le :: bool
  lf_mark :: bmark

datatype frame = FReturn return_frame | FSave savepoint | FLoop loop_frame

section \<open>What the machine is given\<close>

text \<open>The arithmetic of \<open>double\<close> the machine uses.\<close>

record floats =
  f_add :: "f64 \<Rightarrow> f64 \<Rightarrow> f64"
  f_sub :: "f64 \<Rightarrow> f64 \<Rightarrow> f64"
  f_mul :: "f64 \<Rightarrow> f64 \<Rightarrow> f64"
  f_div :: "f64 \<Rightarrow> f64 \<Rightarrow> f64"
  f_eq :: "f64 \<Rightarrow> f64 \<Rightarrow> bool"
  f_lt :: "f64 \<Rightarrow> f64 \<Rightarrow> bool"
  f_le :: "f64 \<Rightarrow> f64 \<Rightarrow> bool"
  f_of_int :: "i64 \<Rightarrow> f64"
  f_widen :: "u32 \<Rightarrow> f64"
  f_to_int :: "f64 \<Rightarrow> i64 option"

datatype bfn = BAbs | BMin | BMax | BClamp | BPeek

type_synonym ext_parser = "bytes \<Rightarrow> (bool \<times> size_t)"

record deps =
  d_prog :: "kid \<Rightarrow> kont"
  d_fl :: floats
  d_ext :: "(string \<times> ext_parser) list option"
  d_builtins :: "(string \<times> nat \<times> bfn) list option"
  d_host_le :: bool

definition ext_lookup :: "(string \<times> ext_parser) list \<Rightarrow> string \<Rightarrow> ext_parser option" where
  "ext_lookup t name = map_of t name"

definition builtin_lookup :: "(string \<times> nat \<times> bfn) list \<Rightarrow> string \<Rightarrow> nat \<Rightarrow> bfn option" where
  "builtin_lookup t name arity =
     map_option (\<lambda>(_, _, f). f) (find (\<lambda>(n, a, _). n = name \<and> a = arity) t)"

section \<open>The machine (Machine.h)\<close>

record machine =
  m_env :: env
  m_frames :: "frame list"
  m_result :: "val option"
  m_input :: bytes
  m_len :: size_t
  m_pos :: size_t
  m_starts :: "size_t list"
  m_ends :: "size_t list"
  m_idepth :: nat
  m_le :: bool
  m_builder :: builder
  m_failed :: bool
  m_best_pos :: size_t
  m_best_msg :: "string option"
  m_slots :: "val option list"
  m_k :: "kitem list"

text \<open>A transition; \<open>None\<close> is undefined behaviour: a read outside the input or a vector, a signed
  overflow, a bad shift, a null pointer.\<close>

type_synonym act = "machine \<Rightarrow> machine option"

definition m_effective_start :: "machine \<Rightarrow> size_t option" where
  "m_effective_start m = (if 0 < m_idepth m then
      (if m_idepth m \<le> length (m_starts m) then Some (m_starts m ! (m_idepth m - 1)) else None) else Some 0)"

definition m_effective_end :: "machine \<Rightarrow> size_t option" where
  "m_effective_end m = (if 0 < m_idepth m then
      (if m_idepth m \<le> length (m_ends m) then Some (m_ends m ! (m_idepth m - 1)) else None) else Some (m_len m))"

definition push_kont :: "kitem \<Rightarrow> machine \<Rightarrow> machine" where
  "push_kont k m = m\<lparr>m_k := k # m_k m\<rparr>"

text \<open>\<open>resize\<close> to a size above the current one would add null pointers.\<close>

definition truncate_k :: "nat \<Rightarrow> act" where
  "truncate_k n m = (if n \<le> length (m_k m) then Some (m\<lparr>m_k := drop (length (m_k m) - n) (m_k m)\<rparr>) else None)"

definition set_res :: "val option \<Rightarrow> machine \<Rightarrow> machine" where
  "set_res v m = m\<lparr>m_result := v\<rparr>"

section \<open>Failing (Machine.cpp)\<close>

text \<open>\<open>CEKMachine::fail\<close>: the frames down to the innermost savepoint that has somewhere to go are
  popped, and its target is pushed.\<close>

fun unwind :: "frame list \<Rightarrow> (kid \<times> frame list) option" where
  "unwind [] = None"
| "unwind (FSave sp # fs) = (case sp_on_fail sp of Some t \<Rightarrow> Some (t, FSave sp # fs) | None \<Rightarrow> unwind fs)"
| "unwind (FReturn r # fs) = unwind fs"
| "unwind (FLoop l # fs) = unwind fs"

definition m_fail :: "string \<Rightarrow> machine \<Rightarrow> machine" where
  "m_fail msg m =
     (let m1 = (if m_best_pos m \<le> m_pos m then m\<lparr>m_best_pos := m_pos m, m_best_msg := Some msg\<rparr> else m)
      in case unwind (m_frames m1) of
           Some (t, fs) \<Rightarrow> push_kont (Static t) (m1\<lparr>m_frames := fs\<rparr>)
         | None \<Rightarrow> m1\<lparr>m_frames := [], m_failed := True\<rparr>)"

definition failing :: "string \<Rightarrow> act" where
  "failing msg m = Some (m_fail msg m)"

end
