(* ===== verification/CekExpr.thy ===== *)
theory CekExpr
  imports CekTypes "HOL-Library.Signed_Division"
begin

text \<open>
  The expression half of the CEK machine (\<open>backends/cek/Machine.cpp\<close>): reading primitives, the konts
  that produce values, the two-phase binary operators (push the apply, the kont that saves the right
  operand, the right operand), the logical and ternary konts, calls and the built-in functions, and
  the paths into the captures built so far. A definition \<open>X_invoke\<close> is the body of \<open>X::invoke\<close>.
  Signed overflow, a shift C++17 leaves undefined and a read outside the input are \<open>None\<close>.
\<close>

section \<open>Values at the boundary\<close>

definition lower_computed :: "val option \<Rightarrow> computed" where
  "lower_computed v = (case v of
      None \<Rightarrow> CvInt 0
    | Some (IntV i) \<Rightarrow> CvInt i
    | Some (FloatV f) \<Rightarrow> CvFloat f
    | Some (BoolV b) \<Rightarrow> CvBool b
    | Some (StringV s) \<Rightarrow> CvString s
    | Some (CaptureV _) \<Rightarrow> CvInt 0)"

definition lift_computed :: "computed option \<Rightarrow> val option" where
  "lift_computed cv = (case cv of
      None \<Rightarrow> None
    | Some (CvInt i) \<Rightarrow> Some (IntV i)
    | Some (CvFloat f) \<Rightarrow> Some (FloatV f)
    | Some (CvBool b) \<Rightarrow> Some (BoolV b)
    | Some (CvString s) \<Rightarrow> Some (StringV s))"

section \<open>Primitives\<close>

definition wants_le :: "prim_info \<Rightarrow> bool \<Rightarrow> bool" where
  "wants_le p le = (if p_endian p = PNative then le else p_endian p = PLittle)"

text \<open>A word of \<open>memcpy\<close>ed bytes, swapped when the order asked for is not the host's.\<close>

definition load16 :: "bool \<Rightarrow> bool \<Rightarrow> bytes \<Rightarrow> u16" where
  "load16 host want bs = (let v = load_int host bs in if want \<noteq> host then bswap16 v else v)"

definition load32 :: "bool \<Rightarrow> bool \<Rightarrow> bytes \<Rightarrow> u32" where
  "load32 host want bs = (let v = load_int host bs in if want \<noteq> host then bswap32 v else v)"

definition load64 :: "bool \<Rightarrow> bool \<Rightarrow> bytes \<Rightarrow> u64" where
  "load64 host want bs = (let v = load_int host bs in if want \<noteq> host then bswap64 v else v)"

definition read_primitive :: "deps \<Rightarrow> bytes \<Rightarrow> size_t \<Rightarrow> prim_info \<Rightarrow> bool \<Rightarrow> i64 option" where
  "read_primitive d data p prim le =
     (if p_kind prim = KBool then map_option (\<lambda>bs. if hd bs \<noteq> 0 then 1 else 0) (span_at 1 data p)
      else let want = wants_le prim le; h = d_host_le d
      in if p_kind prim = KFloat then
           (if p_width prim = W32
            then Option.bind (span_at 4 data p) (\<lambda>bs. f_to_int (d_fl d) (f_widen (d_fl d) (load32 h want bs)))
            else Option.bind (span_at 8 data p) (\<lambda>bs. f_to_int (d_fl d) (load64 h want bs)))
         else (case p_width prim of
             W8 \<Rightarrow> map_option (\<lambda>bs. if p_signed prim then scast (hd bs) else ucast (hd bs)) (span_at 1 data p)
           | W16 \<Rightarrow> map_option (\<lambda>bs. let v = load16 h want bs in if p_signed prim then scast v else ucast v)
               (span_at 2 data p)
           | W32 \<Rightarrow> map_option (\<lambda>bs. let v = load32 h want bs in if p_signed prim then scast v else ucast v)
               (span_at 4 data p)
           | W64 \<Rightarrow> map_option (load64 h want) (span_at 8 data p)))"

definition primitive_capture_type :: "prim_info \<Rightarrow> bool \<Rightarrow> ctype" where
  "primitive_capture_type prim le =
     (let want = wants_le prim le
      in case p_kind prim of
           KBool \<Rightarrow> CBool
         | KFloat \<Rightarrow> (if p_width prim = W32 then (if want then Float32LE else Float32BE)
             else (if want then Float64LE else Float64BE))
         | KInteger \<Rightarrow>
             (if p_signed prim then (case p_width prim of
                 W8 \<Rightarrow> Int8
               | W16 \<Rightarrow> (if want then Int16LE else Int16BE)
               | W32 \<Rightarrow> (if want then Int32LE else Int32BE)
               | W64 \<Rightarrow> (if want then Int64LE else Int64BE))
              else (case p_width prim of
                 W8 \<Rightarrow> UInt8
               | W16 \<Rightarrow> (if want then UInt16LE else UInt16BE)
               | W32 \<Rightarrow> (if want then UInt32LE else UInt32BE)
               | W64 \<Rightarrow> (if want then UInt64LE else UInt64BE))))"

definition read_primitive_as_value :: "deps \<Rightarrow> machine \<Rightarrow> prim_info \<Rightarrow> val option" where
  "read_primitive_as_value d m prim =
     (case p_kind prim of
        KBool \<Rightarrow> map_option (\<lambda>bs. BoolV (hd bs \<noteq> 0)) (span_at 1 (m_input m) (m_pos m))
      | KFloat \<Rightarrow>
          (let want = wants_le prim (m_le m); h = d_host_le d
           in if p_width prim = W32
              then map_option (\<lambda>bs. FloatV (f_widen (d_fl d) (load32 h want bs))) (span_at 4 (m_input m) (m_pos m))
              else map_option (\<lambda>bs. FloatV (load64 h want bs)) (span_at 8 (m_input m) (m_pos m)))
      | KInteger \<Rightarrow> map_option IntV (read_primitive d (m_input m) (m_pos m) prim (m_le m)))"

text \<open>The loop of \<open>decode_uleb128\<close> at byte \<open>i\<close>: the value and the bytes consumed.\<close>

function uleb_scan :: "bytes \<Rightarrow> size_t \<Rightarrow> size_t \<Rightarrow> nat \<Rightarrow> nat \<Rightarrow> nat \<Rightarrow> u64 \<Rightarrow> (u64 \<times> nat) rr" where
  "uleb_scan data p len bits i shift result =
     (if i < (bits + 6) div 7 then
        (if len \<le> p + word_of_nat i then Rej
         else case span_at 1 data (p + word_of_nat i) of
           None \<Rightarrow> UB
         | Some bs \<Rightarrow>
            let byte = hd bs
            in if i = (bits + 6) div 7 - 1 \<and> byte AND 0x80 \<noteq> 0 then Rej
            else if i = (bits + 6) div 7 - 1 \<and> bits - shift < 7 \<and> drop_bit (bits - shift) byte \<noteq> 0 then Rej
            else let result1 = result OR push_bit shift (ucast (byte AND 0x7f))
            in if byte AND 0x80 = 0 then Got (result1, i + 1)
               else uleb_scan data p len bits (Suc i) (shift + 7) result1)
      else Rej)"
  by pat_completeness auto
termination
  by (relation "measure (\<lambda>(data, p, len, bits, i, shift, result). (bits + 6) div 7 - i)") auto

declare uleb_scan.simps [simp del]

definition decode_uleb128 :: "bytes \<Rightarrow> size_t \<Rightarrow> size_t \<Rightarrow> nat \<Rightarrow> (u64 \<times> nat) rr" where
  "decode_uleb128 data p len bits = uleb_scan data p len bits 0 0 0"

function sleb_scan :: "bytes \<Rightarrow> size_t \<Rightarrow> size_t \<Rightarrow> nat \<Rightarrow> nat \<Rightarrow> nat \<Rightarrow> u64 \<Rightarrow> (u64 \<times> nat) rr" where
  "sleb_scan data p len bits i shift result =
     (if i < (bits + 6) div 7 then
        (if len \<le> p + word_of_nat i then Rej
         else case span_at 1 data (p + word_of_nat i) of
           None \<Rightarrow> UB
         | Some bs \<Rightarrow>
            let byte = hd bs;
                avail = bits - shift;
                low_mask = (drop_bit (7 - avail) 0x7f :: u8);
                hi = (byte AND 0x7f) AND NOT low_mask;
                expect = (if byte AND push_bit (avail - 1) 1 \<noteq> 0 then 0x7f AND NOT low_mask else 0)
            in if i = (bits + 6) div 7 - 1 \<and> byte AND 0x80 \<noteq> 0 then Rej
            else if i = (bits + 6) div 7 - 1 \<and> hi \<noteq> expect then Rej
            else let result1 = result OR push_bit shift (ucast (byte AND 0x7f)); shift1 = shift + 7
            in if byte AND 0x80 = 0
               then Got (if shift1 < 64 \<and> byte AND 0x40 \<noteq> 0 then result1 OR push_bit shift1 (NOT 0) else result1, i + 1)
               else sleb_scan data p len bits (Suc i) shift1 result1)
      else Rej)"
  by pat_completeness auto
termination
  by (relation "measure (\<lambda>(data, p, len, bits, i, shift, result). (bits + 6) div 7 - i)") auto

declare sleb_scan.simps [simp del]

definition decode_sleb128 :: "bytes \<Rightarrow> size_t \<Rightarrow> size_t \<Rightarrow> nat \<Rightarrow> (u64 \<times> nat) rr" where
  "decode_sleb128 data p len bits = sleb_scan data p len bits 0 0 0"

section \<open>The accumulator\<close>

definition ac :: "val \<Rightarrow> act" where
  "ac v m = Some (set_res (Some v) m)"

definition pushing :: "kitem list \<Rightarrow> act" where
  "pushing ks m = Some (fold push_kont ks m)"

text \<open>An operand slot in the arena.\<close>

definition slot :: "nat \<Rightarrow> machine \<Rightarrow> val option option" where
  "slot s m = (if s < length (m_slots m) then Some (m_slots m ! s) else None)"

definition set_slot :: "nat \<Rightarrow> val option \<Rightarrow> act" where
  "set_slot s v m = (if s < length (m_slots m) then Some (m\<lparr>m_slots := (m_slots m)[s := v]\<rparr>) else None)"

definition new_slots :: "nat \<Rightarrow> machine \<Rightarrow> nat \<times> machine" where
  "new_slots n m = (length (m_slots m), m\<lparr>m_slots := m_slots m @ replicate n None\<rparr>)"

section \<open>Leaves\<close>

definition IntLitKont_invoke :: "i64 \<Rightarrow> act" where
  "IntLitKont_invoke v = ac (IntV v)"

definition BoolLitKont_invoke :: "bool \<Rightarrow> act" where
  "BoolLitKont_invoke v = ac (BoolV v)"

definition FloatLitKont_invoke :: "floats \<Rightarrow> u32 \<Rightarrow> act" where
  "FloatLitKont_invoke fl v = ac (FloatV (f_widen fl v))"

definition StrLitKont_invoke :: "string \<Rightarrow> act" where
  "StrLitKont_invoke v = ac (StringV v)"

definition RefKont_invoke :: "string \<Rightarrow> act" where
  "RefKont_invoke name m =
     (if m_env m = [] then failing ''undefined reference (env empty)'' m
      else case env_lookup (m_env m) name of
          None \<Rightarrow> failing ''undefined reference'' m
        | Some b \<Rightarrow> Some (set_res (bd_value b) m))"

definition PosKont_invoke :: act where
  "PosKont_invoke m = ac (IntV (m_pos m)) m"

definition RemainingKont_invoke :: act where
  "RemainingKont_invoke m = (case m_effective_end m of None \<Rightarrow> None | Some e \<Rightarrow> ac (IntV (e - m_pos m)) m)"

definition EOIKont_invoke :: act where
  "EOIKont_invoke m = ac (IntV (m_len m)) m"

text \<open>A producer's node: \<open>make_free\<close>, then its fields.\<close>

definition carrier :: "(attrs \<Rightarrow> attrs) \<Rightarrow> machine \<Rightarrow> machine" where
  "carrier f m = (case make_free (m_builder m) of
      (n, b) \<Rightarrow> set_res (Some (CaptureV (on_attr f n))) (m\<lparr>m_builder := b\<rparr>))"

definition BufferKont_invoke :: act where
  "BufferKont_invoke m = Some (carrier (\<lambda>a. a\<lparr>nd_start := current_scope_start (m_builder m),
      nd_end := m_pos m, nd_type := CBytes\<rparr>) m)"

definition StartKont_invoke :: act where
  "StartKont_invoke m = ac (IntV (current_scope_start (m_builder m))) m"

definition EndKont_invoke :: act where
  "EndKont_invoke m = (case m_effective_end m of None \<Rightarrow> None | Some e \<Rightarrow> ac (IntV e) m)"

fun first_loop :: "frame list \<Rightarrow> loop_frame option" where
  "first_loop [] = None"
| "first_loop (FLoop l # fs) = Some l"
| "first_loop (FSave s # fs) = first_loop fs"
| "first_loop (FReturn r # fs) = first_loop fs"

definition LoopVarKont_invoke :: act where
  "LoopVarKont_invoke m = (case first_loop (m_frames m) of
      Some l \<Rightarrow> ac (IntV (lf_counter l)) m | None \<Rightarrow> failing ''loop variable used outside array'' m)"

section \<open>Binary operators\<close>

text \<open>\<open>DEFINE_BINOP_KONT\<close> and \<open>IndexAccessKont\<close> push, from the top: the right operand, the kont that saves
  it and goes on to the left, the apply.\<close>

definition two_phase :: "(nat \<Rightarrow> dkont) \<Rightarrow> kid \<Rightarrow> kid \<Rightarrow> act" where
  "two_phase apply_k left right m = (case new_slots 1 m of
      (s, m1) \<Rightarrow> pushing [Dyn (apply_k s), Dyn (EvalLeft s left), Static right] m1)"

definition BinopKont_invoke :: "binop \<Rightarrow> kid \<Rightarrow> kid \<Rightarrow> act" where
  "BinopKont_invoke op left right = two_phase (ApplyBin op) left right"

definition EvalLeftKont_invoke :: "nat \<Rightarrow> kid \<Rightarrow> act" where
  "EvalLeftKont_invoke s left m = Option.bind (set_slot s (m_result m) m) (pushing [Static left])"

definition is_num :: "val \<Rightarrow> bool" where
  "is_num v = (val_tag v = 0 \<or> val_tag v = 1)"

definition as_double :: "floats \<Rightarrow> val \<Rightarrow> f64" where
  "as_double fl v = (case v of FloatV x \<Rightarrow> x | IntV i \<Rightarrow> f_of_int fl i | _ \<Rightarrow> 0)"

text \<open>A result of \<open>int64_t\<close> arithmetic: outside the type it is undefined.\<close>

definition i64_result :: "int \<Rightarrow> i64 option" where
  "i64_result x = (if - (2 ^ 63) \<le> x \<and> x < 2 ^ 63 then Some (word_of_int x) else None)"

definition ac_int :: "int \<Rightarrow> act" where
  "ac_int x m = (case i64_result x of None \<Rightarrow> None | Some v \<Rightarrow> ac (IntV v) m)"

text \<open>\<open>DEFINE_ARITH_APPLY\<close>.\<close>

definition arith_apply :: "string \<Rightarrow> (int \<Rightarrow> int \<Rightarrow> int) \<Rightarrow> (f64 \<Rightarrow> f64 \<Rightarrow> f64) \<Rightarrow> floats \<Rightarrow> val option \<Rightarrow> act" where
  "arith_apply op_str int_op float_op fl rhs m =
     (case (m_result m, rhs) of
        (Some (IntV a), Some (IntV b)) \<Rightarrow> ac_int (int_op (sint a) (sint b)) m
      | (Some l, Some r) \<Rightarrow>
          (if is_num l \<and> is_num r then ac (FloatV (float_op (as_double fl l) (as_double fl r))) m
           else failing (''type error: '' @ op_str) m)
      | _ \<Rightarrow> failing (''type error: '' @ op_str) m)"

definition ApplyDivKont_invoke :: "floats \<Rightarrow> val option \<Rightarrow> act" where
  "ApplyDivKont_invoke fl rhs m =
     (case (m_result m, rhs) of
        (Some (IntV a), Some (IntV b)) \<Rightarrow>
          (if b = 0 then failing ''division by zero'' m else ac_int (sint a sdiv sint b) m)
      | (Some l, Some r) \<Rightarrow>
          (if is_num l \<and> is_num r then ac (FloatV (f_div fl (as_double fl l) (as_double fl r))) m
           else failing ''type error: /'' m)
      | _ \<Rightarrow> failing ''type error: /'' m)"

text \<open>\<open>INT64_MIN % -1\<close> is undefined with its quotient.\<close>

definition ApplyModKont_invoke :: "val option \<Rightarrow> act" where
  "ApplyModKont_invoke rhs m =
     (case (m_result m, rhs) of
        (Some (IntV a), Some (IntV b)) \<Rightarrow>
          (if b = 0 then failing ''division by zero'' m
           else if i64_result (sint a sdiv sint b) = None then None else ac_int (sint a smod sint b) m)
      | _ \<Rightarrow> failing ''type error: %'' m)"

text \<open>\<open>DEFINE_BITWISE_APPLY\<close>; a shift by a negative count or by 64 and more, and a left shift of a
  negative value or out of the unsigned type, are undefined.\<close>

definition bitwise_apply :: "string \<Rightarrow> (i64 \<Rightarrow> i64 \<Rightarrow> i64 option) \<Rightarrow> val option \<Rightarrow> act" where
  "bitwise_apply op_str int_op rhs m =
     (case (m_result m, rhs) of
        (Some (IntV a), Some (IntV b)) \<Rightarrow> (case int_op a b of None \<Rightarrow> None | Some v \<Rightarrow> ac (IntV v) m)
      | _ \<Rightarrow> failing (''type error: '' @ op_str) m)"

definition shl_i64 :: "i64 \<Rightarrow> i64 \<Rightarrow> i64 option" where
  "shl_i64 a b = (if 0 \<le> sint b \<and> sint b < 64 \<and> 0 \<le> sint a \<and> sint a * 2 ^ nat (sint b) < 2 ^ 64
     then Some (push_bit (nat (sint b)) a) else None)"

definition shr_i64 :: "i64 \<Rightarrow> i64 \<Rightarrow> i64 option" where
  "shr_i64 a b = (if 0 \<le> sint b \<and> sint b < 64 then Some (signed_drop_bit (nat (sint b)) a) else None)"

text \<open>The \<open>switch\<close> of \<open>ApplyEqKont\<close> on operands of one tag; captures are compared by address.\<close>

definition same_tag_eq :: "floats \<Rightarrow> val \<Rightarrow> val \<Rightarrow> bool" where
  "same_tag_eq fl l r = (case (l, r) of
      (IntV a, IntV b) \<Rightarrow> a = b
    | (FloatV a, FloatV b) \<Rightarrow> f_eq fl a b
    | (StringV a, StringV b) \<Rightarrow> a = b
    | (BoolV a, BoolV b) \<Rightarrow> a = b
    | (CaptureV a, CaptureV b) \<Rightarrow> nd_id (attr a) = nd_id (attr b)
    | _ \<Rightarrow> False)"

definition ApplyEqKont_invoke :: "floats \<Rightarrow> val option \<Rightarrow> act" where
  "ApplyEqKont_invoke fl rhs m =
     (case (m_result m, rhs) of
        (Some l, Some r) \<Rightarrow>
          (if val_tag l \<noteq> val_tag r then
             (if is_num l \<and> is_num r then ac (BoolV (f_eq fl (as_double fl l) (as_double fl r))) m
              else ac (BoolV False) m)
           else ac (BoolV (same_tag_eq fl l r)) m)
      | _ \<Rightarrow> failing ''type error: =='' m)"

definition ApplyNeKont_invoke :: "floats \<Rightarrow> val option \<Rightarrow> act" where
  "ApplyNeKont_invoke fl rhs m =
     (case (m_result m, rhs) of
        (Some l, Some r) \<Rightarrow>
          (if val_tag l \<noteq> val_tag r then
             (if is_num l \<and> is_num r then ac (BoolV (\<not> f_eq fl (as_double fl l) (as_double fl r))) m
              else ac (BoolV True) m)
           else ac (BoolV (\<not> same_tag_eq fl l r)) m)
      | _ \<Rightarrow> failing ''type error: !='' m)"

text \<open>\<open>strcmp\<close>, its sign.\<close>

fun strcmp :: "string \<Rightarrow> string \<Rightarrow> int" where
  "strcmp [] [] = 0"
| "strcmp [] (y # ys) = - 1"
| "strcmp (x # xs) [] = 1"
| "strcmp (x # xs) (y # ys) = (if x = y then strcmp xs ys
     else if (of_char x :: nat) < of_char y then - 1 else 1)"

text \<open>\<open>DEFINE_ORDERED_APPLY\<close>: the operator on integers and on floats.\<close>

definition ordered_apply :: "string \<Rightarrow> (int \<Rightarrow> int \<Rightarrow> bool) \<Rightarrow> (f64 \<Rightarrow> f64 \<Rightarrow> bool) \<Rightarrow> floats \<Rightarrow> val option \<Rightarrow> act" where
  "ordered_apply op_str int_op float_op fl rhs m =
     (case (m_result m, rhs) of
        (Some l, Some r) \<Rightarrow>
          (if val_tag l \<noteq> val_tag r then
             (if is_num l \<and> is_num r then ac (BoolV (float_op (as_double fl l) (as_double fl r))) m
              else failing (''type error: '' @ op_str) m)
           else (case (l, r) of
               (IntV a, IntV b) \<Rightarrow> ac (BoolV (int_op (sint a) (sint b))) m
             | (FloatV a, FloatV b) \<Rightarrow> ac (BoolV (float_op a b)) m
             | (StringV a, StringV b) \<Rightarrow> ac (BoolV (int_op (strcmp a b) 0)) m
             | _ \<Rightarrow> failing (''type error: '' @ op_str) m))
      | _ \<Rightarrow> failing (''type error: '' @ op_str) m)"

definition apply_binop :: "floats \<Rightarrow> binop \<Rightarrow> val option \<Rightarrow> act" where
  "apply_binop fl op rhs = (case op of
      Add \<Rightarrow> arith_apply ''+'' (+) (f_add fl) fl rhs
    | Sub \<Rightarrow> arith_apply ''-'' (-) (f_sub fl) fl rhs
    | Mul \<Rightarrow> arith_apply ''*'' (*) (f_mul fl) fl rhs
    | Div \<Rightarrow> ApplyDivKont_invoke fl rhs
    | Mod \<Rightarrow> ApplyModKont_invoke rhs
    | BitAnd \<Rightarrow> bitwise_apply ''&'' (\<lambda>a b. Some (a AND b)) rhs
    | BitOr \<Rightarrow> bitwise_apply ''|'' (\<lambda>a b. Some (a OR b)) rhs
    | BitXor \<Rightarrow> bitwise_apply ''^'' (\<lambda>a b. Some (a XOR b)) rhs
    | Shl \<Rightarrow> bitwise_apply ''<<'' shl_i64 rhs
    | Shr \<Rightarrow> bitwise_apply ''>>'' shr_i64 rhs
    | Eq \<Rightarrow> ApplyEqKont_invoke fl rhs
    | Ne \<Rightarrow> ApplyNeKont_invoke fl rhs
    | Lt \<Rightarrow> ordered_apply ''<'' (<) (f_lt fl) fl rhs
    | Le \<Rightarrow> ordered_apply ''<='' (\<le>) (f_le fl) fl rhs
    | Gt \<Rightarrow> ordered_apply ''>'' (>) (\<lambda>a b. f_lt fl b a) fl rhs
    | Ge \<Rightarrow> ordered_apply ''>='' (\<ge>) (\<lambda>a b. f_le fl b a) fl rhs)"

definition ApplyBinKont_invoke :: "floats \<Rightarrow> binop \<Rightarrow> nat \<Rightarrow> act" where
  "ApplyBinKont_invoke fl op s m = (case slot s m of None \<Rightarrow> None | Some rhs \<Rightarrow> apply_binop fl op rhs m)"

section \<open>Unary and logical operators\<close>

definition UnaryKont_invoke :: "unop \<Rightarrow> kid \<Rightarrow> act" where
  "UnaryKont_invoke op operand = pushing [Dyn (ApplyUn op), Static operand]"

text \<open>Negating a \<open>double\<close> flips its sign bit.\<close>

definition f_neg :: "f64 \<Rightarrow> f64" where
  "f_neg x = x XOR push_bit 63 1"

definition ApplyNegKont_invoke :: act where
  "ApplyNegKont_invoke m = (case m_result m of
      Some (IntV a) \<Rightarrow> ac_int (- sint a) m
    | Some (FloatV x) \<Rightarrow> ac (FloatV (f_neg x)) m
    | _ \<Rightarrow> failing ''type error: unary -'' m)"

definition ApplyBitNotKont_invoke :: act where
  "ApplyBitNotKont_invoke m = (case m_result m of
      Some (IntV a) \<Rightarrow> ac (IntV (NOT a)) m | _ \<Rightarrow> failing ''type error: ~'' m)"

definition coerce_to_bool :: "val option \<Rightarrow> bool option" where
  "coerce_to_bool v = (case v of
      Some (BoolV b) \<Rightarrow> Some b | Some (IntV i) \<Rightarrow> Some (i \<noteq> 0) | _ \<Rightarrow> None)"

definition ApplyNotKont_invoke :: act where
  "ApplyNotKont_invoke m = (case coerce_to_bool (m_result m) of
      None \<Rightarrow> failing ''type error: !'' m | Some b \<Rightarrow> ac (BoolV (\<not> b)) m)"

definition apply_unop :: "unop \<Rightarrow> act" where
  "apply_unop op = (case op of Neg \<Rightarrow> ApplyNegKont_invoke | BitNot \<Rightarrow> ApplyBitNotKont_invoke | Not \<Rightarrow> ApplyNotKont_invoke)"

definition LogicalAndKont_invoke :: "kid \<Rightarrow> kid \<Rightarrow> act" where
  "LogicalAndKont_invoke left right = pushing [Dyn (AndCheck right), Static left]"

definition LogicalOrKont_invoke :: "kid \<Rightarrow> kid \<Rightarrow> act" where
  "LogicalOrKont_invoke left right = pushing [Dyn (OrCheck right), Static left]"

definition LogicalAndCheckKont_invoke :: "kid \<Rightarrow> act" where
  "LogicalAndCheckKont_invoke right m = (case coerce_to_bool (m_result m) of
      None \<Rightarrow> failing ''type error: && (left)'' m
    | Some b \<Rightarrow> if \<not> b then ac (BoolV False) m else pushing [Dyn Normalize, Static right] m)"

definition LogicalOrCheckKont_invoke :: "kid \<Rightarrow> act" where
  "LogicalOrCheckKont_invoke right m = (case coerce_to_bool (m_result m) of
      None \<Rightarrow> failing ''type error: || (left)'' m
    | Some b \<Rightarrow> if b then ac (BoolV True) m else pushing [Dyn Normalize, Static right] m)"

definition NormalizeKont_invoke :: act where
  "NormalizeKont_invoke m = (case coerce_to_bool (m_result m) of
      None \<Rightarrow> failing ''type error: && or || (right)'' m | Some b \<Rightarrow> ac (BoolV b) m)"

definition TernaryKont_invoke :: "kid \<Rightarrow> kid \<Rightarrow> kid \<Rightarrow> act" where
  "TernaryKont_invoke cond th el = pushing [Dyn (TernaryDispatch th el), Static cond]"

definition TernaryDispatchKont_invoke :: "kid \<Rightarrow> kid \<Rightarrow> act" where
  "TernaryDispatchKont_invoke th el m = (case coerce_to_bool (m_result m) of
      None \<Rightarrow> failing ''type error: ternary cond'' m
    | Some b \<Rightarrow> pushing [Static (if b then th else el)] m)"

section \<open>Calls\<close>

text \<open>The loop of \<open>CallKont::invoke\<close> pushes the last argument first.\<close>

fun push_args :: "nat \<Rightarrow> nat \<Rightarrow> kid list \<Rightarrow> machine \<Rightarrow> machine" where
  "push_args buf i [] m = m"
| "push_args buf i (a # args) m =
     push_kont (Static a) (push_kont (Dyn (ArgStore buf i)) (push_args buf (Suc i) args m))"

definition CallKont_invoke :: "string \<Rightarrow> kid list \<Rightarrow> act" where
  "CallKont_invoke func args m = (case new_slots (if args = [] then 1 else length args) m of
      (buf, m1) \<Rightarrow> Some (push_args buf 0 args (push_kont (Dyn (CallApply func buf (length args))) m1)))"

definition ArgStoreKont_invoke :: "nat \<Rightarrow> nat \<Rightarrow> act" where
  "ArgStoreKont_invoke buf i m = set_slot (buf + i) (m_result m) m"

definition builtin_abs :: "floats \<Rightarrow> nat \<Rightarrow> act" where
  "builtin_abs fl args m = (case slot args m of
      None \<Rightarrow> None
    | Some (Some (IntV x)) \<Rightarrow> ac_int (if sint x < 0 then - sint x else sint x) m
    | Some (Some (FloatV x)) \<Rightarrow> ac (FloatV (if f_lt fl x 0 then f_neg x else x)) m
    | Some _ \<Rightarrow> failing ''abs: type mismatch'' m)"

definition builtin_minmax :: "floats \<Rightarrow> nat \<Rightarrow> bool \<Rightarrow> act" where
  "builtin_minmax fl args is_max m = (case (slot args m, slot (args + 1) m) of
      (Some (Some (IntV x)), Some (Some (IntV y))) \<Rightarrow>
        ac (IntV (if is_max then (if sint y < sint x then x else y) else (if sint x < sint y then x else y))) m
    | (Some (Some (FloatV x)), Some (Some (FloatV y))) \<Rightarrow>
        ac (FloatV (if is_max then (if f_lt fl y x then x else y) else (if f_lt fl x y then x else y))) m
    | (Some _, Some _) \<Rightarrow> failing ''min/max: type mismatch'' m
    | _ \<Rightarrow> None)"

definition builtin_clamp :: "floats \<Rightarrow> nat \<Rightarrow> act" where
  "builtin_clamp fl args m = (case (slot args m, slot (args + 1) m, slot (args + 2) m) of
      (Some (Some (IntV x)), Some (Some (IntV lo)), Some (Some (IntV hi))) \<Rightarrow>
        ac (IntV (if sint x < sint lo then lo else if sint hi < sint x then hi else x)) m
    | (Some (Some (FloatV x)), Some (Some (FloatV lo)), Some (Some (FloatV hi))) \<Rightarrow>
        ac (FloatV (if f_lt fl x lo then lo else if f_lt fl hi x then hi else x)) m
    | (Some _, Some _, Some _) \<Rightarrow> failing ''clamp: type mismatch'' m
    | _ \<Rightarrow> None)"

definition builtin_peek :: act where
  "builtin_peek m = (case m_effective_end m of
      None \<Rightarrow> None
    | Some e \<Rightarrow> if e \<le> m_pos m then failing ''peek: end of input'' m
        else (case span_at 1 (m_input m) (m_pos m) of None \<Rightarrow> None | Some bs \<Rightarrow> ac (IntV (ucast (hd bs))) m))"

definition builtin_registrations :: "(string \<times> nat \<times> bfn) list" where
  "builtin_registrations = [(''abs'', 1, BAbs), (''min'', 2, BMin), (''max'', 2, BMax),
     (''clamp'', 3, BClamp), (''peek'', 0, BPeek)]"

definition run_builtin :: "floats \<Rightarrow> bfn \<Rightarrow> nat \<Rightarrow> act" where
  "run_builtin fl f args = (case f of
      BAbs \<Rightarrow> builtin_abs fl args | BMin \<Rightarrow> builtin_minmax fl args False | BMax \<Rightarrow> builtin_minmax fl args True
    | BClamp \<Rightarrow> builtin_clamp fl args | BPeek \<Rightarrow> builtin_peek)"

definition CallApplyKont_invoke :: "deps \<Rightarrow> string \<Rightarrow> nat \<Rightarrow> nat \<Rightarrow> act" where
  "CallApplyKont_invoke d func buf n m =
     (case Option.bind (d_builtins d) (\<lambda>t. builtin_lookup t func n) of
        Some f \<Rightarrow> run_builtin (d_fl d) f buf m
      | None \<Rightarrow> failing ''unknown function'' m)"

section \<open>Paths\<close>

definition PathStartKont_invoke :: "string \<Rightarrow> act" where
  "PathStartKont_invoke name m = (case find_field name (m_builder m) of
      None \<Rightarrow> failing ''path: field not found'' m | Some n \<Rightarrow> ac (CaptureV n) m)"

definition FieldAccessKont_invoke :: "kid \<Rightarrow> string \<Rightarrow> act" where
  "FieldAccessKont_invoke base field = pushing [Dyn (FieldAccessApply field), Static base]"

definition FieldAccessApplyKont_invoke :: "string \<Rightarrow> act" where
  "FieldAccessApplyKont_invoke field m = (case m_result m of
      Some (CaptureV base) \<Rightarrow> (case find_child base field of
          None \<Rightarrow> failing ''path: field not in capture'' m | Some c \<Rightarrow> ac (CaptureV c) m)
    | _ \<Rightarrow> failing ''path: bad base'' m)"

definition IndexAccessKont_invoke :: "kid \<Rightarrow> kid \<Rightarrow> act" where
  "IndexAccessKont_invoke base index = two_phase IndexAccessApply base index"

text \<open>\<open>static_cast<int>\<close> of the index keeps its low 32 bits.\<close>

definition IndexAccessApplyKont_invoke :: "nat \<Rightarrow> act" where
  "IndexAccessApplyKont_invoke s m = (case slot s m of
      None \<Rightarrow> None
    | Some idx \<Rightarrow> (case m_result m of
        Some (CaptureV base) \<Rightarrow> (case idx of
            Some (IntV i) \<Rightarrow> (case find_child_at base (sint (ucast i :: u32)) of
                None \<Rightarrow> failing ''path: index out of range'' m | Some c \<Rightarrow> ac (CaptureV c) m)
          | _ \<Rightarrow> failing ''path: index not integer'' m)
      | _ \<Rightarrow> failing ''path: bad base for index'' m))"

definition CaptureValueKont_invoke :: "kid \<Rightarrow> act" where
  "CaptureValueKont_invoke path = pushing [Dyn CaptureValueApply, Static path]"

definition CaptureValueApplyKont_invoke :: "floats \<Rightarrow> act" where
  "CaptureValueApplyKont_invoke fl m = (case m_result m of
      Some (CaptureV cap) \<Rightarrow>
        (if nd_computed (attr cap) \<noteq> None then Some (set_res (lift_computed (nd_computed (attr cap))) m)
         else if is_float_type (nd_type (attr cap)) then
           (case decode_float_at (f_widen fl) (m_input m) (nd_start (attr cap)) (nd_type (attr cap)) of
              Got x \<Rightarrow> ac (FloatV x) m | Rej \<Rightarrow> failing ''path: cannot decode float leaf'' m | UB \<Rightarrow> None)
         else
           (case decode_int_at (m_input m) (nd_start (attr cap)) (nd_type (attr cap)) of
              Got (v, _) \<Rightarrow> ac (IntV v) m | Rej \<Rightarrow> failing ''path: cannot decode scalar leaf'' m | UB \<Rightarrow> None))
    | _ \<Rightarrow> failing ''path: capture-value on non-path'' m)"

end
