(* ===== verification/CekSpine.thy ===== *)
theory CekSpine
  imports CekExpr
begin

text \<open>
  The spine of the CEK machine (\<open>backends/cek/Machine.cpp\<close>): the konts that consume input, build the
  document, set intervals and the byte order, call rules, choose and backtrack, and the trampoline.
  A site kont pushes its consumer and the expression; the consumer reads the accumulator.
\<close>

section \<open>Site consumers\<close>

definition EvalConstraintNode_invoke :: "kid \<Rightarrow> kid option \<Rightarrow> kid \<Rightarrow> act" where
  "EvalConstraintNode_invoke expr on_false next = pushing [Dyn (ConstraintCheck on_false next), Static expr]"

definition EvalConstraintCheckKont_invoke :: "kid option \<Rightarrow> kid \<Rightarrow> act" where
  "EvalConstraintCheckKont_invoke on_false next m = (case coerce_to_bool (m_result m) of
      None \<Rightarrow> failing ''constraint expects bool'' m
    | Some b \<Rightarrow> if b then pushing [Static next] m
        else (case on_false of Some t \<Rightarrow> pushing [Static t] m | None \<Rightarrow> failing ''constraint failed'' m))"

definition BindComputeNode_invoke :: "kid \<Rightarrow> kid \<Rightarrow> act" where
  "BindComputeNode_invoke expr next = pushing [Dyn (BindStore next), Static expr]"

definition BindComputeStoreKont_invoke :: "kid \<Rightarrow> act" where
  "BindComputeStoreKont_invoke next m = (case m_result m of
      None \<Rightarrow> failing ''bind-compute: null value'' m
    | Some v \<Rightarrow> pushing [Static next] (carrier (\<lambda>a. a\<lparr>nd_start := m_pos m, nd_end := m_pos m, nd_type := CComputed,
          nd_computed := Some (lower_computed (Some v))\<rparr>) m))"

definition SetEndianNode_invoke :: "kid \<Rightarrow> kid \<Rightarrow> act" where
  "SetEndianNode_invoke expr next = pushing [Dyn (SetEndianApply next), Static expr]"

definition SetEndianApplyKont_invoke :: "kid \<Rightarrow> act" where
  "SetEndianApplyKont_invoke next m = (case coerce_to_bool (m_result m) of
      None \<Rightarrow> failing ''@endian expects bool'' m
    | Some b \<Rightarrow> pushing [Static next] (m\<lparr>m_le := b\<rparr>))"

definition MatchBytesNode_invoke :: "kid \<Rightarrow> bool \<Rightarrow> kid \<Rightarrow> act" where
  "MatchBytesNode_invoke expr is_string next = pushing [Dyn (MatchBytesApply is_string next), Static expr]"

definition MatchBytesApplyKont_invoke :: "bool \<Rightarrow> kid \<Rightarrow> act" where
  "MatchBytesApplyKont_invoke is_string next m = (case m_result m of
      Some (IntV len) \<Rightarrow> (case m_effective_end m of
          None \<Rightarrow> None
        | Some e \<Rightarrow>
            if sint len < 0 \<or> e < m_pos m + len then failing ''bytes out of range'' m
            else pushing [Static next] (carrier (\<lambda>a. a\<lparr>nd_start := m_pos m, nd_end := m_pos m + len,
                nd_type := (if is_string then CString else CBytes)\<rparr>) (m\<lparr>m_pos := m_pos m + len\<rparr>)))
    | _ \<Rightarrow> failing ''bytes length not integer'' m)"

definition SwitchDispatchNode_invoke :: "kid \<Rightarrow> switch_case list \<Rightarrow> kid option \<Rightarrow> bool \<Rightarrow> act" where
  "SwitchDispatchNode_invoke expr cases dflt reject = pushing [Dyn (SwitchSelect cases dflt reject), Static expr]"

text \<open>The loops of \<open>SwitchSelectKont::invoke\<close>: the largest ordinal; the first case of the discriminator's
  tag and value, \<open>Rej\<close> when a case of that tag can not be compared.\<close>

definition max_ordinal :: "switch_case list \<Rightarrow> int" where
  "max_ordinal cases = fold (\<lambda>c m. if m < sc_ordinal c then sc_ordinal c else m) cases (- 1)"

fun select_case :: "val \<Rightarrow> switch_case list \<Rightarrow> switch_case option rr" where
  "select_case v [] = Got None"
| "select_case v (c # cs) = (case sc_match c of
      None \<Rightarrow> select_case v cs
    | Some w \<Rightarrow>
        if val_tag w \<noteq> val_tag v then select_case v cs
        else (case (v, w) of
            (IntV a, IntV b) \<Rightarrow> if a = b then Got (Some c) else select_case v cs
          | (StringV a, StringV b) \<Rightarrow> if a = b then Got (Some c) else select_case v cs
          | _ \<Rightarrow> Rej))"

definition SwitchSelectKont_invoke :: "switch_case list \<Rightarrow> kid option \<Rightarrow> bool \<Rightarrow> act" where
  "SwitchSelectKont_invoke cases dflt reject m = (case m_result m of
      None \<Rightarrow> failing ''switch: null discriminator'' m
    | Some v \<Rightarrow> (case select_case v cases of
        Got (Some c) \<Rightarrow>
          pushing [Static (sc_target c)] (m\<lparr>m_builder := set_pending_variant_tag (sc_ordinal c) (m_builder m)\<rparr>)
      | Got None \<Rightarrow> (case dflt of
            Some t \<Rightarrow>
              pushing [Static t] (m\<lparr>m_builder := set_pending_variant_tag (max_ordinal cases + 1) (m_builder m)\<rparr>)
          | None \<Rightarrow> if reject then failing ''switch: discriminant rejected by `default: reject`'' m
              else failing ''switch: no matching case and no default'' m)
      | _ \<Rightarrow> failing ''switch: discriminator must be int or string'' m))"

section \<open>Arrays\<close>

definition new_savepoint :: "kid option \<Rightarrow> machine \<Rightarrow> savepoint" where
  "new_savepoint target m = \<lparr>sp_env = m_env m, sp_pos = m_pos m, sp_le = m_le m, sp_ksize = length (m_k m),
     sp_idepth = m_idepth m, sp_mark = b_mark (m_builder m), sp_on_fail = target\<rparr>"

definition push_savepoint :: "kid option \<Rightarrow> machine \<Rightarrow> machine" where
  "push_savepoint target m = m\<lparr>m_frames := FSave (new_savepoint target m) # m_frames m\<rparr>"

definition push_resync_savepoint :: "kid option \<Rightarrow> machine \<Rightarrow> machine" where
  "push_resync_savepoint target m = (case target of None \<Rightarrow> m | Some _ \<Rightarrow> push_savepoint target m)"

text \<open>\<open>count_path_of\<close>: the field an expression is nothing but a reference to. \<open>None\<close> is the recursion not
  returning, which a graph whose expressions are trees excludes.\<close>

partial_function (option) count_path_of :: "(kid \<Rightarrow> kont) \<Rightarrow> kid \<Rightarrow> string option option" where
  "count_path_of prog e = (case prog e of
      E (Ref name resolved) \<Rightarrow>
        (let s = (case resolved of Some r \<Rightarrow> if r \<noteq> [] then r else name | None \<Rightarrow> name)
         in Some (if s = [] then None else Some s))
    | E (PathStart name) \<Rightarrow> Some (if name = [] then None else Some name)
    | E (FieldAccess base field) \<Rightarrow>
        Option.bind (count_path_of prog base) (\<lambda>r. Some (case r of
            None \<Rightarrow> None | Some p \<Rightarrow> if field = [] then None else Some (p @ ''.'' @ field)))
    | E (CaptureValue path) \<Rightarrow> count_path_of prog path
    | _ \<Rightarrow> Some None)"

declare count_path_of.simps [code]

definition count_field_of :: "(kid \<Rightarrow> kont) \<Rightarrow> kid \<Rightarrow> machine \<Rightarrow> machine option" where
  "count_field_of prog e m = (case count_path_of prog e of
      None \<Rightarrow> None
    | Some None \<Rightarrow> Some m
    | Some (Some p) \<Rightarrow> Some (m\<lparr>m_builder := set_pending_count_field p (m_builder m)\<rparr>))"

definition push_loop_frame :: "i64 \<Rightarrow> kid \<Rightarrow> machine \<Rightarrow> machine" where
  "push_loop_frame limit end_node m = m\<lparr>m_frames := FLoop \<lparr>lf_counter = 0, lf_limit = limit, lf_end = end_node,
     lf_outer_env = m_env m, lf_outer_le = m_le m, lf_env = m_env m, lf_pos = m_pos m, lf_le = m_le m,
     lf_mark = b_mark (m_builder m)\<rparr> # m_frames m\<rparr>"

definition on_builder :: "(builder \<Rightarrow> builder) \<Rightarrow> machine \<Rightarrow> machine" where
  "on_builder f m = m\<lparr>m_builder := f (m_builder m)\<rparr>"

definition BeginArrayNode_invoke ::
    "(kid \<Rightarrow> kont) \<Rightarrow> string option \<Rightarrow> array_mode \<Rightarrow> kid \<Rightarrow> kid \<Rightarrow> kid \<Rightarrow> kid option \<Rightarrow> kid \<Rightarrow> act" where
  "BeginArrayNode_invoke prog name mode count_expr until_expr end_node resync next m =
     (if mode = FixedCount \<or> mode = CountMode then
        (case count_field_of prog count_expr m of
           None \<Rightarrow> None
         | Some m1 \<Rightarrow> pushing [Dyn (BeginArrayWithLimit name end_node resync next), Static count_expr] m1)
      else
        let m2 = push_resync_savepoint resync
              (push_loop_frame (- 1) end_node (on_builder (begin_array name (m_pos m)) m))
        in if mode = UntilMode then pushing [Dyn (ArrayUntilCheck end_node next), Static until_expr] m2
           else (case m_effective_end m2 of
               None \<Rightarrow> None
             | Some e \<Rightarrow> pushing [Static (if e \<le> m_pos m2 then end_node else next)] m2))"

definition BeginArrayWithLimitKont_invoke :: "string option \<Rightarrow> kid \<Rightarrow> kid option \<Rightarrow> kid \<Rightarrow> act" where
  "BeginArrayWithLimitKont_invoke name end_node resync next m = (case m_result m of
      Some (IntV limit) \<Rightarrow>
        (let m1 = push_loop_frame limit end_node (on_builder (begin_array name (m_pos m)) m);
             m2 = (if 0 < sint limit then push_resync_savepoint resync m1 else m1)
         in pushing [Static (if sint limit \<le> 0 then end_node else next)] m2)
    | _ \<Rightarrow> failing ''array count must be integer'' m)"

definition refresh :: "machine \<Rightarrow> savepoint \<Rightarrow> savepoint" where
  "refresh m sp = new_savepoint (sp_on_fail sp) m"

text \<open>The second half of \<open>ArrayNextNode::invoke\<close>, with the loop frame found between the inner frames
  and the outer ones; \<open>counter++\<close> past the type is undefined.\<close>

definition array_advance :: "array_mode \<Rightarrow> kid \<Rightarrow> kid \<Rightarrow> kid \<Rightarrow> kid \<Rightarrow> frame list \<Rightarrow> frame list \<Rightarrow> act" where
  "array_advance mode count_expr until_expr end_node body inner outer m = (case outer of
      FLoop lf # fs \<Rightarrow>
        (case i64_result (sint (lf_counter lf) + 1) of
           None \<Rightarrow> None
         | Some c \<Rightarrow>
            let m1 = m\<lparr>m_frames := inner @ FLoop (lf\<lparr>lf_counter := c\<rparr>) # fs\<rparr>
            in (case mode of
                 FixedCount \<Rightarrow> pushing [Static (if sint (lf_limit lf) \<le> sint c then end_node else body)] m1
               | EofMode \<Rightarrow> (case m_effective_end m1 of
                     None \<Rightarrow> None
                   | Some e \<Rightarrow> pushing [Static (if e \<le> m_pos m1 then end_node else body)] m1)
               | CountMode \<Rightarrow> pushing [Dyn (ArrayCountCheck end_node body), Static count_expr] m1
               | UntilMode \<Rightarrow> pushing [Dyn (ArrayUntilCheck end_node body), Static until_expr] m1))
    | _ \<Rightarrow> failing ''ArrayNext without LoopFrame'' m)"

definition ArrayNextNode_invoke :: "array_mode \<Rightarrow> kid \<Rightarrow> kid \<Rightarrow> kid \<Rightarrow> kid \<Rightarrow> bool \<Rightarrow> act" where
  "ArrayNextNode_invoke mode count_expr until_expr end_node body resync m =
     (if resync then
        (case m_frames m of
           FSave sp # fs \<Rightarrow>
             (let sp1 = FSave (refresh m sp)
              in array_advance mode count_expr until_expr end_node body [sp1] fs (m\<lparr>m_frames := sp1 # fs\<rparr>))
         | _ \<Rightarrow> failing ''ArrayNext (resync) missing Savepoint'' m)
      else array_advance mode count_expr until_expr end_node body [] (m_frames m) m)"

definition ArrayCountCheckKont_invoke :: "kid \<Rightarrow> kid \<Rightarrow> act" where
  "ArrayCountCheckKont_invoke end_node body m = (case m_result m of
      Some (IntV limit) \<Rightarrow> (case m_frames m of
          FLoop lf # _ \<Rightarrow> pushing [Static (if sint limit \<le> sint (lf_counter lf) then end_node else body)] m
        | _ \<Rightarrow> failing ''ArrayCountCheck without LoopFrame'' m)
    | _ \<Rightarrow> failing ''array count must be integer'' m)"

definition ArrayUntilCheckKont_invoke :: "kid \<Rightarrow> kid \<Rightarrow> act" where
  "ArrayUntilCheckKont_invoke end_node body m = (case coerce_to_bool (m_result m) of
      None \<Rightarrow> failing ''array until expects bool'' m
    | Some b \<Rightarrow> pushing [Static (if b then end_node else body)] m)"

fun drop_top_save :: "frame list \<Rightarrow> frame list" where
  "drop_top_save (FSave _ # fs) = fs"
| "drop_top_save fs = fs"

definition EndArrayNode_invoke :: "bool \<Rightarrow> kid \<Rightarrow> act" where
  "EndArrayNode_invoke resync next m =
     (let m1 = (if resync then m\<lparr>m_frames := drop_top_save (m_frames m)\<rparr> else m)
      in case m_frames m1 of
          FLoop lf # fs \<Rightarrow> pushing [Static next] ((on_builder (end_array (m_pos m1)) m1)\<lparr>m_frames := fs,
              m_env := lf_outer_env lf\<rparr>)
        | _ \<Rightarrow> failing ''EndArray without LoopFrame'' m1)"

text \<open>The innermost savepoint, with the frames inside it and outside it.\<close>

fun find_save :: "frame list \<Rightarrow> (frame list \<times> savepoint \<times> frame list) option" where
  "find_save [] = None"
| "find_save (FSave sp # fs) = Some ([], sp, fs)"
| "find_save (f # fs) = map_option (\<lambda>(inner, sp, outer). (f # inner, sp, outer)) (find_save fs)"

definition restore_from :: "savepoint \<Rightarrow> act" where
  "restore_from sp m = truncate_k (sp_ksize sp) (m\<lparr>m_pos := sp_pos sp, m_idepth := sp_idepth sp,
     m_env := sp_env sp, m_le := sp_le sp, m_builder := b_restore (sp_mark sp) (m_builder m)\<rparr>)"

definition short_of_count :: "frame list \<Rightarrow> bool" where
  "short_of_count outer = (case outer of
      FLoop lf # _ \<Rightarrow> 0 \<le> sint (lf_limit lf) \<and> sint (lf_counter lf) < sint (lf_limit lf) | _ \<Rightarrow> False)"

definition ResyncKont_invoke :: "kid \<Rightarrow> kid \<Rightarrow> act" where
  "ResyncKont_invoke body end_node m = (case find_save (m_frames m) of
      None \<Rightarrow> failing ''ResyncKont: no Savepoint in scope'' m
    | Some (inner, sp, outer) \<Rightarrow> (case restore_from sp m of
        None \<Rightarrow> None
      | Some m1 \<Rightarrow> (case m_effective_end m1 of
          None \<Rightarrow> None
        | Some e \<Rightarrow>
            if e \<le> m_pos m1 then
              (if short_of_count outer
               then failing ''resync: fewer elements than the declared count'' (m1\<lparr>m_frames := outer\<rparr>)
               else pushing [Static end_node] (m1\<lparr>m_frames := outer\<rparr>))
            else
              let m2 = m1\<lparr>m_pos := m_pos m1 + 1\<rparr>
              in pushing [Static body] (m2\<lparr>m_frames := inner @ FSave (refresh m2 sp) # outer\<rparr>))))"

section \<open>Bit fields and external parsers\<close>

text \<open>The entry's bits of the container; \<open>1 << w\<close> and its predecessor must be an \<open>int64_t\<close>, and a
  shift count less than 64.\<close>

definition entry_bits :: "i64 \<Rightarrow> int \<Rightarrow> int \<Rightarrow> bool \<Rightarrow> i64 option" where
  "entry_bits raw shift width sgnd =
     (if shift < 0 \<or> 64 \<le> shift \<or> width < 0 \<or> width = 63 then None
      else let msk = (if 64 \<le> width then NOT 0 else push_bit (nat width) 1 - 1);
               v = (signed_drop_bit (nat shift) raw) AND msk
           in Some (if sgnd \<and> 0 < width \<and> width < 64 \<and> v AND push_bit (nat (width - 1)) 1 \<noteq> 0
                then v - push_bit (nat width) 1 else v))"

definition ExtractBitsNode_invoke :: "deps \<Rightarrow> prim_info \<Rightarrow> int \<Rightarrow> int \<Rightarrow> bool \<Rightarrow> kid \<Rightarrow> act" where
  "ExtractBitsNode_invoke d container offset_before width_bits is_signed next m =
     (case m_effective_end m of
        None \<Rightarrow> None
      | Some e \<Rightarrow>
        let nbytes = word_of_nat (byte_count container)
        in if e < m_pos m + nbytes then failing ''bitfield: unexpected end of input'' m
        else (case read_primitive d (m_input m) (m_pos m) container (m_le m) of
            None \<Rightarrow> None
          | Some raw \<Rightarrow>
            let msb_first = (p_endian container = PBig \<or> p_endian container = PNative \<and> \<not> m_le m);
                total_bits = int (byte_count container * 8);
                shift = (if msb_first then total_bits - offset_before - width_bits else offset_before)
            in (case entry_bits raw shift width_bits is_signed of
                None \<Rightarrow> None
              | Some v \<Rightarrow> pushing [Static next] (on_builder (scope_is_bits_run msb_first)
                  (carrier (\<lambda>a. a\<lparr>nd_start := m_pos m, nd_end := m_pos m + nbytes, nd_type := CComputed,
                     nd_computed := Some (lower_computed (Some (IntV v))),
                     nd_bits := \<lparr>bt_start = word_of_int shift, bt_end = word_of_int (shift + width_bits),
                       bt_signed = is_signed, bt_entry = True\<rparr>\<rparr>) m)))))"

definition AdvancePosNode_invoke :: "int \<Rightarrow> kid \<Rightarrow> act" where
  "AdvancePosNode_invoke count next m = pushing [Static next] (m\<lparr>m_pos := m_pos m + word_of_int count\<rparr>)"

text \<open>The parser is handed the input from the cursor to the window's end, which must lie inside it.\<close>

definition ExternalCallNode_invoke :: "deps \<Rightarrow> string \<Rightarrow> kid \<Rightarrow> act" where
  "ExternalCallNode_invoke d func next m = (case d_ext d of
      None \<Rightarrow> failing ''external parsers not configured'' m
    | Some t \<Rightarrow> (case ext_lookup t func of
        None \<Rightarrow> failing ''external parser not registered'' m
      | Some fn \<Rightarrow> (case m_effective_end m of
          None \<Rightarrow> None
        | Some e \<Rightarrow> (case span_at (unat (e - m_pos m)) (m_input m) (m_pos m) of
            None \<Rightarrow> None
          | Some bs \<Rightarrow> (case fn bs of (ok, consumed) \<Rightarrow>
              if \<not> ok then failing ''external parser failed'' m
              else pushing [Static next] (carrier (\<lambda>a. a\<lparr>nd_start := m_pos m, nd_end := m_pos m + consumed,
                  nd_type := CExternal\<rparr>) (m\<lparr>m_pos := m_pos m + consumed\<rparr>)))))))"

section \<open>Rules\<close>

definition InvokeRuleNode_invoke :: "kid \<Rightarrow> kid option \<Rightarrow> kid \<Rightarrow> act" where
  "InvokeRuleNode_invoke entry caller_fail_target next m =
     pushing [Static entry] (m\<lparr>m_frames := FReturn \<lparr>rf_return_to = next, rf_env = m_env m, rf_start = m_pos m,
        rf_mark = b_mark (m_builder m), rf_fail_target = caller_fail_target\<rparr> # m_frames m\<rparr>)"

text \<open>The walk of \<open>AbortRuleKont\<close> to a return frame whose caller can recover.\<close>

fun abort_to :: "frame list \<Rightarrow> (kid \<times> frame list) option" where
  "abort_to [] = None"
| "abort_to (FReturn r # fs) = (case rf_fail_target r of Some t \<Rightarrow> Some (t, fs) | None \<Rightarrow> abort_to fs)"
| "abort_to (FSave s # fs) = abort_to fs"
| "abort_to (FLoop l # fs) = abort_to fs"

definition AbortRuleKont_invoke :: act where
  "AbortRuleKont_invoke m = (case abort_to (m_frames m) of
      Some (t, fs) \<Rightarrow> pushing [Static t] (m\<lparr>m_frames := fs\<rparr>)
    | None \<Rightarrow> failing ''rule abort with no caller backtrack scope'' m)"

definition OnFailKont_invoke :: "kid option \<Rightarrow> kid option \<Rightarrow> bool \<Rightarrow> act" where
  "OnFailKont_invoke target next_on_fail pop_frame m = (case find_save (m_frames m) of
      None \<Rightarrow> failing ''OnFailKont with no Savepoint in scope'' m
    | Some (inner, sp, outer) \<Rightarrow> (case restore_from sp m of
        None \<Rightarrow> None
      | Some m1 \<Rightarrow> (case target of
          None \<Rightarrow> failing ''alt exhausted'' (m1\<lparr>m_frames := outer\<rparr>)
        | Some t \<Rightarrow> pushing [Static t] (m1\<lparr>m_frames :=
            (if pop_frame then outer else inner @ FSave (sp\<lparr>sp_on_fail := next_on_fail\<rparr>) # outer)\<rparr>))))"

definition ReturnRuleNode_invoke :: "kid \<Rightarrow> act" where
  "ReturnRuleNode_invoke next m = (case m_frames m of
      FReturn r # fs \<Rightarrow> pushing [Static (rf_return_to r)] (m\<lparr>m_frames := fs, m_env := rf_env r\<rparr>)
    | _ \<Rightarrow> pushing [Static next] m)"

section \<open>Structs and intervals\<close>

definition HaltNode_invoke :: act where
  "HaltNode_invoke m = Some m"

definition BeginStructNode_invoke :: "string option \<Rightarrow> kid \<Rightarrow> act" where
  "BeginStructNode_invoke name next m = pushing [Static next] (on_builder (begin_struct name (m_pos m)) m)"

definition BeginVariantNode_invoke :: "string option \<Rightarrow> int \<Rightarrow> kid \<Rightarrow> act" where
  "BeginVariantNode_invoke name tag next m =
     pushing [Static next] (on_builder (begin_variant name (m_pos m) tag) m)"

definition EndStructNode_invoke :: "kid \<Rightarrow> act" where
  "EndStructNode_invoke next m = pushing [Static next] (on_builder (end_struct (m_pos m)) m)"

definition SeekKont_invoke :: "kid \<Rightarrow> kid \<Rightarrow> act" where
  "SeekKont_invoke expr next = pushing [Dyn (SeekApply next), Static expr]"

definition SeekApplyKont_invoke :: "kid \<Rightarrow> act" where
  "SeekApplyKont_invoke next m = (case m_result m of
      Some (IntV target) \<Rightarrow>
        (if sint target < 0 \<or> m_len m < target then failing ''interval start out of range'' m
         else pushing [Static next] (m\<lparr>m_pos := target\<rparr>))
    | _ \<Rightarrow> failing ''interval start is not an integer'' m)"

definition PushIntervalNode_invoke :: "(kid \<Rightarrow> kont) \<Rightarrow> kid \<Rightarrow> bool \<Rightarrow> kid \<Rightarrow> act" where
  "PushIntervalNode_invoke prog expr relative next m =
     (if relative then
        (case count_path_of prog expr of
           None \<Rightarrow> None
         | Some p \<Rightarrow> pushing [Dyn (PushIntervalApply relative next), Static expr]
             (case p of
                None \<Rightarrow> m
              | Some s \<Rightarrow> if CHR ''.'' \<in> set s then m else on_builder (scope_determines_rest s) m))
      else pushing [Dyn (PushIntervalApply relative next), Static expr] m)"

text \<open>The store is grown for a depth not reached before and reused otherwise.\<close>

definition set_interval :: "size_t \<Rightarrow> size_t \<Rightarrow> act" where
  "set_interval start e m =
     (if m_idepth m = length (m_starts m)
      then Some (m\<lparr>m_starts := m_starts m @ [start], m_ends := m_ends m @ [e], m_idepth := m_idepth m + 1\<rparr>)
      else if m_idepth m < length (m_starts m) \<and> m_idepth m < length (m_ends m)
      then Some (m\<lparr>m_starts := (m_starts m)[m_idepth m := start], m_ends := (m_ends m)[m_idepth m := e],
        m_idepth := m_idepth m + 1\<rparr>)
      else None)"

definition PushIntervalApplyKont_invoke :: "bool \<Rightarrow> kid \<Rightarrow> act" where
  "PushIntervalApplyKont_invoke relative next m = (case m_result m of
      Some (IntV v) \<Rightarrow>
        (let start = m_pos m;
             clamped = (if sint v < 0 then 0 else v);
             e = (if relative then m_pos m + clamped else clamped)
         in case (m_effective_start m, m_effective_end m) of
              (Some s0, Some e0) \<Rightarrow>
                (if e < start \<or> start < s0 \<or> e0 < e then failing ''interval out of range'' m
                 else Option.bind (set_interval start e m) (pushing [Static next]))
            | _ \<Rightarrow> None)
    | _ \<Rightarrow> failing ''interval end is not an integer'' m)"

definition PopIntervalNode_invoke :: "bool \<Rightarrow> kid \<Rightarrow> act" where
  "PopIntervalNode_invoke checked next m =
     (if 0 < m_idepth m then
        (if checked then (case m_effective_end m of
             None \<Rightarrow> None
           | Some e \<Rightarrow> if m_pos m \<noteq> e then failing ''interval: size mismatch'' m
               else pushing [Static next] (m\<lparr>m_idepth := m_idepth m - 1\<rparr>))
         else pushing [Static next] (m\<lparr>m_idepth := m_idepth m - 1\<rparr>))
      else pushing [Static next] m)"

section \<open>Choices\<close>

definition BeginChoiceNode_invoke :: "kid option \<Rightarrow> kid \<Rightarrow> act" where
  "BeginChoiceNode_invoke on_fail next m = pushing [Static next] (push_savepoint on_fail m)"

definition CommitChoiceNode_invoke :: "kid \<Rightarrow> act" where
  "CommitChoiceNode_invoke next m = pushing [Static next] (m\<lparr>m_frames := drop_top_save (m_frames m)\<rparr>)"

definition BeginOptionalNode_invoke :: "kid option \<Rightarrow> kid \<Rightarrow> act" where
  "BeginOptionalNode_invoke on_fail inner m = pushing [Static inner] (push_savepoint on_fail m)"

definition EndOptionalNode_invoke :: "kid \<Rightarrow> act" where
  "EndOptionalNode_invoke next m = pushing [Static next] (m\<lparr>m_frames := drop_top_save (m_frames m)\<rparr>)"

section \<open>Matching and storing\<close>

definition MatchPrimitiveNode_invoke :: "deps \<Rightarrow> prim_info \<Rightarrow> kid \<Rightarrow> act" where
  "MatchPrimitiveNode_invoke d prim next m = (case m_effective_end m of
      None \<Rightarrow> None
    | Some e \<Rightarrow>
      if p_encoding prim \<noteq> Fixed then
        (let bits = (if p_width prim = W64 then 64 else 32);
             uleb = (p_encoding prim = Uleb)
         in case (if uleb then decode_uleb128 (m_input m) (m_pos m) e bits
                  else decode_sleb128 (m_input m) (m_pos m) e bits) of
             UB \<Rightarrow> None
           | Rej \<Rightarrow> failing (if uleb then ''invalid uleb128'' else ''invalid sleb128'') m
           | Got (v, consumed) \<Rightarrow>
               pushing [Static next] (carrier (\<lambda>a. a\<lparr>nd_start := m_pos m, nd_end := m_pos m + word_of_nat consumed,
                  nd_type := CComputed, nd_enc := (if uleb then EUleb else ESleb),
                  nd_computed := Some (lower_computed (Some (IntV v)))\<rparr>)
                (m\<lparr>m_pos := m_pos m + word_of_nat consumed\<rparr>)))
      else
        let nbytes = word_of_nat (byte_count prim)
        in if e < m_pos m + nbytes then failing ''unexpected end of input'' m
           else (case read_primitive_as_value d m prim of
               None \<Rightarrow> None
             | Some v \<Rightarrow>
               pushing [Static next] (carrier (\<lambda>a. a\<lparr>nd_start := m_pos m, nd_end := m_pos m + nbytes,
                  nd_type := primitive_capture_type prim (m_le m),
                  nd_computed := Some (lower_computed (Some v))\<rparr>)
                (m\<lparr>m_pos := m_pos m + nbytes\<rparr>))))"

definition CaptureKont_invoke :: "string option \<Rightarrow> kid \<Rightarrow> act" where
  "CaptureKont_invoke name next m = (case m_result m of
      Some (CaptureV cap) \<Rightarrow>
        (let a = attr cap;
             tree_val = (if nd_type a = CComputed then nd_computed a else None)
         in pushing [Static next] (on_builder (\<lambda>b. on_last (\<lambda>r. r\<lparr>nd_bits := nd_bits a, nd_enc := nd_enc a\<rparr>)
              (add_field name (nd_start a) (nd_end a) (nd_type a) tree_val b)) m))
    | _ \<Rightarrow> failing ''capture: no value'' m)"

definition StoreEnvKont_invoke :: "string \<Rightarrow> kid \<Rightarrow> act" where
  "StoreEnvKont_invoke name next m = (case m_result m of
      Some (CaptureV cap) \<Rightarrow>
        (let a = attr cap
         in pushing [Static next] (m\<lparr>m_env := \<lparr>bd_name = name, bd_value = lift_computed (nd_computed a),
              bd_start = nd_start a, bd_end = nd_end a, bd_type = nd_type a\<rparr> # m_env m\<rparr>))
    | _ \<Rightarrow> failing ''store_env: no value'' m)"

section \<open>The machine\<close>

definition invoke_expr :: "floats \<Rightarrow> ekont \<Rightarrow> act" where
  "invoke_expr fl e = (case e of
      IntLit v \<Rightarrow> IntLitKont_invoke v
    | BoolLit v \<Rightarrow> BoolLitKont_invoke v
    | FloatLit v \<Rightarrow> FloatLitKont_invoke fl v
    | StrLit v \<Rightarrow> StrLitKont_invoke v
    | Ref name _ \<Rightarrow> RefKont_invoke name
    | PosK \<Rightarrow> PosKont_invoke
    | RemainingK \<Rightarrow> RemainingKont_invoke
    | EOIK \<Rightarrow> EOIKont_invoke
    | LoopVarK \<Rightarrow> LoopVarKont_invoke
    | BufferK \<Rightarrow> BufferKont_invoke
    | StartK \<Rightarrow> StartKont_invoke
    | EndK \<Rightarrow> EndKont_invoke
    | UnK op a \<Rightarrow> UnaryKont_invoke op a
    | BinK op l r \<Rightarrow> BinopKont_invoke op l r
    | LAndK l r \<Rightarrow> LogicalAndKont_invoke l r
    | LOrK l r \<Rightarrow> LogicalOrKont_invoke l r
    | TernaryK c t f \<Rightarrow> TernaryKont_invoke c t f
    | CallK func args \<Rightarrow> CallKont_invoke func args
    | PathStart name \<Rightarrow> PathStartKont_invoke name
    | FieldAccess b field \<Rightarrow> FieldAccessKont_invoke b field
    | IndexAccess b i \<Rightarrow> IndexAccessKont_invoke b i
    | CaptureValue p \<Rightarrow> CaptureValueKont_invoke p)"

definition invoke_spine :: "deps \<Rightarrow> skont \<Rightarrow> act" where
  "invoke_spine d s = (case s of
      MatchPrimitive p next \<Rightarrow> MatchPrimitiveNode_invoke d p next
    | Capture name next \<Rightarrow> CaptureKont_invoke name next
    | StoreEnv name next \<Rightarrow> StoreEnvKont_invoke name next
    | BeginStruct name next \<Rightarrow> BeginStructNode_invoke name next
    | BeginVariant name tag next \<Rightarrow> BeginVariantNode_invoke name tag next
    | EndStruct next \<Rightarrow> EndStructNode_invoke next
    | SeekK e next \<Rightarrow> SeekKont_invoke e next
    | PushInterval e relative next \<Rightarrow> PushIntervalNode_invoke (d_prog d) e relative next
    | PopInterval checked next \<Rightarrow> PopIntervalNode_invoke checked next
    | EvalConstraint e on_false next \<Rightarrow> EvalConstraintNode_invoke e on_false next
    | BindCompute e next \<Rightarrow> BindComputeNode_invoke e next
    | InvokeRule entry fail_target next \<Rightarrow> InvokeRuleNode_invoke entry fail_target next
    | ReturnRule next \<Rightarrow> ReturnRuleNode_invoke next
    | OnFail target nof pop \<Rightarrow> OnFailKont_invoke target nof pop
    | AbortRule \<Rightarrow> AbortRuleKont_invoke
    | BeginChoice on_fail next \<Rightarrow> BeginChoiceNode_invoke on_fail next
    | CommitChoice next \<Rightarrow> CommitChoiceNode_invoke next
    | BeginOptional on_fail inner next \<Rightarrow> BeginOptionalNode_invoke on_fail inner
    | EndOptional next \<Rightarrow> EndOptionalNode_invoke next
    | BeginArray name mode count_expr until_expr end_node resync next \<Rightarrow>
        BeginArrayNode_invoke (d_prog d) name mode count_expr until_expr end_node resync next
    | ArrayNext mode count_expr until_expr end_node body resync \<Rightarrow>
        ArrayNextNode_invoke mode count_expr until_expr end_node body resync
    | EndArray resync next \<Rightarrow> EndArrayNode_invoke resync next
    | Resync body end_node \<Rightarrow> ResyncKont_invoke body end_node
    | SwitchDispatch e cases dflt reject \<Rightarrow> SwitchDispatchNode_invoke e cases dflt reject
    | ExtractBits c off w sgnd next \<Rightarrow> ExtractBitsNode_invoke d c off w sgnd next
    | AdvancePos n next \<Rightarrow> AdvancePosNode_invoke n next
    | SetEndian e next \<Rightarrow> SetEndianNode_invoke e next
    | ExternalCall func next \<Rightarrow> ExternalCallNode_invoke d func next
    | MatchBytes e is_string next \<Rightarrow> MatchBytesNode_invoke e is_string next
    | Halt \<Rightarrow> HaltNode_invoke)"

definition invoke_dyn :: "deps \<Rightarrow> dkont \<Rightarrow> act" where
  "invoke_dyn d k = (case k of
      ApplyBin op s \<Rightarrow> ApplyBinKont_invoke (d_fl d) op s
    | ApplyUn op \<Rightarrow> apply_unop op
    | EvalLeft s l \<Rightarrow> EvalLeftKont_invoke s l
    | AndCheck r \<Rightarrow> LogicalAndCheckKont_invoke r
    | OrCheck r \<Rightarrow> LogicalOrCheckKont_invoke r
    | Normalize \<Rightarrow> NormalizeKont_invoke
    | TernaryDispatch t f \<Rightarrow> TernaryDispatchKont_invoke t f
    | ArgStore buf i \<Rightarrow> ArgStoreKont_invoke buf i
    | CallApply func buf n \<Rightarrow> CallApplyKont_invoke d func buf n
    | FieldAccessApply field \<Rightarrow> FieldAccessApplyKont_invoke field
    | IndexAccessApply s \<Rightarrow> IndexAccessApplyKont_invoke s
    | CaptureValueApply \<Rightarrow> CaptureValueApplyKont_invoke (d_fl d)
    | ConstraintCheck on_false next \<Rightarrow> EvalConstraintCheckKont_invoke on_false next
    | SwitchSelect cases dflt reject \<Rightarrow> SwitchSelectKont_invoke cases dflt reject
    | BindStore next \<Rightarrow> BindComputeStoreKont_invoke next
    | BeginArrayWithLimit name end_node resync next \<Rightarrow> BeginArrayWithLimitKont_invoke name end_node resync next
    | ArrayCountCheck end_node body \<Rightarrow> ArrayCountCheckKont_invoke end_node body
    | ArrayUntilCheck end_node body \<Rightarrow> ArrayUntilCheckKont_invoke end_node body
    | MatchBytesApply is_string next \<Rightarrow> MatchBytesApplyKont_invoke is_string next
    | SetEndianApply next \<Rightarrow> SetEndianApplyKont_invoke next
    | SeekApply next \<Rightarrow> SeekApplyKont_invoke next
    | PushIntervalApply relative next \<Rightarrow> PushIntervalApplyKont_invoke relative next)"

definition invoke :: "deps \<Rightarrow> kitem \<Rightarrow> act" where
  "invoke d k = (case k of
      Static i \<Rightarrow> (case d_prog d i of E e \<Rightarrow> invoke_expr (d_fl d) e | S s \<Rightarrow> invoke_spine d s)
    | Dyn dk \<Rightarrow> invoke_dyn d dk)"

text \<open>The trampoline of \<open>CEKMachine::execute_from\<close>: one turn of its loop, and the loop with a bound on
  the turns.\<close>

datatype outcome = Finished machine | Undefined | OutOfFuel

definition running :: "machine \<Rightarrow> bool" where
  "running m = (\<not> m_failed m \<and> m_k m \<noteq> [])"

definition turn :: "deps \<Rightarrow> act" where
  "turn d m = invoke d (hd (m_k m)) (m\<lparr>m_k := tl (m_k m)\<rparr>)"

fun trampoline :: "deps \<Rightarrow> nat \<Rightarrow> machine \<Rightarrow> outcome" where
  "trampoline d n m =
     (if \<not> running m then Finished m
      else case n of 0 \<Rightarrow> OutOfFuel
        | Suc k \<Rightarrow> (case turn d m of None \<Rightarrow> Undefined | Some m1 \<Rightarrow> trampoline d k m1))"

declare trampoline.simps [simp del]

definition start_machine :: "kid \<Rightarrow> bytes \<Rightarrow> size_t \<Rightarrow> bool \<Rightarrow> machine \<Rightarrow> machine" where
  "start_machine entry data len le m = m\<lparr>m_input := data, m_len := len, m_pos := 0, m_idepth := 0, m_le := le,
     m_result := None, m_failed := False, m_best_pos := 0, m_best_msg := None, m_k := [Static entry],
     m_builder := b_clear (m_builder m)\<rparr>"

text \<open>A machine as its member initializers leave it.\<close>

definition fresh_machine :: machine where
  "fresh_machine = \<lparr>m_env = [], m_frames = [], m_result = None, m_input = [], m_len = 0, m_pos = 0, m_starts = [],
     m_ends = [], m_idepth = 0, m_le = True, m_builder = \<lparr>b_stack = [], b_roots = [], b_next = 0, b_pending_tag = - 1,
     b_pending_count = None, b_root_derives = DNothing, b_root_determines = None, b_root_bits = False,
     b_root_msb = False\<rparr>, m_failed = False, m_best_pos = 0, m_best_msg = None, m_slots = [], m_k = []\<rparr>"

definition parse_outcome :: "machine \<Rightarrow> parse_result" where
  "parse_outcome m =
     (if m_failed m then b_finish False (m_pos m)
        (case m_best_msg m of Some s \<Rightarrow> Some s | None \<Rightarrow> Some ''parse failed'') (m_best_pos m) (m_builder m)
      else b_finish True (m_pos m) None 0 (m_builder m))"

definition execute_from :: "deps \<Rightarrow> nat \<Rightarrow> kid option \<Rightarrow> bytes \<Rightarrow> size_t \<Rightarrow> bool \<Rightarrow> machine \<Rightarrow> parse_result rr" where
  "execute_from d fuel entry data len le m = (case entry of
      None \<Rightarrow> Got (b_finish False 0 (Some ''no entry kont'') 0 (b_clear (m_builder m)))
    | Some e \<Rightarrow> (case trampoline d fuel (start_machine e data len le m) of
        Finished m1 \<Rightarrow> Got (parse_outcome m1) | Undefined \<Rightarrow> UB | OutOfFuel \<Rightarrow> Rej))"

section \<open>Bundles\<close>

lemmas leaf_defs = IntLitKont_invoke_def BoolLitKont_invoke_def FloatLitKont_invoke_def StrLitKont_invoke_def
  RefKont_invoke_def PosKont_invoke_def RemainingKont_invoke_def EOIKont_invoke_def LoopVarKont_invoke_def
  BufferKont_invoke_def StartKont_invoke_def EndKont_invoke_def PathStartKont_invoke_def

lemmas operator_defs = UnaryKont_invoke_def BinopKont_invoke_def LogicalAndKont_invoke_def LogicalOrKont_invoke_def
  TernaryKont_invoke_def CallKont_invoke_def FieldAccessKont_invoke_def IndexAccessKont_invoke_def
  CaptureValueKont_invoke_def two_phase_def

lemmas apply_defs = ApplyBinKont_invoke_def apply_binop_def arith_apply_def ApplyDivKont_invoke_def
  ApplyModKont_invoke_def bitwise_apply_def ApplyEqKont_invoke_def ApplyNeKont_invoke_def ordered_apply_def
  apply_unop_def ApplyNegKont_invoke_def ApplyBitNotKont_invoke_def ApplyNotKont_invoke_def EvalLeftKont_invoke_def
  LogicalAndCheckKont_invoke_def LogicalOrCheckKont_invoke_def NormalizeKont_invoke_def
  TernaryDispatchKont_invoke_def ArgStoreKont_invoke_def CallApplyKont_invoke_def run_builtin_def builtin_abs_def
  builtin_minmax_def builtin_clamp_def builtin_peek_def FieldAccessApplyKont_invoke_def
  IndexAccessApplyKont_invoke_def CaptureValueApplyKont_invoke_def

lemmas consumer_defs = EvalConstraintCheckKont_invoke_def SwitchSelectKont_invoke_def BindComputeStoreKont_invoke_def
  BeginArrayWithLimitKont_invoke_def ArrayCountCheckKont_invoke_def ArrayUntilCheckKont_invoke_def
  MatchBytesApplyKont_invoke_def SetEndianApplyKont_invoke_def SeekApplyKont_invoke_def PushIntervalApplyKont_invoke_def

lemmas spine_defs = MatchPrimitiveNode_invoke_def CaptureKont_invoke_def StoreEnvKont_invoke_def
  BeginStructNode_invoke_def BeginVariantNode_invoke_def EndStructNode_invoke_def SeekKont_invoke_def
  PushIntervalNode_invoke_def PopIntervalNode_invoke_def EvalConstraintNode_invoke_def BindComputeNode_invoke_def
  InvokeRuleNode_invoke_def ReturnRuleNode_invoke_def OnFailKont_invoke_def AbortRuleKont_invoke_def
  BeginChoiceNode_invoke_def CommitChoiceNode_invoke_def BeginOptionalNode_invoke_def EndOptionalNode_invoke_def
  BeginArrayNode_invoke_def ArrayNextNode_invoke_def EndArrayNode_invoke_def ResyncKont_invoke_def
  SwitchDispatchNode_invoke_def ExtractBitsNode_invoke_def AdvancePosNode_invoke_def SetEndianNode_invoke_def
  ExternalCallNode_invoke_def MatchBytesNode_invoke_def HaltNode_invoke_def

end
