(* ===== verification/CekSafe.thy ===== *)
theory CekSafe
  imports CekSpine
begin

text \<open>
  Soundness of the CEK machine on well-formed graphs. The graphs the compiler emits are typed: an edge
  to an expression leads to an expression, an edge along the spine to a spine kont, what a savepoint
  falls back to is an \<open>OnFail\<close> or a \<open>Resync\<close>, and an \<open>AdvancePos\<close> moves over bytes an \<open>ExtractBits\<close> on
  the way to it has found present. On such a graph every turn keeps the machine's invariant, and a turn
  that has no outcome is one of the named undefined arithmetic operations: no read leaves the input,
  no stack is taken below its bottom, no null kont is pushed.
\<close>

section \<open>Typed graphs\<close>

definition is_e :: "(kid \<Rightarrow> kont) \<Rightarrow> kid \<Rightarrow> bool" where
  "is_e g k = (case g k of E _ \<Rightarrow> True | S _ \<Rightarrow> False)"

definition is_s :: "(kid \<Rightarrow> kont) \<Rightarrow> kid \<Rightarrow> bool" where
  "is_s g k = (\<not> is_e g k)"

definition is_r :: "(kid \<Rightarrow> kont) \<Rightarrow> kid \<Rightarrow> bool" where
  "is_r g k = (case g k of S (OnFail _ _ _) \<Rightarrow> True | S (Resync _ _) \<Rightarrow> True | _ \<Rightarrow> False)"

fun operands :: "ekont \<Rightarrow> kid list" where
  "operands (UnK _ a) = [a]"
| "operands (BinK _ l r) = [l, r]"
| "operands (LAndK l r) = [l, r]"
| "operands (LOrK l r) = [l, r]"
| "operands (TernaryK c t f) = [c, t, f]"
| "operands (CallK _ args) = args"
| "operands (FieldAccess b _) = [b]"
| "operands (IndexAccess b i) = [b, i]"
| "operands (CaptureValue p) = [p]"
| "operands _ = []"

text \<open>A spine target: a spine kont that may be entered with nothing known of the cursor. \<open>nd k\<close> is the
  number of bytes from the cursor on that are known to be there when \<open>k\<close> runs.\<close>

definition target_ok :: "(kid \<Rightarrow> kont) \<Rightarrow> (kid \<Rightarrow> nat) \<Rightarrow> kid \<Rightarrow> bool" where
  "target_ok g nd k = (is_s g k \<and> nd k = 0)"

definition opt_ok :: "('a \<Rightarrow> bool) \<Rightarrow> 'a option \<Rightarrow> bool" where
  "opt_ok P x = (case x of None \<Rightarrow> True | Some y \<Rightarrow> P y)"

definition cases_ok :: "(kid \<Rightarrow> kont) \<Rightarrow> (kid \<Rightarrow> nat) \<Rightarrow> switch_case list \<Rightarrow> bool" where
  "cases_ok g nd cs = list_all (\<lambda>c. target_ok g nd (sc_target c)) cs"

text \<open>A float is 4 or 8 bytes wide.\<close>

definition prim_ok :: "prim_info \<Rightarrow> bool" where
  "prim_ok p = (p_kind p = KFloat \<longrightarrow> p_width p = W32 \<or> p_width p = W64)"

fun spine_ok :: "(kid \<Rightarrow> kont) \<Rightarrow> (kid \<Rightarrow> nat) \<Rightarrow> nat \<Rightarrow> skont \<Rightarrow> bool" where
  "spine_ok g nd n (MatchPrimitive p next) = (prim_ok p \<and> target_ok g nd next)"
| "spine_ok g nd n (Capture name next) = (is_s g next \<and> nd next \<le> n)"
| "spine_ok g nd n (StoreEnv name next) = (is_s g next \<and> nd next \<le> n)"
| "spine_ok g nd n (BeginStruct name next) = target_ok g nd next"
| "spine_ok g nd n (BeginVariant name tag next) = target_ok g nd next"
| "spine_ok g nd n (EndStruct next) = target_ok g nd next"
| "spine_ok g nd n (SeekK e next) = (is_e g e \<and> target_ok g nd next)"
| "spine_ok g nd n (PushInterval e relative next) =
     (is_e g e \<and> target_ok g nd next \<and> count_path_of g e \<noteq> None)"
| "spine_ok g nd n (PopInterval checked next) = target_ok g nd next"
| "spine_ok g nd n (EvalConstraint e on_false next) =
     (is_e g e \<and> opt_ok (target_ok g nd) on_false \<and> is_s g next \<and> nd next \<le> n)"
| "spine_ok g nd n (BindCompute e next) = (is_e g e \<and> target_ok g nd next)"
| "spine_ok g nd n (InvokeRule entry fail_target next) =
     (target_ok g nd entry \<and> opt_ok (target_ok g nd) fail_target \<and> target_ok g nd next)"
| "spine_ok g nd n (ReturnRule next) = target_ok g nd next"
| "spine_ok g nd n (OnFail t next pop) = (opt_ok (target_ok g nd) t \<and> opt_ok (is_r g) next)"
| "spine_ok g nd n AbortRule = True"
| "spine_ok g nd n (BeginChoice on_fail next) = (opt_ok (is_r g) on_fail \<and> target_ok g nd next)"
| "spine_ok g nd n (CommitChoice next) = target_ok g nd next"
| "spine_ok g nd n (BeginOptional on_fail inner next) = (opt_ok (is_r g) on_fail \<and> target_ok g nd inner)"
| "spine_ok g nd n (EndOptional next) = target_ok g nd next"
| "spine_ok g nd n (BeginArray name mode count_expr until_expr end_node resync next) =
     ((mode = FixedCount \<or> mode = CountMode \<longrightarrow> is_e g count_expr \<and> count_path_of g count_expr \<noteq> None) \<and>
      (mode = UntilMode \<longrightarrow> is_e g until_expr) \<and>
      target_ok g nd end_node \<and> opt_ok (is_r g) resync \<and> target_ok g nd next)"
| "spine_ok g nd n (ArrayNext mode count_expr until_expr end_node body resync) =
     ((mode = CountMode \<longrightarrow> is_e g count_expr) \<and> (mode = UntilMode \<longrightarrow> is_e g until_expr) \<and>
      target_ok g nd end_node \<and> target_ok g nd body)"
| "spine_ok g nd n (EndArray resync next) = target_ok g nd next"
| "spine_ok g nd n (Resync body end_node) = (target_ok g nd body \<and> target_ok g nd end_node)"
| "spine_ok g nd n (SwitchDispatch e cs dflt reject) =
     (is_e g e \<and> cases_ok g nd cs \<and> opt_ok (target_ok g nd) dflt)"
| "spine_ok g nd n (ExtractBits c off w sgnd next) =
     (p_kind c = KInteger \<and> 0 \<le> off \<and> 0 < w \<and> w \<noteq> 63 \<and> off + w \<le> int (8 * byte_count c) \<and>
      is_s g next \<and> nd next \<le> max n (byte_count c))"
| "spine_ok g nd n (AdvancePos count next) = (0 \<le> count \<and> nat count \<le> n \<and> target_ok g nd next)"
| "spine_ok g nd n (SetEndian e next) = (is_e g e \<and> target_ok g nd next)"
| "spine_ok g nd n (ExternalCall func next) = target_ok g nd next"
| "spine_ok g nd n (MatchBytes e is_string next) = (is_e g e \<and> target_ok g nd next)"
| "spine_ok g nd n Halt = True"

definition graph_ok :: "(kid \<Rightarrow> kont) \<Rightarrow> (kid \<Rightarrow> nat) \<Rightarrow> bool" where
  "graph_ok g nd = (\<forall>k. case g k of
      E e \<Rightarrow> list_all (is_e g) (operands e)
    | S s \<Rightarrow> spine_ok g nd (nd k) s)"

text \<open>What the machine is given besides the graph: the standard functions or none, and external parsers
  that consume no more than they were handed.\<close>

definition deps_ok :: "deps \<Rightarrow> bool" where
  "deps_ok d = ((d_builtins d = None \<or> d_builtins d = Some builtin_registrations) \<and>
     (\<forall>t name fn bs c. d_ext d = Some t \<longrightarrow> ext_lookup t name = Some fn \<longrightarrow> fn bs = (True, c) \<longrightarrow>
        unat c \<le> length bs))"

section \<open>The invariant\<close>

text \<open>The span of every node lies in the input of \<open>l\<close> bytes, that of a leaf of a fixed width is that many
  bytes, and a leaf ends no earlier than it starts. A struct or an array may: a jump moves the cursor back
  inside it, and \<open>@buffer\<close> makes a bytes node of what lies between the scope's start and the cursor.\<close>

definition span_ok :: "nat \<Rightarrow> attrs \<Rightarrow> bool" where
  "span_ok l a = (unat (nd_start a) \<le> l \<and> unat (nd_end a) \<le> l \<and>
     (leaf_width (nd_type a) \<noteq> 0 \<longrightarrow> unat (nd_end a) = unat (nd_start a) + leaf_width (nd_type a)) \<and>
     (nd_type a \<notin> {CStruct, CArray, CBytes} \<longrightarrow> nd_start a \<le> nd_end a))"

fun node_ok :: "nat \<Rightarrow> node \<Rightarrow> bool" where
  "node_ok l (Node a ks) = (span_ok l a \<and> list_all (node_ok l) ks)"

fun val_ok :: "nat \<Rightarrow> val \<Rightarrow> bool" where
  "val_ok l (CaptureV n) = node_ok l n"
| "val_ok l _ = True"

definition env_ok :: "nat \<Rightarrow> env \<Rightarrow> bool" where
  "env_ok l en = list_all (\<lambda>b. opt_ok (val_ok l) (bd_value b)) en"

definition builder_ok :: "nat \<Rightarrow> builder \<Rightarrow> bool" where
  "builder_ok l b = (list_all (node_ok l) (b_stack b) \<and> list_all (node_ok l) (b_roots b) \<and>
     list_all (\<lambda>n. nd_type (attr n) \<in> {CStruct, CArray}) (b_stack b))"

text \<open>A live savepoint was made with nothing under it on the kont stack.\<close>

fun frame_ok :: "(kid \<Rightarrow> kont) \<Rightarrow> (kid \<Rightarrow> nat) \<Rightarrow> nat \<Rightarrow> nat \<Rightarrow> frame \<Rightarrow> bool" where
  "frame_ok g nd l n (FReturn r) =
     (target_ok g nd (rf_return_to r) \<and> opt_ok (target_ok g nd) (rf_fail_target r) \<and> env_ok l (rf_env r))"
| "frame_ok g nd l n (FSave sp) = (sp_ksize sp = 0 \<and> sp_idepth sp \<le> n \<and> unat (sp_pos sp) \<le> l \<and>
     opt_ok (is_r g) (sp_on_fail sp) \<and> env_ok l (sp_env sp))"
| "frame_ok g nd l n (FLoop lf) = env_ok l (lf_outer_env lf)"

definition input_ok :: "machine \<Rightarrow> bool" where
  "input_ok m = (unat (m_len m) = length (m_input m) \<and> length (m_input m) < 2 ^ 62)"

definition windows_ok :: "machine \<Rightarrow> bool" where
  "windows_ok m = (length (m_starts m) = length (m_ends m) \<and> m_idepth m \<le> length (m_ends m) \<and>
     (\<forall>e \<in> set (m_ends m). e \<le> m_len m))"

definition base_ok :: "(kid \<Rightarrow> kont) \<Rightarrow> (kid \<Rightarrow> nat) \<Rightarrow> machine \<Rightarrow> bool" where
  "base_ok g nd m = (input_ok m \<and> m_pos m \<le> m_len m \<and> windows_ok m \<and>
     (let l = length (m_input m) in
       env_ok l (m_env m) \<and> list_all (frame_ok g nd l (length (m_ends m))) (m_frames m) \<and>
       opt_ok (val_ok l) (m_result m) \<and> list_all (opt_ok (val_ok l)) (m_slots m) \<and> builder_ok l (m_builder m)))"

text \<open>The kont stack: a spine kont alone, or an expression being evaluated above the kont that consumes
  its value, or what a failure left under the kont that recovers from it.\<close>

fun expr_item :: "(kid \<Rightarrow> kont) \<Rightarrow> nat \<Rightarrow> kitem \<Rightarrow> bool" where
  "expr_item g n (Static k) = is_e g k"
| "expr_item g n (Dyn (ApplyBin op s)) = (s < n)"
| "expr_item g n (Dyn (ApplyUn op)) = True"
| "expr_item g n (Dyn (EvalLeft s l)) = (s < n \<and> is_e g l)"
| "expr_item g n (Dyn (AndCheck r)) = is_e g r"
| "expr_item g n (Dyn (OrCheck r)) = is_e g r"
| "expr_item g n (Dyn Normalize) = True"
| "expr_item g n (Dyn (TernaryDispatch t f)) = (is_e g t \<and> is_e g f)"
| "expr_item g n (Dyn (ArgStore buf i)) = (buf + i < n)"
| "expr_item g n (Dyn (CallApply func buf k)) = (buf + max 1 k \<le> n)"
| "expr_item g n (Dyn (FieldAccessApply field)) = True"
| "expr_item g n (Dyn (IndexAccessApply s)) = (s < n)"
| "expr_item g n (Dyn CaptureValueApply) = True"
| "expr_item g n (Dyn _) = False"

text \<open>What consumes the value of an expression. \<open>a\<close> is the number of bytes from the cursor to the end of the
  input: a check between the members of a bit field comes before konts that rely on the container being there.\<close>

fun consumer :: "(kid \<Rightarrow> kont) \<Rightarrow> (kid \<Rightarrow> nat) \<Rightarrow> nat \<Rightarrow> kitem \<Rightarrow> bool" where
  "consumer g nd a (Dyn (ConstraintCheck on_false next)) =
     (opt_ok (target_ok g nd) on_false \<and> is_s g next \<and> nd next \<le> a)"
| "consumer g nd a (Dyn (SwitchSelect cs dflt reject)) = (cases_ok g nd cs \<and> opt_ok (target_ok g nd) dflt)"
| "consumer g nd a (Dyn (BindStore next)) = target_ok g nd next"
| "consumer g nd a (Dyn (BeginArrayWithLimit name end_node resync next)) =
     (target_ok g nd end_node \<and> opt_ok (is_r g) resync \<and> target_ok g nd next)"
| "consumer g nd a (Dyn (ArrayCountCheck end_node body)) = (target_ok g nd end_node \<and> target_ok g nd body)"
| "consumer g nd a (Dyn (ArrayUntilCheck end_node body)) = (target_ok g nd end_node \<and> target_ok g nd body)"
| "consumer g nd a (Dyn (MatchBytesApply is_string next)) = target_ok g nd next"
| "consumer g nd a (Dyn (SetEndianApply next)) = target_ok g nd next"
| "consumer g nd a (Dyn (SeekApply next)) = target_ok g nd next"
| "consumer g nd a (Dyn (PushIntervalApply relative next)) = target_ok g nd next"
| "consumer g nd a _ = False"

abbreviation ahead :: "machine \<Rightarrow> nat" where
  "ahead m \<equiv> length (m_input m) - unat (m_pos m)"

inductive estack :: "(kid \<Rightarrow> kont) \<Rightarrow> (kid \<Rightarrow> nat) \<Rightarrow> nat \<Rightarrow> nat \<Rightarrow> kitem list \<Rightarrow> bool" for g nd a n where
  bottom: "consumer g nd a c \<Longrightarrow> estack g nd a n [c]"
| above: "expr_item g n x \<Longrightarrow> estack g nd a n xs \<Longrightarrow> estack g nd a n (x # xs)"

inductive_cases estack_nil [elim!]: "estack g nd a n []"

inductive kshape :: "(kid \<Rightarrow> kont) \<Rightarrow> (kid \<Rightarrow> nat) \<Rightarrow> machine \<Rightarrow> kitem list \<Rightarrow> bool" for g nd m where
  done_: "kshape g nd m []"
| spine: "is_s g k \<Longrightarrow> unat (m_pos m) + nd k \<le> length (m_input m) \<Longrightarrow> kshape g nd m [Static k]"
| expr: "estack g nd (ahead m) (length (m_slots m)) ks \<Longrightarrow> kshape g nd m ks"
| recover: "is_r g t \<Longrightarrow> kshape g nd m (Static t # junk)"

definition machine_ok :: "deps \<Rightarrow> (kid \<Rightarrow> nat) \<Rightarrow> machine \<Rightarrow> bool" where
  "machine_ok d nd m = (base_ok (d_prog d) nd m \<and> (m_failed m \<or> kshape (d_prog d) nd m (m_k m)))"

section \<open>What a turn has to show\<close>

text \<open>\<open>sound\<close>: the turn has an outcome, and it is good; \<open>harmless\<close>: if it has one.\<close>

definition mok :: "(kid \<Rightarrow> kont) \<Rightarrow> (kid \<Rightarrow> nat) \<Rightarrow> machine \<Rightarrow> bool" where
  "mok g nd m = (base_ok g nd m \<and> (m_failed m \<or> kshape g nd m (m_k m)))"

definition sound :: "(kid \<Rightarrow> kont) \<Rightarrow> (kid \<Rightarrow> nat) \<Rightarrow> machine option \<Rightarrow> bool" where
  "sound g nd r = (case r of None \<Rightarrow> False | Some m \<Rightarrow> mok g nd m)"

definition harmless :: "(kid \<Rightarrow> kont) \<Rightarrow> (kid \<Rightarrow> nat) \<Rightarrow> machine option \<Rightarrow> bool" where
  "harmless g nd r = (case r of None \<Rightarrow> True | Some m \<Rightarrow> mok g nd m)"

lemma machine_ok_mok: "machine_ok d nd m = mok (d_prog d) nd m"
  by (simp add: machine_ok_def mok_def)

lemma sound_safe: "sound g nd r \<Longrightarrow> harmless g nd r"
  by (simp add: sound_def harmless_def split: option.splits)

lemma safe_None [simp]: "harmless g nd None"
  by (simp add: harmless_def)

lemma opt_ok_simps [simp]: "opt_ok P None" "opt_ok P (Some x) = P x"
  by (simp_all add: opt_ok_def)

lemma target_is_s [simp]: "target_ok g nd k \<Longrightarrow> is_s g k"
  by (simp add: target_ok_def)

lemma is_r_is_s: "is_r g k \<Longrightarrow> is_s g k"
  by (simp add: is_r_def is_s_def is_e_def split: kont.splits)

text \<open>\<open>base_ok\<close> does not look at the kont stack, the failure register or the byte order.\<close>

lemma base_ok_k [simp]: "base_ok g nd (m\<lparr>m_k := ks\<rparr>) = base_ok g nd m"
  by (simp add: base_ok_def input_ok_def windows_ok_def Let_def)

lemma base_ok_misc [simp]:
  "base_ok g nd (m\<lparr>m_failed := b\<rparr>) = base_ok g nd m"
  "base_ok g nd (m\<lparr>m_le := b\<rparr>) = base_ok g nd m"
  "base_ok g nd (m\<lparr>m_best_pos := p\<rparr>) = base_ok g nd m"
  "base_ok g nd (m\<lparr>m_best_msg := s\<rparr>) = base_ok g nd m"
  by (simp_all add: base_ok_def input_ok_def windows_ok_def)

lemma base_ok_res: "base_ok g nd m \<Longrightarrow> opt_ok (val_ok (length (m_input m))) v \<Longrightarrow> base_ok g nd (set_res v m)"
  by (simp add: base_ok_def input_ok_def windows_ok_def set_res_def Let_def)

lemma base_ok_frames:
  "base_ok g nd m \<Longrightarrow> list_all (frame_ok g nd (length (m_input m)) (length (m_ends m))) fs \<Longrightarrow>
   base_ok g nd (m\<lparr>m_frames := fs\<rparr>)"
  by (simp add: base_ok_def input_ok_def windows_ok_def Let_def)

lemma base_ok_pos: "base_ok g nd m \<Longrightarrow> p \<le> m_len m \<Longrightarrow> base_ok g nd (m\<lparr>m_pos := p\<rparr>)"
  by (simp add: base_ok_def input_ok_def windows_ok_def Let_def)

lemma base_ok_env: "base_ok g nd m \<Longrightarrow> env_ok (length (m_input m)) en \<Longrightarrow> base_ok g nd (m\<lparr>m_env := en\<rparr>)"
  by (simp add: base_ok_def input_ok_def windows_ok_def Let_def)

lemma base_ok_builder:
  "base_ok g nd m \<Longrightarrow> builder_ok (length (m_input m)) b \<Longrightarrow> base_ok g nd (m\<lparr>m_builder := b\<rparr>)"
  by (simp add: base_ok_def input_ok_def windows_ok_def Let_def)

lemma base_ok_depth: "base_ok g nd m \<Longrightarrow> n \<le> length (m_ends m) \<Longrightarrow> base_ok g nd (m\<lparr>m_idepth := n\<rparr>)"
  by (simp add: base_ok_def input_ok_def windows_ok_def Let_def)

lemma base_ok_slots:
  "base_ok g nd m \<Longrightarrow> list_all (opt_ok (val_ok (length (m_input m)))) ss \<Longrightarrow> base_ok g nd (m\<lparr>m_slots := ss\<rparr>)"
  by (simp add: base_ok_def input_ok_def windows_ok_def Let_def)

lemma base_ok_parts:
  assumes "base_ok g nd m"
  shows "unat (m_len m) = length (m_input m)" "length (m_input m) < 2 ^ 62" "m_pos m \<le> m_len m"
    "unat (m_pos m) \<le> length (m_input m)"
    "length (m_starts m) = length (m_ends m)" "m_idepth m \<le> length (m_ends m)" "\<forall>e \<in> set (m_ends m). e \<le> m_len m"
    "env_ok (length (m_input m)) (m_env m)"
    "list_all (frame_ok g nd (length (m_input m)) (length (m_ends m))) (m_frames m)"
    "opt_ok (val_ok (length (m_input m))) (m_result m)"
    "list_all (opt_ok (val_ok (length (m_input m)))) (m_slots m)"
    "builder_ok (length (m_input m)) (m_builder m)"
  using assms by (auto simp: base_ok_def input_ok_def windows_ok_def Let_def word_le_nat_alt)

section \<open>Failing\<close>

lemma unwind_ok:
  "list_all (frame_ok g nd l n) fs \<Longrightarrow> unwind fs = Some (t, fs') \<Longrightarrow> is_r g t \<and> list_all (frame_ok g nd l n) fs'"
  by (induction fs rule: unwind.induct) (auto split: option.splits)

lemma mok_fail: "base_ok g nd m \<Longrightarrow> mok g nd (m_fail msg m)"
proof -
  assume b: "base_ok g nd m"
  define m1 where "m1 = (if m_best_pos m \<le> m_pos m then m\<lparr>m_best_pos := m_pos m, m_best_msg := Some msg\<rparr> else m)"
  have b1: "base_ok g nd m1" and f1: "m_frames m1 = m_frames m" and i1: "m_input m1 = m_input m" "m_ends m1 = m_ends m"
    using b by (simp_all add: m1_def)
  show ?thesis
  proof (cases "unwind (m_frames m1)")
    case None
    then have "m_fail msg m = m1\<lparr>m_frames := [], m_failed := True\<rparr>"
      unfolding m_fail_def m1_def [symmetric] by simp
    then show ?thesis using base_ok_frames [OF b1, of "[]"] by (simp add: mok_def)
  next
    case (Some p)
    obtain t fs where p: "p = (t, fs)" by fastforce
    have e: "m_fail msg m = push_kont (Static t) (m1\<lparr>m_frames := fs\<rparr>)"
      unfolding m_fail_def m1_def [symmetric] using Some p by simp
    have "is_r g t" "list_all (frame_ok g nd (length (m_input m1)) (length (m_ends m1))) fs"
      using unwind_ok base_ok_parts(9) [OF b1] Some p by blast+
    then show ?thesis
      using base_ok_frames [OF b1] by (auto simp: mok_def e push_kont_def intro: kshape.recover)
  qed
qed

lemma sound_fail [intro]: "base_ok g nd m \<Longrightarrow> sound g nd (failing msg m)"
  by (simp add: sound_def failing_def mok_fail)

section \<open>Scheduling\<close>

lemma sound_next:
  "base_ok g nd m \<Longrightarrow> target_ok g nd k \<Longrightarrow> m_k m = [] \<Longrightarrow> sound g nd (pushing [Static k] m)"
  using base_ok_parts(4) [of g nd m]
  by (simp add: sound_def pushing_def push_kont_def mok_def kshape.spine target_ok_def)

lemma sound_need:
  "base_ok g nd m \<Longrightarrow> is_s g k \<Longrightarrow> unat (m_pos m) + nd k \<le> length (m_input m) \<Longrightarrow> m_k m = [] \<Longrightarrow>
   sound g nd (pushing [Static k] m)"
  by (simp add: sound_def pushing_def push_kont_def mok_def kshape.spine)

lemma sound_site:
  "base_ok g nd m \<Longrightarrow> consumer g nd (ahead m) c \<Longrightarrow> is_e g e \<Longrightarrow> m_k m = [] \<Longrightarrow> sound g nd (pushing [c, Static e] m)"
  by (auto simp: sound_def pushing_def push_kont_def mok_def intro!: kshape.expr estack.intros)

lemma sound_value:
  "base_ok g nd m \<Longrightarrow> val_ok (length (m_input m)) v \<Longrightarrow> estack g nd (ahead m) (length (m_slots m)) (m_k m) \<Longrightarrow>
   sound g nd (ac v m)"
  using base_ok_res [of g nd m "Some v"]
  by (auto simp: sound_def ac_def mok_def set_res_def intro!: kshape.expr)

lemma fold_push: "fold push_kont ks m = m\<lparr>m_k := rev ks @ m_k m\<rparr>"
  by (induction ks arbitrary: m) (simp_all add: push_kont_def)

lemma estack_app:
  "list_all (expr_item g n) xs \<Longrightarrow> estack g nd a n ys \<Longrightarrow> estack g nd a n (xs @ ys)"
  by (induction xs) (auto intro: estack.above)

lemma expr_item_mono: "expr_item g n x \<Longrightarrow> n \<le> n' \<Longrightarrow> expr_item g n' x"
  by (induction g n x rule: expr_item.induct) auto

lemma estack_mono: "estack g nd a n ks \<Longrightarrow> n \<le> n' \<Longrightarrow> estack g nd a n' ks"
  by (induction rule: estack.induct) (auto intro: estack.intros expr_item_mono)

lemma sound_items:
  "base_ok g nd m \<Longrightarrow> list_all (expr_item g (length (m_slots m))) ks \<Longrightarrow> estack g nd (ahead m) (length (m_slots m)) (m_k m) \<Longrightarrow>
   sound g nd (pushing ks m)"
  by (auto simp: sound_def pushing_def fold_push mok_def intro!: kshape.expr estack_app)

section \<open>The builder keeps its nodes\<close>

lemma node_ok_attr: "node_ok l n = (span_ok l (attr n) \<and> list_all (node_ok l) (kids n))"
  by (cases n) simp

declare node_ok.simps [simp del] leaf_width.simps [simp del]

lemma span_fixed: "span_ok l a \<Longrightarrow> unat (nd_start a) + leaf_width (nd_type a) \<le> l \<or> leaf_width (nd_type a) = 0"
  by (auto simp: span_ok_def)

lemma leaf_width_none [simp]: "leaf_width CStruct = 0" "leaf_width CArray = 0" "leaf_width CBytes = 0"
  "leaf_width CString = 0" "leaf_width CComputed = 0" "leaf_width CExternal = 0"
  by (simp_all add: leaf_width.simps)

lemma list_all_take: "list_all P xs \<Longrightarrow> list_all P (take n xs)"
  by (auto simp: list_all_iff dest: in_set_takeD)

lemma list_all_drop: "list_all P xs \<Longrightarrow> list_all P (drop n xs)"
  by (auto simp: list_all_iff dest: in_set_dropD)

lemma current_ok: "builder_ok l b \<Longrightarrow> list_all (node_ok l) (current b)"
  by (auto simp: builder_ok_def current_def node_ok_attr split: list.splits)

lemma on_current_ok:
  "builder_ok l b \<Longrightarrow> (list_all (node_ok l) (current b) \<Longrightarrow> list_all (node_ok l) (f (current b))) \<Longrightarrow>
   builder_ok l (on_current f b)"
  using current_ok [of l b]
  by (auto simp: builder_ok_def on_current_def current_def node_ok_attr split: list.splits)

lemma restore_ok: "builder_ok l b \<Longrightarrow> builder_ok l (b_restore mk b)"
proof -
  assume b: "builder_ok l b"
  define b1 where "b1 = (if mk_depth mk < length (b_stack b)
    then b\<lparr>b_stack := drop (length (b_stack b) - mk_depth mk) (b_stack b)\<rparr> else b)"
  have "builder_ok l b1" using b by (simp add: b1_def builder_ok_def list_all_drop)
  then show ?thesis unfolding b_restore_def b1_def [symmetric] Let_def
    by (auto intro: on_current_ok list_all_take)
qed

lemma attach_ok: "builder_ok l b \<Longrightarrow> node_ok l n \<Longrightarrow> builder_ok l (attach n b)"
  by (auto simp: attach_def intro: on_current_ok)

lemma pending_ok [simp]:
  "builder_ok l (b\<lparr>b_pending_tag := t\<rparr>) = builder_ok l b" "builder_ok l (b\<lparr>b_pending_count := c\<rparr>) = builder_ok l b"
  "builder_ok l (b\<lparr>b_next := n\<rparr>) = builder_ok l b" "builder_ok l (b\<lparr>b_root_bits := x\<rparr>) = builder_ok l b"
  "builder_ok l (b\<lparr>b_root_msb := x\<rparr>) = builder_ok l b"
  "builder_ok l (b\<lparr>b_root_derives := dv\<rparr>) = builder_ok l b"
  "builder_ok l (b\<lparr>b_root_determines := s\<rparr>) = builder_ok l b"
  by (simp_all add: builder_ok_def)

lemma open_ok:
  "builder_ok l b \<Longrightarrow> t \<in> {CStruct, CArray} \<Longrightarrow> unat p \<le> l \<Longrightarrow> builder_ok l (open_node name t p tag b)"
  by (auto simp: open_node_def builder_ok_def node_ok_attr span_ok_def)

lemma close_ok:
  assumes "builder_ok l b" "unat p \<le> l"
  shows "builder_ok l (close_node p b)"
proof (cases "b_stack b")
  case (Cons n ns)
  then have "node_ok l (on_attr (\<lambda>a. a\<lparr>nd_end := p\<rparr>) n)"
    using assms by (auto simp: builder_ok_def on_attr_def node_ok_attr span_ok_def)
  moreover have "builder_ok l (b\<lparr>b_stack := ns\<rparr>)" using assms(1) Cons by (simp add: builder_ok_def)
  ultimately show ?thesis using Cons by (simp add: close_node_def attach_ok)
qed (use assms in \<open>simp add: close_node_def\<close>)

lemma open_scope_ok:
  "builder_ok l b \<Longrightarrow> (\<And>a. nd_type (f a) = nd_type a \<and> nd_start (f a) = nd_start a \<and> nd_end (f a) = nd_end a) \<Longrightarrow>
   builder_ok l (on_open_scope f b)"
  by (auto simp: on_open_scope_def builder_ok_def on_attr_def node_ok_attr span_ok_def split: list.splits)

lemma scope_ops_ok:
  "builder_ok l b \<Longrightarrow> builder_ok l (scope_is_bits_run msb b)"
  "builder_ok l b \<Longrightarrow> builder_ok l (scope_determines_rest s b)"
  by (auto simp: scope_is_bits_run_def scope_determines_rest_def root_determines_def intro: open_scope_ok)

lemma begin_ok:
  "builder_ok l b \<Longrightarrow> unat p \<le> l \<Longrightarrow> builder_ok l (begin_struct name p b)"
  "builder_ok l b \<Longrightarrow> unat p \<le> l \<Longrightarrow> builder_ok l (begin_variant name p tag b)"
  "builder_ok l b \<Longrightarrow> unat p \<le> l \<Longrightarrow> builder_ok l (begin_array name p b)"
  by (auto simp: begin_struct_def begin_variant_def begin_array_def take_pending_tag_def Let_def
      intro!: open_ok open_scope_ok split: option.splits)

lemma end_ok:
  "builder_ok l b \<Longrightarrow> unat p \<le> l \<Longrightarrow> builder_ok l (end_struct p b)"
  "builder_ok l b \<Longrightarrow> unat p \<le> l \<Longrightarrow> builder_ok l (end_array p b)"
  by (simp_all add: end_struct_def end_array_def close_ok)

lemma pending_ops_ok:
  "builder_ok l b \<Longrightarrow> builder_ok l (set_pending_variant_tag t b)"
  "builder_ok l b \<Longrightarrow> builder_ok l (set_pending_count_field s b)"
  by (simp_all add: set_pending_variant_tag_def set_pending_count_field_def)

lemma add_field_ok:
  "builder_ok l b \<Longrightarrow> span_ok l a \<Longrightarrow> builder_ok l (add_field name (nd_start a) (nd_end a) (nd_type a) v b)"
  by (auto simp: add_field_def take_pending_tag_def node_ok_attr span_ok_def intro!: attach_ok)

lemma on_last_ok:
  assumes "builder_ok l b"
    and "\<And>a. nd_type (f a) = nd_type a \<and> nd_start (f a) = nd_start a \<and> nd_end (f a) = nd_end a"
  shows "builder_ok l (on_last f b)"
  unfolding on_last_def
proof (rule on_current_ok [OF assms(1)])
  assume c: "list_all (node_ok l) (current b)"
  show "list_all (node_ok l) (if current b = [] then [] else butlast (current b) @ [on_attr f (last (current b))])"
  proof (cases "current b = []")
    case False
    then have "node_ok l (last (current b))" "list_all (node_ok l) (butlast (current b))"
      using c by (auto simp: list_all_iff dest: in_set_butlastD)
    then show ?thesis using False assms(2) by (simp add: on_attr_def node_ok_attr span_ok_def)
  qed simp
qed

lemma find_ok: "list_all P xs \<Longrightarrow> find Q xs = Some x \<Longrightarrow> P x"
  by (auto simp: list_all_iff find_Some_iff)

lemma last_named_ok: "list_all (node_ok l) ns \<Longrightarrow> last_named name ns = Some n \<Longrightarrow> node_ok l n"
  using find_ok [of "node_ok l" "rev ns"] by (auto simp: last_named_def)

lemma lookup_scopes_ok:
  "list_all (node_ok l) ss \<Longrightarrow> list_all (node_ok l) rs \<Longrightarrow> lookup_scopes name ss rs = Some n \<Longrightarrow> node_ok l n"
proof (induction ss)
  case Nil
  then show ?case using last_named_ok by simp
next
  case (Cons s ss)
  then have "list_all (node_ok l) (kids s)" by (simp add: node_ok_attr)
  then show ?case using Cons last_named_ok [of l "kids s" name n] by (simp split: option.splits)
qed

lemma find_field_ok: "builder_ok l b \<Longrightarrow> find_field name b = Some n \<Longrightarrow> node_ok l n"
  unfolding builder_ok_def find_field_def using lookup_scopes_ok by blast

lemma node_ok_kids: "node_ok l p \<Longrightarrow> list_all (node_ok l) (kids p)"
  by (simp add: node_ok_attr)

lemma find_child_ok: "node_ok l p \<Longrightarrow> find_child p name = Some n \<Longrightarrow> node_ok l n"
  unfolding find_child_def by (blast intro: find_ok node_ok_kids)

lemma find_child_at_ok: "node_ok l p \<Longrightarrow> find_child_at p i = Some n \<Longrightarrow> node_ok l n"
  by (auto simp: find_child_at_def list_all_iff split: if_splits dest!: node_ok_kids)

lemma carrier_ok:
  assumes "base_ok g nd m"
    and "node_ok (length (m_input m)) (Node (f (new_attrs (b_next (m_builder m)))) [])"
  shows "base_ok g nd (carrier f m)"
  using base_ok_builder [OF assms(1), of "(m_builder m)\<lparr>b_next := b_next (m_builder m) + 1\<rparr>"] assms
    base_ok_parts(12) [OF assms(1)]
  by (auto simp: carrier_def make_free_def on_attr_def intro!: base_ok_res)

lemma carrier_k [simp]: "m_k (carrier f m) = m_k m" "m_slots (carrier f m) = m_slots m"
  "m_input (carrier f m) = m_input m" "m_pos (carrier f m) = m_pos m"
  by (simp_all add: carrier_def make_free_def set_res_def)

section \<open>Windows and slots\<close>

lemma ends_ok:
  assumes "base_ok g nd m"
  obtains e where "m_effective_end m = Some e" "e \<le> m_len m"
proof (cases "m_idepth m = 0")
  case True
  then show ?thesis using that [of "m_len m"] by (simp add: m_effective_end_def)
next
  case False
  then show ?thesis using that [of "m_ends m ! (m_idepth m - 1)"] base_ok_parts(6,7) [OF assms]
    by (simp add: m_effective_end_def)
qed

lemma starts_ok:
  assumes "base_ok g nd m"
  obtains s where "m_effective_start m = Some s"
  using base_ok_parts(5,6) [OF assms] that [of 0] that [of "m_starts m ! (m_idepth m - 1)"]
  by (cases "m_idepth m = 0") (simp_all add: m_effective_start_def)

lemma slot_ok:
  assumes "base_ok g nd m" "s < length (m_slots m)"
  shows "slot s m = Some (m_slots m ! s)" "opt_ok (val_ok (length (m_input m))) (m_slots m ! s)"
  using base_ok_parts(11) [OF assms(1)] assms(2) by (auto simp: slot_def list_all_iff)

lemma span_in: "unat p + n \<le> length b \<Longrightarrow> span_at n b p = Some (slice (unat p) n b)"
  by (simp add: span_at_def)

section \<open>Expression konts\<close>

lemma base_ok_new_slots:
  assumes "base_ok g nd m" "new_slots n m = (s, m1)"
  shows "base_ok g nd m1" "s = length (m_slots m)" "length (m_slots m1) = length (m_slots m) + n" "m_k m1 = m_k m"
    "m_input m1 = m_input m" "m_pos m1 = m_pos m"
  using assms base_ok_parts(11) [OF assms(1)]
  by (auto simp: new_slots_def list_all_iff intro!: base_ok_slots)

lemma sound_two_phase:
  assumes "base_ok g nd m" "estack g nd (ahead m) (length (m_slots m)) (m_k m)" "is_e g l" "is_e g r"
    and "\<And>s n. expr_item g n (Dyn (ak s)) = (s < n)"
  shows "sound g nd (two_phase ak l r m)"
proof -
  obtain s m1 where n: "new_slots 1 m = (s, m1)" by fastforce
  note b = base_ok_new_slots [OF assms(1) n]
  have "estack g nd (ahead m1) (length (m_slots m1)) (m_k m1)" using estack_mono [OF assms(2)] b by simp
  then show ?thesis using assms b n by (auto simp: two_phase_def intro!: sound_items)
qed

lemma push_args_k: "push_args buf i args m = m\<lparr>m_k :=
    concat (map (\<lambda>(j, a). [Static a, Dyn (ArgStore buf j)]) (zip [i..<i + length args] args)) @ m_k m\<rparr>"
proof (induction args arbitrary: i)
  case Nil
  then show ?case by simp
next
  case (Cons a args)
  have "[i..<i + length (a # args)] = i # [Suc i..<Suc i + length args]"
    using upt_conv_Cons [of i "i + length (a # args)"] by simp
  then show ?case using Cons.IH [of "Suc i"] by (simp add: push_kont_def)
qed

lemma sound_call:
  assumes "base_ok g nd m" "estack g nd (ahead m) (length (m_slots m)) (m_k m)" "list_all (is_e g) args"
  shows "sound g nd (CallKont_invoke func args m)"
proof -
  obtain buf m1 where n: "new_slots (if args = [] then 1 else length args) m = (buf, m1)" by fastforce
  note b = base_ok_new_slots [OF assms(1) n]
  have mx: "buf + max 1 (length args) \<le> length (m_slots m1)" using b(2,3) by (cases args) auto
  let ?c = "Dyn (CallApply func buf (length args))"
  let ?items = "concat (map (\<lambda>(j, a). [Static a, Dyn (ArgStore buf j)]) (zip [0..<0 + length args] args))"
  have "list_all (expr_item g (length (m_slots m1))) ?items"
    using assms(3) mx by (fastforce simp: list_all_iff in_set_zip)
  moreover have "estack g nd (ahead m1) (length (m_slots m1)) (?c # m_k m1)"
    using estack_mono [OF assms(2)] b mx by (auto intro: estack.above)
  ultimately have "estack g nd (ahead m1) (length (m_slots m1)) (?items @ ?c # m_k m1)" by (rule estack_app)
  then show ?thesis using b(1) n
    by (auto simp: CallKont_invoke_def sound_def push_args_k push_kont_def mok_def intro!: kshape.expr)
qed

lemma expr_sound:
  assumes b: "base_ok g nd m" and k: "estack g nd (ahead m) (length (m_slots m)) (m_k m)"
    and e: "list_all (is_e g) (operands e)"
  shows "sound g nd (invoke_expr fl e m)"
proof -
  obtain w where w: "m_effective_end m = Some w" using ends_ok [OF b] .
  note v = sound_value [OF b _ k] and it = sound_items [OF b _ k]
  have env: "env_ok (length (m_input m)) (m_env m)" using base_ok_parts(8) [OF b] .
  show ?thesis
  proof (cases e)
    case (Ref name r)
    have "opt_ok (val_ok (length (m_input m))) (bd_value x)" if "env_lookup (m_env m) name = Some x" for x
      using that env find_ok [of "\<lambda>b. opt_ok (val_ok (length (m_input m))) (bd_value b)"]
      unfolding env_lookup_def env_ok_def by blast
    then have "sound g nd (Some (set_res (bd_value x) m))" if "env_lookup (m_env m) name = Some x" for x
      using that base_ok_res [OF b] k by (auto simp: sound_def mok_def set_res_def intro!: kshape.expr)
    then show ?thesis using Ref b
      by (auto simp: invoke_expr_def RefKont_invoke_def split: option.splits)
  next
    case BufferK
    have "unat (current_scope_start (m_builder m)) \<le> length (m_input m)"
      using base_ok_parts(12) [OF b]
      by (auto simp: current_scope_start_def builder_ok_def node_ok_attr span_ok_def split: list.splits)
    then have "base_ok g nd (carrier (\<lambda>a. a\<lparr>nd_start := current_scope_start (m_builder m), nd_end := m_pos m,
        nd_type := CBytes\<rparr>) m)"
      using base_ok_parts(4) [OF b] by (intro carrier_ok [OF b]) (simp add: node_ok_attr span_ok_def)
    then show ?thesis using BufferK k
      by (auto simp: invoke_expr_def BufferKont_invoke_def sound_def mok_def intro!: kshape.expr)
  next
    case (PathStart name)
    then show ?thesis using b v find_field_ok [OF base_ok_parts(12) [OF b], of name]
      by (auto simp: invoke_expr_def PathStartKont_invoke_def split: option.splits)
  qed (use b e w k in \<open>auto simp: invoke_expr_def IntLitKont_invoke_def BoolLitKont_invoke_def
      FloatLitKont_invoke_def StrLitKont_invoke_def PosKont_invoke_def RemainingKont_invoke_def EOIKont_invoke_def
      LoopVarKont_invoke_def StartKont_invoke_def EndKont_invoke_def UnaryKont_invoke_def BinopKont_invoke_def
      LogicalAndKont_invoke_def LogicalOrKont_invoke_def TernaryKont_invoke_def FieldAccessKont_invoke_def
      IndexAccessKont_invoke_def CaptureValueKont_invoke_def split: option.splits
      intro!: v it sound_two_phase sound_call\<close>)
qed

section \<open>The konts above a consumer\<close>

text \<open>The operations whose C++ is undefined on some values of their operands.\<close>

fun may_overflow :: "dkont \<Rightarrow> bool" where
  "may_overflow (ApplyBin op _) = (op \<in> {Add, Sub, Mul, Div, Mod, Shl, Shr})"
| "may_overflow (ApplyUn op) = (op = Neg)"
| "may_overflow (CallApply _ _ _) = True"
| "may_overflow _ = False"

lemma sound_set:
  "base_ok g nd m \<Longrightarrow> opt_ok (val_ok (length (m_input m))) v \<Longrightarrow> estack g nd (ahead m) (length (m_slots m)) (m_k m) \<Longrightarrow>
   sound g nd (Some (set_res v m))"
  using base_ok_res [of g nd m v] by (auto simp: sound_def mok_def set_res_def intro!: kshape.expr)

lemma lift_ok: "opt_ok (val_ok l) (lift_computed c)"
  by (simp add: lift_computed_def split: option.splits computed.splits)

lemma safe_ac_int:
  "base_ok g nd m \<Longrightarrow> estack g nd (ahead m) (length (m_slots m)) (m_k m) \<Longrightarrow> harmless g nd (ac_int x m)"
  by (auto simp: ac_int_def split: option.splits intro!: sound_safe sound_value)

lemma binop_safe:
  assumes "base_ok g nd m" "estack g nd (ahead m) (length (m_slots m)) (m_k m)"
  shows "harmless g nd (apply_binop fl op rhs m)"
    and "\<not> may_overflow (ApplyBin op s) \<Longrightarrow> sound g nd (apply_binop fl op rhs m)"
proof -
  note v = sound_value [OF assms(1) _ assms(2)] sound_fail [OF assms(1)]
  note defs = apply_binop_def arith_apply_def ApplyDivKont_invoke_def ApplyModKont_invoke_def bitwise_apply_def
    ApplyEqKont_invoke_def ApplyNeKont_invoke_def ordered_apply_def
  show "harmless g nd (apply_binop fl op rhs m)"
    using v safe_ac_int [OF assms]
    by (cases op) (auto simp: defs split: option.splits val.splits intro: sound_safe)
  show "sound g nd (apply_binop fl op rhs m)" if "\<not> may_overflow (ApplyBin op s)"
    using that v by (cases op) (auto simp: defs split: option.splits val.splits)
qed

lemma unop_safe:
  assumes "base_ok g nd m" "estack g nd (ahead m) (length (m_slots m)) (m_k m)"
  shows "harmless g nd (apply_unop op m)" and "\<not> may_overflow (ApplyUn op) \<Longrightarrow> sound g nd (apply_unop op m)"
proof -
  note v = sound_value [OF assms(1) _ assms(2)] sound_fail [OF assms(1)]
  note defs = apply_unop_def ApplyNegKont_invoke_def ApplyBitNotKont_invoke_def ApplyNotKont_invoke_def
  show "harmless g nd (apply_unop op m)"
    using v safe_ac_int [OF assms]
    by (cases op) (auto simp: defs split: option.splits val.splits intro: sound_safe)
  show "sound g nd (apply_unop op m)" if "\<not> may_overflow (ApplyUn op)"
    using that v by (cases op) (auto simp: defs split: option.splits val.splits)
qed

lemma peek_sound:
  assumes "base_ok g nd m" "estack g nd (ahead m) (length (m_slots m)) (m_k m)"
  shows "sound g nd (builtin_peek m)"
proof -
  obtain w where w: "m_effective_end m = Some w" "w \<le> m_len m" using ends_ok [OF assms(1)] .
  have "unat (m_pos m) + 1 \<le> length (m_input m)" if "\<not> w \<le> m_pos m"
    using that w base_ok_parts(1) [OF assms(1)] by (simp add: word_le_nat_alt)
  then show ?thesis
    using assms w by (auto simp: builtin_peek_def span_in intro: sound_value)
qed

lemma builtin_safe:
  assumes "base_ok g nd m" "estack g nd (ahead m) (length (m_slots m)) (m_k m)"
    and "builtin_lookup builtin_registrations func n = Some f" "buf + max 1 n \<le> length (m_slots m)"
  shows "harmless g nd (run_builtin fl f buf m)"
proof -
  have "(f = BAbs \<and> n = 1) \<or> (f = BMin \<and> n = 2) \<or> (f = BMax \<and> n = 2) \<or> (f = BClamp \<and> n = 3) \<or> f = BPeek"
    using assms(3) by (auto simp: builtin_lookup_def builtin_registrations_def split: if_splits)
  then show ?thesis
    using assms slot_ok(1) [OF assms(1)] sound_value [OF assms(1) _ assms(2)] safe_ac_int [OF assms(1,2)]
      peek_sound [OF assms(1,2)]
    by (elim disjE) (auto simp: run_builtin_def builtin_abs_def builtin_minmax_def builtin_clamp_def
        split: option.splits val.splits intro: sound_safe)
qed

lemma decode_safe:
  assumes "unat p + leaf_width t \<le> length b \<or> leaf_width t = 0"
  shows "\<not> is_float_type t \<Longrightarrow> decode_int_at b p t \<noteq> UB" and "is_float_type t \<Longrightarrow> decode_float_at w b p t \<noteq> UB"
proof -
  note defs = got_def rd_u8_def rd_u16le_def rd_u16be_def rd_u32le_def rd_u32be_def rd_u64le_def rd_u64be_def
    span_at_def leaf_width.simps is_float_type_def
  show "\<not> is_float_type t \<Longrightarrow> decode_int_at b p t \<noteq> UB" using assms by (cases t) (simp_all add: defs)
  show "is_float_type t \<Longrightarrow> decode_float_at w b p t \<noteq> UB" using assms by (cases t) (simp_all add: defs)
qed

lemma capture_value_sound:
  assumes "base_ok g nd m" "estack g nd (ahead m) (length (m_slots m)) (m_k m)"
  shows "sound g nd (CaptureValueApplyKont_invoke fl m)"
proof (cases "\<exists>cap. m_result m = Some (CaptureV cap)")
  case False
  then show ?thesis using assms
    by (auto simp: CaptureValueApplyKont_invoke_def split: option.splits val.splits)
next
  case True
  then obtain cap where cap: "m_result m = Some (CaptureV cap)" by blast
  have ok: "node_ok (length (m_input m)) cap" using base_ok_parts(10) [OF assms(1)] cap by simp
  show ?thesis
  proof (cases "nd_computed (attr cap) = None")
    case False
    then show ?thesis using cap sound_set [OF assms(1) lift_ok assms(2)]
      by (auto simp: CaptureValueApplyKont_invoke_def)
  next
    case True
    have "unat (nd_start (attr cap)) + leaf_width (nd_type (attr cap)) \<le> length (m_input m) \<or>
        leaf_width (nd_type (attr cap)) = 0"
      using ok by (auto simp: node_ok_attr dest: span_fixed)
    note d = decode_safe [OF this]
    show ?thesis
      using True cap d assms sound_value [OF assms(1) _ assms(2)]
      by (auto simp: CaptureValueApplyKont_invoke_def split: rr.splits)
  qed
qed

lemma base_ok_set_slot:
  assumes "base_ok g nd m" "s < length (m_slots m)" "opt_ok (val_ok (length (m_input m))) v"
  shows "base_ok g nd (m\<lparr>m_slots := (m_slots m)[s := v]\<rparr>)"
  using assms base_ok_parts(11) [OF assms(1)]
  by (auto simp: list_all_iff intro!: base_ok_slots dest!: set_update_subset_insert [THEN subsetD])

lemma dyn_expr_sound:
  assumes d: "deps_ok d" and b: "base_ok g nd m" and k: "estack g nd (ahead m) (length (m_slots m)) (m_k m)"
    and x: "expr_item g (length (m_slots m)) (Dyn x)"
  shows "harmless g nd (invoke_dyn d x m) \<and> (\<not> may_overflow x \<longrightarrow> sound g nd (invoke_dyn d x m))"
proof -
  note v = sound_value [OF b _ k] and it = sound_items [OF b _ k] and fl = sound_fail [OF b]
  have one: "sound g nd (invoke_dyn d x m) \<Longrightarrow> ?thesis" using sound_safe by blast
  have res: "opt_ok (val_ok (length (m_input m))) (m_result m)" using base_ok_parts(10) [OF b] .
  show ?thesis
  proof (cases x)
    case (ApplyBin op s)
    then have "slot s m = Some (m_slots m ! s)" using x slot_ok [OF b] by simp
    then show ?thesis using ApplyBin binop_safe [OF b k]
      by (simp add: invoke_dyn_def ApplyBinKont_invoke_def)
  next
    case (ApplyUn op)
    then show ?thesis using unop_safe [OF b k] by (simp add: invoke_dyn_def)
  next
    case (CallApply func buf n)
    then have "harmless g nd (CallApplyKont_invoke d func buf n m)"
      using d x builtin_safe [OF b k] fl
      by (auto simp: CallApplyKont_invoke_def deps_ok_def split: option.splits intro: sound_safe)
    then show ?thesis using CallApply by (simp add: invoke_dyn_def)
  next
    case (EvalLeft s l)
    then have "base_ok g nd (m\<lparr>m_slots := (m_slots m)[s := m_result m]\<rparr>)" using x base_ok_set_slot [OF b _ res] by simp
    then have "sound g nd (EvalLeftKont_invoke s l m)" using EvalLeft x k
      by (auto simp: EvalLeftKont_invoke_def set_slot_def intro!: sound_items)
    then show ?thesis using EvalLeft by (intro one) (simp add: invoke_dyn_def)
  next
    case (ArgStore buf i)
    then have "base_ok g nd (m\<lparr>m_slots := (m_slots m)[buf + i := m_result m]\<rparr>)" using x base_ok_set_slot [OF b _ res] by simp
    then have "sound g nd (ArgStoreKont_invoke buf i m)" using ArgStore x k
      by (auto simp: ArgStoreKont_invoke_def set_slot_def sound_def mok_def intro!: kshape.expr)
    then show ?thesis using ArgStore by (intro one) (simp add: invoke_dyn_def)
  next
    case (FieldAccessApply field)
    then show ?thesis using res v fl find_child_ok
      by (intro one) (auto simp: invoke_dyn_def FieldAccessApplyKont_invoke_def split: option.splits val.splits)
  next
    case (IndexAccessApply s)
    then have "slot s m = Some (m_slots m ! s)" using x slot_ok [OF b] by simp
    then show ?thesis using IndexAccessApply res v fl find_child_at_ok
      by (intro one) (auto simp: invoke_dyn_def IndexAccessApplyKont_invoke_def split: option.splits val.splits)
  next
    case CaptureValueApply
    then show ?thesis using capture_value_sound [OF b k] by (intro one) (simp add: invoke_dyn_def)
  qed (use x v it fl in \<open>auto intro: sound_safe simp: invoke_dyn_def LogicalAndCheckKont_invoke_def
      LogicalOrCheckKont_invoke_def NormalizeKont_invoke_def TernaryDispatchKont_invoke_def split: option.splits\<close>)
qed

section \<open>Consumers\<close>

lemma sound_opt_next:
  "base_ok g nd m \<Longrightarrow> opt_ok (target_ok g nd) t \<Longrightarrow> m_k m = [] \<Longrightarrow>
   sound g nd (case t of Some k \<Rightarrow> pushing [Static k] m | None \<Rightarrow> failing msg m)"
  by (auto split: option.splits intro: sound_next)

lemma on_builder_ok:
  "base_ok g nd m \<Longrightarrow> builder_ok (length (m_input m)) (f (m_builder m)) \<Longrightarrow> base_ok g nd (on_builder f m)"
  by (simp add: on_builder_def base_ok_builder)

lemma on_builder_simps [simp]:
  "m_k (on_builder f m) = m_k m" "m_input (on_builder f m) = m_input m" "m_pos (on_builder f m) = m_pos m"
  "m_env (on_builder f m) = m_env m" "m_frames (on_builder f m) = m_frames m" "m_ends (on_builder f m) = m_ends m"
  "m_result (on_builder f m) = m_result m" "m_slots (on_builder f m) = m_slots m" "m_len (on_builder f m) = m_len m"
  "m_starts (on_builder f m) = m_starts m" "m_idepth (on_builder f m) = m_idepth m"
  "m_builder (on_builder f m) = f (m_builder m)" "m_le (on_builder f m) = m_le m" "m_failed (on_builder f m) = m_failed m"
  by (simp_all add: on_builder_def)

lemma save_ok:
  "base_ok g nd m \<Longrightarrow> m_k m = [] \<Longrightarrow> opt_ok (is_r g) t \<Longrightarrow> length (m_input m) = l \<Longrightarrow> length (m_ends m) = n \<Longrightarrow>
   frame_ok g nd l n (FSave (new_savepoint t m))"
  using base_ok_parts(4,6,8) [of g nd m] by (auto simp: new_savepoint_def)

lemma push_savepoint_ok:
  "base_ok g nd m \<Longrightarrow> m_k m = [] \<Longrightarrow> opt_ok (is_r g) t \<Longrightarrow> base_ok g nd (push_savepoint t m)"
  unfolding push_savepoint_def using save_ok base_ok_parts(9) [of g nd m]
  by (auto intro!: base_ok_frames simp del: frame_ok.simps)

lemma push_loop_ok: "base_ok g nd m \<Longrightarrow> base_ok g nd (push_loop_frame n e m)"
  unfolding push_loop_frame_def using base_ok_parts(8,9) [of g nd m] by (auto intro!: base_ok_frames)

lemma push_resync_ok:
  "base_ok g nd m \<Longrightarrow> m_k m = [] \<Longrightarrow> opt_ok (is_r g) t \<Longrightarrow> base_ok g nd (push_resync_savepoint t m)"
  by (auto simp: push_resync_savepoint_def push_savepoint_ok split: option.splits)

lemma push_frame_k [simp]: "m_k (push_savepoint t m) = m_k m" "m_k (push_loop_frame n e m) = m_k m"
  "m_k (push_resync_savepoint t m) = m_k m"
  by (simp_all add: push_savepoint_def push_loop_frame_def push_resync_savepoint_def split: option.splits)

lemma begin_loop_ok:
  assumes "base_ok g nd m" "m_k m = []" "opt_ok (is_r g) t" "unat p \<le> length (m_input m)"
  shows "base_ok g nd (push_loop_frame n e (on_builder (begin_array name p) m))"
    and "base_ok g nd (push_resync_savepoint t (push_loop_frame n e (on_builder (begin_array name p) m)))"
proof -
  have "base_ok g nd (on_builder (begin_array name p) m)"
    using assms base_ok_parts(12) [OF assms(1)] by (intro on_builder_ok begin_ok(3)) auto
  then show 1: "base_ok g nd (push_loop_frame n e (on_builder (begin_array name p) m))" by (rule push_loop_ok)
  show "base_ok g nd (push_resync_savepoint t (push_loop_frame n e (on_builder (begin_array name p) m)))"
    using 1 assms by (intro push_resync_ok) auto
qed

lemma select_case_in: "select_case v cs = Got (Some c) \<Longrightarrow> c \<in> set cs"
  by (induction v cs rule: select_case.induct) (auto split: option.splits val.splits if_splits)

lemma unat_add_room:
  fixes p n :: size_t
  assumes "unat p + unat n < 2 ^ 64"
  shows "unat (p + n) = unat p + unat n"
  using assms by (rule unat_add_no_wrap)

lemma match_bytes_room:
  assumes "base_ok g nd m" "e \<le> m_len m" "\<not> sint len < 0" "\<not> e < m_pos m + len"
  shows "m_pos m + len \<le> m_len m" "m_pos m \<le> m_pos m + len"
proof -
  show "m_pos m + len \<le> m_len m" using assms(2,4) by (simp add: not_less)
  have "uint len = sint len" using assms(3) sint_lt [of len] unfolding uint_sint by (intro take_bit_int_eq_self) simp_all
  then have "unat len = nat (sint len)" by (simp only: unat_eq_nat_uint)
  then have "unat len < 2 ^ 63" using sint_lt [of len] assms(3) by (simp add: nat_less_iff)
  then have "unat (m_pos m) + unat len < 2 ^ 64" using base_ok_parts(2,4) [OF assms(1)] by simp
  from unat_add_room [OF this] show "m_pos m \<le> m_pos m + len" by (simp only: word_le_nat_alt)
qed

lemma set_interval_ok:
  assumes "base_ok g nd m" "e \<le> m_len m"
  obtains m1 where "set_interval s e m = Some m1" "base_ok g nd m1" "m_k m1 = m_k m"
proof (cases "m_idepth m = length (m_starts m)")
  case True
  let ?m1 = "m\<lparr>m_starts := m_starts m @ [s], m_ends := m_ends m @ [e], m_idepth := m_idepth m + 1\<rparr>"
  have mono: "frame_ok g nd l n f \<Longrightarrow> frame_ok g nd l (Suc n) f" for l n f by (cases f) auto
  have "base_ok g nd ?m1"
    using assms base_ok_parts [OF assms(1)]
    by (auto simp: base_ok_def input_ok_def windows_ok_def Let_def list_all_iff intro: mono)
  then show ?thesis using that [of ?m1] True by (simp add: set_interval_def)
next
  case False
  note p = base_ok_parts [OF assms(1)]
  let ?m1 = "m\<lparr>m_starts := (m_starts m)[m_idepth m := s], m_ends := (m_ends m)[m_idepth m := e],
      m_idepth := m_idepth m + 1\<rparr>"
  have "base_ok g nd ?m1" using False assms p
    by (auto simp: base_ok_def input_ok_def windows_ok_def Let_def dest!: set_update_subset_insert [THEN subsetD])
  then show ?thesis using that [of ?m1] False p(5,6) by (simp add: set_interval_def)
qed

lemma consumer_sound:
  assumes b: "base_ok g nd m" and k: "m_k m = []" and c: "consumer g nd (ahead m) (Dyn x)"
  shows "sound g nd (invoke_dyn d x m)"
proof -
  note fl = sound_fail [OF b] and nx = sound_next [OF b _ k] and on = sound_opt_next [OF b _ k]
  obtain e where e: "m_effective_end m = Some e" "e \<le> m_len m" using ends_ok [OF b] .
  obtain s where s: "m_effective_start m = Some s" using starts_ok [OF b] .
  show ?thesis
  proof (cases x)
    case (ConstraintCheck t nxt)
    then have "sound g nd (pushing [Static nxt] m)"
      using c k base_ok_parts(4) [OF b] by (intro sound_need [OF b]) auto
    then show ?thesis using ConstraintCheck c fl on
      by (auto simp: invoke_dyn_def EvalConstraintCheckKont_invoke_def split: option.splits)
  next
    case (SwitchSelect cs dflt reject)
    have bb: "base_ok g nd (m\<lparr>m_builder := set_pending_variant_tag t (m_builder m)\<rparr>)" for t
      using b base_ok_parts(12) [OF b] by (intro base_ok_builder pending_ops_ok) auto
    have "target_ok g nd (sc_target x)" if "select_case v cs = Got (Some x)" for v x
      using that c SwitchSelect select_case_in by (fastforce simp: cases_ok_def list_all_iff)
    then show ?thesis using SwitchSelect c fl sound_next [OF bb] k
      by (auto simp: invoke_dyn_def SwitchSelectKont_invoke_def split: option.splits rr.splits)
  next
    case (BindStore nxt)
    have "base_ok g nd (carrier (\<lambda>a. a\<lparr>nd_start := m_pos m, nd_end := m_pos m, nd_type := CComputed,
        nd_computed := Some v\<rparr>) m)" for v
      using base_ok_parts(4) [OF b] by (intro carrier_ok [OF b]) (simp add: node_ok_attr span_ok_def)
    from sound_next [OF this] show ?thesis using BindStore c fl k
      by (auto simp: invoke_dyn_def BindComputeStoreKont_invoke_def split: option.splits)
  next
    case (BeginArrayWithLimit name end_node resync nxt)
    then have r: "opt_ok (is_r g) resync" "target_ok g nd end_node" "target_ok g nd nxt" using c by auto
    note bl = begin_loop_ok [OF b k r(1) base_ok_parts(4) [OF b]]
    show ?thesis using BeginArrayWithLimit r fl k sound_next [OF bl(1)] sound_next [OF bl(2)]
      by (auto simp: invoke_dyn_def BeginArrayWithLimitKont_invoke_def Let_def split: option.splits val.splits)
  next
    case (ArrayCountCheck end_node body)
    then show ?thesis using c fl nx
      by (auto simp: invoke_dyn_def ArrayCountCheckKont_invoke_def split: option.splits val.splits list.splits frame.splits)
  next
    case (ArrayUntilCheck end_node body)
    then show ?thesis using c fl nx
      by (auto simp: invoke_dyn_def ArrayUntilCheckKont_invoke_def split: option.splits)
  next
    case (MatchBytesApply is_string nxt)
    have "base_ok g nd (carrier (\<lambda>a. a\<lparr>nd_start := m_pos m, nd_end := m_pos m + len,
                nd_type := (if is_string then CString else CBytes)\<rparr>) (m\<lparr>m_pos := m_pos m + len\<rparr>))"
      if "m_pos m + len \<le> m_len m" "m_pos m \<le> m_pos m + len" for len
      using base_ok_pos [OF b that(1)] that base_ok_parts(1,4) [OF b]
      by (intro carrier_ok) (auto simp: node_ok_attr span_ok_def word_le_nat_alt)
    from sound_next [OF this] show ?thesis using MatchBytesApply c fl k e match_bytes_room [OF b e(2)]
      by (auto simp: invoke_dyn_def MatchBytesApplyKont_invoke_def split: option.splits val.splits)
  next
    case (SetEndianApply nxt)
    then show ?thesis using c fl k sound_next [of g nd "m\<lparr>m_le := _\<rparr>"] b
      by (auto simp: invoke_dyn_def SetEndianApplyKont_invoke_def split: option.splits)
  next
    case (SeekApply nxt)
    then show ?thesis using c fl k sound_next [OF base_ok_pos [OF b]]
      by (auto simp: invoke_dyn_def SeekApplyKont_invoke_def not_less split: option.splits val.splits)
  next
    case (PushIntervalApply relative nxt)
    have "sound g nd (Option.bind (set_interval st en m) (pushing [Static nxt]))" if "\<not> e < en" for st en
    proof -
      have "en \<le> m_len m" using that e(2) by simp
      then obtain m1 where "set_interval st en m = Some m1" "base_ok g nd m1" "m_k m1 = m_k m"
        using set_interval_ok [OF b] by metis
      then show ?thesis using PushIntervalApply c k by (auto intro: sound_next)
    qed
    then show ?thesis using PushIntervalApply fl e s
      by (auto simp: invoke_dyn_def PushIntervalApplyKont_invoke_def Let_def split: option.splits val.splits)
  qed (use c in auto)
qed

section \<open>Reading\<close>

lemma byte_count_bounds: "0 < byte_count p" "byte_count p \<le> 8"
  by (auto simp: byte_count_def split: prim_kind.splits prim_width.splits)

lemma room:
  assumes "base_ok g nd m" "e \<le> m_len m" "n \<le> 2 ^ 62" "\<not> e < m_pos m + word_of_nat n"
  shows "unat (m_pos m + word_of_nat n) = unat (m_pos m) + n" "unat (m_pos m) + n \<le> length (m_input m)"
    "m_pos m + word_of_nat n \<le> m_len m"
proof -
  note p = base_ok_parts [OF assms(1)]
  have n: "unat (word_of_nat n :: size_t) = n" using assms(3) by (simp add: unat_of_nat_64)
  have "unat (m_pos m) + unat (word_of_nat n :: size_t) < 2 ^ 64" using p(2,4) assms(3) unfolding n by simp
  then show u: "unat (m_pos m + word_of_nat n) = unat (m_pos m) + n" by (simp add: unat_add_no_wrap n)
  show "m_pos m + word_of_nat n \<le> m_len m" using assms(2,4) by simp
  then show "unat (m_pos m) + n \<le> length (m_input m)" using u p(1) by (simp add: word_le_nat_alt)
qed

lemma read_primitive_ok:
  "unat p + byte_count prim \<le> length b \<Longrightarrow> p_kind prim = KInteger \<Longrightarrow> \<exists>v. read_primitive d b p prim le = Some v"
  by (cases "p_width prim") (auto simp: read_primitive_def byte_count_def span_in)

lemma read_value_ok:
  assumes "unat (m_pos m) + byte_count prim \<le> length (m_input m)" "prim_ok prim"
  shows "\<exists>v. read_primitive_as_value d m prim = Some v"
proof (cases "p_kind prim")
  case KInteger
  then show ?thesis using read_primitive_ok [OF assms(1), of d "m_le m"] by (auto simp: read_primitive_as_value_def)
qed (use assms in \<open>auto simp: prim_ok_def read_primitive_as_value_def byte_count_def span_in Let_def split: if_splits\<close>)

lemma scan_in:
  assumes "base_ok g nd m" "e \<le> m_len m" "i \<le> 10" "\<not> e \<le> m_pos m + word_of_nat i"
  shows "unat (m_pos m + word_of_nat i) + 1 \<le> length (m_input m)" "unat (m_pos m + word_of_nat i) = unat (m_pos m) + i"
proof -
  note p = base_ok_parts [OF assms(1)]
  have n: "unat (word_of_nat i :: size_t) = i" using assms(3) by (simp add: unat_of_nat_64)
  have "unat (m_pos m) + unat (word_of_nat i :: size_t) < 2 ^ 64" using p(2,4) assms(3) unfolding n by simp
  then show "unat (m_pos m + word_of_nat i) = unat (m_pos m) + i" by (simp add: unat_add_no_wrap n)
  show "unat (m_pos m + word_of_nat i) + 1 \<le> length (m_input m)"
    using assms(2,4) p(1) by (simp add: word_le_nat_alt not_le)
qed

text \<open>What a scan that starts inside the input yields: not a read outside it, and no more bytes than are
  there.\<close>

definition scan_good :: "machine \<Rightarrow> (u64 \<times> nat) rr \<Rightarrow> bool" where
  "scan_good m r = (r \<noteq> UB \<and> (\<forall>v n. r = Got (v, n) \<longrightarrow> unat (m_pos m) + n \<le> length (m_input m) \<and> n \<le> 10))"

lemma scan_good_simps [simp]: "scan_good m Rej"
  "scan_good m (Got (v, n)) = (unat (m_pos m) + n \<le> length (m_input m) \<and> n \<le> 10)"
  by (simp_all add: scan_good_def)

lemma uleb_scan_good:
  assumes b: "base_ok g nd m" and e: "e \<le> m_len m" and bits: "bits \<le> 64"
  shows "scan_good m (uleb_scan (m_input m) (m_pos m) e bits i shift result)"
proof (induction "(bits + 6) div 7 - i" arbitrary: i shift result)
  case 0
  then show ?case by (subst uleb_scan.simps) simp
next
  case (Suc k)
  have lt: "i < (bits + 6) div 7" "(bits + 6) div 7 \<le> 10" using Suc.hyps(2) bits by auto
  show ?case
  proof (cases "e \<le> m_pos m + word_of_nat i")
    case True
    then show ?thesis by (subst uleb_scan.simps) simp
  next
    case False
    have s: "unat (m_pos m + word_of_nat i) + 1 \<le> length (m_input m)" "unat (m_pos m + word_of_nat i) = unat (m_pos m) + i"
      using scan_in [OF b e _ False] lt by simp_all
    have "scan_good m (uleb_scan (m_input m) (m_pos m) e bits (Suc i) (shift + 7) r)" for r
      using Suc.hyps(1) [of "Suc i"] Suc.hyps(2) by simp
    then show ?thesis using False s lt by (subst uleb_scan.simps) (simp add: span_in Let_def)
  qed
qed

lemma sleb_scan_good:
  assumes b: "base_ok g nd m" and e: "e \<le> m_len m" and bits: "bits \<le> 64"
  shows "scan_good m (sleb_scan (m_input m) (m_pos m) e bits i shift result)"
proof (induction "(bits + 6) div 7 - i" arbitrary: i shift result)
  case 0
  then show ?case by (subst sleb_scan.simps) simp
next
  case (Suc k)
  have lt: "i < (bits + 6) div 7" "(bits + 6) div 7 \<le> 10" using Suc.hyps(2) bits by auto
  show ?case
  proof (cases "e \<le> m_pos m + word_of_nat i")
    case True
    then show ?thesis by (subst sleb_scan.simps) simp
  next
    case False
    have s: "unat (m_pos m + word_of_nat i) + 1 \<le> length (m_input m)" "unat (m_pos m + word_of_nat i) = unat (m_pos m) + i"
      using scan_in [OF b e _ False] lt by simp_all
    have "scan_good m (sleb_scan (m_input m) (m_pos m) e bits (Suc i) (shift + 7) r)" for r
      using Suc.hyps(1) [of "Suc i"] Suc.hyps(2) by simp
    then show ?thesis using False s lt by (subst sleb_scan.simps) (simp add: span_in Let_def)
  qed
qed

lemma leaf_widths:
  "leaf_width UInt8 = 1" "leaf_width Int8 = 1" "leaf_width CBool = 1"
  "leaf_width UInt16LE = 2" "leaf_width UInt16BE = 2" "leaf_width Int16LE = 2" "leaf_width Int16BE = 2"
  "leaf_width UInt32LE = 4" "leaf_width UInt32BE = 4" "leaf_width Int32LE = 4" "leaf_width Int32BE = 4" "leaf_width Float32LE = 4" "leaf_width Float32BE = 4"
  "leaf_width UInt64LE = 8" "leaf_width UInt64BE = 8" "leaf_width Int64LE = 8" "leaf_width Int64BE = 8" "leaf_width Float64LE = 8" "leaf_width Float64BE = 8"
  by (simp_all add: leaf_width.simps)

lemma grown_span:
  assumes "base_ok g nd m" "unat (m_pos m) + n \<le> length (m_input m)" "n \<le> 2 ^ 62"
  shows "unat (m_pos m + word_of_nat n) = unat (m_pos m) + n" "m_pos m \<le> m_pos m + word_of_nat n"
    "m_pos m + word_of_nat n \<le> m_len m"
proof -
  note p = base_ok_parts [OF assms(1)]
  have n: "unat (word_of_nat n :: size_t) = n" using assms(3) by (simp add: unat_of_nat_64)
  show u: "unat (m_pos m + word_of_nat n) = unat (m_pos m) + n"
    using p(2) assms(2) by (simp add: unat_add_no_wrap n)
  show "m_pos m \<le> m_pos m + word_of_nat n" by (simp add: word_le_nat_alt u)
  show "m_pos m + word_of_nat n \<le> m_len m" using assms(2) p(1) by (simp add: word_le_nat_alt u)
qed

lemma capture_type_width: "prim_ok prim \<Longrightarrow> leaf_width (primitive_capture_type prim le) = byte_count prim"
  by (cases "p_kind prim"; cases "p_width prim"; cases "wants_le prim le"; cases "p_signed prim")
     (simp_all add: prim_ok_def primitive_capture_type_def byte_count_def leaf_widths)

section \<open>Recovering\<close>

lemma find_save_ok:
  "list_all P fs \<Longrightarrow> find_save fs = Some (inner, sp, outer) \<Longrightarrow> list_all P inner \<and> P (FSave sp) \<and> list_all P outer"
  by (induction fs arbitrary: inner rule: find_save.induct) auto

lemma restore_from_ok:
  assumes "base_ok g nd m" "frame_ok g nd (length (m_input m)) (length (m_ends m)) (FSave sp)"
  obtains m1 where "restore_from sp m = Some m1" "base_ok g nd m1" "m_k m1 = []" "m_input m1 = m_input m"
    "m_ends m1 = m_ends m" "m_len m1 = m_len m"
proof -
  let ?m1 = "m\<lparr>m_pos := sp_pos sp, m_idepth := sp_idepth sp, m_env := sp_env sp, m_le := sp_le sp,
      m_builder := b_restore (sp_mark sp) (m_builder m), m_k := []\<rparr>"
  note p = base_ok_parts [OF assms(1)]
  have "base_ok g nd ?m1" using assms p restore_ok [OF p(12)]
    by (auto simp: base_ok_def input_ok_def windows_ok_def Let_def word_le_nat_alt)
  then show ?thesis using that [of ?m1] assms(2)
    by (simp add: restore_from_def truncate_k_def)
qed

lemma onfail_sound:
  assumes b: "base_ok g nd m" and s: "opt_ok (target_ok g nd) t" "opt_ok (is_r g) n"
  shows "sound g nd (OnFailKont_invoke t n pop m)"
proof (cases "find_save (m_frames m)")
  case None
  then show ?thesis using sound_fail [OF b] by (simp add: OnFailKont_invoke_def)
next
  case (Some r)
  obtain inner sp outer where r: "r = (inner, sp, outer)" by (cases r)
  let ?P = "frame_ok g nd (length (m_input m)) (length (m_ends m))"
  have f: "list_all ?P inner" "?P (FSave sp)" "list_all ?P outer"
    using find_save_ok [OF base_ok_parts(9) [OF b]] Some r by blast+
  obtain m1 where m1: "restore_from sp m = Some m1" "base_ok g nd m1" "m_k m1 = []" "m_input m1 = m_input m"
    "m_ends m1 = m_ends m" using restore_from_ok [OF b f(2)] by metis
  have 1: "base_ok g nd (m1\<lparr>m_frames := outer\<rparr>)" using m1 f by (intro base_ok_frames) auto
  have 2: "base_ok g nd (m1\<lparr>m_frames := inner @ FSave (sp\<lparr>sp_on_fail := n\<rparr>) # outer\<rparr>)"
    using m1 f s by (intro base_ok_frames) auto
  show ?thesis
    using Some r m1 s(1) sound_fail [OF 1] sound_next [OF 1] sound_next [OF 2]
    by (auto simp: OnFailKont_invoke_def split: option.splits)
qed

lemma resync_sound:
  assumes b: "base_ok g nd m" and s: "target_ok g nd body" "target_ok g nd end_node"
  shows "sound g nd (ResyncKont_invoke body end_node m)"
proof (cases "find_save (m_frames m)")
  case None
  then show ?thesis using sound_fail [OF b] by (simp add: ResyncKont_invoke_def)
next
  case (Some r)
  obtain inner sp outer where r: "r = (inner, sp, outer)" by (cases r)
  let ?P = "frame_ok g nd (length (m_input m)) (length (m_ends m))"
  have f: "list_all ?P inner" "?P (FSave sp)" "list_all ?P outer"
    using find_save_ok [OF base_ok_parts(9) [OF b]] Some r by blast+
  obtain m1 where m1: "restore_from sp m = Some m1" "base_ok g nd m1" "m_k m1 = []" "m_input m1 = m_input m"
    "m_ends m1 = m_ends m" "m_len m1 = m_len m" using restore_from_ok [OF b f(2)] by metis
  obtain e where e: "m_effective_end m1 = Some e" "e \<le> m_len m1" using ends_ok [OF m1(2)] .
  have 1: "base_ok g nd (m1\<lparr>m_frames := outer\<rparr>)" using m1 f by (intro base_ok_frames) auto
  show ?thesis
  proof (cases "e \<le> m_pos m1")
    case True
    then show ?thesis using Some r m1 e s sound_fail [OF 1] sound_next [OF 1]
      by (auto simp: ResyncKont_invoke_def)
  next
    case False
    let ?m2 = "m1\<lparr>m_pos := m_pos m1 + 1\<rparr>"
    have "\<not> e < m_pos m1 + 1" using False by (metis not_le inc_le)
    then have "m_pos m1 + 1 \<le> m_len m1" using e(2) by simp
    then have 2: "base_ok g nd ?m2" by (rule base_ok_pos [OF m1(2)])
    have "opt_ok (is_r g) (sp_on_fail sp)" using f(2) by simp
    then have "frame_ok g nd (length (m_input m)) (length (m_ends m)) (FSave (refresh ?m2 sp))"
      unfolding refresh_def using save_ok [OF 2] m1 by simp
    then have 3: "base_ok g nd (?m2\<lparr>m_frames := inner @ FSave (refresh ?m2 sp) # outer\<rparr>)"
      using m1 f by (intro base_ok_frames [OF 2]) auto
    show ?thesis using Some r m1 e s sound_next [OF 3] False
      by (auto simp: ResyncKont_invoke_def Let_def)
  qed
qed

section \<open>The spine\<close>

text \<open>The two spine konts that are undefined in a case the graph does not exclude: an external parser called
  with the cursor past the window (after a jump), and an array's counter past the type.\<close>

fun may_leave :: "skont \<Rightarrow> bool" where
  "may_leave (ExternalCall _ _) = True"
| "may_leave (ArrayNext _ _ _ _ _ _) = True"
| "may_leave _ = False"

lemma match_primitive_sound:
  assumes b: "base_ok g nd m" and k: "m_k m = []" and t: "target_ok g nd nxt" and p: "prim_ok prim"
  shows "sound g nd (MatchPrimitiveNode_invoke d prim nxt m)"
proof -
  obtain e where e: "m_effective_end m = Some e" "e \<le> m_len m" using ends_ok [OF b] .
  note bp = base_ok_parts [OF b]
  define bits :: nat where "bits = (if p_width prim = W64 then 64 else 32)"
  define leb where "leb = (if p_encoding prim = Uleb then decode_uleb128 (m_input m) (m_pos m) e bits
      else decode_sleb128 (m_input m) (m_pos m) e bits)"
  have good: "scan_good m leb"
    using uleb_scan_good [OF b e(2)] sleb_scan_good [OF b e(2)]
    by (auto simp: leb_def bits_def decode_uleb128_def decode_sleb128_def)
  have adv: "unat (m_pos m + word_of_nat n) = unat (m_pos m) + n" "m_pos m \<le> m_pos m + word_of_nat n"
      "m_pos m + word_of_nat n \<le> m_len m"
    if "unat (m_pos m) + n \<le> length (m_input m)" "n \<le> 10" for n
    using grown_span [OF b that(1)] that(2) by simp_all
  show ?thesis
  proof (cases "p_encoding prim = Fixed")
    case False
    have c: "base_ok g nd (carrier (\<lambda>a. a\<lparr>nd_start := m_pos m, nd_end := m_pos m + word_of_nat n,
        nd_type := CComputed, nd_enc := en, nd_computed := Some v\<rparr>) (m\<lparr>m_pos := m_pos m + word_of_nat n\<rparr>))"
      if "leb = Got (x, n)" for en v x n
      using adv [of n] good that bp(4) by (intro carrier_ok base_ok_pos [OF b]) (auto simp: node_ok_attr span_ok_def)
    show ?thesis
    proof (cases leb)
      case (Got r)
      then show ?thesis using False e k t sound_next [OF c]
        unfolding MatchPrimitiveNode_invoke_def bits_def [symmetric] Let_def
        by (cases r) (auto simp: leb_def [symmetric])
    next
      case Rej
      then show ?thesis using False e sound_fail [OF b]
        unfolding MatchPrimitiveNode_invoke_def bits_def [symmetric] Let_def by (auto simp: leb_def [symmetric])
    qed (use good in \<open>simp add: scan_good_def\<close>)
  next
    case True
    show ?thesis
    proof (cases "e < m_pos m + word_of_nat (byte_count prim)")
      case True
      then show ?thesis using \<open>p_encoding prim = Fixed\<close> e sound_fail [OF b] by (simp add: MatchPrimitiveNode_invoke_def)
    next
      case False
      have "byte_count prim \<le> 2 ^ 62" using byte_count_bounds(2) [of prim] by simp
      note r = room [OF b e(2) this False]
      obtain v where v: "read_primitive_as_value d m prim = Some v" using read_value_ok [OF r(2) p] by blast
      have "base_ok g nd (carrier (\<lambda>a. a\<lparr>nd_start := m_pos m, nd_end := m_pos m + word_of_nat (byte_count prim),
          nd_type := primitive_capture_type prim (m_le m), nd_computed := Some (lower_computed (Some v))\<rparr>)
          (m\<lparr>m_pos := m_pos m + word_of_nat (byte_count prim)\<rparr>))"
        using r p bp(4) by (intro carrier_ok base_ok_pos [OF b])
          (auto simp: node_ok_attr span_ok_def capture_type_width word_le_nat_alt)
      from sound_next [OF this t] show ?thesis using \<open>p_encoding prim = Fixed\<close> e False v k
        by (simp add: MatchPrimitiveNode_invoke_def Let_def)
    qed
  qed
qed

lemma extract_bits_sound:
  assumes b: "base_ok g nd m" and k: "m_k m = []" and s: "spine_ok g nd n (ExtractBits c off w sgnd nxt)"
    and n: "unat (m_pos m) + n \<le> length (m_input m)"
  shows "sound g nd (ExtractBitsNode_invoke d c off w sgnd nxt m)"
proof -
  obtain e where e: "m_effective_end m = Some e" "e \<le> m_len m" using ends_ok [OF b] .
  show ?thesis
  proof (cases "e < m_pos m + word_of_nat (byte_count c)")
    case True
    then show ?thesis using e sound_fail [OF b] by (simp add: ExtractBitsNode_invoke_def)
  next
    case False
    have "byte_count c \<le> 2 ^ 62" using byte_count_bounds(2) [of c] by simp
    note r = room [OF b e(2) this False]
    obtain raw where raw: "read_primitive d (m_input m) (m_pos m) c (m_le m) = Some raw"
      using read_primitive_ok [OF r(2)] s by auto
    define msb where "msb = (p_endian c = PBig \<or> p_endian c = PNative \<and> \<not> m_le m)"
    define shift where "shift = (if msb then int (byte_count c * 8) - off - w else off)"
    have "0 \<le> shift" "shift < 64" "0 < w" "w \<noteq> 63"
      using s byte_count_bounds(2) [of c] by (auto simp: shift_def)
    then obtain v where v: "entry_bits raw shift w sgnd = Some v" by (simp add: entry_bits_def Let_def)
    let ?q = "m_pos m + word_of_nat (byte_count c)"
    have c1: "base_ok g nd (carrier (\<lambda>a. a\<lparr>nd_start := m_pos m, nd_end := ?q, nd_type := CComputed,
        nd_computed := Some x, nd_bits := y\<rparr>) m)" for x :: computed and y :: bits_at
      using r base_ok_parts(4) [OF b] by (intro carrier_ok [OF b]) (simp add: node_ok_attr span_ok_def word_le_nat_alt)
    have "base_ok g nd (on_builder (scope_is_bits_run msb) (carrier (\<lambda>a. a\<lparr>nd_start := m_pos m, nd_end := ?q,
        nd_type := CComputed, nd_computed := Some x, nd_bits := y\<rparr>) m))"
      for x :: computed and y :: bits_at
      using c1 [where x = x and y = y] base_ok_parts(12) [OF c1 [where x = x and y = y]]
      by (intro on_builder_ok scope_ops_ok) auto
    note nx = sound_need [OF this]
    have "unat (m_pos m) + nd nxt \<le> length (m_input m)" using s n r(2) by auto
    then show ?thesis using e False raw v nx s k
      unfolding ExtractBitsNode_invoke_def msb_def [symmetric] Let_def shift_def [symmetric] by simp
  qed
qed

lemma external_safe:
  assumes b: "base_ok g nd m" and k: "m_k m = []" and t: "target_ok g nd nxt" and d: "deps_ok d"
  shows "harmless g nd (ExternalCallNode_invoke d func nxt m)"
proof -
  note bp = base_ok_parts [OF b]
  have ok: "base_ok g nd (carrier (\<lambda>a. a\<lparr>nd_start := m_pos m, nd_end := m_pos m + c, nd_type := CExternal\<rparr>)
      (m\<lparr>m_pos := m_pos m + c\<rparr>))"
    if "d_ext d = Some tb" "ext_lookup tb func = Some fn" "span_at len (m_input m) (m_pos m) = Some bs" "fn bs = (True, c)"
    for tb fn len bs c
  proof -
    have "unat c \<le> length bs" using d that unfolding deps_ok_def by blast
    then have "unat (m_pos m) + unat c \<le> length (m_input m)"
      using that(3) by (auto simp: span_at_def split: if_splits)
    moreover from this have "m_pos m + c \<le> m_len m" "unat (m_pos m + c) = unat (m_pos m) + unat c"
      using bp(1,2) by (simp_all add: word_le_nat_alt unat_add_no_wrap)
    ultimately show ?thesis using bp(4)
      by (intro carrier_ok base_ok_pos [OF b]) (auto simp: node_ok_attr span_ok_def word_le_nat_alt)
  qed
  show ?thesis using sound_fail [OF b] sound_next [OF ok t] k
    by (auto simp: ExternalCallNode_invoke_def split: option.splits prod.splits intro: sound_safe)
qed

lemma array_advance_safe:
  assumes b: "base_ok g nd m" and k: "m_k m = []"
    and s: "spine_ok g nd n (ArrayNext mode ce ue end_node body resync)"
    and f: "list_all (frame_ok g nd (length (m_input m)) (length (m_ends m))) inner"
      "list_all (frame_ok g nd (length (m_input m)) (length (m_ends m))) outer"
  shows "harmless g nd (array_advance mode ce ue end_node body inner outer m)"
proof (cases "\<exists>lf fs. outer = FLoop lf # fs")
  case False
  then show ?thesis using sound_safe [OF sound_fail [OF b]]
    by (auto simp: array_advance_def split: list.splits frame.splits)
next
  case True
  then obtain lf fs where o: "outer = FLoop lf # fs" by blast
  show ?thesis
  proof (cases "i64_result (sint (lf_counter lf) + 1)")
    case None
    then show ?thesis using o by (simp add: array_advance_def)
  next
    case (Some c)
    let ?m1 = "m\<lparr>m_frames := inner @ FLoop (lf\<lparr>lf_counter := c\<rparr>) # fs\<rparr>"
    have b1: "base_ok g nd ?m1" using f o by (intro base_ok_frames [OF b]) auto
    obtain e where e: "m_effective_end ?m1 = Some e" using ends_ok [OF b1] .
    show ?thesis using Some o s k e sound_next [OF b1] sound_site [OF b1]
      by (cases mode) (auto simp: array_advance_def Let_def intro!: sound_safe)
  qed
qed

lemma array_next_safe:
  assumes b: "base_ok g nd m" and k: "m_k m = []"
    and s: "spine_ok g nd n (ArrayNext mode ce ue end_node body resync)"
  shows "harmless g nd (ArrayNextNode_invoke mode ce ue end_node body resync m)"
proof -
  note fr = base_ok_parts(9) [OF b]
  have plain: "harmless g nd (array_advance mode ce ue end_node body [] (m_frames m) m)"
    using array_advance_safe [OF b k s] fr by simp
  have res: "harmless g nd (array_advance mode ce ue end_node body [FSave (refresh m sp)] fs
      (m\<lparr>m_frames := FSave (refresh m sp) # fs\<rparr>))" if fs: "m_frames m = FSave sp # fs" for sp fs
  proof -
    have "opt_ok (is_r g) (sp_on_fail sp)" using fr fs by simp
    then have r: "frame_ok g nd (length (m_input m)) (length (m_ends m)) (FSave (refresh m sp))"
      unfolding refresh_def using save_ok [OF b k] by simp
    then have "base_ok g nd (m\<lparr>m_frames := FSave (refresh m sp) # fs\<rparr>)"
      using fr fs by (intro base_ok_frames [OF b]) auto
    from array_advance_safe [OF this _ s] show ?thesis using r fr fs k by simp
  qed
  show ?thesis using plain res sound_safe [OF sound_fail [OF b]]
    by (auto simp: ArrayNextNode_invoke_def Let_def split: list.splits frame.splits)
qed

lemma drop_top_save_ok: "list_all P fs \<Longrightarrow> list_all P (drop_top_save fs)"
  by (induction fs rule: drop_top_save.induct) auto

lemma end_array_sound:
  assumes b: "base_ok g nd m" and k: "m_k m = []" and t: "target_ok g nd nxt"
  shows "sound g nd (EndArrayNode_invoke resync nxt m)"
proof -
  define m1 where "m1 = (if resync then m\<lparr>m_frames := drop_top_save (m_frames m)\<rparr> else m)"
  have b1: "base_ok g nd m1" "m_k m1 = []"
    using b k base_ok_frames [OF b drop_top_save_ok [OF base_ok_parts(9) [OF b]]] by (auto simp: m1_def)
  have "base_ok g nd ((on_builder (end_array (m_pos m1)) m1)\<lparr>m_frames := fs, m_env := lf_outer_env lf\<rparr>)"
    if "m_frames m1 = FLoop lf # fs" for lf fs
    using that b1 base_ok_parts(4,9,12) [OF b1(1)]
    by (intro base_ok_env base_ok_frames on_builder_ok end_ok) auto
  from sound_next [OF this t] show ?thesis
    using b1 sound_fail [OF b1(1)]
    unfolding EndArrayNode_invoke_def m1_def [symmetric] Let_def
    by (auto split: list.splits frame.splits)
qed

lemma abort_to_ok:
  "list_all (frame_ok g nd l n) fs \<Longrightarrow> abort_to fs = Some (t, fs') \<Longrightarrow>
   target_ok g nd t \<and> list_all (frame_ok g nd l n) fs'"
  by (induction fs rule: abort_to.induct) (auto split: option.splits)

lemma begin_array_sound:
  assumes b: "base_ok g nd m" and k: "m_k m = []"
    and s: "spine_ok g nd n (BeginArray name mode ce ue end_node resync nxt)"
  shows "sound g nd (BeginArrayNode_invoke g name mode ce ue end_node resync nxt m)"
proof (cases "mode = FixedCount \<or> mode = CountMode")
  case True
  then obtain p where p: "count_path_of g ce = Some p" using s by auto
  have "base_ok g nd (m\<lparr>m_builder := set_pending_count_field q (m_builder m)\<rparr>)" for q
    using base_ok_parts(12) [OF b] by (intro base_ok_builder [OF b] pending_ops_ok)
  from sound_site [OF this] show ?thesis using True p s k sound_site [OF b]
    by (auto simp: BeginArrayNode_invoke_def count_field_of_def split: option.splits)
next
  case False
  define m2 where "m2 = push_resync_savepoint resync (push_loop_frame (- 1) end_node (on_builder (begin_array name (m_pos m)) m))"
  have b2: "base_ok g nd m2" "m_k m2 = []" using begin_loop_ok(2) [OF b k _ base_ok_parts(4) [OF b]] s k by (auto simp: m2_def)
  obtain e where e: "m_effective_end m2 = Some e" using ends_ok [OF b2(1)] .
  show ?thesis using False s e b2 sound_next [OF b2(1)] sound_site [OF b2(1)]
    unfolding BeginArrayNode_invoke_def m2_def [symmetric] Let_def by (cases mode) auto
qed

lemma capture_sound:
  assumes b: "base_ok g nd m" and k: "m_k m = []" and t: "is_s g nxt" "unat (m_pos m) + nd nxt \<le> length (m_input m)"
  shows "sound g nd (CaptureKont_invoke name nxt m)"
proof (cases "\<exists>cap. m_result m = Some (CaptureV cap)")
  case False
  then show ?thesis using sound_fail [OF b]
    by (auto simp: CaptureKont_invoke_def split: option.splits val.splits)
next
  case True
  then obtain cap where cap: "m_result m = Some (CaptureV cap)" by blast
  have ok: "node_ok (length (m_input m)) cap" using base_ok_parts(10) [OF b] cap by simp
  let ?a = "attr cap"
  let ?v = "if nd_type ?a = CComputed then nd_computed ?a else None"
  have "base_ok g nd (on_builder (\<lambda>b. on_last (\<lambda>r. r\<lparr>nd_bits := nd_bits ?a, nd_enc := nd_enc ?a\<rparr>)
              (add_field name (nd_start ?a) (nd_end ?a) (nd_type ?a) ?v b)) m)"
    using base_ok_parts(12) [OF b] ok by (intro on_builder_ok [OF b] on_last_ok add_field_ok) (auto simp: node_ok_attr)
  from sound_need [OF this t(1)] show ?thesis using cap t(2) k by (simp add: CaptureKont_invoke_def Let_def)
qed

lemma store_env_sound:
  assumes b: "base_ok g nd m" and k: "m_k m = []" and t: "is_s g nxt" "unat (m_pos m) + nd nxt \<le> length (m_input m)"
  shows "sound g nd (StoreEnvKont_invoke name nxt m)"
proof -
  have "base_ok g nd (m\<lparr>m_env := \<lparr>bd_name = name, bd_value = lift_computed c, bd_start = p, bd_end = q,
      bd_type = ty\<rparr> # m_env m\<rparr>)" for c p q ty
    using base_ok_parts(8) [OF b] lift_ok by (intro base_ok_env [OF b]) (auto simp: env_ok_def)
  from sound_need [OF this t(1)] show ?thesis using sound_fail [OF b] t(2) k
    by (auto simp: StoreEnvKont_invoke_def Let_def split: option.splits val.splits)
qed

lemma push_interval_sound:
  assumes b: "base_ok g nd m" and k: "m_k m = []" and s: "spine_ok g nd n (PushInterval e relative nxt)"
  shows "sound g nd (PushIntervalNode_invoke g e relative nxt m)"
proof -
  obtain p where p: "count_path_of g e = Some p" using s by auto
  have "base_ok g nd (on_builder (scope_determines_rest q) m)" for q
    using base_ok_parts(12) [OF b] by (intro on_builder_ok [OF b] scope_ops_ok)
  from sound_site [OF this] show ?thesis using p s k sound_site [OF b]
    by (auto simp: PushIntervalNode_invoke_def split: option.splits)
qed

lemma pop_interval_sound:
  assumes b: "base_ok g nd m" and k: "m_k m = []" and t: "target_ok g nd nxt"
  shows "sound g nd (PopIntervalNode_invoke checked nxt m)"
proof -
  obtain e where e: "m_effective_end m = Some e" using ends_ok [OF b] .
  have "base_ok g nd (m\<lparr>m_idepth := m_idepth m - 1\<rparr>)" using base_ok_parts(6) [OF b] by (intro base_ok_depth [OF b]) simp
  from sound_next [OF this t] show ?thesis using e k sound_next [OF b t] sound_fail [OF b]
    by (auto simp: PopIntervalNode_invoke_def)
qed

lemma return_rule_sound:
  assumes b: "base_ok g nd m" and k: "m_k m = []" and t: "target_ok g nd nxt"
  shows "sound g nd (ReturnRuleNode_invoke nxt m)"
proof -
  note fr = base_ok_parts(9) [OF b]
  have ok: "base_ok g nd (m\<lparr>m_frames := fs, m_env := rf_env r\<rparr>)" if "m_frames m = FReturn r # fs" for r fs
    using that fr by (intro base_ok_env base_ok_frames [OF b]) auto
  have tg: "target_ok g nd (rf_return_to r)" if "m_frames m = FReturn r # fs" for r fs using that fr by simp
  show ?thesis using sound_next [OF ok tg] sound_next [OF b t] k
    by (auto simp: ReturnRuleNode_invoke_def split: list.splits frame.splits)
qed

lemma invoke_rule_sound:
  assumes b: "base_ok g nd m" and k: "m_k m = []" and s: "spine_ok g nd n (InvokeRule entry ft nxt)"
  shows "sound g nd (InvokeRuleNode_invoke entry ft nxt m)"
proof -
  have "base_ok g nd (m\<lparr>m_frames := FReturn \<lparr>rf_return_to = nxt, rf_env = m_env m, rf_start = m_pos m,
        rf_mark = b_mark (m_builder m), rf_fail_target = ft\<rparr> # m_frames m\<rparr>)"
    using s base_ok_parts(8,9) [OF b] by (intro base_ok_frames [OF b]) auto
  from sound_next [OF this] show ?thesis using s k by (simp add: InvokeRuleNode_invoke_def)
qed

lemma abort_rule_sound:
  assumes b: "base_ok g nd m" and k: "m_k m = []"
  shows "sound g nd (AbortRuleKont_invoke m)"
proof (cases "abort_to (m_frames m)")
  case None
  then show ?thesis using sound_fail [OF b] by (simp add: AbortRuleKont_invoke_def)
next
  case (Some p)
  obtain t fs where p: "p = (t, fs)" by fastforce
  have "target_ok g nd t" "list_all (frame_ok g nd (length (m_input m)) (length (m_ends m))) fs"
    using abort_to_ok [OF base_ok_parts(9) [OF b]] Some p by blast+
  then show ?thesis using Some p k sound_next [OF base_ok_frames [OF b]] by (simp add: AbortRuleKont_invoke_def)
qed

lemma choice_sound:
  assumes b: "base_ok g nd m" and k: "m_k m = []" and t: "target_ok g nd nxt"
  shows "opt_ok (is_r g) f \<Longrightarrow> sound g nd (BeginChoiceNode_invoke f nxt m)"
    and "opt_ok (is_r g) f \<Longrightarrow> sound g nd (BeginOptionalNode_invoke f nxt m)"
    and "sound g nd (CommitChoiceNode_invoke nxt m)" and "sound g nd (EndOptionalNode_invoke nxt m)"
proof -
  have "base_ok g nd (m\<lparr>m_frames := drop_top_save (m_frames m)\<rparr>)"
    using base_ok_parts(9) [OF b] by (intro base_ok_frames [OF b] drop_top_save_ok)
  from sound_next [OF this t] show "sound g nd (CommitChoiceNode_invoke nxt m)" "sound g nd (EndOptionalNode_invoke nxt m)"
    using k by (simp_all add: CommitChoiceNode_invoke_def EndOptionalNode_invoke_def)
  show "sound g nd (BeginChoiceNode_invoke f nxt m)" "sound g nd (BeginOptionalNode_invoke f nxt m)"
    if "opt_ok (is_r g) f"
    using sound_next [OF push_savepoint_ok [OF b k that] t] k
    by (simp_all add: BeginChoiceNode_invoke_def BeginOptionalNode_invoke_def)
qed

lemma advance_pos_sound:
  assumes b: "base_ok g nd m" and k: "m_k m = []" and s: "spine_ok g nd n (AdvancePos c nxt)"
    and n: "unat (m_pos m) + n \<le> length (m_input m)"
  shows "sound g nd (AdvancePosNode_invoke c nxt m)"
proof -
  note bp = base_ok_parts [OF b]
  obtain j where j: "c = int j" "j \<le> n" using s by (auto simp: nat_le_iff intro: nonneg_int_cases)
  have w: "word_of_int c = (word_of_nat j :: size_t)" using j by simp
  have u: "unat (word_of_nat j :: size_t) = j" using j n bp(2) by (simp add: unat_of_nat_64)
  have "unat (m_pos m + word_of_nat j) = unat (m_pos m) + j" using u j n bp(2) by (simp add: unat_add_no_wrap)
  then have "m_pos m + word_of_nat j \<le> m_len m" using j n bp(1) by (simp add: word_le_nat_alt)
  then show ?thesis using sound_next [OF base_ok_pos [OF b]] s k by (simp add: AdvancePosNode_invoke_def w)
qed

lemma spine_sound:
  assumes b: "base_ok (d_prog d) nd m" and k: "m_k m = []" and d: "deps_ok d"
    and s: "spine_ok (d_prog d) nd n sk" and n: "unat (m_pos m) + n \<le> length (m_input m)"
  shows "harmless (d_prog d) nd (invoke_spine d sk m) \<and> (\<not> may_leave sk \<longrightarrow> sound (d_prog d) nd (invoke_spine d sk m))"
proof -
  let ?g = "d_prog d"
  have one: "sound ?g nd (invoke_spine d sk m) \<Longrightarrow> ?thesis" using sound_safe by blast
  have bld: "sound ?g nd (pushing [Static t] (on_builder f m))"
    if "target_ok ?g nd t" "builder_ok (length (m_input m)) (f (m_builder m))" for t f
    using sound_next [OF on_builder_ok [where f = f, OF b that(2)] that(1)] k by simp
  note bo = base_ok_parts(12) [OF b]
  show ?thesis
  proof (cases "may_leave sk")
    case True
    then show ?thesis using external_safe [OF b k _ d] array_next_safe [OF b k] s
      by (cases sk) (auto simp: invoke_spine_def)
  next
    case False
    have "sound ?g nd (invoke_spine d sk m)"
    proof (cases sk)
      case Halt
      then show ?thesis using b k by (simp add: invoke_spine_def HaltNode_invoke_def sound_def mok_def kshape.done_)
    qed (use False s n b k bo in \<open>auto simp: invoke_spine_def BeginStructNode_invoke_def BeginVariantNode_invoke_def
      EndStructNode_invoke_def SeekKont_invoke_def EvalConstraintNode_invoke_def BindComputeNode_invoke_def
      SetEndianNode_invoke_def MatchBytesNode_invoke_def SwitchDispatchNode_invoke_def
      intro!: match_primitive_sound capture_sound store_env_sound bld begin_ok end_ok sound_site
        push_interval_sound [where n = n] pop_interval_sound invoke_rule_sound [where n = n] return_rule_sound onfail_sound abort_rule_sound
        choice_sound begin_array_sound [where n = n] end_array_sound resync_sound extract_bits_sound [where n = n]
        advance_pos_sound [where n = n]\<close>)
    then show ?thesis by (rule one)
  qed
qed

section \<open>Turns\<close>

definition risky :: "deps \<Rightarrow> kitem \<Rightarrow> bool" where
  "risky d x = (case x of
      Static k \<Rightarrow> (case d_prog d k of E _ \<Rightarrow> False | S s \<Rightarrow> may_leave s)
    | Dyn y \<Rightarrow> may_overflow y)"

lemma turn_good:
  assumes g: "graph_ok (d_prog d) nd" and d: "deps_ok d" and m: "machine_ok d nd m" and r: "running m"
  shows "harmless (d_prog d) nd (turn d m) \<and> (\<not> risky d (hd (m_k m)) \<longrightarrow> sound (d_prog d) nd (turn d m))"
proof -
  let ?g = "d_prog d"
  obtain x ks where k: "m_k m = x # ks" using r by (auto simp: running_def neq_Nil_conv)
  let ?m = "m\<lparr>m_k := ks\<rparr>"
  have b: "base_ok ?g nd ?m" and sh: "kshape ?g nd m (x # ks)"
    using m r k by (auto simp: machine_ok_def running_def)
  have t: "turn d m = invoke d x ?m" by (simp add: turn_def k)
  have E: "list_all (is_e ?g) (operands e)" if "?g i = E e" for i e
    using g that unfolding graph_ok_def by (auto dest: spec [of _ i])
  have S: "spine_ok ?g nd (nd i) s" if "?g i = S s" for i s
    using g that unfolding graph_ok_def by (auto dest: spec [of _ i])
  have "harmless ?g nd (invoke d x ?m) \<and> (\<not> risky d x \<longrightarrow> sound ?g nd (invoke d x ?m))"
    using sh
  proof (cases rule: kshape.cases)
    case (spine i)
    obtain s where s: "?g i = S s" using spine by (auto simp: is_s_def is_e_def split: kont.splits)
    have "m_k ?m = []" "unat (m_pos ?m) + nd i \<le> length (m_input ?m)" using spine by auto
    from spine_sound [OF b this(1) d S [OF s] this(2)] show ?thesis
      using spine s by (simp add: invoke_def risky_def)
  next
    case expr
    then show ?thesis
    proof (cases rule: estack.cases)
      case bottom
      then obtain y where y: "x = Dyn y" by (cases x) auto
      show ?thesis using consumer_sound [OF b, of y d] bottom y sound_safe by (auto simp: invoke_def)
    next
      case above
      have st: "estack ?g nd (ahead ?m) (length (m_slots ?m)) (m_k ?m)" using above by simp
      show ?thesis
      proof (cases x)
        case (Static i)
        then obtain e where e: "?g i = E e" using above by (auto simp: is_e_def split: kont.splits)
        show ?thesis using expr_sound [OF b st E [OF e]] Static e sound_safe by (auto simp: invoke_def)
      next
        case (Dyn y)
        show ?thesis using dyn_expr_sound [OF d b st, of y] above Dyn by (simp add: invoke_def risky_def)
      qed
    qed
  next
    case (recover i)
    then consider (onfail) a n p where "?g i = S (OnFail a n p)" | (resync) bd en where "?g i = S (Resync bd en)"
      by (auto simp: is_r_def split: kont.splits skont.splits)
    then have "sound ?g nd (invoke d x ?m)"
    proof cases
      case onfail
      then show ?thesis using S [OF onfail] onfail_sound [OF b] recover
        by (auto simp: invoke_def invoke_spine_def)
    next
      case resync
      then show ?thesis using S [OF resync] resync_sound [OF b] recover
        by (auto simp: invoke_def invoke_spine_def)
    qed
    then show ?thesis using sound_safe by blast
  qed
  then show ?thesis using t k by simp
qed

section \<open>The faults\<close>

text \<open>The undefined behaviour a turn can meet, said of the operands and registers it finds: signed arithmetic
  that leaves the type, a shift by a count that is none or out of a negative value, an external parser handed
  the window with the cursor past its end (a jump can put it there), and an array's counter at the end of its
  type.\<close>

definition leaves64 :: "int \<Rightarrow> bool" where
  "leaves64 x = (x < - (2 ^ 63) \<or> 2 ^ 63 \<le> x)"

fun int_fault :: "binop \<Rightarrow> int \<Rightarrow> int \<Rightarrow> bool" where
  "int_fault Add a b = leaves64 (a + b)"
| "int_fault Sub a b = leaves64 (a - b)"
| "int_fault Mul a b = leaves64 (a * b)"
| "int_fault Div a b = (a = - (2 ^ 63) \<and> b = - 1)"
| "int_fault Mod a b = (a = - (2 ^ 63) \<and> b = - 1)"
| "int_fault Shl a b = (b < 0 \<or> 64 \<le> b \<or> a < 0 \<or> 2 ^ 64 \<le> a * 2 ^ nat b)"
| "int_fault Shr a b = (b < 0 \<or> 64 \<le> b)"
| "int_fault _ a b = False"

definition both_ints :: "(int \<Rightarrow> int \<Rightarrow> bool) \<Rightarrow> val option \<Rightarrow> val option \<Rightarrow> bool" where
  "both_ints P l r = (case (l, r) of (Some (IntV a), Some (IntV b)) \<Rightarrow> P (sint a) (sint b) | _ \<Rightarrow> False)"

fun dyn_fault :: "machine \<Rightarrow> dkont \<Rightarrow> bool" where
  "dyn_fault m (ApplyBin op s) = both_ints (int_fault op) (m_result m) (m_slots m ! s)"
| "dyn_fault m (ApplyUn op) = (op = Neg \<and> both_ints (\<lambda>a b. leaves64 (- a)) (m_result m) (m_result m))"
| "dyn_fault m (CallApply func buf n) =
     (func = ''abs'' \<and> n = 1 \<and> both_ints (\<lambda>a b. leaves64 \<bar>a\<bar>) (m_slots m ! buf) (m_slots m ! buf))"
| "dyn_fault m _ = False"

fun spine_fault :: "machine \<Rightarrow> skont \<Rightarrow> bool" where
  "spine_fault m (ExternalCall func next) = (\<exists>e. m_effective_end m = Some e \<and> e < m_pos m)"
| "spine_fault m (ArrayNext mode ce ue end_node body resync) =
     (\<exists>lf. first_loop (m_frames m) = Some lf \<and> lf_counter lf = INT64_MAX)"
| "spine_fault m _ = False"

definition faulty :: "deps \<Rightarrow> machine \<Rightarrow> bool" where
  "faulty d m = (case m_k m of
      [] \<Rightarrow> False
    | Dyn y # _ \<Rightarrow> dyn_fault m y
    | Static k # _ \<Rightarrow> (case d_prog d k of E _ \<Rightarrow> False | S s \<Rightarrow> spine_fault m s))"

lemma faulty_simps [simp]:
  "m_k m = Dyn y # ks \<Longrightarrow> faulty d m = dyn_fault m y"
  "m_k m = Static k # ks \<Longrightarrow> d_prog d k = S s \<Longrightarrow> faulty d m = spine_fault m s"
  by (simp_all add: faulty_def)

lemma i64_result_None: "i64_result x = None \<longleftrightarrow> leaves64 x"
  by (auto simp: i64_result_def leaves64_def)

lemma ac_int_None: "ac_int x m = None \<longleftrightarrow> leaves64 x"
  using i64_result_None [of x] by (auto simp: ac_int_def ac_def split: option.splits)

lemma no_none [simp]: "ac v m \<noteq> None" "failing msg m \<noteq> None" "pushing ks m \<noteq> None"
  by (simp_all add: ac_def failing_def pushing_def)

lemma sdiv_leaves:
  fixes a b :: i64
  assumes "b \<noteq> 0" "leaves64 (sint a sdiv sint b)"
  shows "sint a = - (2 ^ 63) \<and> sint b = - 1"
proof -
  have r: "- (2 ^ 63) \<le> sint a" "sint a < 2 ^ 63" using sint_ge [of a] sint_lt [of a] by simp_all
  have z: "sint b \<noteq> 0" using assms(1) signed_eq_0_iff by blast
  let ?q = "\<bar>sint a\<bar> div \<bar>sint b\<bar>"
  have "sint a sdiv sint b = sgn (sint a) * sgn (sint b) * ?q" by (simp add: signed_divide_int_def)
  moreover have "0 \<le> ?q" using z by (intro div_int_pos_iff [THEN iffD2]) simp
  ultimately have s: "\<bar>sint a sdiv sint b\<bar> \<le> ?q" "sint a sdiv sint b = ?q \<or> sint a sdiv sint b \<le> 0"
    unfolding sgn_if by (auto simp del: zdiv_zminus1_eq_if zdiv_zminus2_eq_if)
  have q: "?q \<le> \<bar>sint a\<bar>" using z zdiv_mono2 [of "\<bar>sint a\<bar>" 1 "\<bar>sint b\<bar>"] by simp
  have big: "2 ^ 63 \<le> ?q" "0 < sint a sdiv sint b" using assms(2) s q r unfolding leaves64_def by linarith+
  then have a: "sint a = - (2 ^ 63)" using q r by linarith
  have "\<bar>sint b\<bar> = 1"
  proof (rule ccontr)
    assume "\<bar>sint b\<bar> \<noteq> 1"
    then have "2 \<le> \<bar>sint b\<bar>" using z by linarith
    then have "?q \<le> 2 ^ 63 div 2" unfolding a using zdiv_mono2 [of "2 ^ 63" 2 "\<bar>sint b\<bar>"] by simp
    then show False using big by simp
  qed
  moreover have "sint b \<noteq> 1" using big(2) a by (auto simp: signed_divide_int_def)
  ultimately show ?thesis using a by linarith
qed

lemma smod_stays:
  assumes "b \<noteq> 0"
  shows "\<not> leaves64 (sint (a :: i64) smod sint (b :: i64))"
proof -
  have r: "- (2 ^ 63) \<le> sint b" "sint b < 2 ^ 63" using sint_ge [of b] sint_lt [of b] by simp_all
  have "sint b \<noteq> 0" using assms signed_eq_0_iff by blast
  then have "sint a smod sint b \<in> {- \<bar>sint b\<bar> + 1..\<bar>sint b\<bar> - 1}" by (rule smod_int_range)
  then show ?thesis using r by (auto simp: leaves64_def)
qed

lemma bin_fault:
  assumes "apply_binop fl op rhs m = None"
  shows "both_ints (int_fault op) (m_result m) rhs"
proof -
  note defs = apply_binop_def arith_apply_def ApplyDivKont_invoke_def ApplyModKont_invoke_def bitwise_apply_def
    ApplyEqKont_invoke_def ApplyNeKont_invoke_def ordered_apply_def both_ints_def
  show ?thesis using assms
    by (cases op) (auto simp: defs ac_int_None i64_result_None shl_i64_def shr_i64_def
        split: option.splits val.splits if_splits dest: sdiv_leaves simp: smod_stays)
qed

lemma un_fault: "apply_unop op m = None \<Longrightarrow> dyn_fault m (ApplyUn op)"
  by (cases op) (auto simp: apply_unop_def ApplyNegKont_invoke_def ApplyBitNotKont_invoke_def ApplyNotKont_invoke_def
      both_ints_def ac_int_None split: option.splits val.splits)

lemma call_fault:
  assumes b: "base_ok g nd m" and k: "estack g nd (ahead m) (length (m_slots m)) (m_k m)" and d: "deps_ok d"
    and buf: "buf + max 1 n \<le> length (m_slots m)" and u: "CallApplyKont_invoke d func buf n m = None"
  shows "dyn_fault m (CallApply func buf n)"
proof -
  obtain f where f: "builtin_lookup builtin_registrations func n = Some f" "run_builtin (d_fl d) f buf m = None"
    using d u by (auto simp: CallApplyKont_invoke_def deps_ok_def split: option.splits)
  then have "(f = BAbs \<and> func = ''abs'' \<and> n = 1) \<or> (f = BMin \<and> n = 2) \<or> (f = BMax \<and> n = 2) \<or> (f = BClamp \<and> n = 3) \<or> f = BPeek"
    by (auto simp: builtin_lookup_def builtin_registrations_def split: if_splits)
  moreover have "builtin_peek m \<noteq> None" using peek_sound [OF b k] by (auto simp: sound_def split: option.splits)
  ultimately show ?thesis using f buf slot_ok(1) [OF b]
    by (elim disjE) (auto simp: run_builtin_def builtin_abs_def builtin_minmax_def builtin_clamp_def
        both_ints_def ac_int_None abs_if split: option.splits val.splits if_splits)
qed

lemma external_fault:
  assumes b: "base_ok g nd m" and u: "ExternalCallNode_invoke d func nxt m = None"
  shows "spine_fault m (ExternalCall func nxt)"
proof -
  obtain e where e: "m_effective_end m = Some e" "e \<le> m_len m" using ends_ok [OF b] .
  have "e < m_pos m"
  proof (rule ccontr)
    assume "\<not> e < m_pos m"
    then have "unat (m_pos m) + unat (e - m_pos m) = unat e" by (simp add: unat_sub not_less word_le_nat_alt)
    then have "unat (m_pos m) + unat (e - m_pos m) \<le> length (m_input m)"
      using e(2) base_ok_parts(1) [OF b] by (simp add: word_le_nat_alt)
    then show False using u e by (auto simp: ExternalCallNode_invoke_def span_in split: option.splits prod.splits if_splits)
  qed
  then show ?thesis using e by simp
qed

lemma count_fault: "i64_result (sint (c :: i64) + 1) = None \<Longrightarrow> c = INT64_MAX"
proof -
  assume "i64_result (sint c + 1) = None"
  then have "sint c = sint INT64_MAX" using sint_lt [of c] sint_ge [of c] by (simp add: i64_result_None leaves64_def INT64_MAX_def)
  then show ?thesis by (simp only: signed_word_eqI)
qed

lemma advance_fault:
  assumes e: "m_effective_end m \<noteq> None" and u: "array_advance mode ce ue end_node body inner outer m = None"
  shows "\<exists>lf. first_loop outer = Some lf \<and> lf_counter lf = INT64_MAX"
proof -
  obtain lf fs where o: "outer = FLoop lf # fs"
    using u by (auto simp: array_advance_def split: list.splits frame.splits)
  have "m_effective_end (m\<lparr>m_frames := f\<rparr>) = m_effective_end m" for f by (simp add: m_effective_end_def)
  then have "i64_result (sint (lf_counter lf) + 1) = None"
    using u o e by (cases mode) (auto simp: array_advance_def Let_def split: option.splits)
  then show ?thesis using o count_fault by simp
qed

lemma array_next_fault:
  assumes b: "base_ok g nd m" and u: "ArrayNextNode_invoke mode ce ue end_node body resync m = None"
  shows "spine_fault m (ArrayNext mode ce ue end_node body resync)"
proof -
  have e: "m_effective_end (m\<lparr>m_frames := fs\<rparr>) \<noteq> None" for fs
    using base_ok_parts(6) [OF b] by (simp add: m_effective_end_def)
  have "\<exists>lf. first_loop (m_frames m) = Some lf \<and> lf_counter lf = INT64_MAX"
  proof (cases resync)
    case True
    obtain sp fs where fs: "m_frames m = FSave sp # fs"
    proof (cases "m_frames m")
      case (Cons f fs)
      then show thesis using u True that by (cases f) (simp_all add: ArrayNextNode_invoke_def)
    qed (use u True in \<open>simp add: ArrayNextNode_invoke_def\<close>)
    have "array_advance mode ce ue end_node body [FSave (refresh m sp)] fs
        (m\<lparr>m_frames := FSave (refresh m sp) # fs\<rparr>) = None"
      using u True fs by (simp add: ArrayNextNode_invoke_def Let_def)
    from advance_fault [OF e this] show ?thesis using fs by simp
  next
    case False
    then show ?thesis using u advance_fault [OF e [of "m_frames m"]] by (simp add: ArrayNextNode_invoke_def)
  qed
  then show ?thesis by simp
qed

lemma overflow_shape:
  assumes "kshape g nd m (Dyn y # ks)" "may_overflow y"
  shows "expr_item g (length (m_slots m)) (Dyn y) \<and> estack g nd (ahead m) (length (m_slots m)) ks"
proof -
  have n: "\<not> consumer g nd a (Dyn y)" for a using assms(2) by (cases y) auto
  have "estack g nd (ahead m) (length (m_slots m)) (Dyn y # ks)"
    using assms(1) by (cases rule: kshape.cases) auto
  then show ?thesis using n by (cases rule: estack.cases) auto
qed

lemma turn_fault:
  assumes g: "graph_ok (d_prog d) nd" and d: "deps_ok d" and m: "machine_ok d nd m" and r: "running m"
    and u: "turn d m = None"
  shows "faulty d m"
proof -
  let ?g = "d_prog d"
  obtain x ks where k: "m_k m = x # ks" using r by (auto simp: running_def neq_Nil_conv)
  let ?m = "m\<lparr>m_k := ks\<rparr>"
  have b: "base_ok ?g nd ?m" and sh: "kshape ?g nd m (x # ks)"
    using m r k by (auto simp: machine_ok_def running_def)
  have i: "invoke d x ?m = None" using u k by (simp add: turn_def)
  have risk: "risky d x" using turn_good [OF g d m r] u k by (auto simp: sound_def)
  have e: "m_effective_end ?m = m_effective_end m" by (simp add: m_effective_end_def)
  show ?thesis
  proof (cases x)
    case (Static j)
    then obtain s where s: "?g j = S s" "may_leave s" using risk by (auto simp: risky_def split: kont.splits)
    then have "spine_fault ?m s"
      using i Static external_fault [OF b] array_next_fault [OF b]
      by (cases s) (auto simp: invoke_def invoke_spine_def)
    then show ?thesis using k Static s e by (cases s) auto
  next
    case (Dyn y)
    then have y: "may_overflow y" using risk by (simp add: risky_def)
    then have st: "expr_item ?g (length (m_slots m)) (Dyn y)" "estack ?g nd (ahead ?m) (length (m_slots ?m)) (m_k ?m)"
      using overflow_shape [OF sh [unfolded Dyn] y] by simp_all
    have "dyn_fault ?m y"
    proof (cases y)
      case (ApplyBin op s)
      then have "apply_binop (d_fl d) op (m_slots m ! s) ?m = None"
        using i Dyn st slot_ok(1) [OF b, of s] by (simp add: invoke_def invoke_dyn_def ApplyBinKont_invoke_def)
      from bin_fault [OF this] show ?thesis using ApplyBin by simp
    next
      case (ApplyUn op)
      then show ?thesis using i Dyn un_fault by (simp add: invoke_def invoke_dyn_def del: dyn_fault.simps)
    next
      case (CallApply func buf n)
      then show ?thesis using i Dyn st call_fault [OF b st(2) d]
        by (simp add: invoke_def invoke_dyn_def del: dyn_fault.simps)
    qed (use y in auto)
    then show ?thesis using k Dyn by (cases y) auto
  qed
qed

section \<open>Runs\<close>

inductive cek_step :: "deps \<Rightarrow> machine \<Rightarrow> machine \<Rightarrow> bool" for d where
  turn: "running m \<Longrightarrow> turn d m = Some m1 \<Longrightarrow> cek_step d m m1"

inductive_cases cek_step_elim: "cek_step d m m1"

lemma cek_step_ok:
  "graph_ok (d_prog d) nd \<Longrightarrow> deps_ok d \<Longrightarrow> machine_ok d nd m \<Longrightarrow> cek_step d m m1 \<Longrightarrow> machine_ok d nd m1"
  using turn_good [of d nd m] by (auto simp: harmless_def machine_ok_mok elim!: cek_step_elim)

lemma cek_steps_ok:
  "(cek_step d)\<^sup>*\<^sup>* m m1 \<Longrightarrow> graph_ok (d_prog d) nd \<Longrightarrow> deps_ok d \<Longrightarrow> machine_ok d nd m \<Longrightarrow> machine_ok d nd m1"
  by (induction rule: rtranclp_induct) (auto intro: cek_step_ok)

text \<open>What a bounded run is in terms of steps.\<close>

lemma trampoline_unfold:
  "\<not> running m \<Longrightarrow> trampoline d n m = Finished m"
  "running m \<Longrightarrow> trampoline d 0 m = OutOfFuel"
  "running m \<Longrightarrow> trampoline d (Suc k) m = (case turn d m of None \<Rightarrow> Undefined | Some m1 \<Rightarrow> trampoline d k m1)"
  by (simp_all add: trampoline.simps [of d n m] trampoline.simps [of d _ m])

lemma trampoline_finished:
  "trampoline d n m = Finished m1 \<Longrightarrow> (cek_step d)\<^sup>*\<^sup>* m m1 \<and> \<not> running m1"
proof (induction n arbitrary: m)
  case 0
  then show ?case by (cases "running m") (auto simp: trampoline_unfold)
next
  case (Suc n)
  show ?case
  proof (cases "running m")
    case False
    then show ?thesis using Suc.prems by (simp add: trampoline_unfold)
  next
    case True
    then obtain m2 where m2: "turn d m = Some m2" "trampoline d n m2 = Finished m1"
      using Suc.prems by (auto simp: trampoline_unfold split: option.splits)
    then show ?thesis using Suc.IH [of m2] cek_step.turn [OF True m2(1)]
      by (auto intro: converse_rtranclp_into_rtranclp)
  qed
qed

lemma trampoline_undefined:
  "trampoline d n m = Undefined \<Longrightarrow> \<exists>m1. (cek_step d)\<^sup>*\<^sup>* m m1 \<and> running m1 \<and> turn d m1 = None"
proof (induction n arbitrary: m)
  case 0
  then show ?case by (cases "running m") (auto simp: trampoline_unfold)
next
  case (Suc n)
  have r: "running m" using Suc.prems by (cases "running m") (auto simp: trampoline_unfold)
  show ?case
  proof (cases "turn d m")
    case None
    then show ?thesis using r by blast
  next
    case (Some m2)
    then have "trampoline d n m2 = Undefined" using Suc.prems r by (simp add: trampoline_unfold)
    then show ?thesis using Suc.IH [of m2] cek_step.turn [OF r Some]
      by (meson converse_rtranclp_into_rtranclp)
  qed
qed

lemma start_ok:
  assumes "target_ok (d_prog d) nd entry" and "unat len = length data" and "length data < 2 ^ 62"
  shows "machine_ok d nd (start_machine entry data len le fresh_machine)"
  using assms
  by (auto simp: machine_ok_def start_machine_def fresh_machine_def base_ok_def input_ok_def windows_ok_def
      builder_ok_def env_ok_def b_clear_def target_ok_def Let_def intro!: kshape.spine)

text \<open>A graph given as a list; numbers past its end are \<open>Halt\<close>.\<close>

definition graph_of :: "kont list \<Rightarrow> kid \<Rightarrow> kont" where
  "graph_of ks k = (if k < length ks then ks ! k else S Halt)"

lemma graph_of_ok:
  assumes "list_all (\<lambda>k. case ks ! k of E e \<Rightarrow> list_all (is_e (graph_of ks)) (operands e)
      | S s \<Rightarrow> spine_ok (graph_of ks) nd (nd k) s) [0..<length ks]"
  shows "graph_ok (graph_of ks) nd"
  using assms by (auto simp: graph_ok_def graph_of_def list_all_iff)

end
