(* ===== verification/Lower.thy ===== *)
theory Lower
  imports Ast CekSafe "HOL-Library.Monad_Syntax"
begin

text \<open>
  The lowering of a grammar to the graph of konts the CEK machine runs: \<open>class Compiler\<close> of
  \<open>backends/cek/bbq_compile.h\<close> (which \<open>ddcgc\<close> writes from \<open>bbq.ddcg\<close>). The arena is the list of the konts in
  the order of their allocation and a kont's address its place in the list. An edge that the code fills in
  later is \<open>0\<close> until then; the rules still to be linked are the list \<open>lo_patches\<close>, as in the code.

  \<open>None\<close> is the lowering not giving a graph: an unknown builtin, which throws, an operator without a rule,
  for which \<open>compile_expr\<close> returns a null kont, and a range of cases up to \<open>INT64_MAX\<close>, whose loop has no end.
  The data and control destinations of the generated functions are always the same (a value is left in
  the accumulator, control goes to \<open>Lnext\<close>), so they are left out; names are interned, and stay strings.
\<close>

section \<open>The arena\<close>

record lower =
  lo_arena :: "kont list"
  lo_patches :: "(kid \<times> string) list"

type_synonym low = "lower \<Rightarrow> (kid \<times> lower) option"

definition alloc :: "kont \<Rightarrow> lower \<Rightarrow> kid \<times> lower" where
  "alloc k lo = (length (lo_arena lo), lo\<lparr>lo_arena := lo_arena lo @ [k]\<rparr>)"

definition make_e :: "ekont \<Rightarrow> low" where
  "make_e e lo = Some (alloc (E e) lo)"

definition make_s :: "skont \<Rightarrow> low" where
  "make_s k lo = Some (alloc (S k) lo)"

section \<open>Expressions\<close>

fun lower_binop :: "ast_binop \<Rightarrow> kid \<Rightarrow> kid \<Rightarrow> ekont" where
  "lower_binop ast_binop.Add l r = BinK binop.Add l r"
| "lower_binop ast_binop.Sub l r = BinK binop.Sub l r"
| "lower_binop ast_binop.Mul l r = BinK binop.Mul l r"
| "lower_binop ast_binop.Div l r = BinK binop.Div l r"
| "lower_binop ast_binop.Mod l r = BinK binop.Mod l r"
| "lower_binop ast_binop.BitAnd l r = BinK binop.BitAnd l r"
| "lower_binop ast_binop.BitOr l r = BinK binop.BitOr l r"
| "lower_binop ast_binop.BitXor l r = BinK binop.BitXor l r"
| "lower_binop ast_binop.Shl l r = BinK binop.Shl l r"
| "lower_binop ast_binop.Shr l r = BinK binop.Shr l r"
| "lower_binop ast_binop.Eq l r = BinK binop.Eq l r"
| "lower_binop ast_binop.Ne l r = BinK binop.Ne l r"
| "lower_binop ast_binop.Lt l r = BinK binop.Lt l r"
| "lower_binop ast_binop.Le l r = BinK binop.Le l r"
| "lower_binop ast_binop.Gt l r = BinK binop.Gt l r"
| "lower_binop ast_binop.Ge l r = BinK binop.Ge l r"
| "lower_binop ast_binop.And l r = LAndK l r"
| "lower_binop ast_binop.Or l r = LOrK l r"

fun lower_unop :: "ast_unop \<Rightarrow> unop option" where
  "lower_unop ast_unop.Neg = Some unop.Neg"
| "lower_unop ast_unop.BitNot = Some unop.BitNot"
| "lower_unop ast_unop.Not = Some unop.Not"
| "lower_unop Abs = None"

definition make_builtin :: "string \<Rightarrow> ekont option" where
  "make_builtin n =
     (if n = ''pos'' then Some PosK else if n = ''start'' then Some StartK else if n = ''end'' then Some EndK
      else if n = ''remaining'' then Some RemainingK else if n = ''index'' then Some LoopVarK
      else if n = ''buffer'' then Some BufferK else None)"

definition endian_to_bool :: "endianness \<Rightarrow> bool" where
  "endian_to_bool e = (e = Little)"

text \<open>\<open>step_into\<close> of \<open>compile_ref_path\<close>: no step for an empty field name.\<close>

definition step_into :: "string \<Rightarrow> kid \<Rightarrow> low" where
  "step_into field base lo = (if field = [] then Some (base, lo) else make_e (FieldAccess base field) lo)"

fun compile_expr :: "expr \<Rightarrow> low"
and compile_ref_path :: "ref_path \<Rightarrow> string \<Rightarrow> low"
and compile_call_args :: "expr list \<Rightarrow> lower \<Rightarrow> (kid list \<times> lower) option" where
  "compile_expr (expr.IntLit n) lo = make_e (ekont.IntLit n) lo"
| "compile_expr (expr.BoolLit b) lo = make_e (ekont.BoolLit b) lo"
| "compile_expr (expr.FloatLit f) lo = make_e (ekont.FloatLit f) lo"
| "compile_expr (expr.StrLit s) lo = make_e (ekont.StrLit s) lo"
| "compile_expr EOI lo = make_e EOIK lo"
| "compile_expr (Builtin n) lo = do { e \<leftarrow> make_builtin n; make_e e lo }"
| "compile_expr (expr.Ref (Simple n rp rpar rd)) lo = make_e (ekont.Ref n rp) lo"
| "compile_expr (expr.Ref (FieldAcc b f)) lo =
     do { (p, lo1) \<leftarrow> compile_ref_path b f lo; make_e (CaptureValue p) lo1 }"
| "compile_expr (expr.Ref (IndexAcc b i)) lo =
     do { (idx, lo1) \<leftarrow> compile_expr i lo; (base, lo2) \<leftarrow> compile_ref_path b [] lo1;
          (p, lo3) \<leftarrow> make_e (IndexAccess base idx) lo2; make_e (CaptureValue p) lo3 }"
| "compile_expr (BinOp l op r) lo =
     do { (lv, lo1) \<leftarrow> compile_expr l lo; (rv, lo2) \<leftarrow> compile_expr r lo1; make_e (lower_binop op lv rv) lo2 }"
| "compile_expr (UnaryOp op e) lo =
     do { u \<leftarrow> lower_unop op; (ev, lo1) \<leftarrow> compile_expr e lo; make_e (UnK u ev) lo1 }"
| "compile_expr (Ternary c t e) lo =
     do { (cv, lo1) \<leftarrow> compile_expr c lo; (tv, lo2) \<leftarrow> compile_expr t lo1; (ev, lo3) \<leftarrow> compile_expr e lo2;
          make_e (TernaryK cv tv ev) lo3 }"
| "compile_expr (EndianLit v) lo = make_e (ekont.BoolLit (endian_to_bool v)) lo"
| "compile_expr (Call f args) lo =
     do { (ks, lo1) \<leftarrow> compile_call_args args lo; make_e (CallK f ks) lo1 }"
| "compile_ref_path (Simple n rp rpar rd) field lo =
     do { (p, lo1) \<leftarrow> make_e (PathStart n) lo; step_into field p lo1 }"
| "compile_ref_path (FieldAcc b f) field lo =
     do { (p, lo1) \<leftarrow> compile_ref_path b f lo; step_into field p lo1 }"
| "compile_ref_path (IndexAcc b i) field lo =
     do { (idx, lo1) \<leftarrow> compile_expr i lo; (base, lo2) \<leftarrow> compile_ref_path b [] lo1;
          (p, lo3) \<leftarrow> make_e (IndexAccess base idx) lo2; step_into field p lo3 }"
| "compile_call_args [] lo = Some ([], lo)"
| "compile_call_args (e # es) lo =
     do { (k, lo1) \<leftarrow> compile_expr e lo; (ks, lo2) \<leftarrow> compile_call_args es lo1; Some (k # ks, lo2) }"

section \<open>Scopes of the lowering\<close>

datatype rho = Root | InField string rho | InAlt kid rho | InOptional kid rho | InArrayElem "kid option" rho

fun intern_field_or_anon :: "rho \<Rightarrow> string" where
  "intern_field_or_anon (InField n p) = n"
| "intern_field_or_anon (InArrayElem k p) = []"
| "intern_field_or_anon Root = []"
| "intern_field_or_anon (InAlt k p) = intern_field_or_anon p"
| "intern_field_or_anon (InOptional k p) = intern_field_or_anon p"

fun find_backtrack_target :: "rho \<Rightarrow> kid option" where
  "find_backtrack_target Root = None"
| "find_backtrack_target (InAlt k p) = Some k"
| "find_backtrack_target (InOptional k p) = Some k"
| "find_backtrack_target (InArrayElem k p) = (case k of Some t \<Rightarrow> Some t | None \<Rightarrow> find_backtrack_target p)"
| "find_backtrack_target (InField n p) = find_backtrack_target p"

section \<open>Parts of types\<close>

fun to_prim_info :: "primitive_kind \<Rightarrow> prim_info" where
  "to_prim_info (IntegerKind w s e c) =
     \<lparr>p_kind = KInteger, p_width = (case w of width.W8 \<Rightarrow> prim_width.W8 | width.W16 \<Rightarrow> prim_width.W16
        | width.W32 \<Rightarrow> prim_width.W32 | width.W64 \<Rightarrow> prim_width.W64),
      p_signed = (s = Signed), p_endian = (case e of Little \<Rightarrow> PLittle | Big \<Rightarrow> PBig | Default \<Rightarrow> PNative),
      p_encoding = (case c of encoding.Fixed \<Rightarrow> prim_encoding.Fixed | encoding.Uleb \<Rightarrow> prim_encoding.Uleb
        | encoding.Sleb \<Rightarrow> prim_encoding.Sleb)\<rparr>"
| "to_prim_info (FloatKind w e) =
     \<lparr>p_kind = KFloat, p_width = (if w = width.W32 then prim_width.W32 else prim_width.W64), p_signed = False,
      p_endian = (case e of Little \<Rightarrow> PLittle | Big \<Rightarrow> PBig | Default \<Rightarrow> PNative), p_encoding = prim_encoding.Fixed\<rparr>"
| "to_prim_info BoolKind = \<lparr>p_kind = KBool, p_width = prim_width.W8, p_signed = False, p_endian = PLittle,
      p_encoding = prim_encoding.Fixed\<rparr>"
| "to_prim_info _ = \<lparr>p_kind = KInteger, p_width = prim_width.W8, p_signed = False, p_endian = PLittle,
      p_encoding = prim_encoding.Fixed\<rparr>"

text \<open>Where a value goes: bound in the environment, and captured unless it is called \<open>_\<close>. The empty name
  stands for the null one.\<close>

definition field_dest :: "string \<Rightarrow> kid \<Rightarrow> low" where
  "field_dest nm tail lo =
     (if nm = ''_'' then make_s (StoreEnv nm tail) lo
      else do { (st, lo1) \<leftarrow> make_s (StoreEnv nm tail) lo;
                make_s (Capture (if nm = [] then None else Some nm) st) lo1 })"

definition eval_where :: "expr option \<Rightarrow> rho \<Rightarrow> kid \<Rightarrow> low" where
  "eval_where constraint r Lnext lo = (case constraint of
      None \<Rightarrow> Some (Lnext, lo)
    | Some c \<Rightarrow>
        do { (e, lo1) \<leftarrow> compile_expr c lo;
             (on_false, lo2) \<leftarrow> (case find_backtrack_target r of Some t \<Rightarrow> Some (t, lo1) | None \<Rightarrow> make_s AbortRule lo1);
             make_s (EvalConstraint e (Some on_false) Lnext) lo2 })"

definition interval_entry :: "interval \<Rightarrow> kid \<Rightarrow> low" where
  "interval_entry iv body lo = (case iv of
      StartEnd a b \<Rightarrow>
        do { (end_e, lo1) \<leftarrow> compile_expr b lo; (push, lo2) \<leftarrow> make_s (PushInterval end_e False body) lo1;
             (start_e, lo3) \<leftarrow> compile_expr a lo2; make_s (SeekK start_e push) lo3 }
    | Length n \<Rightarrow> do { (len_e, lo1) \<leftarrow> compile_expr n lo; make_s (PushInterval len_e True body) lo1 })"

fun interval_of :: "type_expr \<Rightarrow> interval option" where
  "interval_of (Primitive _ _ iv) = iv"
| "interval_of (RuleRef _ _ iv) = iv"
| "interval_of (Array _ _ _ iv _ _) = iv"
| "interval_of (Extern _ _ _ _ iv) = iv"
| "interval_of _ = None"

fun is_byte_run :: "type_expr \<Rightarrow> bool" where
  "is_byte_run (Primitive kind _ _) = (kind = BytesKind \<or> kind = StringKind)"
| "is_byte_run _ = False"

text \<open>\<open>make_invoke_rule\<close>: the entry is linked when every rule has been compiled.\<close>

definition make_invoke_rule :: "string \<Rightarrow> kid option \<Rightarrow> kid \<Rightarrow> low" where
  "make_invoke_rule nm fail_target next lo =
     (case alloc (S (InvokeRule 0 fail_target next)) lo of
        (k, lo1) \<Rightarrow> Some (k, lo1\<lparr>lo_patches := lo_patches lo1 @ [(k, nm)]\<rparr>))"

definition compile_primitive :: "primitive_kind \<Rightarrow> expr option \<Rightarrow> interval option \<Rightarrow> rho \<Rightarrow> kid \<Rightarrow> low" where
  "compile_primitive kind constraint iv r Lnext lo =
     do { (tail, lo1) \<leftarrow> eval_where constraint r Lnext lo;
          if kind = BytesKind \<or> kind = StringKind
          then do { (len_e, lo2) \<leftarrow> (case iv of Some (Length n) \<Rightarrow> compile_expr n lo1 | _ \<Rightarrow> make_e RemainingK lo1);
                    (dest, lo3) \<leftarrow> field_dest (intern_field_or_anon r) tail lo2;
                    make_s (MatchBytes len_e (kind = StringKind) dest) lo3 }
          else do { (dest, lo2) \<leftarrow> field_dest (intern_field_or_anon r) tail lo1;
                    make_s (MatchPrimitive (to_prim_info kind) dest) lo2 } }"

text \<open>The entries of a bit field in reverse, each reading behind those before it; the widths are \<open>int\<close>s.\<close>

fun compile_entries :: "prim_info \<Rightarrow> int \<Rightarrow> bitfield_entry list \<Rightarrow> rho \<Rightarrow> kid \<Rightarrow> low" where
  "compile_entries container offset [] r chain lo = Some (chain, lo)"
| "compile_entries container offset (e # es) r chain lo =
     (let w = sint (ucast (e_width e) :: 32 word) in
      do { (rest, lo1) \<leftarrow> compile_entries container (sint (word_of_int (offset + w) :: 32 word)) es r chain lo;
           (tail, lo2) \<leftarrow> eval_where (e_constraint e) r rest lo1;
           (dest, lo3) \<leftarrow> field_dest (e_name e) tail lo2;
           make_s (ExtractBits container offset w (e_sign e = Signed) dest) lo3 })"

definition compile_bitfield :: "prim_info \<Rightarrow> bitfield_entry list \<Rightarrow> rho \<Rightarrow> kid \<Rightarrow> low" where
  "compile_bitfield container es r Lnext lo =
     do { (adv, lo1) \<leftarrow> make_s (AdvancePos (int (byte_count container)) Lnext) lo;
          compile_entries container 0 es r adv lo1 }"

section \<open>Types\<close>

text \<open>The constructs take the compiler of their parts as an argument; it is \<open>compile_type_expr\<close>.\<close>

type_synonym compiler = "type_expr \<Rightarrow> rho \<Rightarrow> kid \<Rightarrow> low"

text \<open>The interval of a field: its own, or that of its body unless it is the width of a byte run.\<close>

definition field_window :: "type_field \<Rightarrow> interval option" where
  "field_window f = (case f_interval f of
      Some iv \<Rightarrow> Some iv
    | None \<Rightarrow> (case interval_of (f_body f) of
          Some (StartEnd a b) \<Rightarrow> Some (StartEnd a b)
        | Some (Length n) \<Rightarrow> if is_byte_run (f_body f) then None else Some (Length n)
        | None \<Rightarrow> None))"

definition compile_field :: "compiler \<Rightarrow> rho \<Rightarrow> type_field \<Rightarrow> kid \<Rightarrow> low" where
  "compile_field cc r f chain lo =
     (if f_scopes_rest f
      then do { (len_e, lo1) \<leftarrow> make_e (ekont.Ref (f_name f) None) lo;
                (push, lo2) \<leftarrow> make_s (PushInterval len_e True chain) lo1;
                cc (f_body f) (InField (f_name f) r) push lo2 }
      else (case field_window f of
          Some iv \<Rightarrow> do { (pop, lo1) \<leftarrow> make_s (PopInterval False chain) lo;
                         (body, lo2) \<leftarrow> cc (f_body f) (InField (f_name f) r) pop lo1;
                         interval_entry iv body lo2 }
        | None \<Rightarrow> cc (f_body f) (InField (f_name f) r) chain lo))"

fun compile_chain :: "compiler \<Rightarrow> rho \<Rightarrow> type_field list \<Rightarrow> kid \<Rightarrow> low" where
  "compile_chain cc r [] tail lo = Some (tail, lo)"
| "compile_chain cc r (f # fs) tail lo =
     do { (chain, lo1) \<leftarrow> compile_chain cc r fs tail lo; compile_field cc r f chain lo1 }"

definition compile_fields :: "compiler \<Rightarrow> type_field list \<Rightarrow> rho \<Rightarrow> kid \<Rightarrow> low" where
  "compile_fields cc fs r tail lo =
     do { (chain, lo1) \<leftarrow> (if list_ex f_scopes_rest fs then make_s (PopInterval True tail) lo else Some (tail, lo));
          compile_chain cc r fs chain lo1 }"

definition compile_optional :: "compiler \<Rightarrow> type_expr \<Rightarrow> expr option \<Rightarrow> rho \<Rightarrow> kid \<Rightarrow> low" where
  "compile_optional cc e constraint r Lnext lo = (case constraint of
      Some c \<Rightarrow>
        do { (inner, lo1) \<leftarrow> cc e r Lnext lo; (cond, lo2) \<leftarrow> compile_expr c lo1;
             make_s (EvalConstraint cond (Some Lnext) inner) lo2 }
    | None \<Rightarrow>
        do { (fin, lo1) \<leftarrow> make_s (EndOptional Lnext) lo;
             (skip, lo2) \<leftarrow> make_s (OnFail (Some Lnext) None True) lo1;
             (inner, lo3) \<leftarrow> cc e (InOptional skip r) fin lo2;
             make_s (BeginOptional (Some skip) inner Lnext) lo3 })"

text \<open>The mode of an array with its count or condition; a kont the mode does not use is \<open>0\<close>. A terminator
  that is a type has no mode of its own.\<close>

definition array_exprs :: "type_expr array_spec \<Rightarrow> lower \<Rightarrow> ((array_mode \<times> kid \<times> kid) \<times> lower) option" where
  "array_exprs spec lo = (case spec of
      array_spec.FixedCount e \<Rightarrow> do { (k, lo1) \<leftarrow> compile_expr e lo; Some ((array_mode.FixedCount, k, 0), lo1) }
    | SepTerm sep (CountTerm e) \<Rightarrow> do { (k, lo1) \<leftarrow> compile_expr e lo; Some ((CountMode, k, 0), lo1) }
    | SepTerm sep (UntilTerm e) \<Rightarrow> do { (k, lo1) \<leftarrow> compile_expr e lo; Some ((UntilMode, 0, k), lo1) }
    | _ \<Rightarrow> Some ((EofMode, 0, 0), lo))"

text \<open>\<open>node->edge = k\<close> on a kont of the arena.\<close>

definition patch :: "kid \<Rightarrow> kont \<Rightarrow> lower \<Rightarrow> lower" where
  "patch k node lo = lo\<lparr>lo_arena := (lo_arena lo)[k := node]\<rparr>"

definition compile_element :: "compiler \<Rightarrow> type_expr \<Rightarrow> interval option \<Rightarrow> rho \<Rightarrow> kid \<Rightarrow> low" where
  "compile_element cc element eiv r array_next lo = (case eiv of
      Some iv \<Rightarrow> do { (pop, lo1) \<leftarrow> make_s (PopInterval False array_next) lo;
                     (body, lo2) \<leftarrow> cc element r pop lo1; interval_entry iv body lo2 }
    | None \<Rightarrow> cc element r array_next lo)"

definition compile_separator :: "compiler \<Rightarrow> type_expr array_spec \<Rightarrow> rho \<Rightarrow> kid \<Rightarrow> low" where
  "compile_separator cc spec r body_head lo = (case spec of
      SepTerm (TypeSep t) trm \<Rightarrow> cc t (InField ''_'' r) body_head lo
    | _ \<Rightarrow> Some (body_head, lo))"

definition compile_array ::
    "compiler \<Rightarrow> type_expr \<Rightarrow> type_expr array_spec \<Rightarrow> interval option \<Rightarrow> bool \<Rightarrow> rho \<Rightarrow> kid \<Rightarrow> low" where
  "compile_array cc element spec eiv resync r Lnext lo =
     do { ((mode, count_e, until_e), lo1) \<leftarrow> array_exprs spec lo;
          (fin, lo2) \<leftarrow> make_s (EndArray resync Lnext) lo1;
          (array_next, lo3) \<leftarrow> make_s (ArrayNext mode count_e until_e fin 0 resync) lo2;
          (rk, lo4) \<leftarrow> (if resync then do { (k, lo4) \<leftarrow> make_s (Resync 0 fin) lo3; Some (Some k, lo4) } else Some (None, lo3));
          (body_head, lo5) \<leftarrow> compile_element cc element eiv (InArrayElem rk r) array_next lo4;
          (entry, lo6) \<leftarrow> compile_separator cc spec (InArrayElem rk r) body_head lo5;
          let lo7 = patch array_next (S (ArrayNext mode count_e until_e fin entry resync)) lo6;
              lo8 = (case rk of Some k \<Rightarrow> patch k (S (Resync entry fin)) lo7 | None \<Rightarrow> lo7)
          in make_s (BeginArray (Some (intern_field_or_anon r)) mode count_e until_e fin rk body_head) lo8 }"

text \<open>Choices: the arms right to left, each with the link that dispatches to the next.\<close>

definition build_variant_arm :: "compiler \<Rightarrow> string \<Rightarrow> type_expr \<Rightarrow> int \<Rightarrow> rho \<Rightarrow> kid \<Rightarrow> low" where
  "build_variant_arm cc name body tag r success lo =
     do { (fin, lo1) \<leftarrow> make_s (EndStruct success) lo;
          (inner, lo2) \<leftarrow> (case body of
              RuleRef nm c iv \<Rightarrow> make_invoke_rule nm (find_backtrack_target r) fin lo1
            | _ \<Rightarrow> cc body r fin lo1);
          make_s (BeginVariant (Some name) tag inner) lo2 }"

text \<open>From arm \<open>i\<close> on: the link and the target of the arm before.\<close>

fun compile_arms :: "compiler \<Rightarrow> rho \<Rightarrow> kid \<Rightarrow> kid \<Rightarrow> int \<Rightarrow> (string \<times> type_expr) list \<Rightarrow> lower \<Rightarrow>
    ((kid \<times> kid) \<times> lower) option" where
  "compile_arms cc r commit exhausted i [] lo = None"
| "compile_arms cc r commit exhausted i [(name, body)] lo =
     do { (arm, lo1) \<leftarrow> build_variant_arm cc name body i r commit lo; Some ((exhausted, arm), lo1) }"
| "compile_arms cc r commit exhausted i ((name, body) # arms) lo =
     do { ((next_link, next_target), lo1) \<leftarrow> compile_arms cc r commit exhausted (i + 1) arms lo;
          (link, lo2) \<leftarrow> make_s (OnFail (Some next_target) (Some next_link) False) lo1;
          (arm, lo3) \<leftarrow> build_variant_arm cc name body i (InAlt link r) commit lo2;
          Some ((link, arm), lo3) }"

definition compile_choice :: "compiler \<Rightarrow> (string \<times> type_expr) list \<Rightarrow> rho \<Rightarrow> kid \<Rightarrow> low" where
  "compile_choice cc arms r Lnext lo = (case arms of
      [] \<Rightarrow> Some (Lnext, lo)
    | [(name, body)] \<Rightarrow> build_variant_arm cc name body 0 r Lnext lo
    | (name, body) # rest \<Rightarrow>
        do { (commit, lo1) \<leftarrow> make_s (CommitChoice Lnext) lo;
             (exhausted, lo2) \<leftarrow> make_s (OnFail None None True) lo1;
             ((next_link, next_target), lo3) \<leftarrow> compile_arms cc r commit exhausted 1 rest lo2;
             (head_link, lo4) \<leftarrow> make_s (OnFail (Some next_target) (Some next_link) False) lo3;
             (first, lo5) \<leftarrow> build_variant_arm cc name body 0 (InAlt head_link r) commit lo4;
             make_s (BeginChoice (Some head_link) first) lo5 })"

text \<open>\<open>std::to_string\<close>.\<close>

fun decimal :: "nat \<Rightarrow> string" where
  "decimal n = (if n < 10 then [char_of (48 + n)] else decimal (n div 10) @ [char_of (48 + n mod 10)])"

declare decimal.simps [simp del]

definition alt_arms :: "type_expr list \<Rightarrow> (string \<times> type_expr) list" where
  "alt_arms alts = zip (map (\<lambda>i. ''alt_'' @ decimal i) [0..<length alts]) alts"

definition union_arms :: "type_expr variant list \<Rightarrow> (string \<times> type_expr) list" where
  "union_arms vs = map (\<lambda>v. (v_name v, v_body v)) vs"

lemma arms_smaller [termination_simp]:
  "(n, t) \<in> set (alt_arms alts) \<Longrightarrow> size t < Suc (size_list size alts)"
  "(n, t) \<in> set (union_arms vs) \<Longrightarrow> size t < Suc (size_list (size_variant size) vs)"
  using size_lists(2) [of _ vs] by (auto simp: alt_arms_def union_arms_def less_Suc_eq_le dest!: set_zip_rightD
      intro: size_list_estimation')

text \<open>Cases: one entry for every value of a range, all with the ordinal of the case.\<close>

fun case_value_to_value :: "case_value \<Rightarrow> val option" where
  "case_value_to_value (IntValue v) = Some (IntV v)"
| "case_value_to_value (StrValue s) = Some (StringV s)"
| "case_value_to_value (IdentValue s) = Some (StringV s)"
| "case_value_to_value _ = None"

definition range_ends :: "case_value \<Rightarrow> bool" where
  "range_ends v = (case v of RangeValue a b \<Rightarrow> sint a \<le> sint b \<longrightarrow> sint b < 2 ^ 63 - 1 | _ \<Rightarrow> True)"

definition case_entries :: "int \<Rightarrow> kid \<Rightarrow> case_value \<Rightarrow> switch_case list option" where
  "case_entries ci target v = (if \<not> range_ends v then None
     else Some (case v of
         RangeValue a b \<Rightarrow> map (\<lambda>x. \<lparr>sc_match = Some (IntV (word_of_int x)), sc_target = target, sc_ordinal = ci\<rparr>)
           [sint a..sint b]
       | _ \<Rightarrow> [\<lparr>sc_match = case_value_to_value v, sc_target = target, sc_ordinal = ci\<rparr>]))"

fun compile_switch_cases :: "compiler \<Rightarrow> rho \<Rightarrow> kid \<Rightarrow> int \<Rightarrow> type_expr arm list \<Rightarrow> lower \<Rightarrow>
    (switch_case list \<times> lower) option" where
  "compile_switch_cases cc r Lnext ci [] lo = Some ([], lo)"
| "compile_switch_cases cc r Lnext ci (c # cs) lo =
     do { (target, lo1) \<leftarrow> cc (c_target c) r Lnext lo;
          entries \<leftarrow> case_entries ci target (c_value c);
          (rest, lo2) \<leftarrow> compile_switch_cases cc r Lnext (ci + 1) cs lo1;
          Some (entries @ rest, lo2) }"

definition compile_switch_default ::
    "compiler \<Rightarrow> type_expr switch_default option \<Rightarrow> rho \<Rightarrow> kid \<Rightarrow> lower \<Rightarrow> (kid option \<times> lower) option" where
  "compile_switch_default cc dflt r Lnext lo = (case dflt of
      Some (SwitchDefault (Some t) iv False) \<Rightarrow> do { (k, lo1) \<leftarrow> cc t r Lnext lo; Some (Some k, lo1) }
    | _ \<Rightarrow> Some (None, lo))"

definition switch_default_is_reject :: "type_expr switch_default option \<Rightarrow> bool" where
  "switch_default_is_reject dflt = (case dflt of Some d \<Rightarrow> sd_is_reject d | None \<Rightarrow> False)"

section \<open>The recursion\<close>

lemma compile_field_cong [fundef_cong]:
  assumes "f = f'" and "cc (f_body f') = cc' (f_body f')" and "r = r'" and "chain = chain'" and "lo = lo'"
  shows "compile_field cc r f chain lo = compile_field cc' r' f' chain' lo'"
  using assms by (simp add: compile_field_def cong: option.case_cong)

lemma compile_chain_cong:
  "(\<And>f. f \<in> set fs \<Longrightarrow> cc (f_body f) = cc' (f_body f)) \<Longrightarrow> compile_chain cc r fs tail lo = compile_chain cc' r fs tail lo"
proof (induction fs)
  case (Cons f fs)
  have "compile_field cc r f = compile_field cc' r f"
    using Cons.prems by (intro ext compile_field_cong) simp_all
  then show ?case using Cons by simp
qed simp

lemma compile_fields_cong [fundef_cong]:
  assumes "fs = fs'" and "\<And>f. f \<in> set fs' \<Longrightarrow> cc (f_body f) = cc' (f_body f)" and "r = r'" and "tail = tail'" and "lo = lo'"
  shows "compile_fields cc fs r tail lo = compile_fields cc' fs' r' tail' lo'"
proof -
  have "compile_chain cc r fs = compile_chain cc' r fs" using assms by (intro ext compile_chain_cong) simp
  then show ?thesis using assms by (simp add: compile_fields_def)
qed

lemma compile_optional_cong [fundef_cong]:
  assumes "e = e'" and "cc e' = cc' e'" and "c = c'" and "r = r'" and "k = k'" and "lo = lo'"
  shows "compile_optional cc e c r k lo = compile_optional cc' e' c' r' k' lo'"
  using assms by (simp add: compile_optional_def cong: option.case_cong)

lemma compile_array_cong [fundef_cong]:
  assumes "e = e'" and "spec = spec'" and "cc e' = cc' e'"
    and "\<And>t trm. spec' = SepTerm (TypeSep t) trm \<Longrightarrow> cc t = cc' t"
    and "eiv = eiv'" and "res = res'" and "r = r'" and "k = k'" and "lo = lo'"
  shows "compile_array cc e spec eiv res r k lo = compile_array cc' e' spec' eiv' res' r' k' lo'"
proof -
  have "compile_element cc e' = compile_element cc' e'"
    using assms(3) by (intro ext) (simp add: compile_element_def cong: option.case_cong)
  moreover have "compile_separator cc spec' = compile_separator cc' spec'"
    using assms(4) by (intro ext) (auto simp: compile_separator_def split: array_spec.splits separator.splits)
  ultimately show ?thesis using assms by (simp add: compile_array_def)
qed

lemma build_variant_arm_cong:
  "cc body = cc' body \<Longrightarrow> build_variant_arm cc name body tag r k lo = build_variant_arm cc' name body tag r k lo"
  by (cases body) (simp_all add: build_variant_arm_def)

lemma compile_arms_cong:
  "(\<And>n t. (n, t) \<in> set arms \<Longrightarrow> cc t = cc' t) \<Longrightarrow>
   compile_arms cc r c x i arms lo = compile_arms cc' r c x i arms lo"
proof (induction cc r c x i arms lo rule: compile_arms.induct)
  case (2 cc r c x i name body lo)
  have "cc body = cc' body" by (rule 2 [of name]) simp
  then have "build_variant_arm cc name body = build_variant_arm cc' name body" by (intro ext) (rule build_variant_arm_cong)
  then show ?case by simp
next
  case (3 cc r c x i name body a arms lo)
  have "cc body = cc' body" by (rule 3(2) [of name]) simp
  then have "build_variant_arm cc name body = build_variant_arm cc' name body" by (intro ext) (rule build_variant_arm_cong)
  moreover have "compile_arms cc r c x (i + 1) (a # arms) lo = compile_arms cc' r c x (i + 1) (a # arms) lo"
    by (rule 3(1), rule 3(2)) (erule list.set_intros(2))
  ultimately show ?case by simp
qed simp

lemma compile_choice_cong [fundef_cong]:
  assumes "arms = arms'" and "\<And>n t. (n, t) \<in> set arms' \<Longrightarrow> cc t = cc' t" and "r = r'" and "k = k'" and "lo = lo'"
  shows "compile_choice cc arms r k lo = compile_choice cc' arms' r' k' lo'"
proof (cases arms')
  case (Cons a rest)
  obtain name body where a: "a = (name, body)" by fastforce
  have "cc body = cc' body" by (rule assms(2) [of name]) (simp add: Cons a)
  then have b: "build_variant_arm cc name body = build_variant_arm cc' name body"
    by (intro ext) (rule build_variant_arm_cong)
  have c: "compile_arms cc r' c x i rest = compile_arms cc' r' c x i rest" for c x i
    by (intro ext, rule compile_arms_cong, rule assms(2), unfold Cons, erule list.set_intros(2))
  show ?thesis
  proof (cases rest)
    case (Cons d ds)
    have "compile_arms cc r' c x i (d # ds) = compile_arms cc' r' c x i (d # ds)" for c x i
      using c [of c x i] unfolding Cons .
    then show ?thesis using assms(1,3-) \<open>arms' = a # rest\<close> Cons a b by (simp add: compile_choice_def)
  qed (simp add: assms \<open>arms' = a # rest\<close> a b compile_choice_def)
qed (simp add: assms compile_choice_def)

lemma compile_switch_cases_cong [fundef_cong]:
  assumes "r = r'" and "k = k'" and "ci = ci'" and "cs = cs'" and "\<And>c. c \<in> set cs' \<Longrightarrow> cc (c_target c) = cc' (c_target c)"
    and "lo = lo'"
  shows "compile_switch_cases cc r k ci cs lo = compile_switch_cases cc' r' k' ci' cs' lo'"
proof -
  have "(\<And>c. c \<in> set cs \<Longrightarrow> cc (c_target c) = cc' (c_target c)) \<Longrightarrow>
      compile_switch_cases cc r k ci cs lo = compile_switch_cases cc' r k ci cs lo" for ci cs lo
    by (induction cs arbitrary: ci lo) simp_all
  then show ?thesis using assms by simp
qed

lemma compile_switch_default_cong [fundef_cong]:
  assumes "d = d'" and "\<And>t iv. d' = Some (SwitchDefault (Some t) iv False) \<Longrightarrow> cc t = cc' t" and "r = r'" and "k = k'" and "lo = lo'"
  shows "compile_switch_default cc d r k lo = compile_switch_default cc' d' r' k' lo'"
  using assms by (auto simp: compile_switch_default_def split: option.splits switch_default.splits bool.splits)

text \<open>\<open>compile_type_expr\<close>: the kont a construct starts at, control going on at \<open>Lnext\<close>.\<close>

fun compile_type_expr :: "type_expr \<Rightarrow> rho \<Rightarrow> kid \<Rightarrow> low" where
  "compile_type_expr (Struct fs cn) r Lnext lo =
     do { (fin, lo1) \<leftarrow> make_s (EndStruct Lnext) lo;
          (checked, lo2) \<leftarrow> eval_where cn r fin lo1;
          (chain, lo3) \<leftarrow> compile_fields compile_type_expr fs r checked lo2;
          make_s (BeginStruct (Some (intern_field_or_anon r)) chain) lo3 }"
| "compile_type_expr (Primitive k cn iv) r Lnext lo = compile_primitive k cn iv r Lnext lo"
| "compile_type_expr (RuleRef n cn iv) r Lnext lo =
     do { (fin, lo1) \<leftarrow> make_s (EndStruct Lnext) lo;
          (invoke, lo2) \<leftarrow> make_invoke_rule n (find_backtrack_target r) fin lo1;
          make_s (BeginStruct (Some (intern_field_or_anon r)) invoke) lo2 }"
| "compile_type_expr (Compute e kind) r Lnext lo =
     do { (ir, lo1) \<leftarrow> compile_expr e lo;
          (dest, lo2) \<leftarrow> field_dest (intern_field_or_anon r) Lnext lo1;
          make_s (BindCompute ir dest) lo2 }"
| "compile_type_expr (Extern func write lang cn iv) r Lnext lo =
     do { (dest, lo1) \<leftarrow> field_dest (intern_field_or_anon r) Lnext lo; make_s (ExternalCall func dest) lo1 }"
| "compile_type_expr (EndianSwitch e) r Lnext lo =
     do { (ir, lo1) \<leftarrow> compile_expr e lo; make_s (SetEndian ir Lnext) lo1 }"
| "compile_type_expr (Bitfield c es) r Lnext lo =
     do { (fin, lo1) \<leftarrow> make_s (EndStruct Lnext) lo;
          (inner, lo2) \<leftarrow> compile_bitfield (to_prim_info c) es r fin lo1;
          make_s (BeginStruct (Some (intern_field_or_anon r)) inner) lo2 }"
| "compile_type_expr (Optional e cn iv) r Lnext lo = compile_optional compile_type_expr e cn r Lnext lo"
| "compile_type_expr (Switch d cs dflt) r Lnext lo =
     do { (cases, lo1) \<leftarrow> compile_switch_cases compile_type_expr r Lnext 0 cs lo;
          (disc, lo2) \<leftarrow> compile_expr d lo1;
          (default_target, lo3) \<leftarrow> compile_switch_default compile_type_expr dflt r Lnext lo2;
          make_s (SwitchDispatch disc cases default_target (switch_default_is_reject dflt)) lo3 }"
| "compile_type_expr (Alternatives alts) r Lnext lo = compile_choice compile_type_expr (alt_arms alts) r Lnext lo"
| "compile_type_expr (Union vs) r Lnext lo = compile_choice compile_type_expr (union_arms vs) r Lnext lo"
| "compile_type_expr (Array e spec cn iv eiv resync) r Lnext lo =
     do { (checked, lo1) \<leftarrow> eval_where cn r Lnext lo;
          compile_array compile_type_expr e spec eiv resync r checked lo1 }"

section \<open>Rules and grammars\<close>

text \<open>The body of a rule: a struct and a bit field stand in the rule's own node.\<close>

fun compile_body :: "type_expr \<Rightarrow> kid \<Rightarrow> low" where
  "compile_body (Struct fs cn) leave lo =
     do { (tail, lo1) \<leftarrow> eval_where cn Root leave lo; compile_fields compile_type_expr fs Root tail lo1 }"
| "compile_body (Bitfield c es) leave lo = compile_bitfield (to_prim_info c) es Root leave lo"
| "compile_body t leave lo = compile_type_expr t Root leave lo"

definition compile_rule :: "rule \<Rightarrow> low" where
  "compile_rule rl lo =
     do { (halt, lo1) \<leftarrow> make_s Halt lo; (leave, lo2) \<leftarrow> make_s (ReturnRule halt) lo1;
          compile_body (r_body rl) leave lo2 }"

fun compile_rules :: "rule list \<Rightarrow> lower \<Rightarrow> ((string \<times> kid) list \<times> lower) option" where
  "compile_rules [] lo = Some ([], lo)"
| "compile_rules (rl # rls) lo =
     do { (head, lo1) \<leftarrow> compile_rule rl lo; (entries, lo2) \<leftarrow> compile_rules rls lo1;
          Some ((r_name rl, head) # entries, lo2) }"

text \<open>Linking: \<open>rule_entries_\<close> holds the last rule of a name.\<close>

fun link_entry :: "kid \<Rightarrow> kont \<Rightarrow> kont" where
  "link_entry entry (S (InvokeRule e f n)) = S (InvokeRule entry f n)"
| "link_entry entry k = k"

fun link_rules :: "(string \<times> kid) list \<Rightarrow> (kid \<times> string) list \<Rightarrow> kont list \<Rightarrow> kont list option" where
  "link_rules entries [] arena = Some arena"
| "link_rules entries ((k, name) # ps) arena = (case map_of (rev entries) name of
      None \<Rightarrow> None
    | Some entry \<Rightarrow> link_rules entries ps (arena[k := link_entry entry (arena ! k)]))"

record compiled =
  cg_arena :: "kont list"
  cg_rules :: "(string \<times> kid) list"
  cg_little_endian :: bool

definition default_endian :: "endianness list \<Rightarrow> bool" where
  "default_endian ds = (ds = [] \<or> last ds = Little)"

definition compile_grammar :: "grammar \<Rightarrow> compiled option" where
  "compile_grammar g =
     do { (entries, lo) \<leftarrow> compile_rules (g_rules g) \<lparr>lo_arena = [], lo_patches = []\<rparr>;
          arena \<leftarrow> link_rules entries (lo_patches lo) (lo_arena lo);
          Some \<lparr>cg_arena = arena, cg_rules = entries, cg_little_endian = default_endian (g_directives g)\<rparr> }"

end
