(* ===== verification/CekSound.thy ===== *)
theory CekSound
  imports CekSafe
begin

text \<open>
  What the invariant of \<open>CekSafe\<close> says of whole parses, with a graph the statements are run on: a count,
  an array of that many 16-bit integers, and two 4-bit entries of one byte.
\<close>

definition u8_prim :: prim_info where
  "u8_prim = \<lparr>p_kind = KInteger, p_width = W8, p_signed = False, p_endian = PLittle, p_encoding = Fixed\<rparr>"

definition u16_prim :: prim_info where
  "u16_prim = \<lparr>p_kind = KInteger, p_width = W16, p_signed = False, p_endian = PLittle, p_encoding = Fixed\<rparr>"

definition sample_konts :: "kont list" where
  "sample_konts = [
     S (MatchPrimitive u8_prim 1), S (Capture (Some ''n'') 2), S (StoreEnv ''n'' 3),
     S (BeginArray (Some ''xs'') FixedCount 4 0 8 None 5), E (Ref ''n'' None),
     S (MatchPrimitive u16_prim 6), S (Capture None 7), S (ArrayNext FixedCount 0 0 8 5 False),
     S (EndArray False 9),
     S (ExtractBits u8_prim 0 4 False 10), S (Capture (Some ''hi'') 11),
     S (ExtractBits u8_prim 4 4 False 12), S (Capture (Some ''lo'') 13), S (AdvancePos 1 14),
     S (ReturnRule 15), S Halt]"

definition sample_need :: "kid \<Rightarrow> nat" where
  "sample_need k = (if 10 \<le> k \<and> k \<le> 13 then 1 else 0)"

definition no_floats :: floats where
  "no_floats = \<lparr>f_add = \<lambda>x y. 0, f_sub = \<lambda>x y. 0, f_mul = \<lambda>x y. 0, f_div = \<lambda>x y. 0, f_eq = \<lambda>x y. x = y,
     f_lt = \<lambda>x y. x < y, f_le = \<lambda>x y. x \<le> y, f_of_int = \<lambda>x. x, f_widen = \<lambda>x. ucast x, f_to_int = \<lambda>x. Some x\<rparr>"

definition deps_of :: "kont list \<Rightarrow> deps" where
  "deps_of ks = \<lparr>d_prog = graph_of ks, d_fl = no_floats, d_ext = None, d_builtins = Some builtin_registrations,
     d_host_le = True\<rparr>"

definition sample_input :: bytes where
  "sample_input = [2, 1, 0, 2, 0, 0xAB]"

lemma deps_of_ok: "deps_ok (deps_of ks)"
  by (simp add: deps_ok_def deps_of_def)

lemma sample_path: "count_path_of (graph_of sample_konts) 4 = Some (Some ''n'')"
  by code_simp

lemma sample_ok: "graph_ok (d_prog (deps_of sample_konts)) sample_need"
  unfolding deps_of_def deps.simps
proof (rule graph_of_ok)
  show "list_all (\<lambda>k. case sample_konts ! k of E e \<Rightarrow> list_all (is_e (graph_of sample_konts)) (operands e)
      | S s \<Rightarrow> spine_ok (graph_of sample_konts) sample_need (sample_need k) s) [0..<length sample_konts]"
    using sample_path
    by (simp add: sample_konts_def upt_rec numeral_eq_Suc graph_of_def is_e_def is_s_def target_ok_def sample_need_def
        prim_ok_def u8_prim_def u16_prim_def byte_count_def)
qed

lemma sample_start:
  "machine_ok (deps_of sample_konts) sample_need (start_machine 0 sample_input 6 True fresh_machine)"
  by (rule start_ok)
    (simp_all add: sample_input_def deps_of_def graph_of_def sample_konts_def target_ok_def is_s_def is_e_def sample_need_def)

section \<open>The input is never written\<close>

definition keeps_input :: "machine \<Rightarrow> machine option \<Rightarrow> bool" where
  "keeps_input m r = (case r of None \<Rightarrow> True | Some m1 \<Rightarrow> m_input m1 = m_input m \<and> m_len m1 = m_len m)"

lemma keeps_simps [simp]:
  "keeps_input m None"
  "keeps_input m (Some m1) = (m_input m1 = m_input m \<and> m_len m1 = m_len m)"
  "keeps_input m (pushing ks m1) = (m_input m1 = m_input m \<and> m_len m1 = m_len m)"
  "keeps_input m (ac v m1) = (m_input m1 = m_input m \<and> m_len m1 = m_len m)"
  by (simp_all add: keeps_input_def pushing_def fold_push ac_def set_res_def)

lemma keeps_fail [simp]: "keeps_input m (failing msg m1) = (m_input m1 = m_input m \<and> m_len m1 = m_len m)"
  by (auto simp: failing_def m_fail_def push_kont_def Let_def split: option.splits)

lemma carrier_input [simp]: "m_input (carrier f m) = m_input m" "m_len (carrier f m) = m_len m"
  by (simp_all add: carrier_def make_free_def set_res_def)

lemma set_res_input [simp]: "m_input (set_res v m) = m_input m" "m_len (set_res v m) = m_len m"
  by (simp_all add: set_res_def)

lemma keeps_ac_int [simp]: "keeps_input m (ac_int x m)"
  by (simp add: ac_int_def split: option.splits)

lemma push_frames_input [simp]:
  "m_input (push_savepoint t m) = m_input m" "m_len (push_savepoint t m) = m_len m"
  "m_input (push_loop_frame n e m) = m_input m" "m_len (push_loop_frame n e m) = m_len m"
  "m_input (push_resync_savepoint t m) = m_input m" "m_len (push_resync_savepoint t m) = m_len m"
  by (simp_all add: push_savepoint_def push_loop_frame_def push_resync_savepoint_def split: option.splits)

lemma push_args_input [simp]: "m_input (push_args b i as m) = m_input m" "m_len (push_args b i as m) = m_len m"
  by (induction b i as m rule: push_args.induct) (simp_all add: push_kont_def)

lemma push_kont_input [simp]: "m_input (push_kont k m) = m_input m" "m_len (push_kont k m) = m_len m"
  by (simp_all add: push_kont_def)

lemma restore_input: "restore_from sp m = Some m1 \<Longrightarrow> m_input m1 = m_input m \<and> m_len m1 = m_len m"
  by (auto simp: restore_from_def truncate_k_def split: if_splits)

lemma expr_keeps_input: "keeps_input m (invoke_expr fl e m)"
  by (cases e) (simp_all add: invoke_expr_def leaf_defs operator_defs new_slots_def split: option.splits)

lemma dyn_keeps_input: "keeps_input m (invoke_dyn d x m)"
proof (cases x)
  case (ApplyBin op s)
  then show ?thesis
    by (cases op) (auto simp: invoke_dyn_def apply_defs split: option.splits val.splits)
next
  case (ApplyUn op)
  then show ?thesis
    by (cases op) (auto simp: invoke_dyn_def apply_defs split: option.splits val.splits)
next
  case (CallApply f buf n)
  have "keeps_input m (run_builtin fl b buf m)" for fl b
    by (cases b) (auto simp: apply_defs split: option.splits val.splits)
  then show ?thesis using CallApply by (auto simp: invoke_dyn_def CallApplyKont_invoke_def split: option.splits)
next
  case (PushIntervalApply r n)
  have "keeps_input m (Option.bind (set_interval s e m) (pushing ks))" for s e ks
    by (simp add: set_interval_def)
  then show ?thesis using PushIntervalApply
    by (auto simp: invoke_dyn_def consumer_defs Let_def split: option.splits val.splits)
qed (auto simp: invoke_dyn_def apply_defs consumer_defs set_slot_def Let_def
    split: option.splits val.splits rr.splits list.splits frame.splits)

lemma spine_keeps_input: "keeps_input m (invoke_spine d s m)"
proof (cases s)
  case (ArrayNext mode ce ue end_node body resync)
  have "keeps_input m (array_advance mode ce ue end_node body inner outer m1)"
    if "m_input m1 = m_input m" "m_len m1 = m_len m" for inner outer m1
    using that by (cases mode) (auto simp: array_advance_def Let_def split: option.splits list.splits frame.splits)
  then show ?thesis using ArrayNext
    by (auto simp: invoke_spine_def spine_defs Let_def split: list.splits frame.splits)
qed (auto simp: invoke_spine_def spine_defs count_field_of_def Let_def dest: restore_input
    split: option.splits val.splits rr.splits list.splits frame.splits prod.splits)

lemma invoke_keeps_input: "keeps_input m (invoke d x m)"
  by (simp add: invoke_def expr_keeps_input spine_keeps_input dyn_keeps_input split: kitem.splits kont.splits)

lemma cek_steps_input: "(cek_step d)\<^sup>*\<^sup>* m m1 \<Longrightarrow> m_input m1 = m_input m \<and> m_len m1 = m_len m"
proof (induction rule: rtranclp_induct)
  case base
  then show ?case by simp
next
  case (step m1 m2)
  have "keeps_input (m1\<lparr>m_k := tl (m_k m1)\<rparr>) (Some m2)"
    using step(2) invoke_keeps_input by (metis turn_def cek_step_elim)
  then show ?case using step(3) by simp
qed

section \<open>Turns\<close>

text \<open>C1: On a well-formed graph (expression edges to expressions, spine edges to spine konts, savepoints
  that fall back to \<open>OnFail\<close> or \<open>Resync\<close>, bit-field advances covered by a check) a turn of the trampoline
  keeps the machine's invariant - cursor, windows, frames, operand slots, environment, builder and the shape
  of the kont stack - and a turn without an outcome is a named arithmetic operation, a call of a built-in,
  an external parser called past its window, or an array's counter at the end of its type.\<close>

theorem cek_turn_sound:
  assumes "graph_ok (d_prog d) nd" and "deps_ok d" and "machine_ok d nd m" and "running m"
  shows "(\<forall>m1. turn d m = Some m1 \<longrightarrow> machine_ok d nd m1) \<and> (turn d m = None \<longrightarrow> risky d (hd (m_k m)))"
  using turn_good [OF assms] by (auto simp: harmless_def sound_def machine_ok_mok split: option.splits)

theorem cek_turn_sound_witness:
  "\<exists>m1. turn (deps_of sample_konts) (start_machine 0 sample_input 6 True fresh_machine) = Some m1 \<and>
     machine_ok (deps_of sample_konts) sample_need m1"
proof -
  let ?m = "start_machine 0 sample_input 6 True fresh_machine"
  have r: "running ?m" by (simp add: running_def start_machine_def fresh_machine_def)
  have "\<not> risky (deps_of sample_konts) (hd (m_k ?m))"
    by (simp add: risky_def start_machine_def deps_of_def graph_of_def sample_konts_def)
  then show ?thesis
    using cek_turn_sound [OF sample_ok deps_of_ok sample_start r] by (cases "turn (deps_of sample_konts) ?m") auto
qed

section \<open>Whole parses\<close>

text \<open>How a parse stops when it meets undefined behaviour, and what its document satisfies.\<close>

lemma parse_fault:
  assumes "graph_ok (d_prog d) nd" and "deps_ok d" and "target_ok (d_prog d) nd entry"
    and "unat len = length data" and "length data < 2 ^ 62"
    and "execute_from d fuel (Some entry) data len le fresh_machine = UB"
  shows "\<exists>m. (cek_step d)\<^sup>*\<^sup>* (start_machine entry data len le fresh_machine) m \<and> machine_ok d nd m \<and>
    turn d m = None \<and> faulty d m"
proof -
  let ?m0 = "start_machine entry data len le fresh_machine"
  have "trampoline d fuel ?m0 = Undefined" using assms(6) by (simp add: execute_from_def split: outcome.splits)
  then obtain m where m: "(cek_step d)\<^sup>*\<^sup>* ?m0 m" "running m" "turn d m = None" using trampoline_undefined by blast
  have ok: "machine_ok d nd m" using cek_steps_ok [OF m(1) assms(1,2) start_ok [OF assms(3-5)]] .
  show ?thesis using turn_fault [OF assms(1,2) ok m(2,3)] m ok by blast
qed

lemma parse_document:
  assumes "graph_ok (d_prog d) nd" and "deps_ok d" and "target_ok (d_prog d) nd entry"
    and "unat len = length data" and "length data < 2 ^ 62"
    and "execute_from d fuel (Some entry) data len le fresh_machine = Got r" and "pr_root r = Some n"
  shows "node_ok (length data) n"
proof -
  let ?m0 = "start_machine entry data len le fresh_machine"
  obtain m where t: "trampoline d fuel ?m0 = Finished m" and r: "r = parse_outcome m"
    using assms(6) by (auto simp: execute_from_def split: outcome.splits)
  have st: "(cek_step d)\<^sup>*\<^sup>* ?m0 m" using trampoline_finished [OF t] by blast
  have ok: "machine_ok d nd m" using cek_steps_ok [OF st assms(1,2) start_ok [OF assms(3-5)]] .
  have "m_input m = data" using cek_steps_input [OF st] by (simp add: start_machine_def)
  then have "list_all (node_ok (length data)) (b_roots (m_builder m))" "unat (m_pos m) \<le> length data"
    using ok base_ok_parts(4,12) [of "d_prog d" nd m] by (auto simp: machine_ok_def builder_ok_def)
  then show ?thesis using assms(7) r
    by (auto simp: parse_outcome_def b_finish_def node_ok_attr span_ok_def split: if_splits)
qed

text \<open>C3: A parse of any input on a well-formed graph runs into undefined behaviour only by a named fault, said
  of the values it meets: arithmetic on two integers whose exact result leaves the 64 bits, \<open>INT64_MIN\<close> divided
  by \<open>-1\<close>, negated or passed to \<open>abs\<close>, a shift by a count that is none or of a negative value to the left, an
  external parser called with the cursor past its window, or an array's counter at \<open>INT64_MAX\<close>. So no read of
  the machine itself leaves the input, no stack is popped when it is empty and no null kont is followed: any
  of these would be a turn without an outcome and with none of the faults.\<close>

theorem cek_parse_safe:
  assumes "graph_ok (d_prog d) nd" and "deps_ok d" and "target_ok (d_prog d) nd entry"
    and "unat len = length data" and "length data < 2 ^ 62"
    and "execute_from d fuel (Some entry) data len le fresh_machine = UB"
  shows "\<exists>m. (cek_step d)\<^sup>*\<^sup>* (start_machine entry data len le fresh_machine) m \<and> machine_ok d nd m \<and>
    turn d m = None \<and> faulty d m"
  by (rule parse_fault [OF assms])

definition overflow_konts :: "kont list" where
  "overflow_konts = [S (BindCompute 1 3), E (UnK Neg 2), E (IntLit 0x8000000000000000), S (ReturnRule 4), S Halt]"

text \<open>The hypotheses hold of a parse that ends in \<open>- INT64_MIN\<close>.\<close>

theorem cek_parse_safe_witness:
  "execute_from (deps_of overflow_konts) 9 (Some 0) [] 0 True fresh_machine = UB \<and>
   (\<exists>m. (cek_step (deps_of overflow_konts))\<^sup>*\<^sup>* (start_machine 0 [] 0 True fresh_machine) m \<and>
     machine_ok (deps_of overflow_konts) (\<lambda>k. 0) m \<and>
     turn (deps_of overflow_konts) m = None \<and> faulty (deps_of overflow_konts) m)"
proof -
  have g: "graph_ok (d_prog (deps_of overflow_konts)) (\<lambda>k. 0)"
    unfolding deps_of_def deps.simps
    by (rule graph_of_ok) (simp add: overflow_konts_def upt_rec numeral_eq_Suc graph_of_def is_e_def is_s_def target_ok_def)
  have t: "target_ok (d_prog (deps_of overflow_konts)) (\<lambda>k. 0) 0"
    by (simp add: deps_of_def graph_of_def overflow_konts_def target_ok_def is_s_def is_e_def)
  have e: "execute_from (deps_of overflow_konts) 9 (Some 0) [] 0 True fresh_machine = UB" by code_simp
  show ?thesis using e cek_parse_safe [OF g deps_of_ok t _ _ e] by simp
qed

text \<open>C18: Every node of the document a parse returns lies in the input, at every depth of the tree: it starts
  and ends within it; a leaf of a fixed width spans exactly that many bytes; and a string, a LEB128 value, a
  bit field, a computed value or what an external parser took ends no earlier than it starts. (A struct or an
  array may end before it starts, when the parse jumps back inside it, and so may the bytes of \<open>@buffer\<close>.)\<close>

theorem cek_document_in_input:
  assumes "graph_ok (d_prog d) nd" and "deps_ok d" and "target_ok (d_prog d) nd entry"
    and "unat len = length data" and "length data < 2 ^ 62"
    and "execute_from d fuel (Some entry) data len le fresh_machine = Got r" and "pr_root r = Some n"
  shows "node_ok (length data) n"
  by (rule parse_document [OF assms])

text \<open>The sample document: the count, the array of two, and the two entries of the last byte.\<close>

definition sample_result :: parse_result where
  "sample_result = (case execute_from (deps_of sample_konts) 40 (Some 0) sample_input 6 True fresh_machine of
      Got r \<Rightarrow> r | _ \<Rightarrow> b_finish False 0 None 0 (m_builder fresh_machine))"

lemma sample_run:
  "execute_from (deps_of sample_konts) 40 (Some 0) sample_input 6 True fresh_machine = Got sample_result"
  "map_option (\<lambda>n. map (\<lambda>c. (nd_name (attr c), nd_start (attr c), nd_end (attr c), length (kids c))) (kids n))
     (pr_root sample_result) =
   Some [(Some ''n'', 0, 1, 0), (Some ''xs'', 1, 5, 2), (Some ''hi'', 5, 6, 0), (Some ''lo'', 5, 6, 0)]"
  by code_simp+

theorem cek_document_in_input_witness: "\<exists>n. pr_root sample_result = Some n \<and> node_ok 6 n"
proof -
  obtain n where n: "pr_root sample_result = Some n" using sample_run(2) by auto
  have t: "target_ok (d_prog (deps_of sample_konts)) sample_need 0"
    by (simp add: deps_of_def graph_of_def sample_konts_def target_ok_def is_s_def is_e_def sample_need_def)
  have l: "unat (6 :: size_t) = length sample_input" "length sample_input < 2 ^ 62" by (simp_all add: sample_input_def)
  have "length sample_input = 6" by (simp add: sample_input_def)
  then show ?thesis using cek_document_in_input [OF sample_ok deps_of_ok t l sample_run(1) n] n by simp
qed

end
