(* ===== verification/LowerSafe.thy ===== *)
theory LowerSafe
  imports Lower CekSound
begin

text \<open>
  The lowering gives well-formed graphs: what \<open>compile_grammar\<close> builds is typed in the sense of \<open>CekSafe\<close>,
  so that the machine never leaves its invariant on it. The graph is built back to front, a kont's edges
  leading to konts that are there already, but for the edges the code fills in later: they lead nowhere in
  particular until then. The lemmas therefore speak of an arena and of all arenas it can grow into.
\<close>

section \<open>How the arena grows\<close>

text \<open>A kont without the edge that is filled in later.\<close>

definition shell :: "kont \<Rightarrow> kont" where
  "shell k = (case k of
      S (ArrayNext m c u fin body res) \<Rightarrow> S (ArrayNext m c u fin 0 res)
    | S (Resync body fin) \<Rightarrow> S (Resync 0 fin)
    | S (InvokeRule entry f n) \<Rightarrow> S (InvokeRule 0 f n)
    | _ \<Rightarrow> k)"

definition linked_later :: "kont \<Rightarrow> bool" where
  "linked_later k = (case k of S (ArrayNext m c u fin body res) \<Rightarrow> True | S (Resync body fin) \<Rightarrow> True
    | S (InvokeRule entry f n) \<Rightarrow> True | _ \<Rightarrow> False)"

definition grows_to :: "kont list \<Rightarrow> kont list \<Rightarrow> bool" where
  "grows_to a a' = (length a \<le> length a' \<and> (\<forall>k < length a. shell (a' ! k) = shell (a ! k)))"

lemma shell_simps [simp]:
  "shell (E e) = E e" "shell (S (ArrayNext m c u fin body res)) = S (ArrayNext m c u fin 0 res)"
  "shell (S (Resync body fin)) = S (Resync 0 fin)" "shell (S (InvokeRule entry f n)) = S (InvokeRule 0 f n)"
  "\<not> linked_later k \<Longrightarrow> shell k = k"
  by (simp_all add: shell_def linked_later_def split: kont.splits skont.splits)

lemma shell_later: "linked_later (shell k) = linked_later k"
  by (simp add: shell_def linked_later_def split: kont.splits skont.splits)

lemma shell_eq: "shell x = shell y \<Longrightarrow> linked_later x = linked_later y \<and> (\<not> linked_later y \<longrightarrow> x = y)"
  by (metis shell_later shell_simps(5))

lemma shell_kinds:
  assumes "shell x = shell y"
  shows "y = E e \<Longrightarrow> x = E e" "(\<exists>s. y = S s) = (\<exists>s. x = S s)"
    "(\<exists>e f n. y = S (InvokeRule e f n)) = (\<exists>e f n. x = S (InvokeRule e f n))"
    "(\<exists>b f. y = S (Resync b f)) = (\<exists>b f. x = S (Resync b f))"
    "\<not> linked_later y \<Longrightarrow> x = y"
  using assms shell_eq [OF assms]
  by (auto simp: linked_later_def shell_def split: kont.splits skont.splits)

lemma grows_refl [simp]: "grows_to a a"
  by (simp add: grows_to_def)

lemma arena_grows_trans: "grows_to a b \<Longrightarrow> grows_to b c \<Longrightarrow> grows_to a c"
  by (auto simp: grows_to_def)

lemma grows_snoc [simp]: "grows_to a (a @ ks)"
  by (simp add: grows_to_def nth_append)

lemma grows_update: "shell n = shell (a ! k) \<Longrightarrow> grows_to a (a[k := n])"
  by (cases "k < length a") (auto simp: grows_to_def nth_list_update)

lemma grows_less: "grows_to a a' \<Longrightarrow> k < length a \<Longrightarrow> k < length a'"
  by (simp add: grows_to_def)

lemma grows_shell: "grows_to a a' \<Longrightarrow> k < length a \<Longrightarrow> shell (a' ! k) = shell (a ! k)"
  by (simp add: grows_to_def)

section \<open>What is known of a kont\<close>

text \<open>The bytes a kont relies on: the container of a bit field, up to the kont that moves over it.\<close>

fun need :: "kont list \<Rightarrow> kid \<Rightarrow> nat" where
  "need a k = (if k < length a then (case a ! k of
      S (AdvancePos n next) \<Rightarrow> nat n
    | S (StoreEnv nm next) \<Rightarrow> if next < k then need a next else 0
    | S (Capture nm next) \<Rightarrow> if next < k then need a next else 0
    | S (EvalConstraint e f next) \<Rightarrow> if next < k then need a next else 0
    | _ \<Rightarrow> 0) else 0)"

declare need.simps [simp del]

lemma need_grows: "grows_to a a' \<Longrightarrow> k < length a \<Longrightarrow> need a' k = need a k"
proof (induction k rule: less_induct)
  case (less k)
  have ih: "need a' j = need a j" if "j < k" for j using less.IH [OF that less.prems(1)] that less.prems(2) by simp
  have l: "k < length a'" using grows_less less.prems by blast
  note sh = grows_shell [OF less.prems]
  show ?case
  proof (cases "linked_later (a ! k)")
    case True
    then have "linked_later (a' ! k)" using shell_eq [OF sh] by simp
    then show ?thesis using True l less.prems(2)
      by (auto simp: need.simps [of a k] need.simps [of a' k] linked_later_def split: kont.splits skont.splits)
  next
    case False
    then have "a' ! k = a ! k" using shell_eq [OF sh] by simp
    then show ?thesis using l less.prems(2) ih
      by (auto simp: need.simps [of a k] need.simps [of a' k] split: kont.splits skont.splits)
  qed
qed

definition at_need :: "kont list \<Rightarrow> nat \<Rightarrow> kid \<Rightarrow> bool" where
  "at_need a n k = (k < length a \<and> (\<exists>s. a ! k = S s) \<and> need a k = n)"

definition expr_at :: "kont list \<Rightarrow> kid \<Rightarrow> bool" where
  "expr_at a k = (k < length a \<and> (\<exists>e. a ! k = E e))"

definition handler_at :: "kont list \<Rightarrow> kid \<Rightarrow> bool" where
  "handler_at a k = (k < length a \<and> ((\<exists>t n p. a ! k = S (OnFail t n p)) \<or> (\<exists>b f. a ! k = S (Resync b f))))"

lemma at_need_grows: "at_need a n k \<Longrightarrow> grows_to a a' \<Longrightarrow> at_need a' n k"
  using need_grows [of a a' k] grows_less [of a a' k] shell_kinds(2) [OF grows_shell, of a a' k] by (auto simp: at_need_def)

lemma expr_at_grows: "expr_at a k \<Longrightarrow> grows_to a a' \<Longrightarrow> expr_at a' k"
  using grows_less [of a a' k] shell_kinds(1) [OF grows_shell, of a a' k] by (auto simp: expr_at_def)

lemma handler_at_grows: "handler_at a k \<Longrightarrow> grows_to a a' \<Longrightarrow> handler_at a' k"
proof -
  assume h: "handler_at a k" "grows_to a a'"
  then have l: "k < length a" by (simp add: handler_at_def)
  note sh = grows_shell [OF h(2) l]
  have "a' ! k = S (OnFail t n p)" if "a ! k = S (OnFail t n p)" for t n p
    using that shell_kinds(5) [OF sh] by (simp add: linked_later_def)
  moreover have "\<exists>b f. a' ! k = S (Resync b f)" if "a ! k = S (Resync b f)" for b f
    using that shell_kinds(4) [OF sh] by blast
  ultimately show ?thesis using h(1) grows_less [OF h(2) l] unfolding handler_at_def by blast
qed

lemma handler_at_need: "handler_at a k \<Longrightarrow> at_need a 0 k"
  by (auto simp: handler_at_def at_need_def need.simps)

lemma expr_is_e [simp]: "expr_at a k \<Longrightarrow> is_e (graph_of a) k"
  by (auto simp: expr_at_def is_e_def graph_of_def)

lemma at_need_s: "at_need a n k \<Longrightarrow> is_s (graph_of a) k" "at_need a n k \<Longrightarrow> need a k = n"
  by (auto simp: at_need_def is_s_def is_e_def graph_of_def)

lemma at_need_target [simp]: "at_need a 0 k \<Longrightarrow> target_ok (graph_of a) (need a) k"
  using at_need_s [of a 0 k] by (simp add: target_ok_def)

lemma handler_is_r [simp]: "handler_at a k \<Longrightarrow> is_r (graph_of a) k"
  by (auto simp: handler_at_def is_r_def graph_of_def)

lemma at_need_less: "at_need a n k \<Longrightarrow> k < length a"
  by (simp add: at_need_def)

lemma expr_at_less: "expr_at a k \<Longrightarrow> k < length a"
  by (simp add: expr_at_def)

section \<open>Good arenas\<close>

definition node_good :: "kont list \<Rightarrow> kid \<Rightarrow> kont \<Rightarrow> bool" where
  "node_good a k n = (case n of E e \<Rightarrow> list_all (is_e (graph_of a)) (operands e)
     | S s \<Rightarrow> spine_ok (graph_of a) (need a) (need a k) s)"

text \<open>A kont is good in every arena this one grows into, expressions are trees, kont \<open>0\<close> is harmless, and
  what is to be linked are calls of rules.\<close>

definition arena_sound :: "kont list \<Rightarrow> bool" where
  "arena_sound a = (\<forall>a'. grows_to a a' \<longrightarrow> (\<forall>k < length a. node_good a' k (a ! k)))"

definition trees :: "kont list \<Rightarrow> bool" where
  "trees a = (\<forall>k < length a. \<forall>e. a ! k = E e \<longrightarrow> (\<forall>c \<in> set (operands e). c < k))"

definition good :: "lower \<Rightarrow> bool" where
  "good lo = (arena_sound (lo_arena lo) \<and> trees (lo_arena lo) \<and> at_need (lo_arena lo) 0 0 \<and>
     (\<forall>(k, name) \<in> set (lo_patches lo). k < length (lo_arena lo) \<and> (\<exists>e f n. lo_arena lo ! k = S (InvokeRule e f n))))"

definition leads :: "lower \<Rightarrow> lower \<Rightarrow> bool" where
  "leads lo lo' = (good lo' \<and> grows_to (lo_arena lo) (lo_arena lo'))"

lemma leads_refl [simp]: "good lo \<Longrightarrow> leads lo lo"
  by (simp add: leads_def)

lemma leads_good: "leads lo lo' \<Longrightarrow> good lo'"
  by (simp add: leads_def)

lemma leads_trans: "leads a b \<Longrightarrow> leads b c \<Longrightarrow> leads a c"
  by (auto simp: leads_def intro: arena_grows_trans)

abbreviation target :: "lower \<Rightarrow> kid \<Rightarrow> bool" where
  "target lo k \<equiv> at_need (lo_arena lo) 0 k"

abbreviation expression :: "lower \<Rightarrow> kid \<Rightarrow> bool" where
  "expression lo k \<equiv> expr_at (lo_arena lo) k"

lemma at_need_leads: "at_need (lo_arena lo) n k \<Longrightarrow> leads lo lo' \<Longrightarrow> at_need (lo_arena lo') n k"
  by (auto simp: leads_def intro: at_need_grows)

lemma expression_leads: "expression lo k \<Longrightarrow> leads lo lo' \<Longrightarrow> expression lo' k"
  by (auto simp: leads_def intro: expr_at_grows)

lemma handler_leads: "handler_at (lo_arena lo) k \<Longrightarrow> leads lo lo' \<Longrightarrow> handler_at (lo_arena lo') k"
  by (auto simp: leads_def intro: handler_at_grows)

lemmas later = at_need_leads expression_leads handler_leads

text \<open>The field an expression refers to: following it ends.\<close>

lemma count_path_total:
  "trees a \<Longrightarrow> grows_to a a' \<Longrightarrow> k < length a \<Longrightarrow> count_path_of (graph_of a') k \<noteq> None"
proof (induction k rule: less_induct)
  case (less k)
  have l: "k < length a'" using grows_less less.prems(2,3) by blast
  have ih: "count_path_of (graph_of a') c \<noteq> None" if "a ! k = E e" "c \<in> set (operands e)" for e c
  proof -
    have "c < k" using less.prems(1,3) that by (auto simp: trees_def)
    then show ?thesis using less.IH [of c] less.prems by simp
  qed
  show ?case
  proof (cases "graph_of a' k")
    case (E e)
    then have "a ! k = E e"
      using l shell_kinds(1) [OF sym [OF grows_shell [OF less.prems(2,3)]]] by (simp add: graph_of_def)
    note ih = ih [OF this]
    show ?thesis
      by (subst count_path_of.simps) (use E ih in \<open>auto split: ekont.splits option.splits\<close>)
  next
    case (S s)
    then show ?thesis by (subst count_path_of.simps) simp
  qed
qed

subsection \<open>A kont more\<close>

lemma good_snoc:
  assumes "good lo" and "\<And>a'. grows_to (lo_arena lo @ [n]) a' \<Longrightarrow> node_good a' (length (lo_arena lo)) n"
    and "\<And>e c. n = E e \<Longrightarrow> c \<in> set (operands e) \<Longrightarrow> c < length (lo_arena lo)"
  shows "leads lo (lo\<lparr>lo_arena := lo_arena lo @ [n]\<rparr>)"
proof -
  let ?a = "lo_arena lo"
  have ok: "arena_sound (?a @ [n])"
    unfolding arena_sound_def
  proof (intro allI impI)
    fix a' k
    assume g: "grows_to (?a @ [n]) a'" and k: "k < length (?a @ [n])"
    then have "grows_to ?a a'" using arena_grows_trans grows_snoc by blast
    then show "node_good a' k ((?a @ [n]) ! k)"
      using assms(1,2) g k unfolding good_def arena_sound_def by (cases "k = length ?a") (auto simp: nth_append)
  qed
  have "trees (?a @ [n])" using assms(1,3) by (auto simp: good_def trees_def nth_append less_Suc_eq)
  moreover have "at_need (?a @ [n]) 0 0" using assms(1) at_need_grows [OF _ grows_snoc] by (auto simp: good_def)
  ultimately show ?thesis using ok assms(1)
    by (auto simp: leads_def good_def nth_append)
qed

text \<open>\<open>yields\<close>: what a step of the lowering leaves.\<close>

definition yields :: "(lower \<Rightarrow> 'a \<Rightarrow> bool) \<Rightarrow> lower \<Rightarrow> ('a \<times> lower) option \<Rightarrow> bool" where
  "yields Q lo r = (\<forall>x lo'. r = Some (x, lo') \<longrightarrow> leads lo lo' \<and> Q lo' x)"

lemma yieldsD: "yields Q lo r \<Longrightarrow> r = Some (x, lo') \<Longrightarrow> leads lo lo' \<and> Q lo' x"
  by (simp add: yields_def)

lemma yields_None [simp]: "yields Q lo None"
  by (simp add: yields_def)

lemma yields_Some [simp]: "yields Q lo (Some (x, lo')) = (leads lo lo' \<and> Q lo' x)"
  by (simp add: yields_def)

lemma yields_bind:
  assumes "yields Q lo r" and "\<And>x lo1. leads lo lo1 \<Longrightarrow> Q lo1 x \<Longrightarrow> yields R lo1 (f (x, lo1))"
  shows "yields R lo (Option.bind r f)"
  using assms by (cases r) (fastforce simp: yields_def intro: leads_trans)+

lemma yields_from: "leads lo lo1 \<Longrightarrow> yields Q lo1 r \<Longrightarrow> yields Q lo r"
  by (auto simp: yields_def intro: leads_trans)

lemma yields_weaken: "yields Q lo r \<Longrightarrow> (\<And>x lo'. leads lo lo' \<Longrightarrow> Q lo' x \<Longrightarrow> R lo' x) \<Longrightarrow> yields R lo r"
  by (auto simp: yields_def)

lemma make_e_yields:
  assumes "good lo" and "list_all (expression lo) (operands e)"
  shows "yields expression lo (make_e e lo)"
proof -
  have "node_good a' k (E e)" if "grows_to (lo_arena lo @ [E e]) a'" for a' k
    using assms(2) expr_at_grows [OF _ arena_grows_trans [OF grows_snoc that]]
    by (auto simp: node_good_def list_all_iff)
  then have "leads lo (lo\<lparr>lo_arena := lo_arena lo @ [E e]\<rparr>)"
    using assms by (intro good_snoc) (auto simp: list_all_iff expr_at_def)
  then show ?thesis by (simp add: make_e_def alloc_def expr_at_def)
qed

definition carries :: "kont list \<Rightarrow> skont \<Rightarrow> nat" where
  "carries a s = (case s of AdvancePos n next \<Rightarrow> nat n | StoreEnv nm next \<Rightarrow> need a next | Capture nm next \<Rightarrow> need a next
     | EvalConstraint e f next \<Rightarrow> need a next | _ \<Rightarrow> 0)"

lemma need_new:
  "(case s of StoreEnv nm next \<Rightarrow> next < length a | Capture nm next \<Rightarrow> next < length a
     | EvalConstraint e f next \<Rightarrow> next < length a | _ \<Rightarrow> True) \<Longrightarrow> need (a @ [S s]) (length a) = carries a s"
  by (auto simp: need.simps [of "a @ [S s]" "length a"] carries_def need_grows split: skont.splits)

text \<open>A spine kont whose edges are good in every arena the present one grows into.\<close>

lemma make_s_yields:
  assumes "good lo"
    and "\<And>a'. grows_to (lo_arena lo) a' \<Longrightarrow> spine_ok (graph_of a') (need a') (carries (lo_arena lo) s) s"
    and "case s of StoreEnv nm next \<Rightarrow> next < length (lo_arena lo) | Capture nm next \<Rightarrow> next < length (lo_arena lo)
     | EvalConstraint e f next \<Rightarrow> next < length (lo_arena lo) | _ \<Rightarrow> True"
  shows "yields (\<lambda>lo' k. at_need (lo_arena lo') (carries (lo_arena lo) s) k \<and> lo_arena lo' ! k = S s \<and>
      k = length (lo_arena lo)) lo (make_s s lo)"
proof -
  note n = need_new [OF assms(3)]
  have "node_good a' (length (lo_arena lo)) (S s)" if "grows_to (lo_arena lo @ [S s]) a'" for a'
  proof -
    have "need a' (length (lo_arena lo)) = carries (lo_arena lo) s"
      using need_grows [OF that, of "length (lo_arena lo)"] n by simp
    then show ?thesis using assms(2) arena_grows_trans [OF grows_snoc that] by (simp add: node_good_def)
  qed
  then have "leads lo (lo\<lparr>lo_arena := lo_arena lo @ [S s]\<rparr>)"
    using assms(1) by (intro good_snoc) auto
  then show ?thesis using n by (simp add: make_s_def alloc_def at_need_def)
qed

lemma make_s_target:
  assumes "good lo" and "\<And>a. carries a s = 0"
    and "\<And>a'. grows_to (lo_arena lo) a' \<Longrightarrow> spine_ok (graph_of a') (need a') 0 s"
    and "case s of StoreEnv nm next \<Rightarrow> False | Capture nm next \<Rightarrow> False | EvalConstraint e f next \<Rightarrow> False | _ \<Rightarrow> True"
  shows "yields (\<lambda>lo' k. target lo' k \<and> lo_arena lo' ! k = S s \<and> k = length (lo_arena lo)) lo (make_s s lo)"
  using make_s_yields [of lo s] assms by (auto split: skont.splits)

lemmas edge_grows = at_need_target [OF at_need_grows] expr_is_e [OF expr_at_grows] handler_is_r [OF handler_at_grows]

lemma make_target:
  assumes "good lo" and "target lo next"
  shows "yields target lo (make_s (EndStruct next) lo)" "yields target lo (make_s (BeginStruct name next) lo)"
    "yields target lo (make_s (BeginVariant name tag next) lo)" "yields target lo (make_s (PopInterval checked next) lo)"
    "yields target lo (make_s (ReturnRule next) lo)" "yields target lo (make_s (CommitChoice next) lo)"
    "yields target lo (make_s (EndOptional next) lo)" "yields target lo (make_s (EndArray resync next) lo)"
    "yields target lo (make_s (ExternalCall func next) lo)" "yields target lo (make_s AbortRule lo)"
    "prim_ok p \<Longrightarrow> yields target lo (make_s (MatchPrimitive p next) lo)"
  by (rule yields_weaken, rule make_s_target;
      use assms in \<open>auto simp: carries_def intro: edge_grows\<close>)+

lemma make_with_expr:
  assumes "good lo" and "target lo next" and "expression lo e"
  shows "yields target lo (make_s (SeekK e next) lo)" "yields target lo (make_s (BindCompute e next) lo)"
    "yields target lo (make_s (SetEndian e next) lo)" "yields target lo (make_s (MatchBytes e str next) lo)"
  by (rule yields_weaken, rule make_s_target;
      use assms in \<open>auto simp: carries_def intro: edge_grows\<close>)+

lemma count_path_later:
  "good lo \<Longrightarrow> expression lo e \<Longrightarrow> grows_to (lo_arena lo) a' \<Longrightarrow> count_path_of (graph_of a') e \<noteq> None"
  by (rule count_path_total) (auto simp: good_def expr_at_def)

lemma make_push:
  assumes "good lo" and "target lo next" and "expression lo e"
  shows "yields target lo (make_s (PushInterval e relative next) lo)"
  by (rule yields_weaken, rule make_s_target;
      use assms count_path_later [OF assms(1,3)] in \<open>auto simp: carries_def intro: edge_grows\<close>)

definition opt_at :: "('a \<Rightarrow> bool) \<Rightarrow> 'a option \<Rightarrow> bool" where
  "opt_at P x = (\<forall>y. x = Some y \<longrightarrow> P y)"

lemma opt_at_simps [simp]: "opt_at P None" "opt_at P (Some y) = P y"
  by (simp_all add: opt_at_def)

lemma opt_at_mono: "opt_at P x \<Longrightarrow> (\<And>y. P y \<Longrightarrow> Q y) \<Longrightarrow> opt_at Q x"
  by (simp add: opt_at_def)

lemma opt_at_ok: "opt_at P x \<Longrightarrow> (\<And>y. P y \<Longrightarrow> Q y) \<Longrightarrow> opt_ok Q x"
  by (cases x) (simp_all add: opt_at_def)

lemma opt_edge:
  "opt_at (at_need a 0) x \<Longrightarrow> grows_to a a' \<Longrightarrow> opt_ok (target_ok (graph_of a') (need a')) x"
  "opt_at (handler_at a) h \<Longrightarrow> grows_to a a' \<Longrightarrow> opt_ok (is_r (graph_of a')) h"
  by (auto elim!: opt_at_ok intro: edge_grows)

lemma opt_later:
  "opt_at (target lo) x \<Longrightarrow> leads lo lo' \<Longrightarrow> opt_at (target lo') x"
  "opt_at (handler_at (lo_arena lo)) h \<Longrightarrow> leads lo lo' \<Longrightarrow> opt_at (handler_at (lo_arena lo')) h"
  by (auto elim!: opt_at_mono intro: later)

lemma make_on_fail:
  assumes "good lo" and "opt_at (target lo) t" and "opt_at (handler_at (lo_arena lo)) n"
  shows "yields (\<lambda>lo' k. handler_at (lo_arena lo') k) lo (make_s (OnFail t n pop) lo)"
  by (rule yields_weaken, rule make_s_target;
      use assms in \<open>auto simp: carries_def handler_at_def intro: opt_edge dest: at_need_less\<close>)

lemma make_resync:
  assumes "good lo" and "target lo body" and "target lo fin"
  shows "yields (\<lambda>lo' k. handler_at (lo_arena lo') k \<and> lo_arena lo' ! k = S (Resync body fin)) lo
    (make_s (Resync body fin) lo)"
  by (rule yields_weaken, rule make_s_target;
      use assms in \<open>auto simp: carries_def handler_at_def intro: edge_grows dest: at_need_less\<close>)

lemma make_choice:
  assumes "good lo" and "target lo next" and "opt_at (handler_at (lo_arena lo)) h"
  shows "yields target lo (make_s (BeginChoice h next) lo)"
    "yields target lo (make_s (BeginOptional h next k) lo)"
  by (rule yields_weaken, rule make_s_target;
      use assms in \<open>auto simp: carries_def intro: edge_grows opt_edge\<close>)+

text \<open>Konts that hand on what the next one relies on.\<close>

lemma make_store:
  assumes "good lo" and "at_need (lo_arena lo) n next"
  shows "yields (\<lambda>lo' k. at_need (lo_arena lo') n k) lo (make_s (StoreEnv nm next) lo)"
    "yields (\<lambda>lo' k. at_need (lo_arena lo') n k) lo (make_s (Capture name next) lo)"
proof -
  have c: "carries (lo_arena lo) (StoreEnv nm next) = n" "carries (lo_arena lo) (Capture name next) = n"
    using at_need_s(2) [OF assms(2)] by (simp_all add: carries_def)
  have l: "is_s (graph_of a') next \<and> need a' next \<le> n" if "grows_to (lo_arena lo) a'" for a'
    using at_need_s [OF at_need_grows [OF assms(2) that]] by simp
  show "yields (\<lambda>lo' k. at_need (lo_arena lo') n k) lo (make_s (StoreEnv nm next) lo)"
    by (rule yields_weaken, rule make_s_yields;
        use assms at_need_less [OF assms(2)] c l in simp)
  show "yields (\<lambda>lo' k. at_need (lo_arena lo') n k) lo (make_s (Capture name next) lo)"
    by (rule yields_weaken, rule make_s_yields;
        use assms at_need_less [OF assms(2)] c l in simp)
qed

lemma make_constraint:
  assumes "good lo" and "at_need (lo_arena lo) n next" and "expression lo e" and "opt_at (target lo) f"
  shows "yields (\<lambda>lo' k. at_need (lo_arena lo') n k) lo (make_s (EvalConstraint e f next) lo)"
proof -
  have c: "carries (lo_arena lo) (EvalConstraint e f next) = n"
    using at_need_s(2) [OF assms(2)] by (simp add: carries_def)
  have "is_s (graph_of a') next \<and> need a' next \<le> n" if "grows_to (lo_arena lo) a'" for a'
    using at_need_s [OF at_need_grows [OF assms(2) that]] by simp
  then show ?thesis
    by (intro yields_weaken [OF make_s_yields])
      (use assms at_need_less [OF assms(2)] c in \<open>auto intro: edge_grows opt_edge\<close>)
qed

section \<open>Expressions\<close>

lemma step_into_yields: "good lo \<Longrightarrow> expression lo p \<Longrightarrow> yields expression lo (step_into f p lo)"
  by (auto simp: step_into_def intro!: make_e_yields)

lemma call_args_yields:
  assumes "\<And>a lo. a \<in> set es \<Longrightarrow> good lo \<Longrightarrow> yields expression lo (compile_expr a lo)" and "good lo"
  shows "yields (\<lambda>lo' ks. list_all (expression lo') ks) lo (compile_call_args es lo)"
  using assms
proof (induction es arbitrary: lo)
  case (Cons a es)
  have a: "yields expression lo (compile_expr a lo)" using Cons.prems by simp
  have "yields (\<lambda>lo' ks. list_all (expression lo') ks) lo1
      (compile_call_args es lo1 \<bind> (\<lambda>(ks, lo2). Some (k # ks, lo2)))" if "leads lo lo1" "expression lo1 k" for lo1 k
    by (rule yields_bind [OF Cons.IH]) (use that Cons.prems in \<open>auto intro: later dest: leads_good\<close>)
  then show ?case by (auto intro!: yields_bind [OF a])
qed simp

lemma bind_return [simp]: "Option.bind r (\<lambda>(x, lo). Some (x, lo)) = r"
  by (cases r) auto

lemma compile_ref_eq:
  "compile_expr (expr.Ref (FieldAcc b f)) lo =
     Option.bind (compile_ref_path (FieldAcc b f) [] lo) (\<lambda>(p, lo1). make_e (CaptureValue p) lo1)"
  "compile_expr (expr.Ref (IndexAcc b i)) lo =
     Option.bind (compile_ref_path (IndexAcc b i) [] lo) (\<lambda>(p, lo1). make_e (CaptureValue p) lo1)"
  by (simp_all add: step_into_def split_def)

lemma compile_expr_yields:
  "\<And>lo. good lo \<Longrightarrow> yields expression lo (compile_expr e lo)"
  "\<And>f lo. good lo \<Longrightarrow> yields expression lo (compile_ref_path p f lo)"
proof (induction e and p)
  case (BinOp l op r)
  have "operands (lower_binop op x y) = [x, y]" for x y by (cases op) simp_all
  then show ?case
    by (simp, intro yields_bind [OF BinOp(1)] BinOp(3), simp, intro yields_bind [OF BinOp(2)])
      (auto intro!: make_e_yields intro: later dest: leads_good)
next
  case (UnaryOp op e)
  then show ?case
    by (cases "lower_unop op") (auto intro!: yields_bind [OF UnaryOp(1)] make_e_yields dest: leads_good)
next
  case (Ternary c t e)
  show ?case
    by (simp, intro yields_bind [OF Ternary(1)] Ternary(4), simp, intro yields_bind [OF Ternary(2)], erule leads_good, simp,
        intro yields_bind [OF Ternary(3)])
      (auto intro!: make_e_yields dest: leads_good, (blast intro: expression_leads)+)
next
  case (Ref p)
  show ?case
  proof (cases p)
    case (Simple n rp rpar rd)
    then show ?thesis using Ref(2) by (auto intro: make_e_yields)
  next
    case (FieldAcc b f)
    have "yields expression lo (compile_ref_path (FieldAcc b f) [] lo)" using Ref FieldAcc by blast
    then show ?thesis unfolding FieldAcc compile_ref_eq
      by (rule yields_bind) (auto intro!: make_e_yields dest: leads_good)
  next
    case (IndexAcc b i)
    have "yields expression lo (compile_ref_path (IndexAcc b i) [] lo)" using Ref IndexAcc by blast
    then show ?thesis unfolding IndexAcc compile_ref_eq
      by (rule yields_bind) (auto intro!: make_e_yields dest: leads_good)
  qed
next
  case (Call f args)
  show ?case
    by (auto intro!: yields_bind [OF call_args_yields] Call make_e_yields dest: leads_good)
next
  case (Builtin n)
  have "operands e = []" if "make_builtin n = Some e" for e
    using that by (auto simp: make_builtin_def split: if_splits)
  then show ?case using Builtin by (cases "make_builtin n") (auto intro: make_e_yields)
next
  case (Simple n rp rpar rd)
  then show ?case by (auto intro!: yields_bind [OF make_e_yields] step_into_yields dest: leads_good)
next
  case (FieldAcc b f')
  then show ?case by (auto intro!: yields_bind [OF FieldAcc(1)] step_into_yields dest: leads_good)
next
  case (IndexAcc b i)
  show ?case
    by (simp, intro yields_bind [OF IndexAcc(2)] IndexAcc(3), simp, intro yields_bind [OF IndexAcc(1)], erule leads_good, simp,
        intro yields_bind [OF make_e_yields]) (auto intro!: step_into_yields intro: later dest: leads_good)
qed (auto intro: make_e_yields)

section \<open>Scopes, checks and fields\<close>

fun rho_ok :: "kont list \<Rightarrow> rho \<Rightarrow> bool" where
  "rho_ok a Root = True"
| "rho_ok a (InField n r) = rho_ok a r"
| "rho_ok a (InAlt k r) = (handler_at a k \<and> rho_ok a r)"
| "rho_ok a (InOptional k r) = (handler_at a k \<and> rho_ok a r)"
| "rho_ok a (InArrayElem k r) = (opt_at (handler_at a) k \<and> rho_ok a r)"

lemma rho_later: "rho_ok (lo_arena lo) r \<Longrightarrow> leads lo lo' \<Longrightarrow> rho_ok (lo_arena lo') r"
  by (induction r) (auto intro: later opt_later)

lemma backtrack_target: "rho_ok a r \<Longrightarrow> opt_at (at_need a 0) (find_backtrack_target r)"
  by (induction r) (auto intro: handler_at_need split: option.splits)

lemmas later_all = later rho_later opt_later

lemma field_dest_yields:
  assumes "good lo" and "at_need (lo_arena lo) n tail"
  shows "yields (\<lambda>lo' k. at_need (lo_arena lo') n k) lo (field_dest nm tail lo)"
  using make_store(1) [OF assms] by (auto simp: field_dest_def intro!: yields_bind make_store(2) dest: leads_good)

lemma eval_where_yields:
  assumes "good lo" and "at_need (lo_arena lo) n next" and "rho_ok (lo_arena lo) r"
  shows "yields (\<lambda>lo' k. at_need (lo_arena lo') n k) lo (eval_where c r next lo)"
proof (cases c)
  case None
  then show ?thesis using assms by (simp add: eval_where_def)
next
  case (Some e)
  have f: "yields target lo1
      (case find_backtrack_target r of Some t \<Rightarrow> Some (t, lo1) | None \<Rightarrow> make_s AbortRule lo1)" if "leads lo lo1" for lo1
  proof (cases "find_backtrack_target r")
    case None
    then show ?thesis using that make_target(10) [of lo1 0] by (auto simp: good_def leads_def)
  next
    case (Some t)
    then show ?thesis using that backtrack_target [OF rho_later [OF assms(3) that]] by (auto dest: leads_good)
  qed
  show ?thesis
    unfolding Some eval_where_def option.case
    by (rule yields_bind [OF compile_expr_yields(1) [OF assms(1)]], simp, rule yields_bind [OF f], assumption, simp,
        rule make_constraint) (use assms(2) in \<open>auto dest: leads_good\<close>, (blast intro: later)+)
qed

lemma interval_entry_yields:
  assumes "good lo" and "target lo body"
  shows "yields target lo (interval_entry iv body lo)"
proof (cases iv)
  case (StartEnd a b)
  show ?thesis
    unfolding StartEnd interval_entry_def interval.case
    by (rule yields_bind [OF compile_expr_yields(1) [OF assms(1)]], simp, rule yields_bind [OF make_push], erule leads_good,
        erule at_need_leads [OF assms(2)], assumption, simp, rule yields_bind [OF compile_expr_yields(1)], erule leads_good, simp,
        rule make_with_expr) (auto dest: leads_good intro: later)
next
  case (Length n)
  show ?thesis
    unfolding Length interval_entry_def interval.case
    by (rule yields_bind [OF compile_expr_yields(1) [OF assms(1)]], simp, rule make_push)
      (auto dest: leads_good intro: later assms(2))
qed

lemma prim_ok_info [simp]: "prim_ok (to_prim_info k)"
  by (cases k) (simp_all add: prim_ok_def)

lemma compile_primitive_yields:
  assumes "good lo" and "target lo next" and "rho_ok (lo_arena lo) r"
  shows "yields target lo (compile_primitive kind c iv r next lo)"
proof -
  have len: "yields expression lo1 (case iv of Some (Length n) \<Rightarrow> compile_expr n lo1 | _ \<Rightarrow> make_e RemainingK lo1)"
    if "good lo1" for lo1
    using that by (auto intro!: compile_expr_yields make_e_yields split: option.split interval.split)
  show ?thesis
  proof (cases "kind = BytesKind \<or> kind = StringKind")
    case True
    show ?thesis
      unfolding compile_primitive_def if_P [OF True]
      by (rule yields_bind [OF eval_where_yields [OF assms]], simp, rule yields_bind [OF len], erule leads_good, simp,
          rule yields_bind [OF field_dest_yields], erule leads_good, erule at_need_leads, assumption, simp,
          rule make_with_expr) (auto dest: leads_good intro: later)
  next
    case False
    show ?thesis
      unfolding compile_primitive_def if_not_P [OF False]
      by (rule yields_bind [OF eval_where_yields [OF assms]], simp, rule yields_bind [OF field_dest_yields], erule leads_good,
          assumption, simp, rule make_target) (auto dest: leads_good)
  qed
qed

section \<open>Bit fields\<close>

text \<open>The widths of the members: positive, inside the container, and not 63, for which the machine's
  extraction of a signed member overflows.\<close>

fun entries_fit :: "prim_info \<Rightarrow> int \<Rightarrow> bitfield_entry list \<Rightarrow> bool" where
  "entries_fit c offset [] = True"
| "entries_fit c offset (e # es) =
     (let w = sint (ucast (e_width e) :: 32 word)
      in 0 < w \<and> w \<noteq> 63 \<and> offset + w \<le> int (8 * byte_count c) \<and> entries_fit c (offset + w) es)"

definition bits_fit :: "primitive_kind \<Rightarrow> bitfield_entry list \<Rightarrow> bool" where
  "bits_fit kind es = ((case kind of IntegerKind w s e c \<Rightarrow> True | _ \<Rightarrow> False) \<and> es \<noteq> [] \<and>
     entries_fit (to_prim_info kind) 0 es)"

lemma make_extract:
  assumes "good lo" and "at_need (lo_arena lo) n next" and "n \<le> byte_count c" and "p_kind c = KInteger"
    and "0 \<le> off" "0 < w" "w \<noteq> 63" "off + w \<le> int (8 * byte_count c)"
  shows "yields target lo (make_s (ExtractBits c off w sg next) lo)"
proof -
  have "is_s (graph_of a') next \<and> need a' next \<le> byte_count c" if "grows_to (lo_arena lo) a'" for a'
    using at_need_s [OF at_need_grows [OF assms(2) that]] assms(3) by simp
  then show ?thesis
    by (intro yields_weaken [OF make_s_target]) (use assms in \<open>auto simp: carries_def\<close>)
qed

lemma entry_offset: "0 \<le> off \<Longrightarrow> off + w \<le> int (8 * byte_count c) \<Longrightarrow> 0 < w \<Longrightarrow> sint (word_of_int (off + w) :: 32 word) = off + w"
  using byte_count_bounds(2) [of c] unfolding sint_sbintrunc' by (intro signed_take_bit_int_eq_self) auto

lemma compile_entries_yields:
  assumes "good lo" and "at_need (lo_arena lo) (byte_count c) chain" and "rho_ok (lo_arena lo) r"
    and "p_kind c = KInteger" and "0 \<le> off" and "entries_fit c off es"
  shows "yields (\<lambda>lo' k. at_need (lo_arena lo') (if es = [] then byte_count c else 0) k) lo
    (compile_entries c off es r chain lo)"
  using assms(5,6)
proof (induction es arbitrary: off)
  case (Cons e es)
  define w where "w = sint (ucast (e_width e) :: 32 word)"
  have w: "0 < w" "w \<noteq> 63" "off + w \<le> int (8 * byte_count c)" "entries_fit c (off + w) es"
    using Cons.prems by (simp_all add: w_def Let_def)
  let ?n = "if es = [] then byte_count c else 0"
  have ih: "yields (\<lambda>lo' k. at_need (lo_arena lo') ?n k) lo
      (compile_entries c (sint (word_of_int (off + w) :: 32 word)) es r chain lo)"
    using Cons.IH [of "off + w"] Cons.prems(1) w entry_offset by simp
  show ?case
    unfolding compile_entries.simps Let_def w_def [symmetric]
    by (rule yields_bind [OF ih], simp only: split_conv, rule yields_bind [OF eval_where_yields], erule leads_good, assumption,
        erule rho_later [OF assms(3)], simp only: split_conv, rule yields_bind [OF field_dest_yields], erule leads_good,
        assumption, simp only: split_conv, simp, rule make_extract, erule leads_good, assumption)
      (use assms(4) Cons.prems(1) w in auto)
qed (use assms in simp)

lemma compile_bitfield_yields:
  assumes "good lo" and "target lo next" and "rho_ok (lo_arena lo) r" and "bits_fit kind es"
  shows "yields target lo (compile_bitfield (to_prim_info kind) es r next lo)"
proof -
  let ?c = "to_prim_info kind"
  have k: "p_kind ?c = KInteger" "es \<noteq> []" "entries_fit ?c 0 es"
    using assms(4) by (auto simp: bits_fit_def split: primitive_kind.splits)
  have a: "yields (\<lambda>lo' k. at_need (lo_arena lo') (byte_count ?c) k) lo (make_s (AdvancePos (int (byte_count ?c)) next) lo)"
    by (intro yields_weaken [OF make_s_yields])
      (use assms(1,2) in \<open>auto simp: carries_def intro: edge_grows\<close>)
  have e: "yields target lo1 (compile_entries ?c 0 es r adv lo1)"
    if "leads lo lo1" "at_need (lo_arena lo1) (byte_count ?c) adv" for lo1 adv
    using compile_entries_yields [OF leads_good [OF that(1)] that(2) rho_later [OF assms(3) that(1)] k(1) _ k(3)] k(2) by simp
  show ?thesis
    unfolding compile_bitfield_def by (rule yields_bind [OF a]) (simp add: e)
qed

section \<open>Types\<close>

text \<open>Every bit field the lowering meets fits its container.\<close>

fun bits_in :: "type_expr \<Rightarrow> bool" where
  "bits_in (Alternatives alts) = list_all bits_in alts"
| "bits_in (Struct fs c) = list_all (\<lambda>f. bits_in (f_body f)) fs"
| "bits_in (Union vs) = list_all (\<lambda>v. bits_in (v_body v)) vs"
| "bits_in (Array e spec c iv eiv res) = (bits_in e \<and>
     (case spec of SepTerm (TypeSep t) trm \<Rightarrow> bits_in t | _ \<Rightarrow> True))"
| "bits_in (Optional e c iv) = bits_in e"
| "bits_in (Switch d cs dflt) = (list_all (\<lambda>c. bits_in (c_target c)) cs \<and>
     (case dflt of Some (SwitchDefault (Some t) iv False) \<Rightarrow> bits_in t | _ \<Rightarrow> True))"
| "bits_in (Bitfield kind es) = bits_fit kind es"
| "bits_in _ = True"

text \<open>What is shown of the compiler of the parts.\<close>

definition sound_on :: "compiler \<Rightarrow> type_expr \<Rightarrow> bool" where
  "sound_on cc t = (\<forall>r next lo. good lo \<longrightarrow> target lo next \<longrightarrow> rho_ok (lo_arena lo) r \<longrightarrow> yields target lo (cc t r next lo))"

lemma sound_onD: "sound_on cc t \<Longrightarrow> good lo \<Longrightarrow> target lo next \<Longrightarrow> rho_ok (lo_arena lo) r \<Longrightarrow> yields target lo (cc t r next lo)"
  by (simp add: sound_on_def)

lemma compile_field_yields:
  assumes "sound_on cc (f_body f)" and "good lo" and "target lo chain" and "rho_ok (lo_arena lo) r"
  shows "yields target lo (compile_field cc r f chain lo)"
proof (cases "f_scopes_rest f")
  case True
  show ?thesis
    unfolding compile_field_def if_P [OF True]
    by (rule yields_bind [OF make_e_yields [OF assms(2)]], simp, simp only: split_conv, rule yields_bind [OF make_push],
        erule leads_good, erule at_need_leads [OF assms(3)], assumption, simp only: split_conv,
        rule sound_onD [OF assms(1)]) (use assms(4) in \<open>auto dest: leads_good intro: rho_later\<close>)
next
  case False
  show ?thesis
  proof (cases "field_window f")
    case None
    then show ?thesis using False assms by (simp add: compile_field_def sound_onD)
  next
    case (Some iv)
    show ?thesis
      unfolding compile_field_def if_not_P [OF False] Some option.case
      by (rule yields_bind [OF make_target(4) [OF assms(2,3)]], simp only: split_conv,
          rule yields_bind [OF sound_onD [OF assms(1)]], erule leads_good, assumption, simp, erule rho_later [OF assms(4)],
          simp only: split_conv, rule interval_entry_yields) (auto dest: leads_good)
  qed
qed

lemma compile_chain_yields:
  assumes "\<And>f. f \<in> set fs \<Longrightarrow> sound_on cc (f_body f)" and "good lo" and "target lo tail" and "rho_ok (lo_arena lo) r"
  shows "yields target lo (compile_chain cc r fs tail lo)"
  using assms(1)
proof (induction fs)
  case (Cons f fs)
  have ih: "yields target lo (compile_chain cc r fs tail lo)" using Cons by simp
  show ?case
    unfolding compile_chain.simps
    by (rule yields_bind [OF ih], simp only: split_conv, rule compile_field_yields)
      (use Cons.prems assms(4) in \<open>auto dest: leads_good intro: rho_later\<close>)
qed (use assms in simp)

lemma compile_fields_yields:
  assumes "\<And>f. f \<in> set fs \<Longrightarrow> sound_on cc (f_body f)" and "good lo" and "target lo tail" and "rho_ok (lo_arena lo) r"
  shows "yields target lo (compile_fields cc fs r tail lo)"
proof -
  have p: "yields target lo (if list_ex f_scopes_rest fs then make_s (PopInterval True tail) lo else Some (tail, lo))"
    using assms(2,3) make_target(4) by simp
  show ?thesis
    unfolding compile_fields_def
    by (rule yields_bind [OF p], simp only: split_conv, rule compile_chain_yields)
      (use assms in \<open>auto dest: leads_good intro: rho_later\<close>)
qed

lemma compile_optional_yields:
  assumes "sound_on cc e" and "good lo" and "target lo next" and "rho_ok (lo_arena lo) r"
  shows "yields target lo (compile_optional cc e c r next lo)"
proof (cases c)
  case None
  show ?thesis
    unfolding None compile_optional_def option.case
    by (rule yields_bind [OF make_target(7) [OF assms(2,3)]], simp only: split_conv,
        rule yields_bind [OF make_on_fail], erule leads_good, simp, erule at_need_leads [OF assms(3)], simp,
        simp only: split_conv, rule yields_bind [OF sound_onD [OF assms(1)]], erule leads_good, erule at_need_leads, assumption,
        simp, blast intro: assms(4) rho_later, simp only: split_conv, rule make_choice)
      (auto dest: leads_good intro: later)
next
  case (Some e')
  show ?thesis
    unfolding Some compile_optional_def option.case
    by (rule yields_bind [OF sound_onD [OF assms]], simp only: split_conv, rule yields_bind [OF compile_expr_yields(1)],
        erule leads_good, simp only: split_conv, rule make_constraint)
      (use assms(3) in \<open>auto dest: leads_good\<close>, (blast intro: later)+)
qed

subsection \<open>Arrays\<close>

definition mode_exprs :: "kont list \<Rightarrow> array_mode \<times> kid \<times> kid \<Rightarrow> bool" where
  "mode_exprs a = (\<lambda>(mode, c, u). (mode = array_mode.FixedCount \<or> mode = CountMode \<longrightarrow> expr_at a c) \<and>
     (mode = UntilMode \<longrightarrow> expr_at a u))"

lemma mode_exprs_leads: "mode_exprs (lo_arena lo) x \<Longrightarrow> leads lo lo' \<Longrightarrow> mode_exprs (lo_arena lo') x"
  by (auto simp: mode_exprs_def intro: later)

lemma array_exprs_yields: "good lo \<Longrightarrow> yields (\<lambda>lo'. mode_exprs (lo_arena lo')) lo (array_exprs spec lo)"
  by (auto simp: array_exprs_def mode_exprs_def intro!: yields_bind [OF compile_expr_yields(1)] dest: leads_good
      split: array_spec.split separator.split terminator.split)

lemma array_next_node:
  assumes "mode_exprs a (mode, c, u)" and "at_need a 0 fin" and "at_need a 0 body" and "grows_to a a'"
  shows "spine_ok (graph_of a') (need a') 0 (ArrayNext mode c u fin body resync)"
  using assms by (auto simp: mode_exprs_def intro: edge_grows)

lemma make_array_next:
  assumes "good lo" and "mode_exprs (lo_arena lo) (mode, c, u)" and "target lo fin"
  shows "yields (\<lambda>lo' k. target lo' k \<and> lo_arena lo' ! k = S (ArrayNext mode c u fin 0 resync)) lo
    (make_s (ArrayNext mode c u fin 0 resync) lo)"
proof -
  have z: "target lo 0" using assms(1) by (simp add: good_def)
  show ?thesis
    by (rule yields_weaken [OF make_s_target])
      (use assms array_next_node [OF assms(2,3) z] in \<open>auto simp: carries_def\<close>)
qed

lemma make_begin_array:
  assumes "good lo" and "mode_exprs (lo_arena lo) (mode, c, u)" and "target lo fin" and "opt_at (handler_at (lo_arena lo)) rk"
    and "target lo body"
  shows "yields target lo (make_s (BeginArray name mode c u fin rk body) lo)"
proof -
  have p: "count_path_of (graph_of a') c \<noteq> None" if "mode = array_mode.FixedCount \<or> mode = CountMode" "grows_to (lo_arena lo) a'" for a'
    using assms(1,2) that by (intro count_path_later [of lo]) (auto simp: mode_exprs_def)
  show ?thesis
    by (rule yields_weaken [OF make_s_target])
      (use assms p in \<open>auto simp: carries_def mode_exprs_def intro: edge_grows opt_edge\<close>)
qed

text \<open>An edge filled in later.\<close>

lemma patch_leads:
  assumes "good lo" and "k < length (lo_arena lo)" and "shell node = shell (lo_arena lo ! k)" and "linked_later node"
    and "\<And>a'. grows_to (lo_arena lo) a' \<Longrightarrow> node_good a' k node"
  shows "leads lo (patch k node lo)"
proof -
  let ?a = "lo_arena lo"
  have g: "grows_to ?a (?a[k := node])" using assms(3) by (rule grows_update)
  have n: "\<not> (\<exists>e. node = E e)" using assms(4) by (auto simp: linked_later_def)
  have "arena_sound (?a[k := node])"
    unfolding arena_sound_def
  proof (intro allI impI)
    fix a' j
    assume h: "grows_to (?a[k := node]) a'" and j: "j < length (?a[k := node])"
    have "grows_to ?a a'" using arena_grows_trans [OF g h] .
    then show "node_good a' j (?a[k := node] ! j)"
      using assms(1,2,5) j by (cases "j = k") (auto simp: good_def arena_sound_def)
  qed
  moreover have "trees (?a[k := node])" using assms(1,2) n by (auto simp: good_def trees_def nth_list_update)
  moreover have "at_need (?a[k := node]) 0 0" using assms(1) at_need_grows [OF _ g] by (simp add: good_def)
  moreover have "\<exists>e f n. ?a[k := node] ! j = S (InvokeRule e f n)" if "\<exists>e f n. ?a ! j = S (InvokeRule e f n)" "j < length ?a" for j
    using that shell_kinds(3) [OF assms(3)] assms(2) by (cases "j = k") auto
  ultimately show ?thesis using assms(1) g by (auto simp: leads_def good_def patch_def)
qed

lemma compile_element_yields:
  assumes "sound_on cc e" and "good lo" and "target lo next" and "rho_ok (lo_arena lo) r"
  shows "yields target lo (compile_element cc e eiv r next lo)"
proof (cases eiv)
  case None
  then show ?thesis using assms by (simp add: compile_element_def sound_onD)
next
  case (Some iv)
  show ?thesis
    unfolding Some compile_element_def option.case
    by (rule yields_bind [OF make_target(4) [OF assms(2,3)]], simp only: split_conv,
        rule yields_bind [OF sound_onD [OF assms(1)]], erule leads_good, assumption, erule rho_later [OF assms(4)],
        simp only: split_conv, rule interval_entry_yields) (auto dest: leads_good)
qed

lemma compile_separator_yields:
  assumes "\<And>t trm. spec = SepTerm (TypeSep t) trm \<Longrightarrow> sound_on cc t" and "good lo" and "target lo body" and "rho_ok (lo_arena lo) r"
  shows "yields target lo (compile_separator cc spec r body lo)"
  using assms by (auto simp: compile_separator_def sound_onD split: array_spec.split separator.split)

lemma make_resync_option:
  assumes "good lo" and "target lo fin"
  shows "yields (\<lambda>lo' rk. \<forall>k. rk = Some k \<longrightarrow> handler_at (lo_arena lo') k \<and> lo_arena lo' ! k = S (Resync 0 fin)) lo
    (if resync then do { (k, lo4) \<leftarrow> make_s (Resync 0 fin) lo; Some (Some k, lo4) } else Some (None, lo))"
proof -
  have "target lo 0" using assms(1) by (simp add: good_def)
  note make_resync [OF assms(1) this assms(2)]
  then show ?thesis using assms(1) by (cases resync) (auto intro!: yields_bind dest: leads_good)
qed

lemma array_patched:
  assumes "good lo6" and "mode_exprs (lo_arena lo6) (mode, c, u)" and "target lo6 fin" and "target lo6 entry" and "target lo6 body"
    and "array_next < length (lo_arena lo6)" and "\<exists>b. lo_arena lo6 ! array_next = S (ArrayNext mode c u fin b resync)"
    and "\<And>k. rk = Some k \<Longrightarrow> handler_at (lo_arena lo6) k \<and> (\<exists>b. lo_arena lo6 ! k = S (Resync b fin))"
  shows "yields target lo6
      (let lo7 = patch array_next (S (ArrayNext mode c u fin entry resync)) lo6;
           lo8 = (case rk of Some k \<Rightarrow> patch k (S (Resync entry fin)) lo7 | None \<Rightarrow> lo7)
     in make_s (BeginArray name mode c u fin rk body) lo8)"
proof -
  define lo7 where "lo7 = patch array_next (S (ArrayNext mode c u fin entry resync)) lo6"
  define lo8 where "lo8 = (case rk of Some k \<Rightarrow> patch k (S (Resync entry fin)) lo7 | None \<Rightarrow> lo7)"
  have l7: "leads lo6 lo7"
    unfolding lo7_def
  proof (rule patch_leads)
    show "node_good a' array_next (S (ArrayNext mode c u fin entry resync))" if "grows_to (lo_arena lo6) a'" for a'
    proof -
      have "need a' array_next = 0"
        using need_grows [OF that assms(6)] assms(7)
        by (auto simp: need.simps)
      then show ?thesis
        using array_next_node [OF assms(2,3,4) that] by (simp add: node_good_def)
    qed
  qed (use assms in \<open>auto simp: linked_later_def\<close>)
  have l8: "leads lo7 lo8"
  proof (cases rk)
    case None
    then show ?thesis using leads_good [OF l7] by (simp add: lo8_def)
  next
    case (Some k)
    obtain b where b: "handler_at (lo_arena lo6) k" "lo_arena lo6 ! k = S (Resync b fin)" using assms(8) [OF Some] by blast
    have h: "handler_at (lo_arena lo7) k" "k < length (lo_arena lo7)"
      using handler_leads [OF b(1) l7] by (auto simp: handler_at_def)
    have "lo_arena lo7 ! k = lo_arena lo6 ! k"
      using assms(7) b(2) by (cases "k = array_next") (auto simp: lo7_def patch_def)
    then have s: "shell (S (Resync entry fin)) = shell (lo_arena lo7 ! k)" using b(2) by simp
    have t: "target lo7 entry" "target lo7 fin" using assms(3,4) l7 by (auto intro: later)
    show ?thesis
      unfolding lo8_def Some option.case
    proof (rule patch_leads [OF leads_good [OF l7] h(2) s])
      show "node_good a' k (S (Resync entry fin))" if "grows_to (lo_arena lo7) a'" for a'
        using t that by (auto simp: node_good_def intro: edge_grows)
    qed (simp add: linked_later_def)
  qed
  have l: "leads lo6 lo8" using leads_trans [OF l7 l8] .
  have "opt_at (handler_at (lo_arena lo6)) rk" using assms(8) by (simp add: opt_at_def)
  then have "yields target lo8 (make_s (BeginArray name mode c u fin rk body) lo8)"
    using assms(2-5) l
    by (intro make_begin_array) (auto intro: leads_good mode_exprs_leads later_all)
  from yields_from [OF l this] show ?thesis unfolding Let_def lo8_def lo7_def .
qed

lemma compile_array_yields:
  assumes "sound_on cc e" and "\<And>t trm. spec = SepTerm (TypeSep t) trm \<Longrightarrow> sound_on cc t"
    and "good lo" and "target lo next" and "rho_ok (lo_arena lo) r"
  shows "yields target lo (compile_array cc e spec eiv resync r next lo)"
proof -
  show ?thesis
    unfolding compile_array_def
  proof (rule yields_bind [OF array_exprs_yields [OF assms(3)]], goal_cases)
    case (1 x lo1)
    obtain mode c u where x: "x = (mode, c, u)" by (cases x)
    note m1 = 1(2) [unfolded x] and n1 = at_need_leads [OF assms(4) 1(1)] and r1 = rho_later [OF assms(5) 1(1)]
    show ?case
      unfolding x split_conv
    proof (rule yields_bind [OF make_target(8) [OF leads_good [OF 1(1)] n1]], goal_cases)
      case (1 fin lo2)
      note m2 = mode_exprs_leads [OF m1 1(1)] and r2 = rho_later [OF r1 1(1)] and f2 = 1(2)
      show ?case
        unfolding split_conv
      proof (rule yields_bind [OF make_array_next [OF leads_good [OF 1(1)] m2 f2]], goal_cases)
        case (1 an lo3)
        note m3 = mode_exprs_leads [OF m2 1(1)] and r3 = rho_later [OF r2 1(1)] and f3 = at_need_leads [OF f2 1(1)]
          and a3 = conjunct1 [OF 1(2)]
        have s3: "shell (lo_arena lo3 ! an) = S (ArrayNext mode c u fin 0 resync)" using 1(2) by simp
        show ?case
          unfolding split_conv
        proof (rule yields_bind [OF make_resync_option [OF leads_good [OF 1(1)] f3]], goal_cases)
          case (1 rk lo4)
          note m4 = mode_exprs_leads [OF m3 1(1)] and f4 = at_need_leads [OF f3 1(1)] and a4 = at_need_leads [OF a3 1(1)]
          have h4: "opt_at (handler_at (lo_arena lo4)) rk" using 1(2) by (auto simp: opt_at_def)
          have r4: "rho_ok (lo_arena lo4) (InArrayElem rk r)" using rho_later [OF r3 1(1)] h4 by simp
          note k4 = 1(2) and l34 = 1(1)
          show ?case
            unfolding split_conv
          proof (rule yields_bind [OF compile_element_yields [OF assms(1) leads_good [OF 1(1)] a4 r4]], goal_cases)
            case (1 body lo5)
            note l45 = 1(1) and b5 = 1(2) and r5 = rho_later [OF r4 1(1)]
            show ?case
              unfolding split_conv
            proof (rule yields_bind [OF compile_separator_yields [OF assms(2) leads_good [OF 1(1)] b5 r5]],
                assumption, goal_cases)
              case (1 entry lo6)
              have l46: "leads lo4 lo6" "leads lo3 lo6" using leads_trans [OF l45 1(1)] leads_trans l34 by blast+
              have g: "grows_to (lo_arena lo3) (lo_arena lo6)" "grows_to (lo_arena lo4) (lo_arena lo6)"
                using l46 by (simp_all add: leads_def)
              have "shell (lo_arena lo6 ! an) = S (ArrayNext mode c u fin 0 resync)"
                using grows_shell [OF g(1) at_need_less [OF a3]] s3 by simp
              then have an: "\<exists>b. lo_arena lo6 ! an = S (ArrayNext mode c u fin b resync)"
                by (auto simp: shell_def split: kont.splits skont.splits)
              have rk: "handler_at (lo_arena lo6) k \<and> (\<exists>b. lo_arena lo6 ! k = S (Resync b fin))" if "rk = Some k" for k
              proof -
                have k: "handler_at (lo_arena lo4) k" "lo_arena lo4 ! k = S (Resync 0 fin)" using k4 that by blast+
                have "shell (lo_arena lo6 ! k) = S (Resync 0 fin)"
                  using grows_shell [OF g(2), of k] k by (simp add: handler_at_def)
                then show ?thesis using handler_leads [OF k(1) l46(1)]
                  by (auto simp: shell_def split: kont.splits skont.splits)
              qed
              show ?case
                unfolding split_conv
                by (rule array_patched [OF leads_good [OF 1(1)] mode_exprs_leads [OF m4 l46(1)] at_need_leads [OF f4 l46(1)] 1(2)
                    at_need_leads [OF b5 1(1)] at_need_less [OF at_need_leads [OF a4 l46(1)]] an rk])
            qed
          qed
        qed
      qed
    qed
  qed
qed

subsection \<open>Choices and switches\<close>

lemma make_invoke_yields:
  assumes "good lo" and "target lo next" and "opt_at (target lo) f"
  shows "yields target lo (make_invoke_rule name f next lo)"
proof -
  have z: "target lo 0" using assms(1) by (simp add: good_def)
  have "yields (\<lambda>lo' k. target lo' k \<and> lo_arena lo' ! k = S (InvokeRule 0 f next) \<and> k = length (lo_arena lo)) lo
      (make_s (InvokeRule 0 f next) lo)"
    by (rule make_s_target) (use assms z in \<open>auto simp: carries_def intro: edge_grows opt_edge\<close>)
  then show ?thesis
    by (auto simp: make_invoke_rule_def make_s_def alloc_def leads_def good_def at_need_def)
qed

lemma build_arm_yields:
  assumes "sound_on cc body" and "good lo" and "target lo success" and "rho_ok (lo_arena lo) r"
  shows "yields target lo (build_variant_arm cc name body tag r success lo)"
proof -
  have i: "yields target lo1 (case body of RuleRef nm c iv \<Rightarrow> make_invoke_rule nm (find_backtrack_target r) fin lo1 | _ \<Rightarrow> cc body r fin lo1)"
    if "leads lo lo1" "target lo1 fin" for fin lo1
  proof -
    note r1 = rho_later [OF assms(4) that(1)]
    show ?thesis
      using make_invoke_yields [OF leads_good [OF that(1)] that(2) backtrack_target [OF r1]]
        sound_onD [OF assms(1) leads_good [OF that(1)] that(2) r1] by (cases body) simp_all
  qed
  show ?thesis
    unfolding build_variant_arm_def
    by (rule yields_bind [OF make_target(1) [OF assms(2,3)]], simp only: split_conv, rule yields_bind [OF i], assumption,
        assumption, simp only: split_conv, rule make_target) (auto dest: leads_good)
qed

lemma compile_arms_yields:
  assumes "\<And>n t. (n, t) \<in> set arms \<Longrightarrow> sound_on cc t" and "good lo" and "target lo commit"
    and "handler_at (lo_arena lo) exhausted" and "rho_ok (lo_arena lo) r"
  shows "yields (\<lambda>lo' (link, arm). handler_at (lo_arena lo') link \<and> target lo' arm) lo (compile_arms cc r commit exhausted i arms lo)"
  using assms
proof (induction cc r commit exhausted i arms lo rule: compile_arms.induct)
  case (2 cc r commit exhausted i name body lo)
  have "sound_on cc body" by (rule 2(1) [of name]) simp
  then show ?case
    unfolding compile_arms.simps
    by (rule yields_bind [OF build_arm_yields]) (use 2 in \<open>auto dest: leads_good intro: later\<close>)
next
  case (3 cc r commit exhausted i name body a arms lo)
  have b: "sound_on cc body" by (rule 3(2) [of name]) simp
  have ih: "yields (\<lambda>lo' (link, arm). handler_at (lo_arena lo') link \<and> target lo' arm) lo
      (compile_arms cc r commit exhausted (i + 1) (a # arms) lo)"
    by (rule 3(1), rule 3(2), erule list.set_intros(2)) (use 3 in auto)
  show ?case
    unfolding compile_arms.simps
  proof (rule yields_bind [OF ih], goal_cases)
    case (1 x lo1)
    obtain nl nt where x: "x = (nl, nt)" by fastforce
    have h: "handler_at (lo_arena lo1) nl" "target lo1 nt" using 1(2) x by simp_all
    note c1 = at_need_leads [OF 3(4) 1(1)] and r1 = rho_later [OF 3(6) 1(1)]
    have ol: "yields (\<lambda>lo' k. handler_at (lo_arena lo') k) lo1 (make_s (OnFail (Some nt) (Some nl) False) lo1)"
      by (rule make_on_fail) (use h leads_good [OF 1(1)] in simp_all)
    show ?case
      unfolding x split_conv
    proof (rule yields_bind [OF ol], goal_cases)
      case (1 link lo2)
      have r2: "rho_ok (lo_arena lo2) (InAlt link r)" using rho_later [OF r1 1(1)] 1(2) by simp
      show ?case
        unfolding split_conv
        by (rule yields_bind [OF build_arm_yields [OF b leads_good [OF 1(1)] at_need_leads [OF c1 1(1)] r2]])
          (use 1(2) in \<open>auto dest: leads_good intro: later\<close>)
    qed
  qed
qed simp

lemma compile_choice_yields:
  assumes "\<And>n t. (n, t) \<in> set arms \<Longrightarrow> sound_on cc t" and "good lo" and "target lo next" and "rho_ok (lo_arena lo) r"
  shows "yields target lo (compile_choice cc arms r next lo)"
proof -
  consider "arms = []" | name body where "arms = [(name, body)]" | name body a rest where "arms = (name, body) # a # rest"
    by (cases arms; cases "tl arms") auto
  then show ?thesis
  proof cases
    case 1
    then show ?thesis using assms by (simp add: compile_choice_def)
  next
    case (2 name body)
    then have "sound_on cc body" by (intro assms(1) [of name]) simp
    then show ?thesis using build_arm_yields assms 2 by (simp add: compile_choice_def)
  next
    case (3 name body a rest)
    have b: "sound_on cc body" by (rule assms(1) [of name]) (simp add: 3)
    have rest: "\<And>n t. (n, t) \<in> set (a # rest) \<Longrightarrow> sound_on cc t" by (rule assms(1)) (auto simp: 3)
    show ?thesis
      unfolding 3 compile_choice_def list.case prod.case
    proof (rule yields_bind [OF make_target(6) [OF assms(2,3)]], goal_cases)
      case (1 commit lo1)
      note c1 = 1(2) and r1 = rho_later [OF assms(4) 1(1)]
      have oe: "yields (\<lambda>lo' k. handler_at (lo_arena lo') k) lo1 (make_s (OnFail None None True) lo1)"
        by (rule make_on_fail) (use leads_good [OF 1(1)] in simp_all)
      show ?case
        unfolding split_conv
      proof (rule yields_bind [OF oe], goal_cases)
        case (1 exhausted lo2)
        note c2 = at_need_leads [OF c1 1(1)] and r2 = rho_later [OF r1 1(1)]
        show ?case
          unfolding split_conv
        proof (rule yields_bind [OF compile_arms_yields [OF rest leads_good [OF 1(1)] c2 1(2) r2]], assumption, goal_cases)
          case (1 x lo3)
          obtain nl nt where x: "x = (nl, nt)" by fastforce
          have h: "handler_at (lo_arena lo3) nl" "target lo3 nt" using 1(2) x by simp_all
          note c3 = at_need_leads [OF c2 1(1)] and r3 = rho_later [OF r2 1(1)]
          have ol: "yields (\<lambda>lo' k. handler_at (lo_arena lo') k) lo3 (make_s (OnFail (Some nt) (Some nl) False) lo3)"
            by (rule make_on_fail) (use h leads_good [OF 1(1)] in simp_all)
          show ?case
            unfolding x split_conv
          proof (rule yields_bind [OF ol], goal_cases)
            case (1 link lo4)
            have r4: "rho_ok (lo_arena lo4) (InAlt link r)" using rho_later [OF r3 1(1)] 1(2) by simp
            show ?case
              unfolding split_conv
              by (rule yields_bind [OF build_arm_yields [OF b leads_good [OF 1(1)] at_need_leads [OF c3 1(1)] r4]],
                  simp only: split_conv, rule make_choice)
                (use 1(2) in \<open>auto dest: leads_good intro: later\<close>)
          qed
        qed
      qed
    qed
  qed
qed

lemma case_entries_targets: "case_entries ci k v = Some es \<Longrightarrow> list_all (\<lambda>c. sc_target c = k) es"
  by (auto simp: case_entries_def list_all_iff split: if_splits case_value.splits)

lemma switch_cases_yields:
  assumes "\<And>c. c \<in> set cs \<Longrightarrow> sound_on cc (c_target c)" and "good lo" and "target lo next" and "rho_ok (lo_arena lo) r"
  shows "yields (\<lambda>lo' es. list_all (\<lambda>c. target lo' (sc_target c)) es) lo (compile_switch_cases cc r next ci cs lo)"
  using assms
proof (induction cs arbitrary: ci lo)
  case (Cons c cs)
  have s: "sound_on cc (c_target c)" using Cons.prems(1) by simp
  show ?case
    unfolding compile_switch_cases.simps
  proof (rule yields_bind [OF sound_onD [OF s Cons.prems(2-4)]], goal_cases)
    case (1 k lo1)
    have ih: "yields (\<lambda>lo' es. list_all (\<lambda>c. target lo' (sc_target c)) es) lo1 (compile_switch_cases cc r next (ci + 1) cs lo1)"
      by (rule Cons.IH)
        (use Cons.prems(1) leads_good [OF 1(1)] at_need_leads [OF Cons.prems(3) 1(1)] rho_later [OF Cons.prems(4) 1(1)] in auto)
    show ?case
    proof (cases "case_entries ci k (c_value c)")
      case (Some es)
      have t: "list_all (\<lambda>c. target lo2 (sc_target c)) es" if "leads lo1 lo2" for lo2
        using case_entries_targets [OF Some] at_need_leads [OF 1(2) that] by (auto simp: list_all_iff)
      show ?thesis
        unfolding Some split_conv bind.simps
        by (rule yields_bind [OF ih]) (use t in \<open>auto dest: leads_good\<close>)
    qed simp
  qed
qed simp

lemma switch_default_yields:
  assumes "\<And>t iv. d = Some (SwitchDefault (Some t) iv False) \<Longrightarrow> sound_on cc t" and "good lo" and "target lo next"
    and "rho_ok (lo_arena lo) r"
  shows "yields (\<lambda>lo' x. opt_at (target lo') x) lo (compile_switch_default cc d r next lo)"
proof (cases "\<exists>t iv. d = Some (SwitchDefault (Some t) iv False)")
  case True
  then obtain t iv where d: "d = Some (SwitchDefault (Some t) iv False)" by blast
  show ?thesis
    unfolding d compile_switch_default_def
    by (simp, rule yields_bind [OF sound_onD [OF assms(1) [OF d] assms(2-4)]]) (auto dest: leads_good)
next
  case False
  then show ?thesis using assms(2)
    by (auto simp: compile_switch_default_def split: option.split switch_default.split bool.split)
qed

lemma make_switch:
  assumes "good lo" and "expression lo e" and "list_all (\<lambda>c. target lo (sc_target c)) cs" and "opt_at (target lo) d"
  shows "yields target lo (make_s (SwitchDispatch e cs d reject) lo)"
  by (rule yields_weaken [OF make_s_target])
    (use assms in \<open>auto simp: carries_def cases_ok_def list_all_iff intro: edge_grows opt_edge\<close>)

subsection \<open>The recursion\<close>

lemma part_size:
  "spec = SepTerm (TypeSep t) trm \<Longrightarrow> size t < size (Array e spec cn iv eiv res)"
  "d = Some (SwitchDefault (Some t) iv' False) \<Longrightarrow> size t < size (Switch disc cs d)"
  by simp_all

lemma compile_type_sound: "bits_in t \<Longrightarrow> sound_on compile_type_expr t"
proof (induction t rule: measure_induct_rule [of size])
  case (less t)
  show ?case
    unfolding sound_on_def
  proof (intro allI impI)
    fix r nx lo
    assume g: "good lo" and n: "target lo nx" and rr: "rho_ok (lo_arena lo) r"
    show "yields target lo (compile_type_expr t r nx lo)"
    proof (cases t)
      case (Struct fs cn)
      have fs: "sound_on compile_type_expr (f_body f)" if "f \<in> set fs" for f
        using less.prems that size_lists(1) [OF that] by (intro less.IH) (auto simp: Struct list_all_iff)
      show ?thesis
        unfolding Struct compile_type_expr.simps
        by (rule yields_bind [OF make_target(1) [OF g n]], simp only: split_conv, rule yields_bind [OF eval_where_yields],
            erule leads_good, assumption, erule rho_later [OF rr], simp only: split_conv,
            rule yields_bind [OF compile_fields_yields [OF fs]], assumption, erule leads_good, assumption,
            blast intro: rho_later rr, simp only: split_conv, rule make_target) (auto dest: leads_good)
    next
      case (RuleRef nm cn iv)
      show ?thesis
        unfolding RuleRef compile_type_expr.simps
        by (rule yields_bind [OF make_target(1) [OF g n]], simp only: split_conv, rule yields_bind [OF make_invoke_yields],
            erule leads_good, assumption, rule backtrack_target, erule rho_later [OF rr], simp only: split_conv,
            rule make_target) (auto dest: leads_good)
    next
      case (Compute e kind)
      show ?thesis
        unfolding Compute compile_type_expr.simps
        by (rule yields_bind [OF compile_expr_yields(1) [OF g]], simp only: split_conv, rule yields_bind [OF field_dest_yields],
            erule leads_good, erule at_need_leads [OF n], simp only: split_conv, rule make_with_expr)
          (auto dest: leads_good intro: later)
    next
      case (Extern func w lang cn iv)
      show ?thesis
        unfolding Extern compile_type_expr.simps
        by (rule yields_bind [OF field_dest_yields [OF g n]], simp only: split_conv, rule make_target) (auto dest: leads_good)
    next
      case (EndianSwitch e)
      show ?thesis
        unfolding EndianSwitch compile_type_expr.simps
        by (rule yields_bind [OF compile_expr_yields(1) [OF g]], simp only: split_conv, rule make_with_expr)
          (auto dest: leads_good intro: at_need_leads [OF n])
    next
      case (Bitfield kind es)
      then have b: "bits_fit kind es" using less.prems by simp
      show ?thesis
        unfolding Bitfield compile_type_expr.simps
        by (rule yields_bind [OF make_target(1) [OF g n]], simp only: split_conv,
            rule yields_bind [OF compile_bitfield_yields [OF _ _ _ b]], erule leads_good, assumption, erule rho_later [OF rr],
            simp only: split_conv, rule make_target) (auto dest: leads_good)
    next
      case (Switch disc cs d)
      have cs: "sound_on compile_type_expr (c_target c)" if "c \<in> set cs" for c
        using less.prems that size_lists(3) [OF that] by (intro less.IH) (auto simp: Switch list_all_iff)
      have d: "sound_on compile_type_expr t'" if "d = Some (SwitchDefault (Some t') iv False)" for t' iv
        using less.prems part_size(2) [OF that] that by (intro less.IH) (auto simp: Switch)
      show ?thesis
        unfolding Switch compile_type_expr.simps
      proof (rule yields_bind [OF switch_cases_yields [OF cs g n rr]], assumption, goal_cases)
        case (1 es lo1)
        note es1 = 1(2) and n1 = at_need_leads [OF n 1(1)] and r1 = rho_later [OF rr 1(1)]
        show ?case
          unfolding split_conv
        proof (rule yields_bind [OF compile_expr_yields(1) [OF leads_good [OF 1(1)]]], goal_cases)
          case (1 e lo2)
          note e2 = 1(2) and n2 = at_need_leads [OF n1 1(1)] and r2 = rho_later [OF r1 1(1)] and l2 = 1(1)
          show ?case
            unfolding split_conv
          proof (rule yields_bind [OF switch_default_yields [OF d leads_good [OF 1(1)] n2 r2]], assumption, goal_cases)
            case (1 dt lo3)
            have "list_all (\<lambda>c. target lo3 (sc_target c)) es"
              using es1 at_need_leads [OF _ leads_trans [OF l2 1(1)]] by (auto simp: list_all_iff)
            then show ?case
              unfolding split_conv
              using leads_good [OF 1(1)] expression_leads [OF e2 1(1)] 1(2) by (intro make_switch)
          qed
        qed
      qed
    next
      case (Alternatives alts)
      have "sound_on compile_type_expr t'" if "(nm, t') \<in> set (alt_arms alts)" for nm t'
        using less.prems that arms_smaller(1) [OF that]
        by (intro less.IH) (auto simp: Alternatives list_all_iff alt_arms_def dest: set_zip_rightD)
      then show ?thesis unfolding Alternatives compile_type_expr.simps using g n rr by (rule compile_choice_yields)
    next
      case (Union vs)
      have "sound_on compile_type_expr t'" if "(nm, t') \<in> set (union_arms vs)" for nm t'
        using less.prems that arms_smaller(2) [OF that]
        by (intro less.IH) (auto simp: Union list_all_iff union_arms_def)
      then show ?thesis unfolding Union compile_type_expr.simps using g n rr by (rule compile_choice_yields)
    next
      case (Array e spec cn iv eiv res)
      have e: "sound_on compile_type_expr e" using less.prems by (intro less.IH) (auto simp: Array)
      have s: "sound_on compile_type_expr t'" if "spec = SepTerm (TypeSep t') trm" for t' trm
        using less.prems part_size(1) [OF that] that by (intro less.IH) (auto simp: Array)
      show ?thesis
        unfolding Array compile_type_expr.simps
        by (rule yields_bind [OF eval_where_yields [OF g n rr]], simp only: split_conv, rule compile_array_yields [OF e s])
          (auto dest: leads_good intro: rho_later rr)
    next
      case (Optional e cn iv)
      have "sound_on compile_type_expr e" using less.prems by (intro less.IH) (auto simp: Optional)
      then show ?thesis unfolding Optional compile_type_expr.simps using g n rr by (rule compile_optional_yields)
    qed (use g n rr in \<open>simp add: compile_primitive_yields\<close>)
  qed
qed

section \<open>Rules and grammars\<close>

lemma compile_body_yields:
  assumes "bits_in t" and "good lo" and "target lo leave"
  shows "yields target lo (compile_body t leave lo)"
proof (cases t)
  case (Struct fs cn)
  have fs: "sound_on compile_type_expr (f_body f)" if "f \<in> set fs" for f
    using assms(1) that by (intro compile_type_sound) (auto simp: Struct list_all_iff)
  show ?thesis
    unfolding Struct compile_body.simps
    by (rule yields_bind [OF eval_where_yields [OF assms(2,3)]], simp, simp only: split_conv,
        rule compile_fields_yields [OF fs]) (auto dest: leads_good)
next
  case (Bitfield kind es)
  then show ?thesis using assms compile_bitfield_yields by simp
qed (use sound_onD [OF compile_type_sound [OF assms(1)] assms(2,3), of Root] in \<open>simp_all del: compile_type_expr.simps\<close>)

definition start_lower :: lower where
  "start_lower = \<lparr>lo_arena = [], lo_patches = []\<rparr>"

lemma halt_yields:
  assumes "good lo \<or> lo = start_lower"
  shows "yields target lo (make_s Halt lo)"
proof (cases "good lo")
  case True
  then show ?thesis by (intro yields_weaken [OF make_s_target]) (auto simp: carries_def)
next
  case False
  then have "lo = start_lower" using assms by blast
  then show ?thesis
    by (auto simp: make_s_def alloc_def start_lower_def leads_def good_def arena_sound_def node_good_def trees_def
        at_need_def grows_to_def need.simps)
qed

lemma compile_rule_yields:
  assumes "bits_in (r_body rl)" and "good lo \<or> lo = start_lower"
  shows "yields target lo (compile_rule rl lo)"
  unfolding compile_rule_def
  by (rule yields_bind [OF halt_yields [OF assms(2)]], simp only: split_conv, rule yields_bind [OF make_target(5)],
      erule leads_good, assumption, simp only: split_conv, rule compile_body_yields [OF assms(1)]) (auto dest: leads_good)

lemma compile_rules_yields:
  assumes "\<And>rl. rl \<in> set rls \<Longrightarrow> bits_in (r_body rl)" and "good lo \<or> lo = start_lower \<and> rls \<noteq> []"
  shows "yields (\<lambda>lo' es. list_all (\<lambda>(n, k). target lo' k) es \<and> map fst es = map r_name rls) lo (compile_rules rls lo)"
  using assms
proof (induction rls arbitrary: lo)
  case (Cons rl rls)
  have b: "bits_in (r_body rl)" and g: "good lo \<or> lo = start_lower" using Cons.prems by auto
  show ?case
    unfolding compile_rules.simps
  proof (rule yields_bind [OF compile_rule_yields [OF b g]], goal_cases)
    case (1 head lo1)
    have ih: "yields (\<lambda>lo' es. list_all (\<lambda>(n, k). target lo' k) es \<and> map fst es = map r_name rls) lo1 (compile_rules rls lo1)"
      using Cons.IH Cons.prems(1) leads_good [OF 1(1)] by simp
    show ?case
      unfolding split_conv
      by (rule yields_bind [OF ih]) (use 1(2) in \<open>auto intro: later dest: leads_good\<close>)
  qed
qed simp

text \<open>Linking.\<close>

lemma link_rules_leads:
  assumes "link_rules entries ps a = Some a'" and "good \<lparr>lo_arena = a, lo_patches = ps\<rparr>"
    and "list_all (\<lambda>(n, k). at_need a 0 k) entries"
  shows "leads \<lparr>lo_arena = a, lo_patches = ps\<rparr> \<lparr>lo_arena = a', lo_patches = []\<rparr>"
  using assms
proof (induction ps arbitrary: a)
  case Nil
  then show ?case by simp
next
  case (Cons p ps)
  obtain k name where p: "p = (k, name)" by fastforce
  obtain entry where e: "map_of (rev entries) name = Some entry"
    using Cons.prems(1) p by (auto split: option.splits)
  let ?a1 = "a[k := link_entry entry (a ! k)]"
  let ?lo = "\<lparr>lo_arena = a, lo_patches = p # ps\<rparr>"
  obtain e0 f n where k: "k < length a" "a ! k = S (InvokeRule e0 f n)"
    using Cons.prems(2) p by (auto simp: good_def)
  have t: "at_need a 0 entry" using Cons.prems(3) map_of_SomeD [OF e] by (auto simp: list_all_iff)
  have old: "node_good a' k (a ! k)" if "grows_to a a'" for a'
    using Cons.prems(2) k(1) that by (auto simp: good_def arena_sound_def)
  have l: "leads ?lo (patch k (link_entry entry (a ! k)) ?lo)"
  proof (rule patch_leads [OF Cons.prems(2)])
    show "node_good a' k (link_entry entry (a ! k))" if "grows_to (lo_arena ?lo) a'" for a'
      using old [of a'] that t by (auto simp: k(2) node_good_def intro: edge_grows)
  qed (use k in \<open>auto simp: linked_later_def\<close>)
  then have g1: "good \<lparr>lo_arena = ?a1, lo_patches = ps\<rparr>" and gr: "grows_to a ?a1"
    by (auto simp: leads_def patch_def good_def)
  have "leads \<lparr>lo_arena = ?a1, lo_patches = ps\<rparr> \<lparr>lo_arena = a', lo_patches = []\<rparr>"
    using Cons.prems(1,3) e p g1 at_need_grows [OF _ gr] by (intro Cons.IH) (auto simp: list_all_iff)
  then show ?case using gr arena_grows_trans by (auto simp: leads_def)
qed

lemma good_graph: "good lo \<Longrightarrow> graph_ok (graph_of (lo_arena lo)) (need (lo_arena lo))"
  by (rule graph_of_ok) (auto simp: good_def arena_sound_def node_good_def list_all_iff)

text \<open>The graph of a grammar is well formed, and its rules can be entered.\<close>

lemma compile_grammar_sound:
  assumes "compile_grammar g = Some c" and "\<And>rl. rl \<in> set (g_rules g) \<Longrightarrow> bits_in (r_body rl)"
  shows "graph_ok (graph_of (cg_arena c)) (need (cg_arena c))"
    and "(name, k) \<in> set (cg_rules c) \<Longrightarrow> target_ok (graph_of (cg_arena c)) (need (cg_arena c)) k"
    and "map fst (cg_rules c) = map r_name (g_rules g)"
proof -
  obtain entries lo arena where r: "compile_rules (g_rules g) start_lower = Some (entries, lo)"
    and l: "link_rules entries (lo_patches lo) (lo_arena lo) = Some arena"
    and c: "c = \<lparr>cg_arena = arena, cg_rules = entries, cg_little_endian = default_endian (g_directives g)\<rparr>"
    using assms(1) by (auto simp: compile_grammar_def start_lower_def bind_eq_Some_conv split: prod.splits)
  show "graph_ok (graph_of (cg_arena c)) (need (cg_arena c))"
    and "(name, k) \<in> set (cg_rules c) \<Longrightarrow> target_ok (graph_of (cg_arena c)) (need (cg_arena c)) k"
    and "map fst (cg_rules c) = map r_name (g_rules g)"
  proof -
    have *: "graph_ok (graph_of arena) (need arena) \<and> list_all (\<lambda>(n, k). at_need arena 0 k) entries \<and>
        map fst entries = map r_name (g_rules g)" if ne: "g_rules g \<noteq> []"
    proof -
      have y: "leads start_lower lo" "list_all (\<lambda>(n, k). target lo k) entries" "map fst entries = map r_name (g_rules g)"
        using yieldsD [OF compile_rules_yields r] assms(2) ne by blast+
      have "good \<lparr>lo_arena = lo_arena lo, lo_patches = lo_patches lo\<rparr>"
        using leads_good [OF y(1)] by (cases lo) simp
      from link_rules_leads [OF l this y(2)] have "good \<lparr>lo_arena = arena, lo_patches = []\<rparr>" "grows_to (lo_arena lo) arena"
        by (auto simp: leads_def)
      then show ?thesis using y(2,3) good_graph [of "\<lparr>lo_arena = arena, lo_patches = []\<rparr>"] at_need_grows
        by (auto simp: list_all_iff)
    qed
    have "g_rules g = [] \<Longrightarrow> entries = [] \<and> arena = []" using r l by (auto simp: start_lower_def)
    moreover have "graph_ok (graph_of []) (need [])" by (simp add: graph_ok_def graph_of_def)
    ultimately show "graph_ok (graph_of (cg_arena c)) (need (cg_arena c))"
      "(name, k) \<in> set (cg_rules c) \<Longrightarrow> target_ok (graph_of (cg_arena c)) (need (cg_arena c)) k"
      "map fst (cg_rules c) = map r_name (g_rules g)"
      using * by (cases "g_rules g = []"; force simp: c list_all_iff)+
  qed
qed

end
