(* ===== verification/LowerTotal.thy ===== *)
theory LowerTotal
  imports LowerSafe SemaSort
begin

text \<open>
  A grammar the semantic analysis accepts is lowered. The analysis (\<open>Sema.cpp\<close>) and the lowering
  (\<open>bbq_compile.h\<close>) are two recursions over the same tree: the first reports what the second would throw or
  abort on. What it does not look at is an assumption here: the operator \<open>abs\<close>, which no rule of the lowering
  covers, the conditions of bit-field members, widths that an \<open>int\<close> can not hold, and ranges of cases up to
  the end of \<open>int64_t\<close>. The last section composes this with the safety of the machine: from a grammar
  that passes the analysis to the parses by its rules.
\<close>

section \<open>Properties of all parts of a type\<close>

definition iv_all :: "(expr \<Rightarrow> bool) \<Rightarrow> interval \<Rightarrow> bool" where
  "iv_all P iv = (case iv of StartEnd a b \<Rightarrow> P a \<and> P b | Length n \<Rightarrow> P n)"

text \<open>What is lowered of a type: its expressions, the names it calls, its bit fields and its case values.\<close>

fun every :: "(expr \<Rightarrow> bool) \<Rightarrow> (string \<Rightarrow> bool) \<Rightarrow> (primitive_kind \<Rightarrow> bitfield_entry list \<Rightarrow> bool) \<Rightarrow> (case_value \<Rightarrow> bool) \<Rightarrow>
    type_expr \<Rightarrow> bool" where
  "every ex nm bf cv (Struct fs cn) =
     (list_all (\<lambda>f. every ex nm bf cv (f_body f) \<and> opt_at (iv_all ex) (f_interval f)) fs \<and> opt_at ex cn)"
| "every ex nm bf cv (Union vs) = list_all (\<lambda>v. every ex nm bf cv (v_body v)) vs"
| "every ex nm bf cv (Alternatives alts) = list_all (every ex nm bf cv) alts"
| "every ex nm bf cv (Array e spec cn iv eiv res) =
     (every ex nm bf cv e \<and> opt_at ex cn \<and> opt_at (iv_all ex) iv \<and> opt_at (iv_all ex) eiv \<and>
      (case spec of array_spec.FixedCount c \<Rightarrow> ex c
       | SepTerm sep trm \<Rightarrow> (case sep of TypeSep t \<Rightarrow> every ex nm bf cv t | NoneSep \<Rightarrow> True) \<and>
           (case trm of CountTerm c \<Rightarrow> ex c | UntilTerm c \<Rightarrow> ex c | _ \<Rightarrow> True)))"
| "every ex nm bf cv (Optional e cn iv) = (every ex nm bf cv e \<and> opt_at ex cn)"
| "every ex nm bf cv (Switch d cs dflt) =
     (ex d \<and> list_all (\<lambda>c. every ex nm bf cv (c_target c) \<and> cv (c_value c)) cs \<and>
      (case dflt of Some (SwitchDefault (Some t) iv False) \<Rightarrow> every ex nm bf cv t | _ \<Rightarrow> True))"
| "every ex nm bf cv (Compute e kind) = ex e"
| "every ex nm bf cv (Primitive kind cn iv) = (opt_at ex cn \<and> opt_at (iv_all ex) iv)"
| "every ex nm bf cv (RuleRef n cn iv) = (nm n \<and> opt_at (iv_all ex) iv)"
| "every ex nm bf cv (Extern func w l cn iv) = opt_at (iv_all ex) iv"
| "every ex nm bf cv (Bitfield kind es) = bf kind es"
| "every ex nm bf cv (EndianSwitch e) = ex e"

lemma opt_at_and: "opt_at P x \<Longrightarrow> opt_at Q x \<Longrightarrow> (\<And>y. P y \<Longrightarrow> Q y \<Longrightarrow> R y) \<Longrightarrow> opt_at R x"
  by (simp add: opt_at_def)

lemma iv_all_and: "iv_all P x \<Longrightarrow> iv_all Q x \<Longrightarrow> (\<And>y. P y \<Longrightarrow> Q y \<Longrightarrow> R y) \<Longrightarrow> iv_all R x"
  by (simp add: iv_all_def split: interval.splits)

lemma opt_iv_and:
  "opt_at (iv_all P) x \<Longrightarrow> opt_at (iv_all Q) x \<Longrightarrow> (\<And>y. P y \<Longrightarrow> Q y \<Longrightarrow> R y) \<Longrightarrow> opt_at (iv_all R) x"
  by (erule opt_at_and, assumption) (erule iv_all_and, assumption, blast)

lemma part_sizes:
  "f \<in> set fs \<Longrightarrow> size (f_body f) < size (Struct fs cn)"
  "v \<in> set vs \<Longrightarrow> size (v_body v) < size (Union vs)"
  "a \<in> set alts \<Longrightarrow> size a < size (Alternatives alts)"
  "c \<in> set cs \<Longrightarrow> size (c_target c) < size (Switch d cs dflt)"
  using size_lists(1) [of f fs] size_lists(2) [of v vs] size_lists(3) [of c cs]
  by (simp_all add: less_Suc_eq_le size_list_estimation' less_SucI trans_le_add1)

lemma every_and:
  assumes "every ex nm bf cv t" and "every ex' nm' bf' cv' t"
    and e: "\<And>e. ex e \<Longrightarrow> ex' e \<Longrightarrow> ex'' e" and n: "\<And>n. nm n \<Longrightarrow> nm' n \<Longrightarrow> nm'' n"
    and b: "\<And>k es. bf k es \<Longrightarrow> bf' k es \<Longrightarrow> bf'' k es" and c: "\<And>v. cv v \<Longrightarrow> cv' v \<Longrightarrow> cv'' v"
  shows "every ex'' nm'' bf'' cv'' t"
  using assms(1,2)
proof (induction t rule: measure_induct_rule [of size])
  case (less t)
  note ih = less.IH
  note oe = opt_at_and [of ex _ ex' ex'', OF _ _ e] and iv = opt_iv_and [of ex _ ex' ex'', OF _ _ e]
  show ?case
  proof (cases t)
    case (Struct fs cn)
    then have "every ex'' nm'' bf'' cv'' (f_body f)" if "f \<in> set fs" for f
      using that less.prems part_sizes(1) [OF that, of cn] by (intro ih) (auto simp: list_all_iff)
    then show ?thesis using Struct less.prems oe iv by (auto simp: list_all_iff)
  next
    case (Union vs)
    then show ?thesis using less.prems ih part_sizes(2) [of _ vs] by (auto simp: list_all_iff)
  next
    case (Alternatives alts)
    then show ?thesis using less.prems ih part_sizes(3) [of _ alts] by (auto simp: list_all_iff)
  next
    case (Array el spec cn iv' eiv res)
    then show ?thesis using less.prems ih oe iv e
      by (auto split: array_spec.splits separator.splits terminator.splits)
  next
    case (Switch d cs dflt)
    then have "every ex'' nm'' bf'' cv'' (c_target x)" if "x \<in> set cs" for x
      using that less.prems part_sizes(4) [OF that, of d dflt] by (intro ih) (auto simp: list_all_iff)
    then show ?thesis using Switch less.prems ih c e
      by (auto simp: list_all_iff split: option.splits switch_default.splits bool.splits)
  qed (use less.prems ih oe iv n b e in auto)
qed

lemma every_mono:
  "every ex nm bf cv t \<Longrightarrow> (\<And>e. ex e \<Longrightarrow> ex' e) \<Longrightarrow> (\<And>n. nm n \<Longrightarrow> nm' n) \<Longrightarrow>
   (\<And>k es. bf k es \<Longrightarrow> bf' k es) \<Longrightarrow> (\<And>v. cv v \<Longrightarrow> cv' v) \<Longrightarrow> every ex' nm' bf' cv' t"
  by (rule every_and)

lemma every_bits: "every ex nm bits_fit cv t \<Longrightarrow> bits_in t"
proof (induction t rule: measure_induct_rule [of size])
  case (less t)
  note ih = less.IH
  show ?case
  proof (cases t)
    case (Struct fs cn)
    then show ?thesis using less.prems ih part_sizes(1) [of _ fs cn] by (auto simp: list_all_iff)
  next
    case (Union vs)
    then show ?thesis using less.prems ih part_sizes(2) [of _ vs] by (auto simp: list_all_iff)
  next
    case (Alternatives alts)
    then show ?thesis using less.prems ih part_sizes(3) [of _ alts] by (auto simp: list_all_iff)
  next
    case (Array el spec cn iv' eiv res)
    then show ?thesis using less.prems ih
      by (auto split: array_spec.splits separator.splits terminator.splits)
  next
    case (Switch d cs dflt)
    then have "bits_in (c_target x)" if "x \<in> set cs" for x
      using that less.prems part_sizes(4) [OF that, of d dflt] by (intro ih) (auto simp: list_all_iff)
    then show ?thesis using Switch less.prems ih
      by (auto simp: list_all_iff split: option.splits switch_default.splits bool.splits)
  qed (use less.prems ih in auto)
qed

section \<open>The lowering ends\<close>

definition completes :: "string set \<Rightarrow> lower \<Rightarrow> ('a \<times> lower) option \<Rightarrow> bool" where
  "completes N lo r = (\<exists>x lo'. r = Some (x, lo') \<and> snd ` set (lo_patches lo') \<subseteq> snd ` set (lo_patches lo) \<union> N)"

lemma completes_bind:
  assumes "completes N lo r" and "\<And>x lo1. completes N lo1 (f (x, lo1))"
  shows "completes N lo (Option.bind r f)"
proof -
  obtain x lo1 where r: "r = Some (x, lo1)" "snd ` set (lo_patches lo1) \<subseteq> snd ` set (lo_patches lo) \<union> N"
    using assms(1) by (auto simp: completes_def)
  obtain y lo2 where "f (x, lo1) = Some (y, lo2)" "snd ` set (lo_patches lo2) \<subseteq> snd ` set (lo_patches lo1) \<union> N"
    using assms(2) [of lo1 x] by (auto simp: completes_def)
  then show ?thesis using r unfolding completes_def by (auto intro!: exI)
qed

lemma completes_Some [simp]: "completes N lo (Some (x, lo))"
  by (simp add: completes_def)

lemma completes_make [simp]: "completes N lo (make_s s lo)" "completes N lo (make_e e lo)"
  by (simp_all add: completes_def make_s_def make_e_def alloc_def)

lemma completes_from: "completes N lo r \<Longrightarrow> lo_patches lo = lo_patches lo1 \<Longrightarrow> completes N lo1 r"
  by (simp add: completes_def)

fun expr_lowers :: "expr \<Rightarrow> bool" and path_lowers :: "ref_path \<Rightarrow> bool" where
  "expr_lowers (Builtin n) = (n \<in> set known_builtins)"
| "expr_lowers (expr.Ref p) = path_lowers p"
| "expr_lowers (BinOp l op r) = (expr_lowers l \<and> expr_lowers r)"
| "expr_lowers (UnaryOp op e) = (op \<noteq> Abs \<and> expr_lowers e)"
| "expr_lowers (Ternary c t e) = (expr_lowers c \<and> expr_lowers t \<and> expr_lowers e)"
| "expr_lowers (Call f args) = list_all expr_lowers args"
| "expr_lowers e = True"
| "path_lowers (Simple n rp rpar rd) = True"
| "path_lowers (FieldAcc b f) = path_lowers b"
| "path_lowers (IndexAcc b i) = (path_lowers b \<and> expr_lowers i)"

lemma lower_unop_Some: "op \<noteq> Abs \<Longrightarrow> \<exists>u. lower_unop op = Some u"
  by (cases op) simp_all

lemma make_builtin_Some: "n \<in> set known_builtins \<Longrightarrow> \<exists>e. make_builtin n = Some e"
  by (auto simp: known_builtins_def make_builtin_def)

lemma call_args_complete:
  assumes "\<And>a lo. a \<in> set es \<Longrightarrow> completes N lo (compile_expr a lo)"
  shows "completes N lo (compile_call_args es lo)"
  using assms by (induction es arbitrary: lo) (auto intro!: completes_bind)

lemma compile_expr_completes:
  "\<And>lo. expr_lowers e \<Longrightarrow> completes N lo (compile_expr e lo)"
  "\<And>f lo. path_lowers p \<Longrightarrow> completes N lo (compile_ref_path p f lo)"
proof (induction e and p)
  case (Ref p)
  show ?case
  proof (cases p)
    case (FieldAcc b f)
    have "completes N lo (compile_ref_path (FieldAcc b f) [] lo)" using Ref FieldAcc by simp
    then show ?thesis unfolding FieldAcc compile_ref_eq by (rule completes_bind) simp
  next
    case (IndexAcc b i)
    have "completes N lo (compile_ref_path (IndexAcc b i) [] lo)" using Ref IndexAcc by simp
    then show ?thesis unfolding IndexAcc compile_ref_eq by (rule completes_bind) simp
  qed simp
next
  case (Builtin n)
  then show ?case using make_builtin_Some [of n] by auto
next
  case (UnaryOp op e)
  then show ?case using lower_unop_Some [of op] by (auto intro!: completes_bind)
next
  case (Call f args)
  then show ?case by (auto simp: list_all_iff intro!: completes_bind call_args_complete)
qed (auto simp: step_into_def intro!: completes_bind)

text \<open>A member's condition; the rest of a bit field always lowers.\<close>

definition members_lower :: "primitive_kind \<Rightarrow> bitfield_entry list \<Rightarrow> bool" where
  "members_lower kind es = list_all (\<lambda>e. opt_at expr_lowers (e_constraint e)) es"

lemma field_dest_completes [simp]: "completes N lo (field_dest nm k lo)"
  by (auto simp: field_dest_def intro!: completes_bind)

lemma eval_where_completes: "opt_at expr_lowers c \<Longrightarrow> completes N lo (eval_where c r next lo)"
  by (auto simp: eval_where_def intro!: completes_bind compile_expr_completes split: option.splits)

lemma interval_completes: "iv_all expr_lowers iv \<Longrightarrow> completes N lo (interval_entry iv body lo)"
  by (auto simp: interval_entry_def iv_all_def intro!: completes_bind compile_expr_completes split: interval.splits)

lemma primitive_completes:
  "opt_at expr_lowers c \<Longrightarrow> opt_at (iv_all expr_lowers) iv \<Longrightarrow> completes N lo (compile_primitive kind c iv r next lo)"
  by (auto simp: compile_primitive_def iv_all_def intro!: completes_bind eval_where_completes compile_expr_completes
      split: option.split interval.splits)

lemma entries_complete:
  "list_all (\<lambda>e. opt_at expr_lowers (e_constraint e)) es \<Longrightarrow> completes N lo (compile_entries c off es r k lo)"
  by (induction es arbitrary: off) (auto simp: Let_def intro!: completes_bind eval_where_completes)

lemma bitfield_completes: "members_lower kind es \<Longrightarrow> completes N lo (compile_bitfield c es r next lo)"
  by (auto simp: compile_bitfield_def members_lower_def intro!: completes_bind entries_complete)

lemma invoke_completes: "n \<in> N \<Longrightarrow> completes N lo (make_invoke_rule n f next lo)"
  by (auto simp: make_invoke_rule_def alloc_def completes_def)

definition ends_on :: "string set \<Rightarrow> compiler \<Rightarrow> type_expr \<Rightarrow> bool" where
  "ends_on N cc t = (\<forall>r next lo. completes N lo (cc t r next lo))"

lemma ends_onD: "ends_on N cc t \<Longrightarrow> completes N lo (cc t r next lo)"
  by (simp add: ends_on_def)

lemma field_completes:
  assumes "ends_on N cc (f_body f)" and "opt_at (iv_all expr_lowers) (field_window f)"
  shows "completes N lo (compile_field cc r f chain lo)"
  using assms by (auto simp: ends_on_def compile_field_def intro!: completes_bind interval_completes split: option.split)

lemma fields_complete:
  assumes "\<And>f. f \<in> set fs \<Longrightarrow> ends_on N cc (f_body f) \<and> opt_at (iv_all expr_lowers) (field_window f)"
  shows "completes N lo (compile_fields cc fs r tail lo)"
proof -
  have "completes N lo (compile_chain cc r fs k lo)" for k lo
    using assms by (induction fs arbitrary: lo) (auto intro!: completes_bind field_completes)
  then show ?thesis by (auto simp: compile_fields_def intro!: completes_bind)
qed

lemma optional_completes:
  "ends_on N cc e \<Longrightarrow> opt_at expr_lowers c \<Longrightarrow> completes N lo (compile_optional cc e c r next lo)"
  by (auto simp: ends_on_def compile_optional_def intro!: completes_bind compile_expr_completes split: option.split)

definition spec_lowers :: "type_expr array_spec \<Rightarrow> bool" where
  "spec_lowers spec = (case spec of array_spec.FixedCount c \<Rightarrow> expr_lowers c
     | SepTerm sep trm \<Rightarrow> (case trm of CountTerm c \<Rightarrow> expr_lowers c | UntilTerm c \<Rightarrow> expr_lowers c | _ \<Rightarrow> True))"

lemma exprs_complete: "spec_lowers spec \<Longrightarrow> completes N lo (array_exprs spec lo)"
  by (auto simp: array_exprs_def spec_lowers_def intro!: completes_bind compile_expr_completes
      split: array_spec.splits terminator.splits)

lemma array_completes:
  assumes "ends_on N cc e" and "\<And>t trm. spec = SepTerm (TypeSep t) trm \<Longrightarrow> ends_on N cc t" and "spec_lowers spec"
    and "opt_at (iv_all expr_lowers) eiv"
  shows "completes N lo (compile_array cc e spec eiv res r next lo)"
proof -
  have el: "completes N lo (compile_element cc e eiv r k lo)" for r k lo
    using assms(1,4) by (auto simp: ends_on_def compile_element_def intro!: completes_bind interval_completes split: option.split)
  have sp: "completes N lo (compile_separator cc spec r k lo)" for r k lo
    using assms(2) by (auto simp: ends_on_def compile_separator_def split: array_spec.split separator.split)
  have mk: "completes N lo (make_s s (patch k n lo))" for s k n lo
    by (rule completes_from [OF completes_make(1)]) (simp add: patch_def)
  have mk2: "completes N lo (make_s s (patch k n (patch k' n' lo)))" for s k n k' n' lo
    by (rule completes_from [OF completes_make(1)]) (simp add: patch_def)
  show ?thesis
    unfolding compile_array_def
    by (rule completes_bind [OF exprs_complete [OF assms(3)]])
      (auto simp: Let_def mk mk2 intro!: completes_bind el sp split: option.split)
qed

lemma arm_completes:
  assumes "ends_on N cc body" and "\<And>n c iv. body = RuleRef n c iv \<Longrightarrow> n \<in> N"
  shows "completes N lo (build_variant_arm cc name body tag r k lo)"
  using assms
  by (cases body) (auto simp: ends_on_def build_variant_arm_def intro!: completes_bind invoke_completes)

lemma choice_completes:
  assumes "\<And>n t. (n, t) \<in> set arms \<Longrightarrow> ends_on N cc t \<and> (\<forall>n c iv. t = RuleRef n c iv \<longrightarrow> n \<in> N)"
  shows "completes N lo (compile_choice cc arms r next lo)"
proof -
  have arm: "completes N lo (build_variant_arm cc n t tag r k lo)" if "(n, t) \<in> set arms" for n t tag r k lo
    using assms [OF that] by (intro arm_completes) auto
  have arms: "completes N lo (compile_arms cc r c x i as lo)" if "set as \<subseteq> set arms" "as \<noteq> []" for r c x i as lo
    using that
  proof (induction as arbitrary: i lo)
    case (Cons p as)
    obtain n t where p: "p = (n, t)" by fastforce
    have t: "completes N lo (build_variant_arm cc n t tag r k lo)" for tag r k lo using Cons.prems(1) p by (intro arm) simp
    show ?case
    proof (cases as)
      case Nil
      then show ?thesis using t by (auto simp: p intro!: completes_bind)
    next
      case (Cons a as')
      then have "completes N lo (compile_arms cc r c x (i + 1) (a # as') lo)" using \<open>\<And>i lo. set as \<subseteq> set arms \<Longrightarrow> as \<noteq> [] \<Longrightarrow> completes N lo (compile_arms cc r c x i as lo)\<close> \<open>set (p # as) \<subseteq> _\<close> by simp
      then show ?thesis using t by (auto simp: p \<open>as = a # as'\<close> intro!: completes_bind)
    qed
  qed simp
  consider "arms = []" | n t where "arms = [(n, t)]" | n t a as where "arms = (n, t) # a # as"
    by (cases arms; cases "tl arms") auto
  then show ?thesis
    by cases (auto simp: compile_choice_def intro!: completes_bind arm arms)
qed

lemma cases_complete:
  assumes "\<And>c. c \<in> set cs \<Longrightarrow> ends_on N cc (c_target c) \<and> range_ends (c_value c)"
  shows "completes N lo (compile_switch_cases cc r next ci cs lo)"
  using assms
proof (induction cs arbitrary: ci lo)
  case (Cons c cs)
  have "\<exists>es. case_entries ci k (c_value c) = Some es" for k using Cons.prems by (simp add: case_entries_def)
  then have e: "completes N lo1 (Option.bind (case_entries ci k (c_value c)) f)" if "\<And>es. completes N lo1 (f es)" for k lo1 f
    using that by (metis bind.simps(2))
  show ?case using Cons by (auto intro!: completes_bind e ends_onD)
qed simp

lemma default_completes:
  assumes "\<And>t iv. d = Some (SwitchDefault (Some t) iv False) \<Longrightarrow> ends_on N cc t"
  shows "completes N lo (compile_switch_default cc d r next lo)"
  using assms by (auto simp: ends_on_def compile_switch_default_def intro!: completes_bind
      split: option.splits switch_default.splits bool.splits)

text \<open>A type all of whose parts lower.\<close>

abbreviation lowers :: "string set \<Rightarrow> type_expr \<Rightarrow> bool" where
  "lowers N \<equiv> every expr_lowers (\<lambda>n. n \<in> N) members_lower range_ends"

lemma window_lowers: "lowers N (f_body f) \<Longrightarrow> opt_at (iv_all expr_lowers) (f_interval f) \<Longrightarrow>
   opt_at (iv_all expr_lowers) (field_window f)"
  by (cases "f_body f") (auto simp: field_window_def opt_at_def split: option.splits interval.splits if_splits)

lemma type_completes: "lowers N t \<Longrightarrow> ends_on N compile_type_expr t"
proof (induction t rule: measure_induct_rule [of size])
  case (less t)
  note ih = less.IH
  show ?case
    unfolding ends_on_def
  proof (intro allI)
    fix r nx lo
    show "completes N lo (compile_type_expr t r nx lo)"
    proof (cases t)
      case (Struct fs cn)
      have "ends_on N compile_type_expr (f_body f) \<and> opt_at (iv_all expr_lowers) (field_window f)" if "f \<in> set fs" for f
        using that less.prems ih [of "f_body f"] part_sizes(1) [OF that, of cn] window_lowers [of N f]
        by (auto simp: Struct list_all_iff)
      then show ?thesis using less.prems
        by (auto simp: Struct intro!: completes_bind eval_where_completes fields_complete)
    next
      case (Switch d cs dflt)
      have c: "ends_on N compile_type_expr (c_target c) \<and> range_ends (c_value c)" if "c \<in> set cs" for c
        using that less.prems ih [of "c_target c"] part_sizes(4) [OF that, of d dflt] by (auto simp: Switch list_all_iff)
      have dt: "ends_on N compile_type_expr t'" if "dflt = Some (SwitchDefault (Some t') iv False)" for t' iv
        using that less.prems ih [of t'] by (auto simp: Switch)
      show ?thesis using less.prems c dt
        by (auto simp: Switch intro!: completes_bind cases_complete default_completes compile_expr_completes)
    next
      case (Alternatives alts)
      have "ends_on N compile_type_expr t' \<and> (\<forall>n c iv. t' = RuleRef n c iv \<longrightarrow> n \<in> N)" if "(nm, t') \<in> set (alt_arms alts)" for nm t'
        using less.prems ih [of t'] set_zip_rightD [OF that [unfolded alt_arms_def]] part_sizes(3) [of t' alts]
        by (auto simp: Alternatives list_all_iff)
      then show ?thesis by (auto simp: Alternatives intro!: choice_completes)
    next
      case (Union vs)
      have "ends_on N compile_type_expr t' \<and> (\<forall>n c iv. t' = RuleRef n c iv \<longrightarrow> n \<in> N)" if arm: "(nm, t') \<in> set (union_arms vs)" for nm t'
      proof -
        obtain v where v: "v \<in> set vs" "t' = v_body v" using arm by (auto simp: union_arms_def)
        then have l: "lowers N t'" using less.prems by (auto simp: Union list_all_iff)
        then show ?thesis using ih [of t'] part_sizes(2) [OF v(1)] v(2) Union by auto
      qed
      then show ?thesis by (auto simp: Union intro!: choice_completes)
    next
      case (Array e spec cn iv eiv res)
      have e: "ends_on N compile_type_expr e" using less.prems by (intro ih) (auto simp: Array)
      have s: "ends_on N compile_type_expr t'" if "spec = SepTerm (TypeSep t') trm" for t' trm
        using less.prems that by (intro ih) (auto simp: Array)
      have "spec_lowers spec" using less.prems
        by (auto simp: Array spec_lowers_def split: array_spec.splits terminator.splits)
      then show ?thesis using less.prems e s
        by (auto simp: Array intro!: completes_bind eval_where_completes array_completes)
    next
      case (Optional e cn iv)
      have "ends_on N compile_type_expr e" using less.prems by (intro ih) (auto simp: Optional)
      then show ?thesis using less.prems by (auto simp: Optional intro!: optional_completes)
    qed (use less.prems in \<open>auto intro!: completes_bind primitive_completes bitfield_completes invoke_completes
        compile_expr_completes\<close>)
  qed
qed

lemma body_completes: "lowers N t \<Longrightarrow> completes N lo (compile_body t leave lo)"
proof (cases t)
  case (Struct fs cn)
  assume l: "lowers N t"
  have "ends_on N compile_type_expr (f_body f) \<and> opt_at (iv_all expr_lowers) (field_window f)" if "f \<in> set fs" for f
    using that l type_completes [of N "f_body f"] window_lowers [of N f] by (auto simp: Struct list_all_iff)
  then show ?thesis using l by (auto simp: Struct intro!: completes_bind eval_where_completes fields_complete)
qed (auto simp: intro!: bitfield_completes ends_onD [OF type_completes, where r = Root, simplified] simp del: compile_type_expr.simps)

lemma rules_complete:
  assumes "\<And>rl. rl \<in> set rls \<Longrightarrow> lowers N (r_body rl)"
  shows "completes N lo (compile_rules rls lo)"
  using assms
proof (induction rls arbitrary: lo)
  case (Cons rl rls)
  have "completes N lo (compile_rule rl lo)" for lo
    using Cons.prems by (auto simp: compile_rule_def intro!: completes_bind body_completes)
  then show ?case using Cons by (auto intro!: completes_bind)
qed simp

lemma link_total: "snd ` set ps \<subseteq> fst ` set entries \<Longrightarrow> link_rules entries ps a \<noteq> None"
proof (induction ps arbitrary: a)
  case (Cons p ps)
  have "map_of (rev entries) (snd p) \<noteq> None" using Cons.prems by (auto simp: map_of_eq_None_iff)
  then show ?case using Cons by (cases p) auto
qed simp

lemma rule_names: "compile_rules rls lo = Some (es, lo') \<Longrightarrow> map fst es = map r_name rls"
  by (induction rls arbitrary: lo es lo') (auto simp: bind_eq_Some_conv)

lemma grammar_lowers:
  assumes "\<And>rl. rl \<in> set (g_rules g) \<Longrightarrow> lowers (r_name ` set (g_rules g)) (r_body rl)"
  shows "\<exists>c. compile_grammar g = Some c"
proof -
  let ?N = "r_name ` set (g_rules g)"
  obtain es lo where r: "compile_rules (g_rules g) \<lparr>lo_arena = [], lo_patches = []\<rparr> = Some (es, lo)"
    and p: "snd ` set (lo_patches lo) \<subseteq> ?N"
    using rules_complete [of "g_rules g" ?N "\<lparr>lo_arena = [], lo_patches = []\<rparr>"] assms by (auto simp: completes_def)
  have "fst ` set es = ?N" using rule_names [OF r] by (metis set_map)
  then have "link_rules es (lo_patches lo) (lo_arena lo) \<noteq> None" using p by (intro link_total) simp
  then show ?thesis using r by (auto simp: compile_grammar_def)
qed

section \<open>What the analysis has checked\<close>

fun no_abs :: "expr \<Rightarrow> bool" and path_no_abs :: "ref_path \<Rightarrow> bool" where
  "no_abs (UnaryOp op e) = (op \<noteq> Abs \<and> no_abs e)"
| "no_abs (expr.Ref p) = path_no_abs p"
| "no_abs (BinOp l op r) = (no_abs l \<and> no_abs r)"
| "no_abs (Ternary c t e) = (no_abs c \<and> no_abs t \<and> no_abs e)"
| "no_abs (Call f args) = list_all no_abs args"
| "no_abs e = True"
| "path_no_abs (Simple n rp rpar rd) = True"
| "path_no_abs (FieldAcc b f) = path_no_abs b"
| "path_no_abs (IndexAcc b i) = (path_no_abs b \<and> no_abs i)"

lemma valid_expr_lowers:
  "no_abs e \<Longrightarrow> \<not> has_errors (validate_expr bd ctx e) \<Longrightarrow> expr_lowers e"
  "path_no_abs p \<Longrightarrow> \<not> has_errors (validate_ref_path bd ctx p) \<Longrightarrow> path_lowers p"
  by (induction e and p) (auto simp: list_all_iff list_ex_iff split: if_splits)

definition checked :: "string list \<Rightarrow> string \<Rightarrow> string set \<Rightarrow> type_expr \<Rightarrow> bool" where
  "checked bd ctx N = every (\<lambda>e. \<not> has_errors (validate_expr bd ctx e)) (\<lambda>n. n \<in> N)
     (\<lambda>k es. \<not> has_errors (validate_bitfield k es)) (\<lambda>v. True)"

lemma fold_unfailed:
  assumes "\<And>x t. x \<in> set xs \<Longrightarrow> se_rules t = se_rules s \<Longrightarrow> extends t (f x t)" and "\<not> sema_failed (fold f xs s)"
    and "x \<in> set xs"
  shows "\<exists>t. extends s t \<and> \<not> sema_failed (f x t)"
  using assms
proof (induction xs arbitrary: s)
  case (Cons y ys)
  have y: "extends s (f y s)" using Cons.prems(1) by simp
  have e: "extends t (f z t)" if "z \<in> set ys" "se_rules t = se_rules (f y s)" for z t
    using Cons.prems(1) that extendsD(1) [OF y] by simp
  show ?case
  proof (cases "x = y")
    case True
    have "extends (f y s) (fold f ys (f y s))" using e by (rule fold_extends)
    then show ?thesis using True Cons.prems(2) extendsD(3) extends_refl by fastforce
  next
    case False
    then obtain t where "extends (f y s) t" "\<not> sema_failed (f x t)" using Cons.IH [of "f y s"] e Cons.prems(2,3) by auto
    then show ?thesis using extends_trans [OF y] by blast
  qed
qed simp

lemma opt_valid:
  "\<not> has_errors (opt_expr bd ctx c) = opt_at (\<lambda>e. \<not> has_errors (validate_expr bd ctx e)) c"
  "\<not> has_errors (opt_interval bd ctx iv) = opt_at (iv_all (\<lambda>e. \<not> has_errors (validate_expr bd ctx e))) iv"
  by (auto simp: opt_expr_def opt_interval_def opt_at_def iv_all_def split: option.splits interval.splits)

lemma deep_fails: "nested_told s \<Longrightarrow> sema_failed (too_deep ctx s)"
  by (auto simp: nested_told_def too_deep_def)

text \<open>Where nothing is reported the expressions, names and bit fields are in order.\<close>

lemma validate_type_checked:
  "ctx \<in> fst ` set (se_rules s) \<Longrightarrow> nested_told s \<Longrightarrow> \<not> sema_failed (validate_type t ctx guarded depth s) \<Longrightarrow>
   checked (se_bound s) ctx (fst ` set (se_rules s)) t"
proof (induction t arbitrary: s guarded depth rule: measure_induct_rule [of size])
  case (less t)
  let ?N = "fst ` set (se_rules s)"
  let ?ok = "\<lambda>e. \<not> has_errors (validate_expr (se_bound s) ctx e)"
  have d: "\<not> kMaxNesting < depth"
    using less.prems(2,3) deep_fails [of s ctx] by (cases t) auto
  have ih: "checked (se_bound s) ctx ?N u"
    if "size u < size t" "extends s s1" "\<not> sema_failed (validate_type u ctx gd dp s1)" for u s1 gd dp
    using less.IH [OF that(1), of s1 gd dp] less.prems(1,2) extendsD(1,2,5) [OF that(2)] that(3) by simp
  have ext: "extends s1 (validate_type u ctx gd dp s1)" if "se_rules s1 = se_rules s" for u gd dp s1
    using that less.prems(1) by (intro validate_type_extends) simp
  note prem = less.prems(3)
  show ?case
  proof (cases t)
    case (Struct fs cn)
    define step where "step = (\<lambda>f s. let s2 = validate_type (f_body f) ctx guarded (Suc depth) s
       in say (opt_expr (se_bound s2) ctx (f_constraint f) @ opt_interval (se_bound s2) ctx (f_interval f)) s2)"
    have st: "extends s1 (step f s1)" if "se_rules s1 = se_rules s" for f s1
      using ext [OF that] by (auto simp: step_def Let_def intro: extends_say_after)
    have "extends s (fold step fs s)" using st by (intro fold_extends)
    note bd = extendsD(2) [OF this]
    have "validate_type t ctx guarded depth s = say (opt_expr (se_bound (fold step fs s)) ctx cn) (fold step fs s)"
      unfolding Struct step_def using d by (simp only: validate_type.simps Let_def if_False)
    then have nf: "\<not> sema_failed (fold step fs s)" "\<not> has_errors (opt_expr (se_bound s) ctx cn)"
      using prem bd by simp_all
    have "checked (se_bound s) ctx ?N (f_body f) \<and> opt_at (iv_all ?ok) (f_interval f)" if f: "f \<in> set fs" for f
    proof -
      obtain s1 where s1: "extends s s1" "\<not> sema_failed (step f s1)" using fold_unfailed [OF st nf(1) f] by blast
      have e: "extends s1 (validate_type (f_body f) ctx guarded (Suc depth) s1)"
        by (rule ext) (use s1(1) extendsD(1) in blast)
      have "\<not> sema_failed (validate_type (f_body f) ctx guarded (Suc depth) s1)"
        "\<not> has_errors (opt_interval (se_bound s) ctx (f_interval f))"
        using s1 extendsD(2) [OF e] extendsD(2) [OF s1(1)] by (auto simp: step_def Let_def)
      then show ?thesis using ih [OF _ s1(1)] part_sizes(1) [OF f, of cn] Struct opt_valid by blast
    qed
    then show ?thesis using nf(2) opt_valid by (auto simp: Struct checked_def list_all_iff)
  next
    case (Union vs)
    define step where "step = (\<lambda>v s. let s2 = validate_type (v_body v) ctx guarded (Suc depth) s
       in say (opt_expr (se_bound s2) ctx (v_constraint v)) s2)"
    have st: "extends s1 (step v s1)" if "se_rules s1 = se_rules s" for v s1
      using ext [OF that] by (auto simp: step_def Let_def intro: extends_say_after)
    have "validate_type t ctx guarded depth s = fold step vs s"
      unfolding Union step_def using d by (simp only: validate_type.simps Let_def if_False)
    then have nf: "\<not> sema_failed (fold step vs s)" using prem by simp
    have "checked (se_bound s) ctx ?N (v_body v)" if v: "v \<in> set vs" for v
    proof -
      obtain s1 where s1: "extends s s1" "\<not> sema_failed (step v s1)" using fold_unfailed [OF st nf v] by blast
      then have "\<not> sema_failed (validate_type (v_body v) ctx guarded (Suc depth) s1)" by (auto simp: step_def Let_def)
      then show ?thesis using ih [OF _ s1(1)] part_sizes(2) [OF v] Union by blast
    qed
    then show ?thesis by (auto simp: Union checked_def list_all_iff)
  next
    case (Alternatives alts)
    have nf: "\<not> sema_failed (fold (\<lambda>a. validate_type a ctx guarded (Suc depth)) alts s)" using prem d by (simp add: Alternatives)
    have "checked (se_bound s) ctx ?N a" if a: "a \<in> set alts" for a
      using fold_unfailed [OF ext nf a] ih part_sizes(3) [OF a] Alternatives by blast
    then show ?thesis by (auto simp: Alternatives checked_def list_all_iff)
  next
    case (Array el spec cn iv eiv res)
    define s1 where "s1 = validate_type el ctx True (Suc depth) s"
    define s2 where "s2 = (case spec of SepTerm (TypeSep t) _ \<Rightarrow> validate_type t ctx guarded (Suc depth) s1 | _ \<Rightarrow> s1)"
    define s3 where "s3 = say ((if may_stand_still (se_rules s2) el spec then [Error NeedNotProgress] else []) @
      terminator_reports (se_bound s2) ctx spec res) s2"
    define s4 where "s4 = (case spec of SepTerm _ (TypeTerm t) \<Rightarrow> validate_type t ctx guarded (Suc depth) s3 | _ \<Rightarrow> s3)"
    have e1: "extends s s1" unfolding s1_def by (rule ext) simp
    have e2: "extends s1 s2" unfolding s2_def
      using ext [of s1] extendsD(1) [OF e1] by (auto split: array_spec.splits separator.splits)
    have e3: "extends s2 s3" unfolding s3_def by simp
    have r3: "se_rules s3 = se_rules s" using extendsD(1) e1 e2 e3 by metis
    have e4: "extends s3 s4" unfolding s4_def
      using ext [of s3] r3 by (auto split: array_spec.splits terminator.splits)
    have b: "se_bound s2 = se_bound s" "se_bound s4 = se_bound s" using extendsD(2) e1 e2 e3 e4 by metis+
    have "validate_type t ctx guarded depth s = say (opt_expr (se_bound s4) ctx cn @ opt_interval (se_bound s4) ctx iv @
        element_interval_reports (se_bound s4) ctx spec eiv) s4"
      unfolding Array s4_def s3_def s2_def s1_def using d by (simp only: validate_type.simps Let_def if_False)
    then have nf: "\<not> sema_failed s4" "\<not> has_errors (opt_expr (se_bound s) ctx cn)" "\<not> has_errors (opt_interval (se_bound s) ctx iv)"
      "\<not> has_errors (element_interval_reports (se_bound s) ctx spec eiv)" using prem b by simp_all
    have n3: "\<not> sema_failed s3" using extendsD(3) [OF e4 nf(1)] .
    then have n2: "\<not> sema_failed s2" "\<not> has_errors (terminator_reports (se_bound s) ctx spec res)"
      using b unfolding s3_def by simp_all
    have n1: "\<not> sema_failed s1" using extendsD(3) [OF e2 n2(1)] .
    have el: "checked (se_bound s) ctx ?N el" using ih [of el s True "Suc depth"] n1 by (simp add: Array s1_def)
    have sp: "checked (se_bound s) ctx ?N t'" if "spec = SepTerm (TypeSep t') trm" for t' trm
      using ih [of t' s1 guarded "Suc depth"] e1 n2(1) that by (simp add: Array s2_def)
    have "opt_at (iv_all ?ok) eiv" using nf(4) opt_valid(2) [of "se_bound s" ctx eiv]
      by (auto simp: element_interval_reports_def opt_interval_def split: option.splits)
    then show ?thesis using el sp nf(2,3) n2(2) opt_valid
      by (auto simp: Array checked_def terminator_reports_def split: array_spec.splits separator.splits terminator.splits)
  next
    case (Switch disc cs dflt)
    define s1 where "s1 = say (validate_expr (se_bound s) ctx disc) s"
    define s2 where "s2 = fold (\<lambda>c. validate_type (c_target c) ctx guarded (Suc depth)) cs s1"
    define s3 where
      "s3 = (case dflt of Some (SwitchDefault (Some t) _ _) \<Rightarrow> validate_type t ctx guarded (Suc depth) s2 | _ \<Rightarrow> s2)"
    have e1: "extends s s1" unfolding s1_def by simp
    have st: "extends s' (validate_type (c_target c) ctx guarded (Suc depth) s')" if "se_rules s' = se_rules s1" for c s'
      using that extendsD(1) [OF e1] by (intro ext) simp
    have e2: "extends s1 s2" unfolding s2_def using st by (rule fold_extends)
    have r2: "se_rules s2 = se_rules s" using extendsD(1) e1 e2 by metis
    have e3: "extends s2 s3" unfolding s3_def
      using ext [of s2] r2 by (auto split: option.splits switch_default.splits)
    have "validate_type t ctx guarded depth s = say (validate_switch ctx disc cs dflt) s3"
      unfolding Switch s3_def s2_def s1_def using d by (simp only: validate_type.simps Let_def if_False)
    then have n3: "\<not> sema_failed s3" using prem by simp
    have n2: "\<not> sema_failed s2" using extendsD(3) [OF e3 n3] .
    have n1: "\<not> sema_failed s1" using extendsD(3) [OF e2 n2] .
    have c: "checked (se_bound s) ctx ?N (c_target c)" if c: "c \<in> set cs" for c
    proof -
      obtain s' where s': "extends s1 s'" "\<not> sema_failed (validate_type (c_target c) ctx guarded (Suc depth) s')"
        using fold_unfailed [OF st n2 [unfolded s2_def] c] by blast
      show ?thesis using ih [OF _ extends_trans [OF e1 s'(1)] s'(2)] part_sizes(4) [OF c] Switch by blast
    qed
    have "checked (se_bound s) ctx ?N t'" if "dflt = Some (SwitchDefault (Some t') iv rej)" for t' iv rej
      using ih [of t' s2 guarded "Suc depth"] extends_trans [OF e1 e2] n3 that by (simp add: Switch s3_def)
    then show ?thesis using c n1
      by (auto simp: Switch checked_def s1_def list_all_iff split: option.splits switch_default.splits bool.splits)
  next
    case (Optional el cn iv)
    define s1 where "s1 = validate_type el ctx False (Suc depth) s"
    have e1: "extends s s1" unfolding s1_def by (rule ext) simp
    have nf: "\<not> sema_failed s1" "\<not> has_errors (opt_expr (se_bound s) ctx cn)"
      using prem d extendsD(2) [OF e1] by (simp_all add: Optional s1_def [symmetric] Let_def)
    then show ?thesis using ih [of el s False "Suc depth"] opt_valid by (simp add: Optional checked_def s1_def)
  next
    case (RuleRef n cn iv)
    have e1: "extends s (reference ctx guarded n s)" using less.prems(1) by (rule reference_extends)
    have nf: "\<not> sema_failed (reference ctx guarded n s)" "\<not> has_errors (opt_interval (se_bound s) ctx iv)"
      using prem d extendsD(2) [OF e1] by (simp_all add: RuleRef Let_def)
    then have "n \<in> ?N" by (auto simp: reference_def lookup_rule_def map_of_eq_None_iff split: if_splits)
    then show ?thesis using nf(2) opt_valid by (simp add: RuleRef checked_def)
  qed (use prem d opt_valid in \<open>auto simp: checked_def\<close>)
qed

lemma collect_rule_nested [simp]: "se_nested (collect_rule r s) = se_nested s"
  by (simp add: collect_rule_def Let_def)

lemma collected_nested: "\<not> se_nested (resolve_endian g (collect_rules g new_sema))"
proof -
  have a: "se_nested (fold collect_rule rs s) = se_nested s" for rs s by (induction rs arbitrary: s) simp_all
  have b: "se_nested (fold (\<lambda>e s. s\<lparr>se_endian := e\<rparr>) es s) = se_nested s" for es s by (induction es arbitrary: s) simp_all
  show ?thesis by (simp add: resolve_endian_def collect_rules_def a b new_sema_def)
qed

text \<open>Every rule of a grammar without errors has been checked.\<close>

lemma validated_checked:
  assumes "\<not> sema_failed (validated g)" and "rl \<in> set (g_rules g)"
  shows "\<exists>bd. checked bd (r_name rl) (r_name ` set (g_rules g)) (r_body rl)"
proof -
  let ?s = "resolve_endian g (collect_rules g new_sema)"
  have "fst ` set (se_rules (validated g)) = r_name ` set (g_rules g)" by (rule validated_wf(2))
  then have n: "fst ` set (se_rules ?s) = r_name ` set (g_rules g)"
    using extendsD(1) [OF validated_extends, of g] by simp
  have st: "extends t (validate_rule r t)" if "r \<in> set (g_rules g)" "se_rules t = se_rules ?s" for r t
    unfolding validate_rule_def using that n by (intro validate_type_extends) simp
  obtain t where t: "extends ?s t" "\<not> sema_failed (validate_rule rl t)"
    using fold_unfailed [OF st assms(1) [unfolded validated_def] assms(2)] by blast
  have "nested_told t" using extendsD(5) [OF t(1)] collected_nested by (simp add: nested_told_def)
  then show ?thesis
    using validate_type_checked [of "r_name rl" t "r_body rl" False 0] t(2) extendsD(1) [OF t(1)] n assms(2)
    by (auto simp: validate_rule_def)
qed

subsection \<open>Widths\<close>

definition total_width :: "bitfield_entry list \<Rightarrow> int" where
  "total_width es = sum_list (map (\<lambda>e. sint (e_width e)) es)"

text \<open>Members whose widths add up in an \<open>int\<close> and are not 63, with conditions that lower.\<close>

definition plain_members :: "primitive_kind \<Rightarrow> bitfield_entry list \<Rightarrow> bool" where
  "plain_members kind es = (total_width es < 2 ^ 31 \<and>
     list_all (\<lambda>e. e_width e \<noteq> 63 \<and> opt_at expr_lowers (e_constraint e)) es)"

lemma width_as_int: "(ucast (w :: i64) :: 32 word) = word_of_int (sint w)"
  by transfer (simp add: take_bit_signed_take_bit)

lemma check_entries_total:
  "check_entries es names acc = (rs, bits) \<Longrightarrow> \<not> has_errors rs \<Longrightarrow>
   bits = acc + word_of_int (total_width es) \<and> (\<forall>e \<in> set es. 0 < sint (e_width e))"
proof (induction es arbitrary: names acc rs bits)
  case (Cons e es)
  obtain rs1 bits1 where r: "check_entries es (set_insert (e_name e) names) (acc + ucast (e_width e)) = (rs1, bits1)"
    by fastforce
  have "\<not> has_errors rs1" "0 < sint (e_width e)" "bits = bits1" using Cons.prems r by (auto split: if_splits)
  then show ?case using Cons.IH [OF r] by (simp add: total_width_def width_as_int)
qed (simp add: total_width_def)

lemma total_bounds:
  assumes "\<forall>e \<in> set es. 0 < sint (e_width e)"
  shows "0 \<le> total_width es" "e \<in> set es \<Longrightarrow> sint (e_width e) \<le> total_width es"
proof -
  have "0 \<le> total_width es \<and> (\<forall>e \<in> set es. sint (e_width e) \<le> total_width es)"
    using assms by (induction es) (auto simp: total_width_def)
  then show "0 \<le> total_width es" "e \<in> set es \<Longrightarrow> sint (e_width e) \<le> total_width es" by auto
qed

lemma entries_fit_total:
  assumes "\<forall>e \<in> set es. 0 < sint (e_width e) \<and> sint (e_width e) < 2 ^ 31 \<and> e_width e \<noteq> 63"
    and "off + total_width es \<le> int (8 * byte_count c)"
  shows "entries_fit c off es"
  using assms
proof (induction es arbitrary: off)
  case (Cons e es)
  have w: "sint (ucast (e_width e) :: 32 word) = sint (e_width e)"
    using Cons.prems(1) unfolding width_as_int sint_sbintrunc' by (intro signed_take_bit_int_eq_self) auto
  have "sint (e_width e) \<noteq> 63"
  proof
    assume "sint (e_width e) = 63"
    then have "e_width e = 63" by (intro signed_word_eqI) simp
    then show False using Cons.prems(1) by simp
  qed
  moreover have "0 \<le> total_width es" using Cons.prems(1) by (intro total_bounds) simp
  ultimately show ?case using Cons.prems w Cons.IH [of "off + sint (e_width e)"] by (simp add: Let_def total_width_def)
qed simp

lemma valid_bits_fit:
  assumes "plain_members kind es" and "\<not> has_errors (validate_bitfield kind es)"
  shows "bits_fit kind es"
proof (cases kind)
  case (IntegerKind w sg en c)
  obtain rs bits where ch: "check_entries es [] 0 = (rs, bits)" by fastforce
  have e: "\<not> has_errors rs" "sint bits = width_bits w"
    using assms(2) ch by (auto simp: validate_bitfield_def IntegerKind split: if_splits)
  note t = check_entries_total [OF ch e(1)]
  have lt: "total_width es < 2 ^ 31" using assms(1) by (simp add: plain_members_def)
  have "sint bits = total_width es"
    using t lt total_bounds(1) [of es] unfolding sint_sbintrunc' by (simp add: signed_take_bit_int_eq_self sint_sbintrunc')
  then have tw: "total_width es = width_bits w" using e(2) by simp
  have b: "int (8 * byte_count (to_prim_info kind)) = width_bits w"
    by (cases w) (simp_all add: IntegerKind byte_count_def)
  have "es \<noteq> []" using tw by (cases w) (auto simp: total_width_def)
  moreover have "entries_fit (to_prim_info kind) 0 es"
  proof (rule entries_fit_total)
    show "\<forall>e \<in> set es. 0 < sint (e_width e) \<and> sint (e_width e) < 2 ^ 31 \<and> e_width e \<noteq> 63"
      using t total_bounds(2) [of es] lt assms(1) by (force simp: plain_members_def list_all_iff)
  qed (use tw b in simp)
  ultimately show ?thesis by (simp add: bits_fit_def IntegerKind)
qed (use assms(2) in \<open>auto simp: validate_bitfield_def\<close>)

section \<open>Accepted grammars\<close>

text \<open>What the analysis leaves to assume of a grammar.\<close>

definition plain_grammar :: "grammar \<Rightarrow> bool" where
  "plain_grammar g = list_all (\<lambda>rl. every no_abs (\<lambda>n. True) plain_members range_ends (r_body rl)) (g_rules g)"

lemma accepted_sound:
  assumes "\<not> sema_failed (validated g)" and "plain_grammar g"
  shows "\<exists>c. compile_grammar g = Some c" and "rl \<in> set (g_rules g) \<Longrightarrow> bits_in (r_body rl)"
proof -
  let ?N = "r_name ` set (g_rules g)"
  have both: "lowers ?N (r_body rl) \<and> bits_in (r_body rl)" if rl: "rl \<in> set (g_rules g)" for rl
  proof -
    obtain bd where c: "checked bd (r_name rl) ?N (r_body rl)" using validated_checked [OF assms(1) rl] by blast
    have p: "every no_abs (\<lambda>n. True) plain_members range_ends (r_body rl)"
      using assms(2) rl by (simp add: plain_grammar_def list_all_iff)
    have "lowers ?N (r_body rl)"
      by (rule every_and [OF p c [unfolded checked_def]])
        (auto intro: valid_expr_lowers simp: plain_members_def members_lower_def list_all_iff)
    moreover have "every (\<lambda>e. True) (\<lambda>n. True) bits_fit (\<lambda>v. True) (r_body rl)"
      by (rule every_and [OF p c [unfolded checked_def]]) (auto intro: valid_bits_fit)
    ultimately show ?thesis using every_bits by blast
  qed
  show "\<exists>c. compile_grammar g = Some c" by (rule grammar_lowers) (use both in blast)
  show "rl \<in> set (g_rules g) \<Longrightarrow> bits_in (r_body rl)" using both by blast
qed

section \<open>From an accepted grammar to a parse\<close>

text \<open>C6: A grammar the analysis accepts lowers, provided it is plain: every rule gets its entry, every reference
  is linked, and the graph is well formed, each kont followed by one of the kind it needs, each window, savepoint
  and array matched. Plain (\<open>plain_grammar\<close>) is what the lowering or the machine needs and the analysis does not
  check: no operator \<open>abs\<close> (it is accepted and then has no kont), no bit-field member of 63 bits and no bit field
  whose widths add up to \<open>2^31\<close> or more, conditions of bit-field members that lower (the analysis does not look
  at them), and no range of cases that ends at \<open>INT64_MAX\<close>, whose loop does not end.\<close>

theorem accepted_grammar_lowers:
  assumes "\<not> sema_failed (validated g)" and "plain_grammar g"
  shows "\<exists>c. compile_grammar g = Some c \<and> map fst (cg_rules c) = map r_name (g_rules g) \<and>
    graph_ok (graph_of (cg_arena c)) (need (cg_arena c)) \<and>
    list_all (\<lambda>(name, entry). target_ok (graph_of (cg_arena c)) (need (cg_arena c)) entry) (cg_rules c)"
proof -
  obtain c where c: "compile_grammar g = Some c" using accepted_sound(1) [OF assms] by blast
  show ?thesis using c compile_grammar_sound [OF c accepted_sound(2) [OF assms]] by (auto simp: list_all_iff)
qed

text \<open>A count, as many entries, and a value that cannot be computed when there is one entry.\<close>

definition small_grammar :: grammar where
  "small_grammar = \<lparr>g_directives = [], g_rules =
     [\<lparr>r_name = ''File'', r_body = Struct
        [Field ''n'' (Primitive (IntegerKind width.W8 signedness.Unsigned endianness.Default encoding.Fixed) None None) None None False,
         Field ''xs'' (type_expr.Array (RuleRef ''Entry'' None None) (array_spec.FixedCount (expr.Ref (Simple ''n'' None None 0))) None None None False)
           None None False,
         Field ''v'' (type_expr.Compute (expr.Ternary (BinOp (expr.Ref (Simple ''n'' None None 0)) ast_binop.Eq (expr.IntLit 1))
           (UnaryOp ast_unop.Neg (expr.IntLit 0x8000000000000000)) (expr.IntLit 7)) None) None None False] None\<rparr>,
      \<lparr>r_name = ''Entry'', r_body = Struct
        [Field ''key'' (Primitive (IntegerKind width.W8 signedness.Unsigned endianness.Default encoding.Fixed) None None) None None False,
         Field ''flags'' (type_expr.Bitfield (IntegerKind width.W8 signedness.Unsigned endianness.Default encoding.Fixed)
           [BitfieldEntry ''hi'' signedness.Unsigned 4 None, BitfieldEntry ''lo'' signedness.Unsigned 4 None]) None None False] None\<rparr>]\<rparr>"

lemma small_accepted: "\<not> sema_failed (validated small_grammar)" "plain_grammar small_grammar"
  subgoal by code_simp
  subgoal by (simp add: plain_grammar_def small_grammar_def plain_members_def total_width_def range_ends_def)
  done

definition small_byte :: prim_info where
  "small_byte = \<lparr>p_kind = KInteger, p_width = prim_width.W8, p_signed = False, p_endian = PNative, p_encoding = prim_encoding.Fixed\<rparr>"

definition small_compiled :: compiled where
  "small_compiled = \<lparr>cg_arena =
     [S Halt, S (ReturnRule 0), E (ekont.Ref ''n'' None), E (ekont.IntLit 1), E (BinK binop.Eq 2 3),
      E (ekont.IntLit 0x8000000000000000), E (UnK unop.Neg 5), E (ekont.IntLit 7), E (TernaryK 4 6 7), S (StoreEnv ''v'' 1),
      S (Capture (Some ''v'') 9), S (BindCompute 8 10), E (ekont.Ref ''n'' None), S (EndArray False 11),
      S (ArrayNext array_mode.FixedCount 12 0 13 17 False), S (EndStruct 14), S (InvokeRule 35 None 15),
      S (BeginStruct (Some []) 16), S (BeginArray (Some ''xs'') array_mode.FixedCount 12 0 13 None 17),
      S (StoreEnv ''n'' 18), S (Capture (Some ''n'') 19), S (MatchPrimitive small_byte 20),
      S Halt, S (ReturnRule 22), S (EndStruct 23), S (AdvancePos 1 24), S (StoreEnv ''lo'' 25),
      S (Capture (Some ''lo'') 26), S (ExtractBits small_byte 4 4 False 27), S (StoreEnv ''hi'' 28),
      S (Capture (Some ''hi'') 29), S (ExtractBits small_byte 0 4 False 30), S (BeginStruct (Some ''flags'') 31),
      S (StoreEnv ''key'' 32), S (Capture (Some ''key'') 33), S (MatchPrimitive small_byte 34)],
     cg_rules = [(''File'', 21), (''Entry'', 35)], cg_little_endian = True\<rparr>"

lemmas lower_defs = alloc_def make_e_def make_s_def field_dest_def eval_where_def make_invoke_rule_def compile_primitive_def
  compile_bitfield_def field_window_def compile_field_def compile_fields_def array_exprs_def patch_def compile_element_def
  compile_separator_def compile_array_def compile_rule_def default_endian_def compile_grammar_def

text \<open>The congruences that keep the simplifier from going through the rest of a lowering before its first part.\<close>

lemma bind_weak: "x = y \<Longrightarrow> Option.bind x f = Option.bind y f"
  by simp

lemma small_lowered: "compile_grammar small_grammar = Some small_compiled"
  by (simp add: small_grammar_def small_compiled_def small_byte_def byte_count_def lower_defs
      cong: bind_weak option.case_cong_weak if_weak_cong prod.case_cong_weak)

theorem accepted_grammar_lowers_witness:
  "graph_ok (graph_of (cg_arena small_compiled)) (need (cg_arena small_compiled)) \<and>
   map fst (cg_rules small_compiled) = [''File'', ''Entry'']"
  using accepted_grammar_lowers [OF small_accepted] small_lowered by (auto simp: small_grammar_def)

text \<open>C7: A parse of any input by a rule of an accepted and plain grammar (\<open>plain_grammar\<close>), with the
  standard functions or none and external parsers that consume no more than they are handed (\<open>deps_ok\<close>): it runs
  into undefined behaviour only by a fault of the values it meets (\<open>faulty\<close>: integer arithmetic that leaves the
  type, a shift count that is none, an external parser called past its window, an array counter at its end), in a
  state the invariant holds of; and every node of the document it returns lies in the input, as \<open>node_ok\<close> says.\<close>

theorem accepted_parse_safe:
  assumes "\<not> sema_failed (validated g)" and "plain_grammar g" and "compile_grammar g = Some c"
    and "(name, entry) \<in> set (cg_rules c)" and "d_prog d = graph_of (cg_arena c)" and "deps_ok d"
    and "unat len = length data" and "length data < 2 ^ 62"
  shows "case execute_from d fuel (Some entry) data len le fresh_machine of
      Got r \<Rightarrow> list_all (node_ok (length data)) (case pr_root r of Some n \<Rightarrow> [n] | None \<Rightarrow> [])
    | UB \<Rightarrow> \<exists>m. (cek_step d)\<^sup>*\<^sup>* (start_machine entry data len le fresh_machine) m \<and>
        machine_ok d (need (cg_arena c)) m \<and> turn d m = None \<and> faulty d m
    | Rej \<Rightarrow> True"
proof -
  note bits = accepted_sound(2) [OF assms(1,2)]
  have g: "graph_ok (d_prog d) (need (cg_arena c))"
    unfolding assms(5) by (rule compile_grammar_sound(1) [OF assms(3) bits])
  have t: "target_ok (d_prog d) (need (cg_arena c)) entry"
    unfolding assms(5) by (rule compile_grammar_sound(2) [OF assms(3) bits assms(4)])
  show ?thesis
    using parse_fault [OF g assms(6) t assms(7,8)] parse_document [OF g assms(6) t assms(7,8)]
    by (auto split: rr.splits option.splits)
qed

text \<open>On an input whose count is one, the parse of the small grammar meets the overflow; on a count of two it returns.\<close>

theorem accepted_parse_safe_witness:
  "(\<exists>m. (cek_step (deps_of (cg_arena small_compiled)))\<^sup>*\<^sup>* (start_machine 21 [1, 5, 6] 3 True fresh_machine) m \<and>
     turn (deps_of (cg_arena small_compiled)) m = None \<and> faulty (deps_of (cg_arena small_compiled)) m) \<and>
   (\<exists>r n. execute_from (deps_of (cg_arena small_compiled)) 90 (Some 21) [2, 5, 6, 7, 8] 5 True fresh_machine = Got r \<and>
     pr_root r = Some n \<and> node_ok 5 n)"
proof -
  let ?d = "deps_of (cg_arena small_compiled)"
  have f: "(''File'', 21) \<in> set (cg_rules small_compiled)" by (simp add: small_compiled_def)
  have p: "d_prog ?d = graph_of (cg_arena small_compiled)" by (simp add: deps_of_def)
  note use = accepted_parse_safe [OF small_accepted small_lowered f p deps_of_ok, where le = True and fuel = 90]
  have u: "execute_from ?d 90 (Some 21) [1, 5, 6] 3 True fresh_machine = UB" by code_simp
  have e: "(case execute_from ?d 90 (Some 21) [2, 5, 6, 7, 8] 5 True fresh_machine of
      Got r \<Rightarrow> pr_root r \<noteq> None | _ \<Rightarrow> False)" by code_simp
  obtain r n where d: "execute_from ?d 90 (Some 21) [2, 5, 6, 7, 8] 5 True fresh_machine = Got r" "pr_root r = Some n"
    using e by (auto split: rr.splits)
  have l: "length [2, 5, 6, 7, 8 :: u8] = 5" by simp
  have "node_ok 5 n" using use [of 5 "[2, 5, 6, 7, 8]", unfolded l d] d(2) by simp
  moreover have "\<exists>m. (cek_step ?d)\<^sup>*\<^sup>* (start_machine 21 [1, 5, 6] 3 True fresh_machine) m \<and>
      turn ?d m = None \<and> faulty ?d m"
    using use [of 3 "[1, 5, 6]"] u by auto
  ultimately show ?thesis using d by blast
qed

end
