(* ===== verification/CekEval.thy ===== *)
theory CekEval
  imports CekSafe
begin

text \<open>
  What an expression means, and that the machine computes it. The specification is an evaluator over
  expression trees, with the operators given by the types of their operands and over mathematical
  integers; the machine evaluates the same expression by konts, operand slots in the arena and pushes on
  the kont stack. The refinement is by rule induction over the relation between a node of the graph and
  the tree it stands for.
\<close>

section \<open>Expression trees\<close>

datatype ex = XLit val | XFloat u32 | XRef string | XPos | XRemaining | XEoi | XLoop | XBuffer | XStart | XEnd
  | XUn unop ex | XBin binop ex ex | XAnd ex ex | XOr ex ex | XCond ex ex ex | XCall string "ex list"
  | XPath string | XField ex string | XIndex ex ex | XValue ex

inductive denotes :: "(kid \<Rightarrow> kont) \<Rightarrow> kid \<Rightarrow> ex \<Rightarrow> bool" for g where
  "g k = E (IntLit v) \<Longrightarrow> denotes g k (XLit (IntV v))"
| "g k = E (BoolLit b) \<Longrightarrow> denotes g k (XLit (BoolV b))"
| "g k = E (FloatLit f) \<Longrightarrow> denotes g k (XFloat f)"
| "g k = E (StrLit s) \<Longrightarrow> denotes g k (XLit (StringV s))"
| "g k = E (Ref name r) \<Longrightarrow> denotes g k (XRef name)"
| "g k = E PosK \<Longrightarrow> denotes g k XPos"
| "g k = E RemainingK \<Longrightarrow> denotes g k XRemaining"
| "g k = E EOIK \<Longrightarrow> denotes g k XEoi"
| "g k = E LoopVarK \<Longrightarrow> denotes g k XLoop"
| "g k = E BufferK \<Longrightarrow> denotes g k XBuffer"
| "g k = E StartK \<Longrightarrow> denotes g k XStart"
| "g k = E EndK \<Longrightarrow> denotes g k XEnd"
| un: "g k = E (UnK op a) \<Longrightarrow> denotes g a x \<Longrightarrow> denotes g k (XUn op x)"
| bin: "g k = E (BinK op l r) \<Longrightarrow> denotes g l x \<Longrightarrow> denotes g r y \<Longrightarrow> denotes g k (XBin op x y)"
| conj: "g k = E (LAndK l r) \<Longrightarrow> denotes g l x \<Longrightarrow> denotes g r y \<Longrightarrow> denotes g k (XAnd x y)"
| disj: "g k = E (LOrK l r) \<Longrightarrow> denotes g l x \<Longrightarrow> denotes g r y \<Longrightarrow> denotes g k (XOr x y)"
| cond: "g k = E (TernaryK c t f) \<Longrightarrow> denotes g c x \<Longrightarrow> denotes g t y \<Longrightarrow> denotes g f z \<Longrightarrow>
     denotes g k (XCond x y z)"
| call: "g k = E (CallK func args) \<Longrightarrow> list_all2 (denotes g) args xs \<Longrightarrow> denotes g k (XCall func xs)"
| path: "g k = E (PathStart name) \<Longrightarrow> denotes g k (XPath name)"
| field: "g k = E (FieldAccess b name) \<Longrightarrow> denotes g b x \<Longrightarrow> denotes g k (XField x name)"
| index: "g k = E (IndexAccess b i) \<Longrightarrow> denotes g b x \<Longrightarrow> denotes g i y \<Longrightarrow> denotes g k (XIndex x y)"
| leaf: "g k = E (CaptureValue p) \<Longrightarrow> denotes g p x \<Longrightarrow> denotes g k (XValue x)"
monos list_all2_mono

section \<open>Meaning of the operators\<close>

text \<open>A value of the accumulator (which may be null), the message of a failure, or undefined.\<close>

datatype eres = Val "val option" | Err string | Undef

definition exact :: "int \<Rightarrow> eres" where
  "exact n = (if - (2 ^ 63) \<le> n \<and> n < 2 ^ 63 then Val (Some (IntV (word_of_int n))) else Undef)"

definition truth_value :: "bool \<Rightarrow> eres" where
  "truth_value b = Val (Some (BoolV b))"

fun op_str :: "binop \<Rightarrow> string" where
  "op_str Add = ''+''" | "op_str Sub = ''-''" | "op_str Mul = ''*''" | "op_str Div = ''/''" | "op_str Mod = ''%''"
| "op_str BitAnd = ''&''" | "op_str BitOr = ''|''" | "op_str BitXor = ''^''" | "op_str Shl = ''<<''"
| "op_str Shr = ''>>''" | "op_str Eq = ''==''" | "op_str Ne = ''!=''" | "op_str Lt = ''<''" | "op_str Le = ''<=''"
| "op_str Gt = ''>''" | "op_str Ge = ''>=''"

definition type_error :: "binop \<Rightarrow> eres" where
  "type_error op = Err (''type error: '' @ op_str op)"

fun int_sem :: "binop \<Rightarrow> int \<Rightarrow> int \<Rightarrow> eres" where
  "int_sem Add a b = exact (a + b)"
| "int_sem Sub a b = exact (a - b)"
| "int_sem Mul a b = exact (a * b)"
| "int_sem Div a b = (if b = 0 then Err ''division by zero'' else exact (a sdiv b))"
| "int_sem Mod a b = (if b = 0 then Err ''division by zero''
     else if exact (a sdiv b) = Undef then Undef else exact (a smod b))"
| "int_sem BitAnd a b = exact (a AND b)"
| "int_sem BitOr a b = exact (a OR b)"
| "int_sem BitXor a b = exact (a XOR b)"
| "int_sem Shl a b = (if 0 \<le> b \<and> b < 64 \<and> 0 \<le> a \<and> a * 2 ^ nat b < 2 ^ 64
     then Val (Some (IntV (word_of_int (a * 2 ^ nat b)))) else Undef)"
| "int_sem Shr a b = (if 0 \<le> b \<and> b < 64 then exact (a div 2 ^ nat b) else Undef)"
| "int_sem Eq a b = truth_value (a = b)"
| "int_sem Ne a b = truth_value (a \<noteq> b)"
| "int_sem Lt a b = truth_value (a < b)"
| "int_sem Le a b = truth_value (a \<le> b)"
| "int_sem Gt a b = truth_value (a > b)"
| "int_sem Ge a b = truth_value (a \<ge> b)"

fun float_sem :: "floats \<Rightarrow> binop \<Rightarrow> f64 \<Rightarrow> f64 \<Rightarrow> eres" where
  "float_sem fl Add x y = Val (Some (FloatV (f_add fl x y)))"
| "float_sem fl Sub x y = Val (Some (FloatV (f_sub fl x y)))"
| "float_sem fl Mul x y = Val (Some (FloatV (f_mul fl x y)))"
| "float_sem fl Div x y = Val (Some (FloatV (f_div fl x y)))"
| "float_sem fl Eq x y = truth_value (f_eq fl x y)"
| "float_sem fl Ne x y = truth_value (\<not> f_eq fl x y)"
| "float_sem fl Lt x y = truth_value (f_lt fl x y)"
| "float_sem fl Le x y = truth_value (f_le fl x y)"
| "float_sem fl Gt x y = truth_value (f_lt fl y x)"
| "float_sem fl Ge x y = truth_value (f_le fl y x)"
| "float_sem fl op x y = type_error op"

fun string_sem :: "binop \<Rightarrow> string \<Rightarrow> string \<Rightarrow> eres" where
  "string_sem Eq s t = truth_value (s = t)"
| "string_sem Ne s t = truth_value (s \<noteq> t)"
| "string_sem Lt s t = truth_value (strcmp s t < 0)"
| "string_sem Le s t = truth_value (strcmp s t \<le> 0)"
| "string_sem Gt s t = truth_value (strcmp s t > 0)"
| "string_sem Ge s t = truth_value (strcmp s t \<ge> 0)"
| "string_sem op s t = type_error op"

text \<open>Values that can only be told equal or not, and values of different kinds.\<close>

definition eq_sem :: "binop \<Rightarrow> bool \<Rightarrow> eres" where
  "eq_sem op same = (if op = Eq then truth_value same else if op = Ne then truth_value (\<not> same) else type_error op)"

definition bin_sem :: "floats \<Rightarrow> binop \<Rightarrow> val option \<Rightarrow> val option \<Rightarrow> eres" where
  "bin_sem fl op l r = (case (l, r) of
      (Some (IntV a), Some (IntV b)) \<Rightarrow> int_sem op (sint a) (sint b)
    | (Some (FloatV x), Some (FloatV y)) \<Rightarrow> float_sem fl op x y
    | (Some (IntV a), Some (FloatV y)) \<Rightarrow> float_sem fl op (f_of_int fl a) y
    | (Some (FloatV x), Some (IntV b)) \<Rightarrow> float_sem fl op x (f_of_int fl b)
    | (Some (StringV s), Some (StringV t)) \<Rightarrow> string_sem op s t
    | (Some (BoolV b), Some (BoolV c)) \<Rightarrow> eq_sem op (b = c)
    | (Some (CaptureV m), Some (CaptureV n)) \<Rightarrow> eq_sem op (nd_id (attr m) = nd_id (attr n))
    | (Some _, Some _) \<Rightarrow> eq_sem op False
    | _ \<Rightarrow> type_error op)"

definition un_sem :: "unop \<Rightarrow> val option \<Rightarrow> eres" where
  "un_sem op v = (case op of
      Neg \<Rightarrow> (case v of Some (IntV a) \<Rightarrow> exact (- sint a) | Some (FloatV x) \<Rightarrow> Val (Some (FloatV (f_neg x)))
        | _ \<Rightarrow> Err ''type error: unary -'')
    | BitNot \<Rightarrow> (case v of Some (IntV a) \<Rightarrow> exact (- sint a - 1) | _ \<Rightarrow> Err ''type error: ~'')
    | Not \<Rightarrow> (case coerce_to_bool v of Some b \<Rightarrow> truth_value (\<not> b) | None \<Rightarrow> Err ''type error: !''))"

fun builtin_sem :: "floats \<Rightarrow> machine \<Rightarrow> bfn \<Rightarrow> val option list \<Rightarrow> eres" where
  "builtin_sem fl c BAbs [v] = (case v of
      Some (IntV x) \<Rightarrow> exact \<bar>sint x\<bar> | Some (FloatV x) \<Rightarrow> Val (Some (FloatV (if f_lt fl x 0 then f_neg x else x)))
    | _ \<Rightarrow> Err ''abs: type mismatch'')"
| "builtin_sem fl c BMin [v, w] = (case (v, w) of
      (Some (IntV x), Some (IntV y)) \<Rightarrow> exact (min (sint x) (sint y))
    | (Some (FloatV x), Some (FloatV y)) \<Rightarrow> Val (Some (FloatV (if f_lt fl x y then x else y)))
    | _ \<Rightarrow> Err ''min/max: type mismatch'')"
| "builtin_sem fl c BMax [v, w] = (case (v, w) of
      (Some (IntV x), Some (IntV y)) \<Rightarrow> exact (max (sint x) (sint y))
    | (Some (FloatV x), Some (FloatV y)) \<Rightarrow> Val (Some (FloatV (if f_lt fl y x then x else y)))
    | _ \<Rightarrow> Err ''min/max: type mismatch'')"
| "builtin_sem fl c BClamp [v, lo, hi] = (case (v, lo, hi) of
      (Some (IntV x), Some (IntV a), Some (IntV b)) \<Rightarrow>
        exact (if sint x < sint a then sint a else min (sint x) (sint b))
    | (Some (FloatV x), Some (FloatV a), Some (FloatV b)) \<Rightarrow>
        Val (Some (FloatV (if f_lt fl x a then a else if f_lt fl b x then b else x)))
    | _ \<Rightarrow> Err ''clamp: type mismatch'')"
| "builtin_sem fl c BPeek [] = (case m_effective_end c of
      None \<Rightarrow> Undef
    | Some e \<Rightarrow> if e \<le> m_pos c then Err ''peek: end of input''
        else if unat (m_pos c) < length (m_input c) then exact (uint (m_input c ! unat (m_pos c))) else Undef)"
| "builtin_sem fl c f args = Undef"

definition call_sem :: "deps \<Rightarrow> machine \<Rightarrow> string \<Rightarrow> val option list \<Rightarrow> eres" where
  "call_sem d c func args = (case Option.bind (d_builtins d) (\<lambda>t. builtin_lookup t func (length args)) of
      Some f \<Rightarrow> builtin_sem (d_fl d) c f args | None \<Rightarrow> Err ''unknown function'')"

definition field_sem :: "string \<Rightarrow> val option \<Rightarrow> eres" where
  "field_sem name v = (case v of
      Some (CaptureV b) \<Rightarrow> (case find_child b name of
          Some n \<Rightarrow> Val (Some (CaptureV n)) | None \<Rightarrow> Err ''path: field not in capture'')
    | _ \<Rightarrow> Err ''path: bad base'')"

definition index_sem :: "val option \<Rightarrow> val option \<Rightarrow> eres" where
  "index_sem v i = (case v of
      Some (CaptureV b) \<Rightarrow> (case i of
          Some (IntV j) \<Rightarrow> (case find_child_at b (sint (ucast j :: u32)) of
              Some n \<Rightarrow> Val (Some (CaptureV n)) | None \<Rightarrow> Err ''path: index out of range'')
        | _ \<Rightarrow> Err ''path: index not integer'')
    | _ \<Rightarrow> Err ''path: bad base for index'')"

definition capture_sem :: "floats \<Rightarrow> machine \<Rightarrow> val option \<Rightarrow> eres" where
  "capture_sem fl c v = (case v of
      Some (CaptureV n) \<Rightarrow> (case nd_computed (attr n) of
          Some x \<Rightarrow> Val (lift_computed (Some x))
        | None \<Rightarrow> if is_float_type (nd_type (attr n))
            then (case decode_float_at (f_widen fl) (m_input c) (nd_start (attr n)) (nd_type (attr n)) of
                Got x \<Rightarrow> Val (Some (FloatV x)) | Rej \<Rightarrow> Err ''path: cannot decode float leaf'' | UB \<Rightarrow> Undef)
            else (case decode_int_at (m_input c) (nd_start (attr n)) (nd_type (attr n)) of
                Got (x, _) \<Rightarrow> Val (Some (IntV x)) | Rej \<Rightarrow> Err ''path: cannot decode scalar leaf'' | UB \<Rightarrow> Undef))
    | _ \<Rightarrow> Err ''path: capture-value on non-path'')"

section \<open>The evaluator\<close>

text \<open>An expression sees the machine but for its stack, accumulator and arena. The number is the address
  the builder gives its next node.\<close>

definition view :: "machine \<Rightarrow> machine" where
  "view m = m\<lparr>m_k := [], m_result := None, m_slots := [], m_builder := (m_builder m)\<lparr>b_next := 0\<rparr>\<rparr>"

definition ebind :: "eres \<times> nat \<Rightarrow> (val option \<Rightarrow> nat \<Rightarrow> eres \<times> nat) \<Rightarrow> eres \<times> nat" where
  "ebind r f = (case r of (Val v, n) \<Rightarrow> f v n | _ \<Rightarrow> r)"

definition as_bool :: "string \<Rightarrow> val option \<Rightarrow> nat \<Rightarrow> (bool \<Rightarrow> eres \<times> nat) \<Rightarrow> eres \<times> nat" where
  "as_bool msg v n f = (case coerce_to_bool v of Some b \<Rightarrow> f b | None \<Rightarrow> (Err msg, n))"

fun eval :: "deps \<Rightarrow> machine \<Rightarrow> ex \<Rightarrow> nat \<Rightarrow> eres \<times> nat"
and eval_args :: "deps \<Rightarrow> machine \<Rightarrow> ex list \<Rightarrow> nat \<Rightarrow> (val option list \<Rightarrow> nat \<Rightarrow> eres \<times> nat) \<Rightarrow> eres \<times> nat" where
  "eval d c (XLit v) n = (Val (Some v), n)"
| "eval d c (XFloat v) n = (Val (Some (FloatV (f_widen (d_fl d) v))), n)"
| "eval d c (XRef name) n = (if m_env c = [] then (Err ''undefined reference (env empty)'', n)
     else case env_lookup (m_env c) name of
       Some b \<Rightarrow> (Val (bd_value b), n) | None \<Rightarrow> (Err ''undefined reference'', n))"
| "eval d c XPos n = (Val (Some (IntV (m_pos c))), n)"
| "eval d c XRemaining n = (case m_effective_end c of
     Some e \<Rightarrow> (Val (Some (IntV (e - m_pos c))), n) | None \<Rightarrow> (Undef, n))"
| "eval d c XEoi n = (Val (Some (IntV (m_len c))), n)"
| "eval d c XLoop n = (case first_loop (m_frames c) of
     Some l \<Rightarrow> (Val (Some (IntV (lf_counter l))), n) | None \<Rightarrow> (Err ''loop variable used outside array'', n))"
| "eval d c XBuffer n = (Val (Some (CaptureV (Node ((new_attrs n)\<lparr>nd_start := current_scope_start (m_builder c),
     nd_end := m_pos c, nd_type := CBytes\<rparr>) []))), n + 1)"
| "eval d c XStart n = (Val (Some (IntV (current_scope_start (m_builder c)))), n)"
| "eval d c XEnd n = (case m_effective_end c of Some e \<Rightarrow> (Val (Some (IntV e)), n) | None \<Rightarrow> (Undef, n))"
| "eval d c (XUn op x) n = ebind (eval d c x n) (\<lambda>v n1. (un_sem op v, n1))"
| "eval d c (XBin op x y) n =
     ebind (eval d c y n) (\<lambda>r n1. ebind (eval d c x n1) (\<lambda>l n2. (bin_sem (d_fl d) op l r, n2)))"
| "eval d c (XAnd x y) n =
     ebind (eval d c x n) (\<lambda>l n1. as_bool ''type error: && (left)'' l n1 (\<lambda>b.
       if \<not> b then (truth_value False, n1)
       else ebind (eval d c y n1) (\<lambda>r n2. as_bool ''type error: && or || (right)'' r n2 (\<lambda>b. (truth_value b, n2)))))"
| "eval d c (XOr x y) n =
     ebind (eval d c x n) (\<lambda>l n1. as_bool ''type error: || (left)'' l n1 (\<lambda>b.
       if b then (truth_value True, n1)
       else ebind (eval d c y n1) (\<lambda>r n2. as_bool ''type error: && or || (right)'' r n2 (\<lambda>b. (truth_value b, n2)))))"
| "eval d c (XCond x y z) n =
     ebind (eval d c x n) (\<lambda>v n1. as_bool ''type error: ternary cond'' v n1 (\<lambda>b.
       if b then eval d c y n1 else eval d c z n1))"
| "eval d c (XCall func xs) n = eval_args d c xs n (\<lambda>vs n1. (call_sem d c func vs, n1))"
| "eval d c (XPath name) n = (case find_field name (m_builder c) of
     Some b \<Rightarrow> (Val (Some (CaptureV b)), n) | None \<Rightarrow> (Err ''path: field not found'', n))"
| "eval d c (XField x name) n = ebind (eval d c x n) (\<lambda>v n1. (field_sem name v, n1))"
| "eval d c (XIndex x y) n =
     ebind (eval d c y n) (\<lambda>i n1. ebind (eval d c x n1) (\<lambda>v n2. (index_sem v i, n2)))"
| "eval d c (XValue x) n = ebind (eval d c x n) (\<lambda>v n1. (capture_sem (d_fl d) c v, n1))"
| "eval_args d c [] n f = f [] n"
| "eval_args d c (x # xs) n f = ebind (eval d c x n) (\<lambda>v n1. eval_args d c xs n1 (\<lambda>vs. f (v # vs)))"

section \<open>The operators compute their meaning\<close>

definition outcome_of :: "machine \<Rightarrow> eres \<Rightarrow> machine option" where
  "outcome_of m r = (case r of Val v \<Rightarrow> Some (set_res v m) | Err s \<Rightarrow> Some (m_fail s m) | Undef \<Rightarrow> None)"

lemma outcome_simps [simp]:
  "outcome_of m (Val v) = Some (set_res v m)" "outcome_of m (Err s) = failing s m" "outcome_of m Undef = None"
  by (simp_all add: outcome_of_def failing_def)

lemma sint_range: "- (2 ^ 63) \<le> sint (w :: i64) \<and> sint w < 2 ^ 63"
  using sint_greater_eq [of w] sint_less [of w] by simp

lemma exact_sint: "exact (sint (w :: i64)) = Val (Some (IntV w))"
  using sint_range [of w] by (simp add: exact_def)

lemma ac_int_exact: "ac_int x m = outcome_of m (exact x)"
  by (simp add: ac_int_def i64_result_def exact_def ac_def)

lemma ac_val: "ac v m = outcome_of m (Val (Some v))"
  by (simp add: ac_def)

lemma bit_sem:
  "exact (sint a AND sint b) = Val (Some (IntV ((a :: i64) AND b)))"
  "exact (sint a OR sint b) = Val (Some (IntV (a OR b)))"
  "exact (sint a XOR sint b) = Val (Some (IntV (a XOR b)))"
  by (simp_all flip: exact_sint add: signed_and_eq signed_or_eq signed_xor_eq)

lemma shift_sem:
  "exact (sint (a :: i64) div 2 ^ n) = Val (Some (IntV (signed_drop_bit n a)))"
  "word_of_int (sint a * 2 ^ n) = (push_bit n a :: i64)"
proof -
  have "sint (signed_drop_bit n a) = sint a div 2 ^ n"
    by (simp add: sint_signed_drop_bit_eq drop_bit_eq_div)
  then show "exact (sint a div 2 ^ n) = Val (Some (IntV (signed_drop_bit n a)))" by (metis exact_sint)
  show "word_of_int (sint a * 2 ^ n) = (push_bit n a :: i64)" by (simp add: push_bit_eq_mult)
qed

lemma sint_eq: "(sint (a :: i64) = sint b) = (a = b)"
  by (auto intro: signed_word_eqI)

lemma sint_0_iff: "(sint (b :: i64) = 0) = (b = 0)"
  using sint_eq [of b 0] by simp

lemma undef_quotient: "(i64_result x = None) = (exact x = Undef)"
  by (simp add: i64_result_def exact_def)

lemma apply_binop_simps:
  "apply_binop fl Add rhs = arith_apply ''+'' (+) (f_add fl) fl rhs"
  "apply_binop fl Sub rhs = arith_apply ''-'' (-) (f_sub fl) fl rhs"
  "apply_binop fl Mul rhs = arith_apply ''*'' (*) (f_mul fl) fl rhs"
  "apply_binop fl Div rhs = ApplyDivKont_invoke fl rhs"
  "apply_binop fl Mod rhs = ApplyModKont_invoke rhs"
  "apply_binop fl BitAnd rhs = bitwise_apply ''&'' (\<lambda>a b. Some (a AND b)) rhs"
  "apply_binop fl BitOr rhs = bitwise_apply ''|'' (\<lambda>a b. Some (a OR b)) rhs"
  "apply_binop fl BitXor rhs = bitwise_apply ''^'' (\<lambda>a b. Some (a XOR b)) rhs"
  "apply_binop fl Shl rhs = bitwise_apply ''<<'' shl_i64 rhs"
  "apply_binop fl Shr rhs = bitwise_apply ''>>'' shr_i64 rhs"
  "apply_binop fl Eq rhs = ApplyEqKont_invoke fl rhs"
  "apply_binop fl Ne rhs = ApplyNeKont_invoke fl rhs"
  "apply_binop fl Lt rhs = ordered_apply ''<'' (<) (f_lt fl) fl rhs"
  "apply_binop fl Le rhs = ordered_apply ''<='' (\<le>) (f_le fl) fl rhs"
  "apply_binop fl Gt rhs = ordered_apply ''>'' (>) (\<lambda>a b. f_lt fl b a) fl rhs"
  "apply_binop fl Ge rhs = ordered_apply ''>='' (\<ge>) (\<lambda>a b. f_le fl b a) fl rhs"
  by (simp_all add: apply_binop_def)

lemmas op_defs = apply_binop_simps arith_apply_def ApplyDivKont_invoke_def ApplyModKont_invoke_def
  bitwise_apply_def ApplyEqKont_invoke_def ApplyNeKont_invoke_def ordered_apply_def truth_value_def type_error_def

lemma int_op_sem:
  "m_result m = Some (IntV a) \<Longrightarrow> apply_binop fl op (Some (IntV b)) m = outcome_of m (int_sem op (sint a) (sint b))"
  by (cases op) (simp_all add: op_defs ac_int_exact bit_sem shift_sem(1) shl_i64_def shr_i64_def push_bit_eq_mult
      same_tag_eq_def sint_eq sint_0_iff undef_quotient ac_val del: outcome_simps(1))

lemma float_op_sem:
  assumes "m_result m = Some l" and "is_num l" "is_num r" and "val_tag l = 1 \<or> val_tag r = 1"
  shows "apply_binop fl op (Some r) m = outcome_of m (float_sem fl op (as_double fl l) (as_double fl r))"
proof -
  from assms consider x y where "l = FloatV x" "r = FloatV y" | a y where "l = IntV a" "r = FloatV y"
    | x b where "l = FloatV x" "r = IntV b"
    by (cases l; cases r) (simp_all add: is_num_def)
  then show ?thesis
    using assms(1) by cases (cases op; simp add: op_defs is_num_def as_double_def same_tag_eq_def ac_val
        del: outcome_simps(1))+
qed

lemma string_op_sem:
  "m_result m = Some (StringV s) \<Longrightarrow> apply_binop fl op (Some (StringV t)) m = outcome_of m (string_sem op s t)"
  by (cases op) (simp_all add: op_defs is_num_def same_tag_eq_def ac_val del: outcome_simps(1))

text \<open>Operands that are not both numbers or both strings: equality only.\<close>

lemma eq_op_sem:
  assumes "m_result m = Some l"
    and "\<not> (is_num l \<and> is_num r)" and "\<not> (val_tag l = 2 \<and> val_tag r = 2)"
  shows "apply_binop fl op (Some r) m = outcome_of m (eq_sem op (val_tag l = val_tag r \<and> same_tag_eq fl l r))"
  using assms by (cases l; cases r; cases op) (simp_all add: op_defs is_num_def eq_sem_def ac_val del: outcome_simps(1))

lemma null_op_sem:
  "m_result m = None \<or> r = None \<Longrightarrow> apply_binop fl op r m = outcome_of m (type_error op)"
  by (cases op) (auto simp: op_defs split: option.splits val.splits)

lemma bin_op_sem: "apply_binop fl op r m = outcome_of m (bin_sem fl op (m_result m) r)"
proof (cases "m_result m")
  case None
  then show ?thesis using null_op_sem [of m r] by (simp add: bin_sem_def)
next
  case (Some l)
  show ?thesis
  proof (cases r)
    case None
    then show ?thesis using null_op_sem [of m r] Some by (cases l) (simp_all add: bin_sem_def)
  next
    case r: (Some y)
    consider (int) a b where "l = IntV a" "y = IntV b"
      | (float) "is_num l" "is_num y" "val_tag l = 1 \<or> val_tag y = 1"
      | (str) s t where "l = StringV s" "y = StringV t"
      | (other) "\<not> (is_num l \<and> is_num y)" "\<not> (val_tag l = 2 \<and> val_tag y = 2)"
      by (cases l; cases y) (auto simp: is_num_def)
    then show ?thesis
    proof cases
      case int
      then show ?thesis using Some r int_op_sem by (simp add: bin_sem_def)
    next
      case float
      then show ?thesis using Some r float_op_sem [OF Some float]
        by (cases l; cases y) (simp_all add: bin_sem_def as_double_def is_num_def)
    next
      case str
      then show ?thesis using Some r string_op_sem by (simp add: bin_sem_def)
    next
      case other
      then show ?thesis using r eq_op_sem [OF Some other]
        by (cases l; cases y) (simp_all add: Some bin_sem_def is_num_def same_tag_eq_def)
    qed
  qed
qed

lemma not_sem: "exact (- sint (a :: i64) - 1) = Val (Some (IntV (NOT a)))"
proof -
  have "word_of_int (- sint a - 1) = NOT a" by (simp add: not_eq_complement)
  then show ?thesis using sint_range [of a] by (simp add: exact_def)
qed

lemma un_op_sem: "apply_unop op m = outcome_of m (un_sem op (m_result m))"
  by (cases op) (auto simp: apply_unop_def un_sem_def ApplyNegKont_invoke_def ApplyBitNotKont_invoke_def
      ApplyNotKont_invoke_def ac_int_exact truth_value_def not_sem ac_val simp del: outcome_simps(1)
      split: option.splits val.splits)

section \<open>The machine while it evaluates\<close>

text \<open>\<open>m\<close> with another kont stack and accumulator, more operand slots, and the builder at another address.\<close>

definition st :: "machine \<Rightarrow> kitem list \<Rightarrow> val option \<Rightarrow> val option list \<Rightarrow> nat \<Rightarrow> machine" where
  "st m ks v ss n = m\<lparr>m_k := ks, m_result := v, m_slots := m_slots m @ ss,
     m_builder := (m_builder m)\<lparr>b_next := n\<rparr>\<rparr>"

lemma st_st: "st (st m ks v ss n) ks' v' ss' n' = st m ks' v' (ss @ ss') n'"
  by (simp add: st_def)

lemma st_simps [simp]:
  "m_k (st m ks v ss n) = ks" "m_result (st m ks v ss n) = v" "m_slots (st m ks v ss n) = m_slots m @ ss"
  "m_failed (st m ks v ss n) = m_failed m" "m_env (st m ks v ss n) = m_env m" "m_frames (st m ks v ss n) = m_frames m"
  "m_pos (st m ks v ss n) = m_pos m" "m_len (st m ks v ss n) = m_len m" "m_input (st m ks v ss n) = m_input m"
  "m_builder (st m ks v ss n) = (m_builder m)\<lparr>b_next := n\<rparr>"
  "m_effective_end (st m ks v ss n) = m_effective_end m" "set_res w (st m ks v ss n) = st m ks w ss n"
  "(st m ks v ss n)\<lparr>m_k := ks'\<rparr> = st m ks' v ss n"
  "view (st m ks v ss n) = view m"
  "(st m ks v ss n)\<lparr>m_slots := m_slots m @ ss'\<rparr> = st m ks v ss' n"
  by (simp_all add: st_def m_effective_end_def set_res_def view_def)

lemma st_self: "m_k m = ks \<Longrightarrow> st m ks (m_result m) [] (b_next (m_builder m)) = m"
  by (simp add: st_def)

lemma view_simps [simp]:
  "m_env (view m) = m_env m" "m_frames (view m) = m_frames m" "m_pos (view m) = m_pos m" "m_len (view m) = m_len m"
  "m_input (view m) = m_input m" "m_effective_end (view m) = m_effective_end m" "m_idepth (view m) = m_idepth m"
  "current_scope_start (m_builder (view m)) = current_scope_start (m_builder m)"
  "find_field name (m_builder (view m)) = find_field name (m_builder m)"
  by (simp_all add: view_def m_effective_end_def current_scope_start_def find_field_def)

lemma builder_next [simp]:
  "current_scope_start (b\<lparr>b_next := n\<rparr>) = current_scope_start b" "find_field name (b\<lparr>b_next := n\<rparr>) = find_field name b"
  by (simp_all add: current_scope_start_def find_field_def)

text \<open>From \<open>m\<close> the machine comes to the outcome of an expression, with \<open>K\<close> left on the stack; on a failure
  with some of the expression's konts still above it.\<close>

definition comes_to :: "deps \<Rightarrow> machine \<Rightarrow> kitem list \<Rightarrow> eres \<times> nat \<Rightarrow> bool" where
  "comes_to d m K r = (case r of
      (Val v, n) \<Rightarrow> \<exists>ss. (cek_step d)\<^sup>*\<^sup>* m (st m K v ss n)
    | (Err s, n) \<Rightarrow> \<exists>J w ss. (cek_step d)\<^sup>*\<^sup>* m (m_fail s (st m (J @ K) w ss n))
    | (Undef, n) \<Rightarrow> \<exists>m1. (cek_step d)\<^sup>*\<^sup>* m m1 \<and> running m1 \<and> turn d m1 = None)"

definition computes :: "deps \<Rightarrow> kid \<Rightarrow> ex \<Rightarrow> bool" where
  "computes d k x = (\<forall>m K. m_k m = Static k # K \<longrightarrow> \<not> m_failed m \<longrightarrow>
     comes_to d m K (eval d (view m) x (b_next (m_builder m))))"

lemma turn_st: "turn d (st m (x # ks) v ss n) = invoke d x (st m ks v ss n)"
  by (simp add: turn_def)

lemma step_st:
  "\<not> m_failed m \<Longrightarrow> (cek_step d)\<^sup>*\<^sup>* m0 (st m (x # ks) v ss n) \<Longrightarrow> invoke d x (st m ks v ss n) = Some m1 \<Longrightarrow>
   (cek_step d)\<^sup>*\<^sup>* m0 m1"
  by (metis turn_st cek_step.turn running_def st_simps(1,4) list.distinct(1) rtranclp.rtrancl_into_rtrancl)

lemma refines_last:
  assumes "\<not> m_failed m" and "(cek_step d)\<^sup>*\<^sup>* m (st m (x # K) v ss n)"
    and "invoke d x (st m K v ss n) = outcome_of (st m K v ss n) r"
  shows "comes_to d m K (r, n)"
proof (cases r)
  case (Val w)
  then have "(cek_step d)\<^sup>*\<^sup>* m (st m K w ss n)" using step_st [OF assms(1,2)] assms(3) by simp
  then show ?thesis using Val by (auto simp: comes_to_def)
next
  case (Err s)
  then have "(cek_step d)\<^sup>*\<^sup>* m (m_fail s (st m ([] @ K) v ss n))"
    using step_st [OF assms(1,2)] assms(3) Err by (simp add: failing_def)
  then show ?thesis using Err unfolding comes_to_def by (simp only: prod.case eres.case) blast
next
  case Undef
  then have "running (st m (x # K) v ss n) \<and> turn d (st m (x # K) v ss n) = None"
    using assms(1,3) by (simp add: running_def turn_st)
  then show ?thesis using Undef assms(2) by (auto simp: comes_to_def)
qed

lemma refines_sub:
  assumes c: "computes d k x" and f: "\<not> m_failed m"
    and s: "(cek_step d)\<^sup>*\<^sup>* m (st m (Static k # C @ K) v ss n)"
    and r: "\<And>w n1 ss1. eval d (view m) x n = (Val w, n1) \<Longrightarrow>
       (cek_step d)\<^sup>*\<^sup>* m (st m (C @ K) w (ss @ ss1) n1) \<Longrightarrow> comes_to d m K (h w n1)"
  shows "comes_to d m K (ebind (eval d (view m) x n) h)"
proof -
  let ?m = "st m (Static k # C @ K) v ss n"
  have sub: "comes_to d ?m (C @ K) (eval d (view m) x n)"
    using c f unfolding computes_def by (auto dest: spec [of _ ?m])
  obtain q n1 where q: "eval d (view m) x n = (q, n1)" by fastforce
  show ?thesis
  proof (cases q)
    case (Val w)
    then obtain ss1 where "(cek_step d)\<^sup>*\<^sup>* ?m (st m (C @ K) w (ss @ ss1) n1)"
      using sub q by (auto simp: comes_to_def st_st)
    then have "(cek_step d)\<^sup>*\<^sup>* m (st m (C @ K) w (ss @ ss1) n1)" using s by (rule rtranclp_trans [rotated])
    then show ?thesis using r q Val by (simp add: ebind_def)
  next
    case (Err msg)
    then obtain J w ss1 where "(cek_step d)\<^sup>*\<^sup>* ?m (m_fail msg (st m ((J @ C) @ K) w (ss @ ss1) n1))"
      using sub q by (auto simp: comes_to_def st_st)
    then have "(cek_step d)\<^sup>*\<^sup>* m (m_fail msg (st m ((J @ C) @ K) w (ss @ ss1) n1))" using s by (rule rtranclp_trans [rotated])
    then show ?thesis using q Err unfolding comes_to_def ebind_def by (simp only: prod.case eres.case) blast
  next
    case Undef
    then obtain m1 where "(cek_step d)\<^sup>*\<^sup>* ?m m1" "running m1" "turn d m1 = None"
      using sub q by (auto simp: comes_to_def)
    then have "(cek_step d)\<^sup>*\<^sup>* m m1 \<and> running m1 \<and> turn d m1 = None" using s rtranclp_trans by metis
    then show ?thesis using q Undef by (auto simp: comes_to_def ebind_def)
  qed
qed

lemma refines_tail:
  assumes c: "computes d k x" and f: "\<not> m_failed m" and s: "(cek_step d)\<^sup>*\<^sup>* m (st m (Static k # K) v ss n)"
  shows "comes_to d m K (eval d (view m) x n)"
proof -
  have "comes_to d m K (ebind (eval d (view m) x n) (\<lambda>w n1. (Val w, n1)))"
    by (rule refines_sub [where C = "[]", OF c f]) (use s in \<open>auto simp: comes_to_def\<close>)
  moreover have "ebind r (\<lambda>w n1. (Val w, n1)) = r" for r by (auto simp: ebind_def split: prod.splits eres.splits)
  ultimately show ?thesis by simp
qed

section \<open>Every expression is computed\<close>

lemma computesI:
  assumes "\<And>m K. m_k m = Static k # K \<Longrightarrow> \<not> m_failed m \<Longrightarrow>
    (cek_step d)\<^sup>*\<^sup>* m (st m (Static k # K) (m_result m) [] (b_next (m_builder m))) \<Longrightarrow>
    comes_to d m K (eval d (view m) x (b_next (m_builder m)))"
  shows "computes d k x"
  unfolding computes_def
proof (intro allI impI)
  fix m :: machine and K assume k: "m_k m = Static k # K" and f: "\<not> m_failed m"
  have "st m (Static k # K) (m_result m) [] (b_next (m_builder m)) = m" using k by (rule st_self)
  then show "comes_to d m K (eval d (view m) x (b_next (m_builder m)))" using assms [OF k f] by simp
qed

text \<open>A leaf: one turn.\<close>

lemma computes_leaf:
  assumes g: "d_prog d k = E e"
    and "\<And>m K v n. \<not> m_failed m \<Longrightarrow> eval d (view m) x n = (fst (eval d (view m) x n), n) \<and>
      invoke_expr (d_fl d) e (st m K v [] n) = outcome_of (st m K v [] n) (fst (eval d (view m) x n))"
  shows "computes d k x"
proof (rule computesI)
  fix m :: machine and K assume k: "m_k m = Static k # K" and f: "\<not> m_failed m"
    and s: "(cek_step d)\<^sup>*\<^sup>* m (st m (Static k # K) (m_result m) [] (b_next (m_builder m)))"
  note a = assms(2) [OF f, where n = "b_next (m_builder m)" and v = "m_result m" and K = K]
  have "invoke d (Static k) (st m K (m_result m) [] (b_next (m_builder m))) =
      outcome_of (st m K (m_result m) [] (b_next (m_builder m))) (fst (eval d (view m) x (b_next (m_builder m))))"
    using a g by (simp add: invoke_def)
  from refines_last [OF f s this] show "comes_to d m K (eval d (view m) x (b_next (m_builder m)))" using a by metis
qed

text \<open>Pushing the parts of an operator; a fresh slot comes last in the arena.\<close>

lemma invoke_static: "d_prog d k = E e \<Longrightarrow> invoke d (Static k) m = invoke_expr (d_fl d) e m"
  by (simp add: invoke_def)

lemma invoke_dynamic: "invoke d (Dyn x) m = invoke_dyn d x m"
  by (simp add: invoke_def)

lemma pushing_st: "pushing ks (st m K v ss n) = Some (st m (rev ks @ K) v ss n)"
  by (simp add: pushing_def fold_push st_def)

lemma two_phase_st: "two_phase ak l r (st m K v ss n) =
    Some (st m (Static r # Dyn (EvalLeft (length (m_slots m) + length ss) l) #
      Dyn (ak (length (m_slots m) + length ss)) # K) v (ss @ [None]) n)"
  by (simp add: two_phase_def new_slots_def pushing_def push_kont_def st_def)

lemma eval_left_st:
  "EvalLeftKont_invoke (length (m_slots m)) l (st m K v (None # ss) n) = Some (st m (Static l # K) v (v # ss) n)"
proof -
  have "(m_slots m @ None # ss)[length (m_slots m) := v] = m_slots m @ v # ss" by simp
  then show ?thesis by (simp add: EvalLeftKont_invoke_def set_slot_def pushing_def push_kont_def st_def)
qed

lemma slot_st: "slot (length (m_slots m)) (st m K v (w # ss) n) = Some w"
  by (simp add: slot_def)

lemma computes_two_phase:
  assumes g: "d_prog d k = E e" and e: "\<And>m. invoke_expr (d_fl d) e m = two_phase ak l r m"
    and l: "computes d l x" and r: "computes d r y"
    and a: "\<And>m K v w ss n. invoke_dyn d (ak (length (m_slots m))) (st m K v (w # ss) n) =
       outcome_of (st m K v (w # ss) n) (sem v w)"
    and ev: "\<And>c n. eval d c z n = ebind (eval d c y n) (\<lambda>w n1. ebind (eval d c x n1) (\<lambda>v n2. (sem v w, n2)))"
  shows "computes d k z"
proof (rule computesI)
  fix m :: machine and K assume f: "\<not> m_failed m"
    and s: "(cek_step d)\<^sup>*\<^sup>* m (st m (Static k # K) (m_result m) [] (b_next (m_builder m)))"
  let ?s = "length (m_slots m)"
  have s1: "(cek_step d)\<^sup>*\<^sup>* m (st m (Static r # [Dyn (EvalLeft ?s l), Dyn (ak ?s)] @ K) (m_result m) [None] (b_next (m_builder m)))"
    using step_st [OF f s] g by (simp add: invoke_static e two_phase_st)
  show "comes_to d m K (eval d (view m) z (b_next (m_builder m)))"
    unfolding ev
  proof (rule refines_sub [OF r f s1])
    fix w n1 ss1
    assume "(cek_step d)\<^sup>*\<^sup>* m (st m ([Dyn (EvalLeft ?s l), Dyn (ak ?s)] @ K) w ([None] @ ss1) n1)"
    then have s2: "(cek_step d)\<^sup>*\<^sup>* m (st m (Static l # [Dyn (ak ?s)] @ K) w (w # ss1) n1)"
      using step_st [OF f, of d m "Dyn (EvalLeft ?s l)"] by (simp add: invoke_dynamic invoke_dyn_def eval_left_st)
    show "comes_to d m K (ebind (eval d (view m) x n1) (\<lambda>v n2. (sem v w, n2)))"
    proof (rule refines_sub [OF l f s2])
      fix v n2 ss2
      assume "(cek_step d)\<^sup>*\<^sup>* m (st m ([Dyn (ak ?s)] @ K) v ((w # ss1) @ ss2) n2)"
      then show "comes_to d m K (sem v w, n2)"
        using refines_last [OF f, of d "Dyn (ak ?s)"] a by (simp add: invoke_dynamic)
    qed
  qed
qed

lemma computes_unary:
  assumes g: "d_prog d k = E e" and e: "\<And>m. invoke_expr (d_fl d) e m = pushing [Dyn ak, Static a] m"
    and c: "computes d a x"
    and s: "\<And>m K v ss n. invoke_dyn d ak (st m K v ss n) = outcome_of (st m K v ss n) (sem (view m) v)"
    and ev: "\<And>c n. eval d c z n = ebind (eval d c x n) (\<lambda>v n1. (sem c v, n1))"
  shows "computes d k z"
proof (rule computesI)
  fix m :: machine and K assume f: "\<not> m_failed m"
    and s0: "(cek_step d)\<^sup>*\<^sup>* m (st m (Static k # K) (m_result m) [] (b_next (m_builder m)))"
  have s1: "(cek_step d)\<^sup>*\<^sup>* m (st m (Static a # [Dyn ak] @ K) (m_result m) [] (b_next (m_builder m)))"
    using step_st [OF f s0] g by (simp add: invoke_static e pushing_st)
  show "comes_to d m K (eval d (view m) z (b_next (m_builder m)))"
    unfolding ev
  proof (rule refines_sub [OF c f s1])
    fix v n1 ss1
    assume "(cek_step d)\<^sup>*\<^sup>* m (st m ([Dyn ak] @ K) v ([] @ ss1) n1)"
    then show "comes_to d m K (sem (view m) v, n1)"
      using refines_last [OF f, of d "Dyn ak"] s by (simp add: invoke_dynamic)
  qed
qed

text \<open>The logical operators and the conditional: the check of the left operand, then perhaps one more.\<close>

lemma check_st:
  assumes "coerce_to_bool v = Some b"
  shows "LogicalAndCheckKont_invoke r (st m K v ss n) =
      Some (if b then st m (Static r # Dyn Normalize # K) v ss n else st m K (Some (BoolV False)) ss n)"
    and "LogicalOrCheckKont_invoke r (st m K v ss n) =
      Some (if b then st m K (Some (BoolV True)) ss n else st m (Static r # Dyn Normalize # K) v ss n)"
    and "TernaryDispatchKont_invoke t e (st m K v ss n) = Some (st m (Static (if b then t else e) # K) v ss n)"
    and "NormalizeKont_invoke (st m K v ss n) = Some (st m K (Some (BoolV b)) ss n)"
  using assms by (simp_all add: LogicalAndCheckKont_invoke_def LogicalOrCheckKont_invoke_def
      TernaryDispatchKont_invoke_def NormalizeKont_invoke_def pushing_st ac_def)

lemma check_fails:
  assumes "coerce_to_bool v = None"
  shows "LogicalAndCheckKont_invoke r (st m K v ss n) = outcome_of (st m K v ss n) (Err ''type error: && (left)'')"
    and "LogicalOrCheckKont_invoke r (st m K v ss n) = outcome_of (st m K v ss n) (Err ''type error: || (left)'')"
    and "TernaryDispatchKont_invoke t e (st m K v ss n) = outcome_of (st m K v ss n) (Err ''type error: ternary cond'')"
    and "NormalizeKont_invoke (st m K v ss n) = outcome_of (st m K v ss n) (Err ''type error: && or || (right)'')"
  using assms by (simp_all add: LogicalAndCheckKont_invoke_def LogicalOrCheckKont_invoke_def
      TernaryDispatchKont_invoke_def NormalizeKont_invoke_def)

lemma refines_value: "(cek_step d)\<^sup>*\<^sup>* m (st m K v ss n) \<Longrightarrow> comes_to d m K (Val v, n)"
  by (auto simp: comes_to_def)

text \<open>The right operand of a logical operator, normalized.\<close>

lemma refines_norm:
  assumes c: "computes d r y" and f: "\<not> m_failed m"
    and s: "(cek_step d)\<^sup>*\<^sup>* m (st m (Static r # Dyn Normalize # K) v ss n)"
  shows "comes_to d m K (ebind (eval d (view m) y n)
     (\<lambda>w n2. as_bool ''type error: && or || (right)'' w n2 (\<lambda>b. (truth_value b, n2))))"
proof (rule refines_sub [where C = "[Dyn Normalize]", OF c f])
  show "(cek_step d)\<^sup>*\<^sup>* m (st m (Static r # [Dyn Normalize] @ K) v ss n)" using s by simp
  fix w n1 ss1
  assume s1: "(cek_step d)\<^sup>*\<^sup>* m (st m ([Dyn Normalize] @ K) w (ss @ ss1) n1)"
  show "comes_to d m K (as_bool ''type error: && or || (right)'' w n1 (\<lambda>b. (truth_value b, n1)))"
  proof (cases "coerce_to_bool w")
    case None
    then show ?thesis using refines_last [OF f, of d "Dyn Normalize"] s1 check_fails(4) [OF None]
      by (simp add: as_bool_def invoke_dynamic invoke_dyn_def)
  next
    case (Some b)
    have "(cek_step d)\<^sup>*\<^sup>* m (st m K (Some (BoolV b)) (ss @ ss1) n1)"
      by (rule step_st [OF f s1 [simplified]]) (simp add: invoke_dynamic invoke_dyn_def check_st(4) [OF Some])
    then show ?thesis using Some by (simp add: as_bool_def truth_value_def refines_value)
  qed
qed

lemma computes_and:
  assumes g: "d_prog d k = E (LAndK l r)" and l: "computes d l x" and r: "computes d r y"
  shows "computes d k (XAnd x y)"
proof (rule computesI)
  fix m :: machine and K assume f: "\<not> m_failed m"
    and s: "(cek_step d)\<^sup>*\<^sup>* m (st m (Static k # K) (m_result m) [] (b_next (m_builder m)))"
  have s1: "(cek_step d)\<^sup>*\<^sup>* m (st m (Static l # [Dyn (AndCheck r)] @ K) (m_result m) [] (b_next (m_builder m)))"
    using step_st [OF f s] g by (simp add: invoke_static invoke_expr_def LogicalAndKont_invoke_def pushing_st)
  show "comes_to d m K (eval d (view m) (XAnd x y) (b_next (m_builder m)))"
    unfolding eval.simps
  proof (rule refines_sub [OF l f s1])
    fix v n1 ss1
    assume s2: "(cek_step d)\<^sup>*\<^sup>* m (st m ([Dyn (AndCheck r)] @ K) v ([] @ ss1) n1)"
    show "comes_to d m K (as_bool ''type error: && (left)'' v n1 (\<lambda>b. if \<not> b then (truth_value False, n1)
       else ebind (eval d (view m) y n1) (\<lambda>r n2. as_bool ''type error: && or || (right)'' r n2 (\<lambda>b. (truth_value b, n2)))))"
    proof (cases "coerce_to_bool v")
      case None
      then show ?thesis using refines_last [OF f, of d "Dyn (AndCheck r)"] s2 check_fails(1) [OF None]
        by (simp add: as_bool_def invoke_dynamic invoke_dyn_def)
    next
      case (Some b)
      have s3: "(cek_step d)\<^sup>*\<^sup>* m (if b then st m (Static r # Dyn Normalize # K) v ss1 n1 else st m K (Some (BoolV False)) ss1 n1)"
        by (rule step_st [OF f s2 [simplified]]) (simp add: invoke_dynamic invoke_dyn_def check_st(1) [OF Some])
      show ?thesis
      proof (cases b)
        case True
        then show ?thesis using Some s3 refines_norm [OF r f] by (simp add: as_bool_def truth_value_def refines_value)
      next
        case False
        then show ?thesis using Some s3 refines_norm [OF r f] by (simp add: as_bool_def truth_value_def refines_value)
      qed
    qed
  qed
qed

lemma computes_or:
  assumes g: "d_prog d k = E (LOrK l r)" and l: "computes d l x" and r: "computes d r y"
  shows "computes d k (XOr x y)"
proof (rule computesI)
  fix m :: machine and K assume f: "\<not> m_failed m"
    and s: "(cek_step d)\<^sup>*\<^sup>* m (st m (Static k # K) (m_result m) [] (b_next (m_builder m)))"
  have s1: "(cek_step d)\<^sup>*\<^sup>* m (st m (Static l # [Dyn (OrCheck r)] @ K) (m_result m) [] (b_next (m_builder m)))"
    using step_st [OF f s] g by (simp add: invoke_static invoke_expr_def LogicalOrKont_invoke_def pushing_st)
  show "comes_to d m K (eval d (view m) (XOr x y) (b_next (m_builder m)))"
    unfolding eval.simps
  proof (rule refines_sub [OF l f s1])
    fix v n1 ss1
    assume s2: "(cek_step d)\<^sup>*\<^sup>* m (st m ([Dyn (OrCheck r)] @ K) v ([] @ ss1) n1)"
    show "comes_to d m K (as_bool ''type error: || (left)'' v n1 (\<lambda>b. if b then (truth_value True, n1)
       else ebind (eval d (view m) y n1) (\<lambda>r n2. as_bool ''type error: && or || (right)'' r n2 (\<lambda>b. (truth_value b, n2)))))"
    proof (cases "coerce_to_bool v")
      case None
      then show ?thesis using refines_last [OF f, of d "Dyn (OrCheck r)"] s2 check_fails(2) [OF None]
        by (simp add: as_bool_def invoke_dynamic invoke_dyn_def)
    next
      case (Some b)
      have s3: "(cek_step d)\<^sup>*\<^sup>* m (if b then st m K (Some (BoolV True)) ss1 n1 else st m (Static r # Dyn Normalize # K) v ss1 n1)"
        by (rule step_st [OF f s2 [simplified]]) (simp add: invoke_dynamic invoke_dyn_def check_st(2) [OF Some])
      show ?thesis
      proof (cases b)
        case True
        then show ?thesis using Some s3 refines_norm [OF r f] by (simp add: as_bool_def truth_value_def refines_value)
      next
        case False
        then show ?thesis using Some s3 refines_norm [OF r f] by (simp add: as_bool_def truth_value_def refines_value)
      qed
    qed
  qed
qed

lemma computes_cond:
  assumes g: "d_prog d k = E (TernaryK c t e)" and c: "computes d c x" and t: "computes d t y" and e: "computes d e z"
  shows "computes d k (XCond x y z)"
proof (rule computesI)
  fix m :: machine and K assume f: "\<not> m_failed m"
    and s: "(cek_step d)\<^sup>*\<^sup>* m (st m (Static k # K) (m_result m) [] (b_next (m_builder m)))"
  have s1: "(cek_step d)\<^sup>*\<^sup>* m (st m (Static c # [Dyn (TernaryDispatch t e)] @ K) (m_result m) [] (b_next (m_builder m)))"
    using step_st [OF f s] g by (simp add: invoke_static invoke_expr_def TernaryKont_invoke_def pushing_st)
  show "comes_to d m K (eval d (view m) (XCond x y z) (b_next (m_builder m)))"
    unfolding eval.simps
  proof (rule refines_sub [OF c f s1])
    fix v n1 ss1
    assume s2: "(cek_step d)\<^sup>*\<^sup>* m (st m ([Dyn (TernaryDispatch t e)] @ K) v ([] @ ss1) n1)"
    show "comes_to d m K (as_bool ''type error: ternary cond'' v n1
       (\<lambda>b. if b then eval d (view m) y n1 else eval d (view m) z n1))"
    proof (cases "coerce_to_bool v")
      case None
      then show ?thesis using refines_last [OF f, of d "Dyn (TernaryDispatch t e)"] s2 check_fails(3) [OF None]
        by (simp add: as_bool_def invoke_dynamic invoke_dyn_def)
    next
      case (Some b)
      have s3: "(cek_step d)\<^sup>*\<^sup>* m (st m (Static (if b then t else e) # K) v ss1 n1)"
        by (rule step_st [OF f s2 [simplified]]) (simp add: invoke_dynamic invoke_dyn_def check_st(3) [OF Some])
      show ?thesis
      proof (cases b)
        case True
        then show ?thesis using Some s3 refines_tail [OF t f] by (simp add: as_bool_def)
      next
        case False
        then show ?thesis using Some s3 refines_tail [OF e f] by (simp add: as_bool_def)
      qed
    qed
  qed
qed

text \<open>Calls: the arguments fill their slots from the first to the last.\<close>

fun arg_items :: "nat \<Rightarrow> nat \<Rightarrow> kid list \<Rightarrow> kitem list" where
  "arg_items buf i [] = []"
| "arg_items buf i (a # args) = Static a # Dyn (ArgStore buf i) # arg_items buf (Suc i) args"

lemma push_args_items: "push_args buf i args m = m\<lparr>m_k := arg_items buf i args @ m_k m\<rparr>"
  by (induction buf i args m rule: push_args.induct) (simp_all add: push_kont_def)

lemma refines_args:
  assumes "list_all2 (computes d) args xs" and f: "\<not> m_failed m"
    and "(cek_step d)\<^sup>*\<^sup>* m (st m (arg_items (length (m_slots m)) (length pre) args @ C # K) v
       (pre @ replicate (length args) None @ post) n)"
    and "\<And>vs w n1 post1. length vs = length args \<Longrightarrow>
       (cek_step d)\<^sup>*\<^sup>* m (st m (C # K) w (pre @ vs @ post1) n1) \<Longrightarrow> comes_to d m K (h vs n1)"
  shows "comes_to d m K (eval_args d (view m) xs n h)"
  using assms(1,3,4)
proof (induction args xs arbitrary: pre v post n h rule: list_all2_induct)
  case Nil
  then show ?case using Nil(2) [of "[]"] by simp
next
  case (Cons a args x xs)
  let ?b = "length (m_slots m)"
  let ?C = "Dyn (ArgStore ?b (length pre)) # arg_items ?b (Suc (length pre)) args @ [C]"
  have s: "(cek_step d)\<^sup>*\<^sup>* m (st m (Static a # ?C @ K) v (pre @ replicate (length (a # args)) None @ post) n)"
    using Cons.prems(1) by simp
  show ?case unfolding eval_args.simps
  proof (rule refines_sub [OF Cons.hyps(1) f s])
    fix w n1 ss1
    assume s1: "(cek_step d)\<^sup>*\<^sup>* m (st m (?C @ K) w ((pre @ replicate (length (a # args)) None @ post) @ ss1) n1)"
    let ?rest = "arg_items ?b (length (pre @ [w])) args @ C # K"
    have "invoke d (Dyn (ArgStore ?b (length pre))) (st m ?rest w (pre @ replicate (length (a # args)) None @ post @ ss1) n1) =
        Some (st m ?rest w ((pre @ [w]) @ replicate (length args) None @ post @ ss1) n1)"
      by (simp add: invoke_dynamic invoke_dyn_def ArgStoreKont_invoke_def set_slot_def list_update_append)
    then have s2: "(cek_step d)\<^sup>*\<^sup>* m (st m ?rest w ((pre @ [w]) @ replicate (length args) None @ post @ ss1) n1)"
      using step_st [OF f, of d m "Dyn (ArgStore ?b (length pre))"] s1 by simp
    show "comes_to d m K (eval_args d (view m) xs n1 (\<lambda>vs. h (w # vs)))"
    proof (rule Cons.IH [OF s2])
      fix vs w1 n2 post1
      assume "length vs = length args" "(cek_step d)\<^sup>*\<^sup>* m (st m (C # K) w1 ((pre @ [w]) @ vs @ post1) n2)"
      then show "comes_to d m K (h (w # vs) n2)" using Cons.prems(2) [of "w # vs"] by simp
    qed
  qed
qed

lemma exact_byte: "exact (uint (b :: u8)) = Val (Some (IntV (ucast b)))"
proof -
  have a: "uint b < 256" using unsigned_less [of b] by simp
  have "- (2 ^ 63) \<le> uint b" by (rule order_trans [of _ 0]) simp_all
  moreover have "uint b < 2 ^ 63" by (rule less_trans [OF a]) simp
  ultimately show ?thesis by (simp only: exact_def simp_thms if_True ucast_eq)
qed

lemma peek_sem: "builtin_peek (st m K v ss n) = outcome_of (st m K v ss n) (builtin_sem fl (view m) BPeek [])"
proof (cases "m_effective_end m")
  case (Some e)
  have "hd (slice (unat (m_pos m)) 1 (m_input m)) = m_input m ! unat (m_pos m)" if "unat (m_pos m) < length (m_input m)"
    using that by (simp add: slice_def hd_drop_conv_nth)
  then show ?thesis using Some
    by (auto simp: builtin_peek_def span_at_def exact_byte ac_val not_less simp del: outcome_simps(1))
qed (simp add: builtin_peek_def)

lemma run_builtin_sem:
  assumes "builtin_lookup builtin_registrations func (length vs) = Some f"
  shows "run_builtin fl f (length (m_slots m)) (st m K v (vs @ post) n) =
    outcome_of (st m K v (vs @ post) n) (builtin_sem fl (view m) f vs)"
proof -
  have "(f = BAbs \<and> length vs = 1) \<or> (f = BMin \<and> length vs = 2) \<or> (f = BMax \<and> length vs = 2) \<or>
      (f = BClamp \<and> length vs = 3) \<or> (f = BPeek \<and> length vs = 0)"
    using assms by (auto simp: builtin_lookup_def builtin_registrations_def split: if_splits)
  then consider (abs) a where "f = BAbs" "vs = [a]" | (min) a b where "f = BMin" "vs = [a, b]"
    | (max) a b where "f = BMax" "vs = [a, b]" | (clamp) a b c where "f = BClamp" "vs = [a, b, c]"
    | (peek) "f = BPeek" "vs = []"
    by (auto simp: length_Suc_conv numeral_eq_Suc)
  then show ?thesis
  proof cases
    case peek
    then show ?thesis using peek_sem by (simp add: run_builtin_def)
  next
    case abs
    then show ?thesis
      by (auto simp: run_builtin_def builtin_abs_def slot_def nth_append ac_int_exact abs_if ac_val
          simp del: outcome_simps(1) split: option.splits val.splits)
  next
    case min
    then show ?thesis
      by (auto simp: run_builtin_def builtin_minmax_def slot_def nth_append min_def exact_sint sint_eq ac_val
          simp del: outcome_simps(1) split: option.splits val.splits)
  next
    case max
    then show ?thesis
      by (auto simp: run_builtin_def builtin_minmax_def slot_def nth_append max_def exact_sint sint_eq ac_val
          simp del: outcome_simps(1) split: option.splits val.splits)
  next
    case clamp
    then show ?thesis
      by (auto simp: run_builtin_def builtin_clamp_def slot_def nth_append min_def exact_sint sint_eq ac_val
          simp del: outcome_simps(1) split: option.splits val.splits)
  qed
qed

lemma computes_call:
  assumes dk: "deps_ok d" and g: "d_prog d k = E (CallK func args)" and a: "list_all2 (computes d) args xs"
  shows "computes d k (XCall func xs)"
proof (rule computesI)
  fix m :: machine and K assume f: "\<not> m_failed m"
    and s: "(cek_step d)\<^sup>*\<^sup>* m (st m (Static k # K) (m_result m) [] (b_next (m_builder m)))"
  let ?b = "length (m_slots m)" and ?n = "length args"
  let ?C = "Dyn (CallApply func ?b ?n)"
  have "invoke d (Static k) (st m K (m_result m) [] (b_next (m_builder m))) =
      Some (st m (arg_items ?b 0 args @ ?C # K) (m_result m) (replicate ?n None @ (if args = [] then [None] else []))
        (b_next (m_builder m)))"
    using g by (auto simp: invoke_static invoke_expr_def CallKont_invoke_def new_slots_def push_args_items push_kont_def st_def)
  from step_st [OF f s this]
  have s1: "(cek_step d)\<^sup>*\<^sup>* m (st m (arg_items ?b (length []) args @ ?C # K) (m_result m)
      ([] @ replicate ?n None @ (if args = [] then [None] else [])) (b_next (m_builder m)))" by simp
  show "comes_to d m K (eval d (view m) (XCall func xs) (b_next (m_builder m)))"
    unfolding eval.simps
  proof (rule refines_args [OF a f s1])
    fix vs w n1 post1
    assume l: "length vs = length args" and s2: "(cek_step d)\<^sup>*\<^sup>* m (st m (?C # K) w ([] @ vs @ post1) n1)"
    have "CallApplyKont_invoke d func ?b ?n (st m K w (vs @ post1) n1) =
        outcome_of (st m K w (vs @ post1) n1) (call_sem d (view m) func vs)"
    proof (cases "Option.bind (d_builtins d) (\<lambda>t. builtin_lookup t func ?n)")
      case None
      then show ?thesis using l by (simp add: CallApplyKont_invoke_def call_sem_def)
    next
      case (Some fn)
      then have "builtin_lookup builtin_registrations func (length vs) = Some fn"
        using dk l by (auto simp: deps_ok_def)
      from run_builtin_sem [OF this] show ?thesis using Some l by (simp add: CallApplyKont_invoke_def call_sem_def)
    qed
    then show "comes_to d m K (call_sem d (view m) func vs, n1)"
      using refines_last [OF f s2 [simplified]] by (simp add: invoke_dynamic invoke_dyn_def)
  qed
qed

lemma field_op_sem: "FieldAccessApplyKont_invoke name m = outcome_of m (field_sem name (m_result m))"
  by (auto simp: FieldAccessApplyKont_invoke_def field_sem_def ac_val simp del: outcome_simps(1) split: option.splits val.splits)

lemma index_op_sem:
  "IndexAccessApplyKont_invoke (length (m_slots m)) (st m K v (w # ss) n) = outcome_of (st m K v (w # ss) n) (index_sem v w)"
  by (auto simp: IndexAccessApplyKont_invoke_def index_sem_def slot_st ac_val simp del: outcome_simps(1)
      split: option.splits val.splits)

lemma capture_op_sem:
  "CaptureValueApplyKont_invoke fl (st m K v ss n) = outcome_of (st m K v ss n) (capture_sem fl (view m) v)"
  by (auto simp: CaptureValueApplyKont_invoke_def capture_sem_def ac_def split: option.splits val.splits rr.splits)

lemma computes_leaves:
  "d_prog d k = E (IntLit i) \<Longrightarrow> computes d k (XLit (IntV i))"
  "d_prog d k = E (BoolLit b) \<Longrightarrow> computes d k (XLit (BoolV b))"
  "d_prog d k = E (FloatLit x) \<Longrightarrow> computes d k (XFloat x)"
  "d_prog d k = E (StrLit s) \<Longrightarrow> computes d k (XLit (StringV s))"
  "d_prog d k = E (Ref name r) \<Longrightarrow> computes d k (XRef name)"
  "d_prog d k = E PosK \<Longrightarrow> computes d k XPos"
  "d_prog d k = E RemainingK \<Longrightarrow> computes d k XRemaining"
  "d_prog d k = E EOIK \<Longrightarrow> computes d k XEoi"
  "d_prog d k = E LoopVarK \<Longrightarrow> computes d k XLoop"
  "d_prog d k = E StartK \<Longrightarrow> computes d k XStart"
  "d_prog d k = E EndK \<Longrightarrow> computes d k XEnd"
  "d_prog d k = E (PathStart name) \<Longrightarrow> computes d k (XPath name)"
  by (rule computes_leaf, assumption, auto simp: invoke_expr_def leaf_defs ac_def split: option.splits)+

lemma computes_buffer: "d_prog d k = E BufferK \<Longrightarrow> computes d k XBuffer"
proof (rule computesI)
  fix m :: machine and K assume g: "d_prog d k = E BufferK" and f: "\<not> m_failed m"
    and s: "(cek_step d)\<^sup>*\<^sup>* m (st m (Static k # K) (m_result m) [] (b_next (m_builder m)))"
  have "invoke d (Static k) (st m K (m_result m) [] (b_next (m_builder m))) = Some (st m K
      (Some (CaptureV (Node ((new_attrs (b_next (m_builder m)))\<lparr>nd_start := current_scope_start (m_builder m),
        nd_end := m_pos m, nd_type := CBytes\<rparr>) []))) [] (b_next (m_builder m) + 1))"
    using g by (simp add: invoke_static invoke_expr_def BufferKont_invoke_def carrier_def make_free_def on_attr_def
        set_res_def st_def)
  from step_st [OF f s this] show "comes_to d m K (eval d (view m) XBuffer (b_next (m_builder m)))"
    by (simp add: refines_value)
qed

lemma denotes_computes:
  assumes d: "deps_ok d"
  shows "denotes (d_prog d) k x \<Longrightarrow> computes d k x"
proof (induction rule: denotes.induct)
  case (bin k op l r x y)
  show ?case
    by (rule computes_two_phase [OF bin(1) _ bin(4,5), where ak = "ApplyBin op" and sem = "bin_sem (d_fl d) op"])
      (simp_all add: invoke_expr_def BinopKont_invoke_def invoke_dyn_def ApplyBinKont_invoke_def slot_st bin_op_sem)
next
  case (index k b i x y)
  show ?case
    by (rule computes_two_phase [OF index(1) _ index(4,5), where ak = IndexAccessApply and sem = index_sem])
      (simp_all add: invoke_expr_def IndexAccessKont_invoke_def invoke_dyn_def index_op_sem)
next
  case (un k op a x)
  show ?case
    by (rule computes_unary [OF un(1) _ un(3), where ak = "ApplyUn op" and sem = "\<lambda>c. un_sem op"])
      (simp_all add: invoke_expr_def UnaryKont_invoke_def invoke_dyn_def un_op_sem)
next
  case (field k b name x)
  show ?case
    by (rule computes_unary [OF field(1) _ field(3), where ak = "FieldAccessApply name" and sem = "\<lambda>c. field_sem name"])
      (simp_all add: invoke_expr_def FieldAccessKont_invoke_def invoke_dyn_def field_op_sem)
next
  case (leaf k p x)
  show ?case
    by (rule computes_unary [OF leaf(1) _ leaf(3), where ak = CaptureValueApply and sem = "capture_sem (d_fl d)"])
      (simp_all add: invoke_expr_def CaptureValueKont_invoke_def invoke_dyn_def capture_op_sem)
next
  case (call k func args xs)
  have "list_all2 (computes d) args xs" using call(2) by (rule list_all2_mono) simp
  then show ?case by (rule computes_call [OF d call(1)])
next
  case (conj k l r x y)
  then show ?case by (simp add: computes_and)
next
  case (disj k l r x y)
  then show ?case by (simp add: computes_or)
next
  case (cond k c t f x y z)
  then show ?case by (simp add: computes_cond)
qed (auto intro: computes_leaves computes_buffer)

end
