(* ===== verification/LowerExpr.thy ===== *)
theory LowerExpr
  imports LowerSafe CekEval
begin

text \<open>
  What the lowering of an expression computes. An expression of the grammar stands for a tree of the
  evaluator of \<open>CekEval\<close>, and the konts \<open>compile_expr\<close> makes denote that tree in every arena that grows out of
  theirs. With the theorem that the machine computes what a kont denotes, a lowered expression means what
  its tree means.
\<close>

section \<open>The tree of an expression\<close>

fun operator_tree :: "ast_binop \<Rightarrow> ex \<Rightarrow> ex \<Rightarrow> ex" where
  "operator_tree ast_binop.And x y = XAnd x y"
| "operator_tree ast_binop.Or x y = XOr x y"
| "operator_tree ast_binop.Add x y = XBin binop.Add x y"
| "operator_tree ast_binop.Sub x y = XBin binop.Sub x y"
| "operator_tree ast_binop.Mul x y = XBin binop.Mul x y"
| "operator_tree ast_binop.Div x y = XBin binop.Div x y"
| "operator_tree ast_binop.Mod x y = XBin binop.Mod x y"
| "operator_tree ast_binop.BitAnd x y = XBin binop.BitAnd x y"
| "operator_tree ast_binop.BitOr x y = XBin binop.BitOr x y"
| "operator_tree ast_binop.BitXor x y = XBin binop.BitXor x y"
| "operator_tree ast_binop.Shl x y = XBin binop.Shl x y"
| "operator_tree ast_binop.Shr x y = XBin binop.Shr x y"
| "operator_tree ast_binop.Eq x y = XBin binop.Eq x y"
| "operator_tree ast_binop.Ne x y = XBin binop.Ne x y"
| "operator_tree ast_binop.Lt x y = XBin binop.Lt x y"
| "operator_tree ast_binop.Le x y = XBin binop.Le x y"
| "operator_tree ast_binop.Gt x y = XBin binop.Gt x y"
| "operator_tree ast_binop.Ge x y = XBin binop.Ge x y"

text \<open>What has no rule in the lowering is a call of an unknown function.\<close>

definition unop_tree :: "ast_unop \<Rightarrow> ex \<Rightarrow> ex" where
  "unop_tree op x = (case lower_unop op of Some u \<Rightarrow> XUn u x | None \<Rightarrow> XCall [] [x])"

definition builtin_tree :: "string \<Rightarrow> ex" where
  "builtin_tree n =
     (if n = ''pos'' then XPos else if n = ''start'' then XStart else if n = ''end'' then XEnd
      else if n = ''remaining'' then XRemaining else if n = ''index'' then XLoop
      else if n = ''buffer'' then XBuffer else XCall [] [])"

definition step_tree :: "string \<Rightarrow> ex \<Rightarrow> ex" where
  "step_tree field x = (if field = [] then x else XField x field)"

fun tree :: "expr \<Rightarrow> ex" and path_tree :: "ref_path \<Rightarrow> ex" where
  "tree (expr.IntLit n) = XLit (IntV n)"
| "tree (expr.BoolLit b) = XLit (BoolV b)"
| "tree (expr.FloatLit f) = XFloat f"
| "tree (expr.StrLit s) = XLit (StringV s)"
| "tree (EndianLit v) = XLit (BoolV (v = Little))"
| "tree EOI = XEoi"
| "tree (Builtin n) = builtin_tree n"
| "tree (expr.Ref p) = (case p of Simple n _ _ _ \<Rightarrow> XRef n | _ \<Rightarrow> XValue (path_tree p))"
| "tree (BinOp l op r) = operator_tree op (tree l) (tree r)"
| "tree (UnaryOp op e) = unop_tree op (tree e)"
| "tree (Ternary c t e) = XCond (tree c) (tree t) (tree e)"
| "tree (Call f args) = XCall f (map tree args)"
| "path_tree (Simple n _ _ _) = XPath n"
| "path_tree (FieldAcc b f) = step_tree f (path_tree b)"
| "path_tree (IndexAcc b i) = XIndex (path_tree b) (tree i)"

section \<open>Konts that denote a tree\<close>

text \<open>In every arena that grows out of this one.\<close>

definition stands :: "kont list \<Rightarrow> kid \<Rightarrow> ex \<Rightarrow> bool" where
  "stands a k x = (\<forall>a'. grows_to a a' \<longrightarrow> denotes (graph_of a') k x)"

lemma stands_grows: "stands a k x \<Longrightarrow> grows_to a a' \<Longrightarrow> stands a' k x"
  by (auto simp: stands_def intro: arena_grows_trans)

lemma standsD: "stands a k x \<Longrightarrow> grows_to a a' \<Longrightarrow> denotes (graph_of a') k x"
  by (simp add: stands_def)

definition means :: "lower \<Rightarrow> (kid \<times> lower) option \<Rightarrow> ex \<Rightarrow> bool" where
  "means lo r x = (\<forall>k lo1. r = Some (k, lo1) \<longrightarrow> grows_to (lo_arena lo) (lo_arena lo1) \<and> stands (lo_arena lo1) k x)"

lemma make_e_kont: "make_e e lo = Some (k, lo1) \<Longrightarrow> grows_to (lo_arena lo) (lo_arena lo1) \<and>
   (\<forall>a. grows_to (lo_arena lo1) a \<longrightarrow> graph_of a k = E e)"
proof -
  assume "make_e e lo = Some (k, lo1)"
  then have k: "k = length (lo_arena lo)" "lo_arena lo1 = lo_arena lo @ [E e]"
    by (auto simp: make_e_def alloc_def)
  have "graph_of a k = E e" if g: "grows_to (lo_arena lo1) a" for a
  proof -
    have l: "k < length (lo_arena lo1)" using k by simp
    have "lo_arena lo1 ! k = E e" using k by simp
    then have "a ! k = E e" using shell_kinds(1) [OF grows_shell [OF g l]] by blast
    then show ?thesis using grows_less [OF g l] by (simp add: graph_of_def)
  qed
  then show ?thesis using k by simp
qed

lemma means_make:
  assumes "\<And>a k. grows_to (lo_arena lo) a \<Longrightarrow> graph_of a k = E e \<Longrightarrow> denotes (graph_of a) k x"
  shows "means lo (make_e e lo) x"
  unfolding means_def
proof (intro allI impI)
  fix k lo1 assume "make_e e lo = Some (k, lo1)"
  note m = make_e_kont [OF this]
  have g: "grows_to (lo_arena lo) a" if "grows_to (lo_arena lo1) a" for a using arena_grows_trans m that by blast
  show "grows_to (lo_arena lo) (lo_arena lo1) \<and> stands (lo_arena lo1) k x"
    unfolding stands_def using assms [OF g] m by blast
qed

lemma means_bind:
  assumes "means lo r x"
    and "\<And>k lo1. grows_to (lo_arena lo) (lo_arena lo1) \<Longrightarrow> stands (lo_arena lo1) k x \<Longrightarrow> means lo1 (f (k, lo1)) y"
  shows "means lo (Option.bind r f) y"
  unfolding means_def
proof (intro allI impI)
  fix k lo2 assume "Option.bind r f = Some (k, lo2)"
  then obtain j lo1 where r: "r = Some (j, lo1)" and f: "f (j, lo1) = Some (k, lo2)"
    by (auto simp: bind_eq_Some_conv)
  show "grows_to (lo_arena lo) (lo_arena lo2) \<and> stands (lo_arena lo2) k y"
    using assms(2) [of lo1 j] assms(1) r f arena_grows_trans unfolding means_def by blast
qed

lemma means_from: "means lo1 r x \<Longrightarrow> grows_to (lo_arena lo) (lo_arena lo1) \<Longrightarrow> means lo r x"
  unfolding means_def using arena_grows_trans by blast

section \<open>Expressions\<close>

definition all_mean :: "lower \<Rightarrow> (kid list \<times> lower) option \<Rightarrow> ex list \<Rightarrow> bool" where
  "all_mean lo r xs = (\<forall>ks lo1. r = Some (ks, lo1) \<longrightarrow>
     grows_to (lo_arena lo) (lo_arena lo1) \<and> list_all2 (stands (lo_arena lo1)) ks xs)"

lemma args_mean:
  "(\<And>e lo. e \<in> set es \<Longrightarrow> means lo (compile_expr e lo) (tree e)) \<Longrightarrow> all_mean lo (compile_call_args es lo) (map tree es)"
proof (induction es arbitrary: lo)
  case (Cons e es)
  show ?case unfolding all_mean_def
  proof (intro allI impI)
    fix ks lo2 assume "compile_call_args (e # es) lo = Some (ks, lo2)"
    then obtain k lo1 js where e: "compile_expr e lo = Some (k, lo1)" and es: "compile_call_args es lo1 = Some (js, lo2)"
      and ks: "ks = k # js" by (auto simp: bind_eq_Some_conv)
    have a: "grows_to (lo_arena lo) (lo_arena lo1)" "stands (lo_arena lo1) k (tree e)"
      using Cons.prems [of e lo] e by (auto simp: means_def)
    have b: "grows_to (lo_arena lo1) (lo_arena lo2)" "list_all2 (stands (lo_arena lo2)) js (map tree es)"
      using Cons.IH [of lo1] Cons.prems es by (auto simp: all_mean_def)
    show "grows_to (lo_arena lo) (lo_arena lo2) \<and> list_all2 (stands (lo_arena lo2)) ks (map tree (e # es))"
      using a b ks stands_grows [OF a(2) b(1)] arena_grows_trans [OF a(1) b(1)] by simp
  qed
qed (simp add: all_mean_def)

lemma step_means: "stands (lo_arena lo) k x \<Longrightarrow> means lo (step_into field k lo) (step_tree field x)"
  by (auto simp: step_into_def step_tree_def means_def [where r = "Some _"] intro!: means_make denotes.field
      intro: standsD)

lemma operator_denotes:
  "g k = E (lower_binop op l r) \<Longrightarrow> denotes g l x \<Longrightarrow> denotes g r y \<Longrightarrow> denotes g k (operator_tree op x y)"
  by (cases op) (auto intro: denotes.intros)

lemma builtin_denotes: "make_builtin n = Some e \<Longrightarrow> g k = E e \<Longrightarrow> denotes g k (builtin_tree n)"
  by (auto simp: make_builtin_def builtin_tree_def intro: denotes.intros split: if_splits)

text \<open>A lowered expression denotes its tree.\<close>

lemma compile_expr_means:
  "\<And>lo. means lo (compile_expr e lo) (tree e)"
  "\<And>lo field. means lo (compile_ref_path p field lo) (step_tree field (path_tree p))"
proof (induction e and p)
  case (BinOp l op r)
  show ?case unfolding compile_expr.simps tree.simps
    by (rule means_bind [OF BinOp(1)], simp only: split_conv, rule means_bind [OF BinOp(2)], simp only: split_conv, rule means_make)
      (auto intro!: operator_denotes intro: standsD arena_grows_trans)
next
  case (UnaryOp op e)
  then show ?case
  proof (cases "lower_unop op")
    case (Some u)
    show ?thesis unfolding compile_expr.simps tree.simps unop_tree_def Some bind.bind_lunit option.case
      by (rule means_bind [OF UnaryOp], simp only: split_conv, rule means_make)
        (auto intro!: denotes.un intro: standsD arena_grows_trans)
  qed (simp add: means_def)
next
  case (Ternary c t e)
  show ?case unfolding compile_expr.simps tree.simps
    by (rule means_bind [OF Ternary(1)], simp only: split_conv, rule means_bind [OF Ternary(2)], simp only: split_conv,
        rule means_bind [OF Ternary(3)], simp only: split_conv, rule means_make)
      (auto intro!: denotes.cond intro: standsD arena_grows_trans)
next
  case (Ref p)
  have path: "means lo (Option.bind (compile_ref_path p [] lo) (\<lambda>(k, lo1). make_e (CaptureValue k) lo1)) (XValue (path_tree p))" for lo
    by (rule means_bind [OF Ref [of lo "[]", unfolded step_tree_def, simplified]], simp only: split_conv, rule means_make)
      (auto intro!: denotes.leaf intro: standsD)
  show ?case
  proof (cases p)
    case (Simple n rp rpar rd)
    then show ?thesis by (auto intro!: means_make denotes.intros(5))
  qed (use path in \<open>auto simp only: compile_ref_eq tree.simps ref_path.case\<close>)
next
  case (Call f args)
  show ?case unfolding means_def
  proof (intro allI impI)
    fix k lo2 assume "compile_expr (Call f args) lo = Some (k, lo2)"
    then obtain ks lo1 where a: "compile_call_args args lo = Some (ks, lo1)" and k: "make_e (CallK f ks) lo1 = Some (k, lo2)"
      by (auto simp: bind_eq_Some_conv)
    have "all_mean lo (compile_call_args args lo) (map tree args)" by (rule args_mean) (rule Call)
    then have g: "grows_to (lo_arena lo) (lo_arena lo1)" and ks: "list_all2 (stands (lo_arena lo1)) ks (map tree args)"
      using a by (auto simp: all_mean_def)
    have "list_all2 (denotes (graph_of a')) ks (map tree args)" if "grows_to (lo_arena lo1) a'" for a'
      using ks by (rule list_all2_mono) (use that in \<open>auto simp: stands_def\<close>)
    then have "means lo1 (make_e (CallK f ks) lo1) (tree (Call f args))"
      unfolding tree.simps by (intro means_make denotes.call) auto
    then show "grows_to (lo_arena lo) (lo_arena lo2) \<and> stands (lo_arena lo2) k (tree (Call f args))"
      using k means_from [OF _ g] unfolding means_def by blast
  qed
next
  case (Builtin n)
  then show ?case
    by (auto simp: means_def [where r = None] intro!: means_make builtin_denotes split: bind_splits)
next
  case (FieldAcc b f)
  show ?case unfolding compile_ref_path.simps path_tree.simps
    by (rule means_bind [OF FieldAcc], simp only: split_conv, rule step_means)
next
  case (IndexAcc b i)
  have i: "means lo (compile_expr i lo) (tree i)" for lo by (rule IndexAcc)
  have b: "means lo (compile_ref_path b [] lo) (path_tree b)" for lo
    using IndexAcc(1) [of lo "[]"] by (simp add: step_tree_def)
  show ?case unfolding compile_ref_path.simps path_tree.simps
    by (rule means_bind [OF i], simp only: split_conv, rule means_bind [OF b], simp only: split_conv,
        rule means_bind [OF means_make], rule denotes.index, assumption)
      (auto intro: standsD arena_grows_trans step_means)
next
  case (Simple n rp rpar rd)
  show ?case unfolding compile_ref_path.simps path_tree.simps
    by (rule means_bind [OF means_make [OF denotes.path]], assumption, simp only: split_conv, rule step_means)
qed (auto simp: endian_to_bool_def intro!: means_make intro: denotes.intros)

section \<open>On the machine\<close>

lemma lowered_comes_to:
  assumes "compile_expr e lo = Some (k, lo1)" and "grows_to (lo_arena lo1) arena"
    and "d_prog d = graph_of arena" and "deps_ok d" and "m_k m = Static k # K" and "\<not> m_failed m"
  shows "comes_to d m K (eval d (view m) (tree e) (b_next (m_builder m)))"
proof -
  have "denotes (d_prog d) k (tree e)"
    using compile_expr_means(1) [of lo e] assms(1-3) by (simp add: means_def stands_def)
  then have "computes d k (tree e)" by (rule denotes_computes [OF assms(4)])
  then show ?thesis using assms(5,6) by (simp add: computes_def)
qed

text \<open>C10: The machine gives a lowered expression the value of its tree: from the kont \<open>compile_expr\<close> returns, in
  any graph the rest of the lowering and the linking make of the arena, the machine comes to the value the
  evaluator gives, or fails with its message, or meets undefined behaviour where the evaluator says so. The
  evaluator follows the code where \<open>docs/CEK Machine Design.md\<close> says otherwise: an integer next to a double is
  promoted (section 6.2 has the mixture fail), and a type error, a division by zero or an undefined reference is
  a failure that a choice around the expression recovers from (section 10.1 calls them fatal).\<close>

theorem lowered_expression:
  assumes "compile_expr e lo = Some (k, lo1)" and "grows_to (lo_arena lo1) arena"
    and "d_prog d = graph_of arena" and "deps_ok d" and "m_k m = Static k # K" and "\<not> m_failed m"
  shows "comes_to d m K (eval d (view m) (tree e) (b_next (m_builder m)))"
  by (rule lowered_comes_to [OF assms])

text \<open>\<open>7 * 6 == 40 + 2\<close>, lowered.\<close>

definition answer_expr :: expr where
  "answer_expr = BinOp (BinOp (expr.IntLit 7) ast_binop.Mul (expr.IntLit 6)) ast_binop.Eq
     (BinOp (expr.IntLit 40) ast_binop.Add (expr.IntLit 2))"

definition answer_konts :: "kont list" where
  "answer_konts = [E (ekont.IntLit 7), E (ekont.IntLit 6), E (BinK binop.Mul 0 1), E (ekont.IntLit 40),
     E (ekont.IntLit 2), E (BinK binop.Add 3 4), E (BinK binop.Eq 2 5)]"

definition answer_machine :: machine where
  "answer_machine = fresh_machine\<lparr>m_k := [Static 6]\<rparr>"

theorem lowered_expression_witness:
  "compile_expr answer_expr \<lparr>lo_arena = [], lo_patches = []\<rparr> = Some (6, \<lparr>lo_arena = answer_konts, lo_patches = []\<rparr>) \<and>
   (\<exists>ss n. (cek_step (deps_of (answer_konts @ [S Halt])))\<^sup>*\<^sup>* answer_machine (st answer_machine [] (Some (BoolV True)) ss n))"
proof -
  let ?d = "deps_of (answer_konts @ [S Halt])"
  have c: "compile_expr answer_expr \<lparr>lo_arena = [], lo_patches = []\<rparr> = Some (6, \<lparr>lo_arena = answer_konts, lo_patches = []\<rparr>)"
    by (simp add: answer_expr_def answer_konts_def make_e_def alloc_def)
  have p: "d_prog ?d = graph_of (answer_konts @ [S Halt])" by (simp add: deps_of_def)
  have k: "m_k answer_machine = Static 6 # []" "\<not> m_failed answer_machine"
    by (simp_all add: answer_machine_def fresh_machine_def)
  have v: "eval ?d (view answer_machine) (tree answer_expr) (b_next (m_builder answer_machine)) = (Val (Some (BoolV True)), 0)"
    by code_simp
  have "comes_to ?d answer_machine [] (eval ?d (view answer_machine) (tree answer_expr) (b_next (m_builder answer_machine)))"
    by (rule lowered_expression [OF c _ p deps_of_ok k]) simp
  then show ?thesis using c unfolding v by (auto simp: comes_to_def)
qed

end
