(* ===== verification/TypeSound.thy ===== *)
theory TypeSound
  imports LowerExpr LowerTotal SemaTypes
begin

text \<open>
  Types that hold at run time. \<open>Sema\<close> gives expressions kinds (\<open>type_of_expr\<close>); the machine computes with
  tagged values and fails with a type error where an operator has no case for the tags. An expression the
  analysis types has a value of its type, or one of a few other failures, never a type error, in an
  environment that binds values of the types of the fields in scope; and the fields bind such values.

  The analysis is permissive: what it can not see is \<open>Unknown\<close> and passes every check. The theorem is about
  expressions in which nothing is unknown. Beyond that it needs two things the analysis does not ask for:
  integer operands of \<open>%\<close>, and operands of an ordered comparison that are both numbers or both strings.
\<close>

section \<open>Values of a type\<close>

fun has_type :: "ExprType \<Rightarrow> val option \<Rightarrow> bool" where
  "has_type TInteger v = (\<exists>i. v = Some (IntV i))"
| "has_type TFloat v = (\<exists>x. v = Some (FloatV x))"
| "has_type TNumeric v = ((\<exists>i. v = Some (IntV i)) \<or> (\<exists>x. v = Some (FloatV x)))"
| "has_type TBool v = (\<exists>b. v = Some (BoolV b))"
| "has_type TString v = (\<exists>s. v = Some (StringV s))"
| "has_type TBytes v = (\<exists>n. v = Some (CaptureV n))"
| "has_type TEndian v = (\<exists>b. v = Some (BoolV b))"
| "has_type Unknown v = True"

text \<open>Scalars: the types of fields whose value the environment holds.\<close>

definition scalar :: "ExprType \<Rightarrow> bool" where
  "scalar t = (t \<in> {TInteger, TFloat, TBool})"

definition env_typed :: "(string \<times> ExprType) list \<Rightarrow> env \<Rightarrow> bool" where
  "env_typed types en = (\<forall>name t. map_of types name = Some t \<longrightarrow> scalar t \<longrightarrow>
     (\<exists>b. env_lookup en name = Some b \<and> has_type t (bd_value b)))"

section \<open>Expressions without unknown parts\<close>

definition number :: "ExprType \<Rightarrow> bool" where
  "number t = (t \<in> {TInteger, TFloat, TNumeric})"

definition operands_ok :: "ast_binop \<Rightarrow> ExprType \<Rightarrow> ExprType \<Rightarrow> bool" where
  "operands_ok op l r = ((op = ast_binop.Mod \<longrightarrow> l = TInteger \<and> r = TInteger) \<and>
     (op \<in> {ast_binop.Lt, ast_binop.Le, ast_binop.Gt, ast_binop.Ge} \<longrightarrow> number l \<and> number r \<or> l = TString \<and> r = TString))"

fun seen :: "rules \<Rightarrow> scope \<Rightarrow> expr \<Rightarrow> bool" where
  "seen rs sc (expr.Ref p) = (case p of Simple name _ _ _ \<Rightarrow> (case map_of (sc_types sc) name of Some t \<Rightarrow> scalar t | None \<Rightarrow> False)
     | _ \<Rightarrow> False)"
| "seen rs sc (Builtin name) = (name \<in> set known_builtins)"
| "seen rs sc (BinOp l op r) = (seen rs sc l \<and> seen rs sc r \<and>
     operands_ok op (fst (type_of_expr rs sc l)) (fst (type_of_expr rs sc r)))"
| "seen rs sc (UnaryOp op e) = (op \<noteq> Abs \<and> seen rs sc e)"
| "seen rs sc (Ternary c t e) = (seen rs sc c \<and> seen rs sc t \<and> seen rs sc e \<and>
     fst (type_of_expr rs sc (Ternary c t e)) \<noteq> Unknown)"
| "seen rs sc (Call func args) = (func \<in> {''crc32'', ''checksum_xor'', ''peek''} \<and> list_all (seen rs sc) args)"
| "seen rs sc _ = True"

text \<open>What can still go wrong.\<close>

definition failures :: "string list" where
  "failures = [''division by zero'', ''loop variable used outside array'', ''peek: end of input'', ''unknown function'']"

definition keeps :: "ExprType \<Rightarrow> eres \<times> nat \<Rightarrow> bool" where
  "keeps t r = (case fst r of Val v \<Rightarrow> has_type t v | Err msg \<Rightarrow> msg \<in> set failures | Undef \<Rightarrow> True)"

lemma typed_res_simps [simp]:
  "keeps t (Val v, n) = has_type t v" "keeps t (Err msg, n) = (msg \<in> set failures)" "keeps t (Undef, n)"
  by (simp_all add: keeps_def)

lemma keeps_bind:
  "keeps t r \<Longrightarrow> (\<And>v n. has_type t v \<Longrightarrow> keeps t' (f v n)) \<Longrightarrow> keeps t' (ebind r f)"
  by (cases r; cases "fst r") (auto simp: ebind_def keeps_def)

lemma keeps_exact: "keeps TInteger (exact x, n)"
  by (simp add: exact_def keeps_def)

lemma keeps_truth [simp]: "keeps TBool (truth_value b, n)"
  by (simp add: truth_value_def)

section \<open>Operators\<close>

definition ordering :: "ast_binop \<Rightarrow> bool" where
  "ordering op = (op \<in> {ast_binop.Lt, ast_binop.Le, ast_binop.Gt, ast_binop.Ge})"

lemma int_sem_keeps:
  "op \<in> {Add, Sub, Mul, Div, Mod, BitAnd, BitOr, BitXor, Shl, Shr} \<Longrightarrow> keeps TInteger (int_sem op a b, n)"
  "op \<in> {Eq, Ne, Lt, Le, Gt, Ge} \<Longrightarrow> keeps TBool (int_sem op a b, n)"
  by (cases op; simp add: keeps_exact failures_def)+

lemma float_sem_keeps:
  "op \<in> {Add, Sub, Mul, Div} \<Longrightarrow> keeps TFloat (float_sem fl op x y, n)"
  "op \<in> {Eq, Ne, Lt, Le, Gt, Ge} \<Longrightarrow> keeps TBool (float_sem fl op x y, n)"
  by (cases op; simp)+

lemma string_sem_keeps: "op \<in> {Eq, Ne, Lt, Le, Gt, Ge} \<Longrightarrow> keeps TBool (string_sem op s t, n)"
  by (cases op; simp)

lemma keeps_mono: "keeps t r \<Longrightarrow> (\<And>v. has_type t v \<Longrightarrow> has_type t' v) \<Longrightarrow> keeps t' r"
  by (cases r; cases "fst r") (auto simp: keeps_def)

lemma number_values:
  "number t \<Longrightarrow> has_type t v \<Longrightarrow> (\<exists>i. v = Some (IntV i)) \<and> t \<noteq> TFloat \<or> (\<exists>x. v = Some (FloatV x)) \<and> t \<noteq> TInteger"
  by (cases t) (auto simp: number_def)

lemma number_has:
  "number t \<Longrightarrow> t \<noteq> TFloat \<Longrightarrow> has_type t (Some (IntV i))" "number t \<Longrightarrow> t \<noteq> TInteger \<Longrightarrow> has_type t (Some (FloatV x))"
  by (auto simp: number_def)

lemma number_join:
  assumes "number lt" "number rt"
  shows "number (join lt rt)" "lt \<noteq> TFloat \<Longrightarrow> rt \<noteq> TFloat \<Longrightarrow> join lt rt \<noteq> TFloat"
    "lt \<noteq> TInteger \<or> rt \<noteq> TInteger \<Longrightarrow> join lt rt \<noteq> TInteger"
  using assms by (auto simp: number_def join_def)

lemma arith_keeps:
  assumes "op \<in> {Add, Sub, Mul, Div}" and "number lt" "number rt" and "has_type lt l" "has_type rt r"
  shows "keeps (join lt rt) (bin_sem fl op l r, n)"
proof -
  note j = number_join [OF assms(2,3)]
  have i: "keeps TInteger (int_sem op a b, n)" for a b using assms(1) by (intro int_sem_keeps) auto
  have f: "keeps TFloat (float_sem fl op x y, n)" for x y by (rule float_sem_keeps(1) [OF assms(1)])
  have ji: "keeps (join lt rt) (int_sem op a b, n)" if "lt \<noteq> TFloat" "rt \<noteq> TFloat" for a b
    by (rule keeps_mono [OF i]) (use j that number_has(1) in auto)
  have jf: "keeps (join lt rt) (float_sem fl op x y, n)" if "lt \<noteq> TInteger \<or> rt \<noteq> TInteger" for x y
    by (rule keeps_mono [OF f]) (use j that number_has(2) in auto)
  show ?thesis
    using number_values [OF assms(2,4)] number_values [OF assms(3,5)] by (auto simp: bin_sem_def intro: ji jf)
qed

lemma has_type_Some: "t \<noteq> Unknown \<Longrightarrow> has_type t v \<Longrightarrow> \<exists>w. v = Some w"
  by (cases t) auto

lemma eq_keeps:
  assumes "op \<in> {Eq, Ne}"
  shows "keeps TBool (bin_sem fl op (Some l) (Some r), n)"
proof -
  have i: "keeps TBool (int_sem op a b, n)" for a b using assms by (intro int_sem_keeps) auto
  have f: "keeps TBool (float_sem fl op x y, n)" for x y using assms by (intro float_sem_keeps) auto
  have s: "keeps TBool (string_sem op x y, n)" for x y using assms by (intro string_sem_keeps) auto
  have e: "keeps TBool (eq_sem op b, n)" for b using assms by (auto simp: eq_sem_def)
  show ?thesis by (cases l; cases r) (simp_all add: bin_sem_def i f s e)
qed

lemma ordered_keeps:
  assumes "op \<in> {Lt, Le, Gt, Ge}" and "number lt \<and> number rt \<or> lt = TString \<and> rt = TString"
    and "has_type lt l" "has_type rt r"
  shows "keeps TBool (bin_sem fl op l r, n)"
proof -
  have i: "keeps TBool (int_sem op a b, n)" for a b using assms(1) by (intro int_sem_keeps) auto
  have f: "keeps TBool (float_sem fl op x y, n)" for x y using assms(1) by (intro float_sem_keeps) auto
  have s: "keeps TBool (string_sem op x y, n)" for x y using assms(1) by (intro string_sem_keeps) auto
  show ?thesis
  proof (cases "number lt")
    case True
    then have n: "number rt" using assms(2) by (auto simp: number_def)
    show ?thesis
      using number_values [OF True assms(3)] number_values [OF n assms(4)] by (auto simp: bin_sem_def i f)
  next
    case False
    then show ?thesis using assms(2-4) s by (auto simp: bin_sem_def)
  qed
qed

lemma bitwise_keeps:
  "op \<in> {Mod, BitAnd, BitOr, BitXor, Shl, Shr} \<Longrightarrow> has_type TInteger l \<Longrightarrow> has_type TInteger r \<Longrightarrow>
   keeps TInteger (bin_sem fl op l r, n)"
  by (auto simp del: int_sem.simps simp: bin_sem_def intro!: int_sem_keeps(1))

lemma bool_coerces: "is_boolean_compatible t \<Longrightarrow> t \<noteq> Unknown \<Longrightarrow> has_type t v \<Longrightarrow> \<exists>b. coerce_to_bool v = Some b"
  by (auto simp: is_boolean_compatible_def coerce_to_bool_def)

lemma as_bool_keeps:
  "is_boolean_compatible t \<Longrightarrow> t \<noteq> Unknown \<Longrightarrow> has_type t v \<Longrightarrow> (\<And>b. keeps t' (f b)) \<Longrightarrow> keeps t' (as_bool msg v n f)"
  using bool_coerces [of t v] by (auto simp: as_bool_def)

section \<open>Soundness of the types\<close>

lemma not_reported [simp]: "(require ok d = []) = ok"
  by (simp add: require_def)

lemma numeric_known: "is_numeric t \<Longrightarrow> t \<noteq> Unknown \<Longrightarrow> number t"
  by (auto simp: is_numeric_def number_def)

lemma integer_known: "is_integer t \<Longrightarrow> t \<noteq> Unknown \<Longrightarrow> t = TInteger"
  by (auto simp: is_integer_def)

lemma join_known: "is_numeric l \<Longrightarrow> is_numeric r \<Longrightarrow> l \<noteq> Unknown \<Longrightarrow> r \<noteq> Unknown \<Longrightarrow> join l r \<noteq> Unknown"
  using number_join(1) [OF numeric_known numeric_known, of l r] by (auto simp: number_def)

lemma seen_known:
  "seen rs sc e \<Longrightarrow> snd (type_of_expr rs sc e) = [] \<Longrightarrow> fst (type_of_expr rs sc e) \<noteq> Unknown"
proof (induction rs sc e rule: seen.induct)
  case (1 rs sc p)
  then show ?case by (cases p) (auto simp: scalar_def split: option.splits)
next
  case (3 rs sc l op r)
  then show ?case
    by (auto simp: split_def join_known)
next
  case (4 rs sc op e)
  then show ?case by (cases op) (auto simp: split_def)
qed auto

lemma args_keep:
  assumes "\<And>a n. a \<in> set args \<Longrightarrow> \<exists>t. keeps t (eval d c (tree a) n)"
    and "\<And>vs n. length vs = length args \<Longrightarrow> keeps t (f vs n)"
  shows "keeps t (eval_args d c (map tree args) n f)"
  using assms
proof (induction args arbitrary: n f)
  case (Cons a args)
  obtain ta where "keeps ta (eval d c (tree a) n)" using Cons.prems(1) [of a n] by auto
  then show ?case unfolding list.map eval_args.simps
    by (rule keeps_bind) (rule Cons.IH, use Cons.prems in auto)
qed simp

lemma call_keeps:
  assumes "deps_ok d" and "func \<in> {''crc32'', ''checksum_xor'', ''peek''}"
  shows "keeps TInteger (call_sem d c func vs, n)"
proof -
  have lookup: "builtin_lookup builtin_registrations func k = None \<or>
      func = ''peek'' \<and> k = 0 \<and> builtin_lookup builtin_registrations func k = Some BPeek" for k
    using assms(2) by (auto simp: builtin_lookup_def builtin_registrations_def)
  have peek: "keeps TInteger (builtin_sem fl c BPeek [], n)" for fl
    by (auto simp: keeps_exact failures_def split: option.splits)
  show ?thesis using assms(1) lookup [of "length vs"] peek
    by (auto simp: call_sem_def deps_ok_def failures_def simp del: builtin_sem.simps)
qed

lemma builtin_keeps:
  assumes "name \<in> set known_builtins"
  shows "keeps (if name = ''buffer'' then TBytes else TInteger) (eval d c (builtin_tree name) n)"
  using assms by (auto simp: known_builtins_def builtin_tree_def failures_def split: option.splits)

lemma join_upper:
  "join l r \<noteq> Unknown \<Longrightarrow> has_type l v \<Longrightarrow> has_type (join l r) v"
  "join l r \<noteq> Unknown \<Longrightarrow> has_type r v \<Longrightarrow> has_type (join l r) v"
  by (auto simp: join_def split: if_splits)

lemma env_typedD:
  assumes "env_typed types en" "map_of types name = Some t" "scalar t"
  obtains b where "env_lookup en name = Some b" "has_type t (bd_value b)" "en \<noteq> []"
  using assms by (force simp: env_typed_def env_lookup_def)

lemma typed_keeps:
  assumes "deps_ok d" and "env_typed (sc_types sc) (m_env c)"
  shows "seen rs sc e \<Longrightarrow> snd (type_of_expr rs sc e) = [] \<Longrightarrow> keeps (fst (type_of_expr rs sc e)) (eval d c (tree e) n)"
  using assms(2)
proof (induction rs sc e arbitrary: n rule: seen.induct)
  case (1 rs sc p)
  then obtain name q1 q2 q3 t where p: "p = Simple name q1 q2 q3" and t: "map_of (sc_types sc) name = Some t" "scalar t"
    by (auto split: ref_path.splits option.splits)
  obtain b where "env_lookup (m_env c) name = Some b" "has_type t (bd_value b)" "m_env c \<noteq> []"
    using env_typedD [OF "1.prems"(3) t] .
  then show ?case by (simp add: p t)
next
  case (2 rs sc name)
  then show ?case using builtin_keeps [of name d c n] by simp
next
  case (3 rs sc l op r)
  let ?lt = "fst (type_of_expr rs sc l)" and ?rt = "fst (type_of_expr rs sc r)"
  have s: "seen rs sc l" "seen rs sc r" "snd (type_of_expr rs sc l) = []" "snd (type_of_expr rs sc r) = []"
    and o: "snd (binop_type op ?lt ?rt) = []" "operands_ok op ?lt ?rt"
    and t: "fst (type_of_expr rs sc (BinOp l op r)) = fst (binop_type op ?lt ?rt)"
    using "3.prems" by (auto simp: split_def simp del: binop_type.simps)
  have k: "?lt \<noteq> Unknown" "?rt \<noteq> Unknown" using seen_known s by blast+
  have l: "keeps ?lt (eval d c (tree l) n)" and r: "keeps ?rt (eval d c (tree r) n)" for n
    using 3 s by blast+
  have two: "keeps t' (eval d c (XBin b (tree l) (tree r)) n)"
    if "\<And>v w n. has_type ?lt v \<Longrightarrow> has_type ?rt w \<Longrightarrow> keeps t' (bin_sem (d_fl d) b v w, n)" for b t'
    unfolding eval.simps by (rule keeps_bind [OF r], rule keeps_bind [OF l], rule that)
  have both: "keeps TBool (eval d c (XAnd (tree l) (tree r)) n)" "keeps TBool (eval d c (XOr (tree l) (tree r)) n)"
    if "is_boolean_compatible ?lt" "is_boolean_compatible ?rt"
    unfolding eval.simps
    by (rule keeps_bind [OF l], rule as_bool_keeps [OF that(1) k(1)], assumption,
        auto intro!: keeps_bind [OF r] as_bool_keeps [OF that(2) k(2)])+
  have ar: "keeps (join ?lt ?rt) (bin_sem (d_fl d) b v w, n)"
    if "b \<in> {Add, Sub, Mul, Div}" "is_numeric ?lt" "is_numeric ?rt" "has_type ?lt v" "has_type ?rt w" for b v w n
    using that k by (intro arith_keeps numeric_known)
  have bi: "keeps TInteger (bin_sem (d_fl d) b v w, n)"
    if "b \<in> {Mod, BitAnd, BitOr, BitXor, Shl, Shr}" "?lt = TInteger" "?rt = TInteger" "has_type ?lt v" "has_type ?rt w" for b v w n
    using that bitwise_keeps by simp
  have eq: "keeps TBool (bin_sem (d_fl d) b v w, n)" if "b \<in> {Eq, Ne}" "has_type ?lt v" "has_type ?rt w" for b v w n
    using that(1) has_type_Some [OF k(1) that(2)] has_type_Some [OF k(2) that(3)] eq_keeps by auto
  have od: "keeps TBool (bin_sem (d_fl d) b v w, n)"
    if "b \<in> {Lt, Le, Gt, Ge}" "number ?lt \<and> number ?rt \<or> ?lt = TString \<and> ?rt = TString" "has_type ?lt v" "has_type ?rt w" for b v w n
    using that by (rule ordered_keeps)
  show ?case unfolding t tree.simps
  proof (cases op)
    case Mod
    then have "?lt = TInteger" "?rt = TInteger" using o(2) by (simp_all add: operands_ok_def)
    then show "keeps (fst (binop_type op ?lt ?rt)) (eval d c (operator_tree op (tree l) (tree r)) n)"
      using Mod bi by (auto simp: arithmetic_def join_def simp del: eval.simps intro!: two)
  qed (use o k ar bi eq od both integer_known in \<open>auto simp: arithmetic_def bitwise_def comparison_def operands_ok_def intro!: two simp del: eval.simps\<close>)
next
  case (4 rs sc op e)
  let ?t = "fst (type_of_expr rs sc e)"
  have s: "seen rs sc e" "snd (type_of_expr rs sc e) = []" and o: "snd (unop_type op ?t) = []" "op \<noteq> Abs"
    and t: "fst (type_of_expr rs sc (UnaryOp op e)) = fst (unop_type op ?t)"
    using "4.prems" by (auto simp: split_def simp del: unop_type.simps)
  have k: "?t \<noteq> Unknown" using seen_known s by blast
  have e: "keeps ?t (eval d c (tree e) n)" for n using 4 s by blast
  have one: "keeps t' (eval d c (XUn u (tree e)) n)" if "\<And>v n. has_type ?t v \<Longrightarrow> keeps t' (un_sem u v, n)" for u t'
    unfolding eval.simps by (rule keeps_bind [OF e], rule that)
  have neg: "keeps ?t (un_sem unop.Neg v, n)" if "number ?t" "has_type ?t v" for v n
    using number_values [OF that] number_has [OF that(1)]
    by (auto simp: un_sem_def exact_def)
  have bitnot: "keeps TInteger (un_sem unop.BitNot v, n)" if "has_type TInteger v" for v n
    using that by (auto simp: un_sem_def keeps_exact)
  have lnot: "keeps TBool (un_sem unop.Not v, n)" if "is_boolean_compatible ?t" "has_type ?t v" for v n
    using bool_coerces [OF that(1) k that(2)] by (auto simp: un_sem_def)
  show ?case unfolding t tree.simps
    using o k by (cases op) (auto simp: unop_tree_def simp del: eval.simps
      intro!: one bitnot lnot dest!: integer_known dest: numeric_known intro: neg)
next
  case (5 rs sc b t e)
  let ?b = "fst (type_of_expr rs sc b)" and ?t = "fst (type_of_expr rs sc t)" and ?e = "fst (type_of_expr rs sc e)"
  have s: "seen rs sc b" "seen rs sc t" "seen rs sc e"
    and n: "snd (type_of_expr rs sc b) = []" "snd (type_of_expr rs sc t) = []" "snd (type_of_expr rs sc e) = []"
    and o: "is_boolean_compatible ?b" and j: "fst (type_of_expr rs sc (Ternary b t e)) = join ?t ?e" "join ?t ?e \<noteq> Unknown"
    using "5.prems" by (auto simp: split_def)
  have k: "?b \<noteq> Unknown" using seen_known s n by blast
  have b: "keeps ?b (eval d c (tree b) n)" for n using 5 s n by blast
  have t: "keeps (join ?t ?e) (eval d c (tree t) n)" and e: "keeps (join ?t ?e) (eval d c (tree e) n)" for n
    using 5 s n join_upper [OF j(2)] by (blast intro: keeps_mono)+
  show ?case unfolding j tree.simps eval.simps
    by (rule keeps_bind [OF b], rule as_bool_keeps [OF o k], assumption) (simp add: t e)
next
  case (6 rs sc func args)
  have a: "seen rs sc x \<and> snd (type_of_expr rs sc x) = []" if "x \<in> set args" for x
    using "6.prems" that by (auto simp: list_all_iff)
  have "keeps TInteger (eval_args d c (map tree args) n (\<lambda>vs n1. (call_sem d c func vs, n1)))"
    by (rule args_keep) (use 6 a call_keeps [OF assms(1)] in \<open>auto simp: list_all_iff\<close>)
  then show ?case using "6.prems" by auto
qed (auto simp: failures_def)

section \<open>Typed expressions on the machine\<close>


text \<open>\<open>n * 2 < 10 && !(n == 0)\<close> where \<open>n\<close> is an integer field in scope.\<close>

definition guard_expr :: expr where
  "guard_expr = BinOp
     (BinOp (BinOp (expr.Ref (Simple ''n'' None None 0)) ast_binop.Mul (expr.IntLit 2)) ast_binop.Lt (expr.IntLit 10))
     ast_binop.And
     (UnaryOp ast_unop.Not (BinOp (expr.Ref (Simple ''n'' None None 0)) ast_binop.Eq (expr.IntLit 0)))"

definition guard_scope :: scope where
  "guard_scope = \<lparr>sc_types = [(''n'', TInteger)], sc_bodies = []\<rparr>"

definition guard_konts :: "kont list" where
  "guard_konts = [E (ekont.Ref ''n'' None), E (ekont.IntLit 2), E (BinK binop.Mul 0 1), E (ekont.IntLit 10),
     E (BinK binop.Lt 2 3), E (ekont.Ref ''n'' None), E (ekont.IntLit 0), E (BinK binop.Eq 5 6), E (UnK unop.Not 7),
     E (LAndK 4 8)]"

definition guard_machine :: machine where
  "guard_machine = fresh_machine\<lparr>m_k := [Static 9],
     m_env := [\<lparr>bd_name = ''n'', bd_value = Some (IntV 3), bd_start = 0, bd_end = 1, bd_type = CComputed\<rparr>]\<rparr>"


section \<open>What fields bind\<close>

lemma scalar_primitive: "scalar (type_of_primitive_kind kind) = (kind \<noteq> BytesKind \<and> kind \<noteq> StringKind)"
  by (cases kind) (auto simp: scalar_def)

lemma lift_lower: "scalar t \<Longrightarrow> has_type t (Some v) \<Longrightarrow> lift_computed (Some (lower_computed (Some v))) = Some v"
  by (auto simp: scalar_def lift_computed_def lower_computed_def)

text \<open>A primitive that is not refused yields a capture whose scalar has the type of its kind.\<close>

definition yields_scalar :: "ExprType \<Rightarrow> kid \<Rightarrow> machine \<Rightarrow> machine \<Rightarrow> bool" where
  "yields_scalar t next m m1 = (\<exists>n v. m_result m1 = Some (CaptureV n) \<and> nd_computed (attr n) = Some (lower_computed (Some v)) \<and>
     has_type t (Some v) \<and> m_k m1 = Static next # m_k m \<and> m_env m1 = m_env m \<and> m_failed m1 = m_failed m)"

lemma carrier_yields:
  assumes "m_k m2 = m_k m" "m_env m2 = m_env m" "m_failed m2 = m_failed m" and "has_type t (Some v)"
    and "\<And>a. nd_computed (f a) = Some (lower_computed (Some v))"
  shows "yields_scalar t nx m (push_kont (Static nx) (carrier f m2))"
  using assms by (auto simp: yields_scalar_def carrier_def make_free_def push_kont_def set_res_def on_attr_def)

lemma read_primitive_typed:
  "read_primitive_as_value d m (to_prim_info kind) = Some v \<Longrightarrow> scalar (type_of_primitive_kind kind) \<Longrightarrow>
   has_type (type_of_primitive_kind kind) (Some v)"
  by (cases kind) (auto simp: read_primitive_as_value_def scalar_def Let_def split: if_splits)

text \<open>A primitive is refused for the reason in the message: the window is short of its bytes, or they are no
  LEB128 number of its width.\<close>

definition refused :: "prim_info \<Rightarrow> machine \<Rightarrow> string \<Rightarrow> bool" where
  "refused p m msg =
     (if p_encoding p = prim_encoding.Fixed
      then msg = ''unexpected end of input'' \<and> (\<exists>e. m_effective_end m = Some e \<and> e < m_pos m + word_of_nat (byte_count p))
      else msg = (if p_encoding p = prim_encoding.Uleb then ''invalid uleb128'' else ''invalid sleb128''))"

lemma refused_k [simp]: "refused p (m\<lparr>m_k := ks\<rparr>) msg = refused p m msg"
  by (simp add: refused_def m_effective_end_def)

lemma match_primitive_typed:
  assumes "MatchPrimitiveNode_invoke d (to_prim_info kind) nx m = Some m1" and s: "scalar (type_of_primitive_kind kind)"
  shows "(\<exists>msg. m1 = m_fail msg m \<and> refused (to_prim_info kind) m msg) \<or>
    yields_scalar (type_of_primitive_kind kind) nx m m1"
proof -
  have leb: "p_encoding (to_prim_info kind) \<noteq> prim_encoding.Fixed \<Longrightarrow> type_of_primitive_kind kind = TInteger"
    by (cases kind) auto
  note p = pushing_def failing_def refused_def Let_def
  obtain e where e: "m_effective_end m = Some e" using assms(1) by (cases "m_effective_end m") (auto simp: MatchPrimitiveNode_invoke_def)
  show ?thesis
  proof (cases "p_encoding (to_prim_info kind) = prim_encoding.Fixed")
    case True
    show ?thesis
    proof (cases "e < m_pos m + word_of_nat (byte_count (to_prim_info kind))")
      case False
      then obtain v where v: "read_primitive_as_value d m (to_prim_info kind) = Some v"
        using assms(1) e True by (auto simp: MatchPrimitiveNode_invoke_def p split: option.splits)
      show ?thesis using assms(1) e True False v
        by (auto simp: MatchPrimitiveNode_invoke_def p intro!: carrier_yields [OF _ _ _ read_primitive_typed [OF v s]])
    qed (use assms(1) e True in \<open>auto simp: MatchPrimitiveNode_invoke_def p\<close>)
  next
    case False
    show ?thesis using assms(1) e False
      by (auto simp: MatchPrimitiveNode_invoke_def p leb intro!: carrier_yields split: rr.splits if_splits)
  qed
qed

text \<open>The name of a field bound to a value of its type keeps the environment typed.\<close>

lemma env_typed_bind:
  assumes "env_typed types en" and "bd_name b = name" and "scalar t \<Longrightarrow> has_type t (bd_value b)"
  shows "env_typed ((name, t) # types) (b # en)"
  using assms by (auto simp: env_typed_def env_lookup_def)

lemma step_static:
  assumes "m_k m = Static k # ks" and "\<not> m_failed m" and "d_prog d k = S s"
    and "invoke_spine d s (m\<lparr>m_k := ks\<rparr>) = Some m1"
  shows "cek_step d m m1"
  by (rule cek_step.turn) (use assms in \<open>simp_all add: running_def turn_def invoke_def\<close>)

lemma make_s_kont:
  assumes "make_s s lo = Some (k, lo1)" and "\<not> linked_later (S s)" and "grows_to (lo_arena lo1) a"
  shows "graph_of a k = S s" and "grows_to (lo_arena lo) (lo_arena lo1)"
proof -
  have k: "k = length (lo_arena lo)" "lo_arena lo1 = lo_arena lo @ [S s]"
    using assms(1) by (auto simp: make_s_def alloc_def)
  then show "grows_to (lo_arena lo) (lo_arena lo1)" by simp
  have l: "k < length (lo_arena lo1)" and n: "lo_arena lo1 ! k = S s" using k by simp_all
  have "a ! k = S s" using shell_kinds(5) [OF grows_shell [OF assms(3) l]] n assms(2) by simp
  then show "graph_of a k = S s" using grows_less [OF assms(3) l] by (simp add: graph_of_def)
qed

text \<open>The konts behind a field's name store what was read: the captures of the document first, where the field
  is not \<open>_\<close>, then the environment.\<close>

lemma field_dest_binds:
  assumes "field_dest name tail lo = Some (k, lo1)" and "grows_to (lo_arena lo1) (arena)" and "d_prog d = graph_of arena"
    and m: "m_k m = Static k # K" "\<not> m_failed m" and r: "m_result m = Some (CaptureV n)"
      "nd_computed (attr n) = Some (lower_computed (Some v))" "has_type t (Some v)"
    and t: "scalar t" "env_typed types (m_env m)"
  shows "\<exists>m1. (cek_step d)\<^sup>*\<^sup>* m m1 \<and> m_k m1 = Static tail # K \<and> \<not> m_failed m1 \<and>
    env_typed ((name, t) # types) (m_env m1)"
proof -
  have store: "\<exists>m1. cek_step d m' m1 \<and> m_k m1 = Static tail # K \<and> \<not> m_failed m1 \<and> env_typed ((name, t) # types) (m_env m1)"
    if "d_prog d j = S (StoreEnv name tail)" "m_k m' = Static j # K" "\<not> m_failed m'" "m_result m' = m_result m"
      "m_env m' = m_env m" for j m'
  proof -
    have i: "invoke_spine d (StoreEnv name tail) (m'\<lparr>m_k := K\<rparr>) = Some (push_kont (Static tail) (m'\<lparr>m_k := K,
        m_env := \<lparr>bd_name = name, bd_value = Some v, bd_start = nd_start (attr n), bd_end = nd_end (attr n),
          bd_type = nd_type (attr n)\<rparr> # m_env m\<rparr>))"
      using that r lift_lower [OF t(1) r(3)] by (simp add: invoke_spine_def StoreEnvKont_invoke_def pushing_def Let_def)
    show ?thesis using step_static [OF that(2,3,1) i] that env_typed_bind [OF t(2)] r(3)
      by (auto simp: push_kont_def)
  qed
  show ?thesis
  proof (cases "name = ''_''")
    case True
    then have "d_prog d k = S (StoreEnv name tail)"
      using assms(1-3) make_s_kont(1) [of "StoreEnv name tail" lo k lo1 arena] by (simp add: field_dest_def linked_later_def)
    from store [OF this m] show ?thesis by blast
  next
    case False
    let ?c = "Capture (if name = [] then None else Some name)"
    from assms(1) False obtain j lo2 where s: "make_s (StoreEnv name tail) lo = Some (j, lo2)" and c: "make_s (?c j) lo2 = Some (k, lo1)"
      by (auto simp: field_dest_def bind_eq_Some_conv)
    have k: "d_prog d k = S (?c j)" and g: "grows_to (lo_arena lo2) (lo_arena lo1)"
      using make_s_kont [OF c _ assms(2)] assms(3) by (simp_all add: linked_later_def)
    have j: "d_prog d j = S (StoreEnv name tail)"
      using make_s_kont(1) [OF s _ arena_grows_trans [OF g assms(2)]] assms(3) by (simp add: linked_later_def)
    obtain m1 where m1: "invoke_spine d (?c j) (m\<lparr>m_k := K\<rparr>) = Some m1" "m_k m1 = Static j # K" "\<not> m_failed m1"
        "m_result m1 = m_result m" "m_env m1 = m_env m"
      using r m by (auto simp: invoke_spine_def CaptureKont_invoke_def pushing_def push_kont_def on_builder_def Let_def)
    have "cek_step d m m1" by (rule step_static [OF m k m1(1)])
    with store [OF j m1(2-5)] show ?thesis by (meson converse_rtranclp_into_rtranclp r_into_rtranclp)
  qed
qed

lemma type_of_primitive [simp]: "type_of_type_expr rs (Primitive kind cn iv) = type_of_primitive_kind kind"
  by (simp add: type_of_type_expr_def)


text \<open>A byte field of a struct, on an input of one byte.\<close>

definition byte_kind :: primitive_kind where
  "byte_kind = IntegerKind width.W8 signedness.Unsigned endianness.Default encoding.Fixed"

definition field_konts :: "kont list" where
  "field_konts = [S Halt, S (StoreEnv ''n'' 0), S (Capture (Some ''n'') 1), S (MatchPrimitive (to_prim_info byte_kind) 2)]"


section \<open>Where the types do not hold\<close>

text \<open>A string or bytes field binds no value, so that the comparison of a string field with a literal, which
  the analysis takes to be one of two strings, is a type error. The field \<open>tag: string[2] where tag == "AB"\<close>
  passes the analysis, and a parse of \<open>AB\<close> fails.\<close>

definition tag_grammar :: grammar where
  "tag_grammar = \<lparr>g_directives = [], g_rules = [\<lparr>r_name = ''F'', r_body = Struct [Field ''tag''
     (Primitive StringKind
       (Some (BinOp (expr.Ref (Simple ''tag'' None None 0)) ast_binop.Eq (expr.StrLit ''AB'')))
       (Some (Length (expr.IntLit 2)))) None None False] None\<rparr>]\<rparr>"

definition tag_konts :: "kont list" where
  "tag_konts = [S Halt, S (ReturnRule 0), E (ekont.Ref ''tag'' None), E (ekont.StrLit ''AB''), E (BinK binop.Eq 2 3),
     S AbortRule, S (EvalConstraint 4 (Some 5) 1), E (ekont.IntLit 2), S (StoreEnv ''tag'' 6),
     S (Capture (Some ''tag'') 8), S (MatchBytes 7 True 9)]"

text \<open>A computed field keeps the kind of its expression, not the kind it is declared with: an integer computed
  from a float is one to the analysis and a float to the machine.\<close>

definition derived_grammar :: grammar where
  "derived_grammar = \<lparr>g_directives = [], g_rules = [\<lparr>r_name = ''F'', r_body = Struct
     [Field ''x'' (Primitive (FloatKind width.W32 endianness.Little) None None) None None False,
      Field ''y'' (type_expr.Compute (expr.Ref (Simple ''x'' None None 0)) (Some byte_kind)) None None False,
      Field ''z'' (type_expr.Compute (BinOp (expr.Ref (Simple ''y'' None None 0)) ast_binop.BitAnd (expr.IntLit 1))
        (Some byte_kind)) None None False] None\<rparr>]\<rparr>"

definition derived_konts :: "kont list" where
  "derived_konts = [S Halt, S (ReturnRule 0), E (ekont.Ref ''y'' None), E (ekont.IntLit 1), E (BinK binop.BitAnd 2 3),
     S (StoreEnv ''z'' 1), S (Capture (Some ''z'') 5), S (BindCompute 4 6), E (ekont.Ref ''x'' None), S (StoreEnv ''y'' 7),
     S (Capture (Some ''y'') 9), S (BindCompute 8 10), S (StoreEnv ''x'' 11), S (Capture (Some ''x'') 12),
     S (MatchPrimitive (to_prim_info (FloatKind width.W32 endianness.Little)) 13)]"

definition verdict :: "parse_result rr \<Rightarrow> (bool \<times> string option) option" where
  "verdict r = (case r of Got p \<Rightarrow> Some (pr_success p, pr_message p) | _ \<Rightarrow> None)"

lemma tag_accepted:
  "\<not> sema_failed (validated tag_grammar)" "fst (check_types [] (r_body (hd (g_rules tag_grammar)))) = []"
  by code_simp+

lemma string_field_has_no_value:
  "map_option cg_arena (compile_grammar tag_grammar) = Some tag_konts \<and>
   verdict (execute_from (deps_of tag_konts) 20 (Some 10) [65, 66] 2 True fresh_machine) = Some (False, Some ''type error: =='')"
proof
  show "map_option cg_arena (compile_grammar tag_grammar) = Some tag_konts"
    by (simp add: tag_grammar_def tag_konts_def make_e_def lower_defs cong: bind_weak option.case_cong_weak if_weak_cong prod.case_cong_weak)
qed code_simp

lemma derived_accepted:
  "\<not> sema_failed (validated derived_grammar)" "fst (check_types [] (r_body (hd (g_rules derived_grammar)))) = []"
  by code_simp+

lemma computed_kind_not_kept:
  "map_option cg_arena (compile_grammar derived_grammar) = Some derived_konts \<and>
   verdict (execute_from (deps_of derived_konts) 30 (Some 14) [0, 0, 0, 0] 4 True fresh_machine) = Some (False, Some ''type error: &'')"
proof
  show "map_option cg_arena (compile_grammar derived_grammar) = Some derived_konts"
    by (simp add: derived_grammar_def derived_konts_def byte_kind_def byte_count_def lower_defs
        cong: bind_weak option.case_cong_weak if_weak_cong prod.case_cong_weak)
qed code_simp

end
