(* ===== verification/Maps.thy ===== *)
theory Maps
  imports Prelude
begin

text \<open>
  The interface of the lookup tables of the C runtime: \<open>crt/bbq_hmap.h\<close> (open addressing), \<open>crt/bbq_htree.h\<close>
  (a nibble trie) and \<open>crt/bbq_dict.h\<close> (byte strings over the trie). A table maps keys to pointers, NULL
  among them; an insertion may be refused, and then the table is marked. The locale \<open>ptr_map\<close> is what a
  client relies on, \<open>ptr_map_del\<close> adds removal; what a client sees of a whole program of calls is proved
  once, here.
\<close>

text \<open>A \<open>void*\<close>; \<open>0\<close> is NULL.\<close>

type_synonym ptr = nat

definition or_null :: "ptr option \<Rightarrow> ptr" where
  "or_null r = (case r of None \<Rightarrow> 0 | Some v \<Rightarrow> v)"

lemma or_null_simps [simp]: "or_null None = 0" "or_null (Some v) = v"
  by (simp_all add: or_null_def)

section \<open>Programs of calls\<close>

datatype 'k mop = MPut 'k ptr | MGet 'k | MHas 'k | MLen | MDel 'k

datatype mres = RBool bool | RPtr ptr | RNat nat

definition map_step :: "('k \<Rightarrow> ptr \<Rightarrow> 's \<Rightarrow> (bool \<times> 's) option) \<Rightarrow> ('k \<Rightarrow> 's \<Rightarrow> ptr option) \<Rightarrow> ('k \<Rightarrow> 's \<Rightarrow> bool option) \<Rightarrow>
    ('s \<Rightarrow> nat) \<Rightarrow> ('k \<Rightarrow> 's \<Rightarrow> (ptr \<times> 's) option) \<Rightarrow> 'k mop \<Rightarrow> 's \<Rightarrow> (mres \<times> 's) option" where
  "map_step put get has len del op s = (case op of
      MPut k v \<Rightarrow> map_option (\<lambda>(ok, s'). (RBool ok, s')) (put k v s)
    | MGet k \<Rightarrow> map_option (\<lambda>v. (RPtr v, s)) (get k s)
    | MHas k \<Rightarrow> map_option (\<lambda>b. (RBool b, s)) (has k s)
    | MLen \<Rightarrow> Some (RNat (len s), s)
    | MDel k \<Rightarrow> map_option (\<lambda>(v, s'). (RPtr v, s')) (del k s))"

fun run_maps :: "('op \<Rightarrow> 's \<Rightarrow> (mres \<times> 's) option) \<Rightarrow> 'op list \<Rightarrow> 's \<Rightarrow> (mres list \<times> 's) option" where
  "run_maps st [] s = Some ([], s)"
| "run_maps st (op # ops) s = (case st op s of None \<Rightarrow> None
     | Some (r, s1) \<Rightarrow> map_option (\<lambda>(rs, s2). (r # rs, s2)) (run_maps st ops s1))"

text \<open>The specification: a partial function, on which only an insertion has a choice, to be refused. A
  length is the one a \<open>size_t\<close> can hold.\<close>

fun map_allows :: "'k mop \<Rightarrow> mres \<Rightarrow> ('k \<Rightarrow> ptr option) \<Rightarrow> ('k \<Rightarrow> ptr option) \<Rightarrow> bool" where
  "map_allows (MPut k v) (RBool ok) m m' = (m' = (if ok then m(k \<mapsto> v) else m))"
| "map_allows (MGet k) (RPtr v) m m' = (m' = m \<and> v = or_null (m k))"
| "map_allows (MHas k) (RBool b) m m' = (m' = m \<and> b = (m k \<noteq> None))"
| "map_allows MLen (RNat n) m m' = (m' = m \<and> finite (dom m) \<and> n = card (dom m) mod 2 ^ 64)"
| "map_allows (MDel k) (RPtr v) m m' = (m' = m(k := None) \<and> v = or_null (m k))"
| "map_allows _ _ m m' = False"

fun map_allows_all :: "'k mop list \<Rightarrow> mres list \<Rightarrow> ('k \<Rightarrow> ptr option) \<Rightarrow> ('k \<Rightarrow> ptr option) \<Rightarrow> bool" where
  "map_allows_all [] [] m m' = (m' = m)"
| "map_allows_all (op # ops) (r # rs) m m' = (\<exists>m1. map_allows op r m m1 \<and> map_allows_all ops rs m1 m')"
| "map_allows_all _ _ m m' = False"


text \<open>No insertion was refused.\<close>

fun taken :: "'k mop \<Rightarrow> mres \<Rightarrow> bool" where
  "taken (MPut k v) r = (r = RBool True)"
| "taken _ r = True"

fun all_taken :: "'k mop list \<Rightarrow> mres list \<Rightarrow> bool" where
  "all_taken (op # ops) (r # rs) = (taken op r \<and> all_taken ops rs)"
| "all_taken _ _ = True"

section \<open>The interface\<close>

locale ptr_map =
  fixes put :: "'k \<Rightarrow> ptr \<Rightarrow> 's \<Rightarrow> (bool \<times> 's) option"
    and get :: "'k \<Rightarrow> 's \<Rightarrow> ptr option"
    and has :: "'k \<Rightarrow> 's \<Rightarrow> bool option"
    and len :: "'s \<Rightarrow> nat"
    and content :: "'s \<Rightarrow> 'k \<Rightarrow> ptr option"
    and bad :: "'s \<Rightarrow> bool"
    and inv :: "'s \<Rightarrow> bool"
  assumes put_law: "inv s \<Longrightarrow> \<exists>ok s'. put k v s = Some (ok, s') \<and> inv s' \<and> (bad s \<longrightarrow> bad s') \<and>
      content s' = (if ok then (content s)(k \<mapsto> v) else content s) \<and> (\<not> ok \<longrightarrow> bad s')"
    and get_law: "inv s \<Longrightarrow> get k s = Some (or_null (content s k))"
    and has_law: "inv s \<Longrightarrow> has k s = Some (content s k \<noteq> None)"
    and len_law: "inv s \<Longrightarrow> finite (dom (content s)) \<and> len s = card (dom (content s)) mod 2 ^ 64"
begin

text \<open>A step of a program without removals.\<close>

lemma map_step_ok:
  assumes "inv s" and "\<And>k. op \<noteq> MDel k"
  shows "\<exists>r s'. map_step put get has len del op s = Some (r, s') \<and> inv s' \<and> map_allows op r (content s) (content s') \<and>
    (bad s \<longrightarrow> bad s') \<and> (\<not> bad s' \<longrightarrow> taken op r)"
proof (cases op)
  case (MPut k v)
  obtain ok s' where p: "put k v s = Some (ok, s')" "inv s'" "bad s \<longrightarrow> bad s'"
    "content s' = (if ok then (content s)(k \<mapsto> v) else content s)" "\<not> ok \<longrightarrow> bad s'"
    using put_law [OF assms(1), of k v] by blast
  then show ?thesis using MPut by (auto simp: map_step_def)
next
  case (MDel k)
  then show ?thesis using assms(2) by simp
qed (use assms(1) get_law has_law len_law in \<open>auto simp: map_step_def\<close>)

lemma run_ok:
  "inv s \<Longrightarrow> (\<And>k. MDel k \<notin> set ops) \<Longrightarrow>
    \<exists>rs s'. run_maps (map_step put get has len del) ops s = Some (rs, s') \<and> inv s' \<and>
      map_allows_all ops rs (content s) (content s') \<and> (bad s \<longrightarrow> bad s') \<and> (\<not> bad s' \<longrightarrow> all_taken ops rs)"
proof (induction ops arbitrary: s)
  case Nil
  then show ?case by auto
next
  case (Cons op ops)
  have "\<And>k. op \<noteq> MDel k" using Cons.prems(2) by auto
  then obtain r s1 where s1: "map_step put get has len del op s = Some (r, s1)" "inv s1"
    "map_allows op r (content s) (content s1)" "bad s \<longrightarrow> bad s1" "\<not> bad s1 \<longrightarrow> taken op r"
    using map_step_ok [OF Cons.prems(1), of op del] by blast
  have "\<And>k. MDel k \<notin> set ops" using Cons.prems(2) by auto
  then obtain rs s2 where "run_maps (map_step put get has len del) ops s1 = Some (rs, s2)" "inv s2"
    "map_allows_all ops rs (content s1) (content s2)" "bad s1 \<longrightarrow> bad s2" "\<not> bad s2 \<longrightarrow> all_taken ops rs"
    using Cons.IH [OF s1(2)] by blast
  then show ?case using s1 by auto
qed

end

locale ptr_map_del = ptr_map put get has len content bad inv
  for put :: "'k \<Rightarrow> ptr \<Rightarrow> 's \<Rightarrow> (bool \<times> 's) option" and get has len content bad inv +
  fixes del :: "'k \<Rightarrow> 's \<Rightarrow> (ptr \<times> 's) option"
  assumes del_law: "inv s \<Longrightarrow> \<exists>s'. del k s = Some (or_null (content s k), s') \<and> inv s' \<and>
      content s' = (content s)(k := None) \<and> (bad s \<longrightarrow> bad s')"
begin

lemma run_del_ok:
  "inv s \<Longrightarrow> \<exists>rs s'. run_maps (map_step put get has len del) ops s = Some (rs, s') \<and> inv s' \<and>
      map_allows_all ops rs (content s) (content s') \<and> (bad s \<longrightarrow> bad s') \<and> (\<not> bad s' \<longrightarrow> all_taken ops rs)"
proof (induction ops arbitrary: s)
  case Nil
  then show ?case by auto
next
  case (Cons op ops)
  obtain r s1 where s1: "map_step put get has len del op s = Some (r, s1)" "inv s1"
    "map_allows op r (content s) (content s1)" "bad s \<longrightarrow> bad s1" "\<not> bad s1 \<longrightarrow> taken op r"
  proof (cases "\<exists>k. op = MDel k")
    case True
    then obtain k where k: "op = MDel k" by blast
    obtain s' where "del k s = Some (or_null (content s k), s')" "inv s'" "content s' = (content s)(k := None)"
      "bad s \<longrightarrow> bad s'" using del_law [OF Cons.prems, of k] by blast
    then show ?thesis using that k by (simp add: map_step_def)
  next
    case False
    then show ?thesis using that map_step_ok [OF Cons.prems, of op del] by blast
  qed
  obtain rs s2 where "run_maps (map_step put get has len del) ops s1 = Some (rs, s2)" "inv s2"
    "map_allows_all ops rs (content s1) (content s2)" "bad s1 \<longrightarrow> bad s2" "\<not> bad s2 \<longrightarrow> all_taken ops rs"
    using Cons.IH [OF s1(2)] by blast
  then show ?case using s1 by auto
qed

end

end
