(* ===== verification/Hmap.thy ===== *)
theory Hmap
  imports Alloc Maps
begin

text \<open>
  \<open>crt/bbq_hmap.h\<close> and \<open>crt/bbq_hmap.c\<close>: the open-addressed map with 64-bit keys: three parallel arrays, a
  seeded mix, linear probing in a table whose size is a power of two, growth at three quarters. A NULL
  array is the empty list. A probe that leaves the arrays or does not return is \<open>None\<close>.
\<close>

record hmap =
  hm_keys :: "u64 list"
  hm_vals :: "ptr list"
  hm_used :: "bool list"
  hm_cap :: size_t
  hm_len :: size_t
  hm_a :: nat
  hm_oom :: bool
  hm_seed :: u64

definition HMAP_DEFAULT_CAP :: size_t where
  "HMAP_DEFAULT_CAP = 16"

section \<open>Operations\<close>

definition hmap_mix :: "u64 \<Rightarrow> u64 \<Rightarrow> u64" where
  "hmap_mix seed key =
     (let x0 = key XOR seed;
          x1 = x0 XOR drop_bit 33 x0;
          x2 = x1 * 0xff51afd7ed558ccd;
          x3 = x2 XOR drop_bit 33 x2;
          x4 = x3 * 0xc4ceb9fe1a85ec53
      in x4 XOR drop_bit 33 x4)"

text \<open>The loop of \<open>round_pow2\<close> at \<open>c\<close>; \<open>0\<close> when there is no such power.\<close>

partial_function (option) round_from :: "size_t \<Rightarrow> size_t \<Rightarrow> size_t option" where
  "round_from c n = (if c < n then (if SIZE_MAX div 2 < c then Some 0 else round_from (push_bit 1 c) n) else Some c)"

declare round_from.simps [code]

definition round_pow2 :: "size_t \<Rightarrow> size_t option" where
  "round_pow2 n = round_from 1 n"

definition kbytes :: "size_t \<Rightarrow> size_t" where
  "kbytes cap = mem_array_bytes cap 8"

definition vbytes :: "size_t \<Rightarrow> size_t" where
  "vbytes cap = mem_array_bytes cap 8"

definition ubytes :: "size_t \<Rightarrow> size_t" where
  "ubytes cap = mem_array_bytes cap 1"

text \<open>Three arrays or none.\<close>

definition hmap_alloc :: "size_t \<Rightarrow> hmap \<Rightarrow> heap \<Rightarrow> bool \<times> hmap \<times> heap" where
  "hmap_alloc cap m h =
     (if cap = 0 \<or> kbytes cap = 0 \<or> vbytes cap = 0 \<or> ubytes cap = 0 then (False, m, h)
      else case h_zalloc (hm_a m) (kbytes cap) h of (k, h1) \<Rightarrow>
       case h_zalloc (hm_a m) (vbytes cap) h1 of (v, h2) \<Rightarrow>
       case h_zalloc (hm_a m) (ubytes cap) h2 of (u, h3) \<Rightarrow>
       if \<not> k \<or> \<not> v \<or> \<not> u
       then (False, m, h_release (hm_a m) u (ubytes cap) (h_release (hm_a m) v (vbytes cap)
              (h_release (hm_a m) k (kbytes cap) h3)))
       else (True, m\<lparr>hm_keys := replicate (unat cap) 0, hm_vals := replicate (unat cap) 0,
              hm_used := replicate (unat cap) False, hm_cap := cap\<rparr>, h3))"

definition hmap_init_seeded :: "size_t \<Rightarrow> nat \<Rightarrow> u64 \<Rightarrow> heap \<Rightarrow> (bool \<times> hmap \<times> heap) option" where
  "hmap_init_seeded initial_cap a seed h =
     (case round_pow2 (if initial_cap \<noteq> 0 then initial_cap else HMAP_DEFAULT_CAP) of
        None \<Rightarrow> None
      | Some cap \<Rightarrow>
          let m = \<lparr>hm_keys = [], hm_vals = [], hm_used = [], hm_cap = 0, hm_len = 0, hm_a = a, hm_oom = False, hm_seed = seed\<rparr>
          in if cap = 0 then Some (False, m\<lparr>hm_oom := True\<rparr>, h)
             else (case hmap_alloc cap m h of
                 (True, m1, h1) \<Rightarrow> Some (True, m1, h1)
               | (False, m1, h1) \<Rightarrow> Some (False, m1\<lparr>hm_oom := True\<rparr>, h1)))"

definition hmap_free :: "hmap \<Rightarrow> heap \<Rightarrow> hmap \<times> heap" where
  "hmap_free m h = (m\<lparr>hm_keys := [], hm_vals := [], hm_used := [], hm_cap := 0, hm_len := 0, hm_oom := False\<rparr>,
     h_release (hm_a m) (hm_used m \<noteq> []) (ubytes (hm_cap m)) (h_release (hm_a m) (hm_vals m \<noteq> []) (vbytes (hm_cap m))
       (h_release (hm_a m) (hm_keys m \<noteq> []) (kbytes (hm_cap m)) h)))"

text \<open>The walk of \<open>hmap_slot\<close> from slot \<open>i\<close>.\<close>

partial_function (option) probe :: "bool list \<Rightarrow> u64 list \<Rightarrow> size_t \<Rightarrow> u64 \<Rightarrow> size_t \<Rightarrow> nat option" where
  "probe used keys msk key i =
     (if unat i < length used \<and> unat i < length keys
      then (if used ! unat i \<and> keys ! unat i \<noteq> key then probe used keys msk key ((i + 1) AND msk) else Some (unat i))
      else None)"

declare probe.simps [code]

definition hmap_slot :: "u64 \<Rightarrow> hmap \<Rightarrow> nat option" where
  "hmap_slot key m = (let msk = hm_cap m - 1
     in probe (hm_used m) (hm_keys m) msk key (hmap_mix (hm_seed m) key AND msk))"

text \<open>The loop that puts the old entries where they belong in the new arrays.\<close>

fun replace_entries :: "(bool \<times> u64 \<times> ptr) list \<Rightarrow> hmap \<Rightarrow> hmap option" where
  "replace_entries [] m = Some m"
| "replace_entries ((u, k, v) # es) m =
     (if \<not> u then replace_entries es m
      else case hmap_slot k m of
          None \<Rightarrow> None
        | Some s \<Rightarrow> replace_entries es (m\<lparr>hm_keys := (hm_keys m)[s := k], hm_vals := (hm_vals m)[s := v],
            hm_used := (hm_used m)[s := True]\<rparr>))"

definition hmap_grow :: "hmap \<Rightarrow> heap \<Rightarrow> (bool \<times> hmap \<times> heap) option" where
  "hmap_grow m h =
     (let old_cap = hm_cap m; cap = (if old_cap \<noteq> 0 then old_cap * 2 else HMAP_DEFAULT_CAP)
      in if SIZE_MAX div 2 < old_cap then Some (False, m, h)
         else (case hmap_alloc cap m h of
             (False, m1, h1) \<Rightarrow> Some (False, m1, h1)
           | (True, m1, h1) \<Rightarrow>
               (case replace_entries (zip (hm_used m) (zip (hm_keys m) (hm_vals m))) m1 of
                  None \<Rightarrow> None
                | Some m2 \<Rightarrow> Some (True, m2,
                    h_release (hm_a m) (hm_used m \<noteq> []) (ubytes old_cap)
                      (h_release (hm_a m) (hm_vals m \<noteq> []) (vbytes old_cap)
                        (h_release (hm_a m) (hm_keys m \<noteq> []) (kbytes old_cap) h1))))))"

text \<open>The second half of \<open>bbq_hmap_put\<close>: the entry is placed or its value replaced.\<close>

definition hmap_place :: "u64 \<Rightarrow> ptr \<Rightarrow> hmap \<Rightarrow> hmap option" where
  "hmap_place key v m = (case hmap_slot key m of
      None \<Rightarrow> None
    | Some i \<Rightarrow>
        let m1 = (if \<not> hm_used m ! i
              then m\<lparr>hm_used := (hm_used m)[i := True], hm_keys := (hm_keys m)[i := key], hm_len := hm_len m + 1\<rparr> else m)
        in if i < length (hm_vals m1) then Some (m1\<lparr>hm_vals := (hm_vals m1)[i := v]\<rparr>) else None)"

definition hmap_put :: "u64 \<Rightarrow> ptr \<Rightarrow> hmap \<times> heap \<Rightarrow> (bool \<times> hmap \<times> heap) option" where
  "hmap_put key v mh = (case mh of (m, h) \<Rightarrow>
     if hm_cap m * 3 \<le> (hm_len m + 1) * 4 then
       (case hmap_grow m h of
          None \<Rightarrow> None
        | Some (False, m1, h1) \<Rightarrow> Some (False, m1\<lparr>hm_oom := True\<rparr>, h1)
        | Some (True, m1, h1) \<Rightarrow> map_option (\<lambda>m2. (True, m2, h1)) (hmap_place key v m1))
     else map_option (\<lambda>m2. (True, m2, h)) (hmap_place key v m))"

definition hmap_get :: "u64 \<Rightarrow> hmap \<times> heap \<Rightarrow> ptr option" where
  "hmap_get key mh = (case mh of (m, h) \<Rightarrow>
     if hm_cap m = 0 then Some 0
     else (case hmap_slot key m of
         None \<Rightarrow> None
       | Some i \<Rightarrow> if hm_used m ! i then (if i < length (hm_vals m) then Some (hm_vals m ! i) else None) else Some 0))"

definition hmap_contains :: "u64 \<Rightarrow> hmap \<times> heap \<Rightarrow> bool option" where
  "hmap_contains key mh = (case mh of (m, h) \<Rightarrow>
     if hm_cap m = 0 then Some False else map_option (\<lambda>i. hm_used m ! i) (hmap_slot key m))"

definition hmap_length :: "hmap \<times> heap \<Rightarrow> nat" where
  "hmap_length mh = unat (hm_len (fst mh))"

section \<open>Slots as numbers\<close>

lemma unat_and_mask:
  fixes cap x :: size_t
  assumes "unat cap = 2 ^ k"
  shows "unat (x AND (cap - 1)) = unat x mod 2 ^ k"
proof -
  have "cap = word_of_nat (unat cap)" by simp
  also have "\<dots> = 2 ^ k" unfolding assms by simp
  finally have "cap = 2 ^ k" .
  then have "cap - 1 = mask k" by (simp add: mask_eq_exp_minus_1)
  then have "unat (x AND (cap - 1)) = unat (take_bit k x)" by (simp add: take_bit_eq_mask)
  also have "\<dots> = take_bit k (unat x)" by (rule unsigned_take_bit_eq)
  finally show ?thesis by (simp add: take_bit_eq_mod)
qed

lemma mod_add_inj:
  fixes a e d n :: nat
  assumes "(a + e) mod n = (a + d) mod n" and "e < n" and "d < n"
  shows "e = d"
proof -
  have *: "d = e" if "(a + e) mod n = (a + d) mod n" "e \<le> d" "d < n" for e d
  proof -
    have "(a + d - (a + e)) mod n = 0" using that by (metis add_le_cancel_left mod_eq_dvd_iff_nat dvd_imp_mod_0)
    then have "(d - e) mod n = 0" by simp
    then show ?thesis using that(2,3) by simp
  qed
  show ?thesis using *[of e d] *[of d e] assms by (metis nat_le_linear)
qed

section \<open>The table\<close>

definition home :: "hmap \<Rightarrow> u64 \<Rightarrow> nat" where
  "home m key = unat (hmap_mix (hm_seed m) key AND (hm_cap m - 1))"

definition slot_at :: "hmap \<Rightarrow> u64 \<Rightarrow> nat \<Rightarrow> nat" where
  "slot_at m key d = (home m key + d) mod unat (hm_cap m)"

definition holds_key :: "hmap \<Rightarrow> nat \<Rightarrow> u64 \<Rightarrow> bool" where
  "holds_key m i key = (i < unat (hm_cap m) \<and> hm_used m ! i \<and> hm_keys m ! i = key)"

text \<open>Every entry is reached from its home through used slots, and no key is there twice.\<close>

definition table_ok :: "hmap \<Rightarrow> bool" where
  "table_ok m = ((\<exists>k. unat (hm_cap m) = 2 ^ k) \<and> length (hm_keys m) = unat (hm_cap m) \<and>
     length (hm_vals m) = unat (hm_cap m) \<and> length (hm_used m) = unat (hm_cap m) \<and>
     (\<forall>i j key. holds_key m i key \<longrightarrow> holds_key m j key \<longrightarrow> i = j) \<and>
     (\<forall>i key. holds_key m i key \<longrightarrow>
        (\<exists>d<unat (hm_cap m). slot_at m key d = i \<and> (\<forall>e<d. hm_used m ! slot_at m key e))))"

definition filled :: "hmap \<Rightarrow> nat" where
  "filled m = length (filter (\<lambda>u. u) (hm_used m))"

definition hmap_content :: "hmap \<Rightarrow> u64 \<Rightarrow> ptr option" where
  "hmap_content m key = (case find (\<lambda>i. hm_used m ! i \<and> hm_keys m ! i = key) [0..<unat (hm_cap m)] of
     None \<Rightarrow> None | Some i \<Rightarrow> Some (hm_vals m ! i))"

lemma content_Some:
  assumes "table_ok m"
  shows "hmap_content m key = Some v \<longleftrightarrow> (\<exists>i. holds_key m i key \<and> hm_vals m ! i = v)"
proof -
  have u: "\<And>i j. holds_key m i key \<Longrightarrow> holds_key m j key \<Longrightarrow> i = j" using assms by (auto simp: table_ok_def)
  show ?thesis
  proof (cases "find (\<lambda>i. hm_used m ! i \<and> hm_keys m ! i = key) [0..<unat (hm_cap m)]")
    case None
    then have "\<And>i. \<not> holds_key m i key" by (auto simp: find_None_iff holds_key_def)
    then show ?thesis using None by (simp add: hmap_content_def)
  next
    case (Some i)
    then have "holds_key m i key" by (auto simp: find_Some_iff holds_key_def)
    then show ?thesis using Some u by (auto simp: hmap_content_def)
  qed
qed

lemma content_None: "hmap_content m key = None \<longleftrightarrow> (\<forall>i. \<not> holds_key m i key)"
proof (cases "find (\<lambda>i. hm_used m ! i \<and> hm_keys m ! i = key) [0..<unat (hm_cap m)]")
  case None
  then have "\<forall>i. \<not> holds_key m i key" by (auto simp: find_None_iff holds_key_def)
  then show ?thesis using None by (simp add: hmap_content_def)
next
  case (Some i)
  then have "holds_key m i key" by (auto simp: find_Some_iff holds_key_def)
  then show ?thesis using Some by (auto simp: hmap_content_def)
qed

lemma slot_at_less: "table_ok m \<Longrightarrow> slot_at m key d < unat (hm_cap m)"
  by (auto simp: table_ok_def slot_at_def)

section \<open>Probing\<close>

lemma probe_walk:
  assumes "table_ok m" and "d \<le> d'"
    and "\<And>e. d \<le> e \<Longrightarrow> e < d' \<Longrightarrow> hm_used m ! slot_at m key e \<and> hm_keys m ! slot_at m key e \<noteq> key"
    and "\<not> (hm_used m ! slot_at m key d' \<and> hm_keys m ! slot_at m key d' \<noteq> key)"
  shows "unat i = slot_at m key d \<Longrightarrow>
    probe (hm_used m) (hm_keys m) (hm_cap m - 1) key i = Some (slot_at m key d')"
  using assms(2-)
proof (induction "d' - d" arbitrary: d i)
  case 0
  then have "d' = d" by simp
  then show ?case using 0 assms(1) slot_at_less [OF assms(1), of key d]
    by (subst probe.simps) (auto simp: table_ok_def)
next
  case (Suc x)
  obtain k where k: "unat (hm_cap m) = 2 ^ k" using assms(1) by (auto simp: table_ok_def)
  have u: "hm_used m ! unat i \<and> hm_keys m ! unat i \<noteq> key" using Suc.prems(3) [of d] Suc.hyps(2) Suc.prems(1) by simp
  have "unat i < 2 ^ k" using slot_at_less [OF assms(1), of key d] Suc.prems(1) k by simp
  then have "unat (i + 1) mod 2 ^ k = (unat i + 1) mod 2 ^ k"
  proof -
    have "unat (i + 1) = (unat i + 1) mod 2 ^ 64" by (simp add: unat_word_ariths)
    moreover have "k \<le> 64"
    proof (rule ccontr)
      assume "\<not> k \<le> 64"
      then have "(2::nat) ^ 64 \<le> 2 ^ k" by (intro power_increasing) auto
      then show False using unat_lt64 [of "hm_cap m"] k by simp
    qed
    ultimately show ?thesis using mod_mod_cancel [OF le_imp_power_dvd [of k 64 "2::nat"], of "unat i + 1"] by simp
  qed
  then have nx: "unat ((i + 1) AND (hm_cap m - 1)) = slot_at m key (Suc d)"
    using unat_and_mask [OF k, of "i + 1"] Suc.prems(1) k by (simp add: slot_at_def mod_Suc_eq)
  have "probe (hm_used m) (hm_keys m) (hm_cap m - 1) key ((i + 1) AND (hm_cap m - 1)) = Some (slot_at m key d')"
    by (rule Suc.hyps(1) [of "Suc d"]) (use Suc.hyps(2) Suc.prems nx in auto)
  then show ?case using u Suc.prems(1) slot_at_less [OF assms(1), of key d] assms(1)
    by (subst probe.simps) (auto simp: table_ok_def)
qed

lemma hmap_slot_walk:
  assumes "table_ok m"
    and "\<And>e. e < d \<Longrightarrow> hm_used m ! slot_at m key e \<and> hm_keys m ! slot_at m key e \<noteq> key"
    and "\<not> (hm_used m ! slot_at m key d \<and> hm_keys m ! slot_at m key d \<noteq> key)"
  shows "hmap_slot key m = Some (slot_at m key d)"
proof -
  obtain k where k: "unat (hm_cap m) = 2 ^ k" using assms(1) by (auto simp: table_ok_def)
  have "unat (hmap_mix (hm_seed m) key AND (hm_cap m - 1)) = slot_at m key 0"
    using unat_and_mask [OF k] k by (simp add: slot_at_def home_def)
  from probe_walk [OF assms(1) _ _ assms(3) this] assms(2) show ?thesis by (simp add: hmap_slot_def Let_def)
qed

lemma hmap_slot_found:
  assumes "table_ok m" and "holds_key m i key"
  shows "hmap_slot key m = Some i"
proof -
  obtain d where d: "d < unat (hm_cap m)" "slot_at m key d = i" "\<forall>e<d. hm_used m ! slot_at m key e"
    using assms unfolding table_ok_def by blast
  have "hm_keys m ! slot_at m key e \<noteq> key" if "e < d" for e
  proof
    assume "hm_keys m ! slot_at m key e = key"
    then have "holds_key m (slot_at m key e) key" using that d slot_at_less [OF assms(1)] by (simp add: holds_key_def)
    then have "slot_at m key e = slot_at m key d" using assms d(2) unfolding table_ok_def by metis
    then have "e = d" using that d(1) by (auto simp: slot_at_def dest: mod_add_inj)
    then show False using that by simp
  qed
  then show ?thesis using hmap_slot_walk [OF assms(1), of d key] d assms(2) by (auto simp: holds_key_def)
qed

lemma hmap_slot_fresh:
  assumes "table_ok m" and "\<And>i. \<not> holds_key m i key" and "j < unat (hm_cap m)" and "\<not> hm_used m ! j"
  obtains d where "d < unat (hm_cap m)" and "hmap_slot key m = Some (slot_at m key d)" and "\<not> hm_used m ! slot_at m key d"
    and "\<forall>e<d. hm_used m ! slot_at m key e"
proof -
  let ?n = "unat (hm_cap m)"
  have h: "home m key < ?n"
  proof -
    obtain k where k: "?n = 2 ^ k" using assms(1) by (auto simp: table_ok_def)
    then show ?thesis using unat_and_mask [OF k] by (simp add: home_def)
  qed
  define d0 where "d0 = (j + ?n - home m key) mod ?n"
  have d0: "d0 < ?n" using assms(3) by (simp add: d0_def)
  have "slot_at m key d0 = (home m key + (j + ?n - home m key)) mod ?n"
    by (simp add: slot_at_def d0_def mod_add_right_eq)
  also have "\<dots> = j" using h assms(3) by simp
  finally have s0: "\<not> hm_used m ! slot_at m key d0" using assms(4) by simp
  define d where "d = (LEAST d. \<not> hm_used m ! slot_at m key d)"
  have d: "\<not> hm_used m ! slot_at m key d" "\<forall>e<d. hm_used m ! slot_at m key e"
    unfolding d_def using LeastI [of "\<lambda>d. \<not> hm_used m ! slot_at m key d", OF s0]
      not_less_Least [of _ "\<lambda>d. \<not> hm_used m ! slot_at m key d"] by blast+
  have "d \<le> d0" unfolding d_def using s0 by (rule Least_le)
  moreover have "hm_keys m ! slot_at m key e \<noteq> key" if "e < d" for e
    using assms(2) [of "slot_at m key e"] d(2) that slot_at_less [OF assms(1)] by (auto simp: holds_key_def)
  ultimately show ?thesis using that [of d] hmap_slot_walk [OF assms(1), of d key] d d0 by auto
qed

section \<open>Writing an entry\<close>

definition write_entry :: "nat \<Rightarrow> u64 \<Rightarrow> ptr \<Rightarrow> hmap \<Rightarrow> hmap" where
  "write_entry s key v m = m\<lparr>hm_keys := (hm_keys m)[s := key], hm_vals := (hm_vals m)[s := v], hm_used := (hm_used m)[s := True]\<rparr>"

lemma write_entry_simps [simp]:
  "hm_cap (write_entry s key v m) = hm_cap m" "hm_len (write_entry s key v m) = hm_len m"
  "hm_a (write_entry s key v m) = hm_a m" "hm_oom (write_entry s key v m) = hm_oom m"
  "hm_seed (write_entry s key v m) = hm_seed m"
  "slot_at (write_entry s key v m) = slot_at m" "home (write_entry s key v m) = home m"
  by (auto simp: write_entry_def slot_at_def home_def fun_eq_iff)

text \<open>The slot of a key: its own, or a free one with none free before it.\<close>

definition slot_for :: "hmap \<Rightarrow> u64 \<Rightarrow> nat \<Rightarrow> bool" where
  "slot_for m key s = (s < unat (hm_cap m) \<and> (holds_key m s key \<or>
     (\<forall>i. \<not> holds_key m i key) \<and> \<not> hm_used m ! s \<and>
     (\<exists>d<unat (hm_cap m). slot_at m key d = s \<and> (\<forall>e<d. hm_used m ! slot_at m key e))))"

lemma hmap_slot_spec:
  assumes "table_ok m" and "filled m < unat (hm_cap m)"
  obtains s where "hmap_slot key m = Some s" and "slot_for m key s"
proof (cases "\<exists>i. holds_key m i key")
  case True
  then obtain i where "holds_key m i key" by blast
  then show ?thesis using that hmap_slot_found [OF assms(1)] by (auto simp: slot_for_def holds_key_def)
next
  case False
  have "\<exists>j<unat (hm_cap m). \<not> hm_used m ! j"
  proof (rule ccontr)
    assume "\<not> ?thesis"
    then have "filter (\<lambda>u. u) (hm_used m) = hm_used m"
      using assms(1) by (auto simp: table_ok_def filter_id_conv in_set_conv_nth)
    then show False using assms by (simp add: filled_def table_ok_def)
  qed
  then obtain j where j: "j < unat (hm_cap m)" "\<not> hm_used m ! j" by blast
  obtain d where "d < unat (hm_cap m)" "hmap_slot key m = Some (slot_at m key d)" "\<not> hm_used m ! slot_at m key d"
    "\<forall>e<d. hm_used m ! slot_at m key e"
    using hmap_slot_fresh [OF assms(1) _ j] False by blast
  then show ?thesis using that False slot_at_less [OF assms(1)] by (auto simp: slot_for_def)
qed

lemma holds_write:
  assumes "table_ok m" and "slot_for m key s"
  shows "holds_key (write_entry s key v m) i k \<longleftrightarrow> (if i = s then k = key else holds_key m i k)"
  using assms by (auto simp: holds_key_def write_entry_def slot_for_def table_ok_def nth_list_update)

lemma write_entry_ok:
  assumes "table_ok m" and "slot_for m key s"
  shows "table_ok (write_entry s key v m)"
    and "hmap_content (write_entry s key v m) = (hmap_content m)(key \<mapsto> v)"
    and "filled (write_entry s key v m) = (if hmap_content m key = None then Suc (filled m) else filled m)"
proof -
  let ?m = "write_entry s key v m"
  note hw = holds_write [OF assms, of v]
  have len: "length (hm_keys m) = unat (hm_cap m)" "length (hm_vals m) = unat (hm_cap m)" "length (hm_used m) = unat (hm_cap m)"
    and s: "s < unat (hm_cap m)" using assms by (auto simp: table_ok_def slot_for_def)
  have uniq: "holds_key m i key \<Longrightarrow> i = s" for i
    using assms unfolding slot_for_def table_ok_def by blast
  have used: "hm_used m ! i \<Longrightarrow> hm_used ?m ! i" for i
    using s len by (simp add: write_entry_def nth_list_update)
  have reach: "\<exists>d<unat (hm_cap m). slot_at m k d = i \<and> (\<forall>e<d. hm_used ?m ! slot_at m k e)" if "holds_key ?m i k" for i k
  proof (cases "i = s")
    case True
    then have k: "k = key" using that hw by simp
    from assms(2) have "\<exists>d<unat (hm_cap m). slot_at m key d = s \<and> (\<forall>e<d. hm_used m ! slot_at m key e)"
      using assms(1) unfolding slot_for_def table_ok_def by blast
    then show ?thesis using True k used by blast
  next
    case False
    then have "holds_key m i k" using that hw by simp
    then have "\<exists>d<unat (hm_cap m). slot_at m k d = i \<and> (\<forall>e<d. hm_used m ! slot_at m k e)"
      using assms(1) unfolding table_ok_def by blast
    then show ?thesis using used by blast
  qed
  show ok: "table_ok ?m" unfolding table_ok_def write_entry_simps
  proof (intro conjI allI impI)
    fix i j k assume "holds_key ?m i k" "holds_key ?m j k"
    then show "i = j" using hw uniq assms(1) unfolding table_ok_def by (metis (full_types))
  qed (use assms(1) reach in \<open>auto simp: table_ok_def write_entry_def\<close>)
  show "hmap_content ?m = (hmap_content m)(key \<mapsto> v)"
  proof
    fix k
    have vals: "hm_vals ?m ! i = (if i = s then v else hm_vals m ! i)" for i
      using s len by (simp add: write_entry_def nth_list_update)
    have "hmap_content ?m k = Some w \<longleftrightarrow> ((hmap_content m)(key \<mapsto> v)) k = Some w" for w
    proof (cases "k = key")
      case True
      have "holds_key ?m i key \<longleftrightarrow> i = s" for i using hw uniq by auto
      then show ?thesis using content_Some [OF ok] vals True by auto
    next
      case False
      have "holds_key ?m i k \<longleftrightarrow> holds_key m i k \<and> i \<noteq> s" for i using hw False by auto
      moreover have "\<not> holds_key m s k"
        using assms(2) False by (auto simp: slot_for_def holds_key_def)
      ultimately show ?thesis using content_Some [OF ok] content_Some [OF assms(1)] vals False by auto
    qed
    then show "hmap_content ?m k = ((hmap_content m)(key \<mapsto> v)) k" by (metis not_None_eq)
  qed
  show "filled ?m = (if hmap_content m key = None then Suc (filled m) else filled m)"
  proof (cases "hm_used m ! s")
    case True
    then have "hmap_content m key \<noteq> None" using assms(2) by (auto simp: content_None slot_for_def)
    moreover have "(hm_used m)[s := True] = hm_used m" using True by (metis list_update_id)
    ultimately show ?thesis by (simp add: filled_def write_entry_def)
  next
    case False
    then have "hmap_content m key = None" using assms(2) by (auto simp: content_None slot_for_def holds_key_def)
    moreover have "length (filter (\<lambda>u. u) ((hm_used m)[s := True])) = Suc (length (filter (\<lambda>u. u) (hm_used m)))"
    proof -
      have "hm_used m = take s (hm_used m) @ False # drop (Suc s) (hm_used m)"
        using s len False by (metis (full_types) id_take_nth_drop)
      then have "length (filter (\<lambda>u. u) (hm_used m)) =
          length (filter (\<lambda>u. u) (take s (hm_used m))) + length (filter (\<lambda>u. u) (drop (Suc s) (hm_used m)))"
        by (metis (no_types, lifting) filter.simps(2) filter_append length_append)
      moreover have "(hm_used m)[s := True] = take s (hm_used m) @ True # drop (Suc s) (hm_used m)"
        using s len by (simp add: upd_conv_take_nth_drop)
      ultimately show ?thesis by simp
    qed
    ultimately show ?thesis by (simp add: filled_def write_entry_def)
  qed
qed

section \<open>Placing, growing, putting\<close>

definition hm_ok :: "hmap \<Rightarrow> bool" where
  "hm_ok m = (if hm_cap m = 0 then hm_keys m = [] \<and> hm_vals m = [] \<and> hm_used m = [] \<and> hm_len m = 0
     else table_ok m \<and> unat (hm_len m) = filled m \<and> 4 * filled m < 3 * unat (hm_cap m) \<and> unat (hm_cap m) < 2 ^ 61)"

lemma table_len_update:
  "table_ok (m\<lparr>hm_len := n\<rparr>) = table_ok m"
  "hmap_content (m\<lparr>hm_len := n\<rparr>) = hmap_content m"
  "filled (m\<lparr>hm_len := n\<rparr>) = filled m"
proof -
  have "home (m\<lparr>hm_len := n\<rparr>) = home m" by (simp add: home_def fun_eq_iff)
  then have "slot_at (m\<lparr>hm_len := n\<rparr>) = slot_at m" by (simp add: slot_at_def fun_eq_iff)
  moreover have "holds_key (m\<lparr>hm_len := n\<rparr>) = holds_key m" by (simp add: holds_key_def fun_eq_iff)
  ultimately show "table_ok (m\<lparr>hm_len := n\<rparr>) = table_ok m" by (simp add: table_ok_def)
  show "hmap_content (m\<lparr>hm_len := n\<rparr>) = hmap_content m" "filled (m\<lparr>hm_len := n\<rparr>) = filled m"
    by (simp_all add: hmap_content_def [abs_def] filled_def cong: option.case_cong)
qed

lemma table_oom_update:
  "hmap_content (m\<lparr>hm_oom := b\<rparr>) = hmap_content m" "hm_ok (m\<lparr>hm_oom := b\<rparr>) = hm_ok m"
proof -
  have "home (m\<lparr>hm_oom := b\<rparr>) = home m" by (simp add: home_def fun_eq_iff)
  then have "slot_at (m\<lparr>hm_oom := b\<rparr>) = slot_at m" by (simp add: slot_at_def fun_eq_iff)
  moreover have "holds_key (m\<lparr>hm_oom := b\<rparr>) = holds_key m" by (simp add: holds_key_def fun_eq_iff)
  ultimately have "table_ok (m\<lparr>hm_oom := b\<rparr>) = table_ok m" by (simp add: table_ok_def)
  then show "hm_ok (m\<lparr>hm_oom := b\<rparr>) = hm_ok m" by (simp add: hm_ok_def filled_def)
  show "hmap_content (m\<lparr>hm_oom := b\<rparr>) = hmap_content m"
    by (simp add: hmap_content_def [abs_def] cong: option.case_cong)
qed

lemma hmap_place_spec:
  assumes "table_ok m" and "filled m < unat (hm_cap m)" and "unat (hm_len m) = filled m"
  obtains m1 where "hmap_place key v m = Some m1" and "table_ok m1" and "hmap_content m1 = (hmap_content m)(key \<mapsto> v)"
    and "unat (hm_len m1) = filled m1" and "filled m1 \<le> Suc (filled m)" and "hm_cap m1 = hm_cap m" and "hm_a m1 = hm_a m"
    and "hm_oom m1 = hm_oom m"
proof -
  obtain s where s: "hmap_slot key m = Some s" "slot_for m key s" using hmap_slot_spec [OF assms(1,2)] .
  note w = write_entry_ok [OF assms(1) s(2), of v]
  have sl: "s < length (hm_vals m)" using s(2) assms(1) by (simp add: slot_for_def table_ok_def)
  have none: "hmap_content m key = None \<longleftrightarrow> \<not> hm_used m ! s"
  proof
    assume "hmap_content m key = None"
    then show "\<not> hm_used m ! s" using s(2) by (auto simp: content_None slot_for_def)
  next
    assume "\<not> hm_used m ! s"
    then show "hmap_content m key = None" using s(2) by (auto simp: content_None slot_for_def holds_key_def)
  qed
  let ?m1 = "(write_entry s key v m)\<lparr>hm_len := (if hm_used m ! s then hm_len m else hm_len m + 1)\<rparr>"
  have "hmap_place key v m = Some ?m1"
  proof (cases "hm_used m ! s")
    case True
    then have "hm_keys m ! s = key" using s(2) by (auto simp: slot_for_def holds_key_def)
    then have "(hm_keys m)[s := key] = hm_keys m" "(hm_used m)[s := True] = hm_used m"
      using True by (metis list_update_id)+
    then show ?thesis using s(1) sl True by (simp add: hmap_place_def write_entry_def)
  next
    case False
    then show ?thesis using s(1) sl by (simp add: hmap_place_def write_entry_def)
  qed
  moreover have "table_ok ?m1 = table_ok (write_entry s key v m)" "hmap_content ?m1 = hmap_content (write_entry s key v m)"
    "filled ?m1 = filled (write_entry s key v m)"
    by (rule table_len_update)+
  moreover have "unat (hm_len ?m1) = filled (write_entry s key v m)"
  proof -
    have "filled m < 2 ^ 64 - 1" using assms(2) unat_lt64 [of "hm_cap m"] by linarith
    then have "unat (hm_len m + 1) = Suc (filled m)" using assms(3) by (simp add: unat_add_no_wrap)
    then show ?thesis using w(3) none assms(3) by auto
  qed
  ultimately show ?thesis using that [of ?m1] w by auto
qed

definition empty_table :: "size_t \<Rightarrow> hmap \<Rightarrow> hmap" where
  "empty_table cap m = m\<lparr>hm_keys := replicate (unat cap) 0, hm_vals := replicate (unat cap) 0,
     hm_used := replicate (unat cap) False, hm_cap := cap\<rparr>"

lemma empty_table_ok:
  assumes "unat cap = 2 ^ k"
  shows "table_ok (empty_table cap m)" and "hmap_content (empty_table cap m) = (\<lambda>_. None)" and "filled (empty_table cap m) = 0"
proof -
  have n: "\<not> holds_key (empty_table cap m) i key" for i key by (auto simp: holds_key_def empty_table_def)
  then show "hmap_content (empty_table cap m) = (\<lambda>_. None)" by (auto simp: fun_eq_iff content_None)
  show "table_ok (empty_table cap m)" using n assms by (auto simp: table_ok_def empty_table_def)
  show "filled (empty_table cap m) = 0" by (simp add: filled_def empty_table_def)
qed

lemma table_bytes:
  assumes "kbytes cap \<noteq> 0"
  shows "unat (kbytes cap) = 8 * unat cap" and "unat (vbytes cap) = 8 * unat cap" and "unat (ubytes cap) = unat cap"
    and "unat cap < 2 ^ 61"
proof -
  have "unat (kbytes cap) \<noteq> 0" using assms by (simp add: unat_eq_0)
  then show "unat cap < 2 ^ 61" "unat (kbytes cap) = 8 * unat cap" "unat (vbytes cap) = 8 * unat cap"
    "unat (ubytes cap) = unat cap"
    by (auto simp: kbytes_def vbytes_def ubytes_def mem_array_bytes_val split: if_splits)
qed

lemma hmap_alloc_spec:
  assumes "hmap_alloc cap m h = (ok, m1, h1)" and "accounts (h (hm_a m)) s"
  shows "m1 = (if ok then empty_table cap m else m)" and "ok \<Longrightarrow> unat cap < 2 ^ 61"
    and "accounts (h1 (hm_a m)) (s + (if ok then 17 * unat cap else 0))"
proof -
  have "m1 = (if ok then empty_table cap m else m) \<and> (ok \<longrightarrow> unat cap < 2 ^ 61) \<and>
      accounts (h1 (hm_a m)) (s + (if ok then 17 * unat cap else 0))"
  proof (cases "cap = 0 \<or> kbytes cap = 0 \<or> vbytes cap = 0 \<or> ubytes cap = 0")
    case True
    then show ?thesis using assms by (simp add: hmap_alloc_def)
  next
    case False
    obtain k h2 where k: "h_alloc (hm_a m) (kbytes cap) h = (k, h2)" by fastforce
    obtain v h3 where v: "h_alloc (hm_a m) (vbytes cap) h2 = (v, h3)" by fastforce
    obtain u h4 where u: "h_alloc (hm_a m) (ubytes cap) h3 = (u, h4)" by fastforce
    note tb = table_bytes [of cap]
    show ?thesis
    proof (cases "k \<and> v \<and> u")
      case True
      then show ?thesis using False assms k v u heap.three_acct [OF k v u assms(2)] tb
        by (simp add: hmap_alloc_def h_zalloc_alloc empty_table_def add.assoc)
    next
      case F: False
      then have e: "ok = False" "m1 = m" "h1 = h_release (hm_a m) u (ubytes cap) (h_release (hm_a m) v (vbytes cap)
              (h_release (hm_a m) k (kbytes cap) h4))"
        using False assms(1) k v u by (auto simp: hmap_alloc_def h_zalloc_alloc)
      then show ?thesis using heap.three_restore [OF k v u assms(2)] by simp
    qed
  qed
  then show "m1 = (if ok then empty_table cap m else m)" "ok \<Longrightarrow> unat cap < 2 ^ 61"
    "accounts (h1 (hm_a m)) (s + (if ok then 17 * unat cap else 0))" by auto
qed

text \<open>The old entries move to the new table one by one.\<close>

definition live_entries :: "(bool \<times> u64 \<times> ptr) list \<Rightarrow> (u64 \<times> ptr) list" where
  "live_entries es = [(k, v). (u, k, v) \<leftarrow> es, u]"

lemma live_entries_simps [simp]: "live_entries [] = []"
  "live_entries ((u, k, v) # es) = (if u then (k, v) # live_entries es else live_entries es)"
  by (simp_all add: live_entries_def)

lemma replace_spec:
  assumes "table_ok m" and "filled m + length (live_entries es) < unat (hm_cap m)" and "distinct (map fst (live_entries es))"
    and "\<And>k. k \<in> fst ` set (live_entries es) \<Longrightarrow> hmap_content m k = None"
  shows "\<exists>m1. replace_entries es m = Some m1 \<and> table_ok m1 \<and> hmap_content m1 = hmap_content m ++ map_of (live_entries es) \<and>
    filled m1 = filled m + length (live_entries es) \<and> hm_cap m1 = hm_cap m \<and> hm_len m1 = hm_len m \<and> hm_a m1 = hm_a m \<and> hm_oom m1 = hm_oom m"
  using assms
proof (induction es arbitrary: m)
  case Nil
  then show ?case by simp
next
  case (Cons e es)
  obtain u k v where e: "e = (u, k, v)" by (metis prod_cases3)
  show ?case
  proof (cases u)
    case False
    then show ?thesis using Cons e by simp
  next
    case True
    obtain s where s: "hmap_slot k m = Some s" "slot_for m k s"
      using hmap_slot_spec [OF Cons.prems(1)] Cons.prems(2) by (metis add_lessD1)
    let ?m = "write_entry s k v m"
    note w = write_entry_ok [OF Cons.prems(1) s(2), of v]
    have f: "filled ?m = Suc (filled m)" using w(3) Cons.prems(4) e True by simp
    have "\<exists>m1. replace_entries es ?m = Some m1 \<and> table_ok m1 \<and> hmap_content m1 = hmap_content ?m ++ map_of (live_entries es) \<and>
      filled m1 = filled ?m + length (live_entries es) \<and> hm_cap m1 = hm_cap ?m \<and> hm_len m1 = hm_len ?m \<and> hm_a m1 = hm_a ?m \<and> hm_oom m1 = hm_oom ?m"
      by (rule Cons.IH) (use Cons.prems w f e True in auto)
    moreover have "replace_entries (e # es) m = replace_entries es ?m" using s(1) e True by (simp add: write_entry_def)
    moreover have "hmap_content ?m ++ map_of (live_entries es) = hmap_content m ++ map_of (live_entries (e # es))"
    proof -
      have "k \<notin> dom (map_of (live_entries es))"
        using Cons.prems(3) e True by (simp add: dom_map_of_conv_image_fst)
      then show ?thesis using e True w(2) by (auto simp: map_add_def fun_eq_iff domIff split: option.splits)
    qed
    moreover have "filled ?m + length (live_entries es) = filled m + length (live_entries (e # es))" using f e True by simp
    ultimately show ?thesis by (simp only: write_entry_simps)
  qed
qed

definition table_entries :: "hmap \<Rightarrow> (u64 \<times> ptr) list" where
  "table_entries m = live_entries (zip (hm_used m) (zip (hm_keys m) (hm_vals m)))"

lemma live_entries_map:
  "live_entries (map (\<lambda>i. (U i, K i, V i)) xs) = map (\<lambda>i. (K i, V i)) (filter U xs)"
  by (induction xs) auto

lemma map_of_filter_find:
  "map_of (map (\<lambda>i. (K i, V i)) (filter U xs)) k =
    (case find (\<lambda>i. U i \<and> K i = k) xs of None \<Rightarrow> None | Some i \<Rightarrow> Some (V i))"
  by (induction xs) auto

lemma table_entries_spec:
  assumes "table_ok m"
  shows "length (table_entries m) = filled m" and "map_of (table_entries m) = hmap_content m"
    and "distinct (map fst (table_entries m))"
proof -
  let ?n = "unat (hm_cap m)"
  have len: "length (hm_keys m) = ?n" "length (hm_vals m) = ?n" "length (hm_used m) = ?n" using assms by (auto simp: table_ok_def)
  have "zip (hm_used m) (zip (hm_keys m) (hm_vals m)) = map (\<lambda>i. (hm_used m ! i, hm_keys m ! i, hm_vals m ! i)) [0..<?n]"
    by (rule nth_equalityI) (use len in auto)
  then have e: "table_entries m = map (\<lambda>i. (hm_keys m ! i, hm_vals m ! i)) (filter (\<lambda>i. hm_used m ! i) [0..<?n])"
    by (simp add: table_entries_def live_entries_map)
  have "hm_used m = map ((!) (hm_used m)) [0..<?n]" using len(3) by (metis map_nth)
  then have "filled m = length (filter (\<lambda>u. u) (map ((!) (hm_used m)) [0..<?n]))" unfolding filled_def by metis
  then show "length (table_entries m) = filled m" using e by (simp add: filter_map comp_def)
  show "map_of (table_entries m) = hmap_content m"
    unfolding e by (rule ext) (simp add: map_of_filter_find hmap_content_def)
  have "inj_on (\<lambda>i. hm_keys m ! i) {i. i < ?n \<and> hm_used m ! i}"
    using assms unfolding inj_on_def table_ok_def holds_key_def by blast
  then show "distinct (map fst (table_entries m))"
    unfolding e by (simp add: comp_def distinct_map)
qed

lemma content_finite: "table_ok m \<Longrightarrow> finite (dom (hmap_content m)) \<and> card (dom (hmap_content m)) = filled m"
proof -
  assume ok: "table_ok m"
  note t = table_entries_spec [OF ok]
  have "dom (hmap_content m) = set (map fst (table_entries m))"
    unfolding t(2) [symmetric] by (simp add: dom_map_of_conv_image_fst)
  then show ?thesis using distinct_card [OF t(3)] t(1) by simp
qed

lemma release_tables:
  assumes "hm_ok m" and "accounts (h (hm_a m)) (s + 17 * unat (hm_cap m))"
  shows "accounts (h_release (hm_a m) (hm_used m \<noteq> []) (ubytes (hm_cap m))
      (h_release (hm_a m) (hm_vals m \<noteq> []) (vbytes (hm_cap m))
        (h_release (hm_a m) (hm_keys m \<noteq> []) (kbytes (hm_cap m)) h)) (hm_a m)) s"
proof (cases "hm_cap m = 0")
  case True
  then have "hm_used m = []" "hm_vals m = []" "hm_keys m = []" using assms(1) by (auto simp: hm_ok_def)
  then show ?thesis using assms(2) True by (intro heap.rel_add) (simp add: paid_def)
next
  case False
  let ?n = "unat (hm_cap m)"
  have n: "?n < 2 ^ 61" "0 < ?n" "length (hm_used m) = ?n" "length (hm_vals m) = ?n" "length (hm_keys m) = ?n"
    using assms(1) False by (auto simp: hm_ok_def table_ok_def word_greater_zero_iff unat_gt_0)
  then have "hm_used m \<noteq> []" "hm_vals m \<noteq> []" "hm_keys m \<noteq> []" by auto
  moreover have "unat (kbytes (hm_cap m)) = 8 * ?n" "unat (vbytes (hm_cap m)) = 8 * ?n" "unat (ubytes (hm_cap m)) = ?n"
    using n(1,2) by (auto simp: kbytes_def vbytes_def ubytes_def mem_array_bytes_val)
  moreover have "s + 17 * ?n = s + ?n + 8 * ?n + 8 * ?n" by simp
  ultimately show ?thesis using assms(2)
    by (intro heap.rel_add) (simp add: paid_def add.commute)
qed

lemma hmap_alloc_keeps: "hmap_alloc cap m h = (False, m1, h1) \<Longrightarrow> m1 = m"
  by (auto simp: hmap_alloc_def split: prod.splits if_splits)

text \<open>Growing keeps the entries; a refusal keeps everything.\<close>

lemma hmap_grow_spec:
  assumes "hm_ok m" and "accounts (h (hm_a m)) (s + 17 * unat (hm_cap m))"
  shows "\<exists>ok m1 h1. hmap_grow m h = Some (ok, m1, h1) \<and> hm_a m1 = hm_a m \<and> hm_oom m1 = hm_oom m \<and>
    accounts (h1 (hm_a m)) (s + 17 * unat (hm_cap m1)) \<and>
    (if ok then table_ok m1 \<and> unat (hm_len m1) = filled m1 \<and> hmap_content m1 = hmap_content m \<and> filled m1 = filled m \<and>
         unat (hm_cap m1) = (if hm_cap m = 0 then 16 else 2 * unat (hm_cap m)) \<and> unat (hm_cap m1) < 2 ^ 61
       else m1 = m)"
proof -
  let ?cap = "if hm_cap m \<noteq> 0 then hm_cap m * 2 else HMAP_DEFAULT_CAP"
  have sm: "\<not> SIZE_MAX div 2 < hm_cap m"
  proof -
    have "unat (hm_cap m) < 2 ^ 61" using assms(1) by (auto simp: hm_ok_def split: if_splits)
    then show ?thesis by (simp add: word_less_nat_alt unat_div SIZE_MAX_def)
  qed
  have cap: "unat ?cap = (if hm_cap m = 0 then 16 else 2 * unat (hm_cap m))"
    using assms(1) by (auto simp: hm_ok_def HMAP_DEFAULT_CAP_def unat_word_ariths)
  have pow: "\<exists>k. unat ?cap = 2 ^ k"
  proof (cases "hm_cap m = 0")
    case True
    then show ?thesis unfolding cap by (intro exI [of _ 4]) simp
  next
    case False
    then obtain k where "unat (hm_cap m) = 2 ^ k" using assms(1) by (auto simp: hm_ok_def table_ok_def)
    then show ?thesis using False unfolding cap by (intro exI [of _ "Suc k"]) simp
  qed
  obtain ok m1 h1 where al: "hmap_alloc ?cap m h = (ok, m1, h1)" by (metis prod_cases3)
  note sp = hmap_alloc_spec [OF al assms(2)]
  show ?thesis
  proof (cases ok)
    case False
    then have "hmap_grow m h = Some (False, m, h1)" using al sm sp by (simp add: hmap_grow_def Let_def)
    then show ?thesis using sp(1,3) False by (intro exI [of _ False] exI [of _ m] exI [of _ h1]) simp
  next
    case True
    then have m1: "m1 = empty_table ?cap m" using sp(1) by simp
    obtain k where "unat ?cap = 2 ^ k" using pow by blast
    note et = empty_table_ok [OF this, of m]
    let ?es = "zip (hm_used m) (zip (hm_keys m) (hm_vals m))"
    have old: "length (table_entries m) = unat (hm_len m)" "map_of (table_entries m) = hmap_content m"
      "distinct (map fst (table_entries m))" "unat (hm_len m) < unat ?cap" "unat (hm_len m) = filled m"
      using assms(1) table_entries_spec [of m] unfolding cap
      by (auto simp: hm_ok_def table_entries_def hmap_content_def filled_def fun_eq_iff split: if_splits)
    have "\<exists>m2. replace_entries ?es m1 = Some m2 \<and> table_ok m2 \<and> hmap_content m2 = hmap_content m1 ++ map_of (table_entries m) \<and>
      filled m2 = filled m1 + length (table_entries m) \<and> hm_cap m2 = hm_cap m1 \<and> hm_len m2 = hm_len m1 \<and> hm_a m2 = hm_a m1 \<and> hm_oom m2 = hm_oom m1"
      unfolding table_entries_def
      by (rule replace_spec) (use m1 et old in \<open>auto simp: table_entries_def empty_table_def\<close>)
    then obtain m2 where m2: "replace_entries ?es m1 = Some m2" "table_ok m2" "hmap_content m2 = hmap_content m"
      "filled m2 = filled m" "hm_cap m2 = ?cap" "hm_len m2 = hm_len m" "hm_a m2 = hm_a m" "hm_oom m2 = hm_oom m"
      using m1 et old by (auto simp: empty_table_def)
    let ?h = "h_release (hm_a m) (hm_used m \<noteq> []) (ubytes (hm_cap m))
      (h_release (hm_a m) (hm_vals m \<noteq> []) (vbytes (hm_cap m)) (h_release (hm_a m) (hm_keys m \<noteq> []) (kbytes (hm_cap m)) h1))"
    have "accounts (?h (hm_a m)) (s + 17 * unat ?cap)"
      by (rule release_tables) (use assms(1) sp(3) True in \<open>auto simp: algebra_simps\<close>)
    moreover have "hmap_grow m h = Some (True, m2, ?h)" using al sm True m2(1) by (simp add: hmap_grow_def Let_def)
    ultimately show ?thesis using m2 old(5) cap sp(2) True
      by (intro exI [of _ True] exI [of _ m2] exI [of _ ?h]) simp
  qed
qed

section \<open>The map and its books\<close>

text \<open>A well-formed table whose allocator has exactly its arrays out, and \<open>base\<close> bytes more.\<close>

definition hmap_inv :: "nat \<Rightarrow> nat \<Rightarrow> hmap \<times> heap \<Rightarrow> bool" where
  "hmap_inv a base mh = (hm_ok (fst mh) \<and> hm_a (fst mh) = a \<and>
     accounts (snd mh a) (base + 17 * unat (hm_cap (fst mh))))"

lemma hmap_put_spec:
  assumes "hmap_inv a base mh"
  shows "\<exists>ok mh'. hmap_put key v mh = Some (ok, mh') \<and> hmap_inv a base mh' \<and> (hm_oom (fst mh) \<longrightarrow> hm_oom (fst mh')) \<and>
    hmap_content (fst mh') = (if ok then (hmap_content (fst mh))(key \<mapsto> v) else hmap_content (fst mh)) \<and>
    (\<not> ok \<longrightarrow> hm_oom (fst mh'))"
proof -
  obtain m h where mh: "mh = (m, h)" by (cases mh)
  have ok: "hm_ok m" "hm_a m = a" "accounts (h (hm_a m)) (base + 17 * unat (hm_cap m))"
    using assms by (auto simp: mh hmap_inv_def)
  have b: "unat (hm_cap m) < 2 ^ 61" "4 * unat (hm_len m) \<le> 3 * unat (hm_cap m)"
    using ok(1) by (auto simp: hm_ok_def split: if_splits)
  have load: "hm_cap m * 3 \<le> (hm_len m + 1) * 4 \<longleftrightarrow> 3 * unat (hm_cap m) \<le> 4 * (unat (hm_len m) + 1)"
  proof -
    have "unat (hm_cap m * 3) = unat (hm_cap m) * 3" using b by (simp add: unat_word_ariths)
    moreover have "unat ((hm_len m + 1) * 4) = unat (hm_len m) * 4 + 4" using b by (simp add: unat_word_ariths)
    ultimately show ?thesis unfolding word_le_nat_alt by (simp add: algebra_simps)
  qed
  show ?thesis
  proof (cases "hm_cap m * 3 \<le> (hm_len m + 1) * 4")
    case False
    then have t: "table_ok m" "unat (hm_len m) = filled m" "4 * (filled m + 1) < 3 * unat (hm_cap m)"
      using ok(1) False unfolding hm_ok_def load by (simp_all split: if_splits)
    have fl: "filled m < unat (hm_cap m)" using t(3) by simp
    obtain m1 where m1: "hmap_place key v m = Some m1" "table_ok m1" "hmap_content m1 = (hmap_content m)(key \<mapsto> v)"
      "unat (hm_len m1) = filled m1" "filled m1 \<le> Suc (filled m)" "hm_cap m1 = hm_cap m" "hm_a m1 = hm_a m" "hm_oom m1 = hm_oom m"
      using hmap_place_spec [OF t(1) fl t(2), of key v] .
    have "hm_cap m \<noteq> 0" using t(3) by auto
    have "hmap_put key v mh = Some (True, m1, h)" using False m1(1) mh by (simp add: hmap_put_def)
    moreover have "hm_ok m1" using m1 t b \<open>hm_cap m \<noteq> 0\<close> unfolding hm_ok_def by simp
    ultimately show ?thesis using m1 ok mh by (intro exI [of _ True] exI [of _ "(m1, h)"]) (simp add: hmap_inv_def)
  next
    case True
    obtain k m1 h1 where g: "hmap_grow m h = Some (k, m1, h1)" "hm_a m1 = hm_a m" "hm_oom m1 = hm_oom m"
      "accounts (h1 (hm_a m)) (base + 17 * unat (hm_cap m1))"
      "if k then table_ok m1 \<and> unat (hm_len m1) = filled m1 \<and> hmap_content m1 = hmap_content m \<and> filled m1 = filled m \<and>
         unat (hm_cap m1) = (if hm_cap m = 0 then 16 else 2 * unat (hm_cap m)) \<and> unat (hm_cap m1) < 2 ^ 61
       else m1 = m" using hmap_grow_spec [of m h base, OF ok(1,3)] by (elim exE conjE) (rule that; assumption)
    show ?thesis
    proof (cases k)
      case F: False
      have oom: "hmap_content (m\<lparr>hm_oom := True\<rparr>) = hmap_content m" "hm_ok (m\<lparr>hm_oom := True\<rparr>) = hm_ok m"
        by (rule table_oom_update)+
      have "hmap_put key v mh = Some (False, m\<lparr>hm_oom := True\<rparr>, h1)" using True g F mh by (simp add: hmap_put_def)
      then show ?thesis using oom g F ok mh
        by (intro exI [of _ False] exI [of _ "(m\<lparr>hm_oom := True\<rparr>, h1)"]) (simp add: hmap_inv_def)
    next
      case T: True
      then have t: "table_ok m1" "unat (hm_len m1) = filled m1" "hmap_content m1 = hmap_content m" "filled m1 = filled m"
        "unat (hm_cap m1) = (if hm_cap m = 0 then 16 else 2 * unat (hm_cap m))" "unat (hm_cap m1) < 2 ^ 61"
        using g(5) by auto
      have small: "4 * (filled m1 + 1) < 3 * unat (hm_cap m1)"
      proof (cases "hm_cap m = 0")
        case True
        then show ?thesis using ok(1) t(4,5) by (simp add: hm_ok_def filled_def)
      next
        case False
        then have "4 * filled m < 3 * unat (hm_cap m)" "0 < unat (hm_cap m)"
          using ok(1) by (auto simp: hm_ok_def unat_gt_0)
        moreover have "4 * (f + 1) < 3 * (2 * c)" if "4 * f < 3 * c" "0 < c" for f c :: nat using that by presburger
        ultimately show ?thesis using False t(4,5) by metis
      qed
      have fl: "filled m1 < unat (hm_cap m1)" using small by simp
      obtain m2 where m2: "hmap_place key v m1 = Some m2" "table_ok m2" "hmap_content m2 = (hmap_content m1)(key \<mapsto> v)"
        "unat (hm_len m2) = filled m2" "filled m2 \<le> Suc (filled m1)" "hm_cap m2 = hm_cap m1" "hm_a m2 = hm_a m1" "hm_oom m2 = hm_oom m1"
        using hmap_place_spec [OF t(1) fl t(2), of key v] .
      have "hm_cap m1 \<noteq> 0" using small by auto
      have "hmap_put key v mh = Some (True, m2, h1)" using True T g(1) m2(1) mh by (simp add: hmap_put_def)
      moreover have "hm_ok m2" using m2 t small \<open>hm_cap m1 \<noteq> 0\<close> unfolding hm_ok_def by simp
      ultimately show ?thesis using m2 t g ok mh by (intro exI [of _ True] exI [of _ "(m2, h1)"]) (simp add: hmap_inv_def)
    qed
  qed
qed

lemma hmap_find:
  assumes "hmap_inv a base (m, h)" and "hm_cap m \<noteq> 0"
  obtains s where "hmap_slot key m = Some s" and "s < length (hm_vals m)"
    and "hmap_content m key = (if hm_used m ! s then Some (hm_vals m ! s) else None)"
proof -
  have t: "table_ok m" "4 * filled m < 3 * unat (hm_cap m)" using assms by (auto simp: hmap_inv_def hm_ok_def)
  obtain s where s: "hmap_slot key m = Some s" "slot_for m key s" using hmap_slot_spec [OF t(1), of key] t(2) by auto
  have "hmap_content m key = (if hm_used m ! s then Some (hm_vals m ! s) else None)"
  proof (cases "hm_used m ! s")
    case True
    then have "holds_key m s key" using s(2) by (auto simp: slot_for_def)
    then show ?thesis using True content_Some [OF t(1)] by auto
  next
    case False
    then show ?thesis using s(2) by (auto simp: content_None slot_for_def holds_key_def)
  qed
  then show ?thesis using that s t(1) by (auto simp: slot_for_def table_ok_def)
qed

lemma hmap_empty_content: "hm_cap m = 0 \<Longrightarrow> hmap_content m = (\<lambda>_. None)"
  by (simp add: hmap_content_def fun_eq_iff)

interpretation hmap: ptr_map hmap_put hmap_get hmap_contains hmap_length "\<lambda>mh. hmap_content (fst mh)" "\<lambda>mh. hm_oom (fst mh)"
  "hmap_inv a base" for a base
proof (unfold_locales, goal_cases)
  case (1 s k v)
  then show ?case by (rule hmap_put_spec)
next
  case (2 s k)
  obtain m h where mh: "s = (m, h)" by (cases s)
  show ?case
  proof (cases "hm_cap m = 0")
    case True
    then show ?thesis by (simp add: mh hmap_get_def hmap_empty_content)
  next
    case False
    obtain i where "hmap_slot k m = Some i" "i < length (hm_vals m)"
      "hmap_content m k = (if hm_used m ! i then Some (hm_vals m ! i) else None)"
      using hmap_find [OF 2 [unfolded mh] False, of k] .
    then show ?thesis using False by (simp add: mh hmap_get_def)
  qed
next
  case (3 s k)
  obtain m h where mh: "s = (m, h)" by (cases s)
  show ?case
  proof (cases "hm_cap m = 0")
    case True
    then show ?thesis by (simp add: mh hmap_contains_def hmap_empty_content)
  next
    case False
    obtain i where "hmap_slot k m = Some i" "hmap_content m k = (if hm_used m ! i then Some (hm_vals m ! i) else None)"
      using hmap_find [OF 3 [unfolded mh] False, of k] by blast
    then show ?thesis using False by (simp add: mh hmap_contains_def)
  qed
next
  case (4 s)
  obtain m h where mh: "s = (m, h)" by (cases s)
  show ?case
  proof (cases "hm_cap m = 0")
    case True
    then show ?thesis using 4 by (simp add: mh hmap_length_def hmap_empty_content hmap_inv_def hm_ok_def)
  next
    case False
    then have "table_ok m" "unat (hm_len m) = filled m" using 4 by (auto simp: mh hmap_inv_def hm_ok_def)
    then show ?thesis using content_finite [of m] unat_lt64 [of "hm_len m"] by (simp add: mh hmap_length_def)
  qed
qed

section \<open>Initialisation and release\<close>

lemma round_from_spec:
  assumes "unat c = 2 ^ k"
  shows "\<exists>r. round_from c n = Some r \<and> (if r = 0 then 2 ^ 63 < unat n else n \<le> r \<and> (\<exists>j. unat r = 2 ^ j))"
  using assms
proof (induction "64 - k" arbitrary: c k)
  case 0
  then have "(2::nat) ^ 64 \<le> 2 ^ k" by (intro power_increasing) auto
  then show ?case using 0(2) unat_lt64 [of c] by simp
next
  case (Suc x)
  have x: "x = 64 - Suc k" using Suc.hyps(2) by arith
  show ?case
  proof (cases "c < n")
    case False
    then have "round_from c n = Some c" by (subst round_from.simps) simp
    moreover have "c \<noteq> 0" using Suc.prems by auto
    ultimately show ?thesis using Suc.prems False by (intro exI [of _ c]) auto
  next
    case True
    show ?thesis
    proof (cases "SIZE_MAX div 2 < c")
      case big: True
      have "63 \<le> k"
      proof (rule ccontr)
        assume "\<not> 63 \<le> k"
        then have "(2::nat) ^ k \<le> 2 ^ 62" by (intro power_increasing) auto
        then show False using big Suc.prems by (simp add: word_less_nat_alt unat_div SIZE_MAX_def)
      qed
      then have "(2::nat) ^ 63 \<le> 2 ^ k" by (intro power_increasing) auto
      then have "2 ^ 63 < unat n" using True Suc.prems by (simp add: word_less_nat_alt)
      moreover have "round_from c n = Some 0" using True big by (subst round_from.simps) simp
      ultimately show ?thesis by simp
    next
      case small: False
      then have "unat c < 2 ^ 63" by (simp add: word_less_nat_alt unat_div SIZE_MAX_def)
      then have dbl: "unat (push_bit 1 c) = 2 ^ Suc k" using Suc.prems
        by (simp add: push_bit_eq_mult unat_word_ariths)
      obtain r where r: "round_from (push_bit 1 c) n = Some r"
        "if r = 0 then 2 ^ 63 < unat n else n \<le> r \<and> (\<exists>j. unat r = 2 ^ j)"
        using Suc.hyps(1) [OF x dbl] by blast
      moreover have "round_from c n = round_from (push_bit 1 c) n" using True small by (subst round_from.simps) simp
      ultimately show ?thesis by (intro exI [of _ r] conjI) simp_all
    qed
  qed
qed

lemma round_pow2_spec: "\<exists>r. round_pow2 n = Some r \<and> (if r = 0 then 2 ^ 63 < unat n else n \<le> r \<and> (\<exists>j. unat r = 2 ^ j))"
  unfolding round_pow2_def by (rule round_from_spec [of _ 0]) simp

lemma hmap_init_spec:
  assumes "accounts (h a) base"
  shows "\<exists>ok m h1. hmap_init_seeded n a seed h = Some (ok, m, h1) \<and> hmap_inv a base (m, h1) \<and>
    hmap_content m = (\<lambda>_. None) \<and> hm_oom m = (\<not> ok)"
proof -
  obtain cap where cap: "round_pow2 (if n \<noteq> 0 then n else HMAP_DEFAULT_CAP) = Some cap"
    "if cap = 0 then 2 ^ 63 < unat (if n \<noteq> 0 then n else HMAP_DEFAULT_CAP)
     else (if n \<noteq> 0 then n else HMAP_DEFAULT_CAP) \<le> cap \<and> (\<exists>j. unat cap = 2 ^ j)" using round_pow2_spec by blast
  let ?m = "\<lparr>hm_keys = [], hm_vals = [], hm_used = [], hm_cap = 0, hm_len = 0, hm_a = a, hm_oom = False, hm_seed = seed\<rparr>"
  have none: "hmap_inv a base (?m\<lparr>hm_oom := True\<rparr>, h1) \<and> hmap_content (?m\<lparr>hm_oom := True\<rparr>) = (\<lambda>_. None)"
    if "accounts (h1 a) base" for h1 using that by (simp add: hmap_inv_def hm_ok_def hmap_empty_content)
  show ?thesis
  proof (cases "cap = 0")
    case True
    then show ?thesis using cap(1) none [of h, OF assms] by (intro exI [of _ False]) (simp add: hmap_init_seeded_def)
  next
    case False
    then obtain j where j: "unat cap = 2 ^ j" using cap(2) by auto
    obtain ok m1 h1 where al: "hmap_alloc cap ?m h = (ok, m1, h1)" by (metis prod_cases3)
    have "accounts (h (hm_a ?m)) base" using assms by simp
    note sp = hmap_alloc_spec [OF al this]
    show ?thesis
    proof (cases ok)
      case F: False
      then have "hmap_init_seeded n a seed h = Some (False, ?m\<lparr>hm_oom := True\<rparr>, h1)"
        using False cap(1) al sp(1) by (simp add: hmap_init_seeded_def)
      then show ?thesis using none [of h1] sp(3) F by (intro exI [of _ False]) simp
    next
      case T: True
      note et = empty_table_ok [OF j, of ?m]
      have "hmap_init_seeded n a seed h = Some (True, m1, h1)"
        using False cap(1) al T by (simp add: hmap_init_seeded_def)
      moreover have "hmap_inv a base (m1, h1)"
      proof -
        have "hm_cap (empty_table cap ?m) = cap" "hm_len (empty_table cap ?m) = 0" "hm_a (empty_table cap ?m) = a"
          by (simp_all add: empty_table_def)
        then show ?thesis using et sp T False by (simp add: hmap_inv_def hm_ok_def unat_gt_0)
      qed
      moreover have "hm_oom (empty_table cap ?m) = False" by (simp add: empty_table_def)
      ultimately show ?thesis using et(2) sp(1) T by (intro exI [of _ True]) simp
    qed
  qed
qed

lemma hmap_free_spec:
  assumes "hmap_inv a base (m, h)" and "hmap_free m h = (m1, h1)"
  shows "accounts (h1 a) base" and "hmap_inv a base (m1, h1)"
proof -
  have "accounts (h1 (hm_a m)) base"
    using release_tables [of m h base] assms by (auto simp: hmap_inv_def hmap_free_def)
  then show "accounts (h1 a) base" using assms(1) by (simp add: hmap_inv_def)
  then show "hmap_inv a base (m1, h1)" using assms by (auto simp: hmap_free_def hmap_inv_def hm_ok_def)
qed

abbreviation hmap_run :: "u64 mop list \<Rightarrow> hmap \<times> heap \<Rightarrow> (mres list \<times> hmap \<times> heap) option" where
  "hmap_run \<equiv> run_maps (map_step hmap_put hmap_get hmap_contains hmap_length (\<lambda>k s. Some (0, s)))"

text \<open>C27: the hash map refines a partial function. For any seed, any initial capacity, any allocator whose
  books are straight and any program of put, get, contains and len calls, \<open>bbq_hmap_init_seeded\<close>, every call
  and \<open>bbq_hmap_free\<close> return (no probe runs for ever or leaves the arrays), each answer is the one the
  partial function gives from the empty map, a put is refused only with \<open>oom\<close> set for good, and after the
  free the allocator has exactly the bytes out it had before.
\<close>

theorem hmap_refines:
  assumes "accounts (h a) base" and "\<And>k. MDel k \<notin> set ops"
  shows "\<exists>ok m h1 rs m2 h2 c.
    hmap_init_seeded n a seed h = Some (ok, m, h1) \<and> hmap_run ops (m, h1) = Some (rs, m2, h2) \<and>
    map_allows_all ops rs (\<lambda>_. None) c \<and> (\<not> hm_oom m2 \<longrightarrow> ok \<and> all_taken ops rs) \<and>
    (case hmap_free m2 h2 of (m3, h3) \<Rightarrow> accounts (h3 a) base)"
proof -
  obtain ok m h1 where i: "hmap_init_seeded n a seed h = Some (ok, m, h1)" "hmap_inv a base (m, h1)"
    "hmap_content m = (\<lambda>_. None)" "hm_oom m = (\<not> ok)" using hmap_init_spec [of h a base, OF assms(1)] by blast
  obtain rs m2 h2 where "hmap_run ops (m, h1) = Some (rs, m2, h2)" "hmap_inv a base (m2, h2)"
    "map_allows_all ops rs (\<lambda>_. None) (hmap_content m2)" "hm_oom m \<longrightarrow> hm_oom m2" "\<not> hm_oom m2 \<longrightarrow> all_taken ops rs"
    using hmap.run_ok [OF i(2) assms(2), where del = "\<lambda>k s. Some (0, s)"] i(3) by fastforce
  then show ?thesis using i hmap_free_spec(1) by (auto split: prod.splits)
qed

lemma hmap_refines_witness:
  "\<exists>ok m h1 rs m2 h2 c.
    hmap_init_seeded 1 0 7 (\<lambda>_. Libc (\<lambda>_. True) 0 0) = Some (ok, m, h1) \<and>
    hmap_run [MPut (5::u64) 9, MGet 5, MPut 6 0, MHas 6, MLen] (m, h1) = Some (rs, m2, h2) \<and>
    map_allows_all [MPut (5::u64) 9, MGet 5, MPut 6 0, MHas 6, MLen] rs (\<lambda>_. None) c \<and>
    (\<not> hm_oom m2 \<longrightarrow> ok \<and> all_taken [MPut (5::u64) 9, MGet 5, MPut 6 0, MHas 6, MLen] rs) \<and>
    (case hmap_free m2 h2 of (m3, h3) \<Rightarrow> accounts (h3 0) 0)"
  by (rule hmap_refines [of _ 0 0]) simp_all

text \<open>
  The load is tested before the key is looked for: replacing the value of a key that is there can be refused.
\<close>

lemma existing_key_refused:
  "case hmap_init_seeded 1 0 0 (\<lambda>_. Libc (\<lambda>k. k < 6) 0 0) of None \<Rightarrow> False | Some (ok, m, h) \<Rightarrow>
     (case hmap_run [MPut 5 9, MPut 5 10, MHas 5, MGet 5] (m, h) of None \<Rightarrow> False
      | Some (rs, m1, h1) \<Rightarrow> rs = [RBool True, RBool False, RBool True, RPtr 9] \<and> hm_oom m1)"
  by code_simp

end
