(* ===== verification/Htree.thy ===== *)
theory Htree
  imports Alloc Maps
begin

text \<open>
  \<open>crt/bbq_htree.h\<close> and \<open>crt/bbq_htree.c\<close>: the 16-way trie over the nibbles of 64-bit keys, with lazy
  expansion. A node owns its children, so the tree is a datatype; \<open>TNull\<close> is the NULL pointer. A shift by a
  negative amount and a step off the iterator's arrays are \<open>None\<close>.
\<close>

datatype tnode = TNull | TLeaf u64 ptr | TNode "tnode list"

record htree =
  ht_root :: tnode
  ht_count :: size_t
  ht_a :: nat
  ht_oom :: bool
  ht_gen :: u32

type_synonym tstate = "htree \<times> heap"

definition HTREE_NIBBLES :: nat where
  "HTREE_NIBBLES = 16"

text \<open>\<open>sizeof\<close> a node: the flag, padded, and sixteen pointers.\<close>

definition NODE_BYTES :: size_t where
  "NODE_BYTES = 136"

section \<open>Operations\<close>

text \<open>For levels below sixteen; the callers see to that.\<close>

definition nibble :: "u64 \<Rightarrow> nat \<Rightarrow> nat" where
  "nibble key level = unat (drop_bit (60 - level * 4) key AND 15)"

function divergence :: "u64 \<Rightarrow> u64 \<Rightarrow> nat \<Rightarrow> nat" where
  "divergence a b d = (if d < HTREE_NIBBLES \<and> nibble a d = nibble b d then divergence a b (Suc d) else d)"
  by pat_completeness auto
termination by (relation "measure (\<lambda>(a, b, d). HTREE_NIBBLES - d)") auto

declare divergence.simps [simp del]

definition node_new :: "tstate \<Rightarrow> bool \<times> tstate" where
  "node_new st = (case st of (t, h) \<Rightarrow> case h_zalloc (ht_a t) NODE_BYTES h of
     (ok, h1) \<Rightarrow> (ok, if ok then t else t\<lparr>ht_oom := True\<rparr>, h1))"

fun node_free_all :: "nat \<Rightarrow> tnode \<Rightarrow> heap \<Rightarrow> heap" where
  "node_free_all a TNull h = h"
| "node_free_all a (TLeaf k v) h = h_release a True NODE_BYTES h"
| "node_free_all a (TNode cs) h = h_release a True NODE_BYTES (fold (node_free_all a) cs h)"

definition htree_init_a :: "nat \<Rightarrow> htree" where
  "htree_init_a a = \<lparr>ht_root = TNull, ht_count = 0, ht_a = a, ht_oom = False, ht_gen = 0\<rparr>"

definition htree_free :: "tstate \<Rightarrow> tstate" where
  "htree_free st = (case st of (t, h) \<Rightarrow>
     (t\<lparr>ht_root := TNull, ht_count := 0, ht_oom := False, ht_gen := ht_gen t + 1\<rparr>, node_free_all (ht_a t) (ht_root t) h))"

definition htree_clear :: "tstate \<Rightarrow> tstate" where
  "htree_clear st = (case st of (t, h) \<Rightarrow>
     (t\<lparr>ht_root := TNull, ht_count := 0, ht_gen := ht_gen t + 1\<rparr>, node_free_all (ht_a t) (ht_root t) h))"

text \<open>The handle form: \<open>sizeof\<close> a tree is 32.\<close>

definition htree_create_a :: "nat \<Rightarrow> heap \<Rightarrow> htree option \<times> heap" where
  "htree_create_a a h = (case h_alloc a 32 h of (ok, h1) \<Rightarrow> (if ok then Some (htree_init_a a) else None, h1))"

definition htree_destroy :: "htree option \<Rightarrow> heap \<Rightarrow> heap" where
  "htree_destroy t h = (case t of
      None \<Rightarrow> h
    | Some t1 \<Rightarrow> h_release (ht_a t1) True 32 (snd (htree_free (t1, h))))"

text \<open>\<open>n\<close> interior nodes from \<open>level\<close> on, one inside the other along \<open>key\<close>, with \<open>inner\<close> at the end.\<close>

fun chain :: "u64 \<Rightarrow> nat \<Rightarrow> nat \<Rightarrow> tnode \<Rightarrow> tnode" where
  "chain key level 0 inner = inner"
| "chain key level (Suc n) inner =
     TNode ((replicate 16 TNull)[nibble key level := chain key (Suc level) n inner])"

text \<open>The loop of \<open>split_leaf\<close>: \<open>made\<close> interior nodes hang off \<open>head\<close>, \<open>n\<close> are to come.\<close>

fun split_mids :: "u64 \<Rightarrow> nat \<Rightarrow> nat \<Rightarrow> nat \<Rightarrow> tstate \<Rightarrow> bool \<times> tstate" where
  "split_mids key level made 0 st = (True, st)"
| "split_mids key level made (Suc n) st = (case node_new st of
     (True, st1) \<Rightarrow> split_mids key level (Suc made) n st1
   | (False, t1, h1) \<Rightarrow> (False, t1, node_free_all (ht_a t1) (chain key level made TNull) h1))"

definition split_leaf :: "u64 \<Rightarrow> ptr \<Rightarrow> nat \<Rightarrow> u64 \<Rightarrow> ptr \<Rightarrow> tstate \<Rightarrow> (bool \<times> tnode \<times> tstate) option" where
  "split_leaf okey ovalue level key v st =
     (let old = TLeaf okey ovalue; d = divergence okey key level in
      if HTREE_NIBBLES \<le> d then None
      else case split_mids key level 0 (d - level) st of
        (False, st1) \<Rightarrow> Some (False, old, st1)
      | (True, st1) \<Rightarrow> (case node_new st1 of
          (False, t2, h2) \<Rightarrow> Some (False, old, t2, node_free_all (ht_a t2) (chain key level (d - level) TNull) h2)
        | (True, st2) \<Rightarrow> (case node_new st2 of
            (False, t3, h3) \<Rightarrow> Some (False, old, t3, h_release (ht_a t3) True NODE_BYTES
                (node_free_all (ht_a t3) (chain key level (d - level) TNull) h3))
          | (True, st3) \<Rightarrow> Some (True, chain key level (d - level)
                (TNode ((replicate 16 TNull)[nibble okey d := old, nibble key d := TLeaf key v])), st3))))"

definition bump_gen :: "tstate \<Rightarrow> tstate" where
  "bump_gen st = (case st of (t, h) \<Rightarrow> (t\<lparr>ht_gen := ht_gen t + 1\<rparr>, h))"

definition count_up :: "tstate \<Rightarrow> tstate" where
  "count_up st = (case st of (t, h) \<Rightarrow> (t\<lparr>ht_count := ht_count t + 1\<rparr>, h))"

text \<open>The loop of \<open>bbq_htree_insert\<close> at \<open>*slot\<close>; the slot's new contents come back.\<close>

function insert_at :: "nat \<Rightarrow> tnode \<Rightarrow> u64 \<Rightarrow> ptr \<Rightarrow> tstate \<Rightarrow> (bool \<times> tnode \<times> tstate) option" where
  "insert_at level TNull key v st = (case node_new st of
      (False, st1) \<Rightarrow> Some (False, TNull, st1)
    | (True, st1) \<Rightarrow> Some (True, TLeaf key v, bump_gen (count_up st1)))"
| "insert_at level (TLeaf k w) key v st =
     (if k = key then Some (True, TLeaf k v, bump_gen st)
      else case split_leaf k w level key v st of
        None \<Rightarrow> None
      | Some (False, n, st1) \<Rightarrow> Some (False, n, st1)
      | Some (True, n, st1) \<Rightarrow> Some (True, n, bump_gen (count_up st1)))"
| "insert_at level (TNode cs) key v st =
     (if HTREE_NIBBLES \<le> level then Some (False, TNode cs, st)
      else case insert_at (Suc level) (cs ! nibble key level) key v st of
        None \<Rightarrow> None
      | Some (ok, c, st1) \<Rightarrow> Some (ok, TNode (cs[nibble key level := c]), st1))"
  by pat_completeness auto
termination by (relation "measure (\<lambda>(level, n, key, v, st). HTREE_NIBBLES - level)") auto

definition htree_insert :: "u64 \<Rightarrow> ptr \<Rightarrow> tstate \<Rightarrow> (bool \<times> tstate) option" where
  "htree_insert key v st = (case insert_at 0 (ht_root (fst st)) key v st of
      None \<Rightarrow> None
    | Some (ok, n, t1, h1) \<Rightarrow> Some (ok, t1\<lparr>ht_root := n\<rparr>, h1))"

text \<open>The loop of \<open>find_leaf\<close>; the value of the leaf stands for the leaf.\<close>

function find_at :: "nat \<Rightarrow> tnode \<Rightarrow> u64 \<Rightarrow> ptr option" where
  "find_at level n key = (case n of
      TNull \<Rightarrow> None
    | TLeaf k v \<Rightarrow> if k = key then Some v else None
    | TNode cs \<Rightarrow> if level < HTREE_NIBBLES then find_at (Suc level) (cs ! nibble key level) key else None)"
  by pat_completeness auto
termination by (relation "measure (\<lambda>(level, n, key). HTREE_NIBBLES - level)") auto

declare find_at.simps [simp del]

definition find_leaf :: "u64 \<Rightarrow> tstate \<Rightarrow> ptr option" where
  "find_leaf key st = find_at 0 (ht_root (fst st)) key"

definition htree_search :: "u64 \<Rightarrow> tstate \<Rightarrow> ptr option" where
  "htree_search key st = Some (case find_leaf key st of None \<Rightarrow> 0 | Some v \<Rightarrow> v)"

definition htree_contains :: "u64 \<Rightarrow> tstate \<Rightarrow> bool option" where
  "htree_contains key st = Some (find_leaf key st \<noteq> None)"

definition htree_size :: "tstate \<Rightarrow> nat" where
  "htree_size st = unat (ht_count (fst st))"

text \<open>
  One step of the walk back up: an interior node with no child goes, one with a lone leaf is replaced
  by it, and anything else ends the walk (\<open>False\<close>).
\<close>

definition collapse :: "nat \<Rightarrow> tnode list \<Rightarrow> heap \<Rightarrow> tnode \<times> bool \<times> heap" where
  "collapse a cs h = (case filter (\<lambda>c. c \<noteq> TNull) cs of
      [] \<Rightarrow> (TNull, True, h_release a True NODE_BYTES h)
    | [TLeaf k v] \<Rightarrow> (TLeaf k v, True, h_release a True NODE_BYTES h)
    | _ \<Rightarrow> (TNode cs, False, h))"

text \<open>\<open>bbq_htree_delete\<close> from \<open>*slot\<close> on: the value found, the slot's new contents, whether the walk goes on.\<close>

function delete_at :: "nat \<Rightarrow> tnode \<Rightarrow> u64 \<Rightarrow> tstate \<Rightarrow> ptr option \<times> tnode \<times> bool \<times> tstate" where
  "delete_at depth TNull key st = (None, TNull, False, st)"
| "delete_at depth (TLeaf k v) key st =
     (if k \<noteq> key then (None, TLeaf k v, False, st)
      else case st of (t, h) \<Rightarrow> (Some v, TNull, True,
        t\<lparr>ht_count := ht_count t - 1, ht_gen := ht_gen t + 1\<rparr>, h_release (ht_a t) True NODE_BYTES h))"
| "delete_at depth (TNode cs) key st =
     (if HTREE_NIBBLES \<le> depth then (None, TNode cs, False, st)
      else case delete_at (Suc depth) (cs ! nibble key depth) key st of
        (r, c, up, t1, h1) \<Rightarrow>
          if up then (case collapse (ht_a t1) (cs[nibble key depth := c]) h1 of (n, up1, h2) \<Rightarrow> (r, n, up1, t1, h2))
          else (r, TNode (cs[nibble key depth := c]), False, t1, h1))"
  by pat_completeness auto
termination by (relation "measure (\<lambda>(depth, n, key, st). HTREE_NIBBLES - depth)") auto

definition htree_delete :: "u64 \<Rightarrow> tstate \<Rightarrow> (ptr \<times> tstate) option" where
  "htree_delete key st = (case delete_at 0 (ht_root (fst st)) key st of
     (r, n, up, t1, h1) \<Rightarrow> Some (case r of None \<Rightarrow> 0 | Some v \<Rightarrow> v, t1\<lparr>ht_root := n\<rparr>, h1))"

section \<open>Iteration\<close>

text \<open>The stack of nodes with the next child of each, the top first.\<close>

record titer =
  it_gen :: u32
  it_stack :: "(tnode \<times> nat) list"

definition htree_iter_init :: "htree \<Rightarrow> titer" where
  "htree_iter_init t = \<lparr>it_gen = ht_gen t, it_stack = (if ht_root t \<noteq> TNull then [(ht_root t, 0)] else [])\<rparr>"

fun next_child :: "tnode list \<Rightarrow> nat \<Rightarrow> nat" where
  "next_child [] i = i"
| "next_child (c # cs) i = (if c = TNull then next_child cs (Suc i) else i)"

partial_function (option) iter_loop :: "(tnode \<times> nat) list \<Rightarrow> ((u64 \<times> ptr) option \<times> (tnode \<times> nat) list) option" where
  "iter_loop s = (case s of
      [] \<Rightarrow> Some (None, [])
    | (n, i0) # s1 \<Rightarrow> (case n of
        TNull \<Rightarrow> None
      | TLeaf k v \<Rightarrow> Some (Some (k, v), s1)
      | TNode cs \<Rightarrow> (let i = next_child (drop i0 cs) i0 in
          if i < 16 then (if length s \<le> HTREE_NIBBLES then iter_loop ((cs ! i, 0) # (n, i + 1) # s1) else None)
          else iter_loop s1)))"

declare iter_loop.simps [code]

definition htree_next :: "htree \<Rightarrow> titer \<Rightarrow> ((u64 \<times> ptr) option \<times> titer) option" where
  "htree_next t it =
     (if it_stack it = [] then Some (None, it)
      else if it_gen it \<noteq> ht_gen t then Some (None, it\<lparr>it_stack := []\<rparr>)
      else map_option (\<lambda>(r, s). (r, it\<lparr>it_stack := s\<rparr>)) (iter_loop (it_stack it)))"

partial_function (option) clone_loop :: "htree \<Rightarrow> titer \<Rightarrow> tstate \<Rightarrow> (bool \<times> tstate) option" where
  "clone_loop src it dst = (case htree_next src it of
      None \<Rightarrow> None
    | Some (None, it1) \<Rightarrow> Some (True, dst)
    | Some (Some (k, v), it1) \<Rightarrow> (case htree_insert k v dst of
        None \<Rightarrow> None
      | Some (ok, dst1) \<Rightarrow> if \<not> ok then Some (False, dst1) else clone_loop src it1 dst1))"

declare clone_loop.simps [code]

definition htree_clone :: "tstate \<Rightarrow> htree \<Rightarrow> (bool \<times> tstate) option" where
  "htree_clone dst src = clone_loop src (htree_iter_init src) dst"

section \<open>Keys as numbers\<close>

definition prefix_of :: "u64 \<Rightarrow> nat \<Rightarrow> nat" where
  "prefix_of key l = unat key div 16 ^ (16 - l)"

lemma prefix_0 [simp]: "prefix_of key 0 = 0"
  using unat_lt64 [of key] by (simp add: prefix_of_def)

lemma prefix_16 [simp]: "prefix_of key 16 = unat key"
  by (simp add: prefix_of_def)

lemma nibble_val: "nibble key l = unat key div 16 ^ (15 - l) mod 16" if "l < 16"
proof -
  have "(15 :: u64) = mask 4" by (simp add: mask_eq_exp_minus_1)
  then have "nibble key l = unat (take_bit 4 (drop_bit (60 - l * 4) key))" by (simp add: nibble_def take_bit_eq_mask)
  also have "\<dots> = take_bit 4 (drop_bit (60 - l * 4) (unat key))"
    using unat_lt64 [of key] by (simp add: unsigned_take_bit_eq unsigned_drop_bit_eq take_bit_nat_eq_self)
  also have "\<dots> = unat key div 2 ^ (60 - l * 4) mod 16" by (simp add: take_bit_eq_mod drop_bit_eq_div)
  also have "(2::nat) ^ (60 - l * 4) = 16 ^ (15 - l)"
  proof -
    have "60 - l * 4 = 4 * (15 - l)" using that by simp
    then have "(2::nat) ^ (60 - l * 4) = (2 ^ 4) ^ (15 - l)" by (metis power_mult)
    then show ?thesis by simp
  qed
  finally show ?thesis .
qed

lemma nibble_less [simp]: "nibble key l < 16"
proof -
  have "drop_bit (60 - l * 4) key AND 15 \<le> 15" by (rule word_and_le1)
  then show ?thesis by (simp add: nibble_def word_le_nat_alt)
qed

lemma prefix_Suc: "l < 16 \<Longrightarrow> prefix_of key (Suc l) = prefix_of key l * 16 + nibble key l"
proof -
  assume l: "l < 16"
  then have "16 - l = Suc (15 - l)" by simp
  then have "(16::nat) ^ (16 - l) = 16 ^ (15 - l) * 16" by (metis mult.commute power_Suc)
  then have "prefix_of key l = unat key div 16 ^ (15 - l) div 16" by (simp add: prefix_of_def div_mult2_eq)
  then show ?thesis using l by (simp add: nibble_val prefix_of_def)
qed

lemma prefix_div: "l < 16 \<Longrightarrow> prefix_of key (Suc l) = p * 16 + i \<Longrightarrow> i < 16 \<Longrightarrow> prefix_of key l = p \<and> nibble key l = i"
proof -
  assume a: "l < 16" "prefix_of key (Suc l) = p * 16 + i" "i < 16"
  then have e: "prefix_of key l * 16 + nibble key l = p * 16 + i" by (simp add: prefix_Suc)
  have "prefix_of key l = (prefix_of key l * 16 + nibble key l) div 16" using nibble_less [of key l] by simp
  also have "\<dots> = p" unfolding e using a(3) by simp
  finally show ?thesis using e by simp
qed

lemma prefix_less: "prefix_of a l < prefix_of b l \<Longrightarrow> a < b"
  unfolding prefix_of_def word_less_nat_alt by (metis div_le_mono linorder_not_less)

text \<open>The level where two keys part.\<close>

lemma divergence_spec:
  assumes "level \<le> 16" and "prefix_of a level = prefix_of b level"
  shows "level \<le> divergence a b level \<and> divergence a b level \<le> 16 \<and>
    (\<forall>l. level \<le> l \<and> l < divergence a b level \<longrightarrow> nibble a l = nibble b l) \<and>
    prefix_of a (divergence a b level) = prefix_of b (divergence a b level) \<and>
    (divergence a b level < 16 \<longrightarrow> nibble a (divergence a b level) \<noteq> nibble b (divergence a b level)) \<and>
    (a \<noteq> b \<longrightarrow> divergence a b level < 16)"
  using assms
proof (induction a b level rule: divergence.induct)
  case (1 a b d)
  show ?case
  proof (cases "d < HTREE_NIBBLES \<and> nibble a d = nibble b d")
    case True
    then have d: "d < 16" "nibble a d = nibble b d" by (auto simp: HTREE_NIBBLES_def)
    then have "prefix_of a (Suc d) = prefix_of b (Suc d)" using 1(3) by (simp add: prefix_Suc)
    note ih = 1(1) [OF True _ this]
    have "divergence a b d = divergence a b (Suc d)" using True by (subst divergence.simps) simp
    moreover have "\<forall>l. d \<le> l \<and> l < divergence a b (Suc d) \<longrightarrow> nibble a l = nibble b l"
      using ih d by (metis Suc_leI le_neq_implies_less)
    ultimately show ?thesis using ih d(1) by auto
  next
    case False
    then have e: "divergence a b d = d" by (subst divergence.simps) auto
    have "a = b" if "d = 16" using 1(3) that by (simp add: word_unat_eq_iff)
    moreover have "d = 16 \<or> d < 16" using 1(2) by auto
    ultimately show ?thesis using False 1(2,3) e by (auto simp: HTREE_NIBBLES_def)
  qed
qed

section \<open>The tree\<close>

fun leaves :: "tnode \<Rightarrow> (u64 \<times> ptr) list" where
  "leaves TNull = []"
| "leaves (TLeaf k v) = [(k, v)]"
| "leaves (TNode cs) = concat (map leaves cs)"

fun nodes :: "tnode \<Rightarrow> nat" where
  "nodes TNull = 0"
| "nodes (TLeaf k v) = 1"
| "nodes (TNode cs) = Suc (sum_list (map nodes cs))"

fun inner :: "tnode \<Rightarrow> bool" where
  "inner (TNode cs) = True"
| "inner _ = False"

text \<open>An interior child, or two children: no leaf is deeper than it has to be.\<close>

definition bushy :: "tnode list \<Rightarrow> bool" where
  "bushy cs = ((\<exists>i<length cs. inner (cs ! i)) \<or>
     (\<exists>i j. i < j \<and> j < length cs \<and> cs ! i \<noteq> TNull \<and> cs ! j \<noteq> TNull))"

text \<open>The subtree for the keys whose first \<open>l\<close> nibbles are the number \<open>p\<close>.\<close>

inductive node_ok :: "nat \<Rightarrow> nat \<Rightarrow> tnode \<Rightarrow> bool" where
  leaf: "l \<le> 16 \<Longrightarrow> prefix_of k l = p \<Longrightarrow> node_ok l p (TLeaf k v)"
| inner: "l < 16 \<Longrightarrow> length cs = 16 \<Longrightarrow> bushy cs \<Longrightarrow>
    (\<And>i. i < 16 \<Longrightarrow> cs ! i \<noteq> TNull \<Longrightarrow> node_ok (Suc l) (p * 16 + i) (cs ! i)) \<Longrightarrow> node_ok l p (TNode cs)"

inductive_cases node_ok_NodeE: "node_ok l p (TNode cs)"
inductive_simps node_ok_Leaf [simp]: "node_ok l p (TLeaf k v)"
inductive_simps node_ok_Null [simp]: "node_ok l p TNull"

definition slot_ok :: "nat \<Rightarrow> nat \<Rightarrow> tnode \<Rightarrow> bool" where
  "slot_ok l p n = (n = TNull \<or> node_ok l p n)"

definition kids_ok :: "nat \<Rightarrow> nat \<Rightarrow> tnode list \<Rightarrow> bool" where
  "kids_ok l p cs = (l < 16 \<and> length cs = 16 \<and> (\<forall>i<16. slot_ok (Suc l) (p * 16 + i) (cs ! i)))"

lemma slot_ok_simps [simp]: "slot_ok l p TNull" "slot_ok l p (TLeaf k v) = (l \<le> 16 \<and> prefix_of k l = p)"
  by (simp_all add: slot_ok_def)

lemma slot_ok_Node: "slot_ok l p (TNode cs) \<longleftrightarrow> kids_ok l p cs \<and> bushy cs"
  unfolding slot_ok_def kids_ok_def by (auto intro: node_ok.inner elim!: node_ok_NodeE)

lemma leaves_prefix: "node_ok l p n \<Longrightarrow> \<forall>k \<in> fst ` set (leaves n). prefix_of k l = p"
proof (induction rule: node_ok.induct)
  case (inner l cs p)
  show ?case
  proof
    fix k assume "k \<in> fst ` set (leaves (TNode cs))"
    then obtain c where c: "c \<in> set cs" "k \<in> fst ` set (leaves c)" by auto
    then obtain i where i: "i < 16" "c = cs ! i" using inner(2) by (auto simp: in_set_conv_nth)
    then have "c \<noteq> TNull" using c(2) by auto
    then have "prefix_of k (Suc l) = p * 16 + i" using inner i c by blast
    then show "prefix_of k l = p" using prefix_div inner(1) i(1) by blast
  qed
qed simp

lemma kid_prefix:
  assumes "kids_ok l p cs" and "i < 16" and "k \<in> fst ` set (leaves (cs ! i))"
  shows "prefix_of k l = p" and "nibble k l = i"
proof -
  have "cs ! i \<noteq> TNull" using assms(3) by auto
  then have "node_ok (Suc l) (p * 16 + i) (cs ! i)" using assms(1,2) by (auto simp: kids_ok_def slot_ok_def)
  then have "prefix_of k (Suc l) = p * 16 + i" using leaves_prefix assms(3) by blast
  then show "prefix_of k l = p" "nibble k l = i" using prefix_div assms(1,2) by (auto simp: kids_ok_def)
qed

lemma map_of_concat_nth:
  "i < length xs \<Longrightarrow> (\<And>j. j < length xs \<Longrightarrow> j \<noteq> i \<Longrightarrow> k \<notin> fst ` set (f (xs ! j))) \<Longrightarrow>
    map_of (concat (map f xs)) k = map_of (f (xs ! i)) k"
proof (induction xs arbitrary: i)
  case Nil
  then show ?case by simp
next
  case (Cons x xs)
  show ?case
  proof (cases i)
    case 0
    have "k \<notin> fst ` set (concat (map f xs))"
    proof
      assume "k \<in> fst ` set (concat (map f xs))"
      then obtain x where "x \<in> set xs" "k \<in> fst ` set (f x)" by auto
      then obtain j where "j < length xs" "k \<in> fst ` set (f (xs ! j))" by (metis in_set_conv_nth)
      then show False using Cons.prems(2) [of "Suc j"] 0 by auto
    qed
    then have "map_of (concat (map f xs)) k = None" by (simp add: map_of_eq_None_iff)
    then show ?thesis using 0 by (simp add: map_add_def split: option.splits)
  next
    case (Suc j)
    have "map_of (concat (map f xs)) k = map_of (f (xs ! j)) k"
    proof (rule Cons.IH)
      show "j < length xs" using Cons.prems(1) Suc by simp
      show "k \<notin> fst ` set (f (xs ! n))" if "n < length xs" "n \<noteq> j" for n
        using Cons.prems(2) [of "Suc n"] that Suc by simp
    qed
    moreover have "map_of (f x) k = None" using Cons.prems(2) [of 0] Suc by (simp add: map_of_eq_None_iff)
    ultimately show ?thesis using Suc by (simp add: map_add_def split: option.splits)
  qed
qed

lemma content_kids:
  assumes "kids_ok l p cs"
  shows "map_of (leaves (TNode cs)) k = (if prefix_of k l = p then map_of (leaves (cs ! nibble k l)) k else None)"
proof (cases "prefix_of k l = p")
  case True
  have "map_of (concat (map leaves cs)) k = map_of (leaves (cs ! nibble k l)) k"
    using kid_prefix(2) [OF assms] assms by (intro map_of_concat_nth) (auto simp: kids_ok_def)
  then show ?thesis using True by simp
next
  case False
  have "k \<notin> fst ` set (leaves (TNode cs))"
  proof
    assume "k \<in> fst ` set (leaves (TNode cs))"
    then obtain c where "c \<in> set cs" "k \<in> fst ` set (leaves c)" by auto
    then obtain i where "i < 16" "k \<in> fst ` set (leaves (cs ! i))"
      using assms by (metis in_set_conv_nth kids_ok_def)
    then show False using False kid_prefix(1) [OF assms] by blast
  qed
  then show ?thesis using False by (simp only: map_of_eq_None_iff if_False not_False_eq_True)
qed

lemma kids_upd: "kids_ok l p cs \<Longrightarrow> slot_ok (Suc l) (p * 16 + i) c \<Longrightarrow> kids_ok l p (cs[i := c])"
  by (clarsimp simp: kids_ok_def) (case_tac "ia = i"; simp)

lemma kid_ok: "kids_ok l p cs \<Longrightarrow> prefix_of key l = p \<Longrightarrow>
    slot_ok (Suc l) (prefix_of key (Suc l)) (cs ! nibble key l)"
  by (auto simp: kids_ok_def prefix_Suc)

text \<open>What an insertion at a slot leaves.\<close>

lemma node_new_spec:
  assumes "node_new (t, h) = (ok, t1, h1)" and "accounts (h (ht_a t)) s"
  shows "t1 = (if ok then t else t\<lparr>ht_oom := True\<rparr>)" and "accounts (h1 (ht_a t)) (if ok then s + 136 else s)"
proof -
  obtain ok' h' where a: "h_alloc (ht_a t) NODE_BYTES h = (ok', h')" by fastforce
  then have e: "ok' = ok" "h' = h1" "t1 = (if ok then t else t\<lparr>ht_oom := True\<rparr>)"
    using assms(1) by (auto simp: node_new_def h_zalloc_alloc)
  then show "t1 = (if ok then t else t\<lparr>ht_oom := True\<rparr>)" by simp
  have "accounts (h1 (ht_a t)) (s + paid ok NODE_BYTES)" using heap.al_acct [OF a assms(2)] e by simp
  then show "accounts (h1 (ht_a t)) (if ok then s + 136 else s)" by (simp add: paid_def NODE_BYTES_def split: if_splits)
qed

lemma node_release: "accounts (h a) (s + 136) \<Longrightarrow> accounts (h_release a True NODE_BYTES h a) s"
  by (rule heap.rel_add) (simp add: paid_def NODE_BYTES_def)

lemma node_free_all_spec: "accounts (h a) (s + 136 * nodes n) \<Longrightarrow> accounts (node_free_all a n h a) s"
proof (induction a n h arbitrary: s rule: node_free_all.induct)
  case (3 a cs h)
  have "accounts (fold (node_free_all a) ds g a) u"
    if "set ds \<subseteq> set cs" "accounts (g a) (u + 136 * sum_list (map nodes ds))" for ds g u using that
  proof (induction ds arbitrary: g)
    case (Cons d ds)
    have "accounts (node_free_all a d g a) (u + 136 * sum_list (map nodes ds))"
      using 3(1) [of d g] Cons.prems by (auto simp: algebra_simps)
    then show ?case using Cons by simp
  qed simp
  from this [of cs h "s + 136"] 3(2) show ?case by (simp add: node_release algebra_simps)
qed (auto intro: node_release)

lemma nodes_repl: "sum_list (map nodes ((replicate 16 TNull)[i := n])) = nodes n" if "i < 16"
proof -
  have "sum_list ((map nodes (replicate 16 TNull))[i := nodes n]) = nodes n"
    using that by (simp add: sum_list_update)
  then show ?thesis by (simp add: map_update)
qed

lemma nodes_upd: "i < length cs \<Longrightarrow> sum_list (map nodes (cs[i := n])) + nodes (cs ! i) = sum_list (map nodes cs) + nodes n"
proof -
  assume i: "i < length cs"
  have "nodes (cs ! i) \<le> sum_list (map nodes cs)" using i by (metis elem_le_sum_list length_map nth_map)
  then show ?thesis using i by (simp add: map_update sum_list_update)
qed

lemma nodes_chain: "nodes (chain key l n c) = n + nodes c"
  by (induction key l n c rule: chain.induct) (simp_all add: nodes_repl)

lemma split_mids_spec:
  assumes "split_mids key level made n (t, h) = (ok, t1, h1)" and "accounts (h (ht_a t)) (s + 136 * made)"
  shows "t1 = (if ok then t else t\<lparr>ht_oom := True\<rparr>) \<and> accounts (h1 (ht_a t)) (if ok then s + 136 * (made + n) else s)"
  using assms
proof (induction n arbitrary: made t h)
  case 0
  then show ?case by simp
next
  case (Suc n)
  obtain k t2 h2 where nn: "node_new (t, h) = (k, t2, h2)" by (metis prod_cases3)
  note sp = node_new_spec [OF nn Suc.prems(2)]
  show ?case
  proof (cases k)
    case True
    then have "split_mids key level (Suc made) n (t, h2) = (ok, t1, h1)" using Suc.prems(1) nn sp(1) by simp
    moreover have "accounts (h2 (ht_a t)) (s + 136 * Suc made)" using sp(2) True by (simp add: algebra_simps)
    ultimately have "t1 = (if ok then t else t\<lparr>ht_oom := True\<rparr>) \<and>
        accounts (h1 (ht_a t)) (if ok then s + 136 * (Suc made + n) else s)" by (rule Suc.IH)
    then show ?thesis by (simp only: add_Suc_shift)
  next
    case False
    then have "ok = False" "t1 = t\<lparr>ht_oom := True\<rparr>" "h1 = node_free_all (ht_a t) (chain key level made TNull) h2"
      using Suc.prems(1) nn sp(1) by auto
    then show ?thesis using sp(2) False node_free_all_spec [of h2 "ht_a t" s "chain key level made TNull"]
      by (simp add: nodes_chain)
  qed
qed

lemma chain_ok:
  assumes "node_ok (level + n) (prefix_of key (level + n)) c" and "inner c" and "level + n \<le> 16"
  shows "node_ok level (prefix_of key level) (chain key level n c) \<and> inner (chain key level n c) \<and>
    leaves (chain key level n c) = leaves c"
  using assms
proof (induction key level n c rule: chain.induct)
  case (2 key level n c)
  let ?sub = "chain key (Suc level) n c"
  have ih: "node_ok (Suc level) (prefix_of key (Suc level)) ?sub" "inner ?sub" "leaves ?sub = leaves c"
    using 2 by auto
  let ?cs = "(replicate 16 TNull)[nibble key level := ?sub]"
  have at: "?cs ! i = (if i = nibble key level then ?sub else TNull)" if "i < 16" for i
    using that by (simp add: nth_list_update)
  have "node_ok level (prefix_of key level) (TNode ?cs)"
  proof (rule node_ok.inner)
    show "bushy ?cs" using ih(2) at [of "nibble key level"] unfolding bushy_def by (intro disjI1 exI [of _ "nibble key level"]) simp
    show "node_ok (Suc level) (prefix_of key level * 16 + i) (?cs ! i)" if "i < 16" "?cs ! i \<noteq> TNull" for i
      using that ih(1) at [of i] 2(4) by (simp add: prefix_Suc split: if_splits)
  qed (use 2(4) in auto)
  moreover have "concat (map leaves ?cs) = leaves c"
  proof -
    have "concat ((replicate 16 [])[j := xs]) = xs" if "j < 16" for j and xs :: "(u64 \<times> ptr) list"
      using that by (simp add: upd_conv_take_nth_drop)
    then show ?thesis using ih(3) by (simp add: map_update)
  qed
  ultimately show ?case by simp
qed simp

lemma fork_ok:
  fixes v w :: ptr
  assumes "d < 16" and "prefix_of okey d = prefix_of key d" and "nibble okey d \<noteq> nibble key d"
  defines "f \<equiv> TNode ((replicate 16 TNull)[nibble okey d := TLeaf okey w, nibble key d := TLeaf key v])"
  shows "node_ok d (prefix_of key d) f" and "map_of (leaves f) = [okey \<mapsto> w, key \<mapsto> v]" and "nodes f = 3"
proof -
  let ?cs = "(replicate 16 TNull)[nibble okey d := TLeaf okey w, nibble key d := TLeaf key v]"
  have at: "?cs ! i = (if i = nibble key d then TLeaf key v else if i = nibble okey d then TLeaf okey w else TNull)" if "i < 16" for i
    using that assms(3) by (simp add: nth_list_update)
  have "bushy ?cs" unfolding bushy_def
  proof (rule disjI2)
    have "\<exists>i j. i < j \<and> {i, j} = {nibble key d, nibble okey d}" using assms(3) by (metis insert_commute linorder_neqE_nat)
    then obtain i j where ij: "i < j" "{i, j} = {nibble key d, nibble okey d}" by blast
    then have "j < 16" "i < 16" by (auto simp: doubleton_eq_iff)
    then show "\<exists>i j. i < j \<and> j < length ?cs \<and> ?cs ! i \<noteq> TNull \<and> ?cs ! j \<noteq> TNull"
      using ij at [of i] at [of j] by (intro exI [of _ i] exI [of _ j]) (auto simp: doubleton_eq_iff)
  qed
  moreover have "node_ok (Suc d) (prefix_of key d * 16 + i) (?cs ! i)" if "i < 16" "?cs ! i \<noteq> TNull" for i
    using that at [of i] assms(1,2) by (auto simp: prefix_Suc split: if_splits)
  ultimately show ok: "node_ok d (prefix_of key d) f" unfolding f_def using assms(1) by (intro node_ok.inner) auto
  then have k: "kids_ok d (prefix_of key d) ?cs" unfolding f_def using slot_ok_Node [of d "prefix_of key d" ?cs] by (simp add: slot_ok_def)
  show "map_of (leaves f) = [okey \<mapsto> w, key \<mapsto> v]"
  proof
    fix k
    have "map_of (leaves f) k = (if prefix_of k d = prefix_of key d then map_of (leaves (?cs ! nibble k d)) k else None)"
      unfolding f_def by (rule content_kids [OF k])
    then show "map_of (leaves f) k = [okey \<mapsto> w, key \<mapsto> v] k"
      using at [of "nibble k d"] assms(2,3) by auto
  qed
  have "sum_list (map nodes ?cs) + nodes (((replicate 16 TNull)[nibble okey d := TLeaf okey w]) ! nibble key d) =
      sum_list (map nodes ((replicate 16 TNull)[nibble okey d := TLeaf okey w])) + nodes (TLeaf key v)"
    by (rule nodes_upd) simp
  then show "nodes f = 3" using assms(3) by (simp add: f_def nodes_repl nth_list_update)
qed

lemma split_leaf_spec:
  assumes "prefix_of okey level = prefix_of key level" and "level \<le> 16" and "okey \<noteq> key"
    and "accounts (h (ht_a t)) (s + 136)"
  shows "\<exists>ok n t1 h1. split_leaf okey w level key v (t, h) = Some (ok, n, t1, h1) \<and>
    accounts (h1 (ht_a t)) (s + 136 * nodes n) \<and>
    (if ok then t1 = t \<and> node_ok level (prefix_of key level) n \<and> n \<noteq> TNull \<and> map_of (leaves n) = [okey \<mapsto> w, key \<mapsto> v]
     else n = TLeaf okey w \<and> t1 = t\<lparr>ht_oom := True\<rparr>)"
proof -
  let ?d = "divergence okey key level" and ?old = "TLeaf okey w"
  have d: "level \<le> ?d" "?d < 16" "prefix_of okey ?d = prefix_of key ?d" "nibble okey ?d \<noteq> nibble key ?d"
    using divergence_spec [OF assms(2,1)] assms(3) by auto
  note fork = fork_ok [OF d(2-4)]
  let ?f = "TNode ((replicate 16 TNull)[nibble okey ?d := ?old, nibble key ?d := TLeaf key v])"
  obtain k1 t1 h1 where m: "split_mids key level 0 (?d - level) (t, h) = (k1, t1, h1)" by (metis prod_cases3)
  have sm: "t1 = (if k1 then t else t\<lparr>ht_oom := True\<rparr>)"
    "accounts (h1 (ht_a t)) (if k1 then s + 136 + 136 * (?d - level) else s + 136)"
    using split_mids_spec [OF m, of "s + 136"] assms(4) by auto
  show ?thesis
  proof (cases k1)
    case False
    then show ?thesis using m d sm
      by (intro exI [of _ False] exI [of _ ?old]) (simp add: split_leaf_def HTREE_NIBBLES_def Let_def)
  next
    case k1: True
    obtain k2 t2 h2 where n2: "node_new (t, h1) = (k2, t2, h2)" by (metis prod_cases3)
    have s2: "t2 = (if k2 then t else t\<lparr>ht_oom := True\<rparr>)"
      "accounts (h2 (ht_a t)) (if k2 then s + 136 + 136 * (?d - level) + 136 else s + 136 + 136 * (?d - level))"
      using node_new_spec [OF n2] sm k1 by auto
    show ?thesis
    proof (cases k2)
      case False
      have "accounts (node_free_all (ht_a t) (chain key level (?d - level) TNull) h2 (ht_a t)) (s + 136)"
        by (rule node_free_all_spec) (use s2 False in \<open>simp add: nodes_chain\<close>)
      then show ?thesis using m d sm k1 n2 s2 False
        by (intro exI [of _ False] exI [of _ ?old]) (simp add: split_leaf_def HTREE_NIBBLES_def Let_def)
    next
      case k2: True
      obtain k3 t3 h3 where n3: "node_new (t, h2) = (k3, t3, h3)" by (metis prod_cases3)
      have s3: "t3 = (if k3 then t else t\<lparr>ht_oom := True\<rparr>)"
        "accounts (h3 (ht_a t)) (if k3 then s + 136 + 136 * (?d - level) + 136 + 136 else s + 136 + 136 * (?d - level) + 136)"
        using node_new_spec [OF n3] s2 k2 by auto
      show ?thesis
      proof (cases k3)
        case False
        have "accounts (node_free_all (ht_a t) (chain key level (?d - level) TNull) h3 (ht_a t)) (s + 136 + 136)"
          by (rule node_free_all_spec) (use s3 False in \<open>simp add: nodes_chain algebra_simps\<close>)
        then show ?thesis using m d sm k1 n2 s2 k2 n3 s3 False node_release
          by (intro exI [of _ False] exI [of _ ?old]) (simp add: split_leaf_def HTREE_NIBBLES_def Let_def)
      next
        case k3: True
        have "split_leaf okey w level key v (t, h) = Some (True, chain key level (?d - level) ?f, t, h3)"
          using m d sm k1 n2 s2 k2 n3 s3 k3 by (simp add: split_leaf_def HTREE_NIBBLES_def Let_def)
        moreover have "node_ok level (prefix_of key level) (chain key level (?d - level) ?f) \<and>
            inner (chain key level (?d - level) ?f) \<and> leaves (chain key level (?d - level) ?f) = leaves ?f"
          by (rule chain_ok) (use fork(1) d in auto)
        moreover have "accounts (h3 (ht_a t)) (s + 136 * nodes (chain key level (?d - level) ?f))"
          using s3 k3 fork(3) [where w = w and v = v] by (simp only: nodes_chain) (simp add: algebra_simps)
        ultimately show ?thesis using fork(2) [where w = w and v = v] by (intro exI [of _ True]) auto
      qed
    qed
  qed
qed

section \<open>Inserting\<close>

lemma bushy_upd:
  assumes "bushy cs" and "c \<noteq> TNull" and "inner (cs ! i) \<Longrightarrow> inner c"
  shows "bushy (cs[i := c])"
proof (cases "i < length cs")
  case True
  have at: "cs[i := c] ! j = (if j = i then c else cs ! j)" for j using True by (simp add: nth_list_update)
  from assms(1) show ?thesis unfolding bushy_def
  proof (elim disjE exE conjE)
    fix j assume "j < length cs" "inner (cs ! j)"
    then show "(\<exists>j<length (cs[i := c]). inner (cs[i := c] ! j)) \<or>
      (\<exists>j k. j < k \<and> k < length (cs[i := c]) \<and> cs[i := c] ! j \<noteq> TNull \<and> cs[i := c] ! k \<noteq> TNull)"
      using at [of j] assms(3) by (intro disjI1 exI [of _ j]) auto
  next
    fix j k assume "j < k" "k < length cs" "cs ! j \<noteq> TNull" "cs ! k \<noteq> TNull"
    then show "(\<exists>j<length (cs[i := c]). inner (cs[i := c] ! j)) \<or>
      (\<exists>j k. j < k \<and> k < length (cs[i := c]) \<and> cs[i := c] ! j \<noteq> TNull \<and> cs[i := c] ! k \<noteq> TNull)"
      using at [of j] at [of k] assms(2) by (intro disjI2 exI [of _ j] exI [of _ k]) auto
  qed
next
  case False
  then show ?thesis using assms(1) by (simp add: list_update_beyond)
qed

lemma insert_at_spec:
  "slot_ok level (prefix_of key level) n \<Longrightarrow> level \<le> 16 \<Longrightarrow> accounts (h (ht_a t)) (s + 136 * nodes n) \<Longrightarrow>
    \<exists>ok n1 t1 h1. insert_at level n key v (t, h) = Some (ok, n1, t1, h1) \<and>
      accounts (h1 (ht_a t)) (s + 136 * nodes n1) \<and> (map_of (leaves n) key \<noteq> None \<longrightarrow> ok) \<and>
      (if ok then slot_ok level (prefix_of key level) n1 \<and> n1 \<noteq> TNull \<and> (inner n \<longrightarrow> inner n1) \<and>
           map_of (leaves n1) = (map_of (leaves n))(key \<mapsto> v) \<and>
           t1 = t\<lparr>ht_count := (if map_of (leaves n) key = None then ht_count t + 1 else ht_count t), ht_gen := ht_gen t + 1\<rparr>
       else n1 = n \<and> t1 = t\<lparr>ht_oom := True\<rparr>)"
proof (induction level n key v "(t, h)" arbitrary: s rule: insert_at.induct)
  case (1 level key v)
  obtain k t2 h2 where nn: "node_new (t, h) = (k, t2, h2)" by (metis prod_cases3)
  have sp: "t2 = (if k then t else t\<lparr>ht_oom := True\<rparr>)" "accounts (h2 (ht_a t)) (if k then s + 136 else s)"
    using node_new_spec [OF nn] 1 by auto
  show ?case
  proof (cases k)
    case True
    then show ?thesis using nn sp 1 by (intro exI [of _ True]) (auto simp: bump_gen_def count_up_def)
  next
    case False
    then show ?thesis using nn sp by (intro exI [of _ False]) auto
  qed
next
  case (2 level k w key v)
  show ?case
  proof (cases "k = key")
    case True
    then show ?thesis using 2 by (intro exI [of _ True]) (auto simp: bump_gen_def)
  next
    case False
    have "prefix_of k level = prefix_of key level" "accounts (h (ht_a t)) (s + 136)" using 2 by auto
    then obtain ok n t1 h1 where sl: "split_leaf k w level key v (t, h) = Some (ok, n, t1, h1)"
      "accounts (h1 (ht_a t)) (s + 136 * nodes n)"
      "if ok then t1 = t \<and> node_ok level (prefix_of key level) n \<and> n \<noteq> TNull \<and> map_of (leaves n) = [k \<mapsto> w, key \<mapsto> v]
       else n = TLeaf k w \<and> t1 = t\<lparr>ht_oom := True\<rparr>"
      using split_leaf_spec [OF _ 2(2) False] by blast
    show ?thesis
    proof (cases ok)
      case True
      then show ?thesis using sl False by (intro exI [of _ True]) (auto simp: bump_gen_def count_up_def slot_ok_def)
    next
      case F: False
      then show ?thesis using sl False by (intro exI [of _ False]) auto
    qed
  qed
next
  case (3 level cs key v)
  let ?i = "nibble key level" and ?p = "prefix_of key level"
  have k: "kids_ok level ?p cs" and b: "bushy cs" using 3(2) by (auto simp: slot_ok_Node)
  then have l: "level < 16" "length cs = 16" by (auto simp: kids_ok_def)
  have i: "?i < length cs" using l by simp
  have nd: "nodes (cs ! ?i) \<le> sum_list (map nodes cs)" using i by (metis elem_le_sum_list length_map nth_map)
  let ?s = "s + 136 * (Suc (sum_list (map nodes cs)) - nodes (cs ! ?i))"
  have "accounts (h (ht_a t)) (?s + 136 * nodes (cs ! ?i))" using 3(4) nd by (simp add: algebra_simps)
  then obtain ok c t1 h1 where ih: "insert_at (Suc level) (cs ! ?i) key v (t, h) = Some (ok, c, t1, h1)"
    "accounts (h1 (ht_a t)) (?s + 136 * nodes c)" "map_of (leaves (cs ! ?i)) key \<noteq> None \<longrightarrow> ok"
    "if ok then slot_ok (Suc level) (prefix_of key (Suc level)) c \<and> c \<noteq> TNull \<and> (inner (cs ! ?i) \<longrightarrow> inner c) \<and>
           map_of (leaves c) = (map_of (leaves (cs ! ?i)))(key \<mapsto> v) \<and>
           t1 = t\<lparr>ht_count := (if map_of (leaves (cs ! ?i)) key = None then ht_count t + 1 else ht_count t), ht_gen := ht_gen t + 1\<rparr>
       else c = cs ! ?i \<and> t1 = t\<lparr>ht_oom := True\<rparr>"
    using 3(1) [of ?s] kid_ok [OF k refl] l by (auto simp: HTREE_NIBBLES_def)
  let ?cs = "cs[?i := c]"
  have e: "insert_at level (TNode cs) key v (t, h) = Some (ok, TNode ?cs, t1, h1)"
    using ih(1) l by (simp add: HTREE_NIBBLES_def)
  have a: "accounts (h1 (ht_a t)) (s + 136 * nodes (TNode ?cs))"
  proof -
    have "sum_list (map nodes ?cs) + nodes (cs ! ?i) = sum_list (map nodes cs) + nodes c" by (rule nodes_upd [OF i])
    then have eq: "?s + 136 * nodes c = s + 136 * nodes (TNode ?cs)" using nd by simp
    show ?thesis using ih(2) unfolding eq .
  qed
  show ?case
  proof (cases ok)
    case False
    then have "?cs = cs" "t1 = t\<lparr>ht_oom := True\<rparr>" "map_of (leaves (TNode cs)) key = None"
      using ih(3,4) content_kids [OF k, of key] by auto
    then show ?thesis using e a False by (intro exI [of _ False]) auto
  next
    case True
    then have c: "slot_ok (Suc level) (prefix_of key (Suc level)) c" "c \<noteq> TNull" "inner (cs ! ?i) \<longrightarrow> inner c"
      "map_of (leaves c) = (map_of (leaves (cs ! ?i)))(key \<mapsto> v)"
      "t1 = t\<lparr>ht_count := (if map_of (leaves (cs ! ?i)) key = None then ht_count t + 1 else ht_count t), ht_gen := ht_gen t + 1\<rparr>"
      using ih(4) by auto
    have k1: "kids_ok level ?p ?cs" using kids_upd [OF k] c(1) l by (simp add: prefix_Suc)
    have "bushy ?cs" using bushy_upd [OF b c(2)] c(3) by blast
    then have so: "slot_ok level ?p (TNode ?cs)" using k1 by (simp add: slot_ok_Node)
    have m: "map_of (leaves (TNode ?cs)) = (map_of (leaves (TNode cs)))(key \<mapsto> v)"
    proof
      fix k
      show "map_of (leaves (TNode ?cs)) k = ((map_of (leaves (TNode cs)))(key \<mapsto> v)) k"
        unfolding content_kids [OF k1] content_kids [OF k] fun_upd_apply using i c(4)
        by (cases "k = key"; cases "nibble k level = ?i") auto
    qed
    have n: "map_of (leaves (cs ! ?i)) key = map_of (leaves (TNode cs)) key" using content_kids [OF k, of key] by simp
    show ?thesis using e a so m c(5) True unfolding n by (intro exI [of _ True]) auto
  qed
qed

section \<open>Finding\<close>

lemma find_at_spec: "node_ok l p n \<Longrightarrow> p = prefix_of key l \<Longrightarrow> find_at l n key = map_of (leaves n) key"
proof (induction rule: node_ok.induct)
  case (leaf l k p v)
  then show ?case by (simp add: find_at.simps)
next
  case (inner l cs p)
  let ?c = "cs ! nibble key l"
  have k: "kids_ok l p cs" using inner by (auto simp: kids_ok_def slot_ok_def)
  have "find_at (Suc l) ?c key = map_of (leaves ?c) key"
  proof (cases "?c = TNull")
    case True
    then show ?thesis by (simp add: find_at.simps)
  next
    case False
    moreover have "p * 16 + nibble key l = prefix_of key (Suc l)" using inner(1) inner.prems by (simp add: prefix_Suc)
    ultimately show ?thesis using inner.IH [of "nibble key l"] by simp
  qed
  then show ?case using inner(1) inner.prems content_kids [OF k, of key]
    by (subst find_at.simps) (simp add: HTREE_NIBBLES_def)
qed

lemma find_slot: "slot_ok l (prefix_of key l) n \<Longrightarrow> find_at l n key = map_of (leaves n) key"
  using find_at_spec [of l _ n key] by (auto simp: slot_ok_def find_at.simps)

section \<open>Deleting\<close>

lemma two_of_filter:
  "filter P xs = x # y # zs \<Longrightarrow> \<exists>i j. i < j \<and> j < length xs \<and> P (xs ! i) \<and> P (xs ! j)"
proof (induction xs)
  case (Cons a xs)
  show ?case
  proof (cases "P a")
    case True
    then have "y \<in> set (filter P xs)" using Cons.prems by simp
    then obtain j where "j < length xs" "P (xs ! j)" by (auto simp: in_set_conv_nth)
    then show ?thesis using True by (intro exI [of _ 0] exI [of _ "Suc j"]) simp
  next
    case False
    then obtain i j where "i < j" "j < length xs" "P (xs ! i)" "P (xs ! j)" using Cons by auto
    then show ?thesis by (intro exI [of _ "Suc i"] exI [of _ "Suc j"]) simp
  qed
qed simp

lemma concat_filter: "(\<And>c. c \<in> set cs \<Longrightarrow> \<not> P c \<Longrightarrow> f c = []) \<Longrightarrow> concat (map f (filter P cs)) = concat (map f cs)"
  by (induction cs) auto

lemma sum_filter: "(\<And>c. c \<in> set cs \<Longrightarrow> \<not> P c \<Longrightarrow> f c = (0::nat)) \<Longrightarrow> sum_list (map f (filter P cs)) = sum_list (map f cs)"
  by (induction cs) auto

text \<open>A collapse keeps the keys, and the shape when the walk goes on or ends.\<close>

lemma collapse_spec:
  assumes "kids_ok l p cs" and "collapse a cs h = (n, up, h1)" and "accounts (h a) (s + 136 * nodes (TNode cs))"
  shows "slot_ok l p n \<and> leaves n = leaves (TNode cs) \<and> accounts (h1 a) (s + 136 * nodes n) \<and> (\<not> up \<longrightarrow> inner n)"
proof -
  let ?P = "\<lambda>c. c \<noteq> TNull"
  have lv: "concat (map leaves (filter ?P cs)) = leaves (TNode cs)" using concat_filter [of cs ?P leaves] by simp
  have nd: "nodes (TNode cs) = Suc (sum_list (map nodes (filter ?P cs)))" using sum_filter [of cs ?P nodes] by simp
  have ac: "accounts (h a) (s + 136 * sum_list (map nodes (filter ?P cs)) + 136)" using assms(3) nd by (simp add: algebra_simps)
  show ?thesis
  proof (cases "filter ?P cs")
    case Nil
    then show ?thesis using assms(2) lv node_release [of h a s] ac by (simp add: collapse_def)
  next
    case (Cons c ds)
    then have "c \<in> set (filter ?P cs)" by simp
    then have c: "c \<noteq> TNull" "c \<in> set cs" by auto
    show ?thesis
    proof (cases "\<exists>k v. c = TLeaf k v \<and> ds = []")
      case True
      then obtain k v where kv: "c = TLeaf k v" "ds = []" by blast
      then have e: "n = TLeaf k v" "up" "h1 = h_release a True NODE_BYTES h" using assms(2) Cons by (auto simp: collapse_def)
      obtain i where "i < 16" "cs ! i = TLeaf k v" using c(2) kv(1) assms(1) by (metis in_set_conv_nth kids_ok_def)
      then have "prefix_of k l = p" using kid_prefix(1) [OF assms(1), of i k] by simp
      moreover have "l < 16" using assms(1) by (simp add: kids_ok_def)
      moreover have "accounts (h1 a) (s + 136)" using e node_release [of h a "s + 136"] ac Cons kv by (simp add: algebra_simps)
      ultimately show ?thesis using e lv Cons kv by simp
    next
      case False
      then have e: "n = TNode cs" "\<not> up" "h1 = h" using assms(2) Cons c(1)
        by (auto simp: collapse_def split: tnode.splits list.splits)
      have "bushy cs"
      proof (cases ds)
        case Nil
        then have "inner c" using False c(1) by (cases c) auto
        then show ?thesis using c(2) unfolding bushy_def by (metis in_set_conv_nth)
      next
        case (Cons d es)
        then have "\<exists>i j. i < j \<and> j < length cs \<and> cs ! i \<noteq> TNull \<and> cs ! j \<noteq> TNull"
          using two_of_filter [of ?P cs c d es] \<open>filter ?P cs = c # ds\<close> by blast
        then show ?thesis unfolding bushy_def by blast
      qed
      then show ?thesis using e assms by (simp add: slot_ok_Node)
    qed
  qed
qed

lemma delete_at_spec:
  "slot_ok d (prefix_of key d) n \<Longrightarrow> accounts (h (ht_a t)) (s + 136 * nodes n) \<Longrightarrow>
    \<exists>r n1 up t1 h1. delete_at d n key (t, h) = (r, n1, up, t1, h1) \<and> r = map_of (leaves n) key \<and>
      slot_ok d (prefix_of key d) n1 \<and> map_of (leaves n1) = (map_of (leaves n))(key := None) \<and>
      accounts (h1 (ht_a t)) (s + 136 * nodes n1) \<and> (\<not> up \<longrightarrow> n1 = n \<or> inner n1) \<and>
      t1 = (if r = None then t else t\<lparr>ht_count := ht_count t - 1, ht_gen := ht_gen t + 1\<rparr>)"
proof (induction d n key "(t, h)" arbitrary: s rule: delete_at.induct)
  case (1 depth key)
  then show ?case by auto
next
  case (2 depth k v key)
  show ?case
  proof (cases "k = key")
    case True
    have "accounts (h_release (ht_a t) True NODE_BYTES h (ht_a t)) s" using 2(2) by (intro node_release) simp
    then show ?thesis using True 2(1) by auto
  next
    case False
    then show ?thesis using 2 by auto
  qed
next
  case (3 depth cs key)
  let ?i = "nibble key depth" and ?p = "prefix_of key depth"
  have k: "kids_ok depth ?p cs" and b: "bushy cs" using 3(2) by (auto simp: slot_ok_Node)
  then have l: "depth < 16" "length cs = 16" by (auto simp: kids_ok_def)
  have i: "?i < length cs" using l by simp
  have nd: "nodes (cs ! ?i) \<le> sum_list (map nodes cs)" using i by (metis elem_le_sum_list length_map nth_map)
  let ?s = "s + 136 * (Suc (sum_list (map nodes cs)) - nodes (cs ! ?i))"
  have acc: "accounts (h (ht_a t)) (?s + 136 * nodes (cs ! ?i))" using 3(3) nd by (simp add: algebra_simps)
  have nl: "\<not> HTREE_NIBBLES \<le> depth" using l by (simp add: HTREE_NIBBLES_def)
  obtain r c up t1 h1 where ih: "delete_at (Suc depth) (cs ! ?i) key (t, h) = (r, c, up, t1, h1)"
    "r = map_of (leaves (cs ! ?i)) key" "slot_ok (Suc depth) (prefix_of key (Suc depth)) c"
    "map_of (leaves c) = (map_of (leaves (cs ! ?i)))(key := None)" "accounts (h1 (ht_a t)) (?s + 136 * nodes c)"
    "\<not> up \<longrightarrow> c = cs ! ?i \<or> inner c"
    "t1 = (if r = None then t else t\<lparr>ht_count := ht_count t - 1, ht_gen := ht_gen t + 1\<rparr>)"
    using 3(1) [OF nl kid_ok [OF k refl] acc] by (elim exE conjE) (rule that; assumption)
  let ?cs = "cs[?i := c]"
  have a: "accounts (h1 (ht_a t1)) (s + 136 * nodes (TNode ?cs))"
  proof -
    have "sum_list (map nodes ?cs) + nodes (cs ! ?i) = sum_list (map nodes cs) + nodes c" by (rule nodes_upd [OF i])
    then have eq: "?s + 136 * nodes c = s + 136 * nodes (TNode ?cs)" using nd by simp
    show ?thesis using ih(5,7) unfolding eq by simp
  qed
  have k1: "kids_ok depth ?p ?cs" using kids_upd [OF k] ih(3) l by (simp add: prefix_Suc)
  have m: "map_of (leaves (TNode ?cs)) = (map_of (leaves (TNode cs)))(key := None)"
  proof
    fix k
    show "map_of (leaves (TNode ?cs)) k = ((map_of (leaves (TNode cs)))(key := None)) k"
      unfolding content_kids [OF k1] content_kids [OF k] fun_upd_apply using i ih(4)
      by (cases "k = key"; cases "nibble k depth = ?i") auto
  qed
  have r: "r = map_of (leaves (TNode cs)) key" using ih(2) content_kids [OF k, of key] by simp
  have at: "ht_a t1 = ht_a t" using ih(7) by simp
  show ?case
  proof (cases up)
    case False
    have "bushy ?cs"
    proof (cases "c = cs ! ?i")
      case True
      then show ?thesis using b by simp
    next
      case F: False
      then have "inner c" using ih(6) False by blast
      moreover from this have "c \<noteq> TNull" by auto
      ultimately show ?thesis using bushy_upd [OF b] by blast
    qed
    then have so: "slot_ok depth ?p (TNode ?cs)" using k1 by (simp add: slot_ok_Node)
    have e: "delete_at depth (TNode cs) key (t, h) = (r, TNode ?cs, False, t1, h1)"
      using ih(1) l False by (simp add: HTREE_NIBBLES_def)
    have a1: "accounts (h1 (ht_a t)) (s + 136 * nodes (TNode ?cs))" using a unfolding at .
    have "delete_at depth (TNode cs) key (t, h) = (r, TNode ?cs, False, t1, h1) \<and> r = map_of (leaves (TNode cs)) key \<and>
        slot_ok depth ?p (TNode ?cs) \<and> map_of (leaves (TNode ?cs)) = (map_of (leaves (TNode cs)))(key := None) \<and>
        accounts (h1 (ht_a t)) (s + 136 * nodes (TNode ?cs)) \<and> (\<not> False \<longrightarrow> TNode ?cs = TNode cs \<or> inner (TNode ?cs)) \<and>
        t1 = (if r = None then t else t\<lparr>ht_count := ht_count t - 1, ht_gen := ht_gen t + 1\<rparr>)"
    proof (intro conjI)
      show "\<not> False \<longrightarrow> TNode ?cs = TNode cs \<or> inner (TNode ?cs)" by simp
    qed (fact e r so m a1 ih(7))+
    then show ?thesis by blast
  next
    case True
    obtain n up1 h2 where co: "collapse (ht_a t1) ?cs h1 = (n, up1, h2)" by (metis prod_cases3)
    have e: "delete_at depth (TNode cs) key (t, h) = (r, n, up1, t1, h2)"
      using ih(1) l True co by (simp add: HTREE_NIBBLES_def)
    have c: "slot_ok depth ?p n \<and> leaves n = leaves (TNode ?cs) \<and> accounts (h2 (ht_a t1)) (s + 136 * nodes n) \<and>
        (\<not> up1 \<longrightarrow> inner n)" by (rule collapse_spec [OF k1 co a])
    have m1: "map_of (leaves n) = (map_of (leaves (TNode cs)))(key := None)" using c m by (simp only:)
    have a1: "accounts (h2 (ht_a t)) (s + 136 * nodes n)" using c unfolding at by blast
    have "delete_at depth (TNode cs) key (t, h) = (r, n, up1, t1, h2) \<and> r = map_of (leaves (TNode cs)) key \<and>
        slot_ok depth ?p n \<and> map_of (leaves n) = (map_of (leaves (TNode cs)))(key := None) \<and>
        accounts (h2 (ht_a t)) (s + 136 * nodes n) \<and> (\<not> up1 \<longrightarrow> n = TNode cs \<or> inner n) \<and>
        t1 = (if r = None then t else t\<lparr>ht_count := ht_count t - 1, ht_gen := ht_gen t + 1\<rparr>)"
    proof (intro conjI)
      show "\<not> up1 \<longrightarrow> n = TNode cs \<or> inner n" using c by blast
      show "slot_ok depth ?p n" using c by blast
    qed (fact e r m1 a1 ih(7))+
    then show ?thesis by blast
  qed
qed

section \<open>The map\<close>

definition htree_content :: "tstate \<Rightarrow> u64 \<Rightarrow> ptr option" where
  "htree_content st = map_of (leaves (ht_root (fst st)))"

text \<open>The count is the number of keys as a \<open>size_t\<close>; the allocator has exactly the nodes out.\<close>

definition htree_inv :: "nat \<Rightarrow> nat \<Rightarrow> tstate \<Rightarrow> bool" where
  "htree_inv a base st = (case st of (t, h) \<Rightarrow>
     ht_a t = a \<and> slot_ok 0 0 (ht_root t) \<and> ht_count t = word_of_nat (card (dom (htree_content st))) \<and>
     accounts (h a) (base + 136 * nodes (ht_root t)))"

lemma htree_content_simp: "htree_content (t, h) = map_of (leaves (ht_root t))"
  by (simp add: htree_content_def)

lemma htree_insert_spec:
  assumes "htree_inv a base st"
  shows "\<exists>ok st1. htree_insert key v st = Some (ok, st1) \<and> htree_inv a base st1 \<and> (ht_oom (fst st) \<longrightarrow> ht_oom (fst st1)) \<and>
    htree_content st1 = (if ok then (htree_content st)(key \<mapsto> v) else htree_content st) \<and> (\<not> ok \<longrightarrow> ht_oom (fst st1)) \<and>
    (htree_content st key \<noteq> None \<longrightarrow> ok)"
proof -
  obtain t h where st: "st = (t, h)" by (cases st)
  have i: "ht_a t = a" "slot_ok 0 (prefix_of key 0) (ht_root t)" "accounts (h (ht_a t)) (base + 136 * nodes (ht_root t))"
    "ht_count t = word_of_nat (card (dom (map_of (leaves (ht_root t)))))"
    using assms by (auto simp: st htree_inv_def htree_content_simp)
  obtain ok n1 t1 h1 where ins: "insert_at 0 (ht_root t) key v (t, h) = Some (ok, n1, t1, h1)"
    "accounts (h1 (ht_a t)) (base + 136 * nodes n1)" "map_of (leaves (ht_root t)) key \<noteq> None \<longrightarrow> ok"
    "if ok then slot_ok 0 (prefix_of key 0) n1 \<and> n1 \<noteq> TNull \<and> (inner (ht_root t) \<longrightarrow> inner n1) \<and>
           map_of (leaves n1) = (map_of (leaves (ht_root t)))(key \<mapsto> v) \<and>
           t1 = t\<lparr>ht_count := (if map_of (leaves (ht_root t)) key = None then ht_count t + 1 else ht_count t), ht_gen := ht_gen t + 1\<rparr>
       else n1 = ht_root t \<and> t1 = t\<lparr>ht_oom := True\<rparr>"
    using insert_at_spec [where level = 0 and key = key and n = "ht_root t" and h = h and t = t and s = base and v = v] i(2,3)
    by auto
  have e: "htree_insert key v st = Some (ok, t1\<lparr>ht_root := n1\<rparr>, h1)" using ins(1) by (simp add: htree_insert_def st)
  let ?m = "map_of (leaves (ht_root t))"
  have c: "word_of_nat (card (dom (?m(key \<mapsto> v)))) = (if ?m key = None then ht_count t + 1 else ht_count t)"
    using i(4) finite_dom_map_of [of "leaves (ht_root t)"] by (auto simp: card_insert_if domIff insert_absorb add.commute)
  show ?thesis
  proof (cases ok)
    case True
    then show ?thesis using e ins i c by (intro exI [of _ True] exI [of _ "(t1\<lparr>ht_root := n1\<rparr>, h1)"])
      (auto simp: st htree_inv_def htree_content_simp)
  next
    case False
    then show ?thesis using e ins i by (intro exI [of _ False] exI [of _ "(t1\<lparr>ht_root := n1\<rparr>, h1)"])
      (auto simp: st htree_inv_def htree_content_simp)
  qed
qed

lemma htree_delete_spec:
  assumes "htree_inv a base st"
  shows "\<exists>st1. htree_delete key st = Some (or_null (htree_content st key), st1) \<and> htree_inv a base st1 \<and>
    htree_content st1 = (htree_content st)(key := None) \<and> (ht_oom (fst st) \<longrightarrow> ht_oom (fst st1))"
proof -
  obtain t h where st: "st = (t, h)" by (cases st)
  have i: "ht_a t = a" "slot_ok 0 (prefix_of key 0) (ht_root t)" "accounts (h (ht_a t)) (base + 136 * nodes (ht_root t))"
    "ht_count t = word_of_nat (card (dom (map_of (leaves (ht_root t)))))"
    using assms by (auto simp: st htree_inv_def htree_content_simp)
  let ?m = "map_of (leaves (ht_root t))"
  obtain n1 up t1 h1 where d: "delete_at 0 (ht_root t) key (t, h) = (?m key, n1, up, t1, h1)"
    "slot_ok 0 (prefix_of key 0) n1" "map_of (leaves n1) = ?m(key := None)" "accounts (h1 (ht_a t)) (base + 136 * nodes n1)"
    "t1 = (if ?m key = None then t else t\<lparr>ht_count := ht_count t - 1, ht_gen := ht_gen t + 1\<rparr>)"
    using delete_at_spec [where d = 0 and key = key and n = "ht_root t" and h = h and t = t and s = base] i(2,3) by auto
  have "htree_delete key st = Some (or_null (?m key), t1\<lparr>ht_root := n1\<rparr>, h1)"
    using d(1) by (simp add: htree_delete_def st or_null_def)
  moreover have "word_of_nat (card (dom (?m(key := None)))) = ht_count t1"
  proof (cases "?m key = None")
    case True
    then show ?thesis using d(5) i(4) by (simp add: fun_upd_idem)
  next
    case False
    have f: "finite (dom ?m)" by (rule finite_dom_map_of)
    have "key \<in> dom ?m" using False by auto
    then have "card (dom ?m) = Suc (card (dom ?m - {key}))" by (rule card_Suc_Diff1 [OF f, symmetric])
    then show ?thesis using False d(5) i(4) by simp
  qed
  ultimately show ?thesis using d i by (auto simp: st htree_inv_def htree_content_simp)
qed

interpretation htree: ptr_map_del htree_insert htree_search htree_contains htree_size htree_content "\<lambda>st. ht_oom (fst st)"
  "htree_inv a base" htree_delete for a base
proof (unfold_locales, goal_cases)
  case (1 s k v)
  then show ?case using htree_insert_spec [of a base s k v] by blast
next
  case (2 s k)
  then show ?case using find_slot [of 0 k "ht_root (fst s)"]
    by (auto simp: htree_search_def find_leaf_def htree_content_def htree_inv_def or_null_def)
next
  case (3 s k)
  then show ?case using find_slot [of 0 k "ht_root (fst s)"]
    by (auto simp: htree_contains_def find_leaf_def htree_content_def htree_inv_def)
next
  case (4 s)
  then show ?case by (auto simp: htree_size_def htree_inv_def htree_content_def finite_dom_map_of unat_of_nat)
next
  case (5 s k)
  then show ?case by (rule htree_delete_spec)
qed

section \<open>Order and iteration\<close>

lemma sorted_concat:
  "(\<And>i. i < length xs \<Longrightarrow> sorted_wrt (<) (f (xs ! i))) \<Longrightarrow>
   (\<And>i j a b. i < j \<Longrightarrow> j < length xs \<Longrightarrow> a \<in> set (f (xs ! i)) \<Longrightarrow> b \<in> set (f (xs ! j)) \<Longrightarrow> a < b) \<Longrightarrow>
   sorted_wrt (<) (concat (map f xs))"
proof (induction xs)
  case Nil
  then show ?case by simp
next
  case (Cons x xs)
  have "sorted_wrt (<) (f x)" using Cons.prems(1) [of 0] by simp
  moreover have "sorted_wrt (<) (concat (map f xs))"
  proof (rule Cons.IH)
    show "sorted_wrt (<) (f (xs ! i))" if "i < length xs" for i using Cons.prems(1) [of "Suc i"] that by simp
    show "a < b" if "i < j" "j < length xs" "a \<in> set (f (xs ! i))" "b \<in> set (f (xs ! j))" for i j a b
      using Cons.prems(2) [of "Suc i" "Suc j"] that by simp
  qed
  moreover have "a < b" if ab: "a \<in> set (f x)" "b \<in> set (concat (map f xs))" for a b
  proof -
    obtain y where "y \<in> set xs" "b \<in> set (f y)" using ab(2) by auto
    then obtain j where "j < length xs" "b \<in> set (f (xs ! j))" by (metis in_set_conv_nth)
    then show ?thesis using Cons.prems(2) [of 0 "Suc j"] ab(1) by simp
  qed
  ultimately show ?case by (simp add: sorted_wrt_append)
qed

lemma leaves_sorted: "node_ok l p n \<Longrightarrow> sorted_wrt (<) (map fst (leaves n))"
proof (induction rule: node_ok.induct)
  case (leaf l k p v)
  then show ?case by simp
next
  case (inner l cs p)
  have k: "kids_ok l p cs" using inner by (auto simp: kids_ok_def slot_ok_def)
  have "sorted_wrt (<) (concat (map (\<lambda>c. map fst (leaves c)) cs))"
  proof (rule sorted_concat)
    show "sorted_wrt (<) (map fst (leaves (cs ! i)))" if "i < length cs" for i
      using that inner.IH [of i] inner(2) by (cases "cs ! i = TNull") auto
    show "a < b" if "i < j" "j < length cs" "a \<in> set (map fst (leaves (cs ! i)))" "b \<in> set (map fst (leaves (cs ! j)))" for i j a b
    proof -
      have "prefix_of a l = p" "nibble a l = i" using kid_prefix [OF k, of i a] that inner(2) by auto
      moreover have "prefix_of b l = p" "nibble b l = j" using kid_prefix [OF k, of j b] that inner(2) by auto
      ultimately have "prefix_of a (Suc l) < prefix_of b (Suc l)" using inner(1) that(1) by (simp add: prefix_Suc)
      then show ?thesis by (rule prefix_less)
    qed
  qed
  then show ?case by (simp add: map_concat comp_def)
qed

lemma next_child_spec:
  "j \<le> next_child cs j \<and> next_child cs j \<le> j + length cs \<and> (\<forall>m < next_child cs j - j. cs ! m = TNull) \<and>
    (next_child cs j < j + length cs \<longrightarrow> cs ! (next_child cs j - j) \<noteq> TNull)"
proof (induction cs arbitrary: j)
  case (Cons c cs)
  show ?case
  proof (cases "c = TNull")
    case True
    have "cs ! (m - 1) = TNull" if "m < next_child cs (Suc j) - j" "0 < m" for m
      using Cons [of "Suc j"] that by auto
    then show ?thesis using Cons [of "Suc j"] True
      by (auto simp: nth_Cons' Suc_le_eq)
  qed simp
qed simp

definition rest_of :: "tnode \<times> nat \<Rightarrow> (u64 \<times> ptr) list" where
  "rest_of e = (case e of (TNode cs, i) \<Rightarrow> concat (map leaves (drop i cs)) | (n, i) \<Rightarrow> leaves n)"

text \<open>What a walk from this stack has still to return.\<close>

definition pending :: "(tnode \<times> nat) list \<Rightarrow> (u64 \<times> ptr) list" where
  "pending s = concat (map rest_of s)"

fun stack_ok :: "(tnode \<times> nat) list \<Rightarrow> bool" where
  "stack_ok [] = True"
| "stack_ok ((n, i) # s) = ((\<exists>p. node_ok (length s) p n) \<and> i \<le> 16 \<and> stack_ok s)"

lemma next_rest:
  assumes "length cs = 16" and "i0 \<le> 16"
  shows "i0 \<le> next_child (drop i0 cs) i0 \<and> next_child (drop i0 cs) i0 \<le> 16 \<and>
    (if next_child (drop i0 cs) i0 < 16
     then cs ! next_child (drop i0 cs) i0 \<noteq> TNull \<and> concat (map leaves (drop i0 cs)) =
       leaves (cs ! next_child (drop i0 cs) i0) @ concat (map leaves (drop (Suc (next_child (drop i0 cs) i0)) cs))
     else concat (map leaves (drop i0 cs)) = [])"
proof -
  let ?i = "next_child (drop i0 cs) i0"
  have sp: "i0 \<le> ?i" "?i \<le> 16" "\<forall>m < ?i - i0. drop i0 cs ! m = TNull" "?i < 16 \<longrightarrow> cs ! ?i \<noteq> TNull"
    using next_child_spec [of i0 "drop i0 cs"] assms by auto
  have "concat (map leaves (take (?i - i0) (drop i0 cs))) = []"
    using sp(3) by (auto simp: in_set_conv_nth)
  then have e: "concat (map leaves (drop i0 cs)) = concat (map leaves (drop ?i cs))"
    using sp(1) by (metis (no_types, lifting) append_Nil append_take_drop_id concat_append drop_drop le_add_diff_inverse2 map_append)
  show ?thesis
  proof (cases "?i < 16")
    case True
    then have "drop ?i cs = cs ! ?i # drop (Suc ?i) cs" using assms(1) by (simp add: Cons_nth_drop_Suc)
    then show ?thesis using sp e True by simp
  next
    case False
    then show ?thesis using sp e assms(1) by simp
  qed
qed

lemma iter_descend:
  "node_ok l p n \<Longrightarrow> (\<And>s. length s = l \<Longrightarrow> stack_ok s \<Longrightarrow> \<exists>s1. iter_loop ((n, 0) # s) = Some (Some (hd (leaves n)), s1 @ s) \<and>
     pending s1 = tl (leaves n) \<and> leaves n \<noteq> [] \<and> stack_ok (s1 @ s))"
proof (induction rule: node_ok.induct)
  case (leaf l k p v)
  then show ?case by (intro exI [of _ "[]"]) (simp add: iter_loop.simps pending_def)
next
  case (inner l cs p)
  let ?i = "next_child cs 0"
  have nr: "if ?i < 16 then cs ! ?i \<noteq> TNull \<and> concat (map leaves cs) = leaves (cs ! ?i) @ concat (map leaves (drop (Suc ?i) cs))
     else concat (map leaves cs) = []" using next_rest [OF inner(2), of 0, unfolded drop_0] by blast
  have i: "?i < 16"
  proof -
    obtain j where j: "j < length cs" "cs ! j \<noteq> TNull" using inner(3) unfolding bushy_def by fastforce
    then have "\<not> (\<forall>m < ?i. cs ! m = TNull) \<or> ?i \<le> j" by (metis linorder_not_less)
    then show ?thesis using next_child_spec [of 0 cs] j(1) inner(2) by simp
  qed
  let ?s = "(TNode cs, Suc ?i) # s"
  have ok: "node_ok l p (TNode cs)" using inner by (intro node_ok.inner) auto
  have st: "length ?s = Suc l" using inner.prems by simp
  have so: "stack_ok ?s" using inner.prems ok i by (simp only: stack_ok.simps) auto
  obtain s1 where s1: "iter_loop ((cs ! ?i, 0) # ?s) = Some (Some (hd (leaves (cs ! ?i))), s1 @ ?s)"
    "pending s1 = tl (leaves (cs ! ?i))" "leaves (cs ! ?i) \<noteq> []" "stack_ok (s1 @ ?s)"
    using inner.IH [OF i _ st so] nr i by auto
  have "iter_loop ((TNode cs, 0) # s) = iter_loop ((cs ! ?i, 0) # ?s)"
    using i inner(1) inner.prems(1) by (subst iter_loop.simps) (simp add: HTREE_NIBBLES_def Let_def)
  then show ?case using s1 nr i by (intro exI [of _ "s1 @ [(TNode cs, Suc ?i)]"]) (simp add: pending_def rest_of_def)
qed

lemma iter_loop_spec:
  "stack_ok s \<Longrightarrow> \<exists>r s1. iter_loop s = Some (r, s1) \<and> stack_ok s1 \<and>
    (if pending s = [] then r = None \<and> s1 = [] else r = Some (hd (pending s)) \<and> pending s1 = tl (pending s))"
proof (induction s)
  case Nil
  then show ?case by (simp add: iter_loop.simps pending_def)
next
  case (Cons e s)
  obtain n i0 where e: "e = (n, i0)" by (cases e)
  then obtain p where ok: "node_ok (length s) p n" "i0 \<le> 16" "stack_ok s" using Cons.prems by auto
  show ?case
  proof (cases n)
    case TNull
    then show ?thesis using ok(1) by simp
  next
    case (TLeaf k v)
    then show ?thesis using e ok(3) by (simp add: iter_loop.simps pending_def rest_of_def)
  next
    case (TNode cs)
    then have cs: "length cs = 16" "length s < 16" "\<And>i. i < 16 \<Longrightarrow> cs ! i \<noteq> TNull \<Longrightarrow> node_ok (Suc (length s)) (p * 16 + i) (cs ! i)"
      using ok(1) by (auto elim: node_ok_NodeE)
    let ?i = "next_child (drop i0 cs) i0"
    note nr = next_rest [OF cs(1) ok(2)]
    show ?thesis
    proof (cases "?i < 16")
      case False
      then have "iter_loop (e # s) = iter_loop s" using e TNode by (subst iter_loop.simps) (simp add: Let_def)
      moreover have "pending (e # s) = pending s" using e TNode nr False by (simp add: pending_def rest_of_def)
      ultimately show ?thesis using Cons.IH [OF ok(3)] by (simp only:)
    next
      case True
      let ?s = "(TNode cs, Suc ?i) # s"
      have nn: "cs ! ?i \<noteq> TNull" "concat (map leaves (drop i0 cs)) = leaves (cs ! ?i) @ concat (map leaves (drop (Suc ?i) cs))"
        using nr True by auto
      have st: "length ?s = Suc (length s)" "stack_ok ?s" using ok TNode True by auto
      obtain s1 where s1: "iter_loop ((cs ! ?i, 0) # ?s) = Some (Some (hd (leaves (cs ! ?i))), s1 @ ?s)"
        "pending s1 = tl (leaves (cs ! ?i))" "leaves (cs ! ?i) \<noteq> []" "stack_ok (s1 @ ?s)"
        using iter_descend [OF cs(3) [OF True nn(1)] st] by blast
      have l: "iter_loop (e # s) = iter_loop ((cs ! ?i, 0) # ?s)"
        using e TNode True cs(2) by (subst iter_loop.simps) (simp add: HTREE_NIBBLES_def Let_def)
      have pe: "pending (e # s) = leaves (cs ! ?i) @ concat (map leaves (drop (Suc ?i) cs)) @ pending s"
        using e TNode nn(2) by (simp add: pending_def rest_of_def)
      have p1: "pending (s1 @ ?s) = pending s1 @ concat (map leaves (drop (Suc ?i) cs)) @ pending s"
        by (simp add: pending_def rest_of_def)
      have "pending (s1 @ ?s) = tl (pending (e # s))" "hd (pending (e # s)) = hd (leaves (cs ! ?i))" "pending (e # s) \<noteq> []"
        unfolding p1 pe using s1(2,3) by auto
      then show ?thesis using l s1(1,4) by (intro exI [of _ "Some (hd (leaves (cs ! ?i)))"] exI [of _ "s1 @ ?s"]) simp
    qed
  qed
qed

text \<open>A walk of \<open>n\<close> calls of \<open>bbq_htree_next\<close>.\<close>

fun iter_take :: "nat \<Rightarrow> htree \<Rightarrow> titer \<Rightarrow> (u64 \<times> ptr) option list option" where
  "iter_take 0 t it = Some []"
| "iter_take (Suc n) t it = (case htree_next t it of
      None \<Rightarrow> None
    | Some (r, it1) \<Rightarrow> map_option ((#) r) (iter_take n t it1))"

definition iter_ok :: "htree \<Rightarrow> titer \<Rightarrow> bool" where
  "iter_ok t it = (it_gen it = ht_gen t \<and> stack_ok (it_stack it))"

lemma htree_next_spec:
  assumes "iter_ok t it"
  shows "\<exists>r it1. htree_next t it = Some (r, it1) \<and> iter_ok t it1 \<and>
    (if pending (it_stack it) = [] then r = None \<and> it_stack it1 = []
     else r = Some (hd (pending (it_stack it))) \<and> pending (it_stack it1) = tl (pending (it_stack it)))"
proof (cases "it_stack it = []")
  case True
  then show ?thesis using assms by (simp add: htree_next_def pending_def)
next
  case False
  have g: "it_gen it = ht_gen t" "stack_ok (it_stack it)" using assms by (auto simp: iter_ok_def)
  obtain r s1 where l: "iter_loop (it_stack it) = Some (r, s1)" "stack_ok s1"
    "if pending (it_stack it) = [] then r = None \<and> s1 = [] else r = Some (hd (pending (it_stack it))) \<and> pending s1 = tl (pending (it_stack it))"
    using iter_loop_spec [OF g(2)] by blast
  have "htree_next t it = Some (r, it\<lparr>it_stack := s1\<rparr>)" using False g(1) l(1) by (simp add: htree_next_def)
  then show ?thesis using l g by (intro exI [of _ r] exI [of _ "it\<lparr>it_stack := s1\<rparr>"]) (simp add: iter_ok_def)
qed

lemma iter_take_spec:
  "iter_ok t it \<Longrightarrow> iter_take n t it = Some (take n (map Some (pending (it_stack it)) @ replicate n None))"
proof (induction n arbitrary: it)
  case 0
  then show ?case by simp
next
  case (Suc n)
  obtain r it1 where it1: "htree_next t it = Some (r, it1)" "iter_ok t it1"
    "if pending (it_stack it) = [] then r = None \<and> it_stack it1 = []
     else r = Some (hd (pending (it_stack it))) \<and> pending (it_stack it1) = tl (pending (it_stack it))"
    using htree_next_spec [OF Suc.prems] by blast
  have ih: "iter_take n t it1 = Some (take n (map Some (pending (it_stack it1)) @ replicate n None))"
    by (rule Suc.IH [OF it1(2)])
  show ?case
  proof (cases "pending (it_stack it)")
    case Nil
    have "pending (it_stack it1) = []" using it1(3) Nil by (simp add: pending_def)
    then show ?thesis using it1(1,3) ih Nil by simp
  next
    case (Cons x xs)
    then show ?thesis using it1 ih by (simp flip: replicate_Suc)
  qed
qed

lemma iter_init_ok:
  assumes "slot_ok 0 0 (ht_root t)"
  shows "iter_ok t (htree_iter_init t)" and "pending (it_stack (htree_iter_init t)) = leaves (ht_root t)"
proof -
  show "iter_ok t (htree_iter_init t)" using assms by (auto simp: iter_ok_def htree_iter_init_def slot_ok_def)
  show "pending (it_stack (htree_iter_init t)) = leaves (ht_root t)"
    by (cases "ht_root t") (auto simp: htree_iter_init_def pending_def rest_of_def)
qed

section \<open>Cloning, clearing\<close>

lemma clone_loop_spec:
  "iter_ok src it \<Longrightarrow> htree_inv a base dst \<Longrightarrow>
    \<exists>ok dst1. clone_loop src it dst = Some (ok, dst1) \<and> htree_inv a base dst1 \<and>
      (ok \<longrightarrow> htree_content dst1 = htree_content dst ++ map_of (rev (pending (it_stack it)))) \<and> (\<not> ok \<longrightarrow> ht_oom (fst dst1))"
proof (induction "pending (it_stack it)" arbitrary: it dst)
  case Nil
  obtain it1 where "htree_next src it = Some (None, it1)" using htree_next_spec [OF Nil.prems(1)] Nil.hyps by auto
  then have "clone_loop src it dst = Some (True, dst)" by (subst clone_loop.simps) simp
  then show ?case using Nil by (intro exI [of _ True]) simp
next
  case (Cons x xs)
  obtain k v where x: "x = (k, v)" by (cases x)
  obtain it1 where it1: "htree_next src it = Some (Some (k, v), it1)" "iter_ok src it1" "pending (it_stack it1) = xs"
    using htree_next_spec [OF Cons.prems(1)] Cons.hyps(2) [symmetric] x by auto
  obtain ok dst1 where ins: "htree_insert k v dst = Some (ok, dst1)" "htree_inv a base dst1"
    "htree_content dst1 = (if ok then (htree_content dst)(k \<mapsto> v) else htree_content dst)" "\<not> ok \<longrightarrow> ht_oom (fst dst1)"
    using htree_insert_spec [OF Cons.prems(2), of k v] by blast
  show ?case
  proof (cases ok)
    case False
    then have "clone_loop src it dst = Some (False, dst1)" using it1 ins by (subst clone_loop.simps) simp
    then show ?thesis using ins False by (intro exI [of _ False] exI [of _ dst1]) simp
  next
    case True
    then have "clone_loop src it dst = clone_loop src it1 dst1" using it1 ins by (subst clone_loop.simps) simp
    moreover have "(htree_content dst)(k \<mapsto> v) ++ map_of (rev xs) = htree_content dst ++ map_of (rev (x # xs))"
      using x by (simp add: map_add_assoc [symmetric] map_of_append) 
    ultimately show ?thesis using Cons.hyps(1) [OF it1(3) [symmetric] it1(2) ins(2)] ins(3) True it1(3) Cons.hyps(2) by auto
  qed
qed

lemma map_of_rev_distinct: "distinct (map fst xs) \<Longrightarrow> map_of (rev xs) = map_of xs"
proof (induction xs)
  case (Cons x xs)
  have "fst x \<notin> dom (map_of xs)" using Cons.prems by (simp add: dom_map_of_conv_image_fst)
  then have "[fst x \<mapsto> snd x] ++ map_of xs = map_of xs ++ [fst x \<mapsto> snd x]" by (intro map_add_comm) auto
  then show ?case using Cons by (simp add: map_add_upd)
qed simp

lemma leaves_distinct: "slot_ok l p n \<Longrightarrow> sorted_wrt (<) (map fst (leaves n)) \<and> distinct (map fst (leaves n))"
proof -
  assume "slot_ok l p n"
  then have "sorted_wrt (<) (map fst (leaves n))"
    using leaves_sorted [of l p n] by (cases "n = TNull") (simp_all add: slot_ok_def)
  then show ?thesis using strict_sorted_iff [of "map fst (leaves n)"] by blast
qed

lemma htree_clone_spec:
  assumes "htree_inv b base' (src, h')" and "htree_inv a base dst"
  shows "\<exists>ok dst1. htree_clone dst src = Some (ok, dst1) \<and> htree_inv a base dst1 \<and>
    (ok \<longrightarrow> htree_content dst1 = htree_content dst ++ htree_content (src, h')) \<and> (\<not> ok \<longrightarrow> ht_oom (fst dst1))"
proof -
  have so: "slot_ok 0 0 (ht_root src)" using assms(1) by (simp add: htree_inv_def)
  note ii = iter_init_ok [OF so]
  have "map_of (rev (leaves (ht_root src))) = htree_content (src, h')"
    using leaves_distinct [OF so] by (simp add: htree_content_simp map_of_rev_distinct)
  then show ?thesis using clone_loop_spec [OF ii(1) assms(2)] unfolding ii(2) htree_clone_def by simp
qed

lemma htree_init_spec: "accounts (h a) base \<Longrightarrow> htree_inv a base (htree_init_a a, h) \<and> htree_content (htree_init_a a, h) = (\<lambda>_. None)"
  by (simp add: htree_inv_def htree_init_a_def htree_content_simp)

lemma htree_free_spec:
  assumes "htree_inv a base st"
  shows "htree_inv a base (htree_free st) \<and> htree_content (htree_free st) = (\<lambda>_. None) \<and> accounts (snd (htree_free st) a) base"
    and "htree_inv a base (htree_clear st) \<and> htree_content (htree_clear st) = (\<lambda>_. None) \<and> accounts (snd (htree_clear st) a) base"
proof -
  obtain t h where st: "st = (t, h)" by (cases st)
  then have "accounts (node_free_all a (ht_root t) h a) base" "ht_a t = a"
    using assms by (auto simp: htree_inv_def intro: node_free_all_spec)
  then show "htree_inv a base (htree_free st) \<and> htree_content (htree_free st) = (\<lambda>_. None) \<and> accounts (snd (htree_free st) a) base"
    "htree_inv a base (htree_clear st) \<and> htree_content (htree_clear st) = (\<lambda>_. None) \<and> accounts (snd (htree_clear st) a) base"
    by (simp_all add: st htree_free_def htree_clear_def htree_inv_def htree_content_simp)
qed

text \<open>A handle costs its 32 bytes and no more, until it is destroyed.\<close>

lemma htree_handle:
  assumes "accounts (h a) base" and "htree_create_a a h = (Some t, h1)"
  shows "htree_inv a (base + 32) (t, h1)"
proof -
  have al: "h_alloc a 32 h = (True, h1)" "t = htree_init_a a"
    using assms(2) by (auto simp: htree_create_a_def split: prod.splits if_splits)
  have "accounts (h1 a) (base + 32)" using heap.al_acct [OF al(1) assms(1)] by simp
  then show ?thesis using htree_init_spec al(2) by simp
qed

lemma htree_destroy_spec:
  assumes "htree_inv a (base + 32) (t, h)"
  shows "accounts (htree_destroy (Some t) h a) base"
proof -
  have "accounts (snd (htree_free (t, h)) a) (base + paid True 32)" using htree_free_spec(1) [OF assms] by simp
  then have "accounts (h_release a True 32 (snd (htree_free (t, h))) a) base" by (rule heap.rel_add)
  then show ?thesis using assms by (simp add: htree_destroy_def htree_inv_def)
qed

abbreviation htree_run :: "u64 mop list \<Rightarrow> tstate \<Rightarrow> (mres list \<times> tstate) option" where
  "htree_run \<equiv> run_maps (map_step htree_insert htree_search htree_contains htree_size htree_delete)"

text \<open>C26: the nibble tree refines a partial function. For any allocator whose books are straight and any program
  of insert, search, contains, size and delete calls, every call returns and answers as the partial function
  does from the empty map; an insertion is refused only with \<open>oom\<close> set for good; and \<open>bbq_htree_free\<close>
  gives back exactly the bytes the tree took.
\<close>

theorem htree_refines:
  assumes "accounts (h a) base"
  shows "\<exists>rs st c. htree_run ops (htree_init_a a, h) = Some (rs, st) \<and> map_allows_all ops rs (\<lambda>_. None) c \<and>
    (\<not> ht_oom (fst st) \<longrightarrow> all_taken ops rs) \<and> accounts (snd (htree_free st) a) base"
proof -
  have i: "htree_inv a base (htree_init_a a, h)" "htree_content (htree_init_a a, h) = (\<lambda>_. None)"
    using htree_init_spec assms by blast+
  show ?thesis using htree.run_del_ok [OF i(1), of ops] i(2) htree_free_spec(1) by metis
qed

lemma htree_refines_witness:
  "\<exists>rs st c. htree_run [MPut (7::u64) 1, MPut 8 2, MDel 7, MGet 8, MLen] (htree_init_a 3, \<lambda>_. Libc (\<lambda>_. True) 0 0) = Some (rs, st) \<and>
    map_allows_all [MPut (7::u64) 1, MPut 8 2, MDel 7, MGet 8, MLen] rs (\<lambda>_. None) c \<and>
    (\<not> ht_oom (fst st) \<longrightarrow> all_taken [MPut (7::u64) 1, MPut 8 2, MDel 7, MGet 8, MLen] rs) \<and>
    accounts (snd (htree_free st) 3) 0"
  by (rule htree_refines [of _ 3 0]) simp

text \<open>C28: iteration over the nibble tree. After any program of calls, the walk of \<open>bbq_htree_next\<close> from a fresh
  iterator returns the entries the partial function has then, each once, in strictly ascending key order,
  and NULL ever after; the iterator's arrays are never overrun.
\<close>

theorem htree_iterates:
  assumes "accounts (h a) base" and "htree_run ops (htree_init_a a, h) = Some (rs, t, h1)"
  shows "\<exists>xs c. map_allows_all ops rs (\<lambda>_. None) c \<and> map_of xs = c \<and> sorted_wrt (<) (map fst xs) \<and>
    (\<forall>n. iter_take n t (htree_iter_init t) = Some (take n (map Some xs @ replicate n None)))"
proof -
  have i: "htree_inv a base (htree_init_a a, h)" "htree_content (htree_init_a a, h) = (\<lambda>_. None)"
    using htree_init_spec assms(1) by blast+
  have r: "htree_inv a base (t, h1)" "map_allows_all ops rs (\<lambda>_. None) (htree_content (t, h1))"
    using htree.run_del_ok [OF i(1), of ops] i(2) assms(2) by auto
  then have so: "slot_ok 0 0 (ht_root t)" by (simp add: htree_inv_def)
  note ii = iter_init_ok [OF so]
  show ?thesis using r(2) leaves_distinct [OF so] iter_take_spec [OF ii(1)]
    unfolding ii(2) htree_content_simp by blast
qed

lemma htree_iterates_witness:
  "\<exists>rs t h1. htree_run [MPut (90::u64) 1, MPut 8 2, MPut 91 3, MDel 8] (htree_init_a 3, \<lambda>_. Libc (\<lambda>_. True) 0 0) = Some (rs, t, h1) \<and>
    (\<exists>xs c. map_allows_all [MPut (90::u64) 1, MPut 8 2, MPut 91 3, MDel 8] rs (\<lambda>_. None) c \<and> map_of xs = c \<and> sorted_wrt (<) (map fst xs) \<and>
      (\<forall>n. iter_take n t (htree_iter_init t) = Some (take n (map Some xs @ replicate n None))))"
proof -
  have i: "htree_inv 3 0 (htree_init_a 3, \<lambda>_. Libc (\<lambda>_. True) 0 0)" by (rule conjunct1 [OF htree_init_spec]) simp
  obtain rs t h1 where r: "htree_run [MPut (90::u64) 1, MPut 8 2, MPut 91 3, MDel 8] (htree_init_a 3, \<lambda>_. Libc (\<lambda>_. True) 0 0) = Some (rs, t, h1)"
    using htree.run_del_ok [OF i, of "[MPut 90 1, MPut 8 2, MPut 91 3, MDel 8]"] by auto
  have "accounts ((\<lambda>_. Libc (\<lambda>_. True) 0 0) 3) 0" by simp
  from htree_iterates [of _ 3 0, OF this r] r show ?thesis by blast
qed

end
