(* ===== verification/Dict.thy ===== *)
theory Dict
  imports Htree
begin

text \<open>
  \<open>crt/bbq_dict.h\<close> and \<open>crt/bbq_dict.c\<close>: the dictionary of byte strings over the nibble tree. The tree maps a
  hash to the first of a chain of entries. Entries are shared between the chain and the tree, so they live
  in an explicit store: an address is an index from 1, 0 is NULL, a released entry is \<open>None\<close>, and following
  a pointer to none is \<open>None\<close>, as is a loop that does not end.
\<close>

record dnode =
  dn_next :: ptr
  dn_value :: ptr
  dn_hash :: u64
  dn_key :: bytes

type_synonym dstore = "dnode option list"

record dict =
  di_index :: htree
  di_count :: size_t
  di_a :: nat
  di_hash :: "u64 \<Rightarrow> bytes \<Rightarrow> u64"
  di_seed :: u64
  di_oom :: bool
  di_gen :: u32

type_synonym dstate = "dict \<times> dstore \<times> heap"

section \<open>The store of entries\<close>

definition node_at :: "dstore \<Rightarrow> ptr \<Rightarrow> dnode option" where
  "node_at ns p = (if 0 < p \<and> p \<le> length ns then ns ! (p - 1) else None)"

definition node_set :: "dstore \<Rightarrow> ptr \<Rightarrow> dnode option \<Rightarrow> dstore" where
  "node_set ns p x = ns[p - 1 := x]"

definition key_len :: "bytes \<Rightarrow> size_t" where
  "key_len key = word_of_nat (length key)"

text \<open>\<open>sizeof\<close> an entry is 32; its key follows.\<close>

definition node_bytes :: "size_t \<Rightarrow> size_t" where
  "node_bytes len = 32 + len"

section \<open>SipHash-1-3\<close>

definition sip_rotl :: "u64 \<Rightarrow> nat \<Rightarrow> u64" where
  "sip_rotl x b = (push_bit b x) OR (drop_bit (64 - b) x)"

definition sip_round :: "u64 \<times> u64 \<times> u64 \<times> u64 \<Rightarrow> u64 \<times> u64 \<times> u64 \<times> u64" where
  "sip_round v = (case v of (v0, v1, v2, v3) \<Rightarrow>
     let v0 = v0 + v1; v1 = sip_rotl v1 13; v1 = v1 XOR v0; v0 = sip_rotl v0 32;
         v2 = v2 + v3; v3 = sip_rotl v3 16; v3 = v3 XOR v2;
         v0 = v0 + v3; v3 = sip_rotl v3 21; v3 = v3 XOR v0;
         v2 = v2 + v1; v1 = sip_rotl v1 17; v1 = v1 XOR v2; v2 = sip_rotl v2 32
     in (v0, v1, v2, v3))"

text \<open>Bytes as a little-endian number, as the shifts of a block and of the tail assemble them.\<close>

fun le_word :: "bytes \<Rightarrow> u64" where
  "le_word [] = 0"
| "le_word (x # xs) = ucast x OR push_bit 8 (le_word xs)"

fun sip_blocks :: "bytes \<Rightarrow> u64 \<times> u64 \<times> u64 \<times> u64 \<Rightarrow> bytes \<times> u64 \<times> u64 \<times> u64 \<times> u64" where
  "sip_blocks (b0 # b1 # b2 # b3 # b4 # b5 # b6 # b7 # rest) (v0, v1, v2, v3) =
     (let m = le_word [b0, b1, b2, b3, b4, b5, b6, b7];
          (w0, w1, w2, w3) = sip_round (v0, v1, v2, v3 XOR m)
      in sip_blocks rest (w0 XOR m, w1, w2, w3))"
| "sip_blocks tail v = (tail, v)"

definition dict_hash :: "u64 \<Rightarrow> bytes \<Rightarrow> u64" where
  "dict_hash seed key =
     (let k0 = seed; k1 = seed XOR 0x9E3779B97F4A7C15;
          (tail, v0, v1, v2, v3) = sip_blocks key (0x736f6d6570736575 XOR k0, 0x646f72616e646f6d XOR k1,
             0x6c7967656e657261 XOR k0, 0x7465646279746573 XOR k1);
          b = push_bit 56 (key_len key) OR le_word tail;
          (v0, v1, v2, v3) = sip_round (v0, v1, v2, v3 XOR b);
          (v0, v1, v2, v3) = sip_round (sip_round (sip_round (v0 XOR b, v1, v2 XOR 0xff, v3)))
      in v0 XOR v1 XOR v2 XOR v3)"

section \<open>Operations\<close>

definition dict_init_hashed :: "nat \<Rightarrow> (u64 \<Rightarrow> bytes \<Rightarrow> u64) option \<Rightarrow> u64 \<Rightarrow> dict" where
  "dict_init_hashed a hash seed =
     \<lparr>di_index = htree_init_a a, di_count = 0, di_a = a,
      di_hash = (case hash of None \<Rightarrow> dict_hash | Some f \<Rightarrow> f), di_seed = seed, di_oom = False, di_gen = 0\<rparr>"

definition dict_oom :: "dstate \<Rightarrow> bool" where
  "dict_oom s = (di_oom (fst s) \<or> ht_oom (di_index (fst s)))"

text \<open>The loop of \<open>find\<close>: the entry with the key and the one before it, 0 where there is none.\<close>

partial_function (option) find_loop :: "dstore \<Rightarrow> bytes \<Rightarrow> ptr \<Rightarrow> ptr \<Rightarrow> (ptr \<times> ptr) option" where
  "find_loop ns key n prev = (if n = 0 then Some (0, prev)
     else case node_at ns n of
       None \<Rightarrow> None
     | Some d \<Rightarrow> if dn_key d = key then Some (n, prev) else find_loop ns key (dn_next d) n)"

declare find_loop.simps [code]

definition dict_find :: "dict \<Rightarrow> dstore \<Rightarrow> heap \<Rightarrow> bytes \<Rightarrow> u64 \<Rightarrow> (ptr \<times> ptr) option" where
  "dict_find d ns h key hv = (case htree_search hv (di_index d, h) of
     None \<Rightarrow> None | Some n \<Rightarrow> find_loop ns key n 0)"

definition dict_put :: "bytes \<Rightarrow> ptr \<Rightarrow> dstate \<Rightarrow> (bool \<times> dstate) option" where
  "dict_put key v s = (case s of (d, ns, h) \<Rightarrow>
     let hv = di_hash d (di_seed d) key; len = key_len key in
     case dict_find d ns h key hv of
       None \<Rightarrow> None
     | Some (hit, _) \<Rightarrow>
         if hit \<noteq> 0 then map_option (\<lambda>n. (True, d\<lparr>di_gen := di_gen d + 1\<rparr>, node_set ns hit (Some (n\<lparr>dn_value := v\<rparr>)), h)) (node_at ns hit)
         else if SIZE_MAX - 32 < len then Some (False, d\<lparr>di_oom := True\<rparr>, ns, h)
         else case h_alloc (di_a d) (node_bytes len) h of
           (False, h1) \<Rightarrow> Some (False, d\<lparr>di_oom := True\<rparr>, ns, h1)
         | (True, h1) \<Rightarrow>
             (case htree_search hv (di_index d, h1) of
                None \<Rightarrow> None
              | Some nxt \<Rightarrow>
                  let n = Suc (length ns);
                      ns1 = ns @ [Some \<lparr>dn_next = nxt, dn_value = v, dn_hash = hv, dn_key = key\<rparr>] in
                  case htree_insert hv n (di_index d, h1) of
                    None \<Rightarrow> None
                  | Some (False, idx, h2) \<Rightarrow> Some (False, d\<lparr>di_index := idx, di_oom := True\<rparr>, node_set ns1 n None,
                        h_release (di_a d) True (node_bytes len) h2)
                  | Some (True, idx, h2) \<Rightarrow>
                      Some (True, d\<lparr>di_index := idx, di_count := di_count d + 1, di_gen := di_gen d + 1\<rparr>, ns1, h2)))"

definition dict_get :: "bytes \<Rightarrow> dstate \<Rightarrow> ptr option" where
  "dict_get key s = (case s of (d, ns, h) \<Rightarrow>
     case dict_find d ns h key (di_hash d (di_seed d) key) of
       None \<Rightarrow> None
     | Some (n, _) \<Rightarrow> if n = 0 then Some 0 else map_option dn_value (node_at ns n))"

definition dict_contains :: "bytes \<Rightarrow> dstate \<Rightarrow> bool option" where
  "dict_contains key s = (case s of (d, ns, h) \<Rightarrow>
     map_option (\<lambda>(n, _). n \<noteq> 0) (dict_find d ns h key (di_hash d (di_seed d) key)))"

text \<open>The end of \<open>bbq_dict_delete\<close>, once the entry is out of its chain.\<close>

definition dict_drop :: "ptr \<Rightarrow> dnode \<Rightarrow> dict \<Rightarrow> dstore \<Rightarrow> heap \<Rightarrow> ptr \<times> dstate" where
  "dict_drop n e d ns h = (dn_value e, d\<lparr>di_count := di_count d - 1, di_gen := di_gen d + 1\<rparr>, node_set ns n None,
     h_release (di_a d) True (node_bytes (key_len (dn_key e))) h)"

definition dict_delete :: "bytes \<Rightarrow> dstate \<Rightarrow> (ptr \<times> dstate) option" where
  "dict_delete key s = (case s of (d, ns, h) \<Rightarrow>
     let hv = di_hash d (di_seed d) key in
     case dict_find d ns h key hv of
       None \<Rightarrow> None
     | Some (n, prev) \<Rightarrow>
         if n = 0 then Some (0, s)
         else case node_at ns n of
           None \<Rightarrow> None
         | Some e \<Rightarrow>
             if prev \<noteq> 0 then
               map_option (\<lambda>p. dict_drop n e d (node_set ns prev (Some (p\<lparr>dn_next := dn_next e\<rparr>))) h) (node_at ns prev)
             else if dn_next e \<noteq> 0 then
               (case htree_insert hv (dn_next e) (di_index d, h) of
                  None \<Rightarrow> None
                | Some (False, idx, h1) \<Rightarrow> Some (0, d\<lparr>di_index := idx, di_oom := True\<rparr>, ns, h1)
                | Some (True, idx, h1) \<Rightarrow> Some (dict_drop n e (d\<lparr>di_index := idx\<rparr>) ns h1))
             else (case htree_delete hv (di_index d, h) of
                 None \<Rightarrow> None
               | Some (_, idx, h1) \<Rightarrow> Some (dict_drop n e (d\<lparr>di_index := idx\<rparr>) ns h1)))"

definition dict_len :: "dstate \<Rightarrow> nat" where
  "dict_len s = unat (di_count (fst s))"

partial_function (option) chain_free :: "nat \<Rightarrow> ptr \<Rightarrow> dstore \<Rightarrow> heap \<Rightarrow> (dstore \<times> heap) option" where
  "chain_free a n ns h = (if n = 0 then Some (ns, h)
     else case node_at ns n of
       None \<Rightarrow> None
     | Some e \<Rightarrow> chain_free a (dn_next e) (node_set ns n None) (h_release a True (node_bytes (key_len (dn_key e))) h))"

declare chain_free.simps [code]

text \<open>The loop of \<open>bbq_dict_clear\<close> over the leaves.\<close>

partial_function (option) clear_loop :: "dict \<Rightarrow> titer \<Rightarrow> dstore \<Rightarrow> heap \<Rightarrow> (dstore \<times> heap) option" where
  "clear_loop d it ns h = (case htree_next (di_index d) it of
      None \<Rightarrow> None
    | Some (None, it1) \<Rightarrow> Some (ns, h)
    | Some (Some l, it1) \<Rightarrow> (case chain_free (di_a d) (snd l) ns h of
        None \<Rightarrow> None
      | Some (ns1, h1) \<Rightarrow> clear_loop d it1 ns1 h1))"

declare clear_loop.simps [code]

definition dict_clear :: "dstate \<Rightarrow> dstate option" where
  "dict_clear s = (case s of (d, ns, h) \<Rightarrow>
     case clear_loop d (htree_iter_init (di_index d)) ns h of
       None \<Rightarrow> None
     | Some (ns1, h1) \<Rightarrow> (case htree_clear (di_index d, h1) of
         (idx, h2) \<Rightarrow> Some (d\<lparr>di_index := idx, di_count := 0, di_gen := di_gen d + 1\<rparr>, ns1, h2)))"

definition dict_free :: "dstate \<Rightarrow> dstate option" where
  "dict_free s = (case dict_clear s of
      None \<Rightarrow> None
    | Some (d, ns, h) \<Rightarrow> (case htree_free (di_index d, h) of
        (idx, h1) \<Rightarrow> Some (d\<lparr>di_index := idx, di_oom := False\<rparr>, ns, h1)))"

text \<open>The handle form: \<open>sizeof\<close> a dictionary is 72.\<close>

definition dict_create_a :: "nat \<Rightarrow> u64 \<Rightarrow> heap \<Rightarrow> dict option \<times> heap" where
  "dict_create_a a seed h = (case h_alloc a 72 h of (ok, h1) \<Rightarrow> (if ok then Some (dict_init_hashed a None seed) else None, h1))"

definition dict_destroy :: "dict option \<Rightarrow> dstore \<Rightarrow> heap \<Rightarrow> (dstore \<times> heap) option" where
  "dict_destroy d ns h = (case d of
      None \<Rightarrow> Some (ns, h)
    | Some d1 \<Rightarrow> (case dict_free (d1, ns, h) of
        None \<Rightarrow> None
      | Some (d2, ns1, h1) \<Rightarrow> Some (ns1, h_release (di_a d1) True 72 h1)))"

text \<open>The NUL-terminated callers; \<open>None\<close> is a \<open>strlen\<close> that leaves the string's memory.\<close>

definition c_string :: "bytes \<Rightarrow> bytes option" where
  "c_string mem = (if 0 \<in> set mem then Some (takeWhile (\<lambda>c. c \<noteq> 0) mem) else None)"

definition dict_puts :: "bytes \<Rightarrow> ptr \<Rightarrow> dstate \<Rightarrow> (bool \<times> dstate) option" where
  "dict_puts mem v s = (case c_string mem of None \<Rightarrow> None | Some key \<Rightarrow> dict_put key v s)"

definition dict_gets :: "bytes \<Rightarrow> dstate \<Rightarrow> ptr option" where
  "dict_gets mem s = (case c_string mem of None \<Rightarrow> None | Some key \<Rightarrow> dict_get key s)"

section \<open>Iteration\<close>

record diter =
  dit_tree :: titer
  dit_cur :: ptr
  dit_gen :: u32

definition dict_iter_init :: "dict \<Rightarrow> diter" where
  "dict_iter_init d = \<lparr>dit_tree = htree_iter_init (di_index d), dit_cur = 0, dit_gen = di_gen d\<rparr>"

text \<open>The loop of \<open>bbq_dict_next\<close>: the next entry, 0 at the end.\<close>

partial_function (option) next_entry :: "htree \<Rightarrow> ptr \<Rightarrow> titer \<Rightarrow> (ptr \<times> titer) option" where
  "next_entry t n it = (if n \<noteq> 0 then Some (n, it)
     else case htree_next t it of
       None \<Rightarrow> None
     | Some (None, it1) \<Rightarrow> Some (0, it1)
     | Some (Some l, it1) \<Rightarrow> next_entry t (snd l) it1)"

declare next_entry.simps [code]

definition dict_next :: "dict \<Rightarrow> dstore \<Rightarrow> diter \<Rightarrow> ((bytes \<times> ptr) option \<times> diter) option" where
  "dict_next d ns it =
     (if dit_gen it \<noteq> di_gen d then Some (None, it)
      else case next_entry (di_index d) (dit_cur it) (dit_tree it) of
        None \<Rightarrow> None
      | Some (n, tit) \<Rightarrow>
          if n = 0 then Some (None, it\<lparr>dit_tree := tit\<rparr>)
          else map_option (\<lambda>e. (Some (dn_key e, dn_value e), it\<lparr>dit_tree := tit, dit_cur := dn_next e\<rparr>)) (node_at ns n))"

section \<open>Chains\<close>

lemma node_at_valid: "node_at ns p = Some d \<Longrightarrow> 0 < p \<and> p \<le> length ns"
  by (simp add: node_at_def split: if_splits)

lemma node_at_0 [simp]: "node_at ns 0 = None"
  by (simp add: node_at_def)

lemma node_at_set: "node_at ns p = Some d \<Longrightarrow> node_at (node_set ns p x) q = (if q = p then x else node_at ns q)"
proof -
  assume "node_at ns p = Some d"
  then have p: "0 < p" "p \<le> length ns" using node_at_valid by blast+
  then have "p - 1 = q - 1 \<longleftrightarrow> q = p" if "0 < q" using that by linarith
  then show ?thesis using p by (cases "q = 0"; cases "q \<le> length ns") (simp_all add: node_at_def node_set_def nth_list_update)
qed

lemma node_at_snoc: "node_at (ns @ [x]) q = (if q = Suc (length ns) then x else node_at ns q)"
  by (auto simp: node_at_def nth_append)

fun linked :: "dstore \<Rightarrow> ptr \<Rightarrow> ptr list \<Rightarrow> bool" where
  "linked ns p [] = (p = 0)"
| "linked ns p (a # as) = (p = a \<and> (\<exists>d. node_at ns a = Some d \<and> linked ns (dn_next d) as))"

lemma linked_cong:
  "(\<And>a. a \<in> set as \<Longrightarrow> map_option dn_next (node_at ns1 a) = map_option dn_next (node_at ns a)) \<Longrightarrow>
    linked ns p as \<Longrightarrow> linked ns1 p as"
proof (induction as arbitrary: p)
  case (Cons a as)
  obtain d where d: "p = a" "node_at ns a = Some d" "linked ns (dn_next d) as" using Cons.prems(2) by auto
  obtain e where "node_at ns1 a = Some e" "dn_next e = dn_next d" using Cons.prems(1) [of a] d(2) by auto
  then show ?case using Cons.IH [of "dn_next d"] Cons.prems(1) d by auto
qed simp

lemma node_at_unlink:
  assumes "node_at ns b = Some eb" and "node_at ns a = Some ea" and "a \<noteq> b"
  shows "node_at (node_set (node_set ns b (Some x)) a None) q = (if q = a then None else if q = b then Some x else node_at ns q)"
proof -
  have "node_at (node_set ns b (Some x)) a = Some ea" using node_at_set [OF assms(1)] assms(2,3) by simp
  from node_at_set [OF this] show ?thesis using node_at_set [OF assms(1)] by simp
qed

lemma linked_unlink:
  assumes "node_at ns b = Some eb" and "node_at ns a = Some ea"
  shows "linked ns p (xs @ b # a # ys) \<Longrightarrow> distinct (xs @ b # a # ys) \<Longrightarrow>
    linked (node_set (node_set ns b (Some (eb\<lparr>dn_next := dn_next ea\<rparr>))) a None) p (xs @ b # ys)"
proof (induction xs arbitrary: p)
  case Nil
  let ?ns = "node_set (node_set ns b (Some (eb\<lparr>dn_next := dn_next ea\<rparr>))) a None"
  have ne: "a \<noteq> b" "a \<notin> set ys" "b \<notin> set ys" using Nil(2) by auto
  note at = node_at_unlink [OF assms ne(1), of "eb\<lparr>dn_next := dn_next ea\<rparr>"]
  have "linked ns (dn_next ea) ys" using Nil assms by simp
  then have l: "linked ?ns (dn_next ea) ys"
  proof (rule linked_cong [rotated])
    fix c assume "c \<in> set ys"
    then have "c \<noteq> a" "c \<noteq> b" using ne by auto
    then show "map_option dn_next (node_at ?ns c) = map_option dn_next (node_at ns c)" unfolding at by simp
  qed
  show ?case using Nil(1) l at [of b] ne(1) by simp
next
  case (Cons x xs)
  let ?ns = "node_set (node_set ns b (Some (eb\<lparr>dn_next := dn_next ea\<rparr>))) a None"
  have ne: "a \<noteq> b" "x \<noteq> a" "x \<noteq> b" "distinct (xs @ b # a # ys)" using Cons.prems(2) by auto
  obtain d where d: "p = x" "node_at ns x = Some d" "linked ns (dn_next d) (xs @ b # a # ys)" using Cons.prems(1) by auto
  have "linked ?ns (dn_next d) (xs @ b # ys)" by (rule Cons.IH [OF d(3) ne(4)])
  moreover have "node_at ?ns x = Some d" using node_at_unlink [OF assms ne(1)] ne d(2) by simp
  ultimately show ?case using d(1) by simp
qed

lemma linked_suffix: "linked ns p (xs @ a # ys) \<Longrightarrow> \<exists>d. node_at ns a = Some d \<and> linked ns (dn_next d) ys"
  by (induction xs arbitrary: p) auto

lemma find_hit:
  "linked ns p (xs @ a # ys) \<Longrightarrow> (\<And>b d. b \<in> set xs \<Longrightarrow> node_at ns b = Some d \<Longrightarrow> dn_key d \<noteq> key) \<Longrightarrow>
    node_at ns a = Some e \<Longrightarrow> dn_key e = key \<Longrightarrow> find_loop ns key p prev = Some (a, last (prev # xs))"
proof (induction xs arbitrary: p prev)
  case Nil
  then show ?case using node_at_valid [OF Nil(3)] by (subst find_loop.simps) simp
next
  case (Cons x xs)
  obtain d where d: "p = x" "node_at ns x = Some d" "linked ns (dn_next d) (xs @ a # ys)" using Cons.prems(1) by auto
  have "find_loop ns key (dn_next d) x = Some (a, last (x # xs))"
    by (rule Cons.IH [OF d(3) _ Cons.prems(3,4)]) (use Cons.prems(2) in auto)
  then show ?case using d Cons.prems(2) [of x d] node_at_valid [OF d(2)] by (subst find_loop.simps) simp
qed

lemma find_miss:
  "linked ns p as \<Longrightarrow> (\<And>b d. b \<in> set as \<Longrightarrow> node_at ns b = Some d \<Longrightarrow> dn_key d \<noteq> key) \<Longrightarrow>
    \<exists>q. find_loop ns key p prev = Some (0, q)"
proof (induction as arbitrary: p prev)
  case Nil
  then show ?case by (simp add: find_loop.simps)
next
  case (Cons x xs)
  obtain d where d: "p = x" "node_at ns x = Some d" "linked ns (dn_next d) xs" using Cons.prems(1) by auto
  have "\<exists>q. find_loop ns key (dn_next d) x = Some (0, q)"
    using Cons.IH [OF d(3)] Cons.prems by auto
  then show ?case using d Cons.prems(2) [of x d] node_at_valid [OF d(2)] by (subst find_loop.simps) simp
qed

section \<open>The invariant\<close>

text \<open>\<open>C h\<close> is the chain of the hash \<open>h\<close>: every entry is on the chain of its key's hash, once.\<close>

definition chains_ok :: "(bytes \<Rightarrow> u64) \<Rightarrow> (u64 \<Rightarrow> ptr option) \<Rightarrow> dstore \<Rightarrow> (u64 \<Rightarrow> ptr list) \<Rightarrow> bool" where
  "chains_ok hf idx ns C = (\<forall>h. linked ns (or_null (idx h)) (C h) \<and> (idx h = None \<longleftrightarrow> C h = []) \<and> distinct (C h) \<and>
     (\<forall>a. a \<in> set (C h) \<longleftrightarrow> (\<exists>d. node_at ns a = Some d \<and> hf (dn_key d) = h)))"

definition uniq :: "dstore \<Rightarrow> bool" where
  "uniq ns = (\<forall>a b d e. node_at ns a = Some d \<longrightarrow> node_at ns b = Some e \<longrightarrow> dn_key d = dn_key e \<longrightarrow> a = b)"

definition live_nodes :: "dstore \<Rightarrow> dnode list" where
  "live_nodes ns = map the (filter (\<lambda>x. x \<noteq> None) ns)"

definition store_content :: "dstore \<Rightarrow> bytes \<Rightarrow> ptr option" where
  "store_content ns = map_of (map (\<lambda>d. (dn_key d, dn_value d)) (live_nodes ns))"

definition entry_bytes :: "dnode option \<Rightarrow> nat" where
  "entry_bytes x = (case x of None \<Rightarrow> 0 | Some e \<Rightarrow> unat (node_bytes (key_len (dn_key e))))"

definition store_bytes :: "dstore \<Rightarrow> nat" where
  "store_bytes ns = sum_list (map entry_bytes ns)"

definition dict_content :: "dstate \<Rightarrow> bytes \<Rightarrow> ptr option" where
  "dict_content s = store_content (fst (snd s))"

definition dict_inv :: "nat \<Rightarrow> nat \<Rightarrow> dstate \<Rightarrow> bool" where
  "dict_inv a base s = (case s of (d, ns, h) \<Rightarrow>
     di_a d = a \<and> htree_inv a (base + store_bytes ns) (di_index d, h) \<and> uniq ns \<and>
     di_count d = word_of_nat (card (dom (store_content ns))) \<and>
     (\<exists>C. chains_ok (di_hash d (di_seed d)) (htree_content (di_index d, h)) ns C))"

lemma in_live: "e \<in> set (live_nodes ns) \<longleftrightarrow> (\<exists>a. node_at ns a = Some e)"
proof
  assume "e \<in> set (live_nodes ns)"
  then have "Some e \<in> set ns" by (auto simp: live_nodes_def)
  then obtain i where "i < length ns" "ns ! i = Some e" by (metis in_set_conv_nth)
  then show "\<exists>a. node_at ns a = Some e" by (intro exI [of _ "Suc i"]) (simp add: node_at_def)
next
  assume "\<exists>a. node_at ns a = Some e"
  then obtain a where "0 < a" "a \<le> length ns" "ns ! (a - 1) = Some e" by (auto simp: node_at_def split: if_splits)
  then have "Some e \<in> set ns" using nth_mem [of "a - 1" ns] by auto
  then show "e \<in> set (live_nodes ns)" unfolding live_nodes_def by (force simp: image_iff)
qed

lemma uniq_ConsD:
  assumes "uniq (x # ns)"
  shows "uniq ns" and "x = Some e \<Longrightarrow> node_at ns a = Some d \<Longrightarrow> dn_key e \<noteq> dn_key d"
proof -
  have shift: "node_at (x # ns) (Suc a) = Some d" if "node_at ns a = Some d" for a d
    using that node_at_valid [OF that] by (cases a) (simp_all add: node_at_def)
  have u: "node_at (x # ns) a = Some d \<Longrightarrow> node_at (x # ns) b = Some e \<Longrightarrow> dn_key d = dn_key e \<Longrightarrow> a = b" for a b d e
    using assms by (simp add: uniq_def)
  show "uniq ns" unfolding uniq_def
  proof (intro allI impI)
    fix a b d e assume "node_at ns a = Some d" "node_at ns b = Some e" "dn_key d = dn_key e"
    from u [OF shift [OF this(1)] shift [OF this(2)] this(3)] show "a = b" by simp
  qed
  show "dn_key e \<noteq> dn_key d" if "x = Some e" "node_at ns a = Some d"
  proof
    assume k: "dn_key e = dn_key d"
    have "node_at (x # ns) 1 = Some e" using that(1) by (simp add: node_at_def)
    from u [OF this shift [OF that(2)] k] show False using node_at_valid [OF that(2)] by simp
  qed
qed

lemma uniq_distinct: "uniq ns \<Longrightarrow> distinct (map dn_key (live_nodes ns))"
proof (induction ns)
  case Nil
  then show ?case by (simp add: live_nodes_def)
next
  case (Cons x ns)
  have ih: "distinct (map dn_key (live_nodes ns))" by (rule Cons.IH [OF uniq_ConsD(1) [OF Cons.prems]])
  show ?case
  proof (cases x)
    case None
    then show ?thesis using ih by (simp add: live_nodes_def)
  next
    case (Some e)
    have "dn_key e \<noteq> dn_key d" if d: "d \<in> set (live_nodes ns)" for d
    proof -
      obtain a where "node_at ns a = Some d" using d in_live by blast
      then show ?thesis by (rule uniq_ConsD(2) [OF Cons.prems Some])
    qed
    moreover have "live_nodes (x # ns) = e # live_nodes ns" using Some by (simp add: live_nodes_def)
    ultimately show ?thesis using ih by auto
  qed
qed

lemma store_content_Some:
  assumes "uniq ns"
  shows "store_content ns k = Some v \<longleftrightarrow> (\<exists>a d. node_at ns a = Some d \<and> dn_key d = k \<and> dn_value d = v)"
proof -
  have "distinct (map fst (map (\<lambda>d. (dn_key d, dn_value d)) (live_nodes ns)))"
    using uniq_distinct [OF assms] by (simp add: comp_def)
  then have "store_content ns k = Some v \<longleftrightarrow> (k, v) \<in> set (map (\<lambda>d. (dn_key d, dn_value d)) (live_nodes ns))"
    unfolding store_content_def by (rule map_of_eq_Some_iff)
  also have "\<dots> \<longleftrightarrow> (\<exists>d \<in> set (live_nodes ns). dn_key d = k \<and> dn_value d = v)" by auto
  finally show ?thesis unfolding Bex_def in_live by blast
qed

lemma store_content_None: "uniq ns \<Longrightarrow> store_content ns k = None \<longleftrightarrow> (\<forall>a d. node_at ns a = Some d \<longrightarrow> dn_key d \<noteq> k)"
  using store_content_Some [of ns k] by (metis not_None_eq)

lemma store_bytes_snoc: "store_bytes (ns @ [x]) = store_bytes ns + entry_bytes x"
  by (simp add: store_bytes_def)

lemma store_bytes_set:
  assumes "node_at ns p = Some d"
  shows "store_bytes (node_set ns p x) + entry_bytes (Some d) = store_bytes ns + entry_bytes x"
proof -
  have p: "p - 1 < length ns" "ns ! (p - 1) = Some d" using node_at_valid [OF assms] assms by (auto simp: node_at_def)
  then have "entry_bytes (Some d) \<le> sum_list (map entry_bytes ns)" by (metis elem_le_sum_list length_map nth_map)
  then show ?thesis using p by (simp add: store_bytes_def node_set_def map_update sum_list_update)
qed

section \<open>Looking up\<close>

lemma dict_lookup:
  assumes ch: "chains_ok (di_hash d (di_seed d)) (htree_content (di_index d, h)) ns C"
    and hi: "htree_inv a base (di_index d, h)" and u: "uniq ns"
  shows "(\<exists>q. dict_find d ns h key (di_hash d (di_seed d) key) = Some (0, q) \<and> (\<forall>b e. node_at ns b = Some e \<longrightarrow> dn_key e \<noteq> key)) \<or>
    (\<exists>n e xs ys. dict_find d ns h key (di_hash d (di_seed d) key) = Some (n, last (0 # xs)) \<and>
       C (di_hash d (di_seed d) key) = xs @ n # ys \<and> node_at ns n = Some e \<and> dn_key e = key)"
proof -
  let ?hv = "di_hash d (di_seed d) key"
  let ?p = "or_null (htree_content (di_index d, h) ?hv)"
  have f: "dict_find d ns h key ?hv = find_loop ns key ?p 0"
    using htree.get_law [OF hi, of ?hv] by (simp add: dict_find_def)
  have c: "linked ns ?p (C ?hv)" "\<And>b. b \<in> set (C ?hv) \<longleftrightarrow> (\<exists>e. node_at ns b = Some e \<and> di_hash d (di_seed d) (dn_key e) = ?hv)"
    "distinct (C ?hv)"
    using ch by (auto simp: chains_ok_def)
  show ?thesis
  proof (cases "\<exists>n e. node_at ns n = Some e \<and> dn_key e = key")
    case True
    then obtain n e where n: "node_at ns n = Some e" "dn_key e = key" by blast
    then have "n \<in> set (C ?hv)" using c(2) by blast
    then obtain xs ys where xs: "C ?hv = xs @ n # ys" by (metis split_list)
    have "dn_key e' \<noteq> key" if "b \<in> set xs" "node_at ns b = Some e'" for b e'
    proof
      assume "dn_key e' = key"
      then have "b = n" using that(2) n u unfolding uniq_def by metis
      then show False using that(1) c(3) xs by auto
    qed
    then have "find_loop ns key ?p 0 = Some (n, last (0 # xs))"
      by (intro find_hit [OF c(1) [unfolded xs] _ n])
    then show ?thesis using f xs n by auto
  next
    case False
    then have "\<exists>q. find_loop ns key ?p 0 = Some (0, q)" by (intro find_miss [OF c(1)]) blast
    then show ?thesis using f False by auto
  qed
qed

lemma dict_find_content:
  assumes "dict_inv a base (d, ns, h)"
  obtains n q where "dict_find d ns h key (di_hash d (di_seed d) key) = Some (n, q)"
    and "n = 0 \<Longrightarrow> store_content ns key = None"
    and "n \<noteq> 0 \<Longrightarrow> \<exists>e. node_at ns n = Some e \<and> store_content ns key = Some (dn_value e)"
proof -
  obtain C where C: "chains_ok (di_hash d (di_seed d)) (htree_content (di_index d, h)) ns C"
    "htree_inv a (base + store_bytes ns) (di_index d, h)" "uniq ns" using assms by (auto simp: dict_inv_def)
  show ?thesis
  proof (cases "\<exists>q. dict_find d ns h key (di_hash d (di_seed d) key) = Some (0, q) \<and> (\<forall>b e. node_at ns b = Some e \<longrightarrow> dn_key e \<noteq> key)")
    case True
    then show ?thesis using that store_content_None [OF C(3)] by blast
  next
    case False
    then obtain n e xs where n: "dict_find d ns h key (di_hash d (di_seed d) key) = Some (n, last (0 # xs))"
      "node_at ns n = Some e" "dn_key e = key" using dict_lookup [OF C, of key] by blast
    then show ?thesis using that [OF n(1)] node_at_valid [OF n(2)] store_content_Some [OF C(3)] by blast
  qed
qed

section \<open>Inserting\<close>

lemma overwrite_ok:
  fixes v :: ptr
  assumes "node_at ns n = Some e" and "uniq ns"
  defines "ns1 \<equiv> node_set ns n (Some (e\<lparr>dn_value := v\<rparr>))"
  shows "uniq ns1" and "store_content ns1 = (store_content ns)(dn_key e \<mapsto> v)" and "store_bytes ns1 = store_bytes ns"
    and "chains_ok hf idx ns C \<Longrightarrow> chains_ok hf idx ns1 C"
proof -
  have at: "node_at ns1 q = (if q = n then Some (e\<lparr>dn_value := v\<rparr>) else node_at ns q)" for q
    unfolding ns1_def by (rule node_at_set [OF assms(1)])
  have key: "map_option dn_key (node_at ns1 q) = map_option dn_key (node_at ns q)"
    "map_option dn_next (node_at ns1 q) = map_option dn_next (node_at ns q)" for q
    using at [of q] assms(1) by auto
  show u: "uniq ns1" unfolding uniq_def
  proof (intro allI impI)
    fix a b d f assume "node_at ns1 a = Some d" "node_at ns1 b = Some f" "dn_key d = dn_key f"
    moreover have "\<exists>d'. node_at ns q = Some d' \<and> dn_key d' = dn_key x" if "node_at ns1 q = Some x" for q x
      using key(1) [of q] that by (cases "node_at ns q") auto
    ultimately obtain d' f' where "node_at ns a = Some d'" "node_at ns b = Some f'" "dn_key d' = dn_key f'" by metis
    then show "a = b" using assms(2) unfolding uniq_def by blast
  qed
  show "store_content ns1 = (store_content ns)(dn_key e \<mapsto> v)"
  proof
    fix k
    have "store_content ns1 k = Some w \<longleftrightarrow> ((store_content ns)(dn_key e \<mapsto> v)) k = Some w" for w
    proof (cases "k = dn_key e")
      case True
      have "store_content ns1 k = Some v" unfolding store_content_Some [OF u]
        using at [of n] True by (intro exI [of _ n]) simp
      then show ?thesis using True by auto
    next
      case False
      have "(\<exists>a d. node_at ns1 a = Some d \<and> dn_key d = k \<and> dn_value d = w) \<longleftrightarrow> (\<exists>a d. node_at ns a = Some d \<and> dn_key d = k \<and> dn_value d = w)"
      proof -
        have "node_at ns1 a = Some d \<and> dn_key d = k \<longleftrightarrow> node_at ns a = Some d \<and> dn_key d = k" for a d
          using at [of a] False assms(1) by (cases "a = n") auto
        then show ?thesis by blast
      qed
      then show ?thesis using False by (simp add: store_content_Some [OF u] store_content_Some [OF assms(2)])
    qed
    then show "store_content ns1 k = ((store_content ns)(dn_key e \<mapsto> v)) k" by (metis not_None_eq)
  qed
  show "store_bytes ns1 = store_bytes ns"
    using store_bytes_set [OF assms(1), of "Some (e\<lparr>dn_value := v\<rparr>)"] by (simp add: ns1_def entry_bytes_def)
  show "chains_ok hf idx ns1 C" if c: "chains_ok hf idx ns C"
  proof -
    have "linked ns1 p as" if "linked ns p as" for p as using linked_cong [OF _ that] key(2) by blast
    moreover have "(\<exists>d. node_at ns1 q = Some d \<and> hf (dn_key d) = h) \<longleftrightarrow> (\<exists>d. node_at ns q = Some d \<and> hf (dn_key d) = h)" for q h
      unfolding at using assms(1) by auto
    ultimately show ?thesis using c by (simp add: chains_ok_def)
  qed
qed

lemma push_ok:
  fixes v :: ptr
  assumes c: "chains_ok hf idx ns C" and u: "uniq ns" and new: "\<forall>b e. node_at ns b = Some e \<longrightarrow> dn_key e \<noteq> key"
  defines "n \<equiv> Suc (length ns)"
  defines "ns1 \<equiv> ns @ [Some \<lparr>dn_next = or_null (idx (hf key)), dn_value = v, dn_hash = hf key, dn_key = key\<rparr>]"
  shows "uniq ns1" and "store_content ns1 = (store_content ns)(key \<mapsto> v)"
    and "store_bytes ns1 = store_bytes ns + unat (node_bytes (key_len key))"
    and "chains_ok hf (idx(hf key \<mapsto> n)) ns1 (C(hf key := n # C (hf key)))"
proof -
  let ?e = "\<lparr>dn_next = or_null (idx (hf key)), dn_value = v, dn_hash = hf key, dn_key = key\<rparr>"
  have at: "node_at ns1 q = (if q = n then Some ?e else node_at ns q)" for q
    unfolding ns1_def n_def by (rule node_at_snoc)
  have no: "node_at ns n = None" by (simp add: node_at_def n_def)
  show u1: "uniq ns1" unfolding uniq_def
  proof (intro allI impI)
    fix a b d f assume "node_at ns1 a = Some d" "node_at ns1 b = Some f" "dn_key d = dn_key f"
    then show "a = b" using u new [rule_format, of a d] new [rule_format, of b f] unfolding at uniq_def by (auto split: if_splits)
  qed
  show "store_content ns1 = (store_content ns)(key \<mapsto> v)"
  proof
    fix k
    have "store_content ns1 k = Some w \<longleftrightarrow> ((store_content ns)(key \<mapsto> v)) k = Some w" for w
    proof (cases "k = key")
      case True
      have "store_content ns1 k = Some v" unfolding store_content_Some [OF u1]
        using at [of n] True by (intro exI [of _ n]) simp
      then show ?thesis using True by auto
    next
      case False
      have "(\<exists>a d. node_at ns1 a = Some d \<and> dn_key d = k \<and> dn_value d = w) \<longleftrightarrow> (\<exists>a d. node_at ns a = Some d \<and> dn_key d = k \<and> dn_value d = w)"
      proof -
        have "node_at ns1 a = Some d \<and> dn_key d = k \<longleftrightarrow> node_at ns a = Some d \<and> dn_key d = k" for a d
          using at [of a] False no by (cases "a = n") auto
        then show ?thesis by blast
      qed
      then show ?thesis using False by (simp add: store_content_Some [OF u1] store_content_Some [OF u])
    qed
    then show "store_content ns1 k = ((store_content ns)(key \<mapsto> v)) k" by (metis not_None_eq)
  qed
  show "store_bytes ns1 = store_bytes ns + unat (node_bytes (key_len key))"
    by (simp add: ns1_def store_bytes_snoc entry_bytes_def)
  have nin: "n \<notin> set (C h)" for h using c no by (auto simp: chains_ok_def)
  show "chains_ok hf (idx(hf key \<mapsto> n)) ns1 (C(hf key := n # C (hf key)))"
    unfolding chains_ok_def
  proof (intro allI conjI)
    fix h q
    have l: "linked ns1 p (C h')" if "linked ns p (C h')" for p h'
    proof (rule linked_cong [OF _ that])
      fix b assume "b \<in> set (C h')"
      then have "b \<noteq> n" using nin by blast
      then show "map_option dn_next (node_at ns1 b) = map_option dn_next (node_at ns b)" unfolding at by simp
    qed
    have lc: "linked ns (or_null (idx h')) (C h')" for h' using c by (simp add: chains_ok_def)
    show "linked ns1 (or_null ((idx(hf key \<mapsto> n)) h)) ((C(hf key := n # C (hf key))) h)"
      using l [OF lc] at [of n] by simp
    show "((idx(hf key \<mapsto> n)) h = None) = ((C(hf key := n # C (hf key))) h = [])"
      using c by (simp add: chains_ok_def)
    show "distinct ((C(hf key := n # C (hf key))) h)" using c nin by (simp add: chains_ok_def)
    show "(q \<in> set ((C(hf key := n # C (hf key))) h)) = (\<exists>d. node_at ns1 q = Some d \<and> hf (dn_key d) = h)"
      unfolding at using c no by (auto simp: chains_ok_def)
  qed
qed

lemma htree_inv_alloc:
  assumes "htree_inv a base (t, h)" and "h_alloc a n h = (ok, h1)"
  shows "htree_inv a (base + paid ok n) (t, h1)"
proof -
  have "accounts (h a) (base + 136 * nodes (ht_root t))" using assms(1) by (simp add: htree_inv_def)
  from heap.al_acct [OF assms(2) this] have "accounts (h1 a) (base + paid ok n + 136 * nodes (ht_root t))"
    by (simp add: ac_simps)
  then show ?thesis using assms(1) by (simp add: htree_inv_def htree_content_simp)
qed

lemma htree_inv_release:
  assumes "htree_inv a (base + unat n) (t, h)"
  shows "htree_inv a base (t, h_release a True n h)"
proof -
  have "accounts (h a) (base + 136 * nodes (ht_root t) + paid True n)"
    using assms by (simp add: htree_inv_def paid_def ac_simps)
  then have "accounts (h_release a True n h a) (base + 136 * nodes (ht_root t))" by (rule heap.rel_add)
  then show ?thesis using assms by (simp add: htree_inv_def htree_content_simp)
qed

lemma content_card:
  "word_of_nat (card (dom ((store_content ns)(key \<mapsto> v)))) =
    (if store_content ns key = None then word_of_nat (card (dom (store_content ns))) + 1
     else (word_of_nat (card (dom (store_content ns))) :: size_t))"
proof -
  have "finite (dom (store_content ns))" by (simp add: store_content_def finite_dom_map_of)
  then show ?thesis by (auto simp: card_insert_if domIff insert_absorb add.commute)
qed

lemma dict_put_spec:
  assumes "dict_inv a base s"
  shows "\<exists>ok s1. dict_put key v s = Some (ok, s1) \<and> dict_inv a base s1 \<and> (dict_oom s \<longrightarrow> dict_oom s1) \<and>
    dict_content s1 = (if ok then (dict_content s)(key \<mapsto> v) else dict_content s) \<and> (\<not> ok \<longrightarrow> dict_oom s1)"
proof -
  obtain d ns h where s: "s = (d, ns, h)" by (metis prod_cases3)
  obtain C where C: "chains_ok (di_hash d (di_seed d)) (htree_content (di_index d, h)) ns C"
    "htree_inv a (base + store_bytes ns) (di_index d, h)" "uniq ns"
    and d: "di_a d = a" "di_count d = word_of_nat (card (dom (store_content ns)))"
    using assms by (auto simp: dict_inv_def s)
  let ?hf = "di_hash d (di_seed d)"
  let ?hv = "?hf key" and ?len = "key_len key" and ?idx = "htree_content (di_index d, h)"
  consider (hit) n e q where "dict_find d ns h key ?hv = Some (n, q)" "node_at ns n = Some e" "dn_key e = key"
    | (miss) q where "dict_find d ns h key ?hv = Some (0, q)" "\<forall>b e. node_at ns b = Some e \<longrightarrow> dn_key e \<noteq> key"
    using dict_lookup [OF C, of key] by blast
  then show ?thesis
  proof cases
    case hit
    note ow = overwrite_ok [OF hit(2) C(3), where v = v]
    let ?ns = "node_set ns n (Some (e\<lparr>dn_value := v\<rparr>))"
    have "n \<noteq> 0" using node_at_valid [OF hit(2)] by simp
    then have e: "dict_put key v s = Some (True, d\<lparr>di_gen := di_gen d + 1\<rparr>, ?ns, h)"
      using hit(1,2) by (simp add: dict_put_def s)
    have "store_content ns key \<noteq> None" using hit(2,3) store_content_None [OF C(3)] by blast
    then have cd: "word_of_nat (card (dom (store_content ?ns))) = di_count d"
      using content_card [of ns key v] ow(2) hit(3) d(2) by simp
    have "dict_inv a base (d\<lparr>di_gen := di_gen d + 1\<rparr>, ?ns, h)"
      unfolding dict_inv_def using ow C d cd by auto
    then show ?thesis using e ow(2) hit(3)
      by (intro exI [of _ True] exI [of _ "(d\<lparr>di_gen := di_gen d + 1\<rparr>, ?ns, h)"]) (simp add: s dict_oom_def dict_content_def)
  next
    case miss
    have keep: "dict_inv a base (d\<lparr>di_oom := True\<rparr>, ns, h')" if "htree_inv a (base + store_bytes ns) (di_index d, h')" for h'
      unfolding dict_inv_def using that C d by (auto simp: htree_content_simp)
    show ?thesis
    proof (cases "SIZE_MAX - 32 < ?len")
      case True
      then have "dict_put key v s = Some (False, d\<lparr>di_oom := True\<rparr>, ns, h)" using miss(1) by (simp add: dict_put_def s Let_def)
      then show ?thesis using keep [OF C(2)]
        by (intro exI [of _ False] exI [of _ "(d\<lparr>di_oom := True\<rparr>, ns, h)"]) (simp add: s dict_oom_def dict_content_def)
    next
      case rep: False
      obtain k h1 where al: "h_alloc (di_a d) (node_bytes ?len) h = (k, h1)" by fastforce
      have i1: "htree_inv a (base + store_bytes ns + paid k (node_bytes ?len)) (di_index d, h1)"
        using htree_inv_alloc [OF C(2)] al d(1) by simp
      show ?thesis
      proof (cases k)
        case False
        then have "dict_put key v s = Some (False, d\<lparr>di_oom := True\<rparr>, ns, h1)"
          using miss(1) rep al by (simp add: dict_put_def s Let_def)
        then show ?thesis using keep [of h1] i1 False
          by (intro exI [of _ False] exI [of _ "(d\<lparr>di_oom := True\<rparr>, ns, h1)"]) (simp add: s dict_oom_def dict_content_def paid_def)
      next
        case k: True
        let ?n = "Suc (length ns)"
        let ?ns = "ns @ [Some \<lparr>dn_next = or_null (?idx ?hv), dn_value = v, dn_hash = ?hv, dn_key = key\<rparr>]"
        note pu = push_ok [OF C(1,3) miss(2), where v = v]
        have sr: "htree_search ?hv (di_index d, h1) = Some (or_null (?idx ?hv))"
          using htree.get_law [OF i1, of ?hv] by (simp add: htree_content_simp)
        obtain ok st1 where ins: "htree_insert ?hv ?n (di_index d, h1) = Some (ok, st1)"
          "htree_inv a (base + store_bytes ns + paid k (node_bytes ?len)) st1"
          "htree_content st1 = (if ok then (htree_content (di_index d, h1))(?hv \<mapsto> ?n) else htree_content (di_index d, h1))"
          "\<not> ok \<longrightarrow> ht_oom (fst st1)" "ht_oom (di_index d) \<longrightarrow> ht_oom (fst st1)"
          using htree_insert_spec [OF i1, of ?hv ?n] by auto
        obtain idx h2 where st1: "st1 = (idx, h2)" by (cases st1)
        show ?thesis
        proof (cases ok)
          case True
          let ?d = "d\<lparr>di_index := idx, di_count := di_count d + 1, di_gen := di_gen d + 1\<rparr>"
          have e: "dict_put key v s = Some (True, ?d, ?ns, h2)"
            using miss(1) rep al k sr ins(1) True st1 by (simp add: dict_put_def s Let_def)
          have "store_content ns key = None" using store_content_None [OF C(3)] miss(2) by blast
          then have cd: "word_of_nat (card (dom (store_content ?ns))) = di_count d + 1"
            using content_card [of ns key v] pu(2) d(2) by simp
          have ch: "chains_ok ?hf (htree_content (idx, h2)) ?ns (C(?hv := ?n # C ?hv))"
            using pu(4) ins(3) True st1 by (simp add: htree_content_simp)
          have "base + store_bytes ?ns = base + store_bytes ns + paid k (node_bytes ?len)"
            using pu(3) k by (simp add: paid_def)
          then have "dict_inv a base (?d, ?ns, h2)"
            unfolding dict_inv_def using pu(1) ch ins(2) st1 cd d(1) by (auto simp: add.assoc)
          then show ?thesis using e pu(2) ins(5) st1
            by (intro exI [of _ True] exI [of _ "(?d, ?ns, h2)"]) (auto simp: s dict_oom_def dict_content_def)
        next
          case F: False
          let ?d = "d\<lparr>di_index := idx, di_oom := True\<rparr>"
          let ?h = "h_release (di_a d) True (node_bytes ?len) h2"
          let ?ns1 = "node_set ?ns ?n None"
          have e: "dict_put key v s = Some (False, ?d, ?ns1, ?h)"
            using miss(1) rep al k sr ins(1) F st1 by (simp add: dict_put_def s Let_def)
          have "?ns1 = ns @ [None]" by (simp add: node_set_def)
          then have n1: "?ns1 = ns @ [None]" .
          have at: "node_at (ns @ [None]) q = node_at ns q" for q by (simp add: node_at_snoc) (simp add: node_at_def)
          have lv: "store_content (ns @ [None]) = store_content ns" by (simp add: store_content_def live_nodes_def)
          have lk: "linked (ns @ [None]) p as = linked ns p as" for p as by (induction as arbitrary: p) (simp_all add: at)
          have ch: "chains_ok ?hf (htree_content (idx, h2)) (ns @ [None]) C"
            using C(1) ins(3) F st1 by (simp add: chains_ok_def at lk htree_content_simp)
          have "htree_inv a (base + store_bytes ns + unat (node_bytes ?len)) (idx, h2)"
            using ins(2) st1 k by (simp add: paid_def)
          then have "htree_inv a (base + store_bytes ns) (idx, ?h)" unfolding d(1) by (rule htree_inv_release)
          then have "dict_inv a base (?d, ns @ [None], ?h)"
            unfolding dict_inv_def using ch C(3) d lv
            by (auto simp: uniq_def at store_bytes_snoc entry_bytes_def htree_content_simp)
          then show ?thesis using e lv
            by (intro exI [of _ False] exI [of _ "(?d, ?ns1, ?h)"]) (simp add: n1 s dict_oom_def dict_content_def)
        qed
      qed
    qed
  qed
qed

section \<open>Deleting\<close>

lemma remove_content:
  assumes u: "uniq ns" and n: "node_at ns n = Some e"
    and R: "\<And>q. map_option (\<lambda>d. (dn_key d, dn_value d)) (node_at ns1 q) =
      (if q = n then None else map_option (\<lambda>d. (dn_key d, dn_value d)) (node_at ns q))"
  shows "uniq ns1" and "store_content ns1 = (store_content ns)(dn_key e := None)"
proof -
  have bwd: "q \<noteq> n \<and> (\<exists>d'. node_at ns q = Some d' \<and> dn_key d' = dn_key d \<and> dn_value d' = dn_value d)"
    if "node_at ns1 q = Some d" for q d
    using R [of q] that by (cases "q = n"; cases "node_at ns q") auto
  have fwd: "\<exists>d'. node_at ns1 q = Some d' \<and> dn_key d' = dn_key d \<and> dn_value d' = dn_value d"
    if "node_at ns q = Some d" "q \<noteq> n" for q d
    using R [of q] that by (cases "node_at ns1 q") auto
  show u1: "uniq ns1" unfolding uniq_def
  proof (intro allI impI)
    fix a b d f assume "node_at ns1 a = Some d" "node_at ns1 b = Some f" "dn_key d = dn_key f"
    then obtain d' f' where "node_at ns a = Some d'" "node_at ns b = Some f'" "dn_key d' = dn_key f'"
      using bwd [of a d] bwd [of b f] by auto
    then show "a = b" using u unfolding uniq_def by blast
  qed
  show "store_content ns1 = (store_content ns)(dn_key e := None)"
  proof
    fix k
    have "store_content ns1 k = Some w \<longleftrightarrow> ((store_content ns)(dn_key e := None)) k = Some w" for w
    proof (cases "k = dn_key e")
      case True
      have "dn_key d \<noteq> dn_key e" if d: "node_at ns1 q = Some d" for q d
      proof
        assume "dn_key d = dn_key e"
        moreover obtain d' where d': "q \<noteq> n" "node_at ns q = Some d'" "dn_key d' = dn_key d" using bwd [OF d] by blast
        ultimately have "dn_key d' = dn_key e" by simp
        then have "q = n" using u d'(2) n unfolding uniq_def by blast
        then show False using d'(1) by simp
      qed
      then have "store_content ns1 k \<noteq> Some w" unfolding store_content_Some [OF u1] using True by blast
      then show ?thesis using True by simp
    next
      case False
      have "store_content ns1 k = Some w \<longleftrightarrow> store_content ns k = Some w"
        unfolding store_content_Some [OF u1] store_content_Some [OF u]
      proof
        assume "\<exists>a d. node_at ns1 a = Some d \<and> dn_key d = k \<and> dn_value d = w"
        then show "\<exists>a d. node_at ns a = Some d \<and> dn_key d = k \<and> dn_value d = w" using bwd by metis
      next
        assume "\<exists>a d. node_at ns a = Some d \<and> dn_key d = k \<and> dn_value d = w"
        then obtain a d where ad: "node_at ns a = Some d" "dn_key d = k" "dn_value d = w" by blast
        then have "a \<noteq> n" using n False by auto
        then show "\<exists>a d. node_at ns1 a = Some d \<and> dn_key d = k \<and> dn_value d = w" using fwd [OF ad(1)] ad by auto
      qed
      then show ?thesis using False by simp
    qed
    then show "store_content ns1 k = ((store_content ns)(dn_key e := None)) k" by (metis not_None_eq)
  qed
qed

lemma remove_chains:
  assumes c: "chains_ok hf idx ns C" and n: "node_at ns n = Some e" and C: "C (hf (dn_key e)) = xs @ n # ys"
    and R: "\<And>q. map_option (\<lambda>d. (dn_key d, dn_value d)) (node_at ns1 q) =
      (if q = n then None else map_option (\<lambda>d. (dn_key d, dn_value d)) (node_at ns q))"
    and lk: "linked ns1 (or_null (idx1 (hf (dn_key e)))) (xs @ ys)" and em: "idx1 (hf (dn_key e)) = None \<longleftrightarrow> xs @ ys = []"
    and same: "\<And>h. h \<noteq> hf (dn_key e) \<Longrightarrow> idx1 h = idx h"
    and nx: "\<And>q. q \<notin> set (C (hf (dn_key e))) \<Longrightarrow> node_at ns1 q = node_at ns q"
  shows "chains_ok hf idx1 ns1 (C(hf (dn_key e) := xs @ ys))"
  unfolding chains_ok_def
proof (intro allI conjI)
  fix h q
  let ?hv = "hf (dn_key e)" and ?C = "C(hf (dn_key e) := xs @ ys)"
  have cc: "linked ns (or_null (idx h)) (C h)" "(idx h = None) = (C h = [])" "distinct (C h)"
    "\<And>q. q \<in> set (C h) \<longleftrightarrow> (\<exists>d. node_at ns q = Some d \<and> hf (dn_key d) = h)" for h
    using c by (simp_all add: chains_ok_def)
  have dj: "q \<notin> set (C ?hv)" if "q \<in> set (C h)" "h \<noteq> ?hv" for q h using cc(4) that by auto
  show "linked ns1 (or_null (idx1 h)) (?C h)"
  proof (cases "h = ?hv")
    case False
    have "linked ns1 (or_null (idx h)) (C h)"
      by (rule linked_cong [OF _ cc(1)]) (use nx dj [OF _ False] in simp)
    then show ?thesis using False same by simp
  qed (use lk in simp)
  show "(idx1 h = None) = (?C h = [])" using em same cc(2) by simp
  show "distinct (?C h)" using cc(3) [of h] cc(3) [of ?hv] C by auto
  have R': "(\<exists>d. node_at ns1 q = Some d \<and> hf (dn_key d) = h) \<longleftrightarrow> q \<noteq> n \<and> (\<exists>d. node_at ns q = Some d \<and> hf (dn_key d) = h)"
    using R [of q] by (cases "node_at ns1 q"; cases "node_at ns q"; cases "q = n") auto
  show "(q \<in> set (?C h)) = (\<exists>d. node_at ns1 q = Some d \<and> hf (dn_key d) = h)"
  proof (cases "h = ?hv")
    case True
    have "q \<in> set (xs @ ys) \<longleftrightarrow> q \<in> set (C ?hv) \<and> q \<noteq> n" using cc(3) [of ?hv] unfolding C by auto
    then show ?thesis using True R' cc(4) [of q h] by auto
  next
    case False
    then show ?thesis using R' cc(4) [of q h] n by auto
  qed
qed

lemma content_card_del:
  assumes "store_content ns key \<noteq> None"
  shows "word_of_nat (card (dom ((store_content ns)(key := None)))) = (word_of_nat (card (dom (store_content ns))) :: size_t) - 1"
proof -
  have f: "finite (dom (store_content ns))" by (simp add: store_content_def finite_dom_map_of)
  have "key \<in> dom (store_content ns)" using assms by auto
  then have "card (dom (store_content ns)) = Suc (card (dom (store_content ns) - {key}))"
    by (rule card_Suc_Diff1 [OF f, symmetric])
  then show ?thesis by simp
qed

text \<open>The end of a deletion, for the store with the entry gone.\<close>

lemma dict_drop_ok:
  assumes "di_a d = a" and "htree_inv a (base + store_bytes ns) (idx, h)" and "uniq ns" and n: "node_at ns n = Some e"
    and "di_count d = word_of_nat (card (dom (store_content ns)))"
    and "dict_drop n e (d\<lparr>di_index := idx\<rparr>) ns' h = (v, s1)"
    and R: "\<And>q. map_option (\<lambda>d. (dn_key d, dn_value d)) (node_at (node_set ns' n None) q) =
      (if q = n then None else map_option (\<lambda>d. (dn_key d, dn_value d)) (node_at ns q))"
    and sb: "store_bytes (node_set ns' n None) + entry_bytes (Some e) = store_bytes ns"
    and ch: "chains_ok (di_hash d (di_seed d)) (htree_content (idx, h)) (node_set ns' n None) C"
  shows "v = dn_value e" and "dict_inv a base s1" and "dict_content s1 = (store_content ns)(dn_key e := None)"
    and "dict_oom s1 = (di_oom d \<or> ht_oom idx)"
proof -
  let ?d = "d\<lparr>di_index := idx, di_count := di_count d - 1, di_gen := di_gen d + 1\<rparr>"
  let ?h = "h_release a True (node_bytes (key_len (dn_key e))) h"
  have s1: "s1 = (?d, node_set ns' n None, ?h)" and v: "v = dn_value e"
    using assms(1,6) by (auto simp: dict_drop_def)
  show "v = dn_value e" by (rule v)
  note rc = remove_content [OF assms(3) n R]
  have k: "store_content ns (dn_key e) \<noteq> None" using n store_content_None [OF assms(3)] by blast
  have "base + store_bytes ns = base + store_bytes (node_set ns' n None) + unat (node_bytes (key_len (dn_key e)))"
    using sb by (simp add: entry_bytes_def)
  then have "htree_inv a (base + store_bytes (node_set ns' n None)) (idx, ?h)"
    using assms(2) htree_inv_release by metis
  then show "dict_inv a base s1"
    unfolding s1 dict_inv_def using rc ch assms(1,5) content_card_del [OF k] by (auto simp: htree_content_simp)
  show "dict_content s1 = (store_content ns)(dn_key e := None)" using rc(2) by (simp add: s1 dict_content_def)
  show "dict_oom s1 = (di_oom d \<or> ht_oom idx)" by (simp add: s1 dict_oom_def)
qed

lemma dict_delete_spec:
  assumes "dict_inv a base s"
  shows "\<exists>s1. dict_delete key s = Some (or_null (dict_content s key), s1) \<and> dict_inv a base s1 \<and>
    dict_content s1 = (dict_content s)(key := None) \<and> (dict_oom s \<longrightarrow> dict_oom s1)"
proof -
  obtain d ns h where s: "s = (d, ns, h)" by (metis prod_cases3)
  obtain C where C: "chains_ok (di_hash d (di_seed d)) (htree_content (di_index d, h)) ns C"
    "htree_inv a (base + store_bytes ns) (di_index d, h)" "uniq ns"
    and d: "di_a d = a" "di_count d = word_of_nat (card (dom (store_content ns)))"
    using assms by (auto simp: dict_inv_def s)
  let ?hf = "di_hash d (di_seed d)" and ?idx = "htree_content (di_index d, h)"
  let ?hv = "?hf key"
  consider (hit) n e xs ys where "dict_find d ns h key ?hv = Some (n, last (0 # xs))" "C ?hv = xs @ n # ys"
      "node_at ns n = Some e" "dn_key e = key"
    | (miss) q where "dict_find d ns h key ?hv = Some (0, q)" "\<forall>b e. node_at ns b = Some e \<longrightarrow> dn_key e \<noteq> key"
    using dict_lookup [OF C, of key] by blast
  then show ?thesis
  proof cases
    case miss
    then have "store_content ns key = None" using store_content_None [OF C(3)] by blast
    moreover have "dict_delete key s = Some (0, s)" using miss(1) by (simp add: dict_delete_def s)
    ultimately show ?thesis using assms by (intro exI [of _ s]) (auto simp: s dict_content_def fun_eq_iff)
  next
    case hit
    have ct: "store_content ns key = Some (dn_value e)" using hit(3,4) store_content_Some [OF C(3)] by blast
    have n0: "n \<noteq> 0" using node_at_valid [OF hit(3)] by simp
    have cc: "linked ns (or_null (?idx ?hv)) (xs @ n # ys)" "?idx ?hv \<noteq> None" "distinct (xs @ n # ys)"
    proof -
      have "linked ns (or_null (?idx ?hv)) (C ?hv) \<and> (?idx ?hv = None \<longleftrightarrow> C ?hv = []) \<and> distinct (C ?hv)"
        using C(1) by (simp add: chains_ok_def)
      then show "linked ns (or_null (?idx ?hv)) (xs @ n # ys)" "?idx ?hv \<noteq> None" "distinct (xs @ n # ys)"
        unfolding hit(2) by simp_all
    qed
    have Cn: "C (?hf (dn_key e)) = xs @ n # ys" using hit(2,4) by simp
    have finish: ?thesis if "dict_delete key s = Some (dict_drop n e (d\<lparr>di_index := i1\<rparr>) ns' h1)"
      and "htree_inv a (base + store_bytes ns) (i1, h1)"
      and "\<And>q. map_option (\<lambda>d. (dn_key d, dn_value d)) (node_at (node_set ns' n None) q) =
        (if q = n then None else map_option (\<lambda>d. (dn_key d, dn_value d)) (node_at ns q))"
      and "store_bytes (node_set ns' n None) + entry_bytes (Some e) = store_bytes ns"
      and "chains_ok ?hf (htree_content (i1, h1)) (node_set ns' n None) C1" and "ht_oom (di_index d) \<longrightarrow> ht_oom i1"
    for i1 h1 ns' C1
    proof -
      obtain v s1 where dr: "dict_drop n e (d\<lparr>di_index := i1\<rparr>) ns' h1 = (v, s1)" by (meson surj_pair)
      note ok = dict_drop_ok [OF d(1) that(2) C(3) hit(3) d(2) dr that(3-5)]
      show ?thesis using ok that(1,6) dr ct hit(4)
        by (intro exI [of _ s1]) (auto simp: s dict_content_def dict_oom_def [of "(d, ns, h)"])
    qed
    show ?thesis
    proof (cases "xs = []")
      case False
      then obtain zs b where xs: "xs = zs @ [b]" by (metis rev_exhaust)
      have "b \<in> set (C ?hv)" using hit(2) xs by simp
      then obtain eb where eb: "node_at ns b = Some eb" using C(1) by (auto simp: chains_ok_def)
      have b0: "b \<noteq> 0" "n \<noteq> b" using node_at_valid [OF eb] cc(3) xs by auto
      let ?x = "eb\<lparr>dn_next := dn_next e\<rparr>"
      let ?ns1 = "node_set ns b (Some ?x)"
      have at1: "node_at ?ns1 q = (if q = b then Some ?x else node_at ns q)" for q by (rule node_at_set [OF eb])
      note at = node_at_unlink [OF eb hit(3) b0(2), of ?x]
      have del: "dict_delete key s = Some (dict_drop n e (d\<lparr>di_index := di_index d\<rparr>) ?ns1 h)"
        using hit(1,3) n0 b0(1) eb xs by (simp add: dict_delete_def s)
      show ?thesis
      proof (rule finish [OF del C(2)])
        show R: "map_option (\<lambda>d. (dn_key d, dn_value d)) (node_at (node_set ?ns1 n None) q) =
          (if q = n then None else map_option (\<lambda>d. (dn_key d, dn_value d)) (node_at ns q))" for q
          using at [of q] eb by auto
        have "node_at ?ns1 n = Some e" using at1 b0(2) hit(3) by simp
        from store_bytes_set [OF this, of None] store_bytes_set [OF eb, of "Some ?x"]
        show "store_bytes (node_set ?ns1 n None) + entry_bytes (Some e) = store_bytes ns" by (simp add: entry_bytes_def)
        show "chains_ok ?hf ?idx (node_set ?ns1 n None) (C(?hf (dn_key e) := xs @ ys))"
        proof (rule remove_chains [OF C(1) hit(3) Cn R])
          have "linked (node_set ?ns1 n None) (or_null (?idx ?hv)) (zs @ b # ys)"
            by (rule linked_unlink [OF eb hit(3)]) (use cc xs in auto)
          then show "linked (node_set ?ns1 n None) (or_null (?idx (?hf (dn_key e)))) (xs @ ys)" using xs hit(4) by simp
          show "(?idx (?hf (dn_key e)) = None) = (xs @ ys = [])" using cc(2) hit(4) xs by simp
          show "node_at (node_set ?ns1 n None) q = node_at ns q" if "q \<notin> set (C (?hf (dn_key e)))" for q
            using that at [of q] xs Cn by simp
        qed simp
      qed simp
    next
      case xs: True
      then have le: "linked ns (dn_next e) ys" "or_null (?idx ?hv) = n" "n \<notin> set ys" using cc hit(3) by auto
      have at: "node_at (node_set ns n None) q = (if q = n then None else node_at ns q)" for q by (rule node_at_set [OF hit(3)])
      have ln: "linked (node_set ns n None) (dn_next e) ys"
        by (rule linked_cong [OF _ le(1)]) (use at le(3) in auto)
      have R: "map_option (\<lambda>d. (dn_key d, dn_value d)) (node_at (node_set ns n None) q) =
          (if q = n then None else map_option (\<lambda>d. (dn_key d, dn_value d)) (node_at ns q))" for q using at [of q] by simp
      have sb: "store_bytes (node_set ns n None) + entry_bytes (Some e) = store_bytes ns"
        using store_bytes_set [OF hit(3), of None] by (simp add: entry_bytes_def)
      have nx: "node_at (node_set ns n None) q = node_at ns q" if "q \<notin> set (C (?hf (dn_key e)))" for q
        using that at [of q] Cn by simp
      show ?thesis
      proof (cases "dn_next e = 0")
        case False
        obtain ok st1 where ins: "htree_insert ?hv (dn_next e) (di_index d, h) = Some (ok, st1)"
          "htree_inv a (base + store_bytes ns) st1"
          "htree_content st1 = (if ok then ?idx(?hv \<mapsto> dn_next e) else ?idx)" "?idx ?hv \<noteq> None \<longrightarrow> ok"
          "ht_oom (di_index d) \<longrightarrow> ht_oom (fst st1)"
          using htree_insert_spec [OF C(2), of ?hv "dn_next e"] by auto
        obtain i1 h1 where st1: "st1 = (i1, h1)" by (cases st1)
        have ok: "ok" using ins(4) cc(2) by blast
        have del: "dict_delete key s = Some (dict_drop n e (d\<lparr>di_index := i1\<rparr>) ns h1)"
          using hit(1,3) n0 xs False ins(1) st1 ok by (simp add: dict_delete_def s)
        have ch: "chains_ok ?hf (htree_content (i1, h1)) (node_set ns n None) (C(?hf (dn_key e) := xs @ ys))"
        proof (rule remove_chains [OF C(1) hit(3) Cn R])
          show "linked (node_set ns n None) (or_null (htree_content (i1, h1) (?hf (dn_key e)))) (xs @ ys)"
            using ln ins(3) ok st1 xs hit(4) by simp
          show "(htree_content (i1, h1) (?hf (dn_key e)) = None) = (xs @ ys = [])"
            using ins(3) ok st1 xs hit(4) False le(1) by (cases ys) auto
          show "htree_content (i1, h1) h' = ?idx h'" if "h' \<noteq> ?hf (dn_key e)" for h'
            using that ins(3) ok st1 hit(4) by simp
        qed (rule nx)
        show ?thesis by (rule finish [OF del _ R sb ch]) (use ins st1 in auto)
      next
        case True
        have ys: "ys = []" using le(1) True by (cases ys) auto
        obtain st1 where dl: "htree_delete ?hv (di_index d, h) = Some (or_null (?idx ?hv), st1)"
          "htree_inv a (base + store_bytes ns) st1" "htree_content st1 = ?idx(?hv := None)"
          "ht_oom (di_index d) \<longrightarrow> ht_oom (fst st1)"
          using htree_delete_spec [OF C(2), of ?hv] by auto
        obtain i1 h1 where st1: "st1 = (i1, h1)" by (cases st1)
        have del: "dict_delete key s = Some (dict_drop n e (d\<lparr>di_index := i1\<rparr>) ns h1)"
          using hit(1,3) n0 xs True dl(1) st1 by (simp add: dict_delete_def s)
        have ch: "chains_ok ?hf (htree_content (i1, h1)) (node_set ns n None) (C(?hf (dn_key e) := xs @ ys))"
        proof (rule remove_chains [OF C(1) hit(3) Cn R])
          show "linked (node_set ns n None) (or_null (htree_content (i1, h1) (?hf (dn_key e)))) (xs @ ys)"
            using ln dl(3) st1 xs ys hit(4) by simp
          show "(htree_content (i1, h1) (?hf (dn_key e)) = None) = (xs @ ys = [])"
            using dl(3) st1 xs ys hit(4) by simp
          show "htree_content (i1, h1) h' = ?idx h'" if "h' \<noteq> ?hf (dn_key e)" for h'
            using that dl(3) st1 hit(4) by simp
        qed (rule nx)
        show ?thesis by (rule finish [OF del _ R sb ch]) (use dl st1 in auto)
      qed
    qed
  qed
qed

interpretation dict: ptr_map_del dict_put dict_get dict_contains dict_len dict_content dict_oom "dict_inv a base" dict_delete for a base
proof (unfold_locales, goal_cases)
  case (1 s k v)
  then show ?case by (rule dict_put_spec)
next
  case (2 s k)
  obtain d ns h where s: "s = (d, ns, h)" by (metis prod_cases3)
  obtain n q where "dict_find d ns h k (di_hash d (di_seed d) k) = Some (n, q)" "n = 0 \<Longrightarrow> store_content ns k = None"
    "n \<noteq> 0 \<Longrightarrow> \<exists>e. node_at ns n = Some e \<and> store_content ns k = Some (dn_value e)"
    using dict_find_content [OF 2 [unfolded s], of k] by blast
  then show ?case by (cases "n = 0") (auto simp: s dict_get_def dict_content_def)
next
  case (3 s k)
  obtain d ns h where s: "s = (d, ns, h)" by (metis prod_cases3)
  obtain n q where "dict_find d ns h k (di_hash d (di_seed d) k) = Some (n, q)" "n = 0 \<Longrightarrow> store_content ns k = None"
    "n \<noteq> 0 \<Longrightarrow> \<exists>e. node_at ns n = Some e \<and> store_content ns k = Some (dn_value e)"
    using dict_find_content [OF 3 [unfolded s], of k] by blast
  then show ?case by (cases "n = 0") (auto simp: s dict_contains_def dict_content_def)
next
  case (4 s)
  then show ?case
    by (auto simp: dict_inv_def dict_len_def dict_content_def store_content_def finite_dom_map_of unat_of_nat)
next
  case (5 s k)
  then show ?case by (rule dict_delete_spec)
qed

section \<open>Clearing and freeing\<close>

lemma chain_free_spec:
  "linked ns p as \<Longrightarrow> distinct as \<Longrightarrow> accounts (h a) (s + store_bytes ns) \<Longrightarrow>
    \<exists>ns1 h1. chain_free a p ns h = Some (ns1, h1) \<and> (\<forall>q. node_at ns1 q = (if q \<in> set as then None else node_at ns q)) \<and>
      accounts (h1 a) (s + store_bytes ns1)"
proof (induction as arbitrary: p ns h)
  case Nil
  then show ?case by (simp add: chain_free.simps)
next
  case (Cons b as)
  obtain e where e: "p = b" "node_at ns b = Some e" "linked ns (dn_next e) as" using Cons.prems(1) by auto
  let ?ns = "node_set ns b None" and ?h = "h_release a True (node_bytes (key_len (dn_key e))) h"
  have at: "node_at ?ns q = (if q = b then None else node_at ns q)" for q by (rule node_at_set [OF e(2)])
  have "linked ?ns (dn_next e) as" by (rule linked_cong [OF _ e(3)]) (use at Cons.prems(2) in auto)
  moreover have "distinct as" using Cons.prems(2) by simp
  moreover have "accounts (?h a) (s + store_bytes ?ns)"
  proof (rule heap.rel_add)
    have "store_bytes ns = store_bytes ?ns + unat (node_bytes (key_len (dn_key e)))"
      using store_bytes_set [OF e(2), of None] by (simp add: entry_bytes_def)
    then show "accounts (h a) (s + store_bytes ?ns + paid True (node_bytes (key_len (dn_key e))))"
      using Cons.prems(3) by (simp add: paid_def add.assoc)
  qed
  ultimately obtain ns1 h1 where r: "chain_free a (dn_next e) ?ns ?h = Some (ns1, h1)"
    "\<forall>q. node_at ns1 q = (if q \<in> set as then None else node_at ?ns q)" "accounts (h1 a) (s + store_bytes ns1)"
    using Cons.IH by blast
  have "chain_free a p ns h = Some (ns1, h1)"
    using e r(1) node_at_valid [OF e(2)] by (subst chain_free.simps) simp
  then show ?case using r at by auto
qed

lemma clear_loop_spec:
  "iter_ok (di_index d) it \<Longrightarrow> distinct (map fst (pending (it_stack it))) \<Longrightarrow> di_a d = a \<Longrightarrow>
    (\<forall>(k, p) \<in> set (pending (it_stack it)). linked ns p (C k) \<and> distinct (C k)) \<Longrightarrow>
    (\<forall>k l q. k \<noteq> l \<longrightarrow> q \<in> set (C k) \<longrightarrow> q \<notin> set (C l)) \<Longrightarrow> accounts (h a) (s + store_bytes ns) \<Longrightarrow>
    \<exists>ns1 h1. clear_loop d it ns h = Some (ns1, h1) \<and>
      (\<forall>q. node_at ns1 q = (if \<exists>k \<in> fst ` set (pending (it_stack it)). q \<in> set (C k) then None else node_at ns q)) \<and>
      accounts (h1 a) (s + store_bytes ns1)"
proof (induction "pending (it_stack it)" arbitrary: it ns h)
  case Nil
  obtain it1 where "htree_next (di_index d) it = Some (None, it1)"
    using htree_next_spec [OF Nil.prems(1)] Nil.hyps by auto
  then have "clear_loop d it ns h = Some (ns, h)" by (subst clear_loop.simps) simp
  then show ?case using Nil by (simp flip: Nil.hyps)
next
  case (Cons x xs)
  obtain k p where x: "x = (k, p)" by (cases x)
  have pe: "pending (it_stack it) = (k, p) # xs" using Cons.hyps(2) x by simp
  obtain it1 where it1: "htree_next (di_index d) it = Some (Some (k, p), it1)" "iter_ok (di_index d) it1"
    "pending (it_stack it1) = xs"
    using htree_next_spec [OF Cons.prems(1)] pe by auto
  have lk: "linked ns p (C k)" "distinct (C k)" using Cons.prems(4) pe by auto
  obtain ns1 h1 where cf: "chain_free a p ns h = Some (ns1, h1)"
    "\<forall>q. node_at ns1 q = (if q \<in> set (C k) then None else node_at ns q)" "accounts (h1 a) (s + store_bytes ns1)"
    using chain_free_spec [where h = h and a = a and s = s, OF lk] Cons.prems(6) by blast
  have kx: "k \<notin> fst ` set xs" using Cons.prems(2) pe by auto
  have "\<exists>ns2 h2. clear_loop d it1 ns1 h1 = Some (ns2, h2) \<and>
      (\<forall>q. node_at ns2 q = (if \<exists>k \<in> fst ` set (pending (it_stack it1)). q \<in> set (C k) then None else node_at ns1 q)) \<and>
      accounts (h2 a) (s + store_bytes ns2)"
  proof (rule Cons.hyps(1) [where it = it1 and ns = ns1 and h = h1])
    show "distinct (map fst (pending (it_stack it1)))" using Cons.prems(2) pe it1(3) by simp
    have "linked ns1 r (C l) \<and> distinct (C l)" if l: "(l, r) \<in> set xs" for l r
    proof -
      have ne: "l \<noteq> k" using kx l by force
      have "linked ns r (C l)" "distinct (C l)" using Cons.prems(4) l pe by auto
      moreover have "node_at ns1 q = node_at ns q" if "q \<in> set (C l)" for q
        using cf(2) Cons.prems(5) ne that by metis
      ultimately show ?thesis using linked_cong [of "C l" ns1 ns r] by simp
    qed
    then show "\<forall>(k, p) \<in> set (pending (it_stack it1)). linked ns1 p (C k) \<and> distinct (C k)" unfolding it1(3) by blast
  qed (use it1 Cons.prems(3,5) cf(3) in simp_all)
  then obtain ns2 h2 where r: "clear_loop d it1 ns1 h1 = Some (ns2, h2)"
    "\<forall>q. node_at ns2 q = (if \<exists>k \<in> fst ` set xs. q \<in> set (C k) then None else node_at ns1 q)"
    "accounts (h2 a) (s + store_bytes ns2)" unfolding it1(3) by blast
  have "clear_loop d it ns h = clear_loop d it1 ns1 h1"
    using it1(1) cf(1) Cons.prems(3) by (subst clear_loop.simps) simp
  moreover have "node_at ns2 q = (if \<exists>k \<in> fst ` set (pending (it_stack it)). q \<in> set (C k) then None else node_at ns q)" for q
    unfolding pe using r(2) cf(2) by simp
  ultimately show ?case using r(1,3) by (intro exI [of _ ns2] exI [of _ h2]) simp
qed

lemma empty_store: "(\<And>q. node_at ns q = None) \<Longrightarrow> store_bytes ns = 0 \<and> store_content ns = (\<lambda>_. None)"
proof -
  assume n: "\<And>q. node_at ns q = None"
  have x: "x = None" if m: "x \<in> set ns" for x
  proof -
    obtain i where "i < length ns" "x = ns ! i" using m by (metis in_set_conv_nth)
    then show ?thesis using n [of "Suc i"] by (simp add: node_at_def)
  qed
  have f: "filter (\<lambda>x. x \<noteq> None) ns = []" unfolding filter_empty_conv
  proof
    fix y assume "y \<in> set ns"
    from x [OF this] show "\<not> y \<noteq> None" by simp
  qed
  have "sum_list (map entry_bytes ds) = 0" if "set ds \<subseteq> {None}" for ds
    using that by (induction ds) (auto simp: entry_bytes_def)
  moreover have "set ns \<subseteq> {None}"
  proof
    fix y assume "y \<in> set ns"
    from x [OF this] show "y \<in> {None}" by simp
  qed
  ultimately have "store_bytes ns = 0" unfolding store_bytes_def by blast
  moreover have "store_content ns = (\<lambda>_. None)" unfolding store_content_def live_nodes_def f by simp
  ultimately show ?thesis by blast
qed

lemma dict_clear_spec:
  assumes "dict_inv a base s"
  shows "\<exists>s1. dict_clear s = Some s1 \<and> dict_inv a base s1 \<and> dict_content s1 = (\<lambda>_. None) \<and>
    htree_inv a base (di_index (fst s1), snd (snd s1))"
proof -
  obtain d ns h where s: "s = (d, ns, h)" by (metis prod_cases3)
  obtain C where C: "chains_ok (di_hash d (di_seed d)) (htree_content (di_index d, h)) ns C"
    "htree_inv a (base + store_bytes ns) (di_index d, h)" "uniq ns" and d: "di_a d = a"
    using assms by (auto simp: dict_inv_def s)
  let ?t = "di_index d"
  let ?s = "base + 136 * nodes (ht_root ?t)"
  have so: "slot_ok 0 0 (ht_root ?t)" and ac: "accounts (h a) (?s + store_bytes ns)"
    using C(2) by (auto simp: htree_inv_def ac_simps)
  note ii = iter_init_ok [OF so]
  have idx: "htree_content (?t, h) k = Some p" if "(k, p) \<in> set (leaves (ht_root ?t))" for k p
    using leaves_distinct [OF so] that by (simp add: htree_content_simp)
  have cc: "linked ns (or_null (htree_content (?t, h) k)) (C k)" "(htree_content (?t, h) k = None) = (C k = [])" "distinct (C k)"
    "\<And>q. q \<in> set (C k) \<longleftrightarrow> (\<exists>e. node_at ns q = Some e \<and> di_hash d (di_seed d) (dn_key e) = k)" for k
    using C(1) by (simp_all add: chains_ok_def)
  have "\<exists>ns1 h1. clear_loop d (htree_iter_init ?t) ns h = Some (ns1, h1) \<and>
      (\<forall>q. node_at ns1 q = (if \<exists>k \<in> fst ` set (pending (it_stack (htree_iter_init ?t))). q \<in> set (C k) then None else node_at ns q)) \<and>
      accounts (h1 a) (?s + store_bytes ns1)"
  proof (rule clear_loop_spec [where C = C])
    show "distinct (map fst (pending (it_stack (htree_iter_init ?t))))" unfolding ii(2) using leaves_distinct [OF so] by simp
    have "linked ns p (C k) \<and> distinct (C k)" if "(k, p) \<in> set (leaves (ht_root ?t))" for k p
      using cc(1,3) [of k] idx [OF that] by simp
    then show "\<forall>(k, p) \<in> set (pending (it_stack (htree_iter_init ?t))). linked ns p (C k) \<and> distinct (C k)" unfolding ii(2) by blast
    show "\<forall>k l q. k \<noteq> l \<longrightarrow> q \<in> set (C k) \<longrightarrow> q \<notin> set (C l)" using cc(4) by auto
  qed (use ii(1) d ac in simp_all)
  then obtain ns1 h1 where r: "clear_loop d (htree_iter_init ?t) ns h = Some (ns1, h1)"
    "\<forall>q. node_at ns1 q = (if \<exists>k \<in> fst ` set (leaves (ht_root ?t)). q \<in> set (C k) then None else node_at ns q)"
    "accounts (h1 a) (?s + store_bytes ns1)" unfolding ii(2) by blast
  have none: "node_at ns1 q = None" for q
  proof (cases "node_at ns q")
    case None
    then show ?thesis using r(2) by simp
  next
    case (Some e)
    let ?k = "di_hash d (di_seed d) (dn_key e)"
    have q: "q \<in> set (C ?k)" using cc(4) Some by blast
    then have "htree_content (?t, h) ?k \<noteq> None" using cc(2) [of ?k] by auto
    then have "?k \<in> fst ` set (leaves (ht_root ?t))" by (simp add: htree_content_simp map_of_eq_None_iff)
    then show ?thesis using r(2) q by auto
  qed
  note es = empty_store [OF none]
  have "htree_inv a base (?t, h1)" using C(2) r(3) es by (simp add: htree_inv_def htree_content_simp)
  from htree_free_spec(2) [OF this]
  have cl: "htree_inv a base (htree_clear (?t, h1))" "htree_content (htree_clear (?t, h1)) = (\<lambda>_. None)"
    "accounts (snd (htree_clear (?t, h1)) a) base" by auto
  obtain idx h2 where c: "htree_clear (?t, h1) = (idx, h2)" by fastforce
  let ?d = "d\<lparr>di_index := idx, di_count := 0, di_gen := di_gen d + 1\<rparr>"
  have "dict_clear s = Some (?d, ns1, h2)" using r(1) c by (simp add: dict_clear_def s)
  moreover have "dict_inv a base (?d, ns1, h2)"
  proof -
    have "chains_ok (di_hash d (di_seed d)) (htree_content (idx, h2)) ns1 (\<lambda>_. [])"
      using cl(2) c none by (simp add: chains_ok_def)
    moreover have "uniq ns1" using none by (simp add: uniq_def)
    ultimately show ?thesis unfolding dict_inv_def using cl c es d by auto
  qed
  ultimately show ?thesis using es cl c by (intro exI [of _ "(?d, ns1, h2)"]) (simp add: dict_content_def)
qed

lemma dict_free_spec:
  assumes "dict_inv a base s"
  shows "\<exists>s1. dict_free s = Some s1 \<and> accounts (snd (snd s1) a) base"
proof -
  obtain d ns h where c: "dict_clear s = Some (d, ns, h)" "htree_inv a base (di_index d, h)"
    using dict_clear_spec [OF assms] by auto
  obtain idx h1 where f: "htree_free (di_index d, h) = (idx, h1)" by fastforce
  have "dict_free s = Some (d\<lparr>di_index := idx, di_oom := False\<rparr>, ns, h1)" using c(1) f by (simp add: dict_free_def)
  then show ?thesis using htree_free_spec(1) [OF c(2)] f by simp
qed

lemma dict_init_spec:
  "accounts (h a) base \<Longrightarrow> dict_inv a base (dict_init_hashed a hash seed, [], h) \<and> dict_content (dict_init_hashed a hash seed, [], h) = (\<lambda>_. None)"
proof -
  assume "accounts (h a) base"
  then have "htree_inv a base (htree_init_a a, h)" "htree_content (htree_init_a a, h) = (\<lambda>_. None)"
    using htree_init_spec by blast+
  moreover have "chains_ok hf (\<lambda>_. None) [] (\<lambda>_. [])" for hf by (simp add: chains_ok_def node_at_def)
  ultimately show ?thesis
    by (auto simp: dict_inv_def dict_content_def dict_init_hashed_def store_content_def live_nodes_def store_bytes_def uniq_def node_at_def)
qed

lemma dict_handle:
  assumes "accounts (h a) base" and "dict_create_a a seed h = (Some d, h1)"
  shows "dict_inv a (base + 72) (d, [], h1)"
proof -
  have al: "h_alloc a 72 h = (True, h1)" "d = dict_init_hashed a None seed"
    using assms(2) by (auto simp: dict_create_a_def split: prod.splits if_splits)
  have "accounts (h1 a) (base + 72)" using heap.al_acct [OF al(1) assms(1)] by simp
  then show ?thesis using dict_init_spec al(2) by simp
qed

lemma dict_destroy_spec:
  assumes "dict_inv a (base + 72) (d, ns, h)"
  shows "\<exists>ns1 h1. dict_destroy (Some d) ns h = Some (ns1, h1) \<and> accounts (h1 a) base"
proof -
  obtain s1 where s1: "dict_free (d, ns, h) = Some s1" "accounts (snd (snd s1) a) (base + 72)"
    using dict_free_spec [OF assms] by blast
  obtain d2 ns1 h1 where e: "s1 = (d2, ns1, h1)" by (metis prod_cases3)
  have "accounts (h1 a) (base + paid True 72)" using s1(2) e by simp
  then have "accounts (h_release a True 72 h1 a) base" by (rule heap.rel_add)
  then show ?thesis using s1(1) e assms by (simp add: dict_destroy_def dict_inv_def)
qed

abbreviation dict_run :: "bytes mop list \<Rightarrow> dstate \<Rightarrow> (mres list \<times> dstate) option" where
  "dict_run \<equiv> run_maps (map_step dict_put dict_get dict_contains dict_len dict_delete)"

text \<open>C25: the dictionary refines a partial function on byte strings, whatever the hash: a collision never answers
  with another key's value, and no entry is lost when a chain is unlinked. For any hash function, any
  seed, any allocator whose books are straight and any program of put, get, contains, len and delete
  calls, every call returns without following a dangling pointer and answers as the partial function does
  from the empty map; a put is refused only with \<open>oom\<close> set for good; and \<open>bbq_dict_free\<close> returns and gives
  back exactly the bytes taken, the entries, their keys and the tree.
\<close>

theorem dict_refines:
  assumes "accounts (h a) base"
  shows "\<exists>rs s c s1. dict_run ops (dict_init_hashed a hash seed, [], h) = Some (rs, s) \<and> map_allows_all ops rs (\<lambda>_. None) c \<and>
    (\<not> dict_oom s \<longrightarrow> all_taken ops rs) \<and> dict_free s = Some s1 \<and> accounts (snd (snd s1) a) base"
proof -
  have i: "dict_inv a base (dict_init_hashed a hash seed, [], h)" "dict_content (dict_init_hashed a hash seed, [], h) = (\<lambda>_. None)"
    using dict_init_spec assms by blast+
  show ?thesis using dict.run_del_ok [OF i(1), of ops] i(2) dict_free_spec by metis
qed

lemma dict_refines_witness:
  "\<exists>rs s c s1. dict_run [MPut [97, 114] 1, MPut [99, 48] 2, MDel [97, 114], MGet [99, 48], MLen]
      (dict_init_hashed 0 (Some (\<lambda>_ _. 7)) 5, [], \<lambda>_. Libc (\<lambda>_. True) 0 0) = Some (rs, s) \<and>
    map_allows_all [MPut [97, 114] 1, MPut [99, 48] 2, MDel [97, 114], MGet [99, 48 :: u8], MLen] rs (\<lambda>_. None) c \<and>
    (\<not> dict_oom s \<longrightarrow> all_taken [MPut [97, 114] 1, MPut [99, 48] 2, MDel [97, 114], MGet [99, 48 :: u8], MLen] rs) \<and>
    dict_free s = Some s1 \<and> accounts (snd (snd s1) 0) 0"
  by (rule dict_refines [of _ 0 0]) simp

end
