(* ===== verification/Buf.thy ===== *)
theory Buf
  imports Alloc
begin

text \<open>
  \<open>crt/bbq_buf.h\<close> and \<open>crt/bbq_buf.c\<close>: the growable byte buffer. The block is the list of its \<open>cap\<close> cells,
  \<open>None\<close> for one never written; a NULL block is the empty list. A \<open>memcpy\<close> outside the block and a
  doubling loop that does not end are \<open>None\<close>.
\<close>

record buf =
  bf_data :: "u8 option list"
  bf_len :: size_t
  bf_cap :: size_t
  bf_a :: nat
  bf_oom :: bool

type_synonym bstate = "buf \<times> heap"

definition BUF_MIN_CAP :: size_t where
  "BUF_MIN_CAP = 64"

definition buf_init_a :: "nat \<Rightarrow> buf" where
  "buf_init_a a = \<lparr>bf_data = [], bf_len = 0, bf_cap = 0, bf_a = a, bf_oom = False\<rparr>"

definition buf_free :: "bstate \<Rightarrow> bstate" where
  "buf_free s = (case s of (b, h) \<Rightarrow>
     (b\<lparr>bf_data := [], bf_len := 0, bf_cap := 0, bf_oom := False\<rparr>, h_release (bf_a b) (bf_data b \<noteq> []) (bf_cap b) h))"

definition buf_clear :: "bstate \<Rightarrow> bstate" where
  "buf_clear s = (case s of (b, h) \<Rightarrow> (b\<lparr>bf_len := 0\<rparr>, h))"

definition buf_reserve :: "size_t \<Rightarrow> bstate \<Rightarrow> (bool \<times> bstate) option" where
  "buf_reserve want s = (case s of (b, h) \<Rightarrow>
     if bf_oom b then Some (False, s)
     else if want \<le> bf_cap b then Some (True, s)
     else case double_to (if bf_cap b \<noteq> 0 then bf_cap b else BUF_MIN_CAP) want of
       None \<Rightarrow> None
     | Some newcap \<Rightarrow>
         (case h_resize (bf_a b) (bf_data b \<noteq> []) (bf_cap b) newcap h of
            (False, h1) \<Rightarrow> Some (False, b\<lparr>bf_oom := True\<rparr>, h1)
          | (True, h1) \<Rightarrow> Some (True, b\<lparr>bf_data := recell (unat newcap) (bf_data b), bf_cap := newcap\<rparr>, h1)))"

definition buf_append :: "bytes \<Rightarrow> bstate \<Rightarrow> (bool \<times> bstate) option" where
  "buf_append src s = (case s of (b, h) \<Rightarrow>
     let n = word_of_nat (length src) in
     if n = 0 then Some (\<not> bf_oom b, s)
     else if bf_oom b then Some (False, s)
     else if SIZE_MAX - bf_len b < n then Some (False, b\<lparr>bf_oom := True\<rparr>, h)
     else case buf_reserve (bf_len b + n) s of
       None \<Rightarrow> None
     | Some (False, s1) \<Rightarrow> Some (False, s1)
     | Some (True, b1, h1) \<Rightarrow>
         map_option (\<lambda>d. (True, b1\<lparr>bf_data := d, bf_len := bf_len b1 + n\<rparr>, h1)) (put_cells (unat (bf_len b1)) src (bf_data b1)))"

definition buf_append_byte :: "u8 \<Rightarrow> bstate \<Rightarrow> (bool \<times> bstate) option" where
  "buf_append_byte x s = buf_append [x] s"

section \<open>What an append does\<close>

definition buf_content :: "bstate \<Rightarrow> u8 option list" where
  "buf_content s = take (unat (bf_len (fst s))) (bf_data (fst s))"

definition buf_inv :: "nat \<Rightarrow> nat \<Rightarrow> bstate \<Rightarrow> bool" where
  "buf_inv a base s = (case s of (b, h) \<Rightarrow>
     bf_a b = a \<and> length (bf_data b) = unat (bf_cap b) \<and> bf_len b \<le> bf_cap b \<and> accounts (h a) (base + unat (bf_cap b)))"

lemma buf_reserve_spec:
  assumes "buf_inv a base s"
  shows "\<exists>ok s1. buf_reserve want s = Some (ok, s1) \<and> buf_inv a base s1 \<and> buf_content s1 = buf_content s \<and>
    bf_len (fst s1) = bf_len (fst s) \<and> (ok \<longrightarrow> want \<le> bf_cap (fst s1)) \<and> bf_oom (fst s1) = (\<not> ok)"
proof -
  obtain b h where s: "s = (b, h)" by (cases s)
  have i: "bf_a b = a" "length (bf_data b) = unat (bf_cap b)" "bf_len b \<le> bf_cap b" "accounts (h a) (base + unat (bf_cap b))"
    using assms by (auto simp: s buf_inv_def)
  show ?thesis
  proof (cases "bf_oom b \<or> want \<le> bf_cap b")
    case True
    then show ?thesis using assms by (cases "bf_oom b") (auto simp: buf_reserve_def s)
  next
    case False
    let ?from = "if bf_cap b \<noteq> 0 then bf_cap b else BUF_MIN_CAP"
    have "?from \<noteq> 0" by (simp add: BUF_MIN_CAP_def)
    then obtain r where r: "double_to ?from want = Some r" "want \<le> r" "?from \<le> r"
      using double_to_terminates by blast
    obtain ok h1 where z: "h_resize (bf_a b) (bf_data b \<noteq> []) (bf_cap b) r h = (ok, h1)" by fastforce
    have nz: "r \<noteq> 0" using r(2) False by auto
    have cap: "bf_cap b \<le> r" using r(3) by (cases "bf_cap b = 0") simp_all
    have had: "paid (bf_data b \<noteq> []) (bf_cap b) = unat (bf_cap b)" using i(2) by (auto simp: paid_def)
    have ac: "accounts (h1 a) (if ok then base + unat r else base + unat (bf_cap b))"
    proof -
      have "accounts (h (bf_a b)) (base + paid (bf_data b \<noteq> []) (bf_cap b))" using i(1,4) had by simp
      from heap.rsz_any [OF z this nz] show ?thesis using had i(1) by (cases ok) simp_all
    qed
    show ?thesis
    proof (cases ok)
      case F: False
      then have "buf_reserve want s = Some (False, b\<lparr>bf_oom := True\<rparr>, h1)" using False r z by (simp add: buf_reserve_def s)
      then show ?thesis using i ac F
        by (intro exI [of _ False] exI [of _ "(b\<lparr>bf_oom := True\<rparr>, h1)"]) (simp add: s buf_inv_def buf_content_def)
    next
      case True
      let ?b = "b\<lparr>bf_data := recell (unat r) (bf_data b), bf_cap := r\<rparr>"
      have "unat (bf_len b) \<le> unat r" using i(3) cap by (simp add: word_le_nat_alt)
      then have "take (unat (bf_len b)) (recell (unat r) (bf_data b)) = take (unat (bf_len b)) (bf_data b)"
        using i(2,3) by (intro take_recell) (simp_all add: word_le_nat_alt)
      moreover have "buf_reserve want s = Some (True, ?b, h1)" using False r z True by (simp add: buf_reserve_def s)
      ultimately show ?thesis using i ac True r(2) cap False
        by (intro exI [of _ True] exI [of _ "(?b, h1)"]) (auto simp: s buf_inv_def buf_content_def)
    qed
  qed
qed

lemma buf_append_spec:
  assumes "buf_inv a base s" and "length src < 2 ^ 64"
  shows "\<exists>ok s1. buf_append src s = Some (ok, s1) \<and> buf_inv a base s1 \<and> bf_oom (fst s1) = (\<not> ok) \<and>
    (bf_oom (fst s) \<longrightarrow> \<not> ok) \<and> buf_content s1 = (if ok then buf_content s @ map Some src else buf_content s)"
proof -
  obtain b h where s: "s = (b, h)" by (cases s)
  let ?n = "word_of_nat (length src) :: size_t"
  have n: "unat ?n = length src" using assms(2) by (rule unat_of_nat_64)
  show ?thesis
  proof (cases "src = []")
    case True
    then show ?thesis using assms(1) by (auto simp: buf_append_def s)
  next
    case ne: False
    then have nz: "?n \<noteq> 0" using n by (metis length_0_conv unat_0)
    show ?thesis
    proof (cases "bf_oom b")
      case True
      then show ?thesis using nz assms(1) by (intro exI [of _ False] exI [of _ s]) (simp add: buf_append_def s)
    next
      case good: False
      show ?thesis
      proof (cases "SIZE_MAX - bf_len b < ?n")
        case True
        then show ?thesis using nz good assms(1)
          by (intro exI [of _ False] exI [of _ "(b\<lparr>bf_oom := True\<rparr>, h)"]) (simp add: buf_append_def s Let_def buf_inv_def buf_content_def)
      next
        case False
        then have "unat ?n \<le> unat SIZE_MAX - unat (bf_len b)" by (simp add: not_less word_le_nat_alt unat_sub_le [OF le_SIZE_MAX])
        then have fit: "unat (bf_len b + ?n) = unat (bf_len b) + length src"
          using n unat_lt64 [of "bf_len b"] by (subst unat_add_no_wrap) simp_all
        obtain ok s1 where r: "buf_reserve (bf_len b + ?n) s = Some (ok, s1)" "buf_inv a base s1" "buf_content s1 = buf_content s"
          "bf_len (fst s1) = bf_len b" "ok \<longrightarrow> bf_len b + ?n \<le> bf_cap (fst s1)" "bf_oom (fst s1) = (\<not> ok)"
          using buf_reserve_spec [OF assms(1)] s by fastforce
        obtain b1 h1 where s1: "s1 = (b1, h1)" by (cases s1)
        show ?thesis
        proof (cases ok)
          case F: False
          then show ?thesis using nz good False r s
            by (intro exI [of _ False] exI [of _ s1]) (simp add: buf_append_def Let_def)
        next
          case True
          have room: "unat (bf_len b) + length src \<le> length (bf_data b1)"
            using r(2,5) True s1 fit by (simp add: buf_inv_def word_le_nat_alt)
          let ?d = "blit (unat (bf_len b)) (map Some src) (bf_data b1)"
          let ?b = "b1\<lparr>bf_data := ?d, bf_len := bf_len b + ?n\<rparr>"
          have "buf_append src s = Some (True, ?b, h1)"
            using nz good False r(1,4) s s1 True room by (simp add: buf_append_def Let_def put_cells_def)
          moreover have "buf_inv a base (?b, h1)"
            using r(2,5) True s1 room by (simp add: buf_inv_def)
          moreover have "buf_content (?b, h1) = buf_content s @ map Some src"
            using take_blit_end [of "unat (bf_len b)" "map Some src" "bf_data b1"] room fit r(3,4) s s1
            by (simp add: buf_content_def)
          ultimately show ?thesis using r(6) True good s s1 by (intro exI [of _ True] exI [of _ "(?b, h1)"]) simp
        qed
      qed
    qed
  qed
qed

lemma buf_init_ok: "accounts (h a) base \<Longrightarrow> buf_inv a base (buf_init_a a, h)"
  by (simp add: buf_inv_def buf_init_a_def)

lemma buf_free_ok:
  assumes "buf_inv a base s"
  shows "buf_inv a base (buf_free s)" and "accounts (snd (buf_free s) a) base"
proof -
  obtain b h where s: "s = (b, h)" by (cases s)
  have i: "bf_a b = a" "length (bf_data b) = unat (bf_cap b)" "accounts (h a) (base + unat (bf_cap b))"
    using assms by (auto simp: s buf_inv_def)
  have "paid (bf_data b \<noteq> []) (bf_cap b) = unat (bf_cap b)" using i(2) by (auto simp: paid_def)
  then have "accounts (h_release a (bf_data b \<noteq> []) (bf_cap b) h a) base" using i(3) by (intro heap.rel_add) simp
  then show "buf_inv a base (buf_free s)" "accounts (snd (buf_free s) a) base"
    using i(1) by (simp_all add: s buf_free_def buf_inv_def)
qed

text \<open>A byte at a time the buffer is a sequence that poisons.\<close>

interpretation buf: push_seq "\<lambda>x s. map_option snd (buf_append_byte x s)" "\<lambda>s. map the (buf_content s)" "\<lambda>s. bf_oom (fst s)" "buf_inv a base"
  for a base
proof (unfold_locales, goal_cases)
  case (1 s x)
  obtain ok s1 where a: "buf_append [x] s = Some (ok, s1)" "buf_inv a base s1" "bf_oom (fst s1) = (\<not> ok)"
    "bf_oom (fst s) \<longrightarrow> \<not> ok" "buf_content s1 = (if ok then buf_content s @ map Some [x] else buf_content s)"
    using buf_append_spec [OF 1, of "[x]"] by auto
  then show ?case by (intro exI [of _ s1]) (cases ok; simp add: buf_append_byte_def)
qed

fun buf_appends :: "bytes list \<Rightarrow> bstate \<Rightarrow> (bool list \<times> bstate) option" where
  "buf_appends [] s = Some ([], s)"
| "buf_appends (x # xs) s = (case buf_append x s of
      None \<Rightarrow> None
    | Some (ok, s1) \<Rightarrow> map_option (\<lambda>(oks, s2). (ok # oks, s2)) (buf_appends xs s1))"

lemma buf_appends_spec:
  "buf_inv a base s \<Longrightarrow> \<forall>x \<in> set xs. length x < 2 ^ 64 \<Longrightarrow>
    \<exists>k s1. buf_appends xs s = Some (replicate k True @ replicate (length xs - k) False, s1) \<and> k \<le> length xs \<and> buf_inv a base s1 \<and>
      buf_content s1 = buf_content s @ map Some (concat (take k xs)) \<and> (bf_oom (fst s) \<longrightarrow> k = 0) \<and>
      (bf_oom (fst s1) \<longleftrightarrow> bf_oom (fst s) \<or> k < length xs)"
proof (induction xs arbitrary: s)
  case Nil
  then show ?case by auto
next
  case (Cons x xs)
  obtain ok s1 where a: "buf_append x s = Some (ok, s1)" "buf_inv a base s1" "bf_oom (fst s1) = (\<not> ok)"
    "bf_oom (fst s) \<longrightarrow> \<not> ok" "buf_content s1 = (if ok then buf_content s @ map Some x else buf_content s)"
    using buf_append_spec [OF Cons.prems(1), of x] Cons.prems(2) by auto
  have sm: "\<forall>y \<in> set xs. length y < 2 ^ 64" using Cons.prems(2) by simp
  obtain k s2 where r: "buf_appends xs s1 = Some (replicate k True @ replicate (length xs - k) False, s2)" "k \<le> length xs"
    "buf_inv a base s2" "buf_content s2 = buf_content s1 @ map Some (concat (take k xs))" "bf_oom (fst s1) \<longrightarrow> k = 0"
    "bf_oom (fst s2) \<longleftrightarrow> bf_oom (fst s1) \<or> k < length xs"
    using Cons.IH [OF a(2) sm] by (elim exE conjE) (rule that; assumption)
  show ?case
  proof (cases ok)
    case True
    then show ?thesis using a r by (intro exI [of _ "Suc k"] exI [of _ s2]) simp
  next
    case False
    then have "k = 0" using a(3) r(5) by simp
    then show ?thesis using a r False by (intro exI [of _ 0] exI [of _ s2]) simp
  qed
qed

text \<open>C30: the append contract of the byte buffer. For any allocator whose books are straight and any list of
  chunks, the appends return and never store outside the block: a first part of the chunks is taken, each
  answered true, and the buffer holds exactly their bytes; every later append, an empty one too, is
  answered false; the buffer is poisoned exactly when there is such a later one; and \<open>bbq_buf_free\<close>
  gives back exactly the bytes the buffer took.
\<close>

theorem buf_append_contract:
  assumes "accounts (h a) base" and "\<forall>x \<in> set xs. length x < 2 ^ 64"
  shows "\<exists>k s. buf_appends xs (buf_init_a a, h) = Some (replicate k True @ replicate (length xs - k) False, s) \<and> k \<le> length xs \<and>
    buf_content s = map Some (concat (take k xs)) \<and> (bf_oom (fst s) \<longleftrightarrow> k < length xs) \<and>
    accounts (snd (buf_free s) a) base"
proof -
  have c: "buf_content (buf_init_a a, h) = []" "bf_oom (fst (buf_init_a a, h)) = False"
    by (simp_all add: buf_content_def buf_init_a_def)
  have i: "buf_inv a base (buf_init_a a, h)" using assms(1) by (rule buf_init_ok)
  show ?thesis using buf_appends_spec [OF i assms(2)] buf_free_ok(2) unfolding c by (metis append_Nil)
qed

lemma buf_append_contract_witness:
  "\<exists>k s. buf_appends [[1, 2], [], [3]] (buf_init_a 0, \<lambda>_. Libc (\<lambda>_. True) 0 0) =
      Some (replicate k True @ replicate (length [[1, 2], [], [3 :: u8]] - k) False, s) \<and> k \<le> length [[1, 2], [], [3 :: u8]] \<and>
    buf_content s = map Some (concat (take k [[1, 2], [], [3]])) \<and> (bf_oom (fst s) \<longleftrightarrow> k < length [[1, 2], [], [3 :: u8]]) \<and>
    accounts (snd (buf_free s) 0) 0"
  by (rule buf_append_contract) simp_all

end
