(* ===== verification/Arena.thy ===== *)
theory Arena
  imports Alloc
begin

text \<open>
  \<open>crt/bbq_arena.h\<close> and \<open>crt/bbq_arena.c\<close>: the page-based bump allocator. The three parallel arrays are their
  first \<open>page_count\<close> elements; storing one more needs room below \<open>page_cap\<close>. A page is named by its index,
  so a block is a page and an offset in it. A store past an array is \<open>None\<close>.
\<close>

record arena =
  ar_sizes :: "size_t list"
  ar_spent :: "size_t list"
  ar_page_cap :: size_t
  ar_cur :: nat
  ar_page_size :: size_t
  ar_a :: nat
  ar_oom :: bool

type_synonym astate = "arena \<times> heap"

text \<open>A pointer into the arena: page and offset.\<close>

type_synonym aptr = "nat \<times> nat"

definition ARENA_DEFAULT_PAGE :: size_t where "ARENA_DEFAULT_PAGE = 4096"
definition ARENA_ALIGN :: size_t where "ARENA_ALIGN = 8"
definition ARENA_INIT_PAGES :: size_t where "ARENA_INIT_PAGES = 4"

section \<open>Operations\<close>

definition align_up :: "size_t \<Rightarrow> size_t \<Rightarrow> size_t option" where
  "align_up v a = (if SIZE_MAX - (a - 1) < v then None else Some ((v + a - 1) AND NOT (a - 1)))"

definition arena_init_a :: "size_t \<Rightarrow> nat \<Rightarrow> arena" where
  "arena_init_a page_size al =
     \<lparr>ar_sizes = [], ar_spent = [], ar_page_cap = 0, ar_cur = 0,
      ar_page_size = (if page_size = 0 then ARENA_DEFAULT_PAGE
        else case align_up page_size ARENA_ALIGN of None \<Rightarrow> ARENA_DEFAULT_PAGE | Some ps \<Rightarrow> ps),
      ar_a = al, ar_oom = False\<rparr>"

definition arena_capacity :: "arena \<Rightarrow> size_t" where
  "arena_capacity r = fold (\<lambda>s t. t + s) (ar_sizes r) 0"

definition arena_used :: "arena \<Rightarrow> size_t" where
  "arena_used r = fold (\<lambda>s t. t + s) (ar_spent r) 0"

text \<open>The number of pages is below the capacity of the tables, so it is a \<open>size_t\<close>.\<close>

definition grow_page_table :: "astate \<Rightarrow> bool \<times> astate" where
  "grow_page_table s = (case s of (r, h) \<Rightarrow>
     if length (ar_sizes r) < unat (ar_page_cap r) then (True, s)
     else let old = ar_page_cap r; newcap = (if old \<noteq> 0 then old * 2 else ARENA_INIT_PAGES) in
     if newcap < old then (False, s)
     else let nb_p = mem_array_bytes newcap 8; nb_s = mem_array_bytes newcap 8 in
     if nb_p = 0 \<or> nb_s = 0 then (False, s)
     else let ob_p = mem_array_bytes old 8; ob_s = mem_array_bytes old 8 in
     case h_alloc (ar_a r) nb_p h of (kp, h1) \<Rightarrow>
     case h_alloc (ar_a r) nb_s h1 of (ks, h2) \<Rightarrow>
     case h_alloc (ar_a r) nb_s h2 of (ku, h3) \<Rightarrow>
     if \<not> kp \<or> \<not> ks \<or> \<not> ku
     then (False, r, h_release (ar_a r) ku nb_s (h_release (ar_a r) ks nb_s (h_release (ar_a r) kp nb_p h3)))
     else (True, r\<lparr>ar_page_cap := newcap\<rparr>,
       h_release (ar_a r) (old \<noteq> 0) ob_s (h_release (ar_a r) (old \<noteq> 0) ob_s (h_release (ar_a r) (old \<noteq> 0) ob_p h3))))"

text \<open>The first page with room, or the number of pages.\<close>

fun find_page :: "size_t \<Rightarrow> size_t list \<Rightarrow> size_t list \<Rightarrow> nat \<Rightarrow> nat" where
  "find_page need (sz # szs) (us # uss) i = (if need \<le> sz - us then i else find_page need szs uss (Suc i))"
| "find_page need _ _ i = i"

text \<open>The end of \<open>bbq_arena_alloc\<close>: the block is taken from page \<open>i\<close>.\<close>

definition take_block :: "size_t \<Rightarrow> nat \<Rightarrow> astate \<Rightarrow> (aptr option \<times> astate) option" where
  "take_block need i s = (case s of (r, h) \<Rightarrow>
     if i < length (ar_spent r)
     then Some (Some (i, unat (ar_spent r ! i)), r\<lparr>ar_cur := i, ar_spent := (ar_spent r)[i := ar_spent r ! i + need]\<rparr>, h)
     else None)"

definition arena_alloc :: "size_t \<Rightarrow> astate \<Rightarrow> (aptr option \<times> astate) option" where
  "arena_alloc want s = (case s of (r, h) \<Rightarrow>
     if want = 0 then Some (None, s)
     else if ar_oom r then Some (None, s)
     else case align_up want ARENA_ALIGN of
       None \<Rightarrow> Some (None, r\<lparr>ar_oom := True\<rparr>, h)
     | Some need \<Rightarrow>
         if ar_cur r < length (ar_sizes r) \<and> need \<le> ar_sizes r ! ar_cur r - ar_spent r ! ar_cur r
         then take_block need (ar_cur r) s
         else let found = find_page need (ar_sizes r) (ar_spent r) 0 in
         if found < length (ar_sizes r) then take_block need found s
         else let alloc_size = (if ar_page_size r < need then need else ar_page_size r) in
         case grow_page_table s of
           (False, r1, h1) \<Rightarrow> Some (None, r1\<lparr>ar_oom := True\<rparr>, h1)
         | (True, r1, h1) \<Rightarrow>
             (case h_alloc (ar_a r1) alloc_size h1 of
                (False, h2) \<Rightarrow> Some (None, r1\<lparr>ar_oom := True\<rparr>, h2)
              | (True, h2) \<Rightarrow>
                  if length (ar_sizes r1) < unat (ar_page_cap r1)
                  then take_block need (length (ar_sizes r1))
                    (r1\<lparr>ar_sizes := ar_sizes r1 @ [alloc_size], ar_spent := ar_spent r1 @ [0]\<rparr>, h2)
                  else None))"

definition arena_reset :: "astate \<Rightarrow> astate" where
  "arena_reset s = (case s of (r, h) \<Rightarrow> (r\<lparr>ar_spent := map (\<lambda>_. 0) (ar_spent r), ar_cur := 0, ar_oom := False\<rparr>, h))"

definition arena_free :: "astate \<Rightarrow> astate" where
  "arena_free s = (case s of (r, h) \<Rightarrow>
     let h1 = fold (\<lambda>sz h. h_release (ar_a r) True sz h) (ar_sizes r) h;
         tb = mem_array_bytes (ar_page_cap r) 8; had = ar_page_cap r \<noteq> 0
     in (r\<lparr>ar_sizes := [], ar_spent := [], ar_page_cap := 0, ar_cur := 0, ar_oom := False\<rparr>,
         h_release (ar_a r) had tb (h_release (ar_a r) had tb (h_release (ar_a r) had tb h1))))"

section \<open>Alignment\<close>

lemma align_up_8:
  assumes "align_up v ARENA_ALIGN = Some n"
  shows "unat v \<le> unat n" and "8 dvd unat n" and "v \<noteq> 0 \<Longrightarrow> n \<noteq> 0"
proof -
  have fit: "\<not> SIZE_MAX - 7 < v" and n: "n = (v + 7) AND NOT 7"
    using assms by (auto simp: align_up_def ARENA_ALIGN_def add.commute split: if_splits)
  have "unat v + 7 < 2 ^ 64" using fit by (simp add: not_less word_le_nat_alt unat_sub_le [OF le_SIZE_MAX])
  then have v7: "unat (v + 7) = unat v + 7" by (subst unat_add_no_wrap) simp_all
  let ?w = "v + 7 :: size_t"
  have "NOT ?w AND (?w AND 7) = 0" by (simp add: and.assoc [symmetric])
  then have "?w - (?w AND 7) = ?w AND NOT (?w AND 7)" by (rule disjunctive_diff_eq_and_not)
  also have "\<dots> = n" unfolding n by (simp add: bit_eq_iff bit_simps) blast
  also have "?w AND 7 = take_bit 3 ?w" by (simp add: take_bit_eq_mask mask_eq_exp_minus_1)
  finally have e: "n = ?w - take_bit 3 ?w" by simp
  have m: "unat (take_bit 3 ?w) = (unat v + 7) mod 8"
  proof -
    have "unat (take_bit 3 ?w) = take_bit 3 (unat ?w)" by (rule unsigned_take_bit_eq)
    then show ?thesis unfolding v7 by (simp only: take_bit_eq_mod) simp
  qed
  then have "take_bit 3 ?w \<le> ?w" using v7 by (simp add: word_le_nat_alt)
  then have "unat n = (unat v + 7) - (unat v + 7) mod 8" unfolding e using m v7 by (simp add: unat_sub_le)
  then have "unat n = (unat v + 7) div 8 * 8" by (simp add: minus_mod_eq_div_mult)
  then show "unat v \<le> unat n" "8 dvd unat n" by auto
  then show "v \<noteq> 0 \<Longrightarrow> n \<noteq> 0" by (metis le_zero_eq unat_0 unat_eq_0)
qed

section \<open>The invariant\<close>

definition page_bytes :: "arena \<Rightarrow> nat" where
  "page_bytes r = sum_list (map unat (ar_sizes r))"

definition arena_ok :: "nat \<Rightarrow> nat \<Rightarrow> astate \<Rightarrow> bool" where
  "arena_ok a base s = (case s of (r, h) \<Rightarrow>
     ar_a r = a \<and> length (ar_spent r) = length (ar_sizes r) \<and> length (ar_sizes r) \<le> unat (ar_page_cap r) \<and>
     unat (ar_page_cap r) < 2 ^ 61 \<and>
     (\<forall>i < length (ar_sizes r). ar_spent r ! i \<le> ar_sizes r ! i \<and> 8 dvd unat (ar_spent r ! i)) \<and>
     accounts (h a) (base + page_bytes r + 24 * unat (ar_page_cap r)))"

lemma table_words:
  assumes "unat n < 2 ^ 61"
  shows "unat (mem_array_bytes n 8) = 8 * unat n"
  using assms by (subst mem_array_bytes_eq) simp_all

lemma release_three:
  assumes "unat n < 2 ^ 61" and "accounts (h a) (s + 24 * unat n)"
  shows "accounts (h_release a (n \<noteq> 0) (mem_array_bytes n 8) (h_release a (n \<noteq> 0) (mem_array_bytes n 8)
    (h_release a (n \<noteq> 0) (mem_array_bytes n 8) h)) a) s"
proof -
  have p: "paid (n \<noteq> 0) (mem_array_bytes n 8) = 8 * unat n" using table_words [OF assms(1)] by (auto simp: paid_def)
  have "s + 24 * unat n = s + 8 * unat n + 8 * unat n + 8 * unat n" by simp
  then show ?thesis using assms(2) by (intro heap.rel_add) (simp add: p add.commute)
qed

lemma grow_page_table_spec:
  assumes "arena_ok a base (r, h)" and "grow_page_table (r, h) = (ok, r1, h1)"
  shows "arena_ok a base (r1, h1) \<and> (\<exists>c. r1 = r\<lparr>ar_page_cap := c\<rparr>) \<and> (ok \<longrightarrow> length (ar_sizes r) < unat (ar_page_cap r1))"
proof -
  have i: "ar_a r = a" "length (ar_sizes r) \<le> unat (ar_page_cap r)" "unat (ar_page_cap r) < 2 ^ 61"
    "accounts (h a) (base + page_bytes r + 24 * unat (ar_page_cap r))"
    using assms(1) by (auto simp: arena_ok_def)
  have id: "\<exists>c. r = r\<lparr>ar_page_cap := c\<rparr>" by (intro exI [of _ "ar_page_cap r"]) simp
  let ?old = "ar_page_cap r"
  obtain nw where nw: "nw = (if ?old \<noteq> 0 then ?old * 2 else ARENA_INIT_PAGES)" by blast
  obtain nb where nb: "nb = mem_array_bytes nw 8" by blast
  have def: "grow_page_table (r, h) = (if length (ar_sizes r) < unat ?old then (True, r, h)
     else if nw < ?old then (False, r, h) else if nb = 0 \<or> nb = 0 then (False, r, h)
     else let ob_p = mem_array_bytes ?old 8; ob_s = mem_array_bytes ?old 8 in
     case h_alloc (ar_a r) nb h of (kp, h1) \<Rightarrow>
     case h_alloc (ar_a r) nb h1 of (ks, h2) \<Rightarrow>
     case h_alloc (ar_a r) nb h2 of (ku, h3) \<Rightarrow>
     if \<not> kp \<or> \<not> ks \<or> \<not> ku
     then (False, r, h_release (ar_a r) ku nb (h_release (ar_a r) ks nb (h_release (ar_a r) kp nb h3)))
     else (True, r\<lparr>ar_page_cap := nw\<rparr>,
       h_release (ar_a r) (?old \<noteq> 0) ob_s (h_release (ar_a r) (?old \<noteq> 0) ob_s (h_release (ar_a r) (?old \<noteq> 0) ob_p h3))))"
    unfolding grow_page_table_def Let_def prod.case nb nw ..
  show ?thesis
  proof (cases "length (ar_sizes r) < unat ?old")
    case True
    then show ?thesis using assms id by (simp add: def)
  next
    case full: False
    show ?thesis
    proof (cases "nw < ?old \<or> nb = 0")
      case True
      then have "grow_page_table (r, h) = (False, r, h)" unfolding def using full by auto
      then show ?thesis using assms id by simp
    next
      case False
      then have "unat nb \<noteq> 0" by (simp add: unat_eq_0)
      then have new: "unat nw < 2 ^ 61" "unat nb = 8 * unat nw"
        unfolding nb mem_array_bytes_val by (auto split: if_splits)
      have dbl: "unat nw = (if ?old = 0 then 4 else 2 * unat ?old)"
        using i(3) by (simp add: nw ARENA_INIT_PAGES_def unat_word_ariths)
      obtain kp g1 where p: "h_alloc a nb h = (kp, g1)" by fastforce
      obtain ks g2 where q: "h_alloc a nb g1 = (ks, g2)" by fastforce
      obtain ku g3 where u: "h_alloc a nb g2 = (ku, g3)" by fastforce
      show ?thesis
      proof (cases "kp \<and> ks \<and> ku")
        case F: False
        then have "grow_page_table (r, h) = (False, r, h_release a ku nb (h_release a ks nb (h_release a kp nb g3)))"
          unfolding def using full False p q u i(1) by auto
        then have "(ok, r1, h1) = (False, r, h_release a ku nb (h_release a ks nb (h_release a kp nb g3)))" using assms(2) by simp
        then show ?thesis using assms(1) id heap.three_restore [OF p q u i(4)] by (simp add: arena_ok_def)
      next
        case True
        let ?ob = "mem_array_bytes ?old 8"
        let ?h = "h_release a (?old \<noteq> 0) ?ob (h_release a (?old \<noteq> 0) ?ob (h_release a (?old \<noteq> 0) ?ob g3))"
        have "grow_page_table (r, h) = (True, r\<lparr>ar_page_cap := nw\<rparr>, ?h)"
          unfolding def using full False p q u i(1) True by (auto simp: Let_def)
        then have e: "(ok, r1, h1) = (True, r\<lparr>ar_page_cap := nw\<rparr>, ?h)" using assms(2) by simp
        have "accounts (g3 a) (base + page_bytes r + 24 * unat ?old + paid kp nb + paid ks nb + paid ku nb)"
          by (rule heap.three_acct [OF p q u i(4)])
        then have "accounts (g3 a) (base + page_bytes r + 24 * unat nw + 24 * unat ?old)"
          using True new(2) by (simp add: ac_simps)
        from release_three [of ?old g3 a "base + page_bytes r + 24 * unat nw", OF i(3) this] have "accounts (?h a) (base + page_bytes r + 24 * unat nw)" .
        moreover have "unat ?old < unat nw" using dbl by (auto simp: unat_gt_0 split: if_splits)
        ultimately show ?thesis using e i(2) new(1) full assms(1)
          by (auto simp: arena_ok_def page_bytes_def)
      qed
    qed
  qed
qed

text \<open>Nothing moves, and a page only fills.\<close>

definition grows :: "arena \<Rightarrow> arena \<Rightarrow> bool" where
  "grows r r1 = (length (ar_sizes r) \<le> length (ar_sizes r1) \<and> (\<forall>i < length (ar_sizes r).
     ar_sizes r1 ! i = ar_sizes r ! i \<and> ar_spent r ! i \<le> ar_spent r1 ! i))"

lemma grows_trans: "grows r r1 \<Longrightarrow> grows r1 r2 \<Longrightarrow> grows r r2"
  unfolding grows_def by (auto intro: order_trans)

lemma take_block_spec:
  assumes "arena_ok a base (r, h)" and "i < length (ar_sizes r)" and "need \<le> ar_sizes r ! i - ar_spent r ! i"
    and "8 dvd unat need"
  shows "\<exists>r1. take_block need i (r, h) = Some (Some (i, unat (ar_spent r ! i)), r1, h) \<and> arena_ok a base (r1, h) \<and>
    grows r r1 \<and> ar_sizes r1 = ar_sizes r \<and> ar_oom r1 = ar_oom r \<and> unat (ar_spent r1 ! i) = unat (ar_spent r ! i) + unat need"
proof -
  let ?r = "r\<lparr>ar_cur := i, ar_spent := (ar_spent r)[i := ar_spent r ! i + need]\<rparr>"
  have o: "length (ar_spent r) = length (ar_sizes r)" "ar_spent r ! i \<le> ar_sizes r ! i" "8 dvd unat (ar_spent r ! i)"
    using assms(1,2) by (auto simp: arena_ok_def)
  have s: "unat need \<le> unat (ar_sizes r ! i) - unat (ar_spent r ! i)"
    using assms(3) o(2) by (simp add: word_le_nat_alt unat_sub_le)
  have ad: "unat (ar_spent r ! i + need) = unat (ar_spent r ! i) + unat need"
    using s o(2) unat_lt64 [of "ar_sizes r ! i"] by (intro unat_add_no_wrap) (simp add: word_le_nat_alt)
  have le: "ar_spent r ! i + need \<le> ar_sizes r ! i" using ad s o(2) by (simp add: word_le_nat_alt)
  have "arena_ok a base (?r, h)"
    using assms(1,2,4) o ad le by (auto simp: arena_ok_def page_bytes_def nth_list_update)
  moreover have "grows r ?r" using o ad assms(2) by (auto simp: grows_def nth_list_update word_le_nat_alt)
  moreover have "take_block need i (r, h) = Some (Some (i, unat (ar_spent r ! i)), ?r, h)"
    using assms(2) o(1) by (simp add: take_block_def)
  ultimately show ?thesis using assms(2) o(1) ad by (intro exI [of _ ?r]) simp
qed

lemma find_page_spec:
  "length szs = length uss \<Longrightarrow> find_page need szs uss i < i + length szs \<Longrightarrow>
    i \<le> find_page need szs uss i \<and> need \<le> szs ! (find_page need szs uss i - i) - uss ! (find_page need szs uss i - i)"
proof (induction need szs uss i rule: find_page.induct)
  case (1 need sz szs us uss i)
  show ?case
  proof (cases "need \<le> sz - us")
    case False
    then have "find_page need szs uss (Suc i) < Suc i + length szs" using 1 by simp
    then show ?thesis using 1(1) 1(2) False by (auto simp: nth_Cons')
  qed simp
qed auto

lemma arena_alloc_spec:
  assumes "arena_ok a base (r, h)"
  shows "\<exists>res r1 h1. arena_alloc want (r, h) = Some (res, r1, h1) \<and> arena_ok a base (r1, h1) \<and> grows r r1 \<and>
    (ar_oom r \<longrightarrow> ar_oom r1) \<and>
    (case res of None \<Rightarrow> want = 0 \<or> ar_oom r1
     | Some (p, off) \<Rightarrow> p < length (ar_sizes r1) \<and> 8 dvd off \<and> off + unat want \<le> unat (ar_spent r1 ! p) \<and>
         (p < length (ar_sizes r) \<longrightarrow> unat (ar_spent r ! p) \<le> off))"
proof -
  have len: "length (ar_spent r) = length (ar_sizes r)" using assms by (simp add: arena_ok_def)
  have refl: "grows r r" by (simp add: grows_def)
  have poison: "arena_ok a base (r\<lparr>ar_oom := True\<rparr>, h')" "grows r (r\<lparr>ar_oom := True\<rparr>)" if "arena_ok a base (r, h')" for r h'
    using that by (simp_all add: arena_ok_def page_bytes_def grows_def)
  show ?thesis
  proof (cases "want = 0 \<or> ar_oom r")
    case True
    then have "arena_alloc want (r, h) = Some (None, r, h)" by (auto simp: arena_alloc_def)
    then show ?thesis using assms refl True by (intro exI [of _ None] exI [of _ r] exI [of _ h]) auto
  next
    case live: False
    show ?thesis
    proof (cases "align_up want ARENA_ALIGN")
      case None
      then have "arena_alloc want (r, h) = Some (None, r\<lparr>ar_oom := True\<rparr>, h)" using live by (simp add: arena_alloc_def)
      then show ?thesis using poison [OF assms] by (intro exI [of _ None] exI [of _ "r\<lparr>ar_oom := True\<rparr>"] exI [of _ h]) simp
    next
      case (Some need)
      note al = align_up_8 [OF Some]
      have old: ?thesis if i: "i < length (ar_sizes r)" "need \<le> ar_sizes r ! i - ar_spent r ! i"
        and e: "arena_alloc want (r, h) = take_block need i (r, h)" for i
      proof -
        have d: "8 dvd unat (ar_spent r ! i)" using assms i(1) by (simp add: arena_ok_def)
        obtain r1 where "take_block need i (r, h) = Some (Some (i, unat (ar_spent r ! i)), r1, h)" "arena_ok a base (r1, h)"
          "grows r r1" "ar_sizes r1 = ar_sizes r" "ar_oom r1 = ar_oom r" "unat (ar_spent r1 ! i) = unat (ar_spent r ! i) + unat need"
          using take_block_spec [OF assms i al(2)] by blast
        then show ?thesis using e i(1) d al(1)
          by (intro exI [of _ "Some (i, unat (ar_spent r ! i))"] exI [of _ r1] exI [of _ h]) simp
      qed
      let ?f = "find_page need (ar_sizes r) (ar_spent r) 0"
      consider (cur) "ar_cur r < length (ar_sizes r) \<and> need \<le> ar_sizes r ! ar_cur r - ar_spent r ! ar_cur r"
        | (found) "\<not> (ar_cur r < length (ar_sizes r) \<and> need \<le> ar_sizes r ! ar_cur r - ar_spent r ! ar_cur r)"
            "?f < length (ar_sizes r)"
        | (fresh) "\<not> (ar_cur r < length (ar_sizes r) \<and> need \<le> ar_sizes r ! ar_cur r - ar_spent r ! ar_cur r)"
            "\<not> ?f < length (ar_sizes r)" by blast
      then show ?thesis
      proof cases
        case cur
        then have "arena_alloc want (r, h) = take_block need (ar_cur r) (r, h)" using live Some by (simp add: arena_alloc_def)
        then show ?thesis using old cur by blast
      next
        case found
        then have "arena_alloc want (r, h) = take_block need ?f (r, h)" using live Some by (auto simp: arena_alloc_def Let_def)
        moreover have "need \<le> ar_sizes r ! ?f - ar_spent r ! ?f"
          using find_page_spec [of "ar_sizes r" "ar_spent r" need 0] found(2) len by simp
        ultimately show ?thesis using old found(2) by blast
      next
        case fresh
        let ?sz = "if ar_page_size r < need then need else ar_page_size r"
        obtain k r1 h1 where g: "grow_page_table (r, h) = (k, r1, h1)" by (metis prod_cases3)
        note gs = grow_page_table_spec [OF assms g]
        obtain c where c: "r1 = r\<lparr>ar_page_cap := c\<rparr>" using gs by blast
        have gr: "grows r r1" using c by (simp add: grows_def)
        have e: "arena_alloc want (r, h) = (case grow_page_table (r, h) of
           (False, r1, h1) \<Rightarrow> Some (None, r1\<lparr>ar_oom := True\<rparr>, h1)
         | (True, r1, h1) \<Rightarrow>
             (case h_alloc (ar_a r1) ?sz h1 of
                (False, h2) \<Rightarrow> Some (None, r1\<lparr>ar_oom := True\<rparr>, h2)
              | (True, h2) \<Rightarrow>
                  if length (ar_sizes r1) < unat (ar_page_cap r1)
                  then take_block need (length (ar_sizes r1))
                    (r1\<lparr>ar_sizes := ar_sizes r1 @ [?sz], ar_spent := ar_spent r1 @ [0]\<rparr>, h2)
                  else None))"
          using live Some fresh unfolding arena_alloc_def Let_def by auto
        have fail: ?thesis if "arena_alloc want (r, h) = Some (None, r1\<lparr>ar_oom := True\<rparr>, h2)" and "arena_ok a base (r1, h2)" for h2
          using that poison [OF that(2)] c gr
          by (intro exI [of _ None] exI [of _ "r1\<lparr>ar_oom := True\<rparr>"] exI [of _ h2]) (simp add: grows_def)
        show ?thesis
        proof (cases k)
          case False
          then show ?thesis using fail [of h1] gs e g by simp
        next
          case k: True
          have ok1: "arena_ok a base (r1, h1)" "length (ar_sizes r1) < unat (ar_page_cap r1)" using gs k c by auto
          have a1: "ar_a r1 = a" using ok1(1) by (simp add: arena_ok_def)
          obtain m h2 where m: "h_alloc a ?sz h1 = (m, h2)" by fastforce
          have "accounts (h1 a) (base + page_bytes r1 + 24 * unat (ar_page_cap r1))" using ok1(1) by (simp add: arena_ok_def)
          note ac = heap.al_acct [OF m this]
          show ?thesis
          proof (cases m)
            case False
            then have "arena_ok a base (r1, h2)" using ok1(1) ac by (simp add: arena_ok_def)
            moreover have "arena_alloc want (r, h) = Some (None, r1\<lparr>ar_oom := True\<rparr>, h2)"
              unfolding e g using k m a1 False by simp
            ultimately show ?thesis using fail [of h2] by blast
          next
            case True
            let ?n = "length (ar_sizes r1)"
            let ?r2 = "r1\<lparr>ar_sizes := ar_sizes r1 @ [?sz], ar_spent := ar_spent r1 @ [0]\<rparr>"
            have l1: "length (ar_spent r1) = ?n" "ar_oom r1 = ar_oom r" "ar_sizes r1 = ar_sizes r" "ar_spent r1 = ar_spent r"
              using len c by simp_all
            have ok2: "arena_ok a base (?r2, h2)"
              using ok1 ac True l1(1) by (auto simp: arena_ok_def page_bytes_def nth_append ac_simps less_Suc_eq)
            have "need \<le> ?sz" by (simp add: not_less)
            then have nd: "need \<le> ar_sizes ?r2 ! ?n - ar_spent ?r2 ! ?n" using l1(1) by (simp add: nth_append)
            have i: "?n < length (ar_sizes ?r2)" by simp
            obtain r3 where r3: "take_block need ?n (?r2, h2) = Some (Some (?n, unat (ar_spent ?r2 ! ?n)), r3, h2)" "arena_ok a base (r3, h2)"
              "grows ?r2 r3" "ar_sizes r3 = ar_sizes ?r2" "ar_oom r3 = ar_oom ?r2"
              "unat (ar_spent r3 ! ?n) = unat (ar_spent ?r2 ! ?n) + unat need"
              using take_block_spec [OF ok2 i nd al(2)] by blast
            have z: "ar_spent ?r2 ! ?n = 0" using l1(1) by (simp add: nth_append)
            have "arena_alloc want (r, h) = Some (Some (?n, 0), r3, h2)"
              unfolding e g using k m a1 True ok1(2) r3(1) z by simp
            moreover have "grows r r3" by (rule grows_trans [OF _ r3(3)]) (use l1 in \<open>simp add: grows_def nth_append\<close>)
            ultimately show ?thesis using r3 z al(1) l1
              by (intro exI [of _ "Some (?n, 0)"] exI [of _ r3] exI [of _ h2]) simp
          qed
        qed
      qed
    qed
  qed
qed

section \<open>Blocks\<close>

fun arena_run :: "size_t list \<Rightarrow> astate \<Rightarrow> (aptr option list \<times> astate) option" where
  "arena_run [] s = Some ([], s)"
| "arena_run (n # ns) s = (case arena_alloc n s of
      None \<Rightarrow> None
    | Some (p, s1) \<Rightarrow> map_option (\<lambda>(ps, s2). (p # ps, s2)) (arena_run ns s1))"

text \<open>The blocks given out: page, offset, and the bytes asked for.\<close>

fun blocks_of :: "size_t list \<Rightarrow> aptr option list \<Rightarrow> (nat \<times> nat \<times> nat) list" where
  "blocks_of (n # ns) (Some (p, off) # ps) = (p, off, unat n) # blocks_of ns ps"
| "blocks_of (n # ns) (None # ps) = blocks_of ns ps"
| "blocks_of _ _ = []"

definition apart :: "nat \<times> nat \<times> nat \<Rightarrow> nat \<times> nat \<times> nat \<Rightarrow> bool" where
  "apart x y = (case x of (p, o1, n1) \<Rightarrow> case y of (q, o2, n2) \<Rightarrow> p = q \<longrightarrow> o1 + n1 \<le> o2 \<or> o2 + n2 \<le> o1)"

lemma arena_run_spec:
  "arena_ok a base (r, h) \<Longrightarrow> \<exists>ps r1 h1. arena_run ns (r, h) = Some (ps, r1, h1) \<and> arena_ok a base (r1, h1) \<and> grows r r1 \<and>
     (ar_oom r \<longrightarrow> ar_oom r1) \<and> length ps = length ns \<and>
     (\<forall>(p, off, n) \<in> set (blocks_of ns ps). p < length (ar_sizes r1) \<and> 8 dvd off \<and> off + n \<le> unat (ar_spent r1 ! p) \<and>
        (p < length (ar_sizes r) \<longrightarrow> unat (ar_spent r ! p) \<le> off)) \<and>
     sorted_wrt apart (blocks_of ns ps) \<and>
     (\<not> ar_oom r1 \<longrightarrow> (\<forall>i < length ns. ps ! i = None \<longrightarrow> ns ! i = 0))"
proof (induction ns arbitrary: r h)
  case Nil
  then show ?case by (simp add: grows_def)
next
  case (Cons n ns)
  obtain res r1 h1 where a: "arena_alloc n (r, h) = Some (res, r1, h1)" "arena_ok a base (r1, h1)" "grows r r1"
    "ar_oom r \<longrightarrow> ar_oom r1"
    "case res of None \<Rightarrow> n = 0 \<or> ar_oom r1
     | Some (p, off) \<Rightarrow> p < length (ar_sizes r1) \<and> 8 dvd off \<and> off + unat n \<le> unat (ar_spent r1 ! p) \<and>
         (p < length (ar_sizes r) \<longrightarrow> unat (ar_spent r ! p) \<le> off)"
    using arena_alloc_spec [OF Cons.prems, of n] by blast
  obtain ps r2 h2 where i: "arena_run ns (r1, h1) = Some (ps, r2, h2)" "arena_ok a base (r2, h2)" "grows r1 r2"
    "ar_oom r1 \<longrightarrow> ar_oom r2" "length ps = length ns"
    "\<forall>(p, off, n) \<in> set (blocks_of ns ps). p < length (ar_sizes r2) \<and> 8 dvd off \<and> off + n \<le> unat (ar_spent r2 ! p) \<and>
        (p < length (ar_sizes r1) \<longrightarrow> unat (ar_spent r1 ! p) \<le> off)"
    "sorted_wrt apart (blocks_of ns ps)" "\<not> ar_oom r2 \<longrightarrow> (\<forall>i < length ns. ps ! i = None \<longrightarrow> ns ! i = 0)"
    using Cons.IH [OF a(2)] by blast
  have run: "arena_run (n # ns) (r, h) = Some (res # ps, r2, h2)" using a(1) i(1) by simp
  have gr: "grows r r2" by (rule grows_trans [OF a(3) i(3)])
  have g1: "length (ar_sizes r) \<le> length (ar_sizes r1)" "\<And>p. p < length (ar_sizes r) \<Longrightarrow> ar_spent r ! p \<le> ar_spent r1 ! p"
    using a(3) by (auto simp: grows_def)
  have g2: "length (ar_sizes r1) \<le> length (ar_sizes r2)" "\<And>p. p < length (ar_sizes r1) \<Longrightarrow> ar_spent r1 ! p \<le> ar_spent r2 ! p"
    using i(3) by (auto simp: grows_def)
  have rest: "p < length (ar_sizes r2) \<and> 8 dvd off \<and> off + k \<le> unat (ar_spent r2 ! p) \<and>
      (p < length (ar_sizes r) \<longrightarrow> unat (ar_spent r ! p) \<le> off)" if "(p, off, k) \<in> set (blocks_of ns ps)" for p off k
  proof -
    have b: "p < length (ar_sizes r2)" "8 dvd off" "off + k \<le> unat (ar_spent r2 ! p)"
      "p < length (ar_sizes r1) \<longrightarrow> unat (ar_spent r1 ! p) \<le> off" using i(6) that by auto
    have "unat (ar_spent r ! p) \<le> off" if p: "p < length (ar_sizes r)"
      using b(4) g1(1) g1(2) [OF p] p by (simp add: word_le_nat_alt)
    then show ?thesis using b by blast
  qed
  have nul: "\<not> ar_oom r2 \<longrightarrow> (\<forall>i < length (n # ns). (res # ps) ! i = None \<longrightarrow> (n # ns) ! i = 0)"
    using i(4,8) a(5) by (auto simp: less_Suc_eq_0_disj)
  show ?case
  proof (cases res)
    case None
    then show ?thesis using run i(2,5,7) gr a(4) i(4) nul rest by (intro exI [of _ "res # ps"] exI [of _ r2] exI [of _ h2]) auto
  next
    case (Some x)
    obtain p off where x: "x = (p, off)" by (cases x)
    have b: "p < length (ar_sizes r1)" "8 dvd off" "off + unat n \<le> unat (ar_spent r1 ! p)"
      "p < length (ar_sizes r) \<longrightarrow> unat (ar_spent r ! p) \<le> off" using a(5) Some x by auto
    have first: "p < length (ar_sizes r2)" "off + unat n \<le> unat (ar_spent r2 ! p)"
      using b g2(1) g2(2) [OF b(1)] by (simp_all add: word_le_nat_alt)
    have "apart (p, off, unat n) y" if "y \<in> set (blocks_of ns ps)" for y
    proof -
      obtain q off2 k where y: "y = (q, off2, k)" by (metis prod_cases3)
      have "q < length (ar_sizes r1) \<longrightarrow> unat (ar_spent r1 ! q) \<le> off2" using i(6) that y by auto
      then show ?thesis using b(1,3) by (auto simp: apart_def y)
    qed
    then show ?thesis using run i(2,5,7) gr a(4) i(4) nul rest b first Some x
      by (intro exI [of _ "res # ps"] exI [of _ r2] exI [of _ h2]) auto
  qed
qed

lemma release_pages:
  "accounts (h a) (s + sum_list (map unat szs)) \<Longrightarrow> accounts (fold (\<lambda>sz h. h_release a True sz h) szs h a) s"
proof (induction szs arbitrary: h)
  case (Cons z szs)
  have "accounts (h_release a True z h a) (s + sum_list (map unat szs))"
    by (rule heap.rel_add) (use Cons.prems in \<open>simp add: ac_simps\<close>)
  then show ?case using Cons.IH by simp
qed simp

lemma arena_free_spec:
  assumes "arena_ok a base s"
  shows "arena_ok a base (arena_free s)" and "accounts (snd (arena_free s) a) base"
proof -
  obtain r h where s: "s = (r, h)" by (cases s)
  have i: "ar_a r = a" "unat (ar_page_cap r) < 2 ^ 61" "accounts (h a) (base + page_bytes r + 24 * unat (ar_page_cap r))"
    using assms by (auto simp: arena_ok_def s)
  let ?h = "fold (\<lambda>sz h. h_release a True sz h) (ar_sizes r) h"
  have "accounts (h a) (base + 24 * unat (ar_page_cap r) + sum_list (map unat (ar_sizes r)))"
    using i(3) by (simp add: page_bytes_def ac_simps)
  then have "accounts (?h a) (base + 24 * unat (ar_page_cap r))" by (rule release_pages)
  from release_three [of "ar_page_cap r" ?h a base, OF i(2) this]
  show "arena_ok a base (arena_free s)" "accounts (snd (arena_free s) a) base"
    using i(1) by (simp_all add: s arena_free_def arena_ok_def page_bytes_def Let_def)
qed

lemma arena_reset_ok: "arena_ok a base s \<Longrightarrow> arena_ok a base (arena_reset s)"
  by (cases s) (auto simp: arena_reset_def arena_ok_def page_bytes_def)

lemma arena_init_ok: "accounts (h a) base \<Longrightarrow> arena_ok a base (arena_init_a ps a, h)"
  by (simp add: arena_ok_def arena_init_a_def page_bytes_def)

text \<open>C29: the arena hands out memory soundly. After any run of allocations and a reset, whatever sizes are asked
  for and whatever the allocator refuses, a second run of \<open>bbq_arena_alloc\<close> calls returns and stores in no
  array out of bounds; every block it gives out is aligned to 8 and lies inside its page, no two of them
  overlap, NULL is answered only to a request for nothing or with the arena poisoned, and
  \<open>bbq_arena_free\<close> gives back exactly the bytes taken, pages and tables.
\<close>

theorem arena_blocks:
  assumes "accounts (h a) base"
  shows "\<exists>ps0 s0 ps r h1. arena_run ns0 (arena_init_a page a, h) = Some (ps0, s0) \<and>
    arena_run ns (arena_reset s0) = Some (ps, r, h1) \<and> length ps = length ns \<and>
    (\<forall>(p, off, n) \<in> set (blocks_of ns ps). p < length (ar_sizes r) \<and> 8 dvd off \<and> off + n \<le> unat (ar_sizes r ! p)) \<and>
    sorted_wrt apart (blocks_of ns ps) \<and>
    (\<not> ar_oom r \<longrightarrow> (\<forall>i < length ns. ps ! i = None \<longrightarrow> ns ! i = 0)) \<and>
    accounts (snd (arena_free (r, h1)) a) base"
proof -
  have i: "arena_ok a base (arena_init_a page a, h)" using assms by (rule arena_init_ok)
  obtain ps0 r0 h0 where r0: "arena_run ns0 (arena_init_a page a, h) = Some (ps0, r0, h0)" "arena_ok a base (r0, h0)"
    using arena_run_spec [OF i, of ns0] by blast
  obtain r1 h1 where r1: "arena_reset (r0, h0) = (r1, h1)" by (metis surj_pair)
  have "arena_ok a base (r1, h1)" using arena_reset_ok [OF r0(2)] r1 by simp
  from arena_run_spec [OF this, of ns]
  obtain ps r2 h2 where r2: "arena_run ns (r1, h1) = Some (ps, r2, h2)" "arena_ok a base (r2, h2)" "length ps = length ns"
    "\<forall>(p, off, n) \<in> set (blocks_of ns ps). p < length (ar_sizes r2) \<and> 8 dvd off \<and> off + n \<le> unat (ar_spent r2 ! p) \<and>
        (p < length (ar_sizes r1) \<longrightarrow> unat (ar_spent r1 ! p) \<le> off)"
    "sorted_wrt apart (blocks_of ns ps)" "\<not> ar_oom r2 \<longrightarrow> (\<forall>i < length ns. ps ! i = None \<longrightarrow> ns ! i = 0)" by blast
  have "p < length (ar_sizes r2) \<and> 8 dvd off \<and> off + n \<le> unat (ar_sizes r2 ! p)"
    if "(p, off, n) \<in> set (blocks_of ns ps)" for p off n
  proof -
    have "p < length (ar_sizes r2)" "8 dvd off" "off + n \<le> unat (ar_spent r2 ! p)" using r2(4) that by auto
    moreover from this(1) have "ar_spent r2 ! p \<le> ar_sizes r2 ! p" using r2(2) by (simp add: arena_ok_def)
    ultimately show ?thesis by (simp add: word_le_nat_alt)
  qed
  then show ?thesis using r0(1) r1 r2 arena_free_spec(2) [OF r2(2)]
    by (intro exI [of _ ps0] exI [of _ "(r0, h0)"] exI [of _ ps] exI [of _ r2] exI [of _ h2]) auto
qed

lemma arena_blocks_witness:
  "\<exists>ps0 s0 ps r h1. arena_run [5000, 8] (arena_init_a 64 0, \<lambda>_. Libc (\<lambda>_. True) 0 0) = Some (ps0, s0) \<and>
    arena_run [3, 9] (arena_reset s0) = Some (ps, r, h1) \<and> length ps = length [3, 9 :: size_t] \<and>
    (\<forall>(p, off, n) \<in> set (blocks_of [3, 9] ps). p < length (ar_sizes r) \<and> 8 dvd off \<and> off + n \<le> unat (ar_sizes r ! p)) \<and>
    sorted_wrt apart (blocks_of [3, 9] ps) \<and>
    (\<not> ar_oom r \<longrightarrow> (\<forall>i < length [3, 9 :: size_t]. ps ! i = None \<longrightarrow> [3, 9 :: size_t] ! i = 0)) \<and>
    accounts (snd (arena_free (r, h1)) 0) 0"
  by (rule arena_blocks) simp

end
