(* ===== verification/Decoder.thy ===== *)
theory Decoder
  imports Decode
begin

text \<open>
  What the decoders promise, over the bytes left in the innermost window: \<open>rest c\<close>. The locale
  \<open>decoder\<close> is the contract (accept exactly what the specification accepts, take exactly its
  bytes, never leave the input); its one interpretation covers every decoder of \<open>bbq_read.h\<close>.
\<close>

definition rest :: "rctx \<Rightarrow> bytes" where
  "rest c = take (unat (snd (window (r_len c) (cursor_of c))) - unat (r_pos c)) (drop (unat (r_pos c)) (r_data c))"

definition step :: "nat \<Rightarrow> rctx \<Rightarrow> rctx" where
  "step n c = c\<lparr>r_pos := r_pos c + word_of_nat n\<rparr>"

text \<open>A rejected read: the failure is noted; only the position may have moved, inside the window.\<close>

definition rejected :: "rctx \<Rightarrow> 'a rr \<times> rctx \<Rightarrow> bool" where
  "rejected c out = (fst out = Rej \<and> rctx_ok (snd out) \<and> same_input c (snd out) \<and> r_error (snd out) \<noteq> None \<and>
     (\<exists>p. cursor_of (snd out) = (cursor_of c)\<lparr>a_pos := p\<rparr>))"

lemma rejected_fail: "rctx_ok c \<Longrightarrow> rejected c (fail m c)"
  by (auto simp: rejected_def fail_def same_input_def intro: exI [of _ "r_pos c"])

lemma a_pos_same [simp]: "(cursor_of c)\<lparr>a_pos := r_pos c\<rparr> = cursor_of c"
  by (simp add: cursor_of_def)

section \<open>Stepping over the rest\<close>

lemma step_simps [simp]:
  "r_data (step n c) = r_data c" "r_len (step n c) = r_len c" "r_le (step n c) = r_le c"
  "r_host_le (step n c) = r_host_le c" "stacks_ok (step n c) = stacks_ok c"
  "window l (cursor_of (step n c)) = window l (cursor_of c)" "same_input c (step n c)"
  "step 0 c = c" "r_error (step n c) = r_error c" "r_alloc (step n c) = r_alloc c"
  by (simp_all add: step_def stacks_ok_def window_def same_input_def)

lemma step_cursor: "cursor_of (step n c) = (cursor_of c)\<lparr>a_pos := r_pos c + word_of_nat n\<rparr>"
  by (simp add: step_def cursor_of_def)

lemma step_step: "step n (step m c) = step (m + n) c"
  by (simp add: step_def add.assoc)

lemma rest_bounds:
  assumes "rctx_ok c"
  shows "length (rest c) = unat (snd (window (r_len c) (cursor_of c))) - unat (r_pos c)"
    and "unat (r_pos c) + length (rest c) \<le> length (r_data c) \<or> rest c = []"
    and "unat (r_pos c) < 2 ^ 63" and "unat (snd (window (r_len c) (cursor_of c))) < 2 ^ 63"
proof -
  obtain s e where w: "window (r_len c) (cursor_of c) = (s, e)" by fastforce
  have b: "unat e \<le> unat (r_len c)" "unat (r_len c) = length (r_data c)" "unat (r_len c) < 2 ^ 63"
    "unat (r_pos c) \<le> unat (r_len c)"
    using window_bounds [OF assms w] assms by (auto simp: rctx_ok_def word_le_nat_alt)
  then show "length (rest c) = unat (snd (window (r_len c) (cursor_of c))) - unat (r_pos c)"
    "unat (r_pos c) + length (rest c) \<le> length (r_data c) \<or> rest c = []"
    "unat (r_pos c) < 2 ^ 63" "unat (snd (window (r_len c) (cursor_of c))) < 2 ^ 63"
    using w by (auto simp: rest_def)
qed

lemma pos_step:
  assumes "rctx_ok c" and "n \<le> length (rest c)"
  shows "unat (r_pos (step n c)) = unat (r_pos c) + n"
proof -
  have "unat (r_pos c) + n < 2 ^ 64" using rest_bounds(1,3,4) [OF assms(1)] assms(2) by simp
  moreover have "n < 2 ^ 64" using calculation by simp
  ultimately show ?thesis by (simp add: step_def unat_add_no_wrap unat_of_nat_64)
qed

lemma step_ok:
  assumes "rctx_ok c" and "n \<le> length (rest c)"
  shows "rctx_ok (step n c)" and "rest (step n c) = drop n (rest c)"
proof -
  have l: "unat (r_len c) = length (r_data c)" using assms(1) by (simp add: rctx_ok_def)
  have "unat (r_pos c) + n \<le> length (r_data c)"
    using rest_bounds(2) [OF assms(1)] assms l
    by (auto simp: rctx_ok_def word_le_nat_alt)
  then have "r_pos (step n c) \<le> r_len c" using pos_step [OF assms] l by (simp add: word_le_nat_alt)
  then show "rctx_ok (step n c)" using assms(1) by (simp add: rctx_ok_def step_cursor)
  show "rest (step n c) = drop n (rest c)"
    using pos_step [OF assms] by (simp add: rest_def drop_take add.commute)
qed

lemma take_bytes_out:
  assumes "rctx_ok c" and "0 < n" and "n \<le> 8"
  shows "take_bytes n m c = (if n \<le> length (rest c) then (Got (take n (rest c)), step n c) else fail m c)"
proof -
  let ?e = "snd (window (r_len c) (cursor_of c))"
  have e: "effective_end c = Got ?e" using assms by (simp add: effective_end_ok rctx_ok_def)
  have "unat (r_pos c) + unat (word_of_nat n :: size_t) < 2 ^ 64"
    using rest_bounds(3) [OF assms(1)] assms(3) by (simp add: unat_of_nat_64)
  then have u: "unat (r_pos c + word_of_nat n) = unat (r_pos c) + n"
    using assms(3) by (simp add: unat_add_no_wrap unat_of_nat_64)
  show ?thesis
  proof (cases "n \<le> length (rest c)")
    case True
    then have b: "unat (r_pos c) + n \<le> length (r_data c)" "unat (r_pos c) + n \<le> unat ?e"
      using assms(2) rest_bounds(1,2) [OF assms(1)] by auto
    have "take n (rest c) = slice (unat (r_pos c)) n (r_data c)"
      using b by (simp add: rest_def slice_def min_def)
    then show ?thesis using e u b True by (simp add: take_bytes_def step_def word_less_nat_alt not_less)
  next
    case False
    then have "?e < r_pos c + word_of_nat n" using u rest_bounds(1) [OF assms(1)] by (simp add: word_less_nat_alt)
    then show ?thesis using e False by (simp add: take_bytes_def)
  qed
qed

lemma read_u8_out:
  assumes "rctx_ok c"
  shows "read_u8 c = (case rest c of [] \<Rightarrow> fail ''u8: overrun'' c | b # _ \<Rightarrow> (Got b, step 1 c))"
proof -
  let ?e = "snd (window (r_len c) (cursor_of c))"
  have e: "effective_end c = Got ?e" using assms by (simp add: effective_end_ok rctx_ok_def)
  have u: "unat (r_pos c + 1) = unat (r_pos c) + 1"
    using rest_bounds(3) [OF assms] by (simp add: unat_add_no_wrap)
  show ?thesis
  proof (cases "rest c")
    case Nil
    then have "?e < r_pos c + 1" using rest_bounds(1) [OF assms] u by (simp add: word_less_nat_alt)
    then show ?thesis using Nil e by (simp add: read_u8_def)
  next
    case (Cons b bs)
    then have b: "unat (r_pos c) < length (r_data c)" "unat (r_pos c) + 1 \<le> unat ?e"
      using rest_bounds(1,2) [OF assms] by auto
    have "b = rest c ! 0" using Cons by simp
    also have "\<dots> = r_data c ! unat (r_pos c)" using b by (simp add: rest_def)
    finally show ?thesis using Cons e u b by (simp add: read_u8_def step_def word_less_nat_alt not_less)
  qed
qed

section \<open>LEB128, as numbers\<close>

text \<open>The bytes of one encoding: those with bit 7 set and the first without it.\<close>

fun leb_split :: "bytes \<Rightarrow> bytes option" where
  "leb_split [] = None"
| "leb_split (b # bs) = (if unat b < 128 then Some [b] else map_option ((#) b) (leb_split bs))"

fun leb_val :: "bytes \<Rightarrow> nat" where
  "leb_val [] = 0"
| "leb_val (b # bs) = unat b mod 128 + 128 * leb_val bs"

definition leb_max :: "nat \<Rightarrow> nat" where
  "leb_max bits = (bits + 6) div 7"

text \<open>The specification of \<open>bbq_read_uleb128\<close>: at most \<open>ceil(bits / 7)\<close> bytes, a value of \<open>bits\<close> bits.\<close>

definition dec_uleb :: "nat \<Rightarrow> bytes \<Rightarrow> (u64 \<times> nat) option" where
  "dec_uleb bits bs = (case leb_split (take (leb_max bits) bs) of None \<Rightarrow> None
     | Some p \<Rightarrow> if leb_val p < 2 ^ bits then Some (word_of_nat (leb_val p), length p) else None)"

lemma byte_cont: "((b :: u8) AND 0x80 = 0) = (unat b < 128)"
proof -
  have "(0x80 :: u8) = push_bit 7 1" by simp
  then have "(b AND 0x80 = 0) = (\<not> bit b 7)"
    by (simp add: bit_iff_and_push_bit_not_eq_0)
  also have "\<dots> = (\<not> bit (unat b) 7)" by (simp add: bit_unsigned_iff)
  also have "\<dots> = even (unat b div 128)" by (simp add: bit_iff_odd)
  also have "\<dots> = (unat b < 128)"
  proof -
    have "unat b < 256" using unsigned_less [of b] by simp
    then show ?thesis by (cases "unat b < 128") (auto simp: le_div_geq not_less)
  qed
  finally show ?thesis .
qed

lemma byte_low: "unat ((b :: u8) AND 0x7f) = unat b mod 128"
proof -
  have "(0x7f :: u8) = mask 7" by (simp add: mask_eq_exp_minus_1)
  then have "b AND 0x7f = take_bit 7 b" by (simp add: take_bit_eq_mask)
  then show ?thesis by (simp add: take_bit_eq_mod unat_mod)
qed

lemma byte_shift: "drop_bit k (b :: u8) \<noteq> 0 \<longleftrightarrow> 2 ^ k \<le> unat b"
proof -
  have "(drop_bit k b = 0) = (unat b div 2 ^ k = 0)"
    by (metis drop_bit_eq_div unat_0 unat_drop_bit_eq word_unat_eq_iff)
  then show ?thesis by (simp add: div_eq_0_iff not_less)
qed

text \<open>OR-ing in the next seven bits is adding them.\<close>

lemma or_shift:
  assumes "a < 2 ^ s" and "b < 128"
  shows "(word_of_nat a :: u64) OR push_bit s (word_of_nat b) = word_of_nat (a + 2 ^ s * b)"
proof -
  have ta: "take_bit s a = a" using assms(1) by (simp add: take_bit_nat_eq_self_iff)
  have "(word_of_nat a :: u64) + push_bit s (word_of_nat b) = word_of_nat a OR push_bit s (word_of_nat b)"
  proof (rule disjunctive_add_eq_or, rule bit_word_eqI)
    fix n
    have "\<not> bit a n" if "s \<le> n" using ta that by (metis bit_take_bit_iff not_le)
    then show "bit ((word_of_nat a :: u64) AND push_bit s (word_of_nat b)) n = bit (0 :: u64) n"
      by (auto simp: bit_simps)
  qed
  then show ?thesis by (simp add: push_bit_eq_mult mult.commute)
qed

lemma ucast_low: "(ucast ((b :: u8) AND 0x7f) :: u64) = word_of_nat (unat b mod 128)"
proof -
  have "(ucast (b AND 0x7f) :: u64) = word_of_nat (unat (b AND 0x7f))" by simp
  then show ?thesis unfolding byte_low .
qed

lemma leb_max_bounds: "0 < bits \<Longrightarrow> 0 < leb_max bits \<and> 7 * (leb_max bits - 1) < bits \<and> bits \<le> 7 * leb_max bits"
  by (auto simp: leb_max_def)

lemma leb_split_facts: "leb_split bs = Some p \<Longrightarrow> 0 < length p \<and> length p \<le> length bs \<and> take (length p) bs = p"
  by (induction bs arbitrary: p) (auto split: if_splits)

text \<open>What the loop does from byte \<open>i\<close> on, having read \<open>acc\<close>.\<close>

definition uleb_from :: "nat \<Rightarrow> nat \<Rightarrow> nat \<Rightarrow> bytes \<Rightarrow> (u64 \<times> nat) option" where
  "uleb_from bits i acc bs = (case leb_split (take (leb_max bits - i) bs) of None \<Rightarrow> None
     | Some p \<Rightarrow> let v = acc + 2 ^ (7 * i) * leb_val p
         in if v < 2 ^ bits then Some (word_of_nat v, length p) else None)"

definition decodes :: "(bytes \<Rightarrow> ('a \<times> nat) option) \<Rightarrow> rctx \<Rightarrow> 'a rr \<times> rctx \<Rightarrow> bool" where
  "decodes dec c out = (case dec (rest c) of
      Some (v, n) \<Rightarrow> n \<le> length (rest c) \<and> out = (Got v, step n c) | None \<Rightarrow> rejected c out)"

lemma rejected_step: "rctx_ok c \<Longrightarrow> rejected (step n c) out \<Longrightarrow> rejected c out"
  unfolding rejected_def by (auto simp: step_cursor same_input_def)

lemma decodes_step:
  assumes "rctx_ok c" and "rest c = b # bs" and "decodes dec (step 1 c) out"
    and "\<And>v n. dec bs = Some (v, n) \<Longrightarrow> dec' (b # bs) = Some (v, Suc n)"
    and "dec bs = None \<Longrightarrow> dec' (b # bs) = None"
  shows "decodes dec' c out"
proof -
  have r: "rest (step 1 c) = bs" using step_ok(2) [OF assms(1), of 1] assms(2) by simp
  show ?thesis
  proof (cases "dec bs")
    case None
    then have "rejected (step 1 c) out" using assms(3) r by (simp add: decodes_def)
    then show ?thesis using None assms(2,5) rejected_step [OF assms(1)] by (simp add: decodes_def)
  next
    case (Some vn)
    then show ?thesis using assms(2-4) r by (cases vn) (auto simp: decodes_def step_step)
  qed
qed

lemma uleb_from_cons:
  assumes "i < leb_max bits" and "\<not> unat b < 128"
  shows "uleb_from bits i acc (b # bs) =
    map_option (\<lambda>(v, n). (v, Suc n)) (uleb_from bits (Suc i) (acc + 2 ^ (7 * i) * (unat b mod 128)) bs)"
proof -
  have tk: "take (leb_max bits - i) (b # bs) = b # take (leb_max bits - Suc i) bs"
    using assms(1) by (metis Suc_diff_Suc take_Suc_Cons)
  have p: "acc + 2 ^ (7 * i) * leb_val (b # p) =
      acc + 2 ^ (7 * i) * (unat b mod 128) + 2 ^ (7 * Suc i) * leb_val p" for p
    by (simp add: power_add distrib_left)
  show ?thesis
  proof (cases "leb_split (take (leb_max bits - Suc i) bs)")
    case None
    then show ?thesis using tk assms(2) by (simp add: uleb_from_def)
  next
    case (Some q)
    then have "leb_split (take (leb_max bits - i) (b # bs)) = Some (b # q)" using tk assms(2) by simp
    then show ?thesis using Some unfolding uleb_from_def by (simp only: option.case Let_def p) auto
  qed
qed

lemma uleb_loop_decodes:
  "rctx_ok c \<Longrightarrow> 0 < bits \<Longrightarrow> i \<le> leb_max bits \<Longrightarrow> acc < 2 ^ (7 * i) \<Longrightarrow>
     decodes (uleb_from bits i acc) c (uleb_loop bits i (7 * i) (word_of_nat acc) c)"
proof (induction "leb_max bits - i" arbitrary: i acc c)
  case 0
  then have "uleb_loop bits i (7 * i) (word_of_nat acc) c = fail ''uleb128: unterminated'' c"
    by (subst uleb_loop.simps) (simp add: leb_max_def)
  then show ?case using 0 by (simp add: decodes_def uleb_from_def rejected_fail)
next
  case (Suc k)
  let ?m = "leb_max bits"
  note mb = leb_max_bounds [OF Suc.prems(2)]
  have lt: "i < ?m" using Suc.hyps(2) by simp
  show ?case
  proof (cases "rest c")
    case Nil
    have "uleb_loop bits i (7 * i) (word_of_nat acc) c = fail ''u8: overrun'' c"
      using lt Nil read_u8_out [OF Suc.prems(1)]
      by (subst uleb_loop.simps) (simp add: leb_max_def fail_def)
    then show ?thesis using Nil Suc.prems(1) by (simp add: decodes_def uleb_from_def rejected_fail)
  next
    case (Cons b bs)
    have rd: "read_u8 c = (Got b, step 1 c)" using Cons read_u8_out [OF Suc.prems(1)] by simp
    have ok1: "rctx_ok (step 1 c)" using step_ok(1) [OF Suc.prems(1)] Cons by simp
    let ?acc = "acc + 2 ^ (7 * i) * (unat b mod 128)"
    have acc1: "?acc < 2 ^ (7 * Suc i)"
    proof -
      have "unat b mod 128 \<le> 127" using mod_less_divisor [of 128 "unat b"] by linarith
      then have "2 ^ (7 * i) * (unat b mod 128) \<le> 2 ^ (7 * i) * 127" by (rule mult_le_mono2)
      moreover have "(2::nat) ^ (7 * Suc i) = 2 ^ (7 * i) * 128" by (simp add: power_add)
      ultimately show ?thesis using Suc.prems(4) by linarith
    qed
    have res: "word_of_nat acc OR push_bit (7 * i) (ucast (b AND 0x7f)) = (word_of_nat ?acc :: u64)"
      using or_shift [OF Suc.prems(4), of "unat b mod 128"] unfolding ucast_low by simp
    have tk: "take (?m - i) (b # bs) = b # take (?m - Suc i) bs"
      using lt by (metis Suc_diff_Suc take_Suc_Cons)
    have loop: "uleb_loop bits i (7 * i) (word_of_nat acc) c =
        (if i = ?m - 1 \<and> \<not> unat b < 128 then fail ''uleb128: too long'' (step 1 c)
         else if i = ?m - 1 \<and> bits - 7 * i < 7 \<and> 2 ^ (bits - 7 * i) \<le> unat b
           then fail ''uleb128: value too large'' (step 1 c)
         else if unat b < 128 then (Got (word_of_nat ?acc), step 1 c)
         else uleb_loop bits (Suc i) (7 * Suc i) (word_of_nat ?acc) (step 1 c))"
      by (simp only: uleb_loop.simps [of bits i "7 * i" "word_of_nat acc" c] leb_max_def [symmetric] lt rd
          if_True rr.case prod.case byte_cont byte_shift res Let_def mult_Suc_right add.commute)
    show ?thesis
    proof (cases "i = ?m - 1")
      case True
      have sm: "7 * i < bits" "bits - 7 * i \<le> 7" using mb True by auto
      have z: "take (?m - i) (b # bs) = [b]" using True lt tk by simp
      show ?thesis
      proof (cases "unat b < 128")
        case False
        then have "uleb_loop bits i (7 * i) (word_of_nat acc) c = fail ''uleb128: too long'' (step 1 c)"
          using True loop by simp
        moreover have "uleb_from bits i acc (rest c) = None" using False Cons z by (simp add: uleb_from_def)
        ultimately show ?thesis
          using rejected_step [OF Suc.prems(1) rejected_fail [OF ok1]] by (simp add: decodes_def)
      next
        case b: True
        have ex: "(?acc < 2 ^ bits) = (unat b < 2 ^ (bits - 7 * i))"
        proof
          assume "?acc < 2 ^ bits"
          then have lt: "2 ^ (7 * i) * unat b < 2 ^ bits" using b by simp
          have "(2::nat) ^ bits = 2 ^ (7 * i) * 2 ^ (bits - 7 * i)" using sm by (simp flip: power_add)
          then show "unat b < 2 ^ (bits - 7 * i)" using lt by simp
        next
          assume "unat b < 2 ^ (bits - 7 * i)"
          then have "2 ^ (7 * i) * (unat b + 1) \<le> 2 ^ (7 * i) * 2 ^ (bits - 7 * i)"
            by (intro mult_le_mono2) simp
          moreover have "(2::nat) ^ (7 * i) * 2 ^ (bits - 7 * i) = 2 ^ bits"
            using sm by (simp flip: power_add)
          ultimately show "?acc < 2 ^ bits" using b Suc.prems(4) by (simp add: distrib_left)
        qed
        have small: "bits - 7 * i = 7 \<Longrightarrow> unat b < 2 ^ (bits - 7 * i)" using b by simp
        have spec: "uleb_from bits i acc (rest c) =
            (if unat b < 2 ^ (bits - 7 * i) then Some (word_of_nat ?acc, 1) else None)"
          using Cons z b ex by (simp add: uleb_from_def Let_def)
        show ?thesis
        proof (cases "unat b < 2 ^ (bits - 7 * i)")
          case True
          then have "uleb_loop bits i (7 * i) (word_of_nat acc) c = (Got (word_of_nat ?acc), step 1 c)"
            using loop b by simp
          then show ?thesis using True spec Cons by (simp add: decodes_def)
        next
          case False
          then have "bits - 7 * i < 7" using small sm(2) by fastforce
          then have "uleb_loop bits i (7 * i) (word_of_nat acc) c = fail ''uleb128: value too large'' (step 1 c)"
            using loop b False \<open>i = ?m - 1\<close> by simp
          then show ?thesis
            using False spec rejected_step [OF Suc.prems(1) rejected_fail [OF ok1]] by (simp add: decodes_def)
        qed
      qed
    next
      case False
      then have i1: "Suc i \<le> ?m - 1" using lt by simp
      have "(2::nat) ^ (7 * Suc i) \<le> 2 ^ bits" using i1 mb by (intro power_increasing) auto
      then have fit: "?acc < 2 ^ bits" using acc1 by linarith
      show ?thesis
      proof (cases "unat b < 128")
        case True
        then have "uleb_loop bits i (7 * i) (word_of_nat acc) c = (Got (word_of_nat ?acc), step 1 c)"
          using loop False by simp
        then show ?thesis using True fit tk Cons by (simp add: decodes_def uleb_from_def Let_def)
      next
        case b: False
        have "decodes (uleb_from bits (Suc i) ?acc) (step 1 c)
            (uleb_loop bits (Suc i) (7 * Suc i) (word_of_nat ?acc) (step 1 c))"
          using Suc.hyps Suc.prems(2) ok1 acc1 lt by (intro Suc.hyps(1)) auto
        moreover have "uleb_loop bits i (7 * i) (word_of_nat acc) c =
            uleb_loop bits (Suc i) (7 * Suc i) (word_of_nat ?acc) (step 1 c)"
          using loop False b by simp
        ultimately have "decodes (uleb_from bits (Suc i) ?acc) (step 1 c)
            (uleb_loop bits i (7 * i) (word_of_nat acc) c)" by simp
        then show ?thesis
          using lt b by (elim decodes_step [OF Suc.prems(1) Cons]) (simp_all add: uleb_from_cons)
      qed
    qed
  qed
qed

lemma uleb_from_0: "uleb_from bits 0 0 = dec_uleb bits"
  by (rule ext) (simp add: uleb_from_def dec_uleb_def Let_def split: option.splits)

lemma read_uleb128_decodes:
  "rctx_ok c \<Longrightarrow> 0 < bits \<Longrightarrow> decodes (dec_uleb bits) c (read_uleb128 bits c)"
  using uleb_loop_decodes [of c bits 0 0] by (simp add: read_uleb128_def uleb_from_0)

section \<open>Signed LEB128\<close>

text \<open>The last byte carries the sign in bit 6.\<close>

definition sleb_top :: "u8 \<Rightarrow> int" where
  "sleb_top b = int (unat b mod 128) - (if 64 \<le> unat b mod 128 then 128 else 0)"

fun sleb_val :: "bytes \<Rightarrow> int" where
  "sleb_val [] = 0"
| "sleb_val (b # bs) = (if bs = [] then sleb_top b else int (unat b mod 128) + 128 * sleb_val bs)"

definition signed_range :: "nat \<Rightarrow> int \<Rightarrow> bool" where
  "signed_range bits v = (- (2 ^ (bits - 1)) \<le> v \<and> v < 2 ^ (bits - 1))"

definition dec_sleb :: "nat \<Rightarrow> bytes \<Rightarrow> (u64 \<times> nat) option" where
  "dec_sleb bits bs = (case leb_split (take (leb_max bits) bs) of None \<Rightarrow> None
     | Some p \<Rightarrow> if signed_range bits (sleb_val p) then Some (word_of_int (sleb_val p), length p) else None)"

definition sleb_from :: "nat \<Rightarrow> nat \<Rightarrow> nat \<Rightarrow> bytes \<Rightarrow> (u64 \<times> nat) option" where
  "sleb_from bits i acc bs = (case leb_split (take (leb_max bits - i) bs) of None \<Rightarrow> None
     | Some p \<Rightarrow> let v = int acc + 2 ^ (7 * i) * sleb_val p
         in if signed_range bits v then Some (word_of_int v, length p) else None)"

lemma bit_low: "bit (take_bit 7 (unat (b :: u8))) k = (k < 7 \<and> bit b k)"
  by (auto simp: bit_simps)

lemma word_bits: "(x = (y :: 'a::len word)) = (\<forall>k. bit x k = bit y k)"
  by (auto intro: bit_word_eqI)

lemma sleb_pad_bits:
  assumes "0 < a" and "a \<le> 7"
  shows "(((b :: u8) AND 0x7f) AND NOT (drop_bit (7 - a) 0x7f) =
      (if b AND push_bit (a - 1) 1 \<noteq> 0 then 0x7f AND NOT (drop_bit (7 - a) 0x7f) else 0)) =
    (\<forall>k. a \<le> k \<longrightarrow> k < 7 \<longrightarrow> bit b k = bit b (a - 1))"
proof -
  have m: "(0x7f :: u8) = mask 7" by (simp add: mask_eq_exp_minus_1)
  have h: "bit ((b AND 0x7f) AND NOT (drop_bit (7 - a) 0x7f)) k = (bit b k \<and> a \<le> k \<and> k < 7)" for k
    using assms unfolding m by (auto simp: bit_simps dest: bit_imp_le_length)
  have e: "bit (0x7f AND NOT (drop_bit (7 - a) 0x7f) :: u8) k = (a \<le> k \<and> k < 7)" for k
    using assms unfolding m by (auto simp: bit_simps)
  have s: "(b AND push_bit (a - 1) 1 \<noteq> 0) = bit b (a - 1)" by (simp add: bit_iff_and_push_bit_not_eq_0)
  have "((b AND 0x7f) AND NOT (drop_bit (7 - a) 0x7f) =
      (if bit b (a - 1) then 0x7f AND NOT (drop_bit (7 - a) 0x7f) else 0)) =
    (\<forall>k. (bit b k \<and> a \<le> k \<and> k < 7) = (bit b (a - 1) \<and> a \<le> k \<and> k < 7))"
    unfolding word_bits h by (cases "bit b (a - 1)") (simp_all add: e)
  then show ?thesis unfolding s by auto
qed

lemma sleb_pad:
  assumes "0 < a" and "a \<le> 7"
  shows "(((b :: u8) AND 0x7f) AND NOT (drop_bit (7 - a) 0x7f) =
      (if b AND push_bit (a - 1) 1 \<noteq> 0 then 0x7f AND NOT (drop_bit (7 - a) 0x7f) else 0)) =
    (- (2 ^ (a - 1)) \<le> sleb_top b \<and> sleb_top b < 2 ^ (a - 1))"
proof -
  define u where "u = unat b mod 128"
  define x where "x = drop_bit (a - 1) (take_bit 7 (unat b))"
  have xu: "x = u div 2 ^ (a - 1)" by (simp add: x_def u_def drop_bit_eq_div take_bit_eq_mod)
  have bx: "bit x j = (a - 1 + j < 7 \<and> bit b (a - 1 + j))" for j
    by (simp add: x_def bit_drop_bit_eq bit_low)
  have u: "u < 128" by (simp add: u_def)
  have bit6: "(64 \<le> u) = bit b 6"
  proof -
    have "bit b 6 = bit (take_bit 7 (unat b)) 6" by (simp add: bit_low)
    also have "\<dots> = odd (u div 64)" by (simp add: u_def bit_iff_odd take_bit_eq_mod)
    also have "\<dots> = (64 \<le> u)"
      using u by (cases "u < 64") (auto simp: not_less le_div_geq)
    finally show ?thesis by simp
  qed
  have pw: "(2::nat) ^ (a - 1) * 2 ^ (8 - a) = 128"
    using assms by (simp flip: power_add)
  have "(\<forall>k. a \<le> k \<longrightarrow> k < 7 \<longrightarrow> bit b k = bit b (a - 1)) = (x = 0 \<or> x = mask (8 - a))"
  proof
    assume all: "\<forall>k. a \<le> k \<longrightarrow> k < 7 \<longrightarrow> bit b k = bit b (a - 1)"
    have eq: "a - 1 + j < 7 \<Longrightarrow> bit b (a - 1 + j) = bit b (a - 1)" for j
      using all assms by (cases j) auto
    show "x = 0 \<or> x = mask (8 - a)"
    proof (cases "bit b (a - 1)")
      case True
      have "x = mask (8 - a)"
        by (rule bit_eqI) (use True eq assms in \<open>auto simp: bx bit_mask_iff\<close>)
      then show ?thesis ..
    next
      case False
      have "x = 0" by (rule bit_eqI) (use False eq in \<open>auto simp: bx\<close>)
      then show ?thesis ..
    qed
  next
    assume "x = 0 \<or> x = mask (8 - a)"
    then show "\<forall>k. a \<le> k \<longrightarrow> k < 7 \<longrightarrow> bit b k = bit b (a - 1)"
    proof (elim disjE; intro allI impI)
      fix k assume "x = 0" "a \<le> k" "k < 7"
      then show "bit b k = bit b (a - 1)" using bx [of "k - (a - 1)"] bx [of 0] assms by simp
    next
      fix k assume x: "x = mask (8 - a)" and k: "a \<le> k" "k < 7"
      then show "bit b k = bit b (a - 1)"
        using bx [of "k - (a - 1)"] bx [of 0] assms by (auto simp: bit_mask_iff)
    qed
  qed
  also have "\<dots> = (u < 2 ^ (a - 1) \<or> 128 - 2 ^ (a - 1) \<le> u)"
  proof -
    have "(x = 0) = (u < 2 ^ (a - 1))" using xu by (simp add: div_eq_0_iff)
    moreover have "(x = mask (8 - a)) = (128 - 2 ^ (a - 1) \<le> u)"
    proof -
      have le: "x \<le> mask (8 - a)"
      proof -
        have "u div 2 ^ (a - 1) < 2 ^ (8 - a)" using u pw by (simp add: less_mult_imp_div_less mult.commute)
        then show ?thesis using xu by (simp add: mask_eq_exp_minus_1)
      qed
      then have "(x = mask (8 - a)) = (mask (8 - a) \<le> x)" by auto
      also have "\<dots> = (mask (8 - a) * 2 ^ (a - 1) \<le> u)" using xu by (simp add: less_eq_div_iff_mult_less_eq)
      also have "mask (8 - a) * 2 ^ (a - 1) = 128 - (2::nat) ^ (a - 1)"
        using pw by (simp add: mask_eq_exp_minus_1 algebra_simps)
      finally show ?thesis .
    qed
    ultimately show ?thesis by simp
  qed
  also have "\<dots> = (- (2 ^ (a - 1)) \<le> sleb_top b \<and> sleb_top b < 2 ^ (a - 1))"
  proof -
    have "(2::nat) ^ (a - 1) \<le> 2 ^ 6" using assms by (intro power_increasing) auto
    then have p: "(2::nat) ^ (a - 1) \<le> 64" by simp
    define P where "P = (2::nat) ^ (a - 1)"
    have i: "(2::int) ^ (a - 1) = int P" by (simp add: P_def)
    show ?thesis using p u unfolding i sleb_top_def u_def [symmetric] P_def [symmetric] by auto
  qed
  finally show ?thesis unfolding sleb_pad_bits [OF assms] .
qed

lemma byte_sign: "((b :: u8) AND 0x40 \<noteq> 0) = (64 \<le> unat b mod 128)"
proof -
  have "(0x40 :: u8) = push_bit 6 1" by simp
  then have "(b AND 0x40 \<noteq> 0) = bit b 6" by (simp add: bit_iff_and_push_bit_not_eq_0)
  also have "\<dots> = bit (take_bit 7 (unat b)) 6" by (simp add: bit_low)
  also have "\<dots> = odd (unat b mod 128 div 64)" by (simp add: bit_iff_odd take_bit_eq_mod)
  also have "\<dots> = (64 \<le> unat b mod 128)"
  proof -
    have "unat b mod 128 < 128" by simp
    then show ?thesis by (cases "unat b mod 128 < 64") (auto simp: not_less le_div_geq)
  qed
  finally show ?thesis .
qed

lemma or_ones:
  assumes "a < 2 ^ s"
  shows "(word_of_nat a :: u64) OR push_bit s (NOT 0) = word_of_int (int a - 2 ^ s)"
proof -
  have ta: "take_bit s a = a" using assms by (simp add: take_bit_nat_eq_self_iff)
  have "(word_of_nat a :: u64) + push_bit s (NOT 0) = word_of_nat a OR push_bit s (NOT 0)"
  proof (rule disjunctive_add_eq_or, rule bit_word_eqI)
    fix n
    have "\<not> bit a n" if "s \<le> n" using ta that by (metis bit_take_bit_iff not_le)
    then show "bit ((word_of_nat a :: u64) AND push_bit s (NOT 0)) n = bit (0 :: u64) n"
      by (cases "s \<le> n") (auto simp: bit_simps)
  qed
  then show ?thesis by (simp add: push_bit_eq_mult)
qed

lemma signed_range_last:
  assumes "sh < bits" and "acc < 2 ^ sh"
  shows "signed_range bits (int acc + 2 ^ sh * t) = (- (2 ^ (bits - sh - 1)) \<le> t \<and> t < 2 ^ (bits - sh - 1))"
proof -
  define P Q where "P = (2::int) ^ sh" and "Q = (2::int) ^ (bits - sh - 1)"
  have pq: "2 ^ (bits - 1) = P * Q" using assms(1) by (simp add: P_def Q_def flip: power_add)
  have a: "0 \<le> int acc" "int acc < P" using assms(2) by (simp_all add: P_def zless_nat_eq_int_zless of_nat_less_iff flip: of_nat_power)
  have P0: "0 < P" by (simp add: P_def)
  have "(- (P * Q) \<le> int acc + P * t) = (- Q \<le> t)"
  proof
    assume "- (P * Q) \<le> int acc + P * t"
    then have "P * (- Q) < P * (t + 1)" using a by (simp add: algebra_simps)
    then have "- Q < t + 1" using mult_less_cancel_left_pos [OF P0] by blast
    then show "- Q \<le> t" by simp
  next
    assume "- Q \<le> t"
    then have "P * (- Q) \<le> P * t" using a by (intro mult_left_mono) auto
    then show "- (P * Q) \<le> int acc + P * t" using a by simp
  qed
  moreover have "(int acc + P * t < P * Q) = (t < Q)"
  proof
    assume "int acc + P * t < P * Q"
    then have "P * t < P * Q" using a by linarith
    then show "t < Q" using mult_less_cancel_left_pos [OF P0] by blast
  next
    assume "t < Q"
    then have "P * (t + 1) \<le> P * Q" using a by (intro mult_left_mono) auto
    then show "int acc + P * t < P * Q" using a by (simp add: algebra_simps)
  qed
  ultimately show ?thesis unfolding signed_range_def pq unfolding P_def [symmetric] Q_def [symmetric] by simp
qed

lemma signed_range_early:
  assumes "7 * Suc i < bits" and "acc < 2 ^ (7 * i)" and "- 64 \<le> t" and "t < 64"
  shows "signed_range bits (int acc + 2 ^ (7 * i) * t)"
proof -
  have "(2::int) ^ 6 \<le> 2 ^ (bits - 7 * i - 1)" using assms(1) by (intro power_increasing) auto
  then show ?thesis using signed_range_last [of "7 * i" bits acc t] assms by auto
qed

lemma sleb_top_bounds: "- 64 \<le> sleb_top b \<and> sleb_top b < 64"
proof -
  have "unat b mod 128 < 128" by simp
  then show ?thesis by (auto simp: sleb_top_def)
qed

lemma sleb_from_cons:
  assumes "i < leb_max bits" and "\<not> unat b < 128"
  shows "sleb_from bits i acc (b # bs) =
    map_option (\<lambda>(v, n). (v, Suc n)) (sleb_from bits (Suc i) (acc + 2 ^ (7 * i) * (unat b mod 128)) bs)"
proof -
  have tk: "take (leb_max bits - i) (b # bs) = b # take (leb_max bits - Suc i) bs"
    using assms(1) by (metis Suc_diff_Suc take_Suc_Cons)
  show ?thesis
  proof (cases "leb_split (take (leb_max bits - Suc i) bs)")
    case None
    then show ?thesis using tk assms(2) by (simp add: sleb_from_def)
  next
    case (Some q)
    then have "q \<noteq> []" using leb_split_facts by fastforce
    then have p: "int acc + 2 ^ (7 * i) * sleb_val (b # q) =
        int (acc + 2 ^ (7 * i) * (unat b mod 128)) + 2 ^ (7 * Suc i) * sleb_val q"
      by (simp add: power_add distrib_left)
    have "leb_split (take (leb_max bits - i) (b # bs)) = Some (b # q)" using Some tk assms(2) by simp
    then show ?thesis using Some unfolding sleb_from_def by (simp only: option.case Let_def p) auto
  qed
qed

lemma sleb_loop_unfold:
  assumes "rctx_ok c" and "rest c = b # bs" and "i < leb_max bits" and "acc < 2 ^ (7 * i)"
    and "7 * i < bits" and "bits - 7 * i \<le> 7 \<or> i \<noteq> leb_max bits - 1" and "bits \<le> 64"
  shows "sleb_loop bits i (7 * i) (word_of_nat acc) c =
    (if i = leb_max bits - 1 \<and> \<not> unat b < 128 then fail ''sleb128: too long'' (step 1 c)
     else if i = leb_max bits - 1 \<and> \<not> signed_range bits (int acc + 2 ^ (7 * i) * sleb_top b)
       then fail ''sleb128: value out of range'' (step 1 c)
     else if unat b < 128 then (Got (word_of_int (int acc + 2 ^ (7 * i) * sleb_top b)), step 1 c)
     else sleb_loop bits (Suc i) (7 * Suc i) (word_of_nat (acc + 2 ^ (7 * i) * (unat b mod 128))) (step 1 c))"
    (is "?lhs = ?rhs")
proof -
  let ?m = "leb_max bits" and ?acc = "acc + 2 ^ (7 * i) * (unat b mod 128)"
  have rd: "read_u8 c = (Got b, step 1 c)" using assms(2) read_u8_out [OF assms(1)] by simp
  have res: "word_of_nat acc OR push_bit (7 * i) (ucast (b AND 0x7f)) = (word_of_nat ?acc :: u64)"
    using or_shift [OF assms(4), of "unat b mod 128"] unfolding ucast_low by simp
  have acc1: "?acc < 2 ^ (7 * Suc i)"
  proof -
    have "unat b mod 128 \<le> 127" using mod_less_divisor [of 128 "unat b"] by linarith
    then have "2 ^ (7 * i) * (unat b mod 128) \<le> 2 ^ (7 * i) * 127" by (rule mult_le_mono2)
    moreover have "(2::nat) ^ (7 * Suc i) = 2 ^ (7 * i) * 128" by (simp add: power_add)
    ultimately show ?thesis using assms(4) by linarith
  qed
  have val: "(if 7 * Suc i < 64 \<and> b AND 0x40 \<noteq> 0 then word_of_nat ?acc OR push_bit (7 * Suc i) (NOT 0)
      else (word_of_nat ?acc :: u64)) = word_of_int (int acc + 2 ^ (7 * i) * sleb_top b)"
  proof -
    have split: "int acc + 2 ^ (7 * i) * sleb_top b = int ?acc - (if 64 \<le> unat b mod 128 then 2 ^ (7 * Suc i) else 0)"
      by (simp add: sleb_top_def power_add algebra_simps)
    show ?thesis
    proof (cases "64 \<le> unat b mod 128")
      case False
      then show ?thesis unfolding split by (simp add: byte_sign)
    next
      case True
      show ?thesis
      proof (cases "7 * Suc i < 64")
        case T: True
        then show ?thesis using True or_ones [OF acc1] unfolding split by (simp add: byte_sign)
      next
        case False
        then have "(word_of_int (2 ^ (7 * Suc i)) :: u64) = 0"
          by (simp add: word_of_int_eq_0_iff le_imp_power_dvd)
        then show ?thesis using True False unfolding split of_int_diff by simp
      qed
    qed
  qed
  have "i = ?m - 1 \<Longrightarrow>
     (((b AND 0x7f) AND NOT (drop_bit (7 - (bits - 7 * i)) 0x7f) \<noteq>
       (if b AND push_bit (bits - 7 * i - 1) 1 \<noteq> 0 then 0x7f AND NOT (drop_bit (7 - (bits - 7 * i)) 0x7f) else 0))) =
     (\<not> signed_range bits (int acc + 2 ^ (7 * i) * sleb_top b))"
    using sleb_pad [of "bits - 7 * i" b] signed_range_last [OF assms(5,4), of "sleb_top b"] assms(5,6) by simp
  then have pad: "(i = ?m - 1 \<and> (b AND 0x7f) AND NOT (drop_bit (7 - (bits - 7 * i)) 0x7f) \<noteq>
       (if b AND push_bit (bits - 7 * i - 1) 1 \<noteq> 0 then 0x7f AND NOT (drop_bit (7 - (bits - 7 * i)) 0x7f) else 0)) =
     (i = ?m - 1 \<and> \<not> signed_range bits (int acc + 2 ^ (7 * i) * sleb_top b))"
    by blast
  have sh: "7 * i + 7 = 7 * Suc i" by simp
  have "?lhs = (if i = ?m - 1 \<and> b AND 0x80 \<noteq> 0 then fail ''sleb128: too long'' (step 1 c)
     else if i = ?m - 1 \<and> (b AND 0x7f) AND NOT (drop_bit (7 - (bits - 7 * i)) 0x7f) \<noteq>
       (if b AND push_bit (bits - 7 * i - 1) 1 \<noteq> 0 then 0x7f AND NOT (drop_bit (7 - (bits - 7 * i)) 0x7f) else 0)
       then fail ''sleb128: value out of range'' (step 1 c)
     else if b AND 0x80 = 0
       then (Got (if 7 * Suc i < 64 \<and> b AND 0x40 \<noteq> 0 then word_of_nat ?acc OR push_bit (7 * Suc i) (NOT 0)
                  else word_of_nat ?acc), step 1 c)
     else sleb_loop bits (Suc i) (7 * Suc i) (word_of_nat ?acc) (step 1 c))"
    by (simp only: sleb_loop.simps [of bits i "7 * i" "word_of_nat acc" c] leb_max_def [symmetric] assms(3) rd
        if_True rr.case prod.case res Let_def sh)
  then show ?thesis
    by (simp only: val byte_cont pad)
qed

lemma sleb_loop_decodes:
  "rctx_ok c \<Longrightarrow> 0 < bits \<Longrightarrow> bits \<le> 64 \<Longrightarrow> i \<le> leb_max bits \<Longrightarrow> acc < 2 ^ (7 * i) \<Longrightarrow>
     decodes (sleb_from bits i acc) c (sleb_loop bits i (7 * i) (word_of_nat acc) c)"
proof (induction "leb_max bits - i" arbitrary: i acc c)
  case 0
  then have "sleb_loop bits i (7 * i) (word_of_nat acc) c = fail ''sleb128: unterminated'' c"
    by (subst sleb_loop.simps) (simp add: leb_max_def)
  then show ?case using 0 by (simp add: decodes_def sleb_from_def rejected_fail)
next
  case (Suc k)
  let ?m = "leb_max bits"
  note mb = leb_max_bounds [OF Suc.prems(2)]
  have lt: "i < ?m" using Suc.hyps(2) by simp
  have sm: "7 * i < bits" "bits - 7 * i \<le> 7 \<or> i \<noteq> ?m - 1" using mb lt by auto
  show ?case
  proof (cases "rest c")
    case Nil
    have "sleb_loop bits i (7 * i) (word_of_nat acc) c = fail ''u8: overrun'' c"
      using lt Nil read_u8_out [OF Suc.prems(1)]
      by (subst sleb_loop.simps) (simp add: leb_max_def fail_def)
    then show ?thesis using Nil Suc.prems(1) by (simp add: decodes_def sleb_from_def rejected_fail)
  next
    case (Cons b bs)
    note loop = sleb_loop_unfold [OF Suc.prems(1) Cons lt Suc.prems(5) sm Suc.prems(3)]
    have ok1: "rctx_ok (step 1 c)" using step_ok(1) [OF Suc.prems(1)] Cons by simp
    note rej = rejected_step [OF Suc.prems(1) rejected_fail [OF ok1]]
    let ?acc = "acc + 2 ^ (7 * i) * (unat b mod 128)"
    have tk: "take (?m - i) (b # bs) = b # take (?m - Suc i) bs"
      using lt by (metis Suc_diff_Suc take_Suc_Cons)
    have early: "i \<noteq> ?m - 1 \<Longrightarrow> signed_range bits (int acc + 2 ^ (7 * i) * sleb_top b)"
    proof -
      assume "i \<noteq> ?m - 1"
      then have "7 * Suc i < bits" using mb lt by auto
      then show ?thesis using signed_range_early [OF _ Suc.prems(5)] sleb_top_bounds by blast
    qed
    show ?thesis
    proof (cases "unat b < 128")
      case True
      have "sleb_from bits i acc (rest c) = (if signed_range bits (int acc + 2 ^ (7 * i) * sleb_top b)
          then Some (word_of_int (int acc + 2 ^ (7 * i) * sleb_top b), 1) else None)"
        using True tk Cons by (simp add: sleb_from_def Let_def)
      then show ?thesis
        using True loop early rej Cons by (cases "i = ?m - 1") (auto simp: decodes_def)
    next
      case False
      show ?thesis
      proof (cases "i = ?m - 1")
        case True
        then have "sleb_from bits i acc (rest c) = None" using False tk lt Cons by (simp add: sleb_from_def)
        then show ?thesis using True False loop rej by (simp add: decodes_def)
      next
        case F: False
        have "?acc < 2 ^ (7 * Suc i)"
        proof -
          have "unat b mod 128 \<le> 127" using mod_less_divisor [of 128 "unat b"] by linarith
          then have "2 ^ (7 * i) * (unat b mod 128) \<le> 2 ^ (7 * i) * 127" by (rule mult_le_mono2)
          moreover have "(2::nat) ^ (7 * Suc i) = 2 ^ (7 * i) * 128" by (simp add: power_add)
          ultimately show ?thesis using Suc.prems(5) by linarith
        qed
        then have "decodes (sleb_from bits (Suc i) ?acc) (step 1 c)
            (sleb_loop bits (Suc i) (7 * Suc i) (word_of_nat ?acc) (step 1 c))"
          using Suc.hyps Suc.prems(2,3) ok1 lt by (intro Suc.hyps(1)) auto
        then have "decodes (sleb_from bits (Suc i) ?acc) (step 1 c) (sleb_loop bits i (7 * i) (word_of_nat acc) c)"
          using loop F False by simp
        then show ?thesis
          using lt False by (elim decodes_step [OF Suc.prems(1) Cons]) (simp_all add: sleb_from_cons)
      qed
    qed
  qed
qed

lemma sleb_from_0: "sleb_from bits 0 0 = dec_sleb bits"
  by (rule ext) (simp add: sleb_from_def dec_sleb_def Let_def split: option.splits)

lemma read_sleb128_decodes:
  "rctx_ok c \<Longrightarrow> 0 < bits \<Longrightarrow> bits \<le> 64 \<Longrightarrow> decodes (dec_sleb bits) c (read_sleb128 bits c)"
  using sleb_loop_decodes [of c bits 0 0] by (simp add: read_sleb128_def sleb_from_0)

section \<open>Every decoder\<close>

datatype order = BE | LE | Native

datatype prim = PU8 | PI8 | PU16 order | PI16 order | PU32 order | PI32 order | PU64 order | PI64 order
  | PF32 order | PF64 order | PBool | PULEB32 | PULEB64 | PSLEB32 | PSLEB64 | PS33

text \<open>All of them, at the width of the widest: unsigned results zero-extended, signed ones
  sign-extended (the value the generated code stores in an \<open>int64_t\<close>).\<close>

fun read_prim :: "prim \<Rightarrow> u64 rd" where
  "read_prim PU8 = map_rd ucast read_u8"
| "read_prim PI8 = map_rd scast read_i8"
| "read_prim (PU16 BE) = map_rd ucast read_u16be"
| "read_prim (PU16 LE) = map_rd ucast read_u16le"
| "read_prim (PU16 Native) = map_rd ucast read_u16"
| "read_prim (PI16 BE) = map_rd scast read_i16be"
| "read_prim (PI16 LE) = map_rd scast read_i16le"
| "read_prim (PI16 Native) = map_rd scast read_i16"
| "read_prim (PU32 BE) = map_rd ucast read_u32be"
| "read_prim (PU32 LE) = map_rd ucast read_u32le"
| "read_prim (PU32 Native) = map_rd ucast read_u32"
| "read_prim (PI32 BE) = map_rd scast read_i32be"
| "read_prim (PI32 LE) = map_rd scast read_i32le"
| "read_prim (PI32 Native) = map_rd scast read_i32"
| "read_prim (PU64 BE) = read_u64be"
| "read_prim (PU64 LE) = read_u64le"
| "read_prim (PU64 Native) = read_u64"
| "read_prim (PI64 BE) = read_i64be"
| "read_prim (PI64 LE) = read_i64le"
| "read_prim (PI64 Native) = read_i64"
| "read_prim (PF32 BE) = map_rd ucast read_f32be"
| "read_prim (PF32 LE) = map_rd ucast read_f32le"
| "read_prim (PF32 Native) = map_rd ucast read_f32"
| "read_prim (PF64 BE) = read_f64be"
| "read_prim (PF64 LE) = read_f64le"
| "read_prim (PF64 Native) = read_f64"
| "read_prim PBool = map_rd (\<lambda>b. if b then 1 else 0) read_bool"
| "read_prim PULEB32 = map_rd ucast read_uleb128_u32"
| "read_prim PULEB64 = read_uleb128_u64"
| "read_prim PSLEB32 = map_rd scast read_sleb128_i32"
| "read_prim PSLEB64 = read_sleb128_i64"
| "read_prim PS33 = map_rd scast read_sleb128_s33"

text \<open>The specification: bytes in the declared order as one number.\<close>

definition little :: "order \<Rightarrow> bool \<Rightarrow> bool" where
  "little e reg = (case e of BE \<Rightarrow> False | LE \<Rightarrow> True | Native \<Rightarrow> reg)"

definition fixed :: "nat \<Rightarrow> (bytes \<Rightarrow> 'a) \<Rightarrow> bytes \<Rightarrow> ('a \<times> nat) option" where
  "fixed n f bs = (if n \<le> length bs then Some (f (take n bs), n) else None)"

fun dec_prim :: "prim \<Rightarrow> bool \<Rightarrow> bytes \<Rightarrow> (u64 \<times> nat) option" where
  "dec_prim PU8 reg = fixed 1 (\<lambda>bs. ucast (hd bs))"
| "dec_prim PI8 reg = fixed 1 (\<lambda>bs. scast (hd bs))"
| "dec_prim (PU16 e) reg = fixed 2 (\<lambda>bs. ucast (of_bytes (little e reg) bs :: u16))"
| "dec_prim (PI16 e) reg = fixed 2 (\<lambda>bs. scast (of_bytes (little e reg) bs :: u16))"
| "dec_prim (PU32 e) reg = fixed 4 (\<lambda>bs. ucast (of_bytes (little e reg) bs :: u32))"
| "dec_prim (PI32 e) reg = fixed 4 (\<lambda>bs. scast (of_bytes (little e reg) bs :: u32))"
| "dec_prim (PU64 e) reg = fixed 8 (of_bytes (little e reg))"
| "dec_prim (PI64 e) reg = fixed 8 (of_bytes (little e reg))"
| "dec_prim (PF32 e) reg = fixed 4 (\<lambda>bs. ucast (of_bytes (little e reg) bs :: u32))"
| "dec_prim (PF64 e) reg = fixed 8 (of_bytes (little e reg))"
| "dec_prim PBool reg = fixed 1 (\<lambda>bs. if hd bs \<noteq> 0 then 1 else 0)"
| "dec_prim PULEB32 reg = dec_uleb 32"
| "dec_prim PULEB64 reg = dec_uleb 64"
| "dec_prim PSLEB32 reg = dec_sleb 32"
| "dec_prim PSLEB64 reg = dec_sleb 64"
| "dec_prim PS33 reg = (\<lambda>bs. map_option (\<lambda>(v, n). (scast (ucast v :: u32), n)) (dec_sleb 33 bs))"

lemma rejected_map: "rejected c (m c) \<Longrightarrow> rejected c (map_rd f m c)"
  by (cases "m c") (auto simp: rejected_def map_rd_def)

lemma decodes_map:
  "decodes dec c (m c) \<Longrightarrow> (\<And>bs. dec' bs = map_option (\<lambda>(v, n). (f v, n)) (dec bs)) \<Longrightarrow>
     decodes dec' c (map_rd f m c)"
  by (auto simp: decodes_def rejected_map split: option.splits) (simp add: map_rd_def)

lemma decodes_fixed:
  assumes "rctx_ok c" and "0 < n" and "n \<le> 8" and "\<And>bs. length bs = n \<Longrightarrow> f bs = g bs"
  shows "decodes (fixed n g) c (map_rd f (take_bytes n m) c)"
  using assms take_bytes_out [OF assms(1-3), of m] rejected_map [where m = "fail m" and c = c and f = f, OF rejected_fail [OF assms(1)]]
  by (auto simp: decodes_def fixed_def map_rd_def fail_def rejected_def)

lemma decodes_u8: "rctx_ok c \<Longrightarrow> decodes (fixed 1 hd) c (read_u8 c)"
  using read_u8_out [of c] by (auto simp: decodes_def fixed_def rejected_fail split: list.splits)

lemma decodes_words:
  assumes "rctx_ok c"
  shows "decodes (fixed 2 (of_bytes False)) c (read_u16be c)" "decodes (fixed 2 (of_bytes True)) c (read_u16le c)"
    "decodes (fixed 4 (of_bytes False)) c (read_u32be c)" "decodes (fixed 4 (of_bytes True)) c (read_u32le c)"
    "decodes (fixed 8 (of_bytes False)) c (read_u64be c)" "decodes (fixed 8 (of_bytes True)) c (read_u64le c)"
  unfolding read_u16be_def read_u16le_def read_u32be_def read_u32le_def read_u64be_def read_u64le_def Let_def
  by (rule decodes_fixed [OF assms]; simp add: load_swap)+

lemma scast_same: "(scast :: 'a::len word \<Rightarrow> 'a word) = (\<lambda>w. w)"
  by (rule ext) (simp add: scast_eq)

lemmas signed_reads = read_i8_def read_i16be_def read_i16le_def read_i32be_def read_i32le_def
  read_i64be_def read_i64le_def

lemma map_rd_id: "map_rd (\<lambda>x. x) m c = m c"
  by (simp add: map_rd_def split: prod.splits rr.splits)

lemma map_rd_map: "map_rd f (map_rd g m) c = map_rd (\<lambda>x. f (g x)) m c"
  by (simp add: map_rd_def split: prod.splits rr.splits)

lemma map_rd_cong: "m c = m' c' \<Longrightarrow> map_rd f m c = map_rd f m' c'"
  by (simp add: map_rd_def)

lemma read_signed [simp]:
  "read_i8 c = read_u8 c" "read_i16be c = read_u16be c" "read_i16le c = read_u16le c"
  "read_i32be c = read_u32be c" "read_i32le c = read_u32le c" "read_i64be c = read_u64be c"
  "read_i64le c = read_u64le c" "read_f32be c = read_u32be c" "read_f32le c = read_u32le c"
  "read_f64be c = read_u64be c" "read_f64le c = read_u64le c"
  by (simp_all add: signed_reads read_f32be_def read_f32le_def read_f64be_def read_f64le_def scast_same map_rd_id)

lemma fixed_map: "map_option (\<lambda>(v, n). (f v, n)) (fixed n g bs) = fixed n (\<lambda>bs. f (g bs)) bs"
  by (simp add: fixed_def)

lemma decodes_leb32:
  assumes "rctx_ok c"
  shows "decodes (dec_uleb 32) c (map_rd ucast read_uleb128_u32 c)"
    and "decodes (dec_sleb 32) c (map_rd scast read_sleb128_i32 c)"
proof -
  have "decodes (dec_uleb 32) c (map_rd (\<lambda>v. ucast (ucast v :: u32)) (read_uleb128 32) c)"
  proof (rule decodes_map [where m = "read_uleb128 32", OF read_uleb128_decodes [OF assms]])
    have u: "v < 2 ^ 32 \<Longrightarrow> ucast (ucast (word_of_nat v :: u64) :: u32) = (word_of_nat v :: u64)" for v
    proof (rule bit_word_eqI)
      fix n assume v: "v < 2 ^ 32" and n: "n < LENGTH(64)"
      have "bit v n \<Longrightarrow> n < 32"
        using v by (metis bit_take_bit_iff take_bit_nat_eq_self_iff)
      then show "bit (ucast (ucast (word_of_nat v :: u64) :: u32) :: u64) n = bit (word_of_nat v :: u64) n"
        by (auto simp: bit_simps)
    qed
    show "dec_uleb 32 bs = map_option (\<lambda>(v, n). (ucast (ucast v :: u32), n)) (dec_uleb 32 bs)" for bs
      using u by (auto simp: dec_uleb_def split: option.splits)
  qed simp
  then show "decodes (dec_uleb 32) c (map_rd ucast read_uleb128_u32 c)"
    unfolding read_uleb128_u32_def map_rd_map .
  have "decodes (dec_sleb 32) c (map_rd (\<lambda>v. scast (ucast v :: u32)) (read_sleb128 32) c)"
  proof (rule decodes_map [where m = "read_sleb128 32", OF read_sleb128_decodes [OF assms]])
    have u: "signed_range 32 v \<Longrightarrow> scast (ucast (word_of_int v :: u64) :: u32) = (word_of_int v :: u64)" for v
    proof -
      assume r: "signed_range 32 v"
      have "(ucast (word_of_int v :: u64) :: u32) = word_of_int v"
        by (rule bit_word_eqI) (simp add: bit_simps)
      moreover have "sint (word_of_int v :: u32) = v"
        using r by (simp add: signed_range_def sint_sbintrunc' signed_take_bit_int_eq_self)
      ultimately show ?thesis by (metis scast_eq)
    qed
    show "dec_sleb 32 bs = map_option (\<lambda>(v, n). (scast (ucast v :: u32), n)) (dec_sleb 32 bs)" for bs
      using u by (auto simp: dec_sleb_def split: option.splits)
  qed simp_all
  then show "decodes (dec_sleb 32) c (map_rd scast read_sleb128_i32 c)"
    unfolding read_sleb128_i32_def map_rd_map .
qed

lemma decodes_conv:
  "decodes (fixed n g) c (m c) \<Longrightarrow> decodes (fixed n (\<lambda>bs. f (g bs))) c (map_rd f m c)"
  by (erule decodes_map) (simp add: fixed_map)

theorem read_prim_decodes:
  assumes "rctx_ok c"
  shows "decodes (dec_prim p (r_le c)) c (read_prim p c)"
proof -
  note W = decodes_words [OF assms]
  have N: "decodes (fixed 2 (of_bytes (r_le c))) c (read_u16 c)" "decodes (fixed 2 (of_bytes (r_le c))) c (read_i16 c)"
    "decodes (fixed 4 (of_bytes (r_le c))) c (read_u32 c)" "decodes (fixed 4 (of_bytes (r_le c))) c (read_i32 c)"
    "decodes (fixed 8 (of_bytes (r_le c))) c (read_u64 c)" "decodes (fixed 8 (of_bytes (r_le c))) c (read_i64 c)"
    "decodes (fixed 4 (of_bytes (r_le c))) c (read_f32 c)" "decodes (fixed 8 (of_bytes (r_le c))) c (read_f64 c)"
    using W by (simp_all add: read_u16_def read_i16_def read_u32_def read_i32_def read_u64_def read_i64_def
        read_f32_def read_f64_def)
  show ?thesis
  proof (cases p)
    case PU8
    then show ?thesis using decodes_conv [where f = "ucast" and m = read_u8, OF decodes_u8 [OF assms]] by simp
  next
    case PI8
    then show ?thesis using decodes_conv [where f = "scast" and m = read_i8] decodes_u8 [OF assms] by simp
  next
    case (PU16 e)
    then show ?thesis using decodes_conv [where f = "ucast" and m = read_u16be, OF W(1)] decodes_conv [where f = "ucast" and m = read_u16le, OF W(2)] decodes_conv [where f = "ucast" and m = read_u16, OF N(1)]
      by (cases e) (simp_all add: little_def)
  next
    case (PI16 e)
    then show ?thesis using decodes_conv [where f = "scast" and m = read_i16be] decodes_conv [where f = "scast" and m = read_i16le] W decodes_conv [where f = "scast" and m = read_i16, OF N(2)]
      by (cases e) (simp_all add: little_def)
  next
    case (PU32 e)
    then show ?thesis using decodes_conv [where f = "ucast" and m = read_u32be, OF W(3)] decodes_conv [where f = "ucast" and m = read_u32le, OF W(4)] decodes_conv [where f = "ucast" and m = read_u32, OF N(3)]
      by (cases e) (simp_all add: little_def)
  next
    case (PI32 e)
    then show ?thesis using decodes_conv [where f = "scast" and m = read_i32be] decodes_conv [where f = "scast" and m = read_i32le] W decodes_conv [where f = "scast" and m = read_i32, OF N(4)]
      by (cases e) (simp_all add: little_def)
  next
    case (PU64 e)
    then show ?thesis using W N by (cases e) (simp_all add: little_def)
  next
    case (PI64 e)
    then show ?thesis using W N by (cases e) (simp_all add: little_def)
  next
    case (PF32 e)
    then show ?thesis using decodes_conv [where f = "ucast" and m = read_f32be] decodes_conv [where f = "ucast" and m = read_f32le] W decodes_conv [where f = "ucast" and m = read_f32, OF N(7)]
      by (cases e) (simp_all add: little_def)
  next
    case (PF64 e)
    then show ?thesis using W N by (cases e) (simp_all add: little_def)
  next
    case PBool
    have "map_rd (\<lambda>b. if b then 1 else 0) read_bool c = map_rd (\<lambda>v. if v \<noteq> 0 then 1 else (0 :: u64)) read_u8 c"
      unfolding read_bool_def map_rd_map ..
    then show ?thesis using PBool decodes_conv [where f = "\<lambda>v. if v \<noteq> 0 then 1 else 0" and m = read_u8, OF decodes_u8 [OF assms]] by simp
  next
    case PULEB32
    then show ?thesis using decodes_leb32 [OF assms] by simp
  next
    case PULEB64
    then show ?thesis using read_uleb128_decodes [OF assms] by (simp add: read_uleb128_u64_def)
  next
    case PSLEB32
    then show ?thesis using decodes_leb32 [OF assms] by simp
  next
    case PSLEB64
    then show ?thesis using read_sleb128_decodes [OF assms] by (simp add: read_sleb128_i64_def)
  next
    case PS33
    have "read_prim p c = map_rd (\<lambda>v. scast (ucast v :: u32)) (read_sleb128 33) c"
      using PS33 by (simp add: read_sleb128_s33_def map_rd_map)
    moreover have "decodes (dec_prim p (r_le c)) c (map_rd (\<lambda>v. scast (ucast v :: u32)) (read_sleb128 33) c)"
      by (rule decodes_map [where m = "read_sleb128 33", OF read_sleb128_decodes [OF assms]]) (simp_all add: PS33)
    ultimately show ?thesis by simp
  qed
qed

end
