(* ===== verification/ReadMachine.thy ===== *)
theory ReadMachine
  imports Decoder
begin

text \<open>
  The read context as a machine: the operations the generated readers call, in any order, against
  the abstract cursor of \<open>ReadCtx\<close>. Two operations have obligations for their callers: \<open>bbq_seek\<close> goes where
  it is told, so the target must lie in the input, and a loop counter must not be counted past
  \<open>INT64_MAX\<close>. Safety holds for every program of operations that meets them; refinement needs
  in addition that no \<open>bbq_advance\<close> is asked for a distance that overflows \<open>size_t\<close>.
\<close>

datatype rop = Seek size_t | SeekTo size_t | Advance size_t | PushScope nat | PopScope | PushLoop i64 | PopLoop
  | LoopNext | LoopAdvance | SetIndex i64 | PushBase int | PopBase | PushWin size_t | PopWin | PopWinChecked
  | Endian bool | Read prim

definition void :: "(rctx \<Rightarrow> rctx) \<Rightarrow> u64 rd" where
  "void f c = (Got 0, f c)"

definition unit0 :: "unit rd \<Rightarrow> u64 rd" where
  "unit0 = map_rd (\<lambda>_. 0)"

fun rop_step :: "rop \<Rightarrow> u64 rd" where
  "rop_step (Seek p) = unit0 (seek_checked p)"
| "rop_step (SeekTo p) = void (seek p)"
| "rop_step (Advance n) = unit0 (advance n)"
| "rop_step (PushScope p) = unit0 (push_scope p)"
| "rop_step PopScope = void pop_scope"
| "rop_step (PushLoop l) = unit0 (push_loop_n l)"
| "rop_step PopLoop = void pop_loop"
| "rop_step LoopNext = map_rd (\<lambda>b. if b then 1 else 0) loop_next"
| "rop_step LoopAdvance = unit0 loop_advance"
| "rop_step (SetIndex i) = unit0 (set_loop_index i)"
| "rop_step (PushBase b) = unit0 (push_loop_base b)"
| "rop_step PopBase = void pop_loop_base"
| "rop_step (PushWin e) = unit0 (push_interval_checked e)"
| "rop_step PopWin = void pop_interval"
| "rop_step PopWinChecked = unit0 pop_interval_checked"
| "rop_step (Endian b) = void (set_endian b)"
| "rop_step (Read p) = read_prim p"

text \<open>The abstract machine, over lists and numbers.\<close>

definition a_rest :: "bytes \<Rightarrow> cursor \<Rightarrow> bytes" where
  "a_rest data a = take (unat (snd (window (word_of_nat (length data)) a)) - unat (a_pos a))
     (drop (unat (a_pos a)) data)"

definition set_last :: "'a \<Rightarrow> 'a list \<Rightarrow> 'a list" where
  "set_last x xs = (if xs = [] then [] else xs[length xs - 1 := x])"

fun astep :: "bytes \<Rightarrow> rop \<Rightarrow> cursor \<Rightarrow> (u64 \<times> cursor) option" where
  "astep data (Seek p) a = (if unat p \<le> length data then Some (0, a\<lparr>a_pos := p\<rparr>) else None)"
| "astep data (SeekTo p) a = Some (0, a\<lparr>a_pos := p\<rparr>)"
| "astep data (Advance n) a =
     (if unat (a_pos a) + unat n \<le> unat (snd (window (word_of_nat (length data)) a))
      then Some (0, a\<lparr>a_pos := a_pos a + n\<rparr>) else None)"
| "astep data (PushScope p) a = Some (0, a\<lparr>a_scopes := a_scopes a @ [p]\<rparr>)"
| "astep data PopScope a = Some (0, a\<lparr>a_scopes := butlast (a_scopes a)\<rparr>)"
| "astep data (PushLoop l) a =
     Some (0, a\<lparr>a_idx := a_idx a @ [0], a_lim := a_lim a @ [l], a_cap := a_cap a @ [0]\<rparr>)"
| "astep data PopLoop a =
     Some (0, a\<lparr>a_idx := butlast (a_idx a), a_lim := butlast (a_lim a), a_cap := butlast (a_cap a)\<rparr>)"
| "astep data LoopNext a =
     Some (if a_idx a \<noteq> [] \<and> last (a_idx a) + 1 <s last (a_lim a) then 1 else 0,
       a\<lparr>a_idx := set_last (last (a_idx a) + 1) (a_idx a)\<rparr>)"
| "astep data LoopAdvance a = Some (0, a\<lparr>a_idx := set_last (last (a_idx a) + 1) (a_idx a)\<rparr>)"
| "astep data (SetIndex i) a = Some (0, a\<lparr>a_idx := set_last i (a_idx a)\<rparr>)"
| "astep data (PushBase b) a = Some (0, a\<lparr>a_bases := a_bases a @ [b]\<rparr>)"
| "astep data PopBase a = Some (0, a\<lparr>a_bases := butlast (a_bases a)\<rparr>)"
| "astep data (PushWin e) a =
     (if fits_window (word_of_nat (length data)) e a
      then Some (0, a\<lparr>a_wins := a_wins a @ [(a_pos a, e)]\<rparr>) else None)"
| "astep data PopWin a = Some (0, a\<lparr>a_wins := butlast (a_wins a)\<rparr>)"
| "astep data PopWinChecked a =
     (if a_wins a \<noteq> [] \<and> a_pos a = snd (last (a_wins a))
      then Some (0, a\<lparr>a_wins := butlast (a_wins a)\<rparr>) else None)"
| "astep data (Endian b) a = Some (0, a\<lparr>a_le := b\<rparr>)"
| "astep data (Read p) a = (case dec_prim p (a_le a) (a_rest data a) of
      None \<Rightarrow> None | Some (v, n) \<Rightarrow> Some (v, a\<lparr>a_pos := a_pos a + word_of_nat n\<rparr>))"

text \<open>An operation whose distance overflows \<open>size_t\<close>.\<close>

fun overflows :: "cursor \<Rightarrow> rop \<Rightarrow> bool" where
  "overflows a (Advance n) = (2 ^ 64 \<le> unat (a_pos a) + unat n)"
| "overflows a x = False"

text \<open>What the callers of an operation owe it.\<close>

fun owed :: "nat \<Rightarrow> rop \<Rightarrow> cursor \<Rightarrow> bool" where
  "owed len (SeekTo p) a = (unat p \<le> len)"
| "owed len LoopNext a = (a_idx a \<noteq> [] \<longrightarrow> last (a_idx a) \<noteq> INT64_MAX)"
| "owed len LoopAdvance a = (a_idx a \<noteq> [] \<longrightarrow> last (a_idx a) \<noteq> INT64_MAX)"
| "owed len x a = True"

text \<open>A refused operation moves at most the position; a checked pop has popped before it compares.\<close>

definition moved_only :: "rop \<Rightarrow> cursor \<Rightarrow> cursor \<Rightarrow> bool" where
  "moved_only x a a' = ((\<exists>p. a' = a\<lparr>a_pos := p\<rparr>) \<or>
     x = PopWinChecked \<and> a_wins a \<noteq> [] \<and> a' = a\<lparr>a_wins := butlast (a_wins a)\<rparr>)"

lemma moved_only_refl [simp]: "moved_only x (cursor_of c) (cursor_of c)"
  by (auto simp: moved_only_def intro: exI [of _ "r_pos c"])

definition safe :: "rop \<Rightarrow> rctx \<Rightarrow> u64 rr \<times> rctx \<Rightarrow> bool" where
  "safe x c out = (fst out \<noteq> UB \<and> rctx_ok (snd out) \<and> same_input c (snd out) \<and>
     (fst out = Rej \<longrightarrow> moved_only x (cursor_of c) (cursor_of (snd out))))"

definition refines :: "bytes \<Rightarrow> rop \<Rightarrow> rctx \<Rightarrow> u64 rr \<times> rctx \<Rightarrow> bool" where
  "refines data x c out = (case out of
      (Got v, c') \<Rightarrow> astep data x (cursor_of c) = Some (v, cursor_of c')
    | (Rej, c') \<Rightarrow> r_error c' \<noteq> None \<and> (astep data x (cursor_of c) = None \<or> ctx_oom c')
    | (UB, c') \<Rightarrow> False)"

section \<open>Each operation\<close>

lemma len_word: "rctx_ok c \<Longrightarrow> word_of_nat (length (r_data c)) = r_len c"
proof -
  assume "rctx_ok c"
  then have "length (r_data c) = unat (r_len c)" by (simp add: rctx_ok_def)
  then show ?thesis by simp
qed

lemma rest_a_rest: "rctx_ok c \<Longrightarrow> rest c = a_rest (r_data c) (cursor_of c)"
  by (simp add: rest_def a_rest_def len_word)

lemma unit0_does:
  assumes "rctx_ok c" and "does f c (m c)" and "astep (r_data c) x (cursor_of c) = Some (0, f (cursor_of c))"
  shows "safe x c (unit0 m c) \<and> refines (r_data c) x c (unit0 m c)"
  using assms by (cases "m c") (auto simp: does_def unit0_def map_rd_def safe_def refines_def)

lemma void_step:
  assumes "rctx_ok (f c) \<and> same_input c (f c) \<and> cursor_of (f c) = a'"
    and "astep (r_data c) x (cursor_of c) = Some (0, a')"
  shows "safe x c (void f c) \<and> refines (r_data c) x c (void f c)"
  using assms by (auto simp: void_def safe_def refines_def)

lemma unit0_fail: "rctx_ok c' \<Longrightarrow> same_input c c' \<Longrightarrow> moved_only x (cursor_of c) (cursor_of c') \<Longrightarrow>
    astep (r_data c) x (cursor_of c) = None \<Longrightarrow>
    m c = fail msg c' \<Longrightarrow> safe x c (unit0 m c) \<and> refines (r_data c) x c (unit0 m c)"
  by (simp add: unit0_def map_rd_def fail_def safe_def refines_def same_input_def)

lemma advance_out:
  assumes "rctx_ok c"
  shows "advance n c = (if snd (window (r_len c) (cursor_of c)) < r_pos c + n
      then fail ''unexpected end of input'' c else (Got (), c\<lparr>r_pos := r_pos c + n\<rparr>))"
  using assms by (simp add: advance_def effective_end_ok rctx_ok_def)

lemma advance_safe: "rctx_ok c \<Longrightarrow> safe (Advance n) c (unit0 (advance n) c)"
proof -
  assume ok: "rctx_ok c"
  obtain s e where w: "window (r_len c) (cursor_of c) = (s, e)" by fastforce
  have "e \<le> r_len c" using window_bounds [OF ok w] by simp
  show ?thesis
  proof (cases "e < r_pos c + n")
    case True
    then show ?thesis using ok w by (simp add: advance_out unit0_def map_rd_def fail_def safe_def same_input_def)
  next
    case False
    then have "r_pos c + n \<le> r_len c" using \<open>e \<le> r_len c\<close> by simp
    then have "rctx_ok (c\<lparr>r_pos := r_pos c + n\<rparr>)" using ok by (simp add: rctx_ok_def stacks_ok_def)
    then show ?thesis using False ok w
      by (simp add: advance_out unit0_def map_rd_def safe_def same_input_def)
  qed
qed

lemma advance_refines:
  assumes ok: "rctx_ok c" and n: "unat (r_pos c) + unat n < 2 ^ 64"
  shows "refines (r_data c) (Advance n) c (unit0 (advance n) c)"
  using assms unat_add_no_wrap [OF n]
  by (auto simp: advance_out [OF ok] unit0_def map_rd_def fail_def refines_def len_word word_less_nat_alt cursor_of_def)

lemma put_index_step:
  assumes "rctx_ok c" and "0 < r_loop_depth c"
    and "astep (r_data c) x (cursor_of c) = Some (0, (cursor_of c)\<lparr>a_idx := set_last i (a_idx (cursor_of c))\<rparr>)"
    and "m c = put_index i c"
  shows "safe x c (unit0 m c) \<and> refines (r_data c) x c (unit0 m c)"
proof -
  have "a_idx (cursor_of c) \<noteq> []" using assms(1,2) loops_empty [of c] by (simp add: rctx_ok_def)
  then show ?thesis
    using put_index_does [OF assms(1,2), of i] assms(3,4)
    by (auto simp: unit0_def map_rd_def safe_def refines_def set_last_def)
qed

lemma no_loop: "rctx_ok c \<Longrightarrow> \<not> 0 < r_loop_depth c \<Longrightarrow> a_idx (cursor_of c) = []"
  using loops_empty [of c] by (simp add: rctx_ok_def)

lemma no_loop_cursor: "a_idx (cursor_of c) = [] \<Longrightarrow>
    (cursor_of c)\<lparr>a_idx := set_last i (a_idx (cursor_of c))\<rparr> = cursor_of c"
  by (simp add: set_last_def cursor_of_def)

lemma rop_step_safe: "rctx_ok c \<Longrightarrow> owed (length (r_data c)) x (cursor_of c) \<Longrightarrow> safe x c (rop_step x c) \<and> (\<not> overflows (cursor_of c) x \<longrightarrow> refines (r_data c) x c (rop_step x c))"
proof (cases x)
  case (Seek p)
  assume ok: "rctx_ok c"
  then have l: "length (r_data c) = unat (r_len c)" by (simp add: rctx_ok_def)
  show ?thesis
  proof (cases "r_len c < p")
    case True
    then show ?thesis using ok Seek l
      by (auto simp: seek_checked_def unit0_def map_rd_def safe_def refines_def fail_def same_input_def
          word_less_nat_alt)
  next
    case False
    then show ?thesis using ok Seek l
      by (simp add: seek_checked_def unit0_def map_rd_def safe_def refines_def same_input_def rctx_ok_def
          stacks_ok_def word_less_nat_alt word_le_nat_alt cursor_of_def not_less)
  qed
next
  case (SeekTo p)
  assume ok: "rctx_ok c" and o: "owed (length (r_data c)) x (cursor_of c)"
  then have "p \<le> r_len c" using SeekTo by (simp add: rctx_ok_def word_le_nat_alt)
  then show ?thesis using ok SeekTo
    by (simp add: void_def seek_def safe_def refines_def same_input_def rctx_ok_def stacks_ok_def cursor_of_def)
next
  case (Advance n)
  assume "rctx_ok c"
  then show ?thesis using Advance advance_safe advance_refines [of c n] by (simp add: not_le)
next
  case (PushScope p)
  assume "rctx_ok c" then show ?thesis using PushScope unit0_does [where x = x and m = "push_scope p", OF _ push_scope_does] by simp
next
  case PopScope
  assume "rctx_ok c" then show ?thesis using PopScope void_step [where x = x and f = pop_scope, OF pop_scope_does] by simp
next
  case (PushLoop l)
  assume "rctx_ok c" then show ?thesis using PushLoop unit0_does [where x = x and m = "push_loop_n l", OF _ push_loop_n_does] by simp
next
  case PopLoop
  assume "rctx_ok c" then show ?thesis using PopLoop void_step [where x = x and f = pop_loop, OF pop_loop_does] by simp
next
  case LoopNext
  assume ok: "rctx_ok c" and o: "owed (length (r_data c)) x (cursor_of c)"
  have e: "(let is = a_idx (cursor_of c) in if is = [] then [] else is[length is - 1 := last is + 1]) =
      set_last (last (a_idx (cursor_of c)) + 1) (a_idx (cursor_of c))"
    by (simp add: set_last_def Let_def)
  show ?thesis
    using loop_next_out [OF ok] o LoopNext unfolding e
    by (auto simp: map_rd_def safe_def refines_def)
next
  case LoopAdvance
  assume ok: "rctx_ok c" and o: "owed (length (r_data c)) x (cursor_of c)"
  show ?thesis
  proof (cases "0 < r_loop_depth c")
    case True
    then have "vec_get (r_lidx c) (r_loop_depth c - 1) = Got (last (a_idx (cursor_of c)))"
      using stk_last [of 8 "r_lidx c" "r_loop_depth c"] ok by (simp add: rctx_ok_def stacks_ok_def)
    then have "loop_advance c = put_index (last (a_idx (cursor_of c)) + 1) c"
      using True o LoopAdvance loops_empty [of c] ok by (simp add: loop_advance_def rctx_ok_def)
    then show ?thesis
      using put_index_step [where x = x and m = loop_advance, OF ok True] LoopAdvance by simp
  next
    case False
    then show ?thesis using ok no_loop_cursor [OF no_loop [OF ok False]] LoopAdvance
      by (simp add: loop_advance_def unit0_def map_rd_def safe_def refines_def)
  qed
next
  case (SetIndex i)
  assume ok: "rctx_ok c"
  show ?thesis
  proof (cases "0 < r_loop_depth c")
    case True
    then show ?thesis
      using put_index_step [where x = x and m = "set_loop_index i", OF ok True] SetIndex by (simp add: set_loop_index_def)
  next
    case False
    then show ?thesis using ok no_loop_cursor [OF no_loop [OF ok False]] SetIndex
      by (simp add: set_loop_index_def unit0_def map_rd_def safe_def refines_def)
  qed
next
  case (PushBase b)
  assume "rctx_ok c" then show ?thesis using PushBase unit0_does [where x = x and m = "push_loop_base b", OF _ push_loop_base_does] by simp
next
  case PopBase
  assume "rctx_ok c" then show ?thesis using PopBase void_step [where x = x and f = pop_loop_base, OF pop_loop_base_does] by simp
next
  case (PushWin e)
  assume ok: "rctx_ok c"
  show ?thesis
  proof (cases "fits_window (r_len c) e (cursor_of c)")
    case True
    then show ?thesis using PushWin ok unit0_does [where x = x and m = "push_interval_checked e", OF ok push_interval_does [OF ok True]] by (simp add: len_word)
  next
    case False
    then show ?thesis using PushWin ok unit0_fail [where x = x and m = "push_interval_checked e", OF ok _ _ _ push_interval_rejects [OF ok False]]
      by (simp add: len_word)
  qed
next
  case PopWin
  assume "rctx_ok c" then show ?thesis using PopWin void_step [where x = x and f = pop_interval, OF pop_interval_does] by simp
next
  case PopWinChecked
  assume ok: "rctx_ok c"
  note pd = pop_interval_does [OF ok] and out = pop_interval_checked_out [OF ok]
  show ?thesis
  proof (cases "a_wins (cursor_of c) \<noteq> [] \<and> r_pos c = snd (last (a_wins (cursor_of c)))")
    case True
    then have "pop_interval_checked c = (Got (), pop_interval c)" using out by simp
    then show ?thesis using True pd PopWinChecked
      by (simp add: unit0_def map_rd_def safe_def refines_def del: cursor_of_simps(8))
  next
    case False
    then have n: "astep (r_data c) PopWinChecked (cursor_of c) = None" by (simp del: cursor_of_simps(8))
    show ?thesis
    proof (cases "a_wins (cursor_of c) = []")
      case True
      then have "pop_interval_checked c = fail ''interval: unbalanced pop'' c" using out by simp
      then show ?thesis using unit0_fail [where x = PopWinChecked and m = pop_interval_checked, OF ok _ _ n] PopWinChecked by simp
    next
      case F: False
      then have "pop_interval_checked c = fail ''interval: size mismatch'' (pop_interval c)"
        using out False by simp
      moreover have "moved_only PopWinChecked (cursor_of c) (cursor_of (pop_interval c))"
        using F pd unfolding moved_only_def by blast
      ultimately show ?thesis
        using unit0_fail [where x = PopWinChecked and c' = "pop_interval c" and m = pop_interval_checked, OF _ _ _ n] pd PopWinChecked
        by simp
    qed
  qed
next
  case (Endian b)
  assume "rctx_ok c" then show ?thesis using Endian void_step [where x = x and f = "set_endian b", OF set_endian_does] by simp
next
  case (Read p)
  assume ok: "rctx_ok c"
  note d = read_prim_decodes [OF ok, of p, unfolded decodes_def rest_a_rest [OF ok]]
  show ?thesis
  proof (cases "dec_prim p (r_le c) (a_rest (r_data c) (cursor_of c))")
    case None
    then show ?thesis using d Read by (auto simp: rejected_def safe_def refines_def moved_only_def split: prod.splits)
  next
    case (Some vn)
    obtain v n where vn: "vn = (v, n)" by fastforce
    have "n \<le> length (rest c)" "read_prim p c = (Got v, step n c)"
      using d Some vn by (simp_all add: rest_a_rest [OF ok])
    then show ?thesis using Some vn Read step_ok(1) [OF ok] by (simp add: safe_def refines_def step_cursor)
  qed
qed

section \<open>Programs of operations\<close>

fun run_rops :: "rop list \<Rightarrow> u64 list rd" where
  "run_rops [] c = (Got [], c)"
| "run_rops (x # xs) c =
     (case rop_step x c of
        (Got v, c1) \<Rightarrow> map_rd ((#) v) (run_rops xs) c1
      | (Rej, c1) \<Rightarrow> (Rej, c1)
      | (UB, c1) \<Rightarrow> (UB, c1))"

fun arun :: "bytes \<Rightarrow> rop list \<Rightarrow> cursor \<Rightarrow> (u64 list \<times> cursor) option" where
  "arun data [] a = Some ([], a)"
| "arun data (x # xs) a =
     (case astep data x a of None \<Rightarrow> None
      | Some (v, a1) \<Rightarrow> map_option (\<lambda>(vs, a2). (v # vs, a2)) (arun data xs a1))"

text \<open>No advance of the abstract run overflows.\<close>

fun calm :: "bytes \<Rightarrow> rop list \<Rightarrow> cursor \<Rightarrow> bool" where
  "calm data [] a = True"
| "calm data (x # xs) a = (\<not> overflows a x \<and>
     (case astep data x a of None \<Rightarrow> True | Some (v, a1) \<Rightarrow> calm data xs a1))"

text \<open>Every operation of the run gets what it is owed.\<close>

fun dutiful :: "rop list \<Rightarrow> rctx \<Rightarrow> bool" where
  "dutiful [] c = True"
| "dutiful (x # xs) c = (owed (length (r_data c)) x (cursor_of c) \<and>
     (case rop_step x c of (Got v, c1) \<Rightarrow> dutiful xs c1 | _ \<Rightarrow> True))"

lemma run_rops_safe:
  "rctx_ok c \<Longrightarrow> dutiful xs c \<Longrightarrow>
   fst (run_rops xs c) \<noteq> UB \<and> rctx_ok (snd (run_rops xs c)) \<and> same_input c (snd (run_rops xs c))"
proof (induction xs arbitrary: c)
  case (Cons x xs)
  obtain r c1 where st: "rop_step x c = (r, c1)" by fastforce
  have s: "r \<noteq> UB" "rctx_ok c1" "same_input c c1"
    using rop_step_safe [OF Cons.prems(1), of x] Cons.prems(2) st by (auto simp: safe_def)
  have d: "r = Got v \<Longrightarrow> dutiful xs c1" for v using Cons.prems(2) st by simp
  obtain r2 c2 where n: "run_rops xs c1 = (r2, c2)" by fastforce
  show ?case
    using s st n d Cons.IH [OF s(2)]
    by (cases r; cases r2) (auto simp: map_rd_def intro: same_input_trans)
qed simp

lemma run_rops_refines:
  "rctx_ok c \<Longrightarrow> dutiful xs c \<Longrightarrow> calm (r_data c) xs (cursor_of c) \<Longrightarrow> run_rops xs c = (r, c') \<Longrightarrow>
    (\<forall>vs. r = Got vs \<longrightarrow> arun (r_data c) xs (cursor_of c) = Some (vs, cursor_of c')) \<and>
    (r = Rej \<longrightarrow> r_error c' \<noteq> None \<and> (arun (r_data c) xs (cursor_of c) = None \<or> ctx_oom c'))"
proof (induction xs arbitrary: c r c')
  case (Cons x xs)
  obtain r1 c1 where st: "rop_step x c = (r1, c1)" by fastforce
  have s: "r1 \<noteq> UB" "rctx_ok c1" "same_input c c1" "refines (r_data c) x c (r1, c1)"
    using rop_step_safe [OF Cons.prems(1), of x] Cons.prems(2,3) st by (auto simp: safe_def)
  show ?case
  proof (cases r1)
    case (Got v)
    then have a: "astep (r_data c) x (cursor_of c) = Some (v, cursor_of c1)" using s(4) by (simp add: refines_def)
    have d: "r_data c1 = r_data c" using s(3) by (simp add: same_input_def)
    have du: "dutiful xs c1" using Cons.prems(2) st Got by simp
    obtain r2 c2 where n: "run_rops xs c1 = (r2, c2)" by fastforce
    note IH = Cons.IH [OF s(2) du _ n]
    show ?thesis
      using IH Cons.prems(3,4) st Got a d n by (cases r2) (auto simp: map_rd_def)
  qed (use Cons.prems(4) st s in \<open>auto simp: refines_def\<close>)
qed auto

text \<open>Duties that can be read off a program: seeks that stay in the input, and counters that can not reach
  the end of \<open>int64_t\<close> in the number of its operations.\<close>

definition within :: "nat \<Rightarrow> nat \<Rightarrow> rop \<Rightarrow> bool" where
  "within len n x = (case x of SeekTo p \<Rightarrow> unat p \<le> len | SetIndex i \<Rightarrow> sint i + int n < 2 ^ 63 | _ \<Rightarrow> True)"

lemma sint_inc: "sint (i :: i64) + 1 < 2 ^ 63 \<Longrightarrow> sint (i + 1) = sint i + 1"
  using sint_greater_eq [of i] by (simp add: sint_word_ariths(1) signed_take_bit_int_eq_self)

lemma below_max: "sint (i :: i64) + 1 < 2 ^ 63 \<Longrightarrow> i \<noteq> INT64_MAX"
  by (auto simp: INT64_MAX_def)

lemma set_set_last: "y \<in> set (set_last x xs) \<Longrightarrow> y = x \<or> y \<in> set xs"
  by (auto simp: set_last_def dest: set_update_subset_insert [THEN subsetD] split: if_splits)

lemma astep_counters:
  assumes "astep data x a = Some (v, a1)" and "\<forall>i \<in> set (a_idx a). sint i + int (Suc n) < 2 ^ 63"
    and "within len (Suc n) x" and "int n < 2 ^ 63" and "i \<in> set (a_idx a1)"
  shows "sint i + int n < 2 ^ 63"
proof -
  have old: "i \<in> set (a_idx a) \<Longrightarrow> ?thesis" using assms(2) by force
  have inc: ?thesis if e: "a_idx a1 = set_last (last (a_idx a) + 1) (a_idx a)"
  proof (cases "a_idx a = []")
    case False
    then have "sint (last (a_idx a)) + int (Suc n) < 2 ^ 63" using assms(2) last_in_set by blast
    moreover have "i = last (a_idx a) + 1 \<or> i \<in> set (a_idx a)" using assms(5) e set_set_last by metis
    ultimately show ?thesis using old sint_inc [of "last (a_idx a)"] by auto
  qed (use assms(5) e in \<open>simp add: set_last_def\<close>)
  have same: ?thesis if "set (a_idx a1) \<subseteq> set (a_idx a)" using that assms(5) old by blast
  show ?thesis
  proof (cases x)
    case (SetIndex j)
    then show ?thesis using assms(1,3,5) old by (auto simp: within_def dest!: set_set_last)
  next
    case (PushLoop l)
    then show ?thesis using assms(1,4,5) old by auto
  next
    case PopLoop
    show ?thesis by (rule same) (use PopLoop assms(1) in \<open>auto dest: in_set_butlastD\<close>)
  qed (use assms(1) same inc in \<open>auto split: if_splits option.splits\<close>)
qed

lemma owed_within:
  assumes "within len n x" and "\<forall>i \<in> set (a_idx a). sint i + 1 < 2 ^ 63"
  shows "owed len x a"
  using assms below_max last_in_set [of "a_idx a"] by (cases x) (auto simp: within_def)

lemma within_dutiful:
  "rctx_ok c \<Longrightarrow> list_all (within (length (r_data c)) (length xs)) xs \<Longrightarrow> int (length xs) < 2 ^ 63 \<Longrightarrow>
   \<forall>i \<in> set (a_idx (cursor_of c)). sint i + int (length xs) < 2 ^ 63 \<Longrightarrow> dutiful xs c"
proof (induction xs arbitrary: c)
  case (Cons x xs)
  have o: "owed (length (r_data c)) x (cursor_of c)"
    by (rule owed_within) (use Cons.prems(2,4) in \<open>force+\<close>)
  have rest: "dutiful xs c1" if st: "rop_step x c = (Got v, c1)" for v c1
  proof -
    have s: "safe x c (Got v, c1)" "\<not> overflows (cursor_of c) x \<Longrightarrow> refines (r_data c) x c (Got v, c1)"
      using rop_step_safe [OF Cons.prems(1) o] st by auto
    have d: "r_data c1 = r_data c" and ok: "rctx_ok c1" using s(1) by (auto simp: safe_def same_input_def)
    have "sint i + int (length xs) < 2 ^ 63" if i: "i \<in> set (a_idx (cursor_of c1))" for i
    proof (cases "overflows (cursor_of c) x")
      case True
      then obtain n where "x = Advance n" by (cases x) auto
      then have "a_idx (cursor_of c1) = a_idx (cursor_of c)"
        using advance_out [OF Cons.prems(1), of n] st by (auto simp: unit0_def map_rd_def fail_def cursor_of_def split: if_splits)
      then show ?thesis using Cons.prems(4) i by force
    next
      case False
      then have "astep (r_data c) x (cursor_of c) = Some (v, cursor_of c1)" using s(2) by (simp add: refines_def)
      then show ?thesis
        by (rule astep_counters) (use Cons.prems i in \<open>auto\<close>)
    qed
    moreover have "list_all (within (length (r_data c1)) (length xs)) xs"
      using Cons.prems(2) unfolding d by (auto simp: list_all_iff within_def split: rop.splits)
    ultimately show ?thesis using Cons.IH [OF ok] Cons.prems(3) by simp
  qed
  show ?case using o rest by (auto split: prod.splits rr.splits)
qed simp

lemma init_ok: "length data < 2 ^ 63 \<Longrightarrow> rctx_ok (ctx_init_a data (word_of_nat (length data)) a h le)"
  by (simp add: rctx_ok_def stacks_ok_def ctx_init_a_def unat_of_nat_64)

section \<open>Backtracking\<close>

text \<open>A program keeps above a checkpoint when it never pops, or counts in, an entry the checkpoint
  still needs.\<close>

fun above :: "checkpoint \<Rightarrow> rop \<Rightarrow> rctx \<Rightarrow> bool" where
  "above cp PopScope c = (cp_scope_depth cp < r_scope_depth c)"
| "above cp PopLoop c = (cp_loop_depth cp < r_loop_depth c)"
| "above cp LoopNext c = (cp_loop_depth cp < r_loop_depth c)"
| "above cp LoopAdvance c = (cp_loop_depth cp < r_loop_depth c)"
| "above cp (SetIndex i) c = (cp_loop_depth cp < r_loop_depth c)"
| "above cp PopBase c = (cp_base_depth cp < r_base_depth c)"
| "above cp PopWin c = (cp_idepth cp < r_idepth c)"
| "above cp PopWinChecked c = (cp_idepth cp < r_idepth c)"
| "above cp x c = True"

fun keeps_above :: "checkpoint \<Rightarrow> rop list \<Rightarrow> rctx \<Rightarrow> bool" where
  "keeps_above cp [] c = True"
| "keeps_above cp (x # xs) c = (above cp x c \<and>
     (case rop_step x c of (Got v, c1) \<Rightarrow> keeps_above cp xs c1 | _ \<Rightarrow> True))"

definition ext :: "'a list \<Rightarrow> 'a list \<Rightarrow> bool" where
  "ext xs ys = (take (length xs) ys = xs)"

lemma ext_length: "ext xs ys \<Longrightarrow> length xs \<le> length ys"
  by (metis ext_def length_take min_def linorder_not_le nat_less_le)

lemma ext_simps [simp]: "ext xs xs" "ext xs ys \<Longrightarrow> ext xs (ys @ zs)"
  by (auto simp: ext_def dest: ext_length [unfolded ext_def])

lemma ext_shorter:
  "ext xs ys \<Longrightarrow> length xs < length ys \<Longrightarrow> ext xs (butlast ys)"
  "ext xs ys \<Longrightarrow> length xs < length ys \<Longrightarrow> ext xs (set_last y ys)"
  by (auto simp: ext_def butlast_conv_take set_last_def min_def)

definition kept :: "cursor \<Rightarrow> cursor \<Rightarrow> bool" where
  "kept a a' = (ext (a_scopes a) (a_scopes a') \<and> ext (a_idx a) (a_idx a') \<and> ext (a_lim a) (a_lim a') \<and>
     ext (a_cap a) (a_cap a') \<and> ext (a_bases a) (a_bases a') \<and> ext (a_wins a) (a_wins a'))"

lemma cursor_lengths:
  assumes "rctx_ok c"
  shows "length (a_scopes (cursor_of c)) = nat (r_scope_depth c)" "length (a_idx (cursor_of c)) = nat (r_loop_depth c)"
    "length (a_lim (cursor_of c)) = nat (r_loop_depth c)" "length (a_cap (cursor_of c)) = nat (r_loop_depth c)"
    "length (a_bases (cursor_of c)) = nat (r_base_depth c)" "length (a_wins (cursor_of c)) = nat (r_idepth c)"
    "0 \<le> r_scope_depth c" "0 \<le> r_loop_depth c" "0 \<le> r_base_depth c" "0 \<le> r_idepth c"
proof -
  have s: "stk_ok 8 (r_scopes c) (r_scope_depth c)" "stk_ok 8 (r_lidx c) (r_loop_depth c)"
    "stk_ok 8 (r_llim c) (r_loop_depth c)" "stk_ok 8 (r_lcap c) (r_loop_depth c)"
    "stk_ok 4 (r_bases c) (r_base_depth c)" "stk_ok 8 (r_starts c) (r_idepth c)" "stk_ok 8 (r_ends c) (r_idepth c)"
    using assms by (simp_all add: rctx_ok_def stacks_ok_def)
  show "length (a_scopes (cursor_of c)) = nat (r_scope_depth c)" "length (a_idx (cursor_of c)) = nat (r_loop_depth c)"
    "length (a_lim (cursor_of c)) = nat (r_loop_depth c)" "length (a_cap (cursor_of c)) = nat (r_loop_depth c)"
    "length (a_bases (cursor_of c)) = nat (r_base_depth c)" "length (a_wins (cursor_of c)) = nat (r_idepth c)"
    using s by (simp_all add: stk_length)
  show "0 \<le> r_scope_depth c" "0 \<le> r_loop_depth c" "0 \<le> r_base_depth c" "0 \<le> r_idepth c"
    using s by (simp_all add: stk_ok_def)
qed

text \<open>The depths of the checkpoint are lengths of the cursor it was taken of.\<close>

lemma above_lengths:
  assumes "rctx_ok c0" and "rctx_ok c" and "above (save c0) x c"
  shows "x = PopScope \<Longrightarrow> length (a_scopes (cursor_of c0)) < length (a_scopes (cursor_of c))"
    and "x = PopLoop \<or> x = LoopNext \<or> x = LoopAdvance \<or> x = SetIndex i \<Longrightarrow>
      length (a_idx (cursor_of c0)) < length (a_idx (cursor_of c)) \<and>
      length (a_lim (cursor_of c0)) < length (a_lim (cursor_of c)) \<and>
      length (a_cap (cursor_of c0)) < length (a_cap (cursor_of c))"
    and "x = PopBase \<Longrightarrow> length (a_bases (cursor_of c0)) < length (a_bases (cursor_of c))"
    and "x = PopWin \<or> x = PopWinChecked \<Longrightarrow> length (a_wins (cursor_of c0)) < length (a_wins (cursor_of c))"
proof -
  note l0 = cursor_lengths [OF assms(1)] and l = cursor_lengths [OF assms(2)]
  show "x = PopScope \<Longrightarrow> length (a_scopes (cursor_of c0)) < length (a_scopes (cursor_of c))"
    using assms(3) l0(7) unfolding l0(1) l(1) by (simp add: save_def)
  show "x = PopLoop \<or> x = LoopNext \<or> x = LoopAdvance \<or> x = SetIndex i \<Longrightarrow>
      length (a_idx (cursor_of c0)) < length (a_idx (cursor_of c)) \<and>
      length (a_lim (cursor_of c0)) < length (a_lim (cursor_of c)) \<and>
      length (a_cap (cursor_of c0)) < length (a_cap (cursor_of c))"
    using assms(3) l0(8) unfolding l0(2-4) l(2-4) by (elim disjE) (simp_all add: save_def)
  show "x = PopBase \<Longrightarrow> length (a_bases (cursor_of c0)) < length (a_bases (cursor_of c))"
    using assms(3) l0(9) unfolding l0(5) l(5) by (simp add: save_def)
  show "x = PopWin \<or> x = PopWinChecked \<Longrightarrow> length (a_wins (cursor_of c0)) < length (a_wins (cursor_of c))"
    using assms(3) l0(10) unfolding l0(6) l(6) by (elim disjE) (simp_all add: save_def)
qed

lemma cursor_upd_simps [simp]: "a_pos (a\<lparr>a_pos := p\<rparr>) = p" by simp

lemma advance_pos_only:
  "rctx_ok c \<Longrightarrow> rop_step (Advance n) c = (Got v, c') \<Longrightarrow> \<exists>p. cursor_of c' = (cursor_of c)\<lparr>a_pos := p\<rparr>"
  by (auto simp: advance_out unit0_def map_rd_def fail_def cursor_of_def split: if_splits)

lemma astep_kept:
  assumes "astep data x a = Some (v, a')" and "kept a0 a"
    and "x = PopScope \<Longrightarrow> length (a_scopes a0) < length (a_scopes a)"
    and "\<And>i. x = PopLoop \<or> x = LoopNext \<or> x = LoopAdvance \<or> x = SetIndex i \<Longrightarrow>
      length (a_idx a0) < length (a_idx a) \<and> length (a_lim a0) < length (a_lim a) \<and> length (a_cap a0) < length (a_cap a)"
    and "x = PopBase \<Longrightarrow> length (a_bases a0) < length (a_bases a)"
    and "x = PopWin \<or> x = PopWinChecked \<Longrightarrow> length (a_wins a0) < length (a_wins a)"
  shows "kept a0 a'"
  using assms
  by (cases x) (auto simp: kept_def ext_shorter split: if_splits option.splits)

lemma moved_only_kept:
  "moved_only x a a' \<Longrightarrow> kept a0 a \<Longrightarrow> (x = PopWin \<or> x = PopWinChecked \<Longrightarrow> length (a_wins a0) < length (a_wins a)) \<Longrightarrow>
     kept a0 a'"
  by (auto simp: moved_only_def kept_def ext_shorter)

lemma rop_step_kept:
  assumes "rctx_ok c0" and "rctx_ok c" and "above (save c0) x c" and "kept (cursor_of c0) (cursor_of c)"
    and o: "owed (length (r_data c)) x (cursor_of c)" and st: "rop_step x c = (r, c')"
  shows "kept (cursor_of c0) (cursor_of c')"
proof -
  note L = above_lengths [OF assms(1-3)]
  have s: "safe x c (r, c')" "\<not> overflows (cursor_of c) x \<Longrightarrow> refines (r_data c) x c (r, c')"
    using rop_step_safe [OF assms(2) o] st by auto
  show ?thesis
  proof (cases r)
    case (Got v)
    show ?thesis
    proof (cases "overflows (cursor_of c) x")
      case False
      then have "astep (r_data c) x (cursor_of c) = Some (v, cursor_of c')" using s Got by (simp add: refines_def)
      then show ?thesis by (rule astep_kept [OF _ assms(4)]) (use L in \<open>blast+\<close>)
    next
      case True
      then obtain n where "x = Advance n" by (cases x) auto
      then obtain p where "cursor_of c' = (cursor_of c)\<lparr>a_pos := p\<rparr>"
        using advance_pos_only [OF assms(2)] st Got by blast
      then show ?thesis using assms(4) by (simp add: kept_def)
    qed
  next
    case Rej
    then have "moved_only x (cursor_of c) (cursor_of c')" using s(1) by (simp add: safe_def)
    then show ?thesis by (rule moved_only_kept [OF _ assms(4)]) (use L in blast)
  next
    case UB
    then show ?thesis using s(1) by (simp add: safe_def)
  qed
qed

lemma run_rops_kept:
  "rctx_ok c0 \<Longrightarrow> rctx_ok c \<Longrightarrow> keeps_above (save c0) xs c \<Longrightarrow> dutiful xs c \<Longrightarrow> kept (cursor_of c0) (cursor_of c) \<Longrightarrow>
     kept (cursor_of c0) (cursor_of (snd (run_rops xs c)))"
proof (induction xs arbitrary: c)
  case (Cons x xs)
  obtain r c1 where st: "rop_step x c = (r, c1)" by fastforce
  have o: "owed (length (r_data c)) x (cursor_of c)" using Cons.prems(4) by simp
  have ok1: "rctx_ok c1" using rop_step_safe [OF Cons.prems(2) o] st by (simp add: safe_def)
  have k1: "kept (cursor_of c0) (cursor_of c1)"
    using rop_step_kept [OF Cons.prems(1,2) _ Cons.prems(5) o st] Cons.prems(3) by simp
  obtain r2 c2 where n: "run_rops xs c1 = (r2, c2)" by fastforce
  show ?case
  proof (cases r)
    case (Got v)
    then have "kept (cursor_of c0) (cursor_of c2)"
      using Cons.IH [OF Cons.prems(1) ok1 _ _ k1] Cons.prems(3,4) st n Got by simp
    then show ?thesis using st n Got by (cases r2) (simp_all add: map_rd_def)
  qed (use st k1 in simp_all)
qed simp

lemma restore_kept:
  assumes "rctx_ok c0" and "rctx_ok c" and "same_input c0 c" and k: "kept (cursor_of c0) (cursor_of c)"
  shows "rctx_ok (restore (save c0) c)" and "cursor_of (restore (save c0) c) = cursor_of c0"
proof -
  note l0 = cursor_lengths [OF assms(1)] and l = cursor_lengths [OF assms(2)]
  have le: "r_scope_depth c0 \<le> r_scope_depth c" "r_loop_depth c0 \<le> r_loop_depth c"
    "r_base_depth c0 \<le> r_base_depth c" "r_idepth c0 \<le> r_idepth c"
    using k l0 l ext_length unfolding kept_def by (metis nat_le_eq_zle nat_le_iff int_nat_eq)+
  have s: "stk_ok 8 (r_scopes c) (r_scope_depth c)" "stk_ok 8 (r_lidx c) (r_loop_depth c)"
    "stk_ok 8 (r_llim c) (r_loop_depth c)" "stk_ok 8 (r_lcap c) (r_loop_depth c)"
    "stk_ok 4 (r_bases c) (r_base_depth c)" "stk_ok 8 (r_starts c) (r_idepth c)" "stk_ok 8 (r_ends c) (r_idepth c)"
    using assms(2) by (simp_all add: rctx_ok_def stacks_ok_def)
  have sh: "stk_ok 8 (r_scopes c) (r_scope_depth c0) \<and> stk (r_scopes c) (r_scope_depth c0) = take (nat (r_scope_depth c0)) (a_scopes (cursor_of c))"
    "stk_ok 8 (r_lidx c) (r_loop_depth c0) \<and> stk (r_lidx c) (r_loop_depth c0) = take (nat (r_loop_depth c0)) (a_idx (cursor_of c))"
    "stk_ok 8 (r_llim c) (r_loop_depth c0) \<and> stk (r_llim c) (r_loop_depth c0) = take (nat (r_loop_depth c0)) (a_lim (cursor_of c))"
    "stk_ok 8 (r_lcap c) (r_loop_depth c0) \<and> stk (r_lcap c) (r_loop_depth c0) = take (nat (r_loop_depth c0)) (a_cap (cursor_of c))"
    "stk_ok 4 (r_bases c) (r_base_depth c0) \<and> stk (r_bases c) (r_base_depth c0) = take (nat (r_base_depth c0)) (a_bases (cursor_of c))"
    "stk_ok 8 (r_starts c) (r_idepth c0) \<and> stk (r_starts c) (r_idepth c0) = take (nat (r_idepth c0)) (stk (r_starts c) (r_idepth c))"
    "stk_ok 8 (r_ends c) (r_idepth c0) \<and> stk (r_ends c) (r_idepth c0) = take (nat (r_idepth c0)) (stk (r_ends c) (r_idepth c))"
    using s le l0 stk_shrink by simp_all
  have w: "zip (stk (r_starts c) (r_idepth c0)) (stk (r_ends c) (r_idepth c0)) = take (nat (r_idepth c0)) (a_wins (cursor_of c))"
    using sh(6,7) by (simp add: take_zip)
  have e: "take (nat (r_scope_depth c0)) (a_scopes (cursor_of c)) = a_scopes (cursor_of c0)"
    "take (nat (r_loop_depth c0)) (a_idx (cursor_of c)) = a_idx (cursor_of c0)"
    "take (nat (r_loop_depth c0)) (a_lim (cursor_of c)) = a_lim (cursor_of c0)"
    "take (nat (r_loop_depth c0)) (a_cap (cursor_of c)) = a_cap (cursor_of c0)"
    "take (nat (r_base_depth c0)) (a_bases (cursor_of c)) = a_bases (cursor_of c0)"
    "take (nat (r_idepth c0)) (a_wins (cursor_of c)) = a_wins (cursor_of c0)"
    using k l0(1-6) unfolding kept_def ext_def by metis+
  show cur: "cursor_of (restore (save c0) c) = cursor_of c0"
    using sh w e by (simp add: restore_def save_def cursor_of_def)
  have "nested 0 (r_len c) (a_wins (cursor_of (restore (save c0) c)))"
    unfolding cur using assms(1,3) by (simp add: rctx_ok_def same_input_def)
  then show "rctx_ok (restore (save c0) c)"
    using assms(1-3) sh by (simp add: rctx_ok_def stacks_ok_def restore_def save_def same_input_def)
qed

section \<open>The stacks as contracts\<close>

interpretation scope: lifo push_scope pop_scope "\<lambda>c. a_scopes (cursor_of c)" rctx_ok
proof (unfold_locales, goal_cases)
  case (1 c p r c')
  then show ?case using push_scope_does [OF 1(1), of p] by (auto simp: does_def simp del: cursor_of_simps)
next
  case (2 c)
  then show ?case using pop_scope_does [OF 2] by (simp del: cursor_of_simps)
qed

interpretation base: lifo push_loop_base pop_loop_base "\<lambda>c. a_bases (cursor_of c)" rctx_ok
proof (unfold_locales, goal_cases)
  case (1 c p r c')
  then show ?case using push_loop_base_does [OF 1(1), of p] by (auto simp: does_def simp del: cursor_of_simps)
next
  case (2 c)
  then show ?case using pop_loop_base_does [OF 2] by (simp del: cursor_of_simps)
qed

interpretation loop: lifo push_loop_n pop_loop "\<lambda>c. a_lim (cursor_of c)" rctx_ok
proof (unfold_locales, goal_cases)
  case (1 c p r c')
  then show ?case using push_loop_n_does [OF 1(1), of p] by (auto simp: does_def simp del: cursor_of_simps)
next
  case (2 c)
  then show ?case using pop_loop_does [OF 2] by (simp del: cursor_of_simps)
qed

section \<open>Properties\<close>

definition start :: "bytes \<Rightarrow> nat \<Rightarrow> heap \<Rightarrow> bool \<Rightarrow> rctx" where
  "start data a h le = ctx_init_a data (word_of_nat (length data)) a h le"

lemma start_dutiful:
  assumes "length data < 2 ^ 63" and "list_all (within (length data) (length ops)) ops" and "int (length ops) < 2 ^ 63"
  shows "dutiful ops (start data a h le)"
  by (rule within_dutiful) (use init_ok [OF assms(1)] assms(2,3) in \<open>simp_all add: start_def ctx_init_a_def cursor_of_def\<close>)

text \<open>C11: memory safety of the read cursor. Whatever operations run, in whatever order, on whatever
  input, and whatever the allocator refuses: no operation reads or writes outside the input or
  outside a stack, the position stays in the input, and the open windows stay nested. Two operations are
  unchecked in the code and have their condition here: a target of \<open>bbq_seek\<close> (not \<open>bbq_seek_checked\<close>) lies in the
  input, and no loop counter is set so high, or stepped so often, that it passes \<open>INT64_MAX\<close>.\<close>

theorem read_machine_safe:
  assumes "length data < 2 ^ 63" and "list_all (within (length data) (length ops)) ops" and "int (length ops) < 2 ^ 63"
  shows "case run_rops ops (start data a h le) of (r, c') \<Rightarrow>
    r \<noteq> UB \<and> unat (r_pos c') \<le> length data \<and> nested 0 (word_of_nat (length data)) (a_wins (cursor_of c'))"
proof -
  have ok: "rctx_ok (start data a h le)" using init_ok [OF assms(1)] by (simp add: start_def)
  have d: "dutiful ops (start data a h le)" by (rule start_dutiful [OF assms])
  obtain r c' where run: "run_rops ops (start data a h le) = (r, c')" by fastforce
  have "r_len (start data a h le) = word_of_nat (length data)" by (simp add: start_def ctx_init_a_def)
  then show ?thesis
    using run_rops_safe [OF ok d] assms(1) run
    by (auto simp: rctx_ok_def same_input_def word_le_nat_alt unat_of_nat_64)
qed

theorem read_machine_safe_witness:
  "case run_rops [PushWin 3, Read PULEB32, PushLoop 4, SetIndex 7, LoopNext, SeekTo 3, Read (PU32 Native), PopScope, PopWinChecked]
      (start [0x80, 1, 2] 0 (\<lambda>_. Libc (\<lambda>_. False) 0 0) True) of (r, c') \<Rightarrow>
    r \<noteq> UB \<and> unat (r_pos c') \<le> length [0x80 :: u8, 1, 2] \<and>
    nested 0 (word_of_nat (length [0x80 :: u8, 1, 2])) (a_wins (cursor_of c'))"
  by (rule read_machine_safe) (simp_all add: within_def)

text \<open>C12: the read context implements the abstract cursor (lists and numbers, no memory): a program
  of operations that returns has the abstract machine's results and final cursor; one that is
  rejected has noted an error, and either the abstract machine rejects too or memory was refused. The conditions
  are those of the safety of the cursor, and that no \<open>bbq_advance\<close> is asked for a distance that overflows
  \<open>size_t\<close> when added to the position: such an advance is accepted and moves the cursor back.\<close>

theorem read_machine_refines:
  assumes "length data < 2 ^ 63" and "list_all (within (length data) (length ops)) ops" and "int (length ops) < 2 ^ 63"
    and "calm data ops (cursor_of (start data a h le))"
  shows "case run_rops ops (start data a h le) of
      (Got vs, c') \<Rightarrow> arun data ops (cursor_of (start data a h le)) = Some (vs, cursor_of c')
    | (Rej, c') \<Rightarrow> r_error c' \<noteq> None \<and> (arun data ops (cursor_of (start data a h le)) = None \<or> ctx_oom c')
    | (UB, c') \<Rightarrow> False"
proof -
  have ok: "rctx_ok (start data a h le)" using init_ok [OF assms(1)] by (simp add: start_def)
  have du: "dutiful ops (start data a h le)" by (rule start_dutiful [OF assms(1-3)])
  have d: "r_data (start data a h le) = data" by (simp add: start_def ctx_init_a_def)
  obtain r c' where run: "run_rops ops (start data a h le) = (r, c')" by fastforce
  show ?thesis
    using run_rops_refines [OF ok du, unfolded d, OF assms(4) run] run_rops_safe [OF ok du] run
    by (cases r) auto
qed

theorem read_machine_refines_witness:
  "case run_rops [Endian True, Read (PU16 Native), Advance 1] (start [1, 2, 3] 0 (\<lambda>_. Libc (\<lambda>_. True) 0 0) False) of
      (Got vs, c') \<Rightarrow> arun [1, 2, 3] [Endian True, Read (PU16 Native), Advance 1]
        (cursor_of (start [1, 2, 3] 0 (\<lambda>_. Libc (\<lambda>_. True) 0 0) False)) = Some (vs, cursor_of c')
    | (Rej, c') \<Rightarrow> r_error c' \<noteq> None \<and> (arun [1, 2, 3] [Endian True, Read (PU16 Native), Advance 1]
        (cursor_of (start [1, 2, 3] 0 (\<lambda>_. Libc (\<lambda>_. True) 0 0) False)) = None \<or> ctx_oom c')
    | (UB, c') \<Rightarrow> False"
  by (rule read_machine_refines)
    (simp_all add: start_def ctx_init_a_def cursor_of_def a_rest_def window_def fixed_def little_def within_def)

text \<open>The number a type reads. The index of \<open>s33\<close> is a number of 33 bits, which the C reader returns as an
  \<open>int32_t\<close>.\<close>

definition number_of :: "prim \<Rightarrow> bool \<Rightarrow> bytes \<Rightarrow> (u64 \<times> nat) option" where
  "number_of p reg bs = (if p = PS33 then dec_sleb 33 bs else dec_prim p reg bs)"

definition fits_s33 :: "bytes \<Rightarrow> bool" where
  "fits_s33 bs = (case dec_sleb 33 bs of Some (v, n) \<Rightarrow> - (2 ^ 31) \<le> sint v \<and> sint v < 2 ^ 31 | None \<Rightarrow> True)"

lemma narrow_widen:
  assumes "- (2 ^ 31) \<le> sint (v :: u64)" and "sint v < 2 ^ 31"
  shows "scast (ucast v :: u32) = v"
proof -
  have u: "(ucast v :: u32) = word_of_int (sint v)" by (rule bit_word_eqI) (simp add: bit_simps)
  have "sint (word_of_int (sint v) :: u32) = sint v"
    unfolding sint_sbintrunc' using assms by (simp add: signed_take_bit_int_eq_self)
  then have "scast (word_of_int (sint v) :: u32) = (word_of_int (sint v) :: u64)" by (simp only: scast_eq)
  then show ?thesis unfolding u by simp
qed

lemma number_of_dec: "(p = PS33 \<Longrightarrow> fits_s33 bs) \<Longrightarrow> number_of p reg bs = dec_prim p reg bs"
  by (auto simp: number_of_def fits_s33_def narrow_widen split: option.splits prod.splits)

text \<open>C13: every decoder of \<open>bbq_read.h\<close> accepts exactly the encodings of its type in the innermost
  window, returns the value of the bytes in the declared byte order (whatever the byte order of the
  machine), and consumes exactly those bytes; LEB128 values are the numbers the seven-bit digits
  spell, refused when they are too long or do not fit the type. The 33-bit \<open>s33\<close> is exact for the numbers that
  fit the 32 bits it is returned in; an index of \<open>2 ^ 31\<close> and more is accepted and comes out negative
  (\<open>s33_index_turns_negative\<close> below).\<close>

theorem read_prim_exact:
  assumes "rctx_ok c" and "p = PS33 \<Longrightarrow> fits_s33 (rest c)"
  shows "case number_of p (r_le c) (rest c) of
      Some (v, n) \<Rightarrow> n \<le> length (rest c) \<and> read_prim p c = (Got v, step n c)
    | None \<Rightarrow> fst (read_prim p c) = Rej \<and> r_error (snd (read_prim p c)) \<noteq> None \<and> rctx_ok (snd (read_prim p c))"
proof -
  have "number_of p (r_le c) (rest c) = dec_prim p (r_le c) (rest c)" by (rule number_of_dec) (rule assms(2))
  then show ?thesis using read_prim_decodes [OF assms(1), of p]
    by (auto simp: decodes_def rejected_def split: option.splits)
qed

theorem read_prim_exact_witness:
  "case number_of PSLEB32 (r_le (start [0x7f] 0 (\<lambda>_. Libc (\<lambda>_. True) 0 0) True)) (rest (start [0x7f] 0 (\<lambda>_. Libc (\<lambda>_. True) 0 0) True)) of
      Some (v, n) \<Rightarrow> n \<le> length (rest (start [0x7f] 0 (\<lambda>_. Libc (\<lambda>_. True) 0 0) True)) \<and>
        read_prim PSLEB32 (start [0x7f] 0 (\<lambda>_. Libc (\<lambda>_. True) 0 0) True) =
          (Got v, step n (start [0x7f] 0 (\<lambda>_. Libc (\<lambda>_. True) 0 0) True))
    | None \<Rightarrow> fst (read_prim PSLEB32 (start [0x7f] 0 (\<lambda>_. Libc (\<lambda>_. True) 0 0) True)) = Rej \<and>
        r_error (snd (read_prim PSLEB32 (start [0x7f] 0 (\<lambda>_. Libc (\<lambda>_. True) 0 0) True))) \<noteq> None \<and>
        rctx_ok (snd (read_prim PSLEB32 (start [0x7f] 0 (\<lambda>_. Libc (\<lambda>_. True) 0 0) True)))"
  by (rule read_prim_exact) (use init_ok [of "[0x7f]" 0 "\<lambda>_. Libc (\<lambda>_. True) 0 0" True] in \<open>simp_all add: start_def\<close>)

text \<open>C16: backtracking. Restoring a checkpoint after any run of operations (finished or failed)
  that neither popped below it nor counted in a loop that was open at it puts back the whole parse state:
  position, endian register, scopes, loops with their counters, loop bases and windows; and it clears the error.
  The counters of the loops that were open are not part of a checkpoint: a run that steps one leaves it stepped.
  The operations get what they are owed (\<open>dutiful\<close>): seeks into the input, counters short of \<open>INT64_MAX\<close>.\<close>

theorem backtrack_restores:
  assumes "rctx_ok c" and "keeps_above (save c) ops c" and "dutiful ops c"
  shows "case run_rops ops c of (r, c') \<Rightarrow>
    cursor_of (restore (save c) c') = cursor_of c \<and> rctx_ok (restore (save c) c') \<and>
    r_error (restore (save c) c') = None"
proof -
  obtain r c' where run: "run_rops ops c = (r, c')" by fastforce
  have "kept (cursor_of c) (cursor_of c')"
    using run_rops_kept [OF assms(1,1,2,3)] run by (simp add: kept_def)
  then show ?thesis
    using restore_kept [OF assms(1)] run_rops_safe [OF assms(1,3)] run by (simp add: restore_def)
qed

theorem backtrack_restores_witness:
  "case run_rops [Read PU8, Endian True, Seek 9] (start [1, 2] 0 (\<lambda>_. Libc (\<lambda>_. True) 0 0) True) of (r, c') \<Rightarrow>
    cursor_of (restore (save (start [1, 2] 0 (\<lambda>_. Libc (\<lambda>_. True) 0 0) True)) c') =
      cursor_of (start [1, 2] 0 (\<lambda>_. Libc (\<lambda>_. True) 0 0) True) \<and>
    rctx_ok (restore (save (start [1, 2] 0 (\<lambda>_. Libc (\<lambda>_. True) 0 0) True)) c') \<and>
    r_error (restore (save (start [1, 2] 0 (\<lambda>_. Libc (\<lambda>_. True) 0 0) True)) c') = None"
  by (rule backtrack_restores)
    (use init_ok [of "[1, 2]" 0 "\<lambda>_. Libc (\<lambda>_. True) 0 0" True] in
      \<open>simp_all add: start_def split: rr.splits prod.splits\<close>)

text \<open>One stack at a time: a nest of pushes and pops that is not refused leaves the stack as it found it.\<close>

lemma single_nests_balance:
  assumes "rctx_ok c"
  shows "(case run_nest push_scope pop_scope n c of (r, c') \<Rightarrow> r \<noteq> UB \<and>
      (r = Got () \<longrightarrow> a_scopes (cursor_of c') = a_scopes (cursor_of c)) \<and>
      (\<exists>xs. a_scopes (cursor_of c') = a_scopes (cursor_of c) @ xs)) \<and>
    (case run_nest push_loop_base pop_loop_base m c of (r, c') \<Rightarrow> r \<noteq> UB \<and>
      (r = Got () \<longrightarrow> a_bases (cursor_of c') = a_bases (cursor_of c)) \<and>
      (\<exists>xs. a_bases (cursor_of c') = a_bases (cursor_of c) @ xs)) \<and>
    (case run_nest push_loop_n pop_loop l c of (r, c') \<Rightarrow> r \<noteq> UB \<and>
      (r = Got () \<longrightarrow> a_lim (cursor_of c') = a_lim (cursor_of c)) \<and>
      (\<exists>xs. a_lim (cursor_of c') = a_lim (cursor_of c) @ xs))"
  using scope.nest_run [OF assms] base.nest_run [OF assms] loop.nest_run [OF assms]
  by (auto split: prod.splits simp del: cursor_of_simps)

text \<open>All stacks together. The body of a generated reader is a tree of blocks: operations that leave the
  stacks alone, and scopes, loops, loop bases and windows around further blocks.\<close>

datatype block = Plain rop | Scoped nat "block list" | Looped i64 "block list" | Based int "block list"
  | Windowed size_t bool "block list"

fun flat :: "rop \<Rightarrow> bool" where
  "flat (Seek p) = True" | "flat (SeekTo p) = True" | "flat (Advance n) = True" | "flat LoopNext = True"
| "flat LoopAdvance = True" | "flat (SetIndex i) = True" | "flat (Endian b) = True" | "flat (Read p) = True"
| "flat x = False"

fun block_ops :: "block \<Rightarrow> rop list" where
  "block_ops (Plain x) = (if flat x then [x] else [])"
| "block_ops (Scoped p bs) = PushScope p # concat (map block_ops bs) @ [PopScope]"
| "block_ops (Looped l bs) = PushLoop l # concat (map block_ops bs) @ [PopLoop]"
| "block_ops (Based b bs) = PushBase b # concat (map block_ops bs) @ [PopBase]"
| "block_ops (Windowed e checked bs) =
     PushWin e # concat (map block_ops bs) @ [if checked then PopWinChecked else PopWin]"

text \<open>The stacks as they were, but for the counter of the loop that is open; and stacks on top of them.\<close>

definition same_stacks :: "cursor \<Rightarrow> cursor \<Rightarrow> bool" where
  "same_stacks a b = (a_scopes b = a_scopes a \<and> butlast (a_idx b) = butlast (a_idx a) \<and> length (a_idx b) = length (a_idx a) \<and>
     a_lim b = a_lim a \<and> a_cap b = a_cap a \<and> a_bases b = a_bases a \<and> a_wins b = a_wins a)"

definition on_top :: "cursor \<Rightarrow> cursor \<Rightarrow> bool" where
  "on_top a b = (ext (a_scopes a) (a_scopes b) \<and> ext (butlast (a_idx a)) (a_idx b) \<and> ext (a_lim a) (a_lim b) \<and>
     ext (a_cap a) (a_cap b) \<and> ext (a_bases a) (a_bases b) \<and> ext (a_wins a) (a_wins b))"

lemma ext_trans: "ext xs ys \<Longrightarrow> ext ys zs \<Longrightarrow> ext xs zs"
  by (metis ext_def ext_length min.absorb1 take_take)

lemma ext_butlast: "ext (butlast xs) xs"
  by (simp add: ext_def butlast_conv_take)

lemma ext_prefix: "ext (xs @ ys) zs \<Longrightarrow> ext xs zs"
  using ext_trans [of xs "xs @ ys" zs] by (simp add: ext_def)

lemma same_refl [simp]: "same_stacks a a"
  by (simp add: same_stacks_def)

lemma same_trans: "same_stacks a b \<Longrightarrow> same_stacks b d \<Longrightarrow> same_stacks a d"
  by (simp add: same_stacks_def)

lemma same_on_top: "same_stacks a b \<Longrightarrow> on_top b d \<Longrightarrow> on_top a d"
  by (simp add: same_stacks_def on_top_def)

lemma on_top_refl [simp]: "on_top a a"
  by (simp add: on_top_def ext_butlast)

lemma same_top: "same_stacks a b \<Longrightarrow> on_top a b"
  using same_on_top on_top_refl by blast

inductive closes :: "rop \<Rightarrow> rop \<Rightarrow> bool" where
  "closes (PushScope p) PopScope" | "closes (PushLoop l) PopLoop" | "closes (PushBase b) PopBase"
| "closes (PushWin e) PopWin" | "closes (PushWin e) PopWinChecked"

lemma closes_steps:
  assumes "closes x y" and "astep d x a = Some (v, a1)"
  shows "same_stacks a1 b \<Longrightarrow> astep d y b = Some (w, b1) \<Longrightarrow> same_stacks a b1"
    and "on_top a1 b \<Longrightarrow> on_top a b"
    and "same_stacks a1 b \<Longrightarrow> moved_only y b b1 \<Longrightarrow> on_top a b1"
proof -
  show "same_stacks a1 b \<Longrightarrow> astep d y b = Some (w, b1) \<Longrightarrow> same_stacks a b1"
    using assms by (cases rule: closes.cases) (auto simp: same_stacks_def split: if_splits)
  show top: "on_top a1 b \<Longrightarrow> on_top a b" for b
    using assms by (cases rule: closes.cases)
      (auto simp: on_top_def split: if_splits dest: ext_prefix intro: ext_trans [OF ext_butlast])
  assume s: "same_stacks a1 b" and m: "moved_only y b b1"
  show "on_top a b1"
  proof (cases "\<exists>p. b1 = b\<lparr>a_pos := p\<rparr>")
    case True
    then have "same_stacks a1 b1" using s by (auto simp: same_stacks_def)
    then show ?thesis using top same_top by blast
  next
    case False
    then have y: "y = PopWinChecked" "b1 = b\<lparr>a_wins := butlast (a_wins b)\<rparr>" using m by (auto simp: moved_only_def)
    with assms(1) obtain e where "x = PushWin e" by (auto elim: closes.cases)
    then have "same_stacks a b1" using s assms(2) y by (auto simp: same_stacks_def split: if_splits)
    then show ?thesis by (rule same_top)
  qed
qed

lemma closes_calm: "closes x y \<Longrightarrow> \<not> overflows a x \<and> \<not> overflows a y \<and> owed n x b \<and> owed n y b"
  by (cases rule: closes.cases) auto

lemma astep_flat: "flat x \<Longrightarrow> astep d x a = Some (v, a') \<Longrightarrow> same_stacks a a'"
  by (cases x) (auto simp: same_stacks_def set_last_def butlast_list_update split: if_splits option.splits)

lemma moved_same: "moved_only x a a' \<Longrightarrow> x \<noteq> PopWinChecked \<Longrightarrow> same_stacks a a'"
  by (auto simp: moved_only_def same_stacks_def)

lemma flat_same:
  assumes "rctx_ok c" and "owed (length (r_data c)) x (cursor_of c)" and "flat x" and st: "rop_step x c = (r, c')"
  shows "same_stacks (cursor_of c) (cursor_of c')"
proof -
  have s: "safe x c (r, c')" "\<not> overflows (cursor_of c) x \<Longrightarrow> refines (r_data c) x c (r, c')"
    using rop_step_safe [OF assms(1,2)] st by auto
  show ?thesis
  proof (cases r)
    case (Got v)
    show ?thesis
    proof (cases "overflows (cursor_of c) x")
      case True
      then obtain n where "x = Advance n" by (cases x) auto
      then obtain p where "cursor_of c' = (cursor_of c)\<lparr>a_pos := p\<rparr>" using advance_pos_only [OF assms(1)] st Got by blast
      then show ?thesis by (simp add: same_stacks_def)
    next
      case False
      then have "astep (r_data c) x (cursor_of c) = Some (v, cursor_of c')" using s Got by (simp add: refines_def)
      then show ?thesis by (rule astep_flat [OF assms(3)])
    qed
  next
    case Rej
    then have "moved_only x (cursor_of c) (cursor_of c')" using s(1) by (simp add: safe_def)
    then show ?thesis by (rule moved_same) (use assms(3) in auto)
  next
    case UB
    then show ?thesis using s(1) by (simp add: safe_def)
  qed
qed

lemma run_rops_append:
  "run_rops (xs @ ys) c = (case run_rops xs c of
     (Got vs, c1) \<Rightarrow> map_rd ((@) vs) (run_rops ys) c1 | (Rej, c1) \<Rightarrow> (Rej, c1) | (UB, c1) \<Rightarrow> (UB, c1))"
proof (induction xs arbitrary: c)
  case Nil
  show ?case by (cases "run_rops ys c"; cases "fst (run_rops ys c)") (auto simp: map_rd_def)
next
  case (Cons x xs)
  show ?case by (auto simp: Cons map_rd_def split: prod.splits rr.splits)
qed

lemma dutiful_append:
  "dutiful (xs @ ys) c = (dutiful xs c \<and> (case run_rops xs c of (Got vs, c1) \<Rightarrow> dutiful ys c1 | _ \<Rightarrow> True))"
  by (induction xs arbitrary: c) (auto simp: map_rd_def split: prod.splits rr.splits)

definition balanced :: "rctx \<Rightarrow> u64 list rr \<times> rctx \<Rightarrow> bool" where
  "balanced c out = ((\<forall>vs. fst out = Got vs \<longrightarrow> same_stacks (cursor_of c) (cursor_of (snd out))) \<and>
     on_top (cursor_of c) (cursor_of (snd out)))"

lemma bracket_balanced:
  assumes ok: "rctx_ok c" and cl: "closes x y" and du: "dutiful (x # body @ [y]) c"
    and body: "\<And>c. rctx_ok c \<Longrightarrow> dutiful body c \<Longrightarrow> balanced c (run_rops body c)"
  shows "balanced c (run_rops (x # body @ [y]) c)"
proof -
  note cal = closes_calm [OF cl]
  obtain r1 c1 where s1: "rop_step x c = (r1, c1)" by fastforce
  have f1: "safe x c (r1, c1)" "refines (r_data c) x c (r1, c1)"
    using rop_step_safe [OF ok, of x] cal s1 by auto
  show ?thesis
  proof (cases r1)
    case (Got v)
    have a1: "astep (r_data c) x (cursor_of c) = Some (v, cursor_of c1)" using f1(2) Got by (simp add: refines_def)
    have ok1: "rctx_ok c1" and d1: "r_data c1 = r_data c" using f1(1) by (auto simp: safe_def same_input_def)
    have du1: "dutiful (body @ [y]) c1" using du s1 Got by simp
    then have db: "dutiful body c1" by (simp add: dutiful_append)
    obtain r2 c2 where s2: "run_rops body c1 = (r2, c2)" by fastforce
    have b2: "balanced c1 (r2, c2)" using body [OF ok1 db] s2 by simp
    have f2: "r2 \<noteq> UB" "rctx_ok c2" "same_input c1 c2" using run_rops_safe [OF ok1 db] s2 by simp_all
    have top: "on_top (cursor_of c) (cursor_of c2)"
      using closes_steps(2) [OF cl a1] b2 by (simp add: balanced_def)
    show ?thesis
    proof (cases r2)
      case (Got vs)
      then have sm: "same_stacks (cursor_of c1) (cursor_of c2)" using b2 by (simp add: balanced_def)
      obtain r3 c3 where s3: "rop_step y c2 = (r3, c3)" by fastforce
      have d2: "r_data c2 = r_data c" using f2(3) d1 by (simp add: same_input_def)
      have f3: "safe y c2 (r3, c3)" "refines (r_data c) y c2 (r3, c3)"
        using rop_step_safe [OF f2(2), of y] cal s3 d2 by auto
      show ?thesis
      proof (cases r3)
        case (Got w)
        then have "astep (r_data c) y (cursor_of c2) = Some (w, cursor_of c3)" using f3(2) by (simp add: refines_def)
        then have "same_stacks (cursor_of c) (cursor_of c3)" by (rule closes_steps(1) [OF cl a1 sm])
        then show ?thesis using s1 s2 s3 \<open>r1 = Got v\<close> \<open>r2 = Got vs\<close> Got same_top
          by (simp add: run_rops_append map_rd_def balanced_def)
      next
        case Rej
        then have "moved_only y (cursor_of c2) (cursor_of c3)" using f3(1) by (simp add: safe_def)
        then have "on_top (cursor_of c) (cursor_of c3)" by (rule closes_steps(3) [OF cl a1 sm])
        then show ?thesis using s1 s2 s3 \<open>r1 = Got v\<close> \<open>r2 = Got vs\<close> Rej
          by (simp add: run_rops_append map_rd_def balanced_def)
      qed (use f3(1) in \<open>simp add: safe_def\<close>)
    qed (use top s1 s2 \<open>r1 = Got v\<close> f2(1) in \<open>simp_all add: run_rops_append map_rd_def balanced_def\<close>)
  next
    case Rej
    then have "moved_only x (cursor_of c) (cursor_of c1)" using f1(1) by (simp add: safe_def)
    moreover have "x \<noteq> PopWinChecked" using cl by (auto elim: closes.cases)
    ultimately have "same_stacks (cursor_of c) (cursor_of c1)" by (rule moved_same)
    then show ?thesis using s1 Rej same_top by (simp add: balanced_def)
  qed (use f1(1) in \<open>simp add: safe_def\<close>)
qed

lemma sequence_balanced:
  assumes "\<And>b c. b \<in> set bs \<Longrightarrow> rctx_ok c \<Longrightarrow> dutiful (block_ops b) c \<Longrightarrow> balanced c (run_rops (block_ops b) c)"
    and "rctx_ok c" and "dutiful (concat (map block_ops bs)) c"
  shows "balanced c (run_rops (concat (map block_ops bs)) c)"
  using assms
proof (induction bs arbitrary: c)
  case (Cons b bs)
  have db: "dutiful (block_ops b) c" using Cons.prems(3) by (simp add: dutiful_append)
  obtain r1 c1 where s1: "run_rops (block_ops b) c = (r1, c1)" by fastforce
  have b1: "balanced c (r1, c1)" using Cons.prems(1) [of b c] Cons.prems(2) db s1 by simp
  have f1: "r1 \<noteq> UB" "rctx_ok c1" using run_rops_safe [OF Cons.prems(2) db] s1 by simp_all
  show ?case
  proof (cases r1)
    case (Got vs)
    have d2: "dutiful (concat (map block_ops bs)) c1" using Cons.prems(3) s1 Got by (simp add: dutiful_append)
    obtain r2 c2 where s2: "run_rops (concat (map block_ops bs)) c1 = (r2, c2)" by fastforce
    have "balanced c1 (r2, c2)" using Cons.IH [OF _ f1(2) d2] Cons.prems(1) s2 by simp
    then show ?thesis using b1 s1 s2 Got same_trans same_on_top
      by (cases r2) (auto simp: run_rops_append map_rd_def balanced_def)
  qed (use b1 s1 f1 in \<open>simp_all add: run_rops_append balanced_def\<close>)
qed (simp add: balanced_def)

lemma block_balanced:
  "rctx_ok c \<Longrightarrow> dutiful (block_ops b) c \<Longrightarrow> balanced c (run_rops (block_ops b) c)"
proof (induction b arbitrary: c)
  case (Plain x)
  obtain r c1 where s: "rop_step x c = (r, c1)" by fastforce
  show ?case
  proof (cases "flat x")
    case True
    then have "same_stacks (cursor_of c) (cursor_of c1)" using flat_same [OF Plain.prems(1) _ True s] Plain.prems(2) by simp
    then show ?thesis using True s same_top by (cases r) (auto simp: balanced_def map_rd_def)
  qed (simp add: balanced_def)
qed (auto intro!: bracket_balanced closes.intros sequence_balanced simp del: run_rops.simps dutiful.simps)

text \<open>C36: the stacks of a reader are balanced. The operations of a generated reader nest: a scope, a loop, a
  loop base or a window is opened, the blocks in it run, and it is closed, with reads, seeks, loop steps and
  changes of the endian register anywhere between. Whatever the nesting and wherever the stacks are interleaved,
  a run that is not refused leaves every stack as it found it - scopes, loops with their limits and capacities,
  loop bases, windows, and the counters of all loops but the one that was open when it began, which it may
  step - and a run that is refused at any point leaves everything that was below.\<close>

theorem call_nests_balance:
  assumes "rctx_ok c" and "dutiful (concat (map block_ops bs)) c"
  shows "case run_rops (concat (map block_ops bs)) c of
      (Got vs, c') \<Rightarrow> same_stacks (cursor_of c) (cursor_of c')
    | (Rej, c') \<Rightarrow> on_top (cursor_of c) (cursor_of c')
    | (UB, c') \<Rightarrow> False"
  using sequence_balanced [OF block_balanced assms] run_rops_safe [OF assms]
  by (auto simp: balanced_def split: prod.splits rr.splits)

definition two_calls :: "block list" where
  "two_calls = [Scoped 5 [Based 0 [Looped 2 [Plain (Read PU8), Windowed 2 True [Plain (Read PU8)], Plain LoopNext]]],
     Scoped 6 []]"

theorem call_nests_balance_witness:
  "case run_rops (concat (map block_ops two_calls)) (start [1, 2] 0 (\<lambda>_. Libc (\<lambda>_. True) 0 0) True) of
      (Got vs, c') \<Rightarrow> same_stacks (cursor_of (start [1, 2] 0 (\<lambda>_. Libc (\<lambda>_. True) 0 0) True)) (cursor_of c')
    | (Rej, c') \<Rightarrow> on_top (cursor_of (start [1, 2] 0 (\<lambda>_. Libc (\<lambda>_. True) 0 0) True)) (cursor_of c')
    | (UB, c') \<Rightarrow> False"
proof (rule call_nests_balance)
  show "rctx_ok (start [1, 2] 0 (\<lambda>_. Libc (\<lambda>_. True) 0 0) True)"
    using init_ok [of "[1, 2]" 0 "\<lambda>_. Libc (\<lambda>_. True) 0 0" True] by (simp add: start_def)
  show "dutiful (concat (map block_ops two_calls)) (start [1, 2] 0 (\<lambda>_. Libc (\<lambda>_. True) 0 0) True)"
    by (rule start_dutiful) (simp_all add: two_calls_def within_def)
qed

text \<open>C40: \<open>bbq_advance\<close> is not bounds-checked for a distance that overflows: past the first byte of
  the window, an advance by \<open>SIZE_MAX\<close> is accepted and moves the cursor one byte back.\<close>

theorem advance_overflow_moves_back:
  assumes "rctx_ok c" and "0 < r_pos c" and "r_pos c \<le> snd (window (r_len c) (cursor_of c))"
  shows "advance SIZE_MAX c = (Got (), c\<lparr>r_pos := r_pos c - 1\<rparr>)"
proof -
  have "r_pos c - 1 \<le> snd (window (r_len c) (cursor_of c))"
  proof -
    have "1 \<le> unat (r_pos c)" using assms(2) by (simp add: word_less_nat_alt)
    then have "unat (r_pos c - 1) = unat (r_pos c) - 1" by (simp add: unat_sub word_le_nat_alt)
    then show ?thesis using assms(3) by (simp add: word_le_nat_alt)
  qed
  then have "\<not> snd (window (r_len c) (cursor_of c)) < r_pos c - 1" by (simp only: not_less)
  then show ?thesis using advance_out [OF assms(1), of SIZE_MAX] unfolding SIZE_MAX_minus_1 by simp
qed

theorem advance_overflow_moves_back_witness:
  "advance SIZE_MAX ((start [1, 2] 0 (\<lambda>_. Libc (\<lambda>_. True) 0 0) True)\<lparr>r_pos := 2\<rparr>) =
     (Got (), ((start [1, 2] 0 (\<lambda>_. Libc (\<lambda>_. True) 0 0) True)\<lparr>r_pos := 2\<rparr>)
       \<lparr>r_pos := r_pos ((start [1, 2] 0 (\<lambda>_. Libc (\<lambda>_. True) 0 0) True)\<lparr>r_pos := 2\<rparr>) - 1\<rparr>)"
  by (rule advance_overflow_moves_back)
    (simp_all add: start_def ctx_init_a_def rctx_ok_def stacks_ok_def cursor_of_def window_def)

text \<open>\<open>bbq_read_sleb128_s33\<close> accepts a type index of 2^31 and more (it fits 33 signed bits), and
  the cast to \<open>int32_t\<close> then hands the caller a negative number, the form of an abstract code: the
  range check does not reject it.\<close>

lemma s33_index_turns_negative:
  assumes "rctx_ok c" and "leb_split (take 5 (rest c)) = Some p"
    and "2 ^ 31 \<le> sleb_val p" and "sleb_val p < 2 ^ 32"
  shows "\<exists>w. read_sleb128_s33 c = (Got w, step (length p) c) \<and> sint w = sleb_val p - 2 ^ 32 \<and> sint w < 0"
proof -
  have d: "dec_sleb 33 (rest c) = Some (word_of_int (sleb_val p), length p)"
    using assms(2-4) by (simp add: dec_sleb_def leb_max_def signed_range_def)
  have "read_sleb128 33 c = (Got (word_of_int (sleb_val p)), step (length p) c)"
    using read_sleb128_decodes [OF assms(1), of 33] d by (simp add: decodes_def)
  then have r: "read_sleb128_s33 c = (Got (ucast (word_of_int (sleb_val p) :: u64)), step (length p) c)"
    by (simp add: read_sleb128_s33_def map_rd_def)
  have u: "(ucast (word_of_int (sleb_val p) :: u64) :: u32) = word_of_int (sleb_val p - 2 ^ 32)"
  proof -
    have "(ucast (word_of_int (sleb_val p) :: u64) :: u32) = word_of_int (sleb_val p)"
      by (rule bit_word_eqI) (simp add: bit_simps)
    also have "\<dots> = word_of_int (sleb_val p - 2 ^ 32)"
    proof -
      have "(word_of_int (2 ^ 32) :: u32) = 0" by (simp add: word_of_int_eq_0_iff)
      then show ?thesis unfolding of_int_diff by simp
    qed
    finally show ?thesis .
  qed
  have "sint (word_of_int (sleb_val p - 2 ^ 32) :: u32) = sleb_val p - 2 ^ 32"
    using assms(3,4) unfolding sint_sbintrunc' by (simp add: signed_take_bit_int_eq_self)
  then show ?thesis using r u assms(4) by auto
qed

lemma s33_index_turns_negative_witness:
  "\<exists>w. read_sleb128_s33 (start [0x80, 0x80, 0x80, 0x80, 0x08] 0 (\<lambda>_. Libc (\<lambda>_. True) 0 0) True) =
       (Got w, step (length [0x80 :: u8, 0x80, 0x80, 0x80, 0x08]) (start [0x80, 0x80, 0x80, 0x80, 0x08] 0 (\<lambda>_. Libc (\<lambda>_. True) 0 0) True)) \<and>
     sint w = sleb_val [0x80, 0x80, 0x80, 0x80, 0x08] - 2 ^ 32 \<and> sint w < 0"
proof (rule s33_index_turns_negative)
  show "rctx_ok (start [0x80, 0x80, 0x80, 0x80, 0x08] 0 (\<lambda>_. Libc (\<lambda>_. True) 0 0) True)"
    using init_ok [of "[0x80, 0x80, 0x80, 0x80, 0x08]" 0 "\<lambda>_. Libc (\<lambda>_. True) 0 0" True] by (simp add: start_def)
  show "leb_split (take 5 (rest (start [0x80, 0x80, 0x80, 0x80, 0x08] 0 (\<lambda>_. Libc (\<lambda>_. True) 0 0) True))) =
      Some [0x80, 0x80, 0x80, 0x80, 0x08]"
    by (simp add: start_def ctx_init_a_def rest_def window_def cursor_of_def)
qed (simp_all add: sleb_top_def)

end
