(* ===== verification/Owned.thy ===== *)
theory Owned
  imports ReadMachine
begin

text \<open>
  Owned storage of \<open>backends/c/runtime/bbq_runtime.h\<close>: the blocks the owning reader hands out
  (array stores, bytes and string copies). A block carries the header's two fields and its bytes;
  a byte that was never written is \<open>None\<close>. \<open>OWNED_HDR\<close> is \<open>sizeof(bbq_owned_hdr)\<close>, the size of
  a \<open>max_align_t\<close> on a 64-bit target.
\<close>

record owned =
  o_bytes :: size_t
  o_alloc :: nat
  o_cells :: "u8 option list"

definition OWNED_HDR :: size_t where
  "OWNED_HDR = 32"

definition owned_resize :: "nat \<Rightarrow> owned option \<Rightarrow> size_t \<Rightarrow> heap \<Rightarrow> owned option \<times> heap" where
  "owned_resize a p bytes h =
     (if SIZE_MAX - OWNED_HDR < bytes then (None, h)
      else let use = (case p of None \<Rightarrow> a | Some b \<Rightarrow> o_alloc b);
               old_total = (case p of None \<Rightarrow> 0 | Some b \<Rightarrow> OWNED_HDR + o_bytes b)
        in case h_resize use (p \<noteq> None) old_total (OWNED_HDR + bytes) h of
             (False, h') \<Rightarrow> (None, h')
           | (True, h') \<Rightarrow> (Some \<lparr>o_bytes = bytes, o_alloc = use,
               o_cells = recell (unat bytes) (case p of None \<Rightarrow> [] | Some b \<Rightarrow> o_cells b)\<rparr>, h'))"

definition owned_free :: "owned option \<Rightarrow> heap \<Rightarrow> heap" where
  "owned_free p h = (case p of None \<Rightarrow> h | Some b \<Rightarrow> h_release (o_alloc b) True (OWNED_HDR + o_bytes b) h)"

text \<open>\<open>bbq_array_grow\<close>: the store of the innermost array, with \<open>elem\<close> bytes an element.\<close>

definition array_grow :: "owned option \<Rightarrow> size_t \<Rightarrow> (bool \<times> owned option) rd" where
  "array_grow items elem c =
     (let d = r_loop_depth c - 1
      in if d < 0 then (Got (True, items), c)
      else case (vec_get (r_lidx c) d, vec_get (r_lcap c) d) of
        (Got idx, Got cap) \<Rightarrow>
          let need = idx + 1
          in if need \<le> cap then (Got (True, items), c)
          else let newcap0 = (if cap \<noteq> 0 then cap * 2 else 4);
                   newcap = (if newcap0 < need then need else newcap0)
            in if elem \<noteq> 0 \<and> SIZE_MAX div elem < newcap then (Got (False, items), c\<lparr>r_store_oom := True\<rparr>)
            else (case owned_resize (r_alloc c) items (newcap * elem) (r_heap c) of
                (None, h) \<Rightarrow> (Got (False, items), c\<lparr>r_store_oom := True, r_heap := h\<rparr>)
              | (Some p, h) \<Rightarrow>
                  (case put_cells (unat (cap * elem)) (replicate (unat ((newcap - cap) * elem)) 0) (o_cells p) of
                     None \<Rightarrow> (UB, c\<lparr>r_heap := h\<rparr>)
                   | Some cs \<Rightarrow> (case vec_put (r_lcap c) d newcap of
                       None \<Rightarrow> (UB, c\<lparr>r_heap := h\<rparr>)
                     | Some v \<Rightarrow> (Got (True, Some (p\<lparr>o_cells := cs\<rparr>)), c\<lparr>r_lcap := v, r_heap := h\<rparr>))))
      | _ \<Rightarrow> (UB, c))"

definition read_bytes :: "size_t \<Rightarrow> (owned \<times> size_t) rd" where
  "read_bytes n c =
     (case effective_end c of
        Got e \<Rightarrow>
          if e < r_pos c + n then fail ''bytes: overrun'' c
          else (case owned_resize (r_alloc c) None (if n \<noteq> 0 then n else 1) (r_heap c) of
              (None, h) \<Rightarrow> fail ''bytes: out of memory'' (c\<lparr>r_store_oom := True, r_heap := h\<rparr>)
            | (Some p, h) \<Rightarrow>
                if unat (r_pos c) + unat n \<le> length (r_data c)
                then (case put_cells 0 (slice (unat (r_pos c)) (unat n) (r_data c)) (o_cells p) of
                    None \<Rightarrow> (UB, c\<lparr>r_heap := h\<rparr>)
                  | Some cs \<Rightarrow> (Got (p\<lparr>o_cells := cs\<rparr>, n), c\<lparr>r_heap := h, r_pos := r_pos c + n\<rparr>))
                else (UB, c\<lparr>r_heap := h\<rparr>))
      | _ \<Rightarrow> (UB, c))"

definition read_string :: "size_t \<Rightarrow> (owned \<times> size_t) rd" where
  "read_string n c =
     (case effective_end c of
        Got e \<Rightarrow>
          if e < r_pos c + n then fail ''string: overrun'' c
          else (case (if n < SIZE_MAX then owned_resize (r_alloc c) None (n + 1) (r_heap c) else (None, r_heap c)) of
              (None, h) \<Rightarrow> fail ''string: out of memory'' (c\<lparr>r_store_oom := True, r_heap := h\<rparr>)
            | (Some p, h) \<Rightarrow>
                if unat (r_pos c) + unat n \<le> length (r_data c)
                then (case put_cells 0 (slice (unat (r_pos c)) (unat n) (r_data c) @ [0]) (o_cells p) of
                    None \<Rightarrow> (UB, c\<lparr>r_heap := h\<rparr>)
                  | Some cs \<Rightarrow> (Got (p\<lparr>o_cells := cs\<rparr>, n), c\<lparr>r_heap := h, r_pos := r_pos c + n\<rparr>))
                else (UB, c\<lparr>r_heap := h\<rparr>))
      | _ \<Rightarrow> (UB, c))"

section \<open>Blocks and their books\<close>

definition owned_ok :: "owned \<Rightarrow> bool" where
  "owned_ok b = (length (o_cells b) = unat (o_bytes b) \<and> unat (o_bytes b) \<le> 2 ^ 64 - 33)"

definition owned_cost :: "owned option \<Rightarrow> nat" where
  "owned_cost p = (case p of None \<Rightarrow> 0 | Some b \<Rightarrow> 32 + unat (o_bytes b))"

lemma hdr_add: "unat b \<le> 2 ^ 64 - 33 \<Longrightarrow> unat (OWNED_HDR + b) = 32 + unat b"
  by (subst unat_add_no_wrap) (simp_all add: OWNED_HDR_def)

lemma hdr_guard: "(SIZE_MAX - OWNED_HDR < b) = (2 ^ 64 - 33 < unat b)"
proof -
  have "unat (SIZE_MAX - OWNED_HDR) = 2 ^ 64 - 33" by (simp add: SIZE_MAX_def OWNED_HDR_def)
  then show ?thesis by (simp add: word_less_nat_alt)
qed

text \<open>A resize keeps the bytes both sizes have, and charges the allocator the block came from.\<close>

lemma owned_resize_spec:
  assumes "\<And>b. p = Some b \<Longrightarrow> owned_ok b" and "owned_resize a p bytes h = (q, h')"
  shows "\<And>b. q = Some b \<Longrightarrow> owned_ok b \<and> o_bytes b = bytes \<and>
      o_alloc b = (case p of None \<Rightarrow> a | Some b0 \<Rightarrow> o_alloc b0) \<and>
      (\<forall>i < min (unat bytes) (case p of None \<Rightarrow> 0 | Some b0 \<Rightarrow> length (o_cells b0)).
         o_cells b ! i = (case p of None \<Rightarrow> [] | Some b0 \<Rightarrow> o_cells b0) ! i)"
    and "accounts (h (case p of None \<Rightarrow> a | Some b0 \<Rightarrow> o_alloc b0)) (s + owned_cost p) \<Longrightarrow>
      accounts (h' (case p of None \<Rightarrow> a | Some b0 \<Rightarrow> o_alloc b0)) (s + (if q = None then owned_cost p else owned_cost q))"
proof -
  let ?use = "case p of None \<Rightarrow> a | Some b0 \<Rightarrow> o_alloc b0"
  let ?old = "case p of None \<Rightarrow> 0 | Some b \<Rightarrow> OWNED_HDR + o_bytes b"
  let ?cs = "case p of None \<Rightarrow> [] | Some b0 \<Rightarrow> o_cells b0"
  have *: "(\<forall>b. q = Some b \<longrightarrow> owned_ok b \<and> o_bytes b = bytes \<and> o_alloc b = ?use \<and>
      (\<forall>i < min (unat bytes) (length ?cs). o_cells b ! i = ?cs ! i)) \<and>
    (accounts (h ?use) (s + owned_cost p) \<longrightarrow> accounts (h' ?use) (s + (if q = None then owned_cost p else owned_cost q)))"
  proof (cases "SIZE_MAX - OWNED_HDR < bytes")
    case True
    then have "q = None" "h' = h" using assms(2) by (simp_all add: owned_resize_def)
    then show ?thesis by simp
  next
    case False
    then have fit: "unat bytes \<le> 2 ^ 64 - 33" using hdr_guard by (simp add: not_less)
    obtain ok h1 where r: "h_resize ?use (p \<noteq> None) ?old (OWNED_HDR + bytes) h = (ok, h1)" by fastforce
    have nz: "OWNED_HDR + bytes \<noteq> 0" using hdr_add [OF fit] by (metis add_is_0 unat_0 zero_neq_numeral)
    have paid: "paid (p \<noteq> None) ?old = owned_cost p"
      using assms(1) hdr_add by (cases p) (auto simp: owned_cost_def owned_ok_def)
    have acc: "accounts (h ?use) (s + owned_cost p) \<Longrightarrow>
        accounts (h1 ?use) (if ok then s + unat (OWNED_HDR + bytes) else s + owned_cost p)"
      using heap.rsz_any [OF r, of s] nz paid by (cases ok) auto
    have q: "q = (if ok then Some \<lparr>o_bytes = bytes, o_alloc = ?use, o_cells = recell (unat bytes) ?cs\<rparr> else None)" "h' = h1"
      using assms(2) False r by (cases ok; auto simp: owned_resize_def Let_def)+
    have keep: "i < min (unat bytes) (length ?cs) \<Longrightarrow> recell (unat bytes) ?cs ! i = ?cs ! i" for i
      by (simp add: recell_def nth_append)
    show ?thesis
      using q acc fit keep hdr_add [OF fit] by (auto simp: owned_ok_def owned_cost_def)
  qed
  show "q = Some b \<Longrightarrow> owned_ok b \<and> o_bytes b = bytes \<and> o_alloc b = ?use \<and>
      (\<forall>i < min (unat bytes) (case p of None \<Rightarrow> 0 | Some b0 \<Rightarrow> length (o_cells b0)). o_cells b ! i = ?cs ! i)" for b
    using * by (cases p) auto
  show "accounts (h ?use) (s + owned_cost p) \<Longrightarrow> accounts (h' ?use) (s + (if q = None then owned_cost p else owned_cost q))"
    using * by blast
qed

section \<open>Copies\<close>

lemma effective_end_rest:
  "rctx_ok c \<Longrightarrow> unat (r_pos c) + unat n < 2 ^ 64 \<Longrightarrow>
     effective_end c = Got (snd (window (r_len c) (cursor_of c))) \<and>
     (snd (window (r_len c) (cursor_of c)) < r_pos c + n) =
       (unat (snd (window (r_len c) (cursor_of c))) < unat (r_pos c) + unat n)"
  by (simp add: effective_end_ok rctx_ok_def word_less_nat_alt unat_add_no_wrap)

lemma window_len: "rctx_ok c \<Longrightarrow> unat (snd (window (r_len c) (cursor_of c))) \<le> length (r_data c)"
proof -
  assume ok: "rctx_ok c"
  obtain s e where "window (r_len c) (cursor_of c) = (s, e)" by fastforce
  then show ?thesis using window_bounds [OF ok] ok by (auto simp: rctx_ok_def word_le_nat_alt)
qed

lemma slice_rest:
  assumes "rctx_ok c" and "unat (r_pos c) + n \<le> unat (snd (window (r_len c) (cursor_of c)))"
  shows "slice (unat (r_pos c)) n (r_data c) = take n (rest c)"
  using assms(2) by (simp add: slice_def rest_def)

lemma rctx_heap [simp]:
  "rctx_ok (c\<lparr>r_heap := h\<rparr>) = rctx_ok c" "rctx_ok (c\<lparr>r_store_oom := b, r_heap := h\<rparr>) = rctx_ok c"
  "rctx_ok (c\<lparr>r_store_oom := b\<rparr>) = rctx_ok c" "cursor_of (c\<lparr>r_heap := h\<rparr>) = cursor_of c"
  "cursor_of (c\<lparr>r_store_oom := b\<rparr>) = cursor_of c"
  "rctx_ok (c\<lparr>r_heap := h, r_pos := p\<rparr>) = rctx_ok (c\<lparr>r_pos := p\<rparr>)"
  by (simp_all add: rctx_ok_def stacks_ok_def cursor_of_def)

lemma note_fail_heap [simp]: "r_heap (note_fail m c) = r_heap c" "r_store_oom (note_fail m c) = r_store_oom c"
  by (simp_all add: note_fail_def)

lemma blit_whole: "length bs = length xs \<Longrightarrow> blit 0 bs xs = bs"
  by (simp add: blit_def)

text \<open>The whole of \<open>bbq_read_bytes\<close>, when the distance does not overflow.\<close>

lemma read_bytes_out:
  assumes ok: "rctx_ok c" and n: "unat (r_pos c) + unat n < 2 ^ 64"
  shows "case read_bytes n c of
      (Got (b, m), c') \<Rightarrow> m = n \<and> unat (r_pos c) + unat n \<le> unat (snd (window (r_len c) (cursor_of c))) \<and>
         take (unat n) (o_cells b) = map Some (take (unat n) (rest c)) \<and> owned_ok b \<and> o_alloc b = r_alloc c \<and>
         unat (r_pos c') = unat (r_pos c) + unat n \<and> rctx_ok c' \<and>
         (\<forall>s. accounts (r_heap c (r_alloc c)) s \<longrightarrow> accounts (r_heap c' (r_alloc c)) (s + owned_cost (Some b)))
    | (Rej, c') \<Rightarrow> rctx_ok c' \<and> r_error c' \<noteq> None \<and> r_pos c' = r_pos c \<and>
         (\<forall>s. accounts (r_heap c (r_alloc c)) s \<longrightarrow> accounts (r_heap c' (r_alloc c)) s) \<and>
         (unat (snd (window (r_len c) (cursor_of c))) < unat (r_pos c) + unat n \<or> r_store_oom c')
    | (UB, c') \<Rightarrow> False"
proof -
  let ?e = "snd (window (r_len c) (cursor_of c))"
  note e = effective_end_rest [OF ok n]
  show ?thesis
  proof (cases "unat ?e < unat (r_pos c) + unat n")
    case True
    then have "read_bytes n c = fail ''bytes: overrun'' c" using e by (simp add: read_bytes_def)
    then show ?thesis using True ok by (simp add: fail_def)
  next
    case False
    let ?m = "if n \<noteq> 0 then n else 1"
    obtain q h where r: "owned_resize (r_alloc c) None ?m (r_heap c) = (q, h)" by fastforce
    note sp = owned_resize_spec(1) [OF _ r] and ac = owned_resize_spec(2) [OF _ r]
    have acc: "accounts (r_heap c (r_alloc c)) s \<Longrightarrow> accounts (h (r_alloc c)) (s + owned_cost q)" for s
      using ac [of s] by (cases q) (simp_all add: owned_cost_def)
    have bnd: "unat (r_pos c) + unat n \<le> length (r_data c)" using False window_len [OF ok] by simp
    show ?thesis
    proof (cases q)
      case None
      then have "read_bytes n c = fail ''bytes: out of memory'' (c\<lparr>r_store_oom := True, r_heap := h\<rparr>)"
        using False e r by (simp add: read_bytes_def)
      then show ?thesis using acc None ok by (simp add: fail_def owned_cost_def)
    next
      case (Some b)
      have b: "owned_ok b" "o_bytes b = ?m" "o_alloc b = r_alloc c" using sp [of b] Some by auto
      have len: "unat n \<le> length (o_cells b)" using b by (simp add: owned_ok_def)
      let ?bs = "slice (unat (r_pos c)) (unat n) (r_data c)"
      have lbs: "length ?bs = unat n" using bnd by simp
      have put: "put_cells 0 ?bs (o_cells b) = Some (blit 0 (map Some ?bs) (o_cells b))"
        using len lbs by (simp add: put_cells_def)
      let ?b = "b\<lparr>o_cells := blit 0 (map Some ?bs) (o_cells b)\<rparr>"
      have out: "read_bytes n c = (Got (?b, n), c\<lparr>r_heap := h, r_pos := r_pos c + n\<rparr>)"
        using False e r Some bnd put by (simp add: read_bytes_def)
      have cells: "take (unat n) (o_cells ?b) = map Some (take (unat n) (rest c))"
        using take_blit_end [of 0 "map Some ?bs" "o_cells b"] len lbs slice_rest [OF ok, of "unat n"] False
        by simp
      have okb: "owned_ok ?b" using b len lbs by (simp add: owned_ok_def)
      have pos: "unat (r_pos c + n) = unat (r_pos c) + unat n" using n by (rule unat_add_no_wrap)
      have okc: "rctx_ok (c\<lparr>r_pos := r_pos c + n\<rparr>)"
        using ok pos bnd by (simp add: rctx_ok_def stacks_ok_def cursor_of_def word_le_nat_alt)
      have "owned_cost (Some ?b) = owned_cost q" using Some by (simp add: owned_cost_def)
      then show ?thesis using out cells okb pos okc b False acc by (simp add: not_less)
    qed
  qed
qed

section \<open>Array stores\<close>

text \<open>The elements an array store holds: \<open>cap\<close> of them, \<open>elem\<close> bytes each.\<close>

definition store_ok :: "size_t \<Rightarrow> size_t \<Rightarrow> owned option \<Rightarrow> bool" where
  "store_ok elem cap items = (case items of None \<Rightarrow> cap = 0 | Some b \<Rightarrow>
     owned_ok b \<and> unat (o_bytes b) = unat cap * unat elem)"

lemma array_bytes_fit:
  assumes "\<not> (elem \<noteq> 0 \<and> SIZE_MAX div elem < n)"
  shows "unat (n * elem) = unat n * unat elem"
proof (cases "elem = 0")
  case False
  then have "n \<le> SIZE_MAX div elem" using assms by simp
  then have "unat n \<le> (2 ^ 64 - 1) div unat elem" by (simp add: word_le_nat_alt unat_div)
  then have "unat n * unat elem \<le> 2 ^ 64 - 1"
    using False by (simp add: less_eq_div_iff_mult_less_eq unat_gt_0)
  then show ?thesis by (intro unat_mult_no_wrap) simp
qed simp

text \<open>The loop's capacity slot.\<close>

lemma put_cap_does:
  assumes "rctx_ok c" and "0 < r_loop_depth c"
  shows "\<exists>v. vec_put (r_lcap c) (r_loop_depth c - 1) k = Some v \<and> rctx_ok (c\<lparr>r_lcap := v\<rparr>) \<and>
    cursor_of (c\<lparr>r_lcap := v\<rparr>) = (cursor_of c)\<lparr>a_cap := set_last k (a_cap (cursor_of c))\<rparr>"
proof -
  have s: "stk_ok 8 (r_lcap c) (r_loop_depth c)" using assms by (simp add: rctx_ok_def stacks_ok_def)
  obtain v where v: "vec_put (r_lcap c) (r_loop_depth c - 1) k = Some v" "stk_ok 8 v (r_loop_depth c)"
    "stk v (r_loop_depth c) = (stk (r_lcap c) (r_loop_depth c))[nat (r_loop_depth c - 1) := k]"
    using stk_put_upd [OF s, of "r_loop_depth c - 1" k] assms(2) by auto
  have "stk (r_lcap c) (r_loop_depth c) \<noteq> []" using stk_empty_iff [OF s] assms(2) by simp
  then show ?thesis
    using assms stk_length [OF s] v
    by (simp add: rctx_ok_def stacks_ok_def cursor_of_def set_last_def nat_diff_distrib)
qed

lemma blit_zeros:
  "i + n = length xs \<Longrightarrow> put_cells i (replicate n 0) xs = Some (take i xs @ replicate n (Some 0))"
  by (simp add: put_cells_def blit_def)

text \<open>\<open>bbq_array_grow\<close> for an index that is not negative.\<close>

lemma array_grow_out:
  assumes ok: "rctx_ok c" and d: "0 < r_loop_depth c" and idx: "unat (last (a_idx (cursor_of c))) < 2 ^ 63"
    and st: "store_ok elem (last (a_cap (cursor_of c))) items"
  shows "\<exists>done items' c'. array_grow items elem c = (Got (done, items'), c') \<and> rctx_ok c' \<and>
    (if done then (\<exists>cap'. cursor_of c' = (cursor_of c)\<lparr>a_cap := set_last cap' (a_cap (cursor_of c))\<rparr> \<and>
        unat (last (a_idx (cursor_of c))) < unat cap' \<and> last (a_cap (cursor_of c)) \<le> cap' \<and> store_ok elem cap' items' \<and>
        (items' = items \<or> (\<exists>b'. items' = Some b' \<and>
          take (unat (last (a_cap (cursor_of c))) * unat elem) (o_cells b') =
            (case items of None \<Rightarrow> [] | Some b \<Rightarrow> o_cells b) \<and>
          (\<forall>x \<in> set (drop (unat (last (a_cap (cursor_of c))) * unat elem) (o_cells b')). x = Some 0))))
     else items' = items \<and> cursor_of c' = cursor_of c \<and> r_store_oom c')"
proof -
  let ?idx = "last (a_idx (cursor_of c))" and ?cap = "last (a_cap (cursor_of c))"
  have s: "stk_ok 8 (r_lidx c) (r_loop_depth c)" "stk_ok 8 (r_lcap c) (r_loop_depth c)"
    using ok by (simp_all add: rctx_ok_def stacks_ok_def)
  have g: "vec_get (r_lidx c) (r_loop_depth c - 1) = Got ?idx" "vec_get (r_lcap c) (r_loop_depth c - 1) = Got ?cap"
    using stk_last [OF s(1) d] stk_last [OF s(2) d] by simp_all
  have ne: "a_cap (cursor_of c) \<noteq> []" using stk_empty_iff [OF s(2)] d by simp
  have need: "unat (?idx + 1) = unat ?idx + 1" using idx by (simp add: unat_add_no_wrap)
  have same: "set_last ?cap (a_cap (cursor_of c)) = a_cap (cursor_of c)"
    using ne by (simp add: set_last_def last_conv_nth del: cursor_of_simps)
  have samec: "(cursor_of c)\<lparr>a_cap := set_last ?cap (a_cap (cursor_of c))\<rparr> = cursor_of c"
    unfolding same by (simp add: cursor_of_def)
  show ?thesis
  proof (cases "?idx + 1 \<le> ?cap")
    case True
    then have "array_grow items elem c = (Got (True, items), c)" using g d by (simp add: array_grow_def Let_def)
    moreover have "unat ?idx < unat ?cap" using True need by (simp add: word_le_nat_alt)
    ultimately show ?thesis using ok st samec by (intro exI [of _ True] exI [of _ items] exI [of _ c]) (auto intro!: exI [of _ ?cap])
  next
    case False
    then have lt: "unat ?cap \<le> unat ?idx" using need by (simp add: word_le_nat_alt)
    define n0 where "n0 = (if ?cap \<noteq> 0 then ?cap * 2 else 4)"
    define n where "n = (if n0 < ?idx + 1 then ?idx + 1 else n0)"
    have n0: "unat ?cap \<le> unat n0"
      using lt idx unat_mult_no_wrap [of ?cap 2] by (auto simp: n0_def)
    have n: "unat ?cap \<le> unat n" "unat ?idx < unat n"
      using n0 lt need by (auto simp: n_def word_less_nat_alt)
    note go = array_grow_def [of items elem c, unfolded Let_def g rr.case prod.case, folded n0_def, folded n_def]
    show ?thesis
    proof (cases "elem \<noteq> 0 \<and> SIZE_MAX div elem < n")
      case True
      then have "array_grow items elem c = (Got (False, items), c\<lparr>r_store_oom := True\<rparr>)"
        using go d False by simp
      then show ?thesis using ok by (intro exI [of _ False] exI [of _ items] exI) auto
    next
      case fit: False
      note nb = array_bytes_fit [OF fit]
      obtain q h where r: "owned_resize (r_alloc c) items (n * elem) (r_heap c) = (q, h)" by fastforce
      have oko: "\<And>b. items = Some b \<Longrightarrow> owned_ok b" using st by (auto simp: store_ok_def)
      note sp = owned_resize_spec(1) [OF oko r]
      have d1: "\<not> r_loop_depth c - 1 < 0" using d by simp
      note go2 = go [unfolded if_not_P [OF d1] if_not_P [OF False] if_not_P [OF fit] r prod.case]
      show ?thesis
      proof (cases q)
        case None
        then have "array_grow items elem c = (Got (False, items), c\<lparr>r_store_oom := True, r_heap := h\<rparr>)"
          using go2 by simp
        then show ?thesis using ok by (intro exI [of _ False] exI [of _ items] exI) auto
      next
        case (Some b)
        have b: "owned_ok b" "o_bytes b = n * elem" using sp [of b] Some by auto
        define X Y where "X = unat ?cap * unat elem" and "Y = unat n * unat elem"
        have cb: "X \<le> Y" using n(1) unfolding X_def Y_def by (rule mult_le_mono1)
        have nY: "unat (n * elem) = Y" using nb by (simp add: Y_def)
        have Y64: "Y < 2 ^ 64" using unat_lt64 [of "n * elem"] nY by simp
        have lb: "length (o_cells b) = Y" using b nY by (simp add: owned_ok_def)
        have ce: "unat (?cap * elem) = X"
          unfolding X_def by (rule unat_mult_no_wrap) (use cb Y64 in \<open>simp add: X_def [symmetric] del: cursor_of_simps\<close>)
        have de: "unat ((n - ?cap) * elem) = Y - X"
        proof -
          have "unat (n - ?cap) = unat n - unat ?cap" using n by (intro unat_sub_le) (simp add: word_le_nat_alt)
          then have m: "unat (n - ?cap) * unat elem = Y - X"
            by (simp add: diff_mult_distrib X_def Y_def)
          then show ?thesis using Y64 by (subst unat_mult_no_wrap) simp_all
        qed
        let ?cs = "take (X) (o_cells b) @ replicate (Y - X) (Some 0)"
        have put: "put_cells (unat (?cap * elem)) (replicate (unat ((n - ?cap) * elem)) 0) (o_cells b) = Some ?cs"
          unfolding ce de using cb lb by (intro blit_zeros) simp
        obtain v where v: "vec_put (r_lcap c) (r_loop_depth c - 1) n = Some v" "rctx_ok (c\<lparr>r_lcap := v\<rparr>)"
          "cursor_of (c\<lparr>r_lcap := v\<rparr>) = (cursor_of c)\<lparr>a_cap := set_last n (a_cap (cursor_of c))\<rparr>"
          using put_cap_does [OF ok d, of n] by blast
        let ?c' = "c\<lparr>r_lcap := v, r_heap := h\<rparr>"
        have c': "rctx_ok ?c'" "cursor_of ?c' = (cursor_of c)\<lparr>a_cap := set_last n (a_cap (cursor_of c))\<rparr>"
          using v(2,3) rctx_heap(1) [where c = "c\<lparr>r_lcap := v\<rparr>" and h = h] by (simp_all add: cursor_of_def)
        have out: "array_grow items elem c = (Got (True, Some (b\<lparr>o_cells := ?cs\<rparr>)), ?c')"
          using go2 Some put v(1) by simp
        have okb: "store_ok elem n (Some (b\<lparr>o_cells := ?cs\<rparr>))"
          using b nY lb cb by (simp add: store_ok_def owned_ok_def Y_def)
        have old: "take (X) ?cs = (case items of None \<Rightarrow> [] | Some b0 \<Rightarrow> o_cells b0)"
        proof (cases items)
          case None
          then show ?thesis using st by (simp add: store_ok_def X_def)
        next
          case (Some b0)
          have l0: "length (o_cells b0) = X"
            using st Some by (simp add: store_ok_def owned_ok_def X_def)
          have "o_cells b ! i = o_cells b0 ! i" if "i < X" for i
            using sp [of b] \<open>q = Some b\<close> Some that l0 cb nY by simp
          then have "take (X) (o_cells b) = o_cells b0"
            using l0 cb lb by (intro nth_equalityI) simp_all
          then show ?thesis using Some l0 cb lb by simp
        qed
        have zero: "\<forall>x \<in> set (drop (X) ?cs). x = Some 0"
          using cb lb by simp
        have le: "?cap \<le> n" using n by (simp add: word_le_nat_alt)
        show ?thesis
          by (intro exI [of _ True] exI [of _ "Some (b\<lparr>o_cells := ?cs\<rparr>)"] exI [of _ ?c'] conjI out c'(1))
            (use c'(2) n(2) le okb old zero in \<open>auto simp: X_def intro!: exI [of _ n] simp del: cursor_of_simps\<close>)
      qed
    qed
  qed
qed

section \<open>Properties\<close>

text \<open>The owning bytes read. Unless the distance overflows, \<open>bbq_read_bytes\<close> returns a block
  holding exactly the next \<open>n\<close> bytes of the window and moves past them, charging the allocator for
  the block with its header; or it fails, in place, because the window is too short or memory was
  refused, and then nothing stays charged. It never reads outside the input.\<close>

lemma owned_bytes_copy:
  assumes "rctx_ok c" and "unat (r_pos c) + unat n < 2 ^ 64"
  shows "case read_bytes n c of
      (Got (b, m), c') \<Rightarrow> m = n \<and> unat (r_pos c) + unat n \<le> unat (snd (window (r_len c) (cursor_of c))) \<and>
         take (unat n) (o_cells b) = map Some (take (unat n) (rest c)) \<and> owned_ok b \<and> o_alloc b = r_alloc c \<and>
         unat (r_pos c') = unat (r_pos c) + unat n \<and> rctx_ok c' \<and>
         (\<forall>s. accounts (r_heap c (r_alloc c)) s \<longrightarrow> accounts (r_heap c' (r_alloc c)) (s + owned_cost (Some b)))
    | (Rej, c') \<Rightarrow> rctx_ok c' \<and> r_error c' \<noteq> None \<and> r_pos c' = r_pos c \<and>
         (\<forall>s. accounts (r_heap c (r_alloc c)) s \<longrightarrow> accounts (r_heap c' (r_alloc c)) s) \<and>
         (unat (snd (window (r_len c) (cursor_of c))) < unat (r_pos c) + unat n \<or> r_store_oom c')
    | (UB, c') \<Rightarrow> False"
  by (rule read_bytes_out [OF assms])

lemma owned_bytes_copy_witness:
  "case read_bytes 2 (start [7, 8, 9] 0 (\<lambda>_. Libc (\<lambda>_. True) 0 0) True) of
      (Got (b, m), c') \<Rightarrow> m = 2 \<and> unat (r_pos (start [7, 8, 9] 0 (\<lambda>_. Libc (\<lambda>_. True) 0 0) True)) + unat (2 :: size_t)
           \<le> unat (snd (window (r_len (start [7, 8, 9] 0 (\<lambda>_. Libc (\<lambda>_. True) 0 0) True)) (cursor_of (start [7, 8, 9] 0 (\<lambda>_. Libc (\<lambda>_. True) 0 0) True)))) \<and>
         take (unat (2 :: size_t)) (o_cells b) = map Some (take (unat (2 :: size_t)) (rest (start [7, 8, 9] 0 (\<lambda>_. Libc (\<lambda>_. True) 0 0) True))) \<and>
         owned_ok b \<and> o_alloc b = r_alloc (start [7, 8, 9] 0 (\<lambda>_. Libc (\<lambda>_. True) 0 0) True) \<and>
         unat (r_pos c') = unat (r_pos (start [7, 8, 9] 0 (\<lambda>_. Libc (\<lambda>_. True) 0 0) True)) + unat (2 :: size_t) \<and> rctx_ok c' \<and>
         (\<forall>s. accounts (r_heap (start [7, 8, 9] 0 (\<lambda>_. Libc (\<lambda>_. True) 0 0) True) (r_alloc (start [7, 8, 9] 0 (\<lambda>_. Libc (\<lambda>_. True) 0 0) True))) s \<longrightarrow>
            accounts (r_heap c' (r_alloc (start [7, 8, 9] 0 (\<lambda>_. Libc (\<lambda>_. True) 0 0) True))) (s + owned_cost (Some b)))
    | (Rej, c') \<Rightarrow> rctx_ok c' \<and> r_error c' \<noteq> None \<and> r_pos c' = r_pos (start [7, 8, 9] 0 (\<lambda>_. Libc (\<lambda>_. True) 0 0) True) \<and>
         (\<forall>s. accounts (r_heap (start [7, 8, 9] 0 (\<lambda>_. Libc (\<lambda>_. True) 0 0) True) (r_alloc (start [7, 8, 9] 0 (\<lambda>_. Libc (\<lambda>_. True) 0 0) True))) s \<longrightarrow>
            accounts (r_heap c' (r_alloc (start [7, 8, 9] 0 (\<lambda>_. Libc (\<lambda>_. True) 0 0) True))) s) \<and>
         (unat (snd (window (r_len (start [7, 8, 9] 0 (\<lambda>_. Libc (\<lambda>_. True) 0 0) True)) (cursor_of (start [7, 8, 9] 0 (\<lambda>_. Libc (\<lambda>_. True) 0 0) True))))
            < unat (r_pos (start [7, 8, 9] 0 (\<lambda>_. Libc (\<lambda>_. True) 0 0) True)) + unat (2 :: size_t) \<or> r_store_oom c')
    | (UB, c') \<Rightarrow> False"
  by (rule owned_bytes_copy)
    (use init_ok [of "[7, 8, 9]" 0 "\<lambda>_. Libc (\<lambda>_. True) 0 0" True] in \<open>simp_all add: start_def ctx_init_a_def\<close>)

text \<open>C37: growing an array store. Before element \<open>i\<close> is parsed the store has room for it, every
  element already there is kept byte for byte, the new slots are zero, and the recorded capacity is
  the real one; or growth was refused, the store is untouched, and the context says it was memory.\<close>

theorem array_grow_keeps:
  assumes "rctx_ok c" and "0 < r_loop_depth c" and "unat (last (a_idx (cursor_of c))) < 2 ^ 63"
    and "store_ok elem (last (a_cap (cursor_of c))) items"
  shows "\<exists>done items' c'. array_grow items elem c = (Got (done, items'), c') \<and> rctx_ok c' \<and>
    (if done then (\<exists>cap'. cursor_of c' = (cursor_of c)\<lparr>a_cap := set_last cap' (a_cap (cursor_of c))\<rparr> \<and>
        unat (last (a_idx (cursor_of c))) < unat cap' \<and> last (a_cap (cursor_of c)) \<le> cap' \<and> store_ok elem cap' items' \<and>
        (items' = items \<or> (\<exists>b'. items' = Some b' \<and>
          take (unat (last (a_cap (cursor_of c))) * unat elem) (o_cells b') =
            (case items of None \<Rightarrow> [] | Some b \<Rightarrow> o_cells b) \<and>
          (\<forall>x \<in> set (drop (unat (last (a_cap (cursor_of c))) * unat elem) (o_cells b')). x = Some 0))))
     else items' = items \<and> cursor_of c' = cursor_of c \<and> r_store_oom c')"
  by (rule array_grow_out [OF assms])

text \<open>A context inside its first loop, with nothing stored yet.\<close>

definition one_loop :: rctx where
  "one_loop = (start [1, 2] 0 (\<lambda>_. Libc (\<lambda>_. True) 0 0) True)
     \<lparr>r_lidx := VBlock 0 8 0 (replicate 8 (Some 0)), r_llim := VBlock 0 8 0 (replicate 8 (Some 2)),
      r_lcap := VBlock 0 8 0 (replicate 8 (Some 0)), r_loop_depth := 1\<rparr>"

lemma one_loop_ok: "rctx_ok one_loop" "0 < r_loop_depth one_loop"
proof -
  have "block_bytes 8 8 \<noteq> 0" by (rule block_bytes_small) simp_all
  then show "rctx_ok one_loop"
    by (simp add: one_loop_def start_def ctx_init_a_def rctx_ok_def stacks_ok_def stk_ok_def cursor_of_def
        stk_def VEC_MAX_CAP_def cap_word_def)
  show "0 < r_loop_depth one_loop" by (simp add: one_loop_def)
qed

theorem array_grow_keeps_witness:
  "\<exists>done items' c'. array_grow None 16 one_loop = (Got (done, items'), c') \<and> rctx_ok c' \<and>
    (if done then (\<exists>cap'. cursor_of c' = (cursor_of one_loop)\<lparr>a_cap := set_last cap' (a_cap (cursor_of one_loop))\<rparr> \<and>
        unat (last (a_idx (cursor_of one_loop))) < unat cap' \<and> last (a_cap (cursor_of one_loop)) \<le> cap' \<and> store_ok 16 cap' items' \<and>
        (items' = None \<or> (\<exists>b'. items' = Some b' \<and>
          take (unat (last (a_cap (cursor_of one_loop))) * unat (16 :: size_t)) (o_cells b') =
            (case (None :: owned option) of None \<Rightarrow> [] | Some b \<Rightarrow> o_cells b) \<and>
          (\<forall>x \<in> set (drop (unat (last (a_cap (cursor_of one_loop))) * unat (16 :: size_t)) (o_cells b')). x = Some 0))))
     else items' = None \<and> cursor_of c' = cursor_of one_loop \<and> r_store_oom c')"
  by (rule array_grow_keeps [OF one_loop_ok])
    (simp_all add: one_loop_def start_def ctx_init_a_def stk_def store_ok_def)

end
