(* ===== verification/WriteCtx.thy ===== *)
theory WriteCtx
  imports Owned
begin

text \<open>
  The write context of \<open>backends/c/runtime/bbq_runtime.h\<close>: the output buffer, fixed or growable,
  the primitive writers, the dual machine state (loops, scopes, windows) and the holes that derived
  sizes and counts are patched into. The buffer is the list of its \<open>capacity\<close> bytes, \<open>None\<close> for
  one never written; \<open>w_data = None\<close> is the NULL pointer. \<open>w_alloc\<close> is the allocator of the buffer
  and \<open>w_stack_alloc\<close> the one \<open>BBQ__CTX_ALLOC(ctx)\<close> names; \<open>w_heap\<close> and \<open>w_host_le\<close> are as in
  the read context.
\<close>

record wctx =
  w_data :: "u8 option list option"
  w_capacity :: size_t
  w_pos :: size_t
  w_le :: bool
  w_owns :: bool
  w_alloc :: nat
  w_stack_alloc :: nat
  w_endian_seeded :: bool
  w_lidx :: "i64 vec"
  w_llim :: "i64 vec"
  w_loop_depth :: int
  w_bases :: "int vec"
  w_base_depth :: int
  w_starts :: "size_t vec"
  w_ends :: "size_t vec"
  w_idepth :: int
  w_scopes :: "nat vec"
  w_scope_depth :: int
  w_rests :: "size_t vec"
  w_rest_depth :: int
  w_counts :: "size_t vec"
  w_heap :: heap
  w_host_le :: bool

type_synonym 'a wr = "wctx \<Rightarrow> 'a rr \<times> wctx"

definition write_ctx_reset_state :: "wctx \<Rightarrow> wctx" where
  "write_ctx_reset_state c = c\<lparr>w_endian_seeded := False, w_loop_depth := 0, w_base_depth := 0,
     w_idepth := 0, w_scope_depth := 0, w_rest_depth := 0, w_lidx := VNull, w_llim := VNull,
     w_bases := VNull, w_starts := VNull, w_ends := VNull, w_scopes := VNull, w_rests := VNull,
     w_counts := VNull\<rparr>"

text \<open>\<open>bbq_write_ctx_init\<close>: a fixed buffer of the caller.\<close>

definition write_ctx_init :: "u8 option list \<Rightarrow> size_t \<Rightarrow> wctx \<Rightarrow> wctx" where
  "write_ctx_init buf cap c = write_ctx_reset_state
     (c\<lparr>w_data := Some buf, w_capacity := cap, w_pos := 0, w_le := False, w_owns := False\<rparr>)"

definition write_ctx_init_growable_a :: "size_t \<Rightarrow> nat \<Rightarrow> wctx \<Rightarrow> bool \<times> wctx" where
  "write_ctx_init_growable_a initial a c =
     (let n = (if initial < 64 then 64 else initial);
          c1 = write_ctx_reset_state (c\<lparr>w_pos := 0, w_le := False, w_owns := True, w_alloc := a, w_capacity := 0\<rparr>)
      in case h_alloc a n (w_heap c1) of
           (False, h) \<Rightarrow> (False, c1\<lparr>w_data := None, w_heap := h\<rparr>)
         | (True, h) \<Rightarrow> (True, c1\<lparr>w_data := Some (replicate (unat n) None), w_capacity := n, w_heap := h\<rparr>))"

definition write_ctx_free :: "wctx \<Rightarrow> wctx" where
  "write_ctx_free c =
     (let h0 = (if w_owns c then h_release (w_alloc c) (w_data c \<noteq> None) (w_capacity c) (w_heap c) else w_heap c);
          h1 = vec_release (w_lidx c) 8 h0;
          h2 = vec_release (w_llim c) 8 h1;
          h3 = vec_release (w_bases c) 4 h2;
          h4 = vec_release (w_starts c) 8 h3;
          h5 = vec_release (w_ends c) 8 h4;
          h6 = vec_release (w_scopes c) 8 h5;
          h7 = vec_release (w_rests c) 8 h6;
          h8 = vec_release (w_counts c) 8 h7
      in c\<lparr>w_data := None, w_capacity := 0, w_owns := False, w_lidx := VNull, w_llim := VNull,
           w_bases := VNull, w_starts := VNull, w_ends := VNull, w_scopes := VNull, w_rests := VNull,
           w_counts := VNull, w_heap := h8\<rparr>)"

section \<open>Room\<close>

text \<open>The doubling loop; \<open>None\<close> is a loop that spins for ever.\<close>

definition grow_cap :: "size_t \<Rightarrow> size_t \<Rightarrow> size_t option" where
  "grow_cap newcap want = double_to newcap want"

definition write_reserve :: "size_t \<Rightarrow> bool wr" where
  "write_reserve need c =
     (if w_pos c \<le> w_capacity c \<and> need \<le> w_capacity c - w_pos c then (Got True, c)
      else if \<not> w_owns c then (Got False, c)
      else if SIZE_MAX - w_pos c < need then (Got False, c)
      else case grow_cap (if w_capacity c \<noteq> 0 then w_capacity c else 64) (w_pos c + need) of
          None \<Rightarrow> (UB, c)
        | Some newcap \<Rightarrow>
            (case h_resize (w_alloc c) (w_data c \<noteq> None) (w_capacity c) newcap (w_heap c) of
               (False, h) \<Rightarrow> (Got False, c\<lparr>w_heap := h\<rparr>)
             | (True, h) \<Rightarrow> (Got True, c\<lparr>w_heap := h, w_capacity := newcap,
                 w_data := Some (recell (unat newcap) (case w_data c of None \<Rightarrow> [] | Some d \<Rightarrow> d))\<rparr>)))"

text \<open>A store of bytes at the position, which then moves past them; outside the buffer it is \<open>UB\<close>.\<close>

definition store_at_pos :: "u8 option list \<Rightarrow> unit wr" where
  "store_at_pos bs c =
     (case w_data c of
        Some d \<Rightarrow> if unat (w_pos c) + length bs \<le> length d
            then (Got (), c\<lparr>w_data := Some (blit (unat (w_pos c)) bs d), w_pos := w_pos c + word_of_nat (length bs)\<rparr>)
            else (UB, c)
      | None \<Rightarrow> (UB, c))"

text \<open>Reserve, then store: the shape of every fixed-size writer. \<open>Rej\<close> is \<open>return false\<close>.\<close>

definition put_bytes :: "u8 option list \<Rightarrow> unit wr" where
  "put_bytes bs c = (case write_reserve (word_of_nat (length bs)) c of
      (Got True, c1) \<Rightarrow> store_at_pos bs c1
    | (Got False, c1) \<Rightarrow> (Rej, c1)
    | (_, c1) \<Rightarrow> (UB, c1))"

section \<open>Fixed-width writers\<close>

text \<open>The bytes of an integer in memory, least first, and on the machine at hand.\<close>

definition to_le :: "nat \<Rightarrow> 'a::len word \<Rightarrow> bytes" where
  "to_le n v = map (\<lambda>i. ucast (drop_bit (8 * i) v)) [0..<n]"

definition mem_bytes :: "bool \<Rightarrow> nat \<Rightarrow> 'a::len word \<Rightarrow> bytes" where
  "mem_bytes host_le n v = (if host_le then to_le n v else rev (to_le n v))"

definition write_u8 :: "u8 \<Rightarrow> unit wr" where
  "write_u8 v = put_bytes [Some v]"

definition write_i8 :: "u8 \<Rightarrow> unit wr" where
  "write_i8 v = write_u8 (scast v)"

definition write_u16be :: "u16 \<Rightarrow> unit wr" where
  "write_u16be val c = (let v = (if w_host_le c then bswap16 val else val) in put_bytes (map Some (mem_bytes (w_host_le c) 2 v)) c)"

definition write_i16be :: "u16 \<Rightarrow> unit wr" where
  "write_i16be val = write_u16be (scast val)"

definition write_u16le :: "u16 \<Rightarrow> unit wr" where
  "write_u16le val c = (let v = (if w_host_le c then val else bswap16 val) in put_bytes (map Some (mem_bytes (w_host_le c) 2 v)) c)"

definition write_i16le :: "u16 \<Rightarrow> unit wr" where
  "write_i16le val = write_u16le (scast val)"

definition write_u32be :: "u32 \<Rightarrow> unit wr" where
  "write_u32be val c = (let v = (if w_host_le c then bswap32 val else val) in put_bytes (map Some (mem_bytes (w_host_le c) 4 v)) c)"

definition write_i32be :: "u32 \<Rightarrow> unit wr" where
  "write_i32be val = write_u32be (scast val)"

definition write_u32le :: "u32 \<Rightarrow> unit wr" where
  "write_u32le val c = (let v = (if w_host_le c then val else bswap32 val) in put_bytes (map Some (mem_bytes (w_host_le c) 4 v)) c)"

definition write_i32le :: "u32 \<Rightarrow> unit wr" where
  "write_i32le val = write_u32le (scast val)"

definition write_u64be :: "u64 \<Rightarrow> unit wr" where
  "write_u64be val c = (let v = (if w_host_le c then bswap64 val else val) in put_bytes (map Some (mem_bytes (w_host_le c) 8 v)) c)"

definition write_i64be :: "u64 \<Rightarrow> unit wr" where
  "write_i64be val = write_u64be (scast val)"

definition write_u64le :: "u64 \<Rightarrow> unit wr" where
  "write_u64le val c = (let v = (if w_host_le c then val else bswap64 val) in put_bytes (map Some (mem_bytes (w_host_le c) 8 v)) c)"

definition write_i64le :: "u64 \<Rightarrow> unit wr" where
  "write_i64le val = write_u64le (scast val)"

section \<open>LEB128 writers\<close>

lemma drop7_less: "drop_bit 7 (v :: u64) \<noteq> 0 \<Longrightarrow> unat (drop_bit 7 v) < unat v"
proof -
  assume "drop_bit 7 v \<noteq> 0"
  moreover have d: "unat (drop_bit 7 v) = unat v div 128" by (simp add: drop_bit_eq_div unat_div)
  ultimately have "0 < unat v div 128" by (metis neq0_conv unat_0 word_unat_eq_iff)
  then show ?thesis using d by simp
qed

function write_uleb128_u64 :: "u64 \<Rightarrow> unit wr" where
  "write_uleb128_u64 val c =
     (let byte = ucast (val AND 0x7f); val1 = drop_bit 7 val
      in case write_u8 (if val1 \<noteq> 0 then byte OR 0x80 else byte) c of
           (Got _, c1) \<Rightarrow> if val1 \<noteq> 0 then write_uleb128_u64 val1 c1 else (Got (), c1)
         | (Rej, c1) \<Rightarrow> (Rej, c1)
         | (UB, c1) \<Rightarrow> (UB, c1))"
  by pat_completeness auto

termination
  by (relation "measure (\<lambda>(v, c). unat v)") (auto simp: drop7_less)

declare write_uleb128_u64.simps [simp del]

definition write_uleb128_u32 :: "u32 \<Rightarrow> unit wr" where
  "write_uleb128_u32 v = write_uleb128_u64 (ucast v)"

text \<open>\<open>bbq_uleb128_encode\<close>: the bytes it leaves in \<open>buf\<close>.\<close>

function uleb128_encode :: "u64 \<Rightarrow> bytes" where
  "uleb128_encode val =
     (let byte = ucast (val AND 0x7f); val1 = drop_bit 7 val
      in if val1 \<noteq> 0 then (byte OR 0x80) # uleb128_encode val1 else [byte])"
  by pat_completeness auto
termination
  by (relation "measure unat") (auto simp: drop7_less)

declare uleb128_encode.simps [simp del]

text \<open>The size of a signed number, which the arithmetic shift shrinks.\<close>

definition magnitude :: "i64 \<Rightarrow> nat" where
  "magnitude v = nat (if 0 \<le> sint v then sint v else - sint v - 1)"

definition sar7 :: "i64 \<Rightarrow> i64" where
  "sar7 v = signed_drop_bit 7 v"

lemma sar7_fixed [simp]: "sar7 0 = 0" "sar7 (- 1) = - 1"
  by (simp_all add: sar7_def)

lemma sint_sar7: "sint (sar7 v) = sint v div 128"
  by (simp add: sar7_def sint_signed_drop_bit_eq drop_bit_eq_div)

lemma sar7_less:
  assumes "\<not> (sar7 v = 0 \<and> \<not> s \<or> sar7 v = - 1 \<and> s)" and "v = 0 \<longrightarrow> \<not> s" and "v = - 1 \<longrightarrow> s"
  shows "magnitude (sar7 v) < magnitude v"
proof -
  have ne: "v \<noteq> 0" "v \<noteq> - 1"
    using assms by (auto simp: sar7_def)
  then have "sint v \<noteq> 0" "sint v \<noteq> - 1"
    by (metis sint_0 signed_word_eqI) (metis ne(2) sint_n1 signed_word_eqI)
  then show ?thesis unfolding magnitude_def sint_sar7 by (auto simp: zdiv_eq_0_iff)
qed

function write_sleb128_i64 :: "i64 \<Rightarrow> unit wr" where
  "write_sleb128_i64 val c =
     (let byte = (ucast (val AND 0x7f) :: u8); val1 = sar7 val; sign = (byte AND 0x40 \<noteq> 0)
      in if val1 = 0 \<and> \<not> sign \<or> val1 = - 1 \<and> sign then write_u8 byte c
         else case write_u8 (byte OR 0x80) c of
           (Got _, c1) \<Rightarrow> write_sleb128_i64 val1 c1
         | (Rej, c1) \<Rightarrow> (Rej, c1)
         | (UB, c1) \<Rightarrow> (UB, c1))"
  by pat_completeness auto
termination
  by (relation "measure (\<lambda>(v, c). magnitude v)") (auto intro!: sar7_less)

declare write_sleb128_i64.simps [simp del]

definition write_sleb128_i32 :: "u32 \<Rightarrow> unit wr" where
  "write_sleb128_i32 v = write_sleb128_i64 (scast v)"

section \<open>Floats, native order, bool, bytes\<close>

definition write_f32be :: "u32 \<Rightarrow> unit wr" where
  "write_f32be v = write_u32be v"

definition write_f32le :: "u32 \<Rightarrow> unit wr" where
  "write_f32le v = write_u32le v"

definition write_f64be :: "u64 \<Rightarrow> unit wr" where
  "write_f64be v = write_u64be v"

definition write_f64le :: "u64 \<Rightarrow> unit wr" where
  "write_f64le v = write_u64le v"

definition write_u16 :: "u16 \<Rightarrow> unit wr" where
  "write_u16 v c = (if w_le c then write_u16le v c else write_u16be v c)"

definition write_i16 :: "u16 \<Rightarrow> unit wr" where
  "write_i16 v c = (if w_le c then write_i16le v c else write_i16be v c)"

definition write_u32 :: "u32 \<Rightarrow> unit wr" where
  "write_u32 v c = (if w_le c then write_u32le v c else write_u32be v c)"

definition write_i32 :: "u32 \<Rightarrow> unit wr" where
  "write_i32 v c = (if w_le c then write_i32le v c else write_i32be v c)"

definition write_u64 :: "u64 \<Rightarrow> unit wr" where
  "write_u64 v c = (if w_le c then write_u64le v c else write_u64be v c)"

definition write_i64 :: "u64 \<Rightarrow> unit wr" where
  "write_i64 v c = (if w_le c then write_i64le v c else write_i64be v c)"

definition write_f32 :: "u32 \<Rightarrow> unit wr" where
  "write_f32 v c = (if w_le c then write_f32le v c else write_f32be v c)"

definition write_f64 :: "u64 \<Rightarrow> unit wr" where
  "write_f64 v c = (if w_le c then write_f64le v c else write_f64be v c)"

definition write_bool :: "bool \<Rightarrow> unit wr" where
  "write_bool v = write_u8 (if v then 1 else 0)"

text \<open>\<open>bbq_write_bytes\<close> and \<open>bbq_write_string\<close>; an empty field may carry a NULL pointer, also as
  the buffer.\<close>

definition write_bytes :: "bytes \<Rightarrow> unit wr" where
  "write_bytes data c = (case write_reserve (word_of_nat (length data)) c of
      (Got True, c1) \<Rightarrow> if data \<noteq> [] then store_at_pos (map Some data) c1 else (Got (), c1)
    | (Got False, c1) \<Rightarrow> (Rej, c1)
    | (_, c1) \<Rightarrow> (UB, c1))"

definition write_string :: "bytes \<Rightarrow> unit wr" where
  "write_string data = write_bytes data"

end
