(* ===== verification/WriteState.thy ===== *)
theory WriteState
  imports WriteCtx
begin

text \<open>
  The dual machine state of the writer in \<open>backends/c/runtime/bbq_runtime.h\<close>: loops, scopes and
  windows driven by the stored structure, seeking the output, and the holes that computed sizes
  (\<open>@rest\<close>) and counts are patched into. \<open>Rej\<close> is \<open>return false\<close>.
\<close>

section \<open>Loops and scopes\<close>

definition w_push_loop_base :: "int \<Rightarrow> unit wr" where
  "w_push_loop_base b c =
     (case stack_ensure (w_bases c) (w_base_depth c) 4 (w_stack_alloc c) (w_heap c) of (ok, v, h) \<Rightarrow>
        let c1 = c\<lparr>w_bases := v, w_heap := h\<rparr>
        in if \<not> ok then (Rej, c1)
           else (case vec_put v (w_base_depth c) b of
               None \<Rightarrow> (UB, c1)
             | Some v' \<Rightarrow> (Got (), c1\<lparr>w_bases := v', w_base_depth := w_base_depth c + 1\<rparr>)))"

definition w_pop_loop_base :: "wctx \<Rightarrow> wctx" where
  "w_pop_loop_base c = (if 0 < w_base_depth c then c\<lparr>w_base_depth := w_base_depth c - 1\<rparr> else c)"

definition w_cur_loop_base :: "wctx \<Rightarrow> int rr" where
  "w_cur_loop_base c = (if 0 < w_base_depth c then vec_get (w_bases c) (w_base_depth c - 1) else Got 0)"

definition w_push_loop_n :: "i64 \<Rightarrow> unit wr" where
  "w_push_loop_n limit c =
     (case stack_ensure (w_lidx c) (w_loop_depth c) 8 (w_stack_alloc c) (w_heap c) of (ok1, v1, h1) \<Rightarrow>
        let c1 = c\<lparr>w_lidx := v1, w_heap := h1\<rparr> in
        if \<not> ok1 then (Rej, c1)
        else case stack_ensure (w_llim c1) (w_loop_depth c) 8 (w_stack_alloc c) h1 of (ok2, v2, h2) \<Rightarrow>
          let c2 = c1\<lparr>w_llim := v2, w_heap := h2\<rparr> in
          if \<not> ok2 then (Rej, c2)
          else (case (vec_put (w_lidx c2) (w_loop_depth c2) 0, vec_put (w_llim c2) (w_loop_depth c2) limit) of
            (Some i, Some l) \<Rightarrow> (Got (), c2\<lparr>w_lidx := i, w_llim := l, w_loop_depth := w_loop_depth c2 + 1\<rparr>)
          | _ \<Rightarrow> (UB, c2)))"

definition w_pop_loop :: "wctx \<Rightarrow> wctx" where
  "w_pop_loop c = (if 0 < w_loop_depth c then c\<lparr>w_loop_depth := w_loop_depth c - 1\<rparr> else c)"

definition w_loop_next :: "bool wr" where
  "w_loop_next c =
     (if w_loop_depth c \<le> 0 then (Got False, c)
      else case vec_get (w_lidx c) (w_loop_depth c - 1) of
          Got i \<Rightarrow> if i = INT64_MAX then (UB, c)
            else (case vec_put (w_lidx c) (w_loop_depth c - 1) (i + 1) of
              Some v \<Rightarrow> (case vec_get (w_llim c) (w_loop_depth c - 1) of
                  Got l \<Rightarrow> (Got (i + 1 <s l), c\<lparr>w_lidx := v\<rparr>) | _ \<Rightarrow> (UB, c))
            | None \<Rightarrow> (UB, c))
        | _ \<Rightarrow> (UB, c))"

definition w_loop_index :: "wctx \<Rightarrow> i64 rr" where
  "w_loop_index c = (if 0 < w_loop_depth c then vec_get (w_lidx c) (w_loop_depth c - 1) else Got 0)"

definition w_loop_index_at :: "int \<Rightarrow> wctx \<Rightarrow> i64 rr" where
  "w_loop_index_at d c = (if 0 \<le> d \<and> d < w_loop_depth c then vec_get (w_lidx c) d else Got 0)"

definition w_push_scope :: "nat \<Rightarrow> unit wr" where
  "w_push_scope p c =
     (case stack_ensure (w_scopes c) (w_scope_depth c) 8 (w_stack_alloc c) (w_heap c) of (ok, v, h) \<Rightarrow>
        let c1 = c\<lparr>w_scopes := v, w_heap := h\<rparr>
        in if \<not> ok then (Rej, c1)
           else (case vec_put v (w_scope_depth c) p of
               None \<Rightarrow> (UB, c1)
             | Some v' \<Rightarrow> (Got (), c1\<lparr>w_scopes := v', w_scope_depth := w_scope_depth c + 1\<rparr>)))"

definition w_pop_scope :: "wctx \<Rightarrow> wctx" where
  "w_pop_scope c = (if 0 < w_scope_depth c then c\<lparr>w_scope_depth := w_scope_depth c - 1\<rparr> else c)"

definition w_scope_ptr :: "int \<Rightarrow> wctx \<Rightarrow> nat rr" where
  "w_scope_ptr levels_up c =
     (let idx = w_scope_depth c - 1 - levels_up
      in if 0 \<le> idx then vec_get (w_scopes c) idx else Got 0)"

section \<open>Seeking and windows\<close>

text \<open>\<open>memset(data + i, 0, n)\<close> and the other raw stores; \<open>None\<close> is a store outside the buffer.\<close>

definition poke :: "nat \<Rightarrow> u8 option list \<Rightarrow> wctx \<Rightarrow> wctx option" where
  "poke i bs c = (case w_data c of
      Some d \<Rightarrow> if i + length bs \<le> length d then Some (c\<lparr>w_data := Some (blit i bs d)\<rparr>) else None
    | None \<Rightarrow> None)"

definition w_seek :: "size_t \<Rightarrow> unit wr" where
  "w_seek target c =
     (if w_pos c < target
      then (case write_reserve (target - w_pos c) c of
          (Got True, c1) \<Rightarrow> (case poke (unat (w_pos c1)) (replicate (unat (target - w_pos c1)) (Some 0)) c1 of
              None \<Rightarrow> (UB, c1) | Some c2 \<Rightarrow> (Got (), c2\<lparr>w_pos := target\<rparr>))
        | (Got False, c1) \<Rightarrow> (Rej, c1)
        | (_, c1) \<Rightarrow> (UB, c1))
      else (Got (), c\<lparr>w_pos := target\<rparr>))"

definition w_advance :: "size_t \<Rightarrow> unit wr" where
  "w_advance by c = w_seek (w_pos c + by) c"

definition w_push_interval :: "size_t \<Rightarrow> unit wr" where
  "w_push_interval e c =
     (case stack_ensure (w_starts c) (w_idepth c) 8 (w_stack_alloc c) (w_heap c) of (ok1, v1, h1) \<Rightarrow>
        let c1 = c\<lparr>w_starts := v1, w_heap := h1\<rparr> in
        if \<not> ok1 then (Rej, c1)
        else case stack_ensure (w_ends c1) (w_idepth c) 8 (w_stack_alloc c) h1 of (ok2, v2, h2) \<Rightarrow>
          let c2 = c1\<lparr>w_ends := v2, w_heap := h2\<rparr> in
          if \<not> ok2 then (Rej, c2)
          else (case (vec_put (w_starts c2) (w_idepth c2) (w_pos c2), vec_put (w_ends c2) (w_idepth c2) e) of
            (Some s, Some e') \<Rightarrow> (Got (), c2\<lparr>w_starts := s, w_ends := e', w_idepth := w_idepth c2 + 1\<rparr>)
          | _ \<Rightarrow> (UB, c2)))"

definition w_pop_interval :: "unit wr" where
  "w_pop_interval c =
     (if w_idepth c \<le> 0 then (Rej, c)
      else case vec_get (w_ends c) (w_idepth c - 1) of
          Got e \<Rightarrow> w_seek e (c\<lparr>w_idepth := w_idepth c - 1\<rparr>)
        | _ \<Rightarrow> (UB, c))"

section \<open>Holes\<close>

definition w_push_rest :: "unit wr" where
  "w_push_rest c =
     (case stack_ensure (w_rests c) (w_rest_depth c) 8 (w_stack_alloc c) (w_heap c) of (ok, v, h) \<Rightarrow>
        let c1 = c\<lparr>w_rests := v, w_heap := h\<rparr>
        in if \<not> ok then (Rej, c1)
           else (case vec_put v (w_rest_depth c) (w_pos c) of
               None \<Rightarrow> (UB, c1)
             | Some v' \<Rightarrow> (Got (), c1\<lparr>w_rests := v', w_rest_depth := w_rest_depth c + 1\<rparr>)))"

text \<open>The doubling of \<open>bbq_w__count_holes_ensure\<close>; it starts positive, \<open>None\<close> would be a spin.\<close>

partial_function (option) grow_holes :: "int \<Rightarrow> int \<Rightarrow> int option" where
  "grow_holes nc k =
     (if nc \<le> k \<and> nc < VEC_MAX_CAP then grow_holes (nc * 2) k else Some nc)"

declare grow_holes.simps [code]

definition count_holes_ensure :: "int \<Rightarrow> bool wr" where
  "count_holes_ensure k c =
     (let oldcap = vec_cap (w_counts c)
      in if k < oldcap then (Got True, c)
      else case grow_holes (if oldcap \<noteq> 0 then oldcap else 8) k of
          None \<Rightarrow> (UB, c)
        | Some nc \<Rightarrow>
            if VEC_MAX_CAP < nc \<or> VEC_MAX_CAP \<le> k then (Got False, c)
            else (case vec_reserve (w_counts c) nc 8 (w_stack_alloc c) (w_heap c) of (v, h) \<Rightarrow>
              let c1 = c\<lparr>w_counts := v, w_heap := h\<rparr>
              in if vec_cap v < nc then (Got False, c1)
                 else (case fill_slots oldcap (vec_cap v) 0 v of
                     None \<Rightarrow> (UB, c1)
                   | Some v' \<Rightarrow> (Got True, c1\<lparr>w_counts := v'\<rparr>))))"

definition w_reserve_count :: "int \<Rightarrow> int \<Rightarrow> bool \<Rightarrow> unit wr" where
  "w_reserve_count k width is_uleb c =
     (case (if 0 \<le> k then count_holes_ensure k c else (Got True, c)) of
        (Got True, c1) \<Rightarrow>
          (case (if 0 \<le> k then map_option (\<lambda>v. c1\<lparr>w_counts := v\<rparr>) (vec_put (w_counts c1) k (w_pos c1)) else Some c1) of
             None \<Rightarrow> (UB, c1)
           | Some c2 \<Rightarrow> if is_uleb then (Got (), c2)
               else put_bytes (replicate (nat (width div 8)) (Some 0)) c2)
      | (Got False, c1) \<Rightarrow> (Rej, c1)
      | (_, c1) \<Rightarrow> (UB, c1))"

text \<open>The fixup loops over still-open holes: slots \<open>i, i+1, ...\<close> below \<open>n\<close>, all but \<open>skip\<close>.\<close>

function bump_holes :: "int \<Rightarrow> int \<Rightarrow> int \<Rightarrow> size_t \<Rightarrow> size_t \<Rightarrow> size_t vec \<Rightarrow> size_t vec option" where
  "bump_holes i n skip hole by v =
     (if i < n then
        if i = skip then bump_holes (i + 1) n skip hole by v
        else (case vec_get v i of
            Got x \<Rightarrow> if hole < x
              then (case vec_put v i (x + by) of None \<Rightarrow> None | Some v' \<Rightarrow> bump_holes (i + 1) n skip hole by v')
              else bump_holes (i + 1) n skip hole by v
          | _ \<Rightarrow> None)
      else Some v)"
  by pat_completeness auto
termination
  by (relation "measure (\<lambda>(i, n, skip, hole, by, v). nat (n - i))") auto

declare bump_holes.simps [simp del]

text \<open>Moving the tail up by \<open>n\<close> and inserting \<open>bs\<close> (\<open>memmove\<close>, then \<open>memcpy\<close>).\<close>

definition insert_bytes :: "size_t \<Rightarrow> bytes \<Rightarrow> size_t \<Rightarrow> wctx \<Rightarrow> wctx option" where
  "insert_bytes hole bs tail c =
     (case w_data c of
        Some d \<Rightarrow>
          if unat hole + length bs + unat tail \<le> length d
          then (case poke (unat hole + length bs) (slice (unat hole) (unat tail) d) c of
              None \<Rightarrow> None | Some c1 \<Rightarrow> poke (unat hole) (map Some bs) c1)
          else None
      | None \<Rightarrow> None)"

text \<open>The bytes of a fixed-width prefix, \<open>n\<close> of them in the given order. With more than eight the shift count
  reaches 64, and a negative width is a huge \<open>size_t\<close>: both are undefined (\<open>fits_fixed\<close>).\<close>

definition fits_fixed :: "int \<Rightarrow> bool" where
  "fits_fixed width = (- 8 < width \<and> width < 72)"

definition fixed_bytes :: "nat \<Rightarrow> bool \<Rightarrow> u64 \<Rightarrow> bytes" where
  "fixed_bytes n lit v = map (\<lambda>i. ucast (drop_bit (8 * (if lit then i else n - 1 - i)) v)) [0..<n]"

definition w_patch_count :: "int \<Rightarrow> u64 \<Rightarrow> int \<Rightarrow> bool \<Rightarrow> bool \<Rightarrow> unit wr" where
  "w_patch_count k count width is_uleb lit c =
     (if k < 0 \<or> vec_cap (w_counts c) \<le> k then (Rej, c)
      else case vec_get (w_counts c) k of
        Got hole \<Rightarrow>
          if is_uleb then
            let tmp = uleb128_encode count; n = word_of_nat (length tmp); tail = w_pos c - hole
            in (case write_reserve n c of
                (Got True, c1) \<Rightarrow>
                  (case insert_bytes hole tmp tail c1 of
                     None \<Rightarrow> (UB, c1)
                   | Some c2 \<Rightarrow>
                       let c3 = c2\<lparr>w_pos := w_pos c2 + n\<rparr>
                       in (case (bump_holes 0 (vec_cap (w_counts c3)) k hole n (w_counts c3),
                                 bump_holes 0 (w_rest_depth c3) (- 1) hole n (w_rests c3)) of
                            (Some vc, Some vr) \<Rightarrow> (Got (), c3\<lparr>w_counts := vc, w_rests := vr\<rparr>)
                          | _ \<Rightarrow> (UB, c3)))
              | (Got False, c1) \<Rightarrow> (Rej, c1)
              | (_, c1) \<Rightarrow> (UB, c1))
          else if \<not> fits_fixed width then (UB, c)
          else (case poke (unat hole) (map Some (fixed_bytes (nat (width div 8)) lit count)) c of
              None \<Rightarrow> (UB, c) | Some c1 \<Rightarrow> (Got (), c1))
      | _ \<Rightarrow> (UB, c))"

definition w_patch_rest :: "int \<Rightarrow> bool \<Rightarrow> bool \<Rightarrow> unit wr" where
  "w_patch_rest width is_uleb lit c =
     (if w_rest_depth c \<le> 0 then (Rej, c)
      else let c0 = c\<lparr>w_rest_depth := w_rest_depth c - 1\<rparr>
        in case vec_get (w_rests c0) (w_rest_depth c0) of
          Got hole \<Rightarrow>
            let rest_len = w_pos c0 - hole;
                tmp = (if is_uleb then uleb128_encode rest_len else fixed_bytes (nat (width div 8)) lit rest_len)
            in if \<not> is_uleb \<and> \<not> fits_fixed width \<or> 10 < length tmp then (UB, c0)
               else (case write_reserve (word_of_nat (length tmp)) c0 of
                   (Got True, c1) \<Rightarrow>
                     (case insert_bytes hole tmp rest_len c1 of
                        None \<Rightarrow> (UB, c1)
                      | Some c2 \<Rightarrow> (Got (), c2\<lparr>w_pos := w_pos c2 + word_of_nat (length tmp)\<rparr>))
                 | (Got False, c1) \<Rightarrow> (Rej, c1)
                 | (_, c1) \<Rightarrow> (UB, c1))
        | _ \<Rightarrow> (UB, c0))"

end
