(* ===== verification/Encoder.thy ===== *)
theory Encoder
  imports WriteState
begin

text \<open>
  What the writers promise, over the bytes written so far (\<open>wout\<close>): room is made without wrapping
  and without spinning, and every writer appends exactly its encoding or leaves the output as it
  was. The locale \<open>appender\<close> is that contract; its interpretation covers every primitive writer.
\<close>

definition wstacks_ok :: "wctx \<Rightarrow> bool" where
  "wstacks_ok c = (stk_ok 8 (w_lidx c) (w_loop_depth c) \<and> stk_ok 8 (w_llim c) (w_loop_depth c) \<and>
     stk_ok 4 (w_bases c) (w_base_depth c) \<and> stk_ok 8 (w_starts c) (w_idepth c) \<and>
     stk_ok 8 (w_ends c) (w_idepth c) \<and> stk_ok 8 (w_scopes c) (w_scope_depth c) \<and>
     stk_ok 8 (w_rests c) (w_rest_depth c) \<and> vec_wf 8 (w_counts c) \<and>
     (\<forall>i < nat (vec_cap (w_counts c)). slots (w_counts c) ! i \<noteq> None))"

definition wctx_ok :: "wctx \<Rightarrow> bool" where
  "wctx_ok c = ((\<exists>d. w_data c = Some d \<and> length d = unat (w_capacity c)) \<and> w_pos c \<le> w_capacity c \<and> wstacks_ok c)"

definition wout :: "wctx \<Rightarrow> u8 option list" where
  "wout c = take (unat (w_pos c)) (the (w_data c))"

text \<open>What a writer leaves alone: everything but the buffer, the position and the allocators.\<close>

definition same_state :: "wctx \<Rightarrow> wctx \<Rightarrow> bool" where
  "same_state c c' = (w_le c' = w_le c \<and> w_owns c' = w_owns c \<and> w_alloc c' = w_alloc c \<and> w_host_le c'
     = w_host_le c \<and> w_lidx c' = w_lidx c \<and> w_llim c' = w_llim c \<and> w_loop_depth c' =
     w_loop_depth c \<and> w_bases c' = w_bases c \<and> w_base_depth c' = w_base_depth c \<and>
     w_starts c' = w_starts c \<and> w_ends c' = w_ends c \<and> w_idepth c' = w_idepth c \<and>
     w_scopes c' = w_scopes c \<and> w_scope_depth c' = w_scope_depth c \<and> w_rests c' = w_rests
     c \<and> w_rest_depth c' = w_rest_depth c \<and> w_counts c' = w_counts c \<and> w_stack_alloc
     c' = w_stack_alloc c \<and> w_endian_seeded c' = w_endian_seeded c)"

lemma same_state_simps:
  assumes "same_state c c'"
  shows "w_le c' = w_le c" "w_owns c' = w_owns c" "w_alloc c' = w_alloc c" "w_host_le c' = w_host_le c"
    "w_rests c' = w_rests c" "w_rest_depth c' = w_rest_depth c" "w_counts c' = w_counts c"
    "w_stack_alloc c' = w_stack_alloc c" "wstacks_ok c' = wstacks_ok c"
  using assms by (simp_all add: same_state_def wstacks_ok_def)

lemma same_state_refl [simp]: "same_state c c"
  by (simp add: same_state_def)

lemma same_state_trans: "same_state a b \<Longrightarrow> same_state b c \<Longrightarrow> same_state a c"
  by (simp add: same_state_def)

lemma same_state_upd [simp]:
  "same_state c (c\<lparr>w_heap := h\<rparr>)" "same_state c (c\<lparr>w_heap := h, w_capacity := k, w_data := d\<rparr>)"
  "same_state c (c\<lparr>w_data := d, w_pos := p\<rparr>)" "same_state c (c\<lparr>w_pos := p\<rparr>)" "same_state c (c\<lparr>w_data := d\<rparr>)"
  by (simp_all add: same_state_def)

section \<open>Making room\<close>

lemma grow_cap_terminates:
  "newcap \<noteq> 0 \<Longrightarrow> \<exists>r. grow_cap newcap want = Some r \<and> want \<le> r \<and> newcap \<le> r"
  unfolding grow_cap_def by (rule double_to_terminates)

text \<open>When there is no room and none can be made: a fixed buffer, a size that cannot be represented,
  or the allocator's refusal.\<close>

definition no_room :: "size_t \<Rightarrow> wctx \<Rightarrow> bool" where
  "no_room need c = (unat (w_capacity c) < unat (w_pos c) + unat need \<and>
     (\<not> w_owns c \<or> 2 ^ 64 \<le> unat (w_pos c) + unat need \<or>
      (\<exists>n h'. h_resize (w_alloc c) True (w_capacity c) n (w_heap c) = (False, h'))))"

lemma write_reserve_spec:
  assumes "wctx_ok c"
  obtains ok c' where "write_reserve need c = (Got ok, c')" "wctx_ok c'" "same_state c c'"
    "w_pos c' = w_pos c" "wout c' = wout c" "ok \<Longrightarrow> unat (w_pos c) + unat need \<le> unat (w_capacity c')"
    "\<not> ok \<Longrightarrow> no_room need c" "unat (w_capacity c) \<le> unat (w_capacity c')"
proof -
  obtain d where d: "w_data c = Some d" "length d = unat (w_capacity c)" "w_pos c \<le> w_capacity c" "wstacks_ok c"
    using assms by (auto simp: wctx_ok_def)
  have fits: "(need \<le> w_capacity c - w_pos c) = (unat (w_pos c) + unat need \<le> unat (w_capacity c))"
    using d(3) unat_sub_le [OF d(3)] by (auto simp: word_le_nat_alt)
  show thesis
  proof (cases "unat (w_pos c) + unat need \<le> unat (w_capacity c)")
    case True
    then show ?thesis using that [of True c] assms fits d(3) by (simp add: write_reserve_def)
  next
    case False
    then have over: "unat (w_capacity c) < unat (w_pos c) + unat need" by simp
    have rep: "(SIZE_MAX - w_pos c < need) = (2 ^ 64 \<le> unat (w_pos c) + unat need)"
    proof -
      have "unat (SIZE_MAX - w_pos c) = 2 ^ 64 - 1 - unat (w_pos c)" by (simp add: unat_sub_le)
      then show ?thesis using unat_lt64 [of "w_pos c"] by (simp add: word_less_nat_alt) linarith
    qed
    show ?thesis
    proof (cases "\<not> w_owns c \<or> SIZE_MAX - w_pos c < need")
      case True
      have "write_reserve need c = (Got False, c)" using True False fits d(3) by (auto simp: write_reserve_def)
      moreover have "no_room need c" using True over rep by (auto simp: no_room_def)
      ultimately show ?thesis using that [of False c] assms by simp
    next
      case F2: False
      then have fit64: "unat (w_pos c) + unat need < 2 ^ 64" using rep by simp
      let ?c0 = "if w_capacity c \<noteq> 0 then w_capacity c else 64"
      have nz: "?c0 \<noteq> 0" by simp
      obtain r where r: "grow_cap ?c0 (w_pos c + need) = Some r" "w_pos c + need \<le> r" "?c0 \<le> r"
        using grow_cap_terminates [OF nz, of "w_pos c + need"] by blast
      have rr: "unat (w_pos c) + unat need \<le> unat r" "unat (w_capacity c) \<le> unat r"
        using r(2,3) unat_add_no_wrap [OF fit64] by (auto simp: word_le_nat_alt split: if_splits)
      obtain ok h where h: "h_resize (w_alloc c) True (w_capacity c) r (w_heap c) = (ok, h)" by fastforce
      show ?thesis
      proof (cases ok)
        case True
        let ?c' = "c\<lparr>w_heap := h, w_capacity := r, w_data := Some (recell (unat r) d)\<rparr>"
        have "write_reserve need c = (Got True, ?c')"
          using F2 False fits r(1) h True d(1) by (auto simp: write_reserve_def Let_def)
        moreover have "wctx_ok ?c'" using d r(3) rr(2) d(3)
          by (auto simp: wctx_ok_def wstacks_ok_def word_le_nat_alt)
        moreover have "wout ?c' = wout c"
          using d rr by (simp add: wout_def take_recell word_le_nat_alt)
        ultimately show ?thesis using that [of True ?c'] rr by simp
      next
        case F3: False
        have "write_reserve need c = (Got False, c\<lparr>w_heap := h\<rparr>)"
          using F2 False fits r(1) h F3 d(1) by (auto simp: write_reserve_def Let_def)
        moreover have "wctx_ok (c\<lparr>w_heap := h\<rparr>)" using assms by (simp add: wctx_ok_def wstacks_ok_def)
        moreover have "no_room need c" using over h F3 by (auto simp: no_room_def)
        ultimately show ?thesis using that [of False "c\<lparr>w_heap := h\<rparr>"] by (simp add: wout_def)
      qed
    qed
  qed
qed

section \<open>Appending\<close>

text \<open>The contract: append exactly \<open>bs\<close>, or return false with the output as it was.\<close>

definition appends :: "u8 option list \<Rightarrow> wctx \<Rightarrow> unit rr \<times> wctx \<Rightarrow> bool" where
  "appends bs c out = (case out of (r, c') \<Rightarrow> wctx_ok c' \<and> same_state c c' \<and>
     (r = Got () \<and> wout c' = wout c @ bs \<and> unat (w_pos c') = unat (w_pos c) + length bs \<or>
      r = Rej \<and> wout c' = wout c \<and> w_pos c' = w_pos c))"

lemma store_at_pos_appends:
  assumes "wctx_ok c" and "unat (w_pos c) + length bs \<le> unat (w_capacity c)"
  shows "\<exists>c'. store_at_pos bs c = (Got (), c') \<and> wctx_ok c' \<and> same_state c c' \<and> wout c' = wout c @ bs \<and>
    unat (w_pos c') = unat (w_pos c) + length bs"
proof -
  obtain d where d: "w_data c = Some d" "length d = unat (w_capacity c)" "wstacks_ok c"
    using assms(1) by (auto simp: wctx_ok_def)
  have l: "unat (w_pos c) + length bs < 2 ^ 64" using assms(2) unat_lt64 [of "w_capacity c"] by simp
  then have p: "unat (w_pos c + word_of_nat (length bs)) = unat (w_pos c) + length bs"
    by (subst unat_add_no_wrap) (simp_all add: unat_of_nat_64)
  let ?c' = "c\<lparr>w_data := Some (blit (unat (w_pos c)) bs d), w_pos := w_pos c + word_of_nat (length bs)\<rparr>"
  have "store_at_pos bs c = (Got (), ?c')" using d assms(2) by (simp add: store_at_pos_def)
  moreover have "wctx_ok ?c'" using d assms(2) p by (auto simp: wctx_ok_def wstacks_ok_def word_le_nat_alt)
  moreover have "wout ?c' = wout c @ bs" using d assms(2) p by (simp add: wout_def take_blit_end)
  ultimately show ?thesis using p by auto
qed

lemma put_bytes_appends:
  assumes "wctx_ok c" and "length bs < 2 ^ 64"
  shows "appends bs c (put_bytes bs c)"
proof (rule write_reserve_spec [OF assms(1), of "word_of_nat (length bs)"])
  fix ok c1
  assume r: "write_reserve (word_of_nat (length bs)) c = (Got ok, c1)" "wctx_ok c1" "same_state c c1"
    "w_pos c1 = w_pos c" "wout c1 = wout c" "ok \<Longrightarrow> unat (w_pos c) + unat (word_of_nat (length bs) :: size_t) \<le> unat (w_capacity c1)"
  show ?thesis
  proof (cases ok)
    case True
    then have "unat (w_pos c1) + length bs \<le> unat (w_capacity c1)"
      using r(4,6) assms(2) by (simp add: unat_of_nat_64)
    then obtain c' where "store_at_pos bs c1 = (Got (), c')" "wctx_ok c'" "same_state c1 c'" "wout c' = wout c1 @ bs"
      "unat (w_pos c') = unat (w_pos c1) + length bs" using store_at_pos_appends [OF r(2)] by blast
    then show ?thesis using r True same_state_trans by (auto simp: appends_def put_bytes_def)
  next
    case False
    then show ?thesis using r by (simp add: appends_def put_bytes_def)
  qed
qed

lemma write_bytes_appends:
  assumes "wctx_ok c" and "length bs < 2 ^ 64"
  shows "appends (map Some bs) c (write_bytes bs c)"
proof (cases "bs = []")
  case True
  then show ?thesis
    by (rule_tac write_reserve_spec [OF assms(1), of 0]) (auto simp: write_bytes_def appends_def split: bool.splits)
next
  case False
  then have "write_bytes bs c = put_bytes (map Some bs) c"
    unfolding write_bytes_def put_bytes_def by (simp only: length_map if_P not_False_eq_True)
  then show ?thesis using put_bytes_appends [OF assms(1), of "map Some bs"] assms(2) by simp
qed

text \<open>A writer of several pieces may stop in the middle.\<close>

definition writes :: "bytes \<Rightarrow> wctx \<Rightarrow> unit rr \<times> wctx \<Rightarrow> bool" where
  "writes bs c out = (case out of (r, c') \<Rightarrow> wctx_ok c' \<and> same_state c c' \<and>
     (r = Got () \<and> wout c' = wout c @ map Some bs \<and> unat (w_pos c') = unat (w_pos c) + length bs \<or>
      r = Rej \<and> (\<exists>k. wout c' = wout c @ map Some (take k bs))))"

lemma appends_writes: "appends (map Some bs) c out \<Longrightarrow> writes bs c out"
proof -
  have "take 0 bs = []" by simp
  then show "appends (map Some bs) c out \<Longrightarrow> writes bs c out"
    by (cases out) (auto simp: appends_def writes_def intro: exI [of _ 0])
qed

lemma writes_then:
  assumes "writes bs c (r, c1)" and "r = Got () \<Longrightarrow> writes bs' c1 out"
    and "out' = (if r = Got () then out else (r, c1))"
  shows "writes (bs @ bs') c out'"
proof (cases "r = Got ()")
  case True
  then have a: "wctx_ok c1" "same_state c c1" "wout c1 = wout c @ map Some bs" "unat (w_pos c1) = unat (w_pos c) + length bs"
    using assms(1) by (auto simp: writes_def)
  obtain r2 c2 where o: "out = (r2, c2)" by fastforce
  have b: "writes bs' c1 (r2, c2)" using assms(2) True o by simp
  have ss: "same_state c c2" using a(2) b same_state_trans by (auto simp: writes_def)
  show ?thesis
  proof (cases "r2 = Got ()")
    case True
    then show ?thesis using a b ss o assms(3) \<open>r = Got ()\<close> by (simp add: writes_def)
  next
    case False
    then obtain k where k: "r2 = Rej" "wctx_ok c2" "wout c2 = wout c1 @ map Some (take k bs')"
      using b by (auto simp: writes_def)
    have "wout c2 = wout c @ map Some (take (length bs + k) (bs @ bs'))" using a k by simp
    then have "\<exists>j. wout c2 = wout c @ map Some (take j (bs @ bs'))" by blast
    then show ?thesis using k(1,2) ss o assms(3) \<open>r = Got ()\<close> unfolding writes_def by simp
  qed
next
  case False
  then obtain k where k: "r = Rej" "wctx_ok c1" "same_state c c1" "wout c1 = wout c @ map Some (take k bs)"
    using assms(1) by (auto simp: writes_def)
  have "wout c1 = wout c @ map Some (take (min k (length bs)) (bs @ bs'))" using k(4) by (simp add: min_def)
  then have "\<exists>j. wout c1 = wout c @ map Some (take j (bs @ bs'))" by blast
  then show ?thesis using k(1-3) False assms(3) unfolding writes_def by simp
qed

lemma write_u8_writes: "wctx_ok c \<Longrightarrow> writes [b] c (write_u8 b c)"
  using put_bytes_appends [of c "[Some b]"] by (intro appends_writes) (simp add: write_u8_def)

section \<open>Fixed width\<close>

lemma length_to_le [simp]: "length (to_le n v) = n"
  by (simp add: to_le_def)

lemma nth_to_le: "i < n \<Longrightarrow> to_le n v ! i = ucast (drop_bit (8 * i) v)"
  by (simp add: to_le_def)

text \<open>The encoding in the declared order.\<close>

definition enc_word :: "bool \<Rightarrow> nat \<Rightarrow> 'a::len word \<Rightarrow> bytes" where
  "enc_word lit n v = (if lit then to_le n v else rev (to_le n v))"

lemma length_enc_word [simp]: "length (enc_word lit n v) = n"
  by (simp add: enc_word_def)

lemma from_le_to_le:
  fixes v :: "'a::len word"
  assumes "LENGTH('a) = 8 * n"
  shows "from_le (to_le n v) = v"
proof (rule bit_word_eqI)
  fix k assume "k < LENGTH('a)"
  then have k: "k < 8 * n" using assms by simp
  then have q: "k div 8 < n" by (simp add: less_mult_imp_div_less mult.commute)
  have "8 * (k div 8) + k mod 8 = k" by simp
  moreover have "k mod 8 < 8" by simp
  ultimately show "bit (from_le (to_le n v) :: 'a word) k = bit v k"
    using q k assms by (simp add: bit_from_le nth_to_le bit_simps)
qed

lemma of_bytes_enc_word:
  fixes v :: "'a::len word"
  assumes "LENGTH('a) = 8 * n"
  shows "of_bytes lit (enc_word lit n v) = v"
  using from_le_to_le [OF assms] by (simp add: of_bytes_def enc_word_def)

lemma to_le_swap:
  fixes f :: "'a::len word \<Rightarrow> 'a word"
  assumes L: "LENGTH('a) = 8 * m" and f: "\<And>k v. k < 8 * m \<Longrightarrow> bit (f v) k = bit v (8 * (m - 1 - k div 8) + k mod 8)"
  shows "to_le m (f v) = rev (to_le m v)"
proof (rule nth_equalityI)
  fix i assume "i < length (to_le m (f v))"
  then have i: "i < m" by simp
  have "(ucast (drop_bit (8 * i) (f v)) :: u8) = ucast (drop_bit (8 * (m - 1 - i)) v)"
  proof (rule bit_word_eqI)
    fix k assume "k < LENGTH(8)"
    then have k: "k < 8" by simp
    have e: "(8 * i + k) div 8 = i" "(8 * i + k) mod 8 = k" using k by simp_all
    have "8 * i + k < 8 * m" using i k by simp
    then have "bit (f v) (8 * i + k) = bit v (8 * (m - 1 - i) + k)"
      using f [of "8 * i + k" v] unfolding e by blast
    then show "bit (ucast (drop_bit (8 * i) (f v)) :: u8) k = bit (ucast (drop_bit (8 * (m - 1 - i)) v) :: u8) k"
      using k by (simp add: bit_simps)
  qed
  then show "to_le m (f v) ! i = rev (to_le m v) ! i"
    using i by (simp add: nth_to_le rev_nth)
qed simp

lemma to_le_bswap:
  "to_le 2 (bswap16 a) = rev (to_le 2 a)" "to_le 4 (bswap32 b) = rev (to_le 4 b)" "to_le 8 (bswap64 d) = rev (to_le 8 d)"
  by (rule to_le_swap; simp add: bit_bswap16 bit_bswap32 bit_bswap64)+

lemma mem_swap:
  "mem_bytes h 2 (if h then bswap16 a else a) = enc_word False 2 a"
  "mem_bytes h 2 (if h then a else bswap16 a) = enc_word True 2 a"
  "mem_bytes h 4 (if h then bswap32 b else b) = enc_word False 4 b"
  "mem_bytes h 4 (if h then b else bswap32 b) = enc_word True 4 b"
  "mem_bytes h 8 (if h then bswap64 d else d) = enc_word False 8 d"
  "mem_bytes h 8 (if h then d else bswap64 d) = enc_word True 8 d"
  by (simp_all add: mem_bytes_def enc_word_def to_le_bswap)

lemma write_words:
  assumes "wctx_ok c"
  shows "writes (enc_word False 2 a) c (write_u16be a c)" "writes (enc_word True 2 a) c (write_u16le a c)"
    "writes (enc_word False 4 b) c (write_u32be b c)" "writes (enc_word True 4 b) c (write_u32le b c)"
    "writes (enc_word False 8 d) c (write_u64be d c)" "writes (enc_word True 8 d) c (write_u64le d c)"
  unfolding write_u16be_def write_u16le_def write_u32be_def write_u32le_def write_u64be_def write_u64le_def Let_def mem_swap
  by (rule appends_writes, rule put_bytes_appends [OF assms], simp)+

lemma write_signed [simp]:
  "write_i8 = write_u8" "write_i16be = write_u16be" "write_i16le = write_u16le" "write_i32be = write_u32be"
  "write_i32le = write_u32le" "write_i64be = write_u64be" "write_i64le = write_u64le" "write_f32be = write_u32be"
  "write_f32le = write_u32le" "write_f64be = write_u64be" "write_f64le = write_u64le"
  by (simp_all add: fun_eq_iff write_i8_def write_i16be_def write_i16le_def write_i32be_def write_i32le_def
      write_i64be_def write_i64le_def write_f32be_def write_f32le_def write_f64be_def write_f64le_def scast_same)

section \<open>LEB128\<close>

text \<open>The canonical encodings, of numbers.\<close>

fun enc_uleb :: "nat \<Rightarrow> bytes" where
  "enc_uleb n = (if n < 128 then [word_of_nat n] else word_of_nat (n mod 128 + 128) # enc_uleb (n div 128))"

declare enc_uleb.simps [simp del]

lemma byte_val: "n < 256 \<Longrightarrow> unat (word_of_nat n :: u8) = n"
  by (simp add: unat_of_nat take_bit_nat_eq_self)

lemma cont_val [simp]: "unat (word_of_nat (n mod 128) + 128 :: u8) = n mod 128 + 128"
proof -
  have "n mod 128 + 128 < 256" using mod_less_divisor [of 128 n] by linarith
  then show ?thesis using byte_val [of "n mod 128 + 128"] by simp
qed

lemma leb_split_enc: "leb_split (enc_uleb n @ bs) = Some (enc_uleb n)"
proof (induction n rule: enc_uleb.induct)
  case (1 n)
  then show ?case by (subst (1 2) enc_uleb.simps) (simp add: byte_val)
qed

lemma leb_val_enc: "leb_val (enc_uleb n) = n"
proof (induction n rule: enc_uleb.induct)
  case (1 n)
  then show ?case by (subst enc_uleb.simps) (auto simp: byte_val)
qed

lemma length_enc_uleb: "n < 2 ^ (7 * Suc k) \<Longrightarrow> length (enc_uleb n) \<le> Suc k"
proof (induction k arbitrary: n)
  case 0
  then show ?case by (subst enc_uleb.simps) simp
next
  case (Suc k)
  have "n div 128 < 2 ^ (7 * Suc k)" using Suc.prems by (simp add: less_mult_imp_div_less power_add)
  then show ?case using Suc.IH by (subst enc_uleb.simps) simp
qed

lemma length_enc_uleb_bits: "0 < bits \<Longrightarrow> n < 2 ^ bits \<Longrightarrow> length (enc_uleb n) \<le> leb_max bits"
proof -
  assume a: "0 < bits" "n < 2 ^ bits"
  note b = leb_max_bounds [OF a(1)]
  then obtain k where k: "leb_max bits = Suc k" by (cases "leb_max bits") auto
  have "(2::nat) ^ bits \<le> 2 ^ (7 * Suc k)" using b k by (intro power_increasing) auto
  then have "n < 2 ^ (7 * Suc k)" using a(2) by linarith
  then show ?thesis using length_enc_uleb k by simp
qed

lemma length_enc_uleb_pos: "0 < length (enc_uleb n)"
  by (subst enc_uleb.simps) simp

lemma low_byte: "(ucast ((v :: u64) AND 0x7f) :: u8) = word_of_nat (unat v mod 128)"
proof -
  have m: "(0x7f :: u64) = mask 7" by (simp add: mask_eq_exp_minus_1)
  have "unat (v AND 0x7f) = unat v mod 128"
    unfolding m by (simp add: take_bit_eq_mod unat_mod flip: take_bit_eq_mask)
  moreover have "(ucast (v AND 0x7f) :: u8) = word_of_nat (unat (v AND 0x7f))" by simp
  ultimately show ?thesis by simp
qed

lemma or_add:
  assumes "a < 2 ^ s"
  shows "(word_of_nat a :: 'a::len word) OR push_bit s w = word_of_nat a + push_bit s w"
proof -
  have ta: "take_bit s a = a" using assms by (simp add: take_bit_nat_eq_self_iff)
  show ?thesis
  proof (rule disjunctive_add_eq_or [symmetric], rule bit_word_eqI)
    fix n
    have "\<not> bit a n" if "s \<le> n" using ta that by (metis bit_take_bit_iff not_le)
    then show "bit ((word_of_nat a :: 'a word) AND push_bit s w) n = bit (0 :: 'a word) n"
      by (cases "s \<le> n") (auto simp: bit_simps)
  qed
qed

lemma cont_byte: "(word_of_nat (n mod 128) :: u8) OR 0x80 = word_of_nat (n mod 128) + 128"
  using or_add [of "n mod 128" 7 "1 :: u8"] by simp

lemma drop7: "unat (drop_bit 7 (v :: u64)) = unat v div 128" "(drop_bit 7 (v :: u64) \<noteq> 0) = (\<not> unat v < 128)"
proof -
  show u: "unat (drop_bit 7 v) = unat v div 128" by (simp add: drop_bit_eq_div unat_div)
  have "(drop_bit 7 v = 0) = (unat (drop_bit 7 v) = 0)" by (simp add: unat_eq_0)
  then show "(drop_bit 7 v \<noteq> 0) = (\<not> unat v < 128)" unfolding u by (simp add: div_eq_0_iff)
qed

lemma uleb128_encode_eq: "uleb128_encode v = enc_uleb (unat v)"
proof (induction v rule: uleb128_encode.induct)
  case (1 v)
  show ?case
  proof (cases "unat v < 128")
    case True
    then have z: "drop_bit 7 v = 0" using drop7(2) [of v] by simp
    have "uleb128_encode v = [ucast (v AND 0x7f)]"
      by (subst uleb128_encode.simps) (simp only: Let_def z simp_thms if_False)
    then show ?thesis using True unfolding low_byte by (subst enc_uleb.simps) simp
  next
    case False
    then have nz: "drop_bit 7 v \<noteq> 0" using drop7(2) [of v] by simp
    have "uleb128_encode v = (ucast (v AND 0x7f) OR 0x80) # uleb128_encode (drop_bit 7 v)"
      using nz by (subst uleb128_encode.simps) (simp only: Let_def if_True not_False_eq_True)
    also have "\<dots> = word_of_nat (unat v mod 128 + 128) # enc_uleb (unat v div 128)"
      using 1 [OF refl refl nz] unfolding low_byte cont_byte drop7(1) by simp
    finally show ?thesis using False by (subst enc_uleb.simps) simp
  qed
qed

lemma write_uleb_writes: "wctx_ok c \<Longrightarrow> writes (enc_uleb (unat v)) c (write_uleb128_u64 v c)"
proof (induction v c rule: write_uleb128_u64.induct)
  case (1 v c)
  show ?case
  proof (cases "unat v < 128")
    case True
    then have z: "drop_bit 7 v = 0" using drop7(2) [of v] by simp
    have "write_uleb128_u64 v c = (case write_u8 (word_of_nat (unat v mod 128)) c of
        (Got _, c1) \<Rightarrow> (Got (), c1) | (Rej, c1) \<Rightarrow> (Rej, c1) | (UB, c1) \<Rightarrow> (UB, c1))"
      by (subst write_uleb128_u64.simps) (simp only: Let_def z low_byte simp_thms if_False)
    also have "\<dots> = write_u8 (word_of_nat (unat v)) c"
      using True by (simp split: prod.splits rr.splits)
    finally show ?thesis
      using True write_u8_writes [OF 1(2)] by (subst enc_uleb.simps) simp
  next
    case False
    then have nz: "drop_bit 7 v \<noteq> 0" using drop7(2) [of v] by simp
    let ?b = "word_of_nat (unat v mod 128) + 128 :: u8"
    obtain r c1 where w: "write_u8 ?b c = (r, c1)" by fastforce
    have wr: "writes [?b] c (r, c1)" using write_u8_writes [OF 1(2), of ?b] w by simp
    have b2: "ucast (v AND 0x7f) OR 0x80 = ?b" unfolding low_byte cont_byte ..
    have b: "(if drop_bit 7 v \<noteq> 0 then ucast (v AND 0x7f) OR 0x80 else ucast (v AND 0x7f)) = ?b"
      using nz b2 by simp
    have eq: "write_uleb128_u64 v c = (if r = Got () then write_uleb128_u64 (drop_bit 7 v) c1 else (r, c1))"
      using nz w by (subst write_uleb128_u64.simps, cases r)
        (simp_all only: Let_def b2 prod.case rr.case if_True if_False simp_thms rr.distinct, simp)
    have "r = Got () \<Longrightarrow> writes (enc_uleb (unat (drop_bit 7 v))) c1 (write_uleb128_u64 (drop_bit 7 v) c1)"
    proof -
      assume g: "r = Got ()"
      have "wctx_ok c1" using wr by (simp add: writes_def)
      then show ?thesis by (intro 1(1) [OF refl refl, unfolded b, OF w [symmetric] g nz])
    qed
    then have "writes ([?b] @ enc_uleb (unat v div 128)) c (write_uleb128_u64 v c)"
      using writes_then [OF wr _ eq] unfolding drop7(1) by blast
    then show ?thesis using False by (subst enc_uleb.simps) simp
  qed
qed

text \<open>Signed.\<close>

lemma sleb_shrinks:
  fixes i :: int
  assumes "\<not> (i div 128 = 0 \<and> nat (i mod 128) < 64 \<or> i div 128 = - 1 \<and> 64 \<le> nat (i mod 128))"
  shows "nat (if 0 \<le> i div 128 then i div 128 else - (i div 128) - 1) < nat (if 0 \<le> i then i else - i - 1)"
proof -
  have "i \<noteq> 0" "i \<noteq> - 1" using assms by auto
  then show ?thesis by (auto simp: zdiv_eq_0_iff)
qed

function enc_sleb :: "int \<Rightarrow> bytes" where
  "enc_sleb i = (let b = nat (i mod 128); q = i div 128
     in if q = 0 \<and> b < 64 \<or> q = - 1 \<and> 64 \<le> b then [word_of_int (i mod 128)] else (word_of_int (i mod 128) + 128) # enc_sleb q)"
  by pat_completeness auto

termination
  by (relation "measure (\<lambda>i. nat (if 0 \<le> i then i else - i - 1))") (use sleb_shrinks in auto)

declare enc_sleb.simps [simp del]

text \<open>The stopping test, in the numbers it is about.\<close>

lemma sleb_stop:
  fixes i :: int
  shows "(i div 128 = 0 \<and> nat (i mod 128) < 64 \<or> i div 128 = - 1 \<and> 64 \<le> nat (i mod 128)) = (- 64 \<le> i \<and> i < 64)"
proof -
  define q r where "q = i div 128" and "r = i mod 128"
  have i: "i = 128 * q + r" "0 \<le> r" "r < 128" by (simp_all add: q_def r_def)
  show ?thesis unfolding q_def [symmetric] r_def [symmetric] using i by auto
qed

lemma byte_int_val: "0 \<le> j \<Longrightarrow> j < 256 \<Longrightarrow> unat (word_of_int j :: u8) = nat j"
  using byte_val [of "nat j"] by simp

lemma byte_mod_val: "unat (word_of_int (i mod 128) :: u8) = nat (i mod 128)"
  "unat (word_of_int (i mod 128) + 128 :: u8) = nat (i mod 128) + 128"
proof -
  have lt: "0 \<le> i mod 128" "i mod 128 < 128" by simp_all
  then show "unat (word_of_int (i mod 128) :: u8) = nat (i mod 128)" by (simp add: byte_int_val)
  show "unat (word_of_int (i mod 128) + 128 :: u8) = nat (i mod 128) + 128"
    using lt byte_int_val [of "i mod 128 + 128"] by (simp add: nat_add_distrib)
qed

lemma enc_sleb_cases:
  obtains (stop) "- 64 \<le> i" "i < 64" "enc_sleb i = [word_of_int (i mod 128)]"
  | (more) "\<not> (- 64 \<le> i \<and> i < 64)" "enc_sleb i = (word_of_int (i mod 128) + 128) # enc_sleb (i div 128)"
proof (cases "- 64 \<le> i \<and> i < 64")
  case True
  then have "enc_sleb i = [word_of_int (i mod 128)]"
    by (subst enc_sleb.simps) (simp only: Let_def sleb_stop if_True simp_thms)
  then show ?thesis using stop True by blast
next
  case False
  then have "enc_sleb i = (word_of_int (i mod 128) + 128) # enc_sleb (i div 128)"
    by (subst enc_sleb.simps) (simp only: Let_def sleb_stop if_False simp_thms)
  then show ?thesis using more False by blast
qed

lemma enc_sleb_induct [case_names stop more]:
  assumes "\<And>i. - 64 \<le> i \<Longrightarrow> i < 64 \<Longrightarrow> P i" and "\<And>i. \<not> (- 64 \<le> i \<and> i < 64) \<Longrightarrow> P (i div 128) \<Longrightarrow> P i"
  shows "P (i :: int)"
proof (induction i rule: enc_sleb.induct)
  case (1 i)
  then show ?case using assms sleb_stop [of i] by (cases "- 64 \<le> i \<and> i < 64") auto
qed

lemma leb_split_sleb: "leb_split (enc_sleb i @ bs) = Some (enc_sleb i)"
proof (induction i rule: enc_sleb_induct)
  case (stop i)
  then show ?case
    by (cases i rule: enc_sleb_cases) (simp_all add: byte_mod_val nat_less_iff)
next
  case (more i)
  then show ?case
    by (cases i rule: enc_sleb_cases) (auto simp: byte_mod_val)
qed

lemma enc_sleb_ne: "enc_sleb i \<noteq> []"
  by (cases i rule: enc_sleb_cases) simp_all

lemma sleb_val_enc: "sleb_val (enc_sleb i) = i"
proof (induction i rule: enc_sleb_induct)
  case (stop i)
  have "sleb_top (word_of_int (i mod 128)) = i"
  proof (cases "0 \<le> i")
    case True
    then show ?thesis using stop by (simp add: sleb_top_def byte_int_val)
  next
    case False
    then have "(i + 128) mod 128 = i + 128" using stop by (intro mod_pos_pos_trivial) simp_all
    then have "i mod 128 = i + 128" by simp
    then have u: "unat (word_of_int (i mod 128) :: u8) = nat (i + 128)"
      using byte_mod_val(1) [of i] by (simp only:)
    show ?thesis unfolding sleb_top_def u using stop False by (simp add: nat_less_iff)
  qed
  then show ?case using stop by (cases i rule: enc_sleb_cases) simp_all
next
  case (more i)
  then show ?case
    by (cases i rule: enc_sleb_cases) (simp_all add: byte_mod_val enc_sleb_ne)
qed

lemma length_enc_sleb: "- (2 ^ (7 * k + 6)) \<le> i \<Longrightarrow> i < 2 ^ (7 * k + 6) \<Longrightarrow> length (enc_sleb i) \<le> Suc k"
proof (induction k arbitrary: i)
  case 0
  then show ?case by (cases i rule: enc_sleb_cases) auto
next
  case (Suc k)
  have p: "(2::int) ^ (7 * Suc k + 6) = 128 * 2 ^ (7 * k + 6)" by (simp add: power_add)
  have "- (2 ^ (7 * k + 6)) \<le> i div 128" "i div 128 < 2 ^ (7 * k + 6)"
    using Suc.prems unfolding p by linarith+
  then have "length (enc_sleb (i div 128)) \<le> Suc k" by (rule Suc.IH)
  then show ?case by (cases i rule: enc_sleb_cases) simp_all
qed

lemma length_enc_sleb_bits:
  assumes "0 < bits" and "signed_range bits i"
  shows "length (enc_sleb i) \<le> leb_max bits"
proof -
  note b = leb_max_bounds [OF assms(1)]
  then obtain k where k: "leb_max bits = Suc k" by (cases "leb_max bits") auto
  have "(2::int) ^ (bits - 1) \<le> 2 ^ (7 * k + 6)" using b k by (intro power_increasing) auto
  then have "- (2 ^ (7 * k + 6)) \<le> i" "i < 2 ^ (7 * k + 6)" using assms(2) unfolding signed_range_def by linarith+
  then show ?thesis using length_enc_sleb k by simp
qed

lemma low_byte_int: "(ucast ((v :: i64) AND 0x7f) :: u8) = word_of_int (sint v mod 128)"
proof -
  have "uint v = sint v mod 2 ^ 64"
    using uint_word_of_int_eq [of "sint v", where 'a = 64] by (simp add: take_bit_eq_mod)
  then have "sint v mod 128 = uint v mod 128" by (simp add: mod_mod_cancel)
  then have "sint v mod 128 = int (unat v mod 128)" by (simp add: zmod_int)
  then show ?thesis unfolding low_byte by simp
qed

lemma sar7_tests: "(sar7 v = 0) = (sint v div 128 = 0)" "(sar7 v = - 1) = (sint v div 128 = - 1)"
  using sint_sar7 [of v] by (metis signed_0 signed_word_eqI) (metis sint_n1 sint_sar7 signed_word_eqI)

lemma sleb_sign: "((word_of_int (i mod 128) :: u8) AND 0x40 \<noteq> 0) = (64 \<le> nat (i mod 128))"
proof -
  have "nat (i mod 128) mod 128 = nat (i mod 128)" by (simp add: nat_less_iff)
  then show ?thesis unfolding byte_sign byte_mod_val(1) by simp
qed

lemma cont_byte_int: "(word_of_int (i mod 128) :: u8) OR 0x80 = word_of_int (i mod 128) + 128"
proof -
  have "nat (i mod 128) < 2 ^ 7" by (simp add: nat_less_iff)
  then show ?thesis using or_add [of "nat (i mod 128)" 7 "1 :: u8"] by simp
qed

lemma write_sleb_writes: "wctx_ok c \<Longrightarrow> writes (enc_sleb (sint v)) c (write_sleb128_i64 v c)"
proof (induction v c rule: write_sleb128_i64.induct)
  case (1 v c)
  let ?i = "sint v"
  let ?b = "word_of_int (?i mod 128) :: u8"
  have "(sar7 v = 0 \<and> \<not> ?b AND 0x40 \<noteq> 0 \<or> sar7 v = - 1 \<and> ?b AND 0x40 \<noteq> 0) = (- 64 \<le> ?i \<and> ?i < 64)"
    unfolding sar7_tests sleb_sign not_le by (simp only: sleb_stop)
  then have t: "(sar7 v = 0 \<and> ?b AND 0x40 = 0 \<or> sar7 v = - 1 \<and> ?b AND 0x40 \<noteq> 0) = (- 64 \<le> ?i \<and> ?i < 64)"
    by simp
  show ?case
  proof (cases ?i rule: enc_sleb_cases)
    case stop
    then have "write_sleb128_i64 v c = write_u8 ?b c"
      by (subst write_sleb128_i64.simps) (simp only: Let_def low_byte_int t simp_thms if_True)
    then show ?thesis using stop(3) write_u8_writes [OF 1(2)] by simp
  next
    case more
    let ?b2 = "?b + 128"
    obtain r c1 where w: "write_u8 ?b2 c = (r, c1)" by fastforce
    have wr: "writes [?b2] c (r, c1)" using write_u8_writes [OF 1(2), of ?b2] w by simp
    have nt: "(- 64 \<le> ?i \<and> ?i < 64) = False" using more(1) by simp
    have eq: "write_sleb128_i64 v c = (if r = Got () then write_sleb128_i64 (sar7 v) c1 else (r, c1))"
      using w by (subst write_sleb128_i64.simps, cases r)
        (simp_all only: Let_def low_byte_int t nt cont_byte_int prod.case rr.case if_True if_False simp_thms rr.distinct, simp)
    have nt2: "\<not> (sar7 v = 0 \<and> \<not> (ucast (v AND 0x7f) :: u8) AND 0x40 \<noteq> 0 \<or>
        sar7 v = - 1 \<and> (ucast (v AND 0x7f) :: u8) AND 0x40 \<noteq> 0)"
      unfolding low_byte_int using t more(1) by simp
    have "r = Got () \<Longrightarrow> writes (enc_sleb (sint (sar7 v))) c1 (write_sleb128_i64 (sar7 v) c1)"
    proof -
      assume g: "r = Got ()"
      have "wctx_ok c1" using wr by (simp add: writes_def)
      then show ?thesis
        by (intro 1(1) [OF refl refl refl nt2, unfolded low_byte_int cont_byte_int, OF w [symmetric] g])
    qed
    then have "writes ([?b2] @ enc_sleb (?i div 128)) c (write_sleb128_i64 v c)"
      using writes_then [OF wr _ eq] unfolding sint_sar7 by blast
    then show ?thesis using more(2) by simp
  qed
qed

end
