(* ===== verification/RoundTrip.thy ===== *)
theory RoundTrip
  imports Encoder
begin

text \<open>
  Writing and reading back: every primitive writer appends its encoding, every decoder inverts it,
  and the two halves of the C runtime agree on whole sequences of fields. The locale \<open>codec\<close> is
  the contract of an encoding with its decoder; what follows from it (encodings are prefix-free,
  sequences decode) is proved there once.
\<close>

section \<open>Every writer\<close>

text \<open>The writers at the width of the widest. The runtime has no writer for the 33-bit form.\<close>

fun write_prim :: "prim \<Rightarrow> u64 \<Rightarrow> unit wr" where
  "write_prim PU8 v = write_u8 (ucast v)"
| "write_prim PI8 v = write_i8 (ucast v)"
| "write_prim (PU16 BE) v = write_u16be (ucast v)"
| "write_prim (PU16 LE) v = write_u16le (ucast v)"
| "write_prim (PU16 Native) v = write_u16 (ucast v)"
| "write_prim (PI16 BE) v = write_i16be (ucast v)"
| "write_prim (PI16 LE) v = write_i16le (ucast v)"
| "write_prim (PI16 Native) v = write_i16 (ucast v)"
| "write_prim (PU32 BE) v = write_u32be (ucast v)"
| "write_prim (PU32 LE) v = write_u32le (ucast v)"
| "write_prim (PU32 Native) v = write_u32 (ucast v)"
| "write_prim (PI32 BE) v = write_i32be (ucast v)"
| "write_prim (PI32 LE) v = write_i32le (ucast v)"
| "write_prim (PI32 Native) v = write_i32 (ucast v)"
| "write_prim (PU64 BE) v = write_u64be v"
| "write_prim (PU64 LE) v = write_u64le v"
| "write_prim (PU64 Native) v = write_u64 v"
| "write_prim (PI64 BE) v = write_i64be v"
| "write_prim (PI64 LE) v = write_i64le v"
| "write_prim (PI64 Native) v = write_i64 v"
| "write_prim (PF32 BE) v = write_f32be (ucast v)"
| "write_prim (PF32 LE) v = write_f32le (ucast v)"
| "write_prim (PF32 Native) v = write_f32 (ucast v)"
| "write_prim (PF64 BE) v = write_f64be v"
| "write_prim (PF64 LE) v = write_f64le v"
| "write_prim (PF64 Native) v = write_f64 v"
| "write_prim PBool v = write_bool (v \<noteq> 0)"
| "write_prim PULEB32 v = write_uleb128_u32 (ucast v)"
| "write_prim PULEB64 v = write_uleb128_u64 v"
| "write_prim PSLEB32 v = write_sleb128_i32 (ucast v)"
| "write_prim PSLEB64 v = write_sleb128_i64 v"
| "write_prim PS33 v = (\<lambda>c. (Rej, c))"

fun enc_prim :: "prim \<Rightarrow> bool \<Rightarrow> u64 \<Rightarrow> bytes" where
  "enc_prim PU8 reg v = [ucast v]"
| "enc_prim PI8 reg v = [ucast v]"
| "enc_prim (PU16 e) reg v = enc_word (little e reg) 2 (ucast v :: u16)"
| "enc_prim (PI16 e) reg v = enc_word (little e reg) 2 (ucast v :: u16)"
| "enc_prim (PU32 e) reg v = enc_word (little e reg) 4 (ucast v :: u32)"
| "enc_prim (PI32 e) reg v = enc_word (little e reg) 4 (ucast v :: u32)"
| "enc_prim (PU64 e) reg v = enc_word (little e reg) 8 v"
| "enc_prim (PI64 e) reg v = enc_word (little e reg) 8 v"
| "enc_prim (PF32 e) reg v = enc_word (little e reg) 4 (ucast v :: u32)"
| "enc_prim (PF64 e) reg v = enc_word (little e reg) 8 v"
| "enc_prim PBool reg v = [if v \<noteq> 0 then 1 else 0]"
| "enc_prim PULEB32 reg v = enc_uleb (unat (ucast v :: u32))"
| "enc_prim PULEB64 reg v = enc_uleb (unat v)"
| "enc_prim PSLEB32 reg v = enc_sleb (sint (ucast v :: u32))"
| "enc_prim PSLEB64 reg v = enc_sleb (sint v)"
| "enc_prim PS33 reg v = []"

text \<open>The values a field of the type can hold.\<close>

fun fits_prim :: "prim \<Rightarrow> u64 \<Rightarrow> bool" where
  "fits_prim PU8 v = (ucast (ucast v :: u8) = v)"
| "fits_prim PI8 v = (scast (ucast v :: u8) = v)"
| "fits_prim (PU16 e) v = (ucast (ucast v :: u16) = v)"
| "fits_prim (PI16 e) v = (scast (ucast v :: u16) = v)"
| "fits_prim (PU32 e) v = (ucast (ucast v :: u32) = v)"
| "fits_prim (PI32 e) v = (scast (ucast v :: u32) = v)"
| "fits_prim (PU64 e) v = True"
| "fits_prim (PI64 e) v = True"
| "fits_prim (PF32 e) v = (ucast (ucast v :: u32) = v)"
| "fits_prim (PF64 e) v = True"
| "fits_prim PBool v = (v = 0 \<or> v = 1)"
| "fits_prim PULEB32 v = (ucast (ucast v :: u32) = v)"
| "fits_prim PULEB64 v = True"
| "fits_prim PSLEB32 v = (scast (ucast v :: u32) = v)"
| "fits_prim PSLEB64 v = True"
| "fits_prim PS33 v = False"

lemma write_u32_uleb: "wctx_ok c \<Longrightarrow> writes (enc_uleb (unat w)) c (write_uleb128_u32 w c)"
proof -
  assume ok: "wctx_ok c"
  have "unat w < 2 ^ 32" using unsigned_less [of w] by simp
  then have "take_bit 64 (unat w) = unat w" by (intro take_bit_nat_eq_self) simp
  then have "unat (ucast w :: u64) = unat w" by (simp add: unsigned_ucast_eq)
  then show ?thesis using write_uleb_writes [OF ok, of "ucast w"] by (simp add: write_uleb128_u32_def)
qed

lemma sint_scast_up: "sint (scast (w :: u32) :: i64) = sint w"
proof -
  have "sint (word_of_int (sint w) :: i64) = signed_take_bit 63 (sint w)"
    unfolding sint_sbintrunc' by simp
  also have "\<dots> = sint w"
    using sint_ge [of w] sint_lt [of w] by (intro signed_take_bit_int_eq_self) auto
  finally have "sint (word_of_int (sint w) :: i64) = sint w" .
  moreover have "(scast w :: i64) = word_of_int (sint w)" by (rule scast_eq)
  ultimately show ?thesis by (simp only:)
qed

lemma write_i32_sleb: "wctx_ok c \<Longrightarrow> writes (enc_sleb (sint w)) c (write_sleb128_i32 w c)"
  using write_sleb_writes [of c "scast w"] by (simp add: write_sleb128_i32_def sint_scast_up)

lemma write_prim_writes:
  assumes "wctx_ok c"
  shows "writes (enc_prim p (w_le c) v) c (write_prim p v c)"
proof -
  note W = write_words [OF assms]
  have N: "writes (enc_word (w_le c) 2 a) c (write_u16 a c)" "writes (enc_word (w_le c) 2 a) c (write_i16 a c)"
    "writes (enc_word (w_le c) 4 b) c (write_u32 b c)" "writes (enc_word (w_le c) 4 b) c (write_i32 b c)"
    "writes (enc_word (w_le c) 8 d) c (write_u64 d c)" "writes (enc_word (w_le c) 8 d) c (write_i64 d c)"
    "writes (enc_word (w_le c) 4 b) c (write_f32 b c)" "writes (enc_word (w_le c) 8 d) c (write_f64 d c)" for a b d
    using W by (simp_all add: write_u16_def write_i16_def write_u32_def write_i32_def write_u64_def write_i64_def
        write_f32_def write_f64_def)
  note U = write_u8_writes [OF assms]
  show ?thesis
  proof (cases p)
    case (PU16 e) then show ?thesis using W N by (cases e) (simp_all add: little_def)
  next
    case (PI16 e) then show ?thesis using W N by (cases e) (simp_all add: little_def)
  next
    case (PU32 e) then show ?thesis using W N by (cases e) (simp_all add: little_def)
  next
    case (PI32 e) then show ?thesis using W N by (cases e) (simp_all add: little_def)
  next
    case (PU64 e) then show ?thesis using W N by (cases e) (simp_all add: little_def)
  next
    case (PI64 e) then show ?thesis using W N by (cases e) (simp_all add: little_def)
  next
    case (PF32 e) then show ?thesis using W N by (cases e) (simp_all add: little_def)
  next
    case (PF64 e) then show ?thesis using W N by (cases e) (simp_all add: little_def)
  next
    case PS33 then show ?thesis using assms by (simp add: writes_def)
  qed (use U assms in \<open>simp_all add: write_bool_def write_u32_uleb write_uleb_writes write_i32_sleb
      write_sleb_writes\<close>)
qed

section \<open>Codecs\<close>

locale codec =
  fixes enc :: "'v \<Rightarrow> bytes"
    and dec :: "bytes \<Rightarrow> ('v \<times> nat) option"
    and fits :: "'v \<Rightarrow> bool"
  assumes dec_enc: "fits v \<Longrightarrow> dec (enc v @ bs) = Some (v, length (enc v))"
begin

lemma prefix_free:
  assumes "fits v" and "fits w" and "enc v @ xs = enc w @ ys"
  shows "v = w \<and> xs = ys"
proof -
  have "Some (v, length (enc v)) = Some (w, length (enc w))"
    using dec_enc [OF assms(1), of xs] dec_enc [OF assms(2), of ys] assms(3) by simp
  then show ?thesis using assms(3) by simp
qed

lemma enc_inj: "fits v \<Longrightarrow> fits w \<Longrightarrow> enc v = enc w \<Longrightarrow> v = w"
  using prefix_free [of v w "[]" "[]"] by simp

end

lemma fixed_enc:
  assumes "length (e :: bytes) = n"
  shows "fixed n f (e @ bs) = Some (f e, n)"
  using assms by (simp add: fixed_def)

lemma dec_uleb_enc:
  assumes "0 < bits" and "n < 2 ^ bits"
  shows "dec_uleb bits (enc_uleb n @ bs) = Some (word_of_nat n, length (enc_uleb n))"
proof -
  have "take (leb_max bits) (enc_uleb n @ bs) = enc_uleb n @ take (leb_max bits - length (enc_uleb n)) bs"
    using length_enc_uleb_bits [OF assms] by simp
  then show ?thesis using assms(2) by (simp add: dec_uleb_def leb_split_enc leb_val_enc)
qed

lemma dec_sleb_enc:
  assumes "0 < bits" and "signed_range bits i"
  shows "dec_sleb bits (enc_sleb i @ bs) = Some (word_of_int i, length (enc_sleb i))"
proof -
  have "take (leb_max bits) (enc_sleb i @ bs) = enc_sleb i @ take (leb_max bits - length (enc_sleb i)) bs"
    using length_enc_sleb_bits [OF assms] by simp
  then show ?thesis using assms(2) by (simp add: dec_sleb_def leb_split_sleb sleb_val_enc)
qed

lemma fixed_word:
  fixes v :: "'a::len word"
  assumes "LENGTH('a) = 8 * n"
  shows "fixed n (\<lambda>bs. g (of_bytes lit bs :: 'a word)) (enc_word lit n v @ bs) = Some (g v, n)"
proof -
  have "length (enc_word lit n v) = n" by (simp add: enc_word_def)
  from fixed_enc [OF this, of "\<lambda>bs. g (of_bytes lit bs :: 'a word)" bs] show ?thesis
    by (simp only: of_bytes_enc_word [OF assms])
qed

lemmas fixed_words =
  fixed_word [where 'a = 16 and n = 2, simplified] fixed_word [where 'a = 32 and n = 4, simplified]
  fixed_word [where 'a = 64 and n = 8, simplified]
  fixed_word [where 'a = 64 and n = 8 and g = "\<lambda>x. x", simplified]

lemma dec_enc_words:
  "fits_prim p v \<Longrightarrow> p \<in> {PU16 e, PI16 e, PU32 e, PI32 e, PU64 e, PI64 e, PF32 e, PF64 e} \<Longrightarrow>
     dec_prim p reg (enc_prim p reg v @ bs) = Some (v, length (enc_prim p reg v))"
  by (elim insertE emptyE; simp only: fits_prim.simps dec_prim.simps enc_prim.simps fixed_words length_enc_word)

lemma dec_enc_leb32:
  assumes f: "fits_prim p v" and p: "p = PULEB32 \<or> p = PSLEB32"
  shows "dec_prim p reg (enc_prim p reg v @ bs) = Some (v, length (enc_prim p reg v))"
  using p
proof
  define u where "u = (ucast v :: u32)"
  assume p: "p = PULEB32"
  have v: "v = ucast u" using f p by (simp only: fits_prim.simps u_def)
  have "unat u < 2 ^ 32" using unsigned_less [of u] by simp
  then have "dec_uleb 32 (enc_uleb (unat u) @ bs) = Some (v, length (enc_uleb (unat u)))"
    using dec_uleb_enc [of 32 "unat u" bs] by (simp add: v)
  then show ?thesis by (simp only: p dec_prim.simps enc_prim.simps u_def [symmetric])
next
  define u where "u = (ucast v :: u32)"
  assume p: "p = PSLEB32"
  have v: "v = scast u" using f p by (simp only: fits_prim.simps u_def)
  have "signed_range 32 (sint u)" using sint_ge [of u] sint_lt [of u] by (simp add: signed_range_def)
  then have "dec_sleb 32 (enc_sleb (sint u) @ bs) = Some (v, length (enc_sleb (sint u)))"
    using dec_sleb_enc [of 32 "sint u" bs] by (simp add: v)
  then show ?thesis by (simp only: p dec_prim.simps enc_prim.simps u_def [symmetric])
qed

interpretation prims: codec "enc_prim p reg" "dec_prim p reg" "fits_prim p" for p reg
proof
  fix v bs
  assume f: "fits_prim p v"
  show "dec_prim p reg (enc_prim p reg v @ bs) = Some (v, length (enc_prim p reg v))"
  proof (cases p)
    case PULEB64
    then show ?thesis using dec_uleb_enc [of 64 "unat v" bs] unat_lt64 [of v] by simp
  next
    case PSLEB64
    have "signed_range 64 (sint v)" using sint_ge [of v] sint_lt [of v] by (simp add: signed_range_def)
    then show ?thesis using dec_sleb_enc [of 64 "sint v" bs] PSLEB64 by simp
  next
    case PU8 then show ?thesis using f by (simp add: fixed_def)
  next
    case PI8 then show ?thesis using f by (simp add: fixed_def)
  next
    case PBool then show ?thesis using f by (auto simp: fixed_def)
  next
    case PS33 then show ?thesis using f by (simp only: fits_prim.simps)
  qed (rule dec_enc_leb32 [OF f] dec_enc_words [OF f], blast)+
qed

section \<open>Sequences of fields\<close>

fun write_fields :: "(prim \<times> u64) list \<Rightarrow> unit wr" where
  "write_fields [] c = (Got (), c)"
| "write_fields ((p, v) # fs) c =
     (case write_prim p v c of (Got _, c1) \<Rightarrow> write_fields fs c1 | r \<Rightarrow> r)"

definition enc_fields :: "bool \<Rightarrow> (prim \<times> u64) list \<Rightarrow> bytes" where
  "enc_fields reg fs = concat (map (\<lambda>(p, v). enc_prim p reg v) fs)"

lemma write_fields_writes: "wctx_ok c \<Longrightarrow> writes (enc_fields (w_le c) fs) c (write_fields fs c)"
proof (induction fs arbitrary: c)
  case Nil
  then show ?case by (simp add: enc_fields_def writes_def)
next
  case (Cons f fs)
  obtain p v where f: "f = (p, v)" by fastforce
  obtain r c1 where w: "write_prim p v c = (r, c1)" by fastforce
  have wr: "writes (enc_prim p (w_le c) v) c (r, c1)" using write_prim_writes [OF Cons.prems, of p v] w by simp
  have eq: "write_fields (f # fs) c = (if r = Got () then write_fields fs c1 else (r, c1))"
    using f w by (cases r) simp_all
  have "r = Got () \<Longrightarrow> writes (enc_fields (w_le c) fs) c1 (write_fields fs c1)"
  proof -
    assume "r = Got ()"
    have "wctx_ok c1" "w_le c1 = w_le c" using wr by (auto simp: writes_def same_state_def)
    then show ?thesis using Cons.IH [of c1] by simp
  qed
  then show ?case using writes_then [OF wr _ eq] f by (simp add: enc_fields_def)
qed

lemma read_step:
  assumes "rctx_ok c" and "rest c = enc_prim p (r_le c) v @ bs" and "fits_prim p v"
  shows "read_prim p c = (Got v, step (length (enc_prim p (r_le c) v)) c)"
    and "rctx_ok (step (length (enc_prim p (r_le c) v)) c)"
    and "rest (step (length (enc_prim p (r_le c) v)) c) = bs"
proof -
  have "dec_prim p (r_le c) (rest c) = Some (v, length (enc_prim p (r_le c) v))"
    using prims.dec_enc [OF assms(3), of "r_le c" bs] assms(2) by simp
  then show "read_prim p c = (Got v, step (length (enc_prim p (r_le c) v)) c)"
    using read_prim_decodes [OF assms(1), of p] by (simp add: decodes_def)
  show "rctx_ok (step (length (enc_prim p (r_le c) v)) c)" "rest (step (length (enc_prim p (r_le c) v)) c) = bs"
    using step_ok [OF assms(1), of "length (enc_prim p (r_le c) v)"] assms(2) by simp_all
qed

lemma read_fields:
  "rctx_ok c \<Longrightarrow> rest c = enc_fields (r_le c) fs @ bs \<Longrightarrow> (\<forall>(p, v) \<in> set fs. fits_prim p v) \<Longrightarrow>
     run_rops (map (\<lambda>(p, v). Read p) fs) c = (Got (map snd fs), step (length (enc_fields (r_le c) fs)) c)"
proof (induction fs arbitrary: c)
  case Nil
  then show ?case by (simp add: enc_fields_def)
next
  case (Cons f fs)
  obtain p v where f: "f = (p, v)" by fastforce
  have r: "rest c = enc_prim p (r_le c) v @ enc_fields (r_le c) fs @ bs" and fit: "fits_prim p v"
    using Cons.prems(2,3) f by (auto simp: enc_fields_def)
  note st = read_step [OF Cons.prems(1) r fit]
  have "run_rops (map (\<lambda>(p, v). Read p) fs) (step (length (enc_prim p (r_le c) v)) c) =
      (Got (map snd fs), step (length (enc_fields (r_le c) fs)) (step (length (enc_prim p (r_le c) v)) c))"
    using Cons.IH [OF st(2)] st(3) Cons.prems(3) by simp
  then show ?case
    using st(1) f by (simp add: map_rd_def step_step enc_fields_def)
qed

section \<open>Properties\<close>

text \<open>C15: every primitive writer appends exactly its encoding to the output and nothing else, in the
  declared byte order whatever the machine's; when it returns false the output is a prefix of that.
  It never stores outside the buffer, the doubling loop always ends, and a fixed buffer is never
  overrun.\<close>

theorem write_prim_appends:
  assumes "wctx_ok c"
  shows "case write_prim p v c of
      (Got _, c') \<Rightarrow> wctx_ok c' \<and> wout c' = wout c @ map Some (enc_prim p (w_le c) v)
    | (Rej, c') \<Rightarrow> wctx_ok c' \<and> (\<exists>k. wout c' = wout c @ map Some (take k (enc_prim p (w_le c) v)))
    | (UB, c') \<Rightarrow> False"
  using write_prim_writes [OF assms, of p v] by (auto simp: writes_def split: rr.splits)

definition empty_wctx :: wctx where
  "empty_wctx = \<lparr>w_data = None, w_capacity = 0, w_pos = 0, w_le = True, w_owns = False, w_alloc = 0,
     w_stack_alloc = 0, w_endian_seeded = False, w_lidx = VNull, w_llim = VNull, w_loop_depth = 0,
     w_bases = VNull, w_base_depth = 0, w_starts = VNull, w_ends = VNull, w_idepth = 0, w_scopes = VNull,
     w_scope_depth = 0, w_rests = VNull, w_rest_depth = 0, w_counts = VNull,
     w_heap = (\<lambda>_. Libc (\<lambda>_. True) 0 0), w_host_le = True\<rparr>"

text \<open>A fixed buffer of \<open>n\<close> bytes.\<close>

definition fixed_wctx :: "nat \<Rightarrow> wctx" where
  "fixed_wctx n = write_ctx_init (replicate n None) (word_of_nat n) empty_wctx"

lemma fixed_wctx_ok: "n < 2 ^ 64 \<Longrightarrow> wctx_ok (fixed_wctx n) \<and> wout (fixed_wctx n) = []"
  by (simp add: wctx_ok_def fixed_wctx_def write_ctx_init_def write_ctx_reset_state_def empty_wctx_def
      unat_of_nat_64 wstacks_ok_def wout_def)

theorem write_prim_appends_witness:
  "case write_prim (PU32 BE) 7 (fixed_wctx 4) of
      (Got _, c') \<Rightarrow> wctx_ok c' \<and> wout c' = wout (fixed_wctx 4) @ map Some (enc_prim (PU32 BE) (w_le (fixed_wctx 4)) 7)
    | (Rej, c') \<Rightarrow> wctx_ok c' \<and>
        (\<exists>k. wout c' = wout (fixed_wctx 4) @ map Some (take k (enc_prim (PU32 BE) (w_le (fixed_wctx 4)) 7)))
    | (UB, c') \<Rightarrow> False"
  by (rule write_prim_appends) (simp add: fixed_wctx_ok)

text \<open>C14: the round trip of the C runtime. Fields written one after another, and then read back with
  the same types from a window that starts with the bytes written, give the same values and end
  exactly after those bytes.\<close>

theorem fields_round_trip:
  assumes "wctx_ok w" and "\<forall>(p, v) \<in> set fs. fits_prim p v" and "write_fields fs w = (Got (), w')"
    and "wout w' = wout w @ map Some bytes"
    and "rctx_ok c" and "r_le c = w_le w" and "rest c = bytes @ later"
  shows "run_rops (map (\<lambda>(p, v). Read p) fs) c = (Got (map snd fs), step (length bytes) c)"
proof -
  have "writes (enc_fields (w_le w) fs) w (Got (), w')" using write_fields_writes [OF assms(1), of fs] assms(3) by simp
  then have "map Some (enc_fields (w_le w) fs) = map Some bytes" using assms(4) by (simp add: writes_def)
  then have "enc_fields (w_le w) fs = bytes" by (simp add: inj_map_eq_map)
  then show ?thesis using read_fields [OF assms(5) _ assms(2)] assms(6,7) by simp
qed

theorem fields_round_trip_witness:
  "run_rops (map (\<lambda>(p, v). Read p) [(PU8, 5 :: u64), (PBool, 1)]) (start [5, 1] 0 (\<lambda>_. Libc (\<lambda>_. True) 0 0) True) =
     (Got (map snd [(PU8, 5 :: u64), (PBool, 1)]), step (length [5 :: u8, 1]) (start [5, 1] 0 (\<lambda>_. Libc (\<lambda>_. True) 0 0) True))"
  by (rule fields_round_trip [where w = "fixed_wctx 2" and later = "[]" and
        w' = "snd (write_fields [(PU8, 5 :: u64), (PBool, 1)] (fixed_wctx 2))"];
     (simp add: fixed_wctx_ok; fail)?)
    (use init_ok [of "[5, 1]" 0 "\<lambda>_. Libc (\<lambda>_. True) 0 0" True] in
      \<open>simp_all add: start_def ctx_init_a_def rest_def window_def fixed_wctx_def
         write_ctx_init_def write_ctx_reset_state_def empty_wctx_def write_u8_def put_bytes_def
         write_reserve_def store_at_pos_def blit_def write_bool_def wout_def\<close>)

text \<open>Fields of the same types whose encodings start the same bytes.\<close>

lemma enc_fields_prefix_free:
  "map fst fs = map fst gs \<Longrightarrow> \<forall>(p, v) \<in> set fs. fits_prim p v \<Longrightarrow> \<forall>(p, v) \<in> set gs. fits_prim p v \<Longrightarrow>
   enc_fields reg fs @ xs = enc_fields reg gs @ ys \<Longrightarrow> fs = gs \<and> xs = ys"
proof (induction fs arbitrary: gs)
  case (Cons f fs)
  obtain p v where f: "f = (p, v)" by fastforce
  obtain u gs' where g: "gs = (p, u) # gs'" using Cons.prems(1) f by (cases gs) auto
  have "enc_prim p reg v @ enc_fields reg fs @ xs = enc_prim p reg u @ enc_fields reg gs' @ ys"
    using Cons.prems(4) f g by (simp add: enc_fields_def)
  moreover have "fits_prim p v" "fits_prim p u" using Cons.prems(2,3) f g by auto
  ultimately have "v = u" "enc_fields reg fs @ xs = enc_fields reg gs' @ ys" using prims.prefix_free by blast+
  then show ?case using Cons.IH [of gs'] Cons.prems(1-3) f g by auto
qed (simp add: enc_fields_def)

text \<open>C39: the writers are unambiguous. Two runs of the writers over fields of the same types, with values that fit
  them (\<open>fits_prim\<close>), in any two contexts of one byte order, whose outputs start with the same bytes have written
  the same values, and are followed by the same bytes: no reader of those types can take the output of one for
  the other's.\<close>

theorem writers_unambiguous:
  assumes "wctx_ok w1" and "write_fields fs w1 = (Got (), w1')" and "wout w1' = wout w1 @ map Some bytes1"
    and "wctx_ok w2" and "write_fields gs w2 = (Got (), w2')" and "wout w2' = wout w2 @ map Some bytes2"
    and "w_le w1 = w_le w2" and "map fst fs = map fst gs"
    and "\<forall>(p, v) \<in> set fs. fits_prim p v" and "\<forall>(p, v) \<in> set gs. fits_prim p v"
    and "bytes1 @ xs = bytes2 @ ys"
  shows "fs = gs \<and> xs = ys"
proof -
  have "writes (enc_fields (w_le w1) fs) w1 (Got (), w1')" "writes (enc_fields (w_le w2) gs) w2 (Got (), w2')"
    using write_fields_writes [OF assms(1), of fs] write_fields_writes [OF assms(4), of gs] assms(2,5) by simp_all
  then have "map Some (enc_fields (w_le w1) fs) = map Some bytes1" "map Some (enc_fields (w_le w2) gs) = map Some bytes2"
    using assms(3,6) by (simp_all add: writes_def)
  then have "enc_fields (w_le w1) fs = bytes1" "enc_fields (w_le w1) gs = bytes2"
    using assms(7) by (simp_all add: inj_map_eq_map)
  then show ?thesis using enc_fields_prefix_free [OF assms(8-10)] assms(11) by blast
qed

theorem writers_unambiguous_witness: "[(PULEB32, 300 :: u64)] = [(PULEB32, 300)] \<and> [1 :: u8] = [1]"
proof -
  let ?w = "fixed_wctx 2" and ?fs = "[(PULEB32, 300 :: u64)]"
  have w: "wctx_ok ?w" by (simp add: fixed_wctx_ok)
  obtain r w' where run: "write_fields ?fs ?w = (r, w')" by fastforce
  have "fst (write_fields ?fs ?w) = Got ()" by code_simp
  then have g: "r = Got ()" using run by simp
  have o: "wout w' = wout ?w @ map Some (enc_fields (w_le ?w) ?fs)"
    using write_fields_writes [OF w, of ?fs] unfolding run g by (simp add: writes_def)
  note run' = run [unfolded g]
  show ?thesis by (rule writers_unambiguous [OF w run' o w run' o]) simp_all
qed

end
