(* ===== verification/Holes.thy ===== *)
theory Holes
  imports WriteState RoundTrip
begin

text \<open>
  The parts of the writer that go back over the output (\<open>backends/c/runtime/bbq_runtime.h\<close>): seeking,
  computed sizes inserted in front of what they measure (\<open>bbq_w_push_rest\<close>, \<open>bbq_w_patch_rest\<close>),
  and counts patched into holes kept by id (\<open>bbq_w_reserve_count\<close>, \<open>bbq_w_patch_count\<close>). The stacks
  of the write context meet the same contract \<open>lifo\<close> as the reader's.
\<close>

section \<open>Pushes\<close>

lemma push_one:
  assumes "stk_ok esz v d" and "stack_ensure v d esz born h = (ok, v', h')"
  shows "ok \<Longrightarrow> \<exists>v2. vec_put v' d x = Some v2 \<and> stk_ok esz v2 (d + 1) \<and> stk v2 (d + 1) = stk v d @ [x]"
  using stack_ensure_spec [OF assms] stk_put_push [of esz v' d x] by auto

lemma push_two:
  assumes "stk_ok esz v d" and "stack_ensure v d esz born h = (ok, v', h')"
  shows "stk_ok esz v' d \<and> stk v' d = stk v d"
  using stack_ensure_spec [OF assms] by auto

lemma w_push_rest_spec:
  assumes "wctx_ok c" and "w_push_rest c = (r, c')"
  shows "wctx_ok c' \<and> wout c' = wout c \<and> w_pos c' = w_pos c \<and> w_le c' = w_le c \<and>
    (r = Got () \<and> w_rest_depth c' = w_rest_depth c + 1 \<and>
       stk (w_rests c') (w_rest_depth c') = stk (w_rests c) (w_rest_depth c) @ [w_pos c] \<or>
     r = Rej \<and> w_rest_depth c' = w_rest_depth c \<and>
       stk (w_rests c') (w_rest_depth c') = stk (w_rests c) (w_rest_depth c))"
proof -
  have st: "stk_ok 8 (w_rests c) (w_rest_depth c)" using assms(1) by (simp add: wctx_ok_def wstacks_ok_def)
  obtain ok v h where e: "stack_ensure (w_rests c) (w_rest_depth c) 8 (w_stack_alloc c) (w_heap c) = (ok, v, h)"
    by (metis prod_cases3)
  show ?thesis
  proof (cases ok)
    case True
    then obtain v2 where "vec_put v (w_rest_depth c) (w_pos c) = Some v2" "stk_ok 8 v2 (w_rest_depth c + 1)"
      "stk v2 (w_rest_depth c + 1) = stk (w_rests c) (w_rest_depth c) @ [w_pos c]"
      using push_one [OF st e] by blast
    then show ?thesis using assms e True
      by (auto simp: w_push_rest_def wctx_ok_def wstacks_ok_def wout_def)
  next
    case False
    then show ?thesis using assms e push_two [OF st e]
      by (auto simp: w_push_rest_def wctx_ok_def wstacks_ok_def wout_def)
  qed
qed

lemma w_push_scope_spec:
  assumes "wctx_ok c" and "w_push_scope p c = (r, c')"
  shows "wctx_ok c' \<and>
    (r = Got () \<and> stk (w_scopes c') (w_scope_depth c') = stk (w_scopes c) (w_scope_depth c) @ [p] \<or>
     r = Rej \<and> stk (w_scopes c') (w_scope_depth c') = stk (w_scopes c) (w_scope_depth c))"
proof -
  have st: "stk_ok 8 (w_scopes c) (w_scope_depth c)" using assms(1) by (simp add: wctx_ok_def wstacks_ok_def)
  obtain ok v h where e: "stack_ensure (w_scopes c) (w_scope_depth c) 8 (w_stack_alloc c) (w_heap c) = (ok, v, h)"
    by (metis prod_cases3)
  show ?thesis
  proof (cases ok)
    case True
    then obtain v2 where "vec_put v (w_scope_depth c) p = Some v2" "stk_ok 8 v2 (w_scope_depth c + 1)"
      "stk v2 (w_scope_depth c + 1) = stk (w_scopes c) (w_scope_depth c) @ [p]"
      using push_one [OF st e] by blast
    then show ?thesis using assms e True by (auto simp: w_push_scope_def wctx_ok_def wstacks_ok_def)
  next
    case False
    then show ?thesis using assms e push_two [OF st e] by (auto simp: w_push_scope_def wctx_ok_def wstacks_ok_def)
  qed
qed

lemma w_push_loop_base_spec:
  assumes "wctx_ok c" and "w_push_loop_base b c = (r, c')"
  shows "wctx_ok c' \<and>
    (r = Got () \<and> stk (w_bases c') (w_base_depth c') = stk (w_bases c) (w_base_depth c) @ [b] \<or>
     r = Rej \<and> stk (w_bases c') (w_base_depth c') = stk (w_bases c) (w_base_depth c))"
proof -
  have st: "stk_ok 4 (w_bases c) (w_base_depth c)" using assms(1) by (simp add: wctx_ok_def wstacks_ok_def)
  obtain ok v h where e: "stack_ensure (w_bases c) (w_base_depth c) 4 (w_stack_alloc c) (w_heap c) = (ok, v, h)"
    by (metis prod_cases3)
  show ?thesis
  proof (cases ok)
    case True
    then obtain v2 where "vec_put v (w_base_depth c) b = Some v2" "stk_ok 4 v2 (w_base_depth c + 1)"
      "stk v2 (w_base_depth c + 1) = stk (w_bases c) (w_base_depth c) @ [b]"
      using push_one [OF st e] by blast
    then show ?thesis using assms e True by (auto simp: w_push_loop_base_def wctx_ok_def wstacks_ok_def)
  next
    case False
    then show ?thesis using assms e push_two [OF st e] by (auto simp: w_push_loop_base_def wctx_ok_def wstacks_ok_def)
  qed
qed

lemma w_push_loop_n_spec:
  assumes "wctx_ok c" and "w_push_loop_n n c = (r, c')"
  shows "wctx_ok c' \<and>
    (r = Got () \<and> stk (w_llim c') (w_loop_depth c') = stk (w_llim c) (w_loop_depth c) @ [n] \<or>
     r = Rej \<and> stk (w_llim c') (w_loop_depth c') = stk (w_llim c) (w_loop_depth c))"
proof -
  have st: "stk_ok 8 (w_lidx c) (w_loop_depth c)" "stk_ok 8 (w_llim c) (w_loop_depth c)"
    using assms(1) by (simp_all add: wctx_ok_def wstacks_ok_def)
  obtain ok1 v1 h1 where e1: "stack_ensure (w_lidx c) (w_loop_depth c) 8 (w_stack_alloc c) (w_heap c) = (ok1, v1, h1)"
    by (metis prod_cases3)
  obtain ok2 v2 h2 where e2: "stack_ensure (w_llim c) (w_loop_depth c) 8 (w_stack_alloc c) h1 = (ok2, v2, h2)"
    by (metis prod_cases3)
  note t = push_two [OF st(1) e1] push_two [OF st(2) e2]
  show ?thesis
  proof (cases "ok1 \<and> ok2")
    case True
    obtain i where i: "vec_put v1 (w_loop_depth c) 0 = Some i" "stk_ok 8 i (w_loop_depth c + 1)"
      using push_one [OF st(1) e1] True by blast
    obtain l where l: "vec_put v2 (w_loop_depth c) n = Some l" "stk_ok 8 l (w_loop_depth c + 1)"
      "stk l (w_loop_depth c + 1) = stk (w_llim c) (w_loop_depth c) @ [n]"
      using push_one [OF st(2) e2] True by blast
    show ?thesis using assms e1 e2 True i l
      by (auto simp: w_push_loop_n_def wctx_ok_def wstacks_ok_def Let_def)
  next
    case False
    then show ?thesis using assms e1 e2 t
      by (auto simp: w_push_loop_n_def wctx_ok_def wstacks_ok_def Let_def split: if_splits)
  qed
qed

lemma w_pops:
  assumes "wctx_ok c"
  shows "wctx_ok (w_pop_scope c) \<and> stk (w_scopes (w_pop_scope c)) (w_scope_depth (w_pop_scope c)) =
      butlast (stk (w_scopes c) (w_scope_depth c))"
    and "wctx_ok (w_pop_loop_base c) \<and> stk (w_bases (w_pop_loop_base c)) (w_base_depth (w_pop_loop_base c)) =
      butlast (stk (w_bases c) (w_base_depth c))"
    and "wctx_ok (w_pop_loop c) \<and> stk (w_llim (w_pop_loop c)) (w_loop_depth (w_pop_loop c)) =
      butlast (stk (w_llim c) (w_loop_depth c))"
proof -
  have st: "stk_ok 8 (w_scopes c) (w_scope_depth c)" "stk_ok 4 (w_bases c) (w_base_depth c)"
    "stk_ok 8 (w_lidx c) (w_loop_depth c)" "stk_ok 8 (w_llim c) (w_loop_depth c)"
    using assms by (simp_all add: wctx_ok_def wstacks_ok_def)
  note p = stk_pop [OF st(1)] stk_pop [OF st(2)] stk_pop [OF st(3)] stk_pop [OF st(4)]
  have z: "stk_ok esz v d \<Longrightarrow> \<not> 0 < d \<Longrightarrow> stk v d = []" for esz v and d :: int
    by (simp add: stk_def)
  show "wctx_ok (w_pop_scope c) \<and> stk (w_scopes (w_pop_scope c)) (w_scope_depth (w_pop_scope c)) =
      butlast (stk (w_scopes c) (w_scope_depth c))"
    using assms p(1) z [OF st(1)] by (auto simp: w_pop_scope_def wctx_ok_def wstacks_ok_def)
  show "wctx_ok (w_pop_loop_base c) \<and> stk (w_bases (w_pop_loop_base c)) (w_base_depth (w_pop_loop_base c)) =
      butlast (stk (w_bases c) (w_base_depth c))"
    using assms p(2) z [OF st(2)] by (auto simp: w_pop_loop_base_def wctx_ok_def wstacks_ok_def)
  show "wctx_ok (w_pop_loop c) \<and> stk (w_llim (w_pop_loop c)) (w_loop_depth (w_pop_loop c)) =
      butlast (stk (w_llim c) (w_loop_depth c))"
    using assms p(3,4) z [OF st(4)] by (auto simp: w_pop_loop_def wctx_ok_def wstacks_ok_def)
qed

interpretation wscope: lifo w_push_scope w_pop_scope "\<lambda>c. stk (w_scopes c) (w_scope_depth c)" wctx_ok
  by unfold_locales (use w_push_scope_spec w_pops(1) in blast)+

interpretation wbase: lifo w_push_loop_base w_pop_loop_base "\<lambda>c. stk (w_bases c) (w_base_depth c)" wctx_ok
  by unfold_locales (use w_push_loop_base_spec w_pops(2) in blast)+

interpretation wloop: lifo w_push_loop_n w_pop_loop "\<lambda>c. stk (w_llim c) (w_loop_depth c)" wctx_ok
  by unfold_locales (use w_push_loop_n_spec w_pops(3) in blast)+

section \<open>Insertion\<close>

lemma insert_spec:
  assumes "wctx_ok c" and "hole \<le> w_pos c" and "unat (w_pos c) + length bs \<le> unat (w_capacity c)"
  obtains d' c' where "insert_bytes hole bs (w_pos c - hole) c = Some (c\<lparr>w_data := Some d'\<rparr>)"
    and "c' = c\<lparr>w_data := Some d', w_pos := w_pos c + word_of_nat (length bs)\<rparr>" and "wctx_ok c'"
    and "wout c' = take (unat hole) (wout c) @ map Some bs @ drop (unat hole) (wout c)"
proof -
  obtain d where d: "w_data c = Some d" "length d = unat (w_capacity c)" "wstacks_ok c"
    using assms(1) by (auto simp: wctx_ok_def)
  define i n p where "i = unat hole" and "n = length bs" and "p = unat (w_pos c)"
  have ip: "i \<le> p" using assms(2) by (simp add: i_def p_def word_le_nat_alt)
  have pn: "p + n \<le> length d" using assms(3) d(2) by (simp add: p_def n_def)
  have tail: "unat (w_pos c - hole) = p - i" using assms(2) by (simp add: unat_sub_le i_def p_def)
  have room: "i + n + (p - i) \<le> length d" using ip pn by simp
  define m where "m = blit (i + n) (slice i (p - i) d) d"
  have lm: "length m = length d" using room by (simp add: m_def)
  define d' where "d' = blit i (map Some bs) m"
  have ld: "length d' = length d" using lm room by (simp add: d'_def n_def)
  have tk: "take (p + n) d' = take i (take p d) @ map Some bs @ drop i (take p d)"
  proof -
    have dr: "drop (i + n) m = slice i (p - i) d @ drop (i + n + (p - i)) d"
      using room by (simp add: m_def blit_def)
    have "take i m = take i d" using room unfolding m_def by (intro take_blit) simp_all
    then have "d' = take i d @ map Some bs @ slice i (p - i) d @ drop (i + n + (p - i)) d"
      using dr by (simp add: d'_def blit_def n_def)
    then have "take (p + n) d' = take i d @ map Some bs @ slice i (p - i) d"
      using ip room by (simp add: n_def)
    moreover have "drop i (take p d) = slice i (p - i) d" by (simp add: slice_def drop_take)
    ultimately show ?thesis using ip by (simp add: min_def)
  qed
  have nw: "unat (w_pos c + word_of_nat n) = p + n"
    using assms(3) unat_lt64 [of "w_capacity c"]
    by (subst unat_add_no_wrap) (simp_all add: unat_of_nat_64 n_def p_def)
  have "insert_bytes hole bs (w_pos c - hole) c = Some (c\<lparr>w_data := Some d'\<rparr>)"
    using d(1) room lm tail
    by (simp add: insert_bytes_def poke_def i_def [symmetric] n_def [symmetric] m_def [symmetric] d'_def)
  moreover have "wctx_ok (c\<lparr>w_data := Some d', w_pos := w_pos c + word_of_nat n\<rparr>)"
    using d ld nw pn by (simp add: wctx_ok_def wstacks_ok_def word_le_nat_alt)
  moreover have "wout (c\<lparr>w_data := Some d', w_pos := w_pos c + word_of_nat n\<rparr>) =
      take i (wout c) @ map Some bs @ drop i (wout c)"
    using tk d(1) nw by (simp add: wout_def p_def)
  ultimately show thesis using that by (simp add: n_def i_def)
qed

lemma reserve_insert:
  assumes "wctx_ok c" and "hole \<le> w_pos c" and "length bs < 2 ^ 64"
  obtains c1 where "write_reserve (word_of_nat (length bs)) c = (Got False, c1)" "wctx_ok c1" "wout c1 = wout c"
    "same_state c c1"
  | c1 d where "write_reserve (word_of_nat (length bs)) c = (Got True, c1)" "same_state c c1" "w_pos c1 = w_pos c"
    "insert_bytes hole bs (w_pos c - hole) c1 = Some (c1\<lparr>w_data := Some d\<rparr>)"
    "wctx_ok (c1\<lparr>w_data := Some d, w_pos := w_pos c + word_of_nat (length bs)\<rparr>)"
    "wout (c1\<lparr>w_data := Some d, w_pos := w_pos c + word_of_nat (length bs)\<rparr>) =
       take (unat hole) (wout c) @ map Some bs @ drop (unat hole) (wout c)"
proof (rule write_reserve_spec [OF assms(1), of "word_of_nat (length bs)"])
  fix ok c1
  assume r: "write_reserve (word_of_nat (length bs)) c = (Got ok, c1)" "wctx_ok c1" "same_state c c1"
    "w_pos c1 = w_pos c" "wout c1 = wout c"
    "ok \<Longrightarrow> unat (w_pos c) + unat (word_of_nat (length bs) :: size_t) \<le> unat (w_capacity c1)"
  show thesis
  proof (cases ok)
    case True
    then have room: "unat (w_pos c1) + length bs \<le> unat (w_capacity c1)"
      using r(4,6) assms(3) by (simp add: unat_of_nat_64)
    have h: "hole \<le> w_pos c1" using assms(2) r(4) by simp
    obtain d c' where i: "insert_bytes hole bs (w_pos c1 - hole) c1 = Some (c1\<lparr>w_data := Some d\<rparr>)"
      "c' = c1\<lparr>w_data := Some d, w_pos := w_pos c1 + word_of_nat (length bs)\<rparr>" "wctx_ok c'"
      "wout c' = take (unat hole) (wout c1) @ map Some bs @ drop (unat hole) (wout c1)"
      using insert_spec [OF r(2) h room] by blast
    show ?thesis
      by (rule that(2) [of c1 d]) (use i r True in simp_all)
  next
    case False
    then show ?thesis using that(1) [of c1] r by simp
  qed
qed

lemma length_fixed_bytes [simp]: "length (fixed_bytes n lit v) = n"
  by (simp add: fixed_bytes_def)

text \<open>The size prefix of \<open>n\<close> bytes, as the computed size of a \<open>@rest\<close> is encoded.\<close>

definition size_prefix :: "int \<Rightarrow> bool \<Rightarrow> bool \<Rightarrow> nat \<Rightarrow> bytes" where
  "size_prefix width is_uleb lit n =
     (if is_uleb then enc_uleb n else fixed_bytes (nat (width div 8)) lit (word_of_nat n))"

lemma length_size_prefix: "n < 2 ^ 64 \<Longrightarrow> is_uleb \<or> fits_fixed width \<Longrightarrow> length (size_prefix width is_uleb lit n) \<le> 10"
  using length_enc_uleb_bits [of 64 n] by (auto simp: size_prefix_def leb_max_def fits_fixed_def)

text \<open>The number a prefix stands for: LEB128 groups, or digits to base 256 in the given order.\<close>

fun base256 :: "bytes \<Rightarrow> nat" where
  "base256 [] = 0"
| "base256 (b # bs) = unat b + 256 * base256 bs"

lemma base256_app: "base256 (xs @ [b]) = base256 xs + 256 ^ length xs * unat b"
  by (induction xs) (simp_all add: algebra_simps)

lemma byte_at: "unat (ucast (drop_bit (8 * i) (v :: u64)) :: u8) = unat v div 256 ^ i mod 256"
  by (simp add: unsigned_ucast_eq unat_drop_bit_eq take_bit_eq_mod) (simp add: drop_bit_eq_div power_mult)

lemma base256_fixed: "base256 (fixed_bytes n True v) = unat v mod 256 ^ n"
proof (induction n)
  case (Suc n)
  have f: "fixed_bytes (Suc n) True v = fixed_bytes n True v @ [ucast (drop_bit (8 * n) v)]"
    by (simp add: fixed_bytes_def)
  have "unat v mod 256 ^ Suc n = 256 ^ n * (unat v div 256 ^ n mod 256) + unat v mod 256 ^ n"
    by (simp only: power_Suc2 mod_mult2_eq)
  then show ?case using Suc unfolding f base256_app byte_at by simp
qed (simp add: fixed_bytes_def)

lemma fixed_bytes_order: "rev (fixed_bytes n False v) = fixed_bytes n True v"
  by (rule nth_equalityI) (auto simp: fixed_bytes_def rev_nth)

lemma size_prefix_value:
  assumes "n < 2 ^ 64"
  shows "leb_val (size_prefix width True lit n) = n"
    and "leb_split (size_prefix width True lit n @ bs) = Some (size_prefix width True lit n)"
    and "base256 (if lit then size_prefix width False lit n else rev (size_prefix width False lit n)) =
      n mod 256 ^ nat (width div 8)"
    and "length (size_prefix width False lit n) = nat (width div 8)"
  using assms by (simp_all add: size_prefix_def leb_val_enc leb_split_enc base256_fixed fixed_bytes_order unat_of_nat_64)

lemma w_patch_rest_spec:
  assumes "wctx_ok c" and "0 < w_rest_depth c" and "last (stk (w_rests c) (w_rest_depth c)) \<le> w_pos c"
    and "is_uleb \<or> fits_fixed width" and "w_patch_rest width is_uleb lit c = (r, c')"
  defines "hole \<equiv> unat (last (stk (w_rests c) (w_rest_depth c)))"
  shows "wctx_ok c' \<and> stk (w_rests c') (w_rest_depth c') = butlast (stk (w_rests c) (w_rest_depth c)) \<and>
     (r = Got () \<and> wout c' = take hole (wout c) @
        map Some (size_prefix width is_uleb lit (length (drop hole (wout c)))) @ drop hole (wout c) \<or>
      r = Rej \<and> wout c' = wout c)"
proof -
  define c0 h where "c0 = c\<lparr>w_rest_depth := w_rest_depth c - 1\<rparr>" and "h = last (stk (w_rests c) (w_rest_depth c))"
  have st: "stk_ok 8 (w_rests c) (w_rest_depth c)" using assms(1) by (simp add: wctx_ok_def wstacks_ok_def)
  have get: "vec_get (w_rests c) (w_rest_depth c - 1) = Got h" using stk_last [OF st assms(2)] by (simp add: h_def)
  have ok0: "wctx_ok c0" "wout c0 = wout c" "stk (w_rests c0) (w_rest_depth c0) = butlast (stk (w_rests c) (w_rest_depth c))"
    using assms(1) stk_pop [OF st assms(2)] by (simp_all add: c0_def wctx_ok_def wstacks_ok_def wout_def)
  have len: "length (drop hole (wout c)) = unat (w_pos c - h)"
  proof -
    have "length (wout c) = unat (w_pos c)" using assms(1) by (auto simp: wctx_ok_def wout_def word_le_nat_alt)
    then show ?thesis using assms(3) by (simp add: unat_sub_le h_def hole_def)
  qed
  define tmp where "tmp = size_prefix width is_uleb lit (unat (w_pos c - h))"
  have tmp: "(if is_uleb then uleb128_encode (w_pos c - h) else fixed_bytes (nat (width div 8)) lit (w_pos c - h)) = tmp"
    by (simp add: tmp_def size_prefix_def uleb128_encode_eq)
  have get0: "vec_get (w_rests c0) (w_rest_depth c0) = Got h" using get by (simp add: c0_def)
  have tmp0: "(if is_uleb then uleb128_encode (w_pos c0 - h) else fixed_bytes (nat (width div 8)) lit (w_pos c0 - h)) = tmp"
    using tmp by (cases is_uleb) (simp_all add: c0_def)
  have l10: "length tmp \<le> 10" using length_size_prefix [of "unat (w_pos c - h)"] assms(4) unat_lt64 by (auto simp: tmp_def)
  have hp: "h \<le> w_pos c0" using assms(3) by (simp add: h_def c0_def)
  have run: "(r, c') = (case write_reserve (word_of_nat (length tmp)) c0 of
      (Got True, c1) \<Rightarrow> (case insert_bytes h tmp (w_pos c0 - h) c1 of None \<Rightarrow> (UB, c1)
         | Some c2 \<Rightarrow> (Got (), c2\<lparr>w_pos := w_pos c2 + word_of_nat (length tmp)\<rparr>))
    | (Got False, c1) \<Rightarrow> (Rej, c1) | (_, c1) \<Rightarrow> (UB, c1))"
    unfolding assms(5) [symmetric] w_patch_rest_def Let_def c0_def [symmetric] get0 rr.case tmp0
    using assms(2,4) l10 by auto
  have sm: "same_state c0 c1 \<Longrightarrow> stk (w_rests (c1\<lparr>w_data := d, w_pos := p\<rparr>)) (w_rest_depth (c1\<lparr>w_data := d, w_pos := p\<rparr>)) =
      butlast (stk (w_rests c) (w_rest_depth c)) \<and>
      stk (w_rests c1) (w_rest_depth c1) = butlast (stk (w_rests c) (w_rest_depth c))" for c1 d p
    using ok0(3) by (simp add: same_state_simps)
  show ?thesis
  proof (rule reserve_insert [OF ok0(1) hp, of tmp])
    show "length tmp < 2 ^ 64" using l10 by simp
  next
    fix c1
    assume "write_reserve (word_of_nat (length tmp)) c0 = (Got False, c1)" "wctx_ok c1" "wout c1 = wout c0" "same_state c0 c1"
    then show ?thesis using run ok0 sm by simp
  next
    fix c1 d
    assume i: "write_reserve (word_of_nat (length tmp)) c0 = (Got True, c1)" "same_state c0 c1" "w_pos c1 = w_pos c0"
      "insert_bytes h tmp (w_pos c0 - h) c1 = Some (c1\<lparr>w_data := Some d\<rparr>)"
      "wctx_ok (c1\<lparr>w_data := Some d, w_pos := w_pos c0 + word_of_nat (length tmp)\<rparr>)"
      "wout (c1\<lparr>w_data := Some d, w_pos := w_pos c0 + word_of_nat (length tmp)\<rparr>) =
         take (unat h) (wout c0) @ map Some tmp @ drop (unat h) (wout c0)"
    have "r = Got ()" "c' = c1\<lparr>w_data := Some d, w_pos := w_pos c0 + word_of_nat (length tmp)\<rparr>"
      using run i(1,3,4) by simp_all
    then show ?thesis using i sm ok0 len by (simp add: tmp_def hole_def h_def)
  qed
qed

section \<open>Counts\<close>

text \<open>Where a hole is after \<open>by\<close> bytes were inserted at \<open>hole\<close> for the count \<open>skip\<close>.\<close>

definition moved :: "int \<Rightarrow> size_t \<Rightarrow> size_t \<Rightarrow> int \<Rightarrow> size_t \<Rightarrow> size_t" where
  "moved skip hole by i x = (if i \<noteq> skip \<and> hole < x then x + by else x)"

lemma bump_block:
  "0 \<le> i \<Longrightarrow> nat n \<le> length xs \<Longrightarrow> \<forall>j. nat i \<le> j \<and> j < nat n \<longrightarrow> xs ! j \<noteq> None \<Longrightarrow>
   bump_holes i n skip hole by (VBlock l c a xs) = Some (VBlock l c a
     (map (\<lambda>j. if nat i \<le> j \<and> j < nat n then map_option (moved skip hole by (int j)) (xs ! j) else xs ! j)
        [0..<length xs]))"
proof (induction "nat (n - i)" arbitrary: i xs)
  case 0
  then have "\<And>j. \<not> (nat i \<le> j \<and> j < nat n)" by auto
  then have "map (\<lambda>j. if nat i \<le> j \<and> j < nat n then map_option (moved skip hole by (int j)) (xs ! j) else xs ! j)
      [0..<length xs] = map ((!) xs) [0..<length xs]" by (intro map_cong) auto
  then show ?case using 0 by (simp add: bump_holes.simps map_nth)
next
  case (Suc m)
  have lt: "i < n" and ln: "nat i < length xs" using Suc.hyps(2) Suc.prems by auto
  obtain x where x: "xs ! nat i = Some x" using Suc.prems lt by (metis nat_less_eq_zless order_refl option.exhaust)
  define ys where "ys = xs[nat i := Some (moved skip hole by i x)]"
  have upd: "i = skip \<Longrightarrow> xs[nat skip := Some x] = xs" "xs[nat i := Some x] = xs"
    using x by (metis list_update_id)+
  have step: "bump_holes i n skip hole by (VBlock l c a xs) = bump_holes (i + 1) n skip hole by (VBlock l c a ys)"
    using lt ln x Suc.prems(1)
    by (subst bump_holes.simps) (auto simp: ys_def moved_def upd)
  have "bump_holes (i + 1) n skip hole by (VBlock l c a ys) = Some (VBlock l c a
     (map (\<lambda>j. if nat (i + 1) \<le> j \<and> j < nat n then map_option (moved skip hole by (int j)) (ys ! j) else ys ! j)
        [0..<length ys]))"
  proof (rule Suc.hyps(1))
    show "\<forall>j. nat (i + 1) \<le> j \<and> j < nat n \<longrightarrow> ys ! j \<noteq> None"
      using Suc.prems by (auto simp: ys_def nth_list_update)
  qed (use Suc.hyps(2) Suc.prems in \<open>auto simp: ys_def\<close>)
  moreover have "(if nat (i + 1) \<le> j \<and> j < nat n then map_option (moved skip hole by (int j)) (ys ! j) else ys ! j) =
      (if nat i \<le> j \<and> j < nat n then map_option (moved skip hole by (int j)) (xs ! j) else xs ! j)"
    if "j < length xs" for j
    using that x lt Suc.prems(1) by (cases "j = nat i") (auto simp: ys_def nat_add_distrib)
  ultimately show ?case using step by (simp add: ys_def)
qed


lemma count_slots:
  assumes "wctx_ok c" and "0 \<le> k" and "k < vec_cap (w_counts c)"
  obtains l cp a xs where "w_counts c = VBlock l cp a xs" and "nat (vec_cap (w_counts c)) \<le> length xs"
    and "\<forall>j < nat (vec_cap (w_counts c)). xs ! j \<noteq> None" and "vec_cap (w_counts c) = cp"
proof -
  have wf: "vec_wf 8 (w_counts c)" "\<forall>i < nat (vec_cap (w_counts c)). slots (w_counts c) ! i \<noteq> None"
    using assms(1) by (auto simp: wctx_ok_def wstacks_ok_def)
  obtain l cp a xs where v: "w_counts c = VBlock l cp a xs" using assms(2,3) by (cases "w_counts c") auto
  then show thesis using that wf vec_cap_slots [OF wf(1)] assms(2,3) by (auto split: if_splits)
qed

text \<open>The holes a context keeps: for each id below the capacity, an offset.\<close>

definition count_hole :: "wctx \<Rightarrow> int \<Rightarrow> size_t" where
  "count_hole c k = the (slots (w_counts c) ! nat k)"

text \<open>What inserting a count does: the bytes go in at its own hole, every other hole strictly after it
  moves with the bytes, and no other state changes.\<close>

definition count_inserted :: "int \<Rightarrow> u64 \<Rightarrow> wctx \<Rightarrow> wctx \<Rightarrow> bool" where
  "count_inserted k count c c' =
     (let hole = count_hole c k; n = word_of_nat (length (enc_uleb (unat count)))
      in wout c' = take (unat hole) (wout c) @ map Some (enc_uleb (unat count)) @ drop (unat hole) (wout c) \<and>
         vec_cap (w_counts c') = vec_cap (w_counts c) \<and>
         (\<forall>j \<in> {0..<vec_cap (w_counts c)}. count_hole c' j = moved k hole n j (count_hole c j)) \<and>
         stk (w_rests c') (w_rest_depth c') = map (moved (- 1) hole n 0) (stk (w_rests c) (w_rest_depth c)))"

lemma bump_stk:
  assumes "stk_ok esz v d"
  shows "\<exists>v'. bump_holes 0 d (- 1) hole by v = Some v' \<and> stk_ok esz v' d \<and> stk v' d = map (moved (- 1) hole by 0) (stk v d)"
proof (cases v)
  case (VBlock l c a xs)
  have x: "nat d \<le> length xs" "\<forall>j < nat d. xs ! j \<noteq> None" "vec_wf esz v" "0 \<le> d"
    using assms VBlock by (auto simp: stk_ok_def)
  define ys where "ys = map (\<lambda>j. if nat 0 \<le> j \<and> j < nat d then map_option (moved (- 1) hole by (int j)) (xs ! j) else xs ! j)
        [0..<length xs]"
  have b: "bump_holes 0 d (- 1) hole by v = Some (VBlock l c a ys)"
    unfolding VBlock ys_def by (rule bump_block) (use x in auto)
  have n: "ys ! j = map_option (moved (- 1) hole by 0) (xs ! j)" if "j < nat d" for j
  proof -
    have "moved (- 1) hole by (int j) = moved (- 1) hole by 0" by (rule ext) (simp add: moved_def)
    then show ?thesis using that x(1) by (auto simp: ys_def)
  qed
  have "take (nat d) ys = map (map_option (moved (- 1) hole by 0)) (take (nat d) xs)"
    using x(1) n by (intro nth_equalityI) (auto simp: ys_def)
  moreover have "map the (map (map_option (moved (- 1) hole by 0)) (take (nat d) xs)) =
      map (moved (- 1) hole by 0) (map the (take (nat d) xs))"
  proof (rule nth_equalityI)
    fix j assume "j < length (map the (map (map_option (moved (- 1) hole by 0)) (take (nat d) xs)))"
    then have "j < nat d" "j < length xs" by auto
    then show "map the (map (map_option (moved (- 1) hole by 0)) (take (nat d) xs)) ! j =
        map (moved (- 1) hole by 0) (map the (take (nat d) xs)) ! j"
      using x(2) by (simp add: option.map_sel)
  qed simp
  moreover have "stk_ok esz (VBlock l c a ys) d"
    using x n VBlock by (auto simp: stk_ok_def ys_def)
  ultimately show ?thesis using b VBlock by (simp add: stk_def)
qed (use assms in \<open>auto simp: stk_ok_def stk_def bump_holes.simps\<close>)

lemma bump_counts:
  assumes "wctx_ok c" and "0 \<le> k" and "k < vec_cap (w_counts c)"
  shows "\<exists>v'. bump_holes 0 (vec_cap (w_counts c)) k hole by (w_counts c) = Some v' \<and> vec_cap v' = vec_cap (w_counts c) \<and>
    vec_wf 8 v' \<and> (\<forall>i < nat (vec_cap v'). slots v' ! i \<noteq> None) \<and>
    (\<forall>j \<in> {0..<vec_cap v'}. the (slots v' ! nat j) = moved k hole by j (count_hole c j))"
proof (rule count_slots [OF assms])
  fix l cp a xs
  assume v: "w_counts c = VBlock l cp a xs" "nat (vec_cap (w_counts c)) \<le> length xs"
    "\<forall>j < nat (vec_cap (w_counts c)). xs ! j \<noteq> None" "vec_cap (w_counts c) = cp"
  define ys where "ys = map (\<lambda>j. if nat 0 \<le> j \<and> j < nat cp then map_option (moved k hole by (int j)) (xs ! j) else xs ! j)
        [0..<length xs]"
  have b: "bump_holes 0 cp k hole by (w_counts c) = Some (VBlock l cp a ys)"
    unfolding v(1) ys_def by (rule bump_block) (use v in auto)
  have "vec_wf 8 (VBlock l cp a ys)"
    using assms(1) v(1) by (auto simp: wctx_ok_def wstacks_ok_def ys_def)
  moreover have "ys ! j = map_option (moved k hole by (int j)) (xs ! j)" if "j < nat cp" for j
    using that v(2,4) by (auto simp: ys_def)
  moreover have "0 < cp" using assms v(4) by simp
  ultimately show ?thesis using b v
    by (auto simp: count_hole_def option.map_sel)
qed

lemma w_patch_count_uleb:
  assumes "wctx_ok c" and "0 \<le> k" and "k < vec_cap (w_counts c)" and "count_hole c k \<le> w_pos c"
    and "w_patch_count k count width True lit c = (r, c')"
  shows "wctx_ok c' \<and> (r = Got () \<and> count_inserted k count c c' \<or> r = Rej \<and> wout c' = wout c)"
proof -
  define h tmp where "h = count_hole c k" and "tmp = enc_uleb (unat count)"
  have l10: "length tmp \<le> 10" using length_enc_uleb_bits [of 64 "unat count"] unat_lt64 by (simp add: tmp_def leb_max_def)
  have get: "vec_get (w_counts c) k = Got h"
  proof (rule count_slots [OF assms(1-3)])
    fix l cp a xs
    assume v: "w_counts c = VBlock l cp a xs" "nat (vec_cap (w_counts c)) \<le> length xs"
      "\<forall>j < nat (vec_cap (w_counts c)). xs ! j \<noteq> None"
    have "nat k < nat (vec_cap (w_counts c))" using assms(2,3) by simp
    then have "xs ! nat k \<noteq> None" "nat k < length xs" using v by auto
    then show ?thesis using v(1) assms(2) by (auto simp: h_def count_hole_def)
  qed
  have hp: "h \<le> w_pos c" using assms(4) by (simp add: h_def)
  let ?n = "word_of_nat (length tmp) :: size_t"
  have run: "(r, c') = (case write_reserve ?n c of
      (Got True, c1) \<Rightarrow> (case insert_bytes h tmp (w_pos c - h) c1 of None \<Rightarrow> (UB, c1)
         | Some c2 \<Rightarrow> (case (bump_holes 0 (vec_cap (w_counts (c2\<lparr>w_pos := w_pos c2 + ?n\<rparr>))) k h ?n (w_counts (c2\<lparr>w_pos := w_pos c2 + ?n\<rparr>)),
                    bump_holes 0 (w_rest_depth (c2\<lparr>w_pos := w_pos c2 + ?n\<rparr>)) (- 1) h ?n (w_rests (c2\<lparr>w_pos := w_pos c2 + ?n\<rparr>))) of
                (Some vc, Some vr) \<Rightarrow> (Got (), c2\<lparr>w_pos := w_pos c2 + ?n, w_counts := vc, w_rests := vr\<rparr>)
              | _ \<Rightarrow> (UB, c2\<lparr>w_pos := w_pos c2 + ?n\<rparr>)))
    | (Got False, c1) \<Rightarrow> (Rej, c1) | (_, c1) \<Rightarrow> (UB, c1))"
    unfolding assms(5) [symmetric] w_patch_count_def Let_def get rr.case uleb128_encode_eq tmp_def [symmetric]
    using assms(2,3) by simp
  show ?thesis
  proof (rule reserve_insert [OF assms(1) hp, of tmp])
    show "length tmp < 2 ^ 64" using l10 by simp
  next
    fix c1
    assume "write_reserve ?n c = (Got False, c1)" "wctx_ok c1" "wout c1 = wout c"
    then show ?thesis using run by simp
  next
    fix c1 :: wctx and d
    let ?c3 = "c1\<lparr>w_data := Some d, w_pos := w_pos c + ?n\<rparr>"
    assume i: "write_reserve ?n c = (Got True, c1)" "same_state c c1" "w_pos c1 = w_pos c"
      "insert_bytes h tmp (w_pos c - h) c1 = Some (c1\<lparr>w_data := Some d\<rparr>)" "wctx_ok ?c3"
      "wout ?c3 = take (unat h) (wout c) @ map Some tmp @ drop (unat h) (wout c)"
    have eqs: "w_counts c1 = w_counts c" "w_rests c1 = w_rests c" "w_rest_depth c1 = w_rest_depth c"
      using i(2) by (simp_all add: same_state_simps)
    obtain vc where vc: "bump_holes 0 (vec_cap (w_counts c)) k h ?n (w_counts c) = Some vc" "vec_cap vc = vec_cap (w_counts c)"
      "vec_wf 8 vc" "\<forall>i < nat (vec_cap vc). slots vc ! i \<noteq> None"
      "\<forall>j \<in> {0..<vec_cap vc}. the (slots vc ! nat j) = moved k h ?n j (count_hole c j)"
      using bump_counts [OF assms(1-3)] by blast
    have "stk_ok 8 (w_rests c) (w_rest_depth c)" using assms(1) by (simp add: wctx_ok_def wstacks_ok_def)
    from bump_stk [OF this, of h ?n] obtain vr where vr: "bump_holes 0 (w_rest_depth c) (- 1) h ?n (w_rests c) = Some vr"
      "stk_ok 8 vr (w_rest_depth c)" "stk vr (w_rest_depth c) = map (moved (- 1) h ?n 0) (stk (w_rests c) (w_rest_depth c))"
      by blast
    have out: "r = Got ()" "c' = ?c3\<lparr>w_counts := vc, w_rests := vr\<rparr>"
      using run i(1,3,4) eqs vc(1) vr(1) by simp_all
    have "wctx_ok c'" using i(5) vc vr(2) eqs out by (simp add: wctx_ok_def wstacks_ok_def)
    moreover have "wout c' = wout ?c3" using out by (simp add: wout_def)
    ultimately show ?thesis using out(1) i(6) vc(2,5) vr(3) eqs
      by (simp add: count_inserted_def Let_def out(2) count_hole_def h_def tmp_def)
  qed
qed


lemma grow_holes_ends:
  "0 < nc \<Longrightarrow> \<exists>m. grow_holes nc k = Some m \<and> nc \<le> m \<and> (k < m \<or> VEC_MAX_CAP \<le> m)"
proof (induction "nat (VEC_MAX_CAP - nc)" arbitrary: nc rule: less_induct)
  case less
  show ?case
  proof (cases "nc \<le> k \<and> nc < VEC_MAX_CAP")
    case True
    then have "nat (VEC_MAX_CAP - nc * 2) < nat (VEC_MAX_CAP - nc)" "0 < nc * 2" using less.prems by auto
    then obtain m where "grow_holes (nc * 2) k = Some m" "nc * 2 \<le> m" "k < m \<or> VEC_MAX_CAP \<le> m"
      using less.hyps by blast
    then show ?thesis using True less.prems by (subst grow_holes.simps) auto
  next
    case False
    then show ?thesis by (subst grow_holes.simps) auto
  qed
qed

lemma count_holes_ensure_spec:
  assumes "wctx_ok c" and "0 \<le> k"
  obtains ok c' where "count_holes_ensure k c = (Got ok, c')" "wctx_ok c'" "wout c' = wout c" "w_pos c' = w_pos c"
    "w_rests c' = w_rests c" "w_rest_depth c' = w_rest_depth c" "w_capacity c' = w_capacity c"
    "ok \<Longrightarrow> k < vec_cap (w_counts c') \<and> vec_cap (w_counts c) \<le> vec_cap (w_counts c') \<and>
       (\<forall>j \<in> {0..<vec_cap (w_counts c)}. count_hole c' j = count_hole c j)"
proof (cases "k < vec_cap (w_counts c)")
  case True
  then show ?thesis using that [of True c] assms by (simp add: count_holes_ensure_def Let_def)
next
  case False
  let ?v = "w_counts c" and ?old = "vec_cap (w_counts c)"
  have wf: "vec_wf 8 ?v" "\<forall>i < nat ?old. slots ?v ! i \<noteq> None" using assms(1) by (auto simp: wctx_ok_def wstacks_ok_def)
  have old0: "0 \<le> ?old" by (cases ?v) auto
  then have "0 < (if ?old \<noteq> 0 then ?old else 8)" by auto
  then obtain nc where nc: "grow_holes (if ?old \<noteq> 0 then ?old else 8) k = Some nc" "(if ?old \<noteq> 0 then ?old else 8) \<le> nc"
    "k < nc \<or> VEC_MAX_CAP \<le> nc"
    using grow_holes_ends [of _ k] by blast
  show ?thesis
  proof (cases "VEC_MAX_CAP < nc \<or> VEC_MAX_CAP \<le> k")
    case True
    then show ?thesis using that [of False c] assms nc(1) False by (simp add: count_holes_ensure_def Let_def)
  next
    case small: False
    then have kn: "k < nc" using nc(3) by linarith
    have on: "?old < nc" using kn False by linarith
    obtain v h where "vec_reserve ?v nc 8 (w_stack_alloc c) (w_heap c) = (v, h)" by fastforce
    note vr = this
    then have rs: "vec_resize ?v (word_of_int nc) 8 (w_stack_alloc c) (w_heap c) = (v, h)"
      using on by (simp add: vec_reserve_def)
    have wfv: "vec_wf 8 v" using vec_resize_spec(1) [OF wf(1) rs] .
    let ?c1 = "c\<lparr>w_counts := v, w_heap := h\<rparr>"
    show ?thesis
    proof (cases "vec_cap v < nc")
      case True
      have "\<forall>i < nat (vec_cap v). slots v ! i \<noteq> None"
      proof (cases "vec_oom v")
        case True
        then show ?thesis by (cases v) auto
      next
        case False
        have "uint (word_of_int nc :: size_t) = nc"
          using small old0 on by (simp add: uint_word_of_int_eq VEC_MAX_CAP_def take_bit_int_eq_self)
        then show ?thesis using vec_resize_spec(6) [OF wf(1) rs False] True by simp
      qed
      then have "wctx_ok ?c1" using assms(1) wfv by (simp add: wctx_ok_def wstacks_ok_def)
      then show ?thesis using that [of False ?c1] assms nc(1) False small vr True
        by (simp add: count_holes_ensure_def Let_def wout_def)
    next
      case big: False
      obtain n where sl: "slots v = slots ?v @ replicate n None" using vec_resize_slots [OF rs] by blast
      obtain l cp a xs where v: "v = VBlock l cp a xs" "0 < cp" using big on old0 by (cases v) (auto split: if_splits)
      have len: "nat cp \<le> length xs" using vec_cap_slots [OF wfv] v by simp
      have oldl: "nat ?old \<le> length (slots ?v)" using vec_cap_slots [OF wf(1)] .
      define ys where "ys = (if ?old < cp then take (nat ?old) xs @ replicate (nat (cp - ?old)) (Some 0) @ drop (nat cp) xs else xs)"
      have fs: "fill_slots ?old cp 0 v = Some (VBlock l cp a ys)"
        unfolding v(1) ys_def by (rule fill_slots_block) (use len old0 in auto)
      have oc: "?old < cp" using big v on by simp
      have lys: "length ys = length xs" using oc len old0 by (simp add: ys_def)
      have low: "ys ! j = slots ?v ! j" if "j < nat ?old" for j
        using that sl v(1) oc oldl by (simp add: ys_def nth_append)
      have some: "ys ! j \<noteq> None" if "j < nat cp" for j
      proof (cases "j < nat ?old")
        case True then show ?thesis using low wf(2) by simp
      next
        case False
        have "ys ! j = (replicate (nat (cp - ?old)) (Some 0) @ drop (nat cp) xs) ! (j - nat ?old)"
          using False oc len by (simp add: ys_def nth_append)
        also have "\<dots> = Some 0"
        proof -
          have "j - nat ?old < nat (cp - ?old)" using that False old0 by linarith
          then show ?thesis by (simp add: nth_append)
        qed
        finally show ?thesis by simp
      qed
      let ?c2 = "?c1\<lparr>w_counts := VBlock l cp a ys\<rparr>"
      have run: "count_holes_ensure k c = (Got True, ?c2)"
        using assms nc(1) False small vr big fs v by (simp add: count_holes_ensure_def Let_def)
      have "wctx_ok ?c2" using assms(1) wfv v lys some by (simp add: wctx_ok_def wstacks_ok_def)
      then show ?thesis
        using that [OF run] kn big v oc low by (simp add: wout_def count_hole_def)
    qed
  qed
qed

lemma vec_put_count:
  assumes "wctx_ok c" and "0 \<le> k" and "k < vec_cap (w_counts c)"
  obtains v where "vec_put (w_counts c) k p = Some v" and "wctx_ok (c\<lparr>w_counts := v\<rparr>)"
    and "vec_cap v = vec_cap (w_counts c)" and "\<forall>j \<in> {0..<vec_cap v}. the (slots v ! nat j) = (if j = k then p else count_hole c j)"
proof (rule count_slots [OF assms])
  fix l cp a xs
  assume v: "w_counts c = VBlock l cp a xs" "nat (vec_cap (w_counts c)) \<le> length xs"
    "\<forall>j < nat (vec_cap (w_counts c)). xs ! j \<noteq> None" "vec_cap (w_counts c) = cp"
  have k: "nat k < nat cp" "0 < cp" using assms(2,3) v(4) by auto
  then have "wctx_ok (c\<lparr>w_counts := VBlock l cp a (xs[nat k := Some p])\<rparr>)"
    using assms(1) v by (auto simp: wctx_ok_def wstacks_ok_def nth_list_update)
  moreover have "vec_put (w_counts c) k p = Some (VBlock l cp a (xs[nat k := Some p]))"
    using v k assms(2) by auto
  moreover have "\<forall>j \<in> {0..<cp}. the (xs[nat k := Some p] ! nat j) = (if j = k then p else count_hole c j)"
  proof
    fix j assume "j \<in> {0..<cp}"
    then have "nat j < length xs" "(nat k = nat j) = (j = k)" using v(2,4) assms(2) by auto
    then show "the (xs[nat k := Some p] ! nat j) = (if j = k then p else count_hole c j)"
      using v(1) by (simp add: nth_list_update count_hole_def)
  qed
  ultimately show thesis
    using that [of "VBlock l cp a (xs[nat k := Some p])"] v(1,4) k by simp
qed

lemma w_reserve_count_spec:
  assumes "wctx_ok c" and "0 \<le> k" and "w_reserve_count k width is_uleb c = (r, c')" and "width < 2 ^ 31"
  shows "wctx_ok c' \<and> (r = Rej \<and> wout c' = wout c \<or>
    r = Got () \<and> wout c' = wout c @ replicate (if is_uleb then 0 else nat (width div 8)) (Some 0) \<and>
      k < vec_cap (w_counts c') \<and> count_hole c' k = w_pos c \<and>
      (\<forall>j \<in> {0..<vec_cap (w_counts c)}. j \<noteq> k \<longrightarrow> count_hole c' j = count_hole c j))"
proof (rule count_holes_ensure_spec [OF assms(1,2)])
  fix ok and c1 :: wctx
  assume e: "count_holes_ensure k c = (Got ok, c1)" "wctx_ok c1" "wout c1 = wout c" "w_pos c1 = w_pos c"
    "w_rests c1 = w_rests c" "w_rest_depth c1 = w_rest_depth c" "w_capacity c1 = w_capacity c"
    "ok \<Longrightarrow> k < vec_cap (w_counts c1) \<and> vec_cap (w_counts c) \<le> vec_cap (w_counts c1) \<and>
       (\<forall>j \<in> {0..<vec_cap (w_counts c)}. count_hole c1 j = count_hole c j)"
  show ?thesis
  proof (cases ok)
    case False
    then show ?thesis using assms(2,3) e by (simp add: w_reserve_count_def)
  next
    case True
    obtain v where v: "vec_put (w_counts c1) k (w_pos c1) = Some v" "wctx_ok (c1\<lparr>w_counts := v\<rparr>)"
      "vec_cap v = vec_cap (w_counts c1)"
      "\<forall>j \<in> {0..<vec_cap v}. the (slots v ! nat j) = (if j = k then w_pos c1 else count_hole c1 j)"
      using vec_put_count [OF e(2) assms(2)] e(8) True by blast
    define c2 where "c2 = c1\<lparr>w_counts := v\<rparr>"
    have c2: "wctx_ok c2" "wout c2 = wout c" "k < vec_cap (w_counts c2)" "count_hole c2 k = w_pos c"
      "\<forall>j \<in> {0..<vec_cap (w_counts c)}. j \<noteq> k \<longrightarrow> count_hole c2 j = count_hole c j"
      using v e True assms(2) by (auto simp: c2_def wout_def count_hole_def)
    have run: "(r, c') = (if is_uleb then (Got (), c2) else put_bytes (replicate (nat (width div 8)) (Some 0)) c2)"
      using assms(2,3) e(1) True v(1) by (cases is_uleb) (simp_all add: w_reserve_count_def c2_def)
    show ?thesis
    proof (cases is_uleb)
      case True
      then show ?thesis using run c2 by simp
    next
      case False
      have "length (replicate (nat (width div 8)) (Some (0 :: u8))) < 2 ^ 64" using assms(4) by simp
      then have "appends (replicate (nat (width div 8)) (Some 0)) c2 (r, c')"
        using put_bytes_appends [OF c2(1)] run False by simp
      then show ?thesis using False c2 by (auto simp: appends_def same_state_simps count_hole_def)
    qed
  qed
qed


section \<open>Seeking\<close>

lemma w_seek_spec:
  assumes "wctx_ok c" and "w_seek target c = (r, c')"
  shows "wctx_ok c' \<and>
    (r = Got () \<and> wout c' = take (unat target) (wout c) @ replicate (unat target - unat (w_pos c)) (Some 0) \<or>
     r = Rej \<and> wout c' = wout c \<and> w_pos c < target)"
proof (cases "w_pos c < target")
  case False
  then have c': "r = Got ()" "c' = c\<lparr>w_pos := target\<rparr>" using assms(2) by (auto simp: w_seek_def)
  obtain d where d: "w_data c = Some d" "length d = unat (w_capacity c)" using assms(1) by (auto simp: wctx_ok_def)
  have "unat target \<le> unat (w_pos c)" using False by (simp add: word_less_nat_alt)
  moreover have "target \<le> w_capacity c" using False assms(1) by (auto simp: wctx_ok_def)
  ultimately show ?thesis
    using c' assms(1) d by (auto simp: wctx_ok_def wstacks_ok_def wout_def word_le_nat_alt min_def)
next
  case True
  have tp: "unat (w_pos c) + unat (target - w_pos c) = unat target"
    using True by (simp add: unat_sub_le word_le_nat_alt word_less_nat_alt)
  show ?thesis
  proof (rule write_reserve_spec [OF assms(1), of "target - w_pos c"])
    fix ok and c1 :: wctx
    assume w: "write_reserve (target - w_pos c) c = (Got ok, c1)" "wctx_ok c1" "same_state c c1" "w_pos c1 = w_pos c"
      "wout c1 = wout c" "ok \<Longrightarrow> unat (w_pos c) + unat (target - w_pos c) \<le> unat (w_capacity c1)"
    show ?thesis
    proof (cases ok)
      case False
      then show ?thesis using True assms(2) w by (auto simp: w_seek_def)
    next
      case ok: True
      obtain d where d: "w_data c1 = Some d" "length d = unat (w_capacity c1)" "wstacks_ok c1"
        using w(2) by (auto simp: wctx_ok_def)
      define d' where "d' = blit (unat (w_pos c)) (replicate (unat (target - w_pos c)) (Some 0)) d"
      have room: "unat (w_pos c) + unat (target - w_pos c) \<le> length d" using w(6) ok d(2) by simp
      have out: "r = Got ()" "c' = c1\<lparr>w_data := Some d', w_pos := target\<rparr>"
        using True assms(2) w(1,4) ok d room by (auto simp: w_seek_def poke_def d'_def)
      have "take (unat target) d' = take (unat (w_pos c)) d @ replicate (unat (target - w_pos c)) (Some 0)"
        using take_blit_end [of "unat (w_pos c)" "replicate (unat (target - w_pos c)) (Some 0)" d] room tp
        by (simp add: d'_def)
      moreover have "unat (target - w_pos c) = unat target - unat (w_pos c)" using tp by simp
      moreover have "take (unat target) (wout c) = take (unat (w_pos c)) d"
        using True w(4,5) d(1) by (simp add: wout_def min_def word_less_nat_alt)
      ultimately have "wout c' = take (unat target) (wout c) @ replicate (unat target - unat (w_pos c)) (Some 0)"
        using out by (simp add: wout_def)
      moreover have "wctx_ok c'"
        using d room tp out by (auto simp: wctx_ok_def wstacks_ok_def d'_def word_le_nat_alt)
      ultimately show ?thesis using out by simp
    qed
  qed
qed

section \<open>Properties\<close>

text \<open>C22: A computed size. Opening a \<open>@rest\<close>, writing any fields and closing it puts exactly one prefix in
  front of the fields and changes nothing before it. As LEB128 the prefix is self-delimiting and stands for the
  number of bytes the fields take; of a fixed width of at most eight bytes it has that width and stands, in the
  given byte order, for that number modulo what the width holds: the size itself whenever it fits (the code does
  not check that it does).\<close>

theorem rest_is_sized:
  assumes "wctx_ok c" and "w_push_rest c = (Got (), c1)" and "write_fields fs c1 = (Got (), c2)"
    and "w_patch_rest width is_uleb lit c2 = (Got (), c3)" and "is_uleb \<or> 0 \<le> width \<and> width \<le> 64"
  shows "\<exists>pfx. wout c3 = wout c @ map Some pfx @ map Some (enc_fields (w_le c) fs) \<and>
    (if is_uleb then leb_split (pfx @ enc_fields (w_le c) fs) = Some pfx \<and> leb_val pfx = length (enc_fields (w_le c) fs)
     else length pfx = nat (width div 8) \<and>
       base256 (if lit then pfx else rev pfx) = length (enc_fields (w_le c) fs) mod 256 ^ nat (width div 8))"
proof -
  have p: "wctx_ok c1" "wout c1 = wout c" "w_pos c1 = w_pos c" "w_le c1 = w_le c"
    "stk (w_rests c1) (w_rest_depth c1) = stk (w_rests c) (w_rest_depth c) @ [w_pos c]" "w_rest_depth c1 = w_rest_depth c + 1"
    using w_push_rest_spec [OF assms(1,2)] by auto
  have w: "wctx_ok c2" "same_state c1 c2" "wout c2 = wout c @ map Some (enc_fields (w_le c) fs)"
    "unat (w_pos c2) = unat (w_pos c) + length (enc_fields (w_le c) fs)"
    using write_fields_writes [OF p(1), of fs] assms(3) p(2-4) by (auto simp: writes_def)
  have "0 \<le> w_rest_depth c" using assms(1) by (simp add: wctx_ok_def wstacks_ok_def stk_ok_def)
  then have d: "0 < w_rest_depth c2" using w(2) p(6) by (simp add: same_state_simps)
  have l: "last (stk (w_rests c2) (w_rest_depth c2)) = w_pos c" using w(2) p(5) by (simp add: same_state_simps)
  have len: "length (wout c) = unat (w_pos c)" using assms(1) by (auto simp: wctx_ok_def wout_def word_le_nat_alt)
  have "last (stk (w_rests c2) (w_rest_depth c2)) \<le> w_pos c2" using l w(4) by (simp add: word_le_nat_alt)
  moreover have "is_uleb \<or> fits_fixed width" using assms(5) by (auto simp: fits_fixed_def)
  ultimately have out: "wout c3 = wout c @ map Some (size_prefix width is_uleb lit (length (enc_fields (w_le c) fs))) @
      map Some (enc_fields (w_le c) fs)"
    using w_patch_rest_spec [OF w(1) d _ _ assms(4)] l w(3) len by simp
  have "length (enc_fields (w_le c) fs) < 2 ^ 64" using w(4) unat_lt64 [of "w_pos c2"] by simp
  note v = size_prefix_value [OF this, where width = width and lit = lit]
  show ?thesis
    by (rule exI [of _ "size_prefix width is_uleb lit (length (enc_fields (w_le c) fs))"])
      (cases is_uleb; simp only: if_True if_False out v simp_thms)
qed

text \<open>Four bytes of room, and what the calls leave in it: a size of two bytes, the high one first.\<close>

definition sized0 :: wctx where
  "sized0 = fixed_wctx 4"

definition sized1 :: wctx where
  "sized1 = snd (w_push_rest sized0)"

definition sized2 :: wctx where
  "sized2 = snd (write_fields [(PU8, 7), (PU8, 9)] sized1)"

lemma sized_runs:
  "fst (w_push_rest sized0) = Got ()" "fst (write_fields [(PU8, 7), (PU8, 9)] sized1) = Got ()"
  "fst (w_patch_rest 16 False False sized2) = Got ()"
  "wout (snd (w_patch_rest 16 False False sized2)) = [Some 0, Some 2, Some 7, Some 9]"
  by code_simp+

theorem rest_is_sized_witness:
  "\<exists>pfx. [Some 0, Some 2, Some 7, Some 9] = wout sized0 @ map Some pfx @ map Some (enc_fields (w_le sized0) [(PU8, 7), (PU8, 9)]) \<and>
     length pfx = 2 \<and> base256 (rev pfx) = length (enc_fields (w_le sized0) [(PU8, 7), (PU8, 9)]) mod 256 ^ 2"
proof -
  have "wctx_ok sized0" using fixed_wctx_ok [of 4] by (simp add: sized0_def)
  moreover have "w_push_rest sized0 = (Got (), sized1)" by (metis sized1_def sized_runs(1) prod.collapse)
  moreover have "write_fields [(PU8, 7), (PU8, 9)] sized1 = (Got (), sized2)" by (metis sized2_def sized_runs(2) prod.collapse)
  moreover have "w_patch_rest 16 False False sized2 = (Got (), snd (w_patch_rest 16 False False sized2))"
    by (metis sized_runs(3) prod.collapse)
  ultimately show ?thesis
    using rest_is_sized [of sized0 sized1 "[(PU8, 7), (PU8, 9)]" sized2 16 False False
        "snd (w_patch_rest 16 False False sized2)"] unfolding sized_runs(4) by simp
qed

text \<open>C23: patching a LEB count inserts the encoded count at the hole kept for its id, moves every hole
  strictly after that point by as many bytes, and touches nothing else; refused, it leaves the
  output alone.\<close>

theorem patch_count_inserts:
  assumes "wctx_ok c" and "0 \<le> k" and "k < vec_cap (w_counts c)" and "count_hole c k \<le> w_pos c"
    and "w_patch_count k count width True lit c = (r, c')"
  shows "wctx_ok c' \<and> (r = Got () \<and> count_inserted k count c c' \<or> r = Rej \<and> wout c' = wout c)"
  by (rule w_patch_count_uleb [OF assms])

definition counted0 :: wctx where
  "counted0 = snd (w_reserve_count 0 0 True (fixed_wctx 2))"

lemma counted_runs: "fst (w_reserve_count 0 0 True (fixed_wctx 2)) = Got ()" "w_pos counted0 = 0"
  "vec_cap (w_counts counted0) = 8" "count_hole counted0 0 = 0" "w_capacity counted0 = 2"
  by code_simp+

lemma counted0_ok: "wctx_ok counted0"
proof -
  have "w_reserve_count 0 0 True (fixed_wctx 2) = (Got (), counted0)"
    by (metis counted0_def counted_runs(1) prod.collapse)
  from w_reserve_count_spec [OF _ _ this] show ?thesis using fixed_wctx_ok [of 2] by simp
qed

theorem patch_count_inserts_witness:
  "(\<lambda>(r, c'). wctx_ok c' \<and> (r = Got () \<and> count_inserted 0 5 counted0 c' \<or> r = Rej \<and> wout c' = wout counted0))
     (w_patch_count 0 5 0 True True counted0)"
  unfolding split_beta
  by (rule patch_count_inserts [where lit = True and width = 0]) (simp_all add: counted0_ok counted_runs)

text \<open>C24: Two LEB counts reserved with nothing between them have equal holes, and a hole moves only when it lies
  strictly after an insertion: patching the one and then the other puts the second count in front of the first,
  whatever the context, the counts and what was written after them.\<close>

theorem adjacent_counts_swap:
  assumes "wctx_ok c" and "i \<noteq> j" and "{i, j} \<subseteq> {0..<vec_cap (w_counts c)}" and "count_hole c i = count_hole c j"
    and "count_hole c i \<le> w_pos c"
    and "w_patch_count i m width True lit c = (Got (), c1)" and "w_patch_count j n width' True lit' c1 = (Got (), c2)"
  shows "wout c2 = take (unat (count_hole c i)) (wout c) @ map Some (enc_uleb (unat n)) @ map Some (enc_uleb (unat m)) @
    drop (unat (count_hole c i)) (wout c)"
proof -
  let ?h = "count_hole c i"
  have 1: "wctx_ok c1" "count_inserted i m c c1"
    using w_patch_count_uleb [OF assms(1) _ _ assms(5,6)] assms(3) by auto
  have len: "length (wout x) = unat (w_pos x)" if "wctx_ok x" for x
    using that by (auto simp: wctx_ok_def wout_def word_le_nat_alt)
  have o: "wout c1 = take (unat ?h) (wout c) @ map Some (enc_uleb (unat m)) @ drop (unat ?h) (wout c)"
    and cap: "vec_cap (w_counts c1) = vec_cap (w_counts c)" and h: "count_hole c1 j = ?h"
    using 1(2) assms(2-4) by (auto simp: count_inserted_def Let_def moved_def)
  have "length (wout c) \<le> length (wout c1)" using o by simp
  then have "?h \<le> w_pos c1" using len [OF assms(1)] len [OF 1(1)] assms(5) by (simp add: word_le_nat_alt)
  then have "count_inserted j n c1 c2"
    using w_patch_count_uleb [OF 1(1) _ _ _ assms(7)] assms(3) cap h by auto
  moreover have "length (take (unat ?h) (wout c)) = unat ?h"
    using assms(5) len [OF assms(1)] by (simp add: word_le_nat_alt)
  ultimately show ?thesis using o h by (auto simp: count_inserted_def Let_def)
qed

text \<open>The counts \<open>5\<close> and \<open>9\<close>, reserved in that order: patched in that order, the output starts with \<open>9\<close>.\<close>

definition two_counts :: wctx where
  "two_counts = snd (w_reserve_count 1 0 True (snd (w_reserve_count 0 0 True (fixed_wctx 2))))"

definition one_patched :: wctx where
  "one_patched = snd (w_patch_count 0 5 0 True True two_counts)"

lemma two_counts_run:
  "fst (w_reserve_count 1 0 True (snd (w_reserve_count 0 0 True (fixed_wctx 2)))) = Got ()"
  "fst (w_patch_count 0 5 0 True True two_counts) = Got ()" "fst (w_patch_count 1 9 0 True True one_patched) = Got ()"
  "vec_cap (w_counts two_counts) = 8" "count_hole two_counts 0 = 0" "count_hole two_counts 1 = 0" "wout two_counts = []"
  by code_simp+

theorem adjacent_counts_swap_witness:
  "wout (snd (w_patch_count 1 9 0 True True one_patched)) = map Some (enc_uleb 9) @ map Some (enc_uleb 5)"
proof -
  have "w_reserve_count 1 0 True (snd (w_reserve_count 0 0 True (fixed_wctx 2))) = (Got (), two_counts)"
    by (metis two_counts_def two_counts_run(1) prod.collapse)
  from w_reserve_count_spec [OF _ _ this] have ok: "wctx_ok two_counts" using counted0_ok by (simp add: counted0_def)
  have p: "w_patch_count 0 5 0 True True two_counts = (Got (), one_patched)"
    by (metis one_patched_def two_counts_run(2) prod.collapse)
  have q: "w_patch_count 1 9 0 True True one_patched = (Got (), snd (w_patch_count 1 9 0 True True one_patched))"
    by (metis two_counts_run(3) prod.collapse)
  show ?thesis
    using adjacent_counts_swap [OF ok, where i = 0 and j = 1, OF _ _ _ _ p q] two_counts_run by simp
qed

text \<open>Seeking. Forward it fills the gap with zeroes; backward it cuts the output off at the target,
  whatever was written there (the comment in the code says the position only grows).\<close>

lemma seek_places:
  assumes "wctx_ok c" and "w_seek target c = (r, c')"
  shows "wctx_ok c' \<and>
    (r = Got () \<and> wout c' = take (unat target) (wout c) @ replicate (unat target - unat (w_pos c)) (Some 0) \<or>
     r = Rej \<and> wout c' = wout c \<and> w_pos c < target)"
  by (rule w_seek_spec [OF assms])


lemma seek_places_witness:
  "(\<lambda>(r, c'). wctx_ok c' \<and>
     (r = Got () \<and> wout c' = take (unat (2 :: size_t)) (wout (fixed_wctx 4)) @
        replicate (unat (2 :: size_t) - unat (w_pos (fixed_wctx 4))) (Some 0) \<or>
      r = Rej \<and> wout c' = wout (fixed_wctx 4) \<and> w_pos (fixed_wctx 4) < 2)) (w_seek 2 (fixed_wctx 4))"
  unfolding split_beta by (rule seek_places) (simp_all add: fixed_wctx_ok)

end
