(* ===== verification/CekDecode.thy ===== *)
theory CekDecode
  imports CekSpine Decoder
begin

text \<open>
  The interpreter (\<open>backends/cek/Machine.cpp\<close>) and the C runtime (\<open>backends/c/runtime/bbq_read.h\<close>) decode
  the same primitives with code of their own. This theory relates the two: in states that mirror each
  other a \<open>MatchPrimitive\<close> kont and the reader of the same type agree on acceptance, value and position.
\<close>

section \<open>States that mirror each other\<close>

definition mirrors :: "machine \<Rightarrow> rctx \<Rightarrow> bool" where
  "mirrors m c = (m_input m = r_data c \<and> m_len m = r_len c \<and> m_pos m = r_pos c \<and> m_le m = r_le c \<and>
     m_idepth m \<le> length (m_starts m) \<and> m_idepth m \<le> length (m_ends m) \<and>
     zip (take (m_idepth m) (m_starts m)) (take (m_idepth m) (m_ends m)) = a_wins (cursor_of c))"

definition order_of :: "prim_endian \<Rightarrow> order" where
  "order_of e = (case e of PLittle \<Rightarrow> LE | PBig \<Rightarrow> BE | PNative \<Rightarrow> Native)"

text \<open>The reader the C backend calls for a primitive.\<close>

definition prim_of :: "prim_info \<Rightarrow> prim option" where
  "prim_of p = (let e = order_of (p_endian p) in
     case p_encoding p of
       Uleb \<Rightarrow> Some (if p_width p = W64 then PULEB64 else PULEB32)
     | Sleb \<Rightarrow> Some (if p_width p = W64 then PSLEB64 else PSLEB32)
     | Fixed \<Rightarrow> (case p_kind p of
           KBool \<Rightarrow> Some PBool
         | KFloat \<Rightarrow> (case p_width p of W32 \<Rightarrow> Some (PF32 e) | W64 \<Rightarrow> Some (PF64 e) | _ \<Rightarrow> None)
         | KInteger \<Rightarrow> Some (case p_width p of
               W8 \<Rightarrow> if p_signed p then PI8 else PU8
             | W16 \<Rightarrow> if p_signed p then PI16 e else PU16 e
             | W32 \<Rightarrow> if p_signed p then PI32 e else PU32 e
             | W64 \<Rightarrow> if p_signed p then PI64 e else PU64 e)))"

text \<open>The value of the expression language for what a reader returns.\<close>

definition value_of :: "floats \<Rightarrow> prim_info \<Rightarrow> u64 \<Rightarrow> val" where
  "value_of fl p v = (if p_encoding p \<noteq> Fixed then IntV v else
     case p_kind p of
       KBool \<Rightarrow> BoolV (v \<noteq> 0)
     | KFloat \<Rightarrow> FloatV (if p_width p = W32 then f_widen fl (ucast v) else v)
     | KInteger \<Rightarrow> IntV v)"

lemma mirrors_end:
  assumes "mirrors m c"
  shows "m_effective_end m = Some (snd (window (r_len c) (cursor_of c)))"
proof -
  let ?z = "zip (take (m_idepth m) (m_starts m)) (take (m_idepth m) (m_ends m))"
  have z: "?z = a_wins (cursor_of c)" and d: "m_idepth m \<le> length (m_starts m)" "m_idepth m \<le> length (m_ends m)"
    using assms by (auto simp: mirrors_def)
  from d have l: "length ?z = m_idepth m" by simp
  show ?thesis
  proof (cases "m_idepth m")
    case 0
    then have "a_wins (cursor_of c) = []" using z by simp
    then show ?thesis using assms 0 by (simp add: m_effective_end_def window_def mirrors_def)
  next
    case (Suc k)
    then have "?z \<noteq> []" using l by (metis length_0_conv nat.distinct(1))
    then have "last ?z = ?z ! k" using l Suc by (metis last_conv_nth diff_Suc_1)
    moreover have "?z ! k = (m_starts m ! k, m_ends m ! k)" using d Suc by simp
    ultimately show ?thesis using Suc assms z \<open>?z \<noteq> []\<close>
      by (simp add: m_effective_end_def window_def mirrors_def)
  qed
qed

section \<open>Bytes\<close>

lemma rest_room:
  assumes "rctx_ok c" and "e = snd (window (r_len c) (cursor_of c))" and "n \<le> 8"
  shows "e < r_pos c + word_of_nat n \<longleftrightarrow> length (rest c) < n \<and> n \<noteq> 0 \<or> n = 0 \<and> e < r_pos c"
    and "0 < n \<Longrightarrow> n \<le> length (rest c) \<Longrightarrow> span_at n (r_data c) (r_pos c) = Some (take n (rest c))"
proof -
  have u: "unat (r_pos c + word_of_nat n) = unat (r_pos c) + n"
    using rest_bounds(3) [OF assms(1)] assms(3) by (simp add: unat_add_no_wrap unat_of_nat_64)
  then show "e < r_pos c + word_of_nat n \<longleftrightarrow> length (rest c) < n \<and> n \<noteq> 0 \<or> n = 0 \<and> e < r_pos c"
    using rest_bounds(1) [OF assms(1)] assms(2) by (cases "n = 0") (auto simp: word_less_nat_alt)
  assume n: "0 < n" "n \<le> length (rest c)"
  have b: "unat (r_pos c) + n \<le> length (r_data c)" "unat (r_pos c) + n \<le> unat e"
    using n rest_bounds(1,2) [OF assms(1)] assms(2) by auto
  then show "span_at n (r_data c) (r_pos c) = Some (take n (rest c))"
    using assms(2) by (simp add: span_at_def rest_def slice_def min_def)
qed

lemma scan_byte:
  assumes "rctx_ok c" and "e = snd (window (r_len c) (cursor_of c))" and "i \<le> length (rest c)"
  shows "e \<le> r_pos c + word_of_nat i \<longleftrightarrow> rest (step i c) = []"
    and "rest (step i c) = b # bs \<Longrightarrow> span_at 1 (r_data c) (r_pos c + word_of_nat i) = Some [b]"
proof -
  have s: "rctx_ok (step i c)" "rest (step i c) = drop i (rest c)" using step_ok [OF assms(1,3)] by auto
  have p: "unat (r_pos c + word_of_nat i) = unat (r_pos c) + i"
    using pos_step [OF assms(1,3)] by (simp add: step_def)
  show "e \<le> r_pos c + word_of_nat i \<longleftrightarrow> rest (step i c) = []"
    using rest_bounds(1) [OF assms(1)] assms(2,3) p s(2) by (auto simp: word_le_nat_alt)
  assume r: "rest (step i c) = b # bs"
  then show "span_at 1 (r_data c) (r_pos c + word_of_nat i) = Some [b]"
    using rest_room(2) [OF s(1) refl, of 1] by (simp add: step_def)
qed

section \<open>LEB128\<close>

text \<open>The scan at byte \<open>i\<close> against the reader's loop after \<open>i\<close> bytes.\<close>

definition scans :: "rctx \<Rightarrow> (u64 \<times> nat) rr \<Rightarrow> u64 rr \<times> rctx \<Rightarrow> bool" where
  "scans c out r = (case r of
      (Got v, c') \<Rightarrow> \<exists>n\<le>length (rest c). out = Got (v, n) \<and> c' = step n c
    | (Rej, _) \<Rightarrow> out = Rej | (UB, _) \<Rightarrow> False)"

lemma scans_simps:
  "scans c out (Got v, c') = (\<exists>n\<le>length (rest c). out = Got (v, n) \<and> c' = step n c)"
  "scans c out (fail msg c1) = (out = Rej)"
  by (auto simp: scans_def fail_def)

lemma uleb_scan_loop:
  assumes "rctx_ok c" and "e = snd (window (r_len c) (cursor_of c))"
  shows "i \<le> length (rest c) \<Longrightarrow>
    scans c (uleb_scan (r_data c) (r_pos c) e bits i shift result) (uleb_loop bits i shift result (step i c))"
proof (induction "(bits + 6) div 7 - i" arbitrary: i shift result)
  case 0
  then show ?case by (subst uleb_scan.simps, subst uleb_loop.simps) (simp add: scans_simps)
next
  case (Suc k)
  have lt: "i < (bits + 6) div 7" using Suc.hyps(2) by simp
  have ok: "rctx_ok (step i c)" using step_ok(1) [OF assms(1) Suc.prems] .
  show ?case
  proof (cases "rest (step i c)")
    case Nil
    then have "read_u8 (step i c) = fail ''u8: overrun'' (step i c)" using read_u8_out [OF ok] by simp
    then show ?thesis using lt scan_byte(1) [OF assms Suc.prems] Nil
      by (subst uleb_scan.simps, subst uleb_loop.simps) (simp add: fail_def scans_def)
  next
    case (Cons b bs)
    have rd: "read_u8 (step i c) = (Got b, step (Suc i) c)" using Cons read_u8_out [OF ok] by (simp add: step_step)
    have i1: "Suc i \<le> length (rest c)"
    proof -
      have "drop i (rest c) = b # bs" using Cons step_ok(2) [OF assms(1) Suc.prems] by simp
      then show ?thesis by (metis drop_all list.distinct(1) not_less_eq_eq)
    qed
    note IH = Suc.hyps(1) [OF _ i1]
    show ?thesis
      using lt rd i1 scan_byte [OF assms Suc.prems] Cons Suc.hyps(2) IH [of "shift + 7" "result OR push_bit shift (ucast (b AND 0x7f))"]
      by (subst uleb_scan.simps, subst uleb_loop.simps) (simp add: scans_simps Let_def)
  qed
qed

lemma sleb_scan_loop:
  assumes "rctx_ok c" and "e = snd (window (r_len c) (cursor_of c))"
  shows "i \<le> length (rest c) \<Longrightarrow>
    scans c (sleb_scan (r_data c) (r_pos c) e bits i shift result) (sleb_loop bits i shift result (step i c))"
proof (induction "(bits + 6) div 7 - i" arbitrary: i shift result)
  case 0
  then show ?case by (subst sleb_scan.simps, subst sleb_loop.simps) (simp add: scans_simps)
next
  case (Suc k)
  have lt: "i < (bits + 6) div 7" using Suc.hyps(2) by simp
  have ok: "rctx_ok (step i c)" using step_ok(1) [OF assms(1) Suc.prems] .
  show ?case
  proof (cases "rest (step i c)")
    case Nil
    then have "read_u8 (step i c) = fail ''u8: overrun'' (step i c)" using read_u8_out [OF ok] by simp
    then show ?thesis using lt scan_byte(1) [OF assms Suc.prems] Nil
      by (subst sleb_scan.simps, subst sleb_loop.simps) (simp add: fail_def scans_def)
  next
    case (Cons b bs)
    have rd: "read_u8 (step i c) = (Got b, step (Suc i) c)" using Cons read_u8_out [OF ok] by (simp add: step_step)
    have i1: "Suc i \<le> length (rest c)"
    proof -
      have "drop i (rest c) = b # bs" using Cons step_ok(2) [OF assms(1) Suc.prems] by simp
      then show ?thesis by (metis drop_all list.distinct(1) not_less_eq_eq)
    qed
    note IH = Suc.hyps(1) [OF _ i1]
    show ?thesis
      using lt rd i1 scan_byte [OF assms Suc.prems] Cons Suc.hyps(2) IH [of "shift + 7" "result OR push_bit shift (ucast (b AND 0x7f))"]
      by (subst sleb_scan.simps, subst sleb_loop.simps) (auto simp: scans_simps Let_def)
  qed
qed

lemma scans_decodes:
  assumes "rctx_ok c" and "decodes dec c r" and "scans c out r"
  shows "case dec (rest c) of Some (v, n) \<Rightarrow> n \<le> length (rest c) \<and> out = Got (v, n) | None \<Rightarrow> out = Rej"
proof (cases "dec (rest c)")
  case None
  then show ?thesis using assms(2,3) by (cases r) (auto simp: decodes_def rejected_def scans_def)
next
  case (Some vn)
  obtain v n where vn: "vn = (v, n)" by fastforce
  then have r: "n \<le> length (rest c)" "r = (Got v, step n c)" using Some assms(2) by (auto simp: decodes_def)
  then obtain n' where n': "n' \<le> length (rest c)" "out = Got (v, n')" "step n c = step n' c"
    using assms(3) by (auto simp: scans_simps)
  then have "n' = n" using pos_step [OF assms(1)] r(1) by (metis add_left_cancel)
  then show ?thesis using Some vn r(1) n'(2) by simp
qed

lemma leb_agrees:
  assumes "rctx_ok c" and "e = snd (window (r_len c) (cursor_of c))" and "0 < bits" and "bits \<le> 64"
  shows "case dec_uleb bits (rest c) of
      Some (v, n) \<Rightarrow> n \<le> length (rest c) \<and> decode_uleb128 (r_data c) (r_pos c) e bits = Got (v, n)
    | None \<Rightarrow> decode_uleb128 (r_data c) (r_pos c) e bits = Rej"
    and "case dec_sleb bits (rest c) of
      Some (v, n) \<Rightarrow> n \<le> length (rest c) \<and> decode_sleb128 (r_data c) (r_pos c) e bits = Got (v, n)
    | None \<Rightarrow> decode_sleb128 (r_data c) (r_pos c) e bits = Rej"
  using scans_decodes [OF assms(1) read_uleb128_decodes [OF assms(1,3)]]
    scans_decodes [OF assms(1) read_sleb128_decodes [OF assms(1,3,4)]]
    uleb_scan_loop [OF assms(1,2), of 0] sleb_scan_loop [OF assms(1,2), of 0]
  by (simp_all add: decode_uleb128_def decode_sleb128_def read_uleb128_def read_sleb128_def)

section \<open>Fixed widths\<close>

lemma load_of_bytes:
  "length bs = 2 \<Longrightarrow> load16 h want bs = of_bytes want bs"
  "length bs = 4 \<Longrightarrow> load32 h want bs = of_bytes want bs"
  "length bs = 8 \<Longrightarrow> load64 h want bs = of_bytes want bs"
  using load_swap [of bs h] unfolding load16_def load32_def load64_def Let_def by (cases h; cases want; simp)+

lemma wants_little: "wants_le p reg = little (order_of (p_endian p)) reg"
  by (simp add: wants_le_def little_def order_of_def split: prim_endian.splits)

lemma ucast_up_down: "ucast (ucast (w :: u32) :: u64) = w"
  by (rule bit_word_eqI) (simp add: bit_simps)

text \<open>What the machine reads of \<open>byte_count\<close> bytes, on the specification of the reader.\<close>

lemma read_value_spec:
  assumes "rctx_ok c" and "mirrors m c" and "p_encoding p = Fixed" and "prim_of p = Some q"
  shows "case dec_prim q (r_le c) (rest c) of
      None \<Rightarrow> length (rest c) < byte_count p
    | Some (v, n) \<Rightarrow> n = byte_count p \<and> n \<le> length (rest c) \<and> read_primitive_as_value d m p = Some (value_of (d_fl d) p v)"
proof -
  have m: "m_input m = r_data c" "m_pos m = r_pos c" "m_le m = r_le c" using assms(2) by (auto simp: mirrors_def)
  have sp: "\<And>n. 0 < n \<Longrightarrow> n \<le> 8 \<Longrightarrow> n \<le> length (rest c) \<Longrightarrow> span_at n (r_data c) (r_pos c) = Some (take n (rest c))"
    using rest_room(2) [OF assms(1) refl] by simp
  note defs = read_primitive_as_value_def read_primitive_def value_of_def fixed_def byte_count_def m prim_of_def Let_def
    load_of_bytes wants_little ucast_up_down
  have q: "q = the (prim_of p)" "prim_of p \<noteq> None" using assms(4) by auto
  show ?thesis
  proof (cases "byte_count p \<le> length (rest c)")
    case False
    then show ?thesis using assms(3) q unfolding q(1)
      by (cases "p_kind p"; cases "p_width p"; cases "p_signed p") (simp_all add: prim_of_def fixed_def byte_count_def Let_def Suc_le_eq)
  next
    case True
    have "0 < byte_count p" "byte_count p \<le> 8" by (simp_all add: byte_count_def split: prim_kind.splits prim_width.splits)
    then have "span_at (byte_count p) (r_data c) (r_pos c) = Some (take (byte_count p) (rest c))" using True by (rule sp)
    then show ?thesis using assms(3) q True unfolding q(1)
      by (cases "p_kind p"; cases "p_width p"; cases "p_signed p") (simp_all add: defs)
  qed
qed

section \<open>The agreement\<close>

lemma effective_end_room:
  assumes "rctx_ok c" and "n \<le> 8" and "0 < n"
  shows "snd (window (r_len c) (cursor_of c)) < r_pos c + word_of_nat n \<longleftrightarrow> length (rest c) < n"
  using rest_room(1) [OF assms(1) refl assms(2)] assms(3) by simp

text \<open>What the kont does when it accepts: the bytes are consumed and the accumulator carries the value.\<close>

definition delivers :: "machine \<Rightarrow> kid \<Rightarrow> val \<Rightarrow> nat \<Rightarrow> machine \<Rightarrow> bool" where
  "delivers m nxt v n m1 = (m_pos m1 = m_pos m + word_of_nat n \<and> m_k m1 = Static nxt # m_k m \<and>
     (\<exists>cap. m_result m1 = Some (CaptureV cap) \<and> nd_start (attr cap) = m_pos m \<and> nd_end (attr cap) = m_pos m1 \<and>
        lift_computed (nd_computed (attr cap)) = Some v) \<and>
     m_input m1 = m_input m \<and> m_len m1 = m_len m \<and> m_le m1 = m_le m \<and> m_env m1 = m_env m \<and> m_frames m1 = m_frames m \<and>
     m_idepth m1 = m_idepth m \<and> m_starts m1 = m_starts m \<and> m_ends m1 = m_ends m)"

lemma delivers_mirrors: "delivers m nxt v n m1 \<Longrightarrow> mirrors m c \<Longrightarrow> mirrors m1 (step n c)"
  by (auto simp: delivers_def mirrors_def step_def cursor_of_def)

lemma delivers_carrier:
  assumes "\<And>a. nd_start (f a) = m_pos m" and "\<And>a. nd_end (f a) = m_pos m + word_of_nat n"
    and "\<And>a. lift_computed (nd_computed (f a)) = Some v"
  shows "\<exists>m1. pushing [Static nxt] (carrier f (m\<lparr>m_pos := m_pos m + word_of_nat n\<rparr>)) = Some m1 \<and> delivers m nxt v n m1"
  using assms by (simp add: pushing_def carrier_def make_free_def push_kont_def set_res_def delivers_def on_attr_def)

text \<open>The kont against the specification of the reader.\<close>

lemma match_primitive_spec:
  assumes "rctx_ok c" and "mirrors m c" and "prim_of p = Some q"
  shows "case dec_prim q (r_le c) (rest c) of
      Some (v, n) \<Rightarrow> \<exists>m1. MatchPrimitiveNode_invoke d p nxt m = Some m1 \<and> delivers m nxt (value_of (d_fl d) p v) n m1
    | None \<Rightarrow> \<exists>msg. MatchPrimitiveNode_invoke d p nxt m = failing msg m"
proof -
  define e where "e = snd (window (r_len c) (cursor_of c))"
  have m: "m_input m = r_data c" "m_pos m = r_pos c" "m_le m = r_le c" using assms(2) by (auto simp: mirrors_def)
  have ee: "m_effective_end m = Some e" using mirrors_end [OF assms(2)] by (simp add: e_def)
  have lift: "lift_computed (Some (lower_computed (Some v))) = Some v" if "\<forall>n. v \<noteq> CaptureV n" for v
    using that by (cases v) (simp_all add: lift_computed_def lower_computed_def)
  have val: "\<forall>n. value_of (d_fl d) p v \<noteq> CaptureV n" for v
    by (simp add: value_of_def split: prim_kind.splits)
  show ?thesis
  proof (cases "p_encoding p = Fixed")
    case True
    note spec = read_value_spec [OF assms(1,2) True assms(3), of d]
    have nb: "byte_count p \<le> 8" "0 < byte_count p"
      by (simp_all add: byte_count_def split: prim_kind.splits prim_width.splits)
    note room = effective_end_room [OF assms(1) nb]
    show ?thesis
    proof (cases "dec_prim q (r_le c) (rest c)")
      case None
      then show ?thesis using spec room True ee m by (auto simp: MatchPrimitiveNode_invoke_def e_def)
    next
      case (Some vn)
      obtain v n where vn: "vn = (v, n)" by fastforce
      then have s: "n = byte_count p" "\<not> e < m_pos m + word_of_nat (byte_count p)"
        "read_primitive_as_value d m p = Some (value_of (d_fl d) p v)"
        using Some spec room m by (auto simp: e_def)
      show ?thesis using Some vn s True ee
        delivers_carrier [where n = n and m = m and nxt = nxt and v = "value_of (d_fl d) p v" and
          f = "\<lambda>a. a\<lparr>nd_start := m_pos m, nd_end := m_pos m + word_of_nat (byte_count p),
                  nd_type := primitive_capture_type p (m_le m),
                  nd_computed := Some (lower_computed (Some (value_of (d_fl d) p v)))\<rparr>"] lift [OF val]
        by (simp add: MatchPrimitiveNode_invoke_def Let_def)
    qed
  next
    case False
    define bits :: nat where "bits = (if p_width p = W64 then 64 else 32)"
    have b: "0 < bits" "bits \<le> 64" by (auto simp: bits_def)
    note leb = leb_agrees [OF assms(1) e_def b]
    have q: "dec_prim q (r_le c) = (if p_encoding p = Uleb then dec_uleb bits else dec_sleb bits)"
      using False assms(3) by (cases "p_encoding p") (auto simp: prim_of_def bits_def)
    let ?out = "if p_encoding p = Uleb then decode_uleb128 (m_input m) (m_pos m) e bits
      else decode_sleb128 (m_input m) (m_pos m) e bits"
    show ?thesis
    proof (cases "dec_prim q (r_le c) (rest c)")
      case None
      then have "?out = Rej" using leb q m by (auto split: if_splits)
      then show ?thesis using None False ee by (auto simp: MatchPrimitiveNode_invoke_def bits_def [symmetric] Let_def)
    next
      case (Some vn)
      obtain v n where vn: "vn = (v, n)" by fastforce
      then have o: "?out = Got (v, n)" using Some leb q m by (auto split: if_splits)
      have "lift_computed (Some (lower_computed (Some (IntV v)))) = Some (IntV v)" using lift by simp
      then show ?thesis using Some vn o False ee
        delivers_carrier [where n = n and m = m and nxt = nxt and v = "IntV v" and
          f = "\<lambda>a. a\<lparr>nd_start := m_pos m, nd_end := m_pos m + word_of_nat n,
                  nd_type := CComputed, nd_enc := (if p_encoding p = Uleb then EUleb else ESleb),
                  nd_computed := Some (lower_computed (Some (IntV v)))\<rparr>"]
        by (simp add: MatchPrimitiveNode_invoke_def bits_def [symmetric] Let_def value_of_def)
    qed
  qed
qed

text \<open>C5: The interpreter and the generated C read the same language of primitives. In states that mirror
  each other (same input, position, endian register and windows), for every primitive the C backend has a
  reader for, fixed width or LEB128, the \<open>MatchPrimitive\<close> kont accepts exactly what the reader accepts, its
  accumulator carries the value the reader returns, both stop at the same position, and the states still
  mirror each other; where the reader rejects, the machine fails.\<close>

theorem engines_agree:
  assumes "rctx_ok c" and "mirrors m c" and "prim_of p = Some q"
  shows "case read_prim q c of
      (Got v, c') \<Rightarrow> \<exists>m1. MatchPrimitiveNode_invoke d p nxt m = Some m1 \<and> m_pos m1 = r_pos c' \<and> mirrors m1 c' \<and>
        m_k m1 = Static nxt # m_k m \<and> m_frames m1 = m_frames m \<and>
        (\<exists>cap. m_result m1 = Some (CaptureV cap) \<and> lift_computed (nd_computed (attr cap)) = Some (value_of (d_fl d) p v) \<and>
          nd_start (attr cap) = r_pos c \<and> nd_end (attr cap) = r_pos c')
    | (Rej, _) \<Rightarrow> \<exists>msg. MatchPrimitiveNode_invoke d p nxt m = Some (m_fail msg m)
    | (UB, _) \<Rightarrow> False"
proof (cases "dec_prim q (r_le c) (rest c)")
  case None
  then show ?thesis using read_prim_decodes [OF assms(1), of q] match_primitive_spec [OF assms, of d nxt]
    by (auto simp: decodes_def rejected_def failing_def split: rr.splits)
next
  case (Some vn)
  obtain v n where vn: "vn = (v, n)" by fastforce
  then have r: "read_prim q c = (Got v, step n c)"
    using read_prim_decodes [OF assms(1), of q] Some by (simp add: decodes_def)
  obtain m1 where m1: "MatchPrimitiveNode_invoke d p nxt m = Some m1" "delivers m nxt (value_of (d_fl d) p v) n m1"
    using match_primitive_spec [OF assms, of d nxt] Some vn by auto
  have "mirrors m1 (step n c)" using delivers_mirrors [OF m1(2) assms(2)] .
  moreover have "m_pos m1 = r_pos (step n c)" using calculation by (simp add: mirrors_def)
  moreover have "m_pos m = r_pos c" using assms(2) by (simp add: mirrors_def)
  ultimately show ?thesis using r m1 by (auto simp: delivers_def)
qed

text \<open>A signed LEB128 of two bytes inside a window.\<close>

definition sleb_prim :: prim_info where
  "sleb_prim = \<lparr>p_kind = KInteger, p_width = W32, p_signed = True, p_endian = PNative, p_encoding = Sleb\<rparr>"

definition plain_ctx :: "bytes \<Rightarrow> bool \<Rightarrow> rctx" where
  "plain_ctx data le = ctx_init_a data (word_of_nat (length data)) 0 (\<lambda>_. Libc (\<lambda>_. True) 0 0) True"

lemma plain_ctx_ok: "length data < 2 ^ 63 \<Longrightarrow> rctx_ok (plain_ctx data le)"
  by (simp add: plain_ctx_def rctx_ok_def stacks_ok_def ctx_init_a_def unat_of_nat_64)

lemma plain_mirrors: "mirrors (start_machine k data (word_of_nat (length data)) False fresh_machine) (plain_ctx data le)"
  by (simp add: mirrors_def start_machine_def fresh_machine_def plain_ctx_def ctx_init_a_def cursor_of_def)

theorem engines_agree_witness:
  "fst (read_prim PSLEB32 (plain_ctx [0xff, 0x7e, 9] True)) = Got (- 129) \<and>
   (\<forall>d. \<exists>m1 cap. MatchPrimitiveNode_invoke d sleb_prim 2 (start_machine 0 [0xff, 0x7e, 9] 3 False fresh_machine) = Some m1 \<and>
     m_result m1 = Some (CaptureV cap) \<and> lift_computed (nd_computed (attr cap)) = Some (IntV (- 129)))"
proof -
  have c: "rctx_ok (plain_ctx [0xff, 0x7e, 9] True)" by (rule plain_ctx_ok) simp
  obtain c' where r: "read_prim PSLEB32 (plain_ctx [0xff, 0x7e, 9] True) = (Got (- 129), c')"
  proof -
    have "fst (read_prim PSLEB32 (plain_ctx [0xff, 0x7e, 9] True)) = Got (- 129)" by code_simp
    then show ?thesis using that by (metis prod.collapse)
  qed
  have p: "prim_of sleb_prim = Some PSLEB32" by (simp add: prim_of_def sleb_prim_def)
  have v: "value_of fl sleb_prim (- 129) = IntV (- 129)" for fl by (simp add: value_of_def sleb_prim_def)
  show ?thesis
    using engines_agree [OF c plain_mirrors [of 0 "[0xff, 0x7e, 9]", simplified] p, of _ 2]
    unfolding r prod.case rr.case v fst_conv by blast
qed

end
