(* ===== verification/CekBacktrack.thy ===== *)
theory CekBacktrack
  imports CekSound
begin

text \<open>
  Backtracking of the CEK machine. A savepoint records sizes - of the kont stack, of the window stack, of
  the open scopes and the fields of the innermost - and \<open>OnFailKont\<close> cuts the machine back to them. That
  this puts back the state of the choice rests on the runs between: as long as the savepoint stays and no
  stack falls below its recorded size, what lies under those sizes is never written. \<open>untouched\<close> is that
  invariant, and every turn keeps it.
\<close>

section \<open>The document under a mark\<close>

text \<open>A scope up to the marks that say how the document is to be rewritten after an edit, which parsing sets
  on open scopes and backtracking leaves.\<close>

definition core :: "attrs \<Rightarrow> attrs" where
  "core a = a\<lparr>nd_derives := DNothing, nd_determines := None, nd_bits_container := False, nd_msb_first := False\<rparr>"

definition look :: "builder \<Rightarrow> (attrs \<times> node list) list \<times> node list" where
  "look b = (map (\<lambda>n. (core (attr n), kids n)) (b_stack b), b_roots b)"

definition cut :: "nat \<Rightarrow> builder \<Rightarrow> builder" where
  "cut d b = b\<lparr>b_stack := drop (length (b_stack b) - d) (b_stack b)\<rparr>"

text \<open>A builder that has at least what the mark recorded.\<close>

fun top_kids :: "node list \<Rightarrow> node list \<Rightarrow> node list" where
  "top_kids [] roots = roots"
| "top_kids (n # ns) roots = kids n"

definition reaches :: "bmark \<Rightarrow> builder \<Rightarrow> bool" where
  "reaches mk b = (mk_depth mk \<le> length (b_stack b) \<and>
     mk_kids mk \<le> length (top_kids (drop (length (b_stack b) - mk_depth mk) (b_stack b)) (b_roots b)))"

definition same_under :: "bmark \<Rightarrow> builder \<Rightarrow> builder \<Rightarrow> bool" where
  "same_under mk b b1 = (look (b_restore mk b1) = look (b_restore mk b))"

lemma current_top: "current b = top_kids (b_stack b) (b_roots b)"
  by (cases "b_stack b") (simp_all add: current_def)

lemma restore_cut: "reaches mk b \<Longrightarrow> b_restore mk b = on_current (take (mk_kids mk)) (cut (mk_depth mk) b)"
  by (auto simp: b_restore_def reaches_def cut_def on_current_def current_top Let_def split: list.splits)

lemma cut_whole [simp]: "cut (length (b_stack b)) b = b"
  by (simp add: cut_def)

lemma reaches_mark: "reaches (b_mark b) b"
  by (simp add: reaches_def b_mark_def current_top)

lemma restore_mark: "b_restore (b_mark b) b = b"
  by (auto simp: restore_cut reaches_mark) (simp add: b_mark_def on_current_def current_def split: list.splits)

text \<open>What is left after a cut to a mark.\<close>

fun shown :: "nat \<Rightarrow> node list \<Rightarrow> node list \<Rightarrow> (attrs \<times> node list) list \<times> node list" where
  "shown k [] roots = ([], take k roots)"
| "shown k (n # ns) roots = ((core (attr n), take k (kids n)) # map (\<lambda>n. (core (attr n), kids n)) ns, roots)"

lemma look_restore:
  "reaches mk b \<Longrightarrow> look (b_restore mk b) =
     shown (mk_kids mk) (drop (length (b_stack b) - mk_depth mk) (b_stack b)) (b_roots b)"
  by (simp add: restore_cut cut_def on_current_def look_def split: list.splits)

lemma shown_extend:
  "k \<le> length (kids n) \<Longrightarrow> kids n1 = kids n @ xs \<Longrightarrow> core (attr n1) = core (attr n) \<Longrightarrow>
     shown k (n1 # ns) roots = shown k (n # ns) roots"
  by simp

text \<open>The operations of the builder leave what is under the mark.\<close>

lemma under_same: "b_stack b1 = b_stack b \<Longrightarrow> b_roots b1 = b_roots b \<Longrightarrow> same_under mk b b1"
  by (simp add: same_under_def b_restore_def look_def on_current_def current_def Let_def split: list.splits)

lemma reaches_same: "b_stack b1 = b_stack b \<Longrightarrow> b_roots b1 = b_roots b \<Longrightarrow> reaches mk b1 = reaches mk b"
  by (simp add: reaches_def)

lemma under_open:
  assumes "b_stack b1 = n # b_stack b" and "b_roots b1 = b_roots b" and "reaches mk b"
  shows "same_under mk b b1" and "reaches mk b1"
proof -
  have l: "mk_depth mk \<le> length (b_stack b)" using assms(3) by (simp add: reaches_def)
  then have dr: "drop (length (b_stack b1) - mk_depth mk) (b_stack b1) = drop (length (b_stack b) - mk_depth mk) (b_stack b)"
    using assms(1) by (simp add: Suc_diff_le)
  show r: "reaches mk b1" using assms l dr by (simp add: reaches_def)
  show "same_under mk b b1" using look_restore [OF assms(3)] look_restore [OF r] dr assms(2) by (simp add: same_under_def)
qed

lemma under_current:
  assumes "reaches mk b" and "\<And>ns. \<exists>xs. f ns = ns @ xs"
  shows "same_under mk b (on_current f b)" and "reaches mk (on_current f b)"
proof -
  obtain xs where r: "f (b_roots b) = b_roots b @ xs" using assms(2) by blast
  have t: "n \<le> length ns \<Longrightarrow> take n (f ns) = take n ns \<and> n \<le> length (f ns)" for n ns
    using assms(2) [of ns] by auto
  have "reaches mk (on_current f b) \<and> same_under mk b (on_current f b)"
  proof (cases "b_stack b")
    case Nil
    then have k: "mk_depth mk = 0" "mk_kids mk \<le> length (b_roots b)"
      using assms(1) by (simp_all add: reaches_def)
    have s1: "b_stack (on_current f b) = []" "b_roots (on_current f b) = f (b_roots b)"
      using Nil by (simp_all add: on_current_def)
    have r1: "reaches mk (on_current f b)" using s1 k t by (simp add: reaches_def)
    then show ?thesis using look_restore [OF r1] look_restore [OF assms(1)] s1 Nil k t by (simp add: same_under_def)
  next
    case (Cons n ns)
    have l: "mk_depth mk \<le> Suc (length ns)" using assms(1) Cons by (simp add: reaches_def)
    let ?b1 = "on_current f b"
    have s1: "b_stack ?b1 = Node (attr n) (f (kids n)) # ns" "b_roots ?b1 = b_roots b" using Cons by (simp_all add: on_current_def)
    show ?thesis
    proof (cases "mk_depth mk = Suc (length ns)")
      case True
      have k: "mk_kids mk \<le> length (kids n)" using assms(1) Cons True by (simp add: reaches_def)
      then have r1: "reaches mk ?b1" using s1 True t by (simp add: reaches_def)
      then show ?thesis using look_restore [OF r1] look_restore [OF assms(1)] s1 Cons True t [OF k] by (simp add: same_under_def)
    next
      case False
      then have "drop (Suc (length ns) - mk_depth mk) (x # ns) = drop (length ns - mk_depth mk) ns" for x :: node
        using l by (simp add: Suc_diff_le)
      then have r1: "reaches mk ?b1" using assms(1) s1 Cons by (simp add: reaches_def)
      then show ?thesis using look_restore [OF r1] look_restore [OF assms(1)] s1 Cons
          \<open>\<And>x. drop (Suc (length ns) - mk_depth mk) (x # ns) = drop (length ns - mk_depth mk) ns\<close>
        by (simp add: same_under_def)
    qed
  qed
  then show "same_under mk b (on_current f b)" "reaches mk (on_current f b)" by auto
qed

lemma under_trans: "same_under mk b b1 \<Longrightarrow> same_under mk b1 b2 \<Longrightarrow> same_under mk b b2"
  by (simp add: same_under_def)

lemma reaches_pop:
  assumes "b_stack b = n # ns" and "reaches mk b" and "mk_depth mk \<le> length ns"
  shows "reaches mk (b\<lparr>b_stack := ns\<rparr>)" and "same_under mk b (b\<lparr>b_stack := ns\<rparr>)"
proof -
  have dr: "drop (Suc (length ns) - mk_depth mk) (n # ns) = drop (length ns - mk_depth mk) ns"
    using assms(3) by (simp add: Suc_diff_le)
  then show r: "reaches mk (b\<lparr>b_stack := ns\<rparr>)"
    using assms by (simp add: reaches_def)
  show "same_under mk b (b\<lparr>b_stack := ns\<rparr>)"
    using look_restore [OF r] look_restore [OF assms(2)] assms(1) dr by (simp add: same_under_def)
qed

lemma attach_stack: "length (b_stack (attach n b)) = length (b_stack b)"
  by (simp add: attach_def on_current_def split: list.splits)

text \<open>Closing a scope: below the mark's depth it is what the run must not do.\<close>

lemma under_close:
  assumes "reaches mk b" and "mk_depth mk \<le> length (b_stack (close_node p b))"
  shows "reaches mk (close_node p b)" and "same_under mk b (close_node p b)"
proof -
  have "reaches mk (close_node p b) \<and> same_under mk b (close_node p b)"
  proof (cases "b_stack b")
    case Nil
    then show ?thesis using assms(1) by (simp add: close_node_def same_under_def)
  next
    case (Cons n ns)
    let ?b1 = "b\<lparr>b_stack := ns\<rparr>" and ?n = "on_attr (\<lambda>a. a\<lparr>nd_end := p\<rparr>) n"
    have c: "close_node p b = attach ?n ?b1" using Cons by (simp add: close_node_def)
    then have "mk_depth mk \<le> length ns" using assms(2) by (simp add: attach_stack)
    note pop = reaches_pop [OF Cons assms(1) this]
    have "\<exists>xs. ms @ [?n] = ms @ xs" for ms by blast
    note at = under_current [OF pop(1), of "\<lambda>ms. ms @ [?n]", OF this]
    show ?thesis using at under_trans [OF pop(2) at(1)] c by (simp add: attach_def)
  qed
  then show "reaches mk (close_node p b)" "same_under mk b (close_node p b)" by auto
qed

lemma under_cut:
  assumes "reaches mk b" and "mk_depth mk \<le> j"
  shows "reaches mk (cut j b)" and "same_under mk b (cut j b)"
proof -
  have "length (b_stack b) - (length (b_stack b) - j + mk_depth mk) + (length (b_stack b) - j) = length (b_stack b) - mk_depth mk"
    using assms by (auto simp: reaches_def)
  then have dr: "drop (length (b_stack (cut j b)) - mk_depth mk) (b_stack (cut j b)) =
      drop (length (b_stack b) - mk_depth mk) (b_stack b)"
    by (simp add: cut_def)
  show r: "reaches mk (cut j b)" using assms dr unfolding reaches_def by (simp add: cut_def) arith
  show "same_under mk b (cut j b)"
    using look_restore [OF r] look_restore [OF assms(1)] dr by (simp add: same_under_def cut_def)
qed

text \<open>A cut of the innermost scope that leaves the mark reached.\<close>

lemma under_take:
  assumes "reaches mk b" and "reaches mk (on_current (take k) b)"
  shows "same_under mk b (on_current (take k) b)"
proof (cases "b_stack b")
  case Nil
  then have s: "b_stack (on_current (take k) b) = []" "b_roots (on_current (take k) b) = take k (b_roots b)"
    by (simp_all add: on_current_def)
  then have "mk_kids mk \<le> k \<or> length (b_roots b) \<le> k" using assms(2) by (auto simp: reaches_def)
  then show ?thesis using look_restore [OF assms(1)] look_restore [OF assms(2)] s Nil assms(2)
    by (auto simp: same_under_def reaches_def)
next
  case (Cons n ns)
  then have s: "b_stack (on_current (take k) b) = Node (attr n) (take k (kids n)) # ns"
    "b_roots (on_current (take k) b) = b_roots b" by (simp_all add: on_current_def)
  have l: "mk_depth mk \<le> Suc (length ns)" using assms(1) Cons by (simp add: reaches_def)
  show ?thesis
  proof (cases "mk_depth mk = Suc (length ns)")
    case True
    then have "mk_kids mk \<le> k" "mk_kids mk \<le> length (kids n)" using assms(2) s by (auto simp: reaches_def)
    then show ?thesis using look_restore [OF assms(1)] look_restore [OF assms(2)] s Cons True
      by (simp add: same_under_def min_def)
  next
    case False
    then have "drop (Suc (length ns) - mk_depth mk) (x # ns) = drop (length ns - mk_depth mk) ns" for x :: node
      using l by (simp add: Suc_diff_le)
    then show ?thesis using look_restore [OF assms(1)] look_restore [OF assms(2)] s Cons by (simp add: same_under_def)
  qed
qed

lemma under_restore:
  assumes "reaches mk b" and "reaches mk (b_restore mk1 b)"
  shows "same_under mk b (b_restore mk1 b)"
proof -
  define b1 where "b1 = (if mk_depth mk1 < length (b_stack b) then cut (mk_depth mk1) b else b)"
  have r: "b_restore mk1 b = (if mk_kids mk1 < length (current b1) then on_current (take (mk_kids mk1)) b1 else b1)"
    by (simp add: b_restore_def b1_def cut_def Let_def)
  have "length (b_stack (b_restore mk1 b)) = length (b_stack b1)"
    unfolding r by (simp add: on_current_def split: list.splits)
  then have d: "mk_depth mk \<le> length (b_stack b1)" using assms(2) by (simp add: reaches_def)
  have b1: "reaches mk b1 \<and> same_under mk b b1"
  proof (cases "mk_depth mk1 < length (b_stack b)")
    case True
    then have "mk_depth mk \<le> mk_depth mk1" using d by (simp add: b1_def cut_def)
    then show ?thesis using under_cut [OF assms(1)] True by (simp add: b1_def)
  qed (use assms(1) in \<open>simp add: b1_def same_under_def\<close>)
  show ?thesis
  proof (cases "mk_kids mk1 < length (current b1)")
    case True
    then show ?thesis using b1 under_take [of mk b1 "mk_kids mk1"] assms(2) under_trans r by auto
  qed (use b1 r in simp)
qed

section \<open>One turn\<close>

text \<open>What is under \<open>n\<close> konts, \<open>i\<close> windows and the mark \<open>mk\<close> is not written by an act that leaves the
  machine above them.\<close>

definition kept_windows :: "nat \<Rightarrow> machine \<Rightarrow> machine \<Rightarrow> bool" where
  "kept_windows i m m1 = (i \<le> m_idepth m \<longrightarrow> i \<le> m_idepth m1 \<longrightarrow> i \<le> length (m_starts m) \<longrightarrow> i \<le> length (m_ends m) \<longrightarrow>
     i \<le> length (m_starts m1) \<and> i \<le> length (m_ends m1) \<and> take i (m_starts m1) = take i (m_starts m) \<and> take i (m_ends m1) = take i (m_ends m))"

definition kept_tree :: "bmark \<Rightarrow> machine \<Rightarrow> machine \<Rightarrow> bool" where
  "kept_tree mk m m1 = (reaches mk (m_builder m) \<longrightarrow> reaches mk (m_builder m1) \<longrightarrow>
     same_under mk (m_builder m) (m_builder m1))"

definition kept_konts :: "nat \<Rightarrow> machine \<Rightarrow> machine \<Rightarrow> bool" where
  "kept_konts n m m1 = (n \<le> length (m_k m) \<longrightarrow> n < length (m_k m1) \<longrightarrow>
     drop (length (m_k m1) - n) (m_k m1) = drop (length (m_k m) - n) (m_k m))"

definition keeps_under :: "nat \<Rightarrow> nat \<Rightarrow> bmark \<Rightarrow> machine \<Rightarrow> machine option \<Rightarrow> bool" where
  "keeps_under n i mk m r = (case r of None \<Rightarrow> True | Some m1 \<Rightarrow>
     kept_konts n m m1 \<and> kept_windows i m m1 \<and> kept_tree mk m m1)"

lemma kept_windows_same [simp]:
  "m_starts m1 = m_starts m \<Longrightarrow> m_ends m1 = m_ends m \<Longrightarrow> kept_windows i m m1"
  by (simp add: kept_windows_def)

lemma kept_tree_same [simp]:
  "b_stack (m_builder m1) = b_stack (m_builder m) \<Longrightarrow> b_roots (m_builder m1) = b_roots (m_builder m) \<Longrightarrow> kept_tree mk m m1"
  by (simp add: kept_tree_def under_same)

lemma kept_konts_app: "m_k m1 = J @ m_k m \<Longrightarrow> kept_konts n m m1"
  by (simp add: kept_konts_def)

lemma keeps_None [simp]: "keeps_under n i mk m None"
  by (simp add: keeps_under_def)

lemma keeps_Some: "m_k m1 = J @ m_k m \<Longrightarrow> kept_windows i m m1 \<Longrightarrow> kept_tree mk m m1 \<Longrightarrow> keeps_under n i mk m (Some m1)"
  by (simp add: keeps_under_def kept_konts_app)

lemma keeps_pushing [simp]:
  "m_k m1 = m_k m \<Longrightarrow> kept_windows i m m1 \<Longrightarrow> kept_tree mk m m1 \<Longrightarrow> keeps_under n i mk m (pushing ks m1)"
  unfolding pushing_def by (rule keeps_Some [where J = "rev ks"]) (simp_all add: fold_push kept_windows_def kept_tree_def)

lemma keeps_ac [simp]:
  "m_k m1 = m_k m \<Longrightarrow> kept_windows i m m1 \<Longrightarrow> kept_tree mk m m1 \<Longrightarrow> keeps_under n i mk m (ac v m1)"
  unfolding ac_def by (rule keeps_Some [where J = "[]"]) (simp_all add: set_res_def kept_windows_def kept_tree_def)

lemma m_fail_parts:
  "\<exists>J. m_k (m_fail msg m) = J @ m_k m" "m_starts (m_fail msg m) = m_starts m" "m_ends (m_fail msg m) = m_ends m"
  "m_idepth (m_fail msg m) = m_idepth m" "m_builder (m_fail msg m) = m_builder m"
  by (auto simp: m_fail_def Let_def push_kont_def split: option.splits)

lemma keeps_failing [simp]:
  assumes "m_k m1 = m_k m" and "kept_windows i m m1" and "kept_tree mk m m1"
  shows "keeps_under n i mk m (failing msg m1)"
proof -
  obtain J where "m_k (m_fail msg m1) = J @ m_k m" using m_fail_parts(1) [of msg m1] assms(1) by auto
  then show ?thesis using assms(2,3) unfolding failing_def
    by (intro keeps_Some) (simp_all add: kept_windows_def kept_tree_def m_fail_parts)
qed

lemma carrier_under [simp]:
  "m_starts (carrier f m) = m_starts m" "m_ends (carrier f m) = m_ends m" "m_idepth (carrier f m) = m_idepth m"
  "b_stack (m_builder (carrier f m)) = b_stack (m_builder m)" "b_roots (m_builder (carrier f m)) = b_roots (m_builder m)"
  by (simp_all add: carrier_def make_free_def set_res_def)

lemma set_res_under [simp]:
  "m_starts (set_res v m) = m_starts m" "m_ends (set_res v m) = m_ends m" "m_idepth (set_res v m) = m_idepth m"
  "m_builder (set_res v m) = m_builder m" "m_k (set_res v m) = m_k m"
  by (simp_all add: set_res_def)

lemma keeps_result [simp]: "keeps_under n i mk m (Some (set_res v m))" "keeps_under n i mk m (Some (carrier f m))"
    "keeps_under n i mk m (Some m)"
  by (rule keeps_Some [where J = "[]"]; simp)+

lemma keeps_slots [simp]: "keeps_under n i mk m (Some (m\<lparr>m_slots := s\<rparr>))"
  by (rule keeps_Some [where J = "[]"]) simp_all

lemma keeps_under_ac_int [simp]: "keeps_under n i mk m (ac_int x m)"
  by (simp add: ac_int_def split: option.splits)

lemma push_args_under: "\<exists>J. push_args b i as m = m\<lparr>m_k := J @ m_k m\<rparr>"
proof (induction b i as m rule: push_args.induct)
  case (2 b i a as m)
  then obtain J where "push_args b (Suc i) as m = m\<lparr>m_k := J @ m_k m\<rparr>" by auto
  then show ?case by (intro exI [of _ "Static a # Dyn (ArgStore b i) # J"]) (simp add: push_kont_def)
qed (auto intro: exI [of _ "[]"])

lemma keeps_call [simp]: "keeps_under n i mk m (Some (push_args b j as (push_kont k (m\<lparr>m_slots := s\<rparr>))))"
proof -
  let ?m = "push_kont k (m\<lparr>m_slots := s\<rparr>)"
  obtain J where "push_args b j as ?m = ?m\<lparr>m_k := J @ m_k ?m\<rparr>" using push_args_under by blast
  then show ?thesis by (intro keeps_Some [where J = "J @ [k]"]) (simp_all add: push_kont_def)
qed

lemma keeps_call_0 [simp]: "keeps_under n i mk m (Some (push_kont k (m\<lparr>m_slots := s\<rparr>)))"
  by (rule keeps_Some [where J = "[k]"]) (simp_all add: push_kont_def)

lemma expr_keeps_under: "keeps_under n i mk m (invoke_expr fl e m)"
  by (cases e) (simp_all add: invoke_expr_def leaf_defs operator_defs new_slots_def split: option.splits)

section \<open>Consumers\<close>

lemma kept_tree_open:
  "b_stack (m_builder m1) = nd # b_stack (m_builder m) \<Longrightarrow> b_roots (m_builder m1) = b_roots (m_builder m) \<Longrightarrow> kept_tree mk m m1"
  by (simp add: kept_tree_def under_open)

lemma begin_opens:
  "\<exists>nd. b_stack (begin_struct name p b) = nd # b_stack b" "b_roots (begin_struct name p b) = b_roots b"
  "\<exists>nd. b_stack (begin_variant name p tag b) = nd # b_stack b" "b_roots (begin_variant name p tag b) = b_roots b"
  "\<exists>nd. b_stack (begin_array name p b) = nd # b_stack b" "b_roots (begin_array name p b) = b_roots b"
  by (simp_all add: begin_struct_def begin_variant_def begin_array_def open_node_def take_pending_tag_def
      on_open_scope_def Let_def split: option.splits)

lemma frames_under [simp]:
  "m_k (push_savepoint t m) = m_k m" "m_starts (push_savepoint t m) = m_starts m" "m_ends (push_savepoint t m) = m_ends m"
  "m_builder (push_savepoint t m) = m_builder m" "m_idepth (push_savepoint t m) = m_idepth m"
  "m_k (push_resync_savepoint r m) = m_k m" "m_starts (push_resync_savepoint r m) = m_starts m"
  "m_ends (push_resync_savepoint r m) = m_ends m" "m_builder (push_resync_savepoint r m) = m_builder m"
  "m_idepth (push_resync_savepoint r m) = m_idepth m"
  "m_k (push_loop_frame l e m) = m_k m" "m_starts (push_loop_frame l e m) = m_starts m"
  "m_ends (push_loop_frame l e m) = m_ends m" "m_builder (push_loop_frame l e m) = m_builder m"
  "m_idepth (push_loop_frame l e m) = m_idepth m"
  by (simp_all add: push_savepoint_def push_loop_frame_def push_resync_savepoint_def split: option.splits)

lemma on_builder_under [simp]:
  "m_k (on_builder f m) = m_k m" "m_starts (on_builder f m) = m_starts m" "m_ends (on_builder f m) = m_ends m"
  "m_idepth (on_builder f m) = m_idepth m" "m_builder (on_builder f m) = f (m_builder m)"
  by (simp_all add: on_builder_def)

lemma begin_array_under [simp]: "m_builder m1 = begin_array name p (m_builder m) \<Longrightarrow> kept_tree mk m m1"
  using begin_opens(5,6) [of name p "m_builder m"] kept_tree_open by metis

lemma set_interval_under:
  "keeps_under n i mk m (Option.bind (set_interval s e m) (pushing ks))"
proof -
  have "kept_windows i m m1 \<and> m_k m1 = m_k m \<and> m_builder m1 = m_builder m" if "set_interval s e m = Some m1" for m1
    using that by (auto simp: set_interval_def kept_windows_def split: if_splits)
  then show ?thesis by (cases "set_interval s e m") simp_all
qed

lemma dyn_keeps_under: "keeps_under n i mk m (invoke_dyn d x m)"
proof (cases x)
  case (ApplyBin op s)
  then show ?thesis
    by (cases op) (auto simp: invoke_dyn_def apply_defs split: option.splits val.splits)
next
  case (ApplyUn op)
  then show ?thesis
    by (cases op) (auto simp: invoke_dyn_def apply_defs split: option.splits val.splits)
next
  case (CallApply f buf n)
  have "keeps_under n i mk m (run_builtin fl b buf m)" for fl b n
    by (cases b) (auto simp: apply_defs split: option.splits val.splits)
  then show ?thesis using CallApply by (auto simp: invoke_dyn_def CallApplyKont_invoke_def split: option.splits)
next
  case (PushIntervalApply r nx)
  then show ?thesis using set_interval_under
    by (auto simp: invoke_dyn_def consumer_defs Let_def split: option.splits val.splits)
next
  case (SwitchSelect cs df rj)
  then show ?thesis
    by (auto simp: invoke_dyn_def consumer_defs set_pending_variant_tag_def split: option.splits val.splits rr.splits)
qed (auto simp: invoke_dyn_def apply_defs consumer_defs set_slot_def Let_def
    split: option.splits val.splits rr.splits list.splits frame.splits)

section \<open>The spine\<close>

lemma kept_tree_close [simp]: "m_builder m1 = close_node p (m_builder m) \<Longrightarrow> kept_tree mk m m1"
  using under_close(2) by (auto simp: kept_tree_def reaches_def)

lemma begin_under [simp]:
  "m_builder m1 = begin_struct name p (m_builder m) \<Longrightarrow> kept_tree mk m m1"
  "m_builder m1 = begin_variant name p tag (m_builder m) \<Longrightarrow> kept_tree mk m m1"
  using begin_opens(1-4) kept_tree_open by metis+

text \<open>The marks on an open scope.\<close>

lemma under_open_scope:
  assumes "\<And>a. core (f a) = core a"
  shows "same_under mk b (on_open_scope f b)"
proof (cases "b_stack b")
  case Nil
  then show ?thesis by (simp add: on_open_scope_def same_under_def)
next
  case (Cons nd ns)
  have c: "core (f (attr nd)) = core (attr nd)" using assms by simp
  show ?thesis using Cons c
    by (cases "length ns - mk_depth mk"; cases "mk_depth mk < Suc (length ns)")
      (auto simp: on_open_scope_def same_under_def b_restore_def look_def on_current_def current_def on_attr_def Let_def
        Suc_diff_le drop_Cons split: list.splits nat.splits)
qed

lemma core_marks [simp]:
  "core (a\<lparr>nd_bits_container := x, nd_msb_first := y\<rparr>) = core a"
  "core (a\<lparr>nd_derives := d, nd_determines := f\<rparr>) = core a"
  by (simp_all add: core_def)

lemma marks_under [simp]:
  "m_builder m1 = scope_is_bits_run msb b \<Longrightarrow> b_stack b = b_stack (m_builder m) \<Longrightarrow> b_roots b = b_roots (m_builder m) \<Longrightarrow>
     kept_tree mk m m1"
  "m_builder m1 = scope_determines_rest sf (m_builder m) \<Longrightarrow> kept_tree mk m m1"
proof -
  have b: "same_under mk (m_builder m) b" if "b_stack b = b_stack (m_builder m)" "b_roots b = b_roots (m_builder m)" for b
    using that by (rule under_same)
  show "kept_tree mk m m1" if "m_builder m1 = scope_is_bits_run msb b" "b_stack b = b_stack (m_builder m)"
    "b_roots b = b_roots (m_builder m)"
    using that under_trans [OF b [OF that(2,3)] under_open_scope [of "\<lambda>a. a\<lparr>nd_bits_container := True, nd_msb_first := msb\<rparr>"]]
    by (cases "b_stack b") (auto simp: kept_tree_def scope_is_bits_run_def intro!: under_same)
  show "kept_tree mk m m1" if "m_builder m1 = scope_determines_rest sf (m_builder m)"
    using that under_open_scope [of "\<lambda>a. a\<lparr>nd_derives := DHasRestSize, nd_determines := Some sf\<rparr>" mk "m_builder m"]
    by (cases "b_stack (m_builder m)")
      (auto simp: kept_tree_def scope_determines_rest_def root_determines_def intro!: under_same)
qed

text \<open>A field and the write to it are one node more in the innermost scope.\<close>

lemma capture_under [simp]:
  "m_builder m1 = on_last f (add_field name st e t v (m_builder m)) \<Longrightarrow> kept_tree mk m m1"
proof -
  assume m1: "m_builder m1 = on_last f (add_field name st e t v (m_builder m))"
  let ?b = "m_builder m"
  define b1 where "b1 = ?b\<lparr>b_pending_tag := - 1, b_next := b_next ?b + 1\<rparr>"
  define nd where "nd = Node ((new_attrs (b_next ?b))\<lparr>nd_name := name, nd_type := t, nd_start := st, nd_end := e,
            nd_computed := v, nd_variant_tag := b_pending_tag ?b\<rparr>) []"
  have b: "b_stack b1 = b_stack ?b" "b_roots b1 = b_roots ?b" by (simp_all add: b1_def)
  have "add_field name st e t v ?b = attach nd b1"
    by (simp add: add_field_def take_pending_tag_def nd_def b1_def)
  then have a: "m_builder m1 = on_current (\<lambda>ns. ns @ [on_attr f nd]) b1"
    using m1 by (simp add: on_last_def attach_def on_current_def split: list.splits)
  have "same_under mk b1 (on_current (\<lambda>ns. ns @ [on_attr f nd]) b1)" if "reaches mk b1"
    using that by (rule under_current(1)) blast
  then show "kept_tree mk m m1"
    using under_trans [OF under_same [of b1 ?b mk, OF b]] reaches_same [of b1 ?b mk, OF b] a
    by (simp add: kept_tree_def)
qed

text \<open>The konts that restore: to the savepoint's sizes, and at most one kont more.\<close>

lemma restore_parts:
  assumes "restore_from sp m = Some m1"
  shows "m_starts m1 = m_starts m" "m_ends m1 = m_ends m" "m_builder m1 = b_restore (sp_mark sp) (m_builder m)"
    "m_k m1 = drop (length (m_k m) - sp_ksize sp) (m_k m)" "sp_ksize sp \<le> length (m_k m)"
    "m_pos m1 = sp_pos sp" "m_idepth m1 = sp_idepth sp" "m_env m1 = sp_env sp" "m_le m1 = sp_le sp"
    "m_frames m1 = m_frames m"
  using assms by (auto simp: restore_from_def truncate_k_def split: if_splits)

lemma kept_restored:
  assumes "m_builder m1 = b_restore mk1 (m_builder m)"
  shows "kept_tree mk m m1"
  using assms under_restore by (simp add: kept_tree_def)

lemma kept_konts_cut:
  assumes "m_k m1 = J @ drop (length (m_k m) - c) (m_k m)" and "length J \<le> 1" and "c \<le> length (m_k m)"
  shows "kept_konts n m m1"
proof -
  have "n < length (m_k m1) \<Longrightarrow> n \<le> c" using assms by simp
  moreover have "n \<le> c \<Longrightarrow> drop (length (m_k m1) - n) (m_k m1) = drop (length (m_k m) - n) (m_k m)"
    using assms by (simp add: Suc_diff_le)
  ultimately show ?thesis by (simp add: kept_konts_def)
qed

lemma keeps_restored:
  assumes "m_k m1 = J @ drop (length (m_k m) - c) (m_k m)" and "length J \<le> 1" and "c \<le> length (m_k m)"
    and "m_starts m1 = m_starts m" and "m_ends m1 = m_ends m" and "m_builder m1 = b_restore mk1 (m_builder m)"
  shows "keeps_under n i mk m (Some m1)"
  using kept_konts_cut [OF assms(1-3)] kept_restored [OF assms(6)] assms(4,5) by (simp add: keeps_under_def)

lemma fail_one: "\<exists>J. m_k (m_fail msg m) = J @ m_k m \<and> length J \<le> 1"
  by (auto simp: m_fail_def Let_def push_kont_def split: option.splits)

lemma restored_under:
  assumes "restore_from sp m = Some m1"
  shows "keeps_under n i mk m (pushing [t] (m1\<lparr>m_pos := p, m_frames := fs\<rparr>))"
    and "keeps_under n i mk m (failing msg (m1\<lparr>m_frames := fs\<rparr>))"
proof -
  note r = restore_parts [OF assms]
  show "keeps_under n i mk m (pushing [t] (m1\<lparr>m_pos := p, m_frames := fs\<rparr>))"
    unfolding pushing_def by (rule keeps_restored [where J = "[t]"]) (use r in \<open>simp_all add: push_kont_def\<close>)
  obtain J where J: "m_k (m_fail msg (m1\<lparr>m_frames := fs\<rparr>)) = J @ m_k m1" "length J \<le> 1"
    using fail_one [of msg "m1\<lparr>m_frames := fs\<rparr>"] by auto
  show "keeps_under n i mk m (failing msg (m1\<lparr>m_frames := fs\<rparr>))"
    unfolding failing_def by (rule keeps_restored [where J = J]) (use r J in \<open>simp_all add: m_fail_parts\<close>)
qed

lemma restored_pushing:
  assumes "restore_from sp m = Some m1"
  shows "keeps_under n i mk m (pushing [t] (m1\<lparr>m_frames := fs\<rparr>))"
  using restored_under(1) [OF assms, where p = "m_pos m1"] by simp

lemma on_fail_under: "keeps_under n i mk m (OnFailKont_invoke target nof pop m)"
  using restored_pushing restored_under(2)
  by (auto simp: OnFailKont_invoke_def split: option.splits prod.splits)

lemma resync_under: "keeps_under n i mk m (ResyncKont_invoke body end_node m)"
  using restored_pushing restored_under
  by (auto simp: ResyncKont_invoke_def Let_def split: option.splits prod.splits)

lemma array_next_under: "keeps_under n i mk m (ArrayNextNode_invoke mode ce ue end_node body resync m)"
proof -
  have "keeps_under n i mk m (array_advance mode ce ue end_node body inner outer m1)"
    if "m_k m1 = m_k m" "m_starts m1 = m_starts m" "m_ends m1 = m_ends m" "m_builder m1 = m_builder m" for inner outer m1
    using that by (cases mode) (auto simp: array_advance_def Let_def split: option.splits list.splits frame.splits)
  then show ?thesis by (auto simp: ArrayNextNode_invoke_def Let_def split: list.splits frame.splits)
qed

lemma count_field_under:
  "count_field_of prog e m = Some m1 \<Longrightarrow> m_k m1 = m_k m \<and> m_starts m1 = m_starts m \<and> m_ends m1 = m_ends m \<and>
     b_stack (m_builder m1) = b_stack (m_builder m) \<and> b_roots (m_builder m1) = b_roots (m_builder m)"
  by (auto simp: count_field_of_def set_pending_count_field_def split: option.splits)

lemma spine_keeps_under: "keeps_under n i mk m (invoke_spine d s m)"
proof (cases s)
  case (ArrayNext mode ce ue end_node body resync)
  then show ?thesis using array_next_under by (simp add: invoke_spine_def)
next
  case (OnFail target nof pop)
  then show ?thesis using on_fail_under by (simp add: invoke_spine_def)
next
  case (Resync body end_node)
  then show ?thesis using resync_under by (simp add: invoke_spine_def)
next
  case (BeginArray name mode ce ue end_node resync nxt)
  then show ?thesis using count_field_under
    by (auto simp: invoke_spine_def BeginArrayNode_invoke_def Let_def split: option.splits)
qed (auto simp: invoke_spine_def spine_defs end_struct_def end_array_def Let_def
    split: option.splits val.splits rr.splits list.splits frame.splits prod.splits)

lemma invoke_keeps_under: "keeps_under n i mk m (invoke d x m)"
  by (simp add: invoke_def expr_keeps_under spine_keeps_under dyn_keeps_under split: kitem.splits kont.splits)

section \<open>Runs above a savepoint\<close>

text \<open>The savepoint, whatever it falls back to by now, on the frames that were there when it was pushed.\<close>

definition at_save :: "savepoint \<Rightarrow> frame list \<Rightarrow> frame list \<Rightarrow> bool" where
  "at_save sp outer fs = (case drop (length fs - Suc (length outer)) fs of
      FSave s # gs \<Rightarrow> gs = outer \<and> s\<lparr>sp_on_fail := None\<rparr> = sp\<lparr>sp_on_fail := None\<rparr> | _ \<Rightarrow> False)"

definition holds :: "savepoint \<Rightarrow> frame list \<Rightarrow> machine \<Rightarrow> bool" where
  "holds sp outer m = (at_save sp outer (m_frames m) \<and> sp_ksize sp < length (m_k m) \<and> sp_idepth sp \<le> m_idepth m \<and>
     reaches (sp_mark sp) (m_builder m))"

inductive arm_run :: "deps \<Rightarrow> savepoint \<Rightarrow> frame list \<Rightarrow> machine \<Rightarrow> machine \<Rightarrow> bool" for d sp outer m where
  start: "arm_run d sp outer m m"
| turn: "arm_run d sp outer m m1 \<Longrightarrow> cek_step d m1 m2 \<Longrightarrow> holds sp outer m2 \<Longrightarrow> arm_run d sp outer m m2"

text \<open>What the savepoint's machine and a later one share.\<close>

definition untouched :: "savepoint \<Rightarrow> machine \<Rightarrow> machine \<Rightarrow> bool" where
  "untouched sp m m1 = (let n = sp_ksize sp; i = sp_idepth sp in
     drop (length (m_k m1) - n) (m_k m1) = drop (length (m_k m) - n) (m_k m) \<and>
     i \<le> length (m_starts m1) \<and> i \<le> length (m_ends m1) \<and>
     take i (m_starts m1) = take i (m_starts m) \<and> take i (m_ends m1) = take i (m_ends m) \<and>
     same_under (sp_mark sp) (m_builder m) (m_builder m1))"

lemma untouched_step:
  assumes "untouched sp m m1" and "holds sp outer m1" and "cek_step d m1 m2" and "holds sp outer m2"
  shows "untouched sp m m2"
proof -
  let ?m = "m1\<lparr>m_k := tl (m_k m1)\<rparr>" and ?n = "sp_ksize sp"
  have t: "turn d m1 = Some m2" using assms(3) by (auto elim: cek_step_elim)
  have "keeps_under ?n (sp_idepth sp) (sp_mark sp) ?m (Some m2)"
    using invoke_keeps_under [of ?n "sp_idepth sp" "sp_mark sp" ?m d "hd (m_k m1)"] t by (simp add: turn_def)
  then have k: "kept_konts ?n ?m m2" "kept_windows (sp_idepth sp) ?m m2" "kept_tree (sp_mark sp) ?m m2"
    by (simp_all add: keeps_under_def)
  have "drop (length (tl (m_k m1)) - ?n) (tl (m_k m1)) = drop (length (m_k m1) - ?n) (m_k m1)"
    using assms(2) by (cases "m_k m1") (auto simp: holds_def Suc_diff_le)
  then have "drop (length (m_k m2) - ?n) (m_k m2) = drop (length (m_k m1) - ?n) (m_k m1)"
    using k(1) assms(2,4) by (auto simp: kept_konts_def holds_def)
  then show ?thesis using k(2,3) assms(1,2,4) under_trans
    by (auto simp: untouched_def kept_windows_def kept_tree_def holds_def Let_def)
qed

lemma arm_run_untouched:
  assumes "arm_run d sp outer m m1" and "holds sp outer m" and "untouched sp m m"
  shows "holds sp outer m1 \<and> untouched sp m m1"
  using assms by (induction rule: arm_run.induct) (auto intro: untouched_step)

lemma find_save_app: "find_save fs = Some (inner, s, outer) \<Longrightarrow> fs = inner @ FSave s # outer"
  by (induction fs arbitrary: inner rule: find_save.induct) auto

lemma saved_fields:
  assumes "at_save sp outer fs" and "find_save fs = Some (inner, s, outer)"
  shows "sp_env s = sp_env sp" "sp_pos s = sp_pos sp" "sp_le s = sp_le sp" "sp_ksize s = sp_ksize sp"
    "sp_idepth s = sp_idepth sp" "sp_mark s = sp_mark sp"
proof -
  have "s\<lparr>sp_on_fail := None\<rparr> = sp\<lparr>sp_on_fail := None\<rparr>"
    using assms(1) find_save_app [OF assms(2)] by (simp add: at_save_def)
  then show "sp_env s = sp_env sp" "sp_pos s = sp_pos sp" "sp_le s = sp_le sp" "sp_ksize s = sp_ksize sp"
    "sp_idepth s = sp_idepth sp" "sp_mark s = sp_mark sp" by (cases s; cases sp; simp)+
qed

lemma choice_opens:
  assumes "m_k m = Static k # K" and "d_prog d k = S (BeginChoice fb nxt)"
  shows "turn d m = Some (m\<lparr>m_k := Static nxt # K, m_frames := FSave (new_savepoint fb (m\<lparr>m_k := K\<rparr>)) # m_frames m\<rparr>)"
  using assms by (simp add: turn_def invoke_def invoke_spine_def BeginChoiceNode_invoke_def pushing_def push_kont_def
      push_savepoint_def new_savepoint_def)

section \<open>Backtracking\<close>

text \<open>What a cut to a mark leaves as it finds it: the attributes of the scopes that stay open, and the
  registers of the builder.\<close>

definition registers :: "builder \<Rightarrow> int \<times> string option \<times> derives \<times> string option \<times> bool \<times> bool" where
  "registers b = (b_pending_tag b, b_pending_count b, b_root_derives b, b_root_determines b, b_root_bits b, b_root_msb b)"

lemma restore_leaves:
  assumes "reaches mk b"
  shows "map attr (b_stack (b_restore mk b)) = map attr (drop (length (b_stack b) - mk_depth mk) (b_stack b))"
    and "registers (b_restore mk b) = registers b"
  using assms by (simp_all add: restore_cut on_current_def cut_def registers_def split: list.splits)

text \<open>C4: What backtracking puts back and what it leaves. When a choice opens and its arm runs for any number
  of turns, over any nested choices, calls, arrays, windows and captures, as long as the choice's savepoint
  stays and no stack falls below the sizes it recorded, then the \<open>OnFail\<close> kont that finds this savepoint
  innermost hands the next arm the cursor, environment, byte order, windows and continuation with which the
  choice was opened, and the document's scopes and fields (\<open>look\<close>: of every open scope its fields and all its
  attributes but the marks named next, and the fields of the root). Not put back, but left as the arm set them, are the marks an edit goes by
  (count, rest size and bit-field container, on open scopes and for the root) and the pending tag and count of
  the builder, so the next arm can attach the tag of a case it is not in.\<close>

theorem cek_backtrack:
  assumes "m_k m = Static k # K" and "d_prog d k = S (BeginChoice fb nxt)"
    and "m_idepth m \<le> length (m_starts m)" and "m_idepth m \<le> length (m_ends m)"
    and "turn d m = Some m1" and "arm_run d (new_savepoint fb (m\<lparr>m_k := K\<rparr>)) (m_frames m) m1 m2"
    and "m_k m2 = Static j # J" and "d_prog d j = S (OnFail (Some t) nof pop)"
    and "find_save (m_frames m2) = Some (inner, s, m_frames m)"
  shows "\<exists>m3. turn d m2 = Some m3 \<and> m_k m3 = Static t # K \<and> m_pos m3 = m_pos m \<and> m_env m3 = m_env m \<and> m_le m3 = m_le m \<and>
    m_idepth m3 = m_idepth m \<and> take (m_idepth m) (m_starts m3) = take (m_idepth m) (m_starts m) \<and>
    take (m_idepth m) (m_ends m3) = take (m_idepth m) (m_ends m) \<and> look (m_builder m3) = look (m_builder m) \<and>
    map attr (b_stack (m_builder m3)) =
      map attr (drop (length (b_stack (m_builder m2)) - length (b_stack (m_builder m))) (b_stack (m_builder m2))) \<and>
    registers (m_builder m3) = registers (m_builder m2) \<and>
    m_frames m3 = (if pop then m_frames m else inner @ FSave (s\<lparr>sp_on_fail := nof\<rparr>) # m_frames m)"
proof -
  let ?sp = "new_savepoint fb (m\<lparr>m_k := K\<rparr>)"
  have m1: "m1 = m\<lparr>m_k := Static nxt # K, m_frames := FSave ?sp # m_frames m\<rparr>"
    using choice_opens [of m k K d fb nxt] assms(1,2,5) by simp
  have sp: "sp_ksize ?sp = length K" "sp_idepth ?sp = m_idepth m" "sp_mark ?sp = b_mark (m_builder m)"
    "sp_pos ?sp = m_pos m" "sp_env ?sp = m_env m" "sp_le ?sp = m_le m" by (simp_all add: new_savepoint_def)
  have "holds ?sp (m_frames m) m1" by (simp add: holds_def m1 sp at_save_def reaches_mark)
  moreover have "untouched ?sp m1 m1" using assms(3,4) by (simp add: untouched_def m1 sp same_under_def)
  ultimately have u: "holds ?sp (m_frames m) m2" "untouched ?sp m1 m2" using arm_run_untouched [OF assms(6)] by auto
  note f = saved_fields [OF _ assms(9), of ?sp]
  have at: "at_save ?sp (m_frames m) (m_frames m2)" using u(1) by (simp add: holds_def)
  let ?m2 = "m2\<lparr>m_k := J\<rparr>"
  have le: "sp_ksize s \<le> length J" using u(1) assms(7) f(4) [OF at] by (simp add: holds_def)
  have tail: "drop (length J - length K) J = K"
    using u(2) le assms(7) f(4) [OF at] by (simp add: untouched_def sp m1 Suc_diff_le Let_def)
  obtain m3 where m3: "restore_from s ?m2 = Some m3" using le by (simp add: restore_from_def truncate_k_def)
  note r = restore_parts [OF m3]
  have "turn d m2 = OnFailKont_invoke (Some t) nof pop ?m2"
    using assms(7,8) by (simp add: turn_def invoke_def invoke_spine_def)
  then have t: "turn d m2 = Some (push_kont (Static t) (m3\<lparr>m_frames :=
      (if pop then m_frames m else inner @ FSave (s\<lparr>sp_on_fail := nof\<rparr>) # m_frames m)\<rparr>))"
    using assms(9) m3 by (simp add: OnFailKont_invoke_def pushing_def)
  have lk: "look (m_builder m3) = look (m_builder m)"
  proof -
    have "look (m_builder m3) = look (b_restore (b_mark (m_builder m)) (m_builder m2))" using r(3) f(6) [OF at] sp by simp
    also have "\<dots> = look (b_restore (b_mark (m_builder m)) (m_builder m1))"
      using u(2) sp by (simp add: untouched_def same_under_def Let_def)
    also have "\<dots> = look (m_builder m)" using restore_mark [of "m_builder m"] m1 by simp
    finally show ?thesis .
  qed
  have rest: "map attr (b_stack (m_builder m3)) =
      map attr (drop (length (b_stack (m_builder m2)) - length (b_stack (m_builder m))) (b_stack (m_builder m2)))"
    "registers (m_builder m3) = registers (m_builder m2)"
    using restore_leaves [of "b_mark (m_builder m)" "m_builder m2"] u(1) r(3) f(6) [OF at] sp
    by (simp_all add: holds_def b_mark_def)
  show ?thesis using t r lk rest f [OF at] sp tail u(2) m1
    by (simp add: push_kont_def untouched_def Let_def)
qed

text \<open>An arm that reads a byte, captures and binds it and fails its constraint; the next arm reads the same
  byte.\<close>

definition choice_konts :: "kont list" where
  "choice_konts = [S (BeginChoice (Some 8) 1), S (MatchPrimitive u8_prim 2), S (Capture (Some ''a'') 3),
     S (StoreEnv ''a'' 4), S (EvalConstraint 5 None 9), E (BinK Eq 6 7), E (Ref ''a'' None), E (IntLit 7),
     S (OnFail (Some 10) None True), S (CommitChoice 12), S (MatchPrimitive u8_prim 11), S (Capture (Some ''b'') 12), S Halt]"

fun arm_turns :: "deps \<Rightarrow> savepoint \<Rightarrow> frame list \<Rightarrow> nat \<Rightarrow> machine \<Rightarrow> machine option" where
  "arm_turns d sp outer 0 m = Some m"
| "arm_turns d sp outer (Suc n) m = (case arm_turns d sp outer n m of None \<Rightarrow> None
     | Some m1 \<Rightarrow> if \<not> running m1 then None else (case turn d m1 of None \<Rightarrow> None
         | Some m2 \<Rightarrow> if holds sp outer m2 then Some m2 else None))"

lemma arm_turns_run: "arm_turns d sp outer n m = Some m1 \<Longrightarrow> arm_run d sp outer m m1"
  by (induction n arbitrary: m1) (auto split: option.splits if_splits intro: arm_run.intros cek_step.intros)

definition choice_start :: machine where
  "choice_start = start_machine 0 [5] 1 True fresh_machine"

definition choice_save :: savepoint where
  "choice_save = new_savepoint (Some 8) (choice_start\<lparr>m_k := []\<rparr>)"

theorem cek_backtrack_witness:
  "\<exists>m1 m2 m3. turn (deps_of choice_konts) choice_start = Some m1 \<and> arm_turns (deps_of choice_konts) choice_save [] 10 m1 = Some m2 \<and>
     map (\<lambda>b. bd_name b) (m_env m2) = [''a''] \<and> m_pos m2 = 1 \<and>
     turn (deps_of choice_konts) m2 = Some m3 \<and> m_k m3 = [Static 10] \<and> m_pos m3 = 0 \<and> m_env m3 = [] \<and>
     look (m_builder m3) = look (m_builder choice_start) \<and> registers (m_builder m3) = registers (m_builder m2) \<and>
     m_frames m3 = []"
proof -
  have "(case turn (deps_of choice_konts) choice_start of None \<Rightarrow> False | Some m1 \<Rightarrow>
     (case arm_turns (deps_of choice_konts) choice_save [] 10 m1 of None \<Rightarrow> False | Some m2 \<Rightarrow>
        map (\<lambda>b. bd_name b) (m_env m2) = [''a''] \<and> m_pos m2 = 1 \<and> m_k m2 = [Static 8] \<and>
        (case find_save (m_frames m2) of Some (_, _, []) \<Rightarrow> True | _ \<Rightarrow> False)))"
    by code_simp
  then obtain m1 m2 inner s where m1: "turn (deps_of choice_konts) choice_start = Some m1"
    and m2: "arm_turns (deps_of choice_konts) choice_save [] 10 m1 = Some m2" "map (\<lambda>b. bd_name b) (m_env m2) = [''a'']"
      "m_pos m2 = 1" "m_k m2 = [Static 8]" "find_save (m_frames m2) = Some (inner, s, [])"
    by (auto split: option.splits prod.splits list.splits)
  have d: "d_prog (deps_of choice_konts) 0 = S (BeginChoice (Some 8) 1)"
    "d_prog (deps_of choice_konts) 8 = S (OnFail (Some 10) None True)"
    by (simp_all add: deps_of_def graph_of_def choice_konts_def)
  have c: "m_k choice_start = [Static 0]" "m_frames choice_start = []" "m_pos choice_start = 0" "m_env choice_start = []"
    "m_idepth choice_start = 0"
    by (simp_all add: choice_start_def start_machine_def fresh_machine_def)
  have run: "arm_run (deps_of choice_konts) (new_savepoint (Some 8) (choice_start\<lparr>m_k := []\<rparr>)) (m_frames choice_start) m1 m2"
    using arm_turns_run [OF m2(1)] c(2) by (simp add: choice_save_def)
  show ?thesis
    using m1 m2 c cek_backtrack [OF c(1) d(1) _ _ m1 run m2(4) d(2), of inner s] by auto
qed

end
