(* ===== verification/CekCases.thy ===== *)
theory CekCases
  imports CekSound
begin

text \<open>
  Dispatch on a discriminator, and whole parses of graphs laid out as \<open>backends/cek/bbq.ddcg\<close> lays them
  out in which the machine does not do what the grammar says.
\<close>

section \<open>Switches\<close>

text \<open>A discriminator a case can be compared with.\<close>

definition plain :: "val \<Rightarrow> bool" where
  "plain v = (case v of IntV _ \<Rightarrow> True | StringV _ \<Rightarrow> True | _ \<Rightarrow> False)"

lemma select_case_find: "plain v \<Longrightarrow> select_case v cases = Got (find (\<lambda>c. sc_match c = Some v) cases)"
proof (induction v cases rule: select_case.induct)
  case (2 v c cs)
  show ?case
  proof (cases "sc_match c")
    case (Some w)
    then show ?thesis using 2 by (cases v; cases w) (auto simp: plain_def split: if_splits)
  qed (use 2 in simp)
qed simp

lemma max_ordinal_max:
  "fold (\<lambda>c m. if m < sc_ordinal c then sc_ordinal c else m) cases k = Max (insert k (set (map sc_ordinal cases)))"
proof (induction cases arbitrary: k)
  case (Cons c cs)
  have "Max (insert k (insert (sc_ordinal c) A)) = Max (insert (if k < sc_ordinal c then sc_ordinal c else k) A)"
    if "finite A" for A
    using that by (cases "A = {}") (auto simp: max_def)
  then show ?case using Cons by simp
qed simp

text \<open>C20: A switch whose discriminator is an integer or a string (\<open>plain\<close>; on any other value with a case of its
  tag the machine fails) takes the first case with that value and hands its ordinal to the next capture; without
  one it takes the default with an ordinal above every case's, so a reader can tell the default from every arm;
  without a default it fails, and as any failure recovers at the innermost savepoint (section 10.1 of
  \<open>docs/CEK Machine Design.md\<close> calls a switch miss fatal). It never compares by anything but tag and value.\<close>

theorem cek_switch:
  assumes "m_result m = Some v" and "plain v"
  shows "SwitchSelectKont_invoke cases dflt reject m = (case find (\<lambda>c. sc_match c = Some v) cases of
      Some c \<Rightarrow> pushing [Static (sc_target c)] (m\<lparr>m_builder := set_pending_variant_tag (sc_ordinal c) (m_builder m)\<rparr>)
    | None \<Rightarrow> (case dflt of
        Some t \<Rightarrow> pushing [Static t] (m\<lparr>m_builder := set_pending_variant_tag
            (Max (insert (- 1) (set (map sc_ordinal cases))) + 1) (m_builder m)\<rparr>)
      | None \<Rightarrow> failing (if reject then ''switch: discriminant rejected by `default: reject`''
          else ''switch: no matching case and no default'') m))"
  using assms by (simp add: SwitchSelectKont_invoke_def select_case_find max_ordinal_def max_ordinal_max split: option.splits)

definition two_cases :: "switch_case list" where
  "two_cases = [\<lparr>sc_match = Some (IntV 4), sc_target = 10, sc_ordinal = 0\<rparr>,
     \<lparr>sc_match = Some (IntV 9), sc_target = 20, sc_ordinal = 1\<rparr>]"

theorem cek_switch_witness:
  "map_option (\<lambda>m. (hd (m_k m), b_pending_tag (m_builder m)))
     (SwitchSelectKont_invoke two_cases (Some 30) False (fresh_machine\<lparr>m_result := Some (IntV 5)\<rparr>)) = Some (Static 30, 2)"
  by (subst cek_switch [where v = "IntV 5"])
    (simp_all add: plain_def two_cases_def pushing_def push_kont_def set_pending_variant_tag_def)

section \<open>Indexing\<close>

text \<open>The index of a path is cast to a 32-bit \<open>int\<close> before the bounds test: an index \<open>2 ^ 32\<close> past an element
  is that element.\<close>

lemma index_wraps:
  assumes "slot s m = Some (Some (IntV (word_of_nat k + 0x100000000)))" and "m_result m = Some (CaptureV b)"
    and "k < length (kids b)" and "k < 2 ^ 31"
  shows "IndexAccessApplyKont_invoke s m = ac (CaptureV (kids b ! k)) m"
proof -
  have "(ucast (word_of_nat k + 0x100000000 :: i64) :: u32) = word_of_nat k"
    by (transfer, simp add: take_bit_eq_mod mod_mod_cancel)
  moreover have "sint (word_of_nat k :: u32) = int k"
    using assms(4) by (simp add: signed_of_nat signed_take_bit_int_eq_self)
  ultimately show ?thesis using assms by (simp add: IndexAccessApplyKont_invoke_def find_child_at_def)
qed

section \<open>Parses\<close>

text \<open>The outcome of a parse: success, bytes consumed, and the names and variant tags of the document's fields
  with those of their own fields.\<close>

definition fields_of :: "node \<Rightarrow> (string option \<times> int) list" where
  "fields_of n = map (\<lambda>c. (nd_name (attr c), nd_variant_tag (attr c))) (kids n)"

definition run_fields :: "kont list \<Rightarrow> nat \<Rightarrow> bytes \<Rightarrow> (bool \<times> size_t \<times> (string option \<times> int) list \<times> (string option \<times> int) list list) rr" where
  "run_fields ks fuel data = (case execute_from (deps_of ks) fuel (Some 0) data (word_of_nat (length data)) True fresh_machine of
      Got r \<Rightarrow> Got (pr_success r, pr_consumed r, (case pr_root r of None \<Rightarrow> ([], [])
        | Some n \<Rightarrow> (fields_of n, map fields_of (kids n))))
    | Rej \<Rightarrow> Rej | UB \<Rightarrow> UB)"

text \<open>\<open>Doc = struct { u: U, z: uint8 }\<close> where \<open>U\<close> is the union of \<open>many\<close>, an array of one struct whose byte \<open>t\<close>
  must be \<open>7\<close>, and \<open>one\<close>, a byte \<open>v\<close>.\<close>

definition stray_konts :: "kont list" where
  "stray_konts = [
     S (BeginStruct (Some ''u'') 1), S (InvokeRule 7 None 2), S (EndStruct 3),
     S (MatchPrimitive u8_prim 4), S (Capture (Some ''z'') 5), S (StoreEnv ''z'' 6), S (ReturnRule 32),
     S (BeginChoice (Some 8) 9), S (OnFail (Some 25) (Some 31) False),
     S (BeginVariant (Some ''many'') 0 10),
     S (BeginArray (Some ''xs'') FixedCount 11 0 21 None 12), E (IntLit 1),
     S (BeginStruct (Some '''') 13), S (MatchPrimitive u8_prim 14), S (Capture (Some ''t'') 15), S (StoreEnv ''t'' 16),
     S (EvalConstraint 17 (Some 8) 30), E (BinK Eq 18 19), E (Ref ''t'' None), E (IntLit 7),
     S (ArrayNext FixedCount 11 0 21 12 False), S (EndArray False 22),
     S (EndStruct 23), S (CommitChoice 24), S (ReturnRule 32),
     S (BeginVariant (Some ''one'') 1 26), S (MatchPrimitive u8_prim 27), S (Capture (Some ''v'') 28),
     S (StoreEnv ''v'' 29), S (EndStruct 23), S (EndStruct 20), S (OnFail None None True), S Halt]"

text \<open>A constraint that is false inside an array inside an arm of a union goes straight to the arm's
  \<open>OnFail\<close> kont, which leaves the array's loop frame on top of the union's savepoint: the next arm's commit
  then pops nothing and the rule returns to nobody. In a document of a union and a byte \<open>z\<close>, an input
  that fits the first arm parses as both; an input that fits the second ends in success with its last byte
  unread and an empty document.\<close>

lemma stray_loop_frame:
  "run_fields stray_konts 80 [7, 9] = Got (True, 2, [(Some ''u'', - 1), (Some ''z'', - 1)], [[(Some ''many'', 0)], []]) \<and>
   run_fields stray_konts 80 [5, 9] = Got (True, 1, [], [])"
proof
  show "run_fields stray_konts 80 [7, 9] = Got (True, 2, [(Some ''u'', - 1), (Some ''z'', - 1)], [[(Some ''many'', 0)], []])"
    by code_simp
  show "run_fields stray_konts 80 [5, 9] = Got (True, 1, [], [])" by code_simp
qed

text \<open>C21: What a constraint that fails inside an array does to the choice around it. If the frames above the
  choice's savepoint start with a loop frame when the arm's \<open>OnFail\<close> kont runs, then the next arm starts with all
  of them still there; when that arm comes to its end with the frames it started with, its commit leaves the
  savepoint and every other frame in place, and the return from the rule pops no return frame: it goes on at the
  end of the rule's own code instead of in its caller.\<close>

theorem stray_frames:
  assumes "find_save (m_frames m) = Some (FLoop lf # inner, sp, outer)"
    and "m_k m = Static i # I" and "d_prog d i = S (OnFail (Some t) nof False)" and "turn d m = Some m1"
    and "m_frames m2 = m_frames m1" and "m_k m2 = Static j # J" and "d_prog d j = S (CommitChoice nx)" and "turn d m2 = Some m3"
    and "m_frames m4 = m_frames m3" and "m_k m4 = Static k # K" and "d_prog d k = S (ReturnRule own)"
  shows "m_frames m1 = FLoop lf # inner @ FSave (sp\<lparr>sp_on_fail := nof\<rparr>) # outer \<and> m_frames m3 = m_frames m1 \<and>
    (\<exists>m5. turn d m4 = Some m5 \<and> m_frames m5 = m_frames m1 \<and> m_k m5 = Static own # K)"
proof -
  note defs = turn_def invoke_def invoke_spine_def pushing_def push_kont_def
  have 1: "m_frames m1 = FLoop lf # inner @ FSave (sp\<lparr>sp_on_fail := nof\<rparr>) # outer"
    using assms(1-4) by (auto simp: defs OnFailKont_invoke_def split: option.splits)
  then have "m_frames m3 = m_frames m1"
    using assms(5-8) by (auto simp: defs CommitChoiceNode_invoke_def)
  then show ?thesis using 1 assms(9-11) by (auto simp: defs ReturnRuleNode_invoke_def)
qed

text \<open>The failing parse: the constraint fails in turn 18, the second arm commits in turn 25 and the rule returns
  in turn 26.\<close>

fun turns :: "deps \<Rightarrow> nat \<Rightarrow> machine \<Rightarrow> machine option" where
  "turns d 0 m = Some m"
| "turns d (Suc n) m = Option.bind (turns d n m) (turn d)"

definition stray_machine :: "nat \<Rightarrow> machine" where
  "stray_machine n = the (turns (deps_of stray_konts) n (start_machine 0 [5, 9] 2 True fresh_machine))"

lemma stray_turns:
  "turns (deps_of stray_konts) 26 (start_machine 0 [5, 9] 2 True fresh_machine) \<noteq> None"
  "m_k (stray_machine 18) = [Static 8]" "m_k (stray_machine 24) = [Static 23]" "m_k (stray_machine 25) = [Static 24]"
  "m_frames (stray_machine 24) = m_frames (stray_machine 19)"
  "(case find_save (m_frames (stray_machine 18)) of Some ([FLoop lf], sp, outer) \<Rightarrow> True | _ \<Rightarrow> False)"
  by code_simp+

lemma turns_less: "turns d n m \<noteq> None \<Longrightarrow> k \<le> n \<Longrightarrow> turns d k m \<noteq> None"
  by (induction n) (auto simp: le_Suc_eq bind_eq_Some_conv)

lemma stray_step:
  assumes "n < 26"
  shows "turn (deps_of stray_konts) (stray_machine n) = Some (stray_machine (Suc n))"
  using turns_less [OF stray_turns(1), of n] turns_less [OF stray_turns(1), of "Suc n"] assms
  by (auto simp: stray_machine_def)

theorem stray_frames_witness:
  "m_frames (stray_machine 26) = m_frames (stray_machine 19) \<and> m_k (stray_machine 26) = [Static 32] \<and>
   (\<exists>lf sp outer. m_frames (stray_machine 26) = FLoop lf # FSave sp # outer)"
proof -
  let ?d = "deps_of stray_konts"
  obtain lf sp outer where f: "find_save (m_frames (stray_machine 18)) = Some ([FLoop lf], sp, outer)"
    using stray_turns(6) by (auto split: option.splits prod.splits list.splits frame.splits)
  have g: "d_prog ?d 8 = S (OnFail (Some 25) (Some 31) False)" "d_prog ?d 23 = S (CommitChoice 24)"
    "d_prog ?d 24 = S (ReturnRule 32)"
    by (simp_all add: deps_of_def graph_of_def stray_konts_def)
  have s: "turn ?d (stray_machine 18) = Some (stray_machine 19)" "turn ?d (stray_machine 24) = Some (stray_machine 25)"
    "turn ?d (stray_machine 25) = Some (stray_machine 26)"
    using stray_step [of 18] stray_step [of 24] stray_step [of 25] by simp_all
  show ?thesis
    using stray_frames [OF f stray_turns(2) g(1) s(1) stray_turns(5,3) g(2) s(2) refl stray_turns(4) g(3)] s(3) by simp
qed

text \<open>An array of \<open>count(2)\<close> elements with \<open>resync\<close>: the count check looks for its loop frame under no
  savepoint, fails after every element and resynchronises, so the array ends at the end of the input or
  not at all.\<close>

definition count_konts :: "kont list" where
  "count_konts = [
     S (BeginArray (Some ''xs'') CountMode 1 0 5 (Some 6) 2), E (IntLit 2),
     S (MatchPrimitive u8_prim 3), S (Capture None 4), S (ArrayNext CountMode 1 0 5 2 True), S (EndArray True 7),
     S (Resync 2 5), S (ReturnRule 8), S Halt]"

theorem counted_resync:
  "run_fields count_konts 100 [7, 9] = Got (False, 2, [], [])"
  "run_fields count_konts 100 [7, 9, 8, 10] = Got (True, 4, [(Some ''xs'', - 1)], [[(None, - 1), (None, - 1)]])"
  by code_simp+

text \<open>A switch hands its ordinal to the next capture through the builder, and backtracking does not take it
  back: when the arm fails before it captures anything, a plain field of the next alternative carries it.\<close>

definition leak_konts :: "kont list" where
  "leak_konts = [
     S (BeginChoice (Some 8) 1), S (BeginVariant (Some ''a'') 0 2), S (MatchPrimitive u8_prim 3), S (StoreEnv ''t'' 4),
     S (SwitchDispatch 5 [\<lparr>sc_match = Some (IntV 1), sc_target = 6, sc_ordinal = 3\<rparr>] None False), E (Ref ''t'' None),
     S (MatchPrimitive u8_prim 7), S (Capture (Some ''x'') 12),
     S (OnFail (Some 9) (Some 13) False), S (BeginVariant (Some ''b'') 1 10), S (MatchPrimitive u8_prim 11),
     S (Capture (Some ''v'') 12), S (EndStruct 14), S (OnFail None None True), S (CommitChoice 15), S (ReturnRule 16), S Halt]"

theorem variant_tag_leaks:
  "run_fields leak_konts 60 [2] = Got (True, 1, [(Some ''b'', 1)], [[(Some ''v'', - 1)]])"
  "run_fields leak_konts 60 [1] = Got (True, 1, [(Some ''b'', 1)], [[(Some ''v'', 3)]])"
  by code_simp+

text \<open>\<open>EndArray\<close> puts back the environment of the array's start and leaves the byte order its elements set.\<close>

lemma end_array_keeps_endian: "EndArrayNode_invoke resync nxt m = Some m1 \<Longrightarrow> m_le m1 = m_le m"
  by (auto simp: EndArrayNode_invoke_def pushing_def push_kont_def on_builder_def failing_def m_fail_def Let_def
      split: list.splits frame.splits option.splits if_splits)

end
