(* ===== verification/CekMeaning.thy ===== *)
theory CekMeaning
  imports CekEval CekSound
begin

text \<open>
  The refinement of \<open>CekEval\<close> as properties of the machine: the value of an expression and its failures.
\<close>

text \<open>\<open>n + 3 > 4 && abs(-n) == n\<close>, and \<open>7 / n\<close>, with the reference \<open>n\<close> bound to \<open>2\<close> or \<open>0\<close>.\<close>

definition expr_konts :: "kont list" where
  "expr_konts = [E (LAndK 1 6), E (BinK Gt 2 5), E (BinK Add 3 4), E (Ref ''n'' None), E (IntLit 3), E (IntLit 4),
     E (BinK Eq 7 3), E (CallK ''abs'' [8]), E (UnK Neg 3), E (BinK Div 10 3), E (IntLit 7)]"

definition expr_tree :: ex where
  "expr_tree = XAnd (XBin Gt (XBin Add (XRef ''n'') (XLit (IntV 3))) (XLit (IntV 4)))
     (XBin Eq (XCall ''abs'' [XUn Neg (XRef ''n'')]) (XRef ''n''))"

definition quot_tree :: ex where
  "quot_tree = XBin Div (XLit (IntV 7)) (XRef ''n'')"

definition expr_machine :: "kid \<Rightarrow> i64 \<Rightarrow> machine" where
  "expr_machine k n = fresh_machine\<lparr>m_k := [Static k, Dyn Normalize], m_env := [\<lparr>bd_name = ''n'',
     bd_value = Some (IntV n), bd_start = 0, bd_end = 1, bd_type = UInt8\<rparr>]\<rparr>"

lemma expr_denotes:
  "denotes (d_prog (deps_of expr_konts)) 0 expr_tree" "denotes (d_prog (deps_of expr_konts)) 9 quot_tree"
proof -
  let ?g = "graph_of expr_konts"
  have g: "?g 0 = E (LAndK 1 6)" "?g 1 = E (BinK Gt 2 5)" "?g 2 = E (BinK Add 3 4)" "?g 3 = E (Ref ''n'' None)"
    "?g 4 = E (IntLit 3)" "?g 5 = E (IntLit 4)" "?g 6 = E (BinK Eq 7 3)" "?g 7 = E (CallK ''abs'' [8])"
    "?g 8 = E (UnK Neg 3)" "?g 9 = E (BinK Div 10 3)" "?g 10 = E (IntLit 7)"
    by (simp_all add: graph_of_def expr_konts_def)
  have n: "denotes ?g 3 (XRef ''n'')" using g by (blast intro: denotes.intros)
  have l: "denotes ?g 4 (XLit (IntV 3))" "denotes ?g 5 (XLit (IntV 4))" "denotes ?g 10 (XLit (IntV 7))"
    using g by (blast intro: denotes.intros)+
  have u: "denotes ?g 8 (XUn Neg (XRef ''n''))" using g(9) n by (rule denotes.un)
  have c: "denotes ?g 7 (XCall ''abs'' [XUn Neg (XRef ''n'')])"
    by (rule denotes.call [where args = "[8]"]) (use g(8) u in simp_all)
  have q: "denotes ?g 2 (XBin Add (XRef ''n'') (XLit (IntV 3)))" using g(3) n l(1) by (rule denotes.bin)
  have w: "denotes ?g 1 (XBin Gt (XBin Add (XRef ''n'') (XLit (IntV 3))) (XLit (IntV 4)))"
    using g(2) q l(2) by (rule denotes.bin)
  have e: "denotes ?g 6 (XBin Eq (XCall ''abs'' [XUn Neg (XRef ''n'')]) (XRef ''n''))"
    using g(7) c n by (rule denotes.bin)
  show "denotes (d_prog (deps_of expr_konts)) 0 expr_tree"
    unfolding expr_tree_def deps_of_def deps.simps using g(1) w e by (rule denotes.conj)
  show "denotes (d_prog (deps_of expr_konts)) 9 quot_tree"
    unfolding quot_tree_def deps_of_def deps.simps using g(10) l(3) n by (rule denotes.bin)
qed

lemma computes_refines:
  "computes d k x \<Longrightarrow> m_k m = Static k # K \<Longrightarrow> \<not> m_failed m \<Longrightarrow>
   comes_to d m K (eval d (view m) x (b_next (m_builder m)))"
  by (simp add: computes_def)

text \<open>C2: The machine computes every expression of the language: when the kont on top of the stack is the
  root of an expression that has a value - by the evaluator over mathematical integers, doubles, strings
  and captures, with short circuits, calls and paths - the machine comes to a state with that value in the
  accumulator and the rest of the stack untouched. Nothing else has changed but fresh operand slots at the
  end of the arena and the address of the builder's next node. The value is the one the code gives: an integer
  and a double are added, compared and so on as doubles, where section 6.2 of \<open>docs/CEK Machine Design.md\<close> has
  arithmetic and ordered comparisons of the two fail and \<open>==\<close> of the two be false.\<close>

theorem cek_expression_value:
  assumes "deps_ok d" and "denotes (d_prog d) k x" and "m_k m = Static k # K" and "\<not> m_failed m"
    and "eval d (view m) x (b_next (m_builder m)) = (Val v, n)"
  shows "\<exists>ss. (cek_step d)\<^sup>*\<^sup>* m (st m K v ss n)"
  using computes_refines [OF denotes_computes [OF assms(1,2)] assms(3,4)] assms(5) by (simp add: comes_to_def)

theorem cek_expression_value_witness:
  "\<exists>ss n. (cek_step (deps_of expr_konts))\<^sup>*\<^sup>* (expr_machine 0 2) (st (expr_machine 0 2) [Dyn Normalize] (Some (BoolV True)) ss n)"
proof -
  have v: "eval (deps_of expr_konts) (view (expr_machine 0 2)) expr_tree (b_next (m_builder (expr_machine 0 2))) =
      (Val (Some (BoolV True)), 0)" by code_simp
  have k: "m_k (expr_machine 0 2) = Static 0 # [Dyn Normalize]" "\<not> m_failed (expr_machine 0 2)"
    by (simp_all add: expr_machine_def fresh_machine_def)
  show ?thesis using cek_expression_value [OF deps_of_ok expr_denotes(1) k v] by blast
qed

text \<open>C17: An expression that fails - a type error, a division by zero, an unknown name or function, a path
  that leads nowhere - makes the machine fail with that message, at the same cursor, windows, environment
  and frames, so that the failure recovers at the savepoint that was innermost before the expression. This is
  what the code does; section 10.1 of \<open>docs/CEK Machine Design.md\<close> lists type errors, divisions by zero and
  undefined references as fatal, not as failures a choice recovers from.\<close>

theorem cek_expression_error:
  assumes "deps_ok d" and "denotes (d_prog d) k x" and "m_k m = Static k # K" and "\<not> m_failed m"
    and "eval d (view m) x (b_next (m_builder m)) = (Err msg, n)"
  shows "\<exists>J w ss. (cek_step d)\<^sup>*\<^sup>* m (m_fail msg (st m (J @ K) w ss n))"
  using computes_refines [OF denotes_computes [OF assms(1,2)] assms(3,4)] assms(5) by (simp add: comes_to_def)

theorem cek_expression_error_witness:
  "\<exists>J w ss n. (cek_step (deps_of expr_konts))\<^sup>*\<^sup>* (expr_machine 9 0)
     (m_fail ''division by zero'' (st (expr_machine 9 0) (J @ [Dyn Normalize]) w ss n))"
proof -
  have v: "eval (deps_of expr_konts) (view (expr_machine 9 0)) quot_tree (b_next (m_builder (expr_machine 9 0))) =
      (Err ''division by zero'', 0)" by code_simp
  have k: "m_k (expr_machine 9 0) = Static 9 # [Dyn Normalize]" "\<not> m_failed (expr_machine 9 0)"
    by (simp_all add: expr_machine_def fresh_machine_def)
  show ?thesis using cek_expression_error [OF deps_of_ok expr_denotes(2) k v] by blast
qed

text \<open>C19: The sixteen binary operators: whatever the operands' types, the apply kont's outcome is the
  operator's meaning: on two integers the exact result when it is an \<open>int64_t\<close> and undefined behaviour (no
  outcome) when it is not or the shift count is none, a failure on a division by zero, double arithmetic and
  comparison as soon as one operand is a double and the other a number, byte order for strings, equality for the
  rest, and otherwise the operator's type error. The promotion of an integer next to a double is the code's;
  section 6.2 of \<open>docs/CEK Machine Design.md\<close> has such operands fail, or be unequal.\<close>

theorem cek_operators: "apply_binop fl op r m = outcome_of m (bin_sem fl op (m_result m) r)"
  by (rule bin_op_sem)

end
