(* ===== verification/Spec2Isabelle.thy ===== *)
theory Spec2Isabelle
  imports Prelude Ast Sema SemaSort SemaTypes Lower LowerSafe LowerTotal LowerExpr TypeSound Alloc Vec Maps Hmap Htree Dict Buf Arena Stack ReadCtx Cursor Decode Decoder ReadMachine Owned WriteCtx WriteState
    Encoder RoundTrip Holes Doc CekTypes CekExpr CekSpine CekDecode CekSafe CekSound
    CekBacktrack CekCases CekEval CekMeaning
begin

text \<open>
  BBQ compiles a declarative description of a binary format into readers, writers and document trees.
  A grammar is parsed into a tree (\<open>src/frontend/BBQ_AST.h\<close>), checked (\<open>src/frontend/Sema.cpp\<close>) and lowered
  to a graph of continuations, the konts (\<open>src/backends/cek\<close>). The graph is either run directly over an
  input by the CEK machine, which builds a tree of captures, or printed as C or C++ that calls a small
  runtime (\<open>src/backends/c/runtime\<close>, \<open>src/backends/cpp/runtime\<close>). The C runtime and the tools stand on a
  library of containers (\<open>src/crt\<close>) in which running out of memory is an answer, not an abort. The
  development models these parts as the code has them and proves what they promise each other.

  \<^bold>\<open>Conventions.\<close> A machine integer is a word of its width, read with \<open>uint\<close> or \<open>sint\<close>; \<open>size_t\<close> is 64 bits.
  Undefined behaviour is an outcome of its own (\<open>UB\<close>, or \<open>None\<close> where the routine has no other failure):
  a read outside the input, a store outside a block, a signed overflow, a bad shift, a null or dangling
  pointer. Proving safety is proving that this outcome does not occur. A refusal is a value as well:
  \<open>Rej\<close> for a parse failure, \<open>False\<close> for a call that returns false. Loops are structural recursions or
  \<open>function\<close>s with a measure; loops that are only bounded by the data they run over (the probe of a hash
  table, doubling a capacity, following an edge of a graph) are \<open>partial_function\<close>s, and that they return
  is proved. The only fuel is the number of turns given to \<open>CekSpine.trampoline\<close>: the trampoline of the
  code has no bound, since a grammar can loop, so the properties about it hold for every number of turns.

  \<^bold>\<open>Memory and containers (src/crt).\<close>
  \<^item> \<open>Prelude\<close>: the integer types, outcomes, bounded doubling of a capacity, blocks of memory as lists of
    cells, and the collections \<open>word_nat\<close> and \<open>ctx_simps\<close> the proofs use.
  \<^item> \<open>Alloc\<close> (\<open>bbq_alloc.h\<close>, \<open>bbq_alloc.c\<close>): libc is a schedule of answers; budgets and fault injection are
    the wrappers of the code over it. The invariant \<open>accounts\<close> ties what is charged to what is held.
  \<^item> \<open>Vec\<close> (\<open>bbq_vec.h\<close>, \<open>bbq_vec.c\<close>): the vector with a hidden header and a poison state. The locale
    \<open>push_seq\<close> states what a sequence that poisons promises and is interpreted on the vector and, in
    \<open>Buf\<close>, on the byte buffer.
  \<^item> \<open>Maps\<close>: the contract of a lookup table as two locales, \<open>ptr_map\<close> and \<open>ptr_map_del\<close>, over an abstract
    partial function. \<open>Hmap\<close> (\<open>bbq_hmap.c\<close>), \<open>Htree\<close> (\<open>bbq_htree.c\<close>) and \<open>Dict\<close> (\<open>bbq_dict.c\<close>) are models
    of the three tables, each with an interpretation: any program of calls answers as the partial function
    does. \<open>Dict\<close> uses the refinement of \<open>Htree\<close>, its index; hash function and seed are arguments.
  \<^item> \<open>Buf\<close> (\<open>bbq_buf.c\<close>) and \<open>Arena\<close> (\<open>bbq_arena.c\<close>): the byte buffer and the page allocator.

  \<^bold>\<open>The C reader (backends/c/runtime/bbq_read.h).\<close>
  \<^item> \<open>Stack\<close> and \<open>ReadCtx\<close>: the context with its stacks (scopes, loops, loop bases, windows) over \<open>Vec\<close> and
    every operation on them; the locale \<open>lifo\<close> is the contract of a stack, interpreted on three of the reader's
    stacks in \<open>ReadMachine\<close> and on three of the writer's in \<open>Holes\<close>. \<open>Cursor\<close>: each operation refines the
    one on the abstract cursor of lists and numbers. \<open>Decode\<close>: the decoders. \<open>Decoder\<close>: what each accepts,
    for fixed-width integers, LEB128 and floats. \<open>ReadMachine\<close>: all operations as one machine; safety,
    refinement, checkpoints.
  \<^item> \<open>Owned\<close>: the owned copies and growing arrays of \<open>bbq_runtime.h\<close>.

  \<^bold>\<open>The C writer (backends/c/runtime/bbq_runtime.h).\<close> \<open>WriteCtx\<close> has the output buffer and the primitive writers,
  \<open>WriteState\<close> the stacks and the holes for counts and sizes. \<open>Encoder\<close> and \<open>RoundTrip\<close>: every writer appends
  its encoding and every decoder inverts it (the locale \<open>codec\<close>, interpreted for the runtime's pairs).
  \<open>Holes\<close>: seeking, computed sizes and counts.

  \<^bold>\<open>The document and the CEK machine (backends/cek, backends/cpp/runtime).\<close>
  \<^item> \<open>Doc\<close> (\<open>Capture.h\<close>, \<open>CaptureDecode.h\<close>, \<open>CaptureCow.h\<close>): nodes, the readers of leaf bytes and the
    builder with mark and restore.
  \<^item> \<open>CekTypes\<close> (\<open>KontNode.h\<close>, \<open>bbq_ir.asdl\<close>, \<open>Environment.h\<close>, \<open>Frame.h\<close>, \<open>Machine.h\<close>): konts, frames and the
    machine's registers. \<open>CekExpr\<close> and \<open>CekSpine\<close> (\<open>Machine.cpp\<close>): \<open>invoke\<close> of every kont, and the trampoline.
    Doubles are bit patterns and their arithmetic the record \<open>floats\<close>, an argument; so are the external
    parsers.
  \<^item> \<open>CekSafe\<close> and \<open>CekSound\<close>: a typing of graphs and the machine's invariant. Turns keep it; \<open>risky\<close> names the
    konts whose code has undefined behaviour at all and \<open>faulty\<close> the operands and registers on which it does, the
    only states without a next one. \<open>CekEval\<close> and \<open>CekMeaning\<close>: an evaluator over expression trees, and that the
    machine computes it. \<open>CekBacktrack\<close>: what \<open>OnFail\<close> puts back and what it leaves. \<open>CekCases\<close>: switches, the
    frames a failed constraint leaves behind, and whole parses. \<open>CekDecode\<close>: the machine and the C reader decode alike.
    Where \<open>docs/CEK Machine Design.md\<close> and the code differ (mixed integers and floats, section 6.2; which errors
    are fatal, section 10.1), the definitions and the properties follow the code and say so.

  \<^bold>\<open>The frontend (frontend, backends/cek/bbq_compile.h).\<close>
  \<^item> \<open>Ast\<close> (\<open>BBQ_AST.h\<close>): the syntax tree. \<open>Sema\<close>, \<open>SemaSort\<close>, \<open>SemaTypes\<close> (\<open>Sema.cpp\<close>): the checks of phases
    1 to 3 and of switches; the sort of the rules by their dependencies (phase 4), exact whatever the order
    the unordered containers are traversed in; the kinds of expressions (phase 7).
  \<^item> \<open>Lower\<close> (\<open>bbq_compile.h\<close>): the lowering of a grammar to konts, the back edges patched and the calls linked.
    \<open>LowerSafe\<close>: what it makes is well formed in the sense of \<open>CekSafe\<close>. \<open>LowerTotal\<close>: it succeeds on every
    grammar the analysis accepts, so that parses by an accepted grammar are safe. \<open>LowerExpr\<close>: a lowered expression
    computes its tree. \<open>TypeSound\<close>: what the analysis gives a type has values of that type when the machine
    runs it, and the two places where this fails: string fields and computed fields of another kind.

  \<^bold>\<open>What the lemmas show.\<close> Invariants and their preservation carry the names \<open>_ok\<close> and \<open>_inv\<close>, the
  functional behaviour of an operation on all its branches \<open>_spec\<close>. The claims C1, C2, ... are stated in
  the theories of their components, with a witness at a concrete input beside each.

  \<^bold>\<open>Bounds.\<close> Inputs of the CEK machine are shorter than \<open>2 ^ 62\<close> bytes, so that a position plus the width of a
  primitive is exact; a read context takes any input whose length is a \<open>size_t\<close>. The counters of the reader's
  and the writer's loops are \<open>int64_t\<close>: a step past \<open>INT64_MAX\<close> is undefined behaviour, and the reader's properties
  are about runs that take no such step and make unchecked seeks (\<open>bbq_seek\<close>) only into the input (\<open>dutiful\<close>; for
  programs of operations, \<open>within\<close>). A prefix of a fixed width has at most eight bytes, beyond which the shift
  that makes its bytes is undefined.

  \<^bold>\<open>Not modelled.\<close> Of the analysis, the warnings about forward references (phase 5), the resolution of
  references into other rules (phase 8) and the facts it keeps for the emitters. Editing of a finished document (copy on write, serialisation). The e-graph runtime, the PEG
  analysis and the reader of the lite backend. Printers of code (the C and C++ emitters, opgen, burgc,
  pegc, asdl, ddcgc), which produce text through templates; the parsers, which are generated; jitterator,
  the Python bindings and the command line tool, which are bound to files, object code or the host
  language. Message texts and source locations.
\<close>

end
